(* ===== verification/Prelude.thy ===== *)
theory Prelude
  imports Main "HOL-Library.Word"
begin

unbundle bit_operations_syntax

text \<open>
  Shared vocabulary of the development: the kernel's error codes
  (asp3\_dcre/include/t\_stddef.h), the result of a service call, the object attributes and
  mode bits (asp3\_dcre/include/kernel.h), and generic lemmas on lists and function updates
  that the components share. The collections \<open>frame\<close> (which part of the state an operation
  leaves alone) and \<open>pres\<close> (which invariant an operation preserves) are filled by the
  component theories.
\<close>

named_theorems frame "fields an operation leaves unchanged"
named_theorems pres "invariants an operation preserves"

section \<open>Error codes and results\<close>

text \<open>The \<open>ER\<close> codes a kernel function can return; \<open>ER_code\<close> is the value of the C macro.\<close>

datatype er = E_OK | E_SYS | E_RSATR | E_PAR | E_ID | E_CTX | E_ILUSE | E_NOMEM | E_NOID
  | E_OBJ | E_NOEXS | E_QOVR | E_RLWAI | E_TMOUT | E_DLT | E_RASTER

primrec ER_code :: "er \<Rightarrow> int" where
  "ER_code E_OK = 0"
| "ER_code E_SYS = -5"
| "ER_code E_RSATR = -11"
| "ER_code E_PAR = -17"
| "ER_code E_ID = -18"
| "ER_code E_CTX = -25"
| "ER_code E_ILUSE = -28"
| "ER_code E_NOMEM = -33"
| "ER_code E_NOID = -34"
| "ER_code E_OBJ = -41"
| "ER_code E_NOEXS = -42"
| "ER_code E_QOVR = -43"
| "ER_code E_RLWAI = -49"
| "ER_code E_TMOUT = -50"
| "ER_code E_DLT = -51"
| "ER_code E_RASTER = -53"

text \<open>
  What a service call does for its caller. \<open>Ret e\<close>: it returns the code \<open>e\<close>. \<open>RetUint n\<close>: an
  \<open>ER_UINT\<close> function returns the non-negative value \<open>n\<close>. \<open>Blocked\<close>: the caller is suspended
  inside \<open>dispatch()\<close>; when it runs again the call returns the \<open>wercd\<close> of its wait.
  \<open>NoReturn\<close>: the caller has terminated.
\<close>

datatype svc = Ret er | RetUint int | Blocked | NoReturn

section \<open>Attributes and modes\<close>

type_synonym ATR = "32 word"

abbreviation TA_NOEXS :: ATR where "TA_NOEXS \<equiv> - 1"
abbreviation TA_TPRI :: ATR where "TA_TPRI \<equiv> 1"
abbreviation TA_ACT :: ATR where "TA_ACT \<equiv> 1"
abbreviation TA_NOACTQUE :: ATR where "TA_NOACTQUE \<equiv> 2"
abbreviation TA_WMUL :: ATR where "TA_WMUL \<equiv> 2"
abbreviation TA_CLR :: ATR where "TA_CLR \<equiv> 4"
abbreviation TA_CEILING :: ATR where "TA_CEILING \<equiv> 3"
abbreviation TA_STA :: ATR where "TA_STA \<equiv> 2"
abbreviation TA_MEMALLOC :: ATR where "TA_MEMALLOC \<equiv> 0x8000"
abbreviation TA_MBALLOC :: ATR where "TA_MBALLOC \<equiv> 0x4000"

section \<open>Lists\<close>

lemma remove1_append_notin [simp]: "x \<notin> set xs \<Longrightarrow> remove1 x (xs @ ys) = xs @ remove1 x ys"
  by (simp add: remove1_append)

lemma set_remove1_distinct [simp]: "distinct xs \<Longrightarrow> set (remove1 x xs) = set xs - {x}"
  by (rule set_remove1_eq)

lemma remove1_notin_id [simp]: "x \<notin> set xs \<Longrightarrow> remove1 x xs = xs"
  by (rule remove1_idem)

lemma hd_append_neq [simp]: "xs \<noteq> [] \<Longrightarrow> hd (xs @ ys) = hd xs"
  by simp

lemma tl_subset: "set (tl xs) \<subseteq> set xs"
  by (cases xs) auto

end
