(* ===== verification/Queue.thy ===== *)
theory Queue
  imports Prelude
begin

text \<open>
  The circular doubly linked queue of asp3\_dcre/include/queue.h, at two levels.
  \<open>qmem\<close> is the memory of the \<open>p_next\<close> and \<open>p_prev\<close> fields of all queue nodes, and the
  operations assign to it in the order of the C code. \<open>ring\<close> says which entries hang on a
  header. The list family \<open>'h \<Rightarrow> 'n list\<close> (the entries of every header) is what the kernel
  theories use: its operations are named \<open>lq_\<dots>\<close>. The locale \<open>queue_impl\<close> states the contract of
  the queue; both levels are interpretations, so the pointer code refines the lists.
\<close>

section \<open>The pointer code\<close>

record 'a qmem =
  p_next :: "'a \<Rightarrow> 'a"
  p_prev :: "'a \<Rightarrow> 'a"

definition queue_initialize :: "'a \<Rightarrow> 'a qmem \<Rightarrow> 'a qmem" where
  "queue_initialize p_queue m =
     (let m1 = m\<lparr>p_prev := (p_prev m)(p_queue := p_queue)\<rparr>
      in m1\<lparr>p_next := (p_next m1)(p_queue := p_queue)\<rparr>)"

definition queue_insert_prev :: "'a \<Rightarrow> 'a \<Rightarrow> 'a qmem \<Rightarrow> 'a qmem" where
  "queue_insert_prev p_queue p_entry m =
     (let m1 = m\<lparr>p_prev := (p_prev m)(p_entry := p_prev m p_queue)\<rparr>;
          m2 = m1\<lparr>p_next := (p_next m1)(p_entry := p_queue)\<rparr>;
          m3 = m2\<lparr>p_next := (p_next m2)(p_prev m2 p_queue := p_entry)\<rparr>
      in m3\<lparr>p_prev := (p_prev m3)(p_queue := p_entry)\<rparr>)"

definition queue_insert_next :: "'a \<Rightarrow> 'a \<Rightarrow> 'a qmem \<Rightarrow> 'a qmem" where
  "queue_insert_next p_queue p_entry m =
     (let m1 = m\<lparr>p_prev := (p_prev m)(p_entry := p_queue)\<rparr>;
          m2 = m1\<lparr>p_next := (p_next m1)(p_entry := p_next m1 p_queue)\<rparr>;
          m3 = m2\<lparr>p_prev := (p_prev m2)(p_next m2 p_queue := p_entry)\<rparr>
      in m3\<lparr>p_next := (p_next m3)(p_queue := p_entry)\<rparr>)"

definition queue_delete :: "'a \<Rightarrow> 'a qmem \<Rightarrow> 'a qmem" where
  "queue_delete p_entry m =
     (let m1 = m\<lparr>p_next := (p_next m)(p_prev m p_entry := p_next m p_entry)\<rparr>
      in m1\<lparr>p_prev := (p_prev m1)(p_next m1 p_entry := p_prev m1 p_entry)\<rparr>)"

definition queue_delete_next :: "'a \<Rightarrow> 'a qmem \<Rightarrow> 'a \<times> 'a qmem" where
  "queue_delete_next p_queue m =
     (let p_entry = p_next m p_queue;
          m1 = m\<lparr>p_next := (p_next m)(p_queue := p_next m p_entry)\<rparr>
      in (p_entry, m1\<lparr>p_prev := (p_prev m1)(p_next m1 p_entry := p_queue)\<rparr>))"

definition queue_empty :: "'a \<Rightarrow> 'a qmem \<Rightarrow> bool" where
  "queue_empty p_queue m \<longleftrightarrow> p_next m p_queue = p_queue"

section \<open>Rings\<close>

text \<open>
  \<open>qpath m a xs b\<close>: following \<open>p_next\<close> from \<open>a\<close> visits \<open>xs\<close> and then \<open>b\<close>, and each \<open>p_prev\<close>
  on the way points back.
\<close>

primrec qpath :: "'a qmem \<Rightarrow> 'a \<Rightarrow> 'a list \<Rightarrow> 'a \<Rightarrow> bool" where
  "qpath m a [] b \<longleftrightarrow> p_next m a = b \<and> p_prev m b = a"
| "qpath m a (x # xs) b \<longleftrightarrow> p_next m a = x \<and> p_prev m x = a \<and> qpath m x xs b"

definition ring :: "'a qmem \<Rightarrow> 'a \<Rightarrow> 'a list \<Rightarrow> bool" where
  "ring m q xs \<longleftrightarrow> distinct (q # xs) \<and> qpath m q xs q"

lemma qpath_append:
  "qpath m a (xs @ x # ys) b \<longleftrightarrow> qpath m a xs x \<and> qpath m x ys b"
  by (induction xs arbitrary: a) auto

lemma qpath_snoc:
  "qpath m a (xs @ [x]) b \<longleftrightarrow> qpath m a xs x \<and> p_next m x = b \<and> p_prev m b = x"
  by (simp add: qpath_append)

lemma qpath_cong:
  "\<forall>n \<in> insert a (set xs). p_next m' n = p_next m n \<Longrightarrow>
   \<forall>n \<in> insert b (set xs). p_prev m' n = p_prev m n \<Longrightarrow>
   qpath m' a xs b \<longleftrightarrow> qpath m a xs b"
  by (induction xs arbitrary: a) auto

lemma qpath_next_first: "qpath m a xs b \<Longrightarrow> p_next m a = hd (xs @ [b])"
  by (cases xs) auto

lemma qpath_prev_last: "qpath m a xs b \<Longrightarrow> p_prev m b = last (a # xs)"
  by (induction xs arbitrary: a) auto

lemma ring_cong:
  "ring m q xs \<Longrightarrow> \<forall>n \<in> set (q # xs). p_next m' n = p_next m n \<and> p_prev m' n = p_prev m n \<Longrightarrow>
   ring m' q xs"
  by (simp add: ring_def qpath_cong [of q xs m' m q])

lemma ring_next: "ring m q xs \<Longrightarrow> p_next m q = hd (xs @ [q])"
  by (simp add: ring_def qpath_next_first)

lemma ring_prev: "ring m q xs \<Longrightarrow> p_prev m q = last (q # xs)"
  unfolding ring_def by (rule qpath_prev_last) simp

lemma ring_initialize: "ring (queue_initialize q m) q []"
  by (simp add: ring_def queue_initialize_def Let_def)

lemma ring_empty_iff: "ring m q xs \<Longrightarrow> queue_empty q m \<longleftrightarrow> xs = []"
  using ring_next [of m q xs] by (cases xs) (auto simp: queue_empty_def ring_def)

text \<open>
  Inserting before a node \<open>p\<close> of a ring, where \<open>p\<close> is the header or an entry: the case
  \<open>p = q\<close> is the end of the queue.
\<close>

lemma ring_insert_before_head:
  assumes "ring m q xs" "e \<notin> set (q # xs)"
  shows "ring (queue_insert_prev q e m) q (xs @ [e])"
proof (cases xs rule: rev_cases)
  case Nil
  with assms show ?thesis
    by (auto simp: ring_def queue_insert_prev_def Let_def)
next
  case (snoc ys y)
  from assms have path: "qpath m q ys y" and last: "p_next m y = q" "p_prev m q = y"
    by (simp_all add: ring_def snoc qpath_snoc)
  have "qpath (queue_insert_prev q e m) q ys y"
    using assms last
    by (intro qpath_cong [THEN iffD2, OF _ _ path])
       (auto simp: queue_insert_prev_def Let_def ring_def snoc)
  moreover have "p_next (queue_insert_prev q e m) y = e" "p_prev (queue_insert_prev q e m) e = y"
    "p_next (queue_insert_prev q e m) e = q" "p_prev (queue_insert_prev q e m) q = e"
    using assms last by (auto simp: queue_insert_prev_def Let_def ring_def snoc)
  ultimately show ?thesis
    using assms by (auto simp: ring_def snoc qpath_append)
qed

lemma ring_insert_before_entry:
  assumes "ring m q (xs @ p # ys)" "e \<notin> set (q # xs @ p # ys)"
  shows "ring (queue_insert_prev p e m) q (xs @ e # p # ys)"
proof -
  let ?m = "queue_insert_prev p e m"
  have dist: "distinct (q # xs @ p # ys)" and p1: "qpath m q xs p" and p2: "qpath m p ys q"
    using assms(1) by (simp_all add: ring_def qpath_append)
  obtain b where b: "b = last (q # xs)" by blast
  have pb: "p_prev m p = b" using qpath_prev_last [OF p1] b by simp
  have "b \<in> set (q # xs)" unfolding b by (rule last_in_set) simp
  then have bnot: "b \<noteq> p" "b \<notin> set ys" "b \<noteq> e" "p \<noteq> e"
    using dist assms(2) by auto
  have next': "p_next ?m = (p_next m)(e := p, b := e)"
    and prev': "p_prev ?m = (p_prev m)(e := b, p := e)"
    using pb bnot by (simp_all add: queue_insert_prev_def Let_def)
  have "qpath ?m q xs e"
  proof (cases xs rule: rev_cases)
    case Nil
    then show ?thesis using b bnot by (simp add: next' prev')
  next
    case (snoc zs z)
    have "qpath m q zs z" using p1 by (simp add: snoc qpath_append)
    then have "qpath ?m q zs z"
      using dist assms(2) b by (subst qpath_cong [where m = m]) (auto simp: snoc next' prev')
    then show ?thesis using b bnot by (simp add: snoc qpath_append next' prev')
  qed
  moreover have "qpath ?m p ys q"
    using dist assms(2) bnot p2 by (subst qpath_cong [where m = m]) (auto simp: next' prev')
  ultimately show ?thesis
    using dist assms(2) bnot by (auto simp: ring_def qpath_append next' prev')
qed

lemma ring_insert_next:
  assumes "ring m q xs" "e \<notin> set (q # xs)"
  shows "ring (queue_insert_next q e m) q (e # xs)"
proof (cases xs)
  case Nil
  with assms show ?thesis by (auto simp: ring_def queue_insert_next_def Let_def)
next
  case (Cons y ys)
  from assms(1) have first: "p_next m q = y" "p_prev m y = q" and path: "qpath m y ys q"
    by (simp_all add: ring_def Cons)
  have "qpath (queue_insert_next q e m) y ys q"
    using assms first
    by (intro qpath_cong [THEN iffD2, OF _ _ path])
       (auto simp: queue_insert_next_def Let_def ring_def Cons)
  then show ?thesis
    using assms first by (auto simp: ring_def Cons queue_insert_next_def Let_def)
qed

lemma ring_delete:
  assumes "ring m q (xs @ e # ys)"
  shows "ring (queue_delete e m) q (xs @ ys)"
proof -
  let ?m = "queue_delete e m"
  obtain b c where bc: "b = last (q # xs)" "c = hd (ys @ [q])" by blast
  have dist: "distinct (q # xs @ e # ys)" and p1: "qpath m q xs e" and p2: "qpath m e ys q"
    using assms by (simp_all add: ring_def qpath_append)
  have pb: "p_prev m e = b" and nc: "p_next m e = c"
    using qpath_prev_last [OF p1] qpath_next_first [OF p2] bc by simp_all
  have bin: "b \<in> set (q # xs)" unfolding bc(1) by (rule last_in_set) simp
  then have bne: "b \<noteq> e" using dist by auto
  have next': "p_next ?m = (p_next m)(b := c)" and prev': "p_prev ?m = (p_prev m)(c := b)"
    using pb nc bne by (auto simp: queue_delete_def Let_def)
  have cnot: "c \<notin> set xs" using dist bc(2) by (cases ys) auto
  have left: "qpath ?m q xs c"
  proof (cases xs rule: rev_cases)
    case Nil
    then show ?thesis using bc by (simp add: next' prev')
  next
    case (snoc zs z)
    have "qpath m q zs z" using p1 by (simp add: snoc qpath_append)
    then have "qpath ?m q zs z"
      using dist bc cnot by (subst qpath_cong [where m = m]) (auto simp: snoc next' prev')
    then show ?thesis using bc by (simp add: snoc qpath_append next' prev')
  qed
  show ?thesis
  proof (cases ys)
    case Nil
    then show ?thesis using left dist bc by (auto simp: ring_def)
  next
    case (Cons z zs)
    have "b \<notin> set (z # zs)" "z \<noteq> q" "z \<notin> set zs" using dist bin by (auto simp: Cons)
    moreover have "qpath m z zs q" using p2 by (simp add: Cons)
    ultimately have "qpath ?m z zs q"
      using bc by (subst qpath_cong [where m = m]) (auto simp: next' prev' Cons)
    then show ?thesis using left dist bc by (auto simp: ring_def qpath_append Cons)
  qed
qed

lemma ring_delete_next:
  assumes "ring m q (x # xs)"
  shows "queue_delete_next q m = (x, queue_delete x m)"
  using assms by (auto simp: ring_def queue_delete_next_def queue_delete_def Let_def)

section \<open>Families of queues\<close>

text \<open>
  The kernel keeps many headers and links every entry (a TCB) into at most one of them at a
  time. A family gives the entries of each header; it is well formed when no entry occurs
  twice.
\<close>

definition family :: "('h \<Rightarrow> 'n list) \<Rightarrow> bool" where
  "family Q \<longleftrightarrow> (\<forall>h. distinct (Q h)) \<and> (\<forall>h h'. h \<noteq> h' \<longrightarrow> set (Q h) \<inter> set (Q h') = {})"

definition unlinked :: "'n \<Rightarrow> ('h \<Rightarrow> 'n list) \<Rightarrow> bool" where
  "unlinked n Q \<longleftrightarrow> (\<forall>h. n \<notin> set (Q h))"

definition lq_insert_prev :: "'h \<Rightarrow> 'n \<Rightarrow> ('h \<Rightarrow> 'n list) \<Rightarrow> 'h \<Rightarrow> 'n list" where
  "lq_insert_prev h n Q = Q(h := Q h @ [n])"

definition lq_insert_next :: "'h \<Rightarrow> 'n \<Rightarrow> ('h \<Rightarrow> 'n list) \<Rightarrow> 'h \<Rightarrow> 'n list" where
  "lq_insert_next h n Q = Q(h := n # Q h)"

definition lq_delete :: "'n \<Rightarrow> ('h \<Rightarrow> 'n list) \<Rightarrow> 'h \<Rightarrow> 'n list" where
  "lq_delete n Q = (\<lambda>h. remove1 n (Q h))"

definition lq_delete_next :: "'h \<Rightarrow> ('h \<Rightarrow> 'n list) \<Rightarrow> 'n \<times> ('h \<Rightarrow> 'n list)" where
  "lq_delete_next h Q = (hd (Q h), Q(h := tl (Q h)))"

definition lq_empty :: "'h \<Rightarrow> ('h \<Rightarrow> 'n list) \<Rightarrow> bool" where
  "lq_empty h Q \<longleftrightarrow> Q h = []"

text \<open>
  The loop of \<open>queue_insert_tpri\<close> (kernel/wait.h) and \<open>enqueue_isr\<close> (kernel/interrupt.c): walk
  the ring to the first entry that satisfies \<open>stop\<close>, or back to the header, and insert before
  it. The header of another queue is no entry (\<open>None\<close>). The fuel bounds the number of nodes visited;
  \<open>queue_insert_before_refines\<close> says that one more than the length of the queue is enough.
\<close>

fun lq_insert_before :: "('n \<Rightarrow> bool) \<Rightarrow> 'n \<Rightarrow> 'n list \<Rightarrow> 'n list" where
  "lq_insert_before stop n [] = [n]"
| "lq_insert_before stop n (x # xs) =
     (if stop x then n # x # xs else x # lq_insert_before stop n xs)"

fun queue_scan :: "nat \<Rightarrow> ('h + 'n) qmem \<Rightarrow> ('n \<Rightarrow> bool) \<Rightarrow> 'h \<Rightarrow> 'h + 'n \<Rightarrow> ('h + 'n) option" where
  "queue_scan 0 m stop h p_entry = None"
| "queue_scan (Suc fuel) m stop h p_entry =
     (if p_entry = Inl h then Some p_entry
      else case p_entry of
        Inl _ \<Rightarrow> None
      | Inr n \<Rightarrow> if stop n then Some p_entry else queue_scan fuel m stop h (p_next m p_entry))"

definition queue_insert_before ::
    "nat \<Rightarrow> ('n \<Rightarrow> bool) \<Rightarrow> 'h \<Rightarrow> 'n \<Rightarrow> ('h + 'n) qmem \<Rightarrow> ('h + 'n) qmem option" where
  "queue_insert_before fuel stop h n m =
     (case queue_scan fuel m stop h (p_next m (Inl h)) of
        None \<Rightarrow> None
      | Some p \<Rightarrow> Some (queue_insert_prev p (Inr n) m))"

lemma family_tl_unlinked:
  assumes "family Q" "Q h = n # ns"
  shows "unlinked n (Q(h := ns))"
  unfolding unlinked_def
proof
  fix h'
  show "n \<notin> set ((Q(h := ns)) h')"
  proof (cases "h' = h")
    case True
    have "distinct (n # ns)" using assms by (metis family_def)
    then show ?thesis using True by simp
  next
    case False
    then have "set (Q h) \<inter> set (Q h') = {}" using assms(1) by (auto simp: family_def)
    then show ?thesis using False assms(2) by auto
  qed
qed

lemma set_lq_insert_before [simp]: "set (lq_insert_before stop n xs) = insert n (set xs)"
  by (induction xs) auto

lemma distinct_lq_insert_before [simp]:
  "distinct (lq_insert_before stop n xs) \<longleftrightarrow> n \<notin> set xs \<and> distinct xs"
  by (induction xs) auto

lemma lq_insert_before_split:
  "lq_insert_before stop n xs =
     takeWhile (\<lambda>x. \<not> stop x) xs @ n # dropWhile (\<lambda>x. \<not> stop x) xs"
  by (induction xs) auto

lemma lq_insert_before_not_Nil [simp]: "lq_insert_before stop n xs \<noteq> []"
  by (cases xs) auto

section \<open>The contract of the queue\<close>

locale queue_impl =
  fixes ins_prev :: "'h \<Rightarrow> 'n \<Rightarrow> 'm \<Rightarrow> 'm"
    and ins_next :: "'h \<Rightarrow> 'n \<Rightarrow> 'm \<Rightarrow> 'm"
    and del :: "'n \<Rightarrow> 'm \<Rightarrow> 'm"
    and del_next :: "'h \<Rightarrow> 'm \<Rightarrow> 'n option \<times> 'm"
    and is_empty :: "'h \<Rightarrow> 'm \<Rightarrow> bool"
    and repr :: "'m \<Rightarrow> ('h \<Rightarrow> 'n list) \<Rightarrow> bool"
  assumes repr_family: "repr m Q \<Longrightarrow> family Q"
    and ins_prev: "repr m Q \<Longrightarrow> unlinked n Q \<Longrightarrow> repr (ins_prev h n m) (Q(h := Q h @ [n]))"
    and ins_next: "repr m Q \<Longrightarrow> unlinked n Q \<Longrightarrow> repr (ins_next h n m) (Q(h := n # Q h))"
    and del: "repr m Q \<Longrightarrow> n \<in> set (Q h) \<Longrightarrow> repr (del n m) (Q(h := remove1 n (Q h)))"
    and del_next: "repr m Q \<Longrightarrow> Q h = n # ns \<Longrightarrow>
          \<exists>m'. del_next h m = (Some n, m') \<and> repr m' (Q(h := ns))"
    and is_empty: "repr m Q \<Longrightarrow> is_empty h m \<longleftrightarrow> Q h = []"
begin

lemma ins_prev_del:
  assumes "repr m Q" "unlinked n Q"
  shows "repr (del n (ins_prev h n m)) Q"
proof -
  have "repr (del n (ins_prev h n m)) ((Q(h := Q h @ [n]))(h := remove1 n (Q h @ [n])))"
    using del [OF ins_prev [OF assms], of n h h] by simp
  then show ?thesis using assms(2) by (simp add: unlinked_def)
qed

lemma fifo:
  assumes "repr m Q" "Q h = []" "unlinked a Q" "unlinked b Q" "a \<noteq> b"
  shows "\<exists>m' m''. del_next h (ins_prev h b (ins_prev h a m)) = (Some a, m') \<and>
    del_next h m' = (Some b, m'') \<and> repr m'' Q"
proof -
  have 1: "repr (ins_prev h a m) (Q(h := [a]))"
    using ins_prev [OF assms(1,3), of h] assms(2) by simp
  have "unlinked b (Q(h := [a]))" using assms(4,5) by (simp add: unlinked_def)
  from ins_prev [OF 1 this, of h] have 2: "repr (ins_prev h b (ins_prev h a m)) (Q(h := [a, b]))"
    by simp
  obtain m' where m': "del_next h (ins_prev h b (ins_prev h a m)) = (Some a, m')" "repr m' (Q(h := [b]))"
    using del_next [OF 2, of h a "[b]"] by auto
  obtain m'' where "del_next h m' = (Some b, m'')" "repr m'' (Q(h := []))"
    using del_next [OF m'(2), of h b "[]"] by auto
  then show ?thesis using m'(1) assms(2) by (metis fun_upd_triv)
qed

lemma rotate:
  assumes "repr m Q" "Q h = n # ns"
  shows "\<exists>m'. del_next h m = (Some n, m') \<and> repr (ins_prev h n m') (Q(h := ns @ [n]))"
proof -
  obtain m' where m': "del_next h m = (Some n, m')" "repr m' (Q(h := ns))"
    using del_next [OF assms] by blast
  have "unlinked n (Q(h := ns))"
    by (rule family_tl_unlinked [OF repr_family [OF assms(1)] assms(2)])
  from ins_prev [OF m'(2) this, of h] m'(1) show ?thesis by auto
qed

end

subsection \<open>The list family meets the contract\<close>

lemma family_insert:
  "family Q \<Longrightarrow> unlinked n Q \<Longrightarrow> set xs = insert n (set (Q h)) \<Longrightarrow> distinct xs \<Longrightarrow> family (Q(h := xs))"
  by (auto simp: family_def unlinked_def)

lemma family_shrink:
  "family Q \<Longrightarrow> set xs \<subseteq> set (Q h) \<Longrightarrow> distinct xs \<Longrightarrow> family (Q(h := xs))"
  by (fastforce simp: family_def)

lemma lq_delete_in:
  assumes "family Q" "n \<in> set (Q h)"
  shows "lq_delete n Q = Q(h := remove1 n (Q h))"
proof
  fix h'
  show "lq_delete n Q h' = (Q(h := remove1 n (Q h))) h'"
    using assms by (cases "h' = h") (auto simp: lq_delete_def family_def intro!: remove1_idem)
qed

definition lq_take_next :: "'h \<Rightarrow> ('h \<Rightarrow> 'n list) \<Rightarrow> 'n option \<times> ('h \<Rightarrow> 'n list)" where
  "lq_take_next h Q = (if lq_empty h Q then (None, Q)
     else case lq_delete_next h Q of (n, Q') \<Rightarrow> (Some n, Q'))"

interpretation lq: queue_impl lq_insert_prev lq_insert_next lq_delete lq_take_next lq_empty
    "\<lambda>m Q. m = Q \<and> family Q"
proof
  fix m Q :: "'h \<Rightarrow> 'n list" and n h ns
  assume r: "m = Q \<and> family Q"
  show "family Q" using r by simp
  show "lq_empty h m = (Q h = [])" using r by (simp add: lq_empty_def)
  {
    assume u: "unlinked n Q"
    show "lq_insert_prev h n m = Q(h := Q h @ [n]) \<and> family (Q(h := Q h @ [n]))"
      using r u by (auto simp: lq_insert_prev_def unlinked_def family_def intro!: family_insert)
    show "lq_insert_next h n m = Q(h := n # Q h) \<and> family (Q(h := n # Q h))"
      using r u by (auto simp: lq_insert_next_def unlinked_def family_def intro!: family_insert)
  next
    assume i: "n \<in> set (Q h)"
    have "distinct (Q h)" using r by (simp add: family_def)
    then show "lq_delete n m = Q(h := remove1 n (Q h)) \<and> family (Q(h := remove1 n (Q h)))"
      using r i by (auto simp: lq_delete_in intro!: family_shrink)
  next
    assume "Q h = n # ns"
    moreover have "distinct (Q h)" using r by (simp add: family_def)
    ultimately show "\<exists>m'. lq_take_next h m = (Some n, m') \<and> m' = Q(h := ns) \<and> family (Q(h := ns))"
      using r by (auto simp: lq_take_next_def lq_empty_def lq_delete_next_def intro!: family_shrink)
  }
qed

subsection \<open>The pointer code meets the contract\<close>

definition rings :: "('h + 'n) qmem \<Rightarrow> ('h \<Rightarrow> 'n list) \<Rightarrow> bool" where
  "rings m Q \<longleftrightarrow> family Q \<and> (\<forall>h. ring m (Inl h) (map Inr (Q h)))"

lemma rings_update:
  assumes "rings m Q" "family (Q(h := xs))" "ring m' (Inl h) (map Inr xs)"
    and "\<And>h'. h' \<noteq> h \<Longrightarrow> ring m' (Inl h') (map Inr (Q h'))"
  shows "rings m' (Q(h := xs))"
  using assms by (auto simp: rings_def)

lemma map_Inr_remove1: "map Inr (remove1 n xs) = remove1 (Inr n) (map Inr xs)"
  by (induction xs) auto

lemma ring_nodes:
  "ring m q xs \<Longrightarrow> n \<in> set (q # xs) \<Longrightarrow> p_next m n \<in> set (q # xs) \<and> p_prev m n \<in> set (q # xs)"
proof -
  have "qpath m a ys b \<Longrightarrow> n \<in> set (a # ys) \<Longrightarrow> p_next m n \<in> insert b (set ys)" for a ys b
    by (induction ys arbitrary: a) auto
  moreover have "qpath m a ys b \<Longrightarrow> n \<in> insert b (set ys) \<Longrightarrow> p_prev m n \<in> set (a # ys)" for a ys b
    by (induction ys arbitrary: a) auto
  ultimately show "ring m q xs \<Longrightarrow> n \<in> set (q # xs) \<Longrightarrow> p_next m n \<in> set (q # xs) \<and> p_prev m n \<in> set (q # xs)"
    unfolding ring_def by fastforce
qed

text \<open>An operation on the nodes of one ring and a fresh entry leaves the other rings alone.\<close>

lemma other_ring:
  assumes "rings m Q" "h' \<noteq> h"
    and "\<forall>x. x \<notin> insert (Inr e) (set (Inl h # map Inr (Q h))) \<longrightarrow>
           p_next m' x = p_next m x \<and> p_prev m' x = p_prev m x"
    and "e \<notin> set (Q h')"
  shows "ring m' (Inl h') (map Inr (Q h'))"
proof (rule ring_cong)
  show "ring m (Inl h') (map Inr (Q h'))" using assms(1) by (simp add: rings_def)
  have "set (Q h) \<inter> set (Q h') = {}" using assms(1,2) by (simp add: rings_def family_def)
  then show "\<forall>n\<in>set (Inl h' # map Inr (Q h')). p_next m' n = p_next m n \<and> p_prev m' n = p_prev m n"
    using assms(2-4) by auto
qed

lemma queue_insert_prev_nodes:
  assumes "ring m q xs" "p \<in> set (q # xs)" "x \<notin> insert e (set (q # xs))"
  shows "p_next (queue_insert_prev p e m) x = p_next m x \<and> p_prev (queue_insert_prev p e m) x = p_prev m x"
  using ring_nodes [OF assms(1,2)] assms(2,3) by (auto simp: queue_insert_prev_def Let_def)

lemma queue_insert_next_nodes:
  assumes "ring m q xs" "x \<notin> insert e (set (q # xs))"
  shows "p_next (queue_insert_next q e m) x = p_next m x \<and> p_prev (queue_insert_next q e m) x = p_prev m x"
  using ring_nodes [OF assms(1), of q] assms(2) by (auto simp: queue_insert_next_def Let_def)

lemma queue_delete_nodes:
  assumes "ring m q xs" "e \<in> set xs" "x \<notin> set (q # xs)"
  shows "p_next (queue_delete e m) x = p_next m x \<and> p_prev (queue_delete e m) x = p_prev m x"
  using ring_nodes [OF assms(1), of e] assms(2,3) by (auto simp: queue_delete_def Let_def)

lemma rings_insert_prev:
  assumes "rings m Q" "unlinked n Q"
  shows "rings (queue_insert_prev (Inl h) (Inr n) m) (Q(h := Q h @ [n]))"
proof (rule rings_update [OF assms(1)])
  have r: "ring m (Inl h) (map Inr (Q h))" using assms(1) by (simp add: rings_def)
  show "family (Q(h := Q h @ [n]))"
    using assms by (auto simp: rings_def unlinked_def family_def intro!: family_insert)
  show "ring (queue_insert_prev (Inl h) (Inr n) m) (Inl h) (map Inr (Q h @ [n]))"
    using ring_insert_before_head [OF r] assms(2) by (auto simp: unlinked_def)
  fix h' assume "h' \<noteq> h"
  then show "ring (queue_insert_prev (Inl h) (Inr n) m) (Inl h') (map Inr (Q h'))"
    using assms queue_insert_prev_nodes [OF r]
    by (intro other_ring [OF assms(1)]) (auto simp: unlinked_def)
qed

lemma rings_insert_next:
  assumes "rings m Q" "unlinked n Q"
  shows "rings (queue_insert_next (Inl h) (Inr n) m) (Q(h := n # Q h))"
proof (rule rings_update [OF assms(1)])
  have r: "ring m (Inl h) (map Inr (Q h))" using assms(1) by (simp add: rings_def)
  show "family (Q(h := n # Q h))"
    using assms by (auto simp: rings_def unlinked_def family_def intro!: family_insert)
  show "ring (queue_insert_next (Inl h) (Inr n) m) (Inl h) (map Inr (n # Q h))"
    using ring_insert_next [OF r] assms(2) by (auto simp: unlinked_def)
  fix h' assume "h' \<noteq> h"
  then show "ring (queue_insert_next (Inl h) (Inr n) m) (Inl h') (map Inr (Q h'))"
    using assms queue_insert_next_nodes [OF r]
    by (intro other_ring [OF assms(1)]) (auto simp: unlinked_def)
qed

lemma rings_delete:
  assumes "rings m Q" "n \<in> set (Q h)"
  shows "rings (queue_delete (Inr n) m) (Q(h := remove1 n (Q h)))"
proof (rule rings_update [OF assms(1)])
  have r: "ring m (Inl h) (map Inr (Q h))" and d: "distinct (Q h)"
    using assms(1) by (simp_all add: rings_def family_def)
  show "family (Q(h := remove1 n (Q h)))"
    using assms(1) d by (intro family_shrink) (auto simp: rings_def)
  obtain ys zs where s: "Q h = ys @ n # zs" "n \<notin> set ys"
    using split_list_first [OF assms(2)] by blast
  have "ring m (Inl h) (map Inr ys @ Inr n # map Inr zs)" using r s by simp
  from ring_delete [OF this] show "ring (queue_delete (Inr n) m) (Inl h) (map Inr (remove1 n (Q h)))"
    using s by simp
  fix h' assume h': "h' \<noteq> h"
  then have "n \<notin> set (Q h')" using assms by (auto simp: rings_def family_def)
  then show "ring (queue_delete (Inr n) m) (Inl h') (map Inr (Q h'))"
    using h' assms(2) queue_delete_nodes [OF r, of "Inr n"]
    by (intro other_ring [OF assms(1), of h' h n]) auto
qed

text \<open>Taking the first entry; on an empty queue the C code fails its assertion.\<close>

definition ptr_take_next :: "'h \<Rightarrow> ('h + 'n) qmem \<Rightarrow> 'n option \<times> ('h + 'n) qmem" where
  "ptr_take_next h m =
     (case queue_delete_next (Inl h) m of
        (Inr n, m') \<Rightarrow> (Some n, m') | (Inl _, m') \<Rightarrow> (None, m))"

interpretation ptr: queue_impl
    "\<lambda>h n. queue_insert_prev (Inl h) (Inr n)" "\<lambda>h n. queue_insert_next (Inl h) (Inr n)"
    "\<lambda>n. queue_delete (Inr n)" ptr_take_next "\<lambda>h. queue_empty (Inl h)" rings
proof
  fix m :: "('h + 'n) qmem" and Q n h ns
  assume r: "rings m Q"
  then have rg: "ring m (Inl h) (map Inr (Q h))" by (simp add: rings_def)
  show "family Q" using r by (simp add: rings_def)
  show "unlinked n Q \<Longrightarrow> rings (queue_insert_prev (Inl h) (Inr n) m) (Q(h := Q h @ [n]))"
    using r by (rule rings_insert_prev)
  show "unlinked n Q \<Longrightarrow> rings (queue_insert_next (Inl h) (Inr n) m) (Q(h := n # Q h))"
    using r by (rule rings_insert_next)
  show "n \<in> set (Q h) \<Longrightarrow> rings (queue_delete (Inr n) m) (Q(h := remove1 n (Q h)))"
    using r by (rule rings_delete)
  show "queue_empty (Inl h) m = (Q h = [])" using ring_empty_iff [OF rg] by simp
  assume Q: "Q h = n # ns"
  have "ptr_take_next h m = (Some n, queue_delete (Inr n) m)"
    using ring_delete_next [of m "Inl h" "Inr n" "map Inr ns"] rg Q by (simp add: ptr_take_next_def)
  moreover have "rings (queue_delete (Inr n) m) (Q(h := ns))"
    using rings_delete [OF r, of n h] Q by simp
  ultimately show "\<exists>m'. ptr_take_next h m = (Some n, m') \<and> rings m' (Q(h := ns))" by simp
qed

subsection \<open>Ordered insertion\<close>

lemma queue_scan_from:
  assumes "qpath m (Inr x) (map Inr xs) (Inl h)" "length (x # xs) < fuel"
  shows "queue_scan fuel m stop h (Inr x) =
    Some (case dropWhile (\<lambda>y. \<not> stop y) (x # xs) of [] \<Rightarrow> Inl h | y # _ \<Rightarrow> Inr y)"
  using assms
proof (induction xs arbitrary: x fuel)
  case Nil
  then obtain f where "fuel = Suc (Suc f)" by (cases fuel; cases "fuel - 1") auto
  then show ?case using Nil by simp
next
  case (Cons y ys)
  then obtain f where "fuel = Suc f" by (cases fuel) auto
  then show ?case using Cons by simp
qed

lemma queue_scan_ring:
  assumes "ring m (Inl h) (map Inr xs)" "length xs < fuel"
  shows "queue_scan fuel m stop h (p_next m (Inl h)) =
    Some (case dropWhile (\<lambda>y. \<not> stop y) xs of [] \<Rightarrow> Inl h | y # _ \<Rightarrow> Inr y)"
proof (cases xs)
  case Nil
  then obtain f where "fuel = Suc f" using assms(2) by (cases fuel) auto
  then show ?thesis using Nil ring_next [OF assms(1)] by simp
next
  case (Cons x ys)
  then show ?thesis
    using assms queue_scan_from [of m x ys h fuel stop] by (simp add: ring_def)
qed

text \<open>The pointer loop inserts where the list function does, and terminates.\<close>

theorem queue_insert_before_refines:
  assumes "rings m Q" "unlinked n Q" "length (Q h) < fuel"
  shows "\<exists>m'. queue_insert_before fuel stop h n m = Some m' \<and>
    rings m' (Q(h := lq_insert_before stop n (Q h)))"
proof -
  have rg: "ring m (Inl h) (map Inr (Q h))" using assms(1) by (simp add: rings_def)
  obtain t d where t: "takeWhile (\<lambda>y. \<not> stop y) (Q h) = t"
    and d: "dropWhile (\<lambda>y. \<not> stop y) (Q h) = d" by blast
  have split: "Q h = t @ d" using t d takeWhile_dropWhile_id by metis
  obtain p where p: "p = (case d of [] \<Rightarrow> Inl h | y # _ \<Rightarrow> Inr y)" by blast
  let ?m = "queue_insert_prev p (Inr n) m"
  have some: "queue_insert_before fuel stop h n m = Some ?m"
    using queue_scan_ring [OF rg, of fuel stop] assms(3) by (simp add: queue_insert_before_def d p)
  have xs: "lq_insert_before stop n (Q h) = t @ n # d" by (simp add: lq_insert_before_split t d)
  have fresh: "Inr n \<notin> set (Inl h # map Inr (Q h))" using assms(2) by (auto simp: unlinked_def)
  have pin: "p \<in> set (Inl h # map Inr (Q h))" using split p by (cases d) auto
  have "rings ?m (Q(h := t @ n # d))"
  proof (rule rings_update [OF assms(1)])
    have "family Q" using assms(1) by (simp add: rings_def)
    moreover from this have "distinct (t @ d)" using split by (metis family_def)
    moreover have "n \<notin> set (t @ d)" using assms(2) split by (metis unlinked_def)
    ultimately show "family (Q(h := t @ n # d))"
      using assms(2) split by (intro family_insert) auto
    show "ring ?m (Inl h) (map Inr (t @ n # d))"
      using rg fresh split p
      by (cases d) (auto intro: ring_insert_before_head ring_insert_before_entry)
    fix h' assume "h' \<noteq> h"
    then show "ring ?m (Inl h') (map Inr (Q h'))"
      using assms queue_insert_prev_nodes [OF rg pin]
      by (intro other_ring [OF assms(1)]) (auto simp: unlinked_def)
  qed
  then show ?thesis using some xs by simp
qed

end
