(* ===== verification/TimeEvent.thy ===== *)
theory TimeEvent
  imports Prelude
begin

text \<open>
  The time event manager, asp3\_dcre/kernel/time\_event.h and time\_event.c: the event times
  (32-bit, compared relative to \<open>boundary_evttim\<close>), the binary heap \<open>tmevt_heap\<close> whose nodes
  point to time event blocks that point back to their node, and the operations on it.
  A node pointer \<open>TMEVTN *\<close> is its index in \<open>tmevt_heap\<close>; \<open>p_last\<close> is the index of
  \<open>p_last_tmevtn\<close> and index 1 is \<open>p_top_tmevtn\<close>.
  A time event block lives on the stack of a waiting task, in a cyclic or in an alarm
  notification control block; \<open>tmevtb_ref\<close> is the pointer to it.
\<close>

section \<open>Data\<close>

type_synonym EVTTIM = "32 word"
type_synonym HRTCNT = "32 word"
type_synonym RELTIM = "32 word"
type_synonym TMO = "32 word"

abbreviation TMO_POL :: TMO where "TMO_POL \<equiv> 0"
abbreviation TMO_FEVR :: TMO where "TMO_FEVR \<equiv> - 1"
abbreviation TMAX_RELTIM :: RELTIM where "TMAX_RELTIM \<equiv> 4000000000"
abbreviation BOUNDARY_MARGIN :: EVTTIM where "BOUNDARY_MARGIN \<equiv> 200000000"
abbreviation TCYC_HRTCNT :: HRTCNT where "TCYC_HRTCNT \<equiv> 128849019"
abbreviation TSTEP_HRTCNT :: EVTTIM where "TSTEP_HRTCNT \<equiv> 1"
abbreviation HRTCNT_BOUND :: HRTCNT where "HRTCNT_BOUND \<equiv> 100000002"
abbreviation TMAX_ADJTIM :: "32 word" where "TMAX_ADJTIM \<equiv> 1000000"

datatype tmevtb_ref = TskTM nat | CycTM nat | AlmTM nat

datatype cback = Wait_tmout | Wait_tmout_ok | Call_cyclic | Call_alarm

record tmevtb =
  evttim :: EVTTIM
  p_tmevtn :: nat
  callback :: cback
  arg :: nat

text \<open>The last request made to the high resolution timer hardware.\<close>

datatype hrt_request = HrtNone | HrtSet HRTCNT | HrtRaise

text \<open>
  \<open>hrt_in\<close> is what the successive reads of the hardware counter return (the environment
  chooses it), \<open>hrt_n\<close> the number of reads made so far. \<open>window_left\<close> is an auxiliary variable that
  the code does not have and that no operation reads: event times are compared relative to \<open>boundary_evttim\<close>,
  \<open>BOUNDARY_MARGIN\<close> (200 s) before the current time, and it records that the boundary has once been moved past
  a registered event, that is, that an event was left more than 200 s overdue (or, when the clock was put
  back, came to lie a whole turn of the 32 bits ahead), so that the comparison no longer orders the events.
\<close>

record tme =
  tmevtb_tab :: "tmevtb_ref \<Rightarrow> tmevtb"
  tmevt_heap :: "nat \<Rightarrow> tmevtb_ref"
  p_last :: nat
  boundary_evttim :: EVTTIM
  current_evttim :: EVTTIM
  current_hrtcnt :: HRTCNT
  monotonic_evttim :: EVTTIM
  systim_offset :: "64 word"
  in_signal_time :: bool
  hrt_in :: "nat \<Rightarrow> HRTCNT"
  hrt_n :: nat
  hrt_req :: hrt_request
  window_left :: bool

definition EVTTIM_ADVANCE :: "tme \<Rightarrow> EVTTIM \<Rightarrow> EVTTIM" where
  "EVTTIM_ADVANCE s t = t - boundary_evttim s"

definition EVTTIM_LT :: "tme \<Rightarrow> EVTTIM \<Rightarrow> EVTTIM \<Rightarrow> bool" where
  "EVTTIM_LT s t1 t2 \<longleftrightarrow> EVTTIM_ADVANCE s t1 < EVTTIM_ADVANCE s t2"

definition EVTTIM_LE :: "tme \<Rightarrow> EVTTIM \<Rightarrow> EVTTIM \<Rightarrow> bool" where
  "EVTTIM_LE s t1 t2 \<longleftrightarrow> EVTTIM_ADVANCE s t1 \<le> EVTTIM_ADVANCE s t2"

definition node_evttim :: "tme \<Rightarrow> nat \<Rightarrow> EVTTIM" where
  "node_evttim s i = evttim (tmevtb_tab s (tmevt_heap s i))"

definition top_evttim :: "tme \<Rightarrow> EVTTIM" where
  "top_evttim s = node_evttim s 1"

definition initialize_tmevt :: "tme \<Rightarrow> tme" where
  "initialize_tmevt s =
     (let s1 = s\<lparr>current_evttim := 0\<rparr>;
          s2 = s1\<lparr>boundary_evttim := current_evttim s1 - BOUNDARY_MARGIN\<rparr>
      in s2\<lparr>monotonic_evttim := 0, systim_offset := 0, in_signal_time := False, p_last := 0, window_left := False\<rparr>)"

text \<open>
  The auxiliary variable: the move of the boundary to \<open>b\<close> passes a registered event (\<open>bwd\<close>: it is moved back).
\<close>

definition key :: "tme \<Rightarrow> nat \<Rightarrow> EVTTIM" where
  "key s i = EVTTIM_ADVANCE s (node_evttim s i)"

definition passes_event :: "bool \<Rightarrow> EVTTIM \<Rightarrow> tme \<Rightarrow> bool" where
  "passes_event bwd b s \<longleftrightarrow>
     (\<exists>i\<in>set [1..<p_last s + 1]. if bwd then b - boundary_evttim s \<le> key s i else key s i < b - boundary_evttim s)"

definition set_boundary :: "bool \<Rightarrow> EVTTIM \<Rightarrow> tme \<Rightarrow> tme" where
  "set_boundary bwd b s = s\<lparr>window_left := window_left s \<or> passes_event bwd b s, boundary_evttim := b\<rparr>"

section \<open>The heap\<close>

text \<open>\<open>*p = *q; p->p_tmevtb->p_tmevtn = p;\<close> and \<open>p->p_tmevtb = r; r->p_tmevtn = p;\<close>\<close>

definition set_node :: "nat \<Rightarrow> tmevtb_ref \<Rightarrow> tme \<Rightarrow> tme" where
  "set_node p r s =
     s\<lparr>tmevt_heap := (tmevt_heap s)(p := r),
       tmevtb_tab := (tmevtb_tab s)(r := (tmevtb_tab s r)\<lparr>p_tmevtn := p\<rparr>)\<rparr>"

definition move_node :: "nat \<Rightarrow> nat \<Rightarrow> tme \<Rightarrow> tme" where
  "move_node p q s = set_node p (tmevt_heap s q) s"

function tmevt_up :: "nat \<Rightarrow> EVTTIM \<Rightarrow> tme \<Rightarrow> nat \<times> tme" where
  "tmevt_up p ev s =
     (if p > 1 then
        let p_parent = p div 2 in
        if EVTTIM_LE s (node_evttim s p_parent) ev then (p, s)
        else tmevt_up p_parent ev (move_node p p_parent s)
      else (p, s))"
  by pat_completeness auto
termination by (relation "measure fst") auto

text \<open>
  The node \<open>p\<close> is never 0, the slot that holds the last-node pointer; with the guard \<open>0 < p\<close>
  the definition is total.
\<close>

definition down_child :: "nat \<Rightarrow> tme \<Rightarrow> nat" where
  "down_child p s =
     (let p_child = 2 * p in
      if p_child + 1 \<le> p_last s \<and> EVTTIM_LT s (node_evttim s (p_child + 1)) (node_evttim s p_child)
      then p_child + 1 else p_child)"

lemma p_last_move [simp]: "p_last (move_node p q s) = p_last s"
  by (simp add: move_node_def set_node_def)

lemma down_child_bounds: "2 * p \<le> down_child p s" "down_child p s \<le> 2 * p + 1"
  "2 * p \<le> p_last s \<Longrightarrow> down_child p s \<le> p_last s"
  by (simp_all add: down_child_def Let_def)

function tmevt_down :: "nat \<Rightarrow> EVTTIM \<Rightarrow> tme \<Rightarrow> nat \<times> tme" where
  "tmevt_down p ev s =
     (if 0 < p \<and> 2 * p \<le> p_last s then
        let p_child = down_child p s in
        if EVTTIM_LE s ev (node_evttim s p_child) then (p, s)
        else tmevt_down p_child ev (move_node p p_child s)
      else (p, s))"
  by pat_completeness auto
termination
proof (relation "measure (\<lambda>(p, ev, s). p_last s - p)", goal_cases)
  case (2 p ev s x)
  then show ?case using down_child_bounds [of p s] by simp
qed simp

declare tmevt_up.simps [simp del] tmevt_down.simps [simp del]

definition tmevtb_insert :: "tmevtb_ref \<Rightarrow> tme \<Rightarrow> tme" where
  "tmevtb_insert r s =
     (let s1 = s\<lparr>p_last := p_last s + 1\<rparr>;
          (p, s2) = tmevt_up (p_last s1) (evttim (tmevtb_tab s1 r)) s1
      in set_node p r s2)"

definition tmevtb_delete :: "tmevtb_ref \<Rightarrow> tme \<Rightarrow> tme" where
  "tmevtb_delete r s =
     (let p = p_tmevtn (tmevtb_tab s r);
          s1 = s\<lparr>p_last := p_last s - 1\<rparr>
      in if p_last s1 < 1 then s1
         else let event_evttim = node_evttim s1 (p_last s1 + 1);
                  (q, s2) =
                    (if p > 1 \<and> EVTTIM_LT s1 event_evttim (node_evttim s1 (p div 2))
                     then tmevt_up (p div 2) event_evttim (move_node p (p div 2) s1)
                     else tmevt_down p event_evttim s1)
              in move_node q (p_last s1 + 1) s2)"

definition tmevtb_delete_top :: "tme \<Rightarrow> tmevtb_ref \<times> tme" where
  "tmevtb_delete_top s =
     (let r = tmevt_heap s 1;
          s1 = s\<lparr>p_last := p_last s - 1\<rparr>
      in if p_last s1 \<ge> 1 then
           let event_evttim = node_evttim s1 (p_last s1 + 1);
               (q, s2) = tmevt_down 1 event_evttim s1
           in (r, move_node q (p_last s1 + 1) s2)
         else (r, s1))"

section \<open>The current time\<close>

definition target_hrt_get_current :: "tme \<Rightarrow> HRTCNT \<times> tme" where
  "target_hrt_get_current s = (hrt_in s (hrt_n s), s\<lparr>hrt_n := hrt_n s + 1\<rparr>)"

definition update_current_evttim :: "tme \<Rightarrow> tme" where
  "update_current_evttim s =
     (let (new_hrtcnt, s1) = target_hrt_get_current s;
          hrtcnt_advance = new_hrtcnt - current_hrtcnt s1;
          hrtcnt_advance =
            (if new_hrtcnt < current_hrtcnt s1 then hrtcnt_advance + TCYC_HRTCNT else hrtcnt_advance);
          s2 = s1\<lparr>current_hrtcnt := new_hrtcnt\<rparr>;
          previous_evttim = current_evttim s2;
          s3 = s2\<lparr>current_evttim := current_evttim s2 + hrtcnt_advance\<rparr>;
          s4 = set_boundary False (current_evttim s3 - BOUNDARY_MARGIN) s3
      in if monotonic_evttim s4 - previous_evttim < hrtcnt_advance then
           let s5 = (if current_evttim s4 < monotonic_evttim s4
                     then s4\<lparr>systim_offset := systim_offset s4 + push_bit 32 1\<rparr> else s4)
           in s5\<lparr>monotonic_evttim := current_evttim s5\<rparr>
         else s4)"

definition calc_current_evttim_ub :: "tme \<Rightarrow> EVTTIM" where
  "calc_current_evttim_ub s = current_evttim s + TSTEP_HRTCNT"

definition set_hrt_event :: "tme \<Rightarrow> tme" where
  "set_hrt_event s =
     (if p_last s < 1 then s\<lparr>hrt_req := HrtSet HRTCNT_BOUND\<rparr>
      else if EVTTIM_LE s (top_evttim s) (current_evttim s) then s\<lparr>hrt_req := HrtRaise\<rparr>
      else let hrtcnt = top_evttim s - current_evttim s
           in if hrtcnt > HRTCNT_BOUND then s\<lparr>hrt_req := HrtSet HRTCNT_BOUND\<rparr>
              else s\<lparr>hrt_req := HrtSet hrtcnt\<rparr>)"

definition tmevtb_register :: "tmevtb_ref \<Rightarrow> tme \<Rightarrow> tme" where
  "tmevtb_register r s = tmevtb_insert r s"

definition tmevtb_enqueue_reltim :: "tmevtb_ref \<Rightarrow> RELTIM \<Rightarrow> tme \<Rightarrow> tme" where
  "tmevtb_enqueue_reltim r time s =
     (let s1 = update_current_evttim s;
          s2 = s1\<lparr>tmevtb_tab := (tmevtb_tab s1)
                 (r := (tmevtb_tab s1 r)\<lparr>evttim := calc_current_evttim_ub s1 + time\<rparr>)\<rparr>;
          s3 = tmevtb_insert r s2
      in if \<not> in_signal_time s3 \<and> p_tmevtn (tmevtb_tab s3 r) = 1 then set_hrt_event s3 else s3)"

definition tmevtb_dequeue :: "tmevtb_ref \<Rightarrow> tme \<Rightarrow> tme" where
  "tmevtb_dequeue r s =
     (let p = p_tmevtn (tmevtb_tab s r);
          s1 = tmevtb_delete r s
      in if \<not> in_signal_time s1 \<and> p = 1 then set_hrt_event (update_current_evttim s1) else s1)"

definition check_adjtim :: "int \<Rightarrow> tme \<Rightarrow> bool" where
  "check_adjtim adjtim s =
     (if adjtim > 0 then
        p_last s \<ge> 1 \<and> EVTTIM_LE s (top_evttim s + TMAX_ADJTIM) (current_evttim s)
      else if adjtim < 0 then monotonic_evttim s - current_evttim s \<ge> 1000000
      else False)"

definition tmevt_lefttim :: "tmevtb_ref \<Rightarrow> tme \<Rightarrow> RELTIM \<times> tme" where
  "tmevt_lefttim r s =
     (let s1 = update_current_evttim s;
          current_evttim_ub = calc_current_evttim_ub s1;
          ev = evttim (tmevtb_tab s1 r)
      in if EVTTIM_LE s1 ev current_evttim_ub then (0, s1) else (ev - current_evttim_ub, s1))"

section \<open>Structure: nodes and back pointers\<close>

text \<open>
  \<open>linked s P A\<close>: the nodes in \<open>P\<close> hold the blocks \<open>A\<close>, each once, and each block points back
  to its node.
\<close>

definition linked :: "tme \<Rightarrow> nat set \<Rightarrow> tmevtb_ref set \<Rightarrow> bool" where
  "linked s P A \<longleftrightarrow> bij_betw (tmevt_heap s) P A \<and> (\<forall>i\<in>P. p_tmevtn (tmevtb_tab s (tmevt_heap s i)) = i)"

abbreviation nodes :: "nat \<Rightarrow> nat set" where
  "nodes n \<equiv> {1..n}"

lemma linkedD:
  assumes "linked s P A" "r \<in> A"
  shows "p_tmevtn (tmevtb_tab s r) \<in> P" "tmevt_heap s (p_tmevtn (tmevtb_tab s r)) = r"
  using assms by (auto simp: linked_def bij_betw_def)

lemma linked_in: "linked s P A \<Longrightarrow> i \<in> P \<Longrightarrow> tmevt_heap s i \<in> A"
  by (auto simp: linked_def bij_betw_def)

lemma linked_inj: "linked s P A \<Longrightarrow> i \<in> P \<Longrightarrow> j \<in> P \<Longrightarrow> tmevt_heap s i = tmevt_heap s j \<longleftrightarrow> i = j"
  by (auto simp: linked_def bij_betw_def inj_on_def)

lemma linked_cong:
  "linked s P A \<Longrightarrow> \<forall>i\<in>P. tmevt_heap s' i = tmevt_heap s i \<Longrightarrow>
   \<forall>r\<in>A. p_tmevtn (tmevtb_tab s' r) = p_tmevtn (tmevtb_tab s r) \<Longrightarrow> linked s' P A"
  unfolding linked_def using bij_betw_cong [of P "tmevt_heap s'" "tmevt_heap s" A]
  by (metis bij_betwE)

lemma linked_drop:
  assumes "linked s P A" "p \<in> P"
  shows "linked s (P - {p}) (A - {tmevt_heap s p})"
  using assms bij_betw_DiffI [of "tmevt_heap s" P A "{p}" "{tmevt_heap s p}"]
  by (auto simp: linked_def bij_betw_def)

lemma linked_set_node:
  assumes "linked s (P - {p}) A" "p \<in> P" "r \<notin> A"
  shows "linked (set_node p r s) P (insert r A)"
proof -
  have "bij_betw ((tmevt_heap s)(p := r)) (P - {p}) A"
    using assms(1) bij_betw_cong [of "P - {p}" "(tmevt_heap s)(p := r)" "tmevt_heap s" A]
    by (simp add: linked_def)
  then have "bij_betw ((tmevt_heap s)(p := r)) ((P - {p}) \<union> {p}) (A \<union> {((tmevt_heap s)(p := r)) p})"
    using assms(3) by (intro notIn_Un_bij_betw) auto
  then have "bij_betw ((tmevt_heap s)(p := r)) P (insert r A)"
    using assms(2) by (simp add: insert_absorb)
  moreover have "tmevt_heap s i \<noteq> r" if "i \<in> P" "i \<noteq> p" for i
    using linked_in [OF assms(1), of i] that assms(3) by auto
  ultimately show ?thesis
    using assms(1) by (auto simp: linked_def set_node_def)
qed

text \<open>Moving the block of \<open>q\<close> into the hole \<open>p\<close> moves the hole to \<open>q\<close>.\<close>

lemma linked_move:
  assumes "linked s (P - {p}) A" "p \<in> P" "q \<in> P" "q \<noteq> p"
  shows "linked (move_node p q s) (P - {q}) A"
proof -
  let ?r = "tmevt_heap s q"
  have "?r \<in> A" using linked_in [OF assms(1)] assms(3,4) by simp
  have "linked s (P - {q} - {p}) (A - {?r})"
  proof -
    have "P - {q} - {p} = P - {p} - {q}" by blast
    then show ?thesis using linked_drop [OF assms(1), of q] assms(3,4) by simp
  qed
  then have "linked (set_node p ?r s) (P - {q}) (insert ?r (A - {?r}))"
    using assms(2,4) by (intro linked_set_node) auto
  then show ?thesis using \<open>?r \<in> A\<close> by (simp add: move_node_def insert_absorb)
qed

section \<open>Order: keys and holes\<close>

definition ordered :: "tme \<Rightarrow> nat \<Rightarrow> bool" where
  "ordered s n \<longleftrightarrow> (\<forall>i. 2 \<le> i \<and> i \<le> n \<longrightarrow> key s (i div 2) \<le> key s i)"

text \<open>The heap is ordered except at the hole \<open>p\<close>, whose parent is below its children.\<close>

definition hole_ordered :: "tme \<Rightarrow> nat \<Rightarrow> nat \<Rightarrow> bool" where
  "hole_ordered s n p \<longleftrightarrow>
     (\<forall>i. 2 \<le> i \<and> i \<le> n \<and> i \<noteq> p \<longrightarrow>
        (if i div 2 = p then 2 \<le> p \<longrightarrow> key s (p div 2) \<le> key s i else key s (i div 2) \<le> key s i))"

definition below_children :: "EVTTIM \<Rightarrow> tme \<Rightarrow> nat \<Rightarrow> nat \<Rightarrow> bool" where
  "below_children k s n p \<longleftrightarrow> (\<forall>i. 2 \<le> i \<and> i \<le> n \<and> i div 2 = p \<longrightarrow> k \<le> key s i)"

definition above_parent :: "EVTTIM \<Rightarrow> tme \<Rightarrow> nat \<Rightarrow> bool" where
  "above_parent k s p \<longleftrightarrow> (2 \<le> p \<longrightarrow> key s (p div 2) \<le> k)"

lemma set_node_sel [simp]:
  "p_last (set_node p r s) = p_last s"
  "boundary_evttim (set_node p r s) = boundary_evttim s"
  "evttim (tmevtb_tab (set_node p r s) r') = evttim (tmevtb_tab s r')"
  "tmevt_heap (set_node p r s) = (tmevt_heap s)(p := r)"
  by (simp_all add: set_node_def)

lemma boundary_move [simp]: "boundary_evttim (move_node p q s) = boundary_evttim s"
  by (simp add: move_node_def)

lemma key_set_node:
  "key (set_node p r s) i = (if i = p then EVTTIM_ADVANCE s (evttim (tmevtb_tab s r)) else key s i)"
  by (simp add: key_def node_evttim_def EVTTIM_ADVANCE_def)

lemma key_move: "key (move_node p q s) i = key s (if i = p then q else i)"
  by (simp add: move_node_def key_set_node) (simp add: key_def node_evttim_def)

lemma key_last [simp]: "key (s\<lparr>p_last := n\<rparr>) i = key s i"
  by (simp add: key_def node_evttim_def EVTTIM_ADVANCE_def)

lemma EVTTIM_LE_key: "EVTTIM_LE s (node_evttim s i) ev \<longleftrightarrow> key s i \<le> EVTTIM_ADVANCE s ev"
  "EVTTIM_LE s ev (node_evttim s i) \<longleftrightarrow> EVTTIM_ADVANCE s ev \<le> key s i"
  "EVTTIM_LT s ev (node_evttim s i) \<longleftrightarrow> EVTTIM_ADVANCE s ev < key s i"
  "EVTTIM_LT s (node_evttim s j) (node_evttim s i) \<longleftrightarrow> key s j < key s i"
  by (simp_all add: EVTTIM_LE_def EVTTIM_LT_def key_def)

lemma ADVANCE_move [simp]: "EVTTIM_ADVANCE (move_node p q s) ev = EVTTIM_ADVANCE s ev"
  by (simp add: EVTTIM_ADVANCE_def)

lemma hole_fill:
  assumes "hole_ordered s n p" "below_children (EVTTIM_ADVANCE s (evttim (tmevtb_tab s r))) s n p"
    "above_parent (EVTTIM_ADVANCE s (evttim (tmevtb_tab s r))) s p"
  shows "ordered (set_node p r s) n"
proof -
  have "i div 2 \<noteq> i" if "2 \<le> i" for i :: nat using that by simp
  then show ?thesis
    using assms by (auto simp: ordered_def hole_ordered_def below_children_def above_parent_def key_set_node)
qed

lemma ordered_hole: "ordered s n \<Longrightarrow> hole_ordered s n p"
proof -
  assume o: "ordered s n"
  have "key s (p div 2) \<le> key s i" if "2 \<le> i" "i \<le> n" "i div 2 = p" "2 \<le> p" for i
  proof -
    have "p \<le> n" using that by simp
    then have "key s (p div 2) \<le> key s p" using o that by (simp add: ordered_def)
    also have "key s p \<le> key s i" using o that by (auto simp: ordered_def)
    finally show ?thesis .
  qed
  then show ?thesis using o by (auto simp: hole_ordered_def ordered_def)
qed

lemma ordered_top:
  assumes "ordered s n" "1 \<le> i" "i \<le> n"
  shows "key s 1 \<le> key s i"
  using assms(2,3)
proof (induction i rule: less_induct)
  case (less i)
  show ?case
  proof (cases "i = 1")
    case False
    then have "key s 1 \<le> key s (i div 2)" using less by simp
    also have "\<dots> \<le> key s i" using assms(1) False less.prems by (simp add: ordered_def)
    finally show ?thesis .
  qed simp
qed

subsection \<open>Moving the hole up\<close>

lemma up_step_order:
  assumes p: "2 \<le> p" "p \<le> n" and ho: "hole_ordered s n p" and k: "k < key s (p div 2)"
  shows "hole_ordered (move_node p (p div 2) s) n (p div 2)"
    "below_children k (move_node p (p div 2) s) n (p div 2)"
proof -
  let ?q = "p div 2" and ?s = "move_node p (p div 2) s"
  have q: "?q < p" "?q div 2 < p" "1 \<le> ?q" using p by linarith+
  have sib: "key s ?q \<le> key ?s i" if "2 \<le> i" "i \<le> n" "i div 2 = ?q" for i
  proof (cases "i = p")
    case False
    then have "i div 2 \<noteq> p" using that q by simp
    then show ?thesis using ho that False by (auto simp: hole_ordered_def key_move)
  qed (simp add: key_move)
  show "below_children k ?s n ?q"
    unfolding below_children_def using sib k by (meson less_imp_le less_le_trans)
  have gp: "key s (?q div 2) \<le> key s ?q" if "2 \<le> ?q"
    using ho that q p by (auto simp: hole_ordered_def)
  show "hole_ordered ?s n ?q"
    unfolding hole_ordered_def
  proof (intro allI impI)
    fix i assume i: "2 \<le> i \<and> i \<le> n \<and> i \<noteq> ?q"
    show "if i div 2 = ?q then 2 \<le> ?q \<longrightarrow> key ?s (?q div 2) \<le> key ?s i
         else key ?s (i div 2) \<le> key ?s i"
    proof (cases "i div 2 = ?q")
      case True
      then show ?thesis using sib [of i] gp i q by (auto simp: key_move intro: order_trans)
    next
      case False
      then have "i \<noteq> p" by auto
      then show ?thesis using False i ho p by (auto simp: key_move hole_ordered_def)
    qed
  qed
qed

lemma tmevt_up_correct:
  assumes "tmevt_up p ev s = (q, s')" "1 \<le> p" "p \<le> n"
  shows "1 \<le> q \<and> q \<le> p \<and> p_last s' = p_last s \<and> boundary_evttim s' = boundary_evttim s \<and>
    (\<forall>r. evttim (tmevtb_tab s' r) = evttim (tmevtb_tab s r)) \<and>
    (\<forall>i. p < i \<longrightarrow> tmevt_heap s' i = tmevt_heap s i) \<and>
    (linked s (nodes n - {p}) A \<longrightarrow> linked s' (nodes n - {q}) A) \<and>
    (hole_ordered s n p \<and> below_children (EVTTIM_ADVANCE s ev) s n p \<longrightarrow>
       hole_ordered s' n q \<and> below_children (EVTTIM_ADVANCE s ev) s' n q \<and>
       above_parent (EVTTIM_ADVANCE s ev) s' q)"
  using assms
proof (induction p ev s arbitrary: q s' rule: tmevt_up.induct)
  case (1 p ev s)
  show ?case
  proof (cases "p > 1 \<and> \<not> EVTTIM_LE s (node_evttim s (p div 2)) ev")
    case False
    then have "q = p" "s' = s" using "1.prems"(1) by (auto simp: tmevt_up.simps [of p] Let_def split: if_splits)
    then show ?thesis using False "1.prems" by (auto simp: above_parent_def EVTTIM_LE_key)
  next
    case True
    let ?q = "p div 2" and ?t = "move_node p (p div 2) s"
    have up: "tmevt_up ?q ev ?t = (q, s')"
      using True "1.prems"(1) by (simp add: tmevt_up.simps [of p] Let_def)
    have b: "1 \<le> ?q" "?q \<le> n" "?q < p" "2 \<le> p" using True "1.prems" by auto
    have k: "EVTTIM_ADVANCE s ev < key s ?q" using True by (simp add: EVTTIM_LE_key not_le)
    have IH: "1 \<le> q \<and> q \<le> ?q \<and> p_last s' = p_last ?t \<and> boundary_evttim s' = boundary_evttim ?t \<and>
      (\<forall>r. evttim (tmevtb_tab s' r) = evttim (tmevtb_tab ?t r)) \<and>
      (\<forall>i. ?q < i \<longrightarrow> tmevt_heap s' i = tmevt_heap ?t i) \<and>
      (linked ?t (nodes n - {?q}) A \<longrightarrow> linked s' (nodes n - {q}) A) \<and>
      (hole_ordered ?t n ?q \<and> below_children (EVTTIM_ADVANCE ?t ev) ?t n ?q \<longrightarrow>
         hole_ordered s' n q \<and> below_children (EVTTIM_ADVANCE ?t ev) s' n q \<and>
         above_parent (EVTTIM_ADVANCE ?t ev) s' q)"
      using "1.IH" [OF _ refl _ up] True b by auto
    have lk: "linked s (nodes n - {p}) A \<Longrightarrow> linked ?t (nodes n - {?q}) A"
      using b "1.prems" by (intro linked_move) auto
    have od: "hole_ordered s n p \<Longrightarrow> hole_ordered ?t n ?q \<and> below_children (EVTTIM_ADVANCE ?t ev) ?t n ?q"
      using up_step_order [OF b(4) "1.prems"(3) _ k] by simp
    have heap: "\<forall>i. p < i \<longrightarrow> tmevt_heap ?t i = tmevt_heap s i"
      and ev: "\<forall>r. evttim (tmevtb_tab ?t r) = evttim (tmevtb_tab s r)"
      by (simp_all add: move_node_def)
    show ?thesis
      using IH lk od heap ev b by (auto simp: less_imp_le)
  qed
qed

subsection \<open>Moving the hole down\<close>

lemma down_child_key:
  assumes "1 \<le> p" "2 * p \<le> p_last s"
  shows "down_child p s div 2 = p"
    "2 \<le> i \<Longrightarrow> i \<le> p_last s \<Longrightarrow> i div 2 = p \<Longrightarrow> key s (down_child p s) \<le> key s i"
proof -
  show "down_child p s div 2 = p" by (simp add: down_child_def Let_def)
  assume "2 \<le> i" "i \<le> p_last s" "i div 2 = p"
  moreover from this have "i = 2 * p \<or> i = 2 * p + 1" by linarith
  ultimately show "key s (down_child p s) \<le> key s i"
    by (auto simp: down_child_def Let_def EVTTIM_LT_def key_def)
qed

lemma down_step_order:
  assumes p: "1 \<le> p" "2 * p \<le> p_last s" and ho: "hole_ordered s (p_last s) p"
    and k: "key s (down_child p s) < k"
  shows "hole_ordered (move_node p (down_child p s) s) (p_last s) (down_child p s)"
    "above_parent k (move_node p (down_child p s) s) (down_child p s)"
proof -
  let ?c = "down_child p s"
  let ?s = "move_node p ?c s"
  have c: "?c div 2 = p" "?c \<le> p_last s" "p < ?c" "2 \<le> ?c"
    using down_child_bounds [of p s] p down_child_key(1) [OF p] by linarith+
  show "above_parent k ?s ?c" using k c by (simp add: above_parent_def key_move less_imp_le)
  show "hole_ordered ?s (p_last s) ?c"
    unfolding hole_ordered_def
  proof (intro allI impI)
    fix i assume i: "2 \<le> i \<and> i \<le> p_last s \<and> i \<noteq> ?c"
    have np: "i div 2 < i" using i by simp
    show "if i div 2 = ?c then 2 \<le> ?c \<longrightarrow> key ?s (?c div 2) \<le> key ?s i
         else key ?s (i div 2) \<le> key ?s i"
    proof (cases "i div 2 = ?c")
      case True
      then have "i \<noteq> p" "i div 2 \<noteq> p" using c np by auto
      then have "key s ?c \<le> key s i" using ho i True by (auto simp: hole_ordered_def)
      then show ?thesis using True c \<open>i \<noteq> p\<close> by (simp add: key_move)
    next
      case False
      show ?thesis
      proof (cases "i = p")
        case True
        then have "key s (p div 2) \<le> key s ?c" using ho c i by (auto simp: hole_ordered_def)
        then show ?thesis using True False np by (simp add: key_move)
      next
        case ip: False
        show ?thesis
        proof (cases "i div 2 = p")
          case True
          then have "key s ?c \<le> key s i" using down_child_key(2) [OF p] i by simp
          then show ?thesis using True False ip by (simp add: key_move)
        next
          case ip2: False
          then show ?thesis using ho i ip False by (simp add: key_move hole_ordered_def)
        qed
      qed
    qed
  qed
qed

lemma tmevt_down_correct:
  assumes "tmevt_down p ev s = (q, s')" "1 \<le> p" "p_last s = n"
  shows "p \<le> q \<and> (q = p \<or> q \<le> n) \<and> p_last s' = n \<and> boundary_evttim s' = boundary_evttim s \<and>
    (\<forall>r. evttim (tmevtb_tab s' r) = evttim (tmevtb_tab s r)) \<and>
    (\<forall>i. n < i \<longrightarrow> p \<le> n \<longrightarrow> tmevt_heap s' i = tmevt_heap s i) \<and>
    (p \<le> n \<longrightarrow> linked s (nodes n - {p}) A \<longrightarrow> linked s' (nodes n - {q}) A) \<and>
    (hole_ordered s n p \<and> above_parent (EVTTIM_ADVANCE s ev) s p \<longrightarrow>
       hole_ordered s' n q \<and> below_children (EVTTIM_ADVANCE s ev) s' n q \<and>
       above_parent (EVTTIM_ADVANCE s ev) s' q)"
  using assms
proof (induction p ev s arbitrary: q s' rule: tmevt_down.induct)
  case (1 p ev s)
  show ?case
  proof (cases "2 * p \<le> n \<and> \<not> EVTTIM_LE s ev (node_evttim s (down_child p s))")
    case False
    then have qs: "q = p" "s' = s" using "1.prems" by (auto simp: tmevt_down.simps [of p] Let_def split: if_splits)
    have "below_children (EVTTIM_ADVANCE s ev) s n p"
    proof (cases "2 * p \<le> n")
      case True
      then have "EVTTIM_ADVANCE s ev \<le> key s (down_child p s)" using False by (simp add: EVTTIM_LE_key)
      then show ?thesis
        using down_child_key(2) [of p s] True "1.prems" by (auto simp: below_children_def intro: order_trans)
    next
      case False
      then show ?thesis by (auto simp: below_children_def)
    qed
    then show ?thesis using qs "1.prems" by auto
  next
    case True
    let ?c = "down_child p s"
    let ?t = "move_node p ?c s"
    have pn: "1 \<le> p" "2 * p \<le> p_last s" "p \<le> n" using True "1.prems" by auto
    have down: "tmevt_down ?c ev ?t = (q, s')"
      using True "1.prems" by (simp add: tmevt_down.simps [of p] Let_def)
    have c: "p < ?c" "?c \<le> n" using down_child_bounds [of p s] pn "1.prems" by auto
    have k: "key s ?c < EVTTIM_ADVANCE s ev" using True by (simp add: EVTTIM_LE_key not_le)
    have IH: "?c \<le> q \<and> (q = ?c \<or> q \<le> n) \<and> p_last s' = n \<and> boundary_evttim s' = boundary_evttim ?t \<and>
      (\<forall>r. evttim (tmevtb_tab s' r) = evttim (tmevtb_tab ?t r)) \<and>
      (\<forall>i. n < i \<longrightarrow> ?c \<le> n \<longrightarrow> tmevt_heap s' i = tmevt_heap ?t i) \<and>
      (?c \<le> n \<longrightarrow> linked ?t (nodes n - {?c}) A \<longrightarrow> linked s' (nodes n - {q}) A) \<and>
      (hole_ordered ?t n ?c \<and> above_parent (EVTTIM_ADVANCE ?t ev) ?t ?c \<longrightarrow>
         hole_ordered s' n q \<and> below_children (EVTTIM_ADVANCE ?t ev) s' n q \<and>
         above_parent (EVTTIM_ADVANCE ?t ev) s' q)"
      using "1.IH" [OF _ refl _ down] True c "1.prems" by auto
    have lk: "linked s (nodes n - {p}) A \<Longrightarrow> linked ?t (nodes n - {?c}) A"
      using c pn by (intro linked_move) auto
    have od: "hole_ordered s n p \<Longrightarrow> hole_ordered ?t n ?c \<and> above_parent (EVTTIM_ADVANCE ?t ev) ?t ?c"
      using down_step_order [OF pn(1,2) _ k] "1.prems" by simp
    have heap: "\<forall>i. n < i \<longrightarrow> tmevt_heap ?t i = tmevt_heap s i"
      and ev: "\<forall>r. evttim (tmevtb_tab ?t r) = evttim (tmevtb_tab s r)"
      using pn by (auto simp: move_node_def)
    show ?thesis
      using IH lk od heap ev c by (auto simp: less_imp_le)
  qed
qed

section \<open>What the operations leave alone\<close>

definition same_block :: "tmevtb \<Rightarrow> tmevtb \<Rightarrow> bool" where
  "same_block b b' \<longleftrightarrow> evttim b' = evttim b \<and> callback b' = callback b \<and> arg b' = arg b"

text \<open>Only the heap, the back pointers and the last-node pointer may differ.\<close>

definition heap_only :: "tme \<Rightarrow> tme \<Rightarrow> bool" where
  "heap_only s s' \<longleftrightarrow>
     boundary_evttim s' = boundary_evttim s \<and> current_evttim s' = current_evttim s \<and>
     monotonic_evttim s' = monotonic_evttim s \<and> systim_offset s' = systim_offset s \<and>
     in_signal_time s' = in_signal_time s \<and> current_hrtcnt s' = current_hrtcnt s \<and>
     hrt_in s' = hrt_in s \<and> hrt_n s' = hrt_n s \<and> hrt_req s' = hrt_req s \<and> window_left s' = window_left s \<and>
     (\<forall>r. same_block (tmevtb_tab s r) (tmevtb_tab s' r))"

lemma same_block_simps [simp]:
  "same_block b b" "same_block b (b\<lparr>p_tmevtn := i\<rparr>)"
  "same_block b b' \<Longrightarrow> same_block b (b'\<lparr>p_tmevtn := i\<rparr>)"
  by (simp_all add: same_block_def)

lemma heap_only_refl [simp, intro]: "heap_only s s"
  by (simp add: heap_only_def)

lemma heap_only_trans [trans]: "heap_only s t \<Longrightarrow> heap_only t u \<Longrightarrow> heap_only s u"
  by (auto simp: heap_only_def same_block_def)

lemma heap_only_set_node [intro]: "heap_only s (set_node p r s)"
  by (auto simp: heap_only_def set_node_def)

lemma heap_only_move [intro]: "heap_only s (move_node p q s)"
  by (auto simp: move_node_def)

lemma heap_only_last [intro]: "heap_only s (s\<lparr>p_last := n\<rparr>)"
  by (simp add: heap_only_def)

lemma heap_only_up: "tmevt_up p ev s = (q, s') \<Longrightarrow> heap_only s s'"
proof (induction p ev s arbitrary: q s' rule: tmevt_up.induct)
  case (1 p ev s)
  show ?case
  proof (cases "p > 1 \<and> \<not> EVTTIM_LE s (node_evttim s (p div 2)) ev")
    case True
    then have "heap_only (move_node p (p div 2) s) s'"
      using "1.IH" [OF _ refl] "1.prems" by (simp add: tmevt_up.simps [of p] Let_def)
    then show ?thesis by (rule heap_only_trans [OF heap_only_move])
  next
    case False
    then show ?thesis using "1.prems" by (auto simp: tmevt_up.simps [of p] Let_def split: if_splits)
  qed
qed

lemma heap_only_down: "tmevt_down p ev s = (q, s') \<Longrightarrow> heap_only s s'"
proof (induction p ev s arbitrary: q s' rule: tmevt_down.induct)
  case (1 p ev s)
  let ?c = "down_child p s"
  show ?case
  proof (cases "0 < p \<and> 2 * p \<le> p_last s \<and> \<not> EVTTIM_LE s ev (node_evttim s ?c)")
    case True
    then have "heap_only (move_node p ?c s) s'"
      using "1.IH" [OF _ refl] "1.prems" by (simp add: tmevt_down.simps [of p] Let_def)
    then show ?thesis by (rule heap_only_trans [OF heap_only_move])
  next
    case False
    then show ?thesis using "1.prems" by (auto simp: tmevt_down.simps [of p] Let_def split: if_splits)
  qed
qed

lemma heap_only_insert [intro]: "heap_only s (tmevtb_insert r s)"
proof -
  let ?t = "s\<lparr>p_last := p_last s + 1\<rparr>"
  obtain q u where up: "tmevt_up (p_last ?t) (evttim (tmevtb_tab ?t r)) ?t = (q, u)" by (meson surj_pair)
  have "heap_only s ?t" by (rule heap_only_last)
  also have "heap_only ?t u" using up by (rule heap_only_up)
  also have "heap_only u (set_node q r u)" by (rule heap_only_set_node)
  finally show ?thesis using up by (simp add: tmevtb_insert_def)
qed

lemma heap_only_delete [intro]: "heap_only s (tmevtb_delete r s)"
proof -
  obtain t p ev where t: "t = s\<lparr>p_last := p_last s - 1\<rparr>" and p: "p = p_tmevtn (tmevtb_tab s r)"
    and ev: "ev = node_evttim t (p_last t + 1)" by blast
  obtain w where w: "w = (if p > 1 \<and> EVTTIM_LT t ev (node_evttim t (p div 2))
     then tmevt_up (p div 2) ev (move_node p (p div 2) t) else tmevt_down p ev t)" by blast
  have del: "tmevtb_delete r s =
      (if p_last t < 1 then t else case w of (q, u) \<Rightarrow> move_node q (p_last t + 1) u)"
    unfolding tmevtb_delete_def Let_def w ev p t by (rule refl)
  have st: "heap_only s t" unfolding t by (rule heap_only_last)
  obtain q u where qu: "w = (q, u)" by (meson surj_pair)
  have "heap_only t u"
  proof (cases "p > 1 \<and> EVTTIM_LT t ev (node_evttim t (p div 2))")
    case True
    then have "tmevt_up (p div 2) ev (move_node p (p div 2) t) = (q, u)"
      using if_P [OF True] w qu by metis
    then show ?thesis by (rule heap_only_trans [OF heap_only_move heap_only_up])
  next
    case False
    then have "tmevt_down p ev t = (q, u)" using if_not_P [OF False] w qu by metis
    then show ?thesis by (rule heap_only_down)
  qed
  then have "heap_only s (move_node q (p_last t + 1) u)"
    using st heap_only_trans heap_only_move by blast
  then show ?thesis using st by (simp add: del qu)
qed

lemma heap_only_delete_top [intro]: "heap_only s (snd (tmevtb_delete_top s))"
proof -
  obtain t ev where t: "t = s\<lparr>p_last := p_last s - 1\<rparr>" and ev: "ev = node_evttim t (p_last t + 1)" by blast
  have del: "tmevtb_delete_top s = (if p_last t \<ge> 1 then
      case tmevt_down 1 ev t of (q, u) \<Rightarrow> (tmevt_heap s 1, move_node q (p_last t + 1) u)
      else (tmevt_heap s 1, t))"
    unfolding tmevtb_delete_top_def Let_def ev t by (rule refl)
  obtain q u where r: "tmevt_down 1 ev t = (q, u)" by (meson surj_pair)
  have st: "heap_only s t" unfolding t by (rule heap_only_last)
  then have "heap_only s (move_node q (p_last t + 1) u)"
    using heap_only_down [OF r] heap_only_trans heap_only_move by blast
  then show ?thesis using st r by (simp add: del)
qed

lemma heap_only_sel:
  assumes "heap_only s s'"
  shows "boundary_evttim s' = boundary_evttim s" "current_evttim s' = current_evttim s"
    "monotonic_evttim s' = monotonic_evttim s" "systim_offset s' = systim_offset s"
    "in_signal_time s' = in_signal_time s" "current_hrtcnt s' = current_hrtcnt s"
    "hrt_in s' = hrt_in s" "hrt_n s' = hrt_n s" "hrt_req s' = hrt_req s" "window_left s' = window_left s"
    "evttim (tmevtb_tab s' r) = evttim (tmevtb_tab s r)"
    "callback (tmevtb_tab s' r) = callback (tmevtb_tab s r)"
    "arg (tmevtb_tab s' r) = arg (tmevtb_tab s r)"
  using assms by (auto simp: heap_only_def same_block_def)

section \<open>Insertion and deletion\<close>

text \<open>The blocks in the heap are exactly \<open>A\<close>; the heap is ordered by event time.\<close>

definition in_heap :: "tme \<Rightarrow> tmevtb_ref set \<Rightarrow> bool" where
  "in_heap s A \<longleftrightarrow> linked s (nodes (p_last s)) A"

definition heap_ordered :: "tme \<Rightarrow> bool" where
  "heap_ordered s \<longleftrightarrow> ordered s (p_last s)"

definition event_key :: "tme \<Rightarrow> tmevtb_ref \<Rightarrow> EVTTIM" where
  "event_key s r = EVTTIM_ADVANCE s (evttim (tmevtb_tab s r))"

lemma key_event: "key s i = event_key s (tmevt_heap s i)"
  by (simp add: key_def event_key_def node_evttim_def)

lemma event_key_heap_only: "heap_only s s' \<Longrightarrow> event_key s' r = event_key s r"
  by (simp add: event_key_def EVTTIM_ADVANCE_def heap_only_sel)

lemma in_heap_card: "in_heap s A \<Longrightarrow> card A = p_last s \<and> finite A"
  unfolding in_heap_def linked_def
  by (metis bij_betw_finite bij_betw_same_card card_atLeastAtMost diff_Suc_1 finite_atLeastAtMost)

lemma in_heap_empty: "in_heap s A \<Longrightarrow> p_last s < 1 \<longleftrightarrow> A = {}"
  using in_heap_card [of s A] by auto

lemma in_heap_fun: "in_heap s A \<Longrightarrow> in_heap s B \<Longrightarrow> A = B"
  by (auto simp: in_heap_def linked_def bij_betw_def)

lemma insert_in_heap:
  assumes "in_heap s A" "r \<notin> A"
  shows "in_heap (tmevtb_insert r s) (insert r A)" "heap_ordered s \<Longrightarrow> heap_ordered (tmevtb_insert r s)"
    "p_last (tmevtb_insert r s) = p_last s + 1"
proof -
  let ?n = "p_last s + 1"
  let ?t = "s\<lparr>p_last := ?n\<rparr>" and ?ev = "evttim (tmevtb_tab s r)"
  obtain q u where up: "tmevt_up ?n ?ev ?t = (q, u)" by (cases "tmevt_up ?n ?ev ?t")
  then have ins: "tmevtb_insert r s = set_node q r u" by (simp add: tmevtb_insert_def)
  have n: "nodes ?n - {?n} = nodes (p_last s)" by auto
  have c: "1 \<le> q" "q \<le> ?n" "p_last u = ?n" "boundary_evttim u = boundary_evttim s"
      "evttim (tmevtb_tab u r) = ?ev"
      "linked ?t (nodes ?n - {?n}) A \<Longrightarrow> linked u (nodes ?n - {q}) A"
      "hole_ordered ?t ?n ?n \<Longrightarrow> below_children (EVTTIM_ADVANCE ?t ?ev) ?t ?n ?n \<Longrightarrow>
        hole_ordered u ?n q \<and> below_children (EVTTIM_ADVANCE ?t ?ev) u ?n q \<and>
         above_parent (EVTTIM_ADVANCE ?t ?ev) u q"
    using tmevt_up_correct [OF up, of ?n A] by auto
  have "linked ?t (nodes ?n - {?n}) A"
    unfolding n by (rule linked_cong [OF assms(1) [unfolded in_heap_def]]) auto
  then have "linked (set_node q r u) (nodes ?n) (insert r A)"
    using c(1,2,6) assms(2) by (intro linked_set_node) auto
  then show "in_heap (tmevtb_insert r s) (insert r A)" using ins c by (simp add: in_heap_def)
  show "p_last (tmevtb_insert r s) = ?n" using ins c by simp
  assume "heap_ordered s"
  then have o: "ordered s (p_last s)" by (simp add: heap_ordered_def)
  have "hole_ordered ?t ?n ?n" using o by (auto simp: hole_ordered_def ordered_def)
  moreover have "below_children (EVTTIM_ADVANCE ?t ?ev) ?t ?n ?n" by (auto simp: below_children_def)
  moreover have "EVTTIM_ADVANCE ?t ?ev = EVTTIM_ADVANCE u (evttim (tmevtb_tab u r))"
    using c by (simp add: EVTTIM_ADVANCE_def)
  ultimately have "ordered (set_node q r u) ?n" using c(7) by (intro hole_fill) auto
  then show "heap_ordered (tmevtb_insert r s)" using ins c by (simp add: heap_ordered_def)
qed

text \<open>
  The last step of both deletions: the block of the former last node goes into the hole \<open>q\<close>.
\<close>

lemma fill_with_last:
  assumes "linked u (nodes n - {q}) (A - {x})" "1 \<le> q" "q \<le> n" "tmevt_heap u (n + 1) = x" "x \<in> A"
    "p_last u = n"
  shows "in_heap (move_node q (n + 1) u) A"
    "hole_ordered u n q \<Longrightarrow> below_children (event_key u x) u n q \<Longrightarrow> above_parent (event_key u x) u q \<Longrightarrow>
     heap_ordered (move_node q (n + 1) u)"
proof -
  have "linked (set_node q x u) (nodes n) (insert x (A - {x}))"
    using assms by (intro linked_set_node) auto
  then show "in_heap (move_node q (n + 1) u) A"
    using assms by (simp add: in_heap_def move_node_def insert_absorb)
  assume "hole_ordered u n q" "below_children (event_key u x) u n q" "above_parent (event_key u x) u q"
  then show "heap_ordered (move_node q (n + 1) u)"
    using hole_fill [of u n q x] assms by (simp add: heap_ordered_def move_node_def event_key_def)
qed

lemma delete_top_in_heap:
  assumes "in_heap s A" "A \<noteq> {}"
  shows "\<exists>r s'. tmevtb_delete_top s = (r, s') \<and> r = tmevt_heap s 1 \<and> r \<in> A \<and> in_heap s' (A - {r}) \<and>
    p_last s' = p_last s - 1 \<and> (heap_ordered s \<longrightarrow> heap_ordered s')"
proof -
  obtain n where n: "p_last s = Suc n"
    using in_heap_empty [OF assms(1)] assms(2) by (cases "p_last s") auto
  let ?r = "tmevt_heap s 1"
  obtain t where t: "t = s\<lparr>p_last := n\<rparr>" by blast
  have lk: "linked s (nodes (Suc n)) A" using assms(1) n by (simp add: in_heap_def)
  have rA: "?r \<in> A" using linked_in [OF lk] by simp
  have del: "tmevtb_delete_top s = (if n \<ge> 1 then
      case tmevt_down 1 (node_evttim t (Suc n)) t of (q, u) \<Rightarrow> (?r, move_node q (Suc n) u)
      else (?r, t))"
    by (simp add: tmevtb_delete_top_def n t Let_def)
  show ?thesis
  proof (cases "n = 0")
    case True
    then have "A = {?r}" using in_heap_card [OF assms(1)] rA n by (auto simp: card_1_singleton_iff)
    then have "in_heap t (A - {?r})"
      using True by (auto simp: t in_heap_def linked_def bij_betw_def)
    moreover have "heap_ordered t" using True by (simp add: t heap_ordered_def ordered_def)
    ultimately show ?thesis using True rA del t n by simp
  next
    case False
    let ?x = "tmevt_heap s (Suc n)" and ?ev = "node_evttim t (Suc n)"
    obtain q u where down: "tmevt_down 1 ?ev t = (q, u)" by (meson surj_pair)
    have del': "tmevtb_delete_top s = (?r, move_node q (Suc n) u)" using del down False by simp
    have P: "nodes (Suc n) - {1} - {Suc n} = nodes n - {1}" by auto
    have xr: "?x \<noteq> ?r" using linked_inj [OF lk, of "Suc n" 1] False by auto
    have xA: "?x \<in> A" using linked_in [OF lk] by simp
    have "linked s (nodes (Suc n) - {1} - {Suc n}) (A - {?r} - {?x})"
      using False by (intro linked_drop lk) auto
    then have lkt: "linked t (nodes n - {1}) (A - {?r} - {?x})"
      unfolding P by (rule linked_cong) (simp_all add: t)
    have c: "1 \<le> q" "q \<le> n" "p_last u = n" "boundary_evttim u = boundary_evttim s"
      "\<And>r. evttim (tmevtb_tab u r) = evttim (tmevtb_tab s r)" "tmevt_heap u (n + 1) = ?x"
      "linked u (nodes n - {q}) (A - {?r} - {?x})"
      "hole_ordered t n 1 \<Longrightarrow> above_parent (EVTTIM_ADVANCE t ?ev) t 1 \<Longrightarrow>
         hole_ordered u n q \<and> below_children (EVTTIM_ADVANCE t ?ev) u n q \<and>
         above_parent (EVTTIM_ADVANCE t ?ev) u q"
      using tmevt_down_correct [OF down, of n "A - {?r} - {?x}"] lkt False t by auto
    have ev: "EVTTIM_ADVANCE t ?ev = event_key u ?x"
      using c t by (simp add: event_key_def EVTTIM_ADVANCE_def node_evttim_def)
    have "in_heap (move_node q (n + 1) u) (A - {?r})"
      using c xr xA by (intro fill_with_last) auto
    moreover have "heap_ordered (move_node q (n + 1) u)" if "heap_ordered s"
    proof -
      have "ordered t n" using that n by (auto simp: heap_ordered_def ordered_def t)
      then have "hole_ordered u n q \<and> below_children (event_key u ?x) u n q \<and> above_parent (event_key u ?x) u q"
        using c(8) ev ordered_hole [of t n 1] by (simp add: above_parent_def)
      then show ?thesis using c xr xA by (intro fill_with_last(2) [where A = "A - {?r}"]) auto
    qed
    ultimately show ?thesis using del' rA c n by (simp add: move_node_def)
  qed
qed

lemma delete_in_heap:
  assumes "in_heap s A" "r \<in> A"
  shows "in_heap (tmevtb_delete r s) (A - {r})" "p_last (tmevtb_delete r s) = p_last s - 1"
    "heap_ordered s \<Longrightarrow> heap_ordered (tmevtb_delete r s)"
proof -
  obtain n where n: "p_last s = Suc n"
    using in_heap_empty [OF assms(1)] assms(2) by (cases "p_last s") auto
  obtain t p where t: "t = s\<lparr>p_last := n\<rparr>" and p: "p = p_tmevtn (tmevtb_tab s r)" by blast
  have lk: "linked s (nodes (Suc n)) A" using assms(1) n by (simp add: in_heap_def)
  have pn: "1 \<le> p" "p \<le> Suc n" and hp: "tmevt_heap s p = r"
    using linkedD [OF lk assms(2)] by (auto simp: p)
  let ?x = "tmevt_heap s (Suc n)" and ?ev = "node_evttim t (Suc n)"
  obtain w where w: "w = (if p > 1 \<and> EVTTIM_LT t ?ev (node_evttim t (p div 2))
     then tmevt_up (p div 2) ?ev (move_node p (p div 2) t) else tmevt_down p ?ev t)" by blast
  have del: "tmevtb_delete r s = (if n < 1 then t else case w of (q, u) \<Rightarrow> move_node q (Suc n) u)"
    by (simp add: tmevtb_delete_def n t p w Let_def)
  obtain q u where qu: "w = (q, u)" by (meson surj_pair)
  have xA: "?x \<in> A" using linked_in [OF lk] by simp
  consider (single) "n = 0"
    | (last_up) "1 \<le> n" "p = Suc n" "EVTTIM_LT t ?ev (node_evttim t (p div 2))"
    | (last) "1 \<le> n" "p = Suc n" "\<not> EVTTIM_LT t ?ev (node_evttim t (p div 2))"
    | (inner) "1 \<le> n" "p \<le> n"
    using pn by linarith
  then have main: "in_heap (tmevtb_delete r s) (A - {r}) \<and> p_last (tmevtb_delete r s) = n \<and>
    (heap_ordered s \<longrightarrow> heap_ordered (tmevtb_delete r s))"
  proof cases
    case single
    then have "A = {r}" using in_heap_card [OF assms(1)] assms(2) n by (auto simp: card_1_singleton_iff)
    then have "in_heap t (A - {r})" using single by (auto simp: t in_heap_def linked_def bij_betw_def)
    moreover have "heap_ordered t" using single by (simp add: t heap_ordered_def ordered_def)
    ultimately show ?thesis using single del t by simp
  next
    case last_up
    txt \<open>Out of order: the parent of the deleted last node moves down and becomes the filler.\<close>
    let ?y = "tmevt_heap s (p div 2)"
    have d: "1 \<le> p div 2" "p div 2 \<le> n" "p div 2 \<noteq> p" using last_up by auto
    have "tmevt_up (p div 2) ?ev (move_node p (p div 2) t) = (q, u)" using w qu last_up by auto
    from tmevt_up_correct [OF this d(1,2), of "A - {r} - {?y}"] have c: "1 \<le> q" "q \<le> n" "p_last u = n"
      "tmevt_heap u (Suc n) = ?y"
      "linked (move_node p (p div 2) t) (nodes n - {p div 2}) (A - {r} - {?y}) \<longrightarrow>
       linked u (nodes n - {q}) (A - {r} - {?y})"
      using d last_up t by (auto simp: move_node_def)
    have "linked s (nodes (Suc n) - {p} - {p div 2}) (A - {r} - {?y})"
      using linked_drop [OF linked_drop [OF lk, of p], of "p div 2"] pn d hp by simp
    moreover have "nodes (Suc n) - {p} - {p div 2} = nodes n - {p div 2}" using last_up by auto
    ultimately have "linked s (nodes n - {p div 2}) (A - {r} - {?y})" by simp
    then have "linked (move_node p (p div 2) t) (nodes n - {p div 2}) (A - {r} - {?y})"
      by (rule linked_cong) (use last_up t d in \<open>auto simp: move_node_def set_node_def\<close>)
    moreover have "?y \<in> A" using linked_in [OF lk] d by simp
    moreover have "?y \<noteq> r" using linked_inj [OF lk, of "p div 2" p] d pn hp by auto
    ultimately have "in_heap (move_node q (n + 1) u) (A - {r})"
      using c by (intro fill_with_last) auto
    moreover have "\<not> heap_ordered s"
    proof
      assume "heap_ordered s"
      then have "key s (p div 2) \<le> key s p" using last_up n by (simp add: heap_ordered_def ordered_def)
      then show False using last_up(2,3) t by (simp add: EVTTIM_LE_key(4))
    qed
    ultimately show ?thesis using del qu last_up c by (simp add: move_node_def)
  next
    case last
    have "tmevt_down p ?ev t = (q, u)" using w qu last by auto
    then have qu': "q = p" "u = t" using last t by (auto simp: tmevt_down.simps [of "Suc n"])
    have "linked s (nodes (Suc n) - {p}) (A - {r})"
      using linked_drop [OF lk, of p] pn hp by simp
    moreover have "nodes (Suc n) - {p} = nodes n" using last by auto
    ultimately have "linked s (nodes n) (A - {r})" by simp
    then have "linked (move_node p (Suc n) t) (nodes n) (A - {r})"
      by (rule linked_cong) (use last(2) hp in \<open>simp_all add: t move_node_def set_node_def\<close>)
    then have "in_heap (move_node p (Suc n) t) (A - {r})"
      by (simp add: in_heap_def t)
    moreover have "heap_ordered (move_node p (Suc n) t)" if "heap_ordered s"
      using that last t n by (auto simp: heap_ordered_def ordered_def key_move)
    ultimately show ?thesis using del qu qu' last t by simp
  next
    case inner
    have "p_last t = n" "1 \<le> n" using t inner by auto
    have xr: "?x \<noteq> r" using linked_inj [OF lk, of "Suc n" p] inner pn hp by auto
    have P: "nodes (Suc n) - {p} - {Suc n} = nodes n - {p}" by auto
    have "linked s (nodes (Suc n) - {p} - {Suc n}) (A - {r} - {?x})"
      using linked_drop [OF linked_drop [OF lk, of p], of "Suc n"] pn hp inner by simp
    then have lkt: "linked t (nodes n - {p}) (A - {r} - {?x})"
      unfolding P by (rule linked_cong) (simp_all add: t)
    have c: "1 \<le> q \<and> q \<le> n \<and> p_last u = n \<and> boundary_evttim u = boundary_evttim s \<and>
      (\<forall>r. evttim (tmevtb_tab u r) = evttim (tmevtb_tab s r)) \<and> tmevt_heap u (n + 1) = ?x \<and>
      linked u (nodes n - {q}) (A - {r} - {?x}) \<and>
      (ordered t n \<longrightarrow> hole_ordered u n q \<and> below_children (EVTTIM_ADVANCE t ?ev) u n q \<and>
         above_parent (EVTTIM_ADVANCE t ?ev) u q)"
    proof (cases "p > 1 \<and> EVTTIM_LT t ?ev (node_evttim t (p div 2))")
      case True
      then have "tmevt_up p ?ev t = (q, u)"
        using w qu by (simp add: tmevt_up.simps [of p] Let_def EVTTIM_LE_def EVTTIM_LT_def not_le [symmetric])
      from tmevt_up_correct [OF this pn(1) inner(2), of "A - {r} - {?x}"] lkt
      have "1 \<le> q" "q \<le> n" "p_last u = n" "boundary_evttim u = boundary_evttim s"
        "\<forall>r. evttim (tmevtb_tab u r) = evttim (tmevtb_tab s r)" "tmevt_heap u (n + 1) = ?x"
        "linked u (nodes n - {q}) (A - {r} - {?x})"
        and o: "hole_ordered t n p \<and> below_children (EVTTIM_ADVANCE t ?ev) t n p \<longrightarrow>
          hole_ordered u n q \<and> below_children (EVTTIM_ADVANCE t ?ev) u n q \<and>
          above_parent (EVTTIM_ADVANCE t ?ev) u q"
        using inner t by auto
      moreover have "below_children (EVTTIM_ADVANCE t ?ev) t n p" if "ordered t n"
        unfolding below_children_def
      proof (intro allI impI)
        fix i assume "2 \<le> i \<and> i \<le> n \<and> i div 2 = p"
        then have "key t (p div 2) \<le> key t i"
          using ordered_hole [OF that, of p] True by (auto simp: hole_ordered_def)
        moreover have "EVTTIM_ADVANCE t ?ev < key t (p div 2)"
          using True by (simp add: EVTTIM_LE_key(3))
        ultimately show "EVTTIM_ADVANCE t ?ev \<le> key t i"
          by (meson less_imp_le less_le_trans)
      qed
      ultimately show ?thesis using ordered_hole [of t n p] by blast
    next
      case False
      then have down: "tmevt_down p ?ev t = (q, u)" using if_not_P [OF False] w qu by metis
      have "above_parent (EVTTIM_ADVANCE t ?ev) t p"
        using False by (auto simp: above_parent_def EVTTIM_LE_key(3))
      then show ?thesis
        using tmevt_down_correct [OF down pn(1) \<open>p_last t = n\<close>, of "A - {r} - {?x}"] lkt inner t
          ordered_hole [of t n p] pn by auto
    qed
    have ev: "EVTTIM_ADVANCE t ?ev = event_key u ?x"
      using c t by (simp add: event_key_def EVTTIM_ADVANCE_def node_evttim_def)
    have "in_heap (move_node q (n + 1) u) (A - {r})"
      using c xr xA by (intro fill_with_last) auto
    moreover have "heap_ordered (move_node q (n + 1) u)" if "heap_ordered s"
    proof -
      have "ordered t n" using that n by (auto simp: heap_ordered_def ordered_def t)
      then show ?thesis using c ev xr xA by (intro fill_with_last(2) [where A = "A - {r}"]) auto
    qed
    ultimately show ?thesis using del qu c inner by (simp add: move_node_def)
  qed
  then show "in_heap (tmevtb_delete r s) (A - {r})" "p_last (tmevtb_delete r s) = p_last s - 1"
    "heap_ordered s \<Longrightarrow> heap_ordered (tmevtb_delete r s)" using n by auto
qed

text \<open>
  The invariant of the heap: the blocks registered in it are exactly \<open>A\<close>, and while the boundary has passed
  none of them it is ordered by event time.
\<close>

definition registered :: "tme \<Rightarrow> tmevtb_ref set \<Rightarrow> bool" where
  "registered s A \<longleftrightarrow> in_heap s A \<and> (window_left s \<or> heap_ordered s)"

lemma registered_in_heap: "registered s A \<Longrightarrow> in_heap s A"
  by (simp add: registered_def)

lemmas registered_card = in_heap_card [OF registered_in_heap]
  and registered_empty = in_heap_empty [OF registered_in_heap]

lemma window_left_same [simp]:
  "window_left (tmevtb_insert r s) = window_left s" "window_left (tmevtb_delete r s) = window_left s"
  "window_left (snd (tmevtb_delete_top s)) = window_left s"
  by (rule heap_only_sel(10); rule heap_only_insert heap_only_delete heap_only_delete_top)+

lemma tmevtb_insert_correct:
  assumes "registered s A" "r \<notin> A"
  shows "registered (tmevtb_insert r s) (insert r A)" "p_last (tmevtb_insert r s) = p_last s + 1"
  using assms insert_in_heap [of s A r] by (auto simp: registered_def)

lemma tmevtb_delete_correct:
  assumes "registered s A" "r \<in> A"
  shows "registered (tmevtb_delete r s) (A - {r})" "p_last (tmevtb_delete r s) = p_last s - 1"
  using assms delete_in_heap [of s A r] by (auto simp: registered_def)

lemma tmevtb_delete_top_correct:
  assumes "registered s A" "A \<noteq> {}"
  shows "\<exists>r s'. tmevtb_delete_top s = (r, s') \<and> r = tmevt_heap s 1 \<and> r \<in> A \<and> registered s' (A - {r}) \<and> p_last s' = p_last s - 1"
proof -
  obtain r s' where d: "tmevtb_delete_top s = (r, s')" "r = tmevt_heap s 1" "r \<in> A" "in_heap s' (A - {r})"
    "p_last s' = p_last s - 1" "heap_ordered s \<longrightarrow> heap_ordered s'"
    using delete_top_in_heap [OF registered_in_heap [OF assms(1)] assms(2)] by blast
  moreover have "window_left s' = window_left s" using window_left_same(3) [of s] d(1) by simp
  ultimately show ?thesis using assms(1) by (auto simp: registered_def)
qed

section \<open>The contract: a queue of time events\<close>

text \<open>
  What the rest of the kernel relies on: events are registered and withdrawn, and the event
  taken from the top is one that occurs first.
\<close>

locale timer_queue =
  fixes reg :: "'r \<Rightarrow> 's \<Rightarrow> 's"
    and withdraw :: "'r \<Rightarrow> 's \<Rightarrow> 's"
    and take_top :: "'s \<Rightarrow> 'r \<times> 's"
    and holds :: "'s \<Rightarrow> 'r set \<Rightarrow> bool"
    and due :: "'s \<Rightarrow> 'r \<Rightarrow> 'k :: linorder"
  assumes finite_holds: "holds s A \<Longrightarrow> finite A"
    and reg: "holds s A \<Longrightarrow> r \<notin> A \<Longrightarrow> holds (reg r s) (insert r A)"
    and withdraw: "holds s A \<Longrightarrow> r \<in> A \<Longrightarrow> holds (withdraw r s) (A - {r})"
    and take_top: "holds s A \<Longrightarrow> A \<noteq> {} \<Longrightarrow>
          \<exists>r s'. take_top s = (r, s') \<and> r \<in> A \<and> (\<forall>x\<in>A. due s r \<le> due s x) \<and> holds s' (A - {r})"
    and due_reg: "due (reg r s) x = due s x"
    and due_withdraw: "due (withdraw r s) x = due s x"
    and due_take_top: "due (snd (take_top s)) x = due s x"
begin

primrec drain :: "nat \<Rightarrow> 's \<Rightarrow> 'r list \<times> 's" where
  "drain 0 s = ([], s)"
| "drain (Suc n) s = (case take_top s of (r, s1) \<Rightarrow> case drain n s1 of (rs, s2) \<Rightarrow> (r # rs, s2))"

text \<open>Draining the queue yields every event once, in the order of their times.\<close>

lemma drain_sorted:
  assumes "holds s A" "card A = n"
  shows "\<exists>rs s'. drain n s = (rs, s') \<and> set rs = A \<and> distinct rs \<and>
    sorted (map (due s) rs) \<and> holds s' {}"
  using assms
proof (induction n arbitrary: s A)
  case 0
  then show ?case using finite_holds by (metis card_0_eq distinct.simps(1) drain.simps(1) list.set(1) list.simps(8) sorted0)
next
  case (Suc n)
  then have "A \<noteq> {}" by auto
  then obtain r s1 where r: "take_top s = (r, s1)" "r \<in> A" "\<forall>x\<in>A. due s r \<le> due s x" "holds s1 (A - {r})"
    using take_top [OF Suc.prems(1)] by blast
  have "card (A - {r}) = n" using Suc.prems(2) r(2) by simp
  from Suc.IH [OF r(4) this] obtain rs s2 where rs: "drain n s1 = (rs, s2)" "set rs = A - {r}"
    "distinct rs" "sorted (map (due s1) rs)" "holds s2 {}" by blast
  have "due s1 = due s" using due_take_top [of s] r(1) by auto
  then show ?case using r rs by auto
qed

lemma reg_withdraw:
  assumes "holds s A" "r \<notin> A"
  shows "holds (withdraw r (reg r s)) A"
proof -
  have "holds (withdraw r (reg r s)) (insert r A - {r})"
    using assms by (intro withdraw reg) auto
  then show ?thesis using assms(2) by simp
qed

end

definition timers :: "tme \<Rightarrow> tmevtb_ref set \<Rightarrow> bool" where
  "timers s A \<longleftrightarrow> in_heap s A \<and> heap_ordered s"

lemma timers_top:
  assumes "timers s A" "x \<in> A"
  shows "event_key s (tmevt_heap s 1) \<le> event_key s x"
proof -
  have lk: "linked s (nodes (p_last s)) A" and o: "ordered s (p_last s)"
    using assms(1) by (simp_all add: timers_def in_heap_def heap_ordered_def)
  let ?i = "p_tmevtn (tmevtb_tab s x)"
  have "?i \<in> nodes (p_last s)" "tmevt_heap s ?i = x" using linkedD [OF lk assms(2)] by auto
  then show ?thesis using ordered_top [OF o, of ?i] by (simp add: key_event)
qed

interpretation heap: timer_queue tmevtb_insert tmevtb_delete tmevtb_delete_top timers event_key
proof
  fix s A and r x :: tmevtb_ref
  show "timers s A \<Longrightarrow> finite A" by (auto simp: timers_def dest: in_heap_card)
  show "timers s A \<Longrightarrow> r \<notin> A \<Longrightarrow> timers (tmevtb_insert r s) (insert r A)"
    by (auto simp: timers_def intro: insert_in_heap)
  show "timers s A \<Longrightarrow> r \<in> A \<Longrightarrow> timers (tmevtb_delete r s) (A - {r})"
    by (auto simp: timers_def intro: delete_in_heap)
  show "event_key (tmevtb_insert r s) x = event_key s x" by (intro event_key_heap_only) auto
  show "event_key (tmevtb_delete r s) x = event_key s x" by (intro event_key_heap_only) auto
  show "event_key (snd (tmevtb_delete_top s)) x = event_key s x" by (intro event_key_heap_only) auto
  assume t: "timers s A" and ne: "A \<noteq> {}"
  have "in_heap s A" using t by (simp add: timers_def)
  from delete_top_in_heap [OF this ne] t timers_top [OF t]
  show "\<exists>r s'. tmevtb_delete_top s = (r, s') \<and> r \<in> A \<and> (\<forall>x\<in>A. event_key s r \<le> event_key s x) \<and> timers s' (A - {r})"
    by (auto simp: timers_def)
qed

lemma registered_timers: "registered s A \<Longrightarrow> \<not> window_left s \<Longrightarrow> timers s A"
  by (simp add: registered_def timers_def)

section \<open>Time passes\<close>

definition hrt_advance :: "tme \<Rightarrow> HRTCNT" where
  "hrt_advance s =
     (let new = hrt_in s (hrt_n s); d = new - current_hrtcnt s
      in if new < current_hrtcnt s then d + TCYC_HRTCNT else d)"

lemma update_current_evttim_sel:
  "current_evttim (update_current_evttim s) = current_evttim s + hrt_advance s"
  "boundary_evttim (update_current_evttim s) = current_evttim s + hrt_advance s - BOUNDARY_MARGIN"
  "current_hrtcnt (update_current_evttim s) = hrt_in s (hrt_n s)"
  "hrt_n (update_current_evttim s) = hrt_n s + 1"
  by (simp_all add: update_current_evttim_def target_hrt_get_current_def hrt_advance_def set_boundary_def Let_def)

lemma update_current_evttim_frame [simp]:
  "tmevtb_tab (update_current_evttim s) = tmevtb_tab s"
  "tmevt_heap (update_current_evttim s) = tmevt_heap s"
  "p_last (update_current_evttim s) = p_last s"
  "in_signal_time (update_current_evttim s) = in_signal_time s"
  "hrt_req (update_current_evttim s) = hrt_req s"
  "hrt_in (update_current_evttim s) = hrt_in s"
  by (simp_all add: update_current_evttim_def target_hrt_get_current_def set_boundary_def Let_def)

lemma set_hrt_event_frame [simp]:
  "tmevtb_tab (set_hrt_event s) = tmevtb_tab s"
  "tmevt_heap (set_hrt_event s) = tmevt_heap s"
  "p_last (set_hrt_event s) = p_last s"
  "in_signal_time (set_hrt_event s) = in_signal_time s"
  "current_evttim (set_hrt_event s) = current_evttim s"
  "boundary_evttim (set_hrt_event s) = boundary_evttim s"
  "monotonic_evttim (set_hrt_event s) = monotonic_evttim s"
  "systim_offset (set_hrt_event s) = systim_offset s"
  "window_left (set_hrt_event s) = window_left s"
  by (simp_all add: set_hrt_event_def Let_def)

lemma in_heap_same:
  "tmevtb_tab s' = tmevtb_tab s \<Longrightarrow> tmevt_heap s' = tmevt_heap s \<Longrightarrow> p_last s' = p_last s \<Longrightarrow> in_heap s' A = in_heap s A"
  by (simp add: in_heap_def linked_def)

lemma registered_same:
  "tmevtb_tab s' = tmevtb_tab s \<Longrightarrow> tmevt_heap s' = tmevt_heap s \<Longrightarrow> p_last s' = p_last s \<Longrightarrow>
   boundary_evttim s' = boundary_evttim s \<Longrightarrow> window_left s' = window_left s \<Longrightarrow> registered s' A = registered s A"
  by (simp add: registered_def in_heap_def linked_def heap_ordered_def ordered_def key_def EVTTIM_ADVANCE_def node_evttim_def)

lemma in_heap_update [simp]: "in_heap (update_current_evttim s) A = in_heap s A"
  by (rule in_heap_same) simp_all

lemma registered_none: "p_last s = 0 \<Longrightarrow> registered s {}"
  by (simp add: registered_def in_heap_def linked_def bij_betw_def heap_ordered_def ordered_def)

lemma registered_set_hrt [simp]: "registered (set_hrt_event s) A = registered s A"
  by (rule registered_same) simp_all

lemma event_key_set_hrt [simp]: "event_key (set_hrt_event s) r = event_key s r"
  by (simp add: event_key_def EVTTIM_ADVANCE_def)

lemma heap_ordered_set_hrt [simp]: "heap_ordered (set_hrt_event s) = heap_ordered s"
  by (simp add: heap_ordered_def ordered_def key_event)

lemma word_sub_mono:
  fixes d :: "'a :: len word"
  assumes "d \<le> x" "x \<le> y"
  shows "x - d \<le> y - d"
proof -
  have "d \<le> y" using assms by simp
  then have "unat (x - d) = unat x - unat d" "unat (y - d) = unat y - unat d"
    using assms(1) by (simp_all add: unat_sub)
  then show ?thesis using assms(2) by (simp add: word_le_nat_alt)
qed

text \<open>
  Moving the boundary keeps the order as long as no event falls behind the new boundary.
\<close>

lemma update_keeps_order:
  assumes "timers s A" "boundary_evttim s = current_evttim s - BOUNDARY_MARGIN"
    and "\<forall>r\<in>A. hrt_advance s \<le> event_key s r"
  shows "timers (update_current_evttim s) A"
    "event_key (update_current_evttim s) r = event_key s r - hrt_advance s"
proof -
  show k: "event_key (update_current_evttim s) r = event_key s r - hrt_advance s" for r
    using assms(2) by (simp add: event_key_def EVTTIM_ADVANCE_def update_current_evttim_sel)
  have "ordered s (p_last s)" using assms(1) by (simp add: timers_def heap_ordered_def)
  moreover have "tmevt_heap s i \<in> A" if "1 \<le> i" "i \<le> p_last s" for i
    using assms(1) that by (auto simp: timers_def in_heap_def intro: linked_in)
  ultimately have "ordered (update_current_evttim s) (p_last s)"
    using assms(3) by (auto simp: ordered_def key_event k intro!: word_sub_mono)
  then show "timers (update_current_evttim s) A"
    using assms(1) by (simp add: timers_def heap_ordered_def)
qed

text \<open>The same for the auxiliary variable: while it is not set, no move of the boundary has disturbed the order.\<close>

lemma key_boundary: "key (s\<lparr>boundary_evttim := b\<rparr>) i = key s i - (b - boundary_evttim s)"
  by (simp add: key_def EVTTIM_ADVANCE_def node_evttim_def)

lemma word_sub_mono_wrap:
  fixes d :: "'a :: len word"
  assumes "x \<le> y" "y < d"
  shows "x - d \<le> y - d"
proof -
  have "unat (x - d) = unat x + 2 ^ LENGTH('a) - unat d" "unat (y - d) = unat y + 2 ^ LENGTH('a) - unat d"
    using assms unsigned_less [of d] by (simp_all add: unat_sub_if' word_less_nat_alt word_le_nat_alt not_le)
  then show ?thesis using assms(1) by (simp add: word_le_nat_alt)
qed

lemma registered_boundary:
  assumes "registered s A" shows "registered (set_boundary bwd b s) A"
proof -
  let ?d = "b - boundary_evttim s"
  have "heap_ordered (s\<lparr>boundary_evttim := b\<rparr>)" if o: "heap_ordered s" and n: "\<not> passes_event bwd b s"
  proof -
    have "key s (i div 2) - ?d \<le> key s i - ?d" if i: "2 \<le> i" "i \<le> p_last s" for i
    proof -
      have le: "key s (i div 2) \<le> key s i" using o i by (simp add: heap_ordered_def ordered_def)
      show ?thesis
      proof (cases bwd)
        case True
        then have "key s i < ?d" using n i by (auto simp: passes_event_def not_le)
        then show ?thesis using le by (intro word_sub_mono_wrap)
      next
        case False
        have "i div 2 \<in> set [1..<p_last s + 1]" using i by auto
        then have "?d \<le> key s (i div 2)" using n False by (auto simp: passes_event_def not_less)
        then show ?thesis using le by (intro word_sub_mono)
      qed
    qed
    then show ?thesis by (simp add: heap_ordered_def ordered_def key_boundary)
  qed
  moreover have "in_heap (set_boundary bwd b s) A" using assms by (simp add: registered_def set_boundary_def in_heap_def linked_def)
  ultimately show ?thesis using assms
    by (auto simp: registered_def set_boundary_def heap_ordered_def ordered_def key_def EVTTIM_ADVANCE_def node_evttim_def)
qed

lemma passes_event_same:
  "tmevtb_tab s' = tmevtb_tab s \<Longrightarrow> tmevt_heap s' = tmevt_heap s \<Longrightarrow> p_last s' = p_last s \<Longrightarrow>
   boundary_evttim s' = boundary_evttim s \<Longrightarrow> passes_event bwd b s' = passes_event bwd b s"
  by (simp add: passes_event_def key_def EVTTIM_ADVANCE_def node_evttim_def)

lemma update_window:
  "window_left (update_current_evttim s) \<longleftrightarrow>
     window_left s \<or> passes_event False (current_evttim s + hrt_advance s - BOUNDARY_MARGIN) s"
proof -
  have p: "passes_event False b (s\<lparr>hrt_n := n, current_hrtcnt := c, current_evttim := e\<rparr>) = passes_event False b s" for b n c e
    by (rule passes_event_same) simp_all
  show ?thesis
    by (cases "hrt_in s (hrt_n s) < current_hrtcnt s")
      (simp_all add: update_current_evttim_def target_hrt_get_current_def Let_def set_boundary_def hrt_advance_def p)
qed

lemma registered_update [simp]:
  assumes "registered s A" shows "registered (update_current_evttim s) A"
proof -
  let ?u = "set_boundary False (current_evttim s + hrt_advance s - BOUNDARY_MARGIN) s"
  have "registered ?u A" by (rule registered_boundary [OF assms])
  moreover have "registered (update_current_evttim s) A = registered ?u A"
    by (rule registered_same) (simp_all add: update_window update_current_evttim_sel set_boundary_def)
  ultimately show ?thesis by simp
qed

text \<open>What sets the auxiliary variable: some registered event is more than \<open>BOUNDARY_MARGIN\<close> overdue when the clock is read.\<close>

lemma update_window_left:
  assumes "in_heap s A" "boundary_evttim s = current_evttim s - BOUNDARY_MARGIN"
  shows "window_left (update_current_evttim s) \<longleftrightarrow> window_left s \<or> (\<exists>r\<in>A. event_key s r < hrt_advance s)"
proof -
  have A: "A = tmevt_heap s ` nodes (p_last s)" using assms(1) by (auto simp: in_heap_def linked_def bij_betw_def)
  have n: "set [1..<p_last s + 1] = nodes (p_last s)" by auto
  have "x + d - m - (x - m) = d" for x d m :: EVTTIM by simp
  then have d: "current_evttim s + hrt_advance s - BOUNDARY_MARGIN - boundary_evttim s = hrt_advance s" unfolding assms(2) .
  show ?thesis unfolding A update_window passes_event_def n d key_event by simp
qed

section \<open>Enqueue and dequeue\<close>

lemma registered_block:
  assumes "r \<notin> A" "p_tmevtn b = p_tmevtn (tmevtb_tab s r)"
  shows "registered (s\<lparr>tmevtb_tab := (tmevtb_tab s)(r := b)\<rparr>) A = registered s A"
proof -
  obtain s' where s': "s' = s\<lparr>tmevtb_tab := (tmevtb_tab s)(r := b)\<rparr>" by blast
  have same: "tmevt_heap s' = tmevt_heap s" "p_last s' = p_last s" "window_left s' = window_left s" "boundary_evttim s' = boundary_evttim s"
    and tab: "x \<noteq> r \<Longrightarrow> tmevtb_tab s' x = tmevtb_tab s x" for x by (simp_all add: s')
  have "p_tmevtn (tmevtb_tab s' x) = p_tmevtn (tmevtb_tab s x)" for x by (cases "x = r") (simp_all add: s' assms(2))
  then have l: "in_heap s' A = in_heap s A" by (simp add: in_heap_def linked_def same)
  have "heap_ordered s' = heap_ordered s" if h: "in_heap s A"
  proof -
    have "tmevt_heap s i \<noteq> r" if "1 \<le> i" "i \<le> p_last s" for i
      using linked_in [OF h [unfolded in_heap_def], of i] assms(1) that by auto
    then have k: "key s' i = key s i" if "1 \<le> i" "i \<le> p_last s" for i
      using that by (simp add: key_def EVTTIM_ADVANCE_def node_evttim_def same tab)
    have "key s' i = key s i \<and> key s' (i div 2) = key s (i div 2)" if "2 \<le> i" "i \<le> p_last s" for i
      using k [of i] k [of "i div 2"] that by simp
    then show ?thesis by (simp add: heap_ordered_def ordered_def same cong: imp_cong conj_cong)
  qed
  then show ?thesis unfolding s' [symmetric] using l by (auto simp: registered_def same)
qed

lemma registered_evttim:
  "r \<notin> A \<Longrightarrow> registered (s\<lparr>tmevtb_tab := (tmevtb_tab s)(r := (tmevtb_tab s r)\<lparr>evttim := e\<rparr>)\<rparr>) A = registered s A"
  by (rule registered_block) simp_all

lemma registered_callback:
  "registered (s\<lparr>tmevtb_tab := (tmevtb_tab s)(r := (tmevtb_tab s r)\<lparr>callback := cb, arg := a\<rparr>)\<rparr>) A = registered s A"
proof -
  obtain s' where s': "s' = s\<lparr>tmevtb_tab := (tmevtb_tab s)(r := (tmevtb_tab s r)\<lparr>callback := cb, arg := a\<rparr>)\<rparr>" by blast
  have "p_tmevtn (tmevtb_tab s' x) = p_tmevtn (tmevtb_tab s x)" "evttim (tmevtb_tab s' x) = evttim (tmevtb_tab s x)" for x
    by (simp_all add: s')
  moreover have "tmevt_heap s' = tmevt_heap s" "p_last s' = p_last s" "window_left s' = window_left s" "boundary_evttim s' = boundary_evttim s"
    by (simp_all add: s')
  ultimately show ?thesis unfolding s' [symmetric]
    by (simp add: registered_def in_heap_def linked_def heap_ordered_def ordered_def key_def EVTTIM_ADVANCE_def node_evttim_def)
qed

lemma registered_enqueue:
  assumes "registered s A" "r \<notin> A"
  shows "registered (tmevtb_enqueue_reltim r time s) (insert r A)"
proof -
  define t where "t = (update_current_evttim s)\<lparr>tmevtb_tab := (tmevtb_tab (update_current_evttim s))
    (r := (tmevtb_tab (update_current_evttim s) r)\<lparr>evttim := calc_current_evttim_ub (update_current_evttim s) + time\<rparr>)\<rparr>"
  have "registered t A" unfolding t_def using registered_update [OF assms(1)] by (simp only: registered_evttim [OF assms(2)])
  then have "registered (tmevtb_insert r t) (insert r A)" by (rule tmevtb_insert_correct(1) [OF _ assms(2)])
  then show ?thesis unfolding tmevtb_enqueue_reltim_def Let_def t_def [symmetric] by simp
qed

lemma registered_dequeue:
  assumes "registered s A" "r \<in> A"
  shows "registered (tmevtb_dequeue r s) (A - {r})"
  using tmevtb_delete_correct(1) [OF assms] by (simp add: tmevtb_dequeue_def Let_def registered_update)

section \<open>The system time\<close>

text \<open>The 64-bit system time that \<open>get_tim\<close> reads: \<open>systim_offset + monotonic_evttim\<close>.\<close>

definition systim :: "tme \<Rightarrow> 64 word" where
  "systim s = systim_offset s + ucast (monotonic_evttim s)"

lemma ucast_add_carry:
  fixes x d :: "32 word"
  shows "(ucast (x + d) :: 64 word) + (if x + d < x then push_bit 32 1 else 0) = ucast x + ucast d"
proof -
  have x: "uint x < 2 ^ 32" "0 \<le> uint x" and d: "uint d < 2 ^ 32" "0 \<le> uint d"
    using uint_lt2p [of x] uint_lt2p [of d] by simp_all
  have w: "x + d < x \<longleftrightarrow> uint x + uint d \<ge> 2 ^ 32"
    using x d by (auto simp: word_less_def uint_plus_if')
  have u: "uint (ucast y :: 64 word) = uint y" for y :: "32 word"
    using uint_lt2p [of y] by (simp add: unsigned_ucast_eq take_bit_int_eq_self)
  have p: "uint (push_bit 32 (1 :: 64 word)) = 2 ^ 32" by (simp add: push_bit_eq_mult)
  have m: "4294967296 \<le> a \<Longrightarrow> a < 8589934592 \<Longrightarrow> a mod 4294967296 + 4294967296 = a" for a :: int
    using mod_pos_pos_trivial [of "a - 4294967296" 4294967296] by simp
  show ?thesis
    by (rule word_uint_eqI) (use x d m in \<open>auto simp: w uint_word_ariths u p uint_plus_if'\<close>)
qed

text \<open>
  A time update advances the 64-bit system time by what the event time moves past the
  monotonic time, carry included; it never moves it back.
\<close>

lemma systim_update:
  "systim (update_current_evttim s) =
     systim s + (let lag = monotonic_evttim s - current_evttim s
                 in if lag < hrt_advance s then ucast (hrt_advance s - lag) else 0)"
proof -
  let ?d = "hrt_advance s" and ?m = "monotonic_evttim s" and ?c = "current_evttim s"
  obtain o' m' where om: "o' = systim_offset (update_current_evttim s)" "m' = monotonic_evttim (update_current_evttim s)"
    by blast
  have off: "o' = (if ?m - ?c < ?d \<and> ?c + ?d < ?m then systim_offset s + push_bit 32 1 else systim_offset s)"
    and mono: "m' = (if ?m - ?c < ?d then ?c + ?d else ?m)"
    by (simp_all add: om update_current_evttim_def target_hrt_get_current_def hrt_advance_def set_boundary_def Let_def)
  obtain e where e: "?d - (?m - ?c) = e" by blast
  then have eq: "?c + ?d = ?m + e" by auto
  show ?thesis
  proof (cases "?m - ?c < ?d")
    case True
    have "systim (update_current_evttim s) = o' + ucast m'" by (simp add: systim_def om)
    also have "\<dots> = systim_offset s + ((ucast (?m + e) :: 64 word) + (if ?m + e < ?m then push_bit 32 1 else 0))"
      using True by (simp add: off mono eq)
    also have "\<dots> = systim s + ucast e" by (simp only: ucast_add_carry systim_def add.assoc)
    finally show ?thesis using True e by (simp add: Let_def)
  next
    case False
    then show ?thesis using off mono by (simp add: systim_def om [symmetric] Let_def)
  qed
qed

text \<open>\<open>tmevt_lefttim\<close> reports 0 for an event that is due and the remaining ticks otherwise.\<close>

lemma lefttim_spec:
  assumes "tmevt_lefttim r s = (n, s')"
  shows "s' = update_current_evttim s"
    "n = (if event_key s' r \<le> EVTTIM_ADVANCE s' (calc_current_evttim_ub s') then 0
          else event_key s' r - EVTTIM_ADVANCE s' (calc_current_evttim_ub s'))"
  using assms
  by (auto simp: tmevt_lefttim_def Let_def EVTTIM_LE_def event_key_def EVTTIM_ADVANCE_def split: if_splits)

end
