(* ===== verification/Task.thy ===== *)
theory Task
  imports Queue
begin

unbundle bit_operations_syntax

text \<open>
  The task management module, asp3\_dcre/kernel/task.h and task.c: the task control blocks,
  the ready queues with their bitmap, and the choice of the task to run. A \<open>TCB *\<close> is the
  index of the block in \<open>tcb_table\<close>; a null pointer is \<open>None\<close>. All \<open>task_queue\<close> nodes are
  linked in the family \<open>queues\<close>, whose headers are the ready queues, the wait queues of the
  synchronisation objects and the free list.

  The invariant \<open>core L s\<close> ties the queues, the bitmap and \<open>p_schedtsk\<close> together for a location
  map \<open>L\<close> that says where each task is linked. Each operation moves tasks in \<open>L\<close>.
\<close>

section \<open>Task states\<close>

type_synonym tstat = "8 word"

abbreviation TS_DORMANT :: tstat where "TS_DORMANT \<equiv> 0"
abbreviation TS_RUNNABLE :: tstat where "TS_RUNNABLE \<equiv> 1"
abbreviation TS_SUSPENDED :: tstat where "TS_SUSPENDED \<equiv> 2"
abbreviation TS_WAITING_SLP :: tstat where "TS_WAITING_SLP \<equiv> 0x04"
abbreviation TS_WAITING_DLY :: tstat where "TS_WAITING_DLY \<equiv> 0x08"
abbreviation TS_WAITING_RDTQ :: tstat where "TS_WAITING_RDTQ \<equiv> 0x20"
abbreviation TS_WAITING_RPDQ :: tstat where "TS_WAITING_RPDQ \<equiv> 0x24"
abbreviation TS_WAITING_SEM :: tstat where "TS_WAITING_SEM \<equiv> 0x40"
abbreviation TS_WAITING_FLG :: tstat where "TS_WAITING_FLG \<equiv> 0x44"
abbreviation TS_WAITING_SDTQ :: tstat where "TS_WAITING_SDTQ \<equiv> 0x48"
abbreviation TS_WAITING_SPDQ :: tstat where "TS_WAITING_SPDQ \<equiv> 0x4C"
abbreviation TS_WAITING_MTX :: tstat where "TS_WAITING_MTX \<equiv> 0x50"
abbreviation TS_WAITING_MPF :: tstat where "TS_WAITING_MPF \<equiv> 0x54"
abbreviation TS_WAITING_MASK :: tstat where "TS_WAITING_MASK \<equiv> 0x7C"

definition TSTAT_DORMANT :: "tstat \<Rightarrow> bool" where "TSTAT_DORMANT st \<longleftrightarrow> st = TS_DORMANT"
definition TSTAT_RUNNABLE :: "tstat \<Rightarrow> bool" where "TSTAT_RUNNABLE st \<longleftrightarrow> st AND TS_RUNNABLE \<noteq> 0"
definition TSTAT_WAITING :: "tstat \<Rightarrow> bool" where "TSTAT_WAITING st \<longleftrightarrow> st AND TS_WAITING_MASK \<noteq> 0"
definition TSTAT_SUSPENDED :: "tstat \<Rightarrow> bool" where "TSTAT_SUSPENDED st \<longleftrightarrow> st AND TS_SUSPENDED \<noteq> 0"
definition TSTAT_WAIT_SLP :: "tstat \<Rightarrow> bool" where
  "TSTAT_WAIT_SLP st \<longleftrightarrow> st AND NOT TS_SUSPENDED = TS_WAITING_SLP"
definition TSTAT_WAIT_MTX :: "tstat \<Rightarrow> bool" where
  "TSTAT_WAIT_MTX st \<longleftrightarrow> st AND NOT TS_SUSPENDED = TS_WAITING_MTX"
definition TSTAT_WAIT_WOBJ :: "tstat \<Rightarrow> bool" where "TSTAT_WAIT_WOBJ st \<longleftrightarrow> st AND 0x60 \<noteq> 0"
definition TSTAT_WAIT_WOBJCB :: "tstat \<Rightarrow> bool" where "TSTAT_WAIT_WOBJCB st \<longleftrightarrow> st AND 0x40 \<noteq> 0"

lemmas tstat_defs = TSTAT_DORMANT_def TSTAT_RUNNABLE_def TSTAT_WAITING_def TSTAT_SUSPENDED_def
  TSTAT_WAIT_SLP_def TSTAT_WAIT_MTX_def TSTAT_WAIT_WOBJ_def TSTAT_WAIT_WOBJCB_def

text \<open>The states a task can be in: dormant, runnable, suspended, waiting, waiting-suspended.\<close>

definition wait_codes :: "tstat list" where
  "wait_codes = [TS_WAITING_SLP, TS_WAITING_DLY, TS_WAITING_RDTQ, TS_WAITING_RPDQ, TS_WAITING_SEM,
     TS_WAITING_FLG, TS_WAITING_SDTQ, TS_WAITING_SPDQ, TS_WAITING_MTX, TS_WAITING_MPF]"

definition valid_tstat :: "tstat \<Rightarrow> bool" where
  "valid_tstat st \<longleftrightarrow> st = TS_DORMANT \<or> st = TS_RUNNABLE \<or> st = TS_SUSPENDED \<or>
     (\<exists>c \<in> set wait_codes. st = c \<or> st = c OR TS_SUSPENDED)"

lemma valid_tstat_cases:
  assumes "valid_tstat st"
  shows "TSTAT_RUNNABLE st \<longleftrightarrow> st = TS_RUNNABLE"
    "TSTAT_WAITING st \<longleftrightarrow> st \<noteq> TS_DORMANT \<and> st \<noteq> TS_RUNNABLE \<and> st \<noteq> TS_SUSPENDED"
    "TSTAT_WAIT_WOBJ st \<Longrightarrow> TSTAT_WAITING st"
    "TSTAT_WAIT_WOBJCB st \<Longrightarrow> TSTAT_WAIT_WOBJ st"
  using assms by (auto simp: valid_tstat_def wait_codes_def tstat_defs)

lemma code_status:
  assumes "c \<in> set wait_codes"
  shows "valid_tstat c" "TSTAT_WAITING c" "\<not> TSTAT_RUNNABLE c" "\<not> TSTAT_SUSPENDED c" "c AND NOT TS_SUSPENDED = c"
  using assms by (auto simp: valid_tstat_def wait_codes_def tstat_defs)
lemma plain_status [simp]: "TSTAT_RUNNABLE TS_RUNNABLE" "\<not> TSTAT_WAITING TS_RUNNABLE" "\<not> TSTAT_WAIT_WOBJ TS_RUNNABLE"
  "\<not> TSTAT_RUNNABLE TS_SUSPENDED" "\<not> TSTAT_WAITING TS_SUSPENDED" "\<not> TSTAT_WAIT_WOBJ TS_SUSPENDED"
  "\<not> TSTAT_RUNNABLE TS_DORMANT" "\<not> TSTAT_WAITING TS_DORMANT" "\<not> TSTAT_WAIT_WOBJ TS_DORMANT"
  "valid_tstat TS_RUNNABLE" "valid_tstat TS_SUSPENDED" "valid_tstat TS_DORMANT"
  by (simp_all add: tstat_defs valid_tstat_def)

section \<open>Data\<close>

text \<open>The objects a task can wait for; \<open>WaitQ w\<close> is the header of the object's wait queue.\<close>

datatype wobj = SemW nat | FlgW nat | SDtqW nat | RDtqW nat | SPdqW nat | RPdqW nat | MtxW nat | MpfW nat

datatype qhead = ReadyQ nat | FreeTcbQ | WaitQ wobj

type_synonym intptr_t = "32 word"

text \<open>
  \<open>WINFO\<close> is a union: the time event block of the timeout while waiting, the error code
  afterwards. The type of the pointer to the block is left open. The other fields are those of
  the \<open>WINFO_\<dots>\<close> structures that extend it.
\<close>

datatype 'te winfo_u = P_tmevtb "'te option" | Wercd er

record 'te winfo =
  w_u :: "'te winfo_u"
  p_wobjcb :: "wobj option"
  w_waiptn :: "32 word"
  w_wfmode :: "32 word"
  w_data :: intptr_t
  w_datapri :: int
  w_blk :: "32 word"

record tinib =
  tskatr :: ATR
  exinf :: intptr_t
  task_entry :: "32 word"
  ipriority :: nat
  stksz :: "32 word"
  stk :: "32 word"

record 'te tcb =
  tstat :: tstat
  bpriority :: nat
  priority :: nat
  actque :: bool
  wupque :: bool
  raster :: bool
  enater :: bool
  p_winfo :: "'te winfo"
  p_lastmtx :: "nat option"

text \<open>
  The static and the dynamic initialisation blocks form one table, indexed like the control
  blocks: the source sets each \<open>p_tinib\<close> once, to the block of its own task.
\<close>

record 'te tskst =
  tcb :: "nat \<Rightarrow> 'te tcb"
  tinib :: "nat \<Rightarrow> tinib"
  queues :: "qhead \<Rightarrow> nat list"
  ready_primap :: "16 word"
  p_runtsk :: "nat option"
  p_schedtsk :: "nat option"
  enadsp :: bool
  dspflg :: bool

definition upd_tcb :: "nat \<Rightarrow> ('te tcb \<Rightarrow> 'te tcb) \<Rightarrow> 'te tskst \<Rightarrow> 'te tskst" where
  "upd_tcb t f s = s\<lparr>tcb := (tcb s)(t := f (tcb s t))\<rparr>"

section \<open>The ready queue bitmap\<close>

abbreviation TNUM_TPRI :: nat where "TNUM_TPRI \<equiv> 16"

definition PRIMAP_BIT :: "nat \<Rightarrow> 16 word" where
  "PRIMAP_BIT pri = push_bit pri 1"

definition bitmap_search_table :: "nat list" where
  "bitmap_search_table = [0, 1, 0, 2, 0, 1, 0, 3, 0, 1, 0, 2, 0, 1, 0]"

definition bitmap_search :: "16 word \<Rightarrow> nat" where
  "bitmap_search bitmap =
     (let n = 0;
          (bitmap, n) = (if bitmap AND 0x00ff = 0 then (drop_bit 8 bitmap, n + 8) else (bitmap, n));
          (bitmap, n) = (if bitmap AND 0x0f = 0 then (drop_bit 4 bitmap, n + 4) else (bitmap, n))
      in n + bitmap_search_table ! (unat (bitmap AND 0x0f) - 1))"

definition primap_empty :: "'te tskst \<Rightarrow> bool" where
  "primap_empty s \<longleftrightarrow> ready_primap s = 0"

definition primap_search :: "'te tskst \<Rightarrow> nat" where
  "primap_search s = bitmap_search (ready_primap s)"

definition primap_set :: "nat \<Rightarrow> 'te tskst \<Rightarrow> 'te tskst" where
  "primap_set pri s = s\<lparr>ready_primap := ready_primap s OR PRIMAP_BIT pri\<rparr>"

definition primap_clear :: "nat \<Rightarrow> 'te tskst \<Rightarrow> 'te tskst" where
  "primap_clear pri s = s\<lparr>ready_primap := ready_primap s AND NOT (PRIMAP_BIT pri)\<rparr>"

section \<open>Operations\<close>

definition q_first :: "qhead \<Rightarrow> 'te tskst \<Rightarrow> nat option" where
  "q_first h s = (case queues s h of [] \<Rightarrow> None | t # _ \<Rightarrow> Some t)"

definition search_schedtsk :: "'te tskst \<Rightarrow> nat option" where
  "search_schedtsk s = q_first (ReadyQ (primap_search s)) s"

definition make_runnable :: "nat \<Rightarrow> 'te tskst \<Rightarrow> 'te tskst" where
  "make_runnable t s =
     (let pri = priority (tcb s t);
          s1 = s\<lparr>queues := lq_insert_prev (ReadyQ pri) t (queues s)\<rparr>;
          s2 = primap_set pri s1
      in if dspflg s2 then
           (case p_schedtsk s2 of
              None \<Rightarrow> s2\<lparr>p_schedtsk := Some t\<rparr>
            | Some u \<Rightarrow> if pri < priority (tcb s2 u) then s2\<lparr>p_schedtsk := Some t\<rparr> else s2)
         else s2)"

definition make_non_runnable :: "nat \<Rightarrow> 'te tskst \<Rightarrow> 'te tskst" where
  "make_non_runnable t s =
     (let pri = priority (tcb s t);
          s1 = s\<lparr>queues := lq_delete t (queues s)\<rparr>
      in if lq_empty (ReadyQ pri) (queues s1) then
           let s2 = primap_clear pri s1
           in if p_schedtsk s2 = Some t then
                s2\<lparr>p_schedtsk := (if primap_empty s2 then None else search_schedtsk s2)\<rparr>
              else s2
         else if p_schedtsk s1 = Some t then s1\<lparr>p_schedtsk := q_first (ReadyQ pri) s1\<rparr>
         else s1)"

definition set_dspflg :: "'te tskst \<Rightarrow> 'te tskst" where
  "set_dspflg s = (let s1 = s\<lparr>dspflg := True\<rparr> in s1\<lparr>p_schedtsk := search_schedtsk s1\<rparr>)"

definition make_dormant :: "nat \<Rightarrow> 'te tskst \<Rightarrow> 'te tskst" where
  "make_dormant t s =
     upd_tcb t (\<lambda>b. b\<lparr>tstat := TS_DORMANT, bpriority := ipriority (tinib s t),
       priority := ipriority (tinib s t), wupque := False, raster := False, enater := True\<rparr>) s"

definition make_active :: "nat \<Rightarrow> 'te tskst \<Rightarrow> 'te tskst" where
  "make_active t s = make_runnable t (upd_tcb t (\<lambda>b. b\<lparr>tstat := TS_RUNNABLE\<rparr>) s)"

text \<open>The part of \<open>change_priority\<close> for a runnable task.\<close>

definition change_priority_ready :: "nat \<Rightarrow> nat \<Rightarrow> nat \<Rightarrow> bool \<Rightarrow> 'te tskst \<Rightarrow> 'te tskst" where
  "change_priority_ready t oldpri newpri mtxmode s =
     (let s1 = s\<lparr>queues := lq_delete t (queues s)\<rparr>;
          s2 = (if lq_empty (ReadyQ oldpri) (queues s1) then primap_clear oldpri s1 else s1);
          s3 = (if mtxmode then s2\<lparr>queues := lq_insert_next (ReadyQ newpri) t (queues s2)\<rparr>
                else s2\<lparr>queues := lq_insert_prev (ReadyQ newpri) t (queues s2)\<rparr>);
          s4 = primap_set newpri s3
      in if dspflg s4 then
           if p_schedtsk s4 = Some t then
             if newpri \<ge> oldpri then s4\<lparr>p_schedtsk := search_schedtsk s4\<rparr> else s4
           else
             (case p_schedtsk s4 of
                None \<Rightarrow> s4
              | Some u \<Rightarrow> if newpri \<le> priority (tcb s4 u)
                          then s4\<lparr>p_schedtsk := q_first (ReadyQ newpri) s4\<rparr> else s4)
         else s4)"

definition rotate_ready_queue :: "nat \<Rightarrow> 'te tskst \<Rightarrow> 'te tskst" where
  "rotate_ready_queue pri s =
     (if \<not> lq_empty (ReadyQ pri) (queues s) \<and> tl (queues s (ReadyQ pri)) \<noteq> [] then
        let (p_entry, q1) = lq_delete_next (ReadyQ pri) (queues s);
            s1 = s\<lparr>queues := lq_insert_prev (ReadyQ pri) p_entry q1\<rparr>
        in if dspflg s1 then
             if p_schedtsk s1 = Some p_entry then s1\<lparr>p_schedtsk := q_first (ReadyQ pri) s1\<rparr> else s1
           else s1
      else s)"

section \<open>The bitmap search\<close>

text \<open>The search finds the lowest set bit.\<close>

definition lowest_bit :: "16 word \<Rightarrow> nat \<Rightarrow> bool" where
  "lowest_bit w n \<longleftrightarrow> bit w n \<and> (\<forall>i<n. \<not> bit w i)"

lemma less_2: "(\<forall>i<2. P i) \<longleftrightarrow> P 0 \<and> P (1 :: nat)"
  by (auto simp: less_2_cases_iff)

lemma less_3: "(\<forall>i<3. P i) \<longleftrightarrow> P 0 \<and> P 1 \<and> P (2 :: nat)"
  by (auto simp: less_Suc_eq numeral_3_eq_3 numeral_2_eq_2)

lemma lowest_bit_table:
  assumes "x AND 0x0f \<noteq> 0"
  shows "lowest_bit x (bitmap_search_table ! (unat (x AND 0x0f) - 1))"
proof -
  define y where "y = x AND 0x0f"
  have m: "y = take_bit 4 x" by (simp add: y_def take_bit_eq_mask mask_eq_exp_minus_1)
  have b: "bit x i \<longleftrightarrow> bit y i" if "i < 4" for i using that by (simp add: m bit_take_bit_iff)
  have lt: "unat y < 16" using take_bit_nat_less_exp [of 4 "unat x"] by (simp add: m unsigned_take_bit_eq)
  have nz: "unat y \<noteq> 0" using assms by (simp add: y_def unat_eq_0)
  have "unat y \<in> {1,2,3,4,5,6,7,8,9,10,11,12,13,14,15}" using lt nz unfolding insert_iff empty_iff by presburger
  then have "word_of_nat (unat y) \<in> (word_of_nat ` {1,2,3,4,5,6,7,8,9,10,11,12,13,14,15} :: 16 word set)"
    by (rule imageI)
  then have "y \<in> {1,2,3,4,5,6,7,8,9,10,11,12,13,14,15}" by simp
  then have "bitmap_search_table ! (unat y - 1) < 4 \<and> lowest_bit y (bitmap_search_table ! (unat y - 1))"
    by (elim insertE emptyE; simp add: bitmap_search_table_def lowest_bit_def less_2 less_3)
  then show ?thesis using b by (simp add: lowest_bit_def y_def [symmetric])
qed

lemma take_bit_0_iff: "take_bit k w = 0 \<longleftrightarrow> (\<forall>i<k. \<not> bit (w :: 16 word) i)"
proof
  assume "take_bit k w = 0"
  then have "bit (take_bit k w) i \<longleftrightarrow> False" for i by simp
  then show "\<forall>i<k. \<not> bit w i" by (simp add: bit_take_bit_iff)
qed (auto intro!: bit_word_eqI simp: bit_take_bit_iff)

lemma lowest_bit_drop:
  assumes "take_bit k w = 0" and "lowest_bit (drop_bit k w) n" shows "lowest_bit w (n + k)"
proof -
  have "\<not> bit w i" if "i < k" for i
    using assms(1) that by (simp add: take_bit_0_iff)
  moreover have "\<not> bit w i" if "k \<le> i" "i < n + k" for i
    using assms(2) that by (auto simp: lowest_bit_def bit_drop_bit_eq dest!: spec [of _ "i - k"])
  moreover have "bit w (n + k)" using assms(2) by (simp add: lowest_bit_def bit_drop_bit_eq add.commute)
  ultimately show ?thesis unfolding lowest_bit_def by (meson not_le)
qed

lemma bitmap_search_lowest:
  assumes "w \<noteq> 0" shows "lowest_bit w (bitmap_search w)"
proof -
  have m8: "x AND 0xff = take_bit 8 x" and m4: "x AND 0x0f = take_bit 4 x" for x :: "16 word"
    by (simp_all add: take_bit_eq_mask mask_eq_exp_minus_1)
  have nib: "lowest_bit x (if x AND 0x0f = 0 then 4 + bitmap_search_table ! (unat (drop_bit 4 x AND 0x0f) - 1)
      else bitmap_search_table ! (unat (x AND 0x0f) - 1))" if "x AND 0xff \<noteq> 0" for x :: "16 word"
  proof (cases "x AND 0x0f = 0")
    case True
    have "drop_bit 4 x AND 0x0f \<noteq> 0"
    proof
      assume "drop_bit 4 x AND 0x0f = 0"
      then have a: "\<not> bit x i" if "4 \<le> i" "i < 8" for i
        using that by (auto simp: m4 take_bit_0_iff bit_drop_bit_eq dest!: spec [of _ "i - 4"])
      have "\<not> bit x i" if "i < 4" for i using True that by (simp add: m4 take_bit_0_iff)
      then have "take_bit 8 x = 0" using a by (meson not_le take_bit_0_iff)
      then show False using that m8 by simp
    qed
    then show ?thesis using True lowest_bit_drop [OF _ lowest_bit_table, of 4 x] by (simp add: m4 add.commute)
  next
    case False
    then show ?thesis using lowest_bit_table [OF False] by (simp del: One_nat_def)
  qed
  show ?thesis
  proof (cases "w AND 0xff = 0")
    case True
    have "take_bit 8 w = 0" using True by (simp add: m8)
    moreover have "drop_bit 8 w AND 0xff \<noteq> 0"
    proof
      assume "drop_bit 8 w AND 0xff = 0"
      then have "\<not> bit w i" if "8 \<le> i" "i < 16" for i
        using that by (auto simp: m8 take_bit_0_iff bit_drop_bit_eq dest!: spec [of _ "i - 8"])
      then have "\<not> bit w i" for i using \<open>take_bit 8 w = 0\<close> bit_imp_le_length [of w i]
        by (cases "i < 8") (auto simp: take_bit_0_iff not_less)
      then have "w = 0" by (auto intro: bit_word_eqI)
      then show False using assms by simp
    qed
    ultimately show ?thesis using True lowest_bit_drop [OF _ nib, of 8 w]
      by (cases "drop_bit 8 w AND 0x0f = 0") (simp_all add: bitmap_search_def ac_simps)
  next
    case False
    then show ?thesis using nib [of w] by (cases "w AND 0x0f = 0") (simp_all add: bitmap_search_def)
  qed
qed

section \<open>The invariant of the ready queues\<close>

text \<open>
  \<open>L t\<close> is the header the task \<open>t\<close> is linked to, if any. \<open>is_top s o\<close> says that \<open>o\<close> is the task
  that should run: the head of the ready queue of the highest priority (smallest number) that
  is not empty.
\<close>

type_synonym location = "nat \<Rightarrow> qhead option"

definition queues_at :: "location \<Rightarrow> 'te tskst \<Rightarrow> bool" where
  "queues_at L s \<longleftrightarrow> (\<forall>h. distinct (queues s h)) \<and> (\<forall>h t. t \<in> set (queues s h) \<longleftrightarrow> L t = Some h)"

definition ready_ok :: "location \<Rightarrow> 'te tskst \<Rightarrow> bool" where
  "ready_ok L s \<longleftrightarrow> (\<forall>t p. L t = Some (ReadyQ p) \<longrightarrow> priority (tcb s t) = p \<and> p < TNUM_TPRI)"

definition primap_ok :: "'te tskst \<Rightarrow> bool" where
  "primap_ok s \<longleftrightarrow> (\<forall>p < TNUM_TPRI. bit (ready_primap s) p \<longleftrightarrow> queues s (ReadyQ p) \<noteq> [])"

definition is_top :: "'te tskst \<Rightarrow> nat option \<Rightarrow> bool" where
  "is_top s r \<longleftrightarrow> (case r of
      None \<Rightarrow> \<forall>p < TNUM_TPRI. queues s (ReadyQ p) = []
    | Some t \<Rightarrow> \<exists>p < TNUM_TPRI. (\<exists>ts. queues s (ReadyQ p) = t # ts) \<and> (\<forall>q < p. queues s (ReadyQ q) = []))"

definition core :: "location \<Rightarrow> 'te tskst \<Rightarrow> bool" where
  "core L s \<longleftrightarrow> queues_at L s \<and> ready_ok L s \<and> primap_ok s \<and> (dspflg s \<longrightarrow> is_top s (p_schedtsk s))"

lemmas core_defs = core_def queues_at_def ready_ok_def primap_ok_def

lemma coreD:
  assumes "core L s"
  shows "queues_at L s" "ready_ok L s" "primap_ok s" "dspflg s \<Longrightarrow> is_top s (p_schedtsk s)"
  using assms by (simp_all add: core_def)

lemma queues_at_family: "queues_at L s \<Longrightarrow> family (queues s)"
  by (auto simp: queues_at_def family_def)

lemma queues_at_unlinked: "queues_at L s \<Longrightarrow> L t = None \<Longrightarrow> unlinked t (queues s)"
  by (auto simp: queues_at_def unlinked_def)

lemma core_in_queue: "core L s \<Longrightarrow> t \<in> set (queues s h) \<longleftrightarrow> L t = Some h"
  by (simp add: core_defs)

lemma core_ready: "core L s \<Longrightarrow> L t = Some (ReadyQ p) \<Longrightarrow> priority (tcb s t) = p \<and> p < TNUM_TPRI"
  by (simp add: core_def ready_ok_def)

lemma core_distinct: "core L s \<Longrightarrow> distinct (queues s h)"
  by (simp add: core_defs)

lemma bit_PRIMAP_BIT: "p < TNUM_TPRI \<Longrightarrow> bit (PRIMAP_BIT p) q \<longleftrightarrow> q = p"
  by (auto simp: PRIMAP_BIT_def push_bit_eq_mult bit_exp_iff possible_bit_def)

lemma primap_zero: "primap_ok s \<Longrightarrow> ready_primap s = 0 \<longleftrightarrow> (\<forall>p < TNUM_TPRI. queues s (ReadyQ p) = [])"
  by (auto simp: primap_ok_def bit_eq_iff dest: bit_imp_le_length)

text \<open>The bitmap search finds the task to run, and there is only one.\<close>

lemma search_top:
  assumes "primap_ok s" "ready_primap s \<noteq> 0"
  shows "is_top s (search_schedtsk s)"
proof -
  obtain n where n: "n = primap_search s" by simp
  have l: "lowest_bit (ready_primap s) n" using bitmap_search_lowest [OF assms(2)] by (simp add: n primap_search_def)
  then have "n < TNUM_TPRI" using bit_imp_le_length [of "ready_primap s" n] by (simp add: lowest_bit_def)
  moreover have "queues s (ReadyQ n) \<noteq> []" "\<And>q. q < n \<Longrightarrow> queues s (ReadyQ q) = []"
    using l assms(1) \<open>n < TNUM_TPRI\<close> by (auto simp: lowest_bit_def primap_ok_def)
  moreover have "search_schedtsk s = q_first (ReadyQ n) s" by (simp add: search_schedtsk_def n)
  ultimately show ?thesis
    unfolding is_top_def q_first_def by (cases "queues s (ReadyQ n)") auto
qed

lemma is_top_unique: "is_top s a \<Longrightarrow> is_top s b \<Longrightarrow> a = b"
  by (auto simp: is_top_def split: option.splits) (metis linorder_neqE_nat list.inject list.simps(3))+

lemma is_top_cong: "(\<And>p. queues s' (ReadyQ p) = queues s (ReadyQ p)) \<Longrightarrow> is_top s' r \<longleftrightarrow> is_top s r"
  by (simp add: is_top_def cong: option.case_cong)

lemma is_top_Some_prio:
  assumes "core L s" "is_top s (Some t)"
  shows "L t = Some (ReadyQ (priority (tcb s t)))" "priority (tcb s t) < TNUM_TPRI"
    "\<exists>ts. queues s (ReadyQ (priority (tcb s t))) = t # ts"
    "q < priority (tcb s t) \<Longrightarrow> queues s (ReadyQ q) = []"
proof -
  obtain p ts where p: "p < TNUM_TPRI" "queues s (ReadyQ p) = t # ts" "\<forall>q<p. queues s (ReadyQ q) = []"
    using assms(2) by (auto simp: is_top_def)
  then have "L t = Some (ReadyQ p)" using core_in_queue [OF assms(1), of t "ReadyQ p"] by simp
  moreover from this have "priority (tcb s t) = p" using assms(1) by (simp add: core_defs)
  ultimately show "L t = Some (ReadyQ (priority (tcb s t)))" "priority (tcb s t) < TNUM_TPRI"
    "\<exists>ts. queues s (ReadyQ (priority (tcb s t))) = t # ts"
    "q < priority (tcb s t) \<Longrightarrow> queues s (ReadyQ q) = []"
    using p by auto
qed

text \<open>Changes outside the ready queues.\<close>

lemma core_queues:
  assumes "core L s" "queues_at L' (s\<lparr>queues := q\<rparr>)" "\<And>p. q (ReadyQ p) = queues s (ReadyQ p)"
  shows "core L' (s\<lparr>queues := q\<rparr>)"
proof -
  have a: "L' t = Some h \<longleftrightarrow> t \<in> set (q h)" for t h using assms(2) by (simp add: queues_at_def)
  have "L' t = Some (ReadyQ p) \<longleftrightarrow> L t = Some (ReadyQ p)" for t p
    by (simp only: a assms(3) core_in_queue [OF assms(1)])
  moreover have "is_top (s\<lparr>queues := q\<rparr>) (p_schedtsk s) \<longleftrightarrow> is_top s (p_schedtsk s)"
    by (rule is_top_cong) (simp add: assms(3))
  ultimately show ?thesis using assms by (simp add: core_def ready_ok_def primap_ok_def)
qed

lemma core_upd_tcb:
  assumes "core L s" "\<And>p. L t = Some (ReadyQ p) \<Longrightarrow> priority (f (tcb s t)) = priority (tcb s t)"
  shows "core L (upd_tcb t f s)"
proof -
  have "is_top (upd_tcb t f s) (p_schedtsk s) \<longleftrightarrow> is_top s (p_schedtsk s)"
    by (rule is_top_cong) (simp add: upd_tcb_def)
  then show ?thesis using assms by (auto simp: core_defs upd_tcb_def)
qed

lemma queues_at_insert:
  assumes "queues_at L s" "L t = None" "set xs = insert t (set (queues s h))" "distinct xs"
  shows "queues_at (L(t \<mapsto> h)) (s\<lparr>queues := (queues s)(h := xs)\<rparr>)"
  using assms by (auto simp: queues_at_def)

lemma queues_at_delete:
  assumes "queues_at L s"
  shows "queues_at (L(t := None)) (s\<lparr>queues := lq_delete t (queues s)\<rparr>)"
  using assms by (auto simp: queues_at_def lq_delete_def)

lemma queues_at_delete_next:
  assumes "queues_at L s" "queues s h = t # ts"
  shows "lq_delete t (queues s) = (queues s)(h := ts)"
proof -
  have t: "t \<in> set (queues s h)" using assms(2) by simp
  show ?thesis using lq_delete_in [OF queues_at_family [OF assms(1)] t] assms(2) by simp
qed

lemma core_wait_insert:
  assumes "core L s" "L t = None" "set xs = insert t (set (queues s (WaitQ w)))" "distinct xs"
  shows "core (L(t \<mapsto> WaitQ w)) (s\<lparr>queues := (queues s)(WaitQ w := xs)\<rparr>)"
  using assms by (intro core_queues [OF assms(1)] queues_at_insert) (simp_all add: core_def)

lemma core_wait_delete:
  assumes "core L s" "\<And>p. L t \<noteq> Some (ReadyQ p)"
  shows "core (L(t := None)) (s\<lparr>queues := lq_delete t (queues s)\<rparr>)"
proof (intro core_queues [OF assms(1)] queues_at_delete)
  fix p
  have "t \<notin> set (queues s (ReadyQ p))" using assms by (simp add: core_in_queue [OF assms(1)])
  then show "lq_delete t (queues s) (ReadyQ p) = queues s (ReadyQ p)" by (simp add: lq_delete_def)
qed (rule coreD(1) [OF assms(1)])

text \<open>Changes of the ready queues.\<close>

lemma make_runnable_core:
  assumes c: "core L s" and "L t = None" and p: "priority (tcb s t) < TNUM_TPRI"
  shows "core (L(t \<mapsto> ReadyQ (priority (tcb s t)))) (make_runnable t s)"
proof -
  obtain pri where pri: "pri = priority (tcb s t)" by simp
  define s1 where "s1 = primap_set pri (s\<lparr>queues := lq_insert_prev (ReadyQ pri) t (queues s)\<rparr>)"
  have q: "queues s1 = (queues s)(ReadyQ pri := queues s (ReadyQ pri) @ [t])"
    by (simp add: s1_def primap_set_def lq_insert_prev_def)
  have tcb: "tcb s1 = tcb s" "p_schedtsk s1 = p_schedtsk s" "dspflg s1 = dspflg s"
    by (simp_all add: s1_def primap_set_def)
  have "t \<notin> set (queues s (ReadyQ pri))" by (simp add: core_in_queue [OF c] assms(2))
  then have qa: "queues_at (L(t \<mapsto> ReadyQ pri)) s1"
    using queues_at_insert [OF coreD(1) [OF c] assms(2), of "queues s (ReadyQ pri) @ [t]" "ReadyQ pri"]
      core_distinct [OF c] by (simp add: queues_at_def q)
  moreover have "ready_ok (L(t \<mapsto> ReadyQ pri)) s1" using c p pri by (auto simp: core_defs tcb)
  moreover have "primap_ok s1"
    using c p pri bit_PRIMAP_BIT [of pri] by (auto simp: core_defs s1_def primap_set_def lq_insert_prev_def bit_or_iff)
  ultimately have main: "core (L(t \<mapsto> ReadyQ pri)) (s1\<lparr>p_schedtsk := r\<rparr>)" if "dspflg s \<Longrightarrow> is_top s1 r" for r
    using that is_top_cong [of "s1\<lparr>p_schedtsk := r\<rparr>" s1] by (simp add: core_defs tcb)
  have "make_runnable t s = s1\<lparr>p_schedtsk := (if dspflg s then
      (case p_schedtsk s of None \<Rightarrow> Some t | Some u \<Rightarrow> if pri < priority (tcb s u) then Some t else Some u)
      else p_schedtsk s)\<rparr>"
    by (auto simp: make_runnable_def Let_def pri [symmetric] s1_def primap_set_def split: option.splits)
  moreover have "is_top s1 (case p_schedtsk s of None \<Rightarrow> Some t
      | Some u \<Rightarrow> if pri < priority (tcb s u) then Some t else Some u)" if "dspflg s"
  proof (cases "p_schedtsk s")
    case None
    then show ?thesis using coreD(4) [OF c that] p pri by (auto simp: is_top_def q intro!: exI [of _ pri])
  next
    case (Some u)
    note top = is_top_Some_prio [OF c coreD(4) [OF c that, unfolded Some]]
    show ?thesis
    proof (cases "pri < priority (tcb s u)")
      case True
      then show ?thesis using top p pri Some by (auto simp: is_top_def q intro!: exI [of _ pri])
    next
      case False
      then show ?thesis using top p pri Some by (auto simp: is_top_def q intro!: exI [of _ "priority (tcb s u)"])
    qed
  qed
  ultimately show ?thesis using main by (simp add: pri [symmetric])
qed

lemma make_non_runnable_core:
  assumes c: "core L s" and L: "L t = Some (ReadyQ (priority (tcb s t)))"
  shows "core (L(t := None)) (make_non_runnable t s)"
proof -
  obtain pri where pri: "pri = priority (tcb s t)" by simp
  have p: "pri < TNUM_TPRI" using core_ready [OF c L] pri by simp
  have fam: "family (queues s)" by (rule queues_at_family [OF coreD(1) [OF c]])
  have t: "t \<in> set (queues s (ReadyQ pri))" by (simp add: core_in_queue [OF c] L pri)
  define s1 where "s1 = s\<lparr>queues := lq_delete t (queues s)\<rparr>"
  define s2 where "s2 = (if queues s1 (ReadyQ pri) = [] then primap_clear pri s1 else s1)"
  have q: "queues s2 = (queues s)(ReadyQ pri := remove1 t (queues s (ReadyQ pri)))"
    using lq_delete_in [OF fam t] by (simp add: s2_def s1_def primap_clear_def)
  have tcb: "tcb s2 = tcb s" "p_schedtsk s2 = p_schedtsk s" "dspflg s2 = dspflg s"
    by (simp_all add: s2_def s1_def primap_clear_def)
  have "queues s2 = lq_delete t (queues s)" by (simp add: s2_def s1_def primap_clear_def)
  then have "queues_at (L(t := None)) s2"
    using queues_at_delete [OF coreD(1) [OF c], of t] by (simp add: queues_at_def)
  moreover have "ready_ok (L(t := None)) s2" using c by (auto simp: core_defs tcb)
  moreover have pm: "primap_ok s2"
    using c p lq_delete_in [OF fam t] bit_PRIMAP_BIT [OF p]
    by (auto simp: core_defs s2_def s1_def primap_clear_def bit_and_iff bit_not_iff)
  ultimately have main: "core (L(t := None)) (s2\<lparr>p_schedtsk := r\<rparr>)" if "dspflg s \<Longrightarrow> is_top s2 r" for r
    using that is_top_cong [of "s2\<lparr>p_schedtsk := r\<rparr>" s2] by (simp add: core_defs tcb)
  define r where "r = (if p_schedtsk s = Some t then
      if queues s2 (ReadyQ pri) = [] then (if primap_empty s2 then None else search_schedtsk s2)
      else q_first (ReadyQ pri) s2 else p_schedtsk s)"
  have "make_non_runnable t s = s2\<lparr>p_schedtsk := r\<rparr>"
    by (auto simp: make_non_runnable_def Let_def pri [symmetric] s2_def s1_def r_def lq_empty_def
        primap_clear_def primap_empty_def search_schedtsk_def primap_search_def q_first_def)
  moreover have "is_top s2 r" if d: "dspflg s"
  proof (cases "p_schedtsk s = Some t")
    case True
    note top = is_top_Some_prio [OF c coreD(4) [OF c d, unfolded True]]
    show ?thesis
    proof (cases "queues s2 (ReadyQ pri)")
      case Nil
      show ?thesis
      proof (cases "primap_empty s2")
        case True
        then show ?thesis using Nil \<open>p_schedtsk s = Some t\<close> primap_zero [OF pm]
          by (simp add: r_def primap_empty_def is_top_def)
      next
        case False
        then show ?thesis using Nil \<open>p_schedtsk s = Some t\<close> search_top [OF pm]
          by (simp add: r_def primap_empty_def)
      qed
    next
      case (Cons u us)
      then show ?thesis using True top(4) p
        by (auto simp: r_def is_top_def q_first_def q pri intro!: exI [of _ "priority (tcb s t)"])
    qed
  next
    case False
    have "is_top s (p_schedtsk s)" by (rule coreD(4) [OF c d])
    then show ?thesis using False t by (auto simp: r_def is_top_def q split: option.splits)
  qed
  ultimately show ?thesis using main by simp
qed

lemma set_dspflg_core:
  assumes c: "core L s" and "\<exists>t p. L t = Some (ReadyQ p)"
  shows "core L (set_dspflg s)"
proof -
  obtain t p where t: "L t = Some (ReadyQ p)" using assms(2) by blast
  then have "queues s (ReadyQ p) \<noteq> []" using core_in_queue [OF c, of t "ReadyQ p"] by auto
  then have "ready_primap s \<noteq> 0"
    using primap_zero [OF coreD(3) [OF c]] core_ready [OF c t] by blast
  then have "is_top s (search_schedtsk s)" by (rule search_top [OF coreD(3) [OF c]])
  moreover have "search_schedtsk (s\<lparr>dspflg := True\<rparr>) = search_schedtsk s"
    by (simp add: search_schedtsk_def q_first_def primap_search_def)
  ultimately show ?thesis
    using c is_top_cong [of "set_dspflg s" s] by (simp add: core_defs set_dspflg_def Let_def)
qed

lemma rotate_ready_queue_core:
  assumes c: "core L s" and p: "pri < TNUM_TPRI"
  shows "core L (rotate_ready_queue pri s)"
proof (cases "\<exists>t u us. queues s (ReadyQ pri) = t # u # us")
  case False
  then have "rotate_ready_queue pri s = s"
    by (cases "queues s (ReadyQ pri)") (auto simp: rotate_ready_queue_def lq_empty_def neq_Nil_conv)
  then show ?thesis using c by simp
next
  case True
  then obtain t u us where q: "queues s (ReadyQ pri) = t # u # us" by blast
  define Q where "Q = (queues s)(ReadyQ pri := u # us @ [t])"
  define r where "r = (if dspflg s \<and> p_schedtsk s = Some t then Some u else p_schedtsk s)"
  have eq: "rotate_ready_queue pri s = s\<lparr>queues := Q, p_schedtsk := r\<rparr>"
    by (simp add: rotate_ready_queue_def lq_empty_def lq_delete_next_def lq_insert_prev_def q Let_def
        q_first_def r_def Q_def)
  have "distinct (t # u # us)" using core_distinct [OF c, of "ReadyQ pri"] by (simp add: q)
  moreover have "x \<in> set (Q h) \<longleftrightarrow> x \<in> set (queues s h)" for x h by (auto simp: Q_def q)
  moreover have "Q h = [] \<longleftrightarrow> queues s h = []" for h by (auto simp: Q_def q)
  moreover have "is_top (s\<lparr>queues := Q\<rparr>) r" if d: "dspflg s"
  proof -
    note top = coreD(4) [OF c d]
    show ?thesis
    proof (cases "p_schedtsk s")
      case None
      then show ?thesis using top p by (auto simp: is_top_def q)
    next
      case (Some x)
      obtain x' p' xs where x: "x' = x" "p' < TNUM_TPRI" "queues s (ReadyQ p') = x' # xs"
        "\<forall>q < p'. queues s (ReadyQ q) = []"
        using top Some by (auto simp: is_top_def)
      have "x = t \<Longrightarrow> p' = pri"
        using core_in_queue [OF c, of t "ReadyQ p'"] core_in_queue [OF c, of t "ReadyQ pri"] x(1,3) q by simp
      moreover have "\<not> pri < p'" using x(4) q by auto
      ultimately show ?thesis using x Some d q
        by (auto simp: is_top_def Q_def r_def intro!: exI [of _ p'])
    qed
  qed
  ultimately show ?thesis
    using c is_top_cong [of "s\<lparr>queues := Q, p_schedtsk := r\<rparr>" "s\<lparr>queues := Q\<rparr>"]
    by (auto simp: eq core_defs Q_def q)
qed

text \<open>\<open>change_priority\<close> has already stored the new priority when it relinks the task.\<close>

lemma change_priority_ready_core:
  assumes c: "core L s0" and L: "L t = Some (ReadyQ old)" and new: "new < TNUM_TPRI"
    and s: "s = upd_tcb t (\<lambda>b. b\<lparr>priority := new\<rparr>) s0"
  shows "core (L(t \<mapsto> ReadyQ new)) (change_priority_ready t old new m s)"
proof -
  have old: "priority (tcb s0 t) = old" "old < TNUM_TPRI" using core_ready [OF c L] by simp_all
  have t: "t \<in> set (queues s0 (ReadyQ old))" by (simp add: core_in_queue [OF c] L)
  have fam: "family (queues s0)" by (rule queues_at_family [OF coreD(1) [OF c]])
  define q1 where "q1 = (queues s0)(ReadyQ old := remove1 t (queues s0 (ReadyQ old)))"
  have q1: "lq_delete t (queues s0) = q1" by (simp add: q1_def lq_delete_in [OF fam t])
  define Q where "Q = q1(ReadyQ new := (if m then t # q1 (ReadyQ new) else q1 (ReadyQ new) @ [t]))"
  define s2 where "s2 = (if q1 (ReadyQ old) = [] then primap_clear old (s\<lparr>queues := q1\<rparr>) else s\<lparr>queues := q1\<rparr>)"
  define s4 where "s4 = primap_set new (s2\<lparr>queues := Q\<rparr>)"
  have sel: "queues s4 = Q" "tcb s4 = tcb s" "p_schedtsk s4 = p_schedtsk s0" "dspflg s4 = dspflg s0"
    by (simp_all add: s4_def s2_def s primap_set_def primap_clear_def upd_tcb_def)
  have qs: "queues s = queues s0" by (simp add: s upd_tcb_def)
  have pm: "primap_ok s4"
    using coreD(3) [OF c] bit_PRIMAP_BIT [OF old(2)] bit_PRIMAP_BIT [OF new]
    by (auto simp: primap_ok_def s4_def s2_def Q_def q1_def s upd_tcb_def primap_set_def primap_clear_def
        bit_or_iff bit_and_iff bit_not_iff)
  have "queues_at (L(t := None)) (s0\<lparr>queues := q1\<rparr>)"
    using queues_at_delete [OF coreD(1) [OF c], of t] by (simp add: q1)
  from queues_at_insert [OF this, of t "if m then t # q1 (ReadyQ new) else q1 (ReadyQ new) @ [t]" "ReadyQ new"]
  have qa: "queues_at (L(t \<mapsto> ReadyQ new)) s4"
    using core_distinct [OF c] core_in_queue [OF c, of t] L
    by (auto simp: queues_at_def sel Q_def q1_def)
  have rd: "ready_ok (L(t \<mapsto> ReadyQ new)) s4"
    using coreD(2) [OF c] new by (auto simp: ready_ok_def sel s upd_tcb_def)
  have main: "core (L(t \<mapsto> ReadyQ new)) (s4\<lparr>p_schedtsk := r\<rparr>)" if "dspflg s0 \<Longrightarrow> is_top s4 r" for r
    using that qa rd pm is_top_cong [of "s4\<lparr>p_schedtsk := r\<rparr>" s4] by (simp add: core_defs sel)
  define r where "r = (if \<not> dspflg s0 then p_schedtsk s0
     else if p_schedtsk s0 = Some t then (if old \<le> new then search_schedtsk s4 else Some t)
     else case p_schedtsk s0 of None \<Rightarrow> None
        | Some u \<Rightarrow> if new \<le> priority (tcb s4 u) then q_first (ReadyQ new) s4 else Some u)"
  have "change_priority_ready t old new m s = s4\<lparr>p_schedtsk := r\<rparr>"
    unfolding change_priority_ready_def Let_def qs q1 lq_empty_def lq_insert_next_def lq_insert_prev_def
    by (cases "p_schedtsk s0") (simp_all add: r_def s4_def s2_def Q_def primap_set_def primap_clear_def s upd_tcb_def
        search_schedtsk_def primap_search_def q_first_def)
  moreover have "is_top s4 r" if d: "dspflg s0"
  proof (cases "p_schedtsk s0")
    case None
    then show ?thesis using coreD(4) [OF c d] t old by (simp add: is_top_def)
  next
    case (Some u)
    note top = is_top_Some_prio [OF c coreD(4) [OF c d, unfolded Some]]
    show ?thesis
    proof (cases "u = t")
      case True
      show ?thesis
      proof (cases "old \<le> new")
        case le: True
        have "queues s4 (ReadyQ new) \<noteq> []" by (simp add: sel Q_def)
        then have "ready_primap s4 \<noteq> 0" using primap_zero [OF pm] new by blast
        then show ?thesis using search_top [OF pm] le True Some d by (simp add: r_def)
      next
        case False
        then have "queues s0 (ReadyQ q) = []" if "q \<le> new" for q using top(4) [of q] True old that by simp
        then show ?thesis using False True Some d new
          by (auto simp: r_def is_top_def sel Q_def q1_def intro!: exI [of _ new])
      qed
    next
      case False
      then have pu: "priority (tcb s4 u) = priority (tcb s0 u)" by (simp add: sel s upd_tcb_def)
      have o: "priority (tcb s0 u) \<le> old" using top(4) [of old] t by (cases "old < priority (tcb s0 u)") auto
      obtain ts where ts: "queues s0 (ReadyQ (priority (tcb s0 u))) = u # ts" using top(3) by blast
      show ?thesis
      proof (cases "new \<le> priority (tcb s4 u)")
        case True
        then have "queues s0 (ReadyQ q) = []" if "q < new" for q using top(4) [of q] pu that by simp
        moreover obtain x xs where "Q (ReadyQ new) = x # xs" by (cases "Q (ReadyQ new)") (auto simp: Q_def split: if_splits)
        ultimately show ?thesis using False Some d True new
          by (auto simp: r_def is_top_def q_first_def sel Q_def q1_def intro!: exI [of _ new])
      next
        case gt: False
        then show ?thesis using False Some d top(2,4) ts pu t
          by (auto simp: r_def is_top_def sel Q_def q1_def intro!: exI [of _ "priority (tcb s0 u)"])
      qed
    qed
  qed
  ultimately show ?thesis using main by simp
qed

end
