(* ===== verification/Kernel.thy ===== *)
theory Kernel
  imports Task TimeEvent
begin

unbundle bit_operations_syntax

text \<open>
  The state of the kernel: the task and time event modules together with the control blocks
  and initialisation blocks of all kernel objects (the headers of asp3\_dcre/kernel), the
  CPU lock flag and context of the processor, and the dispatcher of
  arch/arm\_gcc/common/core\_support.S.

  An object is the index of its control block; \<open>INDEX id\<close> is the index of an ID. The static
  and dynamic initialisation blocks of a kind form one table. A wait queue or the link of a
  task into it is part of \<open>queues (ts k)\<close>.
\<close>

section \<open>Control blocks\<close>

type_synonym uint = "32 word"
type_synonym addr = "32 word"

record seminib =
  sematr :: ATR
  isemcnt :: uint
  maxsem :: uint

record semcb =
  semcnt :: uint

type_synonym FLGPTN = "32 word"

record flginib =
  flgatr :: ATR
  iflgptn :: FLGPTN

record flgcb =
  flgptn :: FLGPTN

text \<open>\<open>dtqmb\<close> is the content of the management area \<open>p_dtqmb\<close> points to; 0 is a null pointer.\<close>

record dtqinib =
  dtqatr :: ATR
  dtqcnt :: uint
  p_dtqmb :: addr

record dtqcb =
  dtq_count :: uint
  dtq_head :: uint
  dtq_tail :: uint
  dtqmb :: "nat \<Rightarrow> intptr_t"

text \<open>A \<open>PDQMB *\<close> is the index of the block in the management area.\<close>

record pdqinib =
  pdqatr :: ATR
  pdqcnt :: uint
  maxdpri :: int
  p_pdqmb :: addr

record pdqmb =
  pdq_next :: "nat option"
  pdq_data :: intptr_t
  pdq_datapri :: int

record pdqcb =
  pdq_count :: uint
  pdq_head :: "nat option"
  pdq_unused :: uint
  pdq_freelist :: "nat option"
  pdq_mb :: "nat \<Rightarrow> pdqmb"

record mtxinib =
  mtxatr :: ATR
  ceilpri :: nat

record mtxcb =
  p_loctsk :: "nat option"
  p_prevmtx :: "nat option"

record mpfinib =
  mpfatr :: ATR
  blkcnt :: uint
  blksz :: uint
  mpf :: addr
  p_mpfmb :: addr

record mpfcb =
  fblkcnt :: uint
  mpf_unused :: uint
  mpf_freelist :: uint
  mpfmb :: "nat \<Rightarrow> uint"

text \<open>
  \<open>T_NFYINFO\<close>: how the end of a period or of an alarm is notified, and how an error of that. The
  unions have a field for each of their cases. A handler \<open>NFYHDR\<close> is a function of the application, given by
  its address, or \<open>notify_handler\<close>, for which \<open>exinf\<close> holds a pointer to the information, an
  entry of \<open>acyc_nfyinfo_table\<close> or \<open>aalm_nfyinfo_table\<close>.
\<close>

record nfyinfo =
  nfymode :: uint
  nfy_exinf :: intptr_t
  nfy_tmehdr :: addr
  nfy_var :: addr
  nfy_value :: intptr_t
  nfy_tskid :: int
  nfy_semid :: int
  nfy_flgid :: int
  nfy_flgptn :: FLGPTN
  nfy_dtqid :: int
  nfy_data :: intptr_t
  enfy_var :: addr
  enfy_tskid :: int
  enfy_semid :: int
  enfy_flgid :: int
  enfy_flgptn :: FLGPTN
  enfy_dtqid :: int

datatype exinf_t = ExInf intptr_t | CycNfy nat | AlmNfy nat
datatype nfyhdr = UserHandler addr | NotifyHandler

record cycinib =
  cycatr :: ATR
  cyc_exinf :: exinf_t
  cyc_nfyhdr :: nfyhdr
  cyctim :: RELTIM
  cycphs :: RELTIM

record cyccb =
  cycsta :: bool

record alminib =
  almatr :: ATR
  alm_exinf :: exinf_t
  alm_nfyhdr :: nfyhdr

record almcb =
  almsta :: bool

section \<open>The kernel state\<close>

text \<open>
  \<open>mpk_in\<close> is what the memory pool of the kernel (the default one is in the theory \<open>Mempool\<close>) returns to
  successive requests, \<open>mpk_live\<close> the areas handed out and not yet freed, with the size that
  was asked for. Sizes are \<open>size_t\<close>, 32 bits on this processor. \<open>uvar\<close> holds the variables of the
  application that notifications write.
\<close>

record kernel =
  ts :: "tmevtb_ref tskst"
  tm :: tme
  cpulock :: bool
  excpt_ctx :: bool
  ipm :: int
  kerflg :: bool
  tmax_tskid :: int
  tmax_stskid :: int
  tmax_semid :: int
  tmax_ssemid :: int
  tmax_flgid :: int
  tmax_sflgid :: int
  tmax_dtqid :: int
  tmax_sdtqid :: int
  tmax_pdqid :: int
  tmax_spdqid :: int
  tmax_mtxid :: int
  tmax_smtxid :: int
  tmax_mpfid :: int
  tmax_smpfid :: int
  tmax_cycid :: int
  tmax_scycid :: int
  tmax_almid :: int
  tmax_salmid :: int
  seminib :: "nat \<Rightarrow> seminib"
  semcb :: "nat \<Rightarrow> semcb"
  free_semcb :: "nat list"
  flginib :: "nat \<Rightarrow> flginib"
  flgcb :: "nat \<Rightarrow> flgcb"
  free_flgcb :: "nat list"
  dtqinib :: "nat \<Rightarrow> dtqinib"
  dtqcb :: "nat \<Rightarrow> dtqcb"
  free_dtqcb :: "nat list"
  pdqinib :: "nat \<Rightarrow> pdqinib"
  pdqcb :: "nat \<Rightarrow> pdqcb"
  free_pdqcb :: "nat list"
  mtxinib :: "nat \<Rightarrow> mtxinib"
  mtxcb :: "nat \<Rightarrow> mtxcb"
  free_mtxcb :: "nat list"
  mpfinib :: "nat \<Rightarrow> mpfinib"
  mpfcb :: "nat \<Rightarrow> mpfcb"
  free_mpfcb :: "nat list"
  cycinib :: "nat \<Rightarrow> cycinib"
  cyccb :: "nat \<Rightarrow> cyccb"
  free_cyccb :: "nat list"
  acyc_nfyinfo_table :: "nat \<Rightarrow> nfyinfo"
  alminib :: "nat \<Rightarrow> alminib"
  almcb :: "nat \<Rightarrow> almcb"
  free_almcb :: "nat list"
  aalm_nfyinfo_table :: "nat \<Rightarrow> nfyinfo"
  uvar :: "addr \<Rightarrow> intptr_t"
  mpk_in :: "nat \<Rightarrow> addr"
  mpk_n :: nat
  mpk_live :: "(addr \<times> uint) list"

abbreviation task :: "kernel \<Rightarrow> nat \<Rightarrow> tmevtb_ref tcb" where "task k t \<equiv> tcb (ts k) t"
abbreviation tsk_atr :: "kernel \<Rightarrow> nat \<Rightarrow> ATR" where "tsk_atr k t \<equiv> tskatr (tinib (ts k) t)"
abbreviation queue_of :: "kernel \<Rightarrow> wobj \<Rightarrow> nat list" where "queue_of k w \<equiv> queues (ts k) (WaitQ w)"

definition map_ts :: "(tmevtb_ref tskst \<Rightarrow> tmevtb_ref tskst) \<Rightarrow> kernel \<Rightarrow> kernel" where
  "map_ts f k = k\<lparr>ts := f (ts k)\<rparr>"

definition map_tm :: "(tme \<Rightarrow> tme) \<Rightarrow> kernel \<Rightarrow> kernel" where
  "map_tm f k = k\<lparr>tm := f (tm k)\<rparr>"

section \<open>Object IDs\<close>

abbreviation TSK_SELF :: int where "TSK_SELF \<equiv> 0"
abbreviation TSK_NONE :: int where "TSK_NONE \<equiv> 0"
abbreviation TPRI_SELF :: int where "TPRI_SELF \<equiv> 0"
abbreviation TPRI_INI :: int where "TPRI_INI \<equiv> 0"
abbreviation TIPM_ENAALL :: int where "TIPM_ENAALL \<equiv> 0"

definition INDEX :: "int \<Rightarrow> nat" where "INDEX objid = nat (objid - 1)"
definition OBJID :: "nat \<Rightarrow> int" where "OBJID i = int i + 1"

definition VALID_ID :: "int \<Rightarrow> int \<Rightarrow> bool" where
  "VALID_ID tmax objid \<longleftrightarrow> 1 \<le> objid \<and> objid \<le> tmax"

definition VALID_TPRI :: "int \<Rightarrow> bool" where "VALID_TPRI pri \<longleftrightarrow> 1 \<le> pri \<and> pri \<le> 16"
definition VALID_DPRI :: "int \<Rightarrow> bool" where "VALID_DPRI pri \<longleftrightarrow> 1 \<le> pri \<and> pri \<le> 16"
definition VALID_RELTIM :: "RELTIM \<Rightarrow> bool" where "VALID_RELTIM t \<longleftrightarrow> t \<le> TMAX_RELTIM"
definition VALID_TMOUT :: "TMO \<Rightarrow> bool" where "VALID_TMOUT t \<longleftrightarrow> t \<le> TMAX_RELTIM \<or> t = TMO_FEVR"
definition INT_PRIORITY :: "int \<Rightarrow> nat" where "INT_PRIORITY pri = nat (pri - 1)"
definition EXT_TSKPRI :: "nat \<Rightarrow> int" where "EXT_TSKPRI pri = int pri + 1"

lemma INDEX_OBJID [simp]: "INDEX (OBJID i) = i"
  by (simp add: INDEX_def OBJID_def)

lemma OBJID_INDEX [simp]: "VALID_ID n i \<Longrightarrow> OBJID (INDEX i) = i"
  by (simp add: INDEX_def OBJID_def VALID_ID_def)

lemma INT_PRIORITY_less: "VALID_TPRI p \<Longrightarrow> INT_PRIORITY p < TNUM_TPRI"
  by (auto simp: VALID_TPRI_def INT_PRIORITY_def)

section \<open>Processor state and dispatcher\<close>

definition sense_context :: "kernel \<Rightarrow> bool" where "sense_context k \<longleftrightarrow> excpt_ctx k"
definition sense_lock :: "kernel \<Rightarrow> bool" where "sense_lock k \<longleftrightarrow> cpulock k"
definition lock_cpu :: "kernel \<Rightarrow> kernel" where "lock_cpu k = k\<lparr>cpulock := True\<rparr>"
definition unlock_cpu :: "kernel \<Rightarrow> kernel" where "unlock_cpu k = k\<lparr>cpulock := False\<rparr>"
definition t_get_ipm :: "kernel \<Rightarrow> int" where "t_get_ipm k = ipm k"
definition t_set_ipm :: "int \<Rightarrow> kernel \<Rightarrow> kernel" where "t_set_ipm p k = k\<lparr>ipm := p\<rparr>"

text \<open>
  \<open>dispatcher_0\<close> makes \<open>p_schedtsk\<close> the running task and resumes it; the first thing the
  resumed task does is to release the CPU lock on its way out of the kernel, and the idle
  loop releases it as well. \<open>exit_and_dispatch\<close> enters the same code.
\<close>

definition dispatch :: "kernel \<Rightarrow> kernel" where
  "dispatch k = unlock_cpu (map_ts (\<lambda>s. s\<lparr>p_runtsk := p_schedtsk s\<rparr>) k)"

definition exit_and_dispatch :: "kernel \<Rightarrow> kernel" where
  "exit_and_dispatch k = dispatch k"

text \<open>
  \<open>request_dispatch_retint\<close> is empty on this processor: the exit of every interrupt compares
  \<open>p_runtsk\<close> with \<open>p_schedtsk\<close>.
\<close>

definition request_dispatch_retint :: "kernel \<Rightarrow> kernel" where
  "request_dispatch_retint k = k"

text \<open>The two forms in which service calls ask for a switch of tasks.\<close>

definition need_dispatch :: "kernel \<Rightarrow> bool" where
  "need_dispatch k \<longleftrightarrow> p_runtsk (ts k) \<noteq> p_schedtsk (ts k)"

definition dispatch_if_needed :: "kernel \<Rightarrow> kernel" where
  "dispatch_if_needed k = (if need_dispatch k then dispatch k else k)"

definition dispatch_or_request :: "kernel \<Rightarrow> kernel" where
  "dispatch_or_request k =
     (if need_dispatch k then
        if \<not> sense_context k then dispatch k else request_dispatch_retint k
      else k)"

text \<open>The end of a service call: release the lock and return the code.\<close>

definition leave :: "er \<Rightarrow> kernel \<Rightarrow> svc \<times> kernel" where
  "leave ercd k = (Ret ercd, unlock_cpu k)"

definition leave_uint :: "int \<Rightarrow> kernel \<Rightarrow> svc \<times> kernel" where
  "leave_uint n k = (RetUint n, unlock_cpu k)"

text \<open>The caller waits: it is suspended in \<open>dispatch\<close>.\<close>

definition block :: "kernel \<Rightarrow> svc \<times> kernel" where
  "block k = (Blocked, dispatch k)"

text \<open>The guards of check.h at the start of a service call.\<close>

definition ctx_error :: "kernel \<Rightarrow> bool" where
  "ctx_error k \<longleftrightarrow> sense_context k \<or> sense_lock k"

definition dispatch_error :: "kernel \<Rightarrow> bool" where
  "dispatch_error k \<longleftrightarrow> sense_context k \<or> sense_lock k \<or> \<not> dspflg (ts k)"

text \<open>The running task; every service call that reads it runs in a task.\<close>

definition runtsk :: "kernel \<Rightarrow> nat" where
  "runtsk k = the (p_runtsk (ts k))"

section \<open>The memory pool of the kernel\<close>

definition malloc_mpk :: "uint \<Rightarrow> kernel \<Rightarrow> addr \<times> kernel" where
  "malloc_mpk sz k =
     (let p = mpk_in k (mpk_n k);
          k1 = k\<lparr>mpk_n := mpk_n k + 1\<rparr>
      in (p, if p = 0 then k1 else k1\<lparr>mpk_live := (p, sz) # mpk_live k1\<rparr>))"

definition free_mpk :: "addr \<Rightarrow> kernel \<Rightarrow> kernel" where
  "free_mpk p k = k\<lparr>mpk_live := filter (\<lambda>a. fst a \<noteq> p) (mpk_live k)\<rparr>"

end
