(* ===== verification/Wait.thy ===== *)
theory Wait
  imports Kernel
begin

unbundle bit_operations_syntax

text \<open>
  The wait management module, asp3\_dcre/kernel/wait.h and wait.c, and \<open>change_priority\<close> of
  task.c: a task enters a wait (with or without a timeout, with or without a wait object),
  leaves it, and moves within a priority-ordered wait queue.

  The invariant \<open>consistent\<close> says that every task is linked exactly where its state says, that
  the ready queues and \<open>p_schedtsk\<close> are right, and that the time event heap holds exactly the
  events of the waiting tasks and of the running notifications.
\<close>

section \<open>Operations\<close>

definition upd_task :: "nat \<Rightarrow> (tmevtb_ref tcb \<Rightarrow> tmevtb_ref tcb) \<Rightarrow> kernel \<Rightarrow> kernel" where
  "upd_task t f k = map_ts (upd_tcb t f) k"

definition upd_winfo :: "nat \<Rightarrow> (tmevtb_ref winfo \<Rightarrow> tmevtb_ref winfo) \<Rightarrow> kernel \<Rightarrow> kernel" where
  "upd_winfo t f k = upd_task t (\<lambda>b. b\<lparr>p_winfo := f (p_winfo b)\<rparr>) k"

definition set_tstat :: "nat \<Rightarrow> tstat \<Rightarrow> kernel \<Rightarrow> kernel" where
  "set_tstat t st k = upd_task t (\<lambda>b. b\<lparr>tstat := st\<rparr>) k"

definition set_wercd :: "nat \<Rightarrow> er \<Rightarrow> kernel \<Rightarrow> kernel" where
  "set_wercd t e k = upd_winfo t (\<lambda>i. i\<lparr>w_u := Wercd e\<rparr>) k"

text \<open>A fresh \<open>WINFO_\<dots>\<close> on the stack of the caller; no field is read before it is written.\<close>

definition fresh_winfo :: "tmevtb_ref winfo" where
  "fresh_winfo = \<lparr>w_u = P_tmevtb None, p_wobjcb = None, w_waiptn = 0, w_wfmode = 0, w_data = 0,
     w_datapri = 0, w_blk = 0\<rparr>"

definition wobjatr :: "kernel \<Rightarrow> wobj \<Rightarrow> ATR" where
  "wobjatr k w = (case w of SemW i \<Rightarrow> sematr (seminib k i) | FlgW i \<Rightarrow> flgatr (flginib k i)
     | SDtqW i \<Rightarrow> dtqatr (dtqinib k i) | RDtqW i \<Rightarrow> dtqatr (dtqinib k i)
     | SPdqW i \<Rightarrow> pdqatr (pdqinib k i) | RPdqW i \<Rightarrow> pdqatr (pdqinib k i)
     | MtxW i \<Rightarrow> mtxatr (mtxinib k i) | MpfW i \<Rightarrow> mpfatr (mpfinib k i))"

definition queue_insert_tpri :: "qhead \<Rightarrow> nat \<Rightarrow> tmevtb_ref tskst \<Rightarrow> tmevtb_ref tskst" where
  "queue_insert_tpri h t s =
     (let pri = priority (tcb s t)
      in s\<lparr>queues := (queues s)(h := lq_insert_before (\<lambda>u. pri < priority (tcb s u)) t (queues s h))\<rparr>)"

definition queue_insert_last :: "qhead \<Rightarrow> nat \<Rightarrow> tmevtb_ref tskst \<Rightarrow> tmevtb_ref tskst" where
  "queue_insert_last h t s = s\<lparr>queues := lq_insert_prev h t (queues s)\<rparr>"

definition queue_delete_task :: "nat \<Rightarrow> tmevtb_ref tskst \<Rightarrow> tmevtb_ref tskst" where
  "queue_delete_task t s = s\<lparr>queues := lq_delete t (queues s)\<rparr>"

definition make_wait :: "tstat \<Rightarrow> tmevtb_ref winfo \<Rightarrow> kernel \<Rightarrow> kernel" where
  "make_wait st wi k =
     (let t = runtsk k;
          k1 = set_tstat t st k;
          k2 = map_ts (make_non_runnable t) k1
      in upd_task t (\<lambda>b. b\<lparr>p_winfo := wi\<lparr>w_u := P_tmevtb None\<rparr>\<rparr>) k2)"

definition start_timer :: "nat \<Rightarrow> cback \<Rightarrow> RELTIM \<Rightarrow> kernel \<Rightarrow> kernel" where
  "start_timer t cb time k =
     map_tm (\<lambda>m. tmevtb_enqueue_reltim (TskTM t) time
       (m\<lparr>tmevtb_tab := (tmevtb_tab m)(TskTM t := (tmevtb_tab m (TskTM t))\<lparr>callback := cb, arg := t\<rparr>)\<rparr>)) k"

definition make_wait_tmout :: "tstat \<Rightarrow> tmevtb_ref winfo \<Rightarrow> TMO \<Rightarrow> kernel \<Rightarrow> kernel" where
  "make_wait_tmout st wi tmout k =
     (let t = runtsk k;
          k1 = set_tstat t st k;
          k2 = map_ts (make_non_runnable t) k1
      in if tmout = TMO_FEVR then upd_task t (\<lambda>b. b\<lparr>p_winfo := wi\<lparr>w_u := P_tmevtb None\<rparr>\<rparr>) k2
         else start_timer t Wait_tmout tmout
                (upd_task t (\<lambda>b. b\<lparr>p_winfo := wi\<lparr>w_u := P_tmevtb (Some (TskTM t))\<rparr>\<rparr>) k2))"

definition wobj_queue_insert :: "wobj \<Rightarrow> kernel \<Rightarrow> kernel" where
  "wobj_queue_insert w k =
     (if wobjatr k w AND TA_TPRI \<noteq> 0 then map_ts (queue_insert_tpri (WaitQ w) (runtsk k)) k
      else map_ts (queue_insert_last (WaitQ w) (runtsk k)) k)"

definition set_wobjcb :: "nat \<Rightarrow> wobj \<Rightarrow> kernel \<Rightarrow> kernel" where
  "set_wobjcb t w k = upd_winfo t (\<lambda>i. i\<lparr>p_wobjcb := Some w\<rparr>) k"

definition wobj_make_wait :: "wobj \<Rightarrow> tstat \<Rightarrow> tmevtb_ref winfo \<Rightarrow> kernel \<Rightarrow> kernel" where
  "wobj_make_wait w st wi k =
     set_wobjcb (runtsk k) w (wobj_queue_insert w (make_wait st wi k))"

definition wobj_make_wait_tmout :: "wobj \<Rightarrow> tstat \<Rightarrow> tmevtb_ref winfo \<Rightarrow> TMO \<Rightarrow> kernel \<Rightarrow> kernel" where
  "wobj_make_wait_tmout w st wi tmout k =
     set_wobjcb (runtsk k) w (wobj_queue_insert w (make_wait_tmout st wi tmout k))"

text \<open>The wait of a receiver, which always enters its queue at the end.\<close>

definition rwait_make_wait :: "wobj \<Rightarrow> tstat \<Rightarrow> kernel \<Rightarrow> kernel" where
  "rwait_make_wait w st k =
     set_wobjcb (runtsk k) w (map_ts (queue_insert_last (WaitQ w) (runtsk k)) (make_wait st fresh_winfo k))"

definition rwait_make_wait_tmout :: "wobj \<Rightarrow> tstat \<Rightarrow> TMO \<Rightarrow> kernel \<Rightarrow> kernel" where
  "rwait_make_wait_tmout w st tmout k =
     set_wobjcb (runtsk k) w
       (map_ts (queue_insert_last (WaitQ w) (runtsk k)) (make_wait_tmout st fresh_winfo tmout k))"

definition make_non_wait :: "nat \<Rightarrow> kernel \<Rightarrow> kernel" where
  "make_non_wait t k =
     (if \<not> TSTAT_SUSPENDED (tstat (task k t)) then map_ts (make_runnable t) (set_tstat t TS_RUNNABLE k)
      else set_tstat t TS_SUSPENDED k)"

definition wait_dequeue_wobj :: "nat \<Rightarrow> kernel \<Rightarrow> kernel" where
  "wait_dequeue_wobj t k =
     (if TSTAT_WAIT_WOBJ (tstat (task k t)) then map_ts (queue_delete_task t) k else k)"

definition wait_dequeue_tmevtb :: "nat \<Rightarrow> kernel \<Rightarrow> kernel" where
  "wait_dequeue_tmevtb t k =
     (case w_u (p_winfo (task k t)) of
        P_tmevtb (Some r) \<Rightarrow> map_tm (tmevtb_dequeue r) k
      | _ \<Rightarrow> k)"

definition wait_complete :: "nat \<Rightarrow> kernel \<Rightarrow> kernel" where
  "wait_complete t k = make_non_wait t (set_wercd t E_OK (wait_dequeue_tmevtb t k))"

text \<open>
  The call backs of \<open>signal_time\<close> unlock the CPU and lock it again at their end. Interrupts of a higher priority that
  would be taken there are not part of the model, in which a handler runs to its end before the next interrupt.
\<close>

definition interrupt_window :: "kernel \<Rightarrow> kernel" where
  "interrupt_window k = lock_cpu (unlock_cpu k)"

definition wait_tmout :: "nat \<Rightarrow> kernel \<Rightarrow> kernel" where
  "wait_tmout t k =
     (let k1 = make_non_wait t (set_wercd t E_TMOUT (wait_dequeue_wobj t k));
          k2 = (if need_dispatch k1 then request_dispatch_retint k1 else k1)
      in interrupt_window k2)"

definition wait_tmout_ok :: "nat \<Rightarrow> kernel \<Rightarrow> kernel" where
  "wait_tmout_ok t k =
     (let k1 = make_non_wait t (set_wercd t E_OK k);
          k2 = (if need_dispatch k1 then request_dispatch_retint k1 else k1)
      in interrupt_window k2)"

definition wobj_change_priority :: "wobj \<Rightarrow> nat \<Rightarrow> kernel \<Rightarrow> kernel" where
  "wobj_change_priority w t k =
     (if wobjatr k w AND TA_TPRI \<noteq> 0 then
        map_ts (queue_insert_tpri (WaitQ w) t) (map_ts (queue_delete_task t) k)
      else k)"

definition change_priority :: "nat \<Rightarrow> nat \<Rightarrow> bool \<Rightarrow> kernel \<Rightarrow> kernel" where
  "change_priority t newpri mtxmode k =
     (let oldpri = priority (task k t);
          k1 = upd_task t (\<lambda>b. b\<lparr>priority := newpri\<rparr>) k
      in if TSTAT_RUNNABLE (tstat (task k1 t)) then map_ts (change_priority_ready t oldpri newpri mtxmode) k1
         else if TSTAT_WAIT_WOBJCB (tstat (task k1 t)) then
           (case p_wobjcb (p_winfo (task k1 t)) of
              Some w \<Rightarrow> wobj_change_priority w t k1
            | None \<Rightarrow> k1)
         else k1)"

definition wait_tskid :: "wobj \<Rightarrow> kernel \<Rightarrow> int" where
  "wait_tskid w k = (case queue_of k w of [] \<Rightarrow> TSK_NONE | t # _ \<Rightarrow> OBJID t)"

text \<open>\<open>queue_delete_next\<close> on a wait queue that is not empty.\<close>

definition take_waiter :: "wobj \<Rightarrow> kernel \<Rightarrow> nat \<times> kernel" where
  "take_waiter w k =
     (let (t, q) = lq_delete_next (WaitQ w) (queues (ts k)) in (t, map_ts (\<lambda>s. s\<lparr>queues := q\<rparr>) k))"


text \<open>The loop of \<open>init_wait_queue\<close>; every round removes the first waiter.\<close>

definition release_first :: "wobj \<Rightarrow> kernel \<Rightarrow> kernel" where
  "release_first w k =
     (let (t, k1) = take_waiter w k
      in make_non_wait t (set_wercd t E_DLT (wait_dequeue_tmevtb t k1)))"

lemma queue_of_runnable: "queues (make_runnable t s) (WaitQ w) = queues s (WaitQ w)"
  by (auto simp: make_runnable_def Let_def primap_set_def lq_insert_prev_def split: option.splits)

lemma queue_of_make_non_wait: "queue_of (make_non_wait t k) w = queue_of k w"
  by (simp add: make_non_wait_def set_tstat_def upd_task_def upd_tcb_def map_ts_def queue_of_runnable)

lemma queue_of_release_first: "queue_of (release_first w k) v = (if v = w then tl (queue_of k w) else queue_of k v)"
  by (auto simp: release_first_def take_waiter_def lq_delete_next_def queue_of_make_non_wait set_wercd_def
      upd_winfo_def upd_task_def upd_tcb_def map_ts_def map_tm_def wait_dequeue_tmevtb_def
      split: winfo_u.split option.split)

function init_wait_queue :: "wobj \<Rightarrow> kernel \<Rightarrow> kernel" where
  "init_wait_queue w k = (if queue_of k w = [] then k else init_wait_queue w (release_first w k))"
  by pat_completeness auto
termination
  by (relation "measure (\<lambda>(w, k). length (queue_of k w))") (auto simp: queue_of_release_first)

declare init_wait_queue.simps [simp del]

section \<open>Consistency of the kernel\<close>

definition exists_task :: "kernel \<Rightarrow> nat \<Rightarrow> bool" where
  "exists_task k t \<longleftrightarrow> int t < tmax_tskid k \<and> tsk_atr k t \<noteq> TA_NOEXS"

primrec wait_code :: "wobj \<Rightarrow> tstat" where
  "wait_code (SemW i) = TS_WAITING_SEM"
| "wait_code (FlgW i) = TS_WAITING_FLG"
| "wait_code (SDtqW i) = TS_WAITING_SDTQ"
| "wait_code (RDtqW i) = TS_WAITING_RDTQ"
| "wait_code (SPdqW i) = TS_WAITING_SPDQ"
| "wait_code (RPdqW i) = TS_WAITING_RPDQ"
| "wait_code (MtxW i) = TS_WAITING_MTX"
| "wait_code (MpfW i) = TS_WAITING_MPF"

text \<open>Where the state of a task says it is linked, and the time events that should be registered.\<close>

definition loc :: "kernel \<Rightarrow> location" where
  "loc k t =
     (if int t < tmax_tskid k then
        if tsk_atr k t = TA_NOEXS then Some FreeTcbQ
        else if TSTAT_RUNNABLE (tstat (task k t)) then Some (ReadyQ (priority (task k t)))
        else if TSTAT_WAIT_WOBJ (tstat (task k t)) then map_option WaitQ (p_wobjcb (p_winfo (task k t)))
        else None
      else None)"

definition timed :: "kernel \<Rightarrow> nat \<Rightarrow> bool" where
  "timed k t \<longleftrightarrow> TSTAT_WAITING (tstat (task k t)) \<and> w_u (p_winfo (task k t)) = P_tmevtb (Some (TskTM t))"

definition cyc_on :: "kernel \<Rightarrow> nat \<Rightarrow> bool" where
  "cyc_on k i \<longleftrightarrow> int i < tmax_cycid k \<and> cycatr (cycinib k i) \<noteq> TA_NOEXS \<and> cycsta (cyccb k i)"

definition alm_on :: "kernel \<Rightarrow> nat \<Rightarrow> bool" where
  "alm_on k i \<longleftrightarrow> int i < tmax_almid k \<and> almatr (alminib k i) \<noteq> TA_NOEXS \<and> almsta (almcb k i)"

definition active :: "kernel \<Rightarrow> tmevtb_ref set" where
  "active k = TskTM ` {t. timed k t} \<union> CycTM ` {i. cyc_on k i} \<union> AlmTM ` {i. alm_on k i}"

text \<open>
  The wait state of a task: it names an object of the kind it waits for, and its timeout, if
  any, is its own time event block.
\<close>

definition wait_ok :: "nat \<Rightarrow> tmevtb_ref tcb \<Rightarrow> bool" where
  "wait_ok t b \<longleftrightarrow> (TSTAT_WAITING (tstat b) \<longrightarrow>
     w_u (p_winfo b) \<in> {P_tmevtb None, P_tmevtb (Some (TskTM t))} \<and>
     (TSTAT_WAIT_WOBJ (tstat b) \<longrightarrow>
       (\<exists>w. p_wobjcb (p_winfo b) = Some w \<and> wait_code w = tstat b AND NOT TS_SUSPENDED)))"

definition task_ok :: "kernel \<Rightarrow> nat \<Rightarrow> bool" where
  "task_ok k t \<longleftrightarrow> valid_tstat (tstat (task k t)) \<and> (\<not> exists_task k t \<longrightarrow> tstat (task k t) = TS_DORMANT) \<and>
     wait_ok t (task k t)"

definition prio_ok :: "kernel \<Rightarrow> nat \<Rightarrow> bool" where
  "prio_ok k t \<longleftrightarrow> (exists_task k t \<longrightarrow> priority (task k t) < TNUM_TPRI \<and> bpriority (task k t) < TNUM_TPRI \<and>
     ipriority (tinib (ts k) t) < TNUM_TPRI)"

definition consistent :: "kernel \<Rightarrow> bool" where
  "consistent k \<longleftrightarrow> core (loc k) (ts k) \<and> registered (tm k) (active k) \<and>
     (\<forall>t. task_ok k t) \<and> (\<forall>t. prio_ok k t)"

text \<open>
  The intermediate states. In \<open>parked t k\<close> the task \<open>t\<close> is out of every queue, and its timeout is
  registered if its state says so; \<open>detached t k\<close> is the case that it is still waiting. In \<open>limbo t k\<close> it is out of every queue and has no timeout,
  and nothing is required of its state.
\<close>

definition parked :: "nat \<Rightarrow> kernel \<Rightarrow> bool" where
  "parked t k \<longleftrightarrow> core ((loc k)(t := None)) (ts k) \<and> registered (tm k) (active k) \<and>
     (\<forall>u. u \<noteq> t \<longrightarrow> task_ok k u) \<and> (\<forall>t. prio_ok k t) \<and> exists_task k t"

definition detached :: "nat \<Rightarrow> kernel \<Rightarrow> bool" where
  "detached t k \<longleftrightarrow> parked t k \<and> task_ok k t \<and> TSTAT_WAITING (tstat (task k t))"

definition limbo :: "nat \<Rightarrow> kernel \<Rightarrow> bool" where
  "limbo t k \<longleftrightarrow> core ((loc k)(t := None)) (ts k) \<and> registered (tm k) (active k - {TskTM t}) \<and>
     (\<forall>u. u \<noteq> t \<longrightarrow> task_ok k u) \<and> (\<forall>t. prio_ok k t) \<and> exists_task k t"

section \<open>What the operations leave alone\<close>

text \<open>
  \<open>same_tables k k'\<close>: only the task and time event modules and the lock changed.
  \<open>others t k k'\<close>: of the tasks, only \<open>t\<close> changed.
\<close>

definition same_tables :: "kernel \<Rightarrow> kernel \<Rightarrow> bool" where
  "same_tables k k' \<longleftrightarrow> (\<exists>s m l. k' = k\<lparr>ts := s, tm := m, cpulock := l\<rparr>)"

definition others :: "nat \<Rightarrow> kernel \<Rightarrow> kernel \<Rightarrow> bool" where
  "others t k k' \<longleftrightarrow> same_tables k k' \<and> tinib (ts k') = tinib (ts k) \<and> (\<forall>u. u \<noteq> t \<longrightarrow> task k' u = task k u)"

lemma same_tablesI: "k' = k\<lparr>ts := s, tm := m, cpulock := l\<rparr> \<Longrightarrow> same_tables k k'"
  by (auto simp: same_tables_def)

lemma same_tables_refl [simp, intro]: "same_tables k k"
  by (rule same_tablesI [where s = "ts k" and m = "tm k" and l = "cpulock k"]) simp

lemma same_tables_trans:
  assumes "same_tables k k'" "same_tables k' k''" shows "same_tables k k''"
proof -
  obtain s m l s' m' l' where "k' = k\<lparr>ts := s, tm := m, cpulock := l\<rparr>" "k'' = k'\<lparr>ts := s', tm := m', cpulock := l'\<rparr>"
    using assms by (auto simp: same_tables_def)
  then have "k'' = k\<lparr>ts := s', tm := m', cpulock := l'\<rparr>" by simp
  then show ?thesis by (rule same_tablesI)
qed

lemma same_tables_map_ts [simp, intro]: "same_tables k (map_ts f k)"
  by (rule same_tablesI [where s = "f (ts k)" and m = "tm k" and l = "cpulock k"]) (simp add: map_ts_def)

lemma same_tables_map_tm [simp, intro]: "same_tables k (map_tm f k)"
  by (rule same_tablesI [where s = "ts k" and m = "f (tm k)" and l = "cpulock k"]) (simp add: map_tm_def)

lemma same_tables_lock [simp, intro]: "same_tables k (lock_cpu k)"
  by (rule same_tablesI [where s = "ts k" and m = "tm k" and l = True]) (simp add: lock_cpu_def)

lemma same_tables_unlock [simp, intro]: "same_tables k (unlock_cpu k)"
  by (rule same_tablesI [where s = "ts k" and m = "tm k" and l = False]) (simp add: unlock_cpu_def)

lemmas same_tables_after [intro] = same_tables_trans [OF _ same_tables_map_ts] same_tables_trans [OF _ same_tables_map_tm]
  same_tables_trans [OF _ same_tables_lock] same_tables_trans [OF _ same_tables_unlock]

lemma same_tables_sel:
  assumes "same_tables k k'"
  shows "tmax_tskid k' = tmax_tskid k" "excpt_ctx k' = excpt_ctx k" "ipm k' = ipm k" "kerflg k' = kerflg k"
    "tmax_semid k' = tmax_semid k" "seminib k' = seminib k" "semcb k' = semcb k" "free_semcb k' = free_semcb k"
    "tmax_flgid k' = tmax_flgid k" "flginib k' = flginib k" "flgcb k' = flgcb k" "free_flgcb k' = free_flgcb k"
    "tmax_dtqid k' = tmax_dtqid k" "dtqinib k' = dtqinib k" "dtqcb k' = dtqcb k" "free_dtqcb k' = free_dtqcb k"
    "tmax_pdqid k' = tmax_pdqid k" "pdqinib k' = pdqinib k" "pdqcb k' = pdqcb k" "free_pdqcb k' = free_pdqcb k"
    "tmax_mtxid k' = tmax_mtxid k" "mtxinib k' = mtxinib k" "mtxcb k' = mtxcb k" "free_mtxcb k' = free_mtxcb k"
    "tmax_mpfid k' = tmax_mpfid k" "mpfinib k' = mpfinib k" "mpfcb k' = mpfcb k" "free_mpfcb k' = free_mpfcb k"
    "tmax_cycid k' = tmax_cycid k" "cycinib k' = cycinib k" "cyccb k' = cyccb k" "free_cyccb k' = free_cyccb k"
    "tmax_almid k' = tmax_almid k" "alminib k' = alminib k" "almcb k' = almcb k" "free_almcb k' = free_almcb k"
    "wobjatr k' w = wobjatr k w"
proof -
  obtain s m l where "k' = k\<lparr>ts := s, tm := m, cpulock := l\<rparr>" using assms by (auto simp: same_tables_def)
  then show "tmax_tskid k' = tmax_tskid k" "excpt_ctx k' = excpt_ctx k" "ipm k' = ipm k" "kerflg k' = kerflg k"
    "tmax_semid k' = tmax_semid k" "seminib k' = seminib k" "semcb k' = semcb k" "free_semcb k' = free_semcb k"
    "tmax_flgid k' = tmax_flgid k" "flginib k' = flginib k" "flgcb k' = flgcb k" "free_flgcb k' = free_flgcb k"
    "tmax_dtqid k' = tmax_dtqid k" "dtqinib k' = dtqinib k" "dtqcb k' = dtqcb k" "free_dtqcb k' = free_dtqcb k"
    "tmax_pdqid k' = tmax_pdqid k" "pdqinib k' = pdqinib k" "pdqcb k' = pdqcb k" "free_pdqcb k' = free_pdqcb k"
    "tmax_mtxid k' = tmax_mtxid k" "mtxinib k' = mtxinib k" "mtxcb k' = mtxcb k" "free_mtxcb k' = free_mtxcb k"
    "tmax_mpfid k' = tmax_mpfid k" "mpfinib k' = mpfinib k" "mpfcb k' = mpfcb k" "free_mpfcb k' = free_mpfcb k"
    "tmax_cycid k' = tmax_cycid k" "cycinib k' = cycinib k" "cyccb k' = cyccb k" "free_cyccb k' = free_cyccb k"
    "tmax_almid k' = tmax_almid k" "alminib k' = alminib k" "almcb k' = almcb k" "free_almcb k' = free_almcb k"
    "wobjatr k' w = wobjatr k w"
    by (simp_all add: wobjatr_def split: wobj.split)
qed

lemma map_sel [simp]:
  "ts (map_ts f k) = f (ts k)" "tm (map_ts f k) = tm k" "ts (map_tm g k) = ts k" "tm (map_tm g k) = g (tm k)"
  "ts (lock_cpu k) = ts k" "tm (lock_cpu k) = tm k" "ts (unlock_cpu k) = ts k" "tm (unlock_cpu k) = tm k"
  by (simp_all add: map_ts_def map_tm_def lock_cpu_def unlock_cpu_def)

lemma ts_frame [simp]:
  "tcb (make_runnable t s) = tcb s" "tcb (make_non_runnable t s) = tcb s"
  "tcb (queue_insert_tpri h t s) = tcb s" "tcb (queue_insert_last h t s) = tcb s"
  "tcb (queue_delete_task t s) = tcb s" "tcb (set_dspflg s) = tcb s" "tcb (rotate_ready_queue p s) = tcb s"
  "tinib (make_runnable t s) = tinib s" "tinib (make_non_runnable t s) = tinib s"
  "tinib (queue_insert_tpri h t s) = tinib s" "tinib (queue_insert_last h t s) = tinib s"
  "tinib (queue_delete_task t s) = tinib s" "tinib (set_dspflg s) = tinib s" "tinib (rotate_ready_queue p s) = tinib s"
  "tinib (upd_tcb t f s) = tinib s" "tcb (upd_tcb t f s) = (tcb s)(t := f (tcb s t))"
  by (auto simp: make_runnable_def make_non_runnable_def Let_def primap_set_def primap_clear_def upd_tcb_def
      queue_insert_tpri_def queue_insert_last_def queue_delete_task_def set_dspflg_def rotate_ready_queue_def
      lq_delete_next_def split: option.splits)

lemma ts_run_frame [simp]:
  "p_runtsk (make_runnable t s) = p_runtsk s" "p_runtsk (make_non_runnable t s) = p_runtsk s"
  "p_runtsk (queue_insert_tpri h t s) = p_runtsk s" "p_runtsk (queue_insert_last h t s) = p_runtsk s"
  "p_runtsk (queue_delete_task t s) = p_runtsk s" "p_runtsk (upd_tcb t f s) = p_runtsk s"
  "p_runtsk (set_dspflg s) = p_runtsk s" "p_runtsk (rotate_ready_queue p s) = p_runtsk s"
  "dspflg (make_runnable t s) = dspflg s" "dspflg (make_non_runnable t s) = dspflg s"
  "dspflg (queue_insert_tpri h t s) = dspflg s" "dspflg (queue_insert_last h t s) = dspflg s"
  "dspflg (queue_delete_task t s) = dspflg s" "dspflg (upd_tcb t f s) = dspflg s"
  "dspflg (set_dspflg s) = True" "dspflg (rotate_ready_queue p s) = dspflg s"
  by (auto simp: make_runnable_def make_non_runnable_def Let_def primap_set_def primap_clear_def upd_tcb_def
      queue_insert_tpri_def queue_insert_last_def queue_delete_task_def set_dspflg_def rotate_ready_queue_def
      lq_delete_next_def split: option.splits)

section \<open>Transitions\<close>

lemma othersI: "same_tables k k' \<Longrightarrow> tinib (ts k') = tinib (ts k) \<Longrightarrow> (\<And>u. u \<noteq> t \<Longrightarrow> task k' u = task k u) \<Longrightarrow> others t k k'"
  by (simp add: others_def)

lemma others_trans: "others t k k' \<Longrightarrow> others t k' k'' \<Longrightarrow> others t k k''"
  unfolding others_def by (metis same_tables_trans)

lemma others_refl [simp, intro]: "others t k k"
  by (simp add: others_def)

lemma others_ts [intro]:
  "others t k (map_ts (make_runnable u) k)" "others t k (map_ts (make_non_runnable u) k)"
  "others t k (map_ts (queue_insert_tpri h u) k)" "others t k (map_ts (queue_insert_last h u) k)"
  "others t k (map_ts (queue_delete_task u) k)" "others t k (map_tm f k)" "others t k (upd_task t g k)"
  by (auto simp: others_def upd_task_def)

lemmas others_after [intro] = others_trans [OF _ others_ts(1)] others_trans [OF _ others_ts(2)]
  others_trans [OF _ others_ts(3)] others_trans [OF _ others_ts(4)] others_trans [OF _ others_ts(5)]
  others_trans [OF _ others_ts(6)] others_trans [OF _ others_ts(7)]

lemma others_sel:
  assumes "others t k k'"
  shows "tmax_tskid k' = tmax_tskid k" "tinib (ts k') = tinib (ts k)" "u \<noteq> t \<Longrightarrow> task k' u = task k u"
    "cyc_on k' = cyc_on k" "alm_on k' = alm_on k" "exists_task k' = exists_task k"
  using assms same_tables_sel [of k k'] by (auto simp: others_def cyc_on_def alm_on_def exists_task_def)

lemma loc_others: "others t k k' \<Longrightarrow> (loc k')(t := x) = (loc k)(t := x)"
  by (rule ext) (simp add: loc_def others_sel)

lemma active_others: "others t k k' \<Longrightarrow> active k' - {TskTM t} = active k - {TskTM t}"
  by (auto simp: active_def timed_def others_sel)

lemma task_ok_others: "others t k k' \<Longrightarrow> u \<noteq> t \<Longrightarrow> task_ok k' u = task_ok k u"
  by (simp add: task_ok_def others_sel)

lemma prio_ok_others: "others t k k' \<Longrightarrow> u \<noteq> t \<Longrightarrow> prio_ok k' u = prio_ok k u"
  by (simp add: prio_ok_def others_sel)

lemma prio_ok_same: "others t k k' \<Longrightarrow> priority (task k' t) = priority (task k t) \<Longrightarrow>
  bpriority (task k' t) = bpriority (task k t) \<Longrightarrow> prio_ok k' u = prio_ok k u"
  by (cases "u = t") (simp_all add: prio_ok_def others_sel)

lemma same_tcb:
  assumes o: "others t k k'" and "tcb (ts k') = tcb (ts k)"
  shows "loc k' = loc k" "active k' = active k" "task_ok k' = task_ok k" "prio_ok k' = prio_ok k" "timed k' = timed k"
proof -
  show t: "timed k' = timed k" by (rule ext) (simp add: timed_def assms(2))
  show "loc k' = loc k" by (rule ext) (simp add: loc_def others_sel [OF o] assms(2))
  show "active k' = active k" by (simp add: active_def t others_sel [OF o])
  show "task_ok k' = task_ok k" by (rule ext) (simp add: task_ok_def others_sel [OF o] assms(2))
  show "prio_ok k' = prio_ok k" by (rule ext) (simp add: prio_ok_def others_sel [OF o] assms(2))
qed

lemma consistentD:
  assumes "consistent k"
  shows "core (loc k) (ts k)" "registered (tm k) (active k)" "task_ok k t" "prio_ok k t"
  using assms by (simp_all add: consistent_def)

lemma limbo_others:
  assumes "limbo t k" "others t k k'" "core ((loc k)(t := None)) (ts k')"
    "registered (tm k') (active k - {TskTM t})" "prio_ok k' t"
  shows "limbo t k'"
  unfolding limbo_def loc_others [OF assms(2)] active_others [OF assms(2)]
  using assms by (metis limbo_def others_sel(6) prio_ok_others task_ok_others)

lemma limbo_upd_task:
  assumes "limbo t k" "prio_ok (upd_task t f k) t"
  shows "limbo t (upd_task t f k)"
proof (rule limbo_others [OF assms(1)])
  show "core ((loc k)(t := None)) (ts (upd_task t f k))"
    using assms(1) by (auto simp: limbo_def upd_task_def intro!: core_upd_tcb)
  show "registered (tm (upd_task t f k)) (active k - {TskTM t})"
    using assms(1) by (simp add: limbo_def upd_task_def)
qed (use assms in auto)

text \<open>Leaving: out of a ready queue, out of a wait queue, out of the time event heap.\<close>

lemma limbo_runnable:
  assumes c: "consistent k" and r: "TSTAT_RUNNABLE (tstat (task k t))"
    and f: "priority (f (task k t)) = priority (task k t)" "bpriority (f (task k t)) = bpriority (task k t)"
  shows "limbo t (map_ts (make_non_runnable t) (upd_task t f k))"
proof -
  have v: "valid_tstat (tstat (task k t))" and e: "exists_task k t"
    using consistentD(3) [OF c, of t] r by (auto simp: task_ok_def)
  have nt: "TskTM t \<notin> active k" using v r by (auto simp: active_def timed_def valid_tstat_cases)
  have L: "loc k t = Some (ReadyQ (priority (tcb (upd_tcb t f (ts k)) t)))"
    using r e f by (simp add: loc_def exists_task_def)
  have "core (loc k) (upd_tcb t f (ts k))" by (rule core_upd_tcb [OF consistentD(1) [OF c]]) (rule f(1))
  then have "core ((loc k)(t := None)) (make_non_runnable t (upd_tcb t f (ts k)))"
    by (rule make_non_runnable_core) (rule L)
  moreover have o: "others t k (map_ts (make_non_runnable t) (upd_task t f k))"
    by (rule others_trans [where k' = "upd_task t f k"]) auto
  moreover have "active k - {TskTM t} = active k" using nt by auto
  ultimately show ?thesis
    using c e f loc_others [OF o] active_others [OF o] task_ok_others [OF o] others_sel(6) [OF o]
      prio_ok_same [OF o] by (simp add: limbo_def consistent_def upd_task_def map_tm_def map_ts_def)
qed

lemma limbo_plain:
  assumes "consistent k" "loc k t = None" "exists_task k t" "\<not> timed k t"
  shows "limbo t k"
proof -
  have "(loc k)(t := None) = loc k" using assms(2) by auto
  moreover have "active k - {TskTM t} = active k" using assms(4) by (auto simp: active_def)
  ultimately show ?thesis using assms by (simp add: limbo_def consistent_def)
qed

lemma limbo_detached:
  assumes "detached t k"
  shows "limbo t (wait_dequeue_tmevtb t k)"
proof -
  have ok: "task_ok k t" "TSTAT_WAITING (tstat (task k t))" and reg: "registered (tm k) (active k)"
    using assms by (auto simp: detached_def parked_def)
  have w: "w_u (p_winfo (task k t)) \<in> {P_tmevtb None, P_tmevtb (Some (TskTM t))}"
    using ok by (simp add: task_ok_def wait_ok_def)
  have "registered (tm (wait_dequeue_tmevtb t k)) (active k - {TskTM t})"
  proof (cases "w_u (p_winfo (task k t)) = P_tmevtb None")
    case True
    then have "TskTM t \<notin> active k" by (auto simp: active_def timed_def)
    then show ?thesis using True reg by (simp add: wait_dequeue_tmevtb_def)
  next
    case False
    then have u: "w_u (p_winfo (task k t)) = P_tmevtb (Some (TskTM t))" using w by simp
    then have "TskTM t \<in> active k" using ok by (auto simp: active_def timed_def)
    then show ?thesis using u registered_dequeue [OF reg] by (simp add: wait_dequeue_tmevtb_def)
  qed
  moreover have o: "others t k (wait_dequeue_tmevtb t k)"
    by (auto simp: wait_dequeue_tmevtb_def split: winfo_u.split option.split)
  moreover have "ts (wait_dequeue_tmevtb t k) = ts k"
    by (simp add: wait_dequeue_tmevtb_def split: winfo_u.split option.split)
  ultimately show ?thesis
    using assms loc_others [OF o] active_others [OF o] task_ok_others [OF o] others_sel(6) [OF o]
      prio_ok_same [OF o] by (simp add: limbo_def detached_def parked_def)
qed


text \<open>Entering: the state of \<open>t\<close> and its link are made to agree again.\<close>

lemma parked_limbo: "limbo t k \<Longrightarrow> \<not> timed k t \<Longrightarrow> parked t k"
proof -
  assume l: "limbo t k" and "\<not> timed k t"
  then have "active k - {TskTM t} = active k" by (auto simp: active_def)
  then show ?thesis using l by (simp add: limbo_def parked_def)
qed

lemma parked_consistent:
  assumes p: "parked t k" and o: "others t k k'" and "core ((loc k)(t := loc k' t)) (ts k')" and "tm k' = tm k"
    and "timed k' t = timed k t" and "task_ok k' t" and "prio_ok k' t"
  shows "consistent k'"
proof -
  have "loc k' = (loc k)(t := loc k' t)" using loc_others [OF o, of "loc k' t"] by (metis fun_upd_triv)
  moreover have "timed k' u = timed k u" for u
    using assms(5) by (cases "u = t") (simp_all add: timed_def others_sel(3) [OF o])
  then have "active k' = active k" by (simp add: active_def others_sel(4,5) [OF o])
  moreover have "task_ok k' u" for u using p task_ok_others [OF o, of u] assms(6) by (cases "u = t") (auto simp: parked_def)
  moreover have "prio_ok k' u" for u using p prio_ok_others [OF o, of u] assms(7) by (cases "u = t") (auto simp: parked_def)
  ultimately show ?thesis using assms(3,4) p by (simp add: consistent_def parked_def)
qed

lemma limbo_upd:
  assumes "limbo t k" "priority (f (task k t)) = priority (task k t)" "bpriority (f (task k t)) = bpriority (task k t)"
  shows "limbo t (upd_task t f k)"
  using assms by (intro limbo_upd_task) (auto simp: limbo_def prio_ok_def exists_task_def upd_task_def map_ts_def)

lemma upd_task_sel [simp]:
  "task (upd_task t f k) t = f (task k t)" "u \<noteq> t \<Longrightarrow> task (upd_task t f k) u = task k u" "tm (upd_task t f k) = tm k"
  "tinib (ts (upd_task t f k)) = tinib (ts k)" "p_runtsk (ts (upd_task t f k)) = p_runtsk (ts k)"
  "dspflg (ts (upd_task t f k)) = dspflg (ts k)" "p_schedtsk (ts (upd_task t f k)) = p_schedtsk (ts k)" "queues (ts (upd_task t f k)) = queues (ts k)"
  by (simp_all add: upd_task_def upd_tcb_def)

lemma limbo_idle:
  assumes l: "limbo t k" and st: "tstat (task k t) = TS_SUSPENDED \<or> tstat (task k t) = TS_DORMANT"
  shows "consistent k"
proof (rule parked_consistent [OF _ others_refl])
  have "\<not> timed k t" using st by (auto simp: timed_def)
  then show "parked t k" by (rule parked_limbo [OF l])
  have "loc k t = None" using l st by (auto simp: loc_def limbo_def exists_task_def)
  then show "core ((loc k)(t := loc k t)) (ts k)" using l by (simp add: limbo_def)
  show "task_ok k t" using l st by (auto simp: limbo_def task_ok_def wait_ok_def)
  show "prio_ok k t" using l by (simp add: limbo_def)
qed simp_all

lemma limbo_run:
  assumes l: "limbo t k" and st: "tstat (task k t) = TS_RUNNABLE"
  shows "consistent (map_ts (make_runnable t) k)"
proof (rule parked_consistent [OF _ others_ts(1)])
  have e: "exists_task k t" and p: "priority (task k t) < TNUM_TPRI" using l by (auto simp: limbo_def prio_ok_def)
  have "\<not> timed k t" using st by (simp add: timed_def)
  then show "parked t k" by (rule parked_limbo [OF l])
  have "core (((loc k)(t := None))(t := Some (ReadyQ (priority (task k t))))) (make_runnable t (ts k))"
    using l p by (intro make_runnable_core) (auto simp: limbo_def)
  moreover have "loc (map_ts (make_runnable t) k) t = Some (ReadyQ (priority (task k t)))"
    using e st by (simp add: loc_def exists_task_def map_ts_def)
  ultimately show "core ((loc k)(t := loc (map_ts (make_runnable t) k) t)) (ts (map_ts (make_runnable t) k))" by simp
  show "task_ok (map_ts (make_runnable t) k) t"
    using e st by (simp add: task_ok_def wait_ok_def exists_task_def map_ts_def)
  show "prio_ok (map_ts (make_runnable t) k) t"
    using l by (simp add: limbo_def prio_ok_def exists_task_def map_ts_def)
qed (simp_all add: timed_def)

lemma make_non_wait_consistent:
  assumes l: "limbo t k"
  shows "consistent (make_non_wait t k)"
proof -
  have m: "limbo t (set_tstat t st k)" for st unfolding set_tstat_def by (rule limbo_upd [OF l]) simp_all
  have "consistent (map_ts (make_runnable t) (set_tstat t TS_RUNNABLE k))"
    by (rule limbo_run [OF m]) (simp add: set_tstat_def)
  moreover have "consistent (set_tstat t TS_SUSPENDED k)"
    by (rule limbo_idle [OF m]) (simp add: set_tstat_def)
  ultimately show ?thesis by (simp add: make_non_wait_def)
qed

lemma set_wercd_limbo: "limbo t k \<Longrightarrow> limbo t (set_wercd t e k)"
  unfolding set_wercd_def upd_winfo_def by (rule limbo_upd) simp_all

text \<open>\<open>wake t e k\<close>: the common end of every way to leave a wait.\<close>

lemma wake_consistent:
  assumes "detached t k"
  shows "consistent (make_non_wait t (set_wercd t e (wait_dequeue_tmevtb t k)))"
  by (intro make_non_wait_consistent set_wercd_limbo limbo_detached assms)

lemma wait_complete_consistent: "detached t k \<Longrightarrow> consistent (wait_complete t k)"
  unfolding wait_complete_def by (rule wake_consistent)

lemma waiting_exists: "consistent k \<Longrightarrow> TSTAT_WAITING (tstat (task k t)) \<Longrightarrow> exists_task k t"
  using consistentD(3) [of k t] by (auto simp: task_ok_def)

text \<open>The two ways out of a wait queue: by name, or as the first in the queue.\<close>

lemma dequeue_detached:
  assumes c: "consistent k" and w: "TSTAT_WAITING (tstat (task k t))"
  shows "detached t (wait_dequeue_wobj t k)"
proof -
  have e: "exists_task k t" by (rule waiting_exists [OF c w])
  have v: "valid_tstat (tstat (task k t))" using consistentD(3) [OF c, of t] by (simp add: task_ok_def)
  have nr: "loc k t \<noteq> Some (ReadyQ p)" for p
    using e w v by (auto simp: loc_def exists_task_def valid_tstat_cases split: if_splits option.splits)
  have cd: "core ((loc k)(t := None)) (ts (wait_dequeue_wobj t k))"
  proof (cases "TSTAT_WAIT_WOBJ (tstat (task k t))")
    case True
    then show ?thesis using core_wait_delete [OF consistentD(1) [OF c] nr]
      by (simp add: wait_dequeue_wobj_def queue_delete_task_def)
  next
    case False
    then have "loc k t = None" using e w v by (auto simp: loc_def exists_task_def valid_tstat_cases)
    then have "(loc k)(t := None) = loc k" by auto
    then show ?thesis using False consistentD(1) [OF c] by (simp add: wait_dequeue_wobj_def)
  qed
  have o: "others t k (wait_dequeue_wobj t k)" by (auto simp: wait_dequeue_wobj_def)
  have tc: "tcb (ts (wait_dequeue_wobj t k)) = tcb (ts k)" "tm (wait_dequeue_wobj t k) = tm k"
    by (simp_all add: wait_dequeue_wobj_def)
  show ?thesis
    using c cd w e tc same_tcb [OF o tc(1)] others_sel(6) [OF o] by (simp add: detached_def parked_def consistent_def)
qed

lemma take_waiter_detached:
  assumes c: "consistent k" and q: "queue_of k w \<noteq> []" and t: "take_waiter w k = (t, k')"
  shows "detached t k'" "t = hd (queue_of k w)" "k' = map_ts (queue_delete_task t) k"
    "queue_of k' w = tl (queue_of k w)" "TSTAT_WAITING (tstat (task k t))" "p_wobjcb (p_winfo (task k t)) = Some w"
proof -
  obtain ts' where ts': "queue_of k w = t # ts'" "k' = map_ts (\<lambda>s. s\<lparr>queues := (queues s)(WaitQ w := ts')\<rparr>) k"
    using q t by (cases "queue_of k w") (auto simp: take_waiter_def lq_delete_next_def map_ts_def)
  then show t': "t = hd (queue_of k w)" and "queue_of k' w = tl (queue_of k w)" by simp_all
  have L: "loc k t = Some (WaitQ w)" using core_in_queue [OF consistentD(1) [OF c], of t "WaitQ w"] ts' by simp
  have v: "valid_tstat (tstat (task k t))" using consistentD(3) [OF c, of t] by (simp add: task_ok_def)
  have wo: "TSTAT_WAIT_WOBJ (tstat (task k t))" and "p_wobjcb (p_winfo (task k t)) = Some w"
    using L by (auto simp: loc_def split: if_splits)
  then show w: "TSTAT_WAITING (tstat (task k t))" "p_wobjcb (p_winfo (task k t)) = Some w"
    using valid_tstat_cases(3) [OF v wo] by simp_all
  show k': "k' = map_ts (queue_delete_task t) k"
    using queues_at_delete_next [OF coreD(1) [OF consistentD(1) [OF c]] ts'(1)] ts'(2)
    by (simp add: queue_delete_task_def map_ts_def)
  moreover have "wait_dequeue_wobj t k = map_ts (queue_delete_task t) k" using wo by (simp add: wait_dequeue_wobj_def)
  ultimately show "detached t k'" using dequeue_detached [OF c w(1)] by simp
qed

text \<open>Entering a wait.\<close>

definition running :: "nat \<Rightarrow> kernel \<Rightarrow> bool" where
  "running t k \<longleftrightarrow> p_runtsk (ts k) = Some t \<and> tstat (task k t) = TS_RUNNABLE"

lemma start_timer_parked:
  assumes l: "limbo t k" and "timed k t"
  shows "parked t (start_timer t cb time k)"
proof -
  have o: "others t k (start_timer t cb time k)" by (auto simp: start_timer_def)
  have k: "ts (start_timer t cb time k) = ts k" by (simp add: start_timer_def)
  have "registered (tm (start_timer t cb time k)) (insert (TskTM t) (active k - {TskTM t}))"
    using l unfolding start_timer_def map_sel by (intro registered_enqueue) (simp_all add: registered_callback limbo_def)
  moreover have "insert (TskTM t) (active k - {TskTM t}) = active k" using assms(2) by (auto simp: active_def)
  moreover have "active (start_timer t cb time k) = active k" by (simp add: active_def timed_def others_sel [OF o] k)
  ultimately show ?thesis
    using l loc_others [OF o] task_ok_others [OF o] prio_ok_same [OF o] others_sel(6) [OF o]
    by (simp add: parked_def limbo_def k)
qed


text \<open>
  \<open>waits t st u k k'\<close>: the running task \<open>t\<close> has become a waiting task of kind \<open>st\<close> with timeout
  pointer \<open>u\<close> and the waiting information \<open>wi\<close>; it is linked nowhere yet.
\<close>

definition waits :: "nat \<Rightarrow> tstat \<Rightarrow> tmevtb_ref winfo \<Rightarrow> kernel \<Rightarrow> kernel \<Rightarrow> bool" where
  "waits t st wi k k' \<longleftrightarrow> parked t k' \<and> others t k k' \<and> p_runtsk (ts k') = Some t \<and> dspflg (ts k') = dspflg (ts k) \<and>
     (\<forall>w. queue_of k' w = queue_of k w) \<and>
     (\<exists>u \<in> {P_tmevtb None, P_tmevtb (Some (TskTM t))}.
        task k' t = (task k t)\<lparr>tstat := st, p_winfo := wi\<lparr>w_u := u\<rparr>\<rparr>)"

lemma queue_of_non_runnable:
  assumes c: "consistent k" and r: "running t k"
  shows "queue_of (map_ts (make_non_runnable t) (upd_task t f k)) w = queue_of k w"
proof -
  have "loc k t = Some (ReadyQ (priority (task k t))) \<or> loc k t = None"
    using consistentD(3) [OF c, of t] r by (auto simp: loc_def running_def task_ok_def exists_task_def)
  moreover have "loc k t \<noteq> Some (WaitQ w)" using calculation by auto
  ultimately have "t \<notin> set (queue_of k w)" by (simp add: core_in_queue [OF consistentD(1) [OF c]])
  then show ?thesis
    by (auto simp: make_non_runnable_def Let_def lq_delete_def primap_clear_def upd_task_def upd_tcb_def)
qed

lemma go_waiting:
  assumes c: "consistent k" and r: "running t k" and st: "st \<in> set wait_codes"
    and u: "u = P_tmevtb None \<and> F = (\<lambda>k. k) \<or> u = P_tmevtb (Some (TskTM t)) \<and> F = start_timer t cb time"
  shows "waits t st wi k (F (upd_task t (\<lambda>b. b\<lparr>p_winfo := wi\<lparr>w_u := u\<rparr>\<rparr>) (map_ts (make_non_runnable t) (set_tstat t st k))))"
proof -
  define k2 where "k2 = map_ts (make_non_runnable t) (set_tstat t st k)"
  define k3 where "k3 = upd_task t (\<lambda>b. b\<lparr>p_winfo := wi\<lparr>w_u := u\<rparr>\<rparr>) k2"
  have l: "limbo t k2" unfolding k2_def set_tstat_def by (rule limbo_runnable [OF c]) (use r in \<open>simp_all add: running_def\<close>)
  have l3: "limbo t k3" unfolding k3_def by (rule limbo_upd [OF l]) simp_all
  have o3: "others t k k3"
    unfolding k3_def k2_def set_tstat_def by (intro others_after others_refl)
  have t3: "task k3 t = (task k t)\<lparr>tstat := st, p_winfo := wi\<lparr>w_u := u\<rparr>\<rparr>" by (simp add: k3_def k2_def set_tstat_def)
  have w: "TSTAT_WAITING (tstat (task k3 t))" by (simp add: t3 code_status [OF st])
  have p: "parked t (F k3)"
  proof (cases "u = P_tmevtb None")
    case True
    then show ?thesis using u parked_limbo [OF l3] by (auto simp: timed_def t3)
  next
    case False
    then show ?thesis using u start_timer_parked [OF l3] w by (auto simp: timed_def t3)
  qed
  have f: "ts (F k3) = ts k3" "others t k3 (F k3)" using u by (auto simp: start_timer_def)
  have "queue_of k3 w = queue_of k w" for w
    using queue_of_non_runnable [OF c r] by (simp add: k3_def k2_def set_tstat_def)
  then have "queue_of (F k3) w = queue_of k w" for w by (simp add: f)
  moreover have "p_runtsk (ts k3) = Some t" "dspflg (ts k3) = dspflg (ts k)"
    using r by (simp_all add: k3_def k2_def set_tstat_def running_def)
  ultimately show ?thesis
    using p others_trans [OF o3 f(2)] u t3 by (auto simp: waits_def f k3_def [symmetric] k2_def [symmetric])
qed

lemma make_wait_waits: "consistent k \<Longrightarrow> running t k \<Longrightarrow> st \<in> set wait_codes \<Longrightarrow> waits t st wi k (make_wait st wi k)"
  using go_waiting [where F = "\<lambda>k. k" and u = "P_tmevtb None"]
  by (simp add: make_wait_def Let_def runtsk_def running_def)

lemma make_wait_tmout_waits:
  assumes "consistent k" "running t k" "st \<in> set wait_codes"
  shows "waits t st wi k (make_wait_tmout st wi tmout k)"
proof -
  have "runtsk k = t" using assms(2) by (simp add: runtsk_def running_def)
  then show ?thesis
    using go_waiting [OF assms, where F = "\<lambda>k. k" and u = "P_tmevtb None"]
      go_waiting [OF assms, where F = "start_timer t Wait_tmout tmout" and u = "P_tmevtb (Some (TskTM t))"]
    by (simp add: make_wait_tmout_def Let_def)
qed

lemma waits_plain_consistent:
  assumes w: "waits t st wi k k'" and st: "st \<in> set wait_codes" "\<not> TSTAT_WAIT_WOBJ st"
  shows "consistent k'"
proof (rule parked_consistent [OF _ others_refl])
  obtain u where u: "u \<in> {P_tmevtb None, P_tmevtb (Some (TskTM t))}"
    and b: "task k' t = (task k t)\<lparr>tstat := st, p_winfo := wi\<lparr>w_u := u\<rparr>\<rparr>" using w by (auto simp: waits_def)
  show p: "parked t k'" using w by (simp add: waits_def)
  have "loc k' t = None" using p st b by (simp add: loc_def code_status parked_def exists_task_def)
  then show "core ((loc k')(t := loc k' t)) (ts k')" using p by (simp add: parked_def)
  show "task_ok k' t" using p st b u by (simp add: task_ok_def wait_ok_def code_status parked_def)
  show "prio_ok k' t" using p by (simp add: parked_def)
qed simp_all

text \<open>The link into the wait queue of the object: at the end, or by priority.\<close>

lemma enqueue_consistent:
  assumes ws: "waits t (wait_code w) wi k k'" and q: "set xs = insert t (set (queue_of k' w))" "distinct xs"
  shows "consistent (set_wobjcb t w (map_ts (\<lambda>s. s\<lparr>queues := (queues s)(WaitQ w := xs)\<rparr>) k'))" (is "consistent ?k")
proof (rule parked_consistent)
  obtain u where u: "u \<in> {P_tmevtb None, P_tmevtb (Some (TskTM t))}"
    and b: "task k' t = (task k t)\<lparr>tstat := wait_code w, p_winfo := wi\<lparr>w_u := u\<rparr>\<rparr>" using ws by (auto simp: waits_def)
  have st: "wait_code w \<in> set wait_codes" "TSTAT_WAIT_WOBJ (wait_code w)"
    by (cases w; simp add: wait_codes_def TSTAT_WAIT_WOBJ_def)+
  show p: "parked t k'" using ws by (simp add: waits_def)
  show o: "others t k' ?k" unfolding set_wobjcb_def upd_winfo_def
    by (rule others_after(7)) (simp add: others_def)
  have tb: "task ?k t = (task k' t)\<lparr>p_winfo := (p_winfo (task k' t))\<lparr>p_wobjcb := Some w\<rparr>\<rparr>"
    by (simp add: set_wobjcb_def upd_winfo_def)
  have e: "exists_task ?k t" using p others_sel(6) [OF o] by (simp add: parked_def)
  have L: "loc ?k t = Some (WaitQ w)" using e st by (simp add: loc_def exists_task_def tb b code_status)
  have "core (((loc k')(t := None))(t \<mapsto> WaitQ w)) ((ts k')\<lparr>queues := (queues (ts k'))(WaitQ w := xs)\<rparr>)"
    using p q by (intro core_wait_insert) (simp_all add: parked_def)
  then have "core ((loc k')(t \<mapsto> WaitQ w)) (upd_tcb t (\<lambda>b. b\<lparr>p_winfo := (p_winfo b)\<lparr>p_wobjcb := Some w\<rparr>\<rparr>)
      ((ts k')\<lparr>queues := (queues (ts k'))(WaitQ w := xs)\<rparr>))" by (intro core_upd_tcb) simp_all
  then show "core ((loc k')(t := loc ?k t)) (ts ?k)"
    unfolding L by (simp add: set_wobjcb_def upd_winfo_def upd_task_def)
  show "tm ?k = tm k'" by (simp add: set_wobjcb_def upd_winfo_def)
  show "timed ?k t = timed k' t" by (simp add: timed_def tb)
  have "wait_code w AND NOT TS_SUSPENDED = wait_code w" by (rule code_status(5) [OF st(1)])
  then show "task_ok ?k t" using e st u by (simp add: task_ok_def wait_ok_def tb b code_status)
  show "prio_ok ?k t" using p by (simp add: parked_def prio_ok_def tb others_sel [OF o])
qed

lemma waits_fresh:
  assumes "waits t st wi k k'" shows "t \<notin> set (queue_of k' w)" "distinct (queue_of k' w)" "runtsk k' = t"
proof -
  have c: "core ((loc k')(t := None)) (ts k')" using assms by (simp add: waits_def parked_def)
  show "t \<notin> set (queue_of k' w)" using core_in_queue [OF c, of t "WaitQ w"] by simp
  show "distinct (queue_of k' w)" by (rule core_distinct [OF c])
  show "runtsk k' = t" using assms by (simp add: waits_def runtsk_def)
qed

lemma enqueue_last_consistent:
  assumes "waits t (wait_code w) wi k k'"
  shows "consistent (set_wobjcb t w (map_ts (queue_insert_last (WaitQ w) t) k'))"
  using enqueue_consistent [OF assms, of "queue_of k' w @ [t]"] waits_fresh(1,2) [OF assms, where w = w]
  by (simp add: map_ts_def queue_insert_last_def lq_insert_prev_def)

lemma wobj_enqueue_consistent:
  assumes "waits t (wait_code w) wi k k'"
  shows "consistent (set_wobjcb t w (wobj_queue_insert w k'))"
proof -
  have "consistent (set_wobjcb t w (map_ts (queue_insert_tpri (WaitQ w) t) k'))"
    using enqueue_consistent [OF assms, of "lq_insert_before (\<lambda>u. priority (task k' t) < priority (task k' u)) t (queue_of k' w)"]
      waits_fresh(1,2) [OF assms, where w = w] by (simp add: map_ts_def queue_insert_tpri_def Let_def)
  then show ?thesis
    using enqueue_last_consistent [OF assms] waits_fresh(3) [OF assms] by (simp add: wobj_queue_insert_def)
qed


lemma wobj_make_wait_consistent:
  assumes "consistent k" "running t k"
  shows "consistent (wobj_make_wait w (wait_code w) wi k)"
proof -
  have st: "wait_code w \<in> set wait_codes" by (cases w; simp add: wait_codes_def)
  note ws = make_wait_waits [OF assms st, of wi]
  have "runtsk k = t" using assms(2) by (simp add: runtsk_def running_def)
  then show ?thesis using wobj_enqueue_consistent [OF ws] by (simp add: wobj_make_wait_def)
qed

lemma wobj_make_wait_tmout_consistent:
  assumes "consistent k" "running t k"
  shows "consistent (wobj_make_wait_tmout w (wait_code w) wi tmout k)"
proof -
  have st: "wait_code w \<in> set wait_codes" by (cases w; simp add: wait_codes_def)
  note ws = make_wait_tmout_waits [OF assms st, of wi tmout]
  have "runtsk k = t" using assms(2) by (simp add: runtsk_def running_def)
  then show ?thesis using wobj_enqueue_consistent [OF ws] by (simp add: wobj_make_wait_tmout_def)
qed

lemma rwait_make_wait_consistent:
  assumes "consistent k" "running t k"
  shows "consistent (rwait_make_wait w (wait_code w) k)" "consistent (rwait_make_wait_tmout w (wait_code w) tmout k)"
proof -
  have st: "wait_code w \<in> set wait_codes" by (cases w; simp add: wait_codes_def)
  note ws = make_wait_waits [OF assms st, of fresh_winfo] make_wait_tmout_waits [OF assms st, of fresh_winfo tmout]
  have "runtsk k = t" using assms(2) by (simp add: runtsk_def running_def)
  then show "consistent (rwait_make_wait w (wait_code w) k)" "consistent (rwait_make_wait_tmout w (wait_code w) tmout k)"
    using ws [THEN enqueue_last_consistent] by (simp_all add: rwait_make_wait_def rwait_make_wait_tmout_def)
qed

text \<open>Deleting or initialising an object wakes all its waiters.\<close>

lemma release_first_consistent:
  assumes c: "consistent k" and "queue_of k w \<noteq> []"
  shows "consistent (release_first w k)"
proof -
  obtain t k1 where "take_waiter w k = (t, k1)" by (cases "take_waiter w k")
  then show ?thesis using wake_consistent [OF take_waiter_detached(1) [OF assms]] by (simp add: release_first_def)
qed

lemma init_wait_queue_consistent: "consistent k \<Longrightarrow> consistent (init_wait_queue w k)"
proof (induction w k rule: init_wait_queue.induct)
  case (1 w k)
  then show ?case using release_first_consistent [OF "1.prems", of w]
    by (cases "queue_of k w = []") (simp_all add: init_wait_queue.simps [of w k])
qed

lemma init_wait_queue_empty: "queue_of (init_wait_queue w k) v = (if v = w then [] else queue_of k v)"
proof (induction w k rule: init_wait_queue.induct)
  case (1 w k)
  then show ?case
    by (cases "queue_of k w = []") (auto simp: init_wait_queue.simps [of w k] queue_of_release_first)
qed

text \<open>A change of priority moves a ready task between ready queues and a waiting task in its queue.\<close>

lemma tcb_change_priority_ready [simp]:
  "tcb (change_priority_ready t p q m s) = tcb s" "tinib (change_priority_ready t p q m s) = tinib s"
  "p_runtsk (change_priority_ready t p q m s) = p_runtsk s" "dspflg (change_priority_ready t p q m s) = dspflg s"
  by (auto simp: change_priority_ready_def Let_def primap_set_def primap_clear_def split: option.split)

lemma change_priority_consistent:
  assumes c: "consistent k" and p: "newpri < TNUM_TPRI"
  shows "consistent (change_priority t newpri m k)"
proof -
  let ?b = "task k t"
  define k1 where "k1 = upd_task t (\<lambda>b. b\<lparr>priority := newpri\<rparr>) k"
  have ok: "task_ok k t" "prio_ok k t" using consistentD [OF c] by auto
  then have v: "valid_tstat (tstat ?b)" by (simp add: task_ok_def)
  have b1: "task k1 t = ?b\<lparr>priority := newpri\<rparr>" by (simp add: k1_def)
  have o1: "others t k k1" unfolding k1_def by auto
  have fin: "consistent k'" if o: "others t k k'" and b: "task k' t = ?b\<lparr>priority := newpri\<rparr>" and "tm k' = tm k"
    and "core (loc k') (ts k')" for k'
  proof -
    have "timed k' u = timed k u" for u by (cases "u = t") (simp_all add: timed_def b others_sel(3) [OF o])
    then have "active k' = active k" by (simp add: active_def others_sel(4,5) [OF o])
    moreover have "task_ok k' u" for u using consistentD(3) [OF c, of u] task_ok_others [OF o, of u] ok
      by (cases "u = t") (auto simp: task_ok_def wait_ok_def b others_sel [OF o])
    moreover have "prio_ok k' u" for u using consistentD(4) [OF c, of u] prio_ok_others [OF o, of u] ok p
      by (cases "u = t") (auto simp: prio_ok_def b others_sel [OF o])
    ultimately show ?thesis using consistentD(2) [OF c] that by (simp add: consistent_def)
  qed
  have loc1: "loc k' = (loc k)(t := loc k' t)" if o: "others t k k'" for k'
    using loc_others [OF o, of "loc k' t"] by (metis fun_upd_triv)
  show ?thesis
  proof (cases "TSTAT_RUNNABLE (tstat ?b)")
    case True
    then have e: "exists_task k t" using ok by (auto simp: task_ok_def)
    define k2 where "k2 = map_ts (change_priority_ready t (priority ?b) newpri m) k1"
    have o2: "others t k k2" using o1 by (auto simp: k2_def others_def intro: same_tables_trans)
    have b2: "task k2 t = ?b\<lparr>priority := newpri\<rparr>" by (simp add: k2_def b1)
    have "core ((loc k)(t \<mapsto> ReadyQ newpri)) (ts k2)" unfolding k2_def map_sel
      by (rule change_priority_ready_core [OF consistentD(1) [OF c] _ p])
        (use True e in \<open>simp_all add: loc_def exists_task_def k1_def upd_task_def\<close>)
    moreover have "loc k2 t = Some (ReadyQ newpri)" using True e by (simp add: loc_def exists_task_def b2 others_sel [OF o2])
    ultimately have "core (loc k2) (ts k2)" using loc1 [OF o2] by simp
    then have "consistent k2" by (rule fin [OF o2 b2, rotated]) (simp add: k2_def k1_def)
    then show ?thesis using True by (simp add: change_priority_def Let_def k2_def k1_def)
  next
    case nr: False
    have "core (loc k) (ts k1)"
      unfolding k1_def upd_task_def map_sel
      by (rule core_upd_tcb [OF consistentD(1) [OF c]]) (use nr in \<open>auto simp: loc_def split: if_splits option.splits\<close>)
    moreover have "loc k1 t = loc k t" using nr by (simp add: loc_def b1 others_sel [OF o1])
    then have l1: "loc k1 = loc k" using loc1 [OF o1] by simp
    ultimately have c1: "consistent k1" by (intro fin [OF o1 b1]) (simp_all add: k1_def)
    show ?thesis
    proof (cases "\<exists>w. TSTAT_WAIT_WOBJCB (tstat ?b) \<and> p_wobjcb (p_winfo ?b) = Some w \<and> wobjatr k1 w AND TA_TPRI \<noteq> 0")
      case False
      then show ?thesis using c1 nr
        by (auto simp: change_priority_def Let_def k1_def [symmetric] b1 wobj_change_priority_def split: option.split)
    next
      case True
      then obtain w where w: "TSTAT_WAIT_WOBJCB (tstat ?b)" "p_wobjcb (p_winfo ?b) = Some w" "wobjatr k1 w AND TA_TPRI \<noteq> 0" by blast
      have wo: "TSTAT_WAIT_WOBJ (tstat ?b)" by (rule valid_tstat_cases(4) [OF v w(1)])
      then have wt: "TSTAT_WAITING (tstat ?b)" by (rule valid_tstat_cases(3) [OF v])
      have e: "exists_task k t" by (rule waiting_exists [OF c wt])
      have L: "loc k t = Some (WaitQ w)" using e w wo nr by (simp add: loc_def exists_task_def)
      define s1 where "s1 = queue_delete_task t (ts k1)"
      define k3 where "k3 = map_ts (queue_insert_tpri (WaitQ w) t) (map_ts (queue_delete_task t) k1)"
      have "core ((loc k)(t := None)) s1" unfolding s1_def queue_delete_task_def
        using consistentD(1) [OF c1] L l1 by (intro core_wait_delete) auto
      moreover from this have "t \<notin> set (queues s1 (WaitQ w))" "distinct (queues s1 (WaitQ w))"
        by (simp_all add: core_in_queue core_distinct)
      ultimately have "core (((loc k)(t := None))(t \<mapsto> WaitQ w)) (queue_insert_tpri (WaitQ w) t s1)"
        unfolding queue_insert_tpri_def Let_def by (intro core_wait_insert) simp_all
      then have "core (loc k) (ts k3)" using L by (simp add: k3_def s1_def fun_upd_idem)
      moreover have o3: "others t k k3" unfolding k3_def by (intro others_after o1)
      moreover have b3: "task k3 t = ?b\<lparr>priority := newpri\<rparr>" by (simp add: k3_def b1)
      moreover have "exists_task k3 t" using e others_sel(6) [OF o3] by simp
      then have "loc k3 t = loc k t" using L w wo nr by (simp add: loc_def [of k3] exists_task_def b3)
      then have "loc k3 = loc k" using loc1 [OF o3] by simp
      ultimately have "consistent k3" by (intro fin [OF o3 b3]) (simp_all add: k3_def k1_def)
      then show ?thesis using nr w
        by (simp add: change_priority_def Let_def k1_def [symmetric] b1 wobj_change_priority_def k3_def)
    qed
  qed
qed


section \<open>Settled states\<close>

text \<open>
  A kernel state between service calls. The running task is runnable; while dispatching is
  disabled nobody replaces it; and outside interrupt handling it is the task to run.
\<close>

definition settled :: "kernel \<Rightarrow> bool" where
  "settled k \<longleftrightarrow> consistent k \<and> (\<forall>t. p_runtsk (ts k) = Some t \<longrightarrow> running t k) \<and>
     (\<not> dspflg (ts k) \<longrightarrow> p_schedtsk (ts k) = p_runtsk (ts k) \<and> p_runtsk (ts k) \<noteq> None) \<and>
     (\<not> sense_context k \<longrightarrow> p_runtsk (ts k) = p_schedtsk (ts k))"

text \<open>
  In the middle of a service call \<open>p_schedtsk\<close> may differ from \<open>p_runtsk\<close>, and the running
  task may have stopped being runnable, but only while dispatching is enabled.
\<close>

definition midway :: "kernel \<Rightarrow> bool" where
  "midway k \<longleftrightarrow> consistent k \<and>
     (\<not> dspflg (ts k) \<longrightarrow> p_schedtsk (ts k) = p_runtsk (ts k) \<and> (\<exists>t. running t k)) \<and>
     (sense_context k \<longrightarrow> (\<forall>t. p_runtsk (ts k) = Some t \<longrightarrow> running t k))"

lemma sched_running:
  assumes c: "consistent k" and "dspflg (ts k)" "p_schedtsk (ts k) = Some t"
  shows "tstat (task k t) = TS_RUNNABLE" "exists_task k t"
proof -
  have L: "loc k t = Some (ReadyQ (priority (task k t)))"
    using is_top_Some_prio(1) [OF consistentD(1) [OF c], of t] coreD(4) [OF consistentD(1) [OF c] assms(2)] assms(3) by simp
  then have "TSTAT_RUNNABLE (tstat (task k t))" by (auto simp: loc_def split: if_splits option.splits)
  then show "tstat (task k t) = TS_RUNNABLE" "exists_task k t"
    using consistentD(3) [OF c, of t] by (auto simp: task_ok_def valid_tstat_cases)
qed

lemma consistent_cong:
  assumes "same_tables k k'" "core (loc k) (ts k') \<longleftrightarrow> core (loc k) (ts k)" "tcb (ts k') = tcb (ts k)"
    "tinib (ts k') = tinib (ts k)" "tm k' = tm k"
  shows "consistent k' \<longleftrightarrow> consistent k"
proof -
  have o: "others t k k'" for t using assms by (simp add: others_def)
  show ?thesis using same_tcb [OF o assms(3)] assms by (simp add: consistent_def)
qed

lemma core_run [simp]: "core L (s\<lparr>p_runtsk := r\<rparr>) \<longleftrightarrow> core L s"
proof -
  have "is_top (s\<lparr>p_runtsk := r\<rparr>) x \<longleftrightarrow> is_top s x" for x by (rule is_top_cong) simp
  then show ?thesis by (simp add: core_defs)
qed

lemma consistent_lock [simp]: "consistent (lock_cpu k) = consistent k" "consistent (unlock_cpu k) = consistent k"
  by (rule consistent_cong; simp)+

lemma sense_lock_sel [simp]:
  "sense_context (lock_cpu k) = sense_context k" "sense_context (unlock_cpu k) = sense_context k"
  by (simp_all add: sense_context_def lock_cpu_def unlock_cpu_def)

lemma settled_unlock [simp]: "settled (unlock_cpu k) = settled k"
  by (simp add: settled_def running_def)

lemma settled_lock: "settled (lock_cpu k) = settled k"
  by (simp add: settled_def running_def)

lemma midway_unlock [simp]: "midway (unlock_cpu k) = midway k"
  by (simp add: midway_def running_def)

lemma midway_lock: "midway (lock_cpu k) = midway k"
  by (simp add: midway_def running_def)

lemma settled_midway: "settled k \<Longrightarrow> midway k"
  by (auto simp: settled_def midway_def)

text \<open>The dispatcher makes a state in the middle of a service call stable.\<close>

lemma midway_sched_running: "midway k \<Longrightarrow> p_schedtsk (ts k) = Some t \<Longrightarrow> tstat (task k t) = TS_RUNNABLE"
  using sched_running [of k t] by (cases "dspflg (ts k)") (auto simp: midway_def running_def)

lemma dispatch_settled:
  assumes m: "midway k" shows "settled (dispatch k)"
proof -
  let ?k = "dispatch k"
  have c: "consistent ?k \<longleftrightarrow> consistent (map_ts (\<lambda>s. s\<lparr>p_runtsk := p_schedtsk s\<rparr>) k)" by (simp add: dispatch_def)
  have "consistent (map_ts (\<lambda>s. s\<lparr>p_runtsk := p_schedtsk s\<rparr>) k) \<longleftrightarrow> consistent k"
    by (rule consistent_cong) simp_all
  then have c: "consistent ?k" using c m by (simp add: midway_def)
  have s: "p_runtsk (ts ?k) = p_schedtsk (ts k)" "p_schedtsk (ts ?k) = p_schedtsk (ts k)"
    "dspflg (ts ?k) = dspflg (ts k)" "tcb (ts ?k) = tcb (ts k)" by (simp_all add: dispatch_def)
  show ?thesis using c m midway_sched_running [OF m] by (auto simp: settled_def s midway_def running_def)
qed

lemma dispatch_if_needed_settled:
  assumes m: "midway k" shows "settled (dispatch_if_needed k)"
proof (cases "need_dispatch k")
  case True
  then show ?thesis using dispatch_settled [OF m] by (simp add: dispatch_if_needed_def)
next
  case False
  then show ?thesis using m midway_sched_running [OF m]
    by (auto simp: dispatch_if_needed_def need_dispatch_def settled_def midway_def running_def)
qed

lemma dispatch_or_request_settled:
  assumes m: "midway k" shows "settled (dispatch_or_request k)"
proof (cases "sense_context k")
  case True
  then show ?thesis using m
    by (auto simp: dispatch_or_request_def request_dispatch_retint_def settled_def midway_def running_def)
next
  case False
  then show ?thesis using dispatch_if_needed_settled [OF m]
    by (simp add: dispatch_or_request_def dispatch_if_needed_def split: if_splits)
qed

text \<open>\<open>calm k k'\<close>: the step left the dispatcher's variables alone, up to the choice of \<open>p_schedtsk\<close>
  while dispatching is enabled.\<close>

definition calm :: "kernel \<Rightarrow> kernel \<Rightarrow> bool" where
  "calm k k' \<longleftrightarrow> p_runtsk (ts k') = p_runtsk (ts k) \<and> dspflg (ts k') = dspflg (ts k) \<and>
     sense_context k' = sense_context k \<and> (\<not> dspflg (ts k) \<longrightarrow> p_schedtsk (ts k') = p_schedtsk (ts k))"

lemma calm_refl [simp, intro]: "calm k k"
  by (simp add: calm_def)

lemma calm_trans: "calm k k' \<Longrightarrow> calm k' k'' \<Longrightarrow> calm k k''"
  by (simp add: calm_def)

lemma sched_frame [simp]:
  "\<not> dspflg s \<Longrightarrow> p_schedtsk (make_runnable t s) = p_schedtsk s"
  "\<not> dspflg s \<Longrightarrow> p_schedtsk (change_priority_ready t p q m s) = p_schedtsk s"
  "\<not> dspflg s \<Longrightarrow> p_schedtsk (rotate_ready_queue pri s) = p_schedtsk s"
  "p_schedtsk (queue_insert_tpri h t s) = p_schedtsk s" "p_schedtsk (queue_insert_last h t s) = p_schedtsk s"
  "p_schedtsk (queue_delete_task t s) = p_schedtsk s" "p_schedtsk (upd_tcb t f s) = p_schedtsk s"
  by (auto simp: make_runnable_def Let_def primap_set_def primap_clear_def upd_tcb_def change_priority_ready_def
      rotate_ready_queue_def queue_insert_tpri_def queue_insert_last_def queue_delete_task_def
      lq_delete_next_def split: option.splits)

lemma ctx_frame [simp]:
  "sense_context (map_ts f k) = sense_context k" "sense_context (map_tm g k) = sense_context k"
  "sense_context (upd_task t h k) = sense_context k"
  by (simp_all add: sense_context_def map_ts_def map_tm_def upd_task_def)

lemma calm_steps [intro]:
  "calm k k' \<Longrightarrow> calm k (map_ts (make_runnable t) k')" "calm k k' \<Longrightarrow> calm k (map_ts (change_priority_ready t p q m) k')"
  "calm k k' \<Longrightarrow> calm k (map_ts (queue_insert_tpri h t) k')" "calm k k' \<Longrightarrow> calm k (map_ts (queue_insert_last h t) k')"
  "calm k k' \<Longrightarrow> calm k (map_ts (queue_delete_task t) k')" "calm k k' \<Longrightarrow> calm k (upd_task t f k')"
  "calm k k' \<Longrightarrow> calm k (map_tm g k')" "calm k k' \<Longrightarrow> calm k (map_ts (rotate_ready_queue r) k')"
  by (simp_all add: calm_def)

lemma midway_others:
  assumes m: "midway k" and o: "others t k k'" and c: "calm k k'" "consistent k'"
    and "\<not> running t k \<or> tstat (task k' t) = TS_RUNNABLE"
  shows "midway k'"
proof -
  have "running u k'" if "running u k" for u
    using that assms(5) others_sel(3) [OF o, of u] c(1) by (cases "u = t") (auto simp: running_def calm_def)
  then show ?thesis using m c by (auto simp: midway_def calm_def)
qed

lemma calm_wake: "calm k k' \<Longrightarrow> calm k (make_non_wait t (set_wercd t e (wait_dequeue_tmevtb t k')))"
  by (auto simp: make_non_wait_def set_wercd_def upd_winfo_def set_tstat_def wait_dequeue_tmevtb_def
      split: winfo_u.split option.split)

lemma others_wake: "others t k k' \<Longrightarrow> others t k (make_non_wait t (set_wercd t e (wait_dequeue_tmevtb t k')))"
  by (auto simp: make_non_wait_def set_wercd_def upd_winfo_def set_tstat_def wait_dequeue_tmevtb_def
      split: winfo_u.split option.split)

text \<open>\<open>upd_winfo\<close> between the removal from the queue and the wake-up hands over data.\<close>

lemma detached_upd_winfo:
  assumes d: "detached t k" and "\<And>i. w_u (f i) = w_u i" "\<And>i. p_wobjcb (f i) = p_wobjcb i"
  shows "detached t (upd_winfo t f k)"
proof -
  have o: "others t k (upd_winfo t f k)" by (auto simp: upd_winfo_def)
  have b: "task (upd_winfo t f k) t = (task k t)\<lparr>p_winfo := f (p_winfo (task k t))\<rparr>" by (simp add: upd_winfo_def)
  have "timed (upd_winfo t f k) u = timed k u" for u
    using assms by (cases "u = t") (simp_all add: timed_def b others_sel(3) [OF o])
  then have "active (upd_winfo t f k) = active k" by (simp add: active_def others_sel(4,5) [OF o])
  moreover have "core ((loc k)(t := None)) (ts (upd_winfo t f k))"
    using d by (auto simp: detached_def parked_def upd_winfo_def upd_task_def intro!: core_upd_tcb)
  moreover have "task_ok (upd_winfo t f k) t"
    using d assms by (simp add: detached_def task_ok_def b wait_ok_def others_sel(6) [OF o])
  ultimately show ?thesis
    using d loc_others [OF o] task_ok_others [OF o] prio_ok_same [OF o] others_sel(6) [OF o]
    by (simp add: detached_def parked_def b) (simp add: upd_winfo_def)
qed

lemma take_complete_midway:
  assumes m: "midway k" and q: "queue_of k w \<noteq> []" and t: "take_waiter w k = (t, k1)"
    and f: "\<And>i. w_u (f i) = w_u i" "\<And>i. p_wobjcb (f i) = p_wobjcb i"
  shows "midway (make_non_wait t (set_wercd t e (wait_dequeue_tmevtb t (upd_winfo t f k1))))"
proof (rule midway_others [OF m])
  have c: "consistent k" using m by (simp add: midway_def)
  note tw = take_waiter_detached [OF c q t]
  show "consistent (make_non_wait t (set_wercd t e (wait_dequeue_tmevtb t (upd_winfo t f k1))))"
    by (rule wake_consistent [OF detached_upd_winfo [OF tw(1) f]])
  show "others t k (make_non_wait t (set_wercd t e (wait_dequeue_tmevtb t (upd_winfo t f k1))))"
    by (intro others_wake) (auto simp: upd_winfo_def tw(3))
  show "calm k (make_non_wait t (set_wercd t e (wait_dequeue_tmevtb t (upd_winfo t f k1))))"
    by (intro calm_wake) (auto simp: upd_winfo_def tw(3))
  show "\<not> running t k \<or> tstat (task (make_non_wait t (set_wercd t e (wait_dequeue_tmevtb t (upd_winfo t f k1)))) t) = TS_RUNNABLE"
    using tw(5) by (auto simp: running_def)
qed


section \<open>Rules for the service calls\<close>

text \<open>
  The collection \<open>pres\<close>: how each building block of a service call takes a settled state to a
  state in the middle of a call and back.
\<close>

lemma midwayD: "midway k \<Longrightarrow> consistent k"
  by (simp add: midway_def)

lemma settledD: "settled k \<Longrightarrow> consistent k"
  by (simp add: settled_def)

lemma settled_running: "settled k \<Longrightarrow> p_runtsk (ts k) = Some t \<Longrightarrow> running t k"
  by (simp add: settled_def)

lemma take_wait_complete_midway [pres]:
  assumes "midway k" "queue_of k w \<noteq> []"
  shows "midway (wait_complete (fst (take_waiter w k)) (snd (take_waiter w k)))"
  using take_complete_midway [OF assms prod.collapse [symmetric], where f = "\<lambda>i. i" and e = E_OK]
  by (simp add: wait_complete_def upd_winfo_def upd_task_def upd_tcb_def map_ts_def)

lemma take_give_complete_midway [pres]:
  assumes "midway k" "queue_of k w \<noteq> []" "\<And>i. w_u (f i) = w_u i" "\<And>i. p_wobjcb (f i) = p_wobjcb i"
  shows "midway (wait_complete (fst (take_waiter w k)) (upd_winfo (fst (take_waiter w k)) f (snd (take_waiter w k))))"
  using take_complete_midway [OF assms(1,2) prod.collapse [symmetric], of f, where e = E_OK] assms(3,4)
  by (simp add: wait_complete_def)

lemma release_first_midway:
  assumes m: "midway k" and "queue_of k w \<noteq> []" shows "midway (release_first w k)"
proof -
  obtain t k1 where "take_waiter w k = (t, k1)" by (cases "take_waiter w k")
  then show ?thesis using take_complete_midway [OF assms, of t k1 "\<lambda>i. i" E_DLT]
    by (simp add: release_first_def upd_winfo_def upd_task_def upd_tcb_def map_ts_def)
qed

lemma init_wait_queue_midway [pres]: "midway k \<Longrightarrow> midway (init_wait_queue w k)"
proof (induction w k rule: init_wait_queue.induct)
  case (1 w k)
  then show ?case using release_first_midway [OF "1.prems", of w]
    by (cases "queue_of k w = []") (simp_all add: init_wait_queue.simps [of w k])
qed

lemma release_waiting_midway:
  assumes m: "midway k" and w: "TSTAT_WAITING (tstat (task k t))"
  shows "midway (make_non_wait t (set_wercd t e (wait_dequeue_tmevtb t (wait_dequeue_wobj t k))))"
proof (rule midway_others [OF m])
  show "consistent (make_non_wait t (set_wercd t e (wait_dequeue_tmevtb t (wait_dequeue_wobj t k))))"
    using dequeue_detached [OF midwayD [OF m] w] by (rule wake_consistent)
  show "others t k (make_non_wait t (set_wercd t e (wait_dequeue_tmevtb t (wait_dequeue_wobj t k))))"
    by (intro others_wake) (auto simp: wait_dequeue_wobj_def)
  show "calm k (make_non_wait t (set_wercd t e (wait_dequeue_tmevtb t (wait_dequeue_wobj t k))))"
    by (intro calm_wake) (auto simp: wait_dequeue_wobj_def)
  show "\<not> running t k \<or> tstat (task (make_non_wait t (set_wercd t e (wait_dequeue_tmevtb t (wait_dequeue_wobj t k)))) t) = TS_RUNNABLE"
    using w by (auto simp: running_def)
qed

lemma change_priority_midway [pres]:
  assumes m: "midway k" and "newpri < TNUM_TPRI"
  shows "midway (change_priority t newpri mm k)"
proof (rule midway_others [OF m])
  show "consistent (change_priority t newpri mm k)" by (rule change_priority_consistent [OF midwayD [OF m] assms(2)])
  show "others t k (change_priority t newpri mm k)"
    by (auto simp: change_priority_def Let_def wobj_change_priority_def others_def upd_task_def
        intro: same_tables_trans split: option.split)
  show "calm k (change_priority t newpri mm k)"
    by (auto simp: change_priority_def Let_def wobj_change_priority_def split: option.split)
  show "\<not> running t k \<or> tstat (task (change_priority t newpri mm k) t) = TS_RUNNABLE"
    by (auto simp: change_priority_def Let_def wobj_change_priority_def running_def split: option.split)
qed

lemma upd_task_consistent:
  assumes c: "consistent k" and f: "tstat (f (task k t)) = tstat (task k t)" "priority (f (task k t)) = priority (task k t)"
    "exists_task k t \<Longrightarrow> bpriority (f (task k t)) < TNUM_TPRI" "p_winfo (f (task k t)) = p_winfo (task k t)"
  shows "consistent (upd_task t f k)"
proof -
  have o: "others t k (upd_task t f k)" by auto
  have "timed (upd_task t f k) u = timed k u" for u using f by (cases "u = t") (simp_all add: timed_def)
  then have "active (upd_task t f k) = active k" by (simp add: active_def others_sel(4,5) [OF o])
  moreover have "loc (upd_task t f k) u = loc k u" for u using f by (cases "u = t") (simp_all add: loc_def others_sel [OF o])
  then have "loc (upd_task t f k) = loc k" by (rule ext)
  moreover have "core (loc k) (ts (upd_task t f k))"
    unfolding upd_task_def map_sel using consistentD(1) [OF c] f by (intro core_upd_tcb) simp_all
  moreover have "task_ok (upd_task t f k) u" for u using consistentD(3) [OF c, of u] f
    by (cases "u = t") (simp_all add: task_ok_def wait_ok_def others_sel [OF o])
  moreover have "prio_ok (upd_task t f k) u" for u using consistentD(4) [OF c, of u] f
    by (cases "u = t") (simp_all add: prio_ok_def others_sel [OF o])
  ultimately show ?thesis using consistentD(2) [OF c] by (simp add: consistent_def)
qed

lemma upd_task_midway:
  assumes m: "midway k" and "\<And>b. tstat (f b) = tstat b" "\<And>b. priority (f b) = priority b"
    "\<And>b. bpriority (f b) = bpriority b" "\<And>b. p_winfo (f b) = p_winfo b"
  shows "midway (upd_task t f k)"
proof -
  have c: "consistent (upd_task t f k)"
    using assms consistentD(4) [OF midwayD [OF m], of t]
    by (intro upd_task_consistent midwayD) (simp_all add: prio_ok_def)
  show ?thesis by (rule midway_others [OF m _ _ c, of t]) (use assms in \<open>auto simp: running_def\<close>)
qed

text \<open>Changes of the object tables.\<close>

lemma consistent_tables:
  assumes "ts k' = ts k" "tm k' = tm k" "tmax_tskid k' = tmax_tskid k" "cyc_on k' = cyc_on k" "alm_on k' = alm_on k"
  shows "consistent k' \<longleftrightarrow> consistent k"
proof -
  have t: "timed k' = timed k" by (rule ext) (simp add: timed_def assms)
  have "loc k' = loc k" by (rule ext) (simp add: loc_def assms)
  moreover have "active k' = active k" by (simp add: active_def t assms)
  moreover have "task_ok k' = task_ok k" by (rule ext) (simp add: task_ok_def exists_task_def assms)
  moreover have "prio_ok k' = prio_ok k" by (rule ext) (simp add: prio_ok_def exists_task_def assms)
  ultimately show ?thesis by (simp add: consistent_def assms)
qed

lemma midway_tables:
  assumes "ts k' = ts k" "tm k' = tm k" "tmax_tskid k' = tmax_tskid k" "cyc_on k' = cyc_on k" "alm_on k' = alm_on k"
    "sense_context k' = sense_context k"
  shows "midway k' \<longleftrightarrow> midway k" "settled k' \<longleftrightarrow> settled k"
  using consistent_tables [OF assms(1-5)] by (simp_all add: midway_def settled_def running_def assms)

text \<open>No change of an object table matters to the tasks and timers.\<close>

lemma tables_frame:
  fixes k :: kernel
  assumes "ts k' = ts k" "tm k' = tm k" "tmax_tskid k' = tmax_tskid k" "tmax_cycid k' = tmax_cycid k"
    "cycinib k' = cycinib k" "cyccb k' = cyccb k" "tmax_almid k' = tmax_almid k" "alminib k' = alminib k"
    "almcb k' = almcb k" "excpt_ctx k' = excpt_ctx k"
  shows "consistent k' = consistent k" "midway k' = midway k" "settled k' = settled k"
proof -
  have "cyc_on k' = cyc_on k" "alm_on k' = alm_on k" by (rule ext; simp add: cyc_on_def alm_on_def assms)+
  then show "consistent k' = consistent k" "midway k' = midway k" "settled k' = settled k"
    using assms consistent_tables [of k' k] midway_tables [of k' k] by (simp_all add: sense_context_def)
qed

lemma midway_table [simp]:
  "midway (k\<lparr>seminib := x0\<rparr>) = midway k"
  "midway (k\<lparr>semcb := x1\<rparr>) = midway k"
  "midway (k\<lparr>free_semcb := x2\<rparr>) = midway k"
  "midway (k\<lparr>flginib := x3\<rparr>) = midway k"
  "midway (k\<lparr>flgcb := x4\<rparr>) = midway k"
  "midway (k\<lparr>free_flgcb := x5\<rparr>) = midway k"
  "midway (k\<lparr>dtqinib := x6\<rparr>) = midway k"
  "midway (k\<lparr>dtqcb := x7\<rparr>) = midway k"
  "midway (k\<lparr>free_dtqcb := x8\<rparr>) = midway k"
  "midway (k\<lparr>pdqinib := x9\<rparr>) = midway k"
  "midway (k\<lparr>pdqcb := x10\<rparr>) = midway k"
  "midway (k\<lparr>free_pdqcb := x11\<rparr>) = midway k"
  "midway (k\<lparr>mtxinib := x12\<rparr>) = midway k"
  "midway (k\<lparr>mtxcb := x13\<rparr>) = midway k"
  "midway (k\<lparr>free_mtxcb := x14\<rparr>) = midway k"
  "midway (k\<lparr>mpfinib := x15\<rparr>) = midway k"
  "midway (k\<lparr>mpfcb := x16\<rparr>) = midway k"
  "midway (k\<lparr>free_mpfcb := x17\<rparr>) = midway k"
  "midway (k\<lparr>free_cyccb := x18\<rparr>) = midway k"
  "midway (k\<lparr>free_almcb := x19\<rparr>) = midway k"
  "midway (k\<lparr>mpk_in := x20\<rparr>) = midway k"
  "midway (k\<lparr>mpk_n := x21\<rparr>) = midway k"
  "midway (k\<lparr>mpk_live := x22\<rparr>) = midway k"
  "midway (k\<lparr>ipm := x23\<rparr>) = midway k"
  by (rule tables_frame; simp)+

lemma settled_table [simp]:
  "settled (k\<lparr>seminib := x0\<rparr>) = settled k"
  "settled (k\<lparr>semcb := x1\<rparr>) = settled k"
  "settled (k\<lparr>free_semcb := x2\<rparr>) = settled k"
  "settled (k\<lparr>flginib := x3\<rparr>) = settled k"
  "settled (k\<lparr>flgcb := x4\<rparr>) = settled k"
  "settled (k\<lparr>free_flgcb := x5\<rparr>) = settled k"
  "settled (k\<lparr>dtqinib := x6\<rparr>) = settled k"
  "settled (k\<lparr>dtqcb := x7\<rparr>) = settled k"
  "settled (k\<lparr>free_dtqcb := x8\<rparr>) = settled k"
  "settled (k\<lparr>pdqinib := x9\<rparr>) = settled k"
  "settled (k\<lparr>pdqcb := x10\<rparr>) = settled k"
  "settled (k\<lparr>free_pdqcb := x11\<rparr>) = settled k"
  "settled (k\<lparr>mtxinib := x12\<rparr>) = settled k"
  "settled (k\<lparr>mtxcb := x13\<rparr>) = settled k"
  "settled (k\<lparr>free_mtxcb := x14\<rparr>) = settled k"
  "settled (k\<lparr>mpfinib := x15\<rparr>) = settled k"
  "settled (k\<lparr>mpfcb := x16\<rparr>) = settled k"
  "settled (k\<lparr>free_mpfcb := x17\<rparr>) = settled k"
  "settled (k\<lparr>free_cyccb := x18\<rparr>) = settled k"
  "settled (k\<lparr>free_almcb := x19\<rparr>) = settled k"
  "settled (k\<lparr>mpk_in := x20\<rparr>) = settled k"
  "settled (k\<lparr>mpk_n := x21\<rparr>) = settled k"
  "settled (k\<lparr>mpk_live := x22\<rparr>) = settled k"
  "settled (k\<lparr>ipm := x23\<rparr>) = settled k"
  by (rule tables_frame; simp)+

text \<open>The calls that make the running task wait.\<close>

definition in_task :: "kernel \<Rightarrow> bool" where
  "in_task k \<longleftrightarrow> settled k \<and> \<not> sense_context k \<and> p_runtsk (ts k) \<noteq> None"

lemma in_task_table [simp]:
  "in_task (k\<lparr>seminib := x0\<rparr>) = in_task k"
  "in_task (k\<lparr>semcb := x1\<rparr>) = in_task k"
  "in_task (k\<lparr>free_semcb := x2\<rparr>) = in_task k"
  "in_task (k\<lparr>flginib := x3\<rparr>) = in_task k"
  "in_task (k\<lparr>flgcb := x4\<rparr>) = in_task k"
  "in_task (k\<lparr>free_flgcb := x5\<rparr>) = in_task k"
  "in_task (k\<lparr>dtqinib := x6\<rparr>) = in_task k"
  "in_task (k\<lparr>dtqcb := x7\<rparr>) = in_task k"
  "in_task (k\<lparr>free_dtqcb := x8\<rparr>) = in_task k"
  "in_task (k\<lparr>pdqinib := x9\<rparr>) = in_task k"
  "in_task (k\<lparr>pdqcb := x10\<rparr>) = in_task k"
  "in_task (k\<lparr>free_pdqcb := x11\<rparr>) = in_task k"
  "in_task (k\<lparr>mtxinib := x12\<rparr>) = in_task k"
  "in_task (k\<lparr>mtxcb := x13\<rparr>) = in_task k"
  "in_task (k\<lparr>free_mtxcb := x14\<rparr>) = in_task k"
  "in_task (k\<lparr>mpfinib := x15\<rparr>) = in_task k"
  "in_task (k\<lparr>mpfcb := x16\<rparr>) = in_task k"
  "in_task (k\<lparr>free_mpfcb := x17\<rparr>) = in_task k"
  "in_task (k\<lparr>free_cyccb := x18\<rparr>) = in_task k"
  "in_task (k\<lparr>free_almcb := x19\<rparr>) = in_task k"
  "in_task (k\<lparr>mpk_in := x20\<rparr>) = in_task k"
  "in_task (k\<lparr>mpk_n := x21\<rparr>) = in_task k"
  "in_task (k\<lparr>mpk_live := x22\<rparr>) = in_task k"
  "in_task (k\<lparr>ipm := x23\<rparr>) = in_task k"
  by (simp_all add: in_task_def sense_context_def)

lemma in_task_settled: "in_task k \<Longrightarrow> settled k"
  by (simp add: in_task_def)

lemma in_task_lock: "in_task (lock_cpu k) = in_task k"
  by (simp add: in_task_def settled_lock)

text \<open>Entering a service call.\<close>

lemma lock_entry: "settled k \<Longrightarrow> settled (lock_cpu k) \<and> midway (lock_cpu k)"
  by (simp add: settled_lock midway_lock settled_midway)

lemma lock_entry_task: "in_task k \<Longrightarrow> settled k \<and> settled (lock_cpu k) \<and> midway (lock_cpu k) \<and> in_task (lock_cpu k)"
  by (simp add: settled_lock midway_lock settled_midway in_task_lock in_task_settled)

lemma in_task_running: "in_task k \<Longrightarrow> running (runtsk k) k \<and> p_runtsk (ts k) = Some (runtsk k)"
proof -
  assume i: "in_task k"
  then obtain t where t: "p_runtsk (ts k) = Some t" by (auto simp: in_task_def)
  then show ?thesis using settled_running [OF in_task_settled [OF i] t] by (simp add: runtsk_def)
qed

lemma waits_frame: "waits t st wi k k' \<Longrightarrow> sense_context k' = sense_context k"
  by (simp add: waits_def others_def sense_context_def same_tables_sel)

lemma set_wobjcb_frame [simp]:
  "dspflg (ts (set_wobjcb t w k)) = dspflg (ts k)" "sense_context (set_wobjcb t w k) = sense_context k"
  "dspflg (ts (wobj_queue_insert w k)) = dspflg (ts k)" "sense_context (wobj_queue_insert w k) = sense_context k"
  by (simp_all add: set_wobjcb_def upd_winfo_def wobj_queue_insert_def)

lemma make_wait_frame [simp]:
  "dspflg (ts (make_wait st wi k)) = dspflg (ts k)" "sense_context (make_wait st wi k) = sense_context k"
  "dspflg (ts (make_wait_tmout st wi tmout k)) = dspflg (ts k)"
  "sense_context (make_wait_tmout st wi tmout k) = sense_context k"
  by (simp_all add: make_wait_def make_wait_tmout_def Let_def set_tstat_def start_timer_def)

lemma wait_midway [pres]:
  assumes i: "in_task k" and d: "dspflg (ts k)"
  shows "wait_code w = st \<Longrightarrow> midway (wobj_make_wait w st wi k)"
    "wait_code w = st \<Longrightarrow> midway (wobj_make_wait_tmout w st wi tmout k)"
    "wait_code w = st \<Longrightarrow> midway (rwait_make_wait w st k)"
    "wait_code w = st \<Longrightarrow> midway (rwait_make_wait_tmout w st tmout k)"
    "st = TS_WAITING_SLP \<or> st = TS_WAITING_DLY \<Longrightarrow> midway (make_wait st wi k)"
    "st = TS_WAITING_SLP \<or> st = TS_WAITING_DLY \<Longrightarrow> midway (make_wait_tmout st wi tmout k)"
proof -
  have c: "consistent k" and r: "running (runtsk k) k" and nc: "\<not> sense_context k"
    using i in_task_running [OF i] by (auto simp: in_task_def settled_def)
  note w = wobj_make_wait_consistent [OF c r] wobj_make_wait_tmout_consistent [OF c r] rwait_make_wait_consistent [OF c r]
  show "wait_code w = st \<Longrightarrow> midway (wobj_make_wait w st wi k)"
    "wait_code w = st \<Longrightarrow> midway (wobj_make_wait_tmout w st wi tmout k)"
    "wait_code w = st \<Longrightarrow> midway (rwait_make_wait w st k)"
    "wait_code w = st \<Longrightarrow> midway (rwait_make_wait_tmout w st tmout k)"
    using w d nc
    by (auto simp: midway_def wobj_make_wait_def wobj_make_wait_tmout_def rwait_make_wait_def rwait_make_wait_tmout_def)
  assume "st = TS_WAITING_SLP \<or> st = TS_WAITING_DLY"
  then have st: "st \<in> set wait_codes" "\<not> TSTAT_WAIT_WOBJ st" by (auto simp: wait_codes_def TSTAT_WAIT_WOBJ_def)
  show "midway (make_wait st wi k)" "midway (make_wait_tmout st wi tmout k)"
    using waits_plain_consistent [OF make_wait_waits [OF c r st(1)] st]
      waits_plain_consistent [OF make_wait_tmout_waits [OF c r st(1)] st] d nc by (simp_all add: midway_def)
qed

lemma leave_settled [simp]: "settled (snd (leave e k)) = settled k" "settled (snd (leave_uint n k)) = settled k"
  by (simp_all add: leave_def leave_uint_def)

lemma block_settled [pres]: "midway k \<Longrightarrow> settled (snd (block k))"
  by (simp add: block_def dispatch_settled)


lemma same_tables_upd [intro]:
  assumes "same_tables k k'"
  shows "same_tables k (upd_task t h k')" "same_tables k (set_tstat t st k')" "same_tables k (set_wercd t e k')"
    "same_tables k (upd_winfo t f k')"
  using same_tables_trans [OF assms same_tables_map_ts]
  by (simp_all add: upd_task_def set_tstat_def set_wercd_def upd_winfo_def)

lemma same_tables_wake [intro]:
  assumes "same_tables k k'"
  shows "same_tables k (wait_dequeue_tmevtb t k')" "same_tables k (wait_dequeue_wobj t k')"
    "same_tables k (make_non_wait t k')" "same_tables k (snd (take_waiter w k'))"
  using assms by (auto simp: wait_dequeue_tmevtb_def wait_dequeue_wobj_def make_non_wait_def take_waiter_def
      lq_delete_next_def split: winfo_u.split option.split)

lemma same_tables_complete [intro]: "same_tables k k' \<Longrightarrow> same_tables k (wait_complete t k')"
  unfolding wait_complete_def by (intro same_tables_wake same_tables_upd)

lemma init_wait_queue_tables: "same_tables k (init_wait_queue w k)"
proof (induction w k rule: init_wait_queue.induct)
  case (1 w k)
  have "same_tables k (release_first w k)"
    unfolding release_first_def case_prod_unfold Let_def
    by (intro same_tables_wake same_tables_upd same_tables_refl)
  then show ?case using 1
    by (cases "queue_of k w = []") (auto simp: init_wait_queue.simps [of w k] intro: same_tables_trans)
qed

section \<open>Which objects an operation touches\<close>

text \<open>
  \<open>keeps K k k'\<close>: the tables of kind \<open>K\<close> are unchanged, and the wait queues of that kind have
  lost some waiters at most. Every service call keeps the kinds other than its own.
\<close>

datatype kind = KSem | KFlg | KDtq | KPdq | KMtx | KMpf | KCyc | KAlm

primrec kind_of :: "wobj \<Rightarrow> kind" where
  "kind_of (SemW i) = KSem"
| "kind_of (FlgW i) = KFlg"
| "kind_of (SDtqW i) = KDtq"
| "kind_of (RDtqW i) = KDtq"
| "kind_of (SPdqW i) = KPdq"
| "kind_of (RPdqW i) = KPdq"
| "kind_of (MtxW i) = KMtx"
| "kind_of (MpfW i) = KMpf"

definition same_objects :: "kind \<Rightarrow> kernel \<Rightarrow> kernel \<Rightarrow> bool" where
  "same_objects K k k' \<longleftrightarrow> (case K of
      KSem \<Rightarrow> tmax_semid k' = tmax_semid k \<and> tmax_ssemid k' = tmax_ssemid k \<and> seminib k' = seminib k \<and> semcb k' = semcb k \<and> free_semcb k' = free_semcb k
    | KFlg \<Rightarrow> tmax_flgid k' = tmax_flgid k \<and> tmax_sflgid k' = tmax_sflgid k \<and> flginib k' = flginib k \<and> flgcb k' = flgcb k \<and> free_flgcb k' = free_flgcb k
    | KDtq \<Rightarrow> tmax_dtqid k' = tmax_dtqid k \<and> tmax_sdtqid k' = tmax_sdtqid k \<and> dtqinib k' = dtqinib k \<and> dtqcb k' = dtqcb k \<and> free_dtqcb k' = free_dtqcb k
    | KPdq \<Rightarrow> tmax_pdqid k' = tmax_pdqid k \<and> tmax_spdqid k' = tmax_spdqid k \<and> pdqinib k' = pdqinib k \<and> pdqcb k' = pdqcb k \<and> free_pdqcb k' = free_pdqcb k
    | KMtx \<Rightarrow> tmax_mtxid k' = tmax_mtxid k \<and> tmax_smtxid k' = tmax_smtxid k \<and> mtxinib k' = mtxinib k \<and> mtxcb k' = mtxcb k \<and> free_mtxcb k' = free_mtxcb k
    | KMpf \<Rightarrow> tmax_mpfid k' = tmax_mpfid k \<and> tmax_smpfid k' = tmax_smpfid k \<and> mpfinib k' = mpfinib k \<and> mpfcb k' = mpfcb k \<and> free_mpfcb k' = free_mpfcb k
    | KCyc \<Rightarrow> tmax_cycid k' = tmax_cycid k \<and> tmax_scycid k' = tmax_scycid k \<and> cycinib k' = cycinib k \<and> cyccb k' = cyccb k \<and> free_cyccb k' = free_cyccb k
    | KAlm \<Rightarrow> tmax_almid k' = tmax_almid k \<and> tmax_salmid k' = tmax_salmid k \<and> alminib k' = alminib k \<and> almcb k' = almcb k \<and> free_almcb k' = free_almcb k)"

definition keeps :: "kind \<Rightarrow> kernel \<Rightarrow> kernel \<Rightarrow> bool" where
  "keeps K k k' \<longleftrightarrow> same_objects K k k' \<and>
     (\<forall>w. kind_of w = K \<longrightarrow> set (queue_of k' w) \<subseteq> set (queue_of k w))"

lemma same_objects_refl [simp]: "same_objects K k k"
  by (simp add: same_objects_def split: kind.split)

lemma keeps_refl [simp, intro]: "keeps K k k"
  by (simp add: keeps_def)

lemma same_objects_trans: "same_objects K k k' \<Longrightarrow> same_objects K k' k'' \<Longrightarrow> same_objects K k k''"
  by (simp add: same_objects_def split: kind.splits)

lemma keeps_trans: "keeps K k k' \<Longrightarrow> keeps K k' k'' \<Longrightarrow> keeps K k k''"
  unfolding keeps_def by (blast intro: same_objects_trans)

lemma same_tables_objects:
  assumes "same_tables k k'" shows "same_objects K k k'"
proof -
  obtain s m l where "k' = k\<lparr>ts := s, tm := m, cpulock := l\<rparr>" using assms by (auto simp: same_tables_def)
  then show ?thesis by (simp add: same_objects_def split: kind.split)
qed

lemma keeps_step:
  assumes "keeps K k k'" "same_tables k' k''" "\<And>w. kind_of w = K \<Longrightarrow> set (queue_of k'' w) \<subseteq> set (queue_of k' w)"
  shows "keeps K k k''"
proof -
  have "keeps K k' k''" using assms(2,3) unfolding keeps_def by (simp add: same_tables_objects)
  then show ?thesis by (rule keeps_trans [OF assms(1)])
qed

lemma keeps_table [simp]:
  "K \<noteq> KSem \<Longrightarrow> keeps K k (k'\<lparr>seminib := xKSem0\<rparr>) = keeps K k k'"
  "K \<noteq> KSem \<Longrightarrow> keeps K k (k'\<lparr>semcb := xKSem1\<rparr>) = keeps K k k'"
  "K \<noteq> KSem \<Longrightarrow> keeps K k (k'\<lparr>free_semcb := xKSem2\<rparr>) = keeps K k k'"
  "K \<noteq> KFlg \<Longrightarrow> keeps K k (k'\<lparr>flginib := xKFlg0\<rparr>) = keeps K k k'"
  "K \<noteq> KFlg \<Longrightarrow> keeps K k (k'\<lparr>flgcb := xKFlg1\<rparr>) = keeps K k k'"
  "K \<noteq> KFlg \<Longrightarrow> keeps K k (k'\<lparr>free_flgcb := xKFlg2\<rparr>) = keeps K k k'"
  "K \<noteq> KDtq \<Longrightarrow> keeps K k (k'\<lparr>dtqinib := xKDtq0\<rparr>) = keeps K k k'"
  "K \<noteq> KDtq \<Longrightarrow> keeps K k (k'\<lparr>dtqcb := xKDtq1\<rparr>) = keeps K k k'"
  "K \<noteq> KDtq \<Longrightarrow> keeps K k (k'\<lparr>free_dtqcb := xKDtq2\<rparr>) = keeps K k k'"
  "K \<noteq> KPdq \<Longrightarrow> keeps K k (k'\<lparr>pdqinib := xKPdq0\<rparr>) = keeps K k k'"
  "K \<noteq> KPdq \<Longrightarrow> keeps K k (k'\<lparr>pdqcb := xKPdq1\<rparr>) = keeps K k k'"
  "K \<noteq> KPdq \<Longrightarrow> keeps K k (k'\<lparr>free_pdqcb := xKPdq2\<rparr>) = keeps K k k'"
  "K \<noteq> KMtx \<Longrightarrow> keeps K k (k'\<lparr>mtxinib := xKMtx0\<rparr>) = keeps K k k'"
  "K \<noteq> KMtx \<Longrightarrow> keeps K k (k'\<lparr>mtxcb := xKMtx1\<rparr>) = keeps K k k'"
  "K \<noteq> KMtx \<Longrightarrow> keeps K k (k'\<lparr>free_mtxcb := xKMtx2\<rparr>) = keeps K k k'"
  "K \<noteq> KMpf \<Longrightarrow> keeps K k (k'\<lparr>mpfinib := xKMpf0\<rparr>) = keeps K k k'"
  "K \<noteq> KMpf \<Longrightarrow> keeps K k (k'\<lparr>mpfcb := xKMpf1\<rparr>) = keeps K k k'"
  "K \<noteq> KMpf \<Longrightarrow> keeps K k (k'\<lparr>free_mpfcb := xKMpf2\<rparr>) = keeps K k k'"
  "K \<noteq> KCyc \<Longrightarrow> keeps K k (k'\<lparr>cycinib := xKCyc0\<rparr>) = keeps K k k'"
  "K \<noteq> KCyc \<Longrightarrow> keeps K k (k'\<lparr>cyccb := xKCyc1\<rparr>) = keeps K k k'"
  "K \<noteq> KCyc \<Longrightarrow> keeps K k (k'\<lparr>free_cyccb := xKCyc2\<rparr>) = keeps K k k'"
  "K \<noteq> KAlm \<Longrightarrow> keeps K k (k'\<lparr>alminib := xKAlm0\<rparr>) = keeps K k k'"
  "K \<noteq> KAlm \<Longrightarrow> keeps K k (k'\<lparr>almcb := xKAlm1\<rparr>) = keeps K k k'"
  "K \<noteq> KAlm \<Longrightarrow> keeps K k (k'\<lparr>free_almcb := xKAlm2\<rparr>) = keeps K k k'"
  by (simp_all add: keeps_def same_objects_def split: kind.splits)

lemma keeps_misc [simp]:
  "keeps K k (k'\<lparr>mpk_in := a\<rparr>) = keeps K k k'" "keeps K k (k'\<lparr>mpk_n := b\<rparr>) = keeps K k k'"
  "keeps K k (k'\<lparr>mpk_live := c\<rparr>) = keeps K k k'" "keeps K k (k'\<lparr>ipm := d\<rparr>) = keeps K k k'"
  "keeps K k (lock_cpu k') = keeps K k k'" "keeps K k (unlock_cpu k') = keeps K k k'"
  "keeps K k (map_tm g k') = keeps K k k'" "keeps K k (upd_task t f k') = keeps K k k'"
  by (simp_all add: keeps_def same_objects_def lock_cpu_def unlock_cpu_def map_tm_def upd_task_def map_ts_def upd_tcb_def
      split: kind.split)

lemma queue_of_ready_steps [simp]:
  "queues (make_runnable t s) (WaitQ w) = queues s (WaitQ w)"
  "queues (set_dspflg s) (WaitQ w) = queues s (WaitQ w)"
  "queues (rotate_ready_queue p s) (WaitQ w) = queues s (WaitQ w)"
  by (auto simp: make_runnable_def set_dspflg_def rotate_ready_queue_def Let_def primap_set_def lq_insert_prev_def
      lq_delete_next_def split: option.splits)

lemma queue_of_delete_steps:
  "set (queues (make_non_runnable t s) (WaitQ w)) \<subseteq> set (queues s (WaitQ w))"
  "set (queues (queue_delete_task t s) (WaitQ w)) \<subseteq> set (queues s (WaitQ w))"
  "set (queues (change_priority_ready t p q m s) (WaitQ w)) \<subseteq> set (queues s (WaitQ w))"
  by (auto simp: make_non_runnable_def change_priority_ready_def queue_delete_task_def Let_def primap_set_def primap_clear_def
      lq_delete_def lq_insert_prev_def lq_insert_next_def split: option.splits dest: set_remove1_subset [THEN subsetD])

lemma keeps_tasks [intro, frame]:
  assumes "keeps K k k'"
  shows "keeps K k (map_ts (make_runnable t) k')" "keeps K k (map_ts (make_non_runnable t) k')"
    "keeps K k (map_ts (queue_delete_task t) k')" "keeps K k (map_ts (rotate_ready_queue r) k')"
    "keeps K k (map_ts set_dspflg k')" "keeps K k (map_ts (change_priority_ready t p q m) k')"
    "keeps K k (map_ts (\<lambda>s. s\<lparr>p_runtsk := f s\<rparr>) k')"
    "kind_of w \<noteq> K \<Longrightarrow> keeps K k (map_ts (queue_insert_last (WaitQ w) t) k')"
    "kind_of w \<noteq> K \<Longrightarrow> keeps K k (map_ts (queue_insert_tpri (WaitQ w) t) k')"
proof -
  show "keeps K k (map_ts (make_runnable t) k')" "keeps K k (map_ts (make_non_runnable t) k')"
    "keeps K k (map_ts (queue_delete_task t) k')" "keeps K k (map_ts (rotate_ready_queue r) k')"
    "keeps K k (map_ts set_dspflg k')" "keeps K k (map_ts (change_priority_ready t p q m) k')"
    "keeps K k (map_ts (\<lambda>s. s\<lparr>p_runtsk := f s\<rparr>) k')"
    by (rule keeps_step [OF assms]; simp add: queue_of_delete_steps)+
  assume "kind_of w \<noteq> K"
  then have "WaitQ v \<noteq> WaitQ w" if "kind_of v = K" for v using that by auto
  then show "keeps K k (map_ts (queue_insert_last (WaitQ w) t) k')" "keeps K k (map_ts (queue_insert_tpri (WaitQ w) t) k')"
    by (intro keeps_step [OF assms]; simp add: queue_insert_last_def queue_insert_tpri_def lq_insert_prev_def Let_def)+
qed


lemma keeps_dispatch [intro, frame]:
  assumes "keeps K k k'"
  shows "keeps K k (dispatch k')" "keeps K k (dispatch_if_needed k')" "keeps K k (dispatch_or_request k')"
    "keeps K k (exit_and_dispatch k')" "keeps K k (snd (leave e k'))" "keeps K k (snd (leave_uint n k'))" "keeps K k (snd (block k'))"
  using assms by (auto simp: dispatch_def dispatch_if_needed_def dispatch_or_request_def request_dispatch_retint_def
      exit_and_dispatch_def leave_def leave_uint_def block_def)

lemma keeps_wake [intro, frame]:
  assumes "keeps K k k'"
  shows "keeps K k (set_tstat t st k')" "keeps K k (set_wercd t e k')" "keeps K k (upd_winfo t f k')"
    "keeps K k (wait_dequeue_tmevtb t k')" "keeps K k (wait_dequeue_wobj t k')"
    "keeps K k (make_non_wait t k')" "keeps K k (start_timer t cb time k')"
  using assms by (auto simp: set_tstat_def set_wercd_def upd_winfo_def wait_dequeue_tmevtb_def wait_dequeue_wobj_def
      make_non_wait_def start_timer_def split: winfo_u.split option.split)

lemma keeps_wait_complete [intro, frame]: "keeps K k k' \<Longrightarrow> keeps K k (wait_complete t k')"
  unfolding wait_complete_def by (intro keeps_wake)

lemma keeps_take_waiter:
  assumes "keeps K k k'" "take_waiter w k' = (t, k1)" shows "keeps K k k1"
proof (rule keeps_step [OF assms(1)])
  show "same_tables k' k1" using assms(2) by (auto simp: take_waiter_def lq_delete_next_def)
  show "set (queue_of k1 v) \<subseteq> set (queue_of k' v)" for v
    using assms(2) by (auto simp: take_waiter_def lq_delete_next_def split: if_splits dest: subsetD [OF tl_subset])
qed

lemma keeps_snd_take [intro, frame]: "keeps K k k' \<Longrightarrow> keeps K k (snd (take_waiter w k'))"
  by (rule keeps_take_waiter [OF _ prod.collapse [symmetric]])

lemma keeps_release_first: "keeps K k k' \<Longrightarrow> keeps K k (release_first w k')"
proof -
  assume a: "keeps K k k'"
  obtain t k1 where t: "take_waiter w k' = (t, k1)" by (cases "take_waiter w k'")
  show ?thesis using keeps_wake [OF keeps_wake(2) [OF keeps_wake(4) [OF keeps_take_waiter [OF a t]]]]
    by (simp add: release_first_def t)
qed

lemma keeps_init_wait_queue [intro, frame]: "keeps K k k' \<Longrightarrow> keeps K k (init_wait_queue w k')"
proof (induction w k' rule: init_wait_queue.induct)
  case (1 w k')
  then show ?case using keeps_release_first [OF "1.prems", of w]
    by (cases "queue_of k' w = []") (simp_all add: init_wait_queue.simps [of w k'])
qed

lemma keeps_make_wait [intro, frame]:
  assumes "keeps K k k'"
  shows "keeps K k (make_wait st wi k')" "keeps K k (make_wait_tmout st wi tmout k')"
  using assms by (auto simp: make_wait_def make_wait_tmout_def Let_def set_tstat_def start_timer_def)

lemma keeps_wobj_wait [intro, frame]:
  assumes "keeps K k k'" "K \<noteq> kind_of w"
  shows "keeps K k (wobj_make_wait w st wi k')" "keeps K k (wobj_make_wait_tmout w st wi tmout k')"
    "keeps K k (rwait_make_wait w st k')" "keeps K k (rwait_make_wait_tmout w st tmout k')"
  using assms by (auto simp: wobj_make_wait_def wobj_make_wait_tmout_def rwait_make_wait_def rwait_make_wait_tmout_def
      wobj_queue_insert_def set_wobjcb_def)

lemma keeps_change_priority:
  assumes a: "keeps K k k'" and c: "consistent k'"
  shows "keeps K k (change_priority t p m k')"
proof (cases "\<exists>w. \<not> TSTAT_RUNNABLE (tstat (task k' t)) \<and> TSTAT_WAIT_WOBJCB (tstat (task k' t)) \<and>
    p_wobjcb (p_winfo (task k' t)) = Some w \<and> wobjatr (upd_task t (\<lambda>b. b\<lparr>priority := p\<rparr>) k') w AND TA_TPRI \<noteq> 0")
  case False
  then show ?thesis using a
    by (auto simp: change_priority_def Let_def wobj_change_priority_def split: option.split)
next
  case True
  then obtain w where w: "\<not> TSTAT_RUNNABLE (tstat (task k' t))" "TSTAT_WAIT_WOBJCB (tstat (task k' t))"
    "p_wobjcb (p_winfo (task k' t)) = Some w" "wobjatr (upd_task t (\<lambda>b. b\<lparr>priority := p\<rparr>) k') w AND TA_TPRI \<noteq> 0" by blast
  have v: "valid_tstat (tstat (task k' t))" using consistentD(3) [OF c, of t] by (simp add: task_ok_def)
  have wo: "TSTAT_WAIT_WOBJ (tstat (task k' t))" by (rule valid_tstat_cases(4) [OF v w(2)])
  then have "exists_task k' t" by (intro waiting_exists [OF c] valid_tstat_cases(3) [OF v])
  then have "loc k' t = Some (WaitQ w)" using w wo by (simp add: loc_def exists_task_def)
  then have t: "t \<in> set (queue_of k' w)" by (simp add: core_in_queue [OF consistentD(1) [OF c]])
  have "change_priority t p m k' =
      map_ts (\<lambda>s. queue_insert_tpri (WaitQ w) t (queue_delete_task t (upd_tcb t (\<lambda>b. b\<lparr>priority := p\<rparr>) s))) k'"
    using w by (simp add: change_priority_def Let_def wobj_change_priority_def) (simp add: map_ts_def upd_task_def)
  moreover have "keeps K k (map_ts (\<lambda>s. queue_insert_tpri (WaitQ w) t (queue_delete_task t (upd_tcb t (\<lambda>b. b\<lparr>priority := p\<rparr>) s))) k')"
    by (rule keeps_step [OF a])
      (use t in \<open>auto simp: queue_insert_tpri_def queue_delete_task_def lq_delete_def upd_tcb_def
          dest: set_remove1_subset [THEN subsetD]\<close>)
  ultimately show ?thesis by simp
qed


text \<open>\<open>joins w k k'\<close>: the only wait queue that may have gained a task is that of \<open>w\<close>.\<close>

definition joins :: "wobj \<Rightarrow> kernel \<Rightarrow> kernel \<Rightarrow> bool" where
  "joins w k k' \<longleftrightarrow> same_tables k k' \<and> (\<forall>v. v \<noteq> w \<longrightarrow> set (queue_of k' v) \<subseteq> set (queue_of k v))"

lemma joins_step:
  "joins w k k' \<Longrightarrow> same_tables k' k'' \<Longrightarrow> (\<And>v. v \<noteq> w \<Longrightarrow> set (queue_of k'' v) \<subseteq> set (queue_of k' v)) \<Longrightarrow> joins w k k''"
  unfolding joins_def by (blast intro: same_tables_trans)

lemma joins_steps [intro]:
  assumes "joins w k k'"
  shows "joins w k (map_ts (make_non_runnable t) k')" "joins w k (upd_task t f k')" "joins w k (map_tm g k')"
    "joins w k (map_ts (queue_insert_last (WaitQ w) t) k')" "joins w k (map_ts (queue_insert_tpri (WaitQ w) t) k')"
    "joins w k (dispatch k')"
  by (rule joins_step [OF assms]; simp add: queue_of_delete_steps queue_insert_last_def queue_insert_tpri_def
      lq_insert_prev_def Let_def upd_task_def upd_tcb_def dispatch_def same_tables_after)+

lemma joins_wait:
  "joins w k (dispatch (wobj_make_wait w st wi k))" "joins w k (dispatch (wobj_make_wait_tmout w st wi tmout k))"
  "joins w k (dispatch (rwait_make_wait w st k))" "joins w k (dispatch (rwait_make_wait_tmout w st tmout k))"
proof -
  have r: "joins w k k" by (simp add: joins_def)
  show "joins w k (dispatch (wobj_make_wait w st wi k))" "joins w k (dispatch (wobj_make_wait_tmout w st wi tmout k))"
    "joins w k (dispatch (rwait_make_wait w st k))" "joins w k (dispatch (rwait_make_wait_tmout w st tmout k))"
    using r by (auto intro!: joins_steps simp: wobj_make_wait_def wobj_make_wait_tmout_def rwait_make_wait_def rwait_make_wait_tmout_def
        make_wait_def make_wait_tmout_def Let_def set_tstat_def start_timer_def set_wobjcb_def upd_winfo_def wobj_queue_insert_def)
qed


text \<open>A task taken from the middle of a wait queue.\<close>

lemma queue_member_waiting:
  assumes c: "consistent k" and t: "t \<in> set (queue_of k w)"
  shows "TSTAT_WAITING (tstat (task k t))" "TSTAT_WAIT_WOBJ (tstat (task k t))" "p_wobjcb (p_winfo (task k t)) = Some w"
    "exists_task k t"
proof -
  have L: "loc k t = Some (WaitQ w)" using core_in_queue [OF consistentD(1) [OF c]] t by blast
  then show wo: "TSTAT_WAIT_WOBJ (tstat (task k t))" and "p_wobjcb (p_winfo (task k t)) = Some w"
    by (auto simp: loc_def split: if_splits)
  show "TSTAT_WAITING (tstat (task k t))"
    using consistentD(3) [OF c, of t] wo by (intro valid_tstat_cases(3)) (auto simp: task_ok_def)
  then show "exists_task k t" by (rule waiting_exists [OF c])
qed

lemma upd_winfo_delete:
  "map_ts (queue_delete_task t) (upd_winfo t f k) = upd_winfo t f (map_ts (queue_delete_task t) k)"
  by (simp add: upd_winfo_def upd_task_def upd_tcb_def queue_delete_task_def map_ts_def)

lemma release_member_midway:
  assumes m: "midway k" and t: "t \<in> set (queue_of k w)"
    and f: "\<And>i. w_u (f i) = w_u i" "\<And>i. p_wobjcb (f i) = p_wobjcb i"
  shows "midway (wait_complete t (upd_winfo t f (map_ts (queue_delete_task t) k)))"
proof (rule midway_others [OF m])
  note w = queue_member_waiting [OF midwayD [OF m] t]
  have d: "detached t (map_ts (queue_delete_task t) k)"
    using dequeue_detached [OF midwayD [OF m] w(1)] w(2) by (simp add: wait_dequeue_wobj_def)
  show "consistent (wait_complete t (upd_winfo t f (map_ts (queue_delete_task t) k)))"
    by (rule wait_complete_consistent [OF detached_upd_winfo [OF d f]])
  show "others t k (wait_complete t (upd_winfo t f (map_ts (queue_delete_task t) k)))"
    unfolding wait_complete_def by (intro others_wake) (auto simp: upd_winfo_def)
  show "calm k (wait_complete t (upd_winfo t f (map_ts (queue_delete_task t) k)))"
    unfolding wait_complete_def by (intro calm_wake) (auto simp: upd_winfo_def)
  show "\<not> running t k \<or> tstat (task (wait_complete t (upd_winfo t f (map_ts (queue_delete_task t) k))) t) = TS_RUNNABLE"
    using w by (auto simp: running_def)
qed

lemma queue_of_wait_complete [simp]: "queue_of (wait_complete t k) w = queue_of k w"
  by (simp add: wait_complete_def queue_of_make_non_wait set_wercd_def upd_winfo_def wait_dequeue_tmevtb_def
      split: winfo_u.split option.split)

lemma upd_winfo_frame [simp]:
  "queue_of (upd_winfo t f k) w = queue_of k w" "tm (upd_winfo t f k) = tm k" "tinib (ts (upd_winfo t f k)) = tinib (ts k)"
  "task (upd_winfo t f k) t = (task k t)\<lparr>p_winfo := f (p_winfo (task k t))\<rparr>"
  "u \<noteq> t \<Longrightarrow> task (upd_winfo t f k) u = task k u"
  by (simp_all add: upd_winfo_def)

lemma queue_of_delete: "consistent k \<Longrightarrow> t \<in> set (queue_of k w) \<Longrightarrow>
  queue_of (map_ts (queue_delete_task t) k) v = (if v = w then remove1 t (queue_of k w) else queue_of k v)"
  using lq_delete_in [OF queues_at_family [OF coreD(1) [OF consistentD(1)]], of k t "WaitQ w"]
  by (simp add: queue_delete_task_def)

lemma wait_complete_task:
  "task (wait_complete t k) t = (task k t)\<lparr>p_winfo := (p_winfo (task k t))\<lparr>w_u := Wercd E_OK\<rparr>,
     tstat := (if TSTAT_SUSPENDED (tstat (task k t)) then TS_SUSPENDED else TS_RUNNABLE)\<rparr>"
  "u \<noteq> t \<Longrightarrow> task (wait_complete t k) u = task k u"
  by (simp_all add: wait_complete_def make_non_wait_def set_tstat_def set_wercd_def upd_winfo_def wait_dequeue_tmevtb_def
      split: winfo_u.split option.split)

text \<open>Switching tasks changes no task, queue or object.\<close>

lemma switch_frame [simp]:
  "tcb (ts (dispatch_or_request k)) = tcb (ts k)" "queues (ts (dispatch_or_request k)) = queues (ts k)"
  "tcb (ts (dispatch_if_needed k)) = tcb (ts k)" "queues (ts (dispatch_if_needed k)) = queues (ts k)"
  "tcb (ts (dispatch k)) = tcb (ts k)" "queues (ts (dispatch k)) = queues (ts k)"
  "tcb (ts (unlock_cpu k)) = tcb (ts k)" "queues (ts (unlock_cpu k)) = queues (ts k)"
  "tcb (ts (lock_cpu k)) = tcb (ts k)" "queues (ts (lock_cpu k)) = queues (ts k)"
  by (simp_all add: dispatch_or_request_def dispatch_if_needed_def dispatch_def request_dispatch_retint_def
      unlock_cpu_def lock_cpu_def)

lemma switch_tables:
  "same_tables k (dispatch_or_request k)" "same_tables k (dispatch_if_needed k)" "same_tables k (dispatch k)"
  by (auto simp: dispatch_or_request_def dispatch_if_needed_def dispatch_def request_dispatch_retint_def)

end
