(* ===== verification/Prio.thy ===== *)
theory Prio
  imports Wait
begin

text \<open>
  What the mutexes need to know of the other operations of the kernel: no operation but those on
  priorities and mutexes changes a priority or a list of locked mutexes, and none but those that end
  a task makes a task dormant.
\<close>

definition prio_frame :: "nat set \<Rightarrow> kernel \<Rightarrow> kernel \<Rightarrow> bool" where
  "prio_frame X k k' \<longleftrightarrow> tmax_tskid k' = tmax_tskid k \<and> tinib (ts k') = tinib (ts k) \<and>
     (\<forall>t. p_lastmtx (task k' t) = p_lastmtx (task k t) \<and> bpriority (task k' t) = bpriority (task k t) \<and>
        (t \<notin> X \<longrightarrow> priority (task k' t) = priority (task k t)) \<and>
        (t \<notin> X \<longrightarrow> tstat (task k t) \<noteq> TS_DORMANT \<longrightarrow> tstat (task k' t) \<noteq> TS_DORMANT))"

lemma prio_frame_refl [simp, intro, frame]: "prio_frame X k k"
  by (simp add: prio_frame_def)

lemma prio_frame_trans: "prio_frame X k k' \<Longrightarrow> prio_frame X k' k'' \<Longrightarrow> prio_frame X k k''"
  by (auto simp: prio_frame_def)

lemma prio_frame_exists: "prio_frame X k k' \<Longrightarrow> exists_task k' = exists_task k"
  by (simp add: prio_frame_def exists_task_def fun_eq_iff)

text \<open>Steps that change no task control block at all.\<close>

lemma prio_frame_same:
  assumes "prio_frame X k k'" "tcb (ts k'') = tcb (ts k')" "tinib (ts k'') = tinib (ts k')" "tmax_tskid k'' = tmax_tskid k'"
  shows "prio_frame X k k''"
  using assms by (simp add: prio_frame_def)

lemma prio_frame_tasks [frame]:
  assumes "prio_frame X k k'"
  shows "prio_frame X k (map_ts (make_runnable t) k')" "prio_frame X k (map_ts (make_non_runnable t) k')"
    "prio_frame X k (map_ts (queue_delete_task t) k')" "prio_frame X k (map_ts (rotate_ready_queue r) k')"
    "prio_frame X k (map_ts set_dspflg k')" "prio_frame X k (map_ts (\<lambda>s. s\<lparr>p_runtsk := f s\<rparr>) k')"
    "prio_frame X k (map_ts (queue_insert_last h t) k')" "prio_frame X k (map_ts (queue_insert_tpri h t) k')"
    "prio_frame X k (map_ts (\<lambda>s. s\<lparr>queues := q s\<rparr>) k')" "prio_frame X k (map_tm g k')"
    "prio_frame X k (lock_cpu k')" "prio_frame X k (unlock_cpu k')"
  by (rule prio_frame_same [OF assms]; simp add: map_ts_def map_tm_def lock_cpu_def unlock_cpu_def)+

lemma prio_frame_dispatch [frame]:
  assumes "prio_frame X k k'"
  shows "prio_frame X k (dispatch k')" "prio_frame X k (dispatch_if_needed k')" "prio_frame X k (dispatch_or_request k')"
    "prio_frame X k (exit_and_dispatch k')" "prio_frame X k (snd (leave e k'))" "prio_frame X k (snd (leave_uint n k'))"
    "prio_frame X k (snd (block k'))"
  using assms by (auto simp: dispatch_def dispatch_if_needed_def dispatch_or_request_def request_dispatch_retint_def
      exit_and_dispatch_def leave_def leave_uint_def block_def intro!: prio_frame_tasks)

text \<open>Steps that change one task.\<close>

lemma prio_frame_upd_task:
  assumes "prio_frame X k k'" "p_lastmtx (f (task k' t)) = p_lastmtx (task k' t)" "bpriority (f (task k' t)) = bpriority (task k' t)"
    "t \<notin> X \<Longrightarrow> priority (f (task k' t)) = priority (task k' t)"
    "t \<notin> X \<Longrightarrow> tstat (task k' t) \<noteq> TS_DORMANT \<Longrightarrow> tstat (f (task k' t)) \<noteq> TS_DORMANT"
  shows "prio_frame X k (upd_task t f k')"
proof -
  have "prio_frame X k' (upd_task t f k')"
  proof -
    have "p_lastmtx (task (upd_task t f k') u) = p_lastmtx (task k' u)" "bpriority (task (upd_task t f k') u) = bpriority (task k' u)"
      "u \<notin> X \<Longrightarrow> priority (task (upd_task t f k') u) = priority (task k' u)"
      "u \<notin> X \<Longrightarrow> tstat (task k' u) \<noteq> TS_DORMANT \<Longrightarrow> tstat (task (upd_task t f k') u) \<noteq> TS_DORMANT" for u
      using assms by (cases "u = t"; simp)+
    then show ?thesis by (simp add: prio_frame_def) (simp add: upd_task_def map_ts_def)
  qed
  then show ?thesis by (rule prio_frame_trans [OF assms(1)])
qed

lemma prio_frame_steps [frame]:
  assumes "prio_frame X k k'"
  shows "st \<noteq> TS_DORMANT \<Longrightarrow> prio_frame X k (set_tstat t st k')" "prio_frame X k (upd_winfo t f k')"
    "prio_frame X k (set_wercd t e k')" "prio_frame X k (set_wobjcb t w k')" "prio_frame X k (start_timer t cb time k')"
    "prio_frame X k (wait_dequeue_tmevtb t k')" "prio_frame X k (wait_dequeue_wobj t k')"
  using assms by (auto simp: set_tstat_def upd_winfo_def set_wercd_def set_wobjcb_def start_timer_def wait_dequeue_tmevtb_def
      wait_dequeue_wobj_def intro!: prio_frame_upd_task prio_frame_tasks split: winfo_u.split option.split)

lemma prio_frame_wake [frame]:
  assumes "prio_frame X k k'"
  shows "prio_frame X k (make_non_wait t k')" "prio_frame X k (wait_complete t k')"
  using assms by (auto simp: make_non_wait_def wait_complete_def intro!: prio_frame_steps prio_frame_tasks)

lemma prio_frame_take [frame]: "prio_frame X k k' \<Longrightarrow> prio_frame X k (snd (take_waiter w k'))"
  by (auto simp: take_waiter_def case_prod_unfold Let_def intro!: prio_frame_tasks)

lemma prio_frame_release_first [frame]: "prio_frame X k k' \<Longrightarrow> prio_frame X k (release_first w k')"
  by (auto simp: release_first_def case_prod_unfold Let_def intro!: prio_frame_wake prio_frame_steps prio_frame_take)

lemma prio_frame_init_wait_queue [frame]: "prio_frame X k k' \<Longrightarrow> prio_frame X k (init_wait_queue w k')"
proof (induction w k' rule: init_wait_queue.induct)
  case (1 w k')
  then show ?case by (cases "queue_of k' w = []") (simp_all add: init_wait_queue.simps [of w k'] prio_frame_release_first)
qed

lemma wait_code_live [simp]: "wait_code w \<noteq> TS_DORMANT"
  by (cases w) simp_all

lemma prio_frame_wait [frame]:
  assumes "prio_frame X k k'" "st \<noteq> TS_DORMANT"
  shows "prio_frame X k (make_wait st wi k')" "prio_frame X k (make_wait_tmout st wi tmout k')"
    "prio_frame X k (wobj_make_wait w st wi k')" "prio_frame X k (wobj_make_wait_tmout w st wi tmout k')"
    "prio_frame X k (rwait_make_wait w st k')" "prio_frame X k (rwait_make_wait_tmout w st tmout k')"
proof -
  show m: "prio_frame X k (make_wait st wi k')" "prio_frame X k (make_wait_tmout st wi tmout k')" for wi tmout
    using assms by (auto simp: make_wait_def make_wait_tmout_def Let_def intro!: prio_frame_steps prio_frame_upd_task prio_frame_tasks)
  show "prio_frame X k (wobj_make_wait w st wi k')" "prio_frame X k (wobj_make_wait_tmout w st wi tmout k')"
    "prio_frame X k (rwait_make_wait w st k')" "prio_frame X k (rwait_make_wait_tmout w st tmout k')"
    using m by (auto simp: wobj_make_wait_def wobj_make_wait_tmout_def rwait_make_wait_def rwait_make_wait_tmout_def
        wobj_queue_insert_def intro!: prio_frame_steps prio_frame_tasks)
qed

end
