(* ===== verification/Semaphore.thy ===== *)
theory Semaphore
  imports Wait
begin

unbundle bit_operations_syntax

text \<open>
  Semaphores, asp3\_dcre/kernel/semaphore.c. The contract of a semaphore is a bounded counter
  with a waiting line: \<open>sem_inv\<close> says that the count never exceeds its maximum, and that no task
  waits while the count is positive.
\<close>

section \<open>Operations\<close>

definition initialize_semaphore :: "kernel \<Rightarrow> kernel" where
  "initialize_semaphore k =
     (let n = nat (tmax_ssemid k); m = nat (tmax_semid k);
          k1 = map_ts (\<lambda>s. s\<lparr>queues := (\<lambda>h. case h of WaitQ (SemW i) \<Rightarrow> if i < n then [] else queues s h | _ \<Rightarrow> queues s h)\<rparr>) k
      in k1\<lparr>semcb := (\<lambda>i. if i < n then \<lparr>semcnt = isemcnt (seminib k i)\<rparr> else semcb k i),
            seminib := (\<lambda>i. if n \<le> i \<and> i < m then (seminib k i)\<lparr>sematr := TA_NOEXS\<rparr> else seminib k i),
            free_semcb := [n..<m]\<rparr>)"

definition set_semcnt :: "nat \<Rightarrow> uint \<Rightarrow> kernel \<Rightarrow> kernel" where
  "set_semcnt i n k = k\<lparr>semcb := (semcb k)(i := (semcb k i)\<lparr>semcnt := n\<rparr>)\<rparr>"

definition sem_exists :: "kernel \<Rightarrow> nat \<Rightarrow> bool" where
  "sem_exists k i \<longleftrightarrow> sematr (seminib k i) \<noteq> TA_NOEXS"

definition reset_queue :: "wobj \<Rightarrow> kernel \<Rightarrow> kernel" where
  "reset_queue w k = map_ts (\<lambda>s. s\<lparr>queues := (queues s)(WaitQ w := [])\<rparr>) k"

text \<open>\<open>0 \<le> isemcnt\<close> holds for every unsigned value, as does \<open>maxsem \<le> TMAX_MAXSEM\<close>.\<close>

definition acre_sem :: "ATR \<Rightarrow> uint \<Rightarrow> uint \<Rightarrow> kernel \<Rightarrow> svc \<times> kernel" where
  "acre_sem atr icnt mx k =
     (if ctx_error k then (Ret E_CTX, k)
      else if atr AND NOT TA_TPRI \<noteq> 0 then (Ret E_RSATR, k)
      else if \<not> icnt \<le> mx then (Ret E_PAR, k)
      else if \<not> 1 \<le> mx then (Ret E_PAR, k)
      else let k1 = lock_cpu k in
        if tmax_semid k1 = 0 \<or> free_semcb k1 = [] then leave E_NOID k1
        else let i = hd (free_semcb k1);
                 k2 = k1\<lparr>free_semcb := tl (free_semcb k1),
                         seminib := (seminib k1)(i := \<lparr>sematr = atr, isemcnt = icnt, maxsem = mx\<rparr>)\<rparr>;
                 k3 = reset_queue (SemW i) k2;
                 k4 = set_semcnt i (isemcnt (seminib k3 i)) k3
             in leave_uint (OBJID i) k4)"

definition del_sem :: "int \<Rightarrow> kernel \<Rightarrow> svc \<times> kernel" where
  "del_sem semid k =
     (if ctx_error k then (Ret E_CTX, k)
      else if \<not> VALID_ID (tmax_semid k) semid then (Ret E_ID, k)
      else let i = INDEX semid; k1 = lock_cpu k in
        if \<not> sem_exists k1 i then leave E_NOEXS k1
        else if semid \<le> tmax_ssemid k1 then leave E_OBJ k1
        else let k2 = init_wait_queue (SemW i) k1;
                 k3 = k2\<lparr>seminib := (seminib k2)(i := (seminib k2 i)\<lparr>sematr := TA_NOEXS\<rparr>),
                         free_semcb := free_semcb k2 @ [i]\<rparr>
             in leave E_OK (dispatch_if_needed k3))"

definition sig_sem :: "int \<Rightarrow> kernel \<Rightarrow> svc \<times> kernel" where
  "sig_sem semid k =
     (if sense_lock k then (Ret E_CTX, k)
      else if \<not> VALID_ID (tmax_semid k) semid then (Ret E_ID, k)
      else let i = INDEX semid; k1 = lock_cpu k in
        if \<not> sem_exists k1 i then leave E_NOEXS k1
        else if queue_of k1 (SemW i) \<noteq> [] then
          let (t, k2) = take_waiter (SemW i) k1
          in leave E_OK (dispatch_or_request (wait_complete t k2))
        else if semcnt (semcb k1 i) < maxsem (seminib k1 i) then
          leave E_OK (set_semcnt i (semcnt (semcb k1 i) + 1) k1)
        else leave E_QOVR k1)"

definition wai_sem :: "int \<Rightarrow> kernel \<Rightarrow> svc \<times> kernel" where
  "wai_sem semid k =
     (if dispatch_error k then (Ret E_CTX, k)
      else if \<not> VALID_ID (tmax_semid k) semid then (Ret E_ID, k)
      else let i = INDEX semid; k1 = lock_cpu k in
        if \<not> sem_exists k1 i then leave E_NOEXS k1
        else if raster (task k1 (runtsk k1)) then leave E_RASTER k1
        else if semcnt (semcb k1 i) \<ge> 1 then leave E_OK (set_semcnt i (semcnt (semcb k1 i) - 1) k1)
        else block (wobj_make_wait (SemW i) TS_WAITING_SEM fresh_winfo k1))"

definition pol_sem :: "int \<Rightarrow> kernel \<Rightarrow> svc \<times> kernel" where
  "pol_sem semid k =
     (if ctx_error k then (Ret E_CTX, k)
      else if \<not> VALID_ID (tmax_semid k) semid then (Ret E_ID, k)
      else let i = INDEX semid; k1 = lock_cpu k in
        if \<not> sem_exists k1 i then leave E_NOEXS k1
        else if semcnt (semcb k1 i) \<ge> 1 then leave E_OK (set_semcnt i (semcnt (semcb k1 i) - 1) k1)
        else leave E_TMOUT k1)"

definition twai_sem :: "int \<Rightarrow> TMO \<Rightarrow> kernel \<Rightarrow> svc \<times> kernel" where
  "twai_sem semid tmout k =
     (if dispatch_error k then (Ret E_CTX, k)
      else if \<not> VALID_ID (tmax_semid k) semid then (Ret E_ID, k)
      else if \<not> VALID_TMOUT tmout then (Ret E_PAR, k)
      else let i = INDEX semid; k1 = lock_cpu k in
        if \<not> sem_exists k1 i then leave E_NOEXS k1
        else if raster (task k1 (runtsk k1)) then leave E_RASTER k1
        else if semcnt (semcb k1 i) \<ge> 1 then leave E_OK (set_semcnt i (semcnt (semcb k1 i) - 1) k1)
        else if tmout = TMO_POL then leave E_TMOUT k1
        else block (wobj_make_wait_tmout (SemW i) TS_WAITING_SEM fresh_winfo tmout k1))"

definition ini_sem :: "int \<Rightarrow> kernel \<Rightarrow> svc \<times> kernel" where
  "ini_sem semid k =
     (if ctx_error k then (Ret E_CTX, k)
      else if \<not> VALID_ID (tmax_semid k) semid then (Ret E_ID, k)
      else let i = INDEX semid; k1 = lock_cpu k in
        if \<not> sem_exists k1 i then leave E_NOEXS k1
        else let k2 = init_wait_queue (SemW i) k1;
                 k3 = set_semcnt i (isemcnt (seminib k2 i)) k2
             in leave E_OK (dispatch_if_needed k3))"

text \<open>The packet \<open>T_RSEM\<close>: the first waiting task and the count; \<open>None\<close> if it is not written.\<close>

definition ref_sem :: "int \<Rightarrow> kernel \<Rightarrow> (svc \<times> kernel) \<times> (int \<times> uint) option" where
  "ref_sem semid k =
     (if ctx_error k then ((Ret E_CTX, k), None)
      else if \<not> VALID_ID (tmax_semid k) semid then ((Ret E_ID, k), None)
      else let i = INDEX semid; k1 = lock_cpu k in
        if \<not> sem_exists k1 i then (leave E_NOEXS k1, None)
        else (leave E_OK k1, Some (wait_tskid (SemW i) k1, semcnt (semcb k1 i))))"


section \<open>The scheduler state\<close>

lemma set_semcnt_frame [simp]:
  "midway (set_semcnt i n k) = midway k" "settled (set_semcnt i n k) = settled k" "in_task (set_semcnt i n k) = in_task k"
  "K \<noteq> KSem \<Longrightarrow> keeps K k' (set_semcnt i n k) = keeps K k' k" "queues (ts (set_semcnt i n k)) = queues (ts k)"
  by (simp_all add: set_semcnt_def)

definition sem_inv :: "kernel \<Rightarrow> bool" where
  "sem_inv k \<longleftrightarrow>
     (\<forall>i. sem_exists k i \<longrightarrow> semcnt (semcb k i) \<le> maxsem (seminib k i) \<and> isemcnt (seminib k i) \<le> maxsem (seminib k i)) \<and>
     (\<forall>i. queue_of k (SemW i) \<noteq> [] \<longrightarrow> sem_exists k i \<and> semcnt (semcb k i) = 0) \<and>
     distinct (free_semcb k) \<and> (\<forall>i \<in> set (free_semcb k). \<not> sem_exists k i)"

lemma sem_inv_lock [simp]: "sem_inv (lock_cpu k) = sem_inv k" "sem_inv (unlock_cpu k) = sem_inv k"
  by (simp_all add: sem_inv_def sem_exists_def lock_cpu_def unlock_cpu_def)

lemma sem_exists_lock: "sem_exists (lock_cpu k) i = sem_exists k i"
  by (simp add: sem_exists_def lock_cpu_def)

lemma reset_queue_idle: "queue_of k w = [] \<Longrightarrow> reset_queue w k = k"
  by (simp add: reset_queue_def map_ts_def fun_upd_idem)

lemma semaphore_settled [pres]:
  shows "settled k \<Longrightarrow> settled (snd (sig_sem semid k))"
    and "in_task k \<Longrightarrow> settled (snd (wai_sem semid k))"
    and "settled k \<Longrightarrow> settled (snd (pol_sem semid k))"
    and "in_task k \<Longrightarrow> settled (snd (twai_sem semid tmout k))"
    and "settled k \<Longrightarrow> settled (snd (ini_sem semid k))"
    and "settled k \<Longrightarrow> settled (snd (del_sem semid k))"
    and "settled k \<Longrightarrow> settled (snd (fst (ref_sem semid k)))"
proof -
  show "settled k \<Longrightarrow> settled (snd (sig_sem semid k))"
    using lock_entry [of k]
    by (auto simp: sig_sem_def Let_def case_prod_unfold intro!: pres dispatch_or_request_settled)
  show "in_task k \<Longrightarrow> settled (snd (wai_sem semid k))"
    using lock_entry_task [of k] by (auto simp: wai_sem_def Let_def dispatch_error_def intro!: pres)
  show "settled k \<Longrightarrow> settled (snd (pol_sem semid k))"
    using lock_entry [of k] by (auto simp: pol_sem_def Let_def)
  show "in_task k \<Longrightarrow> settled (snd (twai_sem semid tmout k))"
    using lock_entry_task [of k] by (auto simp: twai_sem_def Let_def dispatch_error_def intro!: pres)
  show "settled k \<Longrightarrow> settled (snd (ini_sem semid k))"
    using lock_entry [of k] by (auto simp: ini_sem_def Let_def ctx_error_def intro!: pres dispatch_if_needed_settled)
  show "settled k \<Longrightarrow> settled (snd (del_sem semid k))"
    using lock_entry [of k] by (auto simp: del_sem_def Let_def ctx_error_def intro!: pres dispatch_if_needed_settled)
  show "settled k \<Longrightarrow> settled (snd (fst (ref_sem semid k)))"
    using lock_entry [of k] by (auto simp: ref_sem_def Let_def)
qed


lemma sem_inv_keeps:
  assumes "sem_inv k" "keeps KSem k k'" shows "sem_inv k'"
proof -
  have t: "seminib k' = seminib k" "semcb k' = semcb k" "free_semcb k' = free_semcb k"
    and q: "\<And>i. set (queue_of k' (SemW i)) \<subseteq> set (queue_of k (SemW i))"
    using assms(2) by (auto simp: keeps_def same_objects_def)
  have "queue_of k (SemW i) \<noteq> []" if "queue_of k' (SemW i) \<noteq> []" for i using q [of i] that by auto
  then show ?thesis using assms(1) by (simp add: sem_inv_def sem_exists_def t)
qed

lemma sem_inv_joins:
  assumes i: "sem_inv k" and j: "joins (SemW i) k k'" and e: "sem_exists k i" "semcnt (semcb k i) = 0"
  shows "sem_inv k'"
proof -
  have t: "seminib k' = seminib k" "semcb k' = semcb k" "free_semcb k' = free_semcb k"
    using j by (simp_all add: joins_def same_tables_sel)
  have "queue_of k (SemW j) \<noteq> [] \<or> j = i" if "queue_of k' (SemW j) \<noteq> []" for j
    using j that by (cases "j = i") (auto simp: joins_def dest: spec [of _ "SemW j"])
  then show ?thesis using i e by (auto simp: sem_inv_def sem_exists_def t)
qed

lemma sem_inv_set_semcnt:
  assumes "sem_inv k" "n \<le> maxsem (seminib k i)" "queue_of k (SemW i) = [] \<or> n = 0"
  shows "sem_inv (set_semcnt i n k)"
  using assms by (auto simp: sem_inv_def sem_exists_def set_semcnt_def)

lemma less_plus_one: "x < y \<Longrightarrow> x + 1 \<le> (y :: uint)"
  by (rule inc_le)

text \<open>Every operation keeps the invariant.\<close>

lemma sig_sem_inv:
  assumes i: "sem_inv k" shows "sem_inv (snd (sig_sem semid k))"
proof -
  have i1: "sem_inv (lock_cpu k)" using i by simp
  then show ?thesis using i
    by (auto simp: sig_sem_def Let_def leave_def case_prod_unfold
        intro!: sem_inv_keeps [OF i1 keeps_dispatch(3)] sem_inv_set_semcnt less_plus_one keeps_wait_complete keeps_snd_take)
qed

lemma taken_sem_inv:
  assumes "sem_inv k" "1 \<le> semcnt (semcb k i)" "sem_exists k i"
  shows "sem_inv (set_semcnt i (semcnt (semcb k i) - 1) k)"
proof (rule sem_inv_set_semcnt [OF assms(1)])
  have "semcnt (semcb k i) - 1 \<le> semcnt (semcb k i)" using assms(2) by (simp add: word_sub_le)
  then show "semcnt (semcb k i) - 1 \<le> maxsem (seminib k i)" using assms by (auto simp: sem_inv_def dest: order_trans)
  show "queue_of k (SemW i) = [] \<or> semcnt (semcb k i) - 1 = 0" using assms by (auto simp: sem_inv_def)
qed

lemma word_less_1: "\<not> (1 :: uint) \<le> n \<longleftrightarrow> n = 0"
  by unat_arith

lemma wai_sem_inv:
  assumes i: "sem_inv k"
  shows "sem_inv (snd (wai_sem semid k))" "sem_inv (snd (twai_sem semid tmout k))" "sem_inv (snd (pol_sem semid k))"
proof -
  have i1: "sem_inv (lock_cpu k)" using i by simp
  show "sem_inv (snd (wai_sem semid k))" "sem_inv (snd (twai_sem semid tmout k))" "sem_inv (snd (pol_sem semid k))"
    using i i1
    by (auto simp: wai_sem_def twai_sem_def pol_sem_def Let_def leave_def block_def word_less_1 intro!: taken_sem_inv
        sem_inv_joins [OF i1 joins_wait(1)] sem_inv_joins [OF i1 joins_wait(2)])
qed


lemma ini_del_sem_inv:
  assumes i: "sem_inv k"
  shows "sem_inv (snd (ini_sem semid k))" "sem_inv (snd (del_sem semid k))" "sem_inv (snd (fst (ref_sem semid k)))"
proof -
  define i where "i = INDEX semid"
  define k2 where "k2 = init_wait_queue (SemW i) (lock_cpu k)"
  have i2: "sem_inv k2" unfolding k2_def using assms by (intro sem_inv_keeps [OF _ keeps_init_wait_queue [OF keeps_refl]]) simp
  have q: "queue_of k2 (SemW i) = []" by (simp add: k2_def init_wait_queue_empty)
  have t: "seminib k2 = seminib k" "free_semcb k2 = free_semcb k"
    using same_tables_sel [OF init_wait_queue_tables [of "lock_cpu k" "SemW i"]] by (simp_all add: k2_def lock_cpu_def)
  have e: "sem_exists k2 i = sem_exists k i" by (simp add: sem_exists_def t)
  have "sem_inv (set_semcnt i (isemcnt (seminib k2 i)) k2)" if "sem_exists k i"
    using i2 that q e by (intro sem_inv_set_semcnt) (auto simp: sem_inv_def)
  then have "sem_inv (dispatch_if_needed (set_semcnt i (isemcnt (seminib k2 i)) k2))" if "sem_exists k i"
    by (intro sem_inv_keeps [OF _ keeps_dispatch(2) [OF keeps_refl]]) (use that in simp)
  then show "sem_inv (snd (ini_sem semid k))"
    using assms by (auto simp: ini_sem_def Let_def leave_def sem_exists_lock i_def [symmetric] k2_def [symmetric])
  show "sem_inv (snd (fst (ref_sem semid k)))" using assms by (auto simp: ref_sem_def Let_def leave_def)
  have "sem_inv (k2\<lparr>seminib := (seminib k2)(i := (seminib k2 i)\<lparr>sematr := TA_NOEXS\<rparr>), free_semcb := free_semcb k2 @ [i]\<rparr>)"
    (is "sem_inv ?k3") if "sem_exists k i"
    using i2 q that e by (auto simp: sem_inv_def sem_exists_def)
  then have "sem_inv (dispatch_if_needed ?k3)" if "sem_exists k i"
    by (intro sem_inv_keeps [OF _ keeps_dispatch(2) [OF keeps_refl]]) (use that in simp)
  then show "sem_inv (snd (del_sem semid k))"
    using assms by (auto simp: del_sem_def Let_def leave_def sem_exists_lock i_def [symmetric] k2_def [symmetric])
qed


text \<open>The creation of a semaphore takes an unused control block, whose queue is empty.\<close>

lemma acre_sem_frame:
  assumes i: "sem_inv k" and f: "free_semcb k \<noteq> []"
  shows "queue_of k (SemW (hd (free_semcb k))) = []" "\<not> sem_exists k (hd (free_semcb k))"
  using assms by (auto simp: sem_inv_def)

lemma acre_sem_inv:
  assumes i: "sem_inv k" and s: "settled k"
  shows "sem_inv (snd (acre_sem atr icnt mx k))" "settled (snd (acre_sem atr icnt mx k))"
proof -
  define k1 where "k1 = lock_cpu k"
  have k1: "sem_inv k1" "settled k1" using assms by (simp_all add: k1_def settled_lock)
  define j where "j = hd (free_semcb k1)"
  define k2 where "k2 = k1\<lparr>free_semcb := tl (free_semcb k1),
    seminib := (seminib k1)(j := \<lparr>sematr = atr, isemcnt = icnt, maxsem = mx\<rparr>)\<rparr>"
  define k4 where "k4 = set_semcnt j icnt (reset_queue (SemW j) k2)"
  have eq: "acre_sem atr icnt mx k = (if ctx_error k then (Ret E_CTX, k)
      else if atr AND NOT TA_TPRI \<noteq> 0 then (Ret E_RSATR, k)
      else if \<not> icnt \<le> mx then (Ret E_PAR, k) else if \<not> 1 \<le> mx then (Ret E_PAR, k)
      else if tmax_semid k1 = 0 \<or> free_semcb k1 = [] then leave E_NOID k1 else leave_uint (OBJID j) k4)"
    by (simp add: acre_sem_def Let_def k1_def j_def k2_def k4_def reset_queue_def map_ts_def)
  have "settled k4 \<and> sem_inv k4" if f: "free_semcb k1 \<noteq> []" and le: "icnt \<le> mx" and atr: "atr AND NOT TA_TPRI = 0"
  proof -
    obtain js where js: "free_semcb k1 = j # js" using f by (auto simp: j_def neq_Nil_conv)
    have q: "queue_of k1 (SemW j) = []" "\<not> sem_exists k1 j"
      using acre_sem_frame [OF k1(1) f] by (simp_all add: j_def)
    have r: "reset_queue (SemW j) k2 = k2" by (rule reset_queue_idle) (simp add: k2_def q)
    have k4: "k4 = set_semcnt j icnt k2" by (simp add: k4_def r)
    have "atr \<noteq> TA_NOEXS" using atr by auto
    then have "sem_inv k4" using k1(1) q le js
      unfolding k4 by (auto simp: k2_def sem_inv_def sem_exists_def set_semcnt_def)
    moreover have "settled k4" using k1(2) by (simp add: k4 k2_def)
    ultimately show ?thesis by blast
  qed
  then show "sem_inv (snd (acre_sem atr icnt mx k))" "settled (snd (acre_sem atr icnt mx k))"
    using assms k1 by (simp_all add: eq leave_def leave_uint_def)
qed

text \<open>Semaphore calls touch no other kind of object.\<close>

lemma semaphore_keeps:
  assumes "K \<noteq> KSem"
  shows "keeps K k (snd (sig_sem semid k))" "keeps K k (snd (wai_sem semid k))" "keeps K k (snd (pol_sem semid k))"
    "keeps K k (snd (twai_sem semid tmout k))" "keeps K k (snd (ini_sem semid k))" "keeps K k (snd (del_sem semid k))"
    "keeps K k (snd (fst (ref_sem semid k)))"
  using assms
  by (auto simp: sig_sem_def wai_sem_def pol_sem_def twai_sem_def ini_sem_def del_sem_def ref_sem_def Let_def case_prod_unfold intro!: frame)

end
