(* ===== verification/Eventflag.thy ===== *)
theory Eventflag
  imports Wait
begin

unbundle bit_operations_syntax

text \<open>
  Event flags, asp3\_dcre/kernel/eventflag.c. Setting bits walks the wait queue and releases
  every task whose condition the pattern meets, or only the first one when the flag clears
  itself (\<open>TA_CLR\<close>). \<open>flg_inv\<close> says that no task waits for a condition that already holds.
\<close>

section \<open>Operations\<close>

type_synonym MODE = "32 word"

abbreviation TWF_ORW :: MODE where "TWF_ORW \<equiv> 1"
abbreviation TWF_ANDW :: MODE where "TWF_ANDW \<equiv> 2"

definition flg_exists :: "kernel \<Rightarrow> nat \<Rightarrow> bool" where
  "flg_exists k i \<longleftrightarrow> flgatr (flginib k i) \<noteq> TA_NOEXS"

definition set_flgptn :: "nat \<Rightarrow> FLGPTN \<Rightarrow> kernel \<Rightarrow> kernel" where
  "set_flgptn i p k = k\<lparr>flgcb := (flgcb k)(i := (flgcb k i)\<lparr>flgptn := p\<rparr>)\<rparr>"

definition initialize_eventflag :: "kernel \<Rightarrow> kernel" where
  "initialize_eventflag k =
     (let n = nat (tmax_sflgid k); m = nat (tmax_flgid k);
          k1 = map_ts (\<lambda>s. s\<lparr>queues := (\<lambda>h. case h of WaitQ (FlgW i) \<Rightarrow> if i < n then [] else queues s h | _ \<Rightarrow> queues s h)\<rparr>) k
      in k1\<lparr>flgcb := (\<lambda>i. if i < n then \<lparr>flgptn = iflgptn (flginib k i)\<rparr> else flgcb k i),
            flginib := (\<lambda>i. if n \<le> i \<and> i < m then (flginib k i)\<lparr>flgatr := TA_NOEXS\<rparr> else flginib k i),
            free_flgcb := [n..<m]\<rparr>)"

text \<open>The condition of \<open>check_flg_cond\<close>, and its effect.\<close>

definition flg_cond :: "FLGPTN \<Rightarrow> FLGPTN \<Rightarrow> MODE \<Rightarrow> bool" where
  "flg_cond ptn waiptn wfmode \<longleftrightarrow>
     (if wfmode AND TWF_ORW \<noteq> 0 then ptn AND waiptn \<noteq> 0 else ptn AND waiptn = waiptn)"

definition check_flg_cond :: "nat \<Rightarrow> FLGPTN \<Rightarrow> MODE \<Rightarrow> kernel \<Rightarrow> FLGPTN option \<times> kernel" where
  "check_flg_cond i waiptn wfmode k =
     (let ptn = flgptn (flgcb k i) in
      if flg_cond ptn waiptn wfmode then
        (Some ptn, if flgatr (flginib k i) AND TA_CLR \<noteq> 0 then set_flgptn i 0 k else k)
      else (None, k))"

definition acre_flg :: "ATR \<Rightarrow> FLGPTN \<Rightarrow> kernel \<Rightarrow> svc \<times> kernel" where
  "acre_flg atr iptn k =
     (if ctx_error k then (Ret E_CTX, k)
      else if atr AND NOT (TA_TPRI OR TA_WMUL OR TA_CLR) \<noteq> 0 then (Ret E_RSATR, k)
      else let k1 = lock_cpu k in
        if tmax_flgid k1 = 0 \<or> free_flgcb k1 = [] then leave E_NOID k1
        else let i = hd (free_flgcb k1);
                 k2 = k1\<lparr>free_flgcb := tl (free_flgcb k1),
                         flginib := (flginib k1)(i := \<lparr>flgatr = atr, iflgptn = iptn\<rparr>)\<rparr>;
                 k3 = map_ts (\<lambda>s. s\<lparr>queues := (queues s)(WaitQ (FlgW i) := [])\<rparr>) k2
             in leave_uint (OBJID i) (set_flgptn i (iflgptn (flginib k3 i)) k3))"

text \<open>\<open>del_flg\<close> answers an invalid ID with \<open>E_PAR\<close>, not \<open>E_ID\<close>.\<close>

definition del_flg :: "int \<Rightarrow> kernel \<Rightarrow> svc \<times> kernel" where
  "del_flg flgid k =
     (if ctx_error k then (Ret E_CTX, k)
      else if \<not> VALID_ID (tmax_flgid k) flgid then (Ret E_PAR, k)
      else let i = INDEX flgid; k1 = lock_cpu k in
        if \<not> flg_exists k1 i then leave E_NOEXS k1
        else if flgid \<le> tmax_sflgid k1 then leave E_OBJ k1
        else let k2 = init_wait_queue (FlgW i) k1;
                 k3 = k2\<lparr>flginib := (flginib k2)(i := (flginib k2 i)\<lparr>flgatr := TA_NOEXS\<rparr>),
                         free_flgcb := free_flgcb k2 @ [i]\<rparr>
             in leave E_OK (dispatch_if_needed k3))"

text \<open>
  The loop of \<open>set_flg\<close>. The pointer to the next entry is read before the current task is
  released, and a release takes out no other task, so the loop visits the tasks that are in the
  queue at its start.
\<close>

fun set_flg_loop :: "nat \<Rightarrow> nat list \<Rightarrow> kernel \<Rightarrow> kernel" where
  "set_flg_loop i [] k = k"
| "set_flg_loop i (t # rest) k =
     (let w = p_winfo (task k t);
          (r, k1) = check_flg_cond i (w_waiptn w) (w_wfmode w) k
      in case r of
           None \<Rightarrow> set_flg_loop i rest k1
         | Some ptn \<Rightarrow>
             let k2 = upd_winfo t (\<lambda>i. i\<lparr>w_waiptn := ptn\<rparr>) k1;
                 k3 = wait_complete t (map_ts (queue_delete_task t) k2)
             in if flgatr (flginib k3 i) AND TA_CLR \<noteq> 0 then k3 else set_flg_loop i rest k3)"

text \<open>The lock is released at the end only if this call took it.\<close>

definition set_flg :: "int \<Rightarrow> FLGPTN \<Rightarrow> kernel \<Rightarrow> svc \<times> kernel" where
  "set_flg flgid setptn k =
     (let lock = sense_lock k;
          finish = (\<lambda>e k. (Ret e, if \<not> lock then unlock_cpu k else k)) in
      if \<not> VALID_ID (tmax_flgid k) flgid then (Ret E_ID, k)
      else let i = INDEX flgid; k1 = (if \<not> lock then lock_cpu k else k) in
        if \<not> flg_exists k1 i then finish E_NOEXS k1
        else let k2 = set_flgptn i (flgptn (flgcb k1 i) OR setptn) k1;
                 k3 = set_flg_loop i (queue_of k2 (FlgW i)) k2
             in finish E_OK (dispatch_or_request k3))"

definition clr_flg :: "int \<Rightarrow> FLGPTN \<Rightarrow> kernel \<Rightarrow> svc \<times> kernel" where
  "clr_flg flgid clrptn k =
     (let lock = sense_lock k;
          finish = (\<lambda>e k. (Ret e, if \<not> lock then unlock_cpu k else k)) in
      if \<not> VALID_ID (tmax_flgid k) flgid then (Ret E_ID, k)
      else let i = INDEX flgid; k1 = (if \<not> lock then lock_cpu k else k) in
        if \<not> flg_exists k1 i then finish E_NOEXS k1
        else finish E_OK (set_flgptn i (flgptn (flgcb k1 i) AND clrptn) k1))"

definition flg_winfo :: "FLGPTN \<Rightarrow> MODE \<Rightarrow> tmevtb_ref winfo" where
  "flg_winfo waiptn wfmode = fresh_winfo\<lparr>w_waiptn := waiptn, w_wfmode := wfmode\<rparr>"

text \<open>
  The second result is what is stored through \<open>p_flgptn\<close> at once; after a wait that ends with
  \<open>E_OK\<close> the caller finds the pattern in \<open>w_waiptn\<close> of its waiting information.
\<close>

definition wai_flg :: "int \<Rightarrow> FLGPTN \<Rightarrow> MODE \<Rightarrow> kernel \<Rightarrow> (svc \<times> kernel) \<times> FLGPTN option" where
  "wai_flg flgid waiptn wfmode k =
     (if dispatch_error k then ((Ret E_CTX, k), None)
      else if \<not> VALID_ID (tmax_flgid k) flgid then ((Ret E_ID, k), None)
      else if \<not> waiptn \<noteq> 0 then ((Ret E_PAR, k), None)
      else if \<not> (wfmode = TWF_ORW \<or> wfmode = TWF_ANDW) then ((Ret E_PAR, k), None)
      else let i = INDEX flgid; k1 = lock_cpu k in
        if \<not> flg_exists k1 i then (leave E_NOEXS k1, None)
        else if raster (task k1 (runtsk k1)) then (leave E_RASTER k1, None)
        else if flgatr (flginib k1 i) AND TA_WMUL = 0 \<and> queue_of k1 (FlgW i) \<noteq> [] then (leave E_ILUSE k1, None)
        else let (r, k2) = check_flg_cond i waiptn wfmode k1 in
          case r of
            Some ptn \<Rightarrow> (leave E_OK k2, Some ptn)
          | None \<Rightarrow> (block (wobj_make_wait (FlgW i) TS_WAITING_FLG (flg_winfo waiptn wfmode) k2), None))"

definition pol_flg :: "int \<Rightarrow> FLGPTN \<Rightarrow> MODE \<Rightarrow> kernel \<Rightarrow> (svc \<times> kernel) \<times> FLGPTN option" where
  "pol_flg flgid waiptn wfmode k =
     (if ctx_error k then ((Ret E_CTX, k), None)
      else if \<not> VALID_ID (tmax_flgid k) flgid then ((Ret E_ID, k), None)
      else if \<not> waiptn \<noteq> 0 then ((Ret E_PAR, k), None)
      else if \<not> (wfmode = TWF_ORW \<or> wfmode = TWF_ANDW) then ((Ret E_PAR, k), None)
      else let i = INDEX flgid; k1 = lock_cpu k in
        if \<not> flg_exists k1 i then (leave E_NOEXS k1, None)
        else if flgatr (flginib k1 i) AND TA_WMUL = 0 \<and> queue_of k1 (FlgW i) \<noteq> [] then (leave E_ILUSE k1, None)
        else let (r, k2) = check_flg_cond i waiptn wfmode k1 in
          case r of
            Some ptn \<Rightarrow> (leave E_OK k2, Some ptn)
          | None \<Rightarrow> (leave E_TMOUT k2, None))"

definition twai_flg :: "int \<Rightarrow> FLGPTN \<Rightarrow> MODE \<Rightarrow> TMO \<Rightarrow> kernel \<Rightarrow> (svc \<times> kernel) \<times> FLGPTN option" where
  "twai_flg flgid waiptn wfmode tmout k =
     (if dispatch_error k then ((Ret E_CTX, k), None)
      else if \<not> VALID_ID (tmax_flgid k) flgid then ((Ret E_ID, k), None)
      else if \<not> waiptn \<noteq> 0 then ((Ret E_PAR, k), None)
      else if \<not> (wfmode = TWF_ORW \<or> wfmode = TWF_ANDW) then ((Ret E_PAR, k), None)
      else if \<not> VALID_TMOUT tmout then ((Ret E_PAR, k), None)
      else let i = INDEX flgid; k1 = lock_cpu k in
        if \<not> flg_exists k1 i then (leave E_NOEXS k1, None)
        else if raster (task k1 (runtsk k1)) then (leave E_RASTER k1, None)
        else if flgatr (flginib k1 i) AND TA_WMUL = 0 \<and> queue_of k1 (FlgW i) \<noteq> [] then (leave E_ILUSE k1, None)
        else let (r, k2) = check_flg_cond i waiptn wfmode k1 in
          case r of
            Some ptn \<Rightarrow> (leave E_OK k2, Some ptn)
          | None \<Rightarrow>
              if tmout = TMO_POL then (leave E_TMOUT k2, None)
              else (block (wobj_make_wait_tmout (FlgW i) TS_WAITING_FLG (flg_winfo waiptn wfmode) tmout k2), None))"

definition ini_flg :: "int \<Rightarrow> kernel \<Rightarrow> svc \<times> kernel" where
  "ini_flg flgid k =
     (if ctx_error k then (Ret E_CTX, k)
      else if \<not> VALID_ID (tmax_flgid k) flgid then (Ret E_ID, k)
      else let i = INDEX flgid; k1 = lock_cpu k in
        if \<not> flg_exists k1 i then leave E_NOEXS k1
        else let k2 = init_wait_queue (FlgW i) k1;
                 k3 = set_flgptn i (iflgptn (flginib k2 i)) k2
             in leave E_OK (dispatch_if_needed k3))"

definition ref_flg :: "int \<Rightarrow> kernel \<Rightarrow> (svc \<times> kernel) \<times> (int \<times> FLGPTN) option" where
  "ref_flg flgid k =
     (let lock = sense_lock k;
          finish = (\<lambda>e k. (Ret e, if \<not> lock then unlock_cpu k else k)) in
      if \<not> VALID_ID (tmax_flgid k) flgid then ((Ret E_ID, k), None)
      else let i = INDEX flgid; k1 = (if \<not> lock then lock_cpu k else k) in
        if \<not> flg_exists k1 i then (finish E_NOEXS k1, None)
        else (finish E_OK k1, Some (wait_tskid (FlgW i) k1, flgptn (flgcb k1 i))))"


section \<open>The scheduler state\<close>

lemma set_flgptn_frame [simp]:
  "midway (set_flgptn i n k) = midway k" "settled (set_flgptn i n k) = settled k" "in_task (set_flgptn i n k) = in_task k"
  "K \<noteq> KFlg \<Longrightarrow> keeps K k' (set_flgptn i n k) = keeps K k' k" "ts (set_flgptn i n k) = ts k" "tm (set_flgptn i n k) = tm k"
  "flginib (set_flgptn i n k) = flginib k" "flgptn (flgcb (set_flgptn i n k) i) = n"
  by (simp_all add: set_flgptn_def)

lemma check_flg_cond_frame [simp]:
  "midway (snd (check_flg_cond i p m k)) = midway k" "settled (snd (check_flg_cond i p m k)) = settled k"
  "in_task (snd (check_flg_cond i p m k)) = in_task k" "ts (snd (check_flg_cond i p m k)) = ts k"
  "K \<noteq> KFlg \<Longrightarrow> keeps K k' (snd (check_flg_cond i p m k)) = keeps K k' k"
  "flginib (snd (check_flg_cond i p m k)) = flginib k"
  by (simp_all add: check_flg_cond_def Let_def)

text \<open>One round of the loop: the task leaves the queue and is released.\<close>

definition flg_release :: "nat \<Rightarrow> nat \<Rightarrow> FLGPTN \<Rightarrow> kernel \<Rightarrow> kernel" where
  "flg_release i t ptn k = wait_complete t (upd_winfo t (\<lambda>i. i\<lparr>w_waiptn := ptn\<rparr>) (map_ts (queue_delete_task t) k))"

lemma set_flg_loop_step:
  "set_flg_loop i (t # rest) k =
     (case check_flg_cond i (w_waiptn (p_winfo (task k t))) (w_wfmode (p_winfo (task k t))) k of
        (None, k1) \<Rightarrow> set_flg_loop i rest k1
      | (Some ptn, k1) \<Rightarrow> let k3 = flg_release i t ptn k1
                          in if flgatr (flginib k3 i) AND TA_CLR \<noteq> 0 then k3 else set_flg_loop i rest k3)"
  by (simp add: flg_release_def upd_winfo_delete Let_def split: prod.split option.split)

lemma flg_release_midway:
  "midway k \<Longrightarrow> t \<in> set (queue_of k (FlgW i)) \<Longrightarrow> midway (flg_release i t ptn k)"
  unfolding flg_release_def by (rule release_member_midway) simp_all

lemma flg_release_queue:
  assumes "midway k" "t \<in> set (queue_of k (FlgW i))"
  shows "queue_of (flg_release i t ptn k) w = (if w = FlgW i then remove1 t (queue_of k (FlgW i)) else queue_of k w)"
  using queue_of_delete [OF midwayD [OF assms(1)] assms(2)] by (simp add: flg_release_def)

lemma set_flg_loop_midway:
  "midway k \<Longrightarrow> set ws \<subseteq> set (queue_of k (FlgW i)) \<Longrightarrow> distinct ws \<Longrightarrow> midway (set_flg_loop i ws k)"
proof (induction ws arbitrary: k)
  case (Cons t ws)
  obtain r k1 where r: "check_flg_cond i (w_waiptn (p_winfo (task k t))) (w_wfmode (p_winfo (task k t))) k = (r, k1)"
    by (metis surj_pair)
  then have k1: "midway k1" "ts k1 = ts k"
    using Cons.prems(1) check_flg_cond_frame(1,4) [of i "w_waiptn (p_winfo (task k t))" "w_wfmode (p_winfo (task k t))" k] by simp_all
  have t: "t \<in> set (queue_of k1 (FlgW i))" using Cons.prems(2) k1(2) by simp
  show ?case
  proof (cases r)
    case None
    then show ?thesis using Cons.IH [OF k1(1)] Cons.prems k1(2) by (simp only: set_flg_loop_step r) simp
  next
    case (Some ptn)
    let ?k3 = "flg_release i t ptn k1"
    have "queue_of ?k3 (FlgW i) = remove1 t (queue_of k1 (FlgW i))" using flg_release_queue [OF k1(1) t] by simp
    moreover have "distinct (queue_of k1 (FlgW i))" by (rule core_distinct [OF consistentD(1) [OF midwayD [OF k1(1)]]])
    ultimately have "set ws \<subseteq> set (queue_of ?k3 (FlgW i))" using Cons.prems k1(2) by auto
    then have "midway (set_flg_loop i ws ?k3)"
      using Cons.prems(3) by (intro Cons.IH flg_release_midway [OF k1(1) t]) simp_all
    then show ?thesis using flg_release_midway [OF k1(1) t] Some by (simp only: set_flg_loop_step r) (simp add: Let_def)
  qed
qed simp

lemma eventflag_settled [pres]:
  shows "settled k \<Longrightarrow> settled (snd (set_flg flgid p k))"
    and "settled k \<Longrightarrow> settled (snd (clr_flg flgid p k))"
    and "in_task k \<Longrightarrow> settled (snd (fst (wai_flg flgid p m k)))"
    and "settled k \<Longrightarrow> settled (snd (fst (pol_flg flgid p m k)))"
    and "in_task k \<Longrightarrow> settled (snd (fst (twai_flg flgid p m tmout k)))"
    and "settled k \<Longrightarrow> settled (snd (ini_flg flgid k))"
    and "settled k \<Longrightarrow> settled (snd (del_flg flgid k))"
    and "settled k \<Longrightarrow> settled (snd (fst (ref_flg flgid k)))"
proof -
  show "settled k \<Longrightarrow> settled (snd (set_flg flgid p k))"
  proof -
    assume s: "settled k"
    define k1 where "k1 = (if \<not> sense_lock k then lock_cpu k else k)"
    have m: "midway k1" "settled k1" using s by (simp_all add: k1_def settled_lock midway_lock settled_midway)
    define i where "i = INDEX flgid"
    define k2 where "k2 = set_flgptn i (flgptn (flgcb k1 i) OR p) k1"
    have "midway (set_flg_loop i (queue_of k2 (FlgW i)) k2)"
      using m core_distinct [OF consistentD(1) [OF midwayD [OF m(1)]], of "WaitQ (FlgW i)"]
      by (intro set_flg_loop_midway) (simp_all add: k2_def)
    then have "settled (dispatch_or_request (set_flg_loop i (queue_of k2 (FlgW i)) k2))" by (rule dispatch_or_request_settled)
    then show ?thesis using s m(2)
      by (simp add: set_flg_def Let_def i_def [symmetric] k1_def [symmetric] k2_def [symmetric])
  qed
  show "settled k \<Longrightarrow> settled (snd (clr_flg flgid p k))" by (simp add: clr_flg_def Let_def settled_lock)
  show "settled k \<Longrightarrow> settled (snd (fst (ref_flg flgid k)))" by (simp add: ref_flg_def Let_def settled_lock)
  show "in_task k \<Longrightarrow> settled (snd (fst (wai_flg flgid p m k)))"
    using lock_entry_task [of k]
    by (auto simp: wai_flg_def Let_def case_prod_unfold dispatch_error_def intro!: pres split: option.split)
  show "settled k \<Longrightarrow> settled (snd (fst (pol_flg flgid p m k)))"
    using lock_entry [of k] by (auto simp: pol_flg_def Let_def case_prod_unfold split: option.split)
  show "in_task k \<Longrightarrow> settled (snd (fst (twai_flg flgid p m tmout k)))"
    using lock_entry_task [of k]
    by (auto simp: twai_flg_def Let_def case_prod_unfold dispatch_error_def intro!: pres split: option.split)
  show "settled k \<Longrightarrow> settled (snd (ini_flg flgid k))"
    using lock_entry [of k] by (auto simp: ini_flg_def Let_def ctx_error_def intro!: pres dispatch_if_needed_settled)
  show "settled k \<Longrightarrow> settled (snd (del_flg flgid k))"
    using lock_entry [of k] by (auto simp: del_flg_def Let_def ctx_error_def intro!: pres dispatch_if_needed_settled)
qed


lemma set_flg_loop_keeps: "K \<noteq> KFlg \<Longrightarrow> keeps K k k' \<Longrightarrow> keeps K k (set_flg_loop i ws k')"
proof (induction ws arbitrary: k')
  case (Cons t ws)
  obtain r k1 where r: "check_flg_cond i (w_waiptn (p_winfo (task k' t))) (w_wfmode (p_winfo (task k' t))) k' = (r, k1)"
    by (metis surj_pair)
  then have k1: "keeps K k k1"
    using Cons.prems check_flg_cond_frame(5) [of K k i "w_waiptn (p_winfo (task k' t))" "w_wfmode (p_winfo (task k' t))" k'] by simp
  then have "keeps K k (flg_release i t ptn k1)" for ptn unfolding flg_release_def by (intro frame)
  then show ?case using Cons k1 by (cases r) (simp_all only: set_flg_loop_step r, simp_all add: Let_def)
qed simp

text \<open>Event flag calls touch no other kind of object.\<close>

lemma set_flg_keeps:
  assumes "K \<noteq> KFlg" shows "keeps K k (snd (set_flg flgid p k))"
proof -
  define k1 where "k1 = (if \<not> sense_lock k then lock_cpu k else k)"
  have "keeps K k k1" by (simp add: k1_def)
  then have "keeps K k (dispatch_or_request (set_flg_loop i ws (set_flgptn i ptn k1)))" for i ws ptn
    using assms by (intro frame set_flg_loop_keeps) simp_all
  then show ?thesis using \<open>keeps K k k1\<close> by (simp add: set_flg_def Let_def k1_def [symmetric])
qed

lemma eventflag_keeps:
  assumes "K \<noteq> KFlg"
  shows "keeps K k (snd (clr_flg flgid p k))"
    "keeps K k (snd (fst (wai_flg flgid p m k)))" "keeps K k (snd (fst (pol_flg flgid p m k)))"
    "keeps K k (snd (fst (twai_flg flgid p m tmout k)))" "keeps K k (snd (ini_flg flgid k))"
    "keeps K k (snd (del_flg flgid k))" "keeps K k (snd (fst (ref_flg flgid k)))"
  using assms
  by (auto simp: clr_flg_def wai_flg_def pol_flg_def twai_flg_def ini_flg_def del_flg_def ref_flg_def
      Let_def case_prod_unfold intro!: frame split: option.split)

section \<open>What setting a pattern does\<close>

text \<open>The tasks of \<open>ws\<close> that a flag with pattern \<open>ptn\<close> releases.\<close>

definition flg_waits_for :: "kernel \<Rightarrow> FLGPTN \<Rightarrow> nat \<Rightarrow> bool" where
  "flg_waits_for k ptn t \<longleftrightarrow> flg_cond ptn (w_waiptn (p_winfo (task k t))) (w_wfmode (p_winfo (task k t)))"

definition flg_served :: "bool \<Rightarrow> (nat \<Rightarrow> bool) \<Rightarrow> nat list \<Rightarrow> nat list" where
  "flg_served clr P ws = (if clr then take 1 (filter P ws) else filter P ws)"

lemma flg_release_task:
  "w_waiptn (p_winfo (task (flg_release i t ptn k) t)) = ptn"
  "w_u (p_winfo (task (flg_release i t ptn k) t)) = Wercd E_OK"
  "\<not> TSTAT_WAITING (tstat (task (flg_release i t ptn k) t))"
  "u \<noteq> t \<Longrightarrow> task (flg_release i t ptn k) u = task k u"
  by (simp_all add: flg_release_def wait_complete_task)

lemma flg_release_tables: "flgcb (flg_release i t ptn k) = flgcb k" "flginib (flg_release i t ptn k) = flginib k"
proof -
  have "same_tables k (flg_release i t ptn k)" unfolding flg_release_def by (intro same_tables_complete same_tables_upd) auto
  then show "flgcb (flg_release i t ptn k) = flgcb k" "flginib (flg_release i t ptn k) = flginib k"
    by (simp_all add: same_tables_sel)
qed

text \<open>
  \<open>flg_result i served k k'\<close>: the tasks \<open>served\<close> left the queue of the flag with the pattern they
  met, a self-clearing flag that served somebody is cleared, and no other task changed.
\<close>

definition flg_result :: "nat \<Rightarrow> nat list \<Rightarrow> kernel \<Rightarrow> kernel \<Rightarrow> bool" where
  "flg_result i served k k' \<longleftrightarrow>
     queue_of k' (FlgW i) = filter (\<lambda>t. t \<notin> set served) (queue_of k (FlgW i)) \<and>
     flgptn (flgcb k' i) = (if flgatr (flginib k i) AND TA_CLR \<noteq> 0 \<and> served \<noteq> [] then 0 else flgptn (flgcb k i)) \<and>
     (\<forall>t \<in> set served. w_waiptn (p_winfo (task k' t)) = flgptn (flgcb k i) \<and>
        w_u (p_winfo (task k' t)) = Wercd E_OK \<and> \<not> TSTAT_WAITING (tstat (task k' t))) \<and>
     (\<forall>t. t \<notin> set served \<longrightarrow> task k' t = task k t)"

lemma filter_remove1: "distinct xs \<Longrightarrow> filter P (remove1 t xs) = filter (\<lambda>x. x \<noteq> t \<and> P x) xs"
  by (auto simp: distinct_remove1_removeAll removeAll_filter_not_eq intro: filter_cong)

lemma flg_release_result:
  assumes m: "midway k" and t: "t \<in> set (queue_of k (FlgW i))"
    and ptn: "ptn = flgptn (flgcb k i)"
  shows "flgatr (flginib k i) AND TA_CLR = 0 \<Longrightarrow> flg_result i [t] k (flg_release i t ptn k)"
    and "flgatr (flginib k i) AND TA_CLR \<noteq> 0 \<Longrightarrow> flg_result i [t] k (flg_release i t ptn (set_flgptn i 0 k))"
proof -
  have d: "distinct (queue_of k (FlgW i))" by (rule core_distinct [OF consistentD(1) [OF midwayD [OF m]]])
  have rm: "remove1 t (queue_of k (FlgW i)) = filter (\<lambda>x. x \<noteq> t) (queue_of k (FlgW i))"
    using filter_remove1 [OF d, of "\<lambda>x. True" t] by simp
  have m2: "midway (set_flgptn i 0 k)" "t \<in> set (queue_of (set_flgptn i 0 k) (FlgW i))" using m t by simp_all
  show "flgatr (flginib k i) AND TA_CLR = 0 \<Longrightarrow> flg_result i [t] k (flg_release i t ptn k)"
    using flg_release_queue [OF m t] by (simp add: flg_result_def flg_release_task flg_release_tables rm ptn)
  show "flgatr (flginib k i) AND TA_CLR \<noteq> 0 \<Longrightarrow> flg_result i [t] k (flg_release i t ptn (set_flgptn i 0 k))"
    using flg_release_queue [OF m2] by (simp add: flg_result_def flg_release_task flg_release_tables rm ptn)
qed

lemma set_flg_loop_spec:
  assumes "midway k" "set ws \<subseteq> set (queue_of k (FlgW i))" "distinct ws"
  shows "flg_result i (flg_served (flgatr (flginib k i) AND TA_CLR \<noteq> 0) (flg_waits_for k (flgptn (flgcb k i))) ws)
    k (set_flg_loop i ws k)"
  using assms
proof (induction ws arbitrary: k)
  case Nil
  then show ?case by (simp add: flg_result_def flg_served_def)
next
  case (Cons t ws)
  let ?ptn = "flgptn (flgcb k i)"
  have t: "t \<in> set (queue_of k (FlgW i))" using Cons.prems(2) by simp
  show ?case
  proof (cases "flg_waits_for k ?ptn t")
    case False
    then have c: "check_flg_cond i (w_waiptn (p_winfo (task k t))) (w_wfmode (p_winfo (task k t))) k = (None, k)"
      by (simp add: check_flg_cond_def flg_waits_for_def Let_def)
    have "flg_served b (flg_waits_for k ?ptn) (t # ws) = flg_served b (flg_waits_for k ?ptn) ws" for b
      using False by (simp add: flg_served_def)
    moreover have "set_flg_loop i (t # ws) k = set_flg_loop i ws k" by (simp only: set_flg_loop_step c) simp
    ultimately show ?thesis using Cons.IH [OF Cons.prems(1)] Cons.prems(2,3) by simp
  next
    case True
    then have cond: "flg_cond ?ptn (w_waiptn (p_winfo (task k t))) (w_wfmode (p_winfo (task k t)))"
      by (simp add: flg_waits_for_def)
    show ?thesis
    proof (cases "flgatr (flginib k i) AND TA_CLR = 0")
      case False
      then have c: "check_flg_cond i (w_waiptn (p_winfo (task k t))) (w_wfmode (p_winfo (task k t))) k =
          (Some ?ptn, set_flgptn i 0 k)" using cond by (simp add: check_flg_cond_def Let_def)
      show ?thesis using flg_release_result(2) [OF Cons.prems(1) t refl False] True False
        by (simp only: set_flg_loop_step c) (simp add: flg_served_def Let_def flg_release_tables)
    next
      case clr: True
      then have c: "check_flg_cond i (w_waiptn (p_winfo (task k t))) (w_wfmode (p_winfo (task k t))) k = (Some ?ptn, k)"
        using cond by (simp add: check_flg_cond_def Let_def)
      define k3 where "k3 = flg_release i t ?ptn k"
      have q3: "queue_of k3 (FlgW i) = remove1 t (queue_of k (FlgW i))"
        using flg_release_queue [OF Cons.prems(1) t] by (simp add: k3_def)
      have d: "distinct (queue_of k (FlgW i))" by (rule core_distinct [OF consistentD(1) [OF midwayD [OF Cons.prems(1)]]])
      have r3: "flg_result i [t] k k3" unfolding k3_def by (rule flg_release_result(1) [OF Cons.prems(1) t refl clr])
      have tab: "flgcb k3 = flgcb k" "flginib k3 = flginib k" by (simp_all add: k3_def flg_release_tables)
      have "set ws \<subseteq> set (queue_of k3 (FlgW i))" using Cons.prems(2,3) d by (auto simp: q3)
      moreover have "midway k3" unfolding k3_def by (rule flg_release_midway [OF Cons.prems(1) t])
      ultimately have IH: "flg_result i (flg_served False (flg_waits_for k3 ?ptn) ws) k3 (set_flg_loop i ws k3)"
        using Cons.IH [of k3] Cons.prems(3) clr by (simp add: tab)
      have "flg_waits_for k3 ?ptn u = flg_waits_for k ?ptn u" if "u \<in> set ws" for u
        using that Cons.prems(3) r3 by (auto simp: flg_waits_for_def flg_result_def)
      then have sv: "flg_served False (flg_waits_for k3 ?ptn) ws = filter (flg_waits_for k ?ptn) ws"
        by (simp add: flg_served_def cong: filter_cong)
      have "set_flg_loop i (t # ws) k = set_flg_loop i ws k3"
        using clr by (simp only: set_flg_loop_step c) (simp add: Let_def k3_def [symmetric] tab)
      moreover have "flg_result i (t # filter (flg_waits_for k ?ptn) ws) k (set_flg_loop i ws k3)"
        using IH r3 Cons.prems(3) clr unfolding sv by (auto simp: flg_result_def tab filter_remove1 [OF d] q3)
      ultimately show ?thesis using clr True by (simp add: flg_served_def)
    qed
  qed
qed

end
