(* ===== verification/Buffer.thy ===== *)
theory Buffer
  imports Prelude "HOL-Library.Multiset"
begin

text \<open>
  The interface between a kernel object that holds messages and the management area it keeps
  them in. \<open>put\<close> adds an item and \<open>get\<close> takes the first one out; \<open>place\<close> says where a new item
  goes: at the end in a data queue, by priority in a priority data queue.
\<close>

locale bounded_buffer =
  fixes put :: "'d \<Rightarrow> 's \<Rightarrow> 's"
    and get :: "'s \<Rightarrow> 'd \<times> 's"
    and count :: "'s \<Rightarrow> nat"
    and repr :: "'s \<Rightarrow> 'd list \<Rightarrow> bool"
    and place :: "'d \<Rightarrow> 'd list \<Rightarrow> 'd list"
    and cap :: nat
  assumes bounded: "repr s L \<Longrightarrow> length L \<le> cap"
    and count: "repr s L \<Longrightarrow> count s = length L"
    and put: "repr s L \<Longrightarrow> length L < cap \<Longrightarrow> repr (put d s) (place d L)"
    and get: "repr s (d # L) \<Longrightarrow> \<exists>s'. get s = (d, s') \<and> repr s' L"
    and place: "mset (place d L) = add_mset d (mset L)"
begin

lemma length_place: "length (place d L) = Suc (length L)"
  using place [of d L] by (metis size_add_mset size_mset)

text \<open>An item taken out makes room for one that waits.\<close>

lemma exchange:
  assumes "repr s (d # L)"
  shows "\<exists>s'. get s = (d, s') \<and> repr (put e s') (place e L) \<and> count (put e s') = count s"
proof -
  obtain s' where s': "get s = (d, s')" "repr s' L" using get [OF assms] by blast
  have "repr (put e s') (place e L)" using put [OF s'(2)] bounded [OF assms] by simp
  then show ?thesis using s' count [OF assms] count length_place by auto
qed

primrec put_all :: "'d list \<Rightarrow> 's \<Rightarrow> 's" where
  "put_all [] s = s"
| "put_all (d # ds) s = put_all ds (put d s)"

primrec get_all :: "nat \<Rightarrow> 's \<Rightarrow> 'd list \<times> 's" where
  "get_all 0 s = ([], s)"
| "get_all (Suc n) s = (case get s of (d, s1) \<Rightarrow> case get_all n s1 of (ds, s2) \<Rightarrow> (d # ds, s2))"

lemma get_all_content: "repr s L \<Longrightarrow> \<exists>s'. get_all (length L) s = (L, s') \<and> repr s' []"
proof (induction L arbitrary: s)
  case (Cons d L)
  obtain s' where s': "get s = (d, s')" "repr s' L" using get [OF Cons.prems] by blast
  then show ?case using Cons.IH [of s'] by auto
qed simp

lemma put_all_content:
  "repr s L \<Longrightarrow> length L + length ds \<le> cap \<Longrightarrow> repr (put_all ds s) (fold place ds L)"
proof (induction ds arbitrary: s L)
  case (Cons d ds)
  then show ?case using put [of s L d] length_place by simp
qed simp

text \<open>Nothing is lost, made up or duplicated.\<close>

lemma put_get_all:
  assumes "repr s []" "length ds \<le> cap"
  shows "\<exists>s'. get_all (length ds) (put_all ds s) = (fold place ds [], s') \<and> repr s' [] \<and>
    mset (fold place ds []) = mset ds"
proof -
  have m: "mset (fold place ds L) = mset ds + mset L" for L
    by (induction ds arbitrary: L) (simp_all add: place)
  have "length (fold place ds []) = length ds" using m [of "[]"] by (metis add.right_neutral mset.simps(1) size_mset)
  then show ?thesis
    using get_all_content [OF put_all_content [OF assms(1), of ds]] assms(2) m [of "[]"] by auto
qed

end

end
