(* ===== verification/Mailbox.thy ===== *)
theory Mailbox
  imports Wait Buffer
begin

unbundle bit_operations_syntax

text \<open>
  What data queues and priority data queues share: a buffer, a line of senders that wait for
  space and a line of receivers that wait for data, and the two routines that bring an item to
  a receiver or into the buffer and take the next item out. \<open>mailbox\<close> is proved once and
  interpreted on the operations of dataqueue.c and of pridataq.c.
\<close>

section \<open>The memory pool\<close>

lemma mpk_frame [simp]:
  "midway (free_mpk p k) = midway k" "settled (free_mpk p k) = settled k"
  "keeps K k' (free_mpk p k) = keeps K k' k" "ts (free_mpk p k) = ts k"
  "midway (snd (malloc_mpk n k)) = midway k" "settled (snd (malloc_mpk n k)) = settled k"
  "keeps K k' (snd (malloc_mpk n k)) = keeps K k' k" "ts (snd (malloc_mpk n k)) = ts k"
  by (simp_all add: free_mpk_def malloc_mpk_def Let_def)

section \<open>Serving the first waiter\<close>

lemma take_first:
  assumes c: "consistent k" and q: "queue_of k w = t # us"
  shows "take_waiter w k = (t, map_ts (queue_delete_task t) k)"
    "queue_of (map_ts (queue_delete_task t) k) v = (if v = w then us else queue_of k v)"
proof -
  obtain t' k' where k': "take_waiter w k = (t', k')" by (cases "take_waiter w k")
  show "take_waiter w k = (t, map_ts (queue_delete_task t) k)"
    using take_waiter_detached(2,3) [OF c _ k'] q k' by simp
  show "queue_of (map_ts (queue_delete_task t) k) v = (if v = w then us else queue_of k v)"
    using queue_of_delete [OF c, of t w v] q by simp
qed

text \<open>
  \<open>woken f t k k'\<close>: the task \<open>t\<close> has been released from its wait with \<open>E_OK\<close> and \<open>f\<close> applied to its
  waiting information; no other task changed.
\<close>

definition woken :: "(tmevtb_ref winfo \<Rightarrow> tmevtb_ref winfo) \<Rightarrow> nat \<Rightarrow> kernel \<Rightarrow> kernel \<Rightarrow> bool" where
  "woken f t k k' \<longleftrightarrow>
     task k' t = (task k t)\<lparr>p_winfo := (f (p_winfo (task k t)))\<lparr>w_u := Wercd E_OK\<rparr>,
       tstat := (if TSTAT_SUSPENDED (tstat (task k t)) then TS_SUSPENDED else TS_RUNNABLE)\<rparr> \<and>
     (\<forall>u. u \<noteq> t \<longrightarrow> task k' u = task k u)"

lemma woken_complete:
  "woken f t k (wait_complete t (upd_winfo t f (map_ts (queue_delete_task t) k)))"
  "woken (\<lambda>i. i) t k (wait_complete t (map_ts (queue_delete_task t) k))"
  by (simp_all add: woken_def wait_complete_task)

section \<open>The shared routines\<close>

locale mailbox =
  fixes put :: "uint \<Rightarrow> 'd \<Rightarrow> 's \<Rightarrow> 's"
    and get :: "uint \<Rightarrow> 's \<Rightarrow> 'd \<times> 's"
    and count :: "'s \<Rightarrow> uint"
    and repr :: "uint \<Rightarrow> 's \<Rightarrow> 'd list \<Rightarrow> bool"
    and place :: "'d \<Rightarrow> 'd list \<Rightarrow> 'd list"
    and cb :: "kernel \<Rightarrow> 's"
    and upd :: "('s \<Rightarrow> 's) \<Rightarrow> kernel \<Rightarrow> kernel"
    and cnt :: "kernel \<Rightarrow> uint"
    and sq :: wobj and rq :: wobj
    and give :: "'d \<Rightarrow> tmevtb_ref winfo \<Rightarrow> tmevtb_ref winfo"
    and item :: "tmevtb_ref winfo \<Rightarrow> 'd"
    and send :: "'d \<Rightarrow> kernel \<Rightarrow> bool \<times> kernel"
    and receive :: "kernel \<Rightarrow> 'd option \<times> kernel"
    and kd :: kind
  assumes buffer: "bounded_buffer (put c) (get c) (\<lambda>s. unat (count s)) (repr c) place (unat c)"
    and cb_upd: "cb (upd f k) = f (cb k)"
    and cnt_upd: "cnt (upd f k) = cnt k"
    and ts_upd: "ts (upd f k) = ts k"
    and map_upd: "map_ts g (upd f k) = upd f (map_ts g k)"
    and midway_upd: "midway (upd f k) = midway k"
    and keeps_upd: "K \<noteq> kd \<Longrightarrow> keeps K k' (upd f k) = keeps K k' k"
    and tables: "same_tables k k' \<Longrightarrow> cb k' = cb k \<and> cnt k' = cnt k"
    and distinct_queues: "sq \<noteq> rq"
    and give: "w_u (give d i) = w_u i" "p_wobjcb (give d i) = p_wobjcb i" "item (give d i) = d"
    and item: "item (i\<lparr>w_u := u\<rparr>) = item i"
    and send: "send d k =
      (if queue_of k rq \<noteq> [] then
         let (t, k1) = take_waiter rq k in (True, wait_complete t (upd_winfo t (give d) k1))
       else if count (cb k) < cnt k then (True, upd (put (cnt k) d) k)
       else (False, k))"
    and receive: "receive k =
      (if count (cb k) > 0 then
         let (d, b) = get (cnt k) (cb k); k1 = upd (\<lambda>_. b) k
         in if queue_of k1 sq \<noteq> [] then
              let (t, k2) = take_waiter sq k1;
                  k3 = upd (put (cnt k2) (item (p_winfo (task k2 t)))) k2
              in (Some d, wait_complete t k3)
            else (Some d, k1)
       else if queue_of k sq \<noteq> [] then
         let (t, k1) = take_waiter sq k in (Some (item (p_winfo (task k1 t))), wait_complete t k1)
       else (None, k))"
begin

lemma take_upd: "take_waiter w (upd f k) = (fst (take_waiter w k), upd f (snd (take_waiter w k)))"
  by (simp add: take_waiter_def case_prod_unfold ts_upd map_upd Let_def)

lemma refused:
  "\<not> fst (send d k) \<Longrightarrow> snd (send d k) = k" "fst (receive k) = None \<Longrightarrow> snd (receive k) = k"
  by (auto simp: send receive case_prod_unfold Let_def split: if_splits)

lemma complete_upd: "midway k \<Longrightarrow> queue_of k w \<noteq> [] \<Longrightarrow>
  midway (wait_complete (fst (take_waiter w k)) (upd f (snd (take_waiter w k))))"
  using take_wait_complete_midway [of "upd f k" w] by (simp add: take_upd midway_upd ts_upd)

lemma midway_kept: "midway k \<Longrightarrow> midway (snd (send d k))" "midway k \<Longrightarrow> midway (snd (receive k))"
  using complete_upd [of "upd f k" sq g for f g]
  by (auto simp: send receive case_prod_unfold Let_def take_upd midway_upd ts_upd give
      intro!: take_give_complete_midway take_wait_complete_midway)

lemma keeps_kept:
  assumes "K \<noteq> kd" "keeps K k k'"
  shows "keeps K k (snd (send d k'))" "keeps K k (snd (receive k'))"
  using assms by (auto simp: send receive case_prod_unfold Let_def take_upd keeps_upd intro!: frame)

text \<open>
  \<open>ok k L\<close>: the buffer holds \<open>L\<close>; senders wait only while it is full, receivers only while it is
  empty and nobody sends.
\<close>

definition ok :: "kernel \<Rightarrow> 'd list \<Rightarrow> bool" where
  "ok k L \<longleftrightarrow> repr (cnt k) (cb k) L \<and>
     (queue_of k sq \<noteq> [] \<longrightarrow> length L = unat (cnt k)) \<and>
     (queue_of k rq \<noteq> [] \<longrightarrow> L = [] \<and> queue_of k sq = [])"

definition senders :: "kernel \<Rightarrow> 'd list" where
  "senders k = map (\<lambda>t. item (p_winfo (task k t))) (queue_of k sq)"

lemmas buf = bounded_buffer.put [OF buffer] bounded_buffer.get [OF buffer] bounded_buffer.count [OF buffer]
  bounded_buffer.bounded [OF buffer] bounded_buffer.exchange [OF buffer] bounded_buffer.length_place [OF buffer]

lemma count_pos: "ok k L \<Longrightarrow> 0 < count (cb k) \<longleftrightarrow> L \<noteq> []"
  using buf(3) [of "cnt k" "cb k" L] by (simp add: ok_def word_less_nat_alt)

lemma complete_sel:
  "cb (wait_complete t (upd f (map_ts g k))) = f (cb k)" "cnt (wait_complete t (upd f (map_ts g k))) = cnt k"
  "cb (wait_complete t (map_ts g k)) = cb k" "cnt (wait_complete t (map_ts g k)) = cnt k"
  "cb (wait_complete t (upd_winfo t h (map_ts g k))) = cb k" "cnt (wait_complete t (upd_winfo t h (map_ts g k))) = cnt k"
proof -
  have 1: "same_tables k' (wait_complete t k')" for k' by auto
  have 2: "same_tables k (map_ts g k)" by simp
  have 3: "same_tables k' (upd_winfo t h k')" for k' by auto
  show "cb (wait_complete t (upd f (map_ts g k))) = f (cb k)" "cnt (wait_complete t (upd f (map_ts g k))) = cnt k"
    "cb (wait_complete t (map_ts g k)) = cb k" "cnt (wait_complete t (map_ts g k)) = cnt k"
    "cb (wait_complete t (upd_winfo t h (map_ts g k))) = cb k" "cnt (wait_complete t (upd_winfo t h (map_ts g k))) = cnt k"
    using tables [OF 1] tables [OF 2] tables [OF 3] by (simp_all add: cb_upd cnt_upd)
qed

text \<open>Sending: to the first receiver, else into the buffer, else refused.\<close>

lemma send_spec:
  assumes m: "midway k" and o: "ok k L" and s: "send d k = (sent, k')"
  shows "queue_of k rq = t # us \<Longrightarrow> sent \<and> ok k' [] \<and> queue_of k' rq = us \<and> queue_of k' sq = [] \<and> woken (give d) t k k'"
    and "queue_of k rq = [] \<Longrightarrow> length L < unat (cnt k) \<Longrightarrow> sent \<and> ok k' (place d L) \<and> ts k' = ts k \<and> queue_of k sq = []"
    and "queue_of k rq = [] \<Longrightarrow> length L = unat (cnt k) \<Longrightarrow> \<not> sent \<and> k' = k"
proof -
  note c = midwayD [OF m]
  show "sent \<and> ok k' [] \<and> queue_of k' rq = us \<and> queue_of k' sq = [] \<and> woken (give d) t k k'" if q: "queue_of k rq = t # us"
  proof -
    have k': "k' = wait_complete t (upd_winfo t (give d) (map_ts (queue_delete_task t) k))" "sent"
      using s q take_first(1) [OF c q] by (auto simp: send)
    have "L = []" "queue_of k sq = []" using o q by (simp_all add: ok_def)
    then show ?thesis using o take_first(2) [OF c q] woken_complete(1) [of "give d" t k] distinct_queues
      by (simp add: k' ok_def complete_sel)
  qed
  have cl: "count (cb k) < cnt k \<longleftrightarrow> length L < unat (cnt k)"
    using buf(3) [of "cnt k" "cb k" L] o by (simp add: ok_def word_less_nat_alt)
  show "sent \<and> ok k' (place d L) \<and> ts k' = ts k \<and> queue_of k sq = []" if "queue_of k rq = []" "length L < unat (cnt k)"
    using that s o cl buf(1) [of "cnt k" "cb k" L d] by (auto simp: send ok_def cb_upd cnt_upd ts_upd)
  show "\<not> sent \<and> k' = k" if "queue_of k rq = []" "length L = unat (cnt k)"
    using that s cl by (simp add: send)
qed

text \<open>Receiving: the first item of the buffer, whose place a waiting sender fills; else the item
  of the first sender; else nothing.\<close>

lemma receive_spec:
  assumes m: "midway k" and o: "ok k L" and r: "receive k = (r, k')"
  shows "L = [] \<Longrightarrow> queue_of k sq = [] \<Longrightarrow> r = None \<and> k' = k"
    and "L = d # L1 \<Longrightarrow> queue_of k sq = [] \<Longrightarrow> r = Some d \<and> ok k' L1 \<and> ts k' = ts k"
    and "L = d # L1 \<Longrightarrow> queue_of k sq = t # us \<Longrightarrow>
      r = Some d \<and> ok k' (place (item (p_winfo (task k t))) L1) \<and> queue_of k' sq = us \<and> woken (\<lambda>i. i) t k k'"
    and "L = [] \<Longrightarrow> queue_of k sq = t # us \<Longrightarrow>
      r = Some (item (p_winfo (task k t))) \<and> ok k' [] \<and> queue_of k' sq = us \<and> woken (\<lambda>i. i) t k k'"
proof -
  note c = midwayD [OF m]
  have rp: "repr (cnt k) (cb k) L" using o by (simp add: ok_def)
  note pos = count_pos [OF o]
  show "r = None \<and> k' = k" if "L = []" "queue_of k sq = []"
    using that r pos by (simp add: receive)
  show "r = Some d \<and> ok k' L1 \<and> ts k' = ts k" if L: "L = d # L1" and q: "queue_of k sq = []"
  proof -
    obtain b where b: "get (cnt k) (cb k) = (d, b)" "repr (cnt k) b L1" using buf(2) [of "cnt k" "cb k" d L1] rp L by auto
    have "r = Some d \<and> k' = upd (\<lambda>_. b) k" using r pos L q b(1) by (simp add: receive ts_upd)
    then show ?thesis using b(2) o L q by (auto simp: ok_def cb_upd cnt_upd ts_upd)
  qed
  show "r = Some d \<and> ok k' (place (item (p_winfo (task k t))) L1) \<and> queue_of k' sq = us \<and> woken (\<lambda>i. i) t k k'"
    if L: "L = d # L1" and q: "queue_of k sq = t # us"
  proof -
    let ?e = "item (p_winfo (task k t))"
    obtain b where b: "get (cnt k) (cb k) = (d, b)" "repr (cnt k) (put (cnt k) ?e b) (place ?e L1)"
      using buf(5) [of "cnt k" "cb k" d L1 ?e] rp L by auto
    have k': "r = Some d" "k' = wait_complete t (upd (put (cnt k) ?e) (upd (\<lambda>_. b) (map_ts (queue_delete_task t) k)))"
      using r pos L q b(1) take_first(1) [OF c q]
      by (simp_all add: receive take_upd ts_upd cnt_upd tables [OF same_tables_map_ts] map_upd)
    have ts: "ts (upd f (upd g x)) = ts x" for f g x by (simp add: ts_upd)
    have "\<not> queue_of k rq \<noteq> []" "length L = unat (cnt k)" using o L q by (auto simp: ok_def)
    have w: "woken (\<lambda>i. i) t k k'"
      using woken_complete(2) [of t k] unfolding k' by (simp add: woken_def wait_complete_task ts)
    show ?thesis using b(2) w \<open>\<not> queue_of k rq \<noteq> []\<close> \<open>length L = unat (cnt k)\<close> L distinct_queues
      unfolding ok_def k'
      by (simp add: ts_upd take_first(2) [OF c q, simplified] tables [OF same_tables_complete [OF same_tables_refl]] cb_upd cnt_upd tables [OF same_tables_map_ts] buf(6))
  qed
  show "r = Some (item (p_winfo (task k t))) \<and> ok k' [] \<and> queue_of k' sq = us \<and> woken (\<lambda>i. i) t k k'"
    if L: "L = []" and q: "queue_of k sq = t # us"
  proof -
    have k': "r = Some (item (p_winfo (task k t)))" "k' = wait_complete t (map_ts (queue_delete_task t) k)"
      using r pos L q take_first(1) [OF c q] by (simp_all add: receive)
    show ?thesis using o L q woken_complete(2) [of t k] distinct_queues unfolding k'
      by (simp add: ok_def complete_sel take_first(2) [OF c q, simplified])
  qed
qed

lemma refused_ok:
  assumes o: "ok k L"
  shows "\<not> fst (send d k) \<Longrightarrow> queue_of k rq = [] \<and> length L = unat (cnt k)"
    and "fst (receive k) = None \<Longrightarrow> L = [] \<and> queue_of k sq = []"
proof -
  have c: "unat (count (cb k)) = length L" "length L \<le> unat (cnt k)"
    using buf(3,4) [of "cnt k" "cb k" L] o by (simp_all add: ok_def)
  show "queue_of k rq = [] \<and> length L = unat (cnt k)" if "\<not> fst (send d k)"
    using that c by (auto simp: send case_prod_unfold Let_def word_less_nat_alt split: if_splits)
  show "L = [] \<and> queue_of k sq = []" if "fst (receive k) = None"
    using that count_pos [OF o] by (simp add: receive case_prod_unfold Let_def split: if_splits)
qed

lemma ok_kept:
  assumes m: "midway k" and o: "ok k L"
  shows "\<exists>L'. ok (snd (send d k)) L'" "\<exists>L'. ok (snd (receive k)) L'"
proof -
  have len: "length L \<le> unat (cnt k)" using buf(4) [of "cnt k" "cb k" L] o by (simp add: ok_def)
  note s = send_spec [OF m o, where d = d, OF prod.collapse [symmetric]]
  note r = receive_spec [OF m o, OF prod.collapse [symmetric]]
  show "\<exists>L'. ok (snd (send d k)) L'"
  proof (cases "queue_of k rq")
    case Nil
    then show ?thesis using s(2,3) len o by (cases "length L = unat (cnt k)") auto
  qed (use s(1) in blast)
  show "\<exists>L'. ok (snd (receive k)) L'"
  proof (cases "queue_of k sq")
    case Nil
    then show ?thesis using r(1,2) o by (cases L) auto
  next
    case Cons
    then show ?thesis using r(3,4) by (cases L) blast+
  qed
qed

lemma other_queues:
  "v \<noteq> rq \<Longrightarrow> queue_of (snd (send d k)) v = queue_of k v" "v \<noteq> sq \<Longrightarrow> queue_of (snd (receive k)) v = queue_of k v"
  by (simp_all add: send receive case_prod_unfold Let_def take_upd ts_upd take_waiter_def lq_delete_next_def)

end

section \<open>A table of mailboxes\<close>

text \<open>
  \<open>ex k i\<close> says that the object \<open>i\<close> exists and \<open>free k\<close> lists the unused control blocks. The
  invariant \<open>inv\<close> says that every object is in order and that an unused one has no waiting task.
\<close>

locale mailboxes =
  fixes put :: "uint \<Rightarrow> 'd \<Rightarrow> 's \<Rightarrow> 's"
    and get :: "uint \<Rightarrow> 's \<Rightarrow> 'd \<times> 's"
    and count :: "'s \<Rightarrow> uint"
    and repr :: "uint \<Rightarrow> 's \<Rightarrow> 'd list \<Rightarrow> bool"
    and place :: "'d \<Rightarrow> 'd list \<Rightarrow> 'd list"
    and cb :: "kernel \<Rightarrow> nat \<Rightarrow> 's"
    and upd :: "nat \<Rightarrow> ('s \<Rightarrow> 's) \<Rightarrow> kernel \<Rightarrow> kernel"
    and cnt :: "kernel \<Rightarrow> nat \<Rightarrow> uint"
    and sq :: "nat \<Rightarrow> wobj" and rq :: "nat \<Rightarrow> wobj"
    and give :: "'d \<Rightarrow> tmevtb_ref winfo \<Rightarrow> tmevtb_ref winfo"
    and item :: "tmevtb_ref winfo \<Rightarrow> 'd"
    and send :: "nat \<Rightarrow> 'd \<Rightarrow> kernel \<Rightarrow> bool \<times> kernel"
    and receive :: "nat \<Rightarrow> kernel \<Rightarrow> 'd option \<times> kernel"
    and kd :: kind
    and ex :: "kernel \<Rightarrow> nat \<Rightarrow> bool"
    and free :: "kernel \<Rightarrow> nat list"
  assumes box: "mailbox put get count repr place (\<lambda>k. cb k i) (upd i) (\<lambda>k. cnt k i) (sq i) (rq i)
      give item (send i) (receive i) kd"
    and upd_other: "j \<noteq> i \<Longrightarrow> cb (upd i f k) j = cb k j" "cnt (upd i f k) = cnt k" "ex (upd i f k) = ex k"
      "free (upd i f k) = free k"
    and queues_inj: "sq i = sq j \<longleftrightarrow> i = j" "rq i = rq j \<longleftrightarrow> i = j" "sq i \<noteq> rq j"
    and queues_kind: "kind_of (sq i) = kd" "kind_of (rq i) = kd"
    and kept: "same_objects kd k k' \<Longrightarrow> cb k' = cb k \<and> cnt k' = cnt k \<and> ex k' = ex k \<and> free k' = free k"
begin

sublocale box: mailbox put get count repr place "\<lambda>k. cb k i" "upd i" "\<lambda>k. cnt k i" "sq i" "rq i"
    give item "send i" "receive i" kd for i
  by (rule box)

definition inv :: "kernel \<Rightarrow> bool" where
  "inv k \<longleftrightarrow> (\<forall>i. ex k i \<longrightarrow> (\<exists>L. box.ok i k L)) \<and>
     (\<forall>i. \<not> ex k i \<longrightarrow> queue_of k (sq i) = [] \<and> queue_of k (rq i) = []) \<and>
     distinct (free k) \<and> (\<forall>i \<in> set (free k). \<not> ex k i)"

lemma ok_shrink:
  assumes "box.ok i k L" "cb k' i = cb k i" "cnt k' i = cnt k i"
    "queue_of k (sq i) = [] \<Longrightarrow> queue_of k' (sq i) = []" "queue_of k (rq i) = [] \<Longrightarrow> queue_of k' (rq i) = []"
  shows "box.ok i k' L"
  using assms by (auto simp: box.ok_def)

lemma inv_keeps:
  assumes i: "inv k" and k: "keeps kd k k'" shows "inv k'"
proof -
  have t: "cb k' = cb k" "cnt k' = cnt k" "ex k' = ex k" "free k' = free k" using kept k by (auto simp: keeps_def)
  have q: "queue_of k w = [] \<Longrightarrow> queue_of k' w = []" if "kind_of w = kd" for w
    using k that unfolding keeps_def by (metis list.set(1) set_empty subset_empty)
  have "\<exists>L. box.ok i k' L" if e: "ex k i" for i
  proof -
    obtain L where "box.ok i k L" using i e by (auto simp: inv_def)
    then have "box.ok i k' L" by (rule ok_shrink) (simp_all add: t q queues_kind)
    then show ?thesis by blast
  qed
  then show ?thesis using i q queues_kind unfolding inv_def t by blast
qed

text \<open>A step that concerns the object \<open>i\<close> only.\<close>

lemma inv_step:
  assumes i: "inv k" and "ex k i" "\<exists>L. box.ok i k' L" "cnt k' = cnt k" "ex k' = ex k" "free k' = free k"
    and "\<And>j. j \<noteq> i \<Longrightarrow> cb k' j = cb k j"
    and q: "\<And>j. j \<noteq> i \<Longrightarrow> set (queue_of k' (sq j)) \<subseteq> set (queue_of k (sq j)) \<and> set (queue_of k' (rq j)) \<subseteq> set (queue_of k (rq j))"
  shows "inv k'"
proof -
  have e: "queue_of k (sq j) = [] \<Longrightarrow> queue_of k' (sq j) = []" "queue_of k (rq j) = [] \<Longrightarrow> queue_of k' (rq j) = []" if "j \<noteq> i" for j
    using q [OF that] by auto
  have "\<exists>L. box.ok j k' L" if x: "ex k j" for j
  proof (cases "j = i")
    case False
    obtain L where "box.ok j k L" using i x by (auto simp: inv_def)
    then have "box.ok j k' L" by (rule ok_shrink) (simp_all add: assms False e)
    then show ?thesis by blast
  qed (use assms(3) in simp)
  moreover have "queue_of k' (sq j) = [] \<and> queue_of k' (rq j) = []" if "\<not> ex k j" for j
    using assms(2) i that e [of j] by (cases "j = i") (auto simp: inv_def)
  ultimately show ?thesis using i assms unfolding inv_def by auto
qed

lemma sent_tables:
  "cnt (snd (send i d k)) = cnt k" "ex (snd (send i d k)) = ex k" "free (snd (send i d k)) = free k"
  "j \<noteq> i \<Longrightarrow> cb (snd (send i d k)) j = cb k j"
proof -
  let ?t = "fst (take_waiter (rq i) k)" and ?k = "snd (take_waiter (rq i) k)"
  have "same_tables k (wait_complete ?t (upd_winfo ?t (give d) ?k))" by (intro same_tables_complete same_tables_upd) auto
  from kept [OF same_tables_objects [OF this]]
  show "cnt (snd (send i d k)) = cnt k" "ex (snd (send i d k)) = ex k" "free (snd (send i d k)) = free k"
    "j \<noteq> i \<Longrightarrow> cb (snd (send i d k)) j = cb k j"
    by (simp_all add: box.send case_prod_unfold Let_def upd_other)
qed

lemma received_tables:
  "cnt (snd (receive i k)) = cnt k" "ex (snd (receive i k)) = ex k" "free (snd (receive i k)) = free k"
  "j \<noteq> i \<Longrightarrow> cb (snd (receive i k)) j = cb k j"
proof -
  have c: "same_objects kd k' (wait_complete t k')" for t k' by (rule same_tables_objects) auto
  have d: "same_objects kd k (snd (take_waiter (sq i) k))" by (rule same_tables_objects) auto
  show "cnt (snd (receive i k)) = cnt k" "ex (snd (receive i k)) = ex k" "free (snd (receive i k)) = free k"
    "j \<noteq> i \<Longrightarrow> cb (snd (receive i k)) j = cb k j"
    by (simp_all add: box.receive case_prod_unfold Let_def upd_other box.take_upd kept [OF c] kept [OF d])
qed

lemma inv_send:
  assumes m: "midway k" and i: "inv k" and e: "ex k i" shows "inv (snd (send i d k))"
proof -
  obtain L where L: "box.ok i k L" using i e by (auto simp: inv_def)
  then have "\<exists>L. box.ok i (snd (send i d k)) L" by (rule box.ok_kept(1) [OF m])
  then show ?thesis
    by (rule inv_step [OF i e]) (simp_all add: sent_tables box.other_queues queues_inj queues_inj(3) [THEN not_sym])
qed

lemma inv_receive:
  assumes m: "midway k" and i: "inv k" and e: "ex k i" shows "inv (snd (receive i k))"
proof -
  obtain L where L: "box.ok i k L" using i e by (auto simp: inv_def)
  then have "\<exists>L. box.ok i (snd (receive i k)) L" by (rule box.ok_kept(2) [OF m])
  then show ?thesis
    by (rule inv_step [OF i e]) (simp_all add: received_tables box.other_queues queues_inj queues_inj(3) [THEN not_sym])
qed

text \<open>A task joins the line of the senders only when it was refused, and that of the receivers
  only when nothing was there.\<close>

lemma inv_wait:
  assumes m: "midway k" and i: "inv k" and e: "ex k i"
  shows "\<not> fst (send i d k) \<Longrightarrow> joins (sq i) k k' \<Longrightarrow> inv k'"
    and "fst (receive i k) = None \<Longrightarrow> joins (rq i) k k' \<Longrightarrow> inv k'"
proof -
  obtain L where L: "box.ok i k L" using i e by (auto simp: inv_def)
  have t: "cb k' = cb k" "cnt k' = cnt k" "ex k' = ex k" "free k' = free k" if "joins w k k'" for w
    using that kept [OF same_tables_objects] by (auto simp: joins_def)
  have q: "set (queue_of k' v) \<subseteq> set (queue_of k v)" if "joins w k k'" "v \<noteq> w" for v w
    using that by (simp add: joins_def)
  {
    assume j: "joins (sq i) k k'" and f: "\<not> fst (send i d k)"
    have "queue_of k (rq i) = []" "length L = unat (cnt k i)" using box.refused_ok(1) [OF L f] by simp_all
    moreover from this q [OF j queues_inj(3) [THEN not_sym], of i] have "queue_of k' (rq i) = []" by simp
    ultimately have "box.ok i k' L" using L by (simp add: box.ok_def t [OF j])
    then show "inv k'"
      by (intro inv_step [OF i e]) (auto simp: t [OF j] queues_inj queues_inj(3) [THEN not_sym] dest!: subsetD [OF q [OF j], rotated])
  next
    assume j: "joins (rq i) k k'" and f: "fst (receive i k) = None"
    have "L = [] \<and> queue_of k (sq i) = []" by (rule box.refused_ok(2) [OF L f])
    moreover from this q [OF j queues_inj(3), of i] have "queue_of k' (sq i) = []" by simp
    ultimately have "box.ok i k' []" using L by (simp add: box.ok_def t [OF j])
    then show "inv k'"
      by (intro inv_step [OF i e]) (auto simp: t [OF j] queues_inj queues_inj(3) dest!: subsetD [OF q [OF j], rotated])
  }
qed

text \<open>An object without waiting tasks is created, initialised or deleted.\<close>

lemma inv_table:
  assumes i: "inv k" and o: "\<And>j. j \<noteq> i \<Longrightarrow> cb k' j = cb k j \<and> cnt k' j = cnt k j \<and> ex k' j = ex k j"
    and q: "\<And>w. queue_of k' w = queue_of k w" "queue_of k (sq i) = []" "queue_of k (rq i) = []"
    and r: "ex k' i \<Longrightarrow> repr (cnt k' i) (cb k' i) []"
    and f: "distinct (free k')" "\<forall>j \<in> set (free k'). \<not> ex k' j"
  shows "inv k'"
proof -
  have "\<exists>L. box.ok j k' L" if x: "ex k' j" for j
  proof (cases "j = i")
    case True
    then have "box.ok j k' []" using r q x by (simp add: box.ok_def)
    then show ?thesis by blast
  next
    case False
    then obtain L where "box.ok j k L" using i x o by (auto simp: inv_def)
    then have "box.ok j k' L" by (rule ok_shrink) (simp_all add: o False q)
    then show ?thesis by blast
  qed
  moreover have "queue_of k' (sq j) = [] \<and> queue_of k' (rq j) = []" if "\<not> ex k' j" for j
    using that i o q by (cases "j = i") (auto simp: inv_def)
  ultimately show ?thesis using f unfolding inv_def by blast
qed

end

end
