(* ===== verification/Ring.thy ===== *)
theory Ring
  imports Prelude
begin

text \<open>
  Ring buffers as the data queues, the system log and the serial port keep them: an array of \<open>cap\<close> entries, the index of the
  oldest entry, the index of the next free one, and the count. \<open>ring_at cap mem head tail cnt L\<close> says that they
  hold the list \<open>L\<close>, oldest first. The lemmas are those of the three operations: put, get, and put that drops the oldest.
\<close>

definition ring_at :: "32 word \<Rightarrow> (nat \<Rightarrow> 'a) \<Rightarrow> 32 word \<Rightarrow> 32 word \<Rightarrow> 32 word \<Rightarrow> 'a list \<Rightarrow> bool" where
  "ring_at cap mem head tail cnt L \<longleftrightarrow>
     length L = unat cnt \<and> cnt \<le> cap \<and>
     (cap > 0 \<longrightarrow> head < cap \<and> unat tail = (unat head + length L) mod unat cap) \<and>
     (\<forall>j < length L. L ! j = mem ((unat head + j) mod unat cap))"

text \<open>The index after \<open>i\<close>.\<close>

definition ring_next :: "32 word \<Rightarrow> 32 word \<Rightarrow> 32 word" where
  "ring_next cap i = (if i + 1 \<ge> cap then 0 else i + 1)"

lemma ring_next_mod:
  assumes "i < cap"
  shows "unat (ring_next cap i) = (unat i + 1) mod unat cap" "ring_next cap i < cap"
    "ring_next cap i = (if i + 1 = cap then 0 else i + 1)"
proof -
  have u: "unat (i + 1) = unat i + 1" using assms by unat_arith
  show "unat (ring_next cap i) = (unat i + 1) mod unat cap"
  proof (cases "i + 1 \<ge> cap")
    case True
    then have "unat i + 1 = unat cap" using assms u by (simp add: word_le_nat_alt word_less_nat_alt)
    then show ?thesis using True by (simp add: ring_next_def)
  next
    case False
    then have "unat i + 1 < unat cap" using u by (simp add: word_le_nat_alt)
    then show ?thesis using False u by (simp add: ring_next_def)
  qed
  show "ring_next cap i < cap" using assms unfolding ring_next_def by (auto simp: not_le) unat_arith
  have "i + 1 \<ge> cap \<longleftrightarrow> i + 1 = cap" using assms u by (auto simp: word_le_nat_alt word_less_nat_alt word_unat_eq_iff)
  then show "ring_next cap i = (if i + 1 = cap then 0 else i + 1)" by (simp add: ring_next_def)
qed

lemma slot_free:
  fixes c :: nat
  assumes "j < n" "n < c" shows "(h + j) mod c \<noteq> (h + n) mod c"
proof
  assume "(h + j) mod c = (h + n) mod c"
  then have "c dvd (h + n) - (h + j)" using assms by (metis add_le_cancel_left less_imp_le mod_eq_dvd_iff_nat)
  then have "c dvd n - j" by simp
  then show False using assms by (auto dest: dvd_imp_le)
qed

lemma ring_bound: "ring_at cap mem h t c L \<Longrightarrow> length L \<le> unat cap" "ring_at cap mem h t c L \<Longrightarrow> unat c = length L"
  by (simp_all add: ring_at_def word_le_nat_alt)

lemma ring_empty: "0 < cap \<Longrightarrow> ring_at cap mem 0 0 0 []"
  by (simp add: ring_at_def)

lemma ring_put:
  assumes r: "ring_at cap mem h t c L" and n: "length L < unat cap"
  shows "ring_at cap (mem(unat t := d)) h (ring_next cap t) (c + 1) (L @ [d])"
proof -
  have lt: "c < cap" using r n by (simp add: ring_at_def word_less_nat_alt)
  have c: "unat (c + 1) = length L + 1" using r lt by (simp add: ring_at_def) unat_arith
  have h: "h < cap" "unat t = (unat h + length L) mod unat cap" using r lt by (auto simp: ring_at_def) unat_arith+
  have t: "t < cap" using h(2) n by (simp add: word_less_nat_alt)
  have "(L @ [d]) ! j = (mem(unat t := d)) ((unat h + j) mod unat cap)" if "j < length L + 1" for j
    using that r slot_free [of j "length L" "unat cap" "unat h"] n
    by (cases "j = length L") (auto simp: h(2) nth_append ring_at_def)
  moreover have "unat (ring_next cap t) = (unat h + (length L + 1)) mod unat cap"
    unfolding ring_next_mod(1) [OF t] h(2) by (simp add: mod_simps)
  moreover have "c + 1 \<le> cap" using lt by (rule inc_le)
  ultimately show ?thesis using h(1) c unfolding ring_at_def by simp
qed

lemma ring_get:
  assumes r: "ring_at cap mem h t c (d # L)"
  shows "mem (unat h) = d" "ring_at cap mem (ring_next cap h) t (c - 1) L"
proof -
  have le: "c \<le> cap" and c: "unat c = length L + 1" using r by (simp_all add: ring_at_def)
  have pos: "0 < cap" using le c by unat_arith
  have "h < cap \<and> unat t = (unat h + length (d # L)) mod unat cap" using r pos unfolding ring_at_def by blast
  then have h: "h < cap" "unat t = (unat h + (length L + 1)) mod unat cap" by simp_all
  have nth: "(d # L) ! j = mem ((unat h + j) mod unat cap)" if "j < length L + 1" for j using r that by (simp add: ring_at_def)
  show "mem (unat h) = d" using nth [of 0] h(1) by (simp add: word_less_nat_alt)
  have "L ! j = mem ((unat (ring_next cap h) + j) mod unat cap)" if "j < length L" for j
    using nth [of "Suc j"] that unfolding ring_next_mod(1) [OF h(1)] by (simp add: mod_simps)
  moreover have "unat (c - 1) = length L" "c - 1 \<le> cap" using c le by unat_arith+
  moreover have "unat t = (unat (ring_next cap h) + length L) mod unat cap"
    unfolding ring_next_mod(1) [OF h(1)] h(2) by (simp add: mod_simps)
  moreover have "ring_next cap h < cap" by (rule ring_next_mod(2) [OF h(1)])
  ultimately show "ring_at cap mem (ring_next cap h) t (c - 1) L" by (simp add: ring_at_def)
qed

lemma ring_force:
  assumes r: "ring_at cap mem h t c L" and pos: "0 < cap" and len: "length L = unat cap"
  shows "ring_at cap (mem(unat t := d)) (ring_next cap t) (ring_next cap t) c (tl L @ [d])"
proof -
  have c: "c = cap" using r len by (simp add: ring_at_def word_unat_eq_iff)
  have h: "h < cap" "unat t = unat h" using r pos len by (auto simp: ring_at_def word_less_nat_alt)
  then have t: "t = h" by (simp add: word_unat_eq_iff)
  have c0: "0 < unat cap" using pos by (simp add: word_less_nat_alt)
  have "(tl L @ [d]) ! j = (mem(unat t := d)) ((unat (ring_next cap t) + j) mod unat cap)" if "j < unat cap" for j
  proof (cases "j = unat cap - 1")
    case True
    have "(unat h + 1 + (unat cap - 1)) mod unat cap = unat h" using h(1) c0 by (simp add: word_less_nat_alt)
    then show ?thesis using True len unfolding t ring_next_mod(1) [OF h(1)] by (simp add: nth_append mod_simps)
  next
    case False
    then have j: "j < unat cap - 1" using that by simp
    then have "(unat h + 0) mod unat cap \<noteq> (unat h + Suc j) mod unat cap" by (intro slot_free) simp_all
    then have "(unat h + Suc j) mod unat cap \<noteq> unat h" using h(1) by (simp add: word_less_nat_alt)
    then show ?thesis using j len r unfolding t ring_next_mod(1) [OF h(1)] by (simp add: nth_append nth_tl mod_simps ring_at_def)
  qed
  moreover have "ring_next cap t < cap" unfolding t by (rule ring_next_mod(2) [OF h(1)])
  moreover have "length (tl L @ [d]) = unat cap" using len c0 by simp
  ultimately show ?thesis by (auto simp: ring_at_def c word_less_nat_alt)
qed

text \<open>The list as a function of the array and its indices.\<close>

definition ring_list :: "32 word \<Rightarrow> (nat \<Rightarrow> 'a) \<Rightarrow> 32 word \<Rightarrow> 32 word \<Rightarrow> 'a list" where
  "ring_list cap mem head cnt = map (\<lambda>j. mem ((unat head + j) mod unat cap)) [0..<unat cnt]"

lemma ring_list_eq: "ring_at cap mem head tail cnt L \<Longrightarrow> ring_list cap mem head cnt = L"
  by (rule nth_equalityI) (simp_all add: ring_at_def ring_list_def)

end
