(* ===== verification/Dataqueue.thy ===== *)
theory Dataqueue
  imports Mailbox Ring
begin

unbundle bit_operations_syntax

text \<open>
  Data queues, asp3\_dcre/kernel/dataqueue.c: a ring buffer in the management area, a line of
  senders that wait for space and a line of receivers that wait for data. The ring buffer
  implements a bounded FIFO (\<open>ring\<close>); the data queue with its waiting senders is a mailbox
  (\<open>dtq\<close>) and implements a FIFO of unbounded length (\<open>dtq_stream\<close>).
\<close>

section \<open>Operations\<close>

definition dtq_exists :: "kernel \<Rightarrow> nat \<Rightarrow> bool" where
  "dtq_exists k i \<longleftrightarrow> dtqatr (dtqinib k i) \<noteq> TA_NOEXS"

definition upd_dtqcb :: "nat \<Rightarrow> (dtqcb \<Rightarrow> dtqcb) \<Rightarrow> kernel \<Rightarrow> kernel" where
  "upd_dtqcb i f k = k\<lparr>dtqcb := (dtqcb k)(i := f (dtqcb k i))\<rparr>"

definition clear_dtqcb :: "dtqcb \<Rightarrow> dtqcb" where
  "clear_dtqcb b = b\<lparr>dtq_count := 0, dtq_head := 0, dtq_tail := 0\<rparr>"

definition initialize_dataqueue :: "kernel \<Rightarrow> kernel" where
  "initialize_dataqueue k =
     (let n = nat (tmax_sdtqid k); m = nat (tmax_dtqid k);
          k1 = map_ts (\<lambda>s. s\<lparr>queues := (\<lambda>h. case h of WaitQ (SDtqW i) \<Rightarrow> if i < n then [] else queues s h
            | WaitQ (RDtqW i) \<Rightarrow> if i < n then [] else queues s h | _ \<Rightarrow> queues s h)\<rparr>) k
      in k1\<lparr>dtqcb := (\<lambda>i. if i < n then clear_dtqcb (dtqcb k i) else dtqcb k i),
            dtqinib := (\<lambda>i. if n \<le> i \<and> i < m then (dtqinib k i)\<lparr>dtqatr := TA_NOEXS\<rparr> else dtqinib k i),
            free_dtqcb := [n..<m]\<rparr>)"

text \<open>The ring buffer; \<open>cnt\<close> is \<open>dtqcnt\<close> of the queue.\<close>

definition enqueue_data :: "uint \<Rightarrow> intptr_t \<Rightarrow> dtqcb \<Rightarrow> dtqcb" where
  "enqueue_data cnt data b =
     (let b1 = b\<lparr>dtqmb := (dtqmb b)(unat (dtq_tail b) := data)\<rparr>;
          b2 = b1\<lparr>dtq_count := dtq_count b1 + 1\<rparr>;
          b3 = b2\<lparr>dtq_tail := dtq_tail b2 + 1\<rparr>
      in if dtq_tail b3 \<ge> cnt then b3\<lparr>dtq_tail := 0\<rparr> else b3)"

definition force_enqueue_data :: "uint \<Rightarrow> intptr_t \<Rightarrow> dtqcb \<Rightarrow> dtqcb" where
  "force_enqueue_data cnt data b =
     (let b1 = b\<lparr>dtqmb := (dtqmb b)(unat (dtq_tail b) := data)\<rparr>;
          b2 = b1\<lparr>dtq_tail := dtq_tail b1 + 1\<rparr>;
          b3 = (if dtq_tail b2 \<ge> cnt then b2\<lparr>dtq_tail := 0\<rparr> else b2)
      in if dtq_count b3 < cnt then b3\<lparr>dtq_count := dtq_count b3 + 1\<rparr>
         else b3\<lparr>dtq_head := dtq_tail b3\<rparr>)"

definition dequeue_data :: "uint \<Rightarrow> dtqcb \<Rightarrow> intptr_t \<times> dtqcb" where
  "dequeue_data cnt b =
     (let data = dtqmb b (unat (dtq_head b));
          b1 = b\<lparr>dtq_count := dtq_count b - 1\<rparr>;
          b2 = b1\<lparr>dtq_head := dtq_head b1 + 1\<rparr>
      in (data, if dtq_head b2 \<ge> cnt then b2\<lparr>dtq_head := 0\<rparr> else b2))"

definition give_data :: "intptr_t \<Rightarrow> tmevtb_ref winfo \<Rightarrow> tmevtb_ref winfo" where
  "give_data data i = i\<lparr>w_data := data\<rparr>"

definition send_data :: "nat \<Rightarrow> intptr_t \<Rightarrow> kernel \<Rightarrow> bool \<times> kernel" where
  "send_data i data k =
     (if queue_of k (RDtqW i) \<noteq> [] then
        let (t, k1) = take_waiter (RDtqW i) k
        in (True, wait_complete t (upd_winfo t (give_data data) k1))
      else if dtq_count (dtqcb k i) < dtqcnt (dtqinib k i) then
        (True, upd_dtqcb i (enqueue_data (dtqcnt (dtqinib k i)) data) k)
      else (False, k))"

definition force_send_data :: "nat \<Rightarrow> intptr_t \<Rightarrow> kernel \<Rightarrow> kernel" where
  "force_send_data i data k =
     (if queue_of k (RDtqW i) \<noteq> [] then
        let (t, k1) = take_waiter (RDtqW i) k
        in wait_complete t (upd_winfo t (give_data data) k1)
      else upd_dtqcb i (force_enqueue_data (dtqcnt (dtqinib k i)) data) k)"

definition receive_data :: "nat \<Rightarrow> kernel \<Rightarrow> intptr_t option \<times> kernel" where
  "receive_data i k =
     (if dtq_count (dtqcb k i) > 0 then
        let (data, b) = dequeue_data (dtqcnt (dtqinib k i)) (dtqcb k i);
            k1 = upd_dtqcb i (\<lambda>_. b) k
        in if queue_of k1 (SDtqW i) \<noteq> [] then
             let (t, k2) = take_waiter (SDtqW i) k1;
                 k3 = upd_dtqcb i (enqueue_data (dtqcnt (dtqinib k2 i)) (w_data (p_winfo (task k2 t)))) k2
             in (Some data, wait_complete t k3)
           else (Some data, k1)
      else if queue_of k (SDtqW i) \<noteq> [] then
        let (t, k1) = take_waiter (SDtqW i) k
        in (Some (w_data (p_winfo (task k1 t))), wait_complete t k1)
      else (None, k))"

text \<open>
  \<open>dtqmb\<close> is the address of a management area of the caller, 0 for none. \<open>mb_align\<close> is the
  alignment test of the target (\<open>MB_ALIGN\<close>). A \<open>DTQMB\<close> takes 4 bytes.
\<close>

definition acre_dtq :: "(addr \<Rightarrow> bool) \<Rightarrow> ATR \<Rightarrow> uint \<Rightarrow> addr \<Rightarrow> kernel \<Rightarrow> svc \<times> kernel" where
  "acre_dtq mb_align atr cnt mb k =
     (if ctx_error k then (Ret E_CTX, k)
      else if atr AND NOT TA_TPRI \<noteq> 0 then (Ret E_RSATR, k)
      else if mb \<noteq> 0 \<and> \<not> mb_align mb then (Ret E_PAR, k)
      else let k1 = lock_cpu k in
        if tmax_dtqid k1 = 0 \<or> free_dtqcb k1 = [] then leave E_NOID k1
        else let (mb1, atr1, k2) =
                   (if cnt \<noteq> 0 \<and> mb = 0 then let (p, k') = malloc_mpk (4 * cnt) k1 in (p, atr OR TA_MBALLOC, k')
                    else (mb, atr, k1))
             in if cnt \<noteq> 0 \<and> mb1 = 0 then leave E_NOMEM k2
                else let i = hd (free_dtqcb k2);
                         k3 = k2\<lparr>free_dtqcb := tl (free_dtqcb k2),
                                 dtqinib := (dtqinib k2)(i := \<lparr>dtqatr = atr1, dtqcnt = cnt, p_dtqmb = mb1\<rparr>)\<rparr>;
                         k4 = map_ts (\<lambda>s. s\<lparr>queues := (queues s)(WaitQ (SDtqW i) := [])\<rparr>) k3;
                         k5 = map_ts (\<lambda>s. s\<lparr>queues := (queues s)(WaitQ (RDtqW i) := [])\<rparr>) k4
                     in leave_uint (OBJID i) (upd_dtqcb i clear_dtqcb k5))"

text \<open>\<open>del_dtq\<close> answers an invalid ID with \<open>E_PAR\<close>, not \<open>E_ID\<close>.\<close>

definition del_dtq :: "int \<Rightarrow> kernel \<Rightarrow> svc \<times> kernel" where
  "del_dtq dtqid k =
     (if ctx_error k then (Ret E_CTX, k)
      else if \<not> VALID_ID (tmax_dtqid k) dtqid then (Ret E_PAR, k)
      else let i = INDEX dtqid; k1 = lock_cpu k in
        if \<not> dtq_exists k1 i then leave E_NOEXS k1
        else if dtqid \<le> tmax_sdtqid k1 then leave E_OBJ k1
        else let k2 = init_wait_queue (RDtqW i) (init_wait_queue (SDtqW i) k1);
                 k3 = (if dtqatr (dtqinib k2 i) AND TA_MBALLOC \<noteq> 0 then free_mpk (p_dtqmb (dtqinib k2 i)) k2 else k2);
                 k4 = k3\<lparr>dtqinib := (dtqinib k3)(i := (dtqinib k3 i)\<lparr>dtqatr := TA_NOEXS\<rparr>),
                         free_dtqcb := free_dtqcb k3 @ [i]\<rparr>
             in leave E_OK (dispatch_if_needed k4))"

definition snd_dtq :: "int \<Rightarrow> intptr_t \<Rightarrow> kernel \<Rightarrow> svc \<times> kernel" where
  "snd_dtq dtqid data k =
     (if dispatch_error k then (Ret E_CTX, k)
      else if \<not> VALID_ID (tmax_dtqid k) dtqid then (Ret E_ID, k)
      else let i = INDEX dtqid; k1 = lock_cpu k in
        if \<not> dtq_exists k1 i then leave E_NOEXS k1
        else if raster (task k1 (runtsk k1)) then leave E_RASTER k1
        else let (sent, k2) = send_data i data k1 in
          if sent then leave E_OK (dispatch_if_needed k2)
          else block (wobj_make_wait (SDtqW i) TS_WAITING_SDTQ (give_data data fresh_winfo) k2))"

definition psnd_dtq :: "int \<Rightarrow> intptr_t \<Rightarrow> kernel \<Rightarrow> svc \<times> kernel" where
  "psnd_dtq dtqid data k =
     (if sense_lock k then (Ret E_CTX, k)
      else if \<not> VALID_ID (tmax_dtqid k) dtqid then (Ret E_ID, k)
      else let i = INDEX dtqid; k1 = lock_cpu k in
        if \<not> dtq_exists k1 i then leave E_NOEXS k1
        else let (sent, k2) = send_data i data k1 in
          if sent then leave E_OK (dispatch_or_request k2) else leave E_TMOUT k2)"

definition tsnd_dtq :: "int \<Rightarrow> intptr_t \<Rightarrow> TMO \<Rightarrow> kernel \<Rightarrow> svc \<times> kernel" where
  "tsnd_dtq dtqid data tmout k =
     (if dispatch_error k then (Ret E_CTX, k)
      else if \<not> VALID_ID (tmax_dtqid k) dtqid then (Ret E_ID, k)
      else if \<not> VALID_TMOUT tmout then (Ret E_PAR, k)
      else let i = INDEX dtqid; k1 = lock_cpu k in
        if \<not> dtq_exists k1 i then leave E_NOEXS k1
        else if raster (task k1 (runtsk k1)) then leave E_RASTER k1
        else let (sent, k2) = send_data i data k1 in
          if sent then leave E_OK (dispatch_if_needed k2)
          else if tmout = TMO_POL then leave E_TMOUT k2
          else block (wobj_make_wait_tmout (SDtqW i) TS_WAITING_SDTQ (give_data data fresh_winfo) tmout k2))"

definition fsnd_dtq :: "int \<Rightarrow> intptr_t \<Rightarrow> kernel \<Rightarrow> svc \<times> kernel" where
  "fsnd_dtq dtqid data k =
     (if sense_lock k then (Ret E_CTX, k)
      else if \<not> VALID_ID (tmax_dtqid k) dtqid then (Ret E_ID, k)
      else let i = INDEX dtqid; k1 = lock_cpu k in
        if \<not> dtq_exists k1 i then leave E_NOEXS k1
        else if \<not> dtqcnt (dtqinib k1 i) > 0 then leave E_ILUSE k1
        else leave E_OK (dispatch_or_request (force_send_data i data k1)))"

text \<open>The second result is what is stored through \<open>p_data\<close> at once.\<close>

definition rcv_dtq :: "int \<Rightarrow> kernel \<Rightarrow> (svc \<times> kernel) \<times> intptr_t option" where
  "rcv_dtq dtqid k =
     (if dispatch_error k then ((Ret E_CTX, k), None)
      else if \<not> VALID_ID (tmax_dtqid k) dtqid then ((Ret E_ID, k), None)
      else let i = INDEX dtqid; k1 = lock_cpu k in
        if \<not> dtq_exists k1 i then (leave E_NOEXS k1, None)
        else if raster (task k1 (runtsk k1)) then (leave E_RASTER k1, None)
        else let (r, k2) = receive_data i k1 in
          case r of
            Some data \<Rightarrow> (leave E_OK (dispatch_if_needed k2), Some data)
          | None \<Rightarrow> (block (rwait_make_wait (RDtqW i) TS_WAITING_RDTQ k2), None))"

definition prcv_dtq :: "int \<Rightarrow> kernel \<Rightarrow> (svc \<times> kernel) \<times> intptr_t option" where
  "prcv_dtq dtqid k =
     (if ctx_error k then ((Ret E_CTX, k), None)
      else if \<not> VALID_ID (tmax_dtqid k) dtqid then ((Ret E_ID, k), None)
      else let i = INDEX dtqid; k1 = lock_cpu k in
        if \<not> dtq_exists k1 i then (leave E_NOEXS k1, None)
        else let (r, k2) = receive_data i k1 in
          case r of
            Some data \<Rightarrow> (leave E_OK (dispatch_if_needed k2), Some data)
          | None \<Rightarrow> (leave E_TMOUT k2, None))"

definition trcv_dtq :: "int \<Rightarrow> TMO \<Rightarrow> kernel \<Rightarrow> (svc \<times> kernel) \<times> intptr_t option" where
  "trcv_dtq dtqid tmout k =
     (if dispatch_error k then ((Ret E_CTX, k), None)
      else if \<not> VALID_ID (tmax_dtqid k) dtqid then ((Ret E_ID, k), None)
      else if \<not> VALID_TMOUT tmout then ((Ret E_PAR, k), None)
      else let i = INDEX dtqid; k1 = lock_cpu k in
        if \<not> dtq_exists k1 i then (leave E_NOEXS k1, None)
        else if raster (task k1 (runtsk k1)) then (leave E_RASTER k1, None)
        else let (r, k2) = receive_data i k1 in
          case r of
            Some data \<Rightarrow> (leave E_OK (dispatch_if_needed k2), Some data)
          | None \<Rightarrow>
              if tmout = TMO_POL then (leave E_TMOUT k2, None)
              else (block (rwait_make_wait_tmout (RDtqW i) TS_WAITING_RDTQ tmout k2), None))"

definition ini_dtq :: "int \<Rightarrow> kernel \<Rightarrow> svc \<times> kernel" where
  "ini_dtq dtqid k =
     (if ctx_error k then (Ret E_CTX, k)
      else if \<not> VALID_ID (tmax_dtqid k) dtqid then (Ret E_ID, k)
      else let i = INDEX dtqid; k1 = lock_cpu k in
        if \<not> dtq_exists k1 i then leave E_NOEXS k1
        else let k2 = init_wait_queue (RDtqW i) (init_wait_queue (SDtqW i) k1)
             in leave E_OK (dispatch_if_needed (upd_dtqcb i clear_dtqcb k2)))"

definition ref_dtq :: "int \<Rightarrow> kernel \<Rightarrow> (svc \<times> kernel) \<times> (int \<times> int \<times> uint) option" where
  "ref_dtq dtqid k =
     (if ctx_error k then ((Ret E_CTX, k), None)
      else if \<not> VALID_ID (tmax_dtqid k) dtqid then ((Ret E_ID, k), None)
      else let i = INDEX dtqid; k1 = lock_cpu k in
        if \<not> dtq_exists k1 i then (leave E_NOEXS k1, None)
        else (leave E_OK k1,
              Some (wait_tskid (SDtqW i) k1, wait_tskid (RDtqW i) k1, dtq_count (dtqcb k1 i))))"

section \<open>The ring buffer\<close>

text \<open>\<open>ring_repr cnt b L\<close>: the ring buffer of capacity \<open>cnt\<close> holds the data \<open>L\<close>, oldest first.\<close>

definition ring_repr :: "uint \<Rightarrow> dtqcb \<Rightarrow> intptr_t list \<Rightarrow> bool" where
  "ring_repr cnt b L \<longleftrightarrow>
     length L = unat (dtq_count b) \<and> dtq_count b \<le> cnt \<and>
     (cnt > 0 \<longrightarrow> dtq_head b < cnt \<and> unat (dtq_tail b) = (unat (dtq_head b) + length L) mod unat cnt) \<and>
     (\<forall>j < length L. L ! j = dtqmb b ((unat (dtq_head b) + j) mod unat cnt))"

lemma ring_repr_at: "ring_repr cnt b L = ring_at cnt (dtqmb b) (dtq_head b) (dtq_tail b) (dtq_count b) L"
  by (simp add: ring_repr_def ring_at_def)

lemma enqueue_data_repr:
  assumes r: "ring_repr cnt b L" and n: "length L < unat cnt"
  shows "ring_repr cnt (enqueue_data cnt d b) (L @ [d])"
  using ring_put [OF r [unfolded ring_repr_at] n, of d] by (simp add: ring_repr_at enqueue_data_def ring_next_def Let_def split: if_splits)

lemma dequeue_data_repr:
  assumes r: "ring_repr cnt b (d # L)"
  shows "\<exists>b'. dequeue_data cnt b = (d, b') \<and> ring_repr cnt b' L"
  using ring_get [OF r [unfolded ring_repr_at]] by (simp add: ring_repr_at dequeue_data_def ring_next_def Let_def split: if_splits)

lemma force_enqueue_data_repr:
  assumes r: "ring_repr cnt b L" and pos: "0 < cnt"
  shows "ring_repr cnt (force_enqueue_data cnt d b) (if length L < unat cnt then L @ [d] else tl L @ [d])"
proof (cases "length L < unat cnt")
  case True
  then have "dtq_count b < cnt" using r by (simp add: ring_repr_def word_less_nat_alt)
  then have "force_enqueue_data cnt d b = enqueue_data cnt d b"
    by (simp add: force_enqueue_data_def enqueue_data_def Let_def)
  then show ?thesis using enqueue_data_repr [OF r True] True by simp
next
  case False
  then have len: "length L = unat cnt" "\<not> dtq_count b < cnt" using r by (auto simp: ring_repr_def word_le_nat_alt word_less_nat_alt)
  then show ?thesis using ring_force [OF r [unfolded ring_repr_at] pos len(1), of d]
    by (simp add: ring_repr_at force_enqueue_data_def ring_next_def Let_def split: if_splits)
qed

interpretation ring: bounded_buffer "enqueue_data cnt" "dequeue_data cnt" "\<lambda>b. unat (dtq_count b)" "ring_repr cnt"
    "\<lambda>d L. L @ [d]" "unat cnt" for cnt
proof
  fix s L and d :: intptr_t
  show "ring_repr cnt s L \<Longrightarrow> length L \<le> unat cnt" by (simp add: ring_repr_def word_le_nat_alt)
  show "ring_repr cnt s L \<Longrightarrow> unat (dtq_count s) = length L" by (simp add: ring_repr_def)
  show "ring_repr cnt s L \<Longrightarrow> length L < unat cnt \<Longrightarrow> ring_repr cnt (enqueue_data cnt d s) (L @ [d])"
    by (rule enqueue_data_repr)
  show "ring_repr cnt s (d # L) \<Longrightarrow> \<exists>s'. dequeue_data cnt s = (d, s') \<and> ring_repr cnt s' L"
    by (rule dequeue_data_repr)
qed simp

section \<open>The scheduler state\<close>

lemma upd_dtqcb_frame [simp]:
  "midway (upd_dtqcb i f k) = midway k" "settled (upd_dtqcb i f k) = settled k" "in_task (upd_dtqcb i f k) = in_task k"
  "K \<noteq> KDtq \<Longrightarrow> keeps K k' (upd_dtqcb i f k) = keeps K k' k" "ts (upd_dtqcb i f k) = ts k" "tm (upd_dtqcb i f k) = tm k"
  "dtqinib (upd_dtqcb i f k) = dtqinib k" "dtqcb (upd_dtqcb i f k) i = f (dtqcb k i)"
  "sense_context (upd_dtqcb i f k) = sense_context k"
  by (simp_all add: upd_dtqcb_def sense_context_def)

lemma give_data_wait [simp]: "w_u (give_data d i) = w_u i" "p_wobjcb (give_data d i) = p_wobjcb i" "w_data (give_data d i) = d"
  by (simp_all add: give_data_def)

lemma dtq_mailbox: "mailbox enqueue_data dequeue_data dtq_count ring_repr (\<lambda>d L. L @ [d])
    (\<lambda>k. dtqcb k i) (upd_dtqcb i) (\<lambda>k. dtqcnt (dtqinib k i)) (SDtqW i) (RDtqW i) give_data w_data
    (send_data i) (receive_data i) KDtq"
proof
  fix k k' show "same_tables k k' \<Longrightarrow> dtqcb k' i = dtqcb k i \<and> dtqcnt (dtqinib k' i) = dtqcnt (dtqinib k i)"
    by (simp add: same_tables_sel)
qed (simp_all add: upd_dtqcb_def map_ts_def send_data_def receive_data_def)

interpretation dtq: mailboxes enqueue_data dequeue_data dtq_count ring_repr "\<lambda>d L. L @ [d]"
    dtqcb upd_dtqcb "\<lambda>k i. dtqcnt (dtqinib k i)" SDtqW RDtqW give_data w_data send_data receive_data KDtq
    dtq_exists free_dtqcb
  by (rule mailboxes.intro [OF dtq_mailbox]) (auto simp: upd_dtqcb_def dtq_exists_def fun_eq_iff same_objects_def)

lemma force_send_data_midway: "midway k \<Longrightarrow> midway (force_send_data i data k)"
  by (auto simp: force_send_data_def case_prod_unfold Let_def intro!: take_give_complete_midway)

lemma dataqueue_settled [pres]:
  shows "in_task k \<Longrightarrow> settled (snd (snd_dtq dtqid data k))"
    and "settled k \<Longrightarrow> settled (snd (psnd_dtq dtqid data k))"
    and "in_task k \<Longrightarrow> settled (snd (tsnd_dtq dtqid data tmout k))"
    and "settled k \<Longrightarrow> settled (snd (fsnd_dtq dtqid data k))"
    and "in_task k \<Longrightarrow> settled (snd (fst (rcv_dtq dtqid k)))"
    and "settled k \<Longrightarrow> settled (snd (fst (prcv_dtq dtqid k)))"
    and "in_task k \<Longrightarrow> settled (snd (fst (trcv_dtq dtqid tmout k)))"
    and "settled k \<Longrightarrow> settled (snd (ini_dtq dtqid k))"
    and "settled k \<Longrightarrow> settled (snd (del_dtq dtqid k))"
    and "settled k \<Longrightarrow> settled (snd (fst (ref_dtq dtqid k)))"
proof -
  show "in_task k \<Longrightarrow> settled (snd (snd_dtq dtqid data k))"
    using lock_entry_task [of k] by (auto simp: snd_dtq_def Let_def case_prod_unfold dispatch_error_def dtq.box.refused
        intro!: pres dispatch_if_needed_settled dtq.box.midway_kept)
  show "settled k \<Longrightarrow> settled (snd (psnd_dtq dtqid data k))"
    using lock_entry [of k] by (auto simp: psnd_dtq_def Let_def case_prod_unfold dtq.box.refused
        intro!: dispatch_or_request_settled dtq.box.midway_kept)
  show "in_task k \<Longrightarrow> settled (snd (tsnd_dtq dtqid data tmout k))"
    using lock_entry_task [of k] by (auto simp: tsnd_dtq_def Let_def case_prod_unfold dispatch_error_def dtq.box.refused
        intro!: pres dispatch_if_needed_settled dtq.box.midway_kept)
  show "settled k \<Longrightarrow> settled (snd (fsnd_dtq dtqid data k))"
    using lock_entry [of k] by (auto simp: fsnd_dtq_def Let_def intro!: dispatch_or_request_settled force_send_data_midway)
  show "in_task k \<Longrightarrow> settled (snd (fst (rcv_dtq dtqid k)))"
    using lock_entry_task [of k] by (auto simp: rcv_dtq_def Let_def case_prod_unfold dispatch_error_def dtq.box.refused
        intro!: pres dispatch_if_needed_settled dtq.box.midway_kept split: option.split)
  show "settled k \<Longrightarrow> settled (snd (fst (prcv_dtq dtqid k)))"
    using lock_entry [of k] by (auto simp: prcv_dtq_def Let_def case_prod_unfold dtq.box.refused
        intro!: dispatch_if_needed_settled dtq.box.midway_kept split: option.split)
  show "in_task k \<Longrightarrow> settled (snd (fst (trcv_dtq dtqid tmout k)))"
    using lock_entry_task [of k] by (auto simp: trcv_dtq_def Let_def case_prod_unfold dispatch_error_def dtq.box.refused
        intro!: pres dispatch_if_needed_settled dtq.box.midway_kept split: option.split)
  show "settled k \<Longrightarrow> settled (snd (ini_dtq dtqid k))"
    using lock_entry [of k] by (auto simp: ini_dtq_def Let_def intro!: pres dispatch_if_needed_settled)
  show "settled k \<Longrightarrow> settled (snd (del_dtq dtqid k))"
    using lock_entry [of k] by (auto simp: del_dtq_def Let_def intro!: pres dispatch_if_needed_settled)
  show "settled k \<Longrightarrow> settled (snd (fst (ref_dtq dtqid k)))"
    using lock_entry [of k] by (auto simp: ref_dtq_def Let_def)
qed

lemma force_send_data_keeps: "K \<noteq> KDtq \<Longrightarrow> keeps K k k' \<Longrightarrow> keeps K k (force_send_data i data k')"
  by (auto simp: force_send_data_def case_prod_unfold Let_def intro!: frame)

lemma dataqueue_keeps:
  assumes "K \<noteq> KDtq"
  shows "keeps K k (snd (snd_dtq dtqid data k))" "keeps K k (snd (psnd_dtq dtqid data k))"
    "keeps K k (snd (tsnd_dtq dtqid data tmout k))" "keeps K k (snd (fsnd_dtq dtqid data k))"
    "keeps K k (snd (fst (rcv_dtq dtqid k)))" "keeps K k (snd (fst (prcv_dtq dtqid k)))"
    "keeps K k (snd (fst (trcv_dtq dtqid tmout k)))" "keeps K k (snd (ini_dtq dtqid k))"
    "keeps K k (snd (del_dtq dtqid k))" "keeps K k (snd (fst (ref_dtq dtqid k)))"
  using assms
  by (auto simp: snd_dtq_def psnd_dtq_def tsnd_dtq_def fsnd_dtq_def rcv_dtq_def prcv_dtq_def trcv_dtq_def ini_dtq_def
      del_dtq_def ref_dtq_def Let_def case_prod_unfold intro!: frame dtq.box.keeps_kept force_send_data_keeps split: option.split)

section \<open>The invariant of data queues\<close>

abbreviation dtq_inv :: "kernel \<Rightarrow> bool" where
  "dtq_inv \<equiv> dtq.inv"

lemma ring_repr_clear: "ring_repr cnt (clear_dtqcb b) []"
  by (simp add: ring_repr_def clear_dtqcb_def)

lemma force_send_data_inv:
  assumes m: "midway k" and i: "dtq_inv k" and e: "dtq_exists k i" and pos: "dtqcnt (dtqinib k i) > 0"
  shows "dtq_inv (force_send_data i data k)"
proof -
  obtain L where L: "dtq.box.ok i k L" using i e by (auto simp: dtq.inv_def)
  show ?thesis
  proof (cases "queue_of k (RDtqW i) = []")
    case False
    then have "force_send_data i data k = snd (send_data i data k)"
      by (simp add: force_send_data_def send_data_def case_prod_unfold Let_def)
    then show ?thesis using dtq.inv_send [OF m i e] by simp
  next
    case True
    let ?k = "upd_dtqcb i (force_enqueue_data (dtqcnt (dtqinib k i)) data) k"
    let ?L = "if length L < unat (dtqcnt (dtqinib k i)) then L @ [data] else tl L @ [data]"
    have "ring_repr (dtqcnt (dtqinib k i)) (dtqcb k i) L" using L by (simp add: dtq.box.ok_def)
    from force_enqueue_data_repr [OF this pos, of data]
    have r: "ring_repr (dtqcnt (dtqinib k i)) (force_enqueue_data (dtqcnt (dtqinib k i)) data (dtqcb k i)) ?L" .
    have "length L \<le> unat (dtqcnt (dtqinib k i))" "0 < unat (dtqcnt (dtqinib k i))"
      using L pos by (simp_all add: dtq.box.ok_def ring_repr_def word_le_nat_alt word_less_nat_alt)
    then have "dtq.box.ok i ?k ?L" using L True r by (auto simp: dtq.box.ok_def)
    then have "dtq_inv ?k" by (intro dtq.inv_step [OF i e]) (auto simp: upd_dtqcb_def dtq_exists_def fun_eq_iff)
    then show ?thesis using True by (simp add: force_send_data_def)
  qed
qed

lemma dtq_init_queues:
  fixes k i
  defines "k' \<equiv> init_wait_queue (RDtqW i) (init_wait_queue (SDtqW i) k)"
  assumes "dtq_inv k"
  shows "dtq_inv k'" "queue_of k' (SDtqW i) = []" "queue_of k' (RDtqW i) = []" "dtqinib k' = dtqinib k"
    "free_dtqcb k' = free_dtqcb k"
proof -
  have k: "keeps KDtq k k'" unfolding k'_def by (intro keeps_init_wait_queue keeps_refl)
  show "dtq_inv k'" by (rule dtq.inv_keeps [OF assms(2) k])
  show "queue_of k' (SDtqW i) = []" "queue_of k' (RDtqW i) = []" by (simp_all add: k'_def init_wait_queue_empty)
  show "dtqinib k' = dtqinib k" "free_dtqcb k' = free_dtqcb k" using k by (simp_all add: keeps_def same_objects_def)
qed

lemma dataqueue_inv:
  assumes i: "dtq_inv k" and s: "settled k"
  shows "dtq_inv (snd (snd_dtq dtqid data k))" "dtq_inv (snd (psnd_dtq dtqid data k))"
    "dtq_inv (snd (tsnd_dtq dtqid data tmout k))" "dtq_inv (snd (fsnd_dtq dtqid data k))"
    "dtq_inv (snd (fst (rcv_dtq dtqid k)))" "dtq_inv (snd (fst (prcv_dtq dtqid k)))"
    "dtq_inv (snd (fst (trcv_dtq dtqid tmout k)))" "dtq_inv (snd (fst (ref_dtq dtqid k)))"
proof -
  define k1 where "k1 = lock_cpu k"
  have i1: "dtq_inv k1" and m1: "midway k1" unfolding k1_def
    using s dtq.inv_keeps [OF i, of "lock_cpu k"] by (simp_all add: lock_entry)
  note fin = dtq.inv_keeps [OF _ keeps_dispatch(2) [OF keeps_refl]] dtq.inv_keeps [OF _ keeps_dispatch(3) [OF keeps_refl]]
    dtq.inv_keeps [OF _ keeps_dispatch(5) [OF keeps_refl]]
  note step = dtq.inv_send [OF m1 i1] dtq.inv_receive [OF m1 i1]
  note wait = dtq.inv_wait(1) [OF m1 i1 _ _ joins_wait(1)] dtq.inv_wait(1) [OF m1 i1 _ _ joins_wait(2)]
    dtq.inv_wait(2) [OF m1 i1 _ _ joins_wait(3)] dtq.inv_wait(2) [OF m1 i1 _ _ joins_wait(4)]
  show "dtq_inv (snd (snd_dtq dtqid data k))" "dtq_inv (snd (psnd_dtq dtqid data k))"
    "dtq_inv (snd (tsnd_dtq dtqid data tmout k))"
    using i i1 by (auto simp: snd_dtq_def psnd_dtq_def tsnd_dtq_def Let_def case_prod_unfold k1_def [symmetric]
        block_def dtq.box.refused intro!: fin step intro: wait)
  show "dtq_inv (snd (fst (rcv_dtq dtqid k)))" "dtq_inv (snd (fst (prcv_dtq dtqid k)))"
    "dtq_inv (snd (fst (trcv_dtq dtqid tmout k)))" "dtq_inv (snd (fst (ref_dtq dtqid k)))"
    using i i1 by (auto simp: rcv_dtq_def prcv_dtq_def trcv_dtq_def ref_dtq_def Let_def case_prod_unfold k1_def [symmetric]
        block_def dtq.box.refused intro!: fin step intro: wait split: option.split)
  show "dtq_inv (snd (fsnd_dtq dtqid data k))"
    using i i1 force_send_data_inv [OF m1 i1] by (auto simp: fsnd_dtq_def Let_def k1_def [symmetric] intro!: fin)
qed

lemma ini_del_dtq_inv:
  assumes i: "dtq_inv k"
  shows "dtq_inv (snd (ini_dtq dtqid k))" "dtq_inv (snd (del_dtq dtqid k))"
proof -
  define i where "i = INDEX dtqid"
  define k1 where "k1 = lock_cpu k"
  define k2 where "k2 = init_wait_queue (RDtqW i) (init_wait_queue (SDtqW i) k1)"
  have i1: "dtq_inv k1" unfolding k1_def using dtq.inv_keeps [OF assms, of "lock_cpu k"] by simp
  note k2 = dtq_init_queues [OF i1, where i = i, folded k2_def]
  note fin = dtq.inv_keeps [OF _ keeps_dispatch(2) [OF keeps_refl]]
  have l: "dtq_inv (snd (leave e k'))" if "dtq_inv k'" for e k'
    by (rule dtq.inv_keeps [OF that keeps_dispatch(5) [OF keeps_refl]])
  have "dtq_inv (upd_dtqcb i clear_dtqcb k2)"
    by (rule dtq.inv_table [OF k2(1), of i])
      (use k2 in \<open>auto simp: dtq.inv_def upd_dtqcb_def dtq_exists_def ring_repr_clear\<close>)
  then show "dtq_inv (snd (ini_dtq dtqid k))"
    using assms i1 by (auto simp: ini_dtq_def Let_def k1_def [symmetric] i_def [symmetric] k2_def [symmetric] intro!: l fin)
  define k3 where "k3 = (if dtqatr (dtqinib k2 i) AND TA_MBALLOC \<noteq> 0 then free_mpk (p_dtqmb (dtqinib k2 i)) k2 else k2)"
  define k4 where "k4 = k3\<lparr>dtqinib := (dtqinib k3)(i := (dtqinib k3 i)\<lparr>dtqatr := TA_NOEXS\<rparr>), free_dtqcb := free_dtqcb k3 @ [i]\<rparr>"
  have k3: "dtqinib k3 = dtqinib k2" "free_dtqcb k3 = free_dtqcb k2" "dtqcb k3 = dtqcb k2" "ts k3 = ts k2"
    by (simp_all add: k3_def free_mpk_def)
  have "dtq_inv k4" if e: "dtq_exists k1 i"
  proof -
    have "distinct (free_dtqcb k2)" "\<forall>j\<in>set (free_dtqcb k2). \<not> dtq_exists k2 j" "dtq_exists k2 i"
      using k2(1) e by (simp_all add: dtq.inv_def dtq_exists_def k2(4))
    then show ?thesis
      by (intro dtq.inv_table [OF k2(1), of i]) (auto simp: k4_def k3 k2 dtq_exists_def)
  qed
  then show "dtq_inv (snd (del_dtq dtqid k))"
    using assms i1 by (auto simp: del_dtq_def Let_def k1_def [symmetric] i_def [symmetric] k2_def [symmetric]
        k3_def [symmetric] k4_def [symmetric] intro!: l fin)
qed

lemma acre_dtq_inv:
  assumes i: "dtq_inv k" and s: "settled k"
  shows "dtq_inv (snd (acre_dtq mb_align atr n mb k))" "settled (snd (acre_dtq mb_align atr n mb k))"
proof -
  define k1 where "k1 = lock_cpu k"
  define r where "r = (if n \<noteq> 0 \<and> mb = 0 then let (p, k') = malloc_mpk (4 * n) k1 in (p, atr OR TA_MBALLOC, k')
    else (mb, atr, k1))"
  obtain mb1 atr1 k2 where r2: "r = (mb1, atr1, k2)" by (metis prod_cases3)
  have k2: "k2 = k1 \<or> k2 = snd (malloc_mpk (4 * n) k1)" using r2 by (auto simp: r_def case_prod_unfold Let_def split: if_splits)
  have i1: "dtq_inv k1" "settled k1" unfolding k1_def
    using dtq.inv_keeps [OF i, of "lock_cpu k"] s by (simp_all add: settled_lock)
  have i2: "dtq_inv k2" "settled k2" "free_dtqcb k2 = free_dtqcb k1"
    using k2 i1 dtq.inv_keeps [OF i1(1), of "snd (malloc_mpk (4 * n) k1)"] by (auto simp: malloc_mpk_def Let_def)
  define j where "j = hd (free_dtqcb k2)"
  define k3 where "k3 = k2\<lparr>free_dtqcb := tl (free_dtqcb k2),
     dtqinib := (dtqinib k2)(j := \<lparr>dtqatr = atr1, dtqcnt = n, p_dtqmb = mb1\<rparr>)\<rparr>"
  define k5 where "k5 = map_ts (\<lambda>s. s\<lparr>queues := (queues s)(WaitQ (RDtqW j) := [])\<rparr>)
     (map_ts (\<lambda>s. s\<lparr>queues := (queues s)(WaitQ (SDtqW j) := [])\<rparr>) k3)"
  have eq: "acre_dtq mb_align atr n mb k = (if ctx_error k then (Ret E_CTX, k)
      else if atr AND NOT TA_TPRI \<noteq> 0 then (Ret E_RSATR, k)
      else if mb \<noteq> 0 \<and> \<not> mb_align mb then (Ret E_PAR, k)
      else if tmax_dtqid k1 = 0 \<or> free_dtqcb k1 = [] then leave E_NOID k1
      else if n \<noteq> 0 \<and> mb1 = 0 then leave E_NOMEM k2 else leave_uint (OBJID j) (upd_dtqcb j clear_dtqcb k5))"
    unfolding acre_dtq_def Let_def k1_def [symmetric] r_def [symmetric, unfolded Let_def] r2
    by (simp add: j_def k3_def k5_def)
  have l: "dtq_inv (snd (leave e k'))" "dtq_inv (snd (leave_uint x k'))" if "dtq_inv k'" for e x k'
    using dtq.inv_keeps [OF that keeps_dispatch(5) [OF keeps_refl]] dtq.inv_keeps [OF that keeps_dispatch(6) [OF keeps_refl]] by blast+
  have "dtq_inv (upd_dtqcb j clear_dtqcb k5) \<and> settled (upd_dtqcb j clear_dtqcb k5)" if f: "free_dtqcb k1 \<noteq> []"
  proof -
    obtain js where js: "free_dtqcb k2 = j # js" using f i2(3) by (auto simp: j_def neq_Nil_conv)
    then have ne: "\<not> dtq_exists k2 j" "j \<notin> set js" "distinct js" "\<forall>x\<in>set js. \<not> dtq_exists k2 x"
      using i2(1) by (simp_all add: dtq.inv_def)
    then have q: "queue_of k2 (SDtqW j) = []" "queue_of k2 (RDtqW j) = []" using i2(1) by (auto simp: dtq.inv_def)
    have k5: "k5 = k3" by (simp add: k5_def k3_def map_ts_def q fun_upd_idem)
    have "settled (upd_dtqcb j clear_dtqcb k5)" using i2(2) by (simp add: k5 k3_def)
    moreover have "dtq_inv (upd_dtqcb j clear_dtqcb k5)"
      by (rule dtq.inv_table [OF i2(1), of j])
        (use q ne js in \<open>auto simp: k5 k3_def upd_dtqcb_def dtq_exists_def ring_repr_clear\<close>)
    ultimately show ?thesis by blast
  qed
  then show "dtq_inv (snd (acre_dtq mb_align atr n mb k))" "settled (snd (acre_dtq mb_align atr n mb k))"
    using i s i1 i2 by (auto simp: eq l)
qed

section \<open>The stream of a data queue\<close>

text \<open>What the receivers will get, in order: the data of the queue, then those of the waiting senders.\<close>

definition dtq_stream :: "kernel \<Rightarrow> nat \<Rightarrow> intptr_t list \<Rightarrow> intptr_t list" where
  "dtq_stream k i L = L @ map (\<lambda>t. w_data (p_winfo (task k t))) (queue_of k (SDtqW i))"

lemma stream_woken:
  assumes "consistent k" "queue_of k (SDtqW i) = t # us" "queue_of k' (SDtqW i) = us" "woken f t k k'"
  shows "dtq_stream k' i L = L @ map (\<lambda>t. w_data (p_winfo (task k t))) us"
proof -
  have "t \<notin> set us" using core_distinct [OF consistentD(1) [OF assms(1)], of "WaitQ (SDtqW i)"] assms(2) by simp
  then show ?thesis using assms(3,4) by (auto simp: dtq_stream_def woken_def)
qed

lemma receive_data_stream:
  assumes m: "midway k" and o: "dtq.box.ok i k L" and r: "receive_data i k = (r, k')"
  shows "dtq_stream k i L = [] \<Longrightarrow> r = None \<and> k' = k"
    and "dtq_stream k i L = d # S \<Longrightarrow> r = Some d \<and> (\<exists>L'. dtq.box.ok i k' L' \<and> dtq_stream k' i L' = S)"
proof -
  note spec = dtq.box.receive_spec [OF m o r]
  show "dtq_stream k i L = [] \<Longrightarrow> r = None \<and> k' = k" using spec(1) by (simp add: dtq_stream_def)
  assume d: "dtq_stream k i L = d # S"
  show "r = Some d \<and> (\<exists>L'. dtq.box.ok i k' L' \<and> dtq_stream k' i L' = S)"
  proof (cases "queue_of k (SDtqW i)")
    case Nil
    then have "L = d # S" using d by (simp add: dtq_stream_def)
    then show ?thesis using spec(2) Nil by (auto simp: dtq_stream_def)
  next
    case (Cons t us)
    note w = stream_woken [OF midwayD [OF m] Cons]
    show ?thesis
    proof (cases L)
      case Nil
      then show ?thesis using spec(4) [OF Nil Cons] w [of k' "\<lambda>i. i" "[]"] d Cons by (auto simp: dtq_stream_def)
    next
      case L: (Cons x L1)
      have "dtq_stream k' i (L1 @ [w_data (p_winfo (task k t))]) = S"
        using spec(3) [OF L Cons] w [of k' "\<lambda>i. i" "L1 @ [w_data (p_winfo (task k t))]"] d Cons L
        by (simp add: dtq_stream_def [of k])
      then show ?thesis using spec(3) [OF L Cons] d L by (auto simp: dtq_stream_def)
    qed
  qed
qed

end
