(* ===== verification/Pridataq.thy ===== *)
theory Pridataq
  imports Mailbox
begin

unbundle bit_operations_syntax

text \<open>
  Priority data queues, asp3\_dcre/kernel/pridataq.c: the data are blocks of the management area
  linked in the order of their priority; unused blocks form a free list. The chain is a buffer
  ordered by priority (\<open>chain\<close>), the object a mailbox (\<open>pdq\<close>).
\<close>

section \<open>Operations\<close>

definition pdq_exists :: "kernel \<Rightarrow> nat \<Rightarrow> bool" where
  "pdq_exists k i \<longleftrightarrow> pdqatr (pdqinib k i) \<noteq> TA_NOEXS"

definition upd_pdqcb :: "nat \<Rightarrow> (pdqcb \<Rightarrow> pdqcb) \<Rightarrow> kernel \<Rightarrow> kernel" where
  "upd_pdqcb i f k = k\<lparr>pdqcb := (pdqcb k)(i := f (pdqcb k i))\<rparr>"

definition clear_pdqcb :: "pdqcb \<Rightarrow> pdqcb" where
  "clear_pdqcb b = b\<lparr>pdq_count := 0, pdq_head := None, pdq_unused := 0, pdq_freelist := None\<rparr>"

definition initialize_pridataq :: "kernel \<Rightarrow> kernel" where
  "initialize_pridataq k =
     (let n = nat (tmax_spdqid k); m = nat (tmax_pdqid k);
          k1 = map_ts (\<lambda>s. s\<lparr>queues := (\<lambda>h. case h of WaitQ (SPdqW i) \<Rightarrow> if i < n then [] else queues s h
            | WaitQ (RPdqW i) \<Rightarrow> if i < n then [] else queues s h | _ \<Rightarrow> queues s h)\<rparr>) k
      in k1\<lparr>pdqcb := (\<lambda>i. if i < n then clear_pdqcb (pdqcb k i) else pdqcb k i),
            pdqinib := (\<lambda>i. if n \<le> i \<and> i < m then (pdqinib k i)\<lparr>pdqatr := TA_NOEXS\<rparr> else pdqinib k i),
            free_pdqcb := [n..<m]\<rparr>)"

text \<open>
  The search for the place of a datum. \<open>prev\<close> is the link \<open>pp_prev_next\<close> points to, that of a
  block or, for \<open>None\<close>, \<open>p_head\<close>; \<open>nxt\<close> is what it holds. One step more than there are data is
  enough for any chain that is well formed (\<open>pdq_scan_chain\<close>).
\<close>

fun pdq_scan :: "nat \<Rightarrow> (nat \<Rightarrow> pdqmb) \<Rightarrow> int \<Rightarrow> nat option \<Rightarrow> nat option \<Rightarrow> (nat option \<times> nat option) option" where
  "pdq_scan 0 mb pri prev nxt = None"
| "pdq_scan (Suc fuel) mb pri prev nxt =
     (case nxt of
        None \<Rightarrow> Some (prev, None)
      | Some x \<Rightarrow> if pdq_datapri (mb x) > pri then Some (prev, Some x)
                  else pdq_scan fuel mb pri (Some x) (pdq_next (mb x)))"

definition pdq_alloc :: "pdqcb \<Rightarrow> nat \<times> pdqcb" where
  "pdq_alloc b =
     (case pdq_freelist b of
        Some x \<Rightarrow> (x, b\<lparr>pdq_freelist := pdq_next (pdq_mb b x)\<rparr>)
      | None \<Rightarrow> (unat (pdq_unused b), b\<lparr>pdq_unused := pdq_unused b + 1\<rparr>))"

definition upd_pdqmb :: "nat \<Rightarrow> (pdqmb \<Rightarrow> pdqmb) \<Rightarrow> pdqcb \<Rightarrow> pdqcb" where
  "upd_pdqmb x f b = b\<lparr>pdq_mb := (pdq_mb b)(x := f (pdq_mb b x))\<rparr>"

definition enqueue_pridata :: "intptr_t \<times> int \<Rightarrow> pdqcb \<Rightarrow> pdqcb" where
  "enqueue_pridata d b =
     (let (data, datapri) = d;
          (x, b1) = pdq_alloc b;
          b2 = upd_pdqmb x (\<lambda>m. m\<lparr>pdq_data := data, pdq_datapri := datapri\<rparr>) b1
      in case pdq_scan (unat (pdq_count b2) + 1) (pdq_mb b2) datapri None (pdq_head b2) of
           None \<Rightarrow> b
         | Some (prev, nxt) \<Rightarrow>
             let b3 = upd_pdqmb x (\<lambda>m. m\<lparr>pdq_next := nxt\<rparr>) b2;
                 b4 = (case prev of
                         None \<Rightarrow> b3\<lparr>pdq_head := Some x\<rparr>
                       | Some p \<Rightarrow> upd_pdqmb p (\<lambda>m. m\<lparr>pdq_next := Some x\<rparr>) b3)
             in b4\<lparr>pdq_count := pdq_count b4 + 1\<rparr>)"

definition dequeue_pridata :: "pdqcb \<Rightarrow> (intptr_t \<times> int) \<times> pdqcb" where
  "dequeue_pridata b =
     (let x = the (pdq_head b);
          b1 = b\<lparr>pdq_head := pdq_next (pdq_mb b x)\<rparr>;
          b2 = b1\<lparr>pdq_count := pdq_count b1 - 1\<rparr>;
          r = (pdq_data (pdq_mb b2 x), pdq_datapri (pdq_mb b2 x));
          b3 = upd_pdqmb x (\<lambda>m. m\<lparr>pdq_next := pdq_freelist b2\<rparr>) b2
      in (r, b3\<lparr>pdq_freelist := Some x\<rparr>))"

definition give_pridata :: "intptr_t \<times> int \<Rightarrow> tmevtb_ref winfo \<Rightarrow> tmevtb_ref winfo" where
  "give_pridata d i = i\<lparr>w_data := fst d, w_datapri := snd d\<rparr>"

definition winfo_pridata :: "tmevtb_ref winfo \<Rightarrow> intptr_t \<times> int" where
  "winfo_pridata i = (w_data i, w_datapri i)"

definition send_pridata :: "nat \<Rightarrow> intptr_t \<times> int \<Rightarrow> kernel \<Rightarrow> bool \<times> kernel" where
  "send_pridata i d k =
     (if queue_of k (RPdqW i) \<noteq> [] then
        let (t, k1) = take_waiter (RPdqW i) k
        in (True, wait_complete t (upd_winfo t (give_pridata d) k1))
      else if pdq_count (pdqcb k i) < pdqcnt (pdqinib k i) then
        (True, upd_pdqcb i (enqueue_pridata d) k)
      else (False, k))"

definition receive_pridata :: "nat \<Rightarrow> kernel \<Rightarrow> (intptr_t \<times> int) option \<times> kernel" where
  "receive_pridata i k =
     (if pdq_count (pdqcb k i) > 0 then
        let (d, b) = dequeue_pridata (pdqcb k i);
            k1 = upd_pdqcb i (\<lambda>_. b) k
        in if queue_of k1 (SPdqW i) \<noteq> [] then
             let (t, k2) = take_waiter (SPdqW i) k1;
                 k3 = upd_pdqcb i (enqueue_pridata (winfo_pridata (p_winfo (task k2 t)))) k2
             in (Some d, wait_complete t k3)
           else (Some d, k1)
      else if queue_of k (SPdqW i) \<noteq> [] then
        let (t, k1) = take_waiter (SPdqW i) k
        in (Some (winfo_pridata (p_winfo (task k1 t))), wait_complete t k1)
      else (None, k))"

text \<open>
  \<open>pdqmb\<close> is the address of a management area of the caller, 0 for none. \<open>mb_align\<close> is the
  alignment test of the target (\<open>MB_ALIGN\<close>). A \<open>PDQMB\<close> takes 12 bytes.
\<close>

definition acre_pdq :: "(addr \<Rightarrow> bool) \<Rightarrow> ATR \<Rightarrow> uint \<Rightarrow> int \<Rightarrow> addr \<Rightarrow> kernel \<Rightarrow> svc \<times> kernel" where
  "acre_pdq mb_align atr cnt mxpri mb k =
     (if ctx_error k then (Ret E_CTX, k)
      else if atr AND NOT TA_TPRI \<noteq> 0 then (Ret E_RSATR, k)
      else if \<not> VALID_DPRI mxpri then (Ret E_PAR, k)
      else if mb \<noteq> 0 \<and> \<not> mb_align mb then (Ret E_PAR, k)
      else let k1 = lock_cpu k in
        if tmax_pdqid k1 = 0 \<or> free_pdqcb k1 = [] then leave E_NOID k1
        else let (mb1, atr1, k2) =
                   (if cnt \<noteq> 0 \<and> mb = 0 then let (p, k') = malloc_mpk (12 * cnt) k1 in (p, atr OR TA_MBALLOC, k')
                    else (mb, atr, k1))
             in if cnt \<noteq> 0 \<and> mb1 = 0 then leave E_NOMEM k2
                else let i = hd (free_pdqcb k2);
                         k3 = k2\<lparr>free_pdqcb := tl (free_pdqcb k2),
                                 pdqinib := (pdqinib k2)(i := \<lparr>pdqatr = atr1, pdqcnt = cnt, maxdpri = mxpri, p_pdqmb = mb1\<rparr>)\<rparr>;
                         k4 = map_ts (\<lambda>s. s\<lparr>queues := (queues s)(WaitQ (SPdqW i) := [])\<rparr>) k3;
                         k5 = map_ts (\<lambda>s. s\<lparr>queues := (queues s)(WaitQ (RPdqW i) := [])\<rparr>) k4
                     in leave_uint (OBJID i) (upd_pdqcb i clear_pdqcb k5))"

definition del_pdq :: "int \<Rightarrow> kernel \<Rightarrow> svc \<times> kernel" where
  "del_pdq pdqid k =
     (if ctx_error k then (Ret E_CTX, k)
      else if \<not> VALID_ID (tmax_pdqid k) pdqid then (Ret E_ID, k)
      else let i = INDEX pdqid; k1 = lock_cpu k in
        if \<not> pdq_exists k1 i then leave E_NOEXS k1
        else if pdqid \<le> tmax_spdqid k1 then leave E_OBJ k1
        else let k2 = init_wait_queue (RPdqW i) (init_wait_queue (SPdqW i) k1);
                 k3 = (if pdqatr (pdqinib k2 i) AND TA_MBALLOC \<noteq> 0 then free_mpk (p_pdqmb (pdqinib k2 i)) k2 else k2);
                 k4 = k3\<lparr>pdqinib := (pdqinib k3)(i := (pdqinib k3 i)\<lparr>pdqatr := TA_NOEXS\<rparr>),
                         free_pdqcb := free_pdqcb k3 @ [i]\<rparr>
             in leave E_OK (dispatch_if_needed k4))"

definition snd_pdq :: "int \<Rightarrow> intptr_t \<Rightarrow> int \<Rightarrow> kernel \<Rightarrow> svc \<times> kernel" where
  "snd_pdq pdqid data datapri k =
     (if dispatch_error k then (Ret E_CTX, k)
      else if \<not> VALID_ID (tmax_pdqid k) pdqid then (Ret E_ID, k)
      else if \<not> 1 \<le> datapri then (Ret E_PAR, k)
      else let i = INDEX pdqid; k1 = lock_cpu k in
        if \<not> pdq_exists k1 i then leave E_NOEXS k1
        else if datapri > maxdpri (pdqinib k1 i) then leave E_PAR k1
        else if raster (task k1 (runtsk k1)) then leave E_RASTER k1
        else let (sent, k2) = send_pridata i (data, datapri) k1 in
          if sent then leave E_OK (dispatch_if_needed k2)
          else block (wobj_make_wait (SPdqW i) TS_WAITING_SPDQ (give_pridata (data, datapri) fresh_winfo) k2))"

definition psnd_pdq :: "int \<Rightarrow> intptr_t \<Rightarrow> int \<Rightarrow> kernel \<Rightarrow> svc \<times> kernel" where
  "psnd_pdq pdqid data datapri k =
     (if sense_lock k then (Ret E_CTX, k)
      else if \<not> VALID_ID (tmax_pdqid k) pdqid then (Ret E_ID, k)
      else if \<not> 1 \<le> datapri then (Ret E_PAR, k)
      else let i = INDEX pdqid; k1 = lock_cpu k in
        if \<not> pdq_exists k1 i then leave E_NOEXS k1
        else if datapri > maxdpri (pdqinib k1 i) then leave E_PAR k1
        else let (sent, k2) = send_pridata i (data, datapri) k1 in
          if sent then leave E_OK (dispatch_or_request k2) else leave E_TMOUT k2)"

definition tsnd_pdq :: "int \<Rightarrow> intptr_t \<Rightarrow> int \<Rightarrow> TMO \<Rightarrow> kernel \<Rightarrow> svc \<times> kernel" where
  "tsnd_pdq pdqid data datapri tmout k =
     (if dispatch_error k then (Ret E_CTX, k)
      else if \<not> VALID_ID (tmax_pdqid k) pdqid then (Ret E_ID, k)
      else if \<not> VALID_TMOUT tmout then (Ret E_PAR, k)
      else if \<not> 1 \<le> datapri then (Ret E_PAR, k)
      else let i = INDEX pdqid; k1 = lock_cpu k in
        if \<not> pdq_exists k1 i then leave E_NOEXS k1
        else if datapri > maxdpri (pdqinib k1 i) then leave E_PAR k1
        else if raster (task k1 (runtsk k1)) then leave E_RASTER k1
        else let (sent, k2) = send_pridata i (data, datapri) k1 in
          if sent then leave E_OK (dispatch_if_needed k2)
          else if tmout = TMO_POL then leave E_TMOUT k2
          else block (wobj_make_wait_tmout (SPdqW i) TS_WAITING_SPDQ (give_pridata (data, datapri) fresh_winfo) tmout k2))"

text \<open>The second result is what is stored through \<open>p_data\<close> at once.\<close>

definition rcv_pdq :: "int \<Rightarrow> kernel \<Rightarrow> (svc \<times> kernel) \<times> (intptr_t \<times> int) option" where
  "rcv_pdq pdqid k =
     (if dispatch_error k then ((Ret E_CTX, k), None)
      else if \<not> VALID_ID (tmax_pdqid k) pdqid then ((Ret E_ID, k), None)
      else let i = INDEX pdqid; k1 = lock_cpu k in
        if \<not> pdq_exists k1 i then (leave E_NOEXS k1, None)
        else if raster (task k1 (runtsk k1)) then (leave E_RASTER k1, None)
        else let (r, k2) = receive_pridata i k1 in
          case r of
            Some data \<Rightarrow> (leave E_OK (dispatch_if_needed k2), Some data)
          | None \<Rightarrow> (block (rwait_make_wait (RPdqW i) TS_WAITING_RPDQ k2), None))"

definition prcv_pdq :: "int \<Rightarrow> kernel \<Rightarrow> (svc \<times> kernel) \<times> (intptr_t \<times> int) option" where
  "prcv_pdq pdqid k =
     (if ctx_error k then ((Ret E_CTX, k), None)
      else if \<not> VALID_ID (tmax_pdqid k) pdqid then ((Ret E_ID, k), None)
      else let i = INDEX pdqid; k1 = lock_cpu k in
        if \<not> pdq_exists k1 i then (leave E_NOEXS k1, None)
        else let (r, k2) = receive_pridata i k1 in
          case r of
            Some data \<Rightarrow> (leave E_OK (dispatch_if_needed k2), Some data)
          | None \<Rightarrow> (leave E_TMOUT k2, None))"

definition trcv_pdq :: "int \<Rightarrow> TMO \<Rightarrow> kernel \<Rightarrow> (svc \<times> kernel) \<times> (intptr_t \<times> int) option" where
  "trcv_pdq pdqid tmout k =
     (if dispatch_error k then ((Ret E_CTX, k), None)
      else if \<not> VALID_ID (tmax_pdqid k) pdqid then ((Ret E_ID, k), None)
      else if \<not> VALID_TMOUT tmout then ((Ret E_PAR, k), None)
      else let i = INDEX pdqid; k1 = lock_cpu k in
        if \<not> pdq_exists k1 i then (leave E_NOEXS k1, None)
        else if raster (task k1 (runtsk k1)) then (leave E_RASTER k1, None)
        else let (r, k2) = receive_pridata i k1 in
          case r of
            Some data \<Rightarrow> (leave E_OK (dispatch_if_needed k2), Some data)
          | None \<Rightarrow>
              if tmout = TMO_POL then (leave E_TMOUT k2, None)
              else (block (rwait_make_wait_tmout (RPdqW i) TS_WAITING_RPDQ tmout k2), None))"

definition ini_pdq :: "int \<Rightarrow> kernel \<Rightarrow> svc \<times> kernel" where
  "ini_pdq pdqid k =
     (if ctx_error k then (Ret E_CTX, k)
      else if \<not> VALID_ID (tmax_pdqid k) pdqid then (Ret E_ID, k)
      else let i = INDEX pdqid; k1 = lock_cpu k in
        if \<not> pdq_exists k1 i then leave E_NOEXS k1
        else let k2 = init_wait_queue (RPdqW i) (init_wait_queue (SPdqW i) k1)
             in leave E_OK (dispatch_if_needed (upd_pdqcb i clear_pdqcb k2)))"

definition ref_pdq :: "int \<Rightarrow> kernel \<Rightarrow> (svc \<times> kernel) \<times> (int \<times> int \<times> uint) option" where
  "ref_pdq pdqid k =
     (if ctx_error k then ((Ret E_CTX, k), None)
      else if \<not> VALID_ID (tmax_pdqid k) pdqid then ((Ret E_ID, k), None)
      else let i = INDEX pdqid; k1 = lock_cpu k in
        if \<not> pdq_exists k1 i then (leave E_NOEXS k1, None)
        else (leave E_OK k1,
              Some (wait_tskid (SPdqW i) k1, wait_tskid (RPdqW i) k1, pdq_count (pdqcb k1 i))))"


section \<open>The chain of blocks\<close>

primrec chain :: "(nat \<Rightarrow> pdqmb) \<Rightarrow> nat option \<Rightarrow> nat list \<Rightarrow> nat option \<Rightarrow> bool" where
  "chain mb p [] q \<longleftrightarrow> p = q"
| "chain mb p (x # xs) q \<longleftrightarrow> p = Some x \<and> chain mb (pdq_next (mb x)) xs q"

lemma chain_append: "chain mb p (xs @ ys) q \<longleftrightarrow> (\<exists>r. chain mb p xs r \<and> chain mb r ys q)"
  by (induction xs arbitrary: p) simp_all

lemma chain_cong: "(\<And>x. x \<in> set xs \<Longrightarrow> pdq_next (mb' x) = pdq_next (mb x)) \<Longrightarrow> chain mb' p xs q \<longleftrightarrow> chain mb p xs q"
  by (induction xs arbitrary: p) auto

lemma pdq_scan_chain:
  assumes "chain mb nxt xs None" "length xs < fuel"
  shows "pdq_scan fuel mb pri prev nxt =
    Some (if takeWhile (\<lambda>x. \<not> pdq_datapri (mb x) > pri) xs = [] then prev
          else Some (last (takeWhile (\<lambda>x. \<not> pdq_datapri (mb x) > pri) xs)),
          case dropWhile (\<lambda>x. \<not> pdq_datapri (mb x) > pri) xs of [] \<Rightarrow> None | y # _ \<Rightarrow> Some y)"
  using assms
proof (induction xs arbitrary: fuel prev nxt)
  case Nil
  then obtain f where "fuel = Suc f" by (cases fuel) auto
  then show ?case using Nil by simp
next
  case (Cons x xs)
  then obtain f where "fuel = Suc f" by (cases fuel) auto
  then show ?case using Cons by simp
qed

text \<open>
  \<open>pdq_repr cnt b L\<close>: the chain holds the data \<open>L\<close> with their priorities, in order; the blocks in
  use and those of the free list are the first \<open>unused\<close> blocks of the area, each once.
\<close>

definition block_data :: "pdqcb \<Rightarrow> nat \<Rightarrow> intptr_t \<times> int" where
  "block_data b x = (pdq_data (pdq_mb b x), pdq_datapri (pdq_mb b x))"

definition blocks_ok :: "uint \<Rightarrow> pdqcb \<Rightarrow> nat list \<Rightarrow> nat list \<Rightarrow> bool" where
  "blocks_ok cnt b xs fs \<longleftrightarrow> chain (pdq_mb b) (pdq_head b) xs None \<and> chain (pdq_mb b) (pdq_freelist b) fs None \<and>
     distinct (xs @ fs) \<and> set (xs @ fs) = {..<unat (pdq_unused b)} \<and>
     length xs = unat (pdq_count b) \<and> pdq_unused b \<le> cnt"

definition pdq_repr :: "uint \<Rightarrow> pdqcb \<Rightarrow> (intptr_t \<times> int) list \<Rightarrow> bool" where
  "pdq_repr cnt b L \<longleftrightarrow> (\<exists>xs fs. blocks_ok cnt b xs fs \<and> L = map (block_data b) xs) \<and> sorted (map snd L)"

text \<open>Where a datum goes: behind all data of the same or a higher priority.\<close>

definition place_pri :: "intptr_t \<times> int \<Rightarrow> (intptr_t \<times> int) list \<Rightarrow> (intptr_t \<times> int) list" where
  "place_pri d L = lq_insert_before (\<lambda>e. snd d < snd e) d L"

lemma sorted_insert_before: "sorted (map f xs) \<Longrightarrow> sorted (map f (lq_insert_before (\<lambda>e. f d < f e) d xs))"
  for f :: "'a \<Rightarrow> 'b :: linorder"
  by (induction xs) (auto simp: not_less)

lemma mset_insert_before: "mset (lq_insert_before stop d xs) = add_mset d (mset xs)"
  by (induction xs) simp_all

lemma blocks_count:
  assumes "blocks_ok cnt b xs fs"
  shows "length xs + length fs = unat (pdq_unused b)" "length xs \<le> unat cnt"
proof -
  have "card (set (xs @ fs)) = length (xs @ fs)" using assms unfolding blocks_ok_def by (intro distinct_card) blast
  then show "length xs + length fs = unat (pdq_unused b)" using assms by (simp add: blocks_ok_def)
  then show "length xs \<le> unat cnt" using assms by (simp add: blocks_ok_def word_le_nat_alt)
qed

text \<open>A fresh block is one that no chain holds.\<close>

lemma pdq_alloc_ok:
  assumes o: "blocks_ok cnt b xs fs" and n: "length xs < unat cnt" and a: "pdq_alloc b = (x, b1)"
  shows "x \<notin> set xs" "pdq_mb b1 = pdq_mb b" "pdq_head b1 = pdq_head b" "pdq_count b1 = pdq_count b"
    "\<exists>fs'. chain (pdq_mb b) (pdq_freelist b1) fs' None \<and> distinct (x # xs @ fs') \<and>
       set (x # xs @ fs') = {..<unat (pdq_unused b1)} \<and> pdq_unused b1 \<le> cnt"
proof -
  show "pdq_mb b1 = pdq_mb b" "pdq_head b1 = pdq_head b" "pdq_count b1 = pdq_count b"
    using a by (auto simp: pdq_alloc_def split: option.splits)
  show *: "\<exists>fs'. chain (pdq_mb b) (pdq_freelist b1) fs' None \<and> distinct (x # xs @ fs') \<and>
       set (x # xs @ fs') = {..<unat (pdq_unused b1)} \<and> pdq_unused b1 \<le> cnt"
  proof (cases fs)
    case Nil
    then have f: "pdq_freelist b = None" using o by (simp add: blocks_ok_def)
    have lt: "pdq_unused b < cnt" using blocks_count(1) [OF o] Nil n by (simp add: word_less_nat_alt)
    then have u: "unat (pdq_unused b + 1) = Suc (unat (pdq_unused b))" by unat_arith
    have "pdq_unused b + 1 \<le> cnt" using lt by (rule inc_le)
    moreover have "x = unat (pdq_unused b)" "pdq_freelist b1 = None" "pdq_unused b1 = pdq_unused b + 1"
      using a f by (auto simp: pdq_alloc_def)
    moreover have "distinct xs" "set xs = {..<unat (pdq_unused b)}" using o Nil by (simp_all add: blocks_ok_def)
    ultimately show ?thesis by (intro exI [of _ "[]"]) (simp add: u lessThan_Suc)
  next
    case (Cons y ys)
    then have f: "pdq_freelist b = Some y" "chain (pdq_mb b) (pdq_next (pdq_mb b y)) ys None"
      using o by (simp_all add: blocks_ok_def)
    have "distinct (xs @ y # ys)" "set (xs @ y # ys) = {..<unat (pdq_unused b)}" "pdq_unused b \<le> cnt"
      using o Cons unfolding blocks_ok_def by blast+
    moreover have "x = y" "pdq_freelist b1 = pdq_next (pdq_mb b y)" "pdq_unused b1 = pdq_unused b"
      using a f by (auto simp: pdq_alloc_def)
    ultimately show ?thesis using f(2) by (intro exI [of _ ys]) simp
  qed
  then show "x \<notin> set xs" by auto
qed

lemma chain_link:
  assumes c: "chain mb p (A @ B) None" and d: "distinct (x # A @ B)"
    and mb: "mb1 x = (mb x)\<lparr>pdq_data := e, pdq_datapri := f, pdq_next := (case B of [] \<Rightarrow> None | y # _ \<Rightarrow> Some y)\<rparr>"
    "\<And>z. z \<noteq> x \<Longrightarrow> mb1 z = mb z"
  shows "A = [] \<Longrightarrow> chain mb1 (Some x) (A @ x # B) None"
    and "A \<noteq> [] \<Longrightarrow> chain (mb1(last A := (mb1 (last A))\<lparr>pdq_next := Some x\<rparr>)) p (A @ x # B) None"
proof -
  obtain q where q: "chain mb p A q" "chain mb q B None" using c chain_append by blast
  have qB: "q = (case B of [] \<Rightarrow> None | y # _ \<Rightarrow> Some y)" using q(2) by (cases B) simp_all
  have e: "mb1 z = mb z" if "z \<in> set (A @ B)" for z using that d mb(2) [of z] by auto
  have B1: "chain mb1 q B None" using q(2) e by (subst chain_cong [of B mb1 mb]) simp_all
  then show "A = [] \<Longrightarrow> chain mb1 (Some x) (A @ x # B) None" by (simp add: mb(1) qB)
  assume "A \<noteq> []"
  then obtain A' a where A: "A = A' @ [a]" by (cases A rule: rev_cases) auto
  let ?mb = "mb1(a := (mb1 a)\<lparr>pdq_next := Some x\<rparr>)"
  have "chain mb p A' (Some a)" using q(1) A by (auto simp: chain_append)
  then have "chain ?mb p A' (Some a)" using d A e by (subst chain_cong [of A' ?mb mb]) auto
  moreover have "chain ?mb q B None" using B1 d A by (subst chain_cong [of B ?mb mb1]) auto
  ultimately show "chain (mb1(last A := (mb1 (last A))\<lparr>pdq_next := Some x\<rparr>)) p (A @ x # B) None"
    using d by (auto simp: A chain_append mb(1) qB)
qed

lemma enqueue_pridata_repr:
  assumes r: "pdq_repr cnt b L" and n: "length L < unat cnt"
  shows "pdq_repr cnt (enqueue_pridata d b) (place_pri d L)"
proof -
  obtain xs fs where o: "blocks_ok cnt b xs fs" and L: "L = map (block_data b) xs" using r by (auto simp: pdq_repr_def)
  obtain data pri where d: "d = (data, pri)" by (cases d)
  obtain x b1 where a: "pdq_alloc b = (x, b1)" by (cases "pdq_alloc b")
  have nx: "length xs < unat cnt" using n L by simp
  note al = pdq_alloc_ok [OF o nx a]
  obtain fs' where fs': "chain (pdq_mb b) (pdq_freelist b1) fs' None" "distinct (x # xs @ fs')"
    "set (x # xs @ fs') = {..<unat (pdq_unused b1)}" "pdq_unused b1 \<le> cnt" using al(5) by blast
  define b2 where "b2 = upd_pdqmb x (\<lambda>m. m\<lparr>pdq_data := data, pdq_datapri := pri\<rparr>) b1"
  have mb2: "pdq_mb b2 = (pdq_mb b)(x := (pdq_mb b x)\<lparr>pdq_data := data, pdq_datapri := pri\<rparr>)"
    and b2: "pdq_head b2 = pdq_head b" "pdq_count b2 = pdq_count b" "pdq_freelist b2 = pdq_freelist b1" "pdq_unused b2 = pdq_unused b1"
    by (simp_all add: b2_def upd_pdqmb_def al)
  have c2: "chain (pdq_mb b2) (pdq_head b2) xs None" using o
    by (simp add: blocks_ok_def b2) (subst chain_cong [of xs _ "pdq_mb b"]; auto simp: mb2)
  define A B where "A = takeWhile (\<lambda>y. \<not> pdq_datapri (pdq_mb b2 y) > pri) xs"
    and "B = dropWhile (\<lambda>y. \<not> pdq_datapri (pdq_mb b2 y) > pri) xs"
  have xs: "xs = A @ B" by (simp add: A_def B_def)
  have fuel: "length xs < unat (pdq_count b2) + 1" using o by (simp add: blocks_ok_def b2)
  have scan: "pdq_scan (unat (pdq_count b2) + 1) (pdq_mb b2) pri None (pdq_head b2) =
    Some (if A = [] then None else Some (last A), case B of [] \<Rightarrow> None | y # _ \<Rightarrow> Some y)"
    using pdq_scan_chain [OF c2 fuel, of pri None] by (simp only: A_def B_def)
  define b3 where "b3 = upd_pdqmb x (\<lambda>m. m\<lparr>pdq_next := (case B of [] \<Rightarrow> None | y # _ \<Rightarrow> Some y)\<rparr>) b2"
  define b4 where "b4 = (if A = [] then b3\<lparr>pdq_head := Some x\<rparr> else upd_pdqmb (last A) (\<lambda>m. m\<lparr>pdq_next := Some x\<rparr>) b3)"
  define b5 where "b5 = b4\<lparr>pdq_count := pdq_count b4 + 1\<rparr>"
  have enq: "enqueue_pridata d b = b5"
    unfolding enqueue_pridata_def d Let_def prod.case a b2_def [symmetric] scan
    by (simp add: b3_def [symmetric] b4_def b5_def)
  have f5: "pdq_count b5 = pdq_count b + 1" "pdq_freelist b5 = pdq_freelist b1" "pdq_unused b5 = pdq_unused b1"
    by (simp_all add: b5_def b4_def b3_def upd_pdqmb_def b2)
  have disj: "distinct (x # A @ B)" using fs'(2) xs by auto
  have mb3: "pdq_mb b3 x = (pdq_mb b x)\<lparr>pdq_data := data, pdq_datapri := pri, pdq_next := (case B of [] \<Rightarrow> None | y # _ \<Rightarrow> Some y)\<rparr>"
    "\<And>z. z \<noteq> x \<Longrightarrow> pdq_mb b3 z = pdq_mb b z" by (simp_all add: b3_def upd_pdqmb_def mb2)
  have cb: "chain (pdq_mb b) (pdq_head b) (A @ B) None" using o xs by (simp add: blocks_ok_def)
  have c5: "chain (pdq_mb b5) (pdq_head b5) (A @ x # B) None"
  proof (cases "A = []")
    case True
    then show ?thesis using chain_link(1) [OF cb disj mb3 True] by (simp add: b5_def b4_def)
  next
    case False
    have "pdq_head b5 = pdq_head b" using False by (simp add: b5_def b4_def b3_def upd_pdqmb_def b2)
    then show ?thesis using chain_link(2) [OF cb disj mb3 False] False by (simp add: b5_def b4_def upd_pdqmb_def)
  qed
  have next5: "pdq_next (pdq_mb b5 z) = pdq_next (pdq_mb b z)" if "z \<notin> set (x # A)" for z
    using that mb3(2) [of z] last_in_set [of A] by (auto simp: b5_def b4_def upd_pdqmb_def)
  have data5: "block_data b5 z = (if z = x then d else block_data b z)" for z
    using mb3 by (auto simp: b5_def b4_def upd_pdqmb_def block_data_def d)
  have free5: "chain (pdq_mb b5) (pdq_freelist b5) fs' None"
  proof -
    have "pdq_next (pdq_mb b5 z) = pdq_next (pdq_mb b z)" if "z \<in> set fs'" for z
      using that fs'(2) xs by (intro next5) auto
    then show ?thesis using fs'(1) by (subst chain_cong [of fs' _ "pdq_mb b"]) (simp_all add: f5)
  qed
  have lt: "pdq_count b < cnt" using o nx by (simp add: blocks_ok_def word_less_nat_alt)
  then have cnt5: "unat (pdq_count b + 1) = Suc (unat (pdq_count b))" by unat_arith
  have ok5: "blocks_ok cnt b5 (A @ x # B) fs'"
    unfolding blocks_ok_def f5 cnt5 using c5 free5 fs'(2,3,4) o xs by (auto simp: blocks_ok_def f5)
  have stop: "takeWhile (\<lambda>e. \<not> snd d < snd e) L = map (block_data b) A" "dropWhile (\<lambda>e. \<not> snd d < snd e) L = map (block_data b) B"
  proof -
    have "(\<not> snd d < snd (block_data b y)) = (\<not> pdq_datapri (pdq_mb b2 y) > pri)" if "y \<in> set xs" for y
      using that al(1) by (auto simp: mb2 block_data_def d)
    then show "takeWhile (\<lambda>e. \<not> snd d < snd e) L = map (block_data b) A" "dropWhile (\<lambda>e. \<not> snd d < snd e) L = map (block_data b) B"
      by (auto simp: L A_def B_def takeWhile_map dropWhile_map o_def intro!: arg_cong [where f = "map (block_data b)"] takeWhile_cong dropWhile_cong)
  qed
  have "x \<notin> set A" "x \<notin> set B" using disj by auto
  then have "place_pri d L = map (block_data b5) (A @ x # B)"
    by (auto simp: place_pri_def lq_insert_before_split stop data5)
  moreover have "sorted (map snd (place_pri d L))" unfolding place_pri_def using r by (intro sorted_insert_before) (simp add: pdq_repr_def)
  ultimately show ?thesis using ok5 unfolding pdq_repr_def enq by blast
qed

lemma dequeue_pridata_repr:
  assumes r: "pdq_repr cnt b (d # L)"
  shows "\<exists>b'. dequeue_pridata b = (d, b') \<and> pdq_repr cnt b' L"
proof -
  obtain x xs fs where o: "blocks_ok cnt b (x # xs) fs" and L: "d = block_data b x" "L = map (block_data b) xs"
    using r by (auto simp: pdq_repr_def Cons_eq_map_conv)
  define b' where "b' = snd (dequeue_pridata b)"
  have h: "pdq_head b = Some x" using o by (simp add: blocks_ok_def)
  have s: "pdq_mb b' = (pdq_mb b)(x := (pdq_mb b x)\<lparr>pdq_next := pdq_freelist b\<rparr>)" "pdq_head b' = pdq_next (pdq_mb b x)"
    "pdq_freelist b' = Some x" "pdq_count b' = pdq_count b - 1" "pdq_unused b' = pdq_unused b"
    by (simp_all add: b'_def dequeue_pridata_def Let_def upd_pdqmb_def h)
  have dis: "distinct (x # xs @ fs)" using o by (simp add: blocks_ok_def)
  have "chain (pdq_mb b') (pdq_head b') xs None" using o dis
    by (subst chain_cong [of xs _ "pdq_mb b"]) (auto simp: s blocks_ok_def)
  moreover have "chain (pdq_mb b') (pdq_freelist b') (x # fs) None" using o dis
    by (simp add: s(1,3)) (subst chain_cong [of fs _ "pdq_mb b"]; auto simp: blocks_ok_def)
  moreover have "unat (pdq_count b - 1) = length xs" using o by (simp add: blocks_ok_def) unat_arith
  ultimately have "blocks_ok cnt b' xs (x # fs)" using o dis unfolding blocks_ok_def s by auto
  moreover have "L = map (block_data b') xs" using dis by (auto simp: L block_data_def s)
  moreover have "sorted (map snd L)" using r by (simp add: pdq_repr_def)
  ultimately have "pdq_repr cnt b' L" unfolding pdq_repr_def by blast
  then show ?thesis using L(1) by (auto simp: b'_def dequeue_pridata_def Let_def h block_data_def)
qed

interpretation chain: bounded_buffer "\<lambda>d. enqueue_pridata d" dequeue_pridata "\<lambda>b. unat (pdq_count b)" "pdq_repr cnt"
    place_pri "unat cnt" for cnt
proof
  fix s L and d :: "intptr_t \<times> int"
  show "pdq_repr cnt s L \<Longrightarrow> length L \<le> unat cnt" by (auto simp: pdq_repr_def dest: blocks_count(2))
  show "pdq_repr cnt s L \<Longrightarrow> unat (pdq_count s) = length L" by (auto simp: pdq_repr_def blocks_ok_def)
  show "pdq_repr cnt s L \<Longrightarrow> length L < unat cnt \<Longrightarrow> pdq_repr cnt (enqueue_pridata d s) (place_pri d L)"
    by (rule enqueue_pridata_repr)
  show "pdq_repr cnt s (d # L) \<Longrightarrow> \<exists>s'. dequeue_pridata s = (d, s') \<and> pdq_repr cnt s' L"
    by (rule dequeue_pridata_repr)
  show "mset (place_pri d L) = add_mset d (mset L)" by (simp add: place_pri_def mset_insert_before)
qed

section \<open>The scheduler state\<close>

lemma upd_pdqcb_frame [simp]:
  "midway (upd_pdqcb i f k) = midway k" "settled (upd_pdqcb i f k) = settled k" "in_task (upd_pdqcb i f k) = in_task k"
  "K \<noteq> KPdq \<Longrightarrow> keeps K k' (upd_pdqcb i f k) = keeps K k' k" "ts (upd_pdqcb i f k) = ts k" "tm (upd_pdqcb i f k) = tm k"
  "pdqinib (upd_pdqcb i f k) = pdqinib k" "pdqcb (upd_pdqcb i f k) i = f (pdqcb k i)"
  "sense_context (upd_pdqcb i f k) = sense_context k"
  by (simp_all add: upd_pdqcb_def sense_context_def)

lemma give_pridata_wait [simp]: "w_u (give_pridata d i) = w_u i" "p_wobjcb (give_pridata d i) = p_wobjcb i"
  "winfo_pridata (give_pridata d i) = d" "winfo_pridata (i\<lparr>w_u := u\<rparr>) = winfo_pridata i"
  by (simp_all add: give_pridata_def winfo_pridata_def)

lemma pdq_mailbox: "mailbox (\<lambda>c. enqueue_pridata) (\<lambda>c. dequeue_pridata) pdq_count pdq_repr place_pri
    (\<lambda>k. pdqcb k i) (upd_pdqcb i) (\<lambda>k. pdqcnt (pdqinib k i)) (SPdqW i) (RPdqW i) give_pridata winfo_pridata
    (send_pridata i) (receive_pridata i) KPdq"
proof
  fix k k' show "same_tables k k' \<Longrightarrow> pdqcb k' i = pdqcb k i \<and> pdqcnt (pdqinib k' i) = pdqcnt (pdqinib k i)"
    by (simp add: same_tables_sel)
qed (simp_all add: upd_pdqcb_def map_ts_def send_pridata_def receive_pridata_def)

interpretation pdq: mailboxes "\<lambda>c. enqueue_pridata" "\<lambda>c. dequeue_pridata" pdq_count pdq_repr place_pri
    pdqcb upd_pdqcb "\<lambda>k i. pdqcnt (pdqinib k i)" SPdqW RPdqW give_pridata winfo_pridata send_pridata receive_pridata
    KPdq pdq_exists free_pdqcb
  by (rule mailboxes.intro [OF pdq_mailbox]) (auto simp: upd_pdqcb_def pdq_exists_def fun_eq_iff same_objects_def)

lemma pridataq_settled [pres]:
  shows "in_task k \<Longrightarrow> settled (snd (snd_pdq pdqid data pri k))"
    and "settled k \<Longrightarrow> settled (snd (psnd_pdq pdqid data pri k))"
    and "in_task k \<Longrightarrow> settled (snd (tsnd_pdq pdqid data pri tmout k))"
    and "in_task k \<Longrightarrow> settled (snd (fst (rcv_pdq pdqid k)))"
    and "settled k \<Longrightarrow> settled (snd (fst (prcv_pdq pdqid k)))"
    and "in_task k \<Longrightarrow> settled (snd (fst (trcv_pdq pdqid tmout k)))"
    and "settled k \<Longrightarrow> settled (snd (ini_pdq pdqid k))"
    and "settled k \<Longrightarrow> settled (snd (del_pdq pdqid k))"
    and "settled k \<Longrightarrow> settled (snd (fst (ref_pdq pdqid k)))"
proof -
  show "in_task k \<Longrightarrow> settled (snd (snd_pdq pdqid data pri k))"
    using lock_entry_task [of k] by (auto simp: snd_pdq_def Let_def case_prod_unfold dispatch_error_def pdq.box.refused
        intro!: pres dispatch_if_needed_settled pdq.box.midway_kept)
  show "settled k \<Longrightarrow> settled (snd (psnd_pdq pdqid data pri k))"
    using lock_entry [of k] by (auto simp: psnd_pdq_def Let_def case_prod_unfold pdq.box.refused
        intro!: dispatch_or_request_settled pdq.box.midway_kept)
  show "in_task k \<Longrightarrow> settled (snd (tsnd_pdq pdqid data pri tmout k))"
    using lock_entry_task [of k] by (auto simp: tsnd_pdq_def Let_def case_prod_unfold dispatch_error_def pdq.box.refused
        intro!: pres dispatch_if_needed_settled pdq.box.midway_kept)
  show "in_task k \<Longrightarrow> settled (snd (fst (rcv_pdq pdqid k)))"
    using lock_entry_task [of k] by (auto simp: rcv_pdq_def Let_def case_prod_unfold dispatch_error_def pdq.box.refused
        intro!: pres dispatch_if_needed_settled pdq.box.midway_kept split: option.split)
  show "settled k \<Longrightarrow> settled (snd (fst (prcv_pdq pdqid k)))"
    using lock_entry [of k] by (auto simp: prcv_pdq_def Let_def case_prod_unfold pdq.box.refused
        intro!: dispatch_if_needed_settled pdq.box.midway_kept split: option.split)
  show "in_task k \<Longrightarrow> settled (snd (fst (trcv_pdq pdqid tmout k)))"
    using lock_entry_task [of k] by (auto simp: trcv_pdq_def Let_def case_prod_unfold dispatch_error_def pdq.box.refused
        intro!: pres dispatch_if_needed_settled pdq.box.midway_kept split: option.split)
  show "settled k \<Longrightarrow> settled (snd (ini_pdq pdqid k))"
    using lock_entry [of k] by (auto simp: ini_pdq_def Let_def intro!: pres dispatch_if_needed_settled)
  show "settled k \<Longrightarrow> settled (snd (del_pdq pdqid k))"
    using lock_entry [of k] by (auto simp: del_pdq_def Let_def intro!: pres dispatch_if_needed_settled)
  show "settled k \<Longrightarrow> settled (snd (fst (ref_pdq pdqid k)))"
    using lock_entry [of k] by (auto simp: ref_pdq_def Let_def)
qed

lemma pridataq_keeps:
  assumes "K \<noteq> KPdq"
  shows "keeps K k (snd (snd_pdq pdqid data pri k))" "keeps K k (snd (psnd_pdq pdqid data pri k))"
    "keeps K k (snd (tsnd_pdq pdqid data pri tmout k))"
    "keeps K k (snd (fst (rcv_pdq pdqid k)))" "keeps K k (snd (fst (prcv_pdq pdqid k)))"
    "keeps K k (snd (fst (trcv_pdq pdqid tmout k)))" "keeps K k (snd (ini_pdq pdqid k))"
    "keeps K k (snd (del_pdq pdqid k))" "keeps K k (snd (fst (ref_pdq pdqid k)))"
  using assms
  by (auto simp: snd_pdq_def psnd_pdq_def tsnd_pdq_def rcv_pdq_def prcv_pdq_def trcv_pdq_def ini_pdq_def
      del_pdq_def ref_pdq_def Let_def case_prod_unfold intro!: frame pdq.box.keeps_kept split: option.split)

section \<open>The invariant of priority data queues\<close>

abbreviation pdq_inv :: "kernel \<Rightarrow> bool" where
  "pdq_inv \<equiv> pdq.inv"

lemma pdq_repr_clear: "pdq_repr cnt (clear_pdqcb b) []"
  by (auto simp: pdq_repr_def clear_pdqcb_def blocks_ok_def intro!: exI [of _ "[]"])

lemma pdq_init_queues:
  fixes k i
  defines "k' \<equiv> init_wait_queue (RPdqW i) (init_wait_queue (SPdqW i) k)"
  assumes "pdq_inv k"
  shows "pdq_inv k'" "queue_of k' (SPdqW i) = []" "queue_of k' (RPdqW i) = []" "pdqinib k' = pdqinib k"
    "free_pdqcb k' = free_pdqcb k"
proof -
  have k: "keeps KPdq k k'" unfolding k'_def by (intro keeps_init_wait_queue keeps_refl)
  show "pdq_inv k'" by (rule pdq.inv_keeps [OF assms(2) k])
  show "queue_of k' (SPdqW i) = []" "queue_of k' (RPdqW i) = []" by (simp_all add: k'_def init_wait_queue_empty)
  show "pdqinib k' = pdqinib k" "free_pdqcb k' = free_pdqcb k" using k by (simp_all add: keeps_def same_objects_def)
qed

lemma pridataq_inv:
  assumes i: "pdq_inv k" and s: "settled k"
  shows "pdq_inv (snd (snd_pdq pdqid data pri k))" "pdq_inv (snd (psnd_pdq pdqid data pri k))"
    "pdq_inv (snd (tsnd_pdq pdqid data pri tmout k))"
    "pdq_inv (snd (fst (rcv_pdq pdqid k)))" "pdq_inv (snd (fst (prcv_pdq pdqid k)))"
    "pdq_inv (snd (fst (trcv_pdq pdqid tmout k)))" "pdq_inv (snd (fst (ref_pdq pdqid k)))"
proof -
  define k1 where "k1 = lock_cpu k"
  have i1: "pdq_inv k1" and m1: "midway k1" unfolding k1_def
    using s pdq.inv_keeps [OF i, of "lock_cpu k"] by (simp_all add: lock_entry)
  note fin = pdq.inv_keeps [OF _ keeps_dispatch(2) [OF keeps_refl]] pdq.inv_keeps [OF _ keeps_dispatch(3) [OF keeps_refl]]
    pdq.inv_keeps [OF _ keeps_dispatch(5) [OF keeps_refl]]
  note step = pdq.inv_send [OF m1 i1] pdq.inv_receive [OF m1 i1]
  note wait = pdq.inv_wait(1) [OF m1 i1 _ _ joins_wait(1)] pdq.inv_wait(1) [OF m1 i1 _ _ joins_wait(2)]
    pdq.inv_wait(2) [OF m1 i1 _ _ joins_wait(3)] pdq.inv_wait(2) [OF m1 i1 _ _ joins_wait(4)]
  show "pdq_inv (snd (snd_pdq pdqid data pri k))" "pdq_inv (snd (psnd_pdq pdqid data pri k))"
    "pdq_inv (snd (tsnd_pdq pdqid data pri tmout k))"
    using i i1 by (auto simp: snd_pdq_def psnd_pdq_def tsnd_pdq_def Let_def case_prod_unfold k1_def [symmetric]
        block_def pdq.box.refused intro!: fin step intro: wait)
  show "pdq_inv (snd (fst (rcv_pdq pdqid k)))" "pdq_inv (snd (fst (prcv_pdq pdqid k)))"
    "pdq_inv (snd (fst (trcv_pdq pdqid tmout k)))" "pdq_inv (snd (fst (ref_pdq pdqid k)))"
    using i i1 by (auto simp: rcv_pdq_def prcv_pdq_def trcv_pdq_def ref_pdq_def Let_def case_prod_unfold k1_def [symmetric]
        block_def pdq.box.refused intro!: fin step intro: wait split: option.split)
qed

lemma ini_del_pdq_inv:
  assumes i: "pdq_inv k"
  shows "pdq_inv (snd (ini_pdq pdqid k))" "pdq_inv (snd (del_pdq pdqid k))"
proof -
  define i where "i = INDEX pdqid"
  define k1 where "k1 = lock_cpu k"
  define k2 where "k2 = init_wait_queue (RPdqW i) (init_wait_queue (SPdqW i) k1)"
  have i1: "pdq_inv k1" unfolding k1_def using pdq.inv_keeps [OF assms, of "lock_cpu k"] by simp
  note k2 = pdq_init_queues [OF i1, where i = i, folded k2_def]
  note fin = pdq.inv_keeps [OF _ keeps_dispatch(2) [OF keeps_refl]]
  have l: "pdq_inv (snd (leave e k'))" if "pdq_inv k'" for e k'
    by (rule pdq.inv_keeps [OF that keeps_dispatch(5) [OF keeps_refl]])
  have "pdq_inv (upd_pdqcb i clear_pdqcb k2)"
    by (rule pdq.inv_table [OF k2(1), of i])
      (use k2 in \<open>auto simp: pdq.inv_def upd_pdqcb_def pdq_exists_def pdq_repr_clear\<close>)
  then show "pdq_inv (snd (ini_pdq pdqid k))"
    using assms i1 by (auto simp: ini_pdq_def Let_def k1_def [symmetric] i_def [symmetric] k2_def [symmetric] intro!: l fin)
  define k3 where "k3 = (if pdqatr (pdqinib k2 i) AND TA_MBALLOC \<noteq> 0 then free_mpk (p_pdqmb (pdqinib k2 i)) k2 else k2)"
  define k4 where "k4 = k3\<lparr>pdqinib := (pdqinib k3)(i := (pdqinib k3 i)\<lparr>pdqatr := TA_NOEXS\<rparr>), free_pdqcb := free_pdqcb k3 @ [i]\<rparr>"
  have k3: "pdqinib k3 = pdqinib k2" "free_pdqcb k3 = free_pdqcb k2" "pdqcb k3 = pdqcb k2" "ts k3 = ts k2"
    by (simp_all add: k3_def free_mpk_def)
  have "pdq_inv k4" if e: "pdq_exists k1 i"
  proof -
    have "distinct (free_pdqcb k2)" "\<forall>j\<in>set (free_pdqcb k2). \<not> pdq_exists k2 j" "pdq_exists k2 i"
      using k2(1) e by (simp_all add: pdq.inv_def pdq_exists_def k2(4))
    then show ?thesis
      by (intro pdq.inv_table [OF k2(1), of i]) (auto simp: k4_def k3 k2 pdq_exists_def)
  qed
  then show "pdq_inv (snd (del_pdq pdqid k))"
    using assms i1 by (auto simp: del_pdq_def Let_def k1_def [symmetric] i_def [symmetric] k2_def [symmetric]
        k3_def [symmetric] k4_def [symmetric] intro!: l fin)
qed

lemma acre_pdq_inv:
  assumes i: "pdq_inv k" and s: "settled k"
  shows "pdq_inv (snd (acre_pdq mb_align atr n mx mb k))" "settled (snd (acre_pdq mb_align atr n mx mb k))"
proof -
  define k1 where "k1 = lock_cpu k"
  define r where "r = (if n \<noteq> 0 \<and> mb = 0 then let (p, k') = malloc_mpk (12 * n) k1 in (p, atr OR TA_MBALLOC, k')
    else (mb, atr, k1))"
  obtain mb1 atr1 k2 where r2: "r = (mb1, atr1, k2)" by (metis prod_cases3)
  have k2: "k2 = k1 \<or> k2 = snd (malloc_mpk (12 * n) k1)" using r2 by (auto simp: r_def case_prod_unfold Let_def split: if_splits)
  have i1: "pdq_inv k1" "settled k1" unfolding k1_def
    using pdq.inv_keeps [OF i, of "lock_cpu k"] s by (simp_all add: settled_lock)
  have i2: "pdq_inv k2" "settled k2" "free_pdqcb k2 = free_pdqcb k1"
    using k2 i1 pdq.inv_keeps [OF i1(1), of "snd (malloc_mpk (12 * n) k1)"] by (auto simp: malloc_mpk_def Let_def)
  define j where "j = hd (free_pdqcb k2)"
  define k3 where "k3 = k2\<lparr>free_pdqcb := tl (free_pdqcb k2),
     pdqinib := (pdqinib k2)(j := \<lparr>pdqatr = atr1, pdqcnt = n, maxdpri = mx, p_pdqmb = mb1\<rparr>)\<rparr>"
  define k5 where "k5 = map_ts (\<lambda>s. s\<lparr>queues := (queues s)(WaitQ (RPdqW j) := [])\<rparr>)
     (map_ts (\<lambda>s. s\<lparr>queues := (queues s)(WaitQ (SPdqW j) := [])\<rparr>) k3)"
  have eq: "acre_pdq mb_align atr n mx mb k = (if ctx_error k then (Ret E_CTX, k)
      else if atr AND NOT TA_TPRI \<noteq> 0 then (Ret E_RSATR, k)
      else if \<not> VALID_DPRI mx then (Ret E_PAR, k)
      else if mb \<noteq> 0 \<and> \<not> mb_align mb then (Ret E_PAR, k)
      else if tmax_pdqid k1 = 0 \<or> free_pdqcb k1 = [] then leave E_NOID k1
      else if n \<noteq> 0 \<and> mb1 = 0 then leave E_NOMEM k2 else leave_uint (OBJID j) (upd_pdqcb j clear_pdqcb k5))"
    unfolding acre_pdq_def Let_def k1_def [symmetric] r_def [symmetric, unfolded Let_def] r2
    by (simp add: j_def k3_def k5_def)
  have l: "pdq_inv (snd (leave e k'))" "pdq_inv (snd (leave_uint x k'))" if "pdq_inv k'" for e x k'
    using pdq.inv_keeps [OF that keeps_dispatch(5) [OF keeps_refl]] pdq.inv_keeps [OF that keeps_dispatch(6) [OF keeps_refl]] by blast+
  have "pdq_inv (upd_pdqcb j clear_pdqcb k5) \<and> settled (upd_pdqcb j clear_pdqcb k5)" if f: "free_pdqcb k1 \<noteq> []"
  proof -
    obtain js where js: "free_pdqcb k2 = j # js" using f i2(3) by (auto simp: j_def neq_Nil_conv)
    then have ne: "\<not> pdq_exists k2 j" "j \<notin> set js" "distinct js" "\<forall>x\<in>set js. \<not> pdq_exists k2 x"
      using i2(1) by (simp_all add: pdq.inv_def)
    then have q: "queue_of k2 (SPdqW j) = []" "queue_of k2 (RPdqW j) = []" using i2(1) by (auto simp: pdq.inv_def)
    have k5: "k5 = k3" by (simp add: k5_def k3_def map_ts_def q fun_upd_idem)
    have "settled (upd_pdqcb j clear_pdqcb k5)" using i2(2) by (simp add: k5 k3_def)
    moreover have "pdq_inv (upd_pdqcb j clear_pdqcb k5)"
      by (rule pdq.inv_table [OF i2(1), of j])
        (use q ne js in \<open>auto simp: k5 k3_def upd_pdqcb_def pdq_exists_def pdq_repr_clear\<close>)
    ultimately show ?thesis by blast
  qed
  then show "pdq_inv (snd (acre_pdq mb_align atr n mx mb k))" "settled (snd (acre_pdq mb_align atr n mx mb k))"
    using i s i1 i2 by (auto simp: eq l)
qed

end
