(* ===== verification/Mempfix.thy ===== *)
theory Mempfix
  imports Mailbox
begin

unbundle bit_operations_syntax

text \<open>
  Fixed-sized memory pools, asp3\_dcre/kernel/mempfix.c. The management block of a memory block
  holds \<open>INDEX_ALLOC\<close> while the block is allocated and the next free block otherwise; blocks
  from \<open>unused\<close> on have never been allocated. The lemmas say that a block is never given out
  twice and that \<open>rel_mpf\<close> accepts exactly the blocks that are allocated.
\<close>

section \<open>Operations\<close>

abbreviation INDEX_NULL :: uint where "INDEX_NULL \<equiv> NOT 0"
abbreviation INDEX_ALLOC :: uint where "INDEX_ALLOC \<equiv> NOT 1"

definition mpf_exists :: "kernel \<Rightarrow> nat \<Rightarrow> bool" where
  "mpf_exists k i \<longleftrightarrow> mpfatr (mpfinib k i) \<noteq> TA_NOEXS"

definition upd_mpfcb :: "nat \<Rightarrow> (mpfcb \<Rightarrow> mpfcb) \<Rightarrow> kernel \<Rightarrow> kernel" where
  "upd_mpfcb i f k = k\<lparr>mpfcb := (mpfcb k)(i := f (mpfcb k i))\<rparr>"

definition clear_mpfcb :: "uint \<Rightarrow> mpfcb \<Rightarrow> mpfcb" where
  "clear_mpfcb n b = b\<lparr>fblkcnt := n, mpf_unused := 0, mpf_freelist := INDEX_NULL\<rparr>"

definition initialize_mempfix :: "kernel \<Rightarrow> kernel" where
  "initialize_mempfix k =
     (let n = nat (tmax_smpfid k); m = nat (tmax_mpfid k);
          k1 = map_ts (\<lambda>s. s\<lparr>queues := (\<lambda>h. case h of WaitQ (MpfW i) \<Rightarrow> if i < n then [] else queues s h
            | _ \<Rightarrow> queues s h)\<rparr>) k
      in k1\<lparr>mpfcb := (\<lambda>i. if i < n then clear_mpfcb (blkcnt (mpfinib k i)) (mpfcb k i) else mpfcb k i),
            mpfinib := (\<lambda>i. if n \<le> i \<and> i < m then (mpfinib k i)\<lparr>mpfatr := TA_NOEXS\<rparr> else mpfinib k i),
            free_mpfcb := [n..<m]\<rparr>)"

definition get_mpf_block :: "mpfinib \<Rightarrow> mpfcb \<Rightarrow> addr \<times> mpfcb" where
  "get_mpf_block ini b =
     (let (blkidx, b1) =
            (if mpf_freelist b \<noteq> INDEX_NULL
             then (mpf_freelist b, b\<lparr>mpf_freelist := mpfmb b (unat (mpf_freelist b))\<rparr>)
             else (mpf_unused b, b\<lparr>mpf_unused := mpf_unused b + 1\<rparr>));
          blk = mpf ini + blksz ini * blkidx;
          b2 = b1\<lparr>fblkcnt := fblkcnt b1 - 1\<rparr>
      in (blk, b2\<lparr>mpfmb := (mpfmb b2)(unat blkidx := INDEX_ALLOC)\<rparr>))"

definition ROUND_MPF_T :: "uint \<Rightarrow> uint" where
  "ROUND_MPF_T sz = (sz + 4 - 1) AND NOT (4 - 1)"

text \<open>
  \<open>mp\<close> and \<open>mb\<close> are the areas of the caller, 0 for none; \<open>mpf_align\<close> and \<open>mb_align\<close> the alignment
  tests of the target.
\<close>

definition acre_mpf :: "(addr \<Rightarrow> bool) \<Rightarrow> (addr \<Rightarrow> bool) \<Rightarrow> ATR \<Rightarrow> uint \<Rightarrow> uint \<Rightarrow> addr \<Rightarrow> addr \<Rightarrow> kernel \<Rightarrow> svc \<times> kernel" where
  "acre_mpf mpf_align mb_align atr cnt sz mp mb k =
     (if ctx_error k then (Ret E_CTX, k)
      else if atr AND NOT TA_TPRI \<noteq> 0 then (Ret E_RSATR, k)
      else if \<not> cnt \<noteq> 0 then (Ret E_PAR, k)
      else if \<not> sz \<noteq> 0 then (Ret E_PAR, k)
      else if mp \<noteq> 0 \<and> \<not> mpf_align mp then (Ret E_PAR, k)
      else if mb \<noteq> 0 \<and> \<not> mb_align mb then (Ret E_PAR, k)
      else let k1 = lock_cpu k in
        if tmax_mpfid k1 = 0 \<or> free_mpfcb k1 = [] then leave E_NOID k1
        else let (mp1, atr1, k2) =
                   (if mp = 0 then let (p, k') = malloc_mpk (ROUND_MPF_T sz * cnt) k1 in (p, atr OR TA_MEMALLOC, k')
                    else (mp, atr, k1))
             in if mp1 = 0 then leave E_NOMEM k2
                else let (mb1, atr2, k3) =
                           (if mb = 0 then let (p, k') = malloc_mpk (4 * cnt) k2 in (p, atr1 OR TA_MBALLOC, k')
                            else (mb, atr1, k2))
                     in if mb1 = 0 then leave E_NOMEM (if mp = 0 then free_mpk mp1 k3 else k3)
                        else let i = hd (free_mpfcb k3);
                                 k4 = k3\<lparr>free_mpfcb := tl (free_mpfcb k3),
                                         mpfinib := (mpfinib k3)(i := \<lparr>mpfatr = atr2, blkcnt = cnt,
                                           blksz = ROUND_MPF_T sz, mpf = mp1, p_mpfmb = mb1\<rparr>)\<rparr>;
                                 k5 = map_ts (\<lambda>s. s\<lparr>queues := (queues s)(WaitQ (MpfW i) := [])\<rparr>) k4
                             in leave_uint (OBJID i) (upd_mpfcb i (clear_mpfcb (blkcnt (mpfinib k5 i))) k5))"

definition del_mpf :: "int \<Rightarrow> kernel \<Rightarrow> svc \<times> kernel" where
  "del_mpf mpfid k =
     (if ctx_error k then (Ret E_CTX, k)
      else if \<not> VALID_ID (tmax_mpfid k) mpfid then (Ret E_ID, k)
      else let i = INDEX mpfid; k1 = lock_cpu k in
        if \<not> mpf_exists k1 i then leave E_NOEXS k1
        else if mpfid \<le> tmax_smpfid k1 then leave E_OBJ k1
        else let k2 = init_wait_queue (MpfW i) k1;
                 k3 = (if mpfatr (mpfinib k2 i) AND TA_MEMALLOC \<noteq> 0 then free_mpk (mpf (mpfinib k2 i)) k2 else k2);
                 k4 = (if mpfatr (mpfinib k3 i) AND TA_MBALLOC \<noteq> 0 then free_mpk (p_mpfmb (mpfinib k3 i)) k3 else k3);
                 k5 = k4\<lparr>mpfinib := (mpfinib k4)(i := (mpfinib k4 i)\<lparr>mpfatr := TA_NOEXS\<rparr>),
                         free_mpfcb := free_mpfcb k4 @ [i]\<rparr>
             in leave E_OK (dispatch_if_needed k5))"

text \<open>The second result is what is stored through \<open>p_blk\<close> at once.\<close>

definition take_block :: "nat \<Rightarrow> kernel \<Rightarrow> (svc \<times> kernel) \<times> addr option" where
  "take_block i k =
     (let (blk, b) = get_mpf_block (mpfinib k i) (mpfcb k i)
      in (leave E_OK (upd_mpfcb i (\<lambda>_. b) k), Some blk))"

definition get_mpf :: "int \<Rightarrow> kernel \<Rightarrow> (svc \<times> kernel) \<times> addr option" where
  "get_mpf mpfid k =
     (if dispatch_error k then ((Ret E_CTX, k), None)
      else if \<not> VALID_ID (tmax_mpfid k) mpfid then ((Ret E_ID, k), None)
      else let i = INDEX mpfid; k1 = lock_cpu k in
        if \<not> mpf_exists k1 i then (leave E_NOEXS k1, None)
        else if raster (task k1 (runtsk k1)) then (leave E_RASTER k1, None)
        else if fblkcnt (mpfcb k1 i) > 0 then take_block i k1
        else (block (wobj_make_wait (MpfW i) TS_WAITING_MPF fresh_winfo k1), None))"

definition pget_mpf :: "int \<Rightarrow> kernel \<Rightarrow> (svc \<times> kernel) \<times> addr option" where
  "pget_mpf mpfid k =
     (if ctx_error k then ((Ret E_CTX, k), None)
      else if \<not> VALID_ID (tmax_mpfid k) mpfid then ((Ret E_ID, k), None)
      else let i = INDEX mpfid; k1 = lock_cpu k in
        if \<not> mpf_exists k1 i then (leave E_NOEXS k1, None)
        else if fblkcnt (mpfcb k1 i) > 0 then take_block i k1
        else (leave E_TMOUT k1, None))"

definition tget_mpf :: "int \<Rightarrow> TMO \<Rightarrow> kernel \<Rightarrow> (svc \<times> kernel) \<times> addr option" where
  "tget_mpf mpfid tmout k =
     (if dispatch_error k then ((Ret E_CTX, k), None)
      else if \<not> VALID_ID (tmax_mpfid k) mpfid then ((Ret E_ID, k), None)
      else if \<not> VALID_TMOUT tmout then ((Ret E_PAR, k), None)
      else let i = INDEX mpfid; k1 = lock_cpu k in
        if \<not> mpf_exists k1 i then (leave E_NOEXS k1, None)
        else if raster (task k1 (runtsk k1)) then (leave E_RASTER k1, None)
        else if fblkcnt (mpfcb k1 i) > 0 then take_block i k1
        else if tmout = TMO_POL then (leave E_TMOUT k1, None)
        else (block (wobj_make_wait_tmout (MpfW i) TS_WAITING_MPF fresh_winfo tmout k1), None))"

text \<open>Whether \<open>blk\<close> is the address of an allocated block, and the index that address has.\<close>

definition mpf_blkidx :: "mpfinib \<Rightarrow> addr \<Rightarrow> uint" where
  "mpf_blkidx ini blk = (blk - mpf ini) div blksz ini"

definition mpf_block_ok :: "mpfinib \<Rightarrow> mpfcb \<Rightarrow> addr \<Rightarrow> bool" where
  "mpf_block_ok ini b blk \<longleftrightarrow>
     (let blkoffset = blk - mpf ini
      in \<not> (\<not> mpf ini \<le> blk \<or> \<not> blkoffset mod blksz ini = 0 \<or> \<not> blkoffset div blksz ini < mpf_unused b \<or>
            \<not> mpfmb b (unat (mpf_blkidx ini blk)) = INDEX_ALLOC))"

definition put_mpf_block :: "uint \<Rightarrow> mpfcb \<Rightarrow> mpfcb" where
  "put_mpf_block blkidx b =
     (let b1 = b\<lparr>fblkcnt := fblkcnt b + 1\<rparr>;
          b2 = b1\<lparr>mpfmb := (mpfmb b1)(unat blkidx := mpf_freelist b1)\<rparr>
      in b2\<lparr>mpf_freelist := blkidx\<rparr>)"

definition rel_mpf :: "int \<Rightarrow> addr \<Rightarrow> kernel \<Rightarrow> svc \<times> kernel" where
  "rel_mpf mpfid blk k =
     (if ctx_error k then (Ret E_CTX, k)
      else if \<not> VALID_ID (tmax_mpfid k) mpfid then (Ret E_ID, k)
      else let i = INDEX mpfid; k1 = lock_cpu k in
        if \<not> mpf_exists k1 i then leave E_NOEXS k1
        else if \<not> mpf_block_ok (mpfinib k1 i) (mpfcb k1 i) blk then leave E_PAR k1
        else if queue_of k1 (MpfW i) \<noteq> [] then
          let (t, k2) = take_waiter (MpfW i) k1
          in leave E_OK (dispatch_if_needed (wait_complete t (upd_winfo t (\<lambda>w. w\<lparr>w_blk := blk\<rparr>) k2)))
        else leave E_OK (upd_mpfcb i (put_mpf_block (mpf_blkidx (mpfinib k1 i) blk)) k1))"

definition ini_mpf :: "int \<Rightarrow> kernel \<Rightarrow> svc \<times> kernel" where
  "ini_mpf mpfid k =
     (if ctx_error k then (Ret E_CTX, k)
      else if \<not> VALID_ID (tmax_mpfid k) mpfid then (Ret E_ID, k)
      else let i = INDEX mpfid; k1 = lock_cpu k in
        if \<not> mpf_exists k1 i then leave E_NOEXS k1
        else let k2 = init_wait_queue (MpfW i) k1
             in leave E_OK (dispatch_if_needed (upd_mpfcb i (clear_mpfcb (blkcnt (mpfinib k2 i))) k2)))"

definition ref_mpf :: "int \<Rightarrow> kernel \<Rightarrow> (svc \<times> kernel) \<times> (int \<times> uint) option" where
  "ref_mpf mpfid k =
     (if ctx_error k then ((Ret E_CTX, k), None)
      else if \<not> VALID_ID (tmax_mpfid k) mpfid then ((Ret E_ID, k), None)
      else let i = INDEX mpfid; k1 = lock_cpu k in
        if \<not> mpf_exists k1 i then (leave E_NOEXS k1, None)
        else (leave E_OK k1, Some (wait_tskid (MpfW i) k1, fblkcnt (mpfcb k1 i))))"

section \<open>The scheduler state\<close>

lemma upd_mpfcb_frame [simp]:
  "midway (upd_mpfcb i f k) = midway k" "settled (upd_mpfcb i f k) = settled k" "in_task (upd_mpfcb i f k) = in_task k"
  "K \<noteq> KMpf \<Longrightarrow> keeps K k' (upd_mpfcb i f k) = keeps K k' k" "ts (upd_mpfcb i f k) = ts k" "tm (upd_mpfcb i f k) = tm k"
  "mpfinib (upd_mpfcb i f k) = mpfinib k" "sense_context (upd_mpfcb i f k) = sense_context k"
  "mpfcb (upd_mpfcb i f k) j = (if j = i then f (mpfcb k i) else mpfcb k j)" "free_mpfcb (upd_mpfcb i f k) = free_mpfcb k"
  by (simp_all add: upd_mpfcb_def sense_context_def)

lemma mempfix_settled [pres]:
  shows "in_task k \<Longrightarrow> settled (snd (fst (get_mpf mpfid k)))"
    and "settled k \<Longrightarrow> settled (snd (fst (pget_mpf mpfid k)))"
    and "in_task k \<Longrightarrow> settled (snd (fst (tget_mpf mpfid tmout k)))"
    and "settled k \<Longrightarrow> settled (snd (rel_mpf mpfid blk k))"
    and "settled k \<Longrightarrow> settled (snd (ini_mpf mpfid k))"
    and "settled k \<Longrightarrow> settled (snd (del_mpf mpfid k))"
    and "settled k \<Longrightarrow> settled (snd (fst (ref_mpf mpfid k)))"
proof -
  show "in_task k \<Longrightarrow> settled (snd (fst (get_mpf mpfid k)))"
    using lock_entry_task [of k]
    by (auto simp: get_mpf_def take_block_def Let_def case_prod_unfold dispatch_error_def intro!: pres)
  show "settled k \<Longrightarrow> settled (snd (fst (pget_mpf mpfid k)))"
    using lock_entry [of k] by (auto simp: pget_mpf_def take_block_def Let_def case_prod_unfold)
  show "in_task k \<Longrightarrow> settled (snd (fst (tget_mpf mpfid tmout k)))"
    using lock_entry_task [of k]
    by (auto simp: tget_mpf_def take_block_def Let_def case_prod_unfold dispatch_error_def intro!: pres)
  show "settled k \<Longrightarrow> settled (snd (rel_mpf mpfid blk k))"
    using lock_entry [of k]
    by (auto simp: rel_mpf_def Let_def case_prod_unfold intro!: dispatch_if_needed_settled take_give_complete_midway)
  show "settled k \<Longrightarrow> settled (snd (ini_mpf mpfid k))"
    using lock_entry [of k] by (auto simp: ini_mpf_def Let_def intro!: pres dispatch_if_needed_settled)
  show "settled k \<Longrightarrow> settled (snd (del_mpf mpfid k))"
    using lock_entry [of k] by (auto simp: del_mpf_def Let_def intro!: pres dispatch_if_needed_settled)
  show "settled k \<Longrightarrow> settled (snd (fst (ref_mpf mpfid k)))"
    using lock_entry [of k] by (auto simp: ref_mpf_def Let_def)
qed

lemma mempfix_keeps:
  assumes "K \<noteq> KMpf"
  shows "keeps K k (snd (fst (get_mpf mpfid k)))" "keeps K k (snd (fst (pget_mpf mpfid k)))"
    "keeps K k (snd (fst (tget_mpf mpfid tmout k)))" "keeps K k (snd (rel_mpf mpfid blk k))"
    "keeps K k (snd (ini_mpf mpfid k))" "keeps K k (snd (del_mpf mpfid k))" "keeps K k (snd (fst (ref_mpf mpfid k)))"
  using assms
  by (auto simp: get_mpf_def pget_mpf_def tget_mpf_def rel_mpf_def ini_mpf_def del_mpf_def ref_mpf_def take_block_def
      Let_def case_prod_unfold intro!: frame)

section \<open>The blocks of a pool\<close>

primrec free_chain :: "(nat \<Rightarrow> uint) \<Rightarrow> uint \<Rightarrow> uint list \<Rightarrow> bool" where
  "free_chain mb p [] \<longleftrightarrow> p = INDEX_NULL"
| "free_chain mb p (x # xs) \<longleftrightarrow> p = x \<and> x \<noteq> INDEX_NULL \<and> free_chain mb (mb (unat x)) xs"

lemma free_chain_upd: "x \<notin> set xs \<Longrightarrow> free_chain (mb(unat x := v)) p xs \<longleftrightarrow> free_chain mb p xs"
proof (induction xs arbitrary: p)
  case (Cons y ys)
  then have "unat y \<noteq> unat x" by (auto simp: word_unat_eq_iff [symmetric])
  then show ?case using Cons by simp
qed simp

text \<open>
  \<open>mpf_ok ini b fs\<close>: the free list holds the blocks \<open>fs\<close>, each once; of the blocks below
  \<open>unused\<close> exactly those not in it are marked as allocated, and \<open>fblkcnt\<close> counts the others.
  \<open>allocated\<close> is the set of the blocks given out.
\<close>

definition allocated :: "mpfcb \<Rightarrow> uint set" where
  "allocated b = {x. x < mpf_unused b \<and> mpfmb b (unat x) = INDEX_ALLOC}"

definition mpf_ok :: "mpfinib \<Rightarrow> mpfcb \<Rightarrow> uint list \<Rightarrow> bool" where
  "mpf_ok ini b fs \<longleftrightarrow> free_chain (mpfmb b) (mpf_freelist b) fs \<and> distinct fs \<and>
     (\<forall>x. x < mpf_unused b \<longrightarrow> (mpfmb b (unat x) = INDEX_ALLOC \<longleftrightarrow> x \<notin> set fs)) \<and>
     (\<forall>x \<in> set fs. x < mpf_unused b) \<and> mpf_unused b \<le> blkcnt ini \<and> blkcnt ini < INDEX_ALLOC \<and>
     unat (fblkcnt b) + unat (mpf_unused b) = unat (blkcnt ini) + length fs"

lemma mpf_ok_clear: "blkcnt ini < INDEX_ALLOC \<Longrightarrow> mpf_ok ini (clear_mpfcb (blkcnt ini) b) []"
  by (simp add: mpf_ok_def clear_mpfcb_def)

lemma allocated_clear: "allocated (clear_mpfcb n b) = {}"
  by (simp add: allocated_def clear_mpfcb_def)

lemma word_less_plus_1: "n < m \<Longrightarrow> x < n + 1 \<longleftrightarrow> x < n \<or> x = n" for n m x :: uint
  by unat_arith

text \<open>A block given out was not allocated before, and belongs to the pool.\<close>

lemma get_mpf_block_ok:
  assumes o: "mpf_ok ini b fs" and n: "fblkcnt b > 0" and g: "get_mpf_block ini b = (blk, b')"
  shows "\<exists>x fs'. blk = mpf ini + blksz ini * x \<and> x \<notin> allocated b \<and> x < blkcnt ini \<and>
    allocated b' = insert x (allocated b) \<and> mpf_ok ini b' fs' \<and> fblkcnt b' = fblkcnt b - 1"
proof (cases fs)
  case Nil
  have fl: "mpf_freelist b = INDEX_NULL" using o Nil by (simp add: mpf_ok_def)
  let ?x = "mpf_unused b"
  have b': "blk = mpf ini + blksz ini * ?x"
    "b' = b\<lparr>mpf_unused := ?x + 1, fblkcnt := fblkcnt b - 1, mpfmb := (mpfmb b)(unat ?x := INDEX_ALLOC)\<rparr>"
    using g fl by (simp_all add: get_mpf_block_def)
  have sum: "unat (fblkcnt b) + unat ?x = unat (blkcnt ini)" using o Nil by (simp add: mpf_ok_def)
  then have lt: "?x < blkcnt ini" using n by (simp add: word_less_nat_alt)
  note less = word_less_plus_1 [OF lt]
  have "unat (fblkcnt b - 1) + unat (?x + 1) = unat (blkcnt ini)" using sum n lt by unat_arith
  moreover have "?x + 1 \<le> blkcnt ini" using lt by (rule inc_le)
  ultimately have "mpf_ok ini b' []" using o Nil by (auto simp: mpf_ok_def b' less word_unat_eq_iff [symmetric])
  moreover have "allocated b' = insert ?x (allocated b)"
    by (auto simp: allocated_def b' less word_unat_eq_iff [symmetric])
  moreover have "?x \<notin> allocated b" by (simp add: allocated_def)
  ultimately show ?thesis using b' lt by (intro exI [of _ ?x] exI [of _ "[]"]) simp
next
  case (Cons x fs')
  have fl: "mpf_freelist b = x" "x \<noteq> INDEX_NULL" "free_chain (mpfmb b) (mpfmb b (unat x)) fs'" "x \<notin> set fs'" "distinct fs'"
    and lt: "x < mpf_unused b" and fs: "\<forall>y. y < mpf_unused b \<longrightarrow> (mpfmb b (unat y) = INDEX_ALLOC \<longleftrightarrow> y \<notin> set fs)"
    "\<forall>y \<in> set fs'. y < mpf_unused b"
    and le: "mpf_unused b \<le> blkcnt ini" "blkcnt ini < INDEX_ALLOC"
    and sum: "unat (fblkcnt b) + unat (mpf_unused b) = unat (blkcnt ini) + length fs' + 1"
    using o Cons by (simp_all add: mpf_ok_def)
  have b': "blk = mpf ini + blksz ini * x"
    "b' = b\<lparr>mpf_freelist := mpfmb b (unat x), fblkcnt := fblkcnt b - 1, mpfmb := (mpfmb b)(unat x := INDEX_ALLOC)\<rparr>"
    using g fl(1,2) by (auto simp: get_mpf_block_def)
  have al: "mpfmb b (unat y) = INDEX_ALLOC \<longleftrightarrow> y \<notin> set fs" if "y < mpf_unused b" for y using fs(1) that by blast
  have "free_chain (mpfmb b') (mpf_freelist b') fs'" using fl by (simp add: b' free_chain_upd)
  moreover have "unat (fblkcnt b - 1) + unat (mpf_unused b) = unat (blkcnt ini) + length fs'" using sum n by unat_arith
  moreover have "mpfmb b' (unat y) = INDEX_ALLOC \<longleftrightarrow> y \<notin> set fs'" if "y < mpf_unused b" for y
    using al [OF that] fl(4) Cons by (auto simp: b' word_unat_eq_iff [symmetric])
  ultimately have "mpf_ok ini b' fs'" using fl(5) fs(2) le unfolding mpf_ok_def by (simp add: b')
  moreover have "allocated b' = insert x (allocated b)" using lt by (auto simp: allocated_def b' word_unat_eq_iff [symmetric])
  moreover have "x \<notin> allocated b" using al [OF lt] Cons by (simp add: allocated_def)
  moreover have "x < blkcnt ini" using lt le(1) by simp
  ultimately show ?thesis using b' by (intro exI [of _ x] exI [of _ fs']) simp
qed

text \<open>\<open>fits\<close>: the area of the pool does not wrap around the address space.\<close>

definition fits :: "mpfinib \<Rightarrow> bool" where
  "fits ini \<longleftrightarrow> blksz ini > 0 \<and> unat (mpf ini) + unat (blksz ini) * unat (blkcnt ini) \<le> 2 ^ 32"

lemma block_address:
  assumes f: "fits ini" and x: "x < blkcnt ini"
  shows "mpf_blkidx ini (mpf ini + blksz ini * x) = x" "mpf ini \<le> mpf ini + blksz ini * x"
    "(mpf ini + blksz ini * x - mpf ini) mod blksz ini = 0"
proof -
  have pos: "0 < unat (blksz ini)" using f by (simp add: fits_def word_less_nat_alt)
  have "unat x + 1 \<le> unat (blkcnt ini)" using x by (simp add: word_less_nat_alt)
  then have "unat (blksz ini) * (unat x + 1) \<le> unat (blksz ini) * unat (blkcnt ini)" by (rule mult_le_mono2)
  then have b: "unat (mpf ini) + unat (blksz ini) * unat x < 2 ^ 32" using f pos by (simp add: fits_def)
  then have m: "unat (blksz ini * x) = unat (blksz ini) * unat x" using unat_mult_lem [of "blksz ini" x] by simp
  have a: "unat (mpf ini + blksz ini * x) = unat (mpf ini) + unat (blksz ini) * unat x"
    using b unat_add_lem [of "mpf ini" "blksz ini * x"] by (simp add: m)
  show "mpf ini \<le> mpf ini + blksz ini * x" by (simp add: word_le_nat_alt a)
  have "unat (blksz ini * x div blksz ini) = unat x" using pos by (simp add: unat_div m)
  then have "blksz ini * x div blksz ini = x" by (simp add: word_unat_eq_iff)
  then show "mpf_blkidx ini (mpf ini + blksz ini * x) = x" by (simp add: mpf_blkidx_def)
  have "unat (blksz ini * x mod blksz ini) = 0" by (simp add: unat_mod m)
  then show "(mpf ini + blksz ini * x - mpf ini) mod blksz ini = 0" by (simp add: unat_eq_0)
qed

text \<open>\<open>rel_mpf\<close> accepts exactly the addresses of allocated blocks.\<close>

lemma mpf_block_ok_iff:
  assumes f: "fits ini" and o: "mpf_ok ini b fs"
  shows "mpf_block_ok ini b blk \<longleftrightarrow> (\<exists>x \<in> allocated b. blk = mpf ini + blksz ini * x)"
proof
  assume a: "mpf_block_ok ini b blk"
  let ?x = "mpf_blkidx ini blk"
  have 1: "(blk - mpf ini) mod blksz ini = 0" "?x < mpf_unused b" "mpfmb b (unat ?x) = INDEX_ALLOC"
    using a by (simp_all add: mpf_block_ok_def mpf_blkidx_def Let_def)
  have "(blk - mpf ini) div blksz ini * blksz ini + (blk - mpf ini) mod blksz ini = blk - mpf ini"
    by (rule word_mod_div_equality)
  then have "blk = mpf ini + blksz ini * ?x" using 1(1) by (simp add: mpf_blkidx_def mult.commute algebra_simps)
  then show "\<exists>x \<in> allocated b. blk = mpf ini + blksz ini * x" using 1(2,3) by (auto simp: allocated_def)
next
  assume "\<exists>x \<in> allocated b. blk = mpf ini + blksz ini * x"
  then obtain x where x: "x < mpf_unused b" "mpfmb b (unat x) = INDEX_ALLOC" "blk = mpf ini + blksz ini * x"
    by (auto simp: allocated_def)
  have "mpf_unused b \<le> blkcnt ini" using o by (simp add: mpf_ok_def)
  then have lt: "x < blkcnt ini" using x(1) by simp
  note ad = block_address [OF f lt]
  show "mpf_block_ok ini b blk" using ad x by (simp add: mpf_block_ok_def mpf_blkidx_def Let_def)
qed

text \<open>A block returned is free again.\<close>

lemma put_mpf_block_ok:
  assumes o: "mpf_ok ini b fs" and x: "x \<in> allocated b"
  shows "mpf_ok ini (put_mpf_block x b) (x # fs)" "allocated (put_mpf_block x b) = allocated b - {x}"
    "fblkcnt (put_mpf_block x b) = fblkcnt b + 1" "fblkcnt b < blkcnt ini"
proof -
  let ?b = "put_mpf_block x b"
  have b': "?b = b\<lparr>fblkcnt := fblkcnt b + 1, mpfmb := (mpfmb b)(unat x := mpf_freelist b), mpf_freelist := x\<rparr>"
    by (simp add: put_mpf_block_def)
  have ch: "free_chain (mpfmb b) (mpf_freelist b) fs" "distinct fs" "\<forall>y \<in> set fs. y < mpf_unused b"
    and fs: "\<And>y. y < mpf_unused b \<Longrightarrow> mpfmb b (unat y) = INDEX_ALLOC \<longleftrightarrow> y \<notin> set fs"
    and le: "mpf_unused b \<le> blkcnt ini" "blkcnt ini < INDEX_ALLOC"
    and sum: "unat (fblkcnt b) + unat (mpf_unused b) = unat (blkcnt ini) + length fs"
    using o by (simp_all add: mpf_ok_def)
  have lt: "x < mpf_unused b" and al: "mpfmb b (unat x) = INDEX_ALLOC" using x by (simp_all add: allocated_def)
  have xfs: "x \<notin> set fs" using fs [OF lt] al by simp
  have xa: "x < INDEX_ALLOC" using lt le by (meson less_le_trans order_less_trans)
  then have xn: "x \<noteq> INDEX_NULL" by auto
  have head: "mpf_freelist b \<noteq> INDEX_ALLOC"
  proof (cases fs)
    case (Cons y ys)
    then have "y < INDEX_ALLOC" using ch(3) le by (meson less_le_trans list.set_intros(1) order_less_trans)
    then show ?thesis using ch(1) Cons by auto
  qed (use ch(1) in simp)
  have "length fs + 1 \<le> unat (mpf_unused b)"
  proof -
    have "distinct (map unat (x # fs))" using ch(2) xfs by (auto simp: distinct_map inj_on_def word_unat_eq_iff [symmetric])
    then have "card (set (map unat (x # fs))) = length (map unat (x # fs))" by (rule distinct_card)
    moreover have "set (map unat (x # fs)) \<subseteq> {..<unat (mpf_unused b)}" using ch(3) lt by (auto simp: word_less_nat_alt)
    then have "card (set (map unat (x # fs))) \<le> unat (mpf_unused b)" using card_mono [of "{..<unat (mpf_unused b)}"] by fastforce
    ultimately show ?thesis by simp
  qed
  then have f: "unat (fblkcnt b) < unat (blkcnt ini)" using sum by linarith
  then show "fblkcnt b < blkcnt ini" by (simp add: word_less_nat_alt)
  then have "unat (fblkcnt b + 1) = unat (fblkcnt b) + 1" by unat_arith
  moreover have "mpfmb ?b (unat y) = INDEX_ALLOC \<longleftrightarrow> y \<notin> set (x # fs)" if "y < mpf_unused b" for y
    using fs [OF that] head by (auto simp: b' word_unat_eq_iff [symmetric])
  ultimately show "mpf_ok ini ?b (x # fs)"
    using ch xfs xn lt le sum unfolding mpf_ok_def by (simp add: b' free_chain_upd)
  show "allocated ?b = allocated b - {x}" using head by (auto simp: allocated_def b' word_unat_eq_iff [symmetric])
  show "fblkcnt ?b = fblkcnt b + 1" by (simp add: b')
qed

section \<open>The invariant of memory pools\<close>

definition mpf_good :: "kernel \<Rightarrow> nat \<Rightarrow> bool" where
  "mpf_good k i \<longleftrightarrow> (\<exists>fs. mpf_ok (mpfinib k i) (mpfcb k i) fs) \<and> (queue_of k (MpfW i) \<noteq> [] \<longrightarrow> fblkcnt (mpfcb k i) = 0)"

definition mpf_inv :: "kernel \<Rightarrow> bool" where
  "mpf_inv k \<longleftrightarrow> (\<forall>i. mpf_exists k i \<longrightarrow> mpf_good k i) \<and> (\<forall>i. \<not> mpf_exists k i \<longrightarrow> queue_of k (MpfW i) = []) \<and>
     distinct (free_mpfcb k) \<and> (\<forall>i \<in> set (free_mpfcb k). \<not> mpf_exists k i)"

text \<open>A step that concerns the pool \<open>i\<close> only.\<close>

lemma mpf_inv_step:
  assumes i: "mpf_inv k" and t: "\<And>j. j \<noteq> i \<Longrightarrow> mpfinib k' j = mpfinib k j \<and> mpfcb k' j = mpfcb k j"
    and q: "\<And>j. j \<noteq> i \<Longrightarrow> set (queue_of k' (MpfW j)) \<subseteq> set (queue_of k (MpfW j))"
    and g: "if mpf_exists k' i then mpf_good k' i else queue_of k' (MpfW i) = []"
    and f: "distinct (free_mpfcb k')" "\<forall>j \<in> set (free_mpfcb k'). \<not> mpf_exists k' j"
  shows "mpf_inv k'"
proof -
  have e: "mpf_exists k' j = mpf_exists k j" if "j \<noteq> i" for j using t [OF that] by (simp add: mpf_exists_def)
  have n: "queue_of k' (MpfW j) \<noteq> [] \<Longrightarrow> queue_of k (MpfW j) \<noteq> []" if "j \<noteq> i" for j using q [OF that] by auto
  have "mpf_good k' j" if x: "mpf_exists k' j" for j
  proof (cases "j = i")
    case False
    then have "mpf_good k j" using i e x by (simp add: mpf_inv_def)
    then show ?thesis using t [OF False] n [OF False] by (auto simp: mpf_good_def)
  qed (use g x in simp)
  moreover have "queue_of k' (MpfW j) = []" if x: "\<not> mpf_exists k' j" for j
  proof (cases "j = i")
    case False
    then have "queue_of k (MpfW j) = []" using i e x by (simp add: mpf_inv_def)
    then show ?thesis using n [OF False] by blast
  qed (use g x in simp)
  ultimately show ?thesis using f by (simp add: mpf_inv_def)
qed

lemma mpf_inv_keeps:
  assumes i: "mpf_inv k" and k: "keeps KMpf k k'" shows "mpf_inv k'"
proof -
  have t: "mpfinib k' = mpfinib k" "mpfcb k' = mpfcb k" "free_mpfcb k' = free_mpfcb k"
    and q: "\<And>j. set (queue_of k' (MpfW j)) \<subseteq> set (queue_of k (MpfW j))"
    using k by (auto simp: keeps_def same_objects_def)
  have e: "mpf_exists k' = mpf_exists k" by (simp add: mpf_exists_def fun_eq_iff t)
  have n: "queue_of k' (MpfW j) \<noteq> [] \<Longrightarrow> queue_of k (MpfW j) \<noteq> []" for j using q [of j] by auto
  show ?thesis using i n unfolding mpf_inv_def mpf_good_def e t by blast
qed

lemma mpf_inv_joins:
  assumes i: "mpf_inv k" and e: "mpf_exists k i" and z: "\<not> fblkcnt (mpfcb k i) > 0" and j: "joins (MpfW i) k k'"
  shows "mpf_inv k'"
proof -
  have t: "mpfinib k' = mpfinib k" "mpfcb k' = mpfcb k" "free_mpfcb k' = free_mpfcb k"
    using j by (simp_all add: joins_def same_tables_sel)
  have "mpf_good k i" using i e by (simp add: mpf_inv_def)
  then have "mpf_good k' i" using z by (simp add: mpf_good_def t word_greater_zero_iff)
  then show ?thesis using i j e by (intro mpf_inv_step [OF i, of i]) (auto simp: t mpf_exists_def mpf_inv_def joins_def)
qed

lemma mpf_inv_take:
  assumes i: "mpf_inv k" and e: "mpf_exists k i" and p: "fblkcnt (mpfcb k i) > 0"
  shows "mpf_inv (upd_mpfcb i (\<lambda>_. snd (get_mpf_block (mpfinib k i) (mpfcb k i))) k)"
proof -
  have g: "mpf_good k i" using i e by (simp add: mpf_inv_def)
  then obtain fs where o: "mpf_ok (mpfinib k i) (mpfcb k i) fs" by (auto simp: mpf_good_def)
  have "queue_of k (MpfW i) = []" using g p by (auto simp: mpf_good_def)
  moreover have "\<exists>fs'. mpf_ok (mpfinib k i) (snd (get_mpf_block (mpfinib k i) (mpfcb k i))) fs'"
    using get_mpf_block_ok [OF o p prod.collapse [symmetric]] by blast
  ultimately show ?thesis using i e
    by (intro mpf_inv_step [OF i, of i]) (auto simp: mpf_exists_def mpf_inv_def mpf_good_def)
qed

lemma mempfix_inv:
  assumes i: "mpf_inv k"
  shows "mpf_inv (snd (fst (get_mpf mpfid k)))" "mpf_inv (snd (fst (pget_mpf mpfid k)))"
    "mpf_inv (snd (fst (tget_mpf mpfid tmout k)))" "mpf_inv (snd (fst (ref_mpf mpfid k)))"
proof -
  define k1 where "k1 = lock_cpu k"
  have i1: "mpf_inv k1" unfolding k1_def by (rule mpf_inv_keeps [OF i]) simp
  note fin = mpf_inv_keeps [OF _ keeps_dispatch(2) [OF keeps_refl]] mpf_inv_keeps [OF _ keeps_dispatch(5) [OF keeps_refl]]
  note wait = mpf_inv_joins [OF i1 _ _ joins_wait(1)] mpf_inv_joins [OF i1 _ _ joins_wait(2)]
  show "mpf_inv (snd (fst (get_mpf mpfid k)))" "mpf_inv (snd (fst (pget_mpf mpfid k)))"
    "mpf_inv (snd (fst (tget_mpf mpfid tmout k)))" "mpf_inv (snd (fst (ref_mpf mpfid k)))"
    using i i1 mpf_inv_take [OF i1]
    by (auto simp: get_mpf_def pget_mpf_def tget_mpf_def ref_mpf_def take_block_def Let_def case_prod_unfold
        k1_def [symmetric] block_def intro!: fin wait)
qed

lemma rel_mpf_inv:
  assumes i: "mpf_inv k" shows "mpf_inv (snd (rel_mpf mpfid blk k))"
proof -
  define k1 where "k1 = lock_cpu k"
  define i where "i = INDEX mpfid"
  have i1: "mpf_inv k1" unfolding k1_def by (rule mpf_inv_keeps [OF assms]) simp
  note fin = mpf_inv_keeps [OF _ keeps_dispatch(2) [OF keeps_refl]] mpf_inv_keeps [OF _ keeps_dispatch(5) [OF keeps_refl]]
  have w: "mpf_inv (wait_complete t (upd_winfo t f (snd (take_waiter v k1))))" for t f v
    by (rule mpf_inv_keeps [OF i1]) (intro frame keeps_refl)
  let ?x = "mpf_blkidx (mpfinib k1 i) blk"
  have "mpf_inv (upd_mpfcb i (put_mpf_block ?x) k1)"
    if e: "mpf_exists k1 i" and b: "mpf_block_ok (mpfinib k1 i) (mpfcb k1 i) blk" and q: "queue_of k1 (MpfW i) = []"
  proof -
    obtain fs where o: "mpf_ok (mpfinib k1 i) (mpfcb k1 i) fs"
      using i1 e unfolding mpf_inv_def mpf_good_def by blast
    have "?x \<in> allocated (mpfcb k1 i)" using b by (simp add: mpf_block_ok_def mpf_blkidx_def allocated_def Let_def)
    from put_mpf_block_ok(1) [OF o this] show ?thesis using i1 e q
      by (intro mpf_inv_step [OF i1, of i]) (auto simp: mpf_exists_def mpf_inv_def mpf_good_def)
  qed
  then show ?thesis using assms i1
    by (auto simp: rel_mpf_def Let_def case_prod_unfold k1_def [symmetric] i_def [symmetric] intro!: fin w)
qed

lemma ini_del_mpf_inv:
  assumes i: "mpf_inv k"
  shows "mpf_inv (snd (ini_mpf mpfid k))" "mpf_inv (snd (del_mpf mpfid k))"
proof -
  define i where "i = INDEX mpfid"
  define k1 where "k1 = lock_cpu k"
  define k2 where "k2 = init_wait_queue (MpfW i) k1"
  have i1: "mpf_inv k1" unfolding k1_def by (rule mpf_inv_keeps [OF assms]) simp
  have kp: "keeps KMpf k1 k2" unfolding k2_def by (intro frame keeps_refl)
  have i2: "mpf_inv k2" by (rule mpf_inv_keeps [OF i1 kp])
  have q: "queue_of k2 (MpfW i) = []" by (simp add: k2_def init_wait_queue_empty)
  have ex: "mpf_exists k2 = mpf_exists k1" using kp by (simp add: keeps_def same_objects_def mpf_exists_def fun_eq_iff)
  note fin = mpf_inv_keeps [OF _ keeps_dispatch(2) [OF keeps_refl]] mpf_inv_keeps [OF _ keeps_dispatch(5) [OF keeps_refl]]
  have "mpf_inv (upd_mpfcb i (clear_mpfcb (blkcnt (mpfinib k2 i))) k2)" if e: "mpf_exists k1 i"
  proof -
    have "blkcnt (mpfinib k2 i) < INDEX_ALLOC" using i2 e by (auto simp: mpf_inv_def mpf_good_def ex mpf_ok_def)
    from mpf_ok_clear [OF this, of "mpfcb k2 i"] show ?thesis using i2 q
      by (intro mpf_inv_step [OF i2, of i]) (auto simp: mpf_exists_def mpf_inv_def mpf_good_def)
  qed
  then show "mpf_inv (snd (ini_mpf mpfid k))"
    using assms i1 by (auto simp: ini_mpf_def Let_def k1_def [symmetric] i_def [symmetric] k2_def [symmetric] intro!: fin)
  define k3 where "k3 = (if mpfatr (mpfinib k2 i) AND TA_MEMALLOC \<noteq> 0 then free_mpk (mpf (mpfinib k2 i)) k2 else k2)"
  define k4 where "k4 = (if mpfatr (mpfinib k3 i) AND TA_MBALLOC \<noteq> 0 then free_mpk (p_mpfmb (mpfinib k3 i)) k3 else k3)"
  define k5 where "k5 = k4\<lparr>mpfinib := (mpfinib k4)(i := (mpfinib k4 i)\<lparr>mpfatr := TA_NOEXS\<rparr>), free_mpfcb := free_mpfcb k4 @ [i]\<rparr>"
  have k4: "mpfinib k4 = mpfinib k2" "free_mpfcb k4 = free_mpfcb k2" "mpfcb k4 = mpfcb k2" "ts k4 = ts k2"
    by (simp_all add: k4_def k3_def free_mpk_def)
  have "mpf_inv k5" if e: "mpf_exists k1 i"
    using i2 e q by (intro mpf_inv_step [OF i2, of i]) (auto simp: k5_def k4 mpf_exists_def mpf_inv_def ex [symmetric])
  moreover have "del_mpf mpfid k = (if ctx_error k then (Ret E_CTX, k)
      else if \<not> VALID_ID (tmax_mpfid k) mpfid then (Ret E_ID, k) else if \<not> mpf_exists k1 i then leave E_NOEXS k1
      else if mpfid \<le> tmax_smpfid k1 then leave E_OBJ k1 else leave E_OK (dispatch_if_needed k5))"
    by (simp only: del_mpf_def Let_def k1_def i_def k2_def k3_def k4_def k5_def)
  ultimately show "mpf_inv (snd (del_mpf mpfid k))" using assms i1 by (auto intro!: fin)
qed

text \<open>
  The count of a pool that fits the memory is below \<open>INDEX_ALLOC\<close>; \<open>acre_mpf\<close> does not check it.
\<close>

lemma acre_mpf_inv:
  assumes i: "mpf_inv k" and s: "settled k" and n: "cnt < INDEX_ALLOC"
  shows "mpf_inv (snd (acre_mpf mpf_align mb_align atr cnt sz mp mb k))"
    "settled (snd (acre_mpf mpf_align mb_align atr cnt sz mp mb k))"
proof -
  define k1 where "k1 = lock_cpu k"
  have i1: "mpf_inv k1 \<and> settled k1" unfolding k1_def using mpf_inv_keeps [OF i, of "lock_cpu k"] s by (simp add: settled_lock)
  have al: "mpf_inv (snd (malloc_mpk z k')) \<and> settled (snd (malloc_mpk z k'))" "mpf_inv (free_mpk p k') \<and> settled (free_mpk p k')"
    "free_mpfcb (snd (malloc_mpk z k')) = free_mpfcb k'" if "mpf_inv k' \<and> settled k'" for z p k'
    using that mpf_inv_keeps [of k' "snd (malloc_mpk z k')"] mpf_inv_keeps [of k' "free_mpk p k'"]
    by (auto simp: malloc_mpk_def Let_def)
  have l: "mpf_inv (snd (leave e k')) \<and> settled (snd (leave e k'))" "mpf_inv (snd (leave_uint x k')) \<and> settled (snd (leave_uint x k'))"
    if "mpf_inv k' \<and> settled k'" for e x k'
    using that mpf_inv_keeps [OF _ keeps_dispatch(5) [OF keeps_refl], of k' e]
      mpf_inv_keeps [OF _ keeps_dispatch(6) [OF keeps_refl], of k' x] by (auto simp: leave_def leave_uint_def)
  have c: "mpf_inv (upd_mpfcb j (clear_mpfcb cnt) k5) \<and> settled (upd_mpfcb j (clear_mpfcb cnt) k5)"
    if k3: "mpf_inv k3 \<and> settled k3" "free_mpfcb k3 \<noteq> []" "j = hd (free_mpfcb k3)"
      and k5: "k5 = map_ts (\<lambda>s. s\<lparr>queues := (queues s)(WaitQ (MpfW j) := [])\<rparr>)
        (k3\<lparr>free_mpfcb := tl (free_mpfcb k3), mpfinib := (mpfinib k3)(j := ini)\<rparr>)"
      and ini: "blkcnt ini = cnt" for j k3 k5 ini
  proof -
    obtain js where js: "free_mpfcb k3 = j # js" using k3 by (auto simp: neq_Nil_conv)
    then have ne: "\<not> mpf_exists k3 j" "j \<notin> set js" "distinct js" "\<forall>x\<in>set js. \<not> mpf_exists k3 x"
      using k3(1) by (simp_all add: mpf_inv_def)
    then have q: "queue_of k3 (MpfW j) = []" using k3(1) by (auto simp: mpf_inv_def)
    have 5: "k5 = k3\<lparr>free_mpfcb := tl (free_mpfcb k3), mpfinib := (mpfinib k3)(j := ini)\<rparr>"
      by (simp add: k5 map_ts_def q fun_upd_idem)
    have "settled (upd_mpfcb j (clear_mpfcb cnt) k5)" using k3(1) by (simp add: 5)
    moreover have "mpf_inv (upd_mpfcb j (clear_mpfcb cnt) k5)"
    proof (rule mpf_inv_step [of k3 j])
      have "mpf_ok ini (clear_mpfcb cnt (mpfcb k3 j)) []" using mpf_ok_clear [of ini] n by (simp add: ini)
      then show "if mpf_exists (upd_mpfcb j (clear_mpfcb cnt) k5) j then mpf_good (upd_mpfcb j (clear_mpfcb cnt) k5) j
          else queue_of (upd_mpfcb j (clear_mpfcb cnt) k5) (MpfW j) = []"
        by (auto simp: 5 mpf_good_def q)
      show "\<forall>x \<in> set (free_mpfcb (upd_mpfcb j (clear_mpfcb cnt) k5)). \<not> mpf_exists (upd_mpfcb j (clear_mpfcb cnt) k5) x"
      proof
        fix x assume "x \<in> set (free_mpfcb (upd_mpfcb j (clear_mpfcb cnt) k5))"
        then have "x \<noteq> j" "\<not> mpf_exists k3 x" using ne(2,4) by (auto simp: 5 js)
        then show "\<not> mpf_exists (upd_mpfcb j (clear_mpfcb cnt) k5) x" by (simp add: 5 mpf_exists_def)
      qed
    qed (use k3(1) ne(3) js in \<open>simp_all add: 5\<close>)
    ultimately show ?thesis by blast
  qed
  define r where "r = (if mp = 0 then let (p, k') = malloc_mpk (ROUND_MPF_T sz * cnt) k1 in (p, atr OR TA_MEMALLOC, k') else (mp, atr, k1))"
  obtain mp1 atr1 k2 where r: "r = (mp1, atr1, k2)" by (metis prod_cases3)
  have i2: "mpf_inv k2 \<and> settled k2" "free_mpfcb k2 = free_mpfcb k1"
    using r i1 al [OF i1] by (auto simp: r_def case_prod_unfold Let_def split: if_splits)
  define q where "q = (if mb = 0 then let (p, k') = malloc_mpk (4 * cnt) k2 in (p, atr1 OR TA_MBALLOC, k') else (mb, atr1, k2))"
  obtain mb1 atr2 k3 where q: "q = (mb1, atr2, k3)" by (metis prod_cases3)
  have i3: "mpf_inv k3 \<and> settled k3" "free_mpfcb k3 = free_mpfcb k1"
    using q i2 al [OF i2(1)] by (auto simp: q_def case_prod_unfold Let_def split: if_splits)
  define j where "j = hd (free_mpfcb k3)"
  define ini where "ini = \<lparr>mpfatr = atr2, blkcnt = cnt, blksz = ROUND_MPF_T sz, mpf = mp1, p_mpfmb = mb1\<rparr>"
  define k5 where "k5 = map_ts (\<lambda>s. s\<lparr>queues := (queues s)(WaitQ (MpfW j) := [])\<rparr>)
     (k3\<lparr>free_mpfcb := tl (free_mpfcb k3), mpfinib := (mpfinib k3)(j := ini)\<rparr>)"
  have "blkcnt (mpfinib k5 j) = cnt" by (simp add: k5_def ini_def map_ts_def)
  then have eq: "acre_mpf mpf_align mb_align atr cnt sz mp mb k = (if ctx_error k then (Ret E_CTX, k)
      else if atr AND NOT TA_TPRI \<noteq> 0 then (Ret E_RSATR, k)
      else if \<not> cnt \<noteq> 0 then (Ret E_PAR, k) else if \<not> sz \<noteq> 0 then (Ret E_PAR, k)
      else if mp \<noteq> 0 \<and> \<not> mpf_align mp then (Ret E_PAR, k) else if mb \<noteq> 0 \<and> \<not> mb_align mb then (Ret E_PAR, k)
      else if tmax_mpfid k1 = 0 \<or> free_mpfcb k1 = [] then leave E_NOID k1
      else if mp1 = 0 then leave E_NOMEM k2
      else if mb1 = 0 then leave E_NOMEM (if mp = 0 then free_mpk mp1 k3 else k3)
      else leave_uint (OBJID j) (upd_mpfcb j (clear_mpfcb cnt) k5))"
    unfolding acre_mpf_def Let_def k1_def [symmetric] r_def [symmetric, unfolded Let_def] r prod.case
      q_def [symmetric, unfolded Let_def] q
    by (simp add: j_def k5_def ini_def)
  have "mpf_inv (snd (acre_mpf mpf_align mb_align atr cnt sz mp mb k)) \<and> settled (snd (acre_mpf mpf_align mb_align atr cnt sz mp mb k))"
    using i s i1 i2 i3 al(2) [OF i3(1)] c [OF i3(1) _ j_def k5_def] l by (simp add: eq ini_def)
  then show "mpf_inv (snd (acre_mpf mpf_align mb_align atr cnt sz mp mb k))"
    "settled (snd (acre_mpf mpf_align mb_align atr cnt sz mp mb k))" by blast+
qed

end
