(* ===== verification/Mutex.thy ===== *)
theory Mutex
  imports Prio
begin

unbundle bit_operations_syntax

text \<open>
  Mutexes, asp3\_dcre/kernel/mutex.c. The mutexes a task has locked form a list through
  \<open>p_prevmtx\<close> that starts at \<open>p_lastmtx\<close> of the task, the last one first. \<open>mtx_inv\<close> says that this
  list is exactly the set of mutexes whose \<open>p_loctsk\<close> is the task, and that the current priority of
  a task is the highest of its base priority and the ceilings of the mutexes it has locked.
\<close>

section \<open>Operations\<close>

abbreviation MTXPROTO_MASK :: ATR where "MTXPROTO_MASK \<equiv> 0x03"

definition mtx_exists :: "kernel \<Rightarrow> nat \<Rightarrow> bool" where
  "mtx_exists k m \<longleftrightarrow> mtxatr (mtxinib k m) \<noteq> TA_NOEXS"

definition MTXPROTO :: "kernel \<Rightarrow> nat \<Rightarrow> ATR" where
  "MTXPROTO k m = mtxatr (mtxinib k m) AND MTXPROTO_MASK"

definition MTX_CEILING :: "kernel \<Rightarrow> nat \<Rightarrow> bool" where
  "MTX_CEILING k m \<longleftrightarrow> MTXPROTO k m = TA_CEILING"

definition upd_mtxcb :: "nat \<Rightarrow> (mtxcb \<Rightarrow> mtxcb) \<Rightarrow> kernel \<Rightarrow> kernel" where
  "upd_mtxcb m f k = k\<lparr>mtxcb := (mtxcb k)(m := f (mtxcb k m))\<rparr>"

definition set_lastmtx :: "nat \<Rightarrow> nat option \<Rightarrow> kernel \<Rightarrow> kernel" where
  "set_lastmtx t p k = upd_task t (\<lambda>b. b\<lparr>p_lastmtx := p\<rparr>) k"

definition initialize_mutex :: "kernel \<Rightarrow> kernel" where
  "initialize_mutex k =
     (let n = nat (tmax_smtxid k); m = nat (tmax_mtxid k);
          k1 = map_ts (\<lambda>s. s\<lparr>queues := (\<lambda>h. case h of WaitQ (MtxW i) \<Rightarrow> if i < n then [] else queues s h | _ \<Rightarrow> queues s h)\<rparr>) k
      in k1\<lparr>mtxcb := (\<lambda>i. if i < n then (mtxcb k i)\<lparr>p_loctsk := None\<rparr> else mtxcb k i),
            mtxinib := (\<lambda>i. if n \<le> i \<and> i < m then (mtxinib k i)\<lparr>mtxatr := TA_NOEXS\<rparr> else mtxinib k i),
            free_mtxcb := [n..<m]\<rparr>)"

text \<open>
  The loops over the list of locked mutexes follow pointers, so they take fuel; \<open>None\<close> is a loop that
  has not come to its end. As many steps as there are mutexes, and one for the end of the list, are
  enough for every list that visits no mutex twice (\<open>ceilpri_loop_locks\<close> and the lemmas after it).
\<close>

definition mtx_fuel :: "kernel \<Rightarrow> nat" where
  "mtx_fuel k = nat (tmax_mtxid k) + 1"

fun ceilpri_loop :: "nat \<Rightarrow> kernel \<Rightarrow> nat \<Rightarrow> nat option \<Rightarrow> bool option" where
  "ceilpri_loop 0 k bpri p = None"
| "ceilpri_loop (Suc fuel) k bpri p =
     (case p of
        None \<Rightarrow> Some True
      | Some m \<Rightarrow> if MTX_CEILING k m \<and> bpri < ceilpri (mtxinib k m) then Some False
                  else ceilpri_loop fuel k bpri (p_prevmtx (mtxcb k m)))"

definition mutex_check_ceilpri :: "nat \<Rightarrow> nat \<Rightarrow> kernel \<Rightarrow> bool" where
  "mutex_check_ceilpri t bpri k =
     (case ceilpri_loop (mtx_fuel k) k bpri (p_lastmtx (task k t)) of
        Some True \<Rightarrow>
          if TSTAT_WAIT_MTX (tstat (task k t)) then
            (case p_wobjcb (p_winfo (task k t)) of
               Some (MtxW m) \<Rightarrow> \<not> (MTX_CEILING k m \<and> bpri < ceilpri (mtxinib k m))
             | _ \<Rightarrow> True)
          else True
      | _ \<Rightarrow> False)"

fun ceilmtx_loop :: "nat \<Rightarrow> kernel \<Rightarrow> nat option \<Rightarrow> bool option" where
  "ceilmtx_loop 0 k p = None"
| "ceilmtx_loop (Suc fuel) k p =
     (case p of
        None \<Rightarrow> Some False
      | Some m \<Rightarrow> if MTX_CEILING k m then Some True else ceilmtx_loop fuel k (p_prevmtx (mtxcb k m)))"

definition mutex_scan_ceilmtx :: "nat \<Rightarrow> kernel \<Rightarrow> bool" where
  "mutex_scan_ceilmtx t k = (ceilmtx_loop (mtx_fuel k) k (p_lastmtx (task k t)) = Some True)"

fun calc_loop :: "nat \<Rightarrow> kernel \<Rightarrow> nat \<Rightarrow> nat option \<Rightarrow> nat option" where
  "calc_loop 0 k pri p = None"
| "calc_loop (Suc fuel) k pri p =
     (case p of
        None \<Rightarrow> Some pri
      | Some m \<Rightarrow>
          calc_loop fuel k (if MTX_CEILING k m \<and> ceilpri (mtxinib k m) < pri then ceilpri (mtxinib k m) else pri)
            (p_prevmtx (mtxcb k m)))"

definition mutex_calc_priority :: "nat \<Rightarrow> kernel \<Rightarrow> nat" where
  "mutex_calc_priority t k =
     (case calc_loop (mtx_fuel k) k (bpriority (task k t)) (p_lastmtx (task k t)) of
        Some pri \<Rightarrow> pri | None \<Rightarrow> priority (task k t))"

definition mutex_drop_priority :: "nat \<Rightarrow> nat \<Rightarrow> kernel \<Rightarrow> kernel" where
  "mutex_drop_priority t m k =
     (if MTX_CEILING k m \<and> ceilpri (mtxinib k m) = priority (task k t) then
        let newpri = mutex_calc_priority t k
        in if newpri \<noteq> priority (task k t) then change_priority t newpri True k else k
      else k)"

definition mutex_acquire :: "nat \<Rightarrow> nat \<Rightarrow> kernel \<Rightarrow> kernel" where
  "mutex_acquire t m k =
     (let k1 = upd_mtxcb m (\<lambda>b. b\<lparr>p_loctsk := Some t\<rparr>) k;
          k2 = upd_mtxcb m (\<lambda>b. b\<lparr>p_prevmtx := p_lastmtx (task k1 t)\<rparr>) k1;
          k3 = set_lastmtx t (Some m) k2
      in if MTX_CEILING k3 m \<and> ceilpri (mtxinib k3 m) < priority (task k3 t)
         then change_priority t (ceilpri (mtxinib k3 m)) True k3 else k3)"

definition mutex_release :: "nat \<Rightarrow> kernel \<Rightarrow> kernel" where
  "mutex_release m k =
     (if queue_of k (MtxW m) = [] then upd_mtxcb m (\<lambda>b. b\<lparr>p_loctsk := None\<rparr>) k
      else
        let (t, k1) = take_waiter (MtxW m) k;
            k2 = set_wercd t E_OK (wait_dequeue_tmevtb t k1);
            k3 = upd_mtxcb m (\<lambda>b. b\<lparr>p_loctsk := Some t\<rparr>) k2;
            k4 = upd_mtxcb m (\<lambda>b. b\<lparr>p_prevmtx := p_lastmtx (task k3 t)\<rparr>) k3;
            k5 = set_lastmtx t (Some m) k4;
            k6 = (if MTX_CEILING k5 m \<and> ceilpri (mtxinib k5 m) < priority (task k5 t)
                  then upd_task t (\<lambda>b. b\<lparr>priority := ceilpri (mtxinib k5 m)\<rparr>) k5 else k5)
        in make_non_wait t k6)"

fun release_all_loop :: "nat \<Rightarrow> nat \<Rightarrow> kernel \<Rightarrow> kernel" where
  "release_all_loop 0 t k = k"
| "release_all_loop (Suc fuel) t k =
     (case p_lastmtx (task k t) of
        None \<Rightarrow> k
      | Some m \<Rightarrow> release_all_loop fuel t (mutex_release m (set_lastmtx t (p_prevmtx (mtxcb k m)) k)))"

definition mutex_release_all :: "nat \<Rightarrow> kernel \<Rightarrow> kernel" where
  "mutex_release_all t k = release_all_loop (mtx_fuel k) t k"

text \<open>
  The search for a mutex in the list of its owner, to take it out. \<open>pp_prevmtx\<close> points to a pointer:
  \<open>None\<close> is the \<open>p_lastmtx\<close> of the task, \<open>Some x\<close> the \<open>p_prevmtx\<close> of the mutex \<open>x\<close>.
\<close>

definition pp_get :: "nat \<Rightarrow> nat option \<Rightarrow> kernel \<Rightarrow> nat option" where
  "pp_get t pp k = (case pp of None \<Rightarrow> p_lastmtx (task k t) | Some x \<Rightarrow> p_prevmtx (mtxcb k x))"

definition pp_set :: "nat \<Rightarrow> nat option \<Rightarrow> nat option \<Rightarrow> kernel \<Rightarrow> kernel" where
  "pp_set t pp v k = (case pp of None \<Rightarrow> set_lastmtx t v k | Some x \<Rightarrow> upd_mtxcb x (\<lambda>b. b\<lparr>p_prevmtx := v\<rparr>) k)"

fun unlink_loop :: "nat \<Rightarrow> nat \<Rightarrow> nat \<Rightarrow> nat option \<Rightarrow> kernel \<Rightarrow> kernel" where
  "unlink_loop 0 t m pp k = k"
| "unlink_loop (Suc fuel) t m pp k =
     (case pp_get t pp k of
        None \<Rightarrow> k
      | Some x \<Rightarrow> if x = m then pp_set t pp (p_prevmtx (mtxcb k m)) k
                  else unlink_loop fuel t m (Some x) k)"

text \<open>Service calls.\<close>

definition acre_mtx :: "ATR \<Rightarrow> int \<Rightarrow> kernel \<Rightarrow> svc \<times> kernel" where
  "acre_mtx atr cpri k =
     (if ctx_error k then (Ret E_CTX, k)
      else if atr = TA_CEILING \<and> \<not> VALID_TPRI cpri then (Ret E_PAR, k)
      else if atr \<noteq> TA_CEILING \<and> atr AND NOT TA_TPRI \<noteq> 0 then (Ret E_RSATR, k)
      else let k1 = lock_cpu k in
        if tmax_mtxid k1 = 0 \<or> free_mtxcb k1 = [] then leave E_NOID k1
        else let m = hd (free_mtxcb k1);
                 k2 = k1\<lparr>free_mtxcb := tl (free_mtxcb k1),
                         mtxinib := (mtxinib k1)(m := \<lparr>mtxatr = atr, ceilpri = INT_PRIORITY cpri\<rparr>)\<rparr>;
                 k3 = map_ts (\<lambda>s. s\<lparr>queues := (queues s)(WaitQ (MtxW m) := [])\<rparr>) k2;
                 k4 = upd_mtxcb m (\<lambda>b. b\<lparr>p_loctsk := None\<rparr>) k3
             in leave_uint (OBJID m) k4)"

definition del_mtx :: "int \<Rightarrow> kernel \<Rightarrow> svc \<times> kernel" where
  "del_mtx mtxid k =
     (if ctx_error k then (Ret E_CTX, k)
      else if \<not> VALID_ID (tmax_mtxid k) mtxid then (Ret E_ID, k)
      else let m = INDEX mtxid; k1 = lock_cpu k in
        if \<not> mtx_exists k1 m then leave E_NOEXS k1
        else if mtxid \<le> tmax_smtxid k1 then leave E_OBJ k1
        else let k2 = init_wait_queue (MtxW m) k1;
                 k3 = (case p_loctsk (mtxcb k2 m) of
                         None \<Rightarrow> k2
                       | Some t \<Rightarrow> mutex_drop_priority t m (unlink_loop (mtx_fuel k2) t m None k2));
                 k4 = k3\<lparr>mtxinib := (mtxinib k3)(m := (mtxinib k3 m)\<lparr>mtxatr := TA_NOEXS\<rparr>),
                         free_mtxcb := free_mtxcb k3 @ [m]\<rparr>
             in leave E_OK (dispatch_if_needed k4))"

definition loc_mtx :: "int \<Rightarrow> kernel \<Rightarrow> svc \<times> kernel" where
  "loc_mtx mtxid k =
     (if dispatch_error k then (Ret E_CTX, k)
      else if \<not> VALID_ID (tmax_mtxid k) mtxid then (Ret E_ID, k)
      else let m = INDEX mtxid; k1 = lock_cpu k; t = runtsk k1 in
        if \<not> mtx_exists k1 m then leave E_NOEXS k1
        else if raster (task k1 t) then leave E_RASTER k1
        else if MTX_CEILING k1 m \<and> bpriority (task k1 t) < ceilpri (mtxinib k1 m) then leave E_ILUSE k1
        else if p_loctsk (mtxcb k1 m) = None then leave E_OK (mutex_acquire t m k1)
        else if p_loctsk (mtxcb k1 m) = Some t then leave E_OBJ k1
        else block (wobj_make_wait (MtxW m) TS_WAITING_MTX fresh_winfo k1))"

definition ploc_mtx :: "int \<Rightarrow> kernel \<Rightarrow> svc \<times> kernel" where
  "ploc_mtx mtxid k =
     (if ctx_error k then (Ret E_CTX, k)
      else if \<not> VALID_ID (tmax_mtxid k) mtxid then (Ret E_ID, k)
      else let m = INDEX mtxid; k1 = lock_cpu k; t = runtsk k1 in
        if \<not> mtx_exists k1 m then leave E_NOEXS k1
        else if MTX_CEILING k1 m \<and> bpriority (task k1 t) < ceilpri (mtxinib k1 m) then leave E_ILUSE k1
        else if p_loctsk (mtxcb k1 m) = None then leave E_OK (mutex_acquire t m k1)
        else if p_loctsk (mtxcb k1 m) = Some t then leave E_OBJ k1
        else leave E_TMOUT k1)"

definition tloc_mtx :: "int \<Rightarrow> TMO \<Rightarrow> kernel \<Rightarrow> svc \<times> kernel" where
  "tloc_mtx mtxid tmout k =
     (if dispatch_error k then (Ret E_CTX, k)
      else if \<not> VALID_ID (tmax_mtxid k) mtxid then (Ret E_ID, k)
      else if \<not> VALID_TMOUT tmout then (Ret E_PAR, k)
      else let m = INDEX mtxid; k1 = lock_cpu k; t = runtsk k1 in
        if \<not> mtx_exists k1 m then leave E_NOEXS k1
        else if raster (task k1 t) then leave E_RASTER k1
        else if MTX_CEILING k1 m \<and> bpriority (task k1 t) < ceilpri (mtxinib k1 m) then leave E_ILUSE k1
        else if p_loctsk (mtxcb k1 m) = None then leave E_OK (mutex_acquire t m k1)
        else if p_loctsk (mtxcb k1 m) = Some t then leave E_OBJ k1
        else if tmout = TMO_POL then leave E_TMOUT k1
        else block (wobj_make_wait_tmout (MtxW m) TS_WAITING_MTX fresh_winfo tmout k1))"

definition unl_mtx :: "int \<Rightarrow> kernel \<Rightarrow> svc \<times> kernel" where
  "unl_mtx mtxid k =
     (if ctx_error k then (Ret E_CTX, k)
      else if \<not> VALID_ID (tmax_mtxid k) mtxid then (Ret E_ID, k)
      else let m = INDEX mtxid; k1 = lock_cpu k; t = runtsk k1 in
        if \<not> mtx_exists k1 m then leave E_NOEXS k1
        else if p_lastmtx (task k1 t) \<noteq> Some m then leave E_OBJ k1
        else let k2 = set_lastmtx t (p_prevmtx (mtxcb k1 m)) k1;
                 k3 = mutex_drop_priority t m k2;
                 k4 = mutex_release m k3
             in leave E_OK (dispatch_if_needed k4))"

definition ini_mtx :: "int \<Rightarrow> kernel \<Rightarrow> svc \<times> kernel" where
  "ini_mtx mtxid k =
     (if ctx_error k then (Ret E_CTX, k)
      else if \<not> VALID_ID (tmax_mtxid k) mtxid then (Ret E_ID, k)
      else let m = INDEX mtxid; k1 = lock_cpu k in
        if \<not> mtx_exists k1 m then leave E_NOEXS k1
        else let k2 = init_wait_queue (MtxW m) k1;
                 k3 = (case p_loctsk (mtxcb k2 m) of
                         None \<Rightarrow> k2
                       | Some t \<Rightarrow>
                           let k = upd_mtxcb m (\<lambda>b. b\<lparr>p_loctsk := None\<rparr>) k2
                           in mutex_drop_priority t m (unlink_loop (mtx_fuel k) t m None k))
             in leave E_OK (dispatch_if_needed k3))"

text \<open>The packet \<open>T_RMTX\<close>: the owner and the first waiting task; \<open>None\<close> if it is not written.\<close>

definition ref_mtx :: "int \<Rightarrow> kernel \<Rightarrow> (svc \<times> kernel) \<times> (int \<times> int) option" where
  "ref_mtx mtxid k =
     (if ctx_error k then ((Ret E_CTX, k), None)
      else if \<not> VALID_ID (tmax_mtxid k) mtxid then ((Ret E_ID, k), None)
      else let m = INDEX mtxid; k1 = lock_cpu k in
        if \<not> mtx_exists k1 m then (leave E_NOEXS k1, None)
        else (leave E_OK k1,
          Some (case p_loctsk (mtxcb k1 m) of Some t \<Rightarrow> OBJID t | None \<Rightarrow> TSK_NONE, wait_tskid (MtxW m) k1)))"


section \<open>The lists of locked mutexes\<close>

fun locks :: "(nat \<Rightarrow> mtxcb) \<Rightarrow> nat option \<Rightarrow> nat list \<Rightarrow> bool" where
  "locks cb p [] \<longleftrightarrow> p = None"
| "locks cb p (m # ms) \<longleftrightarrow> p = Some m \<and> locks cb (p_prevmtx (cb m)) ms"

lemma locks_cong: "(\<And>x. x \<in> set xs \<Longrightarrow> p_prevmtx (cb' x) = p_prevmtx (cb x)) \<Longrightarrow> locks cb' p xs = locks cb p xs"
  by (induction xs arbitrary: p) auto

lemma locks_unique: "locks cb p xs \<Longrightarrow> locks cb p ys \<Longrightarrow> xs = ys"
proof (induction xs arbitrary: p ys)
  case Nil
  then show ?case by (cases ys) auto
next
  case (Cons x xs)
  then show ?case by (cases ys) auto
qed

definition ceil_of :: "kernel \<Rightarrow> nat list \<Rightarrow> nat list" where
  "ceil_of k xs = map (\<lambda>m. ceilpri (mtxinib k m)) (filter (MTX_CEILING k) xs)"

text \<open>The loops compute what they should, and the fuel is enough.\<close>

lemma ceilpri_loop_locks:
  assumes "locks (mtxcb k) p xs" "length xs < fuel"
  shows "ceilpri_loop fuel k bpri p = Some (\<forall>c \<in> set (ceil_of k xs). c \<le> bpri)"
  using assms
proof (induction xs arbitrary: p fuel)
  case Nil
  then show ?case by (cases fuel) (simp_all add: ceil_of_def)
next
  case (Cons x xs)
  then show ?case by (cases fuel) (auto simp: ceil_of_def not_le not_less)
qed

lemma ceilmtx_loop_locks:
  assumes "locks (mtxcb k) p xs" "length xs < fuel"
  shows "ceilmtx_loop fuel k p = Some (ceil_of k xs \<noteq> [])"
  using assms
proof (induction xs arbitrary: p fuel)
  case Nil
  then show ?case by (cases fuel) (simp_all add: ceil_of_def)
next
  case (Cons x xs)
  then show ?case by (cases fuel) (auto simp: ceil_of_def)
qed

lemma calc_loop_locks:
  assumes "locks (mtxcb k) p xs" "length xs < fuel"
  shows "calc_loop fuel k pri p = Some (Min (insert pri (set (ceil_of k xs))))"
  using assms
proof (induction xs arbitrary: p fuel pri)
  case Nil
  then show ?case by (cases fuel) (simp_all add: ceil_of_def)
next
  case (Cons x xs)
  have m: "Min (insert (min a b) S) = Min (insert b (insert a S))" if "finite S" for a b :: nat and S
    using that by (cases "S = {}") (simp_all add: min.assoc min.left_commute min.commute)
  obtain n where n: "fuel = Suc n" using Cons.prems by (cases fuel) auto
  have p: "p = Some x" "locks (mtxcb k) (p_prevmtx (mtxcb k x)) xs" using Cons.prems by auto
  define c where "c = ceilpri (mtxinib k x)"
  have "calc_loop fuel k pri p = calc_loop n k (if MTX_CEILING k x \<and> c < pri then c else pri) (p_prevmtx (mtxcb k x))"
    by (simp add: n p c_def)
  also have "\<dots> = Some (Min (insert (if MTX_CEILING k x \<and> c < pri then c else pri) (set (ceil_of k xs))))"
    using Cons n p by simp
  also have "(if MTX_CEILING k x \<and> c < pri then c else pri) = (if MTX_CEILING k x then min c pri else pri)" by auto
  finally show ?case by (auto simp: ceil_of_def c_def m)
qed

text \<open>\<open>unlink_loop\<close> takes the mutex out of the list.\<close>

lemma upd_mtxcb_sel [simp]:
  "ts (upd_mtxcb m f k) = ts k" "tm (upd_mtxcb m f k) = tm k" "mtxinib (upd_mtxcb m f k) = mtxinib k"
  "free_mtxcb (upd_mtxcb m f k) = free_mtxcb k" "tmax_mtxid (upd_mtxcb m f k) = tmax_mtxid k"
  "tmax_tskid (upd_mtxcb m f k) = tmax_tskid k"
  "mtxcb (upd_mtxcb m f k) = (mtxcb k)(m := f (mtxcb k m))" "sense_context (upd_mtxcb m f k) = sense_context k"
  "midway (upd_mtxcb m f k) = midway k" "settled (upd_mtxcb m f k) = settled k" "in_task (upd_mtxcb m f k) = in_task k"
  "K \<noteq> KMtx \<Longrightarrow> keeps K k' (upd_mtxcb m f k) = keeps K k' k"
  by (simp_all add: upd_mtxcb_def sense_context_def)

lemma set_lastmtx_sel [simp]:
  "task (set_lastmtx t p k) t = (task k t)\<lparr>p_lastmtx := p\<rparr>" "u \<noteq> t \<Longrightarrow> task (set_lastmtx t p k) u = task k u"
  "tinib (ts (set_lastmtx t p k)) = tinib (ts k)" "queues (ts (set_lastmtx t p k)) = queues (ts k)"
  "mtxinib (set_lastmtx t p k) = mtxinib k" "mtxcb (set_lastmtx t p k) = mtxcb k"
  "free_mtxcb (set_lastmtx t p k) = free_mtxcb k" "tmax_mtxid (set_lastmtx t p k) = tmax_mtxid k"
  "tmax_tskid (set_lastmtx t p k) = tmax_tskid k"
  by (simp_all add: set_lastmtx_def) (simp_all add: upd_task_def map_ts_def)

definition unlinked_from :: "nat \<Rightarrow> nat \<Rightarrow> nat list \<Rightarrow> kernel \<Rightarrow> kernel \<Rightarrow> bool" where
  "unlinked_from t m xs k k' \<longleftrightarrow>
     (\<exists>cb p. k' = set_lastmtx t p (k\<lparr>mtxcb := cb\<rparr>) \<and> locks cb p (remove1 m xs) \<and>
        (\<forall>y. y \<notin> set xs \<longrightarrow> cb y = mtxcb k y) \<and> (\<forall>y. p_loctsk (cb y) = p_loctsk (mtxcb k y)))"

lemma set_lastmtx_id: "p = p_lastmtx (task k t) \<Longrightarrow> set_lastmtx t p k = k"
  by (simp add: set_lastmtx_def upd_task_def upd_tcb_def map_ts_def)

lemma unlink_pop:
  assumes "locks (mtxcb k) (p_lastmtx (task k t)) (m # xs)"
  shows "unlinked_from t m (m # xs) k (set_lastmtx t (p_prevmtx (mtxcb k m)) k)"
  unfolding unlinked_from_def
  by (rule exI [of _ "mtxcb k"], rule exI [of _ "p_prevmtx (mtxcb k m)"]) (use assms in simp)

lemma unlink_loop_later:
  assumes "locks (mtxcb k) (Some x) (x # xs)" "m \<in> set xs" "distinct (x # xs)" "length xs < fuel"
  shows "\<exists>cb. unlink_loop fuel t m (Some x) k = k\<lparr>mtxcb := cb\<rparr> \<and> locks cb (Some x) (remove1 m (x # xs)) \<and>
    (\<forall>y. y \<notin> set (x # xs) \<longrightarrow> cb y = mtxcb k y) \<and> (\<forall>y. p_loctsk (cb y) = p_loctsk (mtxcb k y))"
  using assms
proof (induction xs arbitrary: x fuel)
  case (Cons y ys)
  obtain n where n: "fuel = Suc n" using Cons.prems by (cases fuel) auto
  have l: "p_prevmtx (mtxcb k x) = Some y" "locks (mtxcb k) (Some y) (y # ys)" using Cons.prems by auto
  have ne: "x \<noteq> m" "x \<noteq> y" "x \<notin> set ys" using Cons.prems by auto
  show ?case
  proof (cases "y = m")
    case True
    define cb where "cb = (mtxcb k)(x := (mtxcb k x)\<lparr>p_prevmtx := p_prevmtx (mtxcb k m)\<rparr>)"
    have u: "unlink_loop fuel t m (Some x) k = k\<lparr>mtxcb := cb\<rparr>"
      by (simp add: n pp_get_def l True pp_set_def upd_mtxcb_def cb_def)
    have "locks (mtxcb k) (p_prevmtx (mtxcb k m)) ys" using l True by simp
    then have "locks cb (p_prevmtx (mtxcb k m)) ys" using ne by (subst locks_cong [of _ _ "mtxcb k"]) (auto simp: cb_def)
    then have lo: "locks cb (Some x) (remove1 m (x # y # ys))" using True ne by (simp add: cb_def)
    have "\<forall>z. z \<notin> set (x # y # ys) \<longrightarrow> cb z = mtxcb k z" "\<forall>z. p_loctsk (cb z) = p_loctsk (mtxcb k z)"
      by (simp_all add: cb_def)
    with u lo show ?thesis by blast
  next
    case False
    then obtain cb where cb: "unlink_loop n t m (Some y) k = k\<lparr>mtxcb := cb\<rparr>" "locks cb (Some y) (remove1 m (y # ys))"
      "\<forall>z. z \<notin> set (y # ys) \<longrightarrow> cb z = mtxcb k z" "\<forall>z. p_loctsk (cb z) = p_loctsk (mtxcb k z)"
      using Cons.IH [OF l(2), of n] Cons.prems(2-4) n False by force
    have "unlink_loop fuel t m (Some x) k = k\<lparr>mtxcb := cb\<rparr>" using cb(1) False by (simp add: n pp_get_def l)
    moreover have "cb x = mtxcb k x" using cb(3) ne by simp
    then have "locks cb (Some x) (remove1 m (x # y # ys))" using cb(2) ne l False by simp
    moreover have "\<forall>z. z \<notin> set (x # y # ys) \<longrightarrow> cb z = mtxcb k z" using cb(3) by simp
    ultimately show ?thesis using cb(4) by blast
  qed
qed simp

lemma unlink_loop_unlinks:
  assumes "locks (mtxcb k) (p_lastmtx (task k t)) xs" "m \<in> set xs" "distinct xs" "length xs < fuel"
  shows "unlinked_from t m xs k (unlink_loop fuel t m None k)"
proof -
  obtain x ys where xs: "xs = x # ys" using assms(2) by (cases xs) auto
  obtain n where n: "fuel = Suc n" using assms(4) by (cases fuel) auto
  have l: "p_lastmtx (task k t) = Some x" using assms(1) xs by simp
  show ?thesis
  proof (cases "x = m")
    case True
    have "unlink_loop fuel t m None k = set_lastmtx t (p_prevmtx (mtxcb k m)) k" by (simp add: n pp_get_def l True pp_set_def)
    then show ?thesis using unlink_pop [of k t m ys] assms(1) xs True by simp
  next
    case False
    then obtain cb where cb: "unlink_loop n t m (Some x) k = k\<lparr>mtxcb := cb\<rparr>" "locks cb (Some x) (remove1 m xs)"
      "\<forall>z. z \<notin> set xs \<longrightarrow> cb z = mtxcb k z" "\<forall>z. p_loctsk (cb z) = p_loctsk (mtxcb k z)"
      using unlink_loop_later [of k x ys m n t] assms xs n by auto
    have "unlink_loop fuel t m None k = set_lastmtx t (Some x) (k\<lparr>mtxcb := cb\<rparr>)"
      using cb(1) False by (simp add: n pp_get_def l set_lastmtx_id)
    then show ?thesis unfolding unlinked_from_def using cb by blast
  qed
qed


section \<open>The invariant\<close>

definition owned :: "kernel \<Rightarrow> nat \<Rightarrow> nat set" where
  "owned k t = {m. mtx_exists k m \<and> p_loctsk (mtxcb k m) = Some t}"

definition holds :: "kernel \<Rightarrow> nat \<Rightarrow> nat list \<Rightarrow> bool" where
  "holds k t xs \<longleftrightarrow> locks (mtxcb k) (p_lastmtx (task k t)) xs \<and> distinct xs \<and> set xs = owned k t"

text \<open>The priority the protocol prescribes; a small number is a high priority.\<close>

definition protocol_priority :: "kernel \<Rightarrow> nat \<Rightarrow> nat" where
  "protocol_priority k t =
     Min (insert (bpriority (task k t)) ((\<lambda>m. ceilpri (mtxinib k m)) ` {m \<in> owned k t. MTX_CEILING k m}))"

definition mtx_tables :: "kernel \<Rightarrow> bool" where
  "mtx_tables k \<longleftrightarrow>
     (\<forall>m. mtx_exists k m \<longrightarrow> int m < tmax_mtxid k \<and> (MTX_CEILING k m \<longrightarrow> ceilpri (mtxinib k m) < TNUM_TPRI)) \<and>
     distinct (free_mtxcb k) \<and> (\<forall>m \<in> set (free_mtxcb k). \<not> mtx_exists k m \<and> int m < tmax_mtxid k)"

text \<open>
  In \<open>mtx_ok Q X k\<close> the mutexes in \<open>Q\<close> may have waiting tasks though nobody has locked them, and the
  tasks in \<open>X\<close> may have another priority or be dormant; between service calls both sets are empty.
\<close>

definition mtx_ok :: "nat set \<Rightarrow> nat set \<Rightarrow> kernel \<Rightarrow> bool" where
  "mtx_ok Q X k \<longleftrightarrow> mtx_tables k \<and> (\<forall>t. \<exists>xs. holds k t xs) \<and>
     (\<forall>t. owned k t \<noteq> {} \<longrightarrow> exists_task k t \<and> (t \<notin> X \<longrightarrow> tstat (task k t) \<noteq> TS_DORMANT)) \<and>
     (\<forall>m. queue_of k (MtxW m) \<noteq> [] \<longrightarrow> mtx_exists k m \<and> (m \<notin> Q \<longrightarrow> p_loctsk (mtxcb k m) \<noteq> None)) \<and>
     (\<forall>t m. (m \<in> owned k t \<or> t \<in> set (queue_of k (MtxW m))) \<and> MTX_CEILING k m \<longrightarrow>
        ceilpri (mtxinib k m) \<le> bpriority (task k t)) \<and>
     (\<forall>t. exists_task k t \<and> t \<notin> X \<longrightarrow> priority (task k t) = protocol_priority k t)"

abbreviation mtx_inv :: "kernel \<Rightarrow> bool" where "mtx_inv \<equiv> mtx_ok {} {}"

lemma mtx_okD:
  assumes "mtx_ok Q X k"
  shows "mtx_tables k" "\<exists>xs. holds k t xs" "owned k t \<noteq> {} \<Longrightarrow> exists_task k t"
    "owned k t \<noteq> {} \<Longrightarrow> t \<notin> X \<Longrightarrow> tstat (task k t) \<noteq> TS_DORMANT"
    "queue_of k (MtxW m) \<noteq> [] \<Longrightarrow> mtx_exists k m" "queue_of k (MtxW m) \<noteq> [] \<Longrightarrow> m \<notin> Q \<Longrightarrow> p_loctsk (mtxcb k m) \<noteq> None"
    "m \<in> owned k t \<or> t \<in> set (queue_of k (MtxW m)) \<Longrightarrow> MTX_CEILING k m \<Longrightarrow> ceilpri (mtxinib k m) \<le> bpriority (task k t)"
    "exists_task k t \<Longrightarrow> t \<notin> X \<Longrightarrow> priority (task k t) = protocol_priority k t"
  using assms unfolding mtx_ok_def by blast+

lemma keeps_KMtx:
  assumes "keeps KMtx k k'"
  shows "mtxinib k' = mtxinib k" "mtxcb k' = mtxcb k" "free_mtxcb k' = free_mtxcb k" "tmax_mtxid k' = tmax_mtxid k"
    "tmax_smtxid k' = tmax_smtxid k" "mtx_exists k' m = mtx_exists k m" "MTX_CEILING k' m = MTX_CEILING k m"
    "owned k' t = owned k t" "set (queue_of k' (MtxW m)) \<subseteq> set (queue_of k (MtxW m))"
  using assms by (simp_all add: keeps_def same_objects_def mtx_exists_def MTX_CEILING_def MTXPROTO_def owned_def)

lemma mtx_ok_frame:
  assumes ok: "mtx_ok Q X k" and ke: "keeps KMtx k k'" and f: "prio_frame X' k k'" and X: "X \<subseteq> X'"
  shows "mtx_ok Q X' k'"
proof -
  note s = keeps_KMtx [OF ke]
  have f': "exists_task k' t = exists_task k t" for t by (simp add: prio_frame_exists [OF f])
  have f': "exists_task k' t = exists_task k t" "p_lastmtx (task k' t) = p_lastmtx (task k t)"
    "bpriority (task k' t) = bpriority (task k t)" "t \<notin> X' \<Longrightarrow> priority (task k' t) = priority (task k t)"
    "t \<notin> X' \<Longrightarrow> tstat (task k t) \<noteq> TS_DORMANT \<Longrightarrow> tstat (task k' t) \<noteq> TS_DORMANT" for t
    using f f' by (auto simp: prio_frame_def)
  have "mtx_tables k'" using mtx_okD(1) [OF ok] by (simp add: mtx_tables_def s)
  moreover have "\<exists>xs. holds k' t xs" for t using mtx_okD(2) [OF ok, of t] by (simp add: holds_def s f')
  moreover have "exists_task k' t \<and> (t \<notin> X' \<longrightarrow> tstat (task k' t) \<noteq> TS_DORMANT)" if "owned k' t \<noteq> {}" for t
    using mtx_okD(3,4) [OF ok, of t] that X f'(1,5) [of t] s(8) [of t] by (metis subsetD)
  moreover have q: "queue_of k (MtxW m) \<noteq> []" if "queue_of k' (MtxW m) \<noteq> []" for m using s(9) [of m] that by auto
  then have "mtx_exists k' m \<and> (m \<notin> Q \<longrightarrow> p_loctsk (mtxcb k' m) \<noteq> None)" if "queue_of k' (MtxW m) \<noteq> []" for m
    using mtx_okD(5,6) [OF ok, of m] that by (simp add: s)
  moreover have "ceilpri (mtxinib k' m) \<le> bpriority (task k' t)"
    if "(m \<in> owned k' t \<or> t \<in> set (queue_of k' (MtxW m))) \<and> MTX_CEILING k' m" for t m
    using mtx_okD(7) [OF ok, of m t] that s(9) [of m] by (auto simp: s(1,7,8) f')
  moreover have "protocol_priority k' t = protocol_priority k t" for t by (simp add: protocol_priority_def s f')
  then have "priority (task k' t) = protocol_priority k' t" if "exists_task k' t \<and> t \<notin> X'" for t
    using mtx_okD(8) [OF ok, of t] that X f' by auto
  ultimately show ?thesis unfolding mtx_ok_def by blast
qed

lemma mtx_ok_close:
  assumes ok: "mtx_ok Q (insert t X) k" and "exists_task k t \<Longrightarrow> priority (task k t) = protocol_priority k t"
    and "owned k t \<noteq> {} \<Longrightarrow> tstat (task k t) \<noteq> TS_DORMANT"
  shows "mtx_ok Q X k"
proof -
  have "tstat (task k u) \<noteq> TS_DORMANT" if "owned k u \<noteq> {}" "u \<notin> X" for u
    using mtx_okD(4) [OF ok, of u] assms(3) that by (cases "u = t") auto
  moreover have "priority (task k u) = protocol_priority k u" if "exists_task k u" "u \<notin> X" for u
    using mtx_okD(8) [OF ok, of u] assms(2) that by (cases "u = t") auto
  ultimately show ?thesis using ok unfolding mtx_ok_def by blast
qed

lemma mtx_ok_mono: "mtx_ok Q X k \<Longrightarrow> X \<subseteq> X' \<Longrightarrow> Q \<subseteq> Q' \<Longrightarrow> mtx_ok Q' X' k"
  unfolding mtx_ok_def by blast

lemma holds_fuel:
  assumes "mtx_tables k" "holds k t xs" shows "length xs < mtx_fuel k"
proof -
  have "set xs \<subseteq> {..< nat (tmax_mtxid k)}" using assms by (auto simp: holds_def owned_def mtx_tables_def)
  then have "card (set xs) \<le> nat (tmax_mtxid k)" using card_mono [of "{..< nat (tmax_mtxid k)}"] by simp
  then show ?thesis using assms distinct_card [of xs] by (simp add: holds_def mtx_fuel_def)
qed

lemma ceil_of_holds: "holds k t xs \<Longrightarrow> set (ceil_of k xs) = (\<lambda>m. ceilpri (mtxinib k m)) ` {m \<in> owned k t. MTX_CEILING k m}"
  by (auto simp: ceil_of_def holds_def)

text \<open>The functions over the list, in terms of the mutexes the task owns.\<close>

lemma mutex_calc_priority_eq:
  assumes "mtx_ok Q X k" shows "mutex_calc_priority t k = protocol_priority k t"
proof -
  obtain xs where xs: "holds k t xs" using mtx_okD(2) [OF assms] by blast
  then show ?thesis
    using calc_loop_locks [of k "p_lastmtx (task k t)" xs "mtx_fuel k" "bpriority (task k t)"]
      holds_fuel [OF mtx_okD(1) [OF assms] xs] ceil_of_holds [OF xs]
    by (simp add: mutex_calc_priority_def protocol_priority_def holds_def)
qed

lemma mutex_scan_ceilmtx_eq:
  assumes "mtx_ok Q X k" shows "mutex_scan_ceilmtx t k \<longleftrightarrow> (\<exists>m \<in> owned k t. MTX_CEILING k m)"
proof -
  obtain xs where xs: "holds k t xs" using mtx_okD(2) [OF assms] by blast
  have "set (ceil_of k xs) = {} \<longleftrightarrow> \<not> (\<exists>m \<in> owned k t. MTX_CEILING k m)" unfolding ceil_of_holds [OF xs] by auto
  then show ?thesis
    using ceilmtx_loop_locks [of k "p_lastmtx (task k t)" xs "mtx_fuel k"] holds_fuel [OF mtx_okD(1) [OF assms] xs] xs
    by (simp add: mutex_scan_ceilmtx_def holds_def)
qed

lemma mutex_check_ceilpri_eq:
  assumes "mtx_ok Q X k" and c: "consistent k"
  shows "mutex_check_ceilpri t bpri k \<longleftrightarrow>
    (\<forall>m. (m \<in> owned k t \<or> t \<in> set (queue_of k (MtxW m))) \<and> MTX_CEILING k m \<longrightarrow> ceilpri (mtxinib k m) \<le> bpri)"
proof -
  obtain xs where xs: "holds k t xs" using mtx_okD(2) [OF assms(1)] by blast
  have l: "ceilpri_loop (mtx_fuel k) k bpri (p_lastmtx (task k t)) =
      Some (\<forall>m \<in> owned k t. MTX_CEILING k m \<longrightarrow> ceilpri (mtxinib k m) \<le> bpri)"
    using ceilpri_loop_locks [of k "p_lastmtx (task k t)" xs "mtx_fuel k" bpri]
      holds_fuel [OF mtx_okD(1) [OF assms(1)] xs] xs ceil_of_holds [OF xs] by (auto simp: holds_def)
  have q: "t \<in> set (queue_of k (MtxW m)) \<longleftrightarrow> TSTAT_WAIT_MTX (tstat (task k t)) \<and> p_wobjcb (p_winfo (task k t)) = Some (MtxW m)" for m
  proof
    assume q: "t \<in> set (queue_of k (MtxW m))"
    note w = queue_member_waiting [OF c q]
    have "TSTAT_WAIT_MTX (tstat (task k t))"
      using consistentD(3) [OF c, of t] w by (auto simp: task_ok_def wait_ok_def TSTAT_WAIT_MTX_def)
    then show "TSTAT_WAIT_MTX (tstat (task k t)) \<and> p_wobjcb (p_winfo (task k t)) = Some (MtxW m)" using w by simp
  next
    assume q: "TSTAT_WAIT_MTX (tstat (task k t)) \<and> p_wobjcb (p_winfo (task k t)) = Some (MtxW m)"
    have v: "valid_tstat (tstat (task k t))" using consistentD(3) [OF c, of t] by (simp add: task_ok_def)
    then have w: "TSTAT_WAIT_WOBJ (tstat (task k t))" "\<not> TSTAT_RUNNABLE (tstat (task k t))"
      using q by (auto simp: valid_tstat_def wait_codes_def tstat_defs)
    have "exists_task k t" by (rule waiting_exists [OF c valid_tstat_cases(3) [OF v w(1)]])
    then have "loc k t = Some (WaitQ (MtxW m))" using q w by (simp add: loc_def exists_task_def)
    then show "t \<in> set (queue_of k (MtxW m))" by (simp add: core_in_queue [OF consistentD(1) [OF c]])
  qed
  show ?thesis
  proof (cases "TSTAT_WAIT_MTX (tstat (task k t))")
    case False
    then show ?thesis using q by (auto simp: mutex_check_ceilpri_def l split: bool.split)
  next
    case True
    moreover have v: "valid_tstat (tstat (task k t))" "wait_ok t (task k t)"
      using consistentD(3) [OF c, of t] by (simp_all add: task_ok_def)
    ultimately have w: "TSTAT_WAIT_WOBJ (tstat (task k t))" by (auto simp: valid_tstat_def wait_codes_def tstat_defs)
    then obtain w where "p_wobjcb (p_winfo (task k t)) = Some w" "wait_code w = TS_WAITING_MTX"
      using v valid_tstat_cases(3) [OF v(1) w] True by (auto simp: wait_ok_def TSTAT_WAIT_MTX_def)
    then obtain m where "p_wobjcb (p_winfo (task k t)) = Some (MtxW m)" by (cases w) auto
    then show ?thesis using q True by (auto simp: mutex_check_ceilpri_def l not_less split: bool.split)
  qed
qed

section \<open>Taking a mutex away from its owner\<close>

definition removed_from :: "nat \<Rightarrow> nat \<Rightarrow> nat list \<Rightarrow> kernel \<Rightarrow> kernel \<Rightarrow> bool" where
  "removed_from t m xs k k' \<longleftrightarrow>
     (\<exists>cb p. k' = set_lastmtx t p (k\<lparr>mtxcb := cb\<rparr>) \<and> locks cb p (remove1 m xs) \<and>
        (\<forall>y. y \<notin> set xs \<longrightarrow> p_prevmtx (cb y) = p_prevmtx (mtxcb k y)) \<and>
        (\<forall>y. p_loctsk (cb y) = (if y = m then None else p_loctsk (mtxcb k y))))"

lemma removed_fromI:
  assumes "k' = set_lastmtx t p (k\<lparr>mtxcb := cb\<rparr>)" "locks cb p (remove1 m xs)"
    "\<And>y. y \<notin> set xs \<Longrightarrow> p_prevmtx (cb y) = p_prevmtx (mtxcb k y)"
    "\<And>y. p_loctsk (cb y) = (if y = m then None else p_loctsk (mtxcb k y))"
  shows "removed_from t m xs k k'"
  unfolding removed_from_def using assms by blast

abbreviation disown :: "nat \<Rightarrow> kernel \<Rightarrow> kernel" where
  "disown m \<equiv> upd_mtxcb m (\<lambda>b. b\<lparr>p_loctsk := None\<rparr>)"

lemma set_lastmtx_upd: "upd_mtxcb m f (set_lastmtx t p k) = set_lastmtx t p (upd_mtxcb m f k)"
  by (simp add: upd_mtxcb_def set_lastmtx_def upd_task_def map_ts_def)

lemma removed_after:
  assumes "unlinked_from t m xs k k'" "m \<in> set xs" "distinct xs"
  shows "removed_from t m xs k (disown m k')"
proof -
  obtain cb p where k': "k' = set_lastmtx t p (k\<lparr>mtxcb := cb\<rparr>)" and l: "locks cb p (remove1 m xs)"
    and o: "\<forall>y. y \<notin> set xs \<longrightarrow> cb y = mtxcb k y" "\<forall>y. p_loctsk (cb y) = p_loctsk (mtxcb k y)"
    using assms(1) by (auto simp: unlinked_from_def)
  define cb' where "cb' = cb(m := (cb m)\<lparr>p_loctsk := None\<rparr>)"
  have "disown m k' = set_lastmtx t p (k\<lparr>mtxcb := cb'\<rparr>)"
    unfolding k' set_lastmtx_upd by (simp add: upd_mtxcb_def cb'_def)
  moreover have "locks cb' p (remove1 m xs)" using l by (subst locks_cong [of _ _ cb]) (simp_all add: cb'_def)
  ultimately show ?thesis by (rule removed_fromI) (use o assms(2) in \<open>auto simp: cb'_def\<close>)
qed

lemma removed_before:
  assumes "unlinked_from t m xs (disown m k) k'"
  shows "removed_from t m xs k k'"
proof -
  obtain cb p where k': "k' = set_lastmtx t p ((disown m k)\<lparr>mtxcb := cb\<rparr>)" and l: "locks cb p (remove1 m xs)"
    and o: "\<forall>y. y \<notin> set xs \<longrightarrow> cb y = mtxcb (disown m k) y" "\<forall>y. p_loctsk (cb y) = p_loctsk (mtxcb (disown m k) y)"
    using assms(1) by (auto simp: unlinked_from_def)
  have "k' = set_lastmtx t p (k\<lparr>mtxcb := cb\<rparr>)" unfolding k' by (simp add: upd_mtxcb_def)
  then show ?thesis using l by (rule removed_fromI) (use o in auto)
qed

lemma removed_ok:
  assumes ok: "mtx_ok Q X k" and h: "holds k t xs" and m: "m \<in> set xs" and r: "removed_from t m xs k k'"
  shows "mtx_ok (insert m Q) (insert t X) k'" "owned k' t = owned k t - {m}"
    "exists_task k' = exists_task k" "task k' t = (task k t)\<lparr>p_lastmtx := p_lastmtx (task k' t)\<rparr>"
    "mtxinib k' = mtxinib k" "p_loctsk (mtxcb k' m) = None" "queues (ts k') = queues (ts k)"
proof -
  obtain cb p where k': "k' = set_lastmtx t p (k\<lparr>mtxcb := cb\<rparr>)" and l: "locks cb p (remove1 m xs)"
    and o: "\<And>y. y \<notin> set xs \<Longrightarrow> p_prevmtx (cb y) = p_prevmtx (mtxcb k y)"
      "\<And>y. p_loctsk (cb y) = (if y = m then None else p_loctsk (mtxcb k y))"
    using r by (auto simp: removed_from_def)
  have xs: "distinct xs" "set xs = owned k t" "m \<in> owned k t" using h m by (auto simp: holds_def)
  have ex: "mtx_exists k' i = mtx_exists k i" "MTX_CEILING k' i = MTX_CEILING k i" for i
    by (simp_all add: k' mtx_exists_def MTX_CEILING_def MTXPROTO_def)
  have ow: "owned k' u = (if u = t then owned k t - {m} else owned k u)" for u
    using xs(3) by (auto simp: owned_def ex) (auto simp: k' o split: if_splits)
  then show "owned k' t = owned k t - {m}" by simp
  show e: "exists_task k' = exists_task k" by (rule ext) (simp add: k' exists_task_def)
  have tk: "bpriority (task k' u) = bpriority (task k u)" "priority (task k' u) = priority (task k u)"
    "tstat (task k' u) = tstat (task k u)" for u by (cases "u = t"; simp add: k')+
  show "task k' t = (task k t)\<lparr>p_lastmtx := p_lastmtx (task k' t)\<rparr>" by (simp add: k')
  show i: "mtxinib k' = mtxinib k" and lo: "p_loctsk (mtxcb k' m) = None" and q: "queues (ts k') = queues (ts k)"
    by (simp_all add: k' o)
  have "mtx_tables k'" using mtx_okD(1) [OF ok] by (simp add: mtx_tables_def ex i) (simp add: k')
  moreover have "\<exists>ys. holds k' u ys" for u
  proof (cases "u = t")
    case True
    have "holds k' t (remove1 m xs)" using l xs by (simp add: holds_def ow) (simp add: k')
    then show ?thesis using True by blast
  next
    case False
    obtain ys where ys: "holds k u ys" using mtx_okD(2) [OF ok] by blast
    have "set ys \<inter> set xs = {}" using ys xs False by (auto simp: holds_def owned_def)
    then have "locks cb (p_lastmtx (task k u)) ys = locks (mtxcb k) (p_lastmtx (task k u)) ys"
      using o by (intro locks_cong) auto
    then have "holds k' u ys" using ys False by (simp add: holds_def ow) (simp add: k')
    then show ?thesis by blast
  qed
  moreover have "exists_task k' u \<and> (u \<notin> insert t X \<longrightarrow> tstat (task k' u) \<noteq> TS_DORMANT)" if "owned k' u \<noteq> {}" for u
    using mtx_okD(3,4) [OF ok, of u] that xs(3) by (auto simp: ow e tk split: if_splits)
  moreover have "mtx_exists k' i \<and> (i \<notin> insert m Q \<longrightarrow> p_loctsk (mtxcb k' i) \<noteq> None)" if "queue_of k' (MtxW i) \<noteq> []" for i
    using mtx_okD(5,6) [OF ok, of i] that by (simp add: ex q) (simp add: k' o)
  moreover have "ceilpri (mtxinib k' i) \<le> bpriority (task k' u)"
    if "(i \<in> owned k' u \<or> u \<in> set (queue_of k' (MtxW i))) \<and> MTX_CEILING k' i" for u i
    using mtx_okD(7) [OF ok, of i u] that by (auto simp: ow ex i q tk split: if_splits)
  moreover have "priority (task k' u) = protocol_priority k' u" if "exists_task k' u \<and> u \<notin> insert t X" for u
    using mtx_okD(8) [OF ok, of u] that by (simp add: protocol_priority_def ow e ex i tk)
  ultimately show "mtx_ok (insert m Q) (insert t X) k'" unfolding mtx_ok_def by blast
qed

text \<open>What the priority of the owner was, in terms of what it will be.\<close>

lemma protocol_priority_remove:
  assumes "m \<in> owned k t" "owned k' t = owned k t - {m}" "mtxinib k' = mtxinib k" "finite (owned k t)"
    and "bpriority (task k' t) = bpriority (task k t)"
  shows "protocol_priority k t =
    (if MTX_CEILING k m then min (ceilpri (mtxinib k m)) (protocol_priority k' t) else protocol_priority k' t)"
proof -
  have ex: "MTX_CEILING k' i = MTX_CEILING k i" for i by (simp add: MTX_CEILING_def MTXPROTO_def assms(3))
  let ?c = "\<lambda>i. ceilpri (mtxinib k i)" and ?A = "{i \<in> owned k t - {m}. MTX_CEILING k i}"
  have A: "{i \<in> owned k t. MTX_CEILING k i} = (if MTX_CEILING k m then insert m ?A else ?A)" using assms(1) by auto
  have f: "finite (?c ` ?A)" using assms(4) by simp
  have p': "protocol_priority k' t = Min (insert (bpriority (task k t)) (?c ` ?A))"
    by (simp add: protocol_priority_def assms ex)
  show ?thesis
  proof (cases "MTX_CEILING k m")
    case True
    then have "protocol_priority k t = Min (insert (?c m) (insert (bpriority (task k t)) (?c ` ?A)))"
      by (simp add: protocol_priority_def A insert_commute)
    also have "\<dots> = min (?c m) (protocol_priority k' t)" unfolding p' using f by (subst Min_insert) simp_all
    finally show ?thesis using True by simp
  next
    case False
    then show ?thesis unfolding p' by (simp add: protocol_priority_def A)
  qed
qed

lemma owned_finite: "mtx_ok Q X k \<Longrightarrow> finite (owned k t)"
  using mtx_okD(2) [of Q X k t] by (auto simp: holds_def) (metis List.finite_set)

lemma removed_priority:
  assumes ok: "mtx_ok Q X k" and h: "holds k t xs" and m: "m \<in> set xs" and r: "removed_from t m xs k k'" and "t \<notin> X"
  shows "priority (task k' t) =
    (if MTX_CEILING k' m then min (ceilpri (mtxinib k' m)) (protocol_priority k' t) else protocol_priority k' t)"
    "exists_task k' t" "tstat (task k' t) \<noteq> TS_DORMANT"
proof -
  note r' = removed_ok [OF assms(1-4)]
  have o: "m \<in> owned k t" using h m by (simp add: holds_def)
  have e: "exists_task k t" "tstat (task k t) \<noteq> TS_DORMANT" using mtx_okD(3,4) [OF ok, of t] o assms(5) by auto
  have tk: "bpriority (task k' t) = bpriority (task k t)" "priority (task k' t) = priority (task k t)"
    "tstat (task k' t) = tstat (task k t)" by (subst r'(4), simp)+
  have c: "MTX_CEILING k' m = MTX_CEILING k m" by (simp add: MTX_CEILING_def MTXPROTO_def r'(5))
  show "exists_task k' t" "tstat (task k' t) \<noteq> TS_DORMANT" using e by (simp_all add: r'(3) tk)
  show "priority (task k' t) =
    (if MTX_CEILING k' m then min (ceilpri (mtxinib k' m)) (protocol_priority k' t) else protocol_priority k' t)"
    using protocol_priority_remove [OF o r'(2) r'(5) owned_finite [OF ok] tk(1)] mtx_okD(8) [OF ok e(1) assms(5)]
    by (simp only: tk c r'(5))
qed

section \<open>Dropping the priority\<close>

lemma change_priority_task:
  "task (change_priority t p mm k) u = (if u = t then (task k t)\<lparr>priority := p\<rparr> else task k u)"
  "tinib (ts (change_priority t p mm k)) = tinib (ts k)" "tmax_tskid (change_priority t p mm k) = tmax_tskid k"
  by (auto simp: change_priority_def Let_def wobj_change_priority_def upd_task_def map_ts_def upd_tcb_def split: option.split)

lemma change_priority_frame: "prio_frame (insert t X) k (change_priority t p mm k)"
  by (auto simp: prio_frame_def change_priority_task)

lemma protocol_priority_bound:
  assumes ok: "mtx_ok Q X k" and c: "consistent k" and e: "exists_task k t"
  shows "protocol_priority k t < TNUM_TPRI"
proof -
  have "protocol_priority k t \<le> bpriority (task k t)"
    unfolding protocol_priority_def using owned_finite [OF ok] by (intro Min_le) auto
  moreover have "bpriority (task k t) < TNUM_TPRI" using consistentD(4) [OF c, of t] e by (simp add: prio_ok_def)
  ultimately show ?thesis by simp
qed

lemma protocol_priority_cong:
  "keeps KMtx k k' \<Longrightarrow> bpriority (task k' t) = bpriority (task k t) \<Longrightarrow> protocol_priority k' t = protocol_priority k t"
  by (simp add: protocol_priority_def keeps_KMtx)

lemma change_priority_ok:
  assumes ok: "mtx_ok Q (insert t X) k" and c: "consistent k" and p: "exists_task k t \<Longrightarrow> p = protocol_priority k t"
    and d: "owned k t \<noteq> {} \<Longrightarrow> tstat (task k t) \<noteq> TS_DORMANT"
  shows "mtx_ok Q X (change_priority t p mm k)"
proof (rule mtx_ok_close)
  let ?k = "change_priority t p mm k"
  have ke: "keeps KMtx k ?k" by (rule keeps_change_priority [OF keeps_refl c])
  show "mtx_ok Q (insert t X) ?k" by (rule mtx_ok_frame [OF ok ke change_priority_frame]) simp
  have e: "exists_task ?k t = exists_task k t" by (simp add: exists_task_def change_priority_task)
  then show "exists_task ?k t \<Longrightarrow> priority (task ?k t) = protocol_priority ?k t"
    using p protocol_priority_cong [OF ke] by (simp add: change_priority_task)
  show "owned ?k t \<noteq> {} \<Longrightarrow> tstat (task ?k t) \<noteq> TS_DORMANT" using d by (simp add: change_priority_task keeps_KMtx(8) [OF ke])
qed

lemma mutex_drop_priority_eq:
  assumes ok: "mtx_ok Q X k"
    and p: "priority (task k t) = (if MTX_CEILING k m then min (ceilpri (mtxinib k m)) (protocol_priority k t) else protocol_priority k t)"
  shows "mutex_drop_priority t m k =
    (if priority (task k t) = protocol_priority k t then k else change_priority t (protocol_priority k t) True k)"
  using p by (auto simp: mutex_drop_priority_def Let_def mutex_calc_priority_eq [OF ok] min_def split: if_splits)

lemma mutex_drop_priority_ok:
  assumes ok: "mtx_ok Q (insert t X) k" and mi: "midway k" and e: "exists_task k t" and d: "tstat (task k t) \<noteq> TS_DORMANT"
    and p: "priority (task k t) = (if MTX_CEILING k m then min (ceilpri (mtxinib k m)) (protocol_priority k t) else protocol_priority k t)"
  shows "mtx_ok Q X (mutex_drop_priority t m k)" "midway (mutex_drop_priority t m k)"
proof -
  have c: "consistent k" by (rule midwayD [OF mi])
  show "mtx_ok Q X (mutex_drop_priority t m k)"
    using mtx_ok_close [OF ok] change_priority_ok [OF ok c] d by (simp add: mutex_drop_priority_eq [OF ok p])
  show "midway (mutex_drop_priority t m k)"
    using mi change_priority_midway [OF mi protocol_priority_bound [OF ok c e]] by (simp add: mutex_drop_priority_eq [OF ok p])
qed

lemma change_priority_upd:
  "change_priority t p mm (upd_mtxcb m f k) = upd_mtxcb m f (change_priority t p mm k)"
  by (simp add: change_priority_def Let_def wobj_change_priority_def upd_task_def map_ts_def upd_mtxcb_def wobjatr_def
      split: option.split wobj.split)

lemma mutex_drop_priority_frame:
  "mtxinib (mutex_drop_priority t m k) = mtxinib k" "mtxcb (mutex_drop_priority t m k) = mtxcb k"
  "free_mtxcb (mutex_drop_priority t m k) = free_mtxcb k"
  by (auto simp: mutex_drop_priority_def Let_def change_priority_def wobj_change_priority_def upd_task_def map_ts_def
      split: option.split)

section \<open>Handing a mutex over\<close>

text \<open>\<open>mutex_release\<close> overwrites \<open>p_loctsk\<close> before it could read it.\<close>

lemma mutex_release_disown: "mutex_release m (disown m k) = mutex_release m k"
proof (cases "queue_of k (MtxW m) = []")
  case True
  then show ?thesis by (simp add: mutex_release_def) (simp add: upd_mtxcb_def)
next
  case False
  obtain t k1 where tk: "take_waiter (MtxW m) k = (t, k1)" by (cases "take_waiter (MtxW m) k")
  have 1: "take_waiter (MtxW m) (disown m k) = (t, disown m k1)"
    using tk by (auto simp: take_waiter_def map_ts_def upd_mtxcb_def case_prod_unfold Let_def)
  have 2: "set_wercd t E_OK (wait_dequeue_tmevtb t (disown m k)) = disown m (set_wercd t E_OK (wait_dequeue_tmevtb t k))" for k
    by (simp add: set_wercd_def upd_winfo_def upd_task_def wait_dequeue_tmevtb_def map_ts_def map_tm_def upd_mtxcb_def
        split: winfo_u.split option.split)
  have 3: "upd_mtxcb m (\<lambda>b. b\<lparr>p_loctsk := x\<rparr>) (disown m k) = upd_mtxcb m (\<lambda>b. b\<lparr>p_loctsk := x\<rparr>) k" for x k
    by (simp add: upd_mtxcb_def)
  show ?thesis using False by (simp add: mutex_release_def tk 1 2 3 Let_def)
qed

text \<open>
  The handing over, rearranged: the mutex goes to the first waiting task \<open>t\<close>, which then leaves the
  queue, gets the mutex on its list and the priority of the ceiling, and wakes up.
\<close>

definition own :: "nat \<Rightarrow> nat \<Rightarrow> kernel \<Rightarrow> kernel" where
  "own t m k = upd_mtxcb m (\<lambda>b. b\<lparr>p_loctsk := Some t, p_prevmtx := p_lastmtx (task k t)\<rparr>) k"

definition promote :: "nat \<Rightarrow> nat \<Rightarrow> kernel \<Rightarrow> kernel" where
  "promote t m k = upd_task t (\<lambda>b. b\<lparr>p_lastmtx := Some m,
     priority := (if MTX_CEILING k m then min (ceilpri (mtxinib k m)) (priority b) else priority b)\<rparr>) k"

lemma mutex_release_eq:
  assumes c: "consistent k" and q: "queue_of k (MtxW m) = t # us"
  shows "mutex_release m k =
    make_non_wait t (promote t m (set_wercd t E_OK (wait_dequeue_tmevtb t (map_ts (queue_delete_task t) (own t m k)))))"
proof -
  obtain k1 where tk: "take_waiter (MtxW m) k = (t, k1)" using q by (simp add: take_waiter_def lq_delete_next_def)
  have k1: "k1 = map_ts (queue_delete_task t) k" using take_waiter_detached(3) [OF c _ tk] q by simp
  define k2 where "k2 = set_wercd t E_OK (wait_dequeue_tmevtb t k1)"
  define k3 where "k3 = upd_mtxcb m (\<lambda>b. b\<lparr>p_loctsk := Some t\<rparr>) k2"
  define k5 where "k5 = set_lastmtx t (Some m) (upd_mtxcb m (\<lambda>b. b\<lparr>p_prevmtx := p_lastmtx (task k3 t)\<rparr>) k3)"
  have "p_lastmtx (task k2 t) = p_lastmtx (task k t)"
    by (simp add: k2_def set_wercd_def k1) (simp add: wait_dequeue_tmevtb_def split: winfo_u.split option.split)
  then have 1: "k5 = set_lastmtx t (Some m) (upd_mtxcb m (\<lambda>b. b\<lparr>p_loctsk := Some t, p_prevmtx := p_lastmtx (task k t)\<rparr>) k2)"
    by (simp add: k5_def k3_def) (simp add: upd_mtxcb_def)
  have 2: "upd_mtxcb m f k2 = set_wercd t E_OK (wait_dequeue_tmevtb t (map_ts (queue_delete_task t) (upd_mtxcb m f k)))" for f
    by (simp add: k2_def k1 set_wercd_def upd_winfo_def upd_task_def wait_dequeue_tmevtb_def map_ts_def map_tm_def upd_mtxcb_def
        split: winfo_u.split option.split)
  have g: "(if MTX_CEILING k5 m \<and> ceilpri (mtxinib k5 m) < priority (task k5 t)
         then upd_task t (\<lambda>b. b\<lparr>priority := ceilpri (mtxinib k5 m)\<rparr>) k5 else k5) =
      promote t m (upd_mtxcb m (\<lambda>b. b\<lparr>p_loctsk := Some t, p_prevmtx := p_lastmtx (task k t)\<rparr>) k2)"
    unfolding 1 by (simp add: promote_def set_lastmtx_def MTX_CEILING_def MTXPROTO_def)
      (simp add: upd_mtxcb_def upd_task_def upd_tcb_def map_ts_def min_def)
  have "queue_of k (MtxW m) \<noteq> []" using q by simp
  then have "mutex_release m k = make_non_wait t (if MTX_CEILING k5 m \<and> ceilpri (mtxinib k5 m) < priority (task k5 t)
         then upd_task t (\<lambda>b. b\<lparr>priority := ceilpri (mtxinib k5 m)\<rparr>) k5 else k5)"
    unfolding mutex_release_def Let_def k2_def k3_def k5_def by (simp only: if_not_P tk prod.case if_False)
  then show ?thesis unfolding g 2 own_def .
qed

lemma limbo_upd_mtxcb [simp]: "limbo t (upd_mtxcb m f k) = limbo t k"
proof -
  have "timed (upd_mtxcb m f k) = timed k" by (rule ext) (simp add: timed_def)
  moreover have "cyc_on (upd_mtxcb m f k) = cyc_on k" "alm_on (upd_mtxcb m f k) = alm_on k"
    by (rule ext, simp add: cyc_on_def alm_on_def, simp add: upd_mtxcb_def)+
  moreover have "loc (upd_mtxcb m f k) = loc k" by (rule ext) (simp add: loc_def)
  ultimately show ?thesis by (simp add: limbo_def active_def task_ok_def prio_ok_def exists_task_def)
qed

lemma mutex_release_spec:
  assumes c: "consistent k" and q: "queue_of k (MtxW m) = t # us"
  shows "others t (own t m k) (mutex_release m k)" "calm (own t m k) (mutex_release m k)"
    "p_lastmtx (task (mutex_release m k) t) = Some m" "bpriority (task (mutex_release m k) t) = bpriority (task k t)"
    "priority (task (mutex_release m k) t) =
      (if MTX_CEILING k m then min (ceilpri (mtxinib k m)) (priority (task k t)) else priority (task k t))"
    "tstat (task (mutex_release m k) t) \<noteq> TS_DORMANT"
    "queue_of (mutex_release m k) w = (if w = MtxW m then us else queue_of k w)"
    "TSTAT_WAITING (tstat (task k t))" "exists_task k t"
proof -
  define k2 where "k2 = set_wercd t E_OK (wait_dequeue_tmevtb t (map_ts (queue_delete_task t) (own t m k)))"
  have eq: "mutex_release m k = make_non_wait t (promote t m k2)" unfolding k2_def by (rule mutex_release_eq [OF assms])
  have o2: "others t (own t m k) k2"
    by (auto simp: k2_def set_wercd_def upd_winfo_def wait_dequeue_tmevtb_def split: winfo_u.split option.split)
  show "others t (own t m k) (mutex_release m k)" unfolding eq
    using o2 by (auto simp: make_non_wait_def set_tstat_def promote_def)
  have "calm (own t m k) k2"
    by (auto simp: k2_def set_wercd_def upd_winfo_def wait_dequeue_tmevtb_def split: winfo_u.split option.split)
  then show "calm (own t m k) (mutex_release m k)" unfolding eq
    by (auto simp: make_non_wait_def set_tstat_def promote_def)
  have i2: "mtxinib k2 = mtxinib k" using same_tables_sel [of "own t m k" k2] o2 by (simp add: others_def own_def)
  have t2: "task k2 t = (task k t)\<lparr>p_winfo := (p_winfo (task k t))\<lparr>w_u := Wercd E_OK\<rparr>\<rparr>"
    by (simp add: k2_def set_wercd_def) (simp add: wait_dequeue_tmevtb_def own_def split: winfo_u.split option.split)
  show "p_lastmtx (task (mutex_release m k) t) = Some m" "bpriority (task (mutex_release m k) t) = bpriority (task k t)"
    "priority (task (mutex_release m k) t) =
      (if MTX_CEILING k m then min (ceilpri (mtxinib k m)) (priority (task k t)) else priority (task k t))"
    "tstat (task (mutex_release m k) t) \<noteq> TS_DORMANT"
    unfolding eq by (simp_all add: make_non_wait_def set_tstat_def promote_def t2 i2 MTX_CEILING_def MTXPROTO_def)
  have "queue_of (mutex_release m k) w = queue_of (map_ts (queue_delete_task t) (own t m k)) w"
    unfolding eq by (simp add: queue_of_make_non_wait promote_def k2_def set_wercd_def)
      (simp add: wait_dequeue_tmevtb_def split: winfo_u.split option.split)
  also have "\<dots> = queue_of (map_ts (queue_delete_task t) k) w" by (simp add: own_def)
  also have "\<dots> = (if w = MtxW m then us else queue_of k w)" 
    using queue_of_delete [OF c, of t "MtxW m" w] q by simp
  finally show "queue_of (mutex_release m k) w = (if w = MtxW m then us else queue_of k w)" .
  have "t \<in> set (queue_of k (MtxW m))" using q by simp
  from queue_member_waiting [OF c this] show "TSTAT_WAITING (tstat (task k t))" "exists_task k t" by simp_all
qed

lemma mutex_release_consistent:
  assumes c: "consistent k" and p: "MTX_CEILING k m \<Longrightarrow> ceilpri (mtxinib k m) < TNUM_TPRI"
  shows "consistent (mutex_release m k)"
proof (cases "queue_of k (MtxW m)")
  case Nil
  have "cyc_on (disown m k) = cyc_on k" "alm_on (disown m k) = alm_on k"
    by (rule ext, simp add: cyc_on_def alm_on_def upd_mtxcb_def)+
  then show ?thesis using Nil c consistent_tables [of "disown m k" k] by (simp add: mutex_release_def)
next
  case (Cons t us)
  define k2 where "k2 = set_wercd t E_OK (wait_dequeue_tmevtb t (map_ts (queue_delete_task t) (own t m k)))"
  have w: "t \<in> set (queue_of k (MtxW m))" using Cons by simp
  have d: "detached t (map_ts (queue_delete_task t) k)"
    using dequeue_detached [OF c queue_member_waiting(1) [OF c w]] queue_member_waiting(2) [OF c w] by (simp add: wait_dequeue_wobj_def)
  have "k2 = upd_mtxcb m (\<lambda>b. b\<lparr>p_loctsk := Some t, p_prevmtx := p_lastmtx (task k t)\<rparr>)
      (set_wercd t E_OK (wait_dequeue_tmevtb t (map_ts (queue_delete_task t) k)))"
    by (simp add: k2_def set_wercd_def upd_winfo_def upd_task_def wait_dequeue_tmevtb_def map_ts_def map_tm_def upd_mtxcb_def own_def
        split: winfo_u.split option.split)
  then have l: "limbo t k2" using set_wercd_limbo [OF limbo_detached [OF d]] by simp
  have i2: "mtxinib k2 = mtxinib k" by (simp add: k2_def own_def set_wercd_def upd_winfo_def upd_task_def wait_dequeue_tmevtb_def
        map_ts_def map_tm_def split: winfo_u.split option.split)
  have "prio_ok (promote t m k2) t"
    using l p by (auto simp: limbo_def prio_ok_def exists_task_def promote_def MTX_CEILING_def MTXPROTO_def i2 min_def
        upd_task_def upd_tcb_def map_ts_def)
  then have "limbo t (promote t m k2)" unfolding promote_def by (rule limbo_upd_task [OF l])
  then show ?thesis unfolding mutex_release_eq [OF c Cons] k2_def [symmetric] by (rule make_non_wait_consistent)
qed

lemma mutex_release_midway:
  assumes m: "midway k" and p: "MTX_CEILING k m \<Longrightarrow> ceilpri (mtxinib k m) < TNUM_TPRI"
  shows "midway (mutex_release m k)"
proof (cases "queue_of k (MtxW m)")
  case Nil
  then show ?thesis using m by (simp add: mutex_release_def)
next
  case (Cons t us)
  note s = mutex_release_spec [OF midwayD [OF m] Cons]
  have "\<not> running t k" using s(8) by (auto simp: running_def)
  then show ?thesis
    using midway_others [OF _ s(1,2) mutex_release_consistent [OF midwayD [OF m] p]] m by (simp add: own_def running_def)
qed


text \<open>A mutex nobody owns becomes that of the task \<open>t\<close>.\<close>

lemma own_ok:
  assumes ok: "mtx_ok (insert m Q) X k" and m: "mtx_exists k m" "p_loctsk (mtxcb k m) = None"
    and t: "exists_task k t" and b: "MTX_CEILING k m \<Longrightarrow> ceilpri (mtxinib k m) \<le> bpriority (task k t)"
    and k': "k' = set_lastmtx t (Some m) (own t m k)"
  shows "mtx_ok Q (insert t X) k'" "owned k' t = insert m (owned k t)"
    "protocol_priority k' t =
      (if MTX_CEILING k m then min (ceilpri (mtxinib k m)) (protocol_priority k t) else protocol_priority k t)"
proof -
  have tab: "mtxinib k' = mtxinib k" "free_mtxcb k' = free_mtxcb k" "tmax_mtxid k' = tmax_mtxid k"
    "mtxcb k' = (mtxcb k)(m := (mtxcb k m)\<lparr>p_loctsk := Some t, p_prevmtx := p_lastmtx (task k t)\<rparr>)" "queues (ts k') = queues (ts k)"
    by (simp_all add: k' own_def)
  have ex: "mtx_exists k' i = mtx_exists k i" "MTX_CEILING k' i = MTX_CEILING k i" for i
    by (simp_all add: mtx_exists_def MTX_CEILING_def MTXPROTO_def tab)
  have e: "exists_task k' u = exists_task k u" for u by (simp add: exists_task_def k' own_def)
  have tk: "bpriority (task k' u) = bpriority (task k u)" "priority (task k' u) = priority (task k u)"
    "tstat (task k' u) = tstat (task k u)" "p_lastmtx (task k' u) = (if u = t then Some m else p_lastmtx (task k u))" for u
    by (cases "u = t"; simp add: k' own_def)+
  have ow: "owned k' u = (if u = t then insert m (owned k t) else owned k u)" for u
    using m by (auto simp: owned_def ex) (auto simp: tab split: if_splits)
  then show o: "owned k' t = insert m (owned k t)" by simp
  have nm: "m \<notin> owned k u" for u using m(2) by (simp add: owned_def)
  have "mtx_tables k'" using mtx_okD(1) [OF ok] by (simp add: mtx_tables_def ex tab)
  moreover have "\<exists>ys. holds k' u ys" for u
  proof -
    obtain ys where ys: "holds k u ys" using mtx_okD(2) [OF ok] by blast
    then have "m \<notin> set ys" using nm by (simp add: holds_def)
    moreover from this have "locks (mtxcb k') p ys = locks (mtxcb k) p ys" for p by (intro locks_cong) (auto simp: tab(4))
    ultimately have "holds k' u (if u = t then m # ys else ys)" using ys
      by (cases "u = t") (simp_all add: holds_def ow tk, simp add: tab(4))
    then show ?thesis by blast
  qed
  moreover have "exists_task k' u \<and> (u \<notin> insert t X \<longrightarrow> tstat (task k' u) \<noteq> TS_DORMANT)" if "owned k' u \<noteq> {}" for u
    using mtx_okD(3,4) [OF ok, of u] that t by (cases "u = t") (simp_all add: e ow tk)
  moreover have "mtx_exists k' i \<and> (i \<notin> Q \<longrightarrow> p_loctsk (mtxcb k' i) \<noteq> None)" if "queue_of k' (MtxW i) \<noteq> []" for i
    using mtx_okD(5,6) [OF ok, of i] that m(1) by (cases "i = m") (simp_all add: ex tab)
  moreover have "ceilpri (mtxinib k' i) \<le> bpriority (task k' u)"
    if "(i \<in> owned k' u \<or> u \<in> set (queue_of k' (MtxW i))) \<and> MTX_CEILING k' i" for u i
    using mtx_okD(7) [OF ok, of i u] that b by (cases "u = t"; cases "i = m") (auto simp: ow ex tab(1,5) tk)
  moreover have "priority (task k' u) = protocol_priority k' u" if "exists_task k' u \<and> u \<notin> insert t X" for u
    using mtx_okD(8) [OF ok, of u] that by (simp add: protocol_priority_def ow tk e ex tab(1))
  ultimately show "mtx_ok Q (insert t X) k'" unfolding mtx_ok_def by blast
  have "finite (owned k' t)" using owned_finite [OF ok] by (simp add: o)
  moreover have "m \<in> owned k' t" "owned k t = owned k' t - {m}" using nm by (simp_all add: o)
  ultimately show "protocol_priority k' t =
      (if MTX_CEILING k m then min (ceilpri (mtxinib k m)) (protocol_priority k t) else protocol_priority k t)"
    using protocol_priority_remove [OF _ _ tab(1) [symmetric], of m t] by (simp add: ex tab(1) tk)
qed

text \<open>Releasing a mutex that its owner has already given up keeps the invariant.\<close>

lemma mtx_ok_queue:
  assumes "mtx_ok (insert m Q) X k" "queue_of k (MtxW m) = []" shows "mtx_ok Q X k"
proof -
  have "mtx_exists k i \<and> (i \<notin> Q \<longrightarrow> p_loctsk (mtxcb k i) \<noteq> None)" if "queue_of k (MtxW i) \<noteq> []" for i
    using mtx_okD(5,6) [OF assms(1) that] assms(2) that by (cases "i = m") auto
  then show ?thesis using assms(1) unfolding mtx_ok_def by blast
qed

lemma mutex_release_ok:
  assumes ok: "mtx_ok (insert m Q) X k" and c: "consistent k" and m: "mtx_exists k m" "p_loctsk (mtxcb k m) = None"
    and X: "\<And>u. u \<in> set (queue_of k (MtxW m)) \<Longrightarrow> u \<notin> X"
  shows "mtx_ok Q X (mutex_release m k)"
proof (cases "queue_of k (MtxW m)")
  case Nil
  have "(mtxcb k m)\<lparr>p_loctsk := None\<rparr> = mtxcb k m" using m(2) by (cases "mtxcb k m") simp
  then have "disown m k = k" by (simp add: upd_mtxcb_def fun_upd_idem)
  then show ?thesis using Nil mtx_ok_queue [OF ok Nil] by (simp add: mutex_release_def)
next
  case (Cons t us)
  let ?k = "mutex_release m k"
  define k1 where "k1 = set_lastmtx t (Some m) (own t m k)"
  note s = mutex_release_spec [OF c Cons]
  have t: "t \<notin> X" using X Cons by simp
  have "MTX_CEILING k m \<Longrightarrow> ceilpri (mtxinib k m) \<le> bpriority (task k t)" using mtx_okD(7) [OF ok, of m t] Cons by simp
  note o = own_ok [OF ok m s(9) this k1_def]
  have k1: "same_tables (own t m k) k1" by (auto simp: k1_def set_lastmtx_def)
  have "same_objects KMtx k1 ?k"
    using same_tables_objects [OF k1, of KMtx] same_tables_objects [of "own t m k" ?k KMtx] s(1)
    by (simp add: others_def same_objects_def)
  moreover have "set (queue_of ?k w) \<subseteq> set (queue_of k1 w)" for w
    using Cons by (auto simp: s(7)) (simp_all add: k1_def own_def)
  ultimately have ke: "keeps KMtx k1 ?k" by (simp add: keeps_def)
  have tk: "task ?k u = task k1 u" if "u \<noteq> t" for u using others_sel(3) [OF s(1) that] that by (simp add: k1_def)
  have t1: "p_lastmtx (task k1 t) = Some m" "bpriority (task k1 t) = bpriority (task k t)" by (simp_all add: k1_def own_def)
  have "p_lastmtx (task ?k u) = p_lastmtx (task k1 u)" "bpriority (task ?k u) = bpriority (task k1 u)"
    "u \<notin> insert t X \<Longrightarrow> task ?k u = task k1 u" for u
    using tk s(3,4) t1 by (cases "u = t"; simp)+
  moreover have "tmax_tskid ?k = tmax_tskid k1" "tinib (ts ?k) = tinib (ts k1)"
    using others_sel(1,2) [OF s(1)] by (simp_all add: k1_def)
  ultimately have fr: "prio_frame (insert t X) k1 ?k" by (simp add: prio_frame_def)
  have "mtx_ok Q (insert t X) ?k" by (rule mtx_ok_frame [OF o(1) ke fr subset_refl])
  then show ?thesis
  proof (rule mtx_ok_close)
    have "priority (task k t) = protocol_priority k t" using mtx_okD(8) [OF ok s(9) t] .
    moreover have "protocol_priority ?k t = protocol_priority k1 t" by (rule protocol_priority_cong [OF ke]) (simp add: s(4) t1)
    ultimately show "priority (task ?k t) = protocol_priority ?k t" by (simp add: s(5) o(3))
  qed (rule s(6))
qed

section \<open>The service calls\<close>

lemma mtx_ok_switch [simp]: "mtx_ok Q X (lock_cpu k) = mtx_ok Q X k" "mtx_ok Q X (unlock_cpu k) = mtx_ok Q X k"
proof -
  have "mtx_ok Q X (k\<lparr>cpulock := l\<rparr>) = mtx_ok Q X k" for l
    by (simp add: mtx_ok_def mtx_tables_def holds_def owned_def mtx_exists_def MTX_CEILING_def MTXPROTO_def exists_task_def
        protocol_priority_def)
  then show "mtx_ok Q X (lock_cpu k) = mtx_ok Q X k" "mtx_ok Q X (unlock_cpu k) = mtx_ok Q X k"
    by (simp_all add: lock_cpu_def unlock_cpu_def)
qed

lemma mtx_inv_keeps:
  assumes "mtx_ok Q X k" "keeps KMtx k k'" "prio_frame X k k'" shows "mtx_ok Q X k'"
  by (rule mtx_ok_frame [OF assms subset_refl])

lemma mtx_inv_dispatch: "mtx_inv k \<Longrightarrow> mtx_inv (dispatch_if_needed k)"
  by (rule mtx_inv_keeps) (auto intro!: frame)

lemma set_lastmtx_midway [simp]: "midway k \<Longrightarrow> midway (set_lastmtx t p k)"
  unfolding set_lastmtx_def by (rule upd_task_midway) simp_all

lemma mutex_drop_disown: "mutex_drop_priority t m (disown m k) = disown m (mutex_drop_priority t m k)"
proof -
  have "calc_loop n (disown m k) pri p = calc_loop n k pri p" for n pri p
    by (induction n arbitrary: pri p) (auto simp: MTX_CEILING_def MTXPROTO_def split: option.split)
  then have "mutex_calc_priority t (disown m k) = mutex_calc_priority t k"
    by (simp add: mutex_calc_priority_def mtx_fuel_def del: calc_loop.simps split: option.split)
  then show ?thesis by (simp add: mutex_drop_priority_def Let_def MTX_CEILING_def MTXPROTO_def change_priority_upd)
qed

lemma tables_ceil: "mtx_tables k \<Longrightarrow> mtx_exists k m \<Longrightarrow> MTX_CEILING k m \<Longrightarrow> ceilpri (mtxinib k m) < TNUM_TPRI"
  by (simp add: mtx_tables_def)

text \<open>The steps shared by the calls that take a mutex \<open>m\<close> away from its owner \<open>t\<close>.\<close>

lemma take_away:
  assumes ok: "mtx_inv k" and mi: "midway k" and h: "holds k t xs" and m: "m \<in> set xs" and r: "removed_from t m xs k k'"
    and mi': "midway k'"
  shows "mtx_ok {m} {} (mutex_drop_priority t m k')" "midway (mutex_drop_priority t m k')"
    "p_loctsk (mtxcb (mutex_drop_priority t m k') m) = None" "mtxinib (mutex_drop_priority t m k') = mtxinib k"
proof -
  note r' = removed_ok [OF ok h m r]
  have nt: "t \<notin> {}" by simp
  note p = removed_priority [OF ok h m r nt]
  show "mtx_ok {m} {} (mutex_drop_priority t m k')" "midway (mutex_drop_priority t m k')"
    by (rule mutex_drop_priority_ok [OF r'(1) mi' p(2,3,1)])+
  show "p_loctsk (mtxcb (mutex_drop_priority t m k') m) = None" "mtxinib (mutex_drop_priority t m k') = mtxinib k"
    by (simp_all add: mutex_drop_priority_frame r'(5,6))
qed

lemma unl_mtx_midway:
  assumes ok: "mtx_inv k" and mi: "midway k" and l: "p_lastmtx (task k t) = Some m"
  defines "k' \<equiv> mutex_release m (mutex_drop_priority t m (set_lastmtx t (p_prevmtx (mtxcb k m)) k))"
  shows "mtx_inv k'" "midway k'"
proof -
  obtain xs where h: "holds k t xs" using mtx_okD(2) [OF ok] by blast
  then obtain ys where xs: "xs = m # ys" using l by (cases xs) (auto simp: holds_def)
  have "m \<in> set xs" using xs by simp
  moreover have "distinct xs" using h by (simp add: holds_def)
  ultimately have m: "m \<in> set xs" "distinct xs" by blast+
  have "m \<in> owned k t" using h m(1) unfolding holds_def by blast
  then have e: "mtx_exists k m" by (simp add: owned_def)
  define k1 where "k1 = set_lastmtx t (p_prevmtx (mtxcb k m)) k"
  have "unlinked_from t m xs k k1" unfolding k1_def xs by (rule unlink_pop) (use h xs in \<open>simp add: holds_def\<close>)
  then have r: "removed_from t m xs k (disown m k1)" by (rule removed_after [OF _ m])
  define k2 where "k2 = mutex_drop_priority t m (disown m k1)"
  have "midway (disown m k1)" using mi by (simp add: k1_def)
  note t = take_away [OF ok mi h m(1) r this, folded k2_def]
  have eq: "k' = mutex_release m k2"
    by (simp add: k'_def k1_def [symmetric] k2_def mutex_drop_disown mutex_release_disown)
  have e2: "mtx_exists k2 m" "MTX_CEILING k2 m = MTX_CEILING k m" using e by (simp_all add: mtx_exists_def MTX_CEILING_def MTXPROTO_def t(4))
  show "mtx_inv k'" unfolding eq by (rule mutex_release_ok [OF t(1) midwayD [OF t(2)] e2(1) t(3)]) simp
  show "midway k'" unfolding eq
    using tables_ceil [OF mtx_okD(1) [OF t(1)] e2(1)] by (rule mutex_release_midway [OF t(2)])
qed

lemma unl_mtx_inv:
  assumes "mtx_inv k" "settled k"
  shows "mtx_inv (snd (unl_mtx mtxid k))" "settled (snd (unl_mtx mtxid k))"
proof -
  define m where "m = INDEX mtxid"
  define k1 where "k1 = lock_cpu k"
  define t where "t = runtsk k1"
  define k4 where "k4 = mutex_release m (mutex_drop_priority t m (set_lastmtx t (p_prevmtx (mtxcb k1 m)) k1))"
  have k1: "mtx_inv k1" "settled k1" "midway k1" using assms lock_entry [OF assms(2)] by (simp_all add: k1_def)
  have eq: "unl_mtx mtxid k = (if ctx_error k then (Ret E_CTX, k) else if \<not> VALID_ID (tmax_mtxid k) mtxid then (Ret E_ID, k)
      else if \<not> mtx_exists k1 m then leave E_NOEXS k1 else if p_lastmtx (task k1 t) \<noteq> Some m then leave E_OBJ k1
      else leave E_OK (dispatch_if_needed k4))"
    by (simp add: unl_mtx_def Let_def m_def k1_def t_def k4_def)
  have "p_lastmtx (task k1 t) = Some m \<Longrightarrow> mtx_inv k4 \<and> midway k4"
    unfolding k4_def using unl_mtx_midway [OF k1(1,3), of t m] by blast
  then show "mtx_inv (snd (unl_mtx mtxid k))" "settled (snd (unl_mtx mtxid k))"
    using assms k1 by (auto simp: eq leave_def intro!: mtx_inv_dispatch dispatch_if_needed_settled)
qed

text \<open>Deleting and initialising: the waiting tasks are released, and the owner loses the mutex.\<close>

lemma unlink_loop_midway: "midway k \<Longrightarrow> midway (unlink_loop fuel t m pp k)"
proof (induction fuel arbitrary: pp)
  case (Suc fuel)
  then show ?case by (auto simp: pp_set_def split: option.split)
qed simp

lemma unlink_owner:
  assumes ok: "mtx_inv k" and mi: "midway k" and q: "queue_of k (MtxW m) = []" and t: "p_loctsk (mtxcb k m) = Some t"
    and e: "mtx_exists k m"
  shows "mtx_inv (mutex_drop_priority t m (unlink_loop (mtx_fuel k) t m None (disown m k)))"
    "midway (mutex_drop_priority t m (unlink_loop (mtx_fuel k) t m None (disown m k)))"
    "mtxinib (mutex_drop_priority t m (unlink_loop (mtx_fuel k) t m None (disown m k))) = mtxinib k"
    "mtx_inv (disown m (mutex_drop_priority t m (unlink_loop (mtx_fuel k) t m None k)))"
    "midway (mutex_drop_priority t m (unlink_loop (mtx_fuel k) t m None k))"
proof -
  obtain xs where h: "holds k t xs" using mtx_okD(2) [OF ok] by blast
  have "m \<in> owned k t" using e t by (simp add: owned_def)
  then have m: "m \<in> set xs" "distinct xs" using h by (simp_all add: holds_def)
  have f: "length xs < mtx_fuel k" by (rule holds_fuel [OF mtx_okD(1) [OF ok] h])
  have l: "locks (mtxcb k) (p_lastmtx (task k t)) xs" using h by (simp add: holds_def)
  have l': "locks (mtxcb (disown m k)) (p_lastmtx (task (disown m k) t)) xs"
    using l by (subst locks_cong [of _ _ "mtxcb k"]) simp_all
  have qd: "queue_of (mutex_drop_priority t m k1) (MtxW m) = []" if "queues (ts k1) = queues (ts k)" "consistent k1" for k1
  proof -
    have "set (queue_of (change_priority t p True k1) (MtxW m)) \<subseteq> set (queue_of k1 (MtxW m))" for p
      using keeps_change_priority [OF keeps_refl that(2)] keeps_KMtx(9) by blast
    then show ?thesis using q that(1) by (simp add: mutex_drop_priority_def Let_def)
  qed
  define k1 where "k1 = unlink_loop (mtx_fuel k) t m None (disown m k)"
  have r1: "removed_from t m xs k k1" unfolding k1_def by (rule removed_before [OF unlink_loop_unlinks [OF l' m f]])
  have m1: "midway k1" unfolding k1_def by (rule unlink_loop_midway) (simp add: mi)
  have q1: "queues (ts k1) = queues (ts k)" by (rule removed_ok(7) [OF ok h m(1) r1])
  note t1 = take_away [OF ok mi h m(1) r1 m1]
  show "mtx_inv (mutex_drop_priority t m k1)" by (rule mtx_ok_queue [OF t1(1) qd [OF q1 midwayD [OF m1]]])
  show "midway (mutex_drop_priority t m k1)" "mtxinib (mutex_drop_priority t m k1) = mtxinib k" by (rule t1)+
  define k2 where "k2 = unlink_loop (mtx_fuel k) t m None k"
  have r2: "removed_from t m xs k (disown m k2)" unfolding k2_def by (rule removed_after [OF unlink_loop_unlinks [OF l m f] m])
  have m2: "midway (disown m k2)" unfolding k2_def by (simp add: unlink_loop_midway mi)
  have q2: "queues (ts (disown m k2)) = queues (ts k)" by (rule removed_ok(7) [OF ok h m(1) r2])
  note t2 = take_away [OF ok mi h m(1) r2 m2]
  show "mtx_inv (disown m (mutex_drop_priority t m k2))" "midway (mutex_drop_priority t m k2)"
    using mtx_ok_queue [OF t2(1) qd [OF q2 midwayD [OF m2]]] t2(2) by (simp_all add: mutex_drop_disown)
qed

lemma mtx_inv_init_queue:
  assumes "mtx_inv k" "midway k"
  shows "mtx_inv (init_wait_queue w k)" "midway (init_wait_queue w k)" "mtxinib (init_wait_queue w k) = mtxinib k"
    "queue_of (init_wait_queue w k) w = []" "mtxcb (init_wait_queue w k) = mtxcb k" "free_mtxcb (init_wait_queue w k) = free_mtxcb k"
proof -
  show "mtx_inv (init_wait_queue w k)" by (rule mtx_inv_keeps [OF assms(1)]) (auto intro!: frame)
  show "midway (init_wait_queue w k)" by (rule init_wait_queue_midway [OF assms(2)])
  show "queue_of (init_wait_queue w k) w = []" by (simp add: init_wait_queue_empty)
  show "mtxinib (init_wait_queue w k) = mtxinib k" "mtxcb (init_wait_queue w k) = mtxcb k" "free_mtxcb (init_wait_queue w k) = free_mtxcb k"
    by (simp_all add: same_tables_sel [OF init_wait_queue_tables])
qed

lemma mtx_exists_lock [simp]: "mtx_exists (lock_cpu k) = mtx_exists k"
  by (simp add: fun_eq_iff mtx_exists_def lock_cpu_def)

lemma ini_mtx_inv:
  assumes "mtx_inv k" "settled k"
  shows "mtx_inv (snd (ini_mtx mtxid k))" "settled (snd (ini_mtx mtxid k))"
proof -
  define m where "m = INDEX mtxid"
  define k1 where "k1 = lock_cpu k"
  define k2 where "k2 = init_wait_queue (MtxW m) k1"
  define k3 where "k3 = (case p_loctsk (mtxcb k2 m) of None \<Rightarrow> k2
    | Some t \<Rightarrow> mutex_drop_priority t m (unlink_loop (mtx_fuel (disown m k2)) t m None (disown m k2)))"
  have eq: "ini_mtx mtxid k = (if ctx_error k then (Ret E_CTX, k) else if \<not> VALID_ID (tmax_mtxid k) mtxid then (Ret E_ID, k)
      else if \<not> mtx_exists k1 m then leave E_NOEXS k1 else leave E_OK (dispatch_if_needed k3))"
    by (simp only: ini_mtx_def Let_def m_def k1_def k2_def k3_def)
  have k1: "mtx_inv k1" "settled k1" "midway k1" using assms lock_entry [OF assms(2)] by (simp_all add: k1_def)
  note k2 = mtx_inv_init_queue [OF k1(1,3), of "MtxW m", folded k2_def]
  have "mtx_inv k3 \<and> midway k3" if "mtx_exists k1 m"
  proof (cases "p_loctsk (mtxcb k2 m)")
    case None
    then show ?thesis using k2 by (simp add: k3_def)
  next
    case (Some t)
    have "mtx_exists k2 m" using that by (simp add: mtx_exists_def k2)
    from unlink_owner(1,2) [OF k2(1,2,4) Some this] show ?thesis by (simp add: k3_def Some mtx_fuel_def)
  qed
  then show "mtx_inv (snd (ini_mtx mtxid k))" "settled (snd (ini_mtx mtxid k))"
    using assms k1 by (auto simp: eq leave_def intro!: mtx_inv_dispatch dispatch_if_needed_settled)
qed

text \<open>Deleting the control block of a mutex nobody uses.\<close>

lemma mtx_inv_delete:
  assumes ok: "mtx_inv (disown m k)" and q: "queue_of k (MtxW m) = []" and e: "mtx_exists k m"
  shows "mtx_inv (k\<lparr>mtxinib := (mtxinib k)(m := (mtxinib k m)\<lparr>mtxatr := TA_NOEXS\<rparr>), free_mtxcb := free_mtxcb k @ [m]\<rparr>)" (is "mtx_inv ?k")
proof -
  let ?d = "disown m k"
  have ex: "mtx_exists ?k i \<longleftrightarrow> i \<noteq> m \<and> mtx_exists ?d i" "i \<noteq> m \<Longrightarrow> mtxinib ?k i = mtxinib ?d i"
    "i \<noteq> m \<Longrightarrow> MTX_CEILING ?k i = MTX_CEILING ?d i" for i
    by (auto simp: mtx_exists_def MTX_CEILING_def MTXPROTO_def)
  have ow: "owned ?k t = owned ?d t" for t by (auto simp: owned_def ex) 
  have nm: "m \<notin> owned ?d t" for t by (simp add: owned_def)
  have tk: "task ?k = task ?d" "queues (ts ?k) = queues (ts ?d)" "exists_task ?k = exists_task ?d"
    by (simp_all add: exists_task_def fun_eq_iff)
  have "m \<notin> set (free_mtxcb k)" using mtx_okD(1) [OF ok] e by (auto simp: mtx_tables_def mtx_exists_def)
  moreover have "int m < tmax_mtxid k" using mtx_okD(1) [OF ok] e by (auto simp: mtx_tables_def mtx_exists_def)
  moreover have "int i < tmax_mtxid k" if "mtx_exists k i" for i using mtx_okD(1) [OF ok] that by (simp add: mtx_tables_def mtx_exists_def)
  ultimately have "mtx_tables ?k" using mtx_okD(1) [OF ok] by (auto simp: mtx_tables_def ex)
  moreover have "\<exists>xs. holds ?k t xs" for t
  proof -
    obtain xs where xs: "holds ?d t xs" using mtx_okD(2) [OF ok] by blast
    have "locks (mtxcb ?k) p xs = locks (mtxcb ?d) p xs" for p by (rule locks_cong) simp
    then show ?thesis using xs by (auto simp: holds_def ow)
  qed
  moreover have "exists_task ?k t \<and> (t \<notin> {} \<longrightarrow> tstat (task ?k t) \<noteq> TS_DORMANT)" if "owned ?k t \<noteq> {}" for t
    using mtx_okD(3,4) [OF ok, of t] that unfolding ow tk by simp
  moreover have "mtx_exists ?k i \<and> (i \<notin> {} \<longrightarrow> p_loctsk (mtxcb ?k i) \<noteq> None)" if "queue_of ?k (MtxW i) \<noteq> []" for i
    using mtx_okD(5,6) [OF ok, of i] that q by (cases "i = m") (simp_all add: ex)
  moreover have "ceilpri (mtxinib ?k i) \<le> bpriority (task ?k t)"
    if "(i \<in> owned ?k t \<or> t \<in> set (queue_of ?k (MtxW i))) \<and> MTX_CEILING ?k i" for t i
    using mtx_okD(7) [OF ok, of i t] that q nm [of t] ow [of t] by (cases "i = m") (auto simp: ex)
  moreover have "protocol_priority ?k t = protocol_priority ?d t" for t
  proof -
    have "{i \<in> owned ?k t. MTX_CEILING ?k i} = {i \<in> owned ?d t. MTX_CEILING ?d i}" using ow nm ex(3) by (metis (lifting))
    moreover have "(\<lambda>i. ceilpri (mtxinib ?k i)) ` {i \<in> owned ?d t. MTX_CEILING ?d i} = (\<lambda>i. ceilpri (mtxinib ?d i)) ` {i \<in> owned ?d t. MTX_CEILING ?d i}"
      using nm ex(2) by (intro image_cong) auto
    ultimately show ?thesis by (simp add: protocol_priority_def)
  qed
  then have "priority (task ?k t) = protocol_priority ?k t" if "exists_task ?k t \<and> t \<notin> {}" for t
    using mtx_okD(8) [OF ok, of t] that unfolding tk by simp
  ultimately show ?thesis unfolding mtx_ok_def by blast
qed

lemma del_mtx_inv:
  assumes "mtx_inv k" "settled k"
  shows "mtx_inv (snd (del_mtx mtxid k))" "settled (snd (del_mtx mtxid k))"
proof -
  define m where "m = INDEX mtxid"
  define k1 where "k1 = lock_cpu k"
  define k2 where "k2 = init_wait_queue (MtxW m) k1"
  define k3 where "k3 = (case p_loctsk (mtxcb k2 m) of None \<Rightarrow> k2
    | Some t \<Rightarrow> mutex_drop_priority t m (unlink_loop (mtx_fuel k2) t m None k2))"
  define k4 where "k4 = k3\<lparr>mtxinib := (mtxinib k3)(m := (mtxinib k3 m)\<lparr>mtxatr := TA_NOEXS\<rparr>), free_mtxcb := free_mtxcb k3 @ [m]\<rparr>"
  have eq: "del_mtx mtxid k = (if ctx_error k then (Ret E_CTX, k) else if \<not> VALID_ID (tmax_mtxid k) mtxid then (Ret E_ID, k)
      else if \<not> mtx_exists k1 m then leave E_NOEXS k1 else if mtxid \<le> tmax_smtxid k1 then leave E_OBJ k1
      else leave E_OK (dispatch_if_needed k4))"
    by (simp only: del_mtx_def Let_def m_def k1_def k2_def k3_def k4_def)
  have k1: "mtx_inv k1" "settled k1" "midway k1" using assms lock_entry [OF assms(2)] by (simp_all add: k1_def)
  note k2 = mtx_inv_init_queue [OF k1(1,3), of "MtxW m", folded k2_def]
  have "mtx_inv k4 \<and> midway k4" if e: "mtx_exists k1 m"
  proof -
    have e2: "mtx_exists k2 m" using e by (simp add: mtx_exists_def k2)
    have "mtx_inv (disown m k3) \<and> midway k3 \<and> mtxinib k3 = mtxinib k2 \<and> queue_of k3 (MtxW m) = []"
    proof (cases "p_loctsk (mtxcb k2 m)")
      case None
      have "(mtxcb k2 m)\<lparr>p_loctsk := None\<rparr> = mtxcb k2 m" using None by (cases "mtxcb k2 m") simp
      then have "disown m k2 = k2" by (simp add: upd_mtxcb_def fun_upd_idem)
      then show ?thesis using k2 None by (simp add: k3_def)
    next
      case (Some t)
      note u = unlink_owner [OF k2(1,2,4) Some e2]
      have k3: "k3 = mutex_drop_priority t m (unlink_loop (mtx_fuel k2) t m None k2)" by (simp add: k3_def Some)
      have "mtxinib (unlink_loop n t m pp kk) = mtxinib kk" for n pp kk
        by (induction n arbitrary: pp kk) (auto simp: pp_set_def split: option.split)
      then have i: "mtxinib k3 = mtxinib k2" by (simp add: k3 mutex_drop_priority_frame)
      have "queue_of k3 (MtxW m) = []"
      proof (rule ccontr)
        assume "queue_of k3 (MtxW m) \<noteq> []"
        then have "queue_of (disown m k3) (MtxW m) \<noteq> []" by simp
        from mtx_okD(6) [OF u(4) [folded k3] this] show False by simp
      qed
      then show ?thesis using u(4,5) i by (simp add: k3)
    qed
    then show ?thesis using mtx_inv_delete [of m k3] e2 by (simp add: k4_def mtx_exists_def)
  qed
  then show "mtx_inv (snd (del_mtx mtxid k))" "settled (snd (del_mtx mtxid k))"
    using assms k1 by (auto simp: eq leave_def intro!: mtx_inv_dispatch dispatch_if_needed_settled)
qed

lemma ref_mtx_inv:
  assumes "mtx_inv k" "settled k"
  shows "mtx_inv (snd (fst (ref_mtx mtxid k)))" "settled (snd (fst (ref_mtx mtxid k)))"
  using assms lock_entry [of k] by (auto simp: ref_mtx_def Let_def leave_def)

text \<open>Creating a mutex takes an unused control block.\<close>

lemma mtx_inv_create:
  assumes ok: "mtx_inv k" and f: "free_mtxcb k = m # ms" and a: "atr \<noteq> TA_NOEXS"
    and c: "atr AND MTXPROTO_MASK = TA_CEILING \<Longrightarrow> c < TNUM_TPRI"
    and k': "k' = disown m (k\<lparr>free_mtxcb := ms, mtxinib := (mtxinib k)(m := \<lparr>mtxatr = atr, ceilpri = c\<rparr>)\<rparr>)"
  shows "mtx_inv k'"
proof -
  have ne: "\<not> mtx_exists k m" "int m < tmax_mtxid k" "m \<notin> set ms" using mtx_okD(1) [OF ok] f by (auto simp: mtx_tables_def)
  have qe: "queue_of k (MtxW m) = []" using mtx_okD(5) [OF ok, of m] ne(1) by blast
  have ex: "mtx_exists k' i \<longleftrightarrow> i = m \<or> mtx_exists k i" "i \<noteq> m \<Longrightarrow> mtxinib k' i = mtxinib k i"
    "i \<noteq> m \<Longrightarrow> MTX_CEILING k' i = MTX_CEILING k i" for i
    using a by (auto simp: k' mtx_exists_def MTX_CEILING_def MTXPROTO_def)
  have lo: "p_loctsk (mtxcb k' i) = (if i = m then None else p_loctsk (mtxcb k i))"
    "p_prevmtx (mtxcb k' i) = p_prevmtx (mtxcb k i)" for i by (simp_all add: k')
  have ow: "owned k' t = owned k t" for t using ne by (auto simp: owned_def ex lo)
  have nm: "m \<notin> owned k t" for t using ne by (simp add: owned_def)
  have tk: "task k' = task k" "queues (ts k') = queues (ts k)" "exists_task k' = exists_task k"
    by (simp_all add: k' exists_task_def fun_eq_iff)
  have "mtx_tables k'"
  proof -
    have "ceilpri (mtxinib k' i) < TNUM_TPRI \<and> int i < tmax_mtxid k" if "mtx_exists k' i" "MTX_CEILING k' i" for i
      using mtx_okD(1) [OF ok] that c ne by (cases "i = m") (auto simp: mtx_tables_def ex, simp add: k' MTX_CEILING_def MTXPROTO_def)
    moreover have "int i < tmax_mtxid k" if "mtx_exists k' i" for i
      using mtx_okD(1) [OF ok] that ne by (auto simp: mtx_tables_def ex)
    moreover have "tmax_mtxid k' = tmax_mtxid k" "free_mtxcb k' = ms" by (simp_all add: k')
    moreover have "\<forall>i \<in> set ms. \<not> mtx_exists k' i \<and> int i < tmax_mtxid k" "distinct ms"
      using mtx_okD(1) [OF ok] ne f by (auto simp: mtx_tables_def ex)
    ultimately show ?thesis by (auto simp: mtx_tables_def)
  qed
  moreover have "\<exists>xs. holds k' t xs" for t
  proof -
    obtain xs where xs: "holds k t xs" using mtx_okD(2) [OF ok] by blast
    have "locks (mtxcb k') p xs = locks (mtxcb k) p xs" for p by (rule locks_cong) (simp add: lo)
    then show ?thesis using xs by (auto simp: holds_def ow tk)
  qed
  moreover have "exists_task k' t \<and> (t \<notin> {} \<longrightarrow> tstat (task k' t) \<noteq> TS_DORMANT)" if "owned k' t \<noteq> {}" for t
    using mtx_okD(3,4) [OF ok, of t] that unfolding ow tk by simp
  moreover have "mtx_exists k' i \<and> (i \<notin> {} \<longrightarrow> p_loctsk (mtxcb k' i) \<noteq> None)" if "queue_of k' (MtxW i) \<noteq> []" for i
    using mtx_okD(5,6) [OF ok, of i] that qe by (cases "i = m") (simp_all add: ex lo tk)
  moreover have "ceilpri (mtxinib k' i) \<le> bpriority (task k' t)"
    if "(i \<in> owned k' t \<or> t \<in> set (queue_of k' (MtxW i))) \<and> MTX_CEILING k' i" for t i
    using mtx_okD(7) [OF ok, of i t] that qe nm by (cases "i = m") (auto simp: ow tk ex)
  moreover have "protocol_priority k' t = protocol_priority k t" for t
  proof -
    have "{i \<in> owned k' t. MTX_CEILING k' i} = {i \<in> owned k t. MTX_CEILING k i}" using ow nm ex(3) by (metis (lifting))
    moreover have "(\<lambda>i. ceilpri (mtxinib k' i)) ` {i \<in> owned k t. MTX_CEILING k i} = (\<lambda>i. ceilpri (mtxinib k i)) ` {i \<in> owned k t. MTX_CEILING k i}"
    proof (rule image_cong [OF refl])
      fix i assume "i \<in> {i \<in> owned k t. MTX_CEILING k i}"
      then have "i \<noteq> m" using nm by blast
      then show "ceilpri (mtxinib k' i) = ceilpri (mtxinib k i)" by (simp add: ex(2))
    qed
    ultimately show ?thesis by (simp add: protocol_priority_def tk)
  qed
  then have "priority (task k' t) = protocol_priority k' t" if "exists_task k' t \<and> t \<notin> {}" for t
    using mtx_okD(8) [OF ok, of t] that unfolding tk by simp
  ultimately show ?thesis unfolding mtx_ok_def by blast
qed

lemma acre_mtx_inv:
  assumes "mtx_inv k" "settled k"
  shows "mtx_inv (snd (acre_mtx atr cpri k))" "settled (snd (acre_mtx atr cpri k))"
proof -
  define k1 where "k1 = lock_cpu k"
  define m where "m = hd (free_mtxcb k1)"
  define k2 where "k2 = k1\<lparr>free_mtxcb := tl (free_mtxcb k1), mtxinib := (mtxinib k1)(m := \<lparr>mtxatr = atr, ceilpri = INT_PRIORITY cpri\<rparr>)\<rparr>"
  define k3 where "k3 = map_ts (\<lambda>s. s\<lparr>queues := (queues s)(WaitQ (MtxW m) := [])\<rparr>) k2"
  have eq: "acre_mtx atr cpri k = (if ctx_error k then (Ret E_CTX, k)
      else if atr = TA_CEILING \<and> \<not> VALID_TPRI cpri then (Ret E_PAR, k)
      else if atr \<noteq> TA_CEILING \<and> atr AND NOT TA_TPRI \<noteq> 0 then (Ret E_RSATR, k)
      else if tmax_mtxid k1 = 0 \<or> free_mtxcb k1 = [] then leave E_NOID k1 else leave_uint (OBJID m) (disown m k3))"
    by (simp only: acre_mtx_def Let_def k1_def m_def k2_def k3_def)
  have k1: "mtx_inv k1" "settled k1" using assms lock_entry [OF assms(2)] by (simp_all add: k1_def)
  have "mtx_inv (disown m k3) \<and> settled (disown m k3)" if f: "free_mtxcb k1 \<noteq> []"
    and a: "atr = TA_CEILING \<longrightarrow> VALID_TPRI cpri" "atr \<noteq> TA_CEILING \<longrightarrow> atr AND NOT TA_TPRI = 0"
  proof -
    obtain ms where ms: "free_mtxcb k1 = m # ms" using f by (auto simp: m_def neq_Nil_conv)
    have "\<not> mtx_exists k1 m" using mtx_okD(1) [OF k1(1)] ms by (simp add: mtx_tables_def)
    then have "queue_of k1 (MtxW m) = []" using mtx_okD(5) [OF k1(1), of m] by blast
    then have k3: "k3 = k2" by (simp add: k3_def k2_def map_ts_def fun_upd_idem)
    have "atr \<noteq> TA_NOEXS" using a(2) by auto
    moreover have "INT_PRIORITY cpri < TNUM_TPRI" if "atr AND MTXPROTO_MASK = TA_CEILING"
    proof (cases "atr = TA_CEILING")
      case True
      then show ?thesis using a(1) by (simp add: INT_PRIORITY_less)
    next
      case False
      then have "\<not> bit (atr AND NOT TA_TPRI) 1" using a(2) by simp
      moreover have "bit (atr AND MTXPROTO_MASK) 1" using that by simp
      ultimately show ?thesis by (simp add: bit_and_iff bit_not_iff)
    qed
    moreover have "k2 = k1\<lparr>free_mtxcb := ms, mtxinib := (mtxinib k1)(m := \<lparr>mtxatr = atr, ceilpri = INT_PRIORITY cpri\<rparr>)\<rparr>"
      unfolding k2_def ms by simp
    ultimately have "mtx_inv (disown m k2)" by (intro mtx_inv_create [OF k1(1) ms]) simp_all
    moreover have "settled (disown m k2)" using k1(2) by (simp add: k2_def)
    ultimately show ?thesis by (simp add: k3)
  qed
  then show "mtx_inv (snd (acre_mtx atr cpri k))" "settled (snd (acre_mtx atr cpri k))"
    using assms k1 by (auto simp: eq leave_def leave_uint_def)
qed

text \<open>Locking a free mutex. The running task stays the one to run, as the code asserts.\<close>

lemma settledI:
  assumes "midway k" "p_runtsk (ts k) = p_schedtsk (ts k)" shows "settled k"
  using assms midway_sched_running [OF assms(1)] by (auto simp: settled_def midway_def running_def)

lemma change_priority_up_sched:
  assumes "tstat (task k t) = TS_RUNNABLE" "p_schedtsk (ts k) = Some t" "p < priority (task k t)"
  shows "p_schedtsk (ts (change_priority t p mm k)) = Some t"
  using assms by (simp add: change_priority_def Let_def change_priority_ready_def primap_set_def primap_clear_def)

lemma mutex_acquire_eq:
  "mutex_acquire t m k =
    (let k1 = set_lastmtx t (Some m) (own t m k)
     in if MTX_CEILING k m \<and> ceilpri (mtxinib k m) < priority (task k t) then change_priority t (ceilpri (mtxinib k m)) True k1 else k1)"
proof -
  have "set_lastmtx t (Some m) (upd_mtxcb m (\<lambda>b. b\<lparr>p_prevmtx := p_lastmtx (task (upd_mtxcb m (\<lambda>b. b\<lparr>p_loctsk := Some t\<rparr>) k) t)\<rparr>)
      (upd_mtxcb m (\<lambda>b. b\<lparr>p_loctsk := Some t\<rparr>) k)) = set_lastmtx t (Some m) (own t m k)"
    by (simp add: own_def) (simp add: upd_mtxcb_def)
  then show ?thesis by (simp add: mutex_acquire_def MTX_CEILING_def MTXPROTO_def Let_def own_def)
qed

lemma mutex_acquire_ok:
  assumes ok: "mtx_inv k" and i: "in_task k" and t: "t = runtsk k" and m: "mtx_exists k m" "p_loctsk (mtxcb k m) = None"
    and b: "\<not> (MTX_CEILING k m \<and> bpriority (task k t) < ceilpri (mtxinib k m))"
  shows "mtx_inv (mutex_acquire t m k)" "settled (mutex_acquire t m k)"
    "p_runtsk (ts (mutex_acquire t m k)) = p_schedtsk (ts (mutex_acquire t m k))"
proof -
  define k1 where "k1 = set_lastmtx t (Some m) (own t m k)"
  define p where "p = ceilpri (mtxinib k m)"
  have r: "running t k" "p_runtsk (ts k) = Some t" using in_task_running [OF i] t by simp_all
  have s: "p_schedtsk (ts k) = Some t" using i r by (simp add: in_task_def settled_def)
  have e: "exists_task k t" using consistentD(3) [OF settledD [OF in_task_settled [OF i]], of t] r(1)
    by (auto simp: task_ok_def running_def)
  have ok': "mtx_ok {m} {} k" by (rule mtx_ok_mono [OF ok]) simp_all
  have b': "MTX_CEILING k m \<Longrightarrow> ceilpri (mtxinib k m) \<le> bpriority (task k t)" using b by simp
  note o = own_ok [OF ok' m e b' k1_def]
  have m1: "midway k1" using settled_midway [OF in_task_settled [OF i]] by (simp add: k1_def own_def)
  have t1: "tstat (task k1 t) = TS_RUNNABLE" "priority (task k1 t) = priority (task k t)" "p_schedtsk (ts k1) = Some t"
    "p_runtsk (ts k1) = Some t" using r s by (simp_all add: running_def k1_def own_def) (simp_all add: set_lastmtx_def)
  have pr: "priority (task k t) = protocol_priority k t" by (rule mtx_okD(8) [OF ok e]) simp
  have "mtx_inv (mutex_acquire t m k) \<and> midway (mutex_acquire t m k) \<and>
      p_schedtsk (ts (mutex_acquire t m k)) = Some t \<and> p_runtsk (ts (mutex_acquire t m k)) = Some t"
  proof (cases "MTX_CEILING k m \<and> p < priority (task k t)")
    case True
    have eq: "mutex_acquire t m k = change_priority t p True k1"
      using True by (simp add: mutex_acquire_eq Let_def k1_def p_def)
    have "p = protocol_priority k1 t" using True pr by (simp add: o(3) p_def)
    then have "mtx_inv (change_priority t p True k1)"
      using t1 by (intro change_priority_ok [OF o(1) midwayD [OF m1]]) simp_all
    moreover have "midway (change_priority t p True k1)"
      using tables_ceil [OF mtx_okD(1) [OF ok] m(1)] True by (intro change_priority_midway [OF m1]) (simp add: p_def)
    moreover have "p_runtsk (ts (change_priority t p True k1)) = p_runtsk (ts k1)"
      by (auto simp: change_priority_def Let_def wobj_change_priority_def split: option.split)
    ultimately show ?thesis unfolding eq using change_priority_up_sched [OF t1(1,3)] True t1 by simp
  next
    case False
    have eq: "mutex_acquire t m k = k1" using False by (auto simp: mutex_acquire_eq Let_def k1_def p_def)
    have "mtx_inv k1" using False pr t1 by (intro mtx_ok_close [OF o(1)]) (auto simp: o(3) p_def)
    then show ?thesis unfolding eq using m1 t1 by simp
  qed
  then show "mtx_inv (mutex_acquire t m k)" "settled (mutex_acquire t m k)"
    "p_runtsk (ts (mutex_acquire t m k)) = p_schedtsk (ts (mutex_acquire t m k))"
    by (simp_all add: settledI)
qed

text \<open>Waiting for a mutex.\<close>

lemma queue_of_make_wait:
  "set (queue_of (make_wait st wi k) w) \<subseteq> set (queue_of k w)" "set (queue_of (make_wait_tmout st wi tmout k) w) \<subseteq> set (queue_of k w)"
proof -
  have "keeps K k (make_wait st wi k)" "keeps K k (make_wait_tmout st wi tmout k)" for K by auto
  then show "set (queue_of (make_wait st wi k) w) \<subseteq> set (queue_of k w)" "set (queue_of (make_wait_tmout st wi tmout k) w) \<subseteq> set (queue_of k w)"
    by (auto simp: keeps_def)
qed

lemma queue_of_wobj_insert:
  "set (queue_of (wobj_queue_insert w k) v) \<subseteq> (if v = w then insert (runtsk k) (set (queue_of k w)) else set (queue_of k v))"
  by (auto simp: wobj_queue_insert_def queue_insert_tpri_def queue_insert_last_def lq_insert_prev_def Let_def)

lemma runtsk_make_wait [simp]: "runtsk (make_wait st wi k) = runtsk k" "runtsk (make_wait_tmout st wi tmout k) = runtsk k"
  by (simp_all add: runtsk_def make_wait_def make_wait_tmout_def Let_def set_tstat_def start_timer_def)

lemma mtx_inv_wait:
  assumes ok: "mtx_inv k" and m: "mtx_exists k m" "p_loctsk (mtxcb k m) \<noteq> None"
    and b: "\<not> (MTX_CEILING k m \<and> bpriority (task k (runtsk k)) < ceilpri (mtxinib k m))"
    and k': "same_tables k k'" "prio_frame {} k k'"
      "\<And>w. set (queue_of k' w) \<subseteq> (if w = MtxW m then insert (runtsk k) (set (queue_of k w)) else set (queue_of k w))"
  shows "mtx_inv k'"
proof -
  have so: "same_objects KMtx k k'" by (rule same_tables_objects [OF k'(1)])
  define k1 where "k1 = map_ts (\<lambda>s. s\<lparr>queues := (queues s)(WaitQ (MtxW m) := runtsk k # queues s (WaitQ (MtxW m)))\<rparr>) k"
  have q1: "queue_of k1 w = (if w = MtxW m then runtsk k # queue_of k w else queue_of k w)" for w by (simp add: k1_def)
  have k1: "mtxinib k1 = mtxinib k" "mtxcb k1 = mtxcb k" "free_mtxcb k1 = free_mtxcb k" "tmax_mtxid k1 = tmax_mtxid k"
    "tmax_smtxid k1 = tmax_smtxid k" "task k1 = task k" "exists_task k1 = exists_task k" "tinib (ts k1) = tinib (ts k)" "tmax_tskid k1 = tmax_tskid k"
    by (simp_all add: k1_def fun_eq_iff exists_task_def) (simp_all add: map_ts_def)
  have ex: "mtx_exists k1 i = mtx_exists k i" "MTX_CEILING k1 i = MTX_CEILING k i" "owned k1 t = owned k t" for i t
    by (simp_all add: mtx_exists_def MTX_CEILING_def MTXPROTO_def owned_def k1)
  have "mtx_inv k1"
    unfolding mtx_ok_def
  proof (intro conjI allI impI)
    show "mtx_tables k1" using mtx_okD(1) [OF ok] by (simp add: mtx_tables_def ex k1)
    show "\<exists>xs. holds k1 t xs" for t using mtx_okD(2) [OF ok, of t] by (simp add: holds_def ex k1)
    show "exists_task k1 t" "tstat (task k1 t) \<noteq> TS_DORMANT" if "owned k1 t \<noteq> {}" for t
      using mtx_okD(3,4) [OF ok, of t] that by (simp_all add: ex k1)
    show "mtx_exists k1 i" "p_loctsk (mtxcb k1 i) \<noteq> None" if "queue_of k1 (MtxW i) \<noteq> []" for i
      using mtx_okD(5,6) [OF ok, of i] that m by (auto simp: ex k1 q1 split: if_splits)
    show "ceilpri (mtxinib k1 i) \<le> bpriority (task k1 t)"
      if "(i \<in> owned k1 t \<or> t \<in> set (queue_of k1 (MtxW i))) \<and> MTX_CEILING k1 i" for t i
      using mtx_okD(7) [OF ok, of i t] that b by (auto simp: ex k1 q1 split: if_splits)
    show "priority (task k1 t) = protocol_priority k1 t" if "exists_task k1 t \<and> t \<notin> {}" for t
      using mtx_okD(8) [OF ok, of t] that by (simp add: protocol_priority_def ex k1)
  qed
  moreover have "keeps KMtx k1 k'"
    unfolding keeps_def
  proof (intro conjI allI impI)
    show "same_objects KMtx k1 k'" using so by (simp add: same_objects_def k1)
    show "set (queue_of k' w) \<subseteq> set (queue_of k1 w)" for w using k'(3) [of w] by (auto simp: q1 split: if_splits)
  qed
  moreover have "prio_frame {} k1 k'" using k'(2) by (simp add: prio_frame_def k1)
  ultimately show ?thesis by (rule mtx_inv_keeps)
qed

lemma loc_mtx_wait:
  assumes ok: "mtx_inv k" and i: "in_task k" and d: "dspflg (ts k)" and m: "mtx_exists k m" "p_loctsk (mtxcb k m) \<noteq> None"
    and b: "\<not> (MTX_CEILING k m \<and> bpriority (task k (runtsk k)) < ceilpri (mtxinib k m))"
  shows "mtx_inv (snd (block (wobj_make_wait (MtxW m) TS_WAITING_MTX fresh_winfo k)))"
    "settled (snd (block (wobj_make_wait (MtxW m) TS_WAITING_MTX fresh_winfo k)))"
    "mtx_inv (snd (block (wobj_make_wait_tmout (MtxW m) TS_WAITING_MTX fresh_winfo tmout k)))"
    "settled (snd (block (wobj_make_wait_tmout (MtxW m) TS_WAITING_MTX fresh_winfo tmout k)))"
proof -
  show "settled (snd (block (wobj_make_wait (MtxW m) TS_WAITING_MTX fresh_winfo k)))"
    "settled (snd (block (wobj_make_wait_tmout (MtxW m) TS_WAITING_MTX fresh_winfo tmout k)))"
    using i d by (auto intro!: pres)
  have w: "mtx_inv (snd (block k'))" if "same_tables k k'" "prio_frame {} k k'"
    "\<And>w. set (queue_of k' w) \<subseteq> (if w = MtxW m then insert (runtsk k) (set (queue_of k w)) else set (queue_of k w))" for k'
    by (rule mtx_inv_keeps [OF mtx_inv_wait [OF ok m b that]]) (auto simp: block_def intro!: frame)
  have q: "set (queue_of (set_wobjcb t v (wobj_queue_insert (MtxW m) k')) w) \<subseteq>
      (if w = MtxW m then insert (runtsk k) (set (queue_of k w)) else set (queue_of k w))"
    if "\<And>w. set (queue_of k' w) \<subseteq> set (queue_of k w)" "runtsk k' = runtsk k" for t v k' w
    using that(1) [of w] queue_of_wobj_insert [of "MtxW m" k' w] that(2)
    by (auto simp: set_wobjcb_def split: if_splits)
  have s: "same_tables k (set_wobjcb t v (wobj_queue_insert (MtxW m) k'))" if "same_tables k k'" for t v k'
    using that by (auto simp: set_wobjcb_def wobj_queue_insert_def)
  have s': "same_tables k (make_wait st wi k)" "same_tables k (make_wait_tmout st wi tmout k)" for st wi
    by (auto simp: make_wait_def make_wait_tmout_def Let_def start_timer_def
        intro!: same_tables_upd same_tables_trans [OF _ same_tables_map_ts] same_tables_trans [OF _ same_tables_map_tm])
  show "mtx_inv (snd (block (wobj_make_wait (MtxW m) TS_WAITING_MTX fresh_winfo k)))"
  proof (rule w)
    show "same_tables k (wobj_make_wait (MtxW m) TS_WAITING_MTX fresh_winfo k)" unfolding wobj_make_wait_def by (intro s s')
    show "prio_frame {} k (wobj_make_wait (MtxW m) TS_WAITING_MTX fresh_winfo k)" by (intro frame) simp
    show "set (queue_of (wobj_make_wait (MtxW m) TS_WAITING_MTX fresh_winfo k) w) \<subseteq> (if w = MtxW m then insert (runtsk k) (set (queue_of k w)) else set (queue_of k w))" for w
      unfolding wobj_make_wait_def by (rule q [OF queue_of_make_wait(1) runtsk_make_wait(1)])
  qed
  show "mtx_inv (snd (block (wobj_make_wait_tmout (MtxW m) TS_WAITING_MTX fresh_winfo tmout k)))"
  proof (rule w)
    show "same_tables k (wobj_make_wait_tmout (MtxW m) TS_WAITING_MTX fresh_winfo tmout k)" unfolding wobj_make_wait_tmout_def by (intro s s')
    show "prio_frame {} k (wobj_make_wait_tmout (MtxW m) TS_WAITING_MTX fresh_winfo tmout k)" by (intro frame) simp
    show "set (queue_of (wobj_make_wait_tmout (MtxW m) TS_WAITING_MTX fresh_winfo tmout k) w) \<subseteq> (if w = MtxW m then insert (runtsk k) (set (queue_of k w)) else set (queue_of k w))" for w
      unfolding wobj_make_wait_tmout_def by (rule q [OF queue_of_make_wait(2) runtsk_make_wait(2)])
  qed
qed

lemma loc_mtx_inv:
  assumes "mtx_inv k" "in_task k"
  shows "mtx_inv (snd (loc_mtx mtxid k)) \<and> settled (snd (loc_mtx mtxid k))"
    "mtx_inv (snd (ploc_mtx mtxid k)) \<and> settled (snd (ploc_mtx mtxid k))"
    "mtx_inv (snd (tloc_mtx mtxid tmout k)) \<and> settled (snd (tloc_mtx mtxid tmout k))"
proof -
  define m where "m = INDEX mtxid"
  define k1 where "k1 = lock_cpu k"
  define t where "t = runtsk k1"
  have k: "settled k" by (rule in_task_settled [OF assms(2)])
  have k1: "mtx_inv k1" "in_task k1" "settled k1" using assms lock_entry_task [OF assms(2)] by (simp_all add: k1_def)
  have d: "dspflg (ts k1)" if "\<not> dispatch_error k" using that by (simp add: dispatch_error_def k1_def)
  have a: "mtx_inv (mutex_acquire t m k1)" "settled (mutex_acquire t m k1)"
    if "mtx_exists k1 m" "\<not> (MTX_CEILING k1 m \<and> bpriority (task k1 t) < ceilpri (mtxinib k1 m))" "p_loctsk (mtxcb k1 m) = None"
    using mutex_acquire_ok [OF k1(1,2) t_def that(1,3,2)] by simp_all
  note w = loc_mtx_wait [OF k1(1,2) d, of m, folded t_def]
  show "mtx_inv (snd (loc_mtx mtxid k)) \<and> settled (snd (loc_mtx mtxid k))"
    using assms(1) k k1 a w(1,2) by (auto simp: loc_mtx_def Let_def leave_def m_def [symmetric] k1_def [symmetric] t_def [symmetric])
  show "mtx_inv (snd (ploc_mtx mtxid k)) \<and> settled (snd (ploc_mtx mtxid k))"
    using assms(1) k k1 a by (auto simp: ploc_mtx_def Let_def leave_def m_def [symmetric] k1_def [symmetric] t_def [symmetric])
  show "mtx_inv (snd (tloc_mtx mtxid tmout k)) \<and> settled (snd (tloc_mtx mtxid tmout k))"
    using assms(1) k k1 a w(3,4) by (auto simp: tloc_mtx_def Let_def leave_def m_def [symmetric] k1_def [symmetric] t_def [symmetric])
qed

text \<open>
  The release of all mutexes of a task, at its end. The task itself waits for nothing any more; each
  round takes the mutex locked last.
\<close>

lemma mutex_release_others:
  assumes c: "consistent k" and l: "p_loctsk (mtxcb k m) = None" and t: "t \<notin> set (queue_of k (MtxW m))"
  shows "owned (mutex_release m k) t = owned k t" "task (mutex_release m k) t = task k t"
    "set (queue_of (mutex_release m k) w) \<subseteq> set (queue_of k w)"
proof -
  have "owned (mutex_release m k) t = owned k t \<and> task (mutex_release m k) t = task k t \<and>
      set (queue_of (mutex_release m k) w) \<subseteq> set (queue_of k w)"
  proof (cases "queue_of k (MtxW m)")
    case Nil
    have "(mtxcb k m)\<lparr>p_loctsk := None\<rparr> = mtxcb k m" using l by (cases "mtxcb k m") simp
    then have "disown m k = k" by (simp add: upd_mtxcb_def fun_upd_idem)
    then show ?thesis using Nil by (simp add: mutex_release_def)
  next
    case (Cons u us)
    note s = mutex_release_spec [OF c Cons]
    have ut: "t \<noteq> u" using t Cons by auto
    have st: "same_tables (own u m k) (mutex_release m k)" using s(1) by (simp add: others_def)
    have "mtxcb (mutex_release m k) = mtxcb (own u m k)" "mtxinib (mutex_release m k) = mtxinib k"
      by (simp_all add: same_tables_sel [OF st]) (simp add: own_def)
    then have "owned (mutex_release m k) t = owned k t"
      using ut l by (auto simp: owned_def mtx_exists_def own_def)
    moreover have "task (mutex_release m k) t = task k t" using others_sel(3) [OF s(1) ut] by (simp add: own_def)
    moreover have "set (queue_of (mutex_release m k) w) \<subseteq> set (queue_of k w)" using Cons by (auto simp: s(7))
    ultimately show ?thesis by blast
  qed
  then show "owned (mutex_release m k) t = owned k t" "task (mutex_release m k) t = task k t"
    "set (queue_of (mutex_release m k) w) \<subseteq> set (queue_of k w)" by blast+
qed

lemma release_step:
  assumes ok: "mtx_ok {} {t} k" and mi: "midway k" and q: "\<And>i. t \<notin> set (queue_of k (MtxW i))" and h: "holds k t (m # ys)"
  defines "k0 \<equiv> disown m (set_lastmtx t (p_prevmtx (mtxcb k m)) k)"
  defines "k2 \<equiv> mutex_release m k0"
  shows "release_all_loop (Suc fuel) t k = release_all_loop fuel t k2" "mtx_ok {} {t} k2" "midway k2" "consistent k0"
    "\<And>i. t \<notin> set (queue_of k2 (MtxW i))" "m \<in> owned k t" "owned k2 t = owned k t - {m}"
    "task k2 t = (task k t)\<lparr>p_lastmtx := p_prevmtx (mtxcb k m)\<rparr>" "set (queue_of k2 w) \<subseteq> set (queue_of k w)"
proof -
  have l: "p_lastmtx (task k t) = Some m" "locks (mtxcb k) (p_lastmtx (task k t)) (m # ys)" using h by (simp_all add: holds_def)
  have m: "m \<in> set (m # ys)" "distinct (m # ys)" using h by (simp, simp only: holds_def)
  have "set (m # ys) = owned k t" using h by (simp only: holds_def)
  then show mo: "m \<in> owned k t" by auto
  then have e: "mtx_exists k m" by (simp add: owned_def)
  have r: "removed_from t m (m # ys) k k0"
    unfolding k0_def by (rule removed_after [OF _ m]) (use unlink_pop [OF l(2)] in simp)
  note r' = removed_ok [OF ok h m(1) r]
  have ok1: "mtx_ok {m} {t} k0" using r'(1) by simp
  have m1: "midway k0" using mi by (simp add: k0_def)
  have e1: "mtx_exists k0 m" using e by (simp add: mtx_exists_def k0_def)
  have q1: "t \<notin> set (queue_of k0 (MtxW i))" for i using q by (simp add: k0_def)
  note o2 = mutex_release_others [OF midwayD [OF m1] r'(6) q1, folded k2_def]
  show "consistent k0" by (rule midwayD [OF m1])
  show "mtx_ok {} {t} k2"
    unfolding k2_def using q1 by (intro mutex_release_ok [OF ok1 midwayD [OF m1] e1 r'(6)]) auto
  show "midway k2" unfolding k2_def by (rule mutex_release_midway [OF m1 tables_ceil [OF mtx_okD(1) [OF ok1] e1]])
  show "t \<notin> set (queue_of k2 (MtxW i))" for i using o2(3) [of "MtxW i"] q1 [of i] by blast
  show "owned k2 t = owned k t - {m}" by (simp add: o2(1) r'(2))
  show "task k2 t = (task k t)\<lparr>p_lastmtx := p_prevmtx (mtxcb k m)\<rparr>" by (simp add: o2(2) k0_def)
  show "set (queue_of k2 w) \<subseteq> set (queue_of k w)" using o2(3) [of w] by (simp add: k0_def)
  have "mutex_release m (set_lastmtx t (p_prevmtx (mtxcb k m)) k) = k2" by (simp add: k2_def k0_def mutex_release_disown)
  then show "release_all_loop (Suc fuel) t k = release_all_loop fuel t k2" by (simp add: l)
qed

lemma release_all_loop_ok:
  assumes "mtx_ok {} {t} k" "midway k" "card (owned k t) \<le> fuel" "\<And>m. t \<notin> set (queue_of k (MtxW m))"
  shows "mtx_ok {} {t} (release_all_loop fuel t k) \<and> midway (release_all_loop fuel t k) \<and>
    owned (release_all_loop fuel t k) t = {} \<and>
    (\<exists>p. task (release_all_loop fuel t k) t = (task k t)\<lparr>p_lastmtx := p\<rparr>) \<and>
    (\<forall>w. set (queue_of (release_all_loop fuel t k) w) \<subseteq> set (queue_of k w))"
  using assms
proof (induction fuel arbitrary: k)
  case 0
  have "task k t = (task k t)\<lparr>p_lastmtx := p_lastmtx (task k t)\<rparr>" by simp
  then have "\<exists>p. task k t = (task k t)\<lparr>p_lastmtx := p\<rparr>" by (rule exI)
  then show ?case using 0 owned_finite [OF "0.prems"(1)] by simp
next
  case (Suc fuel)
  obtain xs where h: "holds k t xs" using mtx_okD(2) [OF Suc.prems(1)] by blast
  show ?case
  proof (cases xs)
    case Nil
    have "task k t = (task k t)\<lparr>p_lastmtx := p_lastmtx (task k t)\<rparr>" by simp
    then have "\<exists>p. task k t = (task k t)\<lparr>p_lastmtx := p\<rparr>" by (rule exI)
    then show ?thesis using Suc.prems h Nil by (auto simp: holds_def)
  next
    case (Cons m ys)
    note st = release_step [OF Suc.prems(1,2,4) h [unfolded Cons]]
    let ?k2 = "mutex_release m (disown m (set_lastmtx t (p_prevmtx (mtxcb k m)) k))"
    have "card (owned ?k2 t) \<le> fuel" using Suc.prems(3) st(6) owned_finite [OF Suc.prems(1)] by (simp add: st(7))
    note ih = Suc.IH [OF st(2,3) this st(5)]
    have tt: "(task ?k2 t)\<lparr>p_lastmtx := p\<rparr> = (task k t)\<lparr>p_lastmtx := p\<rparr>" for p by (simp add: st(8))
    show ?thesis unfolding st(1) using ih st(9) unfolding tt by blast
  qed
qed

lemma mutex_release_all_ok:
  assumes "mtx_ok {} {t} k" "midway k" "\<And>m. t \<notin> set (queue_of k (MtxW m))"
  shows "mtx_ok {} {t} (mutex_release_all t k)" "midway (mutex_release_all t k)" "owned (mutex_release_all t k) t = {}"
    "p_lastmtx (task (mutex_release_all t k) t) = None"
    "task (mutex_release_all t k) t = (task k t)\<lparr>p_lastmtx := None\<rparr>"
    "set (queue_of (mutex_release_all t k) w) \<subseteq> set (queue_of k w)"
proof -
  obtain xs where h: "holds k t xs" using mtx_okD(2) [OF assms(1)] by blast
  have "card (owned k t) \<le> mtx_fuel k"
    using holds_fuel [OF mtx_okD(1) [OF assms(1)] h] h card_length [of xs] by (simp add: holds_def)
  note r = release_all_loop_ok [OF assms(1,2) this assms(3), folded mutex_release_all_def]
  then show "mtx_ok {} {t} (mutex_release_all t k)" "midway (mutex_release_all t k)" "owned (mutex_release_all t k) t = {}"
    "set (queue_of (mutex_release_all t k) w) \<subseteq> set (queue_of k w)" by blast+
  obtain ys where "holds (mutex_release_all t k) t ys" using mtx_okD(2) r by blast
  then show p: "p_lastmtx (task (mutex_release_all t k) t) = None" using r by (auto simp: holds_def)
  obtain q where "task (mutex_release_all t k) t = (task k t)\<lparr>p_lastmtx := q\<rparr>" using r by blast
  then show "task (mutex_release_all t k) t = (task k t)\<lparr>p_lastmtx := None\<rparr>" using p by simp
qed

text \<open>Mutex calls touch no other kind of object.\<close>

lemma keeps_upd_task [simp]: "K \<noteq> KMtx \<Longrightarrow> keeps K k' (set_lastmtx t p k) = keeps K k' k"
  by (simp add: set_lastmtx_def)

lemma mutex_release_keeps [frame]: "K \<noteq> KMtx \<Longrightarrow> keeps K k k' \<Longrightarrow> keeps K k (mutex_release m k')"
  by (auto simp: mutex_release_def Let_def case_prod_unfold intro!: frame)

lemma release_all_keeps [frame]:
  assumes "K \<noteq> KMtx" "keeps K k k'" shows "keeps K k (mutex_release_all t k')"
proof -
  have "keeps K k (release_all_loop n t k'')" if "keeps K k k''" for n k''
    using that by (induction n arbitrary: k'') (simp_all add: assms(1) mutex_release_keeps split: option.split)
  then show ?thesis using assms by (simp add: mutex_release_all_def)
qed

lemma unlink_loop_keeps [frame]: "K \<noteq> KMtx \<Longrightarrow> keeps K k k' \<Longrightarrow> keeps K k (unlink_loop n t m pp k')"
  by (induction n arbitrary: pp) (auto simp: pp_set_def split: option.split)

lemma mutex_drop_keeps [frame]: "K \<noteq> KMtx \<Longrightarrow> keeps K k k' \<Longrightarrow> consistent k' \<Longrightarrow> keeps K k (mutex_drop_priority t m k')"
  by (auto simp: mutex_drop_priority_def Let_def intro: keeps_change_priority)

lemma mutex_acquire_keeps: "K \<noteq> KMtx \<Longrightarrow> midway k \<Longrightarrow> keeps K k (mutex_acquire t m k)"
  by (auto simp: mutex_acquire_eq Let_def own_def intro!: keeps_change_priority midwayD)

lemma mutex_keeps:
  assumes K: "K \<noteq> KMtx" and s: "settled k"
  shows "keeps K k (snd (loc_mtx mtxid k))" "keeps K k (snd (ploc_mtx mtxid k))" "keeps K k (snd (tloc_mtx mtxid tmout k))"
    "keeps K k (snd (unl_mtx mtxid k))" "keeps K k (snd (ini_mtx mtxid k))" "keeps K k (snd (del_mtx mtxid k))"
    "keeps K k (snd (fst (ref_mtx mtxid k)))"
proof -
  have k1: "midway (lock_cpu k)" "keeps K k (lock_cpu k)" using lock_entry [OF s] by auto
  have a: "keeps K k (mutex_acquire t m (lock_cpu k))" for t m
    by (rule keeps_trans [OF k1(2) mutex_acquire_keeps [OF K k1(1)]])
  show "keeps K k (snd (loc_mtx mtxid k))" "keeps K k (snd (ploc_mtx mtxid k))" "keeps K k (snd (tloc_mtx mtxid tmout k))"
    using K a by (auto simp: loc_mtx_def ploc_mtx_def tloc_mtx_def Let_def intro!: frame)
  show "keeps K k (snd (unl_mtx mtxid k))"
    using K k1 by (auto simp: unl_mtx_def Let_def intro!: frame midwayD set_lastmtx_midway)
  have i: "keeps K k (mutex_drop_priority t m (unlink_loop n t m None k2))" if "keeps K k k2" "midway k2" for t m n k2
    using K that by (intro frame midwayD unlink_loop_midway)
  show "keeps K k (snd (ini_mtx mtxid k))"
    using K k1 by (auto simp: ini_mtx_def Let_def intro!: frame i init_wait_queue_midway split: option.split)
  show "keeps K k (snd (del_mtx mtxid k))"
    using K k1 by (auto simp: del_mtx_def Let_def intro!: frame i init_wait_queue_midway split: option.split)
  show "keeps K k (snd (fst (ref_mtx mtxid k)))" by (auto simp: ref_mtx_def Let_def intro!: frame)
qed

lemma change_priority_ready_wait:
  "queues (change_priority_ready t p q m s) (WaitQ w) = remove1 t (queues s (WaitQ w))"
  by (simp add: change_priority_ready_def Let_def primap_set_def primap_clear_def lq_delete_def lq_insert_prev_def
      lq_insert_next_def split: option.splits)

lemma change_priority_queues:
  assumes c: "consistent k" and r: "tstat (task k t) = TS_RUNNABLE"
  shows "queue_of (change_priority t p mm k) w = queue_of k w"
proof -
  have "loc k t \<noteq> Some (WaitQ w)" using r by (auto simp: loc_def TSTAT_RUNNABLE_def split: if_splits)
  then have "t \<notin> set (queue_of k w)" using core_in_queue [OF consistentD(1) [OF c], of t "WaitQ w"] by simp
  then show ?thesis
    using r by (simp add: change_priority_def TSTAT_RUNNABLE_def Let_def change_priority_ready_wait remove1_idem)
qed

lemma mutex_release_wakes:
  assumes c: "consistent k" and q: "queue_of k (MtxW m) = t # us"
  shows "\<not> TSTAT_WAITING (tstat (task (mutex_release m k) t))" "w_u (p_winfo (task (mutex_release m k) t)) = Wercd E_OK"
    "p_loctsk (mtxcb (mutex_release m k) m) = Some t" "u \<noteq> t \<Longrightarrow> task (mutex_release m k) u = task k u"
    "mtxinib (mutex_release m k) = mtxinib k"
proof -
  note sp = mutex_release_spec [OF c q]
  show "\<not> TSTAT_WAITING (tstat (task (mutex_release m k) t))" "w_u (p_winfo (task (mutex_release m k) t)) = Wercd E_OK"
    by (auto simp: mutex_release_eq [OF c q] make_non_wait_def promote_def set_wercd_def set_tstat_def tstat_defs)
  have "same_tables (own t m k) (mutex_release m k)" using sp(1) by (simp add: others_def)
  from same_tables_sel [OF this] have "mtxcb (mutex_release m k) = mtxcb (own t m k)" "mtxinib (mutex_release m k) = mtxinib (own t m k)"
    by blast+
  then show "p_loctsk (mtxcb (mutex_release m k) m) = Some t" "mtxinib (mutex_release m k) = mtxinib k" by (simp_all add: own_def)
  show "task (mutex_release m k) u = task k u" if "u \<noteq> t"
    using others_sel(3) [OF sp(1) that] by (simp add: own_def)
qed

lemma unl_mtx_hands_over_step:
  assumes ok: "mtx_inv k" and mi: "midway k" and l: "p_lastmtx (task k t) = Some m" and r: "tstat (task k t) = TS_RUNNABLE"
    and q: "queue_of k (MtxW m) = u # us"
  defines "k' \<equiv> mutex_release m (mutex_drop_priority t m (set_lastmtx t (p_prevmtx (mtxcb k m)) k))"
  shows "p_loctsk (mtxcb k' m) = Some u" "p_lastmtx (task k' u) = Some m" "queue_of k' (MtxW m) = us"
    "\<not> TSTAT_WAITING (tstat (task k' u))" "w_u (p_winfo (task k' u)) = Wercd E_OK"
    "v \<noteq> u \<Longrightarrow> v \<noteq> t \<Longrightarrow> task k' v = task k v" "mtxinib k' = mtxinib k"
proof -
  define k1 where "k1 = set_lastmtx t (p_prevmtx (mtxcb k m)) k"
  have m1: "midway k1" unfolding k1_def by (rule set_lastmtx_midway [OF mi])
  define k2 where "k2 = mutex_drop_priority t m k1"
  obtain xs where h: "holds k t xs" using mtx_okD(2) [OF ok] by blast
  obtain ys where xs: "xs = m # ys" using h l by (cases xs) (auto simp: holds_def)
  have un: "unlinked_from t m xs k k1"
    unfolding k1_def xs by (rule unlink_pop) (use h xs in \<open>simp add: holds_def\<close>)
  have "removed_from t m xs k (disown m k1)" by (rule removed_after [OF un]) (use h xs in \<open>auto simp: holds_def\<close>)
  from take_away [OF ok mi h _ this] have "midway (mutex_drop_priority t m (disown m k1))" using xs m1 by simp
  then have c2: "consistent k2" using midwayD by (simp add: k2_def mutex_drop_disown)
  have qc: "queue_of k2 w = queue_of k w" for w
    using change_priority_queues [OF midwayD [OF m1], of t] r by (simp add: k2_def mutex_drop_priority_def Let_def k1_def)
  have q2: "queue_of k2 (MtxW m) = u # us" using q qc by simp
  have k': "k' = mutex_release m k2" by (simp add: k'_def k2_def k1_def)
  show "p_loctsk (mtxcb k' m) = Some u" "p_lastmtx (task k' u) = Some m" "queue_of k' (MtxW m) = us"
    "\<not> TSTAT_WAITING (tstat (task k' u))" "w_u (p_winfo (task k' u)) = Wercd E_OK"
    using mutex_release_wakes [OF c2 q2] mutex_release_spec(3,7) [OF c2 q2] by (simp_all add: k')
  show "mtxinib k' = mtxinib k"
    by (simp add: k' mutex_release_wakes(5) [OF c2 q2]) (simp add: k2_def k1_def mutex_drop_priority_frame)
  show "task k' v = task k v" if "v \<noteq> u" "v \<noteq> t"
    using mutex_release_wakes(4) [OF c2 q2 that(1)] that(2)
    by (simp add: k' k2_def k1_def mutex_drop_priority_def Let_def change_priority_task)
qed

section \<open>What the release of all mutexes hands over\<close>

text \<open>
  \<open>hands_over M k k'\<close>: each of the mutexes \<open>M\<close> has gone to the first task that waited for it, which has left
  the queue and no longer waits, with \<open>E_OK\<close>, or is free if none waited; nothing else about mutexes, wait
  queues and other tasks has changed, but for the task \<open>t\<close> that gave them up.
\<close>

definition next_owner :: "kernel \<Rightarrow> nat \<Rightarrow> nat option" where
  "next_owner k m = (case queue_of k (MtxW m) of [] \<Rightarrow> None | u # us \<Rightarrow> Some u)"

definition hands_over :: "nat \<Rightarrow> nat set \<Rightarrow> kernel \<Rightarrow> kernel \<Rightarrow> bool" where
  "hands_over t M k k' \<longleftrightarrow>
     (\<forall>m. p_loctsk (mtxcb k' m) = (if m \<in> M then next_owner k m else p_loctsk (mtxcb k m))) \<and>
     (\<forall>w. queue_of k' w = (if w \<in> MtxW ` M then tl (queue_of k w) else queue_of k w)) \<and>
     (\<forall>m\<in>M. \<forall>u. next_owner k m = Some u \<longrightarrow> \<not> TSTAT_WAITING (tstat (task k' u)) \<and> w_u (p_winfo (task k' u)) = Wercd E_OK) \<and>
     (\<forall>v. v \<noteq> t \<and> (\<forall>m\<in>M. next_owner k m \<noteq> Some v) \<longrightarrow> task k' v = task k v)"

lemma next_owner_in: "next_owner k m = Some u \<Longrightarrow> u \<in> set (queue_of k (MtxW m))"
  by (simp add: next_owner_def split: list.splits)

lemma hands_over_one:
  assumes c: "consistent k" shows "hands_over t {m} k (mutex_release m k)"
proof (cases "queue_of k (MtxW m)")
  case Nil
  then show ?thesis by (simp add: hands_over_def mutex_release_def next_owner_def)
next
  case (Cons u us)
  note sp = mutex_release_spec [OF c Cons] and wk = mutex_release_wakes [OF c Cons]
  have "same_tables (own u m k) (mutex_release m k)" using sp(1) by (simp add: others_def)
  from same_tables_sel [OF this] have "mtxcb (mutex_release m k) = mtxcb (own u m k)" by blast
  then have "p_loctsk (mtxcb (mutex_release m k) i) = (if i = m then Some u else p_loctsk (mtxcb k i))" for i by (simp add: own_def)
  then show ?thesis using wk(1,2,4) Cons by (simp add: hands_over_def next_owner_def sp(7))
qed

lemma hands_over_step:
  assumes a: "hands_over t {m} k k2" and b: "hands_over t M k2 k'" and m: "m \<notin> M" and c: "consistent k"
    and q: "\<And>i. t \<notin> set (queue_of k (MtxW i))"
  shows "hands_over t (insert m M) k k'"
proof -
  have q2: "queue_of k2 (MtxW i) = queue_of k (MtxW i)" if "i \<noteq> m" for i using a that by (auto simp: hands_over_def)
  then have n2: "next_owner k2 i = next_owner k i" if "i \<noteq> m" for i using that by (simp add: next_owner_def)
  have own: "p_loctsk (mtxcb k' i) = (if i \<in> insert m M then next_owner k i else p_loctsk (mtxcb k i))" for i
    using a b m n2 [of i] by (auto simp: hands_over_def)
  have que: "queue_of k' w = (if w \<in> MtxW ` insert m M then tl (queue_of k w) else queue_of k w)" for w
  proof -
    have 1: "queue_of k' w = (if w \<in> MtxW ` M then tl (queue_of k2 w) else queue_of k2 w)" using b by (simp add: hands_over_def)
    have 2: "queue_of k2 w = (if w = MtxW m then tl (queue_of k w) else queue_of k w)" using a by (simp add: hands_over_def)
    show ?thesis unfolding 1 2 using m by auto
  qed
  have keep: "task k' v = task k2 v" if "v \<noteq> t" "\<forall>i\<in>M. next_owner k i \<noteq> Some v" for v
  proof -
    have "\<forall>i\<in>M. next_owner k2 i \<noteq> Some v" using that(2) m n2 by metis
    then show ?thesis using b that(1) by (simp add: hands_over_def)
  qed
  have wake: "\<not> TSTAT_WAITING (tstat (task k' u)) \<and> w_u (p_winfo (task k' u)) = Wercd E_OK" if i: "i \<in> insert m M" "next_owner k i = Some u" for i u
  proof (cases "i = m")
    case True
    have u: "u \<in> set (queue_of k (MtxW m))" using i True by (auto dest: next_owner_in)
    have "next_owner k j \<noteq> Some u" if "j \<in> M" for j
    proof
      assume "next_owner k j = Some u"
      then have "u \<in> set (queue_of k (MtxW j))" by (rule next_owner_in)
      then have "MtxW j = MtxW m" using u core_in_queue [OF consistentD(1) [OF c], of u "WaitQ (MtxW _)"] by simp
      then show False using that m by simp
    qed
    then have "task k' u = task k2 u" using u q by (intro keep) auto
    then show ?thesis using a i True by (simp add: hands_over_def)
  next
    case False
    then show ?thesis using b i n2 [OF False] by (auto simp: hands_over_def)
  qed
  have "task k' v = task k v" if "v \<noteq> t" "\<forall>i\<in>insert m M. next_owner k i \<noteq> Some v" for v
    using keep [OF that(1)] that a by (simp add: hands_over_def)
  then show ?thesis using own que wake unfolding hands_over_def by blast
qed

lemma hands_over_cong:
  assumes "hands_over t M k0 k'" "\<And>i. i \<notin> M \<Longrightarrow> p_loctsk (mtxcb k0 i) = p_loctsk (mtxcb k i)" "\<And>w. queue_of k0 w = queue_of k w"
    "\<And>v. v \<noteq> t \<Longrightarrow> task k0 v = task k v"
  shows "hands_over t M k k'"
  using assms by (auto simp: hands_over_def next_owner_def)

lemma release_all_hands_over:
  assumes "mtx_ok {} {t} k" "midway k" "\<And>m. t \<notin> set (queue_of k (MtxW m))"
  shows "hands_over t (owned k t) k (mutex_release_all t k)"
proof -
  have "hands_over t (owned k t) k (release_all_loop fuel t k)" if "card (owned k t) \<le> fuel" for fuel
    using assms that
  proof (induction fuel arbitrary: k)
    case 0
    then have "owned k t = {}" using owned_finite [OF "0.prems"(1)] by simp
    then show ?case by (simp add: hands_over_def)
  next
    case (Suc fuel)
    obtain xs where h: "holds k t xs" using mtx_okD(2) [OF Suc.prems(1)] by blast
    show ?case
    proof (cases xs)
      case Nil
      then show ?thesis using h by (auto simp: holds_def hands_over_def)
    next
      case (Cons m ys)
      define k0 where "k0 = disown m (set_lastmtx t (p_prevmtx (mtxcb k m)) k)"
      note st = release_step [OF Suc.prems(1,2,3) h [unfolded Cons], folded k0_def]
      have "card (owned (mutex_release m k0) t) \<le> fuel" using Suc.prems(4) st(6) owned_finite [OF Suc.prems(1)] by (simp add: st(7))
      note ih = Suc.IH [OF st(2,3,5) this, unfolded st(7)]
      have q0: "queue_of k0 w = queue_of k w" for w by (simp add: k0_def)
      have "hands_over t (insert m (owned k t - {m})) k0 (release_all_loop fuel t (mutex_release m k0))"
        using Suc.prems(3) q0 by (intro hands_over_step [OF hands_over_one ih] st(4)) simp_all
      then have "hands_over t (owned k t) k0 (release_all_loop fuel t (mutex_release m k0))" using st(6) by (simp add: insert_absorb)
      then show ?thesis unfolding st(1)
        by (rule hands_over_cong) (use st(6) q0 in \<open>auto simp: k0_def\<close>)
    qed
  qed
  moreover obtain xs where h: "holds k t xs" using mtx_okD(2) [OF assms(1)] by blast
  have "card (owned k t) \<le> mtx_fuel k"
    using holds_fuel [OF mtx_okD(1) [OF assms(1)] h] h card_length [of xs] by (simp add: holds_def)
  ultimately show ?thesis by (simp add: mutex_release_all_def)
qed

end
