(* ===== verification/TaskSvc.thy ===== *)
theory TaskSvc
  imports Mutex
begin

unbundle bit_operations_syntax

text \<open>
  The service calls on tasks: asp3\_dcre/kernel/task\_manage.c (creation, activation, priorities),
  task\_term.c (termination), task\_sync.c (sleep, suspend, delay), task\_refer.c (reference), with
  \<open>task_terminate\<close> of task.c. A task that ends gives back all its mutexes while it is no longer
  linked anywhere; the lemmas treat it as dormant from the moment it leaves its queue.
\<close>

section \<open>Termination\<close>

definition task_terminate :: "nat \<Rightarrow> kernel \<Rightarrow> kernel" where
  "task_terminate t k =
     (let k1 = (if TSTAT_RUNNABLE (tstat (task k t)) then map_ts (make_non_runnable t) k
                else if TSTAT_WAITING (tstat (task k t)) then wait_dequeue_tmevtb t (wait_dequeue_wobj t k)
                else k);
          k2 = (if p_lastmtx (task k1 t) \<noteq> None then mutex_release_all t k1 else k1);
          k3 = map_ts (make_dormant t) k2
      in if actque (task k3 t) then map_ts (make_active t) (upd_task t (\<lambda>b. b\<lparr>actque := False\<rparr>) k3)
         else k3)"

section \<open>Task management\<close>

text \<open>
  The task a call is about: \<open>TSK_SELF\<close> is the caller. Calls that may come from an interrupt handler
  accept \<open>TSK_SELF\<close> only outside of one.
\<close>

definition task_of :: "int \<Rightarrow> kernel \<Rightarrow> nat option" where
  "task_of tskid k =
     (if tskid = TSK_SELF then Some (runtsk k)
      else if VALID_ID (tmax_tskid k) tskid then Some (INDEX tskid) else None)"

definition task_of_any :: "int \<Rightarrow> kernel \<Rightarrow> nat option" where
  "task_of_any tskid k =
     (if tskid = TSK_SELF \<and> \<not> sense_context k then Some (runtsk k)
      else if VALID_ID (tmax_tskid k) tskid then Some (INDEX tskid) else None)"

definition ALIGNED :: "32 word \<Rightarrow> 32 word \<Rightarrow> bool" where
  "ALIGNED val align \<longleftrightarrow> val AND (align - 1) = 0"

definition ROUND_STK_T :: "32 word \<Rightarrow> 32 word" where
  "ROUND_STK_T sz = (sz + 8 - 1) AND NOT (8 - 1)"

abbreviation TA_FPU :: ATR where "TA_FPU \<equiv> 0x08"

text \<open>
  The packet of \<open>acre_tsk\<close> is given by its fields; a null stack address asks for a stack from the
  kernel memory pool. \<open>thumb\<close> is the macro that turns the alignment test of functions off.
\<close>

definition acre_tsk :: "bool \<Rightarrow> ATR \<Rightarrow> intptr_t \<Rightarrow> 32 word \<Rightarrow> int \<Rightarrow> 32 word \<Rightarrow> 32 word \<Rightarrow> kernel \<Rightarrow> svc \<times> kernel" where
  "acre_tsk thumb atr exi ent itskpri sz stack k =
     (if ctx_error k then (Ret E_CTX, k)
      else if atr AND NOT (TA_ACT OR TA_NOACTQUE OR TA_FPU) \<noteq> 0 then (Ret E_RSATR, k)
      else if \<not> (thumb \<or> ALIGNED ent 4) then (Ret E_PAR, k)
      else if ent = 0 then (Ret E_PAR, k)
      else if \<not> VALID_TPRI itskpri then (Ret E_PAR, k)
      else if \<not> 1 \<le> sz then (Ret E_PAR, k)
      else if stack \<noteq> 0 \<and> \<not> ALIGNED sz 8 then (Ret E_PAR, k)
      else if stack \<noteq> 0 \<and> \<not> ALIGNED stack 8 then (Ret E_PAR, k)
      else let k1 = lock_cpu k in
        if queues (ts k1) FreeTcbQ = [] then leave E_NOID k1
        else
          let (sz1, (stack1, k2), atr1) =
                (if stack = 0 then (ROUND_STK_T sz, malloc_mpk (ROUND_STK_T sz) k1, atr OR TA_MEMALLOC)
                 else (sz, (stack, k1), atr))
          in if stack1 = 0 then leave E_NOMEM k2
             else
               let (t, q) = lq_delete_next FreeTcbQ (queues (ts k2));
                   k3 = map_ts (\<lambda>s. s\<lparr>queues := q,
                     tinib := (tinib s)(t := \<lparr>tskatr = atr1, exinf = exi, task_entry = ent,
                       ipriority = INT_PRIORITY itskpri, stksz = sz1, stk = stack1\<rparr>)\<rparr>) k2;
                   k4 = upd_task t (\<lambda>b. b\<lparr>actque := False, p_lastmtx := None\<rparr>) k3;
                   k5 = map_ts (make_dormant t) k4;
                   k6 = (if tsk_atr k5 t AND TA_ACT \<noteq> 0 then dispatch_if_needed (map_ts (make_active t) k5) else k5)
               in leave_uint (OBJID t) k6)"

definition del_tsk :: "int \<Rightarrow> kernel \<Rightarrow> svc \<times> kernel" where
  "del_tsk tskid k =
     (if ctx_error k then (Ret E_CTX, k)
      else if \<not> VALID_ID (tmax_tskid k) tskid then (Ret E_ID, k)
      else let t = INDEX tskid; k1 = lock_cpu k in
        if tsk_atr k1 t = TA_NOEXS then leave E_NOEXS k1
        else if tskid \<le> tmax_stskid k1 \<or> \<not> TSTAT_DORMANT (tstat (task k1 t)) then leave E_OBJ k1
        else
          let k2 = (if tsk_atr k1 t AND TA_MEMALLOC \<noteq> 0 then free_mpk (stk (tinib (ts k1) t)) k1 else k1);
              k3 = map_ts (\<lambda>s. s\<lparr>tinib := (tinib s)(t := (tinib s t)\<lparr>tskatr := TA_NOEXS\<rparr>)\<rparr>) k2;
              k4 = map_ts (queue_insert_last FreeTcbQ t) k3
          in leave E_OK k4)"

definition act_tsk :: "int \<Rightarrow> kernel \<Rightarrow> svc \<times> kernel" where
  "act_tsk tskid k =
     (if sense_lock k then (Ret E_CTX, k)
      else case task_of_any tskid k of
        None \<Rightarrow> (Ret E_ID, k)
      | Some t \<Rightarrow>
        let k1 = lock_cpu k in
        if tsk_atr k1 t = TA_NOEXS then leave E_NOEXS k1
        else if TSTAT_DORMANT (tstat (task k1 t)) then
          leave E_OK (dispatch_or_request (map_ts (make_active t) k1))
        else if tsk_atr k1 t AND TA_NOACTQUE \<noteq> 0 \<or> actque (task k1 t) then leave E_QOVR k1
        else leave E_OK (upd_task t (\<lambda>b. b\<lparr>actque := True\<rparr>) k1))"

definition can_act :: "int \<Rightarrow> kernel \<Rightarrow> svc \<times> kernel" where
  "can_act tskid k =
     (if ctx_error k then (Ret E_CTX, k)
      else case task_of tskid k of
        None \<Rightarrow> (Ret E_ID, k)
      | Some t \<Rightarrow>
        let k1 = lock_cpu k in
        if tsk_atr k1 t = TA_NOEXS then leave E_NOEXS k1
        else leave_uint (if actque (task k1 t) then 1 else 0) (upd_task t (\<lambda>b. b\<lparr>actque := False\<rparr>) k1))"

abbreviation TTS_RUN :: nat where "TTS_RUN \<equiv> 0x01"
abbreviation TTS_RDY :: nat where "TTS_RDY \<equiv> 0x02"
abbreviation TTS_WAI :: nat where "TTS_WAI \<equiv> 0x04"
abbreviation TTS_SUS :: nat where "TTS_SUS \<equiv> 0x08"
abbreviation TTS_WAS :: nat where "TTS_WAS \<equiv> 0x0c"
abbreviation TTS_DMT :: nat where "TTS_DMT \<equiv> 0x10"

definition tskstat :: "nat \<Rightarrow> kernel \<Rightarrow> nat" where
  "tskstat t k =
     (let st = tstat (task k t)
      in if TSTAT_DORMANT st then TTS_DMT
         else if TSTAT_SUSPENDED st then (if TSTAT_WAITING st then TTS_WAS else TTS_SUS)
         else if TSTAT_WAITING st then TTS_WAI
         else if p_runtsk (ts k) = Some t then TTS_RUN
         else TTS_RDY)"

text \<open>The state written through \<open>p_tskstat\<close>; \<open>None\<close> if it is not written.\<close>

definition get_tst :: "int \<Rightarrow> kernel \<Rightarrow> (svc \<times> kernel) \<times> nat option" where
  "get_tst tskid k =
     (if ctx_error k then ((Ret E_CTX, k), None)
      else case task_of tskid k of
        None \<Rightarrow> ((Ret E_ID, k), None)
      | Some t \<Rightarrow>
        let k1 = lock_cpu k in
        if tsk_atr k1 t = TA_NOEXS then (leave E_NOEXS k1, None)
        else (leave E_OK k1, Some (tskstat t k1)))"

definition chg_pri :: "int \<Rightarrow> int \<Rightarrow> kernel \<Rightarrow> svc \<times> kernel" where
  "chg_pri tskid tskpri k =
     (if ctx_error k then (Ret E_CTX, k)
      else case task_of tskid k of
        None \<Rightarrow> (Ret E_ID, k)
      | Some t \<Rightarrow>
        if tskpri \<noteq> TPRI_INI \<and> \<not> VALID_TPRI tskpri then (Ret E_PAR, k)
        else
          let newbpri = (if tskpri = TPRI_INI then ipriority (tinib (ts k) t) else INT_PRIORITY tskpri);
              k1 = lock_cpu k
          in if tsk_atr k1 t = TA_NOEXS then leave E_NOEXS k1
             else if TSTAT_DORMANT (tstat (task k1 t)) then leave E_OBJ k1
             else if (p_lastmtx (task k1 t) \<noteq> None \<or> TSTAT_WAIT_MTX (tstat (task k1 t))) \<and>
                 \<not> mutex_check_ceilpri t newbpri k1 then leave E_ILUSE k1
             else
               let k2 = upd_task t (\<lambda>b. b\<lparr>bpriority := newbpri\<rparr>) k1;
                   k3 = (if p_lastmtx (task k2 t) = None \<or> \<not> mutex_scan_ceilmtx t k2
                         then dispatch_if_needed (change_priority t newbpri False k2) else k2)
               in leave E_OK k3)"

definition get_pri :: "int \<Rightarrow> kernel \<Rightarrow> (svc \<times> kernel) \<times> int option" where
  "get_pri tskid k =
     (if ctx_error k then ((Ret E_CTX, k), None)
      else case task_of tskid k of
        None \<Rightarrow> ((Ret E_ID, k), None)
      | Some t \<Rightarrow>
        let k1 = lock_cpu k in
        if tsk_atr k1 t = TA_NOEXS then (leave E_NOEXS k1, None)
        else if TSTAT_DORMANT (tstat (task k1 t)) then (leave E_OBJ k1, None)
        else (leave E_OK k1, Some (EXT_TSKPRI (priority (task k1 t)))))"

definition get_inf :: "kernel \<Rightarrow> (svc \<times> kernel) \<times> intptr_t option" where
  "get_inf k =
     (if ctx_error k then ((Ret E_CTX, k), None)
      else let k1 = lock_cpu k in (leave E_OK k1, Some (exinf (tinib (ts k1) (runtsk k1)))))"

section \<open>Task termination\<close>

definition ext_tsk :: "kernel \<Rightarrow> svc \<times> kernel" where
  "ext_tsk k =
     (if sense_context k then (Ret E_CTX, k)
      else
        let k1 = (if sense_lock k then k else lock_cpu k);
            k2 = (if \<not> dspflg (ts k1) then
                    let k = (if \<not> enadsp (ts k1) then map_ts (\<lambda>s. s\<lparr>enadsp := True\<rparr>) k1 else k1);
                        k = (if t_get_ipm k \<noteq> TIPM_ENAALL then t_set_ipm TIPM_ENAALL k else k)
                    in map_ts set_dspflg k
                  else k1)
        in (NoReturn, exit_and_dispatch (task_terminate (runtsk k2) k2)))"

definition ras_ter :: "int \<Rightarrow> kernel \<Rightarrow> svc \<times> kernel" where
  "ras_ter tskid k =
     (if ctx_error k then (Ret E_CTX, k)
      else if \<not> VALID_ID (tmax_tskid k) tskid then (Ret E_ID, k)
      else let t = INDEX tskid in
        if p_runtsk (ts k) = Some t then (Ret E_ILUSE, k)
        else let k1 = lock_cpu k in
          if tsk_atr k1 t = TA_NOEXS then leave E_NOEXS k1
          else if TSTAT_DORMANT (tstat (task k1 t)) then leave E_OBJ k1
          else if enater (task k1 t) then leave E_OK (dispatch_if_needed (task_terminate t k1))
          else
            let k2 = upd_task t (\<lambda>b. b\<lparr>raster := True\<rparr>) k1;
                k3 = (if \<not> TSTAT_RUNNABLE (tstat (task k2 t)) then
                        let k = (if TSTAT_WAITING (tstat (task k2 t))
                                 then set_wercd t E_RASTER (wait_dequeue_tmevtb t (wait_dequeue_wobj t k2)) else k2)
                        in dispatch_if_needed (map_ts (make_runnable t) (set_tstat t TS_RUNNABLE k))
                      else k2)
            in leave E_OK k3)"

definition dis_ter :: "kernel \<Rightarrow> svc \<times> kernel" where
  "dis_ter k =
     (if ctx_error k then (Ret E_CTX, k)
      else let k1 = lock_cpu k in leave E_OK (upd_task (runtsk k1) (\<lambda>b. b\<lparr>enater := False\<rparr>) k1))"

definition ena_ter :: "kernel \<Rightarrow> svc \<times> kernel" where
  "ena_ter k =
     (if ctx_error k then (Ret E_CTX, k)
      else let k1 = lock_cpu k; t = runtsk k1 in
        if raster (task k1 t) \<and> dspflg (ts k1) then (NoReturn, exit_and_dispatch (task_terminate t k1))
        else leave E_OK (upd_task t (\<lambda>b. b\<lparr>enater := True\<rparr>) k1))"

definition sns_ter :: "kernel \<Rightarrow> bool" where
  "sns_ter k = (if (case p_runtsk (ts k) of None \<Rightarrow> False | Some t \<Rightarrow> enater (task k t)) then False else True)"

definition ter_tsk :: "int \<Rightarrow> kernel \<Rightarrow> svc \<times> kernel" where
  "ter_tsk tskid k =
     (if ctx_error k then (Ret E_CTX, k)
      else if \<not> VALID_ID (tmax_tskid k) tskid then (Ret E_ID, k)
      else let t = INDEX tskid in
        if p_runtsk (ts k) = Some t then (Ret E_ILUSE, k)
        else let k1 = lock_cpu k in
          if tsk_atr k1 t = TA_NOEXS then leave E_NOEXS k1
          else if TSTAT_DORMANT (tstat (task k1 t)) then leave E_OBJ k1
          else leave E_OK (dispatch_if_needed (task_terminate t k1)))"

section \<open>Task synchronisation\<close>

definition slp_tsk :: "kernel \<Rightarrow> svc \<times> kernel" where
  "slp_tsk k =
     (if dispatch_error k then (Ret E_CTX, k)
      else let k1 = lock_cpu k; t = runtsk k1 in
        if raster (task k1 t) then leave E_RASTER k1
        else if wupque (task k1 t) then leave E_OK (upd_task t (\<lambda>b. b\<lparr>wupque := False\<rparr>) k1)
        else block (make_wait TS_WAITING_SLP fresh_winfo k1))"

definition tslp_tsk :: "TMO \<Rightarrow> kernel \<Rightarrow> svc \<times> kernel" where
  "tslp_tsk tmout k =
     (if dispatch_error k then (Ret E_CTX, k)
      else if \<not> VALID_TMOUT tmout then (Ret E_PAR, k)
      else let k1 = lock_cpu k; t = runtsk k1 in
        if raster (task k1 t) then leave E_RASTER k1
        else if wupque (task k1 t) then leave E_OK (upd_task t (\<lambda>b. b\<lparr>wupque := False\<rparr>) k1)
        else if tmout = TMO_POL then leave E_TMOUT k1
        else block (make_wait_tmout TS_WAITING_SLP fresh_winfo tmout k1))"

definition wup_tsk :: "int \<Rightarrow> kernel \<Rightarrow> svc \<times> kernel" where
  "wup_tsk tskid k =
     (if sense_lock k then (Ret E_CTX, k)
      else case task_of_any tskid k of
        None \<Rightarrow> (Ret E_ID, k)
      | Some t \<Rightarrow>
        let k1 = lock_cpu k in
        if tsk_atr k1 t = TA_NOEXS then leave E_NOEXS k1
        else if TSTAT_DORMANT (tstat (task k1 t)) then leave E_OBJ k1
        else if TSTAT_WAIT_SLP (tstat (task k1 t)) then leave E_OK (dispatch_or_request (wait_complete t k1))
        else if \<not> wupque (task k1 t) then leave E_OK (upd_task t (\<lambda>b. b\<lparr>wupque := True\<rparr>) k1)
        else leave E_QOVR k1)"

definition can_wup :: "int \<Rightarrow> kernel \<Rightarrow> svc \<times> kernel" where
  "can_wup tskid k =
     (if ctx_error k then (Ret E_CTX, k)
      else case task_of tskid k of
        None \<Rightarrow> (Ret E_ID, k)
      | Some t \<Rightarrow>
        let k1 = lock_cpu k in
        if tsk_atr k1 t = TA_NOEXS then leave E_NOEXS k1
        else if TSTAT_DORMANT (tstat (task k1 t)) then leave E_OBJ k1
        else leave_uint (if wupque (task k1 t) then 1 else 0) (upd_task t (\<lambda>b. b\<lparr>wupque := False\<rparr>) k1))"

definition rel_wai :: "int \<Rightarrow> kernel \<Rightarrow> svc \<times> kernel" where
  "rel_wai tskid k =
     (if sense_lock k then (Ret E_CTX, k)
      else if \<not> VALID_ID (tmax_tskid k) tskid then (Ret E_ID, k)
      else let t = INDEX tskid; k1 = lock_cpu k in
        if tsk_atr k1 t = TA_NOEXS then leave E_NOEXS k1
        else if \<not> TSTAT_WAITING (tstat (task k1 t)) then leave E_OBJ k1
        else leave E_OK (dispatch_or_request
          (make_non_wait t (set_wercd t E_RLWAI (wait_dequeue_tmevtb t (wait_dequeue_wobj t k1))))))"

definition sus_tsk :: "int \<Rightarrow> kernel \<Rightarrow> svc \<times> kernel" where
  "sus_tsk tskid k =
     (if ctx_error k then (Ret E_CTX, k)
      else case task_of tskid k of
        None \<Rightarrow> (Ret E_ID, k)
      | Some t \<Rightarrow>
        let k1 = lock_cpu k in
        if p_runtsk (ts k1) = Some t \<and> \<not> dspflg (ts k1) then leave E_CTX k1
        else if tsk_atr k1 t = TA_NOEXS then leave E_NOEXS k1
        else if TSTAT_DORMANT (tstat (task k1 t)) then leave E_OBJ k1
        else if raster (task k1 t) then leave E_RASTER k1
        else if TSTAT_RUNNABLE (tstat (task k1 t)) then
          leave E_OK (dispatch_if_needed (map_ts (make_non_runnable t) (set_tstat t TS_SUSPENDED k1)))
        else if TSTAT_SUSPENDED (tstat (task k1 t)) then leave E_QOVR k1
        else leave E_OK (upd_task t (\<lambda>b. b\<lparr>tstat := tstat b OR TS_SUSPENDED\<rparr>) k1))"

definition rsm_tsk :: "int \<Rightarrow> kernel \<Rightarrow> svc \<times> kernel" where
  "rsm_tsk tskid k =
     (if ctx_error k then (Ret E_CTX, k)
      else if \<not> VALID_ID (tmax_tskid k) tskid then (Ret E_ID, k)
      else let t = INDEX tskid; k1 = lock_cpu k in
        if tsk_atr k1 t = TA_NOEXS then leave E_NOEXS k1
        else if \<not> TSTAT_SUSPENDED (tstat (task k1 t)) then leave E_OBJ k1
        else if \<not> TSTAT_WAITING (tstat (task k1 t)) then
          leave E_OK (dispatch_if_needed (map_ts (make_runnable t) (set_tstat t TS_RUNNABLE k1)))
        else leave E_OK (upd_task t (\<lambda>b. b\<lparr>tstat := tstat b AND NOT TS_SUSPENDED\<rparr>) k1))"

definition dly_tsk :: "RELTIM \<Rightarrow> kernel \<Rightarrow> svc \<times> kernel" where
  "dly_tsk dlytim k =
     (if dispatch_error k then (Ret E_CTX, k)
      else if \<not> VALID_RELTIM dlytim then (Ret E_PAR, k)
      else let k1 = lock_cpu k; t = runtsk k1 in
        if raster (task k1 t) then leave E_RASTER k1
        else
          let k2 = set_tstat t TS_WAITING_DLY k1;
              k3 = map_ts (make_non_runnable t) k2;
              k4 = upd_task t (\<lambda>b. b\<lparr>p_winfo := fresh_winfo\<lparr>w_u := P_tmevtb (Some (TskTM t))\<rparr>\<rparr>) k3;
              k5 = start_timer t Wait_tmout_ok dlytim k4
          in block k5)"

section \<open>Reference of the state of a task\<close>

text \<open>The packet \<open>T_RTSK\<close>; a field is \<open>None\<close> if the call does not write it.\<close>

record rtsk =
  r_tskstat :: nat
  r_tskpri :: "int option"
  r_tskbpri :: "int option"
  r_tskwait :: "nat option"
  r_wobjid :: "int option"
  r_lefttmo :: "TMO option"
  r_actcnt :: nat
  r_wupcnt :: "nat option"
  r_raster :: "bool option"
  r_dister :: "bool option"

abbreviation TTW_SLP :: nat where "TTW_SLP \<equiv> 0x0001"
abbreviation TTW_DLY :: nat where "TTW_DLY \<equiv> 0x0002"
abbreviation TTW_SEM :: nat where "TTW_SEM \<equiv> 0x0004"
abbreviation TTW_FLG :: nat where "TTW_FLG \<equiv> 0x0008"
abbreviation TTW_SDTQ :: nat where "TTW_SDTQ \<equiv> 0x0010"
abbreviation TTW_RDTQ :: nat where "TTW_RDTQ \<equiv> 0x0020"
abbreviation TTW_SPDQ :: nat where "TTW_SPDQ \<equiv> 0x0100"
abbreviation TTW_RPDQ :: nat where "TTW_RPDQ \<equiv> 0x0200"
abbreviation TTW_MTX :: nat where "TTW_MTX \<equiv> 0x0080"
abbreviation TTW_MPF :: nat where "TTW_MPF \<equiv> 0x2000"

text \<open>
  The macros \<open>SEMID\<close>, \<open>FLGID\<close>, \<dots> subtract the address of the table of their kind; all control
  blocks are identified by the index in the table here, so the object's index gives its ID.
\<close>

definition wobj_index :: "wobj \<Rightarrow> nat" where
  "wobj_index w = (case w of SemW i \<Rightarrow> i | FlgW i \<Rightarrow> i | SDtqW i \<Rightarrow> i | RDtqW i \<Rightarrow> i | SPdqW i \<Rightarrow> i | RPdqW i \<Rightarrow> i
     | MtxW i \<Rightarrow> i | MpfW i \<Rightarrow> i)"

definition wait_cause :: "tstat \<Rightarrow> wobj option \<Rightarrow> nat option \<times> int option" where
  "wait_cause st w =
     (let c = st AND TS_WAITING_MASK; i = map_option (\<lambda>w. OBJID (wobj_index w)) w
      in if c = TS_WAITING_SLP then (Some TTW_SLP, None)
         else if c = TS_WAITING_DLY then (Some TTW_DLY, None)
         else if c = TS_WAITING_SEM then (Some TTW_SEM, i)
         else if c = TS_WAITING_FLG then (Some TTW_FLG, i)
         else if c = TS_WAITING_SDTQ then (Some TTW_SDTQ, i)
         else if c = TS_WAITING_RDTQ then (Some TTW_RDTQ, i)
         else if c = TS_WAITING_SPDQ then (Some TTW_SPDQ, i)
         else if c = TS_WAITING_RPDQ then (Some TTW_RPDQ, i)
         else if c = TS_WAITING_MTX then (Some TTW_MTX, i)
         else if c = TS_WAITING_MPF then (Some TTW_MPF, i)
         else (None, None))"

definition lefttmo :: "nat \<Rightarrow> kernel \<Rightarrow> TMO \<times> kernel" where
  "lefttmo t k =
     (case w_u (p_winfo (task k t)) of
        P_tmevtb (Some r) \<Rightarrow> let (left, m) = tmevt_lefttim r (tm k) in (left, map_tm (\<lambda>_. m) k)
      | _ \<Rightarrow> (TMO_FEVR, k))"

definition ref_tsk :: "int \<Rightarrow> kernel \<Rightarrow> (svc \<times> kernel) \<times> rtsk option" where
  "ref_tsk tskid k =
     (if ctx_error k then ((Ret E_CTX, k), None)
      else case task_of tskid k of
        None \<Rightarrow> ((Ret E_ID, k), None)
      | Some t \<Rightarrow>
        let k1 = lock_cpu k; b = task k1 t; act = (if actque b then 1 else 0) in
        if tsk_atr k1 t = TA_NOEXS then (leave E_NOEXS k1, None)
        else if TSTAT_DORMANT (tstat b) then
          (leave E_OK k1, Some \<lparr>r_tskstat = TTS_DMT, r_tskpri = None, r_tskbpri = None, r_tskwait = None, r_wobjid = None,
             r_lefttmo = None, r_actcnt = act, r_wupcnt = None, r_raster = None, r_dister = None\<rparr>)
        else
          let (cause, obj) = (if TSTAT_WAITING (tstat b) then wait_cause (tstat b) (p_wobjcb (p_winfo b)) else (None, None));
              (left, k2) = (if TSTAT_WAITING (tstat b) then let (l, k) = lefttmo t k1 in (Some l, k) else (None, k1))
          in (leave E_OK k2, Some \<lparr>r_tskstat = tskstat t k1, r_tskpri = Some (EXT_TSKPRI (priority b)),
                r_tskbpri = Some (EXT_TSKPRI (bpriority b)), r_tskwait = cause, r_wobjid = obj, r_lefttmo = left,
                r_actcnt = act, r_wupcnt = Some (if wupque b then 1 else 0), r_raster = Some (raster b),
                r_dister = Some (\<not> enater b)\<rparr>))"

section \<open>A task that ends does not look at its state any more\<close>

text \<open>Waking other tasks commutes with a change of the state of the task \<open>t\<close>.\<close>

lemma make_runnable_tstat:
  "make_runnable u (upd_tcb t (\<lambda>b. b\<lparr>tstat := st\<rparr>) s) = upd_tcb t (\<lambda>b. b\<lparr>tstat := st\<rparr>) (make_runnable u s)"
  by (simp add: make_runnable_def Let_def upd_tcb_def primap_set_def split: option.split)

lemma upd_task_twist: "u \<noteq> t \<Longrightarrow> upd_task u g (upd_task t f k) = upd_task t f (upd_task u g k)"
  by (simp add: upd_task_def upd_tcb_def map_ts_def fun_upd_twist)

lemma set_tstat_sel [simp]:
  "u \<noteq> t \<Longrightarrow> task (set_tstat t st k) u = task k u" "task (set_tstat t st k) t = (task k t)\<lparr>tstat := st\<rparr>"
  "queues (ts (set_tstat t st k)) = queues (ts k)" "mtxcb (set_tstat t st k) = mtxcb k" "mtxinib (set_tstat t st k) = mtxinib k"
  "tmax_mtxid (set_tstat t st k) = tmax_mtxid k" "tinib (ts (set_tstat t st k)) = tinib (ts k)"
  "tmax_tskid (set_tstat t st k) = tmax_tskid k"
  by (simp_all add: set_tstat_def) (simp_all add: upd_task_def map_ts_def)

lemma set_lastmtx_tstat: "set_lastmtx v p (set_tstat t st k) = set_tstat t st (set_lastmtx v p k)"
proof -
  have b: "b\<lparr>tstat := st, p_lastmtx := p\<rparr> = b\<lparr>p_lastmtx := p, tstat := st\<rparr>" for b :: "tmevtb_ref tcb" by (cases b) simp
  show ?thesis
    by (cases "v = t") (simp_all add: b set_lastmtx_def set_tstat_def upd_task_def upd_tcb_def map_ts_def fun_upd_twist)
qed

lemma tstat_twist:
  assumes "u \<noteq> t"
  shows "wait_dequeue_tmevtb u (set_tstat t st k) = set_tstat t st (wait_dequeue_tmevtb u k)"
    "set_wercd u e (set_tstat t st k) = set_tstat t st (set_wercd u e k)"
    "make_non_wait u (set_tstat t st k) = set_tstat t st (make_non_wait u k)"
    "upd_mtxcb m f (set_tstat t st k) = set_tstat t st (upd_mtxcb m f k)"
    "upd_task u g (set_tstat t st k) = set_tstat t st (upd_task u g k)"
proof -
  show "upd_task u g (set_tstat t st k) = set_tstat t st (upd_task u g k)" for g k
    unfolding set_tstat_def by (rule upd_task_twist [OF assms])
  show "wait_dequeue_tmevtb u (set_tstat t st k) = set_tstat t st (wait_dequeue_tmevtb u k)"
    using assms by (simp add: wait_dequeue_tmevtb_def) (simp add: set_tstat_def upd_task_def map_ts_def map_tm_def
        split: winfo_u.split option.split)
  show "set_wercd u e (set_tstat t st k) = set_tstat t st (set_wercd u e k)"
    unfolding set_wercd_def upd_winfo_def set_tstat_def by (rule upd_task_twist [OF assms])
  show "upd_mtxcb m f (set_tstat t st k) = set_tstat t st (upd_mtxcb m f k)"
    by (simp add: upd_mtxcb_def set_tstat_def upd_task_def map_ts_def)
  have "map_ts (make_runnable u) (set_tstat t st k) = set_tstat t st (map_ts (make_runnable u) k)" for k
    by (simp add: set_tstat_def upd_task_def map_ts_def make_runnable_tstat)
  moreover have "set_tstat u x (set_tstat t st k) = set_tstat t st (set_tstat u x k)" for x k
    unfolding set_tstat_def by (rule upd_task_twist [OF assms])
  ultimately show "make_non_wait u (set_tstat t st k) = set_tstat t st (make_non_wait u k)"
    using assms by (simp add: make_non_wait_def)
qed

lemma mutex_release_tstat:
  assumes "t \<notin> set (queue_of k (MtxW m))"
  shows "mutex_release m (set_tstat t st k) = set_tstat t st (mutex_release m k)"
proof (cases "queue_of k (MtxW m)")
  case Nil
  then show ?thesis by (simp add: mutex_release_def) (simp add: upd_mtxcb_def set_tstat_def upd_task_def map_ts_def)
next
  case (Cons u us)
  have ut: "u \<noteq> t" using assms Cons by auto
  note c = tstat_twist [OF ut]
  have tw: "take_waiter (MtxW m) k = (u, map_ts (\<lambda>s. s\<lparr>queues := (queues (ts k))(WaitQ (MtxW m) := us)\<rparr>) k)"
    using Cons by (simp add: take_waiter_def lq_delete_next_def)
  have "map_ts (\<lambda>s. s\<lparr>queues := (queues (ts k))(WaitQ (MtxW m) := us)\<rparr>) (set_tstat t st k) =
      set_tstat t st (map_ts (\<lambda>s. s\<lparr>queues := (queues (ts k))(WaitQ (MtxW m) := us)\<rparr>) k)"
    by (simp add: set_tstat_def upd_task_def map_ts_def upd_tcb_def)
  then have tw': "take_waiter (MtxW m) (set_tstat t st k) = (u, set_tstat t st (snd (take_waiter (MtxW m) k)))"
    using Cons by (simp add: take_waiter_def lq_delete_next_def)
  have mc: "MTX_CEILING (set_tstat t st k) m = MTX_CEILING k m" for k by (simp add: MTX_CEILING_def MTXPROTO_def)
  show ?thesis using Cons ut by (simp add: mutex_release_def tw tw' c mc set_lastmtx_tstat Let_def)
qed

lemma release_all_loop_tstat:
  assumes "\<And>m. t \<notin> set (queue_of k (MtxW m))"
  shows "release_all_loop n t (set_tstat t st k) = set_tstat t st (release_all_loop n t k)"
  using assms
proof (induction n arbitrary: k)
  case (Suc n)
  note l = set_lastmtx_tstat
  show ?case
  proof (cases "p_lastmtx (task k t)")
    case (Some m)
    have q: "t \<notin> set (queue_of (mutex_release m (set_lastmtx t p k)) (MtxW i))" for p i
    proof -
      have "set (queue_of (mutex_release m k') w) \<subseteq> set (queue_of k' w)" for k' w
        by (auto simp: mutex_release_def Let_def case_prod_unfold queue_of_make_non_wait set_lastmtx_def set_wercd_def
            wait_dequeue_tmevtb_def take_waiter_def lq_delete_next_def split: winfo_u.splits option.splits if_splits
            dest: subsetD [OF tl_subset])
      then show ?thesis using Suc.prems [of i] by fastforce
    qed
    show ?thesis using Some Suc.prems [of m] by (simp add: l mutex_release_tstat Suc.IH [OF q])
  qed simp
qed simp

lemma mutex_release_all_tstat:
  "(\<And>m. t \<notin> set (queue_of k (MtxW m))) \<Longrightarrow> mutex_release_all t (set_tstat t st k) = set_tstat t st (mutex_release_all t k)"
  by (simp add: mutex_release_all_def mtx_fuel_def release_all_loop_tstat del: release_all_loop.simps)

section \<open>Leaving all queues, and coming back\<close>

definition unlink_task :: "nat \<Rightarrow> kernel \<Rightarrow> kernel" where
  "unlink_task t k = (if TSTAT_RUNNABLE (tstat (task k t)) then map_ts (make_non_runnable t) k
     else if TSTAT_WAITING (tstat (task k t)) then wait_dequeue_tmevtb t (wait_dequeue_wobj t k) else k)"

lemma upd_task_id [simp]: "upd_task t (\<lambda>b. b) k = k"
  by (simp add: upd_task_def upd_tcb_def map_ts_def)

lemma unlink_task_frame:
  "others t k (unlink_task t k)" "tcb (ts (unlink_task t k)) = tcb (ts k)" "keeps K k (unlink_task t k)"
  "p_runtsk (ts (unlink_task t k)) = p_runtsk (ts k)" "dspflg (ts (unlink_task t k)) = dspflg (ts k)"
  "sense_context (unlink_task t k) = sense_context k"
  by (auto simp: unlink_task_def wait_dequeue_tmevtb_def wait_dequeue_wobj_def split: winfo_u.split option.split)

lemma unlink_task_limbo:
  assumes c: "consistent k" and e: "exists_task k t"
  shows "limbo t (unlink_task t k)"
proof -
  have v: "valid_tstat (tstat (task k t))" using consistentD(3) [OF c, of t] by (simp add: task_ok_def)
  show ?thesis
  proof (cases "TSTAT_RUNNABLE (tstat (task k t))")
    case True
    then show ?thesis using limbo_runnable [OF c True, of "\<lambda>b. b"] by (simp add: unlink_task_def)
  next
    case nr: False
    show ?thesis
    proof (cases "TSTAT_WAITING (tstat (task k t))")
      case True
      then show ?thesis using nr limbo_detached [OF dequeue_detached [OF c True]] by (simp add: unlink_task_def)
    next
      case False
      have "loc k t = None" using e nr False valid_tstat_cases(3) [OF v] by (auto simp: loc_def exists_task_def)
      moreover have "\<not> timed k t" using False by (simp add: timed_def)
      ultimately show ?thesis using limbo_plain [OF c _ e] nr False by (simp add: unlink_task_def)
    qed
  qed
qed

lemma make_non_runnable_sched:
  "p_schedtsk s \<noteq> Some t \<Longrightarrow> p_schedtsk (make_non_runnable t s) = p_schedtsk s"
  by (simp add: make_non_runnable_def Let_def primap_clear_def)

lemma unlink_task_midway:
  assumes m: "midway k" and e: "exists_task k t" and r: "running t k \<Longrightarrow> dspflg (ts k) \<and> \<not> sense_context k"
    and st: "st = TS_DORMANT \<or> st = TS_SUSPENDED"
  shows "midway (set_tstat t st (unlink_task t k))"
proof -
  have l: "limbo t (unlink_task t k)" by (rule unlink_task_limbo [OF midwayD [OF m] e])
  have "limbo t (set_tstat t st (unlink_task t k))" unfolding set_tstat_def by (rule limbo_upd [OF l]) simp_all
  then have c: "consistent (set_tstat t st (unlink_task t k))" by (rule limbo_idle) (use st in \<open>auto simp: set_tstat_def\<close>)
  show ?thesis
  proof (cases "running t k")
    case True
    then show ?thesis using c r by (simp add: midway_def set_tstat_def unlink_task_frame)
  next
    case False
    have "p_schedtsk (ts (unlink_task t k)) = p_schedtsk (ts k)" if "\<not> dspflg (ts k)"
    proof -
      have "p_schedtsk (ts k) \<noteq> Some t" using m that False by (auto simp: midway_def running_def)
      then show ?thesis by (simp add: unlink_task_def make_non_runnable_sched wait_dequeue_tmevtb_def wait_dequeue_wobj_def
            split: winfo_u.split option.split)
    qed
    then have "calm k (unlink_task t k)" by (simp add: calm_def unlink_task_frame)
    then have "calm k (set_tstat t st (unlink_task t k))" by (auto simp: set_tstat_def)
    moreover have "others t k (set_tstat t st (unlink_task t k))"
      unfolding set_tstat_def by (rule others_trans [OF unlink_task_frame(1)]) auto
    ultimately show ?thesis using midway_others [OF m] c False by blast
  qed
qed

text \<open>A task without link gets its initial priorities.\<close>

lemma dormant_upd_consistent:
  assumes c: "consistent k" and e: "exists_task k t" and d: "tstat (task k t) = TS_DORMANT" "tstat (f (task k t)) = TS_DORMANT"
    and p: "priority (f (task k t)) < TNUM_TPRI" "bpriority (f (task k t)) < TNUM_TPRI"
  shows "consistent (upd_task t f k)"
proof -
  have L: "loc k t = None" and nt: "\<not> timed k t" using e d by (auto simp: loc_def exists_task_def timed_def)
  have "prio_ok (upd_task t f k) t" using consistentD(4) [OF c, of t] p others_sel [OF others_ts(7)] by (simp add: prio_ok_def)
  then have "limbo t (upd_task t f k)" by (rule limbo_upd_task [OF limbo_plain [OF c L e nt]])
  then show ?thesis by (rule limbo_idle) (simp add: d)
qed

lemma dormant_upd_midway:
  assumes m: "midway k" and e: "exists_task k t" and d: "tstat (task k t) = TS_DORMANT" "tstat (f (task k t)) = TS_DORMANT"
    and p: "priority (f (task k t)) < TNUM_TPRI" "bpriority (f (task k t)) < TNUM_TPRI"
  shows "midway (upd_task t f k)"
proof (rule midway_others [OF m])
  show "\<not> running t k \<or> tstat (task (upd_task t f k) t) = TS_RUNNABLE" using d by (simp add: running_def)
  show "consistent (upd_task t f k)" using dormant_upd_consistent [OF midwayD [OF m] e d(1), of f] d p by simp
qed auto

lemma make_dormant_upd:
  "map_ts (make_dormant t) k = upd_task t (\<lambda>b. b\<lparr>tstat := TS_DORMANT, bpriority := ipriority (tinib (ts k) t),
     priority := ipriority (tinib (ts k) t), wupque := False, raster := False, enater := True\<rparr>) k"
  by (simp add: make_dormant_def upd_task_def map_ts_def)

lemma make_dormant_midway:
  assumes m: "midway k" and e: "exists_task k t" and d: "tstat (task k t) = TS_DORMANT"
  shows "midway (map_ts (make_dormant t) k)"
  unfolding make_dormant_upd
  using consistentD(4) [OF midwayD [OF m], of t] e by (intro dormant_upd_midway [OF m e d]) (simp_all add: prio_ok_def)

lemma mtx_ok_reset:
  assumes ok: "mtx_ok Q (insert t X) k" and o: "owned k t = {}" and q: "\<And>m. t \<notin> set (queue_of k (MtxW m))"
    and f: "p_lastmtx (f (task k t)) = p_lastmtx (task k t)" "priority (f (task k t)) = bpriority (f (task k t))"
  shows "mtx_ok Q X (upd_task t f k)"
proof -
  let ?k = "upd_task t f k"
  have tab: "mtxinib ?k = mtxinib k" "mtxcb ?k = mtxcb k" "free_mtxcb ?k = free_mtxcb k" "tmax_mtxid ?k = tmax_mtxid k"
    "tmax_tskid ?k = tmax_tskid k" by (simp_all add: upd_task_def map_ts_def)
  have ex: "mtx_exists ?k = mtx_exists k" "MTX_CEILING ?k = MTX_CEILING k" "owned ?k = owned k" "exists_task ?k = exists_task k"
    by (auto simp: fun_eq_iff mtx_exists_def MTX_CEILING_def MTXPROTO_def owned_def exists_task_def tab)
  have tk: "task ?k u = (if u = t then f (task k t) else task k u)" for u by simp
  show ?thesis
    unfolding mtx_ok_def
  proof (intro conjI allI impI)
    show "mtx_tables ?k" using mtx_okD(1) [OF ok] by (simp add: mtx_tables_def ex tab)
    show "\<exists>xs. holds ?k u xs" for u using mtx_okD(2) [OF ok, of u] f by (auto simp: holds_def ex tab tk)
    show "exists_task ?k u" "u \<notin> X \<Longrightarrow> tstat (task ?k u) \<noteq> TS_DORMANT" if "owned ?k u \<noteq> {}" for u
      using mtx_okD(3,4) [OF ok, of u] that o by (auto simp: ex tk)
    show "mtx_exists ?k m" "m \<notin> Q \<Longrightarrow> p_loctsk (mtxcb ?k m) \<noteq> None" if "queue_of ?k (MtxW m) \<noteq> []" for m
      using mtx_okD(5,6) [OF ok, of m] that by (simp_all add: ex tab)
    show "ceilpri (mtxinib ?k m) \<le> bpriority (task ?k u)"
      if "(m \<in> owned ?k u \<or> u \<in> set (queue_of ?k (MtxW m))) \<and> MTX_CEILING ?k m" for u m
      using mtx_okD(7) [OF ok, of m u] that o q by (auto simp: ex tab tk)
    show "priority (task ?k u) = protocol_priority ?k u" if "exists_task ?k u \<and> u \<notin> X" for u
      using mtx_okD(8) [OF ok, of u] that o f by (cases "u = t") (simp_all add: protocol_priority_def ex tab tk)
  qed
qed

text \<open>A dormant task is activated.\<close>

lemma make_active_upd: "map_ts (make_active t) k = map_ts (make_runnable t) (set_tstat t TS_RUNNABLE k)"
  by (simp add: make_active_def set_tstat_def upd_task_def map_ts_def)

lemma make_runnable_midway:
  assumes m: "midway k" and e: "exists_task k t" and d: "tstat (task k t) = TS_DORMANT \<or> tstat (task k t) = TS_SUSPENDED"
  shows "midway (map_ts (make_runnable t) (set_tstat t TS_RUNNABLE k))"
proof (rule midway_others [OF m])
  have c: "consistent k" by (rule midwayD [OF m])
  have "loc k t = None" "\<not> timed k t" using e d by (auto simp: loc_def exists_task_def timed_def)
  then have l: "limbo t k" by (intro limbo_plain [OF c _ e])
  have "limbo t (set_tstat t TS_RUNNABLE k)" unfolding set_tstat_def by (rule limbo_upd [OF l]) simp_all
  then show "consistent (map_ts (make_runnable t) (set_tstat t TS_RUNNABLE k))" by (rule limbo_run) (simp add: set_tstat_def)
  show "\<not> running t k \<or> tstat (task (map_ts (make_runnable t) (set_tstat t TS_RUNNABLE k)) t) = TS_RUNNABLE" by simp
qed (auto simp: set_tstat_def)

lemma make_active_midway:
  "midway k \<Longrightarrow> exists_task k t \<Longrightarrow> tstat (task k t) = TS_DORMANT \<Longrightarrow> midway (map_ts (make_active t) k)"
  unfolding make_active_upd by (rule make_runnable_midway) simp_all

lemma make_active_frame [frame]:
  "keeps K k k' \<Longrightarrow> keeps K k (map_ts (make_active t) k')" "prio_frame X k k' \<Longrightarrow> prio_frame X k (map_ts (make_active t) k')"
  unfolding make_active_upd by (auto intro!: frame)

section \<open>The end of a task\<close>

lemma mutex_release_all_idle: "p_lastmtx (task k t) = None \<Longrightarrow> mutex_release_all t k = k"
  by (simp add: mutex_release_all_def mtx_fuel_def)

lemma task_terminate_eq:
  assumes m: "midway k" and e: "exists_task k t" and r: "running t k \<Longrightarrow> dspflg (ts k) \<and> \<not> sense_context k"
  shows "task_terminate t k =
    (let k3 = map_ts (make_dormant t) (mutex_release_all t (set_tstat t TS_DORMANT (unlink_task t k)))
     in if actque (task k3 t) then map_ts (make_active t) (upd_task t (\<lambda>b. b\<lparr>actque := False\<rparr>) k3) else k3)"
proof -
  define k1 where "k1 = unlink_task t k"
  have c: "consistent (set_tstat t TS_DORMANT k1)"
    unfolding k1_def by (rule midwayD [OF unlink_task_midway [OF m e r]]) simp_all
  have "loc (set_tstat t TS_DORMANT k1) t \<noteq> Some (WaitQ w)" for w by (simp add: loc_def)
  then have q: "t \<notin> set (queue_of k1 w)" for w using core_in_queue [OF consistentD(1) [OF c], of t "WaitQ w"] by simp
  have "map_ts (make_dormant t) (set_tstat t TS_DORMANT k) = map_ts (make_dormant t) k" for k
    by (simp add: make_dormant_upd set_tstat_def) (simp add: upd_task_def upd_tcb_def map_ts_def)
  then have "map_ts (make_dormant t) (mutex_release_all t (set_tstat t TS_DORMANT k1)) = map_ts (make_dormant t) (mutex_release_all t k1)"
    by (simp add: mutex_release_all_tstat q)
  moreover have "(if p_lastmtx (task k1 t) \<noteq> None then mutex_release_all t k1 else k1) = mutex_release_all t k1"
    by (simp add: mutex_release_all_idle)
  ultimately show ?thesis
    unfolding task_terminate_def Let_def unlink_task_def [of t k, symmetric] k1_def [symmetric] by simp
qed

text \<open>
  \<open>released t k k'\<close>: the task has left its queues and given back its mutexes; everything else about
  it is as before.
\<close>

lemma release_dormant:
  assumes ok: "mtx_inv k" and m: "midway k" and e: "exists_task k t" and r: "running t k \<Longrightarrow> dspflg (ts k) \<and> \<not> sense_context k"
  defines "k' \<equiv> mutex_release_all t (set_tstat t TS_DORMANT (unlink_task t k))"
  shows "mtx_ok {} {t} k'" "midway k'" "owned k' t = {}" "task k' t = (task k t)\<lparr>tstat := TS_DORMANT, p_lastmtx := None\<rparr>"
    "\<And>w. t \<notin> set (queue_of k' w)" "\<And>w. set (queue_of k' w) \<subseteq> set (queue_of k w)" "exists_task k' t"
    "hands_over t (owned k t) (set_tstat t TS_DORMANT (unlink_task t k)) k'"
proof -
  define k1 where "k1 = set_tstat t TS_DORMANT (unlink_task t k)"
  have m1: "midway k1" unfolding k1_def by (rule unlink_task_midway [OF m e r]) simp_all
  have t1: "task k1 t = (task k t)\<lparr>tstat := TS_DORMANT\<rparr>" by (simp add: k1_def unlink_task_frame)
  have "loc k1 t \<noteq> Some (WaitQ w)" for w by (simp add: loc_def t1)
  then have q1: "t \<notin> set (queue_of k1 w)" for w using core_in_queue [OF consistentD(1) [OF midwayD [OF m1]], of t "WaitQ w"] by simp
  have ke: "keeps K k k1" for K unfolding k1_def by (intro frame unlink_task_frame)
  have u: "task k1 u = task k u" if "u \<noteq> t" for u using that by (simp add: k1_def unlink_task_frame)
  have "p_lastmtx (task k1 u) = p_lastmtx (task k u)" "bpriority (task k1 u) = bpriority (task k u)"
    "u \<notin> {t} \<Longrightarrow> task k1 u = task k u" for u using t1 u by (cases "u = t"; simp)+
  moreover have "tmax_tskid k1 = tmax_tskid k" "tinib (ts k1) = tinib (ts k)"
    using others_sel(1,2) [OF unlink_task_frame(1) [of t k]] by (simp_all add: k1_def)
  ultimately have pf: "prio_frame {t} k k1" by (simp add: prio_frame_def)
  have ok1: "mtx_ok {} {t} k1" by (rule mtx_ok_frame [OF ok ke pf]) simp
  note ra = mutex_release_all_ok [OF ok1 m1 q1, folded k'_def [folded k1_def]]
  have "owned k1 t = owned k t" using ke by (rule keeps_KMtx(8))
  then show "hands_over t (owned k t) (set_tstat t TS_DORMANT (unlink_task t k)) k'"
    using release_all_hands_over [OF ok1 m1 q1] by (simp add: k'_def k1_def)
  show "mtx_ok {} {t} k'" "midway k'" "owned k' t = {}" by (rule ra)+
  show t': "task k' t = (task k t)\<lparr>tstat := TS_DORMANT, p_lastmtx := None\<rparr>" using ra(5) t1 by simp
  show "t \<notin> set (queue_of k' w)" for w using ra(6) q1 by blast
  show "set (queue_of k' w) \<subseteq> set (queue_of k w)" for w
  proof -
    have "set (queue_of k1 w) \<subseteq> set (queue_of k w)" using ke [of "kind_of w"] by (simp add: keeps_def)
    then show ?thesis using ra(6) [of w] by blast
  qed
  have rx: "exists_task (release_all_loop n t kk) = exists_task kk" for n kk
  proof (induction n arbitrary: kk)
    case (Suc n)
    have "exists_task (mutex_release m kk) = exists_task kk" for m kk
      by (auto simp: mutex_release_def Let_def case_prod_unfold fun_eq_iff exists_task_def make_non_wait_def set_tstat_def
          set_lastmtx_def set_wercd_def upd_winfo_def upd_task_def map_ts_def map_tm_def upd_mtxcb_def wait_dequeue_tmevtb_def take_waiter_def
          split: winfo_u.split option.split)
    moreover have "exists_task (set_lastmtx t p kk) = exists_task kk" for p kk by (simp add: fun_eq_iff exists_task_def)
    ultimately show ?case using Suc by (simp split: option.split)
  qed simp
  have "exists_task k1 t" using e pf by (simp add: prio_frame_exists)
  then show "exists_task k' t" by (simp add: k'_def k1_def [symmetric] mutex_release_all_def rx)
qed

lemma task_terminate_ok:
  assumes ok: "mtx_inv k" and m: "midway k" and e: "exists_task k t" and r: "running t k \<Longrightarrow> dspflg (ts k) \<and> \<not> sense_context k"
  shows "mtx_inv (task_terminate t k)" "midway (task_terminate t k)" "\<And>w. set (queue_of (task_terminate t k) w) \<subseteq> set (queue_of k w)"
    "p_lastmtx (task (task_terminate t k) t) = None" "owned (task_terminate t k) t = {}"
    "tstat (task (task_terminate t k) t) = (if actque (task k t) then TS_RUNNABLE else TS_DORMANT)"
    "priority (task (task_terminate t k) t) = ipriority (tinib (ts k) t)"
proof -
  define k2 where "k2 = mutex_release_all t (set_tstat t TS_DORMANT (unlink_task t k))"
  note d = release_dormant [OF ok m e r, folded k2_def]
  define k3 where "k3 = map_ts (make_dormant t) k2"
  have t2: "tstat (task k2 t) = TS_DORMANT" by (simp add: d(4))
  have m3: "midway k3" unfolding k3_def by (rule make_dormant_midway [OF d(2,7) t2])
  have ok3: "mtx_inv k3" unfolding k3_def make_dormant_upd by (rule mtx_ok_reset [OF d(1,3) d(5)]) simp_all
  have tin: "tinib (ts k2) = tinib (ts k)"
  proof -
    have "tinib (ts (mutex_release m kk)) = tinib (ts kk)" for m kk
      by (auto simp: mutex_release_def Let_def case_prod_unfold make_non_wait_def set_tstat_def
          set_lastmtx_def set_wercd_def upd_winfo_def wait_dequeue_tmevtb_def take_waiter_def split: winfo_u.split option.split)
    then have "tinib (ts (release_all_loop n t kk)) = tinib (ts kk)" for n kk
      by (induction n arbitrary: kk) (simp_all split: option.split)
    then show ?thesis using others_sel(2) [OF unlink_task_frame(1)] by (simp add: k2_def mutex_release_all_def)
  qed
  have t3: "tstat (task k3 t) = TS_DORMANT" "actque (task k3 t) = actque (task k t)" "p_lastmtx (task k3 t) = None"
    "priority (task k3 t) = ipriority (tinib (ts k) t)" by (simp_all add: k3_def make_dormant_upd d(4) tin)
  have e3: "exists_task k3 t" using d(7) by (simp add: k3_def make_dormant_upd exists_task_def) (simp add: upd_task_def map_ts_def)
  have q3: "set (queue_of k3 w) \<subseteq> set (queue_of k w)" for w using d(6) by (simp add: k3_def make_dormant_upd)
  have o3: "owned k3 t = {}" using d(3) by (simp add: k3_def make_dormant_upd owned_def mtx_exists_def) (simp add: upd_task_def map_ts_def)
  define k4 where "k4 = upd_task t (\<lambda>b. b\<lparr>actque := False\<rparr>) k3"
  have m4: "midway k4" unfolding k4_def by (rule upd_task_midway [OF m3]) simp_all
  have ke4: "keeps KMtx k3 (map_ts (make_active t) k4)" unfolding k4_def by (intro frame) simp
  have pf4: "prio_frame {} k3 (map_ts (make_active t) k4)" unfolding k4_def by (intro frame prio_frame_upd_task) simp_all
  have e4: "exists_task k4 t" using e3 by (simp add: k4_def exists_task_def) (simp add: upd_task_def map_ts_def)
  have m5: "midway (map_ts (make_active t) k4)" by (rule make_active_midway [OF m4 e4]) (simp add: k4_def t3)
  have eq: "task_terminate t k = (if actque (task k t) then map_ts (make_active t) k4 else k3)"
    using task_terminate_eq [OF m e r] by (simp add: Let_def k2_def [symmetric] k3_def [symmetric] t3 k4_def)
  show "mtx_inv (task_terminate t k)" using ok3 mtx_inv_keeps [OF ok3 ke4 pf4] by (simp add: eq)
  show "midway (task_terminate t k)" using m3 m5 by (simp add: eq)
  show "set (queue_of (task_terminate t k) w) \<subseteq> set (queue_of k w)" for w
    using q3 by (simp add: eq make_active_upd k4_def)
  have "owned (map_ts (make_active t) k4) t = owned k3 t" using keeps_KMtx(8) [OF ke4] by blast
  then show "owned (task_terminate t k) t = {}" using o3 by (simp add: eq)
  show "p_lastmtx (task (task_terminate t k) t) = None"
    "tstat (task (task_terminate t k) t) = (if actque (task k t) then TS_RUNNABLE else TS_DORMANT)"
    "priority (task (task_terminate t k) t) = ipriority (tinib (ts k) t)"
    by (simp_all add: eq t3 make_active_def k4_def)
qed

text \<open>What it hands over: \<open>heirs\<close>, the tasks other than \<open>t\<close> that wait for a mutex, in the order of the queue.\<close>

lemma unlink_task_queue:
  assumes "consistent k" shows "queue_of (unlink_task t k) w = remove1 t (queue_of k w)"
proof -
  have "queue_of k w = remove1 t (queue_of k w)" if "\<not> TSTAT_WAIT_WOBJ (tstat (task k t)) \<or> \<not> TSTAT_WAITING (tstat (task k t))"
  proof -
    have "t \<notin> set (queue_of k w)" using queue_member_waiting(1,2) [OF assms, of t w] that by blast
    then show ?thesis by (simp add: remove1_idem)
  qed
  then show ?thesis
    by (simp add: unlink_task_def wait_dequeue_wobj_def wait_dequeue_tmevtb_def make_non_runnable_def queue_delete_task_def lq_delete_def
        primap_clear_def Let_def split: winfo_u.split option.split)
qed

definition heirs :: "kernel \<Rightarrow> nat \<Rightarrow> nat \<Rightarrow> nat list" where
  "heirs k t m = remove1 t (queue_of k (MtxW m))"

lemma task_terminate_hands_over:
  assumes ok: "mtx_inv k" and m: "midway k" and e: "exists_task k t" and r: "running t k \<Longrightarrow> dspflg (ts k) \<and> \<not> sense_context k"
  shows "i \<in> owned k t \<Longrightarrow> heirs k t i = [] \<Longrightarrow> p_loctsk (mtxcb (task_terminate t k) i) = None"
    "i \<in> owned k t \<Longrightarrow> heirs k t i = u # us \<Longrightarrow> p_loctsk (mtxcb (task_terminate t k) i) = Some u \<and> queue_of (task_terminate t k) (MtxW i) = us \<and>
       \<not> TSTAT_WAITING (tstat (task (task_terminate t k) u)) \<and> w_u (p_winfo (task (task_terminate t k) u)) = Wercd E_OK"
    and task_terminate_others: "\<And>v. v \<noteq> t \<Longrightarrow> (\<And>i us. i \<in> owned k t \<Longrightarrow> heirs k t i \<noteq> v # us) \<Longrightarrow> task (task_terminate t k) v = task k v"
proof -
  define k1 where "k1 = set_tstat t TS_DORMANT (unlink_task t k)"
  define k2 where "k2 = mutex_release_all t k1"
  have h: "hands_over t (owned k t) k1 k2" using release_dormant(8) [OF ok m e r] by (simp add: k2_def k1_def)
  have q1: "queue_of k1 w = remove1 t (queue_of k w)" for w
    using unlink_task_queue [OF midwayD [OF m]] by (simp add: k1_def)
  have n1: "next_owner k1 j = (case heirs k t j of [] \<Rightarrow> None | u # us \<Rightarrow> Some u)" for j by (simp add: next_owner_def heirs_def q1)
  define k' where "k' = task_terminate t k"
  have f: "mtxcb k' = mtxcb k2" "queue_of k' w = queue_of k2 w" "v \<noteq> t \<Longrightarrow> task k' v = task k2 v" for w v
    by (simp_all add: k'_def task_terminate_eq [OF m e r] k1_def [symmetric] k2_def [symmetric] Let_def make_active_upd make_dormant_upd)
      (simp add: upd_task_def map_ts_def set_tstat_def)
  show "p_loctsk (mtxcb (task_terminate t k) i) = None" if "i \<in> owned k t" "heirs k t i = []"
    using h that by (simp add: k'_def [symmetric] f(1) hands_over_def n1)
  show "p_loctsk (mtxcb (task_terminate t k) i) = Some u \<and> queue_of (task_terminate t k) (MtxW i) = us \<and>
       \<not> TSTAT_WAITING (tstat (task (task_terminate t k) u)) \<and> w_u (p_winfo (task (task_terminate t k) u)) = Wercd E_OK"
    if mo: "i \<in> owned k t" and us: "heirs k t i = u # us"
  proof -
    have n: "next_owner k1 i = Some u" by (simp add: n1 us)
    have "t \<notin> set (heirs k t i)" unfolding heirs_def
      using core_distinct [OF consistentD(1) [OF midwayD [OF m]], of "WaitQ (MtxW i)"] by (simp only: set_remove1_eq) simp
    then have "u \<noteq> t" using us by auto
    moreover have "queue_of k1 (MtxW i) = u # us" using us q1 by (simp add: heirs_def)
    ultimately show ?thesis unfolding k'_def [symmetric] f using h mo n by (simp add: hands_over_def f(3))
  qed
  show "task (task_terminate t k) v = task k v" if v: "v \<noteq> t" "\<And>i us. i \<in> owned k t \<Longrightarrow> heirs k t i \<noteq> v # us" for v
  proof -
    have "\<forall>j\<in>owned k t. next_owner k1 j \<noteq> Some v" using v(2) by (auto simp: n1 split: list.splits)
    then have "task k2 v = task k1 v" using h v(1) by (simp add: hands_over_def)
    then show ?thesis using v(1) by (simp add: k'_def [symmetric] f(3)) (simp add: k1_def unlink_task_frame)
  qed
qed

lemma task_terminate_keeps [frame]: "K \<noteq> KMtx \<Longrightarrow> keeps K k k' \<Longrightarrow> keeps K k (task_terminate t k')"
  by (auto simp: task_terminate_def Let_def make_dormant_upd intro!: frame)

section \<open>The remaining transitions\<close>

lemma waiting_codes:
  assumes "valid_tstat st" "TSTAT_WAITING st" "st' = st OR TS_SUSPENDED \<or> st' = st AND NOT TS_SUSPENDED"
  shows "valid_tstat st'" "TSTAT_WAITING st'" "TSTAT_WAIT_WOBJ st' = TSTAT_WAIT_WOBJ st" "\<not> TSTAT_RUNNABLE st'" "\<not> TSTAT_RUNNABLE st"
    "st' AND NOT TS_SUSPENDED = st AND NOT TS_SUSPENDED" "st' \<noteq> TS_DORMANT"
proof -
  obtain c where c: "c \<in> set wait_codes" "st = c \<or> st = c OR TS_SUSPENDED"
    using assms(1,2) by (auto simp: valid_tstat_def TSTAT_WAITING_def)
  have "valid_tstat st' \<and> TSTAT_WAITING st' \<and> TSTAT_WAIT_WOBJ st' = TSTAT_WAIT_WOBJ st \<and> \<not> TSTAT_RUNNABLE st' \<and>
      \<not> TSTAT_RUNNABLE st \<and> st' AND NOT TS_SUSPENDED = st AND NOT TS_SUSPENDED \<and> st' \<noteq> TS_DORMANT"
    using c(1) unfolding wait_codes_def list.set insert_iff empty_iff
    by (elim disjE FalseE; use c(2) assms(3) in \<open>auto simp: valid_tstat_def wait_codes_def tstat_defs\<close>)
  then show "valid_tstat st'" "TSTAT_WAITING st'" "TSTAT_WAIT_WOBJ st' = TSTAT_WAIT_WOBJ st" "\<not> TSTAT_RUNNABLE st'" "\<not> TSTAT_RUNNABLE st"
    "st' AND NOT TS_SUSPENDED = st AND NOT TS_SUSPENDED" "st' \<noteq> TS_DORMANT" by blast+
qed

lemma waiting_tstat_midway:
  assumes m: "midway k" and w: "TSTAT_WAITING (tstat (task k t))"
    and st: "tstat (f (task k t)) = tstat (task k t) OR TS_SUSPENDED \<or> tstat (f (task k t)) = tstat (task k t) AND NOT TS_SUSPENDED"
    and f: "priority (f (task k t)) = priority (task k t)" "bpriority (f (task k t)) = bpriority (task k t)" "p_winfo (f (task k t)) = p_winfo (task k t)"
  shows "midway (upd_task t f k)"
proof (rule midway_others [OF m])
  have c: "consistent k" by (rule midwayD [OF m])
  let ?k = "upd_task t f k"
  have v: "valid_tstat (tstat (task k t))" "wait_ok t (task k t)" using consistentD(3) [OF c, of t] by (simp_all add: task_ok_def)
  note wc = waiting_codes [OF v(1) w st]
  have o: "others t k ?k" by auto
  have "timed ?k u = timed k u" for u using f w wc by (cases "u = t") (simp_all add: timed_def)
  then have "active ?k = active k" by (simp add: active_def others_sel(4,5) [OF o])
  moreover have "loc ?k u = loc k u" for u using f wc by (cases "u = t") (simp_all add: loc_def others_sel [OF o])
  then have "loc ?k = loc k" by (rule ext)
  moreover have "core (loc k) (ts ?k)" unfolding upd_task_def map_sel using consistentD(1) [OF c] f by (intro core_upd_tcb) simp_all
  moreover have "task_ok ?k u" for u
    using consistentD(3) [OF c, of u] f wc v waiting_exists [OF c w] w
    by (cases "u = t") (simp_all add: task_ok_def wait_ok_def others_sel [OF o])
  moreover have "prio_ok ?k u" for u using consistentD(4) [OF c, of u] f by (cases "u = t") (simp_all add: prio_ok_def others_sel [OF o])
  ultimately show "consistent ?k" using consistentD(2) [OF c] by (simp add: consistent_def)
  show "\<not> running t k \<or> tstat (task ?k t) = TS_RUNNABLE" using w by (auto simp: running_def)
qed auto

text \<open>Forced termination of a wait: the task becomes runnable even if it was suspended.\<close>

lemma ras_wake_midway:
  assumes m: "midway k" and w: "TSTAT_WAITING (tstat (task k t))"
  shows "midway (map_ts (make_runnable t) (set_tstat t TS_RUNNABLE
    (set_wercd t e (wait_dequeue_tmevtb t (wait_dequeue_wobj t k)))))"
proof (rule midway_others [OF m])
  have c: "consistent k" by (rule midwayD [OF m])
  have "limbo t (set_wercd t e (wait_dequeue_tmevtb t (wait_dequeue_wobj t k)))"
    by (intro set_wercd_limbo limbo_detached dequeue_detached [OF c w])
  then have "limbo t (set_tstat t TS_RUNNABLE (set_wercd t e (wait_dequeue_tmevtb t (wait_dequeue_wobj t k))))"
    unfolding set_tstat_def by (rule limbo_upd) simp_all
  then show "consistent (map_ts (make_runnable t) (set_tstat t TS_RUNNABLE (set_wercd t e (wait_dequeue_tmevtb t (wait_dequeue_wobj t k)))))"
    by (rule limbo_run) (simp add: set_tstat_def)
qed (auto simp: set_wercd_def upd_winfo_def set_tstat_def wait_dequeue_tmevtb_def wait_dequeue_wobj_def
  intro!: calm_steps others_after split: winfo_u.split option.split)

lemma wup_midway:
  assumes m: "midway k" and w: "TSTAT_WAIT_SLP (tstat (task k t))"
  shows "midway (wait_complete t k)"
proof -
  have v: "valid_tstat (tstat (task k t))" using consistentD(3) [OF midwayD [OF m], of t] by (simp add: task_ok_def)
  then have "TSTAT_WAITING (tstat (task k t))" "\<not> TSTAT_WAIT_WOBJ (tstat (task k t))"
    using w by (auto simp: valid_tstat_def wait_codes_def tstat_defs)
  then show ?thesis using release_waiting_midway [OF m, of t E_OK] by (simp add: wait_complete_def wait_dequeue_wobj_def)
qed

lemma dly_midway:
  assumes i: "in_task k" and d: "dspflg (ts k)"
  shows "midway (start_timer (runtsk k) cb tim (upd_task (runtsk k) (\<lambda>b. b\<lparr>p_winfo := fresh_winfo\<lparr>w_u := P_tmevtb (Some (TskTM (runtsk k)))\<rparr>\<rparr>)
    (map_ts (make_non_runnable (runtsk k)) (set_tstat (runtsk k) TS_WAITING_DLY k))))" (is "midway ?k")
proof -
  have c: "consistent k" and r: "running (runtsk k) k" and nc: "\<not> sense_context k"
    using i in_task_running [OF i] by (auto simp: in_task_def settled_def)
  have st: "TS_WAITING_DLY \<in> set wait_codes" "\<not> TSTAT_WAIT_WOBJ TS_WAITING_DLY" by (auto simp: wait_codes_def TSTAT_WAIT_WOBJ_def)
  have "waits (runtsk k) TS_WAITING_DLY fresh_winfo k ?k"
    by (rule go_waiting [OF c r st(1), where F = "start_timer (runtsk k) cb tim"]) simp
  then have "consistent ?k" by (rule waits_plain_consistent [OF _ st])
  then show ?thesis using d nc by (simp add: midway_def start_timer_def set_tstat_def)
qed

section \<open>The service calls keep the scheduler and the mutexes in order\<close>

lemma task_exists_live: "consistent k \<Longrightarrow> tstat (task k t) \<noteq> TS_DORMANT \<Longrightarrow> exists_task k t"
  using consistentD(3) [of k t] by (auto simp: task_ok_def)

lemma in_task_not_ctx: "in_task k \<Longrightarrow> \<not> sense_context k"
  by (simp add: in_task_def)

lemma mtx_inv_frame:
  assumes "mtx_inv k" "keeps KMtx (lock_cpu k) k'" "prio_frame {} (lock_cpu k) k'" shows "mtx_inv k'"
proof -
  have "mtx_inv (lock_cpu k)" using assms(1) by simp
  then show ?thesis by (rule mtx_inv_keeps [OF _ assms(2,3)])
qed

lemma lock_cpu_sel [simp]:
  "exists_task (lock_cpu k) = exists_task k" "runtsk (lock_cpu k) = runtsk k" "tmax_tskid (lock_cpu k) = tmax_tskid k"
  by (simp_all add: fun_eq_iff exists_task_def runtsk_def lock_cpu_def)

text \<open>A service call is made by a task or by an interrupt handler.\<close>

definition called :: "kernel \<Rightarrow> bool" where
  "called k \<longleftrightarrow> settled k \<and> (sense_context k \<or> p_runtsk (ts k) \<noteq> None)"

lemma called_settled: "called k \<Longrightarrow> settled k"
  by (simp add: called_def)

lemma in_task_called: "in_task k \<Longrightarrow> called k"
  by (simp add: in_task_def called_def)

lemma called_task: "called k \<Longrightarrow> \<not> ctx_error k \<Longrightarrow> in_task k"
  by (simp add: called_def in_task_def ctx_error_def)

lemma running_exists: "in_task k \<Longrightarrow> exists_task k (runtsk k) \<and> int (runtsk k) < tmax_tskid k"
  using in_task_running [of k] consistentD(3) [OF settledD [OF in_task_settled], of k "runtsk k"]
  by (auto simp: running_def task_ok_def exists_task_def)

lemma task_of_range:
  "task_of tskid k = Some t \<Longrightarrow> in_task k \<Longrightarrow> int t < tmax_tskid k"
  "task_of_any tskid k = Some t \<Longrightarrow> called k \<Longrightarrow> int t < tmax_tskid k"
proof -
  have v: "VALID_ID (tmax_tskid k) i \<Longrightarrow> int (INDEX i) < tmax_tskid k" for i by (simp add: VALID_ID_def INDEX_def)
  show "task_of tskid k = Some t \<Longrightarrow> in_task k \<Longrightarrow> int t < tmax_tskid k"
    using v running_exists [of k] by (auto simp: task_of_def split: if_splits)
  show "task_of_any tskid k = Some t \<Longrightarrow> called k \<Longrightarrow> int t < tmax_tskid k"
    using v running_exists [of k] by (auto simp: task_of_any_def called_def in_task_def split: if_splits)
qed

text \<open>The calls that touch neither priorities nor mutexes.\<close>

lemma task_calls_settled [pres]:
  shows "called k \<Longrightarrow> settled (snd (act_tsk tskid k))" "settled k \<Longrightarrow> settled (snd (can_act tskid k))"
    "settled k \<Longrightarrow> settled (snd (fst (get_tst tskid k)))" "settled k \<Longrightarrow> settled (snd (fst (get_pri tskid k)))"
    "settled k \<Longrightarrow> settled (snd (fst (get_inf k)))" "settled k \<Longrightarrow> settled (snd (dis_ter k))"
    "in_task k \<Longrightarrow> settled (snd (slp_tsk k))" "in_task k \<Longrightarrow> settled (snd (tslp_tsk tmout k))"
    "settled k \<Longrightarrow> settled (snd (wup_tsk tskid k))" "settled k \<Longrightarrow> settled (snd (can_wup tskid k))"
    "settled k \<Longrightarrow> settled (snd (rel_wai tskid k))" "in_task k \<Longrightarrow> settled (snd (dly_tsk dlytim k))"
proof -
  have u: "settled (upd_task t f k)" if "settled k" "\<And>b. tstat (f b) = tstat b" "\<And>b. priority (f b) = priority b"
    "\<And>b. bpriority (f b) = bpriority b" "\<And>b. p_winfo (f b) = p_winfo b" for t f k
  proof -
    have "midway (upd_task t f k)" using settled_midway [OF that(1)] by (rule upd_task_midway) (use that in simp_all)
    moreover have "running v (upd_task t f k)" if "running v k" for v
      using that \<open>\<And>b. tstat (f b) = tstat b\<close> by (cases "v = t") (simp_all add: running_def)
    ultimately show ?thesis using that(1) by (simp add: settled_def midway_def)
  qed
  show "called k \<Longrightarrow> settled (snd (act_tsk tskid k))"
    using lock_entry [of k] called_settled [of k] task_of_range(2) [of tskid k]
    by (auto simp: act_tsk_def Let_def exists_task_def TSTAT_DORMANT_def intro!: dispatch_or_request_settled make_active_midway u split: option.split)
  show "settled k \<Longrightarrow> settled (snd (can_act tskid k))"
    using lock_entry [of k] by (auto simp: can_act_def Let_def intro!: u split: option.split)
  show "settled k \<Longrightarrow> settled (snd (fst (get_tst tskid k)))" "settled k \<Longrightarrow> settled (snd (fst (get_pri tskid k)))"
    "settled k \<Longrightarrow> settled (snd (fst (get_inf k)))"
    using lock_entry [of k] by (auto simp: get_tst_def get_pri_def get_inf_def Let_def split: option.split)
  show "settled k \<Longrightarrow> settled (snd (dis_ter k))"
    using lock_entry [of k] by (auto simp: dis_ter_def Let_def intro!: u)
  show "in_task k \<Longrightarrow> settled (snd (slp_tsk k))"
    using lock_entry_task [of k] by (auto simp: slp_tsk_def Let_def dispatch_error_def intro!: pres u)
  show "in_task k \<Longrightarrow> settled (snd (tslp_tsk tmout k))"
    using lock_entry_task [of k] by (auto simp: tslp_tsk_def Let_def dispatch_error_def intro!: pres u)
  show "settled k \<Longrightarrow> settled (snd (wup_tsk tskid k))"
    using lock_entry [of k] by (auto simp: wup_tsk_def Let_def intro!: dispatch_or_request_settled wup_midway u split: option.split)
  show "settled k \<Longrightarrow> settled (snd (can_wup tskid k))"
    using lock_entry [of k] by (auto simp: can_wup_def Let_def intro!: u split: option.split)
  show "settled k \<Longrightarrow> settled (snd (rel_wai tskid k))"
    using lock_entry [of k] by (auto simp: rel_wai_def Let_def intro!: dispatch_or_request_settled release_waiting_midway)
  show "in_task k \<Longrightarrow> settled (snd (dly_tsk dlytim k))"
    using lock_entry_task [of k] dly_midway [of "lock_cpu k"]
    by (auto simp: dly_tsk_def Let_def dispatch_error_def intro!: block_settled)
qed

section \<open>The calls on priorities and the end of tasks\<close>

lemma orderly_switch:
  assumes "mtx_inv k" "midway k"
  shows "mtx_inv (dispatch_if_needed k)" "settled (dispatch_if_needed k)" "mtx_inv (dispatch k)" "settled (dispatch k)"
  by (auto intro!: mtx_inv_keeps [OF assms(1)] frame dispatch_if_needed_settled dispatch_settled assms(2))

lemma mtx_inv_leave [simp]: "mtx_ok Q X (snd (leave e k)) = mtx_ok Q X k" "mtx_ok Q X (snd (leave_uint n k)) = mtx_ok Q X k"
  by (simp_all add: leave_def leave_uint_def)

lemma ter_tsk_inv:
  assumes "mtx_inv k" "settled k"
  shows "mtx_inv (snd (ter_tsk tskid k))" "settled (snd (ter_tsk tskid k))"
proof -
  have l: "mtx_inv (lock_cpu k)" "midway (lock_cpu k)" "settled (lock_cpu k)" using assms lock_entry by simp_all
  have "mtx_inv (dispatch_if_needed (task_terminate t (lock_cpu k))) \<and> settled (dispatch_if_needed (task_terminate t (lock_cpu k)))"
    if "p_runtsk (ts k) \<noteq> Some t" "tstat (task k t) \<noteq> TS_DORMANT" for t
  proof -
    have e: "exists_task (lock_cpu k) t" using task_exists_live [OF settledD [OF assms(2)] that(2)] by simp
    note tt = task_terminate_ok [OF l(1,2) e]
    have "mtx_inv (task_terminate t (lock_cpu k))" "midway (task_terminate t (lock_cpu k))"
      using that(1) by (auto intro!: tt simp: running_def)
    then show ?thesis by (simp add: orderly_switch)
  qed
  then show "mtx_inv (snd (ter_tsk tskid k))" "settled (snd (ter_tsk tskid k))"
    using assms l by (auto simp: ter_tsk_def Let_def TSTAT_DORMANT_def)
qed

lemma set_raster_inv:
  assumes "mtx_inv k" "midway k" "\<And>b. tstat (f b) = tstat b" "\<And>b. priority (f b) = priority b"
    "\<And>b. bpriority (f b) = bpriority b" "\<And>b. p_winfo (f b) = p_winfo b" "\<And>b. p_lastmtx (f b) = p_lastmtx b"
  shows "mtx_inv (upd_task t f k)" "midway (upd_task t f k)"
proof -
  show "midway (upd_task t f k)" using assms(2-6) by (rule upd_task_midway)
  show "mtx_inv (upd_task t f k)"
    by (rule mtx_inv_keeps [OF assms(1)]) (auto intro!: prio_frame_upd_task simp: assms(3-7))
qed

lemma ras_ter_inv:
  assumes "mtx_inv k" "settled k"
  shows "mtx_inv (snd (ras_ter tskid k))" "settled (snd (ras_ter tskid k))"
proof -
  have l: "mtx_inv (lock_cpu k)" "midway (lock_cpu k)" "settled (lock_cpu k)" using assms lock_entry by simp_all
  have fin: "mtx_inv (dispatch_if_needed (task_terminate t (lock_cpu k))) \<and> settled (dispatch_if_needed (task_terminate t (lock_cpu k)))"
    if "p_runtsk (ts k) \<noteq> Some t" "tstat (task k t) \<noteq> TS_DORMANT" for t
  proof -
    have e: "exists_task (lock_cpu k) t" using task_exists_live [OF settledD [OF assms(2)] that(2)] by simp
    note tt = task_terminate_ok [OF l(1,2) e]
    have "mtx_inv (task_terminate t (lock_cpu k))" "midway (task_terminate t (lock_cpu k))"
      using that(1) by (auto intro!: tt simp: running_def)
    then show ?thesis by (simp add: orderly_switch)
  qed
  define k2 where "k2 t = upd_task t (\<lambda>b. b\<lparr>raster := True\<rparr>) (lock_cpu k)" for t
  have m2: "mtx_inv (k2 t)" "midway (k2 t)" for t unfolding k2_def by (rule set_raster_inv [OF l(1,2)]; simp)+
  have s2: "settled (k2 t)" for t
  proof -
    have "running v (k2 t) = running v (lock_cpu k)" for v by (cases "v = t") (simp_all add: k2_def running_def)
    then show ?thesis using l(3) m2(2) [of t] by (simp add: settled_def midway_def k2_def)
  qed
  have wake: "mtx_inv (dispatch_if_needed (map_ts (make_runnable t) (set_tstat t TS_RUNNABLE (set_wercd t E_RASTER (wait_dequeue_tmevtb t (wait_dequeue_wobj t (k2 t))))))) \<and>
     settled (dispatch_if_needed (map_ts (make_runnable t) (set_tstat t TS_RUNNABLE (set_wercd t E_RASTER (wait_dequeue_tmevtb t (wait_dequeue_wobj t (k2 t)))))))"
    if "TSTAT_WAITING (tstat (task (k2 t) t))" for t
    using ras_wake_midway [OF m2(2) that] by (auto intro!: orderly_switch mtx_inv_keeps [OF m2(1)] frame)
  have res: "mtx_inv (dispatch_if_needed (map_ts (make_runnable t) (set_tstat t TS_RUNNABLE (k2 t)))) \<and>
     settled (dispatch_if_needed (map_ts (make_runnable t) (set_tstat t TS_RUNNABLE (k2 t))))"
    if "\<not> TSTAT_WAITING (tstat (task (k2 t) t))" "\<not> TSTAT_RUNNABLE (tstat (task (k2 t) t))" "tstat (task k t) \<noteq> TS_DORMANT" for t
  proof -
    have v: "valid_tstat (tstat (task (k2 t) t))" using consistentD(3) [OF midwayD [OF m2(2)], of t t] by (simp add: task_ok_def)
    have st: "tstat (task (k2 t) t) = TS_DORMANT \<or> tstat (task (k2 t) t) = TS_SUSPENDED"
      using that(1,2) valid_tstat_cases(1,2) [OF v] by blast
    have e: "exists_task (k2 t) t" using task_exists_live [OF midwayD [OF m2(2)]] that(3) by (simp add: k2_def)
    show ?thesis using make_runnable_midway [OF m2(2) e st] by (auto intro!: orderly_switch mtx_inv_keeps [OF m2(1)] frame)
  qed
  let ?t = "INDEX tskid"
  have "mtx_inv (snd (ras_ter tskid k)) \<and> settled (snd (ras_ter tskid k))"
  proof (cases "ctx_error k \<or> \<not> VALID_ID (tmax_tskid k) tskid \<or> p_runtsk (ts k) = Some ?t \<or> tsk_atr k ?t = TA_NOEXS \<or>
      tstat (task k ?t) = TS_DORMANT \<or> enater (task k ?t)")
    case True
    then show ?thesis using assms l fin [of ?t] by (auto simp: ras_ter_def Let_def TSTAT_DORMANT_def)
  next
    case False
    then have "ras_ter tskid k = leave E_OK (if \<not> TSTAT_RUNNABLE (tstat (task (k2 ?t) ?t)) then
        dispatch_if_needed (map_ts (make_runnable ?t) (set_tstat ?t TS_RUNNABLE
          (if TSTAT_WAITING (tstat (task (k2 ?t) ?t)) then set_wercd ?t E_RASTER (wait_dequeue_tmevtb ?t (wait_dequeue_wobj ?t (k2 ?t))) else k2 ?t)))
        else k2 ?t)"
      by (simp only: ras_ter_def Let_def k2_def TSTAT_DORMANT_def) simp
    then show ?thesis using False m2(1) s2 wake [of ?t] res [of ?t] by simp
  qed
  then show "mtx_inv (snd (ras_ter tskid k))" "settled (snd (ras_ter tskid k))" by simp_all
qed


lemma settled_upd_task:
  assumes s: "settled k" and c: "consistent (upd_task t f k)" and f: "tstat (f (task k t)) = tstat (task k t)"
  shows "settled (upd_task t f k)"
proof -
  have "running v (upd_task t f k) = running v k" for v using f by (cases "v = t") (simp_all add: running_def)
  then show ?thesis using s c by (simp add: settled_def)
qed

lemma midway_upd_task:
  assumes m: "midway k" and c: "consistent (upd_task t f k)" and f: "tstat (f (task k t)) = tstat (task k t)"
  shows "midway (upd_task t f k)"
proof -
  have "running v (upd_task t f k) = running v k" for v using f by (cases "v = t") (simp_all add: running_def)
  then show ?thesis using m c by (simp add: midway_def)
qed

text \<open>The end of the running task: dispatching is allowed again before the task is taken off.\<close>

lemma consistent_enadsp [simp]: "consistent (map_ts (\<lambda>s. s\<lparr>enadsp := b\<rparr>) k) = consistent k"
proof (rule consistent_cong)
  show "core (loc k) (ts (map_ts (\<lambda>s. s\<lparr>enadsp := b\<rparr>) k)) \<longleftrightarrow> core (loc k) (ts k)"
    using is_top_cong [of "(ts k)\<lparr>enadsp := b\<rparr>" "ts k"] by (simp add: core_defs)
qed auto

lemma enadsp_frame [simp]:
  "mtx_ok Q X (map_ts (\<lambda>s. s\<lparr>enadsp := b\<rparr>) k) = mtx_ok Q X k" "running t (map_ts (\<lambda>s. s\<lparr>enadsp := b\<rparr>) k) = running t k"
  "mtx_ok Q X (k\<lparr>ipm := i\<rparr>) = mtx_ok Q X k" "running t (k\<lparr>ipm := i\<rparr>) = running t k" "consistent (k\<lparr>ipm := i\<rparr>) = consistent k"
  "mtx_ok Q X (k\<lparr>excpt_ctx := x\<rparr>) = mtx_ok Q X k"
proof -
  have e: "mtx_ok Q X k' = mtx_ok Q X k" if "tcb (ts k') = tcb (ts k)" "queues (ts k') = queues (ts k)" "tinib (ts k') = tinib (ts k)"
    "mtxinib k' = mtxinib k" "mtxcb k' = mtxcb k" "free_mtxcb k' = free_mtxcb k" "tmax_mtxid k' = tmax_mtxid k" "tmax_tskid k' = tmax_tskid k" for k'
  proof -
    have m: "mtx_exists k' = mtx_exists k" "MTX_CEILING k' = MTX_CEILING k" "owned k' = owned k" "exists_task k' = exists_task k"
      by (auto simp: fun_eq_iff mtx_exists_def MTX_CEILING_def MTXPROTO_def owned_def exists_task_def that)
    then show ?thesis by (simp add: mtx_ok_def mtx_tables_def holds_def protocol_priority_def that)
  qed
  show "mtx_ok Q X (map_ts (\<lambda>s. s\<lparr>enadsp := b\<rparr>) k) = mtx_ok Q X k" "mtx_ok Q X (k\<lparr>ipm := i\<rparr>) = mtx_ok Q X k"
    "mtx_ok Q X (k\<lparr>excpt_ctx := x\<rparr>) = mtx_ok Q X k"
    by (rule e; simp add: map_ts_def)+
  show "running t (map_ts (\<lambda>s. s\<lparr>enadsp := b\<rparr>) k) = running t k" "running t (k\<lparr>ipm := i\<rparr>) = running t k" by (simp_all add: running_def)
  show "consistent (k\<lparr>ipm := i\<rparr>) = consistent k" by (rule consistent_tables) (simp_all add: fun_eq_iff cyc_on_def alm_on_def)
qed

lemma set_dspflg_consistent:
  assumes c: "consistent k" and r: "running t k"
  shows "consistent (map_ts set_dspflg k)"
proof -
  have "exists_task k t" using task_exists_live [OF c, of t] r by (simp add: running_def)
  then have "loc k t = Some (ReadyQ (priority (task k t)))" using r by (simp add: loc_def exists_task_def running_def TSTAT_RUNNABLE_def)
  then have "core (loc k) (ts (map_ts set_dspflg k))" using set_dspflg_core [OF consistentD(1) [OF c]] by (simp add: map_ts_def) blast
  then show ?thesis using consistentD(1) [OF c] c by (subst consistent_cong) auto
qed

lemma exit_running_ok:
  assumes ok: "mtx_inv k" and c: "consistent k" and r: "running t k" and n: "\<not> sense_context k"
    and d: "dspflg (ts k)"
  shows "mtx_inv (exit_and_dispatch (task_terminate t k))" "settled (exit_and_dispatch (task_terminate t k))"
proof -
  have m: "midway k" using c d n by (simp add: midway_def)
  have e: "exists_task k t" using task_exists_live [OF c, of t] r by (simp add: running_def)
  note tt = task_terminate_ok [OF ok m e]
  have "mtx_inv (task_terminate t k)" "midway (task_terminate t k)" using d n by (auto intro!: tt)
  then show "mtx_inv (exit_and_dispatch (task_terminate t k))" "settled (exit_and_dispatch (task_terminate t k))"
    by (simp_all add: exit_and_dispatch_def orderly_switch)
qed

lemma ext_tsk_inv:
  assumes ok: "mtx_inv k" and i: "in_task k"
  shows "mtx_inv (snd (ext_tsk k))" "settled (snd (ext_tsk k))"
proof -
  define k1 where "k1 = (if sense_lock k then k else lock_cpu k)"
  define k2 where "k2 = (if \<not> dspflg (ts k1) then
      map_ts set_dspflg (let k = (if \<not> enadsp (ts k1) then map_ts (\<lambda>s. s\<lparr>enadsp := True\<rparr>) k1 else k1)
        in if t_get_ipm k \<noteq> TIPM_ENAALL then t_set_ipm TIPM_ENAALL k else k) else k1)"
  have k1: "mtx_inv k1" "consistent k1" "running (runtsk k1) k1" "\<not> sense_context k1"
    using ok in_task_running [OF i] settledD [OF in_task_settled [OF i]] in_task_not_ctx [OF i]
    by (auto simp: k1_def running_def)
  have k2: "mtx_inv k2 \<and> consistent k2 \<and> running (runtsk k1) k2 \<and> \<not> sense_context k2 \<and> runtsk k2 = runtsk k1 \<and> dspflg (ts k2)"
  proof (cases "dspflg (ts k1)")
    case True
    then show ?thesis using k1 by (simp add: k2_def)
  next
    case False
    define k3 where "k3 = (let k = (if \<not> enadsp (ts k1) then map_ts (\<lambda>s. s\<lparr>enadsp := True\<rparr>) k1 else k1)
        in if t_get_ipm k \<noteq> TIPM_ENAALL then t_set_ipm TIPM_ENAALL k else k)"
    have k3: "mtx_inv k3" "consistent k3" "running (runtsk k1) k3" "\<not> sense_context k3" "p_runtsk (ts k3) = p_runtsk (ts k1)"
      using k1 by (simp_all add: k3_def Let_def t_set_ipm_def) (simp add: sense_context_def map_ts_def)
    have "mtx_inv (map_ts set_dspflg k3)" by (rule mtx_inv_keeps [OF k3(1)]) (auto intro!: frame)
    moreover have "consistent (map_ts set_dspflg k3)" by (rule set_dspflg_consistent [OF k3(2,3)])
    ultimately show ?thesis using False k3 by (simp add: k2_def k3_def [symmetric] running_def runtsk_def)
  qed
  have "ext_tsk k = (NoReturn, exit_and_dispatch (task_terminate (runtsk k2) k2))"
    using in_task_not_ctx [OF i] by (simp add: ext_tsk_def k1_def k2_def Let_def cong: if_cong)
  then show "mtx_inv (snd (ext_tsk k))" "settled (snd (ext_tsk k))"
    using k2 exit_running_ok [of k2 "runtsk k2"] by simp_all
qed

lemma ena_ter_inv:
  assumes ok: "mtx_inv k" and i: "in_task k"
  shows "mtx_inv (snd (ena_ter k))" "settled (snd (ena_ter k))"
proof -
  let ?k = "lock_cpu k" and ?t = "runtsk (lock_cpu k)"
  have i1: "in_task ?k" using i by (simp add: in_task_lock)
  have l: "mtx_inv ?k" "consistent ?k" "running ?t ?k" "settled ?k" "midway ?k" "\<not> sense_context ?k"
    using ok in_task_running [OF i1] lock_entry_task [OF i] settledD [OF in_task_settled [OF i1]] in_task_not_ctx [OF i1] by auto
  have "mtx_inv (upd_task ?t (\<lambda>b. b\<lparr>enater := True\<rparr>) ?k)" "midway (upd_task ?t (\<lambda>b. b\<lparr>enater := True\<rparr>) ?k)"
    by (rule set_raster_inv [OF l(1,5)]; simp)+
  moreover from this have "settled (upd_task ?t (\<lambda>b. b\<lparr>enater := True\<rparr>) ?k)" by (intro settled_upd_task [OF l(4)] midwayD) simp_all
  ultimately show "mtx_inv (snd (ena_ter k))" "settled (snd (ena_ter k))"
    using assms in_task_settled [OF i] exit_running_ok [OF l(1-3,6)] by (simp_all add: ena_ter_def Let_def)
qed


text \<open>A change of the base priority within the ceilings.\<close>

lemma mtx_ok_bpri:
  assumes ok: "mtx_ok Q X k"
    and b: "\<And>m. m \<in> owned k t \<or> t \<in> set (queue_of k (MtxW m)) \<Longrightarrow> MTX_CEILING k m \<Longrightarrow> ceilpri (mtxinib k m) \<le> p"
  shows "mtx_ok Q (insert t X) (upd_task t (\<lambda>b. b\<lparr>bpriority := p\<rparr>) k)" (is "mtx_ok _ _ ?k")
proof -
  have tab: "mtxinib ?k = mtxinib k" "mtxcb ?k = mtxcb k" "free_mtxcb ?k = free_mtxcb k" "tmax_mtxid ?k = tmax_mtxid k"
    "tmax_tskid ?k = tmax_tskid k" by (simp_all add: upd_task_def map_ts_def)
  have ex: "mtx_exists ?k = mtx_exists k" "MTX_CEILING ?k = MTX_CEILING k" "owned ?k = owned k" "exists_task ?k = exists_task k"
    by (auto simp: fun_eq_iff mtx_exists_def MTX_CEILING_def MTXPROTO_def owned_def exists_task_def tab)
  have tk: "task ?k u = (if u = t then (task k t)\<lparr>bpriority := p\<rparr> else task k u)" for u by simp
  show ?thesis
    unfolding mtx_ok_def
  proof (intro conjI allI impI)
    show "mtx_tables ?k" using mtx_okD(1) [OF ok] by (simp add: mtx_tables_def ex tab)
    show "\<exists>xs. holds ?k u xs" for u using mtx_okD(2) [OF ok, of u] by (auto simp: holds_def ex tab tk)
    show "exists_task ?k u" "u \<notin> insert t X \<Longrightarrow> tstat (task ?k u) \<noteq> TS_DORMANT" if "owned ?k u \<noteq> {}" for u
      using mtx_okD(3,4) [OF ok, of u] that by (auto simp: ex tk)
    show "mtx_exists ?k m" "m \<notin> Q \<Longrightarrow> p_loctsk (mtxcb ?k m) \<noteq> None" if "queue_of ?k (MtxW m) \<noteq> []" for m
      using mtx_okD(5,6) [OF ok, of m] that by (simp_all add: ex tab)
    show "ceilpri (mtxinib ?k m) \<le> bpriority (task ?k u)"
      if "(m \<in> owned ?k u \<or> u \<in> set (queue_of ?k (MtxW m))) \<and> MTX_CEILING ?k m" for u m
      using mtx_okD(7) [OF ok, of m u] b [of m] that by (auto simp: ex tab tk)
    show "priority (task ?k u) = protocol_priority ?k u" if "exists_task ?k u \<and> u \<notin> insert t X" for u
      using mtx_okD(8) [OF ok, of u] that by (simp add: protocol_priority_def ex tab tk)
  qed
qed

lemma owned_lastmtx: "mtx_ok Q X k \<Longrightarrow> p_lastmtx (task k t) = None \<longleftrightarrow> owned k t = {}"
proof -
  assume "mtx_ok Q X k"
  then obtain xs where h: "holds k t xs" using mtx_okD(2) by blast
  then show ?thesis by (cases xs) (auto simp: holds_def)
qed

lemma mtx_queue_tstat:
  assumes c: "consistent k" and t: "t \<in> set (queue_of k (MtxW m))" shows "TSTAT_WAIT_MTX (tstat (task k t))"
proof -
  have w: "TSTAT_WAIT_WOBJ (tstat (task k t))" "TSTAT_WAITING (tstat (task k t))" "p_wobjcb (p_winfo (task k t)) = Some (MtxW m)"
    using queue_member_waiting [OF c t] by blast+
  then have "tstat (task k t) AND NOT TS_SUSPENDED = TS_WAITING_MTX" "valid_tstat (tstat (task k t))"
    using consistentD(3) [OF c, of t] by (auto simp: task_ok_def wait_ok_def wait_code_def)
  then show ?thesis by (auto simp: valid_tstat_def wait_codes_def tstat_defs)
qed

lemma chg_pri_inv:
  assumes ok: "mtx_inv k" and s: "settled k"
  shows "mtx_inv (snd (chg_pri tskid tskpri k))" "settled (snd (chg_pri tskid tskpri k))"
proof -
  let ?k1 = "lock_cpu k"
  have l: "mtx_inv ?k1" "midway ?k1" "settled ?k1" "consistent ?k1" using assms lock_entry settledD by simp_all
  have step: "mtx_inv k3 \<and> settled k3"
    if d: "tstat (task k t) \<noteq> TS_DORMANT" and p: "p < TNUM_TPRI"
      and chk: "(p_lastmtx (task ?k1 t) \<noteq> None \<or> TSTAT_WAIT_MTX (tstat (task ?k1 t))) \<longrightarrow> mutex_check_ceilpri t p ?k1"
      and k2: "k2 = upd_task t (\<lambda>b. b\<lparr>bpriority := p\<rparr>) ?k1"
      and k3: "k3 = (if p_lastmtx (task k2 t) = None \<or> \<not> mutex_scan_ceilmtx t k2
                     then dispatch_if_needed (change_priority t p False k2) else k2)"
    for t p k2 k3
  proof -
    have e: "exists_task ?k1 t" using task_exists_live [OF l(4)] d by simp
    have c2: "consistent k2" unfolding k2 by (rule upd_task_consistent [OF l(4)]) (simp_all add: p)
    have m2: "midway k2" unfolding k2 by (rule midway_upd_task [OF l(2) c2 [unfolded k2]]) simp
    have s2: "settled k2" unfolding k2 by (rule settled_upd_task [OF l(3) c2 [unfolded k2]]) simp
    have b: "ceilpri (mtxinib ?k1 m) \<le> p" if "m \<in> owned ?k1 t \<or> t \<in> set (queue_of ?k1 (MtxW m))" "MTX_CEILING ?k1 m" for m
    proof -
      have "p_lastmtx (task ?k1 t) \<noteq> None \<or> TSTAT_WAIT_MTX (tstat (task ?k1 t))"
        using that(1) owned_lastmtx [OF l(1), of t] mtx_queue_tstat [OF l(4)] by blast
      then show ?thesis using chk that mutex_check_ceilpri_eq [OF l(1,4)] by blast
    qed
    have ok2: "mtx_ok {} {t} k2" unfolding k2 by (rule mtx_ok_bpri [OF l(1) b]) simp_all
    have tb: "owned k2 = owned ?k1" "MTX_CEILING k2 = MTX_CEILING ?k1" "mtxinib k2 = mtxinib ?k1"
      by (auto simp: k2 fun_eq_iff owned_def mtx_exists_def MTX_CEILING_def MTXPROTO_def upd_task_def map_ts_def lock_cpu_def)
    have scan: "mutex_scan_ceilmtx t k2 \<longleftrightarrow> (\<exists>m \<in> owned k2 t. MTX_CEILING k2 m)" by (rule mutex_scan_ceilmtx_eq [OF ok2])
    have d2: "tstat (task k2 t) \<noteq> TS_DORMANT" "bpriority (task k2 t) = p" using d by (simp_all add: k2)
    show ?thesis
    proof (cases "\<exists>m \<in> owned k2 t. MTX_CEILING k2 m")
      case False
      then have "protocol_priority k2 t = p" using d2(2) by (simp add: protocol_priority_def) (metis (mono_tags, lifting) Collect_empty_eq Min_singleton image_empty)
      then have "mtx_inv (change_priority t p False k2)" using d2(1) by (intro change_priority_ok [OF ok2 c2]) simp_all
      then show ?thesis using False scan orderly_switch change_priority_midway [OF m2 p] by (simp add: k3)
    next
      case True
      then have "p_lastmtx (task k2 t) \<noteq> None" using owned_lastmtx [OF ok2, of t] by auto
      then have k3: "k3 = k2" using True scan by (auto simp: k3)
      let ?C = "(\<lambda>m. ceilpri (mtxinib k2 m)) ` {m \<in> owned k2 t. MTX_CEILING k2 m}"
      have C: "finite ?C" "?C \<noteq> {}" using owned_finite [OF ok2, of t] True by auto
      have "Min (insert x ?C) = Min ?C" if "\<And>c. c \<in> ?C \<Longrightarrow> c \<le> x" for x
        using C that Min_in [OF C] by (simp add: Min_insert min_absorb2)
      moreover have "c \<le> bpriority (task ?k1 t)" "c \<le> p" if "c \<in> ?C" for c
        using that b mtx_okD(7) [OF l(1), of _ t] by (auto simp: tb)
      ultimately have "protocol_priority k2 t = protocol_priority ?k1 t" using d2(2) by (simp add: protocol_priority_def tb)
      moreover have "priority (task k2 t) = protocol_priority ?k1 t" using mtx_okD(8) [OF l(1) e] by (simp add: k2)
      ultimately have "mtx_inv k2" using d2(1) by (intro mtx_ok_close [OF ok2]) simp_all
      then show ?thesis using s2 by (simp add: k3)
    qed
  qed
  have "mtx_inv (snd (chg_pri tskid tskpri k)) \<and> settled (snd (chg_pri tskid tskpri k))"
  proof (cases "ctx_error k")
    case False
    show ?thesis
    proof (cases "task_of tskid k")
      case (Some t)
      define p where "p = (if tskpri = TPRI_INI then ipriority (tinib (ts k) t) else INT_PRIORITY tskpri)"
      have p: "p < TNUM_TPRI" if "tstat (task k t) \<noteq> TS_DORMANT" "\<not> (tskpri \<noteq> TPRI_INI \<and> \<not> VALID_TPRI tskpri)"
        using that consistentD(4) [OF settledD [OF s], of t] task_exists_live [OF settledD [OF s] that(1)]
        by (auto simp: p_def prio_ok_def INT_PRIORITY_less)
      define k2 where "k2 = upd_task t (\<lambda>b. b\<lparr>bpriority := p\<rparr>) ?k1"
      define k3 where "k3 = (if p_lastmtx (task k2 t) = None \<or> \<not> mutex_scan_ceilmtx t k2
                     then dispatch_if_needed (change_priority t p False k2) else k2)"
      have eq: "chg_pri tskid tskpri k =
         (if tskpri \<noteq> TPRI_INI \<and> \<not> VALID_TPRI tskpri then (Ret E_PAR, k)
          else if tsk_atr ?k1 t = TA_NOEXS then leave E_NOEXS ?k1
          else if tstat (task ?k1 t) = TS_DORMANT then leave E_OBJ ?k1
          else if (p_lastmtx (task ?k1 t) \<noteq> None \<or> TSTAT_WAIT_MTX (tstat (task ?k1 t))) \<and> \<not> mutex_check_ceilpri t p ?k1
               then leave E_ILUSE ?k1 else leave E_OK k3)"
        using False Some by (simp only: chg_pri_def p_def k2_def k3_def Let_def TSTAT_DORMANT_def) simp
      show ?thesis using assms l step [OF _ p _ k2_def k3_def] by (simp only: eq split: if_split) auto
    qed (use assms False in \<open>simp add: chg_pri_def\<close>)
  qed (use assms in \<open>simp add: chg_pri_def\<close>)
  then show "mtx_inv (snd (chg_pri tskid tskpri k))" "settled (snd (chg_pri tskid tskpri k))" by simp_all
qed


section \<open>Suspending, resuming, and reference\<close>

lemma make_non_runnable_tstat:
  "make_non_runnable u (upd_tcb t (\<lambda>b. b\<lparr>tstat := st\<rparr>) s) = upd_tcb t (\<lambda>b. b\<lparr>tstat := st\<rparr>) (make_non_runnable u s)"
  by (simp add: make_non_runnable_def Let_def upd_tcb_def primap_clear_def search_schedtsk_def q_first_def primap_search_def primap_empty_def split: option.split)

lemma sus_tsk_inv:
  assumes ok: "mtx_inv k" and s: "settled k"
  shows "mtx_inv (snd (sus_tsk tskid k))" "settled (snd (sus_tsk tskid k))"
proof -
  let ?k = "lock_cpu k"
  have l: "mtx_inv ?k" "midway ?k" "settled ?k" "consistent ?k" using assms lock_entry settledD by simp_all
  have run: "mtx_inv (dispatch_if_needed (map_ts (make_non_runnable t) (set_tstat t TS_SUSPENDED ?k))) \<and>
      settled (dispatch_if_needed (map_ts (make_non_runnable t) (set_tstat t TS_SUSPENDED ?k)))"
    if "TSTAT_RUNNABLE (tstat (task k t))" "\<not> (p_runtsk (ts k) = Some t \<and> \<not> dspflg (ts k))" "\<not> sense_context k" for t
  proof -
    have "tstat (task ?k t) \<noteq> TS_DORMANT" using that(1) by (auto simp: TSTAT_RUNNABLE_def)
    then have e: "exists_task ?k t" by (rule task_exists_live [OF l(4)])
    have "map_ts (make_non_runnable t) (set_tstat t TS_SUSPENDED ?k) = set_tstat t TS_SUSPENDED (unlink_task t ?k)"
      using that(1) by (simp add: unlink_task_def set_tstat_def upd_task_def map_ts_def make_non_runnable_tstat)
    moreover have "midway (set_tstat t TS_SUSPENDED (unlink_task t ?k))"
      using that(2,3) by (intro unlink_task_midway [OF l(2) e]) (auto simp: running_def)
    moreover have "mtx_inv (map_ts (make_non_runnable t) (set_tstat t TS_SUSPENDED ?k))"
      by (rule mtx_inv_keeps [OF l(1)]) (auto intro!: frame)
    ultimately show ?thesis by (simp add: orderly_switch)
  qed
  have wait: "mtx_inv (upd_task t (\<lambda>b. b\<lparr>tstat := tstat b OR TS_SUSPENDED\<rparr>) ?k) \<and>
      settled (upd_task t (\<lambda>b. b\<lparr>tstat := tstat b OR TS_SUSPENDED\<rparr>) ?k)"
    if "\<not> TSTAT_RUNNABLE (tstat (task k t))" "\<not> TSTAT_SUSPENDED (tstat (task k t))" "tstat (task k t) \<noteq> TS_DORMANT" for t
  proof -
    have v: "valid_tstat (tstat (task k t))" using consistentD(3) [OF l(4), of t] by (simp add: task_ok_def)
    have w: "TSTAT_WAITING (tstat (task ?k t))"
      using that v by (auto simp: valid_tstat_cases(2) TSTAT_RUNNABLE_def TSTAT_SUSPENDED_def)
    have m: "midway (upd_task t (\<lambda>b. b\<lparr>tstat := tstat b OR TS_SUSPENDED\<rparr>) ?k)"
      by (rule waiting_tstat_midway [OF l(2) w]) simp_all
    have nr: "\<not> running t ?k" using that(1) by (auto simp: running_def TSTAT_RUNNABLE_def)
    have "running v (upd_task t (\<lambda>b. b\<lparr>tstat := tstat b OR TS_SUSPENDED\<rparr>) ?k)" if "p_runtsk (ts k) = Some v" for v
      using settled_running [OF l(3), of v] that nr by (cases "v = t") (simp_all add: running_def)
    then have "settled (upd_task t (\<lambda>b. b\<lparr>tstat := tstat b OR TS_SUSPENDED\<rparr>) ?k)"
      using l(3) midwayD [OF m] by (simp add: settled_def)
    moreover have "tstat (task ?k t) OR TS_SUSPENDED \<noteq> TS_DORMANT"
      using waiting_codes(7) [of "tstat (task ?k t)" "tstat (task ?k t) OR TS_SUSPENDED"] v w by simp
    then have "mtx_inv (upd_task t (\<lambda>b. b\<lparr>tstat := tstat b OR TS_SUSPENDED\<rparr>) ?k)"
      by (intro mtx_inv_keeps [OF l(1)] prio_frame_upd_task) auto
    ultimately show ?thesis by simp
  qed
  have "mtx_inv (snd (sus_tsk tskid k)) \<and> settled (snd (sus_tsk tskid k))"
    unfolding sus_tsk_def Let_def TSTAT_DORMANT_def
    using assms l run wait by (auto simp: ctx_error_def split: option.split)
  then show "mtx_inv (snd (sus_tsk tskid k))" "settled (snd (sus_tsk tskid k))" by simp_all
qed

lemma rsm_tsk_inv:
  assumes ok: "mtx_inv k" and s: "settled k"
  shows "mtx_inv (snd (rsm_tsk tskid k))" "settled (snd (rsm_tsk tskid k))"
proof -
  let ?k = "lock_cpu k"
  have l: "mtx_inv ?k" "midway ?k" "settled ?k" "consistent ?k" using assms lock_entry settledD by simp_all
  have v: "valid_tstat (tstat (task k t))" for t using consistentD(3) [OF l(4), of t] by (simp add: task_ok_def)
  have run: "mtx_inv (dispatch_if_needed (map_ts (make_runnable t) (set_tstat t TS_RUNNABLE ?k))) \<and>
      settled (dispatch_if_needed (map_ts (make_runnable t) (set_tstat t TS_RUNNABLE ?k)))"
    if "TSTAT_SUSPENDED (tstat (task k t))" "\<not> TSTAT_WAITING (tstat (task k t))" for t
  proof -
    have st: "tstat (task ?k t) = TS_SUSPENDED" "tstat (task ?k t) \<noteq> TS_DORMANT"
      using that v [of t] by (auto simp: valid_tstat_cases(2) TSTAT_SUSPENDED_def)
    have e: "exists_task ?k t" by (rule task_exists_live [OF l(4) st(2)])
    have "midway (map_ts (make_runnable t) (set_tstat t TS_RUNNABLE ?k))" by (rule make_runnable_midway [OF l(2) e disjI2 [OF st(1)]])
    moreover have "mtx_inv (map_ts (make_runnable t) (set_tstat t TS_RUNNABLE ?k))"
      by (rule mtx_inv_keeps [OF l(1)]) (auto intro!: frame)
    ultimately show ?thesis by (simp add: orderly_switch)
  qed
  have wait: "mtx_inv (upd_task t (\<lambda>b. b\<lparr>tstat := tstat b AND NOT TS_SUSPENDED\<rparr>) ?k) \<and>
      settled (upd_task t (\<lambda>b. b\<lparr>tstat := tstat b AND NOT TS_SUSPENDED\<rparr>) ?k)"
    if "TSTAT_WAITING (tstat (task k t))" for t
  proof -
    have w: "TSTAT_WAITING (tstat (task ?k t))" using that by simp
    note wc = waiting_codes [OF _ that, of "tstat (task k t) AND NOT TS_SUSPENDED"]
    have m: "midway (upd_task t (\<lambda>b. b\<lparr>tstat := tstat b AND NOT TS_SUSPENDED\<rparr>) ?k)"
      by (rule waiting_tstat_midway [OF l(2) w]) simp_all
    have nr: "\<not> running t ?k" using wc(5) v by (auto simp: running_def TSTAT_RUNNABLE_def)
    have "running v (upd_task t (\<lambda>b. b\<lparr>tstat := tstat b AND NOT TS_SUSPENDED\<rparr>) ?k)" if "p_runtsk (ts k) = Some v" for v
      using settled_running [OF l(3), of v] that nr by (cases "v = t") (simp_all add: running_def)
    then have "settled (upd_task t (\<lambda>b. b\<lparr>tstat := tstat b AND NOT TS_SUSPENDED\<rparr>) ?k)"
      using l(3) midwayD [OF m] by (simp add: settled_def)
    moreover have "mtx_inv (upd_task t (\<lambda>b. b\<lparr>tstat := tstat b AND NOT TS_SUSPENDED\<rparr>) ?k)"
      using wc(7) v by (intro mtx_inv_keeps [OF l(1)] prio_frame_upd_task) auto
    ultimately show ?thesis by simp
  qed
  have "mtx_inv (snd (rsm_tsk tskid k)) \<and> settled (snd (rsm_tsk tskid k))"
    unfolding rsm_tsk_def Let_def using assms l run wait by auto
  then show "mtx_inv (snd (rsm_tsk tskid k))" "settled (snd (rsm_tsk tskid k))" by simp_all
qed


lemma consistent_timers:
  assumes "consistent k" "\<And>A. registered (tm k) A \<Longrightarrow> registered m A"
  shows "consistent (map_tm (\<lambda>_. m) k)"
proof -
  have "others t k (map_tm (\<lambda>_. m) k)" for t by auto
  from same_tcb [OF this] show ?thesis using assms by (simp add: consistent_def)
qed

lemma lefttmo_ok:
  assumes "mtx_inv k" "settled k"
  shows "mtx_inv (snd (lefttmo t k))" "settled (snd (lefttmo t k))"
proof -
  have "consistent (map_tm (\<lambda>_. update_current_evttim (tm k)) k)"
    by (rule consistent_timers [OF settledD [OF assms(2)]]) simp
  then have "settled (map_tm (\<lambda>_. update_current_evttim (tm k)) k)" using assms(2) by (simp add: settled_def running_def)
  moreover have "mtx_inv (map_tm (\<lambda>_. update_current_evttim (tm k)) k)"
    by (rule mtx_inv_keeps [OF assms(1)]) (auto intro!: frame)
  ultimately show "mtx_inv (snd (lefttmo t k))" "settled (snd (lefttmo t k))"
    using assms by (auto simp: lefttmo_def tmevt_lefttim_def Let_def split: winfo_u.split option.split)
qed

lemma ref_tsk_inv:
  assumes "mtx_inv k" "settled k"
  shows "mtx_inv (snd (fst (ref_tsk tskid k)))" "settled (snd (fst (ref_tsk tskid k)))"
proof -
  have l: "mtx_inv (lock_cpu k)" "settled (lock_cpu k)" using assms lock_entry by simp_all
  have "mtx_inv (snd (fst (ref_tsk tskid k))) \<and> settled (snd (fst (ref_tsk tskid k)))"
    using assms l lefttmo_ok [OF l] by (auto simp: ref_tsk_def Let_def case_prod_unfold split: option.split)
  then show "mtx_inv (snd (fst (ref_tsk tskid k)))" "settled (snd (fst (ref_tsk tskid k)))" by simp_all
qed

text \<open>What the calls leave alone.\<close>

lemma upd_flag_prio_frame [frame]:
  assumes "prio_frame X k k'"
  shows "prio_frame X k (upd_task t (\<lambda>b. b\<lparr>actque := x\<rparr>) k')" "prio_frame X k (upd_task t (\<lambda>b. b\<lparr>wupque := x\<rparr>) k')"
    "prio_frame X k (upd_task t (\<lambda>b. b\<lparr>raster := x\<rparr>) k')" "prio_frame X k (upd_task t (\<lambda>b. b\<lparr>enater := x\<rparr>) k')"
    "prio_frame X k (upd_task t (\<lambda>b. b\<lparr>p_winfo := wi\<rparr>) k')"
  by (rule prio_frame_upd_task [OF assms]; simp)+

lemma task_calls_prio:
  "prio_frame {} k (snd (act_tsk tskid k))" "prio_frame {} k (snd (can_act tskid k))" "prio_frame {} k (snd (fst (get_tst tskid k)))"
  "prio_frame {} k (snd (fst (get_pri tskid k)))" "prio_frame {} k (snd (fst (get_inf k)))" "prio_frame {} k (snd (dis_ter k))"
  "prio_frame {} k (snd (slp_tsk k))" "prio_frame {} k (snd (tslp_tsk tmout k))" "prio_frame {} k (snd (wup_tsk tskid k))"
  "prio_frame {} k (snd (can_wup tskid k))" "prio_frame {} k (snd (rel_wai tskid k))" "prio_frame {} k (snd (dly_tsk dlytim k))"
  by (auto simp: act_tsk_def can_act_def get_tst_def get_pri_def get_inf_def dis_ter_def slp_tsk_def tslp_tsk_def wup_tsk_def
      can_wup_def rel_wai_def dly_tsk_def Let_def intro!: frame split: option.split)

lemma task_calls_keep:
  "keeps K k (snd (act_tsk tskid k))" "keeps K k (snd (can_act tskid k))" "keeps K k (snd (fst (get_tst tskid k)))"
  "keeps K k (snd (fst (get_pri tskid k)))" "keeps K k (snd (fst (get_inf k)))" "keeps K k (snd (dis_ter k))"
  "keeps K k (snd (slp_tsk k))" "keeps K k (snd (tslp_tsk tmout k))" "keeps K k (snd (wup_tsk tskid k))"
  "keeps K k (snd (can_wup tskid k))" "keeps K k (snd (rel_wai tskid k))" "keeps K k (snd (dly_tsk dlytim k))"
  by (auto simp: act_tsk_def can_act_def get_tst_def get_pri_def get_inf_def dis_ter_def slp_tsk_def tslp_tsk_def wup_tsk_def
      can_wup_def rel_wai_def dly_tsk_def Let_def intro!: frame split: option.split)

lemmas task_calls_inv = mtx_inv_keeps [OF _ task_calls_keep(1) task_calls_prio(1)] mtx_inv_keeps [OF _ task_calls_keep(2) task_calls_prio(2)]
  mtx_inv_keeps [OF _ task_calls_keep(3) task_calls_prio(3)] mtx_inv_keeps [OF _ task_calls_keep(4) task_calls_prio(4)]
  mtx_inv_keeps [OF _ task_calls_keep(5) task_calls_prio(5)] mtx_inv_keeps [OF _ task_calls_keep(6) task_calls_prio(6)]
  mtx_inv_keeps [OF _ task_calls_keep(7) task_calls_prio(7)] mtx_inv_keeps [OF _ task_calls_keep(8) task_calls_prio(8)]
  mtx_inv_keeps [OF _ task_calls_keep(9) task_calls_prio(9)] mtx_inv_keeps [OF _ task_calls_keep(10) task_calls_prio(10)]
  mtx_inv_keeps [OF _ task_calls_keep(11) task_calls_prio(11)] mtx_inv_keeps [OF _ task_calls_keep(12) task_calls_prio(12)]

lemma enadsp_keeps [simp]:
  "keeps K k (map_ts (\<lambda>s. s\<lparr>enadsp := b\<rparr>) k') = keeps K k k'"
  by (auto simp: keeps_def map_ts_def same_objects_def split: kind.splits)

lemma task_ends_keep:
  assumes s: "settled k" and K: "K \<noteq> KMtx"
  shows "keeps K k (snd (ter_tsk tskid k))" "keeps K k (snd (ras_ter tskid k))" "keeps K k (snd (ext_tsk k))"
    "keeps K k (snd (ena_ter k))" "keeps K k (snd (sus_tsk tskid k))" "keeps K k (snd (rsm_tsk tskid k))"
    "keeps K k (snd (fst (ref_tsk tskid k)))"
proof -
  show "keeps K k (snd (ter_tsk tskid k))" using K by (auto simp: ter_tsk_def Let_def intro!: frame)
  show "keeps K k (snd (ras_ter tskid k))" using K by (auto simp: ras_ter_def Let_def intro!: frame)
  show "keeps K k (snd (ext_tsk k))" using K by (auto simp: ext_tsk_def Let_def t_set_ipm_def intro!: frame)
  show "keeps K k (snd (ena_ter k))" using K by (auto simp: ena_ter_def Let_def intro!: frame)
  show "keeps K k (snd (sus_tsk tskid k))" by (auto simp: sus_tsk_def Let_def intro!: frame split: option.split)
  show "keeps K k (snd (rsm_tsk tskid k))" by (auto simp: rsm_tsk_def Let_def intro!: frame)
  have "keeps K k (snd (lefttmo t (lock_cpu k)))" for t
    by (auto simp: lefttmo_def Let_def case_prod_unfold split: winfo_u.split option.split)
  then show "keeps K k (snd (fst (ref_tsk tskid k)))"
    by (auto simp: ref_tsk_def Let_def case_prod_unfold intro!: frame split: option.split)
qed

lemma chg_pri_keeps:
  assumes s: "settled k" and K: "K \<noteq> KMtx"
  shows "keeps K k (snd (chg_pri tskid tskpri k))"
proof -
  have c: "consistent (lock_cpu k)" using settledD [OF s] by simp
  have "keeps K k (change_priority t p False (upd_task t (\<lambda>b. b\<lparr>bpriority := p\<rparr>) (lock_cpu k)))" if "p < TNUM_TPRI" for t p
  proof -
    have "consistent (upd_task t (\<lambda>b. b\<lparr>bpriority := p\<rparr>) (lock_cpu k))" by (rule upd_task_consistent [OF c]) (simp_all add: that)
    then show ?thesis by (intro keeps_change_priority) simp_all
  qed
  moreover have "ipriority (tinib (ts k) t) < TNUM_TPRI" if "tstat (task k t) \<noteq> TS_DORMANT" for t
    using that consistentD(4) [OF settledD [OF s], of t] task_exists_live [OF settledD [OF s] that] by (simp add: prio_ok_def)
  ultimately show ?thesis
    by (auto simp: chg_pri_def Let_def INT_PRIORITY_less TSTAT_DORMANT_def intro!: frame split: option.split)
qed


section \<open>Creation and deletion of tasks\<close>

lemma mtx_inv_task_table:
  assumes ok: "mtx_inv k" and o: "owned k t = {}" and q: "\<And>m. t \<notin> set (queue_of k (MtxW m))"
    and tab: "mtxinib k' = mtxinib k" "mtxcb k' = mtxcb k" "free_mtxcb k' = free_mtxcb k" "tmax_mtxid k' = tmax_mtxid k"
    and q': "\<And>m. queue_of k' (MtxW m) = queue_of k (MtxW m)" and u: "\<And>u. u \<noteq> t \<Longrightarrow> task k' u = task k u"
      "\<And>u. u \<noteq> t \<Longrightarrow> exists_task k' u = exists_task k u"
    and t: "p_lastmtx (task k' t) = None" "exists_task k' t \<Longrightarrow> priority (task k' t) = bpriority (task k' t)"
  shows "mtx_inv k'"
proof -
  have ex: "mtx_exists k' = mtx_exists k" "MTX_CEILING k' = MTX_CEILING k" "owned k' = owned k"
    by (auto simp: fun_eq_iff mtx_exists_def MTX_CEILING_def MTXPROTO_def owned_def tab)
  show ?thesis
    unfolding mtx_ok_def
  proof (intro conjI allI impI)
    show "mtx_tables k'" using mtx_okD(1) [OF ok] by (simp add: mtx_tables_def ex tab)
    show "\<exists>xs. holds k' v xs" for v
    proof (cases "v = t")
      case True
      then show ?thesis using o t(1) by (auto simp: holds_def ex intro: exI [of _ "[]"])
    next
      case False
      then show ?thesis using mtx_okD(2) [OF ok, of v] by (auto simp: holds_def ex tab u)
    qed
    show "exists_task k' v" "v \<notin> {} \<Longrightarrow> tstat (task k' v) \<noteq> TS_DORMANT" if "owned k' v \<noteq> {}" for v
      using mtx_okD(3,4) [OF ok, of v] that o u [of v] by (cases "v = t"; auto simp: ex)+
    show "mtx_exists k' m" "m \<notin> {} \<Longrightarrow> p_loctsk (mtxcb k' m) \<noteq> None" if "queue_of k' (MtxW m) \<noteq> []" for m
      using mtx_okD(5,6) [OF ok, of m] that by (simp_all add: ex tab q')
    show "ceilpri (mtxinib k' m) \<le> bpriority (task k' v)"
      if "(m \<in> owned k' v \<or> v \<in> set (queue_of k' (MtxW m))) \<and> MTX_CEILING k' m" for v m
      using mtx_okD(7) [OF ok, of m v] that o q u(1) [of v] by (cases "v = t") (auto simp: ex tab q')
    show "priority (task k' v) = protocol_priority k' v" if "exists_task k' v \<and> v \<notin> {}" for v
      using mtx_okD(8) [OF ok, of v] that o t u [of v] by (cases "v = t") (simp_all add: protocol_priority_def ex tab)
  qed
qed

lemma free_task:
  assumes c: "consistent k" and t: "t \<in> set (queues (ts k) FreeTcbQ)"
  shows "loc k t = Some FreeTcbQ" "\<not> exists_task k t" "tstat (task k t) = TS_DORMANT" "int t < tmax_tskid k" "t \<notin> set (queue_of k w)"
proof -
  show l: "loc k t = Some FreeTcbQ" using t core_in_queue [OF consistentD(1) [OF c]] by blast
  then show e: "\<not> exists_task k t" and "int t < tmax_tskid k" by (auto simp: loc_def exists_task_def split: if_splits)
  show "tstat (task k t) = TS_DORMANT" using consistentD(3) [OF c, of t] e by (simp add: task_ok_def)
  show "t \<notin> set (queue_of k w)" using l core_in_queue [OF consistentD(1) [OF c], of t "WaitQ w"] by simp
qed

definition fresh_task :: "nat \<Rightarrow> tinib \<Rightarrow> kernel \<Rightarrow> kernel" where
  "fresh_task t ini k = map_ts (make_dormant t) (upd_task t (\<lambda>b. b\<lparr>actque := False, p_lastmtx := None\<rparr>)
     (map_ts (\<lambda>s. s\<lparr>queues := snd (lq_delete_next FreeTcbQ (queues (ts k))), tinib := (tinib s)(t := ini)\<rparr>) k))"

lemma fresh_task_sel:
  "queue_of (fresh_task t ini k) w = queue_of k w" "u \<noteq> t \<Longrightarrow> task (fresh_task t ini k) u = task k u"
  "task (fresh_task t ini k) t = (task k t)\<lparr>actque := False, p_lastmtx := None, tstat := TS_DORMANT, bpriority := ipriority ini,
     priority := ipriority ini, wupque := False, raster := False, enater := True\<rparr>"
  "tinib (ts (fresh_task t ini k)) = (tinib (ts k))(t := ini)" "tmax_tskid (fresh_task t ini k) = tmax_tskid k"
  "queues (ts (fresh_task t ini k)) = (queues (ts k))(FreeTcbQ := tl (queues (ts k) FreeTcbQ))"
  "p_runtsk (ts (fresh_task t ini k)) = p_runtsk (ts k)" "p_schedtsk (ts (fresh_task t ini k)) = p_schedtsk (ts k)"
  "dspflg (ts (fresh_task t ini k)) = dspflg (ts k)" "sense_context (fresh_task t ini k) = sense_context k"
  "tm (fresh_task t ini k) = tm k" "cyc_on (fresh_task t ini k) = cyc_on k" "alm_on (fresh_task t ini k) = alm_on k"
  by (simp_all add: fresh_task_def make_dormant_upd lq_delete_next_def fun_eq_iff cyc_on_def alm_on_def)
    (simp_all add: upd_task_def map_ts_def)

lemma fresh_task_ok:
  assumes ok: "mtx_inv k" and m: "settled k" and q: "queues (ts k) FreeTcbQ = t # us"
    and ini: "tskatr ini \<noteq> TA_NOEXS" "ipriority ini < TNUM_TPRI"
  shows "mtx_inv (fresh_task t ini k)" "settled (fresh_task t ini k)" "exists_task (fresh_task t ini k) t"
proof -
  let ?k = "fresh_task t ini k"
  have c: "consistent k" by (rule settledD [OF m])
  note f = free_task [OF c, of t]
  have tf: "t \<in> set (queues (ts k) FreeTcbQ)" using q by simp
  show e: "exists_task ?k t" using f(4) [OF tf] ini by (simp add: exists_task_def fresh_task_sel)
  have ex: "exists_task ?k u = exists_task k u" if "u \<noteq> t" for u using that by (simp add: exists_task_def fresh_task_sel)
  have "owned k t = {}" using mtx_okD(3) [OF ok, of t] f(2) [OF tf] by blast
  then show "mtx_inv ?k"
    by (rule mtx_inv_task_table [OF ok]) (simp_all add: f(5) [OF tf] fresh_task_sel ex, simp_all add: fresh_task_def upd_task_def map_ts_def)
  have "core ((loc k)(t := None)) ((ts k)\<lparr>queues := lq_delete t (queues (ts k))\<rparr>)"
    by (rule core_wait_delete [OF consistentD(1) [OF c]]) (simp add: f(1) [OF tf])
  moreover have "lq_delete t (queues (ts k)) = queues (ts ?k)"
    using queues_at_delete_next [OF coreD(1) [OF consistentD(1) [OF c]] q] q by (simp add: fresh_task_sel)
  ultimately have "core ((loc k)(t := None)) ((ts k)\<lparr>queues := queues (ts ?k)\<rparr>)" by simp
  then have "core ((loc k)(t := None)) (upd_tcb t (\<lambda>_. task ?k t) ((ts k)\<lparr>queues := queues (ts ?k)\<rparr>))"
    by (rule core_upd_tcb) simp
  moreover have "core L (s\<lparr>tinib := i\<rparr>) = core L s" for L and i and s :: "tmevtb_ref tskst"
    using is_top_cong [of "s\<lparr>tinib := i\<rparr>" s] by (simp add: core_defs)
  moreover have "ts ?k = (upd_tcb t (\<lambda>_. task ?k t) ((ts k)\<lparr>queues := queues (ts ?k)\<rparr>))\<lparr>tinib := tinib (ts ?k)\<rparr>"
    by (rule tskst.equality) (simp_all add: fresh_task_def make_dormant_def upd_task_def upd_tcb_def map_ts_def)
  ultimately have "core ((loc k)(t := None)) (ts ?k)" by metis
  moreover have "loc ?k = (loc k)(t := None)"
    using ini f(4) [OF tf] by (auto simp: fun_eq_iff loc_def fresh_task_sel)
  moreover have "timed ?k u = timed k u" for u
    using f(3) [OF tf] by (cases "u = t") (simp_all add: timed_def fresh_task_sel)
  then have "active ?k = active k" by (simp add: active_def fresh_task_sel)
  moreover have "task_ok ?k u" "prio_ok ?k u" for u
    using consistentD(3,4) [OF c, of u] e ini ex [of u]
    by (cases "u = t"; simp add: task_ok_def prio_ok_def fresh_task_sel wait_ok_def valid_tstat_def wait_codes_def)+
  ultimately have ck: "consistent ?k" using consistentD(2) [OF c] by (simp add: consistent_def fresh_task_sel)
  have "running v ?k = running v k" for v
    using f(3) [OF tf] by (cases "v = t") (simp_all add: running_def fresh_task_sel)
  then show "settled ?k" using m ck by (simp add: settled_def fresh_task_sel)
qed


lemma task_atr_exists:
  fixes atr :: ATR
  assumes "atr AND NOT (TA_ACT OR TA_NOACTQUE OR TA_FPU) = 0"
  shows "atr \<noteq> TA_NOEXS" "atr OR TA_MEMALLOC \<noteq> TA_NOEXS"
proof -
  have "(atr OR x) AND NOT (TA_ACT OR TA_NOACTQUE OR TA_FPU) = x AND NOT (TA_ACT OR TA_NOACTQUE OR TA_FPU)" for x
    using assms by (simp add: bit.conj_disj_distrib2)
  from this [of TA_MEMALLOC] this [of 0] show "atr \<noteq> TA_NOEXS" "atr OR TA_MEMALLOC \<noteq> TA_NOEXS" by auto
qed

lemma acre_tsk_inv:
  assumes ok: "mtx_inv k" and s: "settled k"
  shows "mtx_inv (snd (acre_tsk thumb atr exi ent itskpri sz stack k))" "settled (snd (acre_tsk thumb atr exi ent itskpri sz stack k))"
proof -
  let ?k1 = "lock_cpu k"
  have l: "mtx_inv ?k1" "settled ?k1" using assms lock_entry by simp_all
  have mpk: "mtx_inv (snd (malloc_mpk z ?k1))" "settled (snd (malloc_mpk z ?k1))" "ts (snd (malloc_mpk z ?k1)) = ts k" for z
    using l by (simp_all add: malloc_mpk_def Let_def) (auto intro!: mtx_inv_keeps [OF l(1)] prio_frame_same [OF prio_frame_refl])
  have step: "mtx_inv k6 \<and> settled k6"
    if q: "queues (ts k2) FreeTcbQ \<noteq> []" and k2: "mtx_inv k2" "settled k2" and t: "t = hd (queues (ts k2) FreeTcbQ)"
      and ini: "tskatr ini \<noteq> TA_NOEXS" "ipriority ini < TNUM_TPRI"
      and k6: "k6 = (if b then dispatch_if_needed (map_ts (make_active t) (fresh_task t ini k2)) else fresh_task t ini k2)"
    for k2 t ini k6 b
  proof -
    obtain us where q': "queues (ts k2) FreeTcbQ = t # us" using q t by (cases "queues (ts k2) FreeTcbQ") simp_all
    note f = fresh_task_ok [OF k2 q' ini]
    have "midway (map_ts (make_active t) (fresh_task t ini k2))"
      by (rule make_active_midway [OF settled_midway [OF f(2)] f(3)]) (simp add: fresh_task_sel)
    moreover have "mtx_inv (map_ts (make_active t) (fresh_task t ini k2))"
      by (rule mtx_inv_keeps [OF f(1)]) (auto intro!: frame)
    ultimately show ?thesis using f by (simp add: k6 orderly_switch)
  qed
  have "mtx_inv (snd (acre_tsk thumb atr exi ent itskpri sz stack k)) \<and> settled (snd (acre_tsk thumb atr exi ent itskpri sz stack k))"
  proof (cases "ctx_error k \<or> atr AND NOT (TA_ACT OR TA_NOACTQUE OR TA_FPU) \<noteq> 0 \<or> \<not> (thumb \<or> ALIGNED ent 4) \<or> ent = 0 \<or>
      \<not> VALID_TPRI itskpri \<or> \<not> 1 \<le> sz \<or> stack \<noteq> 0 \<and> \<not> ALIGNED sz 8 \<or> stack \<noteq> 0 \<and> \<not> ALIGNED stack 8 \<or>
      queues (ts k) FreeTcbQ = []")
    case True
    then show ?thesis using assms l by (auto simp: acre_tsk_def Let_def)
  next
    case False
    define sz1 where "sz1 = (if stack = 0 then ROUND_STK_T sz else sz)"
    define stack1 where "stack1 = (if stack = 0 then fst (malloc_mpk (ROUND_STK_T sz) ?k1) else stack)"
    define k2 where "k2 = (if stack = 0 then snd (malloc_mpk (ROUND_STK_T sz) ?k1) else ?k1)"
    define atr1 where "atr1 = (if stack = 0 then atr OR TA_MEMALLOC else atr)"
    define ini where "ini = \<lparr>tskatr = atr1, exinf = exi, task_entry = ent, ipriority = INT_PRIORITY itskpri, stksz = sz1, stk = stack1\<rparr>"
    define t where "t = hd (queues (ts k2) FreeTcbQ)"
    have k2: "mtx_inv k2" "settled k2" "ts k2 = ts k" using l mpk by (simp_all add: k2_def)
    have eq: "acre_tsk thumb atr exi ent itskpri sz stack k =
      (if stack1 = 0 then leave E_NOMEM k2
       else leave_uint (OBJID t) (if tsk_atr (fresh_task t ini k2) t AND TA_ACT \<noteq> 0
         then dispatch_if_needed (map_ts (make_active t) (fresh_task t ini k2)) else fresh_task t ini k2))"
      using False by (cases "stack = 0"; cases thumb)
        (auto simp: acre_tsk_def Let_def case_prod_unfold sz1_def stack1_def k2_def atr1_def ini_def t_def fresh_task_def
          lq_delete_next_def)
    have "tskatr ini \<noteq> TA_NOEXS" "ipriority ini < TNUM_TPRI"
      using False task_atr_exists [of atr] by (auto simp: ini_def atr1_def INT_PRIORITY_less)
    then show ?thesis using False step [OF _ k2(1,2) t_def _ _ refl, of ini] k2 by (simp add: eq)
  qed
  then show "mtx_inv (snd (acre_tsk thumb atr exi ent itskpri sz stack k))" "settled (snd (acre_tsk thumb atr exi ent itskpri sz stack k))" by simp_all
qed

definition freed_task :: "nat \<Rightarrow> kernel \<Rightarrow> kernel" where
  "freed_task t k = map_ts (queue_insert_last FreeTcbQ t)
     (map_ts (\<lambda>s. s\<lparr>tinib := (tinib s)(t := (tinib s t)\<lparr>tskatr := TA_NOEXS\<rparr>)\<rparr>) k)"

lemma freed_task_sel:
  "queue_of (freed_task t k) w = queue_of k w" "tcb (ts (freed_task t k)) = tcb (ts k)"
  "tinib (ts (freed_task t k)) = (tinib (ts k))(t := (tinib (ts k) t)\<lparr>tskatr := TA_NOEXS\<rparr>)" "tmax_tskid (freed_task t k) = tmax_tskid k"
  "p_runtsk (ts (freed_task t k)) = p_runtsk (ts k)" "p_schedtsk (ts (freed_task t k)) = p_schedtsk (ts k)"
  "dspflg (ts (freed_task t k)) = dspflg (ts k)" "sense_context (freed_task t k) = sense_context k"
  "tm (freed_task t k) = tm k" "cyc_on (freed_task t k) = cyc_on k" "alm_on (freed_task t k) = alm_on k"
  by (simp_all add: freed_task_def queue_insert_last_def lq_insert_prev_def fun_eq_iff cyc_on_def alm_on_def)
    (simp_all add: map_ts_def)

lemma freed_task_ts:
  "ts (freed_task t k) = (ts k)\<lparr>queues := (queues (ts k))(FreeTcbQ := queues (ts k) FreeTcbQ @ [t]), tinib := tinib (ts (freed_task t k))\<rparr>"
  by (rule tskst.equality) (simp_all add: freed_task_def queue_insert_last_def lq_insert_prev_def)

lemma freed_task_ok:
  assumes ok: "mtx_inv k" and m: "settled k" and e: "exists_task k t" and d: "tstat (task k t) = TS_DORMANT"
  shows "mtx_inv (freed_task t k)" "settled (freed_task t k)"
proof -
  let ?k = "freed_task t k"
  have c: "consistent k" by (rule settledD [OF m])
  have L: "loc k t = None" using e d by (simp add: loc_def exists_task_def)
  have o: "owned k t = {}" using mtx_okD(4) [OF ok, of t] d by blast
  have lm: "p_lastmtx (task k t) = None" using owned_lastmtx [OF ok, of t] o by simp
  have q: "t \<notin> set (queues (ts k) h)" for h using L core_in_queue [OF consistentD(1) [OF c], of t h] by simp
  have ex: "exists_task ?k u = (u \<noteq> t \<and> exists_task k u)" for u by (simp add: exists_task_def freed_task_sel)
  show "mtx_inv ?k"
    by (rule mtx_inv_task_table [OF ok o]) (simp_all add: q lm ex freed_task_sel(1,2), simp_all add: freed_task_def map_ts_def)
  have "core ((loc k)(t \<mapsto> FreeTcbQ)) ((ts k)\<lparr>queues := (queues (ts k))(FreeTcbQ := queues (ts k) FreeTcbQ @ [t])\<rparr>)"
    using q core_distinct [OF consistentD(1) [OF c], of FreeTcbQ]
    by (intro core_queues [OF consistentD(1) [OF c]] queues_at_insert [OF coreD(1) [OF consistentD(1) [OF c]] L]) simp_all
  moreover have "core L (s\<lparr>tinib := i\<rparr>) = core L s" for L and i and s :: "tmevtb_ref tskst"
    using is_top_cong [of "s\<lparr>tinib := i\<rparr>" s] by (simp add: core_defs)
  ultimately have "core ((loc k)(t \<mapsto> FreeTcbQ)) (ts ?k)" by (subst freed_task_ts) simp
  moreover have "loc ?k = (loc k)(t \<mapsto> FreeTcbQ)"
    using e by (auto simp: fun_eq_iff loc_def freed_task_sel(1-4) exists_task_def)
  moreover have "active ?k = active k" by (simp add: active_def freed_task_sel timed_def)
  moreover have "task_ok ?k u" "prio_ok ?k u" for u
    using consistentD(3,4) [OF c, of u] d
    by (cases "u = t"; simp add: task_ok_def prio_ok_def freed_task_sel(1-4) ex wait_ok_def valid_tstat_def wait_codes_def)+
  ultimately have ck: "consistent ?k" using consistentD(2) [OF c] by (simp add: consistent_def freed_task_sel(9))
  then show "settled ?k" using m by (simp add: settled_def running_def freed_task_sel)
qed

lemma del_tsk_inv:
  assumes ok: "mtx_inv k" and s: "settled k"
  shows "mtx_inv (snd (del_tsk tskid k))" "settled (snd (del_tsk tskid k))"
proof -
  let ?k1 = "lock_cpu k" and ?t = "INDEX tskid"
  have l: "mtx_inv ?k1" "settled ?k1" using assms lock_entry by simp_all
  define k2 where "k2 = (if tsk_atr ?k1 ?t AND TA_MEMALLOC \<noteq> 0 then free_mpk (stk (tinib (ts ?k1) ?t)) ?k1 else ?k1)"
  have k2: "mtx_inv k2" "settled k2" "ts k2 = ts k" "exists_task k2 = exists_task k"
    using l by (simp_all add: k2_def free_mpk_def fun_eq_iff exists_task_def)
      (auto intro!: mtx_inv_keeps [OF l(1)] prio_frame_same [OF prio_frame_refl])
  have "del_tsk tskid k = (if ctx_error k then (Ret E_CTX, k)
      else if \<not> VALID_ID (tmax_tskid k) tskid then (Ret E_ID, k)
      else if tsk_atr ?k1 ?t = TA_NOEXS then leave E_NOEXS ?k1
      else if tskid \<le> tmax_stskid ?k1 \<or> \<not> TSTAT_DORMANT (tstat (task ?k1 ?t)) then leave E_OBJ ?k1
      else leave E_OK (freed_task ?t k2))"
    by (simp add: del_tsk_def Let_def k2_def freed_task_def)
  moreover have "VALID_ID (tmax_tskid k) tskid \<Longrightarrow> tsk_atr k ?t \<noteq> TA_NOEXS \<Longrightarrow> exists_task k2 ?t"
    by (simp add: k2(4) exists_task_def INDEX_def VALID_ID_def)
  ultimately show "mtx_inv (snd (del_tsk tskid k))" "settled (snd (del_tsk tskid k))"
    using assms l freed_task_ok [OF k2(1,2), of ?t] k2(3) by (simp_all add: TSTAT_DORMANT_def)
qed

lemma task_table_keeps:
  "keeps K k (snd (acre_tsk thumb atr exi ent itskpri sz stack k))" "keeps K k (snd (del_tsk tskid k))"
proof -
  have f: "keeps K k k' \<Longrightarrow> keeps K k (map_ts (\<lambda>s. s\<lparr>queues := q, tinib := i s\<rparr>) k')"
    if "\<And>w. set (q (WaitQ w)) \<subseteq> set (queue_of k' w)" for k' q i
    using that by (erule_tac keeps_step) auto
  have g: "keeps K k k' \<Longrightarrow> keeps K k (map_ts (\<lambda>s. s\<lparr>tinib := i s\<rparr>) k')" for k' i
    by (erule keeps_step) auto
  have h: "keeps K k k' \<Longrightarrow> keeps K k (map_ts (queue_insert_last FreeTcbQ t) k')" for k' t
    by (erule keeps_step) (auto simp: queue_insert_last_def lq_insert_prev_def)
  show "keeps K k (snd (acre_tsk thumb atr exi ent itskpri sz stack k))"
    by (auto simp: acre_tsk_def Let_def case_prod_unfold malloc_mpk_def lq_delete_next_def make_dormant_upd intro!: frame f)
  show "keeps K k (snd (del_tsk tskid k))"
    by (auto simp: del_tsk_def Let_def free_mpk_def intro!: frame g h)
qed


end
