(* ===== verification/SysManage.thy ===== *)
theory SysManage
  imports TaskSvc
begin

unbundle bit_operations_syntax

text \<open>
  The service calls on the state of the system: asp3\_dcre/kernel/sys\_manage.c, with \<open>chg_ipm\<close> and
  \<open>get_ipm\<close> of interrupt.c and \<open>xsns_dpn\<close> of exception.c. Dispatching is allowed (\<open>dspflg\<close>) when it is
  enabled (\<open>enadsp\<close>) and no interrupt priority is masked; while it is not, \<open>p_schedtsk\<close> stands still.
\<close>

section \<open>Definitions\<close>

definition rot_rdq :: "int \<Rightarrow> kernel \<Rightarrow> svc \<times> kernel" where
  "rot_rdq tskpri k =
     (if sense_lock k then (Ret E_CTX, k)
      else
        let self = (tskpri = TPRI_SELF \<and> \<not> sense_context k) in
        if \<not> self \<and> \<not> VALID_TPRI tskpri then (Ret E_PAR, k)
        else
          let pri = (if self then bpriority (task k (runtsk k)) else INT_PRIORITY tskpri)
          in leave E_OK (dispatch_or_request (map_ts (rotate_ready_queue pri) (lock_cpu k))))"

text \<open>Calls that work with and without the CPU lock take it and release it only if it was free.\<close>

definition take_lock :: "kernel \<Rightarrow> kernel" where
  "take_lock k = (if \<not> sense_lock k then lock_cpu k else k)"

definition give_lock :: "bool \<Rightarrow> kernel \<Rightarrow> kernel" where
  "give_lock lock k = (if \<not> lock then unlock_cpu k else k)"

definition get_tid :: "kernel \<Rightarrow> (svc \<times> kernel) \<times> int" where
  "get_tid k =
     (let lock = sense_lock k; k1 = take_lock k;
          tid = (case p_runtsk (ts k1) of None \<Rightarrow> TSK_NONE | Some t \<Rightarrow> OBJID t)
      in ((Ret E_OK, give_lock lock k1), tid))"

fun get_lod_loop :: "nat list \<Rightarrow> uint \<Rightarrow> uint" where
  "get_lod_loop [] load = load"
| "get_lod_loop (t # q) load = get_lod_loop q (load + 1)"

definition self_or_pri :: "int \<Rightarrow> kernel \<Rightarrow> nat option" where
  "self_or_pri tskpri k =
     (if tskpri = TPRI_SELF then Some (bpriority (task k (runtsk k)))
      else if VALID_TPRI tskpri then Some (INT_PRIORITY tskpri) else None)"

definition get_lod :: "int \<Rightarrow> kernel \<Rightarrow> (svc \<times> kernel) \<times> uint option" where
  "get_lod tskpri k =
     (if ctx_error k then ((Ret E_CTX, k), None)
      else case self_or_pri tskpri k of
        None \<Rightarrow> ((Ret E_PAR, k), None)
      | Some pri \<Rightarrow>
        let k1 = lock_cpu k; load = get_lod_loop (queues (ts k1) (ReadyQ pri)) 0
        in (leave E_OK k1, Some load))"

fun get_nth_loop :: "nat list \<Rightarrow> uint \<Rightarrow> int" where
  "get_nth_loop [] n = TSK_NONE"
| "get_nth_loop (t # q) n = (if n = 0 then OBJID t else get_nth_loop q (n - 1))"

definition get_nth :: "int \<Rightarrow> uint \<Rightarrow> kernel \<Rightarrow> (svc \<times> kernel) \<times> int option" where
  "get_nth tskpri n k =
     (if ctx_error k then ((Ret E_CTX, k), None)
      else case self_or_pri tskpri k of
        None \<Rightarrow> ((Ret E_PAR, k), None)
      | Some pri \<Rightarrow>
        let k1 = lock_cpu k; tskid = get_nth_loop (queues (ts k1) (ReadyQ pri)) n
        in (leave E_OK k1, Some tskid))"

definition loc_cpu :: "kernel \<Rightarrow> svc \<times> kernel" where
  "loc_cpu k = (Ret E_OK, if \<not> sense_lock k then lock_cpu k else k)"

definition unl_cpu :: "kernel \<Rightarrow> svc \<times> kernel" where
  "unl_cpu k = (Ret E_OK, if sense_lock k then unlock_cpu k else k)"

definition dis_dsp :: "kernel \<Rightarrow> svc \<times> kernel" where
  "dis_dsp k =
     (if ctx_error k then (Ret E_CTX, k)
      else leave E_OK (map_ts (\<lambda>s. s\<lparr>enadsp := False, dspflg := False\<rparr>) (lock_cpu k)))"

text \<open>The common end of \<open>ena_dsp\<close> and \<open>chg_ipm\<close>: dispatching is allowed again.\<close>

definition resume_dispatch :: "kernel \<Rightarrow> svc \<times> kernel" where
  "resume_dispatch k =
     (let k1 = map_ts set_dspflg k; t = runtsk k1
      in if raster (task k1 t) \<and> enater (task k1 t) then (NoReturn, exit_and_dispatch (task_terminate t k1))
         else leave E_OK (dispatch_if_needed k1))"

definition ena_dsp :: "kernel \<Rightarrow> svc \<times> kernel" where
  "ena_dsp k =
     (if ctx_error k then (Ret E_CTX, k)
      else let k1 = map_ts (\<lambda>s. s\<lparr>enadsp := True\<rparr>) (lock_cpu k)
        in if t_get_ipm k1 = TIPM_ENAALL then resume_dispatch k1 else leave E_OK k1)"

definition sns_ctx :: "kernel \<Rightarrow> bool" where "sns_ctx k = (if sense_context k then True else False)"
definition sns_loc :: "kernel \<Rightarrow> bool" where "sns_loc k = (if sense_lock k then True else False)"
definition sns_dsp :: "kernel \<Rightarrow> bool" where "sns_dsp k = (\<not> enadsp (ts k))"
definition sns_dpn :: "kernel \<Rightarrow> bool" where
  "sns_dpn k = (if sense_context k \<or> sense_lock k \<or> \<not> dspflg (ts k) then True else False)"
definition sns_ker :: "kernel \<Rightarrow> bool" where "sns_ker k = (if kerflg k then False else True)"

text \<open>\<open>exc_sense_intmask\<close> is what the processor tells about the context of the exception.\<close>

definition xsns_dpn :: "bool \<Rightarrow> kernel \<Rightarrow> bool" where
  "xsns_dpn exc_sense_intmask k =
     (if kerflg k \<and> exc_sense_intmask \<and> enadsp (ts k) \<and> p_runtsk (ts k) \<noteq> None then False else True)"

text \<open>\<open>tmin\<close> is \<open>TMIN_INTPRI\<close>, the highest interrupt priority of the target.\<close>

definition VALID_INTPRI_CHGIPM :: "int \<Rightarrow> int \<Rightarrow> bool" where
  "VALID_INTPRI_CHGIPM tmin intpri \<longleftrightarrow> tmin \<le> intpri \<and> intpri \<le> TIPM_ENAALL"

definition chg_ipm :: "int \<Rightarrow> int \<Rightarrow> kernel \<Rightarrow> svc \<times> kernel" where
  "chg_ipm tmin intpri k =
     (if ctx_error k then (Ret E_CTX, k)
      else if \<not> VALID_INTPRI_CHGIPM tmin intpri then (Ret E_PAR, k)
      else let k1 = t_set_ipm intpri (lock_cpu k)
        in if intpri = TIPM_ENAALL \<and> enadsp (ts k1) then resume_dispatch k1
           else leave E_OK (map_ts (\<lambda>s. s\<lparr>dspflg := False\<rparr>) k1))"

definition get_ipm :: "kernel \<Rightarrow> (svc \<times> kernel) \<times> int option" where
  "get_ipm k =
     (if ctx_error k then ((Ret E_CTX, k), None)
      else let k1 = lock_cpu k in (leave E_OK k1, Some (t_get_ipm k1)))"

section \<open>The loops over a ready queue\<close>

lemma get_lod_loop_length: "get_lod_loop q load = load + of_nat (length q)"
  by (induction q arbitrary: load) simp_all

lemma get_nth_loop_nth:
  "get_nth_loop q n = (if unat n < length q then OBJID (q ! unat n) else TSK_NONE)"
proof (induction q arbitrary: n)
  case (Cons t q)
  show ?case
  proof (cases "n = 0")
    case False
    then have "unat n \<noteq> 0" by (simp add: unat_eq_zero)
    then have "unat n = Suc (unat (n - 1))" by (simp add: unat_minus_one [OF False])
    then show ?thesis using False Cons by simp
  qed simp
qed simp

section \<open>The scheduler stays in order\<close>

text \<open>While dispatching is not allowed, the running task is the one to schedule, whatever becomes ready.\<close>

lemma rotate_midway [pres]:
  assumes m: "midway k" and p: "pri < TNUM_TPRI" shows "midway (map_ts (rotate_ready_queue pri) k)"
proof -
  have c: "consistent k" by (rule midwayD [OF m])
  have "core (loc k) (ts (map_ts (rotate_ready_queue pri) k))"
    using rotate_ready_queue_core [OF consistentD(1) [OF c] p] by (simp add: map_ts_def)
  then have "consistent (map_ts (rotate_ready_queue pri) k)" using consistentD(1) [OF c] c by (subst consistent_cong) auto
  moreover have "running t (map_ts (rotate_ready_queue pri) k) = running t k" for t by (simp add: running_def)
  ultimately show ?thesis using m by (auto simp: midway_def)
qed

lemma stop_dispatch_settled:
  assumes i: "in_task k" and f: "\<And>s. \<exists>e. f s = s\<lparr>enadsp := e, dspflg := False\<rparr>"
  shows "settled (map_ts f k)"
proof -
  have c: "consistent k" using i settledD in_task_settled by blast
  obtain e where fe: "f (ts k) = (ts k)\<lparr>enadsp := e, dspflg := False\<rparr>" using f by blast
  have "core (loc k) (f (ts k))" using consistentD(1) [OF c] by (simp add: fe core_defs)
  then have "consistent (map_ts f k)" using consistentD(1) [OF c] c by (subst consistent_cong) (auto simp: fe)
  moreover have "running v (map_ts f k) = running v k" for v by (simp add: running_def fe)
  moreover have "\<forall>t. p_runtsk (ts k) = Some t \<longrightarrow> running t k" "p_schedtsk (ts k) = p_runtsk (ts k)" "p_runtsk (ts k) \<noteq> None"
    using i unfolding in_task_def settled_def by metis+
  ultimately show ?thesis unfolding settled_def by (simp add: fe)
qed

lemma resume_dispatch_ok:
  assumes ok: "mtx_inv k" and c: "consistent k" and r: "running (runtsk k) k" and n: "\<not> sense_context k"
  shows "mtx_inv (snd (resume_dispatch k))" "settled (snd (resume_dispatch k))"
proof -
  define k1 where "k1 = map_ts set_dspflg k"
  have k1: "mtx_inv k1" "consistent k1" "running (runtsk k1) k1" "\<not> sense_context k1" "dspflg (ts k1)"
    using set_dspflg_consistent [OF c r] r n by (auto simp: k1_def running_def runtsk_def intro!: mtx_inv_keeps [OF ok] frame)
  have m: "midway k1" using k1 by (simp add: midway_def)
  show "mtx_inv (snd (resume_dispatch k))" "settled (snd (resume_dispatch k))"
    using exit_running_ok [OF k1] orderly_switch [OF k1(1) m]
    by (simp_all add: resume_dispatch_def Let_def k1_def [symmetric])
qed

lemma set_dsp_frame [frame]:
  "keeps K k k' \<Longrightarrow> keeps K k (map_ts (\<lambda>s. s\<lparr>enadsp := a, dspflg := b\<rparr>) k')"
  "keeps K k k' \<Longrightarrow> keeps K k (map_ts (\<lambda>s. s\<lparr>dspflg := b\<rparr>) k')"
  "keeps K k k' \<Longrightarrow> keeps K k (map_ts (\<lambda>s. s\<lparr>enadsp := a\<rparr>) k')"
  "prio_frame X k k' \<Longrightarrow> prio_frame X k (map_ts (\<lambda>s. s\<lparr>enadsp := a, dspflg := b\<rparr>) k')"
  "prio_frame X k k' \<Longrightarrow> prio_frame X k (map_ts (\<lambda>s. s\<lparr>dspflg := b\<rparr>) k')"
  "prio_frame X k k' \<Longrightarrow> prio_frame X k (map_ts (\<lambda>s. s\<lparr>enadsp := a\<rparr>) k')"
       apply (auto intro: keeps_step) [3]
    apply (erule prio_frame_same; simp add: map_ts_def)+
  done

lemma sys_calls_inv:
  assumes ok: "mtx_inv k"
  shows "called k \<Longrightarrow> mtx_inv (snd (rot_rdq tskpri k)) \<and> settled (snd (rot_rdq tskpri k))"
    "settled k \<Longrightarrow> mtx_inv (snd (fst (get_tid k))) \<and> settled (snd (fst (get_tid k)))"
    "settled k \<Longrightarrow> mtx_inv (snd (fst (get_lod tskpri k))) \<and> settled (snd (fst (get_lod tskpri k)))"
    "settled k \<Longrightarrow> mtx_inv (snd (fst (get_nth tskpri n k))) \<and> settled (snd (fst (get_nth tskpri n k)))"
    "settled k \<Longrightarrow> mtx_inv (snd (loc_cpu k)) \<and> settled (snd (loc_cpu k))"
    "settled k \<Longrightarrow> mtx_inv (snd (unl_cpu k)) \<and> settled (snd (unl_cpu k))"
    "in_task k \<Longrightarrow> mtx_inv (snd (dis_dsp k)) \<and> settled (snd (dis_dsp k))"
    "in_task k \<Longrightarrow> mtx_inv (snd (ena_dsp k)) \<and> settled (snd (ena_dsp k))"
    "in_task k \<Longrightarrow> mtx_inv (snd (chg_ipm tmin intpri k)) \<and> settled (snd (chg_ipm tmin intpri k))"
    "settled k \<Longrightarrow> mtx_inv (snd (fst (get_ipm k))) \<and> settled (snd (fst (get_ipm k)))"
proof -
  have ok1: "mtx_inv (lock_cpu k)" using ok by simp
  have p: "bpriority (task k (runtsk k)) < TNUM_TPRI" if "in_task k"
    using consistentD(4) [OF settledD [OF in_task_settled [OF that]], of "runtsk k"] running_exists [OF that] by (simp add: prio_ok_def)
  have rot: "mtx_inv (dispatch_or_request (map_ts (rotate_ready_queue q) (lock_cpu k))) \<and>
      settled (dispatch_or_request (map_ts (rotate_ready_queue q) (lock_cpu k)))" if "settled k" "q < TNUM_TPRI" for q
    using lock_entry [OF that(1)] that(2)
    by (auto intro!: mtx_inv_keeps [OF ok1] frame dispatch_or_request_settled rotate_midway)
  show "mtx_inv (snd (rot_rdq tskpri k)) \<and> settled (snd (rot_rdq tskpri k))" if "called k"
    using rot p called_settled [OF that] ok that
    by (auto simp: rot_rdq_def Let_def INT_PRIORITY_less called_def in_task_def)
  show "settled k \<Longrightarrow> mtx_inv (snd (fst (get_tid k))) \<and> settled (snd (fst (get_tid k)))"
    using ok by (simp add: get_tid_def Let_def take_lock_def give_lock_def lock_entry)
  show "settled k \<Longrightarrow> mtx_inv (snd (fst (get_lod tskpri k))) \<and> settled (snd (fst (get_lod tskpri k)))"
    "settled k \<Longrightarrow> mtx_inv (snd (fst (get_nth tskpri n k))) \<and> settled (snd (fst (get_nth tskpri n k)))"
    "settled k \<Longrightarrow> mtx_inv (snd (fst (get_ipm k))) \<and> settled (snd (fst (get_ipm k)))"
    using ok by (simp_all add: get_lod_def get_nth_def get_ipm_def Let_def lock_entry split: option.split)
  show "settled k \<Longrightarrow> mtx_inv (snd (loc_cpu k)) \<and> settled (snd (loc_cpu k))"
    "settled k \<Longrightarrow> mtx_inv (snd (unl_cpu k)) \<and> settled (snd (unl_cpu k))"
    using ok by (simp_all add: loc_cpu_def unl_cpu_def lock_entry)
  have stop: "settled (map_ts (\<lambda>s. s\<lparr>enadsp := False, dspflg := False\<rparr>) (lock_cpu k))"
    "settled (map_ts (\<lambda>s. s\<lparr>dspflg := False\<rparr>) (t_set_ipm intpri (lock_cpu k)))" if "in_task k"
  proof -
    have i: "in_task (lock_cpu k)" "in_task (t_set_ipm intpri (lock_cpu k))" using that by (simp_all add: in_task_lock t_set_ipm_def)
    show "settled (map_ts (\<lambda>s. s\<lparr>enadsp := False, dspflg := False\<rparr>) (lock_cpu k))"
      by (rule stop_dispatch_settled [OF i(1)]) blast
    show "settled (map_ts (\<lambda>s. s\<lparr>dspflg := False\<rparr>) (t_set_ipm intpri (lock_cpu k)))"
      by (rule stop_dispatch_settled [OF i(2)]) (metis tskst.surjective tskst.update_convs(7))
  qed
  show "mtx_inv (snd (dis_dsp k)) \<and> settled (snd (dis_dsp k))" if "in_task k"
    using stop(1) [OF that] ok in_task_settled [OF that] by (auto simp: dis_dsp_def intro!: mtx_inv_keeps [OF ok1] frame)
  have i: "consistent (lock_cpu k)" "running (runtsk (lock_cpu k)) (lock_cpu k)" "\<not> sense_context (lock_cpu k)" "settled (lock_cpu k)" if "in_task k"
    using in_task_running [of "lock_cpu k"] lock_entry_task [OF that] settledD in_task_not_ctx [OF that] by (auto simp: in_task_lock)
  have e: "settled (map_ts (\<lambda>s. s\<lparr>enadsp := True\<rparr>) k')" if "settled k'" for k'
    using that by (simp add: settled_def)
  show "mtx_inv (snd (ena_dsp k)) \<and> settled (snd (ena_dsp k))" if "in_task k"
    using resume_dispatch_ok [of "map_ts (\<lambda>s. s\<lparr>enadsp := True\<rparr>) (lock_cpu k)"] i [OF that] ok in_task_settled [OF that] e
    by (auto simp: ena_dsp_def Let_def runtsk_def)
  show "mtx_inv (snd (chg_ipm tmin intpri k)) \<and> settled (snd (chg_ipm tmin intpri k))" if "in_task k"
  proof -
    have "mtx_inv (t_set_ipm intpri (lock_cpu k))" "consistent (t_set_ipm intpri (lock_cpu k))"
      "running (runtsk (t_set_ipm intpri (lock_cpu k))) (t_set_ipm intpri (lock_cpu k))" "\<not> sense_context (t_set_ipm intpri (lock_cpu k))"
      using i [OF that] ok by (simp_all add: t_set_ipm_def runtsk_def) (simp add: sense_context_def lock_cpu_def)
    note r = resume_dispatch_ok [OF this]
    have "mtx_inv (map_ts (\<lambda>s. s\<lparr>dspflg := False\<rparr>) (t_set_ipm intpri (lock_cpu k)))"
      by (rule mtx_inv_keeps [OF \<open>mtx_inv (t_set_ipm intpri (lock_cpu k))\<close>]) (auto intro!: frame)
    then show ?thesis using r stop(2) [OF that] ok in_task_settled [OF that] by (auto simp: chg_ipm_def Let_def)
  qed
qed

lemma sys_calls_keep:
  "keeps K k (snd (rot_rdq tskpri k))" "keeps K k (snd (fst (get_tid k)))" "keeps K k (snd (fst (get_lod tskpri k)))"
  "keeps K k (snd (fst (get_nth tskpri n k)))" "keeps K k (snd (loc_cpu k))" "keeps K k (snd (unl_cpu k))"
  "keeps K k (snd (dis_dsp k))" "keeps K k (snd (fst (get_ipm k)))"
  "K \<noteq> KMtx \<Longrightarrow> keeps K k (snd (ena_dsp k))" "K \<noteq> KMtx \<Longrightarrow> keeps K k (snd (chg_ipm tmin intpri k))"
  by (auto simp: rot_rdq_def get_tid_def get_lod_def get_nth_def loc_cpu_def unl_cpu_def dis_dsp_def get_ipm_def ena_dsp_def
      chg_ipm_def resume_dispatch_def take_lock_def give_lock_def t_set_ipm_def Let_def intro!: frame split: option.split)

end
