(* ===== verification/TimeManage.thy ===== *)
theory TimeManage
  imports SysManage Semaphore Eventflag Dataqueue
begin

unbundle bit_operations_syntax

text \<open>
  The service calls on the system time, asp3\_dcre/kernel/time\_manage.c, and the handler that carries out
  the notifications of cyclic and alarm objects: it writes a variable of the application or makes
  a service call, and if the call fails notifies the error in turn.
\<close>

section \<open>System time\<close>

definition set_tim :: "64 word \<Rightarrow> kernel \<Rightarrow> svc \<times> kernel" where
  "set_tim time k =
     (if sense_context k then (Ret E_CTX, k)
      else
        let lock = sense_lock k;
            k1 = map_tm update_current_evttim (take_lock k);
            k2 = map_tm (\<lambda>m. m\<lparr>systim_offset := time - ucast (monotonic_evttim m)\<rparr>) k1
        in (Ret E_OK, give_lock lock k2))"

definition get_tim :: "kernel \<Rightarrow> (svc \<times> kernel) \<times> 64 word option" where
  "get_tim k =
     (if sense_context k then ((Ret E_CTX, k), None)
      else
        let lock = sense_lock k;
            k1 = map_tm update_current_evttim (take_lock k)
        in ((Ret E_OK, give_lock lock k1), Some (systim_offset (tm k1) + ucast (monotonic_evttim (tm k1)))))"

abbreviation TMIN_ADJTIM :: int where "TMIN_ADJTIM \<equiv> - 1000000"
abbreviation TMAX_ADJTIM_int :: int where "TMAX_ADJTIM_int \<equiv> 1000000"

text \<open>The change of the times in \<open>adj_tim\<close>.\<close>

definition adjust :: "int \<Rightarrow> tme \<Rightarrow> tme" where
  "adjust adjtim s =
     (let previous_evttim = current_evttim s;
          s1 = s\<lparr>current_evttim := current_evttim s + word_of_int adjtim\<rparr>;
          s2 = set_boundary (adjtim < 0) (current_evttim s1 - BOUNDARY_MARGIN) s1
      in if adjtim > 0 \<and> monotonic_evttim s2 - previous_evttim < word_of_int adjtim then
           let s3 = (if current_evttim s2 < monotonic_evttim s2
                     then s2\<lparr>systim_offset := systim_offset s2 + push_bit 32 1\<rparr> else s2)
           in s3\<lparr>monotonic_evttim := current_evttim s3\<rparr>
         else s2)"

definition adj_tim :: "int \<Rightarrow> kernel \<Rightarrow> svc \<times> kernel" where
  "adj_tim adjtim k =
     (if sense_lock k then (Ret E_CTX, k)
      else if \<not> (TMIN_ADJTIM \<le> adjtim \<and> adjtim \<le> TMAX_ADJTIM_int) then (Ret E_PAR, k)
      else
        let k1 = map_tm update_current_evttim (lock_cpu k)
        in if check_adjtim adjtim (tm k1) then leave E_OBJ k1
           else
             let k2 = map_tm (adjust adjtim) k1;
                 k3 = (if \<not> in_signal_time (tm k2) then map_tm set_hrt_event k2 else k2)
             in leave E_OK k3)"

definition fch_hrt :: "kernel \<Rightarrow> HRTCNT \<times> kernel" where
  "fch_hrt k = (let (hrtcnt, m) = target_hrt_get_current (tm k) in (hrtcnt, map_tm (\<lambda>_. m) k))"

section \<open>Notification\<close>

abbreviation TNFY_HANDLER :: uint where "TNFY_HANDLER \<equiv> 0x00"
abbreviation TNFY_SETVAR :: uint where "TNFY_SETVAR \<equiv> 0x01"
abbreviation TNFY_INCVAR :: uint where "TNFY_INCVAR \<equiv> 0x02"
abbreviation TNFY_ACTTSK :: uint where "TNFY_ACTTSK \<equiv> 0x03"
abbreviation TNFY_WUPTSK :: uint where "TNFY_WUPTSK \<equiv> 0x04"
abbreviation TNFY_SIGSEM :: uint where "TNFY_SIGSEM \<equiv> 0x05"
abbreviation TNFY_SETFLG :: uint where "TNFY_SETFLG \<equiv> 0x06"
abbreviation TNFY_SNDDTQ :: uint where "TNFY_SNDDTQ \<equiv> 0x07"
abbreviation TENFY_SETVAR :: uint where "TENFY_SETVAR \<equiv> 0x10"
abbreviation TENFY_INCVAR :: uint where "TENFY_INCVAR \<equiv> 0x20"
abbreviation TENFY_ACTTSK :: uint where "TENFY_ACTTSK \<equiv> 0x30"
abbreviation TENFY_WUPTSK :: uint where "TENFY_WUPTSK \<equiv> 0x40"
abbreviation TENFY_SIGSEM :: uint where "TENFY_SIGSEM \<equiv> 0x50"
abbreviation TENFY_SETFLG :: uint where "TENFY_SETFLG \<equiv> 0x60"
abbreviation TENFY_SNDDTQ :: uint where "TENFY_SNDDTQ \<equiv> 0x70"

text \<open>
  The checks of the information: the one on the notification, then the one on errors. \<open>thumb\<close> turns the
  alignment test of functions off.
\<close>

definition var_error :: "addr \<Rightarrow> er" where
  "var_error p = (if \<not> ALIGNED p 4 then E_PAR else if p = 0 then E_PAR else E_OK)"

definition id_error :: "int \<Rightarrow> int \<Rightarrow> er" where
  "id_error tmax objid = (if \<not> VALID_ID tmax objid then E_ID else E_OK)"

definition check_nfyinfo :: "bool \<Rightarrow> kernel \<Rightarrow> nfyinfo \<Rightarrow> er" where
  "check_nfyinfo thumb k n =
     (if nfymode n = TNFY_HANDLER then
        if \<not> (thumb \<or> ALIGNED (nfy_tmehdr n) 4) then E_PAR
        else if nfy_tmehdr n = 0 then E_PAR else E_OK
      else
        let m = nfymode n AND 0x0f; em = nfymode n AND NOT 0x0f;
            e1 = (if m = TNFY_SETVAR \<or> m = TNFY_INCVAR then if em \<noteq> 0 then E_PAR else var_error (nfy_var n)
                  else if m = TNFY_ACTTSK \<or> m = TNFY_WUPTSK then id_error (tmax_tskid k) (nfy_tskid n)
                  else if m = TNFY_SIGSEM then id_error (tmax_semid k) (nfy_semid n)
                  else if m = TNFY_SETFLG then id_error (tmax_flgid k) (nfy_flgid n)
                  else if m = TNFY_SNDDTQ then id_error (tmax_dtqid k) (nfy_dtqid n)
                  else E_PAR)
        in if e1 \<noteq> E_OK then e1
           else if em = 0 then E_OK
           else if em = TENFY_SETVAR \<or> em = TENFY_INCVAR then var_error (enfy_var n)
           else if em = TENFY_ACTTSK \<or> em = TENFY_WUPTSK then id_error (tmax_tskid k) (enfy_tskid n)
           else if em = TENFY_SIGSEM then id_error (tmax_semid k) (enfy_semid n)
           else if em = TENFY_SETFLG then id_error (tmax_flgid k) (enfy_flgid n)
           else if em = TENFY_SNDDTQ then id_error (tmax_dtqid k) (enfy_dtqid n)
           else E_PAR)"

text \<open>The calls a notification makes return a code; none of them waits.\<close>

definition ercd_of :: "svc \<Rightarrow> er" where
  "ercd_of r = (case r of Ret e \<Rightarrow> e | _ \<Rightarrow> E_OK)"

definition write_var :: "addr \<Rightarrow> intptr_t \<Rightarrow> kernel \<Rightarrow> kernel" where
  "write_var p v k = k\<lparr>uvar := (uvar k)(p := v)\<rparr>"

definition increment_var :: "addr \<Rightarrow> kernel \<Rightarrow> kernel" where
  "increment_var p k = (let k1 = snd (loc_cpu k); k2 = write_var p (uvar k1 p + 1) k1 in snd (unl_cpu k2))"

definition notify_event :: "nfyinfo \<Rightarrow> kernel \<Rightarrow> er \<times> kernel" where
  "notify_event n k =
     (let m = nfymode n AND 0x0f; call = (\<lambda>(r, k'). (ercd_of r, k'))
      in if m = TNFY_SETVAR then (E_OK, write_var (nfy_var n) (nfy_value n) k)
         else if m = TNFY_INCVAR then (E_OK, increment_var (nfy_var n) k)
         else if m = TNFY_ACTTSK then call (act_tsk (nfy_tskid n) k)
         else if m = TNFY_WUPTSK then call (wup_tsk (nfy_tskid n) k)
         else if m = TNFY_SIGSEM then call (sig_sem (nfy_semid n) k)
         else if m = TNFY_SETFLG then call (set_flg (nfy_flgid n) (nfy_flgptn n) k)
         else if m = TNFY_SNDDTQ then call (psnd_dtq (nfy_dtqid n) (nfy_data n) k)
         else (E_SYS, k))"

definition notify_error :: "nfyinfo \<Rightarrow> er \<Rightarrow> kernel \<Rightarrow> kernel" where
  "notify_error n ercd k =
     (let m = nfymode n AND NOT 0x0f; code = word_of_int (ER_code ercd)
      in if m = TENFY_SETVAR then write_var (enfy_var n) code k
         else if m = TENFY_INCVAR then increment_var (enfy_var n) k
         else if m = TENFY_ACTTSK then snd (act_tsk (enfy_tskid n) k)
         else if m = TENFY_WUPTSK then snd (wup_tsk (enfy_tskid n) k)
         else if m = TENFY_SIGSEM then snd (sig_sem (enfy_semid n) k)
         else if m = TENFY_SETFLG then snd (set_flg (enfy_flgid n) (enfy_flgptn n) k)
         else if m = TENFY_SNDDTQ then snd (psnd_dtq (enfy_dtqid n) code k)
         else k)"

definition notify_handler :: "nfyinfo \<Rightarrow> kernel \<Rightarrow> kernel" where
  "notify_handler n k =
     (let (ercd, k1) = notify_event n k
      in if ercd \<noteq> E_OK then notify_error n ercd k1 else k1)"

section \<open>The calls leave the timers registered\<close>

lemma settled_timers:
  assumes "settled k" "\<And>A. registered (tm k) A \<Longrightarrow> registered (f (tm k)) A"
  shows "settled (map_tm f k)"
proof -
  have "map_tm f k = map_tm (\<lambda>_. f (tm k)) k" by (simp add: map_tm_def)
  then have "consistent (map_tm f k)" using consistent_timers [OF settledD [OF assms(1)] assms(2)] by simp
  then show ?thesis using assms(1) by (simp add: settled_def running_def)
qed

lemma mtx_inv_timers: "mtx_ok Q X k \<Longrightarrow> mtx_ok Q X (map_tm f k)"
  by (rule mtx_inv_keeps) (auto intro!: frame)

lemma registered_adjust [simp]:
  assumes "registered s A" shows "registered (adjust a s) A"
proof -
  let ?s1 = "s\<lparr>current_evttim := current_evttim s + word_of_int a\<rparr>"
  let ?u = "set_boundary (a < 0) (current_evttim ?s1 - BOUNDARY_MARGIN) ?s1"
  have "registered ?s1 A" using assms by (subst registered_same [of _ s]) simp_all
  then have "registered ?u A" by (rule registered_boundary)
  moreover have "registered (adjust a s) A = registered ?u A"
    by (rule registered_same) (simp_all add: adjust_def set_boundary_def Let_def)
  ultimately show ?thesis by simp
qed

lemma registered_read [simp]: "registered (snd (target_hrt_get_current s)) A = registered s A"
  by (rule registered_same) (simp_all add: target_hrt_get_current_def)

lemma registered_offset [simp]: "registered (m\<lparr>systim_offset := x\<rparr>) A = registered m A"
  by (rule registered_same) simp_all

lemma give_take_lock [simp]:
  "settled (give_lock l k) = settled k" "mtx_ok Q X (give_lock l k) = mtx_ok Q X k" "keeps K k' (give_lock l k) = keeps K k' k"
  "mtx_ok Q X (take_lock k) = mtx_ok Q X k" "keeps K k' (take_lock k) = keeps K k' k" "settled k \<Longrightarrow> settled (take_lock k)"
  by (simp_all add: give_lock_def take_lock_def lock_entry)

lemma time_calls_inv:
  assumes "mtx_inv k" "settled k"
  shows "mtx_inv (snd (set_tim time k)) \<and> settled (snd (set_tim time k))"
    "mtx_inv (snd (fst (get_tim k))) \<and> settled (snd (fst (get_tim k)))"
    "mtx_inv (snd (adj_tim a k)) \<and> settled (snd (adj_tim a k))" "mtx_inv (snd (fch_hrt k)) \<and> settled (snd (fch_hrt k))"
  using assms lock_entry [OF assms(2)]
  by (auto simp: set_tim_def get_tim_def adj_tim_def fch_hrt_def Let_def case_prod_unfold intro!: settled_timers mtx_inv_timers)

lemma time_calls_keep:
  "keeps K k (snd (set_tim time k))" "keeps K k (snd (fst (get_tim k)))" "keeps K k (snd (adj_tim a k))" "keeps K k (snd (fch_hrt k))"
  by (simp_all add: set_tim_def get_tim_def adj_tim_def fch_hrt_def Let_def case_prod_unfold leave_def)

section \<open>Adjusting the time keeps the order of the time events\<close>

lemma event_key_adjust: "event_key (adjust a s) r = evttim (tmevtb_tab s r) - (current_evttim s + word_of_int a - BOUNDARY_MARGIN)"
  by (simp add: adjust_def set_boundary_def event_key_def EVTTIM_ADVANCE_def Let_def)

text \<open>
  The clock may be put forward by a second only while no event is overdue by more than a second
  (\<open>check_adjtim\<close>): so no event falls behind the boundary from which event times are counted, and the
  auxiliary variable \<open>window_left\<close> stays as it is.
\<close>

lemma adjust_forward:
  assumes t: "timers s A" and b: "boundary_evttim s = current_evttim s - BOUNDARY_MARGIN"
    and a: "0 < a" "a \<le> TMAX_ADJTIM_int" and c: "\<not> check_adjtim a s" and r: "r \<in> A"
  shows "event_key (adjust a s) r = event_key s r - word_of_int a" "word_of_int a \<le> event_key s r"
    "window_left (adjust a s) = window_left s"
proof -
  let ?k = "event_key s (tmevt_heap s 1)"
  have "1 \<le> p_last s" using t r in_heap_empty [of s A] by (auto simp: timers_def)
  then have "\<not> EVTTIM_LE s (top_evttim s + TMAX_ADJTIM) (current_evttim s)" using c a(1) by (simp add: check_adjtim_def)
  then have k: "\<not> ?k + TMAX_ADJTIM \<le> BOUNDARY_MARGIN"
    by (simp add: EVTTIM_LE_def EVTTIM_ADVANCE_def top_evttim_def node_evttim_def event_key_def b algebra_simps)
  have "(word_of_int a :: EVTTIM) \<le> TMAX_ADJTIM"
    using a by (simp add: word_le_def uint_word_of_int)
  moreover have "TMAX_ADJTIM \<le> ?k" using k by unat_arith
  ultimately have le: "word_of_int a \<le> event_key s x" if "x \<in> A" for x using timers_top [OF t that] by (meson order_trans)
  then show "word_of_int a \<le> event_key s r" using r by simp
  have n: "current_evttim s + word_of_int a - BOUNDARY_MARGIN - boundary_evttim s = word_of_int a"
  proof -
    have "x + d - m - (x - m) = d" for x d m :: EVTTIM by simp
    then show ?thesis unfolding b .
  qed
  have "in_heap s A" using t by (simp add: timers_def)
  then have "tmevt_heap s i \<in> A" if "i \<in> set [1..<p_last s + 1]" for i
    using that by (intro linked_in [of s "nodes (p_last s)"]) (auto simp: in_heap_def)
  then have "\<not> key s i < word_of_int a" if "i \<in> set [1..<p_last s + 1]" for i using le that by (simp only: key_event not_less)
  then have "\<not> passes_event False (current_evttim s + word_of_int a - BOUNDARY_MARGIN) s"
    by (simp only: passes_event_def n if_False) blast
  moreover have "passes_event False e (s\<lparr>current_evttim := c\<rparr>) = passes_event False e s" for e c
    by (rule passes_event_same) simp_all
  ultimately show "window_left (adjust a s) = window_left s" using a(1) by (simp add: adjust_def set_boundary_def Let_def)
  show "event_key (adjust a s) r = event_key s r - word_of_int a"
    by (rule trans [OF event_key_adjust]) (simp add: event_key_def EVTTIM_ADVANCE_def b)
qed

end
