(* ===== verification/Cyclic.thy ===== *)
theory Cyclic
  imports TimeManage
begin

unbundle bit_operations_syntax

text \<open>
  Cyclic notifications, asp3\_dcre/kernel/cyclic.c. A cyclic object that operates (\<open>cycsta\<close>) has its time
  event in the heap; \<open>call_cyclic\<close> is its call back, which registers the next event one period later and
  then runs the handler with the CPU lock released. \<open>cyc_inv\<close> is the invariant of the table. The handlers of
  the application are a parameter \<open>uh\<close>: the effect on the kernel of the function at an address, called
  with an \<open>exinf\<close>.
\<close>

section \<open>Operations\<close>

definition cyc_exists :: "kernel \<Rightarrow> nat \<Rightarrow> bool" where
  "cyc_exists k i \<longleftrightarrow> cycatr (cycinib k i) \<noteq> TA_NOEXS"

definition upd_cycinib :: "nat \<Rightarrow> (cycinib \<Rightarrow> cycinib) \<Rightarrow> kernel \<Rightarrow> kernel" where
  "upd_cycinib i f k = k\<lparr>cycinib := (cycinib k)(i := f (cycinib k i))\<rparr>"

definition set_cycsta :: "nat \<Rightarrow> bool \<Rightarrow> kernel \<Rightarrow> kernel" where
  "set_cycsta i b k = k\<lparr>cyccb := (cyccb k)(i := \<lparr>cycsta = b\<rparr>)\<rparr>"

definition set_callback :: "tmevtb_ref \<Rightarrow> cback \<Rightarrow> nat \<Rightarrow> tme \<Rightarrow> tme" where
  "set_callback r cb a m = m\<lparr>tmevtb_tab := (tmevtb_tab m)(r := (tmevtb_tab m r)\<lparr>callback := cb, arg := a\<rparr>)\<rparr>"

definition set_evttim :: "tmevtb_ref \<Rightarrow> EVTTIM \<Rightarrow> tme \<Rightarrow> tme" where
  "set_evttim r e m = m\<lparr>tmevtb_tab := (tmevtb_tab m)(r := (tmevtb_tab m r)\<lparr>evttim := e\<rparr>)\<rparr>"

text \<open>The two loops of \<open>initialize_cyclic\<close>, over the static objects and over those that can be created.\<close>

definition init_static_cyc :: "nat \<Rightarrow> kernel \<Rightarrow> kernel" where
  "init_static_cyc i k =
     (let k1 = map_tm (set_callback (CycTM i) Call_cyclic i) k
      in if cycatr (cycinib k1 i) AND TA_STA \<noteq> 0 then
           let k2 = map_tm (set_evttim (CycTM i) (cycphs (cycinib k1 i))) (set_cycsta i True k1)
           in map_tm (tmevtb_register (CycTM i)) k2
         else set_cycsta i False k1)"

definition init_free_cyc :: "nat \<Rightarrow> kernel \<Rightarrow> kernel" where
  "init_free_cyc i k =
     (let k1 = upd_cycinib i (\<lambda>b. b\<lparr>cycatr := TA_NOEXS\<rparr>) k;
          k2 = map_tm (set_callback (CycTM i) Call_cyclic i) k1
      in k2\<lparr>free_cyccb := free_cyccb k2 @ [i]\<rparr>)"

definition initialize_cyclic :: "kernel \<Rightarrow> kernel" where
  "initialize_cyclic k =
     (let n = nat (tmax_scycid k); m = nat (tmax_cycid k);
          k1 = fold init_static_cyc [0..<n] k
      in fold init_free_cyc [n..<m] (k1\<lparr>free_cyccb := []\<rparr>))"

definition fill_cycinib :: "nat \<Rightarrow> ATR \<Rightarrow> nfyinfo \<Rightarrow> RELTIM \<Rightarrow> RELTIM \<Rightarrow> kernel \<Rightarrow> kernel" where
  "fill_cycinib i atr nfy tim phs k =
     (let k1 = upd_cycinib i (\<lambda>b. b\<lparr>cycatr := atr\<rparr>) k;
          k2 = (if nfymode nfy = TNFY_HANDLER then
                  upd_cycinib i (\<lambda>b. b\<lparr>cyc_exinf := ExInf (nfy_exinf nfy), cyc_nfyhdr := UserHandler (nfy_tmehdr nfy)\<rparr>) k1
                else let j = i - nat (tmax_scycid k1)
                     in upd_cycinib i (\<lambda>b. b\<lparr>cyc_exinf := CycNfy j, cyc_nfyhdr := NotifyHandler\<rparr>)
                          (k1\<lparr>acyc_nfyinfo_table := (acyc_nfyinfo_table k1)(j := nfy)\<rparr>))
      in upd_cycinib i (\<lambda>b. b\<lparr>cyctim := tim, cycphs := phs\<rparr>) k2)"

definition acre_cyc :: "bool \<Rightarrow> ATR \<Rightarrow> nfyinfo \<Rightarrow> RELTIM \<Rightarrow> RELTIM \<Rightarrow> kernel \<Rightarrow> svc \<times> kernel" where
  "acre_cyc thumb atr nfy tim phs k =
     (if ctx_error k then (Ret E_CTX, k)
      else if atr AND NOT TA_STA \<noteq> 0 then (Ret E_RSATR, k)
      else if check_nfyinfo thumb k nfy \<noteq> E_OK then (Ret (check_nfyinfo thumb k nfy), k)
      else if \<not> (0 < tim \<and> tim \<le> TMAX_RELTIM) then (Ret E_PAR, k)
      else if \<not> (0 \<le> phs \<and> phs \<le> TMAX_RELTIM) then (Ret E_PAR, k)
      else let k1 = lock_cpu k in
        if tmax_cycid k1 = 0 \<or> free_cyccb k1 = [] then leave E_NOID k1
        else let i = hd (free_cyccb k1);
                 k2 = fill_cycinib i atr nfy tim phs (k1\<lparr>free_cyccb := tl (free_cyccb k1)\<rparr>);
                 k3 = (if cycatr (cycinib k2 i) AND TA_STA \<noteq> 0 then
                         map_tm (tmevtb_enqueue_reltim (CycTM i) (cycphs (cycinib k2 i))) (set_cycsta i True k2)
                       else set_cycsta i False k2)
             in leave_uint (OBJID i) k3)"

definition stop_cyc :: "nat \<Rightarrow> kernel \<Rightarrow> kernel" where
  "stop_cyc i k = (if cycsta (cyccb k i) then map_tm (tmevtb_dequeue (CycTM i)) (set_cycsta i False k) else k)"

definition del_cyc :: "int \<Rightarrow> kernel \<Rightarrow> svc \<times> kernel" where
  "del_cyc cycid k =
     (if ctx_error k then (Ret E_CTX, k)
      else if \<not> VALID_ID (tmax_cycid k) cycid then (Ret E_ID, k)
      else let i = INDEX cycid; k1 = lock_cpu k in
        if \<not> cyc_exists k1 i then leave E_NOEXS k1
        else if cycid \<le> tmax_scycid k1 then leave E_OBJ k1
        else let k2 = stop_cyc i k1;
                 k3 = upd_cycinib i (\<lambda>b. b\<lparr>cycatr := TA_NOEXS\<rparr>) k2
             in leave E_OK (k3\<lparr>free_cyccb := free_cyccb k3 @ [i]\<rparr>))"

definition sta_cyc :: "int \<Rightarrow> kernel \<Rightarrow> svc \<times> kernel" where
  "sta_cyc cycid k =
     (if ctx_error k then (Ret E_CTX, k)
      else if \<not> VALID_ID (tmax_cycid k) cycid then (Ret E_ID, k)
      else let i = INDEX cycid; k1 = lock_cpu k in
        if \<not> cyc_exists k1 i then leave E_NOEXS k1
        else let k2 = (if cycsta (cyccb k1 i) then map_tm (tmevtb_dequeue (CycTM i)) k1 else set_cycsta i True k1)
             in leave E_OK (map_tm (tmevtb_enqueue_reltim (CycTM i) (cycphs (cycinib k2 i))) k2))"

definition stp_cyc :: "int \<Rightarrow> kernel \<Rightarrow> svc \<times> kernel" where
  "stp_cyc cycid k =
     (if ctx_error k then (Ret E_CTX, k)
      else if \<not> VALID_ID (tmax_cycid k) cycid then (Ret E_ID, k)
      else let i = INDEX cycid; k1 = lock_cpu k in
        if \<not> cyc_exists k1 i then leave E_NOEXS k1
        else leave E_OK (stop_cyc i k1))"

text \<open>\<open>ref_cyc\<close> writes \<open>lefttim\<close> only for an object that operates.\<close>

abbreviation TCYC_STP :: uint where "TCYC_STP \<equiv> 0x01"
abbreviation TCYC_STA :: uint where "TCYC_STA \<equiv> 0x02"

definition ref_cyc :: "int \<Rightarrow> kernel \<Rightarrow> (svc \<times> kernel) \<times> (uint \<times> RELTIM option) option" where
  "ref_cyc cycid k =
     (if ctx_error k then ((Ret E_CTX, k), None)
      else if \<not> VALID_ID (tmax_cycid k) cycid then ((Ret E_ID, k), None)
      else let i = INDEX cycid; k1 = lock_cpu k in
        if \<not> cyc_exists k1 i then (leave E_NOEXS k1, None)
        else if cycsta (cyccb k1 i) then
          let (left, m) = tmevt_lefttim (CycTM i) (tm k1)
          in (leave E_OK (map_tm (\<lambda>_. m) k1), Some (TCYC_STA, Some left))
        else (leave E_OK k1, Some (TCYC_STP, None)))"

section \<open>The call back\<close>

text \<open>
  The handler of an object: a function of the application, or \<open>notify_handler\<close> on the information \<open>exinf\<close>
  points to. \<open>cyc_inv\<close> rules out \<open>notify_handler\<close> with another \<open>exinf\<close>.
\<close>

definition nfyinfo_at :: "kernel \<Rightarrow> exinf_t \<Rightarrow> nfyinfo option" where
  "nfyinfo_at k e = (case e of CycNfy j \<Rightarrow> Some (acyc_nfyinfo_table k j) | AlmNfy j \<Rightarrow> Some (aalm_nfyinfo_table k j)
     | ExInf _ \<Rightarrow> None)"

definition run_handler :: "(addr \<Rightarrow> exinf_t \<Rightarrow> kernel \<Rightarrow> kernel) \<Rightarrow> nfyhdr \<Rightarrow> exinf_t \<Rightarrow> kernel \<Rightarrow> kernel" where
  "run_handler uh h e k =
     (case h of UserHandler a \<Rightarrow> uh a e k
      | NotifyHandler \<Rightarrow> (case nfyinfo_at k e of Some n \<Rightarrow> notify_handler n k | None \<Rightarrow> k))"

definition relock :: "kernel \<Rightarrow> kernel" where
  "relock k = (if \<not> sense_lock k then lock_cpu k else k)"

definition call_cyclic :: "(addr \<Rightarrow> exinf_t \<Rightarrow> kernel \<Rightarrow> kernel) \<Rightarrow> nat \<Rightarrow> kernel \<Rightarrow> kernel" where
  "call_cyclic uh i k =
     (let k1 = map_tm (\<lambda>m. set_evttim (CycTM i) (evttim (tmevtb_tab m (CycTM i)) + cyctim (cycinib k i)) m) k;
          k2 = map_tm (tmevtb_register (CycTM i)) k1;
          k3 = unlock_cpu k2
      in relock (run_handler uh (cyc_nfyhdr (cycinib k3 i)) (cyc_exinf (cycinib k3 i)) k3))"

section \<open>The time events of the notifications\<close>

lemma in_active [simp]:
  "TskTM t \<in> active k \<longleftrightarrow> timed k t" "CycTM i \<in> active k \<longleftrightarrow> cyc_on k i" "AlmTM i \<in> active k \<longleftrightarrow> alm_on k i"
  by (auto simp: active_def)

lemma active_eqI:
  assumes "\<And>t. timed k t \<longleftrightarrow> TskTM t \<in> A" "\<And>i. cyc_on k i \<longleftrightarrow> CycTM i \<in> A" "\<And>i. alm_on k i \<longleftrightarrow> AlmTM i \<in> A"
  shows "active k = A"
proof (rule set_eqI)
  fix r show "r \<in> active k \<longleftrightarrow> r \<in> A" using assms by (cases r) simp_all
qed

text \<open>A step that touches neither tasks nor queues is in order when the heap follows the notifications.\<close>

lemma settled_active:
  assumes s: "settled k" and "ts k' = ts k" "tmax_tskid k' = tmax_tskid k" "excpt_ctx k' = excpt_ctx k"
    and r: "registered (tm k') (active k')"
  shows "settled k'"
proof -
  have "loc k' = loc k" "\<And>t. task_ok k' t = task_ok k t" "\<And>t. prio_ok k' t = prio_ok k t"
    using assms by (simp_all add: loc_def task_ok_def prio_ok_def exists_task_def fun_eq_iff)
  then have "consistent k'" using settledD [OF s] assms(2) r by (simp add: consistent_def)
  then show ?thesis using assms by (simp add: settled_def running_def sense_context_def)
qed

lemma cyc_ops_sel [simp]:
  "ts (upd_cycinib i f k) = ts k" "tm (upd_cycinib i f k) = tm k" "tmax_tskid (upd_cycinib i f k) = tmax_tskid k"
  "excpt_ctx (upd_cycinib i f k) = excpt_ctx k" "cyccb (upd_cycinib i f k) = cyccb k" "free_cyccb (upd_cycinib i f k) = free_cyccb k"
  "tmax_cycid (upd_cycinib i f k) = tmax_cycid k" "tmax_scycid (upd_cycinib i f k) = tmax_scycid k"
  "cycinib (upd_cycinib i f k) = (cycinib k)(i := f (cycinib k i))" "alm_on (upd_cycinib i f k) = alm_on k"
  "ts (set_cycsta i b k) = ts k" "tm (set_cycsta i b k) = tm k" "tmax_tskid (set_cycsta i b k) = tmax_tskid k"
  "excpt_ctx (set_cycsta i b k) = excpt_ctx k" "cyccb (set_cycsta i b k) = (cyccb k)(i := \<lparr>cycsta = b\<rparr>)"
  "free_cyccb (set_cycsta i b k) = free_cyccb k" "tmax_cycid (set_cycsta i b k) = tmax_cycid k"
  "tmax_scycid (set_cycsta i b k) = tmax_scycid k" "cycinib (set_cycsta i b k) = cycinib k" "alm_on (set_cycsta i b k) = alm_on k"
  "timed (upd_cycinib i f k) = timed k" "timed (set_cycsta i b k) = timed k"
  by (simp_all add: upd_cycinib_def set_cycsta_def alm_on_def timed_def fun_eq_iff)

lemma map_tm_tables [simp]:
  "tmax_tskid (map_tm f k) = tmax_tskid k" "excpt_ctx (map_tm f k) = excpt_ctx k" "cyccb (map_tm f k) = cyccb k"
  "free_cyccb (map_tm f k) = free_cyccb k" "tmax_cycid (map_tm f k) = tmax_cycid k" "tmax_scycid (map_tm f k) = tmax_scycid k"
  "cycinib (map_tm f k) = cycinib k" "alm_on (map_tm f k) = alm_on k" "cyc_on (map_tm f k) = cyc_on k" "timed (map_tm f k) = timed k"
  by (simp_all add: map_tm_def alm_on_def cyc_on_def timed_def fun_eq_iff)

lemma active_map_tm [simp]: "active (map_tm f k) = active k"
  by (rule active_eqI) simp_all

lemma active_cycsta:
  assumes "int i < tmax_cycid k" "cyc_exists k i"
  shows "active (set_cycsta i b k) = (if b then insert (CycTM i) (active k) else active k - {CycTM i})"
  using assms by (intro active_eqI) (auto simp: cyc_on_def cyc_exists_def)

lemma cyc_on_iff: "int i < tmax_cycid k \<Longrightarrow> cyc_exists k i \<Longrightarrow> cyc_on k i \<longleftrightarrow> cycsta (cyccb k i)"
  by (simp add: cyc_on_def cyc_exists_def)

lemma stop_cyc_settled:
  assumes s: "settled k" and i: "int i < tmax_cycid k" "cyc_exists k i"
  shows "settled (stop_cyc i k) \<and> \<not> cyc_on (stop_cyc i k) i"
proof (cases "cycsta (cyccb k i)")
  case True
  then have "registered (tmevtb_dequeue (CycTM i) (tm k)) (active k - {CycTM i})"
    using consistentD(2) [OF settledD [OF s]] by (intro registered_dequeue) (simp_all add: cyc_on_iff i)
  then show ?thesis using True i s
    by (auto simp: stop_cyc_def active_cycsta cyc_on_def intro!: settled_active [OF s])
qed (simp add: stop_cyc_def s cyc_on_iff i)

lemma start_cyc_settled:
  assumes s: "settled k" and i: "int i < tmax_cycid k" "cyc_exists k i" "\<not> cycsta (cyccb k i)"
  shows "settled (map_tm (tmevtb_enqueue_reltim (CycTM i) t) (set_cycsta i True k))"
proof -
  have "registered (tmevtb_enqueue_reltim (CycTM i) t (tm k)) (insert (CycTM i) (active k))"
    using consistentD(2) [OF settledD [OF s]] by (intro registered_enqueue) (simp_all add: cyc_on_iff i)
  then show ?thesis using i by (auto simp: active_cycsta intro!: settled_active [OF s])
qed

lemma restart_cyc_settled:
  assumes s: "settled k" and i: "int i < tmax_cycid k" "cyc_exists k i" "cycsta (cyccb k i)"
  shows "settled (map_tm (tmevtb_enqueue_reltim (CycTM i) t) (map_tm (tmevtb_dequeue (CycTM i)) k))"
proof -
  have c: "CycTM i \<in> active k" by (simp add: cyc_on_iff i)
  have "registered (tmevtb_enqueue_reltim (CycTM i) t (tmevtb_dequeue (CycTM i) (tm k))) (insert (CycTM i) (active k - {CycTM i}))"
    using consistentD(2) [OF settledD [OF s]] c by (intro registered_enqueue registered_dequeue) simp_all
  then have "registered (tmevtb_enqueue_reltim (CycTM i) t (tmevtb_dequeue (CycTM i) (tm k))) (active k)"
    using c by (simp add: insert_absorb)
  then show ?thesis by (auto intro!: settled_active [OF s])
qed

section \<open>The invariant of the table\<close>

definition cyc_inv :: "kernel \<Rightarrow> bool" where
  "cyc_inv k \<longleftrightarrow> distinct (free_cyccb k) \<and>
     (\<forall>i\<in>set (free_cyccb k). nat (tmax_scycid k) \<le> i \<and> int i < tmax_cycid k \<and> \<not> cyc_exists k i) \<and>
     (\<forall>i. int i < tmax_cycid k \<and> cyc_exists k i \<longrightarrow>
        0 < cyctim (cycinib k i) \<and> cyctim (cycinib k i) \<le> TMAX_RELTIM \<and> cycphs (cycinib k i) \<le> TMAX_RELTIM \<and>
        (cyc_nfyhdr (cycinib k i) = NotifyHandler \<longrightarrow> (\<exists>j. cyc_exinf (cycinib k i) = CycNfy j)))"

lemma cyc_inv_same: "same_objects KCyc k k' \<Longrightarrow> cyc_inv k' = cyc_inv k"
  by (simp add: cyc_inv_def same_objects_def cyc_exists_def)

lemma cyc_inv_keeps: "cyc_inv k \<Longrightarrow> keeps KCyc k k' \<Longrightarrow> cyc_inv k'"
  using cyc_inv_same by (auto simp: keeps_def)


text \<open>What \<open>acre_cyc\<close> writes into a block off the free list.\<close>

lemma fill_cycinib_sel:
  fixes i atr nfy tim phs k
  defines "k' \<equiv> fill_cycinib i atr nfy tim phs k"
  shows "ts k' = ts k" "tm k' = tm k" "tmax_tskid k' = tmax_tskid k" "excpt_ctx k' = excpt_ctx k" "cyccb k' = cyccb k"
    "free_cyccb k' = free_cyccb k" "tmax_cycid k' = tmax_cycid k" "tmax_scycid k' = tmax_scycid k" "alm_on k' = alm_on k"
    "timed k' = timed k" "cpulock k' = cpulock k" "j \<noteq> i \<Longrightarrow> cycinib k' j = cycinib k j"
    "cycinib k' i = \<lparr>cycatr = atr,
       cyc_exinf = (if nfymode nfy = TNFY_HANDLER then ExInf (nfy_exinf nfy) else CycNfy (i - nat (tmax_scycid k))),
       cyc_nfyhdr = (if nfymode nfy = TNFY_HANDLER then UserHandler (nfy_tmehdr nfy) else NotifyHandler),
       cyctim = tim, cycphs = phs\<rparr>"
    "nfymode nfy \<noteq> TNFY_HANDLER \<Longrightarrow> acyc_nfyinfo_table k' (i - nat (tmax_scycid k)) = nfy"
  unfolding k'_def by (simp_all add: fill_cycinib_def Let_def upd_cycinib_def alm_on_def timed_def fun_eq_iff)

lemma fill_cycinib_keeps: "K \<noteq> KCyc \<Longrightarrow> keeps K k (fill_cycinib i atr nfy tim phs k)"
  by (cases K) (simp_all add: fill_cycinib_def Let_def upd_cycinib_def keeps_def same_objects_def)

lemma atr_sta: "atr AND NOT TA_STA = 0 \<Longrightarrow> atr \<noteq> TA_NOEXS"
  by (auto dest: arg_cong [where f = "\<lambda>x. bit x 0"] simp: bit_simps)

lemma settled_free_list [simp]: "settled (k\<lparr>free_cyccb := f\<rparr>) = settled k"
proof -
  have "settled (k\<lparr>free_cyccb := f\<rparr>)" if "settled k" for k f
  proof -
    have "active (k\<lparr>free_cyccb := f\<rparr>) = active k" by (rule active_eqI) (simp_all add: timed_def cyc_on_def alm_on_def)
    then show ?thesis using consistentD(2) [OF settledD [OF that]] by (intro settled_active [OF that]) simp_all
  qed
  from this [of k f] this [of "k\<lparr>free_cyccb := f\<rparr>" "free_cyccb k"] show ?thesis by auto
qed

text \<open>A block that no object uses becomes an object, started or not.\<close>

lemma new_cyc_settled:
  assumes s: "settled k" and i: "\<not> cyc_on k i" "int i < tmax_cycid k" and a: "atr \<noteq> TA_NOEXS"
  shows "settled (set_cycsta i False (fill_cycinib i atr nfy tim phs k))"
    "settled (map_tm (tmevtb_enqueue_reltim (CycTM i) t) (set_cycsta i True (fill_cycinib i atr nfy tim phs k)))"
proof -
  let ?k = "fill_cycinib i atr nfy tim phs k"
  have on: "cyc_on (set_cycsta i b ?k) j = (if j = i then b else cyc_on k j)" for b j
    using i(2) a by (simp add: cyc_on_def fill_cycinib_sel)
  have act: "active (set_cycsta i False ?k) = active k" "active (set_cycsta i True ?k) = insert (CycTM i) (active k)"
    using i(1) by (intro active_eqI; auto simp: on fill_cycinib_sel)+
  have r: "registered (tm k) (active k)" by (rule consistentD(2) [OF settledD [OF s]])
  then show "settled (set_cycsta i False ?k)" by (intro settled_active [OF s]) (simp_all add: act fill_cycinib_sel)
  have "registered (tmevtb_enqueue_reltim (CycTM i) t (tm k)) (insert (CycTM i) (active k))"
    using r i(1) by (intro registered_enqueue) simp_all
  then show "settled (map_tm (tmevtb_enqueue_reltim (CycTM i) t) (set_cycsta i True ?k))"
    by (intro settled_active [OF s]) (simp_all add: act fill_cycinib_sel)
qed

lemma unexists_settled:
  assumes s: "settled k" and i: "\<not> cyc_on k i" shows "settled (upd_cycinib i (\<lambda>b. b\<lparr>cycatr := TA_NOEXS\<rparr>) k)"
proof -
  have "active (upd_cycinib i (\<lambda>b. b\<lparr>cycatr := TA_NOEXS\<rparr>) k) = active k"
    using i by (intro active_eqI) (auto simp: cyc_on_def)
  then show ?thesis using consistentD(2) [OF settledD [OF s]] by (intro settled_active [OF s]) simp_all
qed

lemma registered_lefttim [simp]: "registered s A \<Longrightarrow> registered (snd (tmevt_lefttim r s)) A"
  by (simp add: tmevt_lefttim_def Let_def)

lemma VALID_ID_index: "VALID_ID n i \<Longrightarrow> int (INDEX i) < n"
  by (simp add: VALID_ID_def INDEX_def)

lemma lock_sel [simp]:
  "tmax_cycid (lock_cpu k) = tmax_cycid k" "free_cyccb (lock_cpu k) = free_cyccb k" "cyc_exists (lock_cpu k) = cyc_exists k"
  "cyccb (lock_cpu k) = cyccb k" "cycinib (lock_cpu k) = cycinib k" "tmax_scycid (lock_cpu k) = tmax_scycid k"
  "cyc_on (lock_cpu k) = cyc_on k"
  by (simp_all add: lock_cpu_def cyc_exists_def cyc_on_def fun_eq_iff)

lemma cyc_calls_settled:
  assumes s: "settled k" and c: "cyc_inv k"
  shows "settled (snd (acre_cyc thumb atr nfy tim phs k))" "settled (snd (del_cyc cycid k))"
    "settled (snd (sta_cyc cycid k))" "settled (snd (stp_cyc cycid k))" "settled (snd (fst (ref_cyc cycid k)))"
proof -
  have l: "settled (lock_cpu k)" using lock_entry [OF s] by simp
  have "settled (snd (acre_cyc thumb atr nfy tim phs k))" if f: "free_cyccb k \<noteq> []"
  proof -
    let ?i = "hd (free_cyccb k)" and ?k = "(lock_cpu k)\<lparr>free_cyccb := tl (free_cyccb k)\<rparr>"
    have i: "\<not> cyc_on ?k ?i" "int ?i < tmax_cycid ?k"
      using c f by (auto simp: cyc_inv_def cyc_on_def cyc_exists_def)
    have k: "settled ?k" using l by simp
    show ?thesis using s l new_cyc_settled [OF k i atr_sta]
      by (simp add: acre_cyc_def Let_def leave_def leave_uint_def)
  qed
  then show "settled (snd (acre_cyc thumb atr nfy tim phs k))"
    using s l by (cases "free_cyccb k = []") (auto simp: acre_cyc_def Let_def leave_def)
  have x: "\<not> cyc_on (lock_cpu k) i \<Longrightarrow> settled (upd_cycinib i (\<lambda>b. b\<lparr>cycatr := TA_NOEXS\<rparr>) (lock_cpu k))" for i
    by (rule unexists_settled [OF l])
  show "settled (snd (stp_cyc cycid k))"
    using s l stop_cyc_settled [OF l] by (auto simp: stp_cyc_def Let_def leave_def VALID_ID_index)
  show "settled (snd (sta_cyc cycid k))"
    using s l start_cyc_settled [OF l] restart_cyc_settled [OF l] by (auto simp: sta_cyc_def Let_def leave_def VALID_ID_index)
  show "settled (snd (del_cyc cycid k))"
    using s l stop_cyc_settled [OF l] unexists_settled by (auto simp: del_cyc_def Let_def leave_def VALID_ID_index)
  show "settled (snd (fst (ref_cyc cycid k)))"
    using s l by (auto simp: ref_cyc_def Let_def leave_def case_prod_unfold intro!: settled_timers)
qed


section \<open>The invariant and the frames of the calls\<close>

lemma cyc_inv_set [simp]: "cyc_inv (set_cycsta i b k) = cyc_inv k" "cyc_inv (map_tm f k) = cyc_inv k" "cyc_inv (unlock_cpu k) = cyc_inv k"
  "cyc_inv (lock_cpu k) = cyc_inv k" "cyc_inv (stop_cyc i k) = cyc_inv k"
  by (simp_all add: cyc_inv_def cyc_exists_def unlock_cpu_def stop_cyc_def)

lemma fill_cycinib_inv:
  assumes c: "cyc_inv k" and f: "free_cyccb k = i # is" and a: "atr \<noteq> TA_NOEXS" "0 < tim" "tim \<le> TMAX_RELTIM" "phs \<le> TMAX_RELTIM"
  shows "cyc_inv (fill_cycinib i atr nfy tim phs (k\<lparr>free_cyccb := is\<rparr>))"
proof -
  let ?k = "fill_cycinib i atr nfy tim phs (k\<lparr>free_cyccb := is\<rparr>)"
  have i: "i \<notin> set is" "distinct is" using c f by (auto simp: cyc_inv_def)
  have e: "cyc_exists ?k j = (j = i \<or> cyc_exists k j)" for j
    using a(1) by (cases "j = i") (simp_all add: cyc_exists_def fill_cycinib_sel)
  have same: "cycinib ?k j = cycinib k j" if "j \<noteq> i" for j using that by (simp add: fill_cycinib_sel)
  have "\<forall>j\<in>set is. nat (tmax_scycid ?k) \<le> j \<and> int j < tmax_cycid ?k \<and> \<not> cyc_exists ?k j"
    using c f i by (auto simp: cyc_inv_def e fill_cycinib_sel)
  moreover have "0 < cyctim (cycinib ?k j) \<and> cyctim (cycinib ?k j) \<le> TMAX_RELTIM \<and> cycphs (cycinib ?k j) \<le> TMAX_RELTIM \<and>
      (cyc_nfyhdr (cycinib ?k j) = NotifyHandler \<longrightarrow> (\<exists>n. cyc_exinf (cycinib ?k j) = CycNfy n))"
    if "int j < tmax_cycid ?k" "cyc_exists ?k j" for j
  proof (cases "j = i")
    case True
    then show ?thesis using a by (simp add: fill_cycinib_sel)
  next
    case False
    then show ?thesis using that c by (simp add: same e cyc_inv_def fill_cycinib_sel(7))
  qed
  ultimately show ?thesis using i by (simp add: cyc_inv_def fill_cycinib_sel(6))
qed

lemma cyc_calls_inv:
  assumes c: "cyc_inv k"
  shows "cyc_inv (snd (acre_cyc thumb atr nfy tim phs k))" "cyc_inv (snd (del_cyc cycid k))"
    "cyc_inv (snd (sta_cyc cycid k))" "cyc_inv (snd (stp_cyc cycid k))" "cyc_inv (snd (fst (ref_cyc cycid k)))"
proof -
  show "cyc_inv (snd (sta_cyc cycid k))" "cyc_inv (snd (stp_cyc cycid k))" "cyc_inv (snd (fst (ref_cyc cycid k)))"
    using c by (auto simp: sta_cyc_def stp_cyc_def ref_cyc_def Let_def leave_def case_prod_unfold)
  have new: "cyc_inv (fill_cycinib (hd (free_cyccb k)) atr nfy tim phs (k'\<lparr>free_cyccb := tl (free_cyccb k)\<rparr>))"
    if "cyc_inv k'" "free_cyccb k' = free_cyccb k" "free_cyccb k \<noteq> []" "atr AND NOT TA_STA = 0" "0 < tim" "tim \<le> TMAX_RELTIM" "phs \<le> TMAX_RELTIM" for k'
    using that by (intro fill_cycinib_inv) (auto simp: atr_sta)
  show "cyc_inv (snd (acre_cyc thumb atr nfy tim phs k))"
    using c new [of "lock_cpu k"] by (auto simp: acre_cyc_def Let_def leave_def leave_uint_def)
  have gone: "cyc_inv (upd_cycinib i (\<lambda>b. b\<lparr>cycatr := TA_NOEXS\<rparr>) k'\<lparr>free_cyccb := free_cyccb k' @ [i]\<rparr>)"
    if "cyc_inv k'" "cyc_exists k' i" "int i < tmax_cycid k'" "nat (tmax_scycid k') \<le> i" for k' i
    using that by (auto simp: cyc_inv_def cyc_exists_def)
  show "cyc_inv (snd (del_cyc cycid k))"
    using c gone [of "stop_cyc (INDEX cycid) (lock_cpu k)" "INDEX cycid"]
    by (auto simp: del_cyc_def Let_def leave_def cyc_exists_def stop_cyc_def VALID_ID_index) (auto simp: INDEX_def)
qed

lemma keeps_cyc [frame]:
  assumes "K \<noteq> KCyc" "keeps K k k'"
  shows "keeps K k (set_cycsta i b k')" "keeps K k (upd_cycinib i f k')" "keeps K k (fill_cycinib i atr nfy tim phs k')"
    "keeps K k (k'\<lparr>free_cyccb := l\<rparr>)"
proof -
  have "keeps K k' (set_cycsta i b k')" "keeps K k' (upd_cycinib i f k')" "keeps K k' (k'\<lparr>free_cyccb := l\<rparr>)"
    using assms(1) by (cases K; simp add: set_cycsta_def upd_cycinib_def keeps_def same_objects_def)+
  then show "keeps K k (set_cycsta i b k')" "keeps K k (upd_cycinib i f k')" "keeps K k (fill_cycinib i atr nfy tim phs k')"
    "keeps K k (k'\<lparr>free_cyccb := l\<rparr>)"
    using fill_cycinib_keeps [OF assms(1)] keeps_trans [OF assms(2)] by blast+
qed

lemma prio_frame_cyc [frame]:
  assumes "prio_frame X k k'"
  shows "prio_frame X k (set_cycsta i b k')" "prio_frame X k (upd_cycinib i f k')" "prio_frame X k (fill_cycinib i atr nfy tim phs k')"
    "prio_frame X k (k'\<lparr>free_cyccb := l\<rparr>)"
  by (rule prio_frame_same [OF assms]; simp add: fill_cycinib_sel)+

lemma cyc_calls_keep:
  assumes K: "K \<noteq> KCyc"
  shows "keeps K k (snd (acre_cyc thumb atr nfy tim phs k))" "keeps K k (snd (del_cyc cycid k))"
    "keeps K k (snd (sta_cyc cycid k))" "keeps K k (snd (stp_cyc cycid k))" "keeps K k (snd (fst (ref_cyc cycid k)))"
  using K by (auto simp: acre_cyc_def del_cyc_def sta_cyc_def stp_cyc_def ref_cyc_def stop_cyc_def Let_def case_prod_unfold intro!: frame)

lemma cyc_calls_prio:
  "prio_frame {} k (snd (acre_cyc thumb atr nfy tim phs k))" "prio_frame {} k (snd (del_cyc cycid k))"
  "prio_frame {} k (snd (sta_cyc cycid k))" "prio_frame {} k (snd (stp_cyc cycid k))" "prio_frame {} k (snd (fst (ref_cyc cycid k)))"
  by (auto simp: acre_cyc_def del_cyc_def sta_cyc_def stp_cyc_def ref_cyc_def stop_cyc_def Let_def case_prod_unfold intro!: frame)


end
