(* ===== verification/Alarm.thy ===== *)
theory Alarm
  imports Cyclic
begin

unbundle bit_operations_syntax

text \<open>
  Alarm notifications, asp3\_dcre/kernel/alarm.c: as the cyclic ones, but each time the alarm is set it goes
  off once, and \<open>call_alarm\<close> stops it before the handler runs.
\<close>

section \<open>Operations\<close>

definition alm_exists :: "kernel \<Rightarrow> nat \<Rightarrow> bool" where
  "alm_exists k i \<longleftrightarrow> almatr (alminib k i) \<noteq> TA_NOEXS"

definition upd_alminib :: "nat \<Rightarrow> (alminib \<Rightarrow> alminib) \<Rightarrow> kernel \<Rightarrow> kernel" where
  "upd_alminib i f k = k\<lparr>alminib := (alminib k)(i := f (alminib k i))\<rparr>"

definition set_almsta :: "nat \<Rightarrow> bool \<Rightarrow> kernel \<Rightarrow> kernel" where
  "set_almsta i b k = k\<lparr>almcb := (almcb k)(i := \<lparr>almsta = b\<rparr>)\<rparr>"

definition init_static_alm :: "nat \<Rightarrow> kernel \<Rightarrow> kernel" where
  "init_static_alm i k = map_tm (set_callback (AlmTM i) Call_alarm i) (set_almsta i False k)"

definition init_free_alm :: "nat \<Rightarrow> kernel \<Rightarrow> kernel" where
  "init_free_alm i k =
     (let k1 = upd_alminib i (\<lambda>b. b\<lparr>almatr := TA_NOEXS\<rparr>) k;
          k2 = map_tm (set_callback (AlmTM i) Call_alarm i) k1
      in k2\<lparr>free_almcb := free_almcb k2 @ [i]\<rparr>)"

definition initialize_alarm :: "kernel \<Rightarrow> kernel" where
  "initialize_alarm k =
     (let n = nat (tmax_salmid k); m = nat (tmax_almid k);
          k1 = fold init_static_alm [0..<n] k
      in fold init_free_alm [n..<m] (k1\<lparr>free_almcb := []\<rparr>))"

definition fill_alminib :: "nat \<Rightarrow> ATR \<Rightarrow> nfyinfo \<Rightarrow> kernel \<Rightarrow> kernel" where
  "fill_alminib i atr nfy k =
     (let k1 = upd_alminib i (\<lambda>b. b\<lparr>almatr := atr\<rparr>) k
      in if nfymode nfy = TNFY_HANDLER then
           upd_alminib i (\<lambda>b. b\<lparr>alm_exinf := ExInf (nfy_exinf nfy), alm_nfyhdr := UserHandler (nfy_tmehdr nfy)\<rparr>) k1
         else let j = i - nat (tmax_salmid k1)
              in upd_alminib i (\<lambda>b. b\<lparr>alm_exinf := AlmNfy j, alm_nfyhdr := NotifyHandler\<rparr>)
                   (k1\<lparr>aalm_nfyinfo_table := (aalm_nfyinfo_table k1)(j := nfy)\<rparr>))"

definition acre_alm :: "bool \<Rightarrow> ATR \<Rightarrow> nfyinfo \<Rightarrow> kernel \<Rightarrow> svc \<times> kernel" where
  "acre_alm thumb atr nfy k =
     (if ctx_error k then (Ret E_CTX, k)
      else if atr AND NOT 0 \<noteq> 0 then (Ret E_RSATR, k)
      else if check_nfyinfo thumb k nfy \<noteq> E_OK then (Ret (check_nfyinfo thumb k nfy), k)
      else let k1 = lock_cpu k in
        if tmax_almid k1 = 0 \<or> free_almcb k1 = [] then leave E_NOID k1
        else let i = hd (free_almcb k1);
                 k2 = fill_alminib i atr nfy (k1\<lparr>free_almcb := tl (free_almcb k1)\<rparr>)
             in leave_uint (OBJID i) (set_almsta i False k2))"

definition stop_alm :: "nat \<Rightarrow> kernel \<Rightarrow> kernel" where
  "stop_alm i k = (if almsta (almcb k i) then map_tm (tmevtb_dequeue (AlmTM i)) (set_almsta i False k) else k)"

definition del_alm :: "int \<Rightarrow> kernel \<Rightarrow> svc \<times> kernel" where
  "del_alm almid k =
     (if ctx_error k then (Ret E_CTX, k)
      else if \<not> VALID_ID (tmax_almid k) almid then (Ret E_ID, k)
      else let i = INDEX almid; k1 = lock_cpu k in
        if \<not> alm_exists k1 i then leave E_NOEXS k1
        else if almid \<le> tmax_salmid k1 then leave E_OBJ k1
        else let k2 = stop_alm i k1;
                 k3 = upd_alminib i (\<lambda>b. b\<lparr>almatr := TA_NOEXS\<rparr>) k2
             in leave E_OK (k3\<lparr>free_almcb := free_almcb k3 @ [i]\<rparr>))"

definition sta_alm :: "int \<Rightarrow> RELTIM \<Rightarrow> kernel \<Rightarrow> svc \<times> kernel" where
  "sta_alm almid tim k =
     (if sense_lock k then (Ret E_CTX, k)
      else if \<not> VALID_ID (tmax_almid k) almid then (Ret E_ID, k)
      else if \<not> VALID_RELTIM tim then (Ret E_PAR, k)
      else let i = INDEX almid; k1 = lock_cpu k in
        if \<not> alm_exists k1 i then leave E_NOEXS k1
        else let k2 = (if almsta (almcb k1 i) then map_tm (tmevtb_dequeue (AlmTM i)) k1 else set_almsta i True k1)
             in leave E_OK (map_tm (tmevtb_enqueue_reltim (AlmTM i) tim) k2))"

definition stp_alm :: "int \<Rightarrow> kernel \<Rightarrow> svc \<times> kernel" where
  "stp_alm almid k =
     (if sense_lock k then (Ret E_CTX, k)
      else if \<not> VALID_ID (tmax_almid k) almid then (Ret E_ID, k)
      else let i = INDEX almid; k1 = lock_cpu k in
        if \<not> alm_exists k1 i then leave E_NOEXS k1
        else leave E_OK (stop_alm i k1))"

abbreviation TALM_STP :: uint where "TALM_STP \<equiv> 0x01"
abbreviation TALM_STA :: uint where "TALM_STA \<equiv> 0x02"

definition ref_alm :: "int \<Rightarrow> kernel \<Rightarrow> (svc \<times> kernel) \<times> (uint \<times> RELTIM option) option" where
  "ref_alm almid k =
     (if ctx_error k then ((Ret E_CTX, k), None)
      else if \<not> VALID_ID (tmax_almid k) almid then ((Ret E_ID, k), None)
      else let i = INDEX almid; k1 = lock_cpu k in
        if \<not> alm_exists k1 i then (leave E_NOEXS k1, None)
        else if almsta (almcb k1 i) then
          let (left, m) = tmevt_lefttim (AlmTM i) (tm k1)
          in (leave E_OK (map_tm (\<lambda>_. m) k1), Some (TALM_STA, Some left))
        else (leave E_OK k1, Some (TALM_STP, None)))"

definition call_alarm :: "(addr \<Rightarrow> exinf_t \<Rightarrow> kernel \<Rightarrow> kernel) \<Rightarrow> nat \<Rightarrow> kernel \<Rightarrow> kernel" where
  "call_alarm uh i k =
     (let k1 = unlock_cpu (set_almsta i False k)
      in relock (run_handler uh (alm_nfyhdr (alminib k1 i)) (alm_exinf (alminib k1 i)) k1))"

section \<open>The time events of the alarms\<close>

lemma alm_ops_sel [simp]:
  "ts (upd_alminib i f k) = ts k" "tm (upd_alminib i f k) = tm k" "tmax_tskid (upd_alminib i f k) = tmax_tskid k"
  "excpt_ctx (upd_alminib i f k) = excpt_ctx k" "almcb (upd_alminib i f k) = almcb k" "free_almcb (upd_alminib i f k) = free_almcb k"
  "tmax_almid (upd_alminib i f k) = tmax_almid k" "tmax_salmid (upd_alminib i f k) = tmax_salmid k"
  "alminib (upd_alminib i f k) = (alminib k)(i := f (alminib k i))" "cyc_on (upd_alminib i f k) = cyc_on k"
  "ts (set_almsta i b k) = ts k" "tm (set_almsta i b k) = tm k" "tmax_tskid (set_almsta i b k) = tmax_tskid k"
  "excpt_ctx (set_almsta i b k) = excpt_ctx k" "almcb (set_almsta i b k) = (almcb k)(i := \<lparr>almsta = b\<rparr>)"
  "free_almcb (set_almsta i b k) = free_almcb k" "tmax_almid (set_almsta i b k) = tmax_almid k"
  "tmax_salmid (set_almsta i b k) = tmax_salmid k" "alminib (set_almsta i b k) = alminib k" "cyc_on (set_almsta i b k) = cyc_on k"
  "timed (upd_alminib i f k) = timed k" "timed (set_almsta i b k) = timed k"
  by (simp_all add: upd_alminib_def set_almsta_def cyc_on_def timed_def fun_eq_iff)

lemma map_tm_alarms [simp]:
  "almcb (map_tm f k) = almcb k" "free_almcb (map_tm f k) = free_almcb k" "tmax_almid (map_tm f k) = tmax_almid k"
  "tmax_salmid (map_tm f k) = tmax_salmid k" "alminib (map_tm f k) = alminib k"
  by (simp_all add: map_tm_def)

lemma active_almsta:
  assumes "int i < tmax_almid k" "alm_exists k i"
  shows "active (set_almsta i b k) = (if b then insert (AlmTM i) (active k) else active k - {AlmTM i})"
  using assms by (intro active_eqI) (auto simp: alm_on_def alm_exists_def)

lemma alm_on_iff: "int i < tmax_almid k \<Longrightarrow> alm_exists k i \<Longrightarrow> alm_on k i \<longleftrightarrow> almsta (almcb k i)"
  by (simp add: alm_on_def alm_exists_def)

lemma stop_alm_settled:
  assumes s: "settled k" and i: "int i < tmax_almid k" "alm_exists k i"
  shows "settled (stop_alm i k) \<and> \<not> alm_on (stop_alm i k) i"
proof (cases "almsta (almcb k i)")
  case True
  then have "registered (tmevtb_dequeue (AlmTM i) (tm k)) (active k - {AlmTM i})"
    using consistentD(2) [OF settledD [OF s]] by (intro registered_dequeue) (simp_all add: alm_on_iff i)
  then show ?thesis using True i s
    by (auto simp: stop_alm_def active_almsta alm_on_def intro!: settled_active [OF s])
qed (simp add: stop_alm_def s alm_on_iff i)

lemma start_alm_settled:
  assumes s: "settled k" and i: "int i < tmax_almid k" "alm_exists k i" "\<not> almsta (almcb k i)"
  shows "settled (map_tm (tmevtb_enqueue_reltim (AlmTM i) t) (set_almsta i True k))"
proof -
  have "registered (tmevtb_enqueue_reltim (AlmTM i) t (tm k)) (insert (AlmTM i) (active k))"
    using consistentD(2) [OF settledD [OF s]] by (intro registered_enqueue) (simp_all add: alm_on_iff i)
  then show ?thesis using i by (auto simp: active_almsta intro!: settled_active [OF s])
qed

lemma restart_alm_settled:
  assumes s: "settled k" and i: "int i < tmax_almid k" "alm_exists k i" "almsta (almcb k i)"
  shows "settled (map_tm (tmevtb_enqueue_reltim (AlmTM i) t) (map_tm (tmevtb_dequeue (AlmTM i)) k))"
proof -
  have c: "AlmTM i \<in> active k" by (simp add: alm_on_iff i)
  have "registered (tmevtb_enqueue_reltim (AlmTM i) t (tmevtb_dequeue (AlmTM i) (tm k))) (insert (AlmTM i) (active k - {AlmTM i}))"
    using consistentD(2) [OF settledD [OF s]] c by (intro registered_enqueue registered_dequeue) simp_all
  then have "registered (tmevtb_enqueue_reltim (AlmTM i) t (tmevtb_dequeue (AlmTM i) (tm k))) (active k)"
    using c by (simp add: insert_absorb)
  then show ?thesis by (auto intro!: settled_active [OF s])
qed

section \<open>The invariant of the table\<close>

definition alm_inv :: "kernel \<Rightarrow> bool" where
  "alm_inv k \<longleftrightarrow> distinct (free_almcb k) \<and>
     (\<forall>i\<in>set (free_almcb k). nat (tmax_salmid k) \<le> i \<and> int i < tmax_almid k \<and> \<not> alm_exists k i) \<and>
     (\<forall>i. int i < tmax_almid k \<and> alm_exists k i \<longrightarrow>
        (alm_nfyhdr (alminib k i) = NotifyHandler \<longrightarrow> (\<exists>j. alm_exinf (alminib k i) = AlmNfy j)))"

lemma alm_inv_keeps: "alm_inv k \<Longrightarrow> keeps KAlm k k' \<Longrightarrow> alm_inv k'"
  by (simp add: alm_inv_def keeps_def same_objects_def alm_exists_def)

lemma fill_alminib_sel:
  fixes i atr nfy k
  defines "k' \<equiv> fill_alminib i atr nfy k"
  shows "ts k' = ts k" "tm k' = tm k" "tmax_tskid k' = tmax_tskid k" "excpt_ctx k' = excpt_ctx k" "almcb k' = almcb k"
    "free_almcb k' = free_almcb k" "tmax_almid k' = tmax_almid k" "tmax_salmid k' = tmax_salmid k" "cyc_on k' = cyc_on k"
    "timed k' = timed k" "cpulock k' = cpulock k" "j \<noteq> i \<Longrightarrow> alminib k' j = alminib k j"
    "alminib k' i = \<lparr>almatr = atr,
       alm_exinf = (if nfymode nfy = TNFY_HANDLER then ExInf (nfy_exinf nfy) else AlmNfy (i - nat (tmax_salmid k))),
       alm_nfyhdr = (if nfymode nfy = TNFY_HANDLER then UserHandler (nfy_tmehdr nfy) else NotifyHandler)\<rparr>"
    "nfymode nfy \<noteq> TNFY_HANDLER \<Longrightarrow> aalm_nfyinfo_table k' (i - nat (tmax_salmid k)) = nfy"
  unfolding k'_def by (simp_all add: fill_alminib_def Let_def upd_alminib_def cyc_on_def timed_def fun_eq_iff)

lemma fill_alminib_keeps: "K \<noteq> KAlm \<Longrightarrow> keeps K k (fill_alminib i atr nfy k)"
  by (cases K) (simp_all add: fill_alminib_def Let_def upd_alminib_def keeps_def same_objects_def)

lemma settled_free_almcb [simp]: "settled (k\<lparr>free_almcb := f\<rparr>) = settled k"
proof -
  have "settled (k\<lparr>free_almcb := f\<rparr>)" if "settled k" for k f
  proof -
    have "active (k\<lparr>free_almcb := f\<rparr>) = active k" by (rule active_eqI) (simp_all add: timed_def alm_on_def cyc_on_def)
    then show ?thesis using consistentD(2) [OF settledD [OF that]] by (intro settled_active [OF that]) simp_all
  qed
  from this [of k f] this [of "k\<lparr>free_almcb := f\<rparr>" "free_almcb k"] show ?thesis by auto
qed

lemma new_alm_settled:
  assumes s: "settled k" and i: "\<not> alm_on k i" "int i < tmax_almid k"
  shows "settled (set_almsta i False (fill_alminib i atr nfy k))"
proof -
  let ?k = "fill_alminib i atr nfy k"
  have "alm_on (set_almsta i False ?k) j = alm_on k j" for j
    using i by (cases "j = i") (simp_all add: alm_on_def fill_alminib_sel)
  then have "active (set_almsta i False ?k) = active k"
    by (intro active_eqI) (simp_all add: fill_alminib_sel)
  then show ?thesis using consistentD(2) [OF settledD [OF s]] by (intro settled_active [OF s]) (simp_all add: fill_alminib_sel)
qed

lemma alm_unexists_settled:
  assumes s: "settled k" and i: "\<not> alm_on k i" shows "settled (upd_alminib i (\<lambda>b. b\<lparr>almatr := TA_NOEXS\<rparr>) k)"
proof -
  have "active (upd_alminib i (\<lambda>b. b\<lparr>almatr := TA_NOEXS\<rparr>) k) = active k"
    using i by (intro active_eqI) (auto simp: alm_on_def)
  then show ?thesis using consistentD(2) [OF settledD [OF s]] by (intro settled_active [OF s]) simp_all
qed

lemma alm_lock_sel [simp]:
  "tmax_almid (lock_cpu k) = tmax_almid k" "free_almcb (lock_cpu k) = free_almcb k" "alm_exists (lock_cpu k) = alm_exists k"
  "almcb (lock_cpu k) = almcb k" "alminib (lock_cpu k) = alminib k" "tmax_salmid (lock_cpu k) = tmax_salmid k"
  "alm_on (lock_cpu k) = alm_on k"
  by (simp_all add: lock_cpu_def alm_exists_def alm_on_def fun_eq_iff)

lemma alm_calls_settled:
  assumes s: "settled k" and c: "alm_inv k"
  shows "settled (snd (acre_alm thumb atr nfy k))" "settled (snd (del_alm almid k))"
    "settled (snd (sta_alm almid tim k))" "settled (snd (stp_alm almid k))" "settled (snd (fst (ref_alm almid k)))"
proof -
  have l: "settled (lock_cpu k)" using lock_entry [OF s] by simp
  have "settled (snd (acre_alm thumb atr nfy k))" if f: "free_almcb k \<noteq> []"
  proof -
    let ?i = "hd (free_almcb k)" and ?k = "(lock_cpu k)\<lparr>free_almcb := tl (free_almcb k)\<rparr>"
    have i: "\<not> alm_on ?k ?i" "int ?i < tmax_almid ?k"
      using c f by (auto simp: alm_inv_def alm_on_def alm_exists_def)
    have k: "settled ?k" using l by simp
    show ?thesis using s l new_alm_settled [OF k i]
      by (simp add: acre_alm_def Let_def leave_def leave_uint_def)
  qed
  then show "settled (snd (acre_alm thumb atr nfy k))"
    using s l by (cases "free_almcb k = []") (auto simp: acre_alm_def Let_def leave_def)
  have x: "\<not> alm_on (lock_cpu k) i \<Longrightarrow> settled (upd_alminib i (\<lambda>b. b\<lparr>almatr := TA_NOEXS\<rparr>) (lock_cpu k))" for i
    by (rule alm_unexists_settled [OF l])
  show "settled (snd (stp_alm almid k))"
    using s l stop_alm_settled [OF l] by (auto simp: stp_alm_def Let_def leave_def VALID_ID_index)
  show "settled (snd (sta_alm almid tim k))"
    using s l start_alm_settled [OF l] restart_alm_settled [OF l] by (auto simp: sta_alm_def Let_def leave_def VALID_ID_index)
  show "settled (snd (del_alm almid k))"
    using s l stop_alm_settled [OF l] alm_unexists_settled by (auto simp: del_alm_def Let_def leave_def VALID_ID_index)
  show "settled (snd (fst (ref_alm almid k)))"
    using s l by (auto simp: ref_alm_def Let_def leave_def case_prod_unfold intro!: settled_timers)
qed

section \<open>The invariant and the frames of the calls\<close>

lemma alm_inv_set [simp]: "alm_inv (set_almsta i b k) = alm_inv k" "alm_inv (map_tm f k) = alm_inv k" "alm_inv (unlock_cpu k) = alm_inv k"
  "alm_inv (lock_cpu k) = alm_inv k" "alm_inv (stop_alm i k) = alm_inv k"
  by (simp_all add: alm_inv_def alm_exists_def unlock_cpu_def stop_alm_def)

lemma fill_alminib_inv:
  assumes c: "alm_inv k" and f: "free_almcb k = i # is" and a: "atr \<noteq> TA_NOEXS"
  shows "alm_inv (fill_alminib i atr nfy (k\<lparr>free_almcb := is\<rparr>))"
proof -
  let ?k = "fill_alminib i atr nfy (k\<lparr>free_almcb := is\<rparr>)"
  have i: "i \<notin> set is" "distinct is" using c f by (auto simp: alm_inv_def)
  have e: "alm_exists ?k j = (j = i \<or> alm_exists k j)" for j
    using a by (cases "j = i") (simp_all add: alm_exists_def fill_alminib_sel)
  have "\<forall>j\<in>set is. nat (tmax_salmid ?k) \<le> j \<and> int j < tmax_almid ?k \<and> \<not> alm_exists ?k j"
    using c f i by (auto simp: alm_inv_def e fill_alminib_sel)
  moreover have "\<exists>n. alm_exinf (alminib ?k j) = AlmNfy n"
    if "int j < tmax_almid ?k" "alm_exists ?k j" "alm_nfyhdr (alminib ?k j) = NotifyHandler" for j
    using that c by (cases "j = i") (auto simp: e alm_inv_def fill_alminib_sel split: if_splits)
  ultimately show ?thesis using i by (simp add: alm_inv_def fill_alminib_sel(6))
qed

lemma alm_calls_inv:
  assumes c: "alm_inv k"
  shows "alm_inv (snd (acre_alm thumb atr nfy k))" "alm_inv (snd (del_alm almid k))"
    "alm_inv (snd (sta_alm almid tim k))" "alm_inv (snd (stp_alm almid k))" "alm_inv (snd (fst (ref_alm almid k)))"
proof -
  show "alm_inv (snd (sta_alm almid tim k))" "alm_inv (snd (stp_alm almid k))" "alm_inv (snd (fst (ref_alm almid k)))"
    using c by (auto simp: sta_alm_def stp_alm_def ref_alm_def Let_def leave_def case_prod_unfold)
  have new: "alm_inv (fill_alminib (hd (free_almcb k)) atr nfy (k'\<lparr>free_almcb := tl (free_almcb k)\<rparr>))"
    if "alm_inv k'" "free_almcb k' = free_almcb k" "free_almcb k \<noteq> []" "atr = 0" for k'
    using that by (intro fill_alminib_inv) auto
  show "alm_inv (snd (acre_alm thumb atr nfy k))"
    using c new [of "lock_cpu k"] by (auto simp: acre_alm_def Let_def leave_def leave_uint_def)
  have gone: "alm_inv (upd_alminib i (\<lambda>b. b\<lparr>almatr := TA_NOEXS\<rparr>) k'\<lparr>free_almcb := free_almcb k' @ [i]\<rparr>)"
    if "alm_inv k'" "alm_exists k' i" "int i < tmax_almid k'" "nat (tmax_salmid k') \<le> i" for k' i
    using that by (auto simp: alm_inv_def alm_exists_def)
  show "alm_inv (snd (del_alm almid k))"
    using c gone [of "stop_alm (INDEX almid) (lock_cpu k)" "INDEX almid"]
    by (auto simp: del_alm_def Let_def leave_def alm_exists_def stop_alm_def VALID_ID_index) (auto simp: INDEX_def)
qed

lemma keeps_alm [frame]:
  assumes "K \<noteq> KAlm" "keeps K k k'"
  shows "keeps K k (set_almsta i b k')" "keeps K k (upd_alminib i f k')" "keeps K k (fill_alminib i atr nfy k')"
    "keeps K k (k'\<lparr>free_almcb := l\<rparr>)"
proof -
  have "keeps K k' (set_almsta i b k')" "keeps K k' (upd_alminib i f k')" "keeps K k' (k'\<lparr>free_almcb := l\<rparr>)"
    using assms(1) by (cases K; simp add: set_almsta_def upd_alminib_def keeps_def same_objects_def)+
  then show "keeps K k (set_almsta i b k')" "keeps K k (upd_alminib i f k')" "keeps K k (fill_alminib i atr nfy k')"
    "keeps K k (k'\<lparr>free_almcb := l\<rparr>)"
    using fill_alminib_keeps [OF assms(1)] keeps_trans [OF assms(2)] by blast+
qed

lemma prio_frame_alm [frame]:
  assumes "prio_frame X k k'"
  shows "prio_frame X k (set_almsta i b k')" "prio_frame X k (upd_alminib i f k')" "prio_frame X k (fill_alminib i atr nfy k')"
    "prio_frame X k (k'\<lparr>free_almcb := l\<rparr>)"
  by (rule prio_frame_same [OF assms]; simp add: fill_alminib_sel)+

lemma alm_calls_keep:
  assumes K: "K \<noteq> KAlm"
  shows "keeps K k (snd (acre_alm thumb atr nfy k))" "keeps K k (snd (del_alm almid k))"
    "keeps K k (snd (sta_alm almid tim k))" "keeps K k (snd (stp_alm almid k))" "keeps K k (snd (fst (ref_alm almid k)))"
  using K by (auto simp: acre_alm_def del_alm_def sta_alm_def stp_alm_def ref_alm_def stop_alm_def Let_def case_prod_unfold intro!: frame)

lemma alm_calls_prio:
  "prio_frame {} k (snd (acre_alm thumb atr nfy k))" "prio_frame {} k (snd (del_alm almid k))"
  "prio_frame {} k (snd (sta_alm almid tim k))" "prio_frame {} k (snd (stp_alm almid k))" "prio_frame {} k (snd (fst (ref_alm almid k)))"
  by (auto simp: acre_alm_def del_alm_def sta_alm_def stp_alm_def ref_alm_def stop_alm_def Let_def case_prod_unfold intro!: frame)


end
