(* ===== verification/Callback.thy ===== *)
theory Callback
  imports Alarm Pridataq Mempfix
begin

unbundle bit_operations_syntax

text \<open>
  Which function a time event calls back, and with what argument. \<open>cb_ok\<close>: a timed wait has \<open>wait_tmout\<close> or,
  for a task that is in no wait queue, \<open>wait_tmout_ok\<close>, with the waiting task as argument; a cyclic object has
  \<open>call_cyclic\<close> and an alarm \<open>call_alarm\<close>, with itself. The calls preserve this (collection \<open>frame\<close>), and stay
  in the context, of a task or an interrupt handler, from which they were made (\<open>cx\<close>).
\<close>

definition cb_task :: "kernel \<Rightarrow> nat \<Rightarrow> bool" where
  "cb_task k t \<longleftrightarrow> (let b = tmevtb_tab (tm k) (TskTM t) in arg b = t \<and>
     (callback b = Wait_tmout \<or> callback b = Wait_tmout_ok \<and> \<not> TSTAT_WAIT_WOBJ (tstat (task k t))))"

definition calls_back :: "tme \<Rightarrow> tmevtb_ref \<Rightarrow> cback \<Rightarrow> nat \<Rightarrow> bool" where
  "calls_back m r cb a \<longleftrightarrow> callback (tmevtb_tab m r) = cb \<and> arg (tmevtb_tab m r) = a"

definition cb_ok :: "bool \<Rightarrow> kernel \<Rightarrow> bool" where
  "cb_ok cx k \<longleftrightarrow> sense_context k = cx \<and> (\<forall>t. timed k t \<longrightarrow> cb_task k t) \<and>
     (\<forall>i. int i < tmax_cycid k \<longrightarrow> calls_back (tm k) (CycTM i) Call_cyclic i) \<and>
     (\<forall>i. int i < tmax_almid k \<longrightarrow> calls_back (tm k) (AlmTM i) Call_alarm i)"

definition same_cb :: "tme \<Rightarrow> tme \<Rightarrow> bool" where
  "same_cb m m' \<longleftrightarrow> (\<forall>r. callback (tmevtb_tab m' r) = callback (tmevtb_tab m r) \<and> arg (tmevtb_tab m' r) = arg (tmevtb_tab m r))"

lemma same_cb_heap: "heap_only m m' \<Longrightarrow> same_cb m m'"
  by (simp add: same_cb_def heap_only_sel)

lemma same_cb_trans: "same_cb m m' \<Longrightarrow> same_cb m' m'' \<Longrightarrow> same_cb m m''"
  by (simp add: same_cb_def)

lemma same_cb_tab: "tmevtb_tab m' = tmevtb_tab m \<Longrightarrow> same_cb m m'"
  by (simp add: same_cb_def)

text \<open>No operation of the time event manager changes a call back.\<close>

lemma same_cb_update [simp]: "same_cb m (update_current_evttim m') = same_cb m m'"
  by (simp add: same_cb_def)

lemma same_cb_hrt [simp]: "same_cb m (set_hrt_event m') = same_cb m m'"
  by (simp add: same_cb_def)

lemma same_cb_evttim [simp]: "same_cb m (m'\<lparr>tmevtb_tab := (tmevtb_tab m')(r := (tmevtb_tab m' r)\<lparr>evttim := e\<rparr>)\<rparr>) = same_cb m m'"
  by (auto simp: same_cb_def)

lemma same_cb_insert: "same_cb m m' \<Longrightarrow> same_cb m (tmevtb_insert r m')"
  by (rule same_cb_trans) (auto intro: same_cb_heap)

lemma same_cb_ops [simp, intro]:
  "same_cb m m" "same_cb m (tmevtb_register r m)" "same_cb m (tmevtb_dequeue r m)" "same_cb m (snd (tmevt_lefttim r m))"
  "same_cb m (snd (target_hrt_get_current m))" "same_cb m (tmevtb_enqueue_reltim r t m)" "same_cb m (set_evttim r e m)"
  "same_cb m (adjust a m)"
proof -
  show "same_cb m m" "same_cb m (tmevtb_register r m)" "same_cb m (snd (target_hrt_get_current m))" "same_cb m (adjust a m)"
    by (simp_all add: same_cb_insert same_cb_tab tmevtb_register_def target_hrt_get_current_def adjust_def set_boundary_def Let_def)
  have "same_cb m (tmevtb_delete r m)" by (auto intro: same_cb_heap)
  then show "same_cb m (tmevtb_dequeue r m)" by (simp add: tmevtb_dequeue_def Let_def)
  show "same_cb m (snd (tmevt_lefttim r m))" by (simp add: tmevt_lefttim_def Let_def same_cb_tab)
  show "same_cb m (tmevtb_enqueue_reltim r t m)"
    using same_cb_evttim [where m' = "update_current_evttim m" and m = m and r = r]
    by (auto simp: tmevtb_enqueue_reltim_def Let_def same_cb_tab intro!: same_cb_insert)
  show "same_cb m (set_evttim r e m)" by (simp add: set_evttim_def same_cb_tab)
qed

section \<open>Steps\<close>

lemma cb_okI:
  assumes c: "cb_ok cx k" and "tmax_cycid k' = tmax_cycid k" "tmax_almid k' = tmax_almid k" "excpt_ctx k' = excpt_ctx k" and s: "same_cb (tm k) (tm k')"
    and t: "\<And>t. timed k' t \<Longrightarrow> timed k t \<and> (TSTAT_WAIT_WOBJ (tstat (task k' t)) \<longrightarrow> TSTAT_WAIT_WOBJ (tstat (task k t)))"
  shows "cb_ok cx k'"
proof -
  have "cb_task k' t" if "timed k' t" for t
    using t [OF that] c s by (auto simp: cb_ok_def cb_task_def same_cb_def Let_def)
  then show ?thesis using assms by (auto simp: cb_ok_def calls_back_def same_cb_def sense_context_def)
qed

lemma cb_same:
  assumes "cb_ok cx k" "tcb (ts k') = tcb (ts k)" "tm k' = tm k" "tmax_cycid k' = tmax_cycid k" "tmax_almid k' = tmax_almid k"
    "excpt_ctx k' = excpt_ctx k"
  shows "cb_ok cx k'"
  using assms by (intro cb_okI [OF assms(1)]) (simp_all add: timed_def)

lemma cb_ok_tasks [frame]:
  assumes "cb_ok cx k"
  shows "cb_ok cx (map_ts (make_runnable t) k)" "cb_ok cx (map_ts (make_non_runnable t) k)"
    "cb_ok cx (map_ts (queue_delete_task t) k)" "cb_ok cx (map_ts (rotate_ready_queue r) k)"
    "cb_ok cx (map_ts set_dspflg k)" "cb_ok cx (map_ts (\<lambda>s. s\<lparr>p_runtsk := f s\<rparr>) k)" "cb_ok cx (map_ts (change_priority_ready t p q mm) k)"
    "cb_ok cx (map_ts (queue_insert_last h t) k)" "cb_ok cx (map_ts (queue_insert_tpri h t) k)"
    "cb_ok cx (map_ts (\<lambda>s. s\<lparr>queues := q' s\<rparr>) k)" "cb_ok cx (lock_cpu k)" "cb_ok cx (unlock_cpu k)" "cb_ok cx (reset_queue w k)"
    "cb_ok cx (map_ts (\<lambda>s. s\<lparr>dspflg := b\<rparr>) k)" "cb_ok cx (map_ts (\<lambda>s. s\<lparr>enadsp := b\<rparr>) k)"
    "cb_ok cx (map_ts (\<lambda>s. s\<lparr>enadsp := b, dspflg := b'\<rparr>) k)" "cb_ok cx (map_ts (\<lambda>s. s\<lparr>tinib := i s\<rparr>) k)"
    "cb_ok cx (map_ts (\<lambda>s. s\<lparr>queues := qs, tinib := i s\<rparr>) k)" "cb_ok cx (t_set_ipm p' k)"
  by (rule cb_same [OF assms]; simp add: map_ts_def lock_cpu_def unlock_cpu_def reset_queue_def t_set_ipm_def)+

lemma cb_ok_time [frame]:
  assumes "cb_ok cx k" "same_cb (tm k) (f (tm k))" shows "cb_ok cx (map_tm f k)"
  using assms by (intro cb_okI [OF assms(1)]) (auto simp: map_tm_def timed_def)

lemma cb_ok_const [frame]:
  assumes "cb_ok cx k" "same_cb (tm k) m" shows "cb_ok cx (map_tm (\<lambda>_. m) k)"
  using assms by (rule cb_ok_time)

lemma cb_ok_tables [frame]:
  assumes "cb_ok cx k"
  shows "cb_ok cx (set_semcnt i n k)" "cb_ok cx (set_flgptn i p k)" "cb_ok cx (upd_dtqcb i f k)"
    "cb_ok cx (upd_pdqcb i g k)" "cb_ok cx (upd_mpfcb i h k)" "cb_ok cx (upd_mtxcb i m k)"
    "cb_ok cx (free_mpk a' k)" "cb_ok cx (snd (malloc_mpk sz k))" "cb_ok cx (set_cycsta i b' k)" "cb_ok cx (set_almsta i b' k)"
    "cb_ok cx (upd_cycinib i ci k)" "cb_ok cx (upd_alminib i ai k)" "cb_ok cx (fill_cycinib i atr nfy tim phs k)" "cb_ok cx (fill_alminib i atr nfy k)"
    "cb_ok cx (write_var a' v k)" "cb_ok cx (k\<lparr>free_cyccb := l\<rparr>)" "cb_ok cx (k\<lparr>free_almcb := l\<rparr>)"
    "cb_ok cx (k\<lparr>free_semcb := l\<rparr>)" "cb_ok cx (k\<lparr>free_flgcb := l\<rparr>)" "cb_ok cx (k\<lparr>free_dtqcb := l\<rparr>)"
    "cb_ok cx (k\<lparr>free_pdqcb := l\<rparr>)" "cb_ok cx (k\<lparr>free_mpfcb := l\<rparr>)" "cb_ok cx (k\<lparr>free_mtxcb := l\<rparr>)"
    "cb_ok cx (k\<lparr>seminib := a\<rparr>)" "cb_ok cx (k\<lparr>flginib := b\<rparr>)" "cb_ok cx (k\<lparr>dtqinib := c\<rparr>)"
    "cb_ok cx (k\<lparr>pdqinib := d\<rparr>)" "cb_ok cx (k\<lparr>mpfinib := e\<rparr>)" "cb_ok cx (k\<lparr>mtxinib := mm\<rparr>)"
  by (rule cb_same [OF assms]; simp add: set_semcnt_def set_flgptn_def upd_dtqcb_def upd_pdqcb_def upd_mpfcb_def upd_mtxcb_def
      free_mpk_def malloc_mpk_def Let_def set_cycsta_def set_almsta_def upd_cycinib_def upd_alminib_def fill_cycinib_def
      fill_alminib_def write_var_def)+

text \<open>Steps on one task.\<close>

lemma cb_ok_upd_task:
  assumes "cb_ok cx k"
    and "timed (upd_task t f k) t \<Longrightarrow> timed k t \<and> (TSTAT_WAIT_WOBJ (tstat (f (task k t))) \<longrightarrow> TSTAT_WAIT_WOBJ (tstat (task k t)))"
  shows "cb_ok cx (upd_task t f k)"
proof (rule cb_okI [OF assms(1)])
  show "excpt_ctx (upd_task t f k) = excpt_ctx k" "tmax_cycid (upd_task t f k) = tmax_cycid k" "tmax_almid (upd_task t f k) = tmax_almid k" "same_cb (tm k) (tm (upd_task t f k))"
    by (simp_all add: upd_task_def map_ts_def)
  fix u assume u: "timed (upd_task t f k) u"
  show "timed k u \<and> (TSTAT_WAIT_WOBJ (tstat (task (upd_task t f k) u)) \<longrightarrow> TSTAT_WAIT_WOBJ (tstat (task k u)))"
  proof (cases "u = t")
    case True
    then show ?thesis using assms(2) u by simp
  next
    case False
    then show ?thesis using u by (simp add: timed_def)
  qed
qed

lemma cb_ok_flags [frame]:
  assumes "cb_ok cx k" "\<And>b. tstat (f b) = tstat b" "\<And>b. p_winfo (f b) = p_winfo b"
  shows "cb_ok cx (upd_task t f k)"
  using assms by (intro cb_ok_upd_task [OF assms(1)]) (simp add: timed_def)

lemma suspend_bit:
  "TSTAT_WAITING (st OR TS_SUSPENDED) = TSTAT_WAITING st" "TSTAT_WAIT_WOBJ (st OR TS_SUSPENDED) = TSTAT_WAIT_WOBJ st"
  "TSTAT_WAITING (st AND NOT TS_SUSPENDED) = TSTAT_WAITING st" "TSTAT_WAIT_WOBJ (st AND NOT TS_SUSPENDED) = TSTAT_WAIT_WOBJ st"
  by (simp_all add: TSTAT_WAITING_def TSTAT_WAIT_WOBJ_def bit.conj_disj_distrib2 and.assoc)

lemma cb_ok_suspend [frame]:
  assumes "cb_ok cx k"
  shows "cb_ok cx (upd_task t (\<lambda>b. b\<lparr>tstat := tstat b OR TS_SUSPENDED\<rparr>) k)" "cb_ok cx (upd_task t (\<lambda>b. b\<lparr>tstat := tstat b AND NOT TS_SUSPENDED\<rparr>) k)"
  by (rule cb_ok_upd_task [OF assms]; simp add: timed_def suspend_bit suspend_bit(3,4) [simplified])+

lemmas cb_ok_resume [frame] = cb_ok_suspend(2) [simplified]

lemma cb_ok_winfo [frame]:
  assumes "cb_ok cx k" "\<And>i. w_u (f i) = w_u i" shows "cb_ok cx (upd_winfo t f k)"
  unfolding upd_winfo_def using assms by (intro cb_ok_upd_task [OF assms(1)]) (simp add: timed_def)

lemma cb_ok_stop_wait [frame]:
  assumes "cb_ok cx k"
  shows "cb_ok cx (set_wercd t e k)" "\<not> TSTAT_WAITING st \<Longrightarrow> cb_ok cx (set_tstat t st k)" "cb_ok cx (set_wobjcb t w k)"
  unfolding set_wercd_def upd_winfo_def set_tstat_def set_wobjcb_def
  by (rule cb_ok_upd_task [OF assms]; simp add: timed_def)+

lemma cb_ok_wake [frame]:
  assumes "cb_ok cx k"
  shows "cb_ok cx (make_non_wait t k)" "cb_ok cx (wait_complete t k)" "cb_ok cx (wait_dequeue_tmevtb t k)" "cb_ok cx (wait_dequeue_wobj t k)"
  using assms by (auto simp: make_non_wait_def wait_complete_def wait_dequeue_tmevtb_def wait_dequeue_wobj_def
      intro!: frame split: winfo_u.split option.split)

lemma cb_ok_dispatch [frame]:
  assumes "cb_ok cx k"
  shows "cb_ok cx (dispatch k)" "cb_ok cx (dispatch_if_needed k)" "cb_ok cx (dispatch_or_request k)"
    "cb_ok cx (exit_and_dispatch k)" "cb_ok cx (snd (leave e k))" "cb_ok cx (snd (leave_uint n k))" "cb_ok cx (snd (block k))"
  using assms by (auto simp: dispatch_def dispatch_if_needed_def dispatch_or_request_def request_dispatch_retint_def
      exit_and_dispatch_def leave_def leave_uint_def block_def intro!: cb_ok_tasks)

lemma cb_ok_take [frame]: "cb_ok cx k \<Longrightarrow> cb_ok cx (snd (take_waiter w k))"
  by (auto simp: take_waiter_def case_prod_unfold Let_def intro!: frame)

lemma cb_ok_release_first [frame]: "cb_ok cx k \<Longrightarrow> cb_ok cx (release_first w k)"
  by (auto simp: release_first_def case_prod_unfold Let_def intro!: frame)

lemma cb_ok_init_wait_queue [frame]: "cb_ok cx k \<Longrightarrow> cb_ok cx (init_wait_queue w k)"
proof (induction w k rule: init_wait_queue.induct)
  case (1 w k)
  then show ?case by (cases "queue_of k w = []") (simp_all add: init_wait_queue.simps [of w k] cb_ok_release_first)
qed

text \<open>A task that starts a timed wait gets its call back.\<close>

lemma cb_ok_others:
  assumes c: "cb_ok cx k" and o: "others t k k'" and r: "\<And>r. r \<noteq> TskTM t \<Longrightarrow> callback (tmevtb_tab (tm k') r) = callback (tmevtb_tab (tm k) r) \<and>
      arg (tmevtb_tab (tm k') r) = arg (tmevtb_tab (tm k) r)" and t: "timed k' t \<Longrightarrow> cb_task k' t"
  shows "cb_ok cx k'"
proof -
  have "cb_task k' u" if "timed k' u" for u
  proof (cases "u = t")
    case False
    then have "timed k u" using that others_sel(3) [OF o False] by (simp add: timed_def)
    then show ?thesis using c others_sel(3) [OF o False] r [of "TskTM u"] False by (simp add: cb_ok_def cb_task_def Let_def)
  qed (use that t in simp)
  moreover have "tmax_cycid k' = tmax_cycid k" "tmax_almid k' = tmax_almid k" "sense_context k' = sense_context k"
    using o by (auto simp: others_def same_tables_def sense_context_def)
  ultimately show ?thesis using c r by (simp add: cb_ok_def calls_back_def)
qed

lemma cb_enqueue [simp]:
  "callback (tmevtb_tab (tmevtb_enqueue_reltim r t m) x) = callback (tmevtb_tab m x)"
  "arg (tmevtb_tab (tmevtb_enqueue_reltim r t m) x) = arg (tmevtb_tab m x)"
  using same_cb_ops(6) [of m r t] by (simp_all add: same_cb_def)

lemma cb_start_timer:
  "calls_back (tm (start_timer t cb time k)) (TskTM t) cb t"
  "r \<noteq> TskTM t \<Longrightarrow> callback (tmevtb_tab (tm (start_timer t cb time k)) r) = callback (tmevtb_tab (tm k) r) \<and>
     arg (tmevtb_tab (tm (start_timer t cb time k)) r) = arg (tmevtb_tab (tm k) r)"
  "ts (start_timer t cb time k) = ts k"
  by (simp_all add: start_timer_def map_tm_def calls_back_def)

lemma cb_ok_wait [frame]:
  assumes c: "cb_ok cx k"
  shows "cb_ok cx (make_wait st wi k)" "cb_ok cx (make_wait_tmout st wi tmout k)"
    "cb_ok cx (wobj_make_wait w st wi k)" "cb_ok cx (wobj_make_wait_tmout w st wi tmout k)"
    "cb_ok cx (rwait_make_wait w st k)" "cb_ok cx (rwait_make_wait_tmout w st tmout k)"
proof -
  let ?t = "runtsk k"
  show m: "cb_ok cx (make_wait st wi k)" for st wi
  proof (rule cb_ok_others [OF c])
    show "others ?t k (make_wait st wi k)"
      unfolding make_wait_def Let_def set_tstat_def by (intro others_after others_refl)
  qed (simp_all add: make_wait_def Let_def set_tstat_def timed_def)
  show n: "cb_ok cx (make_wait_tmout st wi tmout k)" for st wi tmout
  proof (cases "tmout = TMO_FEVR")
    case True
    then show ?thesis using m [of st wi] by (simp add: make_wait_tmout_def make_wait_def Let_def)
  next
    case False
    let ?k = "upd_task ?t (\<lambda>b. b\<lparr>p_winfo := wi\<lparr>w_u := P_tmevtb (Some (TskTM ?t))\<rparr>\<rparr>) (map_ts (make_non_runnable ?t) (set_tstat ?t st k))"
    have k: "make_wait_tmout st wi tmout k = start_timer ?t Wait_tmout tmout ?k"
      using False by (simp add: make_wait_tmout_def Let_def)
    have o: "others ?t k (start_timer ?t Wait_tmout tmout ?k)"
      unfolding start_timer_def set_tstat_def by (intro others_after others_refl)
    show ?thesis unfolding k
    proof (rule cb_ok_others [OF c o])
      show "cb_task (start_timer ?t Wait_tmout tmout ?k) ?t"
        using cb_start_timer(1) [of ?t Wait_tmout tmout ?k] by (simp add: cb_task_def calls_back_def Let_def)
    qed (simp add: cb_start_timer(2), simp add: set_tstat_def)
  qed
  show "cb_ok cx (wobj_make_wait w st wi k)" "cb_ok cx (wobj_make_wait_tmout w st wi tmout k)"
    "cb_ok cx (rwait_make_wait w st k)" "cb_ok cx (rwait_make_wait_tmout w st tmout k)"
    using m n by (auto simp: wobj_make_wait_def wobj_make_wait_tmout_def rwait_make_wait_def rwait_make_wait_tmout_def
        wobj_queue_insert_def intro!: frame)
qed


section \<open>Calls on objects\<close>

lemma sem_calls_cb:
  assumes "cb_ok cx k"
  shows "cb_ok cx (snd (acre_sem atr icnt mx k))" "cb_ok cx (snd (del_sem semid k))"
    "cb_ok cx (snd (sig_sem semid k))" "cb_ok cx (snd (wai_sem semid k))" "cb_ok cx (snd (pol_sem semid k))"
    "cb_ok cx (snd (twai_sem semid tmout k))" "cb_ok cx (snd (ini_sem semid k))" "cb_ok cx (snd (fst (ref_sem semid k)))"
  using assms by (auto simp: acre_sem_def del_sem_def sig_sem_def wai_sem_def pol_sem_def twai_sem_def ini_sem_def ref_sem_def
      Let_def case_prod_unfold intro!: frame)

lemma set_flg_loop_cb [frame]: "cb_ok cx k \<Longrightarrow> cb_ok cx (set_flg_loop i ws k)"
proof (induction ws arbitrary: k)
  case (Cons t ws)
  obtain r k1 where r: "check_flg_cond i (w_waiptn (p_winfo (task k t))) (w_wfmode (p_winfo (task k t))) k = (r, k1)"
    by (metis surj_pair)
  have "cb_ok cx (snd (check_flg_cond i (w_waiptn (p_winfo (task k t))) (w_wfmode (p_winfo (task k t))) k))"
    using Cons.prems by (auto simp: check_flg_cond_def Let_def intro!: frame)
  then have k1: "cb_ok cx k1" using r by simp
  then have "cb_ok cx (flg_release i t ptn k1)" for ptn unfolding flg_release_def by (intro frame) simp_all
  then show ?case using Cons k1 by (cases r) (simp_all only: set_flg_loop_step r, simp_all add: Let_def)
qed simp

lemma flg_calls_cb:
  assumes "cb_ok cx k"
  shows "cb_ok cx (snd (acre_flg atr ptn k))" "cb_ok cx (snd (del_flg flgid k))" "cb_ok cx (snd (set_flg flgid p k))"
    "cb_ok cx (snd (clr_flg flgid p k))" "cb_ok cx (snd (fst (wai_flg flgid p m k)))"
    "cb_ok cx (snd (fst (pol_flg flgid p m k)))" "cb_ok cx (snd (fst (twai_flg flgid p m tmout k)))"
    "cb_ok cx (snd (ini_flg flgid k))" "cb_ok cx (snd (fst (ref_flg flgid k)))"
  using assms by (auto simp: acre_flg_def del_flg_def set_flg_def clr_flg_def wai_flg_def pol_flg_def twai_flg_def ini_flg_def
      ref_flg_def check_flg_cond_def Let_def case_prod_unfold intro!: frame)

lemma dtq_moves_cb [frame]:
  assumes "cb_ok cx k"
  shows "cb_ok cx (snd (send_data i d k))" "cb_ok cx (snd (receive_data i k))" "cb_ok cx (force_send_data i d k)"
  using assms by (auto simp: send_data_def receive_data_def force_send_data_def give_data_def Let_def case_prod_unfold
      intro!: frame)

lemma dtq_calls_cb:
  assumes "cb_ok cx k"
  shows "cb_ok cx (snd (acre_dtq al atr cnt mb k))" "cb_ok cx (snd (del_dtq dtqid k))" "cb_ok cx (snd (snd_dtq dtqid data k))"
    "cb_ok cx (snd (psnd_dtq dtqid data k))" "cb_ok cx (snd (tsnd_dtq dtqid data tmout k))" "cb_ok cx (snd (fsnd_dtq dtqid data k))"
    "cb_ok cx (snd (fst (rcv_dtq dtqid k)))" "cb_ok cx (snd (fst (prcv_dtq dtqid k)))"
    "cb_ok cx (snd (fst (trcv_dtq dtqid tmout k)))" "cb_ok cx (snd (ini_dtq dtqid k))" "cb_ok cx (snd (fst (ref_dtq dtqid k)))"
  using assms by (auto simp: acre_dtq_def del_dtq_def snd_dtq_def psnd_dtq_def tsnd_dtq_def fsnd_dtq_def rcv_dtq_def prcv_dtq_def
      trcv_dtq_def ini_dtq_def ref_dtq_def Let_def case_prod_unfold intro!: frame split: option.split)

lemma pdq_moves_cb [frame]:
  assumes "cb_ok cx k"
  shows "cb_ok cx (snd (send_pridata i d k))" "cb_ok cx (snd (receive_pridata i k))"
  using assms by (auto simp: send_pridata_def receive_pridata_def give_pridata_def Let_def case_prod_unfold intro!: frame)

lemma pdq_calls_cb:
  assumes "cb_ok cx k"
  shows "cb_ok cx (snd (acre_pdq al atr cnt mx mb k))" "cb_ok cx (snd (del_pdq pdqid k))" "cb_ok cx (snd (snd_pdq pdqid data pri k))"
    "cb_ok cx (snd (psnd_pdq pdqid data pri k))" "cb_ok cx (snd (tsnd_pdq pdqid data pri tmout k))"
    "cb_ok cx (snd (fst (rcv_pdq pdqid k)))" "cb_ok cx (snd (fst (prcv_pdq pdqid k)))"
    "cb_ok cx (snd (fst (trcv_pdq pdqid tmout k)))" "cb_ok cx (snd (ini_pdq pdqid k))" "cb_ok cx (snd (fst (ref_pdq pdqid k)))"
  using assms by (auto simp: acre_pdq_def del_pdq_def snd_pdq_def psnd_pdq_def tsnd_pdq_def rcv_pdq_def prcv_pdq_def
      trcv_pdq_def ini_pdq_def ref_pdq_def Let_def case_prod_unfold intro!: frame split: option.split)

lemma mpf_calls_cb:
  assumes "cb_ok cx k"
  shows "cb_ok cx (snd (acre_mpf pal mal atr cnt sz mp mb k))" "cb_ok cx (snd (del_mpf mpfid k))"
    "cb_ok cx (snd (fst (get_mpf mpfid k)))" "cb_ok cx (snd (fst (pget_mpf mpfid k)))" "cb_ok cx (snd (fst (tget_mpf mpfid tmout k)))"
    "cb_ok cx (snd (rel_mpf mpfid blk k))" "cb_ok cx (snd (ini_mpf mpfid k))" "cb_ok cx (snd (fst (ref_mpf mpfid k)))"
  using assms by (auto simp: acre_mpf_def del_mpf_def get_mpf_def pget_mpf_def tget_mpf_def rel_mpf_def ini_mpf_def ref_mpf_def
      take_block_def Let_def case_prod_unfold intro!: frame split: option.split)

section \<open>Calls on time and notifications\<close>

lemma time_calls_cb:
  assumes "cb_ok cx k"
  shows "cb_ok cx (snd (set_tim time k))" "cb_ok cx (snd (fst (get_tim k)))" "cb_ok cx (snd (adj_tim a k))" "cb_ok cx (snd (fch_hrt k))"
  using assms by (auto simp: set_tim_def get_tim_def adj_tim_def fch_hrt_def Let_def case_prod_unfold take_lock_def give_lock_def
      same_cb_tab intro!: frame)

lemma cyc_calls_cb:
  assumes "cb_ok cx k"
  shows "cb_ok cx (snd (acre_cyc thumb atr nfy tim phs k))" "cb_ok cx (snd (del_cyc cycid k))"
    "cb_ok cx (snd (sta_cyc cycid k))" "cb_ok cx (snd (stp_cyc cycid k))" "cb_ok cx (snd (fst (ref_cyc cycid k)))"
  using assms by (auto simp: acre_cyc_def del_cyc_def sta_cyc_def stp_cyc_def ref_cyc_def stop_cyc_def Let_def case_prod_unfold
      intro!: frame)

lemma alm_calls_cb:
  assumes "cb_ok cx k"
  shows "cb_ok cx (snd (acre_alm thumb atr nfy k))" "cb_ok cx (snd (del_alm almid k))"
    "cb_ok cx (snd (sta_alm almid tim k))" "cb_ok cx (snd (stp_alm almid k))" "cb_ok cx (snd (fst (ref_alm almid k)))"
  using assms by (auto simp: acre_alm_def del_alm_def sta_alm_def stp_alm_def ref_alm_def stop_alm_def Let_def case_prod_unfold
      intro!: frame)

section \<open>Calls on the system state, mutexes and tasks\<close>


lemma change_priority_cb [frame]: "cb_ok cx k \<Longrightarrow> cb_ok cx (change_priority t p mm k)"
  by (auto simp: change_priority_def wobj_change_priority_def Let_def intro!: frame split: option.split)

lemma mutex_ops_cb [frame]:
  assumes "cb_ok cx k"
  shows "cb_ok cx (set_lastmtx t v k)" "cb_ok cx (mutex_drop_priority t m k)" "cb_ok cx (mutex_acquire t m k)" "cb_ok cx (mutex_release m k)"
proof -
  have l: "cb_ok cx (set_lastmtx t v k)" if "cb_ok cx k" for t v k using that by (auto simp: set_lastmtx_def intro!: frame)
  show "cb_ok cx (mutex_drop_priority t m k)" using assms by (auto simp: mutex_drop_priority_def Let_def intro!: frame)
  show "cb_ok cx (mutex_acquire t m k)" using assms by (auto simp: mutex_acquire_def Let_def intro!: frame l)
  show "cb_ok cx (mutex_release m k)" using assms by (auto simp: mutex_release_def Let_def case_prod_unfold intro!: frame l)
  show "cb_ok cx (set_lastmtx t v k)" by (rule l [OF assms])
qed

lemma release_all_cb [frame]: "cb_ok cx k \<Longrightarrow> cb_ok cx (mutex_release_all t k)"
proof -
  have "cb_ok cx (release_all_loop n t k)" if "cb_ok cx k" for n k
    using that by (induction n t k rule: release_all_loop.induct) (auto intro!: frame split: option.split)
  then show "cb_ok cx k \<Longrightarrow> cb_ok cx (mutex_release_all t k)" by (simp add: mutex_release_all_def)
qed

lemma unlink_loop_cb [frame]: "cb_ok cx k \<Longrightarrow> cb_ok cx (unlink_loop n t m pp k)"
  by (induction n t m pp k rule: unlink_loop.induct) (auto simp: pp_set_def intro!: frame split: option.split)

lemma mtx_calls_cb:
  assumes "cb_ok cx k"
  shows "cb_ok cx (snd (acre_mtx atr cpri k))" "cb_ok cx (snd (del_mtx mtxid k))" "cb_ok cx (snd (loc_mtx mtxid k))"
    "cb_ok cx (snd (ploc_mtx mtxid k))" "cb_ok cx (snd (tloc_mtx mtxid tmout k))" "cb_ok cx (snd (unl_mtx mtxid k))"
    "cb_ok cx (snd (ini_mtx mtxid k))" "cb_ok cx (snd (fst (ref_mtx mtxid k)))"
proof -
  have t: "cb_ok cx (k\<lparr>mtxinib := i, free_mtxcb := f\<rparr>)" if "cb_ok cx k" for k i f
    by (rule cb_same [OF that]) simp_all
  show "cb_ok cx (snd (del_mtx mtxid k))" "cb_ok cx (snd (acre_mtx atr cpri k))"
    using assms by (auto simp: acre_mtx_def del_mtx_def Let_def intro!: frame t split: option.split)
  show "cb_ok cx (snd (loc_mtx mtxid k))"
    "cb_ok cx (snd (ploc_mtx mtxid k))" "cb_ok cx (snd (tloc_mtx mtxid tmout k))" "cb_ok cx (snd (unl_mtx mtxid k))"
    "cb_ok cx (snd (ini_mtx mtxid k))" "cb_ok cx (snd (fst (ref_mtx mtxid k)))"
    using assms by (auto simp: loc_mtx_def ploc_mtx_def tloc_mtx_def unl_mtx_def ini_mtx_def
        ref_mtx_def Let_def intro!: frame split: option.split)
qed

lemma make_dormant_cb [frame]:
  assumes "cb_ok cx k" shows "cb_ok cx (map_ts (make_dormant t) k)" "cb_ok cx (map_ts (make_active t) k)"
proof -
  have "map_ts (make_dormant t) k = upd_task t (\<lambda>b. b\<lparr>tstat := TS_DORMANT, bpriority := ipriority (tinib (ts k) t),
      priority := ipriority (tinib (ts k) t), wupque := False, raster := False, enater := True\<rparr>) k"
    "map_ts (make_active t) k = map_ts (make_runnable t) (set_tstat t TS_RUNNABLE k)"
    by (simp_all add: make_dormant_def make_active_def set_tstat_def upd_task_def map_ts_def)
  then show "cb_ok cx (map_ts (make_dormant t) k)" "cb_ok cx (map_ts (make_active t) k)"
    using assms by (auto simp: timed_def intro!: cb_ok_upd_task frame)
qed

lemma task_terminate_cb [frame]: "cb_ok cx k \<Longrightarrow> cb_ok cx (task_terminate t k)"
  by (auto simp: task_terminate_def Let_def intro!: frame)

lemma sys_calls_cb:
  assumes "cb_ok cx k"
  shows "cb_ok cx (snd (rot_rdq tskpri k))" "cb_ok cx (snd (fst (get_tid k)))" "cb_ok cx (snd (fst (get_lod tskpri k)))"
    "cb_ok cx (snd (fst (get_nth tskpri n k)))" "cb_ok cx (snd (loc_cpu k))" "cb_ok cx (snd (unl_cpu k))" "cb_ok cx (snd (dis_dsp k))"
    "cb_ok cx (snd (ena_dsp k))" "cb_ok cx (snd (chg_ipm tmin intpri k))" "cb_ok cx (snd (fst (get_ipm k)))"
  using assms by (auto simp: rot_rdq_def get_tid_def get_lod_def get_nth_def loc_cpu_def unl_cpu_def dis_dsp_def ena_dsp_def
      chg_ipm_def get_ipm_def resume_dispatch_def take_lock_def give_lock_def Let_def intro!: frame split: option.split)

lemma task_calls_cb:
  assumes "cb_ok cx k"
  shows "cb_ok cx (snd (act_tsk tskid k))" "cb_ok cx (snd (can_act tskid k))" "cb_ok cx (snd (fst (get_tst tskid k)))"
    "cb_ok cx (snd (fst (get_pri tskid k)))" "cb_ok cx (snd (fst (get_inf k)))" "cb_ok cx (snd (dis_ter k))"
    "cb_ok cx (snd (slp_tsk k))" "cb_ok cx (snd (tslp_tsk tmout k))" "cb_ok cx (snd (wup_tsk tskid k))"
    "cb_ok cx (snd (can_wup tskid k))" "cb_ok cx (snd (rel_wai tskid k))" "cb_ok cx (snd (chg_pri tskid tskpri k))"
    "cb_ok cx (snd (ter_tsk tskid k))" "cb_ok cx (snd (ena_ter k))" "cb_ok cx (snd (ext_tsk k))"
    "cb_ok cx (snd (sus_tsk tskid k))" "cb_ok cx (snd (rsm_tsk tskid k))" "cb_ok cx (snd (fst (ref_tsk tskid k)))"
    "cb_ok cx (snd (del_tsk tskid k))"
  using assms by (auto simp: act_tsk_def can_act_def get_tst_def get_pri_def get_inf_def dis_ter_def slp_tsk_def tslp_tsk_def wup_tsk_def
      can_wup_def rel_wai_def chg_pri_def ter_tsk_def ena_ter_def ext_tsk_def sus_tsk_def rsm_tsk_def ref_tsk_def del_tsk_def
      lefttmo_def Let_def case_prod_unfold intro!: frame split: option.split winfo_u.split)


lemma ras_ter_cb:
  assumes "cb_ok cx k" shows "cb_ok cx (snd (ras_ter tskid k))"
  using assms by (auto simp: ras_ter_def Let_def intro!: frame)

lemma dly_tsk_cb:
  assumes c: "cb_ok cx k" shows "cb_ok cx (snd (dly_tsk dlytim k))"
proof -
  have "cb_ok cx (start_timer t Wait_tmout_ok dlytim (upd_task t (\<lambda>b. b\<lparr>p_winfo := fresh_winfo\<lparr>w_u := P_tmevtb (Some (TskTM t))\<rparr>\<rparr>)
      (map_ts (make_non_runnable t) (set_tstat t TS_WAITING_DLY k))))" (is "cb_ok cx (start_timer t _ _ ?k)") if "cb_ok cx k" for t k
  proof (rule cb_ok_others [OF that])
    show "others t k (start_timer t Wait_tmout_ok dlytim ?k)"
      unfolding start_timer_def set_tstat_def by (intro others_after others_refl)
    show "cb_task (start_timer t Wait_tmout_ok dlytim ?k) t"
      using cb_start_timer(1) [of t Wait_tmout_ok dlytim ?k]
      by (simp add: cb_task_def calls_back_def Let_def cb_start_timer(3) set_tstat_def TSTAT_WAIT_WOBJ_def)
  qed (simp add: cb_start_timer(2), simp add: set_tstat_def)
  from this [of "lock_cpu k"] c show ?thesis by (auto simp: dly_tsk_def Let_def intro!: frame)
qed

lemma acre_tsk_cb:
  assumes c: "cb_ok cx k" shows "cb_ok cx (snd (acre_tsk thumb atr exi ent itskpri sz stack k))"
proof -
  have "cb_ok cx (snd (malloc_mpk n (lock_cpu k)))" for n using c by (intro frame)
  then show ?thesis using c
    by (auto simp: acre_tsk_def Let_def case_prod_unfold intro!: frame)
qed


end
