(* ===== verification/Frames.thy ===== *)
theory Frames
  imports Callback
begin

unbundle bit_operations_syntax

text \<open>
  What the calls on one kind of object leave alone of all others: the priorities of tasks and the mutexes
  they hold (\<open>prio_frame\<close>), and the tables and wait queues of the other kinds (\<open>keeps\<close>).
\<close>

section \<open>Priorities\<close>

lemma prio_frame_tables [frame]:
  assumes "prio_frame X k k'"
  shows "prio_frame X k (set_semcnt i n k')" "prio_frame X k (set_flgptn i p k')" "prio_frame X k (upd_dtqcb i f k')"
    "prio_frame X k (upd_pdqcb i g k')" "prio_frame X k (upd_mpfcb i h k')" "prio_frame X k (reset_queue w k')"
    "prio_frame X k (free_mpk p' k')" "prio_frame X k (snd (malloc_mpk n' k'))"
    "prio_frame X k (k'\<lparr>free_semcb := l\<rparr>)" "prio_frame X k (k'\<lparr>free_flgcb := l\<rparr>)" "prio_frame X k (k'\<lparr>free_dtqcb := l\<rparr>)"
    "prio_frame X k (k'\<lparr>free_pdqcb := l\<rparr>)" "prio_frame X k (k'\<lparr>free_mpfcb := l\<rparr>)"
    "prio_frame X k (k'\<lparr>seminib := a\<rparr>)" "prio_frame X k (k'\<lparr>flginib := b\<rparr>)" "prio_frame X k (k'\<lparr>dtqinib := c\<rparr>)"
    "prio_frame X k (k'\<lparr>pdqinib := d\<rparr>)" "prio_frame X k (k'\<lparr>mpfinib := e\<rparr>)"
  by (rule prio_frame_same [OF assms]; simp add: set_semcnt_def set_flgptn_def upd_dtqcb_def upd_pdqcb_def upd_mpfcb_def
      reset_queue_def map_ts_def free_mpk_def malloc_mpk_def Let_def)+

lemma sem_calls_prio:
  "prio_frame {} k (snd (acre_sem atr icnt mx k))" "prio_frame {} k (snd (del_sem semid k))"
  "prio_frame {} k (snd (sig_sem semid k))" "prio_frame {} k (snd (wai_sem semid k))" "prio_frame {} k (snd (pol_sem semid k))"
  "prio_frame {} k (snd (twai_sem semid tmout k))" "prio_frame {} k (snd (ini_sem semid k))" "prio_frame {} k (snd (fst (ref_sem semid k)))"
  by (auto simp: acre_sem_def del_sem_def sig_sem_def wai_sem_def pol_sem_def twai_sem_def ini_sem_def ref_sem_def Let_def
      case_prod_unfold intro!: frame)

lemma set_flg_loop_prio [frame]: "prio_frame X k k' \<Longrightarrow> prio_frame X k (set_flg_loop i ws k')"
proof (induction ws arbitrary: k')
  case (Cons t ws)
  obtain r k1 where r: "check_flg_cond i (w_waiptn (p_winfo (task k' t))) (w_wfmode (p_winfo (task k' t))) k' = (r, k1)"
    by (metis surj_pair)
  have "prio_frame X k (snd (check_flg_cond i (w_waiptn (p_winfo (task k' t))) (w_wfmode (p_winfo (task k' t))) k'))"
    using Cons.prems by (auto simp: check_flg_cond_def Let_def intro!: frame)
  then have k1: "prio_frame X k k1" using r by simp
  then have "prio_frame X k (flg_release i t ptn k1)" for ptn unfolding flg_release_def by (intro frame)
  then show ?case using Cons k1 by (cases r) (simp_all only: set_flg_loop_step r, simp_all add: Let_def)
qed simp

lemma flg_calls_prio:
  "prio_frame {} k (snd (acre_flg atr ptn k))" "prio_frame {} k (snd (del_flg flgid k))" "prio_frame {} k (snd (set_flg flgid p k))"
  "prio_frame {} k (snd (clr_flg flgid p k))" "prio_frame {} k (snd (fst (wai_flg flgid p m k)))"
  "prio_frame {} k (snd (fst (pol_flg flgid p m k)))" "prio_frame {} k (snd (fst (twai_flg flgid p m tmout k)))"
  "prio_frame {} k (snd (ini_flg flgid k))" "prio_frame {} k (snd (fst (ref_flg flgid k)))"
  by (auto simp: acre_flg_def del_flg_def set_flg_def clr_flg_def wai_flg_def pol_flg_def twai_flg_def ini_flg_def ref_flg_def
      check_flg_cond_def Let_def case_prod_unfold intro!: frame)

lemma dtq_moves_prio [frame]:
  assumes "prio_frame X k k'"
  shows "prio_frame X k (snd (send_data i d k'))" "prio_frame X k (snd (receive_data i k'))" "prio_frame X k (force_send_data i d k')"
  using assms by (auto simp: send_data_def receive_data_def force_send_data_def Let_def case_prod_unfold intro!: frame)

lemma dtq_calls_prio:
  "prio_frame {} k (snd (acre_dtq al atr cnt mb k))" "prio_frame {} k (snd (del_dtq dtqid k))"
  "prio_frame {} k (snd (snd_dtq dtqid data k))" "prio_frame {} k (snd (psnd_dtq dtqid data k))"
  "prio_frame {} k (snd (tsnd_dtq dtqid data tmout k))" "prio_frame {} k (snd (fsnd_dtq dtqid data k))"
  "prio_frame {} k (snd (fst (rcv_dtq dtqid k)))" "prio_frame {} k (snd (fst (prcv_dtq dtqid k)))"
  "prio_frame {} k (snd (fst (trcv_dtq dtqid tmout k)))" "prio_frame {} k (snd (ini_dtq dtqid k))"
  "prio_frame {} k (snd (fst (ref_dtq dtqid k)))"
  by (auto simp: acre_dtq_def del_dtq_def snd_dtq_def psnd_dtq_def tsnd_dtq_def fsnd_dtq_def rcv_dtq_def prcv_dtq_def
      trcv_dtq_def ini_dtq_def ref_dtq_def Let_def case_prod_unfold intro!: frame split: option.split)

lemma pdq_moves_prio [frame]:
  assumes "prio_frame X k k'"
  shows "prio_frame X k (snd (send_pridata i d k'))" "prio_frame X k (snd (receive_pridata i k'))"
  using assms by (auto simp: send_pridata_def receive_pridata_def Let_def case_prod_unfold intro!: frame)

lemma pdq_calls_prio:
  "prio_frame {} k (snd (acre_pdq al atr cnt mx mb k))" "prio_frame {} k (snd (del_pdq pdqid k))"
  "prio_frame {} k (snd (snd_pdq pdqid data pri k))" "prio_frame {} k (snd (psnd_pdq pdqid data pri k))"
  "prio_frame {} k (snd (tsnd_pdq pdqid data pri tmout k))" "prio_frame {} k (snd (fst (rcv_pdq pdqid k)))"
  "prio_frame {} k (snd (fst (prcv_pdq pdqid k)))" "prio_frame {} k (snd (fst (trcv_pdq pdqid tmout k)))"
  "prio_frame {} k (snd (ini_pdq pdqid k))" "prio_frame {} k (snd (fst (ref_pdq pdqid k)))"
  by (auto simp: acre_pdq_def del_pdq_def snd_pdq_def psnd_pdq_def tsnd_pdq_def rcv_pdq_def prcv_pdq_def
      trcv_pdq_def ini_pdq_def ref_pdq_def Let_def case_prod_unfold intro!: frame split: option.split)

lemma mpf_calls_prio:
  "prio_frame {} k (snd (acre_mpf pal mal atr cnt sz mp mb k))" "prio_frame {} k (snd (del_mpf mpfid k))"
  "prio_frame {} k (snd (fst (get_mpf mpfid k)))" "prio_frame {} k (snd (fst (pget_mpf mpfid k)))"
  "prio_frame {} k (snd (fst (tget_mpf mpfid tmout k)))" "prio_frame {} k (snd (rel_mpf mpfid blk k))"
  "prio_frame {} k (snd (ini_mpf mpfid k))" "prio_frame {} k (snd (fst (ref_mpf mpfid k)))"
  by (auto simp: acre_mpf_def del_mpf_def get_mpf_def pget_mpf_def tget_mpf_def rel_mpf_def ini_mpf_def ref_mpf_def
      take_block_def Let_def case_prod_unfold intro!: frame split: option.split)

section \<open>Other kinds\<close>

lemma keeps_set_table:
  assumes "keeps K k k'"
  shows "K \<noteq> KSem \<Longrightarrow> keeps K k (k'\<lparr>free_semcb := l, seminib := a\<rparr>)" "K \<noteq> KFlg \<Longrightarrow> keeps K k (k'\<lparr>free_flgcb := l, flginib := b\<rparr>)"
    "K \<noteq> KDtq \<Longrightarrow> keeps K k (k'\<lparr>free_dtqcb := l, dtqinib := c\<rparr>)" "K \<noteq> KPdq \<Longrightarrow> keeps K k (k'\<lparr>free_pdqcb := l, pdqinib := d\<rparr>)"
    "K \<noteq> KMpf \<Longrightarrow> keeps K k (k'\<lparr>free_mpfcb := l, mpfinib := e\<rparr>)" "K \<noteq> KMtx \<Longrightarrow> keeps K k (k'\<lparr>free_mtxcb := l, mtxinib := m\<rparr>)"
    "keeps K k (snd (malloc_mpk n k'))" "keeps K k (free_mpk p k')"
  using assms by (auto simp: keeps_def same_objects_def malloc_mpk_def free_mpk_def Let_def split: kind.splits)

lemma keeps_reset_queue:
  assumes "keeps K k k'" shows "kind_of w \<noteq> K \<Longrightarrow> keeps K k (map_ts (\<lambda>s. s\<lparr>queues := (queues s)(WaitQ w := [])\<rparr>) k')"
  using assms by (auto simp: keeps_def same_objects_def map_ts_def split: kind.splits)

lemma acre_keeps:
  "K \<noteq> KSem \<Longrightarrow> keeps K k (snd (acre_sem atr icnt mx k))" "K \<noteq> KFlg \<Longrightarrow> keeps K k (snd (acre_flg atr ptn k))"
  "K \<noteq> KDtq \<Longrightarrow> keeps K k (snd (acre_dtq al atr cnt mb k))" "K \<noteq> KPdq \<Longrightarrow> keeps K k (snd (acre_pdq al atr cnt pmx mb k))"
  "K \<noteq> KMpf \<Longrightarrow> keeps K k (snd (acre_mpf pal mal atr cnt sz mp mb k))" "K \<noteq> KMtx \<Longrightarrow> keeps K k (snd (acre_mtx atr cpri k))"
  by (auto simp: acre_sem_def acre_flg_def acre_dtq_def acre_pdq_def acre_mpf_def acre_mtx_def reset_queue_def Let_def
      case_prod_unfold intro!: frame keeps_set_table keeps_reset_queue)

end
