(* ===== verification/FlagInv.thy ===== *)
theory FlagInv
  imports Eventflag Semaphore
begin

unbundle bit_operations_syntax

text \<open>
  The invariant of the table of event flags: tasks wait only for flags that exist, at most one for a flag
  without \<open>TA_WMUL\<close>, and the free list holds unused control blocks. All calls of eventflag.c preserve it.
\<close>

definition flg_inv :: "kernel \<Rightarrow> bool" where
  "flg_inv k \<longleftrightarrow> distinct (free_flgcb k) \<and> (\<forall>i\<in>set (free_flgcb k). \<not> flg_exists k i) \<and>
     (\<forall>i. queue_of k (FlgW i) \<noteq> [] \<longrightarrow> flg_exists k i) \<and>
     (\<forall>i. flgatr (flginib k i) AND TA_WMUL = 0 \<longrightarrow> (\<forall>t\<in>set (queue_of k (FlgW i)). \<forall>u\<in>set (queue_of k (FlgW i)). t = u))"

lemma flg_inv_sub:
  assumes i: "flg_inv k" and t: "flginib k' = flginib k" "free_flgcb k' = free_flgcb k"
    and q: "\<And>i. set (queue_of k' (FlgW i)) \<subseteq> set (queue_of k (FlgW i))"
  shows "flg_inv k'"
proof -
  have "flg_exists k i" if "queue_of k' (FlgW i) \<noteq> []" for i
  proof -
    have "queue_of k (FlgW i) \<noteq> []" using q [of i] that by auto
    then show ?thesis using i by (simp add: flg_inv_def)
  qed
  moreover have "t = u" if "flgatr (flginib k i) AND TA_WMUL = 0" "t \<in> set (queue_of k' (FlgW i))" "u \<in> set (queue_of k' (FlgW i))" for i t u
    using q [of i] that i by (meson flg_inv_def subsetD)
  ultimately show ?thesis using i by (simp add: flg_inv_def flg_exists_def t)
qed

lemma flg_inv_keeps:
  assumes "flg_inv k" "keeps KFlg k k'" shows "flg_inv k'"
proof (rule flg_inv_sub [OF assms(1)])
  show "set (queue_of k' (FlgW i)) \<subseteq> set (queue_of k (FlgW i))" for i using assms(2) by (simp add: keeps_def)
qed (use assms(2) in \<open>simp_all add: keeps_def same_objects_def\<close>)

lemma flg_inv_set [simp]: "flg_inv (set_flgptn i p k) = flg_inv k"
  by (simp add: flg_inv_def flg_exists_def set_flgptn_def)

lemma flg_inv_check [simp]: "flg_inv (snd (check_flg_cond i p m k)) = flg_inv k"
  by (simp add: check_flg_cond_def Let_def)

lemma flg_inv_lock [simp]: "flg_inv (lock_cpu k) = flg_inv k" "flg_inv (unlock_cpu k) = flg_inv k"
  by (simp_all add: flg_inv_def flg_exists_def lock_cpu_def unlock_cpu_def)

lemma flg_inv_dispatch: "flg_inv k \<Longrightarrow> flg_inv (dispatch_or_request k)" "flg_inv k \<Longrightarrow> flg_inv (dispatch_if_needed k)"
  by (erule flg_inv_keeps, auto intro!: frame)+

lemma flg_inv_loop: "flg_inv k \<Longrightarrow> flg_inv (set_flg_loop i ws k)"
proof (induction ws arbitrary: k)
  case (Cons t ws)
  obtain r k1 where r: "check_flg_cond i (w_waiptn (p_winfo (task k t))) (w_wfmode (p_winfo (task k t))) k = (r, k1)"
    by (metis surj_pair)
  then have k1: "flg_inv k1"
    using Cons.prems flg_inv_check [of i "w_waiptn (p_winfo (task k t))" "w_wfmode (p_winfo (task k t))" k] by simp
  have "keeps KFlg k1 (flg_release i t ptn k1)" for ptn unfolding flg_release_def by (intro frame keeps_refl)
  then have "flg_inv (flg_release i t ptn k1)" for ptn using k1 flg_inv_keeps by blast
  then show ?case using Cons k1 by (cases r) (simp_all only: set_flg_loop_step r, simp_all add: Let_def)
qed simp

text \<open>The caller joins the queue of the flag.\<close>

lemma queue_grows:
  assumes "set (queue_of k w) \<subseteq> insert t A"
  shows "set (queue_of (map_ts (make_non_runnable u) k) w) \<subseteq> insert t A" "set (queue_of (upd_task u f k) w) \<subseteq> insert t A"
    "set (queue_of (map_tm g k) w) \<subseteq> insert t A" "set (queue_of (map_ts (queue_insert_last (WaitQ w) t) k) w) \<subseteq> insert t A"
    "set (queue_of (map_ts (queue_insert_tpri (WaitQ w) t) k) w) \<subseteq> insert t A" "set (queue_of (dispatch k) w) \<subseteq> insert t A"
  using assms queue_of_delete_steps(1) [where t = u and s = "ts k" and w = w]
  by (auto simp: queue_insert_last_def queue_insert_tpri_def lq_insert_prev_def Let_def upd_task_def upd_tcb_def dispatch_def)

lemma runtsk_steps [simp]:
  "runtsk (map_tm f k) = runtsk k" "runtsk (upd_task t g k) = runtsk k" "runtsk (map_ts (make_non_runnable t) k) = runtsk k"
  by (simp_all add: runtsk_def)

lemma wait_queue_grows:
  "set (queue_of (dispatch (wobj_make_wait w st wi k)) w) \<subseteq> insert (runtsk k) (set (queue_of k w))"
  "set (queue_of (dispatch (wobj_make_wait_tmout w st wi tmout k)) w) \<subseteq> insert (runtsk k) (set (queue_of k w))"
  unfolding wobj_make_wait_def wobj_make_wait_tmout_def make_wait_def make_wait_tmout_def wobj_queue_insert_def
    set_wobjcb_def upd_winfo_def set_tstat_def start_timer_def Let_def
  by (simp_all only: runtsk_steps split: if_split) (intro conjI impI queue_grows subset_insertI)+

lemma flg_inv_joins:
  assumes i: "flg_inv k" and j: "joins (FlgW i) k k'" and e: "flg_exists k i"
    and g: "set (queue_of k' (FlgW i)) \<subseteq> insert t (set (queue_of k (FlgW i)))"
    and w: "flgatr (flginib k i) AND TA_WMUL = 0 \<Longrightarrow> queue_of k (FlgW i) = []"
  shows "flg_inv k'"
proof -
  have t: "flginib k' = flginib k" "free_flgcb k' = free_flgcb k" using j by (simp_all add: joins_def same_tables_sel)
  have s: "set (queue_of k' (FlgW j)) \<subseteq> set (queue_of k (FlgW j))" if "j \<noteq> i" for j using assms(2) that by (simp add: joins_def)
  have "flg_exists k j" if "queue_of k' (FlgW j) \<noteq> []" for j
  proof (cases "j = i")
    case False
    then have "queue_of k (FlgW j) \<noteq> []" using s [of j] that by auto
    then show ?thesis using i by (simp add: flg_inv_def)
  qed (use e in simp)
  moreover have "x = y" if m: "flgatr (flginib k j) AND TA_WMUL = 0" and q: "x \<in> set (queue_of k' (FlgW j))" "y \<in> set (queue_of k' (FlgW j))" for j x y
  proof (cases "j = i")
    case True
    then show ?thesis using w m q g by auto
  next
    case False
    then show ?thesis using s [OF False] m q i by (meson flg_inv_def subsetD)
  qed
  ultimately show ?thesis using i by (simp add: flg_inv_def flg_exists_def t)
qed

lemma flg_exists_lock [simp]: "flg_exists (lock_cpu k) = flg_exists k"
  by (simp add: flg_exists_def lock_cpu_def fun_eq_iff)

lemma flg_calls_inv:
  assumes i: "flg_inv k"
  shows "flg_inv (snd (set_flg flgid p k))" "flg_inv (snd (clr_flg flgid p k))" "flg_inv (snd (fst (pol_flg flgid p m k)))"
    "flg_inv (snd (ini_flg flgid k))" "flg_inv (snd (fst (ref_flg flgid k)))" "flg_inv (snd (del_flg flgid k))"
proof -
  show "flg_inv (snd (set_flg flgid p k))" using i
    by (auto simp: set_flg_def Let_def intro!: flg_inv_dispatch flg_inv_loop)
  show "flg_inv (snd (clr_flg flgid p k))" "flg_inv (snd (fst (pol_flg flgid p m k)))" "flg_inv (snd (fst (ref_flg flgid k)))"
    using i by (auto simp: clr_flg_def pol_flg_def ref_flg_def Let_def leave_def case_prod_unfold split: option.split)
  define k2 where "k2 = init_wait_queue (FlgW (INDEX flgid)) (lock_cpu k)"
  have k: "keeps KFlg (lock_cpu k) k2" unfolding k2_def by (intro frame keeps_refl)
  have i2: "flg_inv k2" using flg_inv_keeps [OF _ k] i by simp
  then show "flg_inv (snd (ini_flg flgid k))"
    using i by (auto simp: ini_flg_def Let_def leave_def k2_def [symmetric] intro!: flg_inv_dispatch)
  have q: "queue_of k2 (FlgW (INDEX flgid)) = []" by (simp add: k2_def init_wait_queue_empty)
  have e: "flg_exists k2 (INDEX flgid)" if "flg_exists k (INDEX flgid)"
    using that k by (simp add: keeps_def same_objects_def flg_exists_def lock_cpu_def)
  have "flg_inv (k2\<lparr>flginib := (flginib k2)(j := (flginib k2 j)\<lparr>flgatr := TA_NOEXS\<rparr>), free_flgcb := free_flgcb k2 @ [j]\<rparr>)"
    if "flg_exists k2 j" "queue_of k2 (FlgW j) = []" for j
    using i2 that by (auto simp: flg_inv_def flg_exists_def)
  then show "flg_inv (snd (del_flg flgid k))"
    using i e q by (auto simp: del_flg_def Let_def leave_def k2_def [symmetric] intro!: flg_inv_dispatch)
qed

lemma flg_wait_inv:
  assumes i: "flg_inv k"
  shows "flg_inv (snd (fst (wai_flg flgid p m k)))" "flg_inv (snd (fst (twai_flg flgid p m tmout k)))"
proof -
  let ?i = "INDEX flgid" and ?k = "snd (check_flg_cond (INDEX flgid) p m (lock_cpu k))"
  have k: "flg_inv ?k" using i by simp
  have e: "flg_exists ?k ?i = flg_exists k ?i" by (simp add: flg_exists_def check_flg_cond_frame(6)) (simp add: lock_cpu_def)
  have l: "flginib (lock_cpu k) = flginib k" by (simp add: lock_cpu_def)
  have w: "flg_inv (dispatch (wobj_make_wait (FlgW ?i) st wi ?k)) \<and> flg_inv (dispatch (wobj_make_wait_tmout (FlgW ?i) st wi tmout ?k))"
    if x: "flg_exists k ?i" "flgatr (flginib k ?i) AND TA_WMUL = 0 \<longrightarrow> queue_of k (FlgW ?i) = []" for st wi
  proof -
    have "flg_exists ?k ?i" "flgatr (flginib ?k ?i) AND TA_WMUL = 0 \<Longrightarrow> queue_of ?k (FlgW ?i) = []"
      using x by (simp_all add: e l)
    then show ?thesis
      using flg_inv_joins [OF k joins_wait(1) _ wait_queue_grows(1)] flg_inv_joins [OF k joins_wait(2) _ wait_queue_grows(2)] by blast
  qed
  show "flg_inv (snd (fst (wai_flg flgid p m k)))" "flg_inv (snd (fst (twai_flg flgid p m tmout k)))"
    using i w k by (auto simp: wai_flg_def twai_flg_def Let_def leave_def block_def case_prod_unfold l split: option.split)
qed

lemma acre_flg_inv:
  assumes i: "flg_inv k" and s: "settled k"
  shows "flg_inv (snd (acre_flg atr iptn k))" "settled (snd (acre_flg atr iptn k))"
proof -
  define j where "j = hd (free_flgcb k)"
  define k2 where "k2 = (lock_cpu k)\<lparr>free_flgcb := tl (free_flgcb k), flginib := (flginib (lock_cpu k))(j := \<lparr>flgatr = atr, iflgptn = iptn\<rparr>)\<rparr>"
  have new: "flg_inv k2 \<and> settled k2 \<and> reset_queue (FlgW j) k2 = k2"
    if f: "free_flgcb k \<noteq> []" and a: "atr AND NOT (TA_TPRI OR TA_WMUL OR TA_CLR) = 0"
  proof -
    obtain js where js: "free_flgcb k = j # js" using f by (auto simp: j_def neq_Nil_conv)
    have q: "queue_of (lock_cpu k) (FlgW j) = []" using i js by (auto simp: flg_inv_def)
    have "atr \<noteq> TA_NOEXS" using a by auto
    then have "flg_inv k2" using i js q by (auto simp: k2_def flg_inv_def flg_exists_def) (auto simp: lock_cpu_def)
    moreover have "settled k2" using s by (simp add: k2_def settled_lock)
    moreover have "reset_queue (FlgW j) k2 = k2" by (rule reset_queue_idle) (use q in \<open>simp add: k2_def\<close>)
    ultimately show ?thesis by blast
  qed
  have "acre_flg atr iptn k = (if ctx_error k then (Ret E_CTX, k)
      else if atr AND NOT (TA_TPRI OR TA_WMUL OR TA_CLR) \<noteq> 0 then (Ret E_RSATR, k)
      else if tmax_flgid k = 0 \<or> free_flgcb k = [] then leave E_NOID (lock_cpu k)
      else leave_uint (OBJID j) (set_flgptn j iptn (reset_queue (FlgW j) k2)))"
    by (simp add: acre_flg_def Let_def j_def k2_def reset_queue_def map_ts_def lock_cpu_def)
  then show "flg_inv (snd (acre_flg atr iptn k))" "settled (snd (acre_flg atr iptn k))"
    using new assms lock_entry [OF s] by (simp_all add: leave_def leave_uint_def)
qed

end
