(* ===== verification/Invariant.thy ===== *)
theory Invariant
  imports Frames FlagInv
begin

unbundle bit_operations_syntax

text \<open>
  The invariant of the whole kernel, \<open>good\<close>: the scheduler state is settled, the call backs fit, and the
  invariant of every kind of object holds. Every service call preserves it, when it is made by the running
  task or by an interrupt handler (\<open>called\<close>).
\<close>

primrec kind_inv :: "kind \<Rightarrow> kernel \<Rightarrow> bool" where
  "kind_inv KSem = sem_inv"
| "kind_inv KFlg = flg_inv"
| "kind_inv KDtq = dtq_inv"
| "kind_inv KPdq = pdq_inv"
| "kind_inv KMtx = mtx_inv"
| "kind_inv KMpf = mpf_inv"
| "kind_inv KCyc = cyc_inv"
| "kind_inv KAlm = alm_inv"

definition good :: "kernel \<Rightarrow> bool" where
  "good k \<longleftrightarrow> settled k \<and> cb_ok (sense_context k) k \<and> (\<forall>K. kind_inv K k)"

lemma kind_inv_keeps: "K \<noteq> KMtx \<Longrightarrow> kind_inv K k \<Longrightarrow> keeps K k k' \<Longrightarrow> kind_inv K k'"
  by (cases K) (simp_all add: sem_inv_keeps flg_inv_keeps dtq.inv_keeps pdq.inv_keeps mpf_inv_keeps cyc_inv_keeps alm_inv_keeps)

lemma goodD:
  assumes "good k"
  shows "settled k" "cb_ok (sense_context k) k" "sem_inv k" "flg_inv k" "dtq_inv k" "pdq_inv k" "mtx_inv k" "mpf_inv k" "cyc_inv k" "alm_inv k"
  using assms unfolding good_def by (auto dest: spec [of _ KSem] spec [of _ KFlg] spec [of _ KDtq] spec [of _ KPdq] spec [of _ KMtx]
      spec [of _ KMpf] spec [of _ KCyc] spec [of _ KAlm])

text \<open>A step that works on the objects of one kind, and leaves all others as they are.\<close>

lemma good_mtx:
  assumes g: "good k" and "settled k'" "cb_ok (sense_context k) k'" "mtx_inv k'" and k: "\<And>K. K \<noteq> KMtx \<Longrightarrow> keeps K k k'"
  shows "good k'"
proof -
  have "kind_inv K k'" for K
    using g kind_inv_keeps [of K k k'] k [of K] assms(4) by (cases "K = KMtx") (simp_all add: good_def)
  moreover have "sense_context k' = sense_context k" using assms(3) by (simp add: cb_ok_def)
  ultimately show ?thesis using assms by (simp add: good_def)
qed

lemma good_kind:
  assumes g: "good k" and "settled k'" "cb_ok (sense_context k) k'" "K0 \<noteq> KMtx" "kind_inv K0 k'"
    and k: "\<And>K. K \<noteq> K0 \<Longrightarrow> keeps K k k'" and p: "prio_frame {} k k'"
  shows "good k'"
proof -
  have "kind_inv K k'" for K
  proof (cases "K = K0")
    case False
    show ?thesis
    proof (cases "K = KMtx")
      case True
      then show ?thesis using mtx_inv_keeps [OF goodD(7) [OF g] k [of KMtx] p] assms(4) by simp
    next
      case nm: False
      then show ?thesis using kind_inv_keeps [OF nm _ k [OF False]] g by (simp add: good_def)
    qed
  qed (use assms(5) in simp)
  moreover have "sense_context k' = sense_context k" using assms(3) by (simp add: cb_ok_def)
  ultimately show ?thesis using assms by (simp add: good_def)
qed

lemma good_plain:
  assumes "good k" "settled k'" "cb_ok (sense_context k) k'" "\<And>K. keeps K k k'" "prio_frame {} k k'"
  shows "good k'"
  by (rule good_kind [OF assms(1-3), of KSem]) (simp_all add: assms sem_inv_keeps [OF goodD(3) [OF assms(1)]])

lemma called_cases:
  assumes "called k" obtains "sense_context k" | "in_task k"
  using assms by (auto simp: called_def in_task_def)

lemma called_ctx:
  assumes "called k" "in_task k \<Longrightarrow> good (f k)" "sense_context k \<Longrightarrow> f k = k" "good k"
  shows "good (f k)"
  using assms by (auto elim: called_cases)

section \<open>Objects\<close>

lemma sem_calls_good:
  assumes g: "good k" and c: "called k"
  shows "good (snd (acre_sem atr icnt mx k))" "good (snd (del_sem semid k))" "good (snd (sig_sem semid k))"
    "good (snd (wai_sem semid k))" "good (snd (pol_sem semid k))" "good (snd (twai_sem semid tmout k))"
    "good (snd (ini_sem semid k))" "good (snd (fst (ref_sem semid k)))"
proof -
  note i = goodD [OF g]
  note k = good_kind [OF g _ _ _ _ _ , where ?K0.0 = KSem]
  show "good (snd (acre_sem atr icnt mx k))"
    by (rule k) (simp_all add: acre_sem_inv [OF i(3,1)] sem_calls_cb [OF i(2)] acre_keeps sem_calls_prio)
  show "good (snd (del_sem semid k))" "good (snd (sig_sem semid k))" "good (snd (pol_sem semid k))" "good (snd (ini_sem semid k))"
    "good (snd (fst (ref_sem semid k)))"
    by (rule k; simp add: semaphore_settled i sem_calls_cb ini_del_sem_inv sig_sem_inv wai_sem_inv semaphore_keeps sem_calls_prio)+
  show "good (snd (wai_sem semid k))"
    by (rule called_ctx [OF c _ _ g, where f = "\<lambda>k. snd (wai_sem semid k)"], rule k)
      (simp_all add: semaphore_settled i sem_calls_cb wai_sem_inv semaphore_keeps sem_calls_prio, simp add: wai_sem_def dispatch_error_def)
  show "good (snd (twai_sem semid tmout k))"
    by (rule called_ctx [OF c _ _ g, where f = "\<lambda>k. snd (twai_sem semid tmout k)"], rule k)
      (simp_all add: semaphore_settled i sem_calls_cb wai_sem_inv semaphore_keeps sem_calls_prio, simp add: twai_sem_def dispatch_error_def)
qed

lemma flg_calls_good:
  assumes g: "good k" and c: "called k"
  shows "good (snd (acre_flg atr ptn k))" "good (snd (del_flg flgid k))" "good (snd (set_flg flgid p k))"
    "good (snd (clr_flg flgid p k))" "good (snd (fst (wai_flg flgid p m k)))" "good (snd (fst (pol_flg flgid p m k)))"
    "good (snd (fst (twai_flg flgid p m tmout k)))" "good (snd (ini_flg flgid k))" "good (snd (fst (ref_flg flgid k)))"
proof -
  note i = goodD [OF g]
  note k = good_kind [OF g _ _ _ _ _ , where ?K0.0 = KFlg]
  show "good (snd (acre_flg atr ptn k))"
    by (rule k) (simp_all add: acre_flg_inv [OF i(4,1)] flg_calls_cb [OF i(2)] acre_keeps flg_calls_prio)
  show "good (snd (del_flg flgid k))" "good (snd (set_flg flgid p k))" "good (snd (clr_flg flgid p k))"
    "good (snd (fst (pol_flg flgid p m k)))" "good (snd (ini_flg flgid k))" "good (snd (fst (ref_flg flgid k)))"
    by (rule k; simp add: eventflag_settled i flg_calls_cb flg_calls_inv set_flg_keeps eventflag_keeps flg_calls_prio)+
  show "good (snd (fst (wai_flg flgid p m k)))"
    by (rule called_ctx [OF c _ _ g, where f = "\<lambda>k. snd (fst (wai_flg flgid p m k))"], rule k)
      (simp_all add: eventflag_settled i flg_calls_cb flg_wait_inv eventflag_keeps flg_calls_prio, simp add: wai_flg_def dispatch_error_def)
  show "good (snd (fst (twai_flg flgid p m tmout k)))"
    by (rule called_ctx [OF c _ _ g, where f = "\<lambda>k. snd (fst (twai_flg flgid p m tmout k))"], rule k)
      (simp_all add: eventflag_settled i flg_calls_cb flg_wait_inv eventflag_keeps flg_calls_prio, simp add: twai_flg_def dispatch_error_def)
qed

lemma dtq_calls_good:
  assumes g: "good k" and c: "called k"
  shows "good (snd (acre_dtq al atr cnt mb k))" "good (snd (del_dtq dtqid k))" "good (snd (snd_dtq dtqid data k))"
    "good (snd (psnd_dtq dtqid data k))" "good (snd (tsnd_dtq dtqid data tmout k))" "good (snd (fsnd_dtq dtqid data k))"
    "good (snd (fst (rcv_dtq dtqid k)))" "good (snd (fst (prcv_dtq dtqid k)))" "good (snd (fst (trcv_dtq dtqid tmout k)))"
    "good (snd (ini_dtq dtqid k))" "good (snd (fst (ref_dtq dtqid k)))"
proof -
  note i = goodD [OF g]
  note k = good_kind [OF g _ _ _ _ _ , where ?K0.0 = KDtq]
  note f = dtq_calls_cb [OF i(2)] dtq_calls_prio
  note v = dataqueue_inv [OF i(5,1)] ini_del_dtq_inv [OF i(5)]
  show "good (snd (acre_dtq al atr cnt mb k))"
    by (rule k) (simp_all add: acre_dtq_inv [OF i(5,1)] f acre_keeps)
  show "good (snd (del_dtq dtqid k))" "good (snd (psnd_dtq dtqid data k))" "good (snd (fsnd_dtq dtqid data k))"
    "good (snd (fst (prcv_dtq dtqid k)))" "good (snd (ini_dtq dtqid k))" "good (snd (fst (ref_dtq dtqid k)))"
    by (rule k; simp add: dataqueue_settled i f v dataqueue_keeps)+
  show "good (snd (snd_dtq dtqid data k))"
    by (rule called_ctx [OF c _ _ g, where f = "\<lambda>k. snd (snd_dtq dtqid data k)"], rule k)
      (simp_all add: dataqueue_settled f v dataqueue_keeps, simp add: snd_dtq_def dispatch_error_def)
  show "good (snd (tsnd_dtq dtqid data tmout k))"
    by (rule called_ctx [OF c _ _ g, where f = "\<lambda>k. snd (tsnd_dtq dtqid data tmout k)"], rule k)
      (simp_all add: dataqueue_settled f v dataqueue_keeps, simp add: tsnd_dtq_def dispatch_error_def)
  show "good (snd (fst (rcv_dtq dtqid k)))"
    by (rule called_ctx [OF c _ _ g, where f = "\<lambda>k. snd (fst (rcv_dtq dtqid k))"], rule k)
      (simp_all add: dataqueue_settled f v dataqueue_keeps, simp add: rcv_dtq_def dispatch_error_def)
  show "good (snd (fst (trcv_dtq dtqid tmout k)))"
    by (rule called_ctx [OF c _ _ g, where f = "\<lambda>k. snd (fst (trcv_dtq dtqid tmout k))"], rule k)
      (simp_all add: dataqueue_settled f v dataqueue_keeps, simp add: trcv_dtq_def dispatch_error_def)
qed

lemma pdq_calls_good:
  assumes g: "good k" and c: "called k"
  shows "good (snd (acre_pdq al atr cnt mx mb k))" "good (snd (del_pdq pdqid k))" "good (snd (snd_pdq pdqid data pri k))"
    "good (snd (psnd_pdq pdqid data pri k))" "good (snd (tsnd_pdq pdqid data pri tmout k))"
    "good (snd (fst (rcv_pdq pdqid k)))" "good (snd (fst (prcv_pdq pdqid k)))" "good (snd (fst (trcv_pdq pdqid tmout k)))"
    "good (snd (ini_pdq pdqid k))" "good (snd (fst (ref_pdq pdqid k)))"
proof -
  note i = goodD [OF g]
  note k = good_kind [OF g _ _ _ _ _ , where ?K0.0 = KPdq]
  note f = pdq_calls_cb [OF i(2)] pdq_calls_prio
  note v = pridataq_inv [OF i(6,1)] ini_del_pdq_inv [OF i(6)]
  show "good (snd (acre_pdq al atr cnt mx mb k))"
    by (rule k) (simp_all add: acre_pdq_inv [OF i(6,1)] f acre_keeps)
  show "good (snd (del_pdq pdqid k))" "good (snd (psnd_pdq pdqid data pri k))"
    "good (snd (fst (prcv_pdq pdqid k)))" "good (snd (ini_pdq pdqid k))" "good (snd (fst (ref_pdq pdqid k)))"
    by (rule k; simp add: pridataq_settled i f v pridataq_keeps)+
  show "good (snd (snd_pdq pdqid data pri k))"
    by (rule called_ctx [OF c _ _ g, where f = "\<lambda>k. snd (snd_pdq pdqid data pri k)"], rule k)
      (simp_all add: pridataq_settled f v pridataq_keeps, simp add: snd_pdq_def dispatch_error_def)
  show "good (snd (tsnd_pdq pdqid data pri tmout k))"
    by (rule called_ctx [OF c _ _ g, where f = "\<lambda>k. snd (tsnd_pdq pdqid data pri tmout k)"], rule k)
      (simp_all add: pridataq_settled f v pridataq_keeps, simp add: tsnd_pdq_def dispatch_error_def)
  show "good (snd (fst (rcv_pdq pdqid k)))"
    by (rule called_ctx [OF c _ _ g, where f = "\<lambda>k. snd (fst (rcv_pdq pdqid k))"], rule k)
      (simp_all add: pridataq_settled f v pridataq_keeps, simp add: rcv_pdq_def dispatch_error_def)
  show "good (snd (fst (trcv_pdq pdqid tmout k)))"
    by (rule called_ctx [OF c _ _ g, where f = "\<lambda>k. snd (fst (trcv_pdq pdqid tmout k))"], rule k)
      (simp_all add: pridataq_settled f v pridataq_keeps, simp add: trcv_pdq_def dispatch_error_def)
qed

lemma mpf_calls_good:
  assumes g: "good k" and c: "called k"
  shows "cnt < INDEX_ALLOC \<Longrightarrow> good (snd (acre_mpf pal mal atr cnt sz mp mb k))" "good (snd (del_mpf mpfid k))"
    "good (snd (fst (get_mpf mpfid k)))" "good (snd (fst (pget_mpf mpfid k)))" "good (snd (fst (tget_mpf mpfid tmout k)))"
    "good (snd (rel_mpf mpfid blk k))" "good (snd (ini_mpf mpfid k))" "good (snd (fst (ref_mpf mpfid k)))"
proof -
  note i = goodD [OF g]
  note k = good_kind [OF g _ _ _ _ _ , where ?K0.0 = KMpf]
  note f = mpf_calls_cb [OF i(2)] mpf_calls_prio
  note v = mempfix_inv [OF i(8)] rel_mpf_inv [OF i(8)] ini_del_mpf_inv [OF i(8)]
  show "good (snd (acre_mpf pal mal atr cnt sz mp mb k))" if "cnt < INDEX_ALLOC"
    by (rule k) (simp_all add: acre_mpf_inv [OF i(8,1) that] f acre_keeps)
  show "good (snd (del_mpf mpfid k))" "good (snd (fst (pget_mpf mpfid k)))" "good (snd (rel_mpf mpfid blk k))"
    "good (snd (ini_mpf mpfid k))" "good (snd (fst (ref_mpf mpfid k)))"
    by (rule k; simp add: mempfix_settled i f v mempfix_keeps)+
  show "good (snd (fst (get_mpf mpfid k)))"
    by (rule called_ctx [OF c _ _ g, where f = "\<lambda>k. snd (fst (get_mpf mpfid k))"], rule k)
      (simp_all add: mempfix_settled f v mempfix_keeps, simp add: get_mpf_def dispatch_error_def)
  show "good (snd (fst (tget_mpf mpfid tmout k)))"
    by (rule called_ctx [OF c _ _ g, where f = "\<lambda>k. snd (fst (tget_mpf mpfid tmout k))"], rule k)
      (simp_all add: mempfix_settled f v mempfix_keeps, simp add: tget_mpf_def dispatch_error_def)
qed

lemma mtx_calls_good:
  assumes g: "good k" and c: "called k"
  shows "good (snd (acre_mtx atr cpri k))" "good (snd (del_mtx mtxid k))" "good (snd (loc_mtx mtxid k))"
    "good (snd (ploc_mtx mtxid k))" "good (snd (tloc_mtx mtxid tmout k))" "good (snd (unl_mtx mtxid k))"
    "good (snd (ini_mtx mtxid k))" "good (snd (fst (ref_mtx mtxid k)))"
proof -
  note i = goodD [OF g]
  note k = good_mtx [OF g]
  note f = mtx_calls_cb [OF i(2)]
  note q = mutex_keeps [OF _ i(1)]
  show "good (snd (acre_mtx atr cpri k))"
    by (rule k) (simp_all add: acre_mtx_inv [OF i(7,1)] f acre_keeps)
  show "good (snd (del_mtx mtxid k))" "good (snd (unl_mtx mtxid k))" "good (snd (ini_mtx mtxid k))" "good (snd (fst (ref_mtx mtxid k)))"
    by (rule k; simp add: i f q del_mtx_inv unl_mtx_inv ini_mtx_inv ref_mtx_inv)+
  show "good (snd (loc_mtx mtxid k))"
    by (rule called_ctx [OF c _ _ g, where f = "\<lambda>k. snd (loc_mtx mtxid k)"], rule k)
      (simp_all add: loc_mtx_inv [OF i(7)] f q, simp add: loc_mtx_def dispatch_error_def)
  show "good (snd (ploc_mtx mtxid k))"
    by (rule called_ctx [OF c _ _ g, where f = "\<lambda>k. snd (ploc_mtx mtxid k)"], rule k)
      (simp_all add: loc_mtx_inv [OF i(7)] f q, simp add: ploc_mtx_def ctx_error_def)
  show "good (snd (tloc_mtx mtxid tmout k))"
    by (rule called_ctx [OF c _ _ g, where f = "\<lambda>k. snd (tloc_mtx mtxid tmout k)"], rule k)
      (simp_all add: loc_mtx_inv [OF i(7)] f q, simp add: tloc_mtx_def dispatch_error_def)
qed

section \<open>Tasks, system state and time\<close>

lemma task_calls_good:
  assumes g: "good k" and c: "called k"
  shows "good (snd (act_tsk tskid k))" "good (snd (can_act tskid k))" "good (snd (fst (get_tst tskid k)))"
    "good (snd (fst (get_pri tskid k)))" "good (snd (fst (get_inf k)))" "good (snd (dis_ter k))"
    "good (snd (wup_tsk tskid k))" "good (snd (can_wup tskid k))" "good (snd (rel_wai tskid k))" "good (snd (chg_pri tskid tskpri k))"
    "good (snd (ter_tsk tskid k))" "good (snd (ras_ter tskid k))" "good (snd (sus_tsk tskid k))" "good (snd (rsm_tsk tskid k))"
    "good (snd (fst (ref_tsk tskid k)))" "good (snd (acre_tsk thumb atr exi ent itskpri sz stack k))" "good (snd (del_tsk tskid k))"
proof -
  note i = goodD [OF g]
  note k = good_mtx [OF g]
  note f = task_calls_cb [OF i(2)] ras_ter_cb [OF i(2)] acre_tsk_cb [OF i(2)]
  note q = task_calls_keep task_ends_keep [OF i(1)] chg_pri_keeps [OF i(1)] task_table_keeps
  show "good (snd (act_tsk tskid k))" "good (snd (can_act tskid k))" "good (snd (fst (get_tst tskid k)))"
    "good (snd (fst (get_pri tskid k)))" "good (snd (fst (get_inf k)))" "good (snd (dis_ter k))"
    "good (snd (wup_tsk tskid k))" "good (snd (can_wup tskid k))" "good (snd (rel_wai tskid k))"
    by (rule k; simp add: f q task_calls_settled i c task_calls_inv)+
  show "good (snd (chg_pri tskid tskpri k))" "good (snd (ter_tsk tskid k))" "good (snd (ras_ter tskid k))"
    "good (snd (sus_tsk tskid k))" "good (snd (rsm_tsk tskid k))" "good (snd (fst (ref_tsk tskid k)))"
    "good (snd (acre_tsk thumb atr exi ent itskpri sz stack k))" "good (snd (del_tsk tskid k))"
    by (rule k; simp add: f q i chg_pri_inv ter_tsk_inv ras_ter_inv sus_tsk_inv rsm_tsk_inv ref_tsk_inv acre_tsk_inv del_tsk_inv)+
qed

lemma task_self_good:
  assumes g: "good k" and c: "called k"
  shows "good (snd (slp_tsk k))" "good (snd (tslp_tsk tmout k))" "good (snd (dly_tsk dlytim k))"
    "good (snd (ext_tsk k))" "good (snd (ena_ter k))"
proof -
  note i = goodD [OF g]
  note k = good_mtx [OF g]
  note f = task_calls_cb [OF i(2)] dly_tsk_cb [OF i(2)]
  note q = task_calls_keep task_ends_keep [OF i(1)]
  show "good (snd (slp_tsk k))"
    by (rule called_ctx [OF c _ _ g, where f = "\<lambda>k. snd (slp_tsk k)"], rule k)
      (simp_all add: f q task_calls_settled task_calls_inv i, simp add: slp_tsk_def dispatch_error_def)
  show "good (snd (tslp_tsk tmout k))"
    by (rule called_ctx [OF c _ _ g, where f = "\<lambda>k. snd (tslp_tsk tmout k)"], rule k)
      (simp_all add: f q task_calls_settled task_calls_inv i, simp add: tslp_tsk_def dispatch_error_def)
  show "good (snd (dly_tsk dlytim k))"
    by (rule called_ctx [OF c _ _ g, where f = "\<lambda>k. snd (dly_tsk dlytim k)"], rule k)
      (simp_all add: f q task_calls_settled task_calls_inv i, simp add: dly_tsk_def dispatch_error_def)
  show "good (snd (ext_tsk k))"
    by (rule called_ctx [OF c _ _ g, where f = "\<lambda>k. snd (ext_tsk k)"], rule k)
      (simp_all add: f q ext_tsk_inv i, simp add: ext_tsk_def)
  show "good (snd (ena_ter k))"
    by (rule called_ctx [OF c _ _ g, where f = "\<lambda>k. snd (ena_ter k)"], rule k)
      (simp_all add: f q ena_ter_inv i, simp add: ena_ter_def ctx_error_def)
qed

lemma sys_calls_good:
  assumes g: "good k" and c: "called k"
  shows "good (snd (rot_rdq tskpri k))" "good (snd (fst (get_tid k)))" "good (snd (fst (get_lod tskpri k)))"
    "good (snd (fst (get_nth tskpri n k)))" "good (snd (loc_cpu k))" "good (snd (unl_cpu k))" "good (snd (fst (get_ipm k)))"
    "good (snd (dis_dsp k))" "good (snd (ena_dsp k))" "good (snd (chg_ipm tmin intpri k))"
proof -
  note i = goodD [OF g]
  note k = good_mtx [OF g]
  note f = sys_calls_cb [OF i(2)] sys_calls_keep
  note v = sys_calls_inv [OF i(7)]
  show "good (snd (rot_rdq tskpri k))" "good (snd (fst (get_tid k)))" "good (snd (fst (get_lod tskpri k)))"
    "good (snd (fst (get_nth tskpri n k)))" "good (snd (loc_cpu k))" "good (snd (unl_cpu k))" "good (snd (fst (get_ipm k)))"
    by (rule k; simp add: f v i c)+
  show "good (snd (dis_dsp k))"
    by (rule called_ctx [OF c _ _ g, where f = "\<lambda>k. snd (dis_dsp k)"], rule k)
      (simp_all add: f v, simp add: dis_dsp_def ctx_error_def)
  show "good (snd (ena_dsp k))"
    by (rule called_ctx [OF c _ _ g, where f = "\<lambda>k. snd (ena_dsp k)"], rule k)
      (simp_all add: f v, simp add: ena_dsp_def ctx_error_def)
  show "good (snd (chg_ipm tmin intpri k))"
    by (rule called_ctx [OF c _ _ g, where f = "\<lambda>k. snd (chg_ipm tmin intpri k)"], rule k)
      (simp_all add: f v, simp add: chg_ipm_def ctx_error_def)
qed

lemma time_calls_good:
  assumes g: "good k"
  shows "good (snd (set_tim time k))" "good (snd (fst (get_tim k)))" "good (snd (adj_tim a k))" "good (snd (fch_hrt k))"
  by (rule good_mtx [OF g]; simp add: time_calls_inv goodD [OF g] time_calls_cb time_calls_keep)+

lemma cyc_calls_good:
  assumes g: "good k"
  shows "good (snd (acre_cyc thumb atr nfy tim phs k))" "good (snd (del_cyc cycid k))"
    "good (snd (sta_cyc cycid k))" "good (snd (stp_cyc cycid k))" "good (snd (fst (ref_cyc cycid k)))"
proof -
  note i = goodD [OF g]
  show "good (snd (acre_cyc thumb atr nfy tim phs k))" "good (snd (del_cyc cycid k))"
    "good (snd (sta_cyc cycid k))" "good (snd (stp_cyc cycid k))" "good (snd (fst (ref_cyc cycid k)))"
    by (rule good_kind [OF g, of _ KCyc];
        simp add: cyc_calls_settled [OF i(1,9)] cyc_calls_inv [OF i(9)] cyc_calls_cb [OF i(2)] cyc_calls_keep cyc_calls_prio)+
qed

lemma alm_calls_good:
  assumes g: "good k"
  shows "good (snd (acre_alm thumb atr nfy k))" "good (snd (del_alm almid k))"
    "good (snd (sta_alm almid tim k))" "good (snd (stp_alm almid k))" "good (snd (fst (ref_alm almid k)))"
proof -
  note i = goodD [OF g]
  show "good (snd (acre_alm thumb atr nfy k))" "good (snd (del_alm almid k))"
    "good (snd (sta_alm almid tim k))" "good (snd (stp_alm almid k))" "good (snd (fst (ref_alm almid k)))"
    by (rule good_kind [OF g, of _ KAlm];
        simp add: alm_calls_settled [OF i(1,10)] alm_calls_inv [OF i(10)] alm_calls_cb [OF i(2)] alm_calls_keep alm_calls_prio)+
qed

section \<open>Notifications\<close>

lemma write_var_good:
  assumes g: "good k" shows "good (write_var p v k)"
proof (rule good_plain [OF g])
  show "settled (write_var p v k)"
  proof (rule settled_active [OF goodD(1) [OF g]])
    have "active (write_var p v k) = active k"
      by (rule active_eqI) (simp_all add: write_var_def timed_def cyc_on_def alm_on_def)
    then show "registered (tm (write_var p v k)) (active (write_var p v k))"
      using consistentD(2) [OF settledD [OF goodD(1) [OF g]]] by (simp add: write_var_def)
  qed (simp_all add: write_var_def)
  show "keeps K k (write_var p v k)" for K by (cases K) (simp_all add: keeps_def same_objects_def write_var_def)
  show "prio_frame {} k (write_var p v k)" by (rule prio_frame_same [OF prio_frame_refl]) (simp_all add: write_var_def)
qed (intro cb_ok_tables goodD(2) [OF g])

lemma good_called: "good k \<Longrightarrow> sense_context k \<Longrightarrow> called k"
  by (simp add: called_def goodD)

text \<open>The handler of notifications makes its calls in an interrupt handler.\<close>

lemma good_ctx:
  assumes "good k" "sense_context k" "cb_ok (sense_context k) k'" "good k'" shows "good k' \<and> sense_context k'"
  using assms by (simp add: cb_ok_def)

lemma increment_var_good:
  assumes g: "good k" "sense_context k" shows "good (increment_var p k) \<and> sense_context (increment_var p k)"
proof -
  have "good (snd (loc_cpu k)) \<and> sense_context (snd (loc_cpu k))"
    using g sys_calls_good(5) [OF g(1) good_called] sys_calls_cb(5) [OF goodD(2) [OF g(1)]] by (simp add: cb_ok_def)
  then have "good (write_var p v (snd (loc_cpu k))) \<and> sense_context (write_var p v (snd (loc_cpu k)))" for v
    using write_var_good by (simp add: write_var_def sense_context_def)
  then show ?thesis
    using sys_calls_good(6) good_called sys_calls_cb(6) goodD(2) by (fastforce simp: increment_var_def Let_def cb_ok_def)
qed

lemma notify_good:
  assumes g: "good k" "sense_context k"
  shows "good (snd (notify_event n k)) \<and> sense_context (snd (notify_event n k))"
    "good (notify_error n e k) \<and> sense_context (notify_error n e k)"
proof -
  note c = good_called [OF g] and b = goodD(2) [OF g(1)]
  have w: "good (write_var p v k) \<and> sense_context (write_var p v k)" for p v
    using g write_var_good by (simp add: write_var_def sense_context_def)
  have a: "good (snd (act_tsk tskid k)) \<and> sense_context (snd (act_tsk tskid k))" "good (snd (wup_tsk tskid k)) \<and> sense_context (snd (wup_tsk tskid k))"
    "good (snd (sig_sem semid k)) \<and> sense_context (snd (sig_sem semid k))" "good (snd (set_flg flgid p k)) \<and> sense_context (snd (set_flg flgid p k))"
    "good (snd (psnd_dtq dtqid d k)) \<and> sense_context (snd (psnd_dtq dtqid d k))" for tskid semid flgid p dtqid d
    using good_ctx [OF g] task_calls_good(1,7) [OF g(1) c] task_calls_cb(1,9) [OF b] sem_calls_good(3) [OF g(1) c] sem_calls_cb(3) [OF b]
      flg_calls_good(3) [OF g(1) c] flg_calls_cb(3) [OF b] dtq_calls_good(4) [OF g(1) c] dtq_calls_cb(4) [OF b] by blast+
  show "good (snd (notify_event n k)) \<and> sense_context (snd (notify_event n k))"
    using w a increment_var_good [OF g] g by (simp add: notify_event_def Let_def case_prod_unfold)
  show "good (notify_error n e k) \<and> sense_context (notify_error n e k)"
    using w a increment_var_good [OF g] g by (simp add: notify_error_def Let_def)
qed

lemma notify_handler_good:
  assumes "good k" "sense_context k" shows "good (notify_handler n k) \<and> sense_context (notify_handler n k)"
  using notify_good(1) [OF assms, of n] notify_good(2) by (simp add: notify_handler_def Let_def case_prod_unfold)


end
