(* ===== verification/SignalTime.thy ===== *)
theory SignalTime
  imports Invariant
begin

unbundle bit_operations_syntax

text \<open>
  The interrupt handler of the high resolution timer, \<open>signal_time\<close> of asp3\_dcre/kernel/time\_event.c. It takes
  the events that are due from the heap one by one and calls their call backs, reads the clock again,
  and repeats while there were any. As handlers can start new events and the clock runs on, nothing bounds
  the number of rounds, so that the loops are partial functions: \<open>None\<close> stands for a run that does not end.
\<close>

section \<open>The loops\<close>

definition call_back :: "(addr \<Rightarrow> exinf_t \<Rightarrow> kernel \<Rightarrow> kernel) \<Rightarrow> tmevtb_ref \<Rightarrow> kernel \<Rightarrow> kernel" where
  "call_back uh r k =
     (let a = arg (tmevtb_tab (tm k) r)
      in case callback (tmevtb_tab (tm k) r) of
           Wait_tmout \<Rightarrow> wait_tmout a k
         | Wait_tmout_ok \<Rightarrow> wait_tmout_ok a k
         | Call_cyclic \<Rightarrow> call_cyclic uh a k
         | Call_alarm \<Rightarrow> call_alarm uh a k)"

definition event_due :: "kernel \<Rightarrow> bool" where
  "event_due k \<longleftrightarrow> p_last (tm k) \<ge> 1 \<and> EVTTIM_LE (tm k) (top_evttim (tm k)) (current_evttim (tm k))"

definition expire_top :: "(addr \<Rightarrow> exinf_t \<Rightarrow> kernel \<Rightarrow> kernel) \<Rightarrow> kernel \<Rightarrow> kernel" where
  "expire_top uh k = (let (r, m) = tmevtb_delete_top (tm k) in call_back uh r (map_tm (\<lambda>_. m) k))"

text \<open>The inner loop, with \<open>callflag\<close>, and the outer one.\<close>

partial_function (option) expire_loop :: "(addr \<Rightarrow> exinf_t \<Rightarrow> kernel \<Rightarrow> kernel) \<Rightarrow> bool \<Rightarrow> kernel \<Rightarrow> (bool \<times> kernel) option" where
  "expire_loop uh callflag k = (if event_due k then expire_loop uh True (expire_top uh k) else Some (callflag, k))"

partial_function (option) signal_loop :: "(addr \<Rightarrow> exinf_t \<Rightarrow> kernel \<Rightarrow> kernel) \<Rightarrow> kernel \<Rightarrow> kernel option" where
  "signal_loop uh k =
     Option.bind (expire_loop uh False (map_tm update_current_evttim k))
       (\<lambda>(callflag, k1). if callflag then signal_loop uh k1 else Some k1)"

definition set_in_signal :: "bool \<Rightarrow> kernel \<Rightarrow> kernel" where
  "set_in_signal b k = map_tm (\<lambda>m. m\<lparr>in_signal_time := b\<rparr>) k"

definition signal_time :: "(addr \<Rightarrow> exinf_t \<Rightarrow> kernel \<Rightarrow> kernel) \<Rightarrow> kernel \<Rightarrow> kernel option" where
  "signal_time uh k =
     map_option (\<lambda>k1. unlock_cpu (set_in_signal False (map_tm set_hrt_event k1)))
       (signal_loop uh (set_in_signal True (lock_cpu k)))"

section \<open>One call back\<close>

text \<open>
  The block that is due leaves the heap before its call back runs: in between, the heap lacks the event of a
  task that still waits, or of a notification that still operates.
\<close>

lemma settled_ctx: "sense_context k \<Longrightarrow> settled k \<longleftrightarrow> midway k"
  by (auto simp: settled_def midway_def running_def)

lemma registered_top:
  assumes "registered s A" "1 \<le> p_last s"
  shows "fst (tmevtb_delete_top s) \<in> A" "registered (snd (tmevtb_delete_top s)) (A - {fst (tmevtb_delete_top s)})"
proof -
  have "A \<noteq> {}" using registered_empty [OF assms(1)] assms(2) by auto
  from tmevtb_delete_top_correct [OF assms(1) this]
  show "fst (tmevtb_delete_top s) \<in> A" "registered (snd (tmevtb_delete_top s)) (A - {fst (tmevtb_delete_top s)})" by auto
qed

lemma dequeue_wobj_time: "wait_dequeue_wobj t (map_tm f k) = map_tm f (wait_dequeue_wobj t k)"
  by (simp add: wait_dequeue_wobj_def) (simp add: map_ts_def map_tm_def)

lemma expire_midway:
  assumes m: "midway k" and r: "registered m (active k - {TskTM t})" and w: "timed k t"
  shows "midway (make_non_wait t (set_wercd t e (wait_dequeue_wobj t (map_tm (\<lambda>_. m) k))))" (is "midway ?k")
proof -
  let ?k1 = "wait_dequeue_wobj t k"
  have wt: "TSTAT_WAITING (tstat (task k t))" using w by (simp add: timed_def)
  have o1: "others t k ?k1" by (auto simp: wait_dequeue_wobj_def)
  have a: "active ?k1 = active k" by (rule same_tcb(2) [OF o1]) (simp add: wait_dequeue_wobj_def)
  have d: "detached t ?k1" by (rule dequeue_detached [OF midwayD [OF m] wt])
  have o: "others t ?k1 (map_tm (\<lambda>_. m) ?k1)" by (rule others_ts)
  have "limbo t (map_tm (\<lambda>_. m) ?k1)"
    using d r a loc_others [OF o] task_ok_others [OF o] others_sel(6) [OF o] prio_ok_same [OF o]
    by (simp add: limbo_def detached_def parked_def)
  then have c: "consistent ?k" unfolding dequeue_wobj_time by (intro make_non_wait_consistent set_wercd_limbo)
  have o2: "others t k (map_tm (\<lambda>_. m) ?k1)" and "calm k (map_tm (\<lambda>_. m) ?k1)"
    by (auto simp: wait_dequeue_wobj_def)
  then have "others t k ?k" "calm k ?k"
    unfolding dequeue_wobj_time
    by (auto simp: make_non_wait_def set_wercd_def set_tstat_def upd_winfo_def)
  then show ?thesis by (rule midway_others [OF m _ _ c]) (use wt in \<open>auto simp: running_def\<close>)
qed

text \<open>A task whose time is over.\<close>

lemma expire_good:
  assumes g: "good k" "sense_context k" and r: "registered m (active k - {TskTM t})" "same_cb (tm k) m" and w: "timed k t"
  shows "good (make_non_wait t (set_wercd t e (wait_dequeue_wobj t (map_tm (\<lambda>_. m) k))))" (is "good ?k")
proof (rule good_plain [OF g(1)])
  have "midway ?k" using g settled_ctx [OF g(2)] goodD(1) [OF g(1)] by (intro expire_midway [OF _ r(1) w]) simp
  moreover have c: "cb_ok (sense_context k) ?k" using r(2) by (intro frame goodD(2) [OF g(1)])
  then have "sense_context ?k" using g(2) by (simp add: cb_ok_def)
  ultimately show "settled ?k" by (simp add: settled_ctx)
  show "cb_ok (sense_context k) ?k" by (rule c)
  show "keeps K k ?k" for K by (auto intro!: frame)
  show "prio_frame {} k ?k" by (intro frame)
qed

text \<open>The timer alone, with the events as they were.\<close>

lemma good_timer:
  assumes g: "good k" and r: "registered m (active k)" "same_cb (tm k) m" shows "good (map_tm (\<lambda>_. m) k)"
proof (rule good_plain [OF g])
  show "settled (map_tm (\<lambda>_. m) k)" by (rule settled_active [OF goodD(1) [OF g]]) (simp_all add: r)
  show "cb_ok (sense_context k) (map_tm (\<lambda>_. m) k)" using r(2) by (intro frame goodD(2) [OF g])
qed (auto intro!: frame)

lemma good_lock: "good k \<Longrightarrow> good (lock_cpu k)" "good k \<Longrightarrow> good (unlock_cpu k)"
proof -
  show "good (lock_cpu k)" if g: "good k"
    by (rule good_plain [OF g]) (auto simp: settled_lock goodD [OF g] intro!: frame)
  show "good (unlock_cpu k)" if g: "good k"
    by (rule good_plain [OF g]) (auto simp: goodD [OF g] intro!: frame)
qed

lemma relock_good: "good k \<Longrightarrow> good (relock k)" "sense_context (relock k) = sense_context k"
  by (simp_all add: relock_def good_lock)

text \<open>An alarm that goes off.\<close>

lemma alarm_off_good:
  assumes g: "good k" and i: "alm_on k i" and r: "registered m (active k - {AlmTM i})" "same_cb (tm k) m"
  shows "good (set_almsta i False (map_tm (\<lambda>_. m) k))" (is "good ?k")
proof (rule good_kind [OF g, of _ KAlm])
  have "active ?k = active k - {AlmTM i}"
    using i active_almsta [of i "map_tm (\<lambda>_. m) k" False] by (simp add: alm_on_def alm_exists_def)
  then show "settled ?k" by (intro settled_active [OF goodD(1) [OF g]]) (simp_all add: r)
  show "cb_ok (sense_context k) ?k" using r(2) by (intro frame goodD(2) [OF g])
  show "kind_inv KAlm ?k" using goodD(10) [OF g] by simp
  show "keeps K k ?k" if "K \<noteq> KAlm" for K using that by (auto intro!: frame)
qed (auto intro!: frame)

section \<open>The loop keeps the invariant\<close>

text \<open>What is asked of the handlers of the application: each leaves the kernel good, and in the context of the interrupt.\<close>

definition handlers_good :: "(addr \<Rightarrow> exinf_t \<Rightarrow> kernel \<Rightarrow> kernel) \<Rightarrow> bool" where
  "handlers_good uh \<longleftrightarrow> (\<forall>a e k. good k \<and> sense_context k \<longrightarrow> good (uh a e k) \<and> sense_context (uh a e k))"

lemma run_handler_good:
  assumes "handlers_good uh" "good k" "sense_context k"
  shows "good (run_handler uh h e k)" "sense_context (run_handler uh h e k)"
  using assms notify_handler_good [of k]
  by (auto simp: run_handler_def handlers_good_def split: nfyhdr.split option.split)

lemma wait_tmout_eq:
  "wait_tmout t k = interrupt_window (make_non_wait t (set_wercd t E_TMOUT (wait_dequeue_wobj t k)))"
  "\<not> TSTAT_WAIT_WOBJ (tstat (task k t)) \<Longrightarrow>
     wait_tmout_ok t k = interrupt_window (make_non_wait t (set_wercd t E_OK (wait_dequeue_wobj t k)))"
  by (simp_all add: wait_tmout_def wait_tmout_ok_def wait_dequeue_wobj_def Let_def request_dispatch_retint_def)

lemma interrupt_window_good: "good k \<Longrightarrow> good (interrupt_window k)" "sense_context (interrupt_window k) = sense_context k"
  by (simp_all add: interrupt_window_def good_lock)

lemma expire_top_good:
  assumes g: "good k" "sense_context k" and h: "handlers_good uh" and d: "event_due k"
  shows "good (expire_top uh k) \<and> sense_context (expire_top uh k)"
proof -
  obtain r m where rm: "tmevtb_delete_top (tm k) = (r, m)" by (metis surj_pair)
  have reg: "registered (tm k) (active k)" by (rule consistentD(2) [OF settledD [OF goodD(1) [OF g(1)]]])
  have t: "r \<in> active k" "registered m (active k - {r})"
    using registered_top [OF reg] d rm by (simp_all add: event_due_def)
  have s: "same_cb (tm k) m" using heap_only_delete_top [of "tm k"] rm by (auto intro: same_cb_heap)
  then have cb: "callback (tmevtb_tab m r) = callback (tmevtb_tab (tm k) r)" "arg (tmevtb_tab m r) = arg (tmevtb_tab (tm k) r)"
    by (simp_all add: same_cb_def)
  have b: "cb_ok (sense_context k) k" by (rule goodD(2) [OF g(1)])
  have k: "expire_top uh k = call_back uh r (map_tm (\<lambda>_. m) k)" by (simp add: expire_top_def rm)
  show ?thesis
  proof (cases r)
    case (TskTM n)
    then have w: "timed k n" using t(1) by simp
    then have n: "arg (tmevtb_tab (tm k) r) = n"
        "callback (tmevtb_tab (tm k) r) = Wait_tmout \<or> callback (tmevtb_tab (tm k) r) = Wait_tmout_ok \<and> \<not> TSTAT_WAIT_WOBJ (tstat (task k n))"
      using b TskTM by (auto simp: cb_ok_def cb_task_def Let_def)
    have e: "good (make_non_wait n (set_wercd n e (wait_dequeue_wobj n (map_tm (\<lambda>_. m) k))))" (is "good (?k e)")
      "sense_context (make_non_wait n (set_wercd n e (wait_dequeue_wobj n (map_tm (\<lambda>_. m) k)))) = sense_context k" for e
    proof -
      show "good (?k e)" using t TskTM by (intro expire_good [OF g _ s w]) simp
      have "cb_ok (sense_context k) (?k e)" using s by (intro frame b)
      then show "sense_context (?k e) = sense_context k" by (simp add: cb_ok_def)
    qed
    have "expire_top uh k = interrupt_window (?k E_TMOUT) \<or> expire_top uh k = interrupt_window (?k E_OK)"
      using n wait_tmout_eq(1) [of n "map_tm (\<lambda>_. m) k"] wait_tmout_eq(2) [of "map_tm (\<lambda>_. m) k" n]
      by (auto simp: k call_back_def cb)
    then show ?thesis using e g(2) interrupt_window_good by metis
  next
    case (CycTM i)
    then have c: "cyc_on k i" using t(1) by simp
    have a: "callback (tmevtb_tab (tm k) r) = Call_cyclic" "arg (tmevtb_tab (tm k) r) = i"
      using b c CycTM by (auto simp: cb_ok_def calls_back_def cyc_on_def)
    define m1 where "m1 = set_evttim r (evttim (tmevtb_tab m r) + cyctim (cycinib k i)) m"
    define k2 where "k2 = map_tm (\<lambda>_. tmevtb_register r m1) k"
    have "registered m1 (active k - {r})" using t(2) by (simp add: m1_def set_evttim_def registered_evttim)
    then have "registered (tmevtb_register r m1) (insert r (active k - {r}))"
      using tmevtb_insert_correct(1) [of m1 "active k - {r}" r] by (simp add: tmevtb_register_def)
    then have "good k2" unfolding k2_def
      using t(1) s same_cb_trans [OF s, of "tmevtb_register r m1"] same_cb_trans [of m m1 "tmevtb_register r m1"]
      by (intro good_timer [OF g(1)]) (auto simp: insert_absorb m1_def)
    then have "good (unlock_cpu k2)" "sense_context (unlock_cpu k2)" using g(2) by (simp_all add: good_lock k2_def)
    note h = run_handler_good [OF h this]
    have "expire_top uh k = relock (run_handler uh (cyc_nfyhdr (cycinib (unlock_cpu k2) i)) (cyc_exinf (cycinib (unlock_cpu k2) i)) (unlock_cpu k2))"
      using a by (simp add: k call_back_def cb cb [unfolded CycTM] CycTM call_cyclic_def Let_def k2_def m1_def map_tm_def)
    then show ?thesis using h by (simp add: relock_good)
  next
    case (AlmTM i)
    then have c: "alm_on k i" using t(1) by simp
    have a: "callback (tmevtb_tab (tm k) r) = Call_alarm" "arg (tmevtb_tab (tm k) r) = i"
      using b c AlmTM by (auto simp: cb_ok_def calls_back_def alm_on_def)
    define k2 where "k2 = set_almsta i False (map_tm (\<lambda>_. m) k)"
    have "good k2" unfolding k2_def using t AlmTM by (intro alarm_off_good [OF g(1) c _ s]) simp
    moreover have "sense_context k2 = sense_context k" by (simp add: k2_def sense_context_def)
    ultimately have "good (unlock_cpu k2)" "sense_context (unlock_cpu k2)" using g(2) by (simp_all add: good_lock)
    note h = run_handler_good [OF h this]
    have "expire_top uh k = relock (run_handler uh (alm_nfyhdr (alminib (unlock_cpu k2) i)) (alm_exinf (alminib (unlock_cpu k2) i)) (unlock_cpu k2))"
      using a by (simp add: k call_back_def cb cb [unfolded AlmTM] AlmTM call_alarm_def Let_def k2_def)
    then show ?thesis using h by (simp add: relock_good)
  qed
qed

lemma expire_loop_good:
  assumes h: "handlers_good uh" and e: "expire_loop uh b k = Some (b', k')" and g: "good k" "sense_context k"
  shows "good k' \<and> sense_context k' \<and> \<not> event_due k'"
proof -
  have "handlers_good uh \<longrightarrow> good k \<and> sense_context k \<longrightarrow> good (snd (b', k')) \<and> sense_context (snd (b', k')) \<and> \<not> event_due (snd (b', k'))"
  proof (rule expire_loop.raw_induct [OF _ e])
    fix F uh b k r
    assume IH: "\<And>uh b k r. F uh b k = Some r \<Longrightarrow> handlers_good uh \<longrightarrow> good k \<and> sense_context k \<longrightarrow>
        good (snd r) \<and> sense_context (snd r) \<and> \<not> event_due (snd r)"
      and r: "(if event_due k then F uh True (expire_top uh k) else Some (b, k)) = Some r"
    show "handlers_good uh \<longrightarrow> good k \<and> sense_context k \<longrightarrow> good (snd r) \<and> sense_context (snd r) \<and> \<not> event_due (snd r)"
    proof (intro impI)
      assume h: "handlers_good uh" and g: "good k \<and> sense_context k"
      show "good (snd r) \<and> sense_context (snd r) \<and> \<not> event_due (snd r)"
      proof (cases "event_due k")
        case True
        then have "F uh True (expire_top uh k) = Some r" using r by simp
        then show ?thesis using IH [of uh True "expire_top uh k" r] expire_top_good [of k uh] h g True by simp
      next
        case False
        then show ?thesis using r g by auto
      qed
    qed
  qed
  then show ?thesis using assms by simp
qed

lemma update_time_good:
  assumes "good k" shows "good (map_tm update_current_evttim k)" "good (map_tm set_hrt_event k)" "good (set_in_signal b k)"
proof -
  have r: "registered (tm k) (active k)" by (rule consistentD(2) [OF settledD [OF goodD(1) [OF assms]]])
  have m: "map_tm f k = map_tm (\<lambda>_. f (tm k)) k" for f by (simp add: map_tm_def)
  show "good (map_tm update_current_evttim k)" "good (map_tm set_hrt_event k)" "good (set_in_signal b k)"
    unfolding set_in_signal_def by (subst m, rule good_timer [OF assms]; simp add: r same_cb_tab registered_same [of "tm k\<lparr>in_signal_time := b\<rparr>" "tm k"])+
qed


lemma signal_loop_good:
  assumes h: "handlers_good uh" and e: "signal_loop uh k = Some k'" and g: "good k" "sense_context k"
  shows "good k' \<and> sense_context k' \<and> \<not> event_due k'"
proof -
  have "handlers_good uh \<longrightarrow> good k \<and> sense_context k \<longrightarrow> good k' \<and> sense_context k' \<and> \<not> event_due k'"
  proof (rule signal_loop.raw_induct [OF _ e])
    fix F uh k r
    assume IH: "\<And>uh k r. F uh k = Some r \<Longrightarrow> handlers_good uh \<longrightarrow> good k \<and> sense_context k \<longrightarrow>
        good r \<and> sense_context r \<and> \<not> event_due r"
      and r: "Option.bind (expire_loop uh False (map_tm update_current_evttim k)) (\<lambda>(callflag, k1). if callflag then F uh k1 else Some k1) = Some r"
    obtain b k1 where k1: "expire_loop uh False (map_tm update_current_evttim k) = Some (b, k1)"
      "(if b then F uh k1 else Some k1) = Some r"
      using r by (auto simp: bind_eq_Some_conv split: if_splits)
    show "handlers_good uh \<longrightarrow> good k \<and> sense_context k \<longrightarrow> good r \<and> sense_context r \<and> \<not> event_due r"
    proof (intro impI)
      assume h: "handlers_good uh" and g: "good k \<and> sense_context k"
      have "good k1 \<and> sense_context k1 \<and> \<not> event_due k1"
        using g by (intro expire_loop_good [OF h k1(1)]) (simp_all add: update_time_good)
      then show "good r \<and> sense_context r \<and> \<not> event_due r"
        using k1(2) IH [of uh k1 r] h by (cases b) auto
    qed
  qed
  then show ?thesis using assms by simp
qed

lemma event_due_end [simp]: "event_due (unlock_cpu (set_in_signal b (map_tm set_hrt_event k))) = event_due k"
  by (simp add: event_due_def set_in_signal_def EVTTIM_LE_def EVTTIM_ADVANCE_def top_evttim_def node_evttim_def)

lemma set_in_signal_sel [simp]:
  "sense_context (set_in_signal b k) = sense_context k" "in_signal_time (tm (set_in_signal b k)) = b"
  "cyc_on (set_in_signal b k) = cyc_on k" "alm_on (set_in_signal b k) = alm_on k"
  by (simp_all add: set_in_signal_def)

lemma alm_on_lock [simp]: "alm_on (lock_cpu k) = alm_on k"
  by (simp add: alm_on_def lock_cpu_def fun_eq_iff)

lemma signal_time_good:
  assumes h: "handlers_good uh" and e: "signal_time uh k = Some k'" and g: "good k" "sense_context k"
  shows "good k' \<and> sense_context k' \<and> \<not> sense_lock k' \<and> \<not> in_signal_time (tm k') \<and> \<not> event_due k'"
proof -
  let ?k = "set_in_signal True (lock_cpu k)"
  have "good ?k" "sense_context ?k" using g by (simp_all add: update_time_good good_lock)
  moreover obtain k1 where k1: "signal_loop uh ?k = Some k1" "k' = unlock_cpu (set_in_signal False (map_tm set_hrt_event k1))"
    using e by (auto simp: signal_time_def)
  ultimately have "good k1 \<and> sense_context k1 \<and> \<not> event_due k1" using signal_loop_good [OF h] by blast
  then show ?thesis unfolding k1(2) by (simp add: good_lock update_time_good) (simp add: sense_lock_def unlock_cpu_def)
qed

text \<open>
  The loops test only the event at the top. As the heap is ordered, no event is due then: the time of every
  registered event is after the current time. This holds as long as the heap can be ordered at all, that is,
  while no event has been left behind the boundary (\<open>window_left\<close>).
\<close>

lemma none_due:
  assumes g: "good k" and d: "\<not> event_due k" and w: "\<not> window_left (tm k)" and r: "r \<in> active k"
  shows "EVTTIM_LT (tm k) (current_evttim (tm k)) (evttim (tmevtb_tab (tm k) r))"
proof -
  have reg: "registered (tm k) (active k)" by (rule consistentD(2) [OF settledD [OF goodD(1) [OF g]]])
  then have "1 \<le> p_last (tm k)" using registered_empty [OF reg] r by auto
  then have "\<not> event_key (tm k) (tmevt_heap (tm k) 1) \<le> EVTTIM_ADVANCE (tm k) (current_evttim (tm k))"
    using d by (simp add: event_due_def EVTTIM_LE_def top_evttim_def node_evttim_def event_key_def)
  moreover have "event_key (tm k) (tmevt_heap (tm k) 1) \<le> event_key (tm k) r"
    by (rule timers_top [OF registered_timers [OF reg w] r])
  ultimately show ?thesis by (simp add: EVTTIM_LT_def event_key_def)
qed

section \<open>The interrupt ends\<close>

text \<open>While only timeouts of tasks are registered, every call back takes an event away, and the handler returns.\<close>

definition tasks_only :: "kernel \<Rightarrow> bool" where
  "tasks_only k \<longleftrightarrow> (\<forall>i. \<not> cyc_on k i \<and> \<not> alm_on k i)"

lemma expire_top_task:
  assumes g: "good k" and t: "tasks_only k" and d: "event_due k"
  shows "tasks_only (expire_top uh k) \<and> p_last (tm (expire_top uh k)) = p_last (tm k) - 1"
proof -
  obtain r m where rm: "tmevtb_delete_top (tm k) = (r, m)" by (metis surj_pair)
  have reg: "registered (tm k) (active k)" by (rule consistentD(2) [OF settledD [OF goodD(1) [OF g]]])
  have "r \<in> active k" using registered_top [OF reg] d rm by (simp add: event_due_def)
  then obtain n where n: "r = TskTM n" "timed k n" using t by (cases r) (auto simp: tasks_only_def)
  have p: "p_last m = p_last (tm k) - 1"
    using tmevtb_delete_top_correct [OF reg] registered_empty [OF reg] d rm by (auto simp: event_due_def)
  have "same_cb (tm k) m" using heap_only_delete_top [of "tm k"] rm by (auto intro: same_cb_heap)
  then have "arg (tmevtb_tab m r) = n" "callback (tmevtb_tab m r) = Wait_tmout \<or> callback (tmevtb_tab m r) = Wait_tmout_ok"
    using goodD(2) [OF g] n by (auto simp: cb_ok_def cb_task_def same_cb_def Let_def)
  then have k: "expire_top uh k = wait_tmout n (map_tm (\<lambda>_. m) k) \<or> expire_top uh k = wait_tmout_ok n (map_tm (\<lambda>_. m) k)"
    by (auto simp: expire_top_def rm call_back_def)
  have "tm (wait_tmout n k) = tm k \<and> tasks_only (wait_tmout n k) = tasks_only k \<and>
      tm (wait_tmout_ok n k) = tm k \<and> tasks_only (wait_tmout_ok n k) = tasks_only k" for k
    by (simp add: wait_tmout_def wait_tmout_ok_def interrupt_window_def request_dispatch_retint_def make_non_wait_def set_wercd_def
        wait_dequeue_wobj_def set_tstat_def upd_winfo_def tasks_only_def cyc_on_def alm_on_def Let_def)
      (simp add: map_ts_def lock_cpu_def unlock_cpu_def upd_task_def)
  moreover have "tasks_only (map_tm (\<lambda>_. m) k)" using t by (simp add: tasks_only_def)
  ultimately have "tasks_only (expire_top uh k)" "tm (expire_top uh k) = tm (map_tm (\<lambda>_. m) k)" using k by metis+
  then show ?thesis using p by simp
qed

lemma expire_loop_ends:
  assumes h: "handlers_good uh" and g: "good k" "sense_context k" "tasks_only k"
  shows "\<exists>b' k'. expire_loop uh b k = Some (b', k') \<and> tasks_only k' \<and> p_last (tm k') \<le> p_last (tm k) \<and>
    (b' \<longrightarrow> b \<or> p_last (tm k') < p_last (tm k))"
  using g
proof (induction "p_last (tm k)" arbitrary: k b rule: less_induct)
  case less
  show ?case
  proof (cases "event_due k")
    case True
    then have p: "p_last (tm (expire_top uh k)) < p_last (tm k)" "tasks_only (expire_top uh k)"
      using expire_top_task [OF less.prems(1,3) True, of uh] by (auto simp: event_due_def)
    have "good (expire_top uh k)" "sense_context (expire_top uh k)"
      using expire_top_good [OF less.prems(1,2) h True] by simp_all
    from less.hyps [OF p(1) this p(2), of True] show ?thesis
      using True p(1) by (auto simp: expire_loop.simps [of uh b k])
  next
    case False
    then show ?thesis using less.prems by (auto simp: expire_loop.simps [of uh b k])
  qed
qed

lemma signal_loop_ends:
  assumes h: "handlers_good uh" and g: "good k" "sense_context k" "tasks_only k"
  shows "\<exists>k'. signal_loop uh k = Some k'"
  using g
proof (induction "p_last (tm k)" arbitrary: k rule: less_induct)
  case less
  let ?k = "map_tm update_current_evttim k"
  have u: "good ?k" "sense_context ?k" "tasks_only ?k"
    using less.prems by (simp_all add: update_time_good tasks_only_def)
  obtain b k1 where k1: "expire_loop uh False ?k = Some (b, k1)" "tasks_only k1" "b \<longrightarrow> p_last (tm k1) < p_last (tm k)"
    using expire_loop_ends [OF h u, of False] by auto
  have "good k1 \<and> sense_context k1" using expire_loop_good [OF h k1(1) u(1,2)] by simp
  then show ?case using less.hyps [of k1] k1 by (cases b) (simp_all add: signal_loop.simps [of uh k])
qed

lemma signal_time_ends:
  assumes "handlers_good uh" "good k" "sense_context k" "tasks_only k"
  shows "\<exists>k'. signal_time uh k = Some k'"
proof -
  let ?k = "set_in_signal True (lock_cpu k)"
  have "good ?k" "sense_context ?k" "tasks_only ?k"
    using assms by (simp_all add: update_time_good good_lock tasks_only_def)
  then show ?thesis using signal_loop_ends [OF assms(1)] by (auto simp: signal_time_def)
qed


end
