(* ===== verification/System.thy ===== *)
theory System
  imports SignalTime
begin

unbundle bit_operations_syntax

text \<open>
  The kernel as a transition system. A step is a service call of the running task, an interrupt that comes or
  ends (\<open>irq_handler\<close> of arch/arm\_gcc/common/core\_support.S), a service call of an interrupt handler,
  a timer interrupt (\<open>signal_time\<close>), or a write of a variable of the application. What is reachable from
  a \<open>good\<close> state is \<open>good\<close>.
\<close>

section \<open>Service calls as data\<close>

text \<open>What depends on the target and the build: the alignment checks and the highest interrupt priority.\<close>

record config =
  thumb_code :: bool
  mb_aligned :: "addr \<Rightarrow> bool"
  mpf_aligned :: "addr \<Rightarrow> bool"
  min_intpri :: int

datatype task_call = Acre_tsk ATR intptr_t addr int uint addr | Del_tsk int | Act_tsk int | Can_act int | Get_tst int | Chg_pri int int
  | Get_pri int | Get_inf | Ext_tsk | Ras_ter int | Dis_ter | Ena_ter | Ter_tsk int | Slp_tsk | Tslp_tsk TMO | Wup_tsk int
  | Can_wup int | Rel_wai int | Sus_tsk int | Rsm_tsk int | Dly_tsk RELTIM | Ref_tsk int

primrec task_svc :: "config \<Rightarrow> task_call \<Rightarrow> kernel \<Rightarrow> svc \<times> kernel" where
  "task_svc cf (Acre_tsk atr exi ent pri sz stack) k = acre_tsk (thumb_code cf) atr exi ent pri sz stack k"
| "task_svc cf (Del_tsk tskid) k = del_tsk tskid k"
| "task_svc cf (Act_tsk tskid) k = act_tsk tskid k"
| "task_svc cf (Can_act tskid) k = can_act tskid k"
| "task_svc cf (Get_tst tskid) k = fst (get_tst tskid k)"
| "task_svc cf (Chg_pri tskid pri) k = chg_pri tskid pri k"
| "task_svc cf (Get_pri tskid) k = fst (get_pri tskid k)"
| "task_svc cf Get_inf k = fst (get_inf k)"
| "task_svc cf Ext_tsk k = ext_tsk k"
| "task_svc cf (Ras_ter tskid) k = ras_ter tskid k"
| "task_svc cf Dis_ter k = dis_ter k"
| "task_svc cf Ena_ter k = ena_ter k"
| "task_svc cf (Ter_tsk tskid) k = ter_tsk tskid k"
| "task_svc cf Slp_tsk k = slp_tsk k"
| "task_svc cf (Tslp_tsk tmout) k = tslp_tsk tmout k"
| "task_svc cf (Wup_tsk tskid) k = wup_tsk tskid k"
| "task_svc cf (Can_wup tskid) k = can_wup tskid k"
| "task_svc cf (Rel_wai tskid) k = rel_wai tskid k"
| "task_svc cf (Sus_tsk tskid) k = sus_tsk tskid k"
| "task_svc cf (Rsm_tsk tskid) k = rsm_tsk tskid k"
| "task_svc cf (Dly_tsk dlytim) k = dly_tsk dlytim k"
| "task_svc cf (Ref_tsk tskid) k = fst (ref_tsk tskid k)"

datatype sem_call = Acre_sem ATR uint uint | Del_sem int | Sig_sem int | Wai_sem int | Pol_sem int | Twai_sem int TMO | Ini_sem int
  | Ref_sem int

primrec sem_svc :: "config \<Rightarrow> sem_call \<Rightarrow> kernel \<Rightarrow> svc \<times> kernel" where
  "sem_svc cf (Acre_sem atr icnt mx) k = acre_sem atr icnt mx k"
| "sem_svc cf (Del_sem semid) k = del_sem semid k"
| "sem_svc cf (Sig_sem semid) k = sig_sem semid k"
| "sem_svc cf (Wai_sem semid) k = wai_sem semid k"
| "sem_svc cf (Pol_sem semid) k = pol_sem semid k"
| "sem_svc cf (Twai_sem semid tmout) k = twai_sem semid tmout k"
| "sem_svc cf (Ini_sem semid) k = ini_sem semid k"
| "sem_svc cf (Ref_sem semid) k = fst (ref_sem semid k)"

datatype flg_call = Acre_flg ATR FLGPTN | Del_flg int | Set_flg int FLGPTN | Clr_flg int FLGPTN | Wai_flg int FLGPTN MODE
  | Pol_flg int FLGPTN MODE | Twai_flg int FLGPTN MODE TMO | Ini_flg int | Ref_flg int

primrec flg_svc :: "config \<Rightarrow> flg_call \<Rightarrow> kernel \<Rightarrow> svc \<times> kernel" where
  "flg_svc cf (Acre_flg atr ptn) k = acre_flg atr ptn k"
| "flg_svc cf (Del_flg flgid) k = del_flg flgid k"
| "flg_svc cf (Set_flg flgid ptn) k = set_flg flgid ptn k"
| "flg_svc cf (Clr_flg flgid ptn) k = clr_flg flgid ptn k"
| "flg_svc cf (Wai_flg flgid ptn m) k = fst (wai_flg flgid ptn m k)"
| "flg_svc cf (Pol_flg flgid ptn m) k = fst (pol_flg flgid ptn m k)"
| "flg_svc cf (Twai_flg flgid ptn m tmout) k = fst (twai_flg flgid ptn m tmout k)"
| "flg_svc cf (Ini_flg flgid) k = ini_flg flgid k"
| "flg_svc cf (Ref_flg flgid) k = fst (ref_flg flgid k)"

datatype dtq_call = Acre_dtq ATR uint addr | Del_dtq int | Snd_dtq int intptr_t | Psnd_dtq int intptr_t | Tsnd_dtq int intptr_t TMO
  | Fsnd_dtq int intptr_t | Rcv_dtq int | Prcv_dtq int | Trcv_dtq int TMO | Ini_dtq int | Ref_dtq int

primrec dtq_svc :: "config \<Rightarrow> dtq_call \<Rightarrow> kernel \<Rightarrow> svc \<times> kernel" where
  "dtq_svc cf (Acre_dtq atr cnt mb) k = acre_dtq (mb_aligned cf) atr cnt mb k"
| "dtq_svc cf (Del_dtq dtqid) k = del_dtq dtqid k"
| "dtq_svc cf (Snd_dtq dtqid data) k = snd_dtq dtqid data k"
| "dtq_svc cf (Psnd_dtq dtqid data) k = psnd_dtq dtqid data k"
| "dtq_svc cf (Tsnd_dtq dtqid data tmout) k = tsnd_dtq dtqid data tmout k"
| "dtq_svc cf (Fsnd_dtq dtqid data) k = fsnd_dtq dtqid data k"
| "dtq_svc cf (Rcv_dtq dtqid) k = fst (rcv_dtq dtqid k)"
| "dtq_svc cf (Prcv_dtq dtqid) k = fst (prcv_dtq dtqid k)"
| "dtq_svc cf (Trcv_dtq dtqid tmout) k = fst (trcv_dtq dtqid tmout k)"
| "dtq_svc cf (Ini_dtq dtqid) k = ini_dtq dtqid k"
| "dtq_svc cf (Ref_dtq dtqid) k = fst (ref_dtq dtqid k)"

datatype pdq_call = Acre_pdq ATR uint int addr | Del_pdq int | Snd_pdq int intptr_t int | Psnd_pdq int intptr_t int
  | Tsnd_pdq int intptr_t int TMO | Rcv_pdq int | Prcv_pdq int | Trcv_pdq int TMO | Ini_pdq int | Ref_pdq int

primrec pdq_svc :: "config \<Rightarrow> pdq_call \<Rightarrow> kernel \<Rightarrow> svc \<times> kernel" where
  "pdq_svc cf (Acre_pdq atr cnt mx mb) k = acre_pdq (mb_aligned cf) atr cnt mx mb k"
| "pdq_svc cf (Del_pdq pdqid) k = del_pdq pdqid k"
| "pdq_svc cf (Snd_pdq pdqid data pri) k = snd_pdq pdqid data pri k"
| "pdq_svc cf (Psnd_pdq pdqid data pri) k = psnd_pdq pdqid data pri k"
| "pdq_svc cf (Tsnd_pdq pdqid data pri tmout) k = tsnd_pdq pdqid data pri tmout k"
| "pdq_svc cf (Rcv_pdq pdqid) k = fst (rcv_pdq pdqid k)"
| "pdq_svc cf (Prcv_pdq pdqid) k = fst (prcv_pdq pdqid k)"
| "pdq_svc cf (Trcv_pdq pdqid tmout) k = fst (trcv_pdq pdqid tmout k)"
| "pdq_svc cf (Ini_pdq pdqid) k = ini_pdq pdqid k"
| "pdq_svc cf (Ref_pdq pdqid) k = fst (ref_pdq pdqid k)"

datatype mtx_call = Acre_mtx ATR int | Del_mtx int | Loc_mtx int | Ploc_mtx int | Tloc_mtx int TMO | Unl_mtx int | Ini_mtx int
  | Ref_mtx int

primrec mtx_svc :: "config \<Rightarrow> mtx_call \<Rightarrow> kernel \<Rightarrow> svc \<times> kernel" where
  "mtx_svc cf (Acre_mtx atr pri) k = acre_mtx atr pri k"
| "mtx_svc cf (Del_mtx mtxid) k = del_mtx mtxid k"
| "mtx_svc cf (Loc_mtx mtxid) k = loc_mtx mtxid k"
| "mtx_svc cf (Ploc_mtx mtxid) k = ploc_mtx mtxid k"
| "mtx_svc cf (Tloc_mtx mtxid tmout) k = tloc_mtx mtxid tmout k"
| "mtx_svc cf (Unl_mtx mtxid) k = unl_mtx mtxid k"
| "mtx_svc cf (Ini_mtx mtxid) k = ini_mtx mtxid k"
| "mtx_svc cf (Ref_mtx mtxid) k = fst (ref_mtx mtxid k)"

datatype mpf_call = Acre_mpf ATR uint uint addr addr | Del_mpf int | Get_mpf int | Pget_mpf int | Tget_mpf int TMO | Rel_mpf int addr
  | Ini_mpf int | Ref_mpf int

primrec mpf_svc :: "config \<Rightarrow> mpf_call \<Rightarrow> kernel \<Rightarrow> svc \<times> kernel" where
  "mpf_svc cf (Acre_mpf atr cnt sz mp mb) k = acre_mpf (mpf_aligned cf) (mb_aligned cf) atr cnt sz mp mb k"
| "mpf_svc cf (Del_mpf mpfid) k = del_mpf mpfid k"
| "mpf_svc cf (Get_mpf mpfid) k = fst (get_mpf mpfid k)"
| "mpf_svc cf (Pget_mpf mpfid) k = fst (pget_mpf mpfid k)"
| "mpf_svc cf (Tget_mpf mpfid tmout) k = fst (tget_mpf mpfid tmout k)"
| "mpf_svc cf (Rel_mpf mpfid blk) k = rel_mpf mpfid blk k"
| "mpf_svc cf (Ini_mpf mpfid) k = ini_mpf mpfid k"
| "mpf_svc cf (Ref_mpf mpfid) k = fst (ref_mpf mpfid k)"

datatype sys_call = Rot_rdq int | Get_tid | Get_lod int | Get_nth int uint | Loc_cpu | Unl_cpu | Dis_dsp | Ena_dsp | Chg_ipm int
  | Get_ipm

primrec sys_svc :: "config \<Rightarrow> sys_call \<Rightarrow> kernel \<Rightarrow> svc \<times> kernel" where
  "sys_svc cf (Rot_rdq pri) k = rot_rdq pri k"
| "sys_svc cf Get_tid k = fst (get_tid k)"
| "sys_svc cf (Get_lod pri) k = fst (get_lod pri k)"
| "sys_svc cf (Get_nth pri n) k = fst (get_nth pri n k)"
| "sys_svc cf Loc_cpu k = loc_cpu k"
| "sys_svc cf Unl_cpu k = unl_cpu k"
| "sys_svc cf Dis_dsp k = dis_dsp k"
| "sys_svc cf Ena_dsp k = ena_dsp k"
| "sys_svc cf (Chg_ipm intpri) k = chg_ipm (min_intpri cf) intpri k"
| "sys_svc cf Get_ipm k = fst (get_ipm k)"

datatype tim_call = Set_tim "64 word" | Get_tim | Adj_tim int | Acre_cyc ATR nfyinfo RELTIM RELTIM | Del_cyc int | Sta_cyc int
  | Stp_cyc int | Ref_cyc int | Acre_alm ATR nfyinfo | Del_alm int | Sta_alm int RELTIM | Stp_alm int | Ref_alm int

primrec tim_svc :: "config \<Rightarrow> tim_call \<Rightarrow> kernel \<Rightarrow> svc \<times> kernel" where
  "tim_svc cf (Set_tim time) k = set_tim time k"
| "tim_svc cf Get_tim k = fst (get_tim k)"
| "tim_svc cf (Adj_tim adjtim) k = adj_tim adjtim k"
| "tim_svc cf (Acre_cyc atr nfy tim phs) k = acre_cyc (thumb_code cf) atr nfy tim phs k"
| "tim_svc cf (Del_cyc cycid) k = del_cyc cycid k"
| "tim_svc cf (Sta_cyc cycid) k = sta_cyc cycid k"
| "tim_svc cf (Stp_cyc cycid) k = stp_cyc cycid k"
| "tim_svc cf (Ref_cyc cycid) k = fst (ref_cyc cycid k)"
| "tim_svc cf (Acre_alm atr nfy) k = acre_alm (thumb_code cf) atr nfy k"
| "tim_svc cf (Del_alm almid) k = del_alm almid k"
| "tim_svc cf (Sta_alm almid almtim) k = sta_alm almid almtim k"
| "tim_svc cf (Stp_alm almid) k = stp_alm almid k"
| "tim_svc cf (Ref_alm almid) k = fst (ref_alm almid k)"

datatype call = TaskC task_call | SemC sem_call | FlgC flg_call | DtqC dtq_call | PdqC pdq_call | MtxC mtx_call | MpfC mpf_call
  | SysC sys_call | TimC tim_call

text \<open>One call: its result and the state after it.\<close>

primrec service :: "config \<Rightarrow> call \<Rightarrow> kernel \<Rightarrow> svc \<times> kernel" where
  "service cf (TaskC c) k = task_svc cf c k"
| "service cf (SemC c) k = sem_svc cf c k"
| "service cf (FlgC c) k = flg_svc cf c k"
| "service cf (DtqC c) k = dtq_svc cf c k"
| "service cf (PdqC c) k = pdq_svc cf c k"
| "service cf (MtxC c) k = mtx_svc cf c k"
| "service cf (MpfC c) k = mpf_svc cf c k"
| "service cf (SysC c) k = sys_svc cf c k"
| "service cf (TimC c) k = tim_svc cf c k"

text \<open>The two largest indexes of blocks are marks (\<open>INDEX_NULL\<close>, \<open>INDEX_ALLOC\<close>): no pool of so many blocks is asked for.\<close>

definition legal :: "call \<Rightarrow> bool" where
  "legal c = (case c of MpfC (Acre_mpf atr cnt sz mp mb) \<Rightarrow> cnt < INDEX_ALLOC | _ \<Rightarrow> True)"

section \<open>Interrupts\<close>

text \<open>
  The entry and the exit of \<open>irq_handler\<close> as the kernel sees them: the count of nested exceptions leaves 0 and
  comes back to 0; then an idle processor goes to \<open>dispatcher_0\<close>, and another task than \<open>p_schedtsk\<close> to
  \<open>dispatcher\<close>. An interrupt within an interrupt changes nothing here.
\<close>

definition irq_enter :: "kernel \<Rightarrow> kernel" where
  "irq_enter k = k\<lparr>excpt_ctx := True\<rparr>"

definition irq_exit :: "kernel \<Rightarrow> kernel" where
  "irq_exit k =
     (let k1 = (lock_cpu k)\<lparr>excpt_ctx := False\<rparr>
      in if p_runtsk (ts k1) = None then dispatch k1
         else if p_runtsk (ts k1) \<noteq> p_schedtsk (ts k1) then dispatch k1
         else unlock_cpu k1)"

section \<open>Steps\<close>

text \<open>What an interrupt handler does to the kernel: service calls, and writes of the variables of the application.\<close>

inductive isr_step :: "config \<Rightarrow> kernel \<Rightarrow> kernel \<Rightarrow> bool" for cf where
  isr_call: "sense_context k \<Longrightarrow> legal c \<Longrightarrow> isr_step cf k (snd (service cf c k))"
| isr_write: "sense_context k \<Longrightarrow> isr_step cf k (write_var p v k)"

text \<open>The handlers of cyclic and alarm notifications are such handlers.\<close>

definition app_handlers :: "config \<Rightarrow> (addr \<Rightarrow> exinf_t \<Rightarrow> kernel \<Rightarrow> kernel) \<Rightarrow> bool" where
  "app_handlers cf uh \<longleftrightarrow> (\<forall>a e k. sense_context k \<longrightarrow> (isr_step cf)\<^sup>*\<^sup>* k (uh a e k))"

inductive step :: "config \<Rightarrow> (addr \<Rightarrow> exinf_t \<Rightarrow> kernel \<Rightarrow> kernel) \<Rightarrow> kernel \<Rightarrow> kernel \<Rightarrow> bool" for cf uh where
  task_call: "\<not> sense_context k \<Longrightarrow> p_runtsk (ts k) \<noteq> None \<Longrightarrow> legal c \<Longrightarrow> step cf uh k (snd (service cf c k))"
| task_write: "\<not> sense_context k \<Longrightarrow> p_runtsk (ts k) \<noteq> None \<Longrightarrow> step cf uh k (write_var p v k)"
| interrupt: "\<not> sense_context k \<Longrightarrow> \<not> sense_lock k \<Longrightarrow> step cf uh k (irq_enter k)"
| handler: "isr_step cf k k' \<Longrightarrow> step cf uh k k'"
| timer: "sense_context k \<Longrightarrow> \<not> sense_lock k \<Longrightarrow> signal_time uh k = Some k' \<Longrightarrow> step cf uh k k'"
| interrupt_end: "sense_context k \<Longrightarrow> step cf uh k (irq_exit k)"

abbreviation run :: "config \<Rightarrow> (addr \<Rightarrow> exinf_t \<Rightarrow> kernel \<Rightarrow> kernel) \<Rightarrow> kernel \<Rightarrow> kernel \<Rightarrow> bool" where
  "run cf uh \<equiv> (step cf uh)\<^sup>*\<^sup>*"

section \<open>The invariant of the system\<close>

lemma service_good:
  assumes g: "good k" "called k" and l: "legal c" shows "good (snd (service cf c k))"
proof (cases c)
  case (TaskC x)
  then show ?thesis using task_calls_good [OF g] task_self_good [OF g] by (cases x) simp_all
next
  case (SemC x)
  then show ?thesis using sem_calls_good [OF g] by (cases x) simp_all
next
  case (FlgC x)
  then show ?thesis using flg_calls_good [OF g] by (cases x) simp_all
next
  case (DtqC x)
  then show ?thesis using dtq_calls_good [OF g] by (cases x) simp_all
next
  case (PdqC x)
  then show ?thesis using pdq_calls_good [OF g] by (cases x) simp_all
next
  case (MtxC x)
  then show ?thesis using mtx_calls_good [OF g] by (cases x) simp_all
next
  case (MpfC x)
  then show ?thesis using mpf_calls_good [OF g] l by (cases x) (simp_all add: legal_def)
next
  case (SysC x)
  then show ?thesis using sys_calls_good [OF g] by (cases x) simp_all
next
  case (TimC x)
  then show ?thesis using time_calls_good [OF g(1)] cyc_calls_good [OF g(1)] alm_calls_good [OF g(1)] by (cases x) simp_all
qed

lemma service_cb:
  assumes g: "cb_ok cx k" shows "cb_ok cx (snd (service cf c k))"
proof (cases c)
  case (TaskC x)
  then show ?thesis using task_calls_cb [OF g] ras_ter_cb [OF g] dly_tsk_cb [OF g] acre_tsk_cb [OF g] by (cases x) simp_all
next
  case (SemC x)
  then show ?thesis using sem_calls_cb [OF g] by (cases x) simp_all
next
  case (FlgC x)
  then show ?thesis using flg_calls_cb [OF g] by (cases x) simp_all
next
  case (DtqC x)
  then show ?thesis using dtq_calls_cb [OF g] by (cases x) simp_all
next
  case (PdqC x)
  then show ?thesis using pdq_calls_cb [OF g] by (cases x) simp_all
next
  case (MtxC x)
  then show ?thesis using mtx_calls_cb [OF g] by (cases x) simp_all
next
  case (MpfC x)
  then show ?thesis using mpf_calls_cb [OF g] by (cases x) simp_all
next
  case (SysC x)
  then show ?thesis using sys_calls_cb [OF g] by (cases x) simp_all
next
  case (TimC x)
  then show ?thesis using time_calls_cb [OF g] cyc_calls_cb [OF g] alm_calls_cb [OF g] by (cases x) simp_all
qed

lemma isr_step_good:
  assumes "isr_step cf k k'" "good k" shows "good k' \<and> sense_context k'"
  using assms
proof cases
  case (isr_call c)
  then show ?thesis using service_good [OF assms(2) good_called] service_cb [OF goodD(2) [OF assms(2)], of cf c] assms(2)
    by (simp add: cb_ok_def)
next
  case (isr_write p v)
  then show ?thesis using write_var_good [OF assms(2)] by (simp add: write_var_def sense_context_def)
qed

lemma app_handlers_good: "app_handlers cf uh \<Longrightarrow> handlers_good uh"
  unfolding handlers_good_def
proof (intro allI impI)
  fix a e k assume u: "app_handlers cf uh" and g: "good k \<and> sense_context k"
  then have "(isr_step cf)\<^sup>*\<^sup>* k (uh a e k)" by (simp add: app_handlers_def)
  then show "good (uh a e k) \<and> sense_context (uh a e k)"
    by (induction rule: rtranclp_induct) (use g isr_step_good in blast)+
qed

text \<open>An interrupt comes or ends.\<close>

lemma good_frame:
  assumes g: "good k" and "settled k'" "cb_ok (sense_context k') k'" "\<And>K. keeps K k k'" "prio_frame {} k k'"
  shows "good k'"
proof -
  have "kind_inv K k'" for K
    using g kind_inv_keeps [OF _ _ assms(4)] mtx_inv_keeps [OF goodD(7) [OF g] assms(4,5)]
    by (cases "K = KMtx") (simp_all add: good_def)
  then show ?thesis using assms by (simp add: good_def)
qed

lemma consistent_ctx [simp]: "consistent (k\<lparr>excpt_ctx := b\<rparr>) = consistent k"
proof -
  have "loc (k\<lparr>excpt_ctx := b\<rparr>) = loc k" "active (k\<lparr>excpt_ctx := b\<rparr>) = active k"
    "\<And>t. task_ok (k\<lparr>excpt_ctx := b\<rparr>) t = task_ok k t" "\<And>t. prio_ok (k\<lparr>excpt_ctx := b\<rparr>) t = prio_ok k t"
    by (simp_all add: loc_def active_def timed_def cyc_on_def alm_on_def task_ok_def prio_ok_def exists_task_def fun_eq_iff)
  then show ?thesis by (simp add: consistent_def)
qed

lemma cb_ctx: "cb_ok cx k \<Longrightarrow> cb_ok b (k\<lparr>excpt_ctx := b\<rparr>)"
  by (simp add: cb_ok_def cb_task_def timed_def sense_context_def)

lemma irq_enter_good:
  assumes g: "good k" shows "good (irq_enter k)" "sense_context (irq_enter k)"
proof -
  show c: "sense_context (irq_enter k)" by (simp add: irq_enter_def sense_context_def)
  show "good (irq_enter k)"
  proof (rule good_frame [OF g])
    show "settled (irq_enter k)"
      using goodD(1) [OF g] c by (simp add: settled_def) (simp add: irq_enter_def running_def)
    show "cb_ok (sense_context (irq_enter k)) (irq_enter k)"
      using cb_ctx [OF goodD(2) [OF g]] c by (simp add: irq_enter_def)
    show "keeps K k (irq_enter k)" for K by (cases K) (simp_all add: irq_enter_def keeps_def same_objects_def)
    show "prio_frame {} k (irq_enter k)" by (rule prio_frame_same [OF prio_frame_refl]) (simp_all add: irq_enter_def)
  qed
qed

lemma irq_exit_good:
  assumes g: "good k" shows "good (irq_exit k)" "\<not> sense_context (irq_exit k)"
proof -
  let ?k = "(lock_cpu k)\<lparr>excpt_ctx := False\<rparr>"
  have s: "consistent ?k" "\<forall>t. p_runtsk (ts ?k) = Some t \<longrightarrow> running t ?k"
    "\<not> dspflg (ts ?k) \<longrightarrow> p_schedtsk (ts ?k) = p_runtsk (ts ?k) \<and> p_runtsk (ts ?k) \<noteq> None" "\<not> sense_context ?k"
    using goodD(1) [OF g] by (simp_all add: settled_def running_def sense_context_def)
  then have m: "midway ?k" by (auto simp: midway_def)
  have t: "settled ?k" if "p_runtsk (ts ?k) = p_schedtsk (ts ?k)" using that s by (simp add: settled_def)
  have k: "keeps K k ?k" for K by (cases K) (simp_all add: keeps_def same_objects_def lock_cpu_def)
  have p: "prio_frame {} k ?k" by (rule prio_frame_same [OF prio_frame_refl]) (simp_all add: lock_cpu_def)
  have b: "cb_ok False ?k" by (rule cb_ctx [of "sense_context k"]) (intro frame goodD(2) [OF g])
  have c: "sense_context (irq_exit k) = sense_context ?k"
    by (simp add: irq_exit_def Let_def dispatch_def) 
  then show x: "\<not> sense_context (irq_exit k)" using s(4) by simp
  show "good (irq_exit k)"
  proof (rule good_frame [OF g])
    show "settled (irq_exit k)" using dispatch_settled [OF m] t by (simp add: irq_exit_def Let_def)
    show "cb_ok (sense_context (irq_exit k)) (irq_exit k)" unfolding x [THEN eq_False [THEN iffD2]]
      using b by (auto simp: irq_exit_def Let_def intro!: frame)
    show "keeps K k (irq_exit k)" for K using k by (auto simp: irq_exit_def Let_def intro!: frame)
    show "prio_frame {} k (irq_exit k)" using p by (auto simp: irq_exit_def Let_def intro!: frame)
  qed
qed

lemma step_good:
  assumes "step cf uh k k'" "app_handlers cf uh" "good k" shows "good k'"
  using assms(1)
proof cases
  case (task_call c)
  have "called k" using goodD(1) [OF assms(3)] task_call by (simp add: called_def)
  then show ?thesis using service_good [OF assms(3)] task_call by simp
next
  case handler
  then show ?thesis using isr_step_good assms(3) by blast
next
  case timer
  then show ?thesis using signal_time_good [OF app_handlers_good [OF assms(2)]] assms(3) by blast
qed (use assms(3) write_var_good irq_enter_good irq_exit_good in simp_all)

lemma run_good: "run cf uh k k' \<Longrightarrow> app_handlers cf uh \<Longrightarrow> good k \<Longrightarrow> good k'"
  by (induction rule: rtranclp_induct) (auto intro: step_good)

end
