(* ===== verification/Errors.thy ===== *)
theory Errors
  imports System
begin

unbundle bit_operations_syntax

text \<open>
  Service calls that fail. A call that returns an error code leaves the kernel as it was; only the memory pool may have been
  asked in vain. The exception is \<open>adj_tim\<close>, which reads the clock before its last check.
\<close>

definition unchanged :: "kernel \<Rightarrow> kernel \<Rightarrow> bool" where
  "unchanged k k' \<longleftrightarrow> k'\<lparr>mpk_n := mpk_n k, mpk_live := mpk_live k\<rparr> = k"

lemma unchanged_refl [simp, intro]: "unchanged k k"
  by (simp add: unchanged_def)

lemma unchanged_pool [simp]:
  "unchanged k (snd (malloc_mpk n k')) = unchanged k k'" "unchanged k (free_mpk a k') = unchanged k k'"
  by (simp_all add: unchanged_def malloc_mpk_def free_mpk_def Let_def)

text \<open>\<open>no_harm k r\<close>: the result \<open>r\<close> of a call is no error, or the kernel is unchanged.\<close>

definition no_harm :: "kernel \<Rightarrow> svc \<times> kernel \<Rightarrow> bool" where
  "no_harm k r \<longleftrightarrow> (\<forall>e. fst r = Ret e \<and> e \<noteq> E_OK \<longrightarrow> unchanged k (snd r))"

lemma no_harm_simps [simp]:
  "no_harm k (Ret e, k)" "no_harm k (Ret E_OK, k')" "no_harm k (RetUint n, k')" "no_harm k (Blocked, k')" "no_harm k (NoReturn, k')"
  "no_harm k (leave E_OK k')" "no_harm k (leave_uint n k')" "no_harm k (block k')"
  by (auto simp: no_harm_def leave_def leave_uint_def block_def)

text \<open>The lock is free at the start. What happens under the lock before an error is at most a request to the pool.\<close>

lemma no_harm_leave [simp]:
  assumes "\<not> sense_lock k" "unchanged (lock_cpu k) k'" shows "no_harm k (leave e k')"
proof -
  have "k'\<lparr>mpk_n := mpk_n k, mpk_live := mpk_live k\<rparr> = k\<lparr>cpulock := True\<rparr>"
    using assms(2) by (simp add: unchanged_def lock_cpu_def)
  then have "k'\<lparr>mpk_n := mpk_n k, mpk_live := mpk_live k, cpulock := False\<rparr> = k"
    using assms(1) by (simp add: sense_lock_def)
  moreover have "k'\<lparr>cpulock := False, mpk_n := mpk_n k, mpk_live := mpk_live k\<rparr> =
      k'\<lparr>mpk_n := mpk_n k, mpk_live := mpk_live k, cpulock := False\<rparr>" by simp
  ultimately show ?thesis by (simp only: no_harm_def leave_def unchanged_def unlock_cpu_def snd_conv simp_thms)
qed

lemma no_harm_unlock [simp]:
  assumes "\<not> sense_lock k" "unchanged (lock_cpu k) k'" shows "no_harm k (Ret e, unlock_cpu k')"
  using no_harm_leave [OF assms] by (simp add: leave_def)

text \<open>A queue that is full is left as it is, and one that is empty.\<close>

lemma full_or_empty [simp]:
  "\<not> fst (send_data i d k) \<Longrightarrow> snd (send_data i d k) = k" "fst (receive_data i k) = None \<Longrightarrow> snd (receive_data i k) = k"
  "\<not> fst (send_pridata i dp k) \<Longrightarrow> snd (send_pridata i dp k) = k" "fst (receive_pridata i k) = None \<Longrightarrow> snd (receive_pridata i k) = k"
  "fst (check_flg_cond i p m k) = None \<Longrightarrow> snd (check_flg_cond i p m k) = k"
  by (auto simp: send_data_def receive_data_def send_pridata_def receive_pridata_def check_flg_cond_def Let_def case_prod_unfold
      split: if_splits)

lemma sem_calls_no_harm: "no_harm k (sem_svc cf c k)"
  by (cases c) (simp_all add: acre_sem_def del_sem_def sig_sem_def wai_sem_def pol_sem_def twai_sem_def ini_sem_def ref_sem_def
      ctx_error_def dispatch_error_def Let_def case_prod_unfold split: option.split)

lemma flg_calls_no_harm: "no_harm k (flg_svc cf c k)"
  by (cases c) (simp_all add: acre_flg_def del_flg_def set_flg_def clr_flg_def wai_flg_def pol_flg_def twai_flg_def ini_flg_def ref_flg_def
      ctx_error_def dispatch_error_def Let_def case_prod_unfold split: option.split)

lemma dtq_calls_no_harm: "no_harm k (dtq_svc cf c k)"
  by (cases c) (simp_all add: acre_dtq_def del_dtq_def snd_dtq_def psnd_dtq_def tsnd_dtq_def fsnd_dtq_def rcv_dtq_def prcv_dtq_def
      trcv_dtq_def ini_dtq_def ref_dtq_def ctx_error_def dispatch_error_def Let_def case_prod_unfold split: option.split)

lemma pdq_calls_no_harm: "no_harm k (pdq_svc cf c k)"
  by (cases c) (simp_all add: acre_pdq_def del_pdq_def snd_pdq_def psnd_pdq_def tsnd_pdq_def rcv_pdq_def prcv_pdq_def
      trcv_pdq_def ini_pdq_def ref_pdq_def ctx_error_def dispatch_error_def Let_def case_prod_unfold split: option.split)

lemma mpf_calls_no_harm: "no_harm k (mpf_svc cf c k)"
  by (cases c) (simp_all add: acre_mpf_def del_mpf_def get_mpf_def pget_mpf_def tget_mpf_def rel_mpf_def ini_mpf_def ref_mpf_def take_block_def
      ctx_error_def dispatch_error_def Let_def case_prod_unfold split: option.split)

lemma mtx_calls_no_harm: "no_harm k (mtx_svc cf c k)"
  by (cases c) (simp_all add: acre_mtx_def del_mtx_def loc_mtx_def ploc_mtx_def tloc_mtx_def unl_mtx_def ini_mtx_def ref_mtx_def
      ctx_error_def dispatch_error_def Let_def case_prod_unfold split: option.split)

lemma sys_calls_no_harm: "no_harm k (sys_svc cf c k)"
  by (cases c) (simp_all add: rot_rdq_def get_tid_def get_lod_def get_nth_def loc_cpu_def unl_cpu_def dis_dsp_def ena_dsp_def
      resume_dispatch_def chg_ipm_def get_ipm_def
      ctx_error_def dispatch_error_def Let_def case_prod_unfold split: option.split)

lemma task_calls_no_harm: "no_harm k (task_svc cf c k)"
  by (cases c) (simp_all add: acre_tsk_def del_tsk_def act_tsk_def can_act_def get_tst_def chg_pri_def get_pri_def get_inf_def ext_tsk_def
      ras_ter_def dis_ter_def ena_ter_def ter_tsk_def slp_tsk_def tslp_tsk_def wup_tsk_def can_wup_def rel_wai_def sus_tsk_def rsm_tsk_def
      dly_tsk_def ref_tsk_def ctx_error_def dispatch_error_def Let_def case_prod_unfold split: option.split)

lemma tim_calls_no_harm: "\<forall>a. c \<noteq> Adj_tim a \<Longrightarrow> no_harm k (tim_svc cf c k)"
  by (cases c) (simp_all add: set_tim_def get_tim_def acre_cyc_def del_cyc_def sta_cyc_def stp_cyc_def ref_cyc_def
      acre_alm_def del_alm_def sta_alm_def stp_alm_def ref_alm_def ctx_error_def dispatch_error_def Let_def case_prod_unfold split: option.split)

lemmas calls_no_harm = task_calls_no_harm sem_calls_no_harm flg_calls_no_harm dtq_calls_no_harm pdq_calls_no_harm mtx_calls_no_harm
  mpf_calls_no_harm sys_calls_no_harm

lemma service_no_harm:
  assumes "\<forall>a. c \<noteq> TimC (Adj_tim a)" shows "no_harm k (service cf c k)"
  using assms by (cases c) (auto simp: calls_no_harm tim_calls_no_harm)

lemma service_error:
  assumes "\<forall>a. c \<noteq> TimC (Adj_tim a)" "fst (service cf c k) = Ret e" "e \<noteq> E_OK"
  shows "unchanged k (snd (service cf c k))"
  using service_no_harm [OF assms(1)] assms(2,3) by (simp add: no_harm_def)

end
