(* ===== verification/Startup.thy ===== *)
theory Startup
  imports System
begin

unbundle bit_operations_syntax

text \<open>
  The start of the kernel: \<open>sta_ker\<close> of asp3\_dcre/kernel/startup.c with \<open>initialize_task\<close> of task.c and the
  initialisation of the objects, up to the first dispatch. \<open>booted\<close> is what the configurator and the start-up routine
  guarantee of the memory before; \<open>sta_ker_good\<close> shows that what follows is a good state.
\<close>

section \<open>The initialisation of the tasks\<close>

text \<open>The fields of the module, then one turn of each of the two loops of \<open>initialize_task\<close>.\<close>

definition initialize_ready :: "'te tskst \<Rightarrow> 'te tskst" where
  "initialize_ready s =
     (let s1 = s\<lparr>p_runtsk := None, p_schedtsk := None, enadsp := True, dspflg := True\<rparr>
      in s1\<lparr>queues := (\<lambda>h. case h of ReadyQ p \<Rightarrow> if p < TNUM_TPRI then [] else queues s1 h | _ \<Rightarrow> queues s1 h),
            ready_primap := 0\<rparr>)"

definition init_static_tsk :: "int \<Rightarrow> kernel \<Rightarrow> kernel" where
  "init_static_tsk tskid k =
     (let j = INDEX tskid;
          k1 = upd_task j (\<lambda>b. b\<lparr>actque := False\<rparr>) k;
          k2 = map_ts (make_dormant j) k1;
          k3 = upd_task j (\<lambda>b. b\<lparr>p_lastmtx := None\<rparr>) k2
      in if tsk_atr k3 j AND TA_ACT \<noteq> 0 then map_ts (make_active j) k3 else k3)"

definition init_free_tsk :: "nat \<Rightarrow> kernel \<Rightarrow> kernel" where
  "init_free_tsk i k =
     (let k1 = map_ts (\<lambda>s. s\<lparr>tinib := (tinib s)(i := (tinib s i)\<lparr>tskatr := TA_NOEXS\<rparr>)\<rparr>) k
      in map_ts (\<lambda>s. s\<lparr>queues := lq_insert_prev FreeTcbQ i (queues s)\<rparr>) k1)"

text \<open>\<open>torder_table\<close> lists the IDs of the static tasks in the order of their creation.\<close>

definition initialize_task :: "(nat \<Rightarrow> int) \<Rightarrow> kernel \<Rightarrow> kernel" where
  "initialize_task torder_table k =
     (let n = nat (tmax_stskid k); m = nat (tmax_tskid k);
          k1 = map_ts initialize_ready k;
          k2 = fold (\<lambda>i. init_static_tsk (torder_table i)) [0..<n] k1;
          k3 = map_ts (\<lambda>s. s\<lparr>queues := (queues s)(FreeTcbQ := [])\<rparr>) k2
      in fold init_free_tsk [n..<m] k3)"

section \<open>The start\<close>

text \<open>
  The configurator writes \<open>initialize_object\<close> (kernel/kernel.trb): the initialisations of the kinds of objects in the
  order of their templates. It leaves out a kind of which there are no objects; its initialisation would
  do nothing but empty the list of unused blocks.
\<close>

definition initialize_object :: "(nat \<Rightarrow> int) \<Rightarrow> kernel \<Rightarrow> kernel" where
  "initialize_object torder_table k =
     (let k = initialize_task torder_table k;
          k = initialize_semaphore k;
          k = initialize_eventflag k;
          k = initialize_dataqueue k;
          k = initialize_pridataq k;
          k = initialize_mutex k;
          k = initialize_mempfix k;
          k = initialize_cyclic k
      in initialize_alarm k)"

text \<open>The processor: the kernel starts in the context of an exception, and leaves it with the first task.\<close>

definition core_initialize :: "kernel \<Rightarrow> kernel" where
  "core_initialize k = k\<lparr>excpt_ctx := True\<rparr>"

definition start_dispatch :: "kernel \<Rightarrow> kernel" where
  "start_dispatch k = dispatch ((lock_cpu k)\<lparr>excpt_ctx := False\<rparr>)"

text \<open>\<open>inirtns\<close> are the initialisation routines of the application, applied to their \<open>exinf\<close>.\<close>

definition sta_ker :: "(nat \<Rightarrow> int) \<Rightarrow> (kernel \<Rightarrow> kernel) list \<Rightarrow> kernel \<Rightarrow> kernel" where
  "sta_ker torder_table inirtns k =
     (let k1 = core_initialize k;
          k2 = map_tm initialize_tmevt k1;
          k3 = initialize_object torder_table k2;
          k4 = fold (\<lambda>r. r) inirtns k3;
          k5 = map_tm (\<lambda>m. let (hrtcnt, m) = target_hrt_get_current m in m\<lparr>current_hrtcnt := hrtcnt\<rparr>) k4;
          k6 = map_tm set_hrt_event k5;
          k7 = k6\<lparr>kerflg := True\<rparr>
      in start_dispatch k7)"

text \<open>The end of the kernel: the interrupts are locked, and the termination routines run; it does not come back.\<close>

definition exit_kernel :: "(kernel \<Rightarrow> kernel) list \<Rightarrow> kernel \<Rightarrow> kernel" where
  "exit_kernel terrtns k = fold (\<lambda>r. r) terrtns k"

definition ext_ker :: "(kernel \<Rightarrow> kernel) list \<Rightarrow> kernel \<Rightarrow> kernel" where
  "ext_ker terrtns k = exit_kernel terrtns ((lock_cpu k)\<lparr>kerflg := False, excpt_ctx := True\<rparr>)"

section \<open>The memory before the start\<close>

text \<open>The checks of the configurator on the static objects; a table has no object beyond its end.\<close>

definition static_tsk :: "(nat \<Rightarrow> int) \<Rightarrow> kernel \<Rightarrow> bool" where
  "static_tsk torder_table k \<longleftrightarrow> 0 \<le> tmax_stskid k \<and> tmax_stskid k \<le> tmax_tskid k \<and>
     torder_table ` {0..<nat (tmax_stskid k)} = {1..tmax_stskid k} \<and> inj_on torder_table {0..<nat (tmax_stskid k)} \<and>
     (\<forall>i. int i < tmax_stskid k \<longrightarrow> tsk_atr k i \<noteq> TA_NOEXS \<and> ipriority (tinib (ts k) i) < TNUM_TPRI)"

definition static_sem :: "kernel \<Rightarrow> bool" where
  "static_sem k \<longleftrightarrow> (\<forall>i. i < nat (tmax_ssemid k) \<longrightarrow> isemcnt (seminib k i) \<le> maxsem (seminib k i)) \<and>
     (\<forall>i. nat (tmax_semid k) \<le> i \<and> nat (tmax_ssemid k) \<le> i \<longrightarrow> \<not> sem_exists k i)"

definition static_flg :: "kernel \<Rightarrow> bool" where
  "static_flg k \<longleftrightarrow> (\<forall>i. nat (tmax_flgid k) \<le> i \<and> nat (tmax_sflgid k) \<le> i \<longrightarrow> \<not> flg_exists k i)"

definition static_dtq :: "kernel \<Rightarrow> bool" where
  "static_dtq k \<longleftrightarrow> (\<forall>i. nat (tmax_dtqid k) \<le> i \<and> nat (tmax_sdtqid k) \<le> i \<longrightarrow> \<not> dtq_exists k i)"

definition static_pdq :: "kernel \<Rightarrow> bool" where
  "static_pdq k \<longleftrightarrow> (\<forall>i. nat (tmax_pdqid k) \<le> i \<and> nat (tmax_spdqid k) \<le> i \<longrightarrow> \<not> pdq_exists k i)"

definition static_mtx :: "kernel \<Rightarrow> bool" where
  "static_mtx k \<longleftrightarrow> tmax_smtxid k \<le> tmax_mtxid k \<and>
     (\<forall>i. i < nat (tmax_smtxid k) \<and> MTX_CEILING k i \<longrightarrow> ceilpri (mtxinib k i) < TNUM_TPRI) \<and>
     (\<forall>i. nat (tmax_mtxid k) \<le> i \<longrightarrow> \<not> mtx_exists k i)"

definition static_mpf :: "kernel \<Rightarrow> bool" where
  "static_mpf k \<longleftrightarrow> (\<forall>i. i < nat (tmax_smpfid k) \<longrightarrow> blkcnt (mpfinib k i) < INDEX_ALLOC) \<and>
     (\<forall>i. nat (tmax_mpfid k) \<le> i \<and> nat (tmax_smpfid k) \<le> i \<longrightarrow> \<not> mpf_exists k i)"

definition static_cyc :: "kernel \<Rightarrow> bool" where
  "static_cyc k \<longleftrightarrow> tmax_scycid k \<le> tmax_cycid k \<and> (\<forall>i. i < nat (tmax_scycid k) \<longrightarrow> cyc_exists k i \<and>
     0 < cyctim (cycinib k i) \<and> cyctim (cycinib k i) \<le> TMAX_RELTIM \<and> cycphs (cycinib k i) \<le> TMAX_RELTIM \<and>
     (cyc_nfyhdr (cycinib k i) = NotifyHandler \<longrightarrow> (\<exists>j. cyc_exinf (cycinib k i) = CycNfy j)))"

definition static_alm :: "kernel \<Rightarrow> bool" where
  "static_alm k \<longleftrightarrow> tmax_salmid k \<le> tmax_almid k \<and> (\<forall>i. i < nat (tmax_salmid k) \<longrightarrow>
     (alm_nfyhdr (alminib k i) = NotifyHandler \<longrightarrow> (\<exists>j. alm_exinf (alminib k i) = AlmNfy j)))"

text \<open>
  The start-up routine fills the control blocks with zeros: no task is more than dormant, none has locked a
  mutex, none is linked to a queue, no notification operates.
\<close>

definition zeroed :: "kernel \<Rightarrow> bool" where
  "zeroed k \<longleftrightarrow> (\<forall>t. tstat (task k t) = TS_DORMANT \<and> p_lastmtx (task k t) = None) \<and> (\<forall>h. queues (ts k) h = []) \<and>
     (\<forall>i. tmax_stskid k \<le> int i \<longrightarrow> tsk_atr k i = 0) \<and> (\<forall>i. \<not> cycsta (cyccb k i) \<and> \<not> almsta (almcb k i))"

definition booted :: "(nat \<Rightarrow> int) \<Rightarrow> kernel \<Rightarrow> bool" where
  "booted torder_table k \<longleftrightarrow> static_tsk torder_table k \<and> static_sem k \<and> static_flg k \<and> static_dtq k \<and> static_pdq k \<and> static_mtx k \<and>
     static_mpf k \<and> static_cyc k \<and> static_alm k \<and> zeroed k"

text \<open>Initialisation routines may not call services; they write variables.\<close>

definition inirtns_ok :: "(kernel \<Rightarrow> kernel) list \<Rightarrow> bool" where
  "inirtns_ok rs \<longleftrightarrow> (\<forall>r\<in>set rs. \<forall>k. \<exists>u. r k = k\<lparr>uvar := u\<rparr>)"

section \<open>The tasks\<close>

text \<open>In the first loop the tasks in \<open>D\<close> are done, in the second the blocks in \<open>F\<close>.\<close>

definition tasks_done :: "nat set \<Rightarrow> nat set \<Rightarrow> kernel \<Rightarrow> kernel \<Rightarrow> bool" where
  "tasks_done D F k0 k \<longleftrightarrow> same_tables k0 k \<and> tm k = tm k0 \<and> core (loc k) (ts k) \<and> p_runtsk (ts k) = None \<and> dspflg (ts k) \<and>
     (\<forall>t. tsk_atr k t = (if t \<in> F then TA_NOEXS else tsk_atr k0 t) \<and> ipriority (tinib (ts k) t) = ipriority (tinib (ts k0) t)) \<and>
     (\<forall>t. tstat (task k t) = TS_DORMANT \<or> tstat (task k t) = TS_RUNNABLE \<and> t \<in> D) \<and> (\<forall>t. p_lastmtx (task k t) = None) \<and>
     (\<forall>t\<in>D. priority (task k t) = ipriority (tinib (ts k) t) \<and> bpriority (task k t) = ipriority (tinib (ts k) t)) \<and>
     queues (ts k) FreeTcbQ = sorted_list_of_set F \<and> (\<forall>w. queue_of k w = [])"

lemma init_ready_done:
  assumes z: "zeroed k" and s: "static_tsk torder k"
  shows "tasks_done {} {} k (map_ts initialize_ready k)"
proof -
  have "int t < tmax_stskid k \<or> tsk_atr k t = 0" for t using z unfolding zeroed_def by (meson not_less)
  then have "tsk_atr k t \<noteq> TA_NOEXS" for t using s unfolding static_tsk_def by (cases "tsk_atr k t = 0") (simp, blast)
  then have L: "loc (map_ts initialize_ready k) t = None" for t
    using z by (auto simp: loc_def zeroed_def static_tsk_def initialize_ready_def Let_def map_ts_def)
  have q: "queues (ts (map_ts initialize_ready k)) h = []" for h
    using z by (auto simp: zeroed_def initialize_ready_def Let_def map_ts_def split: qhead.split)
  then have "is_top (ts (map_ts initialize_ready k)) None" by (simp add: is_top_def)
  then have "core (loc (map_ts initialize_ready k)) (ts (map_ts initialize_ready k))"
    using q L by (simp add: core_defs) (simp add: initialize_ready_def Let_def map_ts_def)
  then show ?thesis using z q unfolding tasks_done_def
    by (simp add: zeroed_def) (simp add: initialize_ready_def Let_def map_ts_def)
qed


lemma tasks_done_activate:
  assumes d: "tasks_done D {} k0 k" and j: "j \<in> D" "tstat (task k j) = TS_DORMANT"
    and e: "int j < tmax_tskid k" "tsk_atr k j \<noteq> TA_NOEXS" "ipriority (tinib (ts k) j) < TNUM_TPRI"
  shows "tasks_done D {} k0 (map_ts (make_active j) k)"
proof -
  let ?s = "upd_tcb j (\<lambda>b. b\<lparr>tstat := TS_RUNNABLE\<rparr>) (ts k)"
  define k' where "k' = map_ts (make_active j) k"
  have ts: "ts k' = make_runnable j ?s" and st: "same_tables k k'" "tm k' = tm k"
    by (auto simp: k'_def make_active_def)
  have pr: "priority (tcb ?s j) = ipriority (tinib (ts k) j)" using d j(1) by (simp add: tasks_done_def)
  have l: "loc k j = None" using e j(2) by (simp add: loc_def)
  have "core (loc k) (ts k)" using d by (simp add: tasks_done_def)
  from core_upd_tcb [OF this, of j] have "core (loc k) ?s" using l by simp
  from make_runnable_core [OF this l] have c: "core ((loc k)(j \<mapsto> ReadyQ (ipriority (tinib (ts k) j)))) (ts k')"
    using e(3) unfolding ts pr by simp
  have q: "queues (ts k') h = queues (ts k) h" if "\<And>p. h \<noteq> ReadyQ p" for h
    unfolding ts using that
    by (simp add: make_runnable_def Let_def primap_set_def lq_insert_prev_def upd_tcb_def split: option.split)
  have x: "tcb (ts k') = (task k)(j := (task k j)\<lparr>tstat := TS_RUNNABLE\<rparr>)" "tinib (ts k') = tinib (ts k)"
      "p_runtsk (ts k') = p_runtsk (ts k)" "dspflg (ts k') = dspflg (ts k)"
    unfolding ts by (simp_all add: fun_eq_iff)
  have "loc k' = (loc k)(j \<mapsto> ReadyQ (ipriority (tinib (ts k) j)))"
    using e(1,2) pr by (simp add: fun_eq_iff loc_def x same_tables_sel(1) [OF st(1)] TSTAT_RUNNABLE_def)
  moreover have "same_tables k0 k'" using d st(1) same_tables_trans unfolding tasks_done_def by blast
  moreover have "priority (task k' t) = priority (task k t)" "bpriority (task k' t) = bpriority (task k t)"
    "p_lastmtx (task k' t) = p_lastmtx (task k t)" "tstat (task k' t) = (if t = j then TS_RUNNABLE else tstat (task k t))" for t
    by (simp_all add: x)
  ultimately show ?thesis using d c j(1) unfolding tasks_done_def k'_def [symmetric] by (simp add: x(2-) q st(2))
qed

lemma init_static_done:
  assumes d: "tasks_done D {} k0 k" and s: "static_tsk torder k0" and i: "i < nat (tmax_stskid k0)" "INDEX (torder i) \<notin> D"
  shows "tasks_done (insert (INDEX (torder i)) D) {} k0 (init_static_tsk (torder i) k)"
proof -
  let ?j = "INDEX (torder i)"
  define f where "f = (\<lambda>b::tmevtb_ref tcb. b\<lparr>actque := False, tstat := TS_DORMANT, bpriority := ipriority (tinib (ts k) ?j),
    priority := ipriority (tinib (ts k) ?j), wupque := False, raster := False, enater := True, p_lastmtx := None\<rparr>)"
  define k3 where "k3 = upd_task ?j f k"
  have k3: "upd_task ?j (\<lambda>b. b\<lparr>p_lastmtx := None\<rparr>) (map_ts (make_dormant ?j) (upd_task ?j (\<lambda>b. b\<lparr>actque := False\<rparr>) k)) = k3"
    by (simp add: k3_def f_def make_dormant_upd) (simp add: upd_task_def upd_tcb_def map_ts_def)
  have eq: "init_static_tsk (torder i) k = (if tsk_atr k3 ?j AND TA_ACT \<noteq> 0 then map_ts (make_active ?j) k3 else k3)"
    unfolding init_static_tsk_def Let_def k3 ..
  have "torder i \<in> {1..tmax_stskid k0}" using s i(1) by (auto simp: static_tsk_def)
  then have j: "int ?j < tmax_stskid k0" by (simp add: INDEX_def)
  then have e: "int ?j < tmax_tskid k" "tsk_atr k ?j \<noteq> TA_NOEXS" "ipriority (tinib (ts k) ?j) < TNUM_TPRI"
    using s d same_tables_sel(1) [of k0 k] by (auto simp: static_tsk_def tasks_done_def)
  have c: "core (loc k) (ts k)" and dorm: "tstat (task k ?j) = TS_DORMANT" using d i(2) by (auto simp: tasks_done_def)
  have l: "loc k ?j = None" using e dorm by (simp add: loc_def)
  have c3: "core (loc k) (ts k3)" unfolding k3_def upd_task_def map_ts_def using core_upd_tcb [OF c, of ?j f] l by simp
  have x: "tinib (ts k3) = tinib (ts k)" "tm k3 = tm k" "queues (ts k3) = queues (ts k)" "p_runtsk (ts k3) = p_runtsk (ts k)"
      "dspflg (ts k3) = dspflg (ts k)" "task k3 = (task k)(?j := f (task k ?j))"
    by (simp_all add: k3_def upd_task_def upd_tcb_def map_ts_def fun_eq_iff)
  have stk: "same_tables k k3" unfolding k3_def upd_task_def by (rule same_tables_map_ts)
  have tmax: "tmax_tskid k3 = tmax_tskid k" by (rule same_tables_sel(1) [OF stk])
  have "loc k3 = loc k" using dorm by (simp add: fun_eq_iff loc_def x tmax f_def)
  moreover have "same_tables k0 k3" using d same_tables_trans [OF _ stk] by (simp add: tasks_done_def)
  ultimately have p: "tasks_done (insert ?j D) {} k0 k3"
    using d c3 unfolding tasks_done_def by (auto simp: x f_def)
  show ?thesis unfolding eq using p tasks_done_activate [OF p, of ?j] e by (simp add: x tmax f_def)
qed

lemma init_static_loop:
  assumes d: "tasks_done {} {} k0 k" and s: "static_tsk torder k0" and n: "n \<le> nat (tmax_stskid k0)"
  shows "tasks_done ((INDEX \<circ> torder) ` {0..<n}) {} k0 (fold (\<lambda>i. init_static_tsk (torder i)) [0..<n] k)"
  using n
proof (induction n)
  case (Suc n)
  have i: "INDEX (torder n) \<noteq> INDEX (torder i)" if "i < n" for i
  proof -
    have m: "i \<in> {0..<nat (tmax_stskid k0)}" "n \<in> {0..<nat (tmax_stskid k0)}" using that Suc.prems by auto
    then have "torder i \<in> {1..tmax_stskid k0}" "torder n \<in> {1..tmax_stskid k0}" "torder i \<noteq> torder n"
      using s that unfolding static_tsk_def by (blast, blast, metis inj_on_eq_iff less_irrefl)
    then show ?thesis by (auto simp: INDEX_def)
  qed
  have "(INDEX \<circ> torder) ` {0..<Suc n} = insert (INDEX (torder n)) ((INDEX \<circ> torder) ` {0..<n})" by (auto simp: less_Suc_eq)
  moreover have "tasks_done (insert (INDEX (torder n)) ((INDEX \<circ> torder) ` {0..<n})) {} k0
      (init_static_tsk (torder n) (fold (\<lambda>i. init_static_tsk (torder i)) [0..<n] k))"
    using Suc.prems i by (intro init_static_done [OF Suc.IH s]) force+
  ultimately show ?case by simp
qed (use d in simp)

lemma init_free_done:
  assumes d: "tasks_done D {n..<i} k0 k" and z: "zeroed k0" and n: "n = nat (tmax_stskid k0)" "n \<le> i" "int i < tmax_tskid k0"
    and D: "\<And>t. t \<in> D \<Longrightarrow> t < n"
  shows "tasks_done D {n..<Suc i} k0 (init_free_tsk i k)"
proof -
  let ?k = "init_free_tsk i k" and ?s = "(ts k)\<lparr>tinib := (tinib (ts k))(i := (tinib (ts k) i)\<lparr>tskatr := TA_NOEXS\<rparr>)\<rparr>"
  have c: "core (loc k) (ts k)" using d by (simp add: tasks_done_def)
  have dorm: "tstat (task k i) = TS_DORMANT" using d n D [of i] by (auto simp: tasks_done_def)
  have "tsk_atr k i = 0" using d z n by (auto simp: tasks_done_def zeroed_def)
  then have l: "loc k i = None" using dorm by (simp add: loc_def)
  have s: "?s\<lparr>queues := (queues ?s)(FreeTcbQ := queues ?s FreeTcbQ @ [i])\<rparr> = ts ?k"
    by (simp add: init_free_tsk_def map_ts_def lq_insert_prev_def)
  have "core (loc k) ?s" using c is_top_cong [of ?s "ts k"] by (simp add: core_defs)
  then have "core ((loc k)(i \<mapsto> FreeTcbQ)) (?s\<lparr>queues := (queues ?s)(FreeTcbQ := queues ?s FreeTcbQ @ [i])\<rparr>)"
    using core_in_queue [OF c, of i FreeTcbQ] l core_distinct [OF c, of FreeTcbQ]
    by (intro core_queues [of "loc k"] queues_at_insert) (simp_all add: core_def)
  then have "core ((loc k)(i \<mapsto> FreeTcbQ)) (ts ?k)" unfolding s .
  moreover have st: "same_tables k ?k" by (auto simp: init_free_tsk_def)
  then have t: "tmax_tskid ?k = tmax_tskid k0" "same_tables k0 ?k"
    using d same_tables_sel(1) same_tables_trans unfolding tasks_done_def by (simp, blast)
  have x: "tcb (ts ?k) = tcb (ts k)" "tinib (ts ?k) = (tinib (ts k))(i := (tinib (ts k) i)\<lparr>tskatr := TA_NOEXS\<rparr>)"
    "queues (ts ?k) = (queues (ts k))(FreeTcbQ := queues (ts k) FreeTcbQ @ [i])" "tm ?k = tm k" "p_runtsk (ts ?k) = p_runtsk (ts k)"
    "dspflg (ts ?k) = dspflg (ts k)"
    by (simp_all add: init_free_tsk_def map_ts_def lq_insert_prev_def)
  have "loc ?k = (loc k)(i \<mapsto> FreeTcbQ)"
    using t(1) n(3) same_tables_sel(1) [OF st] by (simp add: fun_eq_iff loc_def x)
  ultimately have "core (loc ?k) (ts ?k)" by simp
  then show ?thesis using d t(2) n unfolding tasks_done_def by (simp add: x)
qed


lemma init_free_loop:
  assumes d: "tasks_done D {} k0 k" and z: "zeroed k0" and n: "n = nat (tmax_stskid k0)" "i \<le> nat (tmax_tskid k0)"
    and D: "\<And>t. t \<in> D \<Longrightarrow> t < n"
  shows "tasks_done D {n..<i} k0 (fold init_free_tsk [n..<i] k)"
  using n(2)
proof (induction i)
  case (Suc i)
  then show ?case using init_free_done [OF Suc.IH z n(1)] D d by (cases "n \<le> i") simp_all
qed (use d in simp)

text \<open>Between the initialisations of the modules: nothing runs, nobody waits, and no mutex is locked.\<close>

definition quiet :: "kernel \<Rightarrow> bool" where
  "quiet k \<longleftrightarrow> settled k \<and> sense_context k \<and> p_runtsk (ts k) = None \<and> (\<forall>w. queue_of k w = []) \<and>
     (\<forall>t. p_lastmtx (task k t) = None \<and> \<not> timed k t \<and> (exists_task k t \<longrightarrow> priority (task k t) = bpriority (task k t)))"

lemma initialize_task_quiet:
  assumes s: "static_tsk torder k" and z: "zeroed k" and c: "sense_context k" and p: "p_last (tm k) = 0"
  shows "quiet (initialize_task torder k)" "same_tables k (initialize_task torder k)" "tm (initialize_task torder k) = tm k"
proof -
  let ?n = "nat (tmax_stskid k)" and ?m = "nat (tmax_tskid k)" and ?k = "initialize_task torder k"
  let ?D = "(INDEX \<circ> torder) ` {0..<?n}"
  have D: "?D = {t. int t < tmax_stskid k}"
  proof -
    have "?D = INDEX ` torder ` {0..<?n}" by (rule image_comp [symmetric])
    also have "torder ` {0..<?n} = {1..tmax_stskid k}" using s by (simp add: static_tsk_def)
    also have "INDEX ` {1..tmax_stskid k} = {t. int t < tmax_stskid k}"
    proof (intro set_eqI iffI)
      fix t assume "t \<in> {t. int t < tmax_stskid k}"
      then have "t = INDEX (int t + 1)" "int t + 1 \<in> {1..tmax_stskid k}" by (simp_all add: INDEX_def)
      then show "t \<in> INDEX ` {1..tmax_stskid k}" by (rule image_eqI)
    qed (auto simp: INDEX_def)
    finally show ?thesis .
  qed
  define k2 where "k2 = fold (\<lambda>i. init_static_tsk (torder i)) [0..<?n] (map_ts initialize_ready k)"
  have d2: "tasks_done ?D {} k k2" unfolding k2_def by (rule init_static_loop [OF init_ready_done [OF z s] s]) simp
  then have "queues (ts k2) FreeTcbQ = []" by (simp add: tasks_done_def)
  then have "map_ts (\<lambda>s. s\<lparr>queues := (queues s)(FreeTcbQ := [])\<rparr>) k2 = k2"
    by (simp add: map_ts_def fun_upd_idem)
  then have k: "?k = fold init_free_tsk [?n..<?m] k2"
    using same_tables_sel(1) [of k k2] d2 by (simp add: initialize_task_def Let_def k2_def)
  have d: "tasks_done ?D {?n..<?m} k ?k" unfolding k
  proof (rule init_free_loop [OF d2 z])
    show "t < ?n" if "t \<in> ?D" for t using that unfolding D by simp
  qed simp_all
  then show st: "same_tables k ?k" and tm: "tm ?k = tm k" by (simp_all add: tasks_done_def)
  have tmax: "tmax_tskid ?k = tmax_tskid k" by (rule same_tables_sel(1) [OF st])
  have ex: "exists_task ?k t \<longleftrightarrow> int t < tmax_stskid k" for t
    using d s tmax by (auto simp: exists_task_def tasks_done_def static_tsk_def)
  have st0: "tstat (task ?k t) = TS_DORMANT \<or> tstat (task ?k t) = TS_RUNNABLE \<and> int t < tmax_stskid k" for t
    using d unfolding tasks_done_def D by blast
  then have nt: "\<not> TSTAT_WAITING (tstat (task ?k t))" for t by (metis code_status plain_status)
  then have nt': "\<not> timed ?k t" for t by (simp add: timed_def)
  have "active ?k = {}"
    using z by (intro active_eqI) (simp_all add: nt' cyc_on_def alm_on_def same_tables_sel [OF st] zeroed_def)
  then have reg: "registered (tm ?k) (active ?k)" by (simp add: tm registered_none p)
  have pr: "priority (task ?k t) = ipriority (tinib (ts k) t) \<and> bpriority (task ?k t) = ipriority (tinib (ts k) t)"
    if "int t < tmax_stskid k" for t using d that unfolding tasks_done_def D by simp
  have ip: "ipriority (tinib (ts ?k) t) = ipriority (tinib (ts k) t)" for t using d unfolding tasks_done_def by blast
  have "prio_ok ?k t" for t using s pr ip ex by (simp add: prio_ok_def static_tsk_def)
  moreover have "task_ok ?k t" for t
    using st0 [of t] nt ex by (auto simp: task_ok_def wait_ok_def valid_tstat_def)
  ultimately have "consistent ?k" using d reg by (simp add: consistent_def tasks_done_def)
  then show "quiet ?k" using d c nt' pr ex same_tables_sel(2) [OF st]
    by (simp add: quiet_def settled_def tasks_done_def sense_context_def)
qed


section \<open>The objects\<close>

text \<open>An initialisation that leaves the tasks and the notifications alone keeps the state quiet.\<close>

lemma quiet_tables:
  assumes q: "quiet k" and t: "ts k' = ts k" "tmax_tskid k' = tmax_tskid k" "excpt_ctx k' = excpt_ctx k"
    and r: "registered (tm k') (active k')"
  shows "quiet k'"
  using q settled_active [OF _ t r] t by (simp add: quiet_def sense_context_def timed_def exists_task_def)

lemma quiet_settled: "quiet k \<Longrightarrow> registered (tm k) (active k)"
  using consistentD(2) settledD by (auto simp: quiet_def)

lemma keeps_quiet: "quiet k \<Longrightarrow> quiet k' \<Longrightarrow> same_objects K k k' \<Longrightarrow> keeps K k k'"
  by (simp add: keeps_def quiet_def)

lemma active_tables:
  "tcb (ts k') = tcb (ts k) \<Longrightarrow> same_objects KCyc k k' \<Longrightarrow> same_objects KAlm k k' \<Longrightarrow> active k' = active k"
  by (rule active_eqI) (simp_all add: timed_def cyc_on_def alm_on_def same_objects_def)

lemma init_tables_quiet:
  assumes "quiet k"
  shows "quiet (initialize_semaphore k)" "quiet (initialize_eventflag k)" "quiet (initialize_dataqueue k)"
    "quiet (initialize_pridataq k)" "quiet (initialize_mutex k)" "quiet (initialize_mempfix k)"
    "K \<noteq> KSem \<Longrightarrow> same_objects K k (initialize_semaphore k)" "K \<noteq> KFlg \<Longrightarrow> same_objects K k (initialize_eventflag k)"
    "K \<noteq> KDtq \<Longrightarrow> same_objects K k (initialize_dataqueue k)" "K \<noteq> KPdq \<Longrightarrow> same_objects K k (initialize_pridataq k)"
    "K \<noteq> KMtx \<Longrightarrow> same_objects K k (initialize_mutex k)" "K \<noteq> KMpf \<Longrightarrow> same_objects K k (initialize_mempfix k)"
    "tm (initialize_semaphore k) = tm k" "tm (initialize_eventflag k) = tm k" "tm (initialize_dataqueue k) = tm k"
    "tm (initialize_pridataq k) = tm k" "tm (initialize_mutex k) = tm k" "tm (initialize_mempfix k) = tm k"
proof -
  note defs = initialize_semaphore_def initialize_eventflag_def initialize_dataqueue_def initialize_pridataq_def
    initialize_mutex_def initialize_mempfix_def
  show so: "K \<noteq> KSem \<Longrightarrow> same_objects K k (initialize_semaphore k)" "K \<noteq> KFlg \<Longrightarrow> same_objects K k (initialize_eventflag k)"
    "K \<noteq> KDtq \<Longrightarrow> same_objects K k (initialize_dataqueue k)" "K \<noteq> KPdq \<Longrightarrow> same_objects K k (initialize_pridataq k)"
    "K \<noteq> KMtx \<Longrightarrow> same_objects K k (initialize_mutex k)" "K \<noteq> KMpf \<Longrightarrow> same_objects K k (initialize_mempfix k)" for K
    by (cases K; simp add: defs Let_def same_objects_def map_ts_def)+
  show "tm (initialize_semaphore k) = tm k" "tm (initialize_eventflag k) = tm k" "tm (initialize_dataqueue k) = tm k"
    "tm (initialize_pridataq k) = tm k" "tm (initialize_mutex k) = tm k" "tm (initialize_mempfix k) = tm k"
    by (simp_all add: defs Let_def map_ts_def)
  have q: "queue_of k w = []" for w using assms by (simp add: quiet_def)
  have "queues (ts (initialize_semaphore k)) h = queues (ts k) h" "queues (ts (initialize_eventflag k)) h = queues (ts k) h"
    "queues (ts (initialize_dataqueue k)) h = queues (ts k) h" "queues (ts (initialize_pridataq k)) h = queues (ts k) h"
    "queues (ts (initialize_mutex k)) h = queues (ts k) h" "queues (ts (initialize_mempfix k)) h = queues (ts k) h" for h
    using q by (auto simp: defs Let_def map_ts_def split: qhead.split wobj.split)
  then have t: "ts (initialize_semaphore k) = ts k" "ts (initialize_eventflag k) = ts k" "ts (initialize_dataqueue k) = ts k"
    "ts (initialize_pridataq k) = ts k" "ts (initialize_mutex k) = ts k" "ts (initialize_mempfix k) = ts k"
    by (auto intro!: tskst.equality simp: fun_eq_iff) (simp_all add: defs Let_def map_ts_def)
  have c: "tmax_tskid k' = tmax_tskid k \<and> excpt_ctx k' = excpt_ctx k \<and> tm k' = tm k"
    if "k' \<in> {initialize_semaphore k, initialize_eventflag k, initialize_dataqueue k, initialize_pridataq k, initialize_mutex k,
      initialize_mempfix k}" for k'
    using that by (elim insertE emptyE; simp add: defs Let_def map_ts_def)
  have a: "active (initialize_semaphore k) = active k" "active (initialize_eventflag k) = active k"
    "active (initialize_dataqueue k) = active k" "active (initialize_pridataq k) = active k"
    "active (initialize_mutex k) = active k" "active (initialize_mempfix k) = active k"
    by (rule active_tables; simp add: t so)+
  have a: "active (initialize_semaphore k) = active k" "active (initialize_eventflag k) = active k"
    "active (initialize_dataqueue k) = active k" "active (initialize_pridataq k) = active k"
    "active (initialize_mutex k) = active k" "active (initialize_mempfix k) = active k"
    by (rule active_tables; simp add: t so)+
  show "quiet (initialize_semaphore k)" "quiet (initialize_eventflag k)" "quiet (initialize_dataqueue k)"
    "quiet (initialize_pridataq k)" "quiet (initialize_mutex k)" "quiet (initialize_mempfix k)"
    using c quiet_settled [OF assms]
    by (intro quiet_tables [OF assms] t; simp add: a)+
qed


text \<open>The invariant of each kind holds after its initialisation.\<close>

lemma init_sem_inv:
  assumes q: "quiet k" and s: "static_sem k" shows "sem_inv (initialize_semaphore k)"
proof -
  let ?k = "initialize_semaphore k"
  have "queue_of ?k w = []" for w using init_tables_quiet(1) [OF q] by (simp add: quiet_def)
  moreover have "sem_exists ?k i \<longrightarrow> i < nat (tmax_ssemid k) \<and> seminib ?k i = seminib k i \<and> semcb ?k i = \<lparr>semcnt = isemcnt (seminib k i)\<rparr>" for i
    using s by (auto simp: static_sem_def initialize_semaphore_def Let_def sem_exists_def map_ts_def not_less)
  moreover have "free_semcb ?k = [nat (tmax_ssemid k)..<nat (tmax_semid k)]" by (simp add: initialize_semaphore_def Let_def)
  ultimately show ?thesis using s by (fastforce simp: sem_inv_def static_sem_def)
qed

lemma init_flg_inv:
  assumes q: "quiet k" and s: "static_flg k" shows "flg_inv (initialize_eventflag k)"
proof -
  let ?k = "initialize_eventflag k"
  have "queue_of ?k w = []" for w using init_tables_quiet(2) [OF q] by (simp add: quiet_def)
  moreover have "flg_exists ?k i \<longrightarrow> i < nat (tmax_sflgid k)" for i
    using s by (auto simp: static_flg_def initialize_eventflag_def Let_def flg_exists_def map_ts_def not_less)
  moreover have "free_flgcb ?k = [nat (tmax_sflgid k)..<nat (tmax_flgid k)]" by (simp add: initialize_eventflag_def Let_def)
  ultimately show ?thesis by (fastforce simp: flg_inv_def)
qed

lemma init_dtq_inv:
  assumes q: "quiet k" and s: "static_dtq k" shows "dtq_inv (initialize_dataqueue k)"
proof -
  let ?k = "initialize_dataqueue k"
  have e: "queue_of ?k w = []" for w using init_tables_quiet(3) [OF q] by (simp add: quiet_def)
  have x: "dtq_exists ?k i \<longrightarrow> i < nat (tmax_sdtqid k) \<and> dtqcb ?k i = clear_dtqcb (dtqcb k i)" for i
    using s by (auto simp: static_dtq_def initialize_dataqueue_def Let_def dtq_exists_def map_ts_def not_less)
  have f: "free_dtqcb ?k = [nat (tmax_sdtqid k)..<nat (tmax_dtqid k)]" by (simp add: initialize_dataqueue_def Let_def)
  have "\<exists>L. dtq.box.ok i ?k L" if "dtq_exists ?k i" for i
    using x that by (intro exI [of _ "[]"]) (simp add: dtq.box.ok_def e ring_repr_clear)
  then show ?thesis using x by (fastforce simp: dtq.inv_def e f)
qed

lemma init_pdq_inv:
  assumes q: "quiet k" and s: "static_pdq k" shows "pdq_inv (initialize_pridataq k)"
proof -
  let ?k = "initialize_pridataq k"
  have e: "queue_of ?k w = []" for w using init_tables_quiet(4) [OF q] by (simp add: quiet_def)
  have x: "pdq_exists ?k i \<longrightarrow> i < nat (tmax_spdqid k) \<and> pdqcb ?k i = clear_pdqcb (pdqcb k i)" for i
    using s by (auto simp: static_pdq_def initialize_pridataq_def Let_def pdq_exists_def map_ts_def not_less)
  have f: "free_pdqcb ?k = [nat (tmax_spdqid k)..<nat (tmax_pdqid k)]" by (simp add: initialize_pridataq_def Let_def)
  have "\<exists>L. pdq.box.ok i ?k L" if "pdq_exists ?k i" for i
    using x that by (intro exI [of _ "[]"]) (simp add: pdq.box.ok_def e pdq_repr_clear)
  then show ?thesis using x by (fastforce simp: pdq.inv_def e f)
qed

lemma init_mpf_inv:
  assumes q: "quiet k" and s: "static_mpf k" shows "mpf_inv (initialize_mempfix k)"
proof -
  let ?k = "initialize_mempfix k"
  have e: "queue_of ?k w = []" for w using init_tables_quiet(6) [OF q] by (simp add: quiet_def)
  have x: "mpf_exists ?k i \<longrightarrow> i < nat (tmax_smpfid k) \<and> mpfinib ?k i = mpfinib k i \<and>
      mpfcb ?k i = clear_mpfcb (blkcnt (mpfinib k i)) (mpfcb k i)" for i
    using s by (auto simp: static_mpf_def initialize_mempfix_def Let_def mpf_exists_def map_ts_def not_less)
  have f: "free_mpfcb ?k = [nat (tmax_smpfid k)..<nat (tmax_mpfid k)]" by (simp add: initialize_mempfix_def Let_def)
  have "mpf_good ?k i" if "mpf_exists ?k i" for i
  proof -
    have "blkcnt (mpfinib k i) < INDEX_ALLOC" using x that s by (auto simp: static_mpf_def)
    from mpf_ok_clear [OF this] show ?thesis using x that by (auto simp: mpf_good_def e)
  qed
  then show ?thesis using x by (fastforce simp: mpf_inv_def e f)
qed

lemma init_mtx_inv:
  assumes q: "quiet k" and s: "static_mtx k" shows "mtx_inv (initialize_mutex k)"
proof -
  let ?k = "initialize_mutex k"
  have q': "quiet ?k" by (rule init_tables_quiet(5) [OF q])
  then have e: "queue_of ?k w = []" and l: "p_lastmtx (task ?k t) = None"
    and p: "exists_task ?k t \<longrightarrow> priority (task ?k t) = bpriority (task ?k t)" for w t by (simp_all add: quiet_def)
  have x: "mtx_exists ?k i \<longrightarrow> i < nat (tmax_smtxid k) \<and> mtxinib ?k i = mtxinib k i \<and> p_loctsk (mtxcb ?k i) = None" for i
    using s by (auto simp: static_mtx_def initialize_mutex_def Let_def mtx_exists_def map_ts_def not_less)
  have f: "free_mtxcb ?k = [nat (tmax_smtxid k)..<nat (tmax_mtxid k)]" "tmax_mtxid ?k = tmax_mtxid k"
    by (simp_all add: initialize_mutex_def Let_def map_ts_def)
  have o: "owned ?k t = {}" for t using x by (auto simp: owned_def)
  have "mtx_tables ?k"
    using x s by (fastforce simp: mtx_tables_def f static_mtx_def MTX_CEILING_def MTXPROTO_def)
  moreover have "holds ?k t []" for t by (simp add: holds_def l o)
  then have "\<exists>xs. holds ?k t xs" for t by blast
  ultimately show ?thesis by (simp add: mtx_ok_def o e p protocol_priority_def)
qed


section \<open>The notifications\<close>

lemma init_static_cyc_loop:
  assumes r: "registered (tm k) {}"
  shows "\<exists>m. fold init_static_cyc [0..<n] k = k\<lparr>tm := m,
        cyccb := (\<lambda>i. if i < n then \<lparr>cycsta = cycatr (cycinib k i) AND TA_STA \<noteq> 0\<rparr> else cyccb k i)\<rparr> \<and>
      registered m {CycTM i | i. i < n \<and> cycatr (cycinib k i) AND TA_STA \<noteq> 0} \<and>
      (\<forall>i<n. calls_back m (CycTM i) Call_cyclic i)"
proof (induction n)
  case 0
  show ?case using r by (intro exI [of _ "tm k"]) simp
next
  case (Suc n)
  let ?A = "\<lambda>n. {CycTM i | i. i < n \<and> cycatr (cycinib k i) AND TA_STA \<noteq> 0}"
  let ?cb = "\<lambda>n i. if i < n then \<lparr>cycsta = cycatr (cycinib k i) AND TA_STA \<noteq> 0\<rparr> else cyccb k i"
  obtain m where f: "fold init_static_cyc [0..<n] k = k\<lparr>tm := m, cyccb := ?cb n\<rparr>"
    and reg: "registered m (?A n)" and cb: "\<forall>i<n. calls_back m (CycTM i) Call_cyclic i" using Suc.IH by blast
  define m1 where "m1 = set_callback (CycTM n) Call_cyclic n m"
  have r1: "registered m1 (?A n)" using reg by (simp add: m1_def set_callback_def registered_callback)
  have c1: "\<forall>i<Suc n. calls_back m1 (CycTM i) Call_cyclic i" using cb by (auto simp: m1_def set_callback_def calls_back_def less_Suc_eq)
  show ?case
  proof (cases "cycatr (cycinib k n) AND TA_STA \<noteq> 0")
    case True
    define m2 where "m2 = set_evttim (CycTM n) (cycphs (cycinib k n)) m1"
    have "registered m2 (?A n)" using r1 by (simp add: m2_def set_evttim_def registered_evttim)
    then have "registered (tmevtb_register (CycTM n) m2) (insert (CycTM n) (?A n))"
      unfolding tmevtb_register_def by (rule tmevtb_insert_correct(1)) simp
    moreover have "insert (CycTM n) (?A n) = ?A (Suc n)" using True by (auto simp: less_Suc_eq)
    moreover have "same_cb m1 (tmevtb_register (CycTM n) m2)"
      using same_cb_trans [of m1 m2] by (simp add: m2_def)
    then have "\<forall>i<Suc n. calls_back (tmevtb_register (CycTM n) m2) (CycTM i) Call_cyclic i"
      using c1 by (simp add: same_cb_def calls_back_def)
    moreover have "fold init_static_cyc [0..<Suc n] k = k\<lparr>tm := tmevtb_register (CycTM n) m2, cyccb := ?cb (Suc n)\<rparr>"
      using True by (simp add: f init_static_cyc_def Let_def map_tm_def set_cycsta_def m1_def m2_def) (auto simp: fun_eq_iff less_Suc_eq)
    ultimately show ?thesis by auto
  next
    case False
    have "?A (Suc n) = ?A n" using False by (auto simp: less_Suc_eq)
    moreover have "fold init_static_cyc [0..<Suc n] k = k\<lparr>tm := m1, cyccb := ?cb (Suc n)\<rparr>"
      using False by (simp add: f init_static_cyc_def Let_def map_tm_def set_cycsta_def m1_def) (auto simp: fun_eq_iff less_Suc_eq)
    ultimately show ?thesis using r1 c1 by auto
  qed
qed


text \<open>\<open>callbacks R cb I m\<close>: the blocks \<open>R i\<close> of the notifications \<open>I\<close> get their call back.\<close>

definition callbacks :: "(nat \<Rightarrow> tmevtb_ref) \<Rightarrow> cback \<Rightarrow> nat list \<Rightarrow> tme \<Rightarrow> tme" where
  "callbacks R cb I = fold (\<lambda>i. set_callback (R i) cb i) I"

lemma registered_callback_set: "registered (set_callback r cb i m) A = registered m A"
  by (simp add: set_callback_def registered_callback)

lemma callbacks_sel:
  assumes "inj R"
  shows "registered (callbacks R cb I m) A = registered m A"
    "calls_back (callbacks R cb I m) (R j) cb j \<longleftrightarrow> j \<in> set I \<or> calls_back m (R j) cb j"
    "(\<And>i. r \<noteq> R i) \<Longrightarrow> calls_back (callbacks R cb I m) r c a = calls_back m r c a"
proof -
  show "registered (callbacks R cb I m) A = registered m A" unfolding callbacks_def
    by (induction I arbitrary: m) (simp_all add: registered_callback_set)
  show "calls_back (callbacks R cb I m) (R j) cb j \<longleftrightarrow> j \<in> set I \<or> calls_back m (R j) cb j"
  proof (induction I arbitrary: m)
    case (Cons i I)
    have "calls_back (set_callback (R i) cb i m) (R j) cb j \<longleftrightarrow> j = i \<or> calls_back m (R j) cb j"
      using assms by (auto simp: calls_back_def set_callback_def inj_eq)
    then show ?case using Cons.IH [of "set_callback (R i) cb i m"] by (auto simp: callbacks_def)
  qed (simp add: callbacks_def)
  show "calls_back (callbacks R cb I m) r c a = calls_back m r c a" if "\<And>i. r \<noteq> R i"
    unfolding callbacks_def using that by (induction I arbitrary: m) (simp_all add: calls_back_def set_callback_def)
qed

lemma callbacks_snoc: "callbacks R cb (I @ [i]) m = set_callback (R i) cb i (callbacks R cb I m)"
  by (simp add: callbacks_def)

lemma init_free_cyc_loop:
  assumes "n \<le> i"
  shows "fold init_free_cyc [n..<i] k = k\<lparr>tm := callbacks CycTM Call_cyclic [n..<i] (tm k),
    cycinib := (\<lambda>j. if n \<le> j \<and> j < i then (cycinib k j)\<lparr>cycatr := TA_NOEXS\<rparr> else cycinib k j), free_cyccb := free_cyccb k @ [n..<i]\<rparr>"
  using assms
proof (induction i rule: dec_induct)
  case base
  have "\<not> (n \<le> j \<and> j < n)" for j by simp
  then show ?case by (simp only: if_False) (simp add: callbacks_def)
next
  case (step i)
  then show ?case
    by (simp add: init_free_cyc_def Let_def upd_cycinib_def map_tm_def callbacks_snoc) (auto simp: fun_eq_iff less_Suc_eq)
qed

lemma init_free_alm_loop:
  assumes "n \<le> i"
  shows "fold init_free_alm [n..<i] k = k\<lparr>tm := callbacks AlmTM Call_alarm [n..<i] (tm k),
    alminib := (\<lambda>j. if n \<le> j \<and> j < i then (alminib k j)\<lparr>almatr := TA_NOEXS\<rparr> else alminib k j), free_almcb := free_almcb k @ [n..<i]\<rparr>"
  using assms
proof (induction i rule: dec_induct)
  case base
  have "\<not> (n \<le> j \<and> j < n)" for j by simp
  then show ?case by (simp only: if_False) (simp add: callbacks_def)
next
  case (step i)
  then show ?case
    by (simp add: init_free_alm_def Let_def upd_alminib_def map_tm_def callbacks_snoc) (auto simp: fun_eq_iff less_Suc_eq)
qed

lemma init_static_alm_loop:
  "fold init_static_alm [0..<n] k = k\<lparr>tm := callbacks AlmTM Call_alarm [0..<n] (tm k),
    almcb := (\<lambda>j. if j < n then \<lparr>almsta = False\<rparr> else almcb k j)\<rparr>"
  by (induction n) (simp add: callbacks_def, simp add: init_static_alm_def set_almsta_def map_tm_def callbacks_snoc,
    auto simp: fun_eq_iff less_Suc_eq)


lemma init_cyclic_ok:
  assumes q: "quiet k" and s: "static_cyc k" and a: "active k = {}"
  shows "quiet (initialize_cyclic k)" "cyc_inv (initialize_cyclic k)" "K \<noteq> KCyc \<Longrightarrow> same_objects K k (initialize_cyclic k)"
    "int i < tmax_cycid k \<Longrightarrow> calls_back (tm (initialize_cyclic k)) (CycTM i) Call_cyclic i"
    "ts (initialize_cyclic k) = ts k" "tmax_cycid (initialize_cyclic k) = tmax_cycid k" "alm_on (initialize_cyclic k) = alm_on k"
    "excpt_ctx (initialize_cyclic k) = excpt_ctx k"
proof -
  let ?n = "nat (tmax_scycid k)" and ?m = "nat (tmax_cycid k)" and ?k = "initialize_cyclic k"
  let ?A = "{CycTM i | i. i < ?n \<and> cycatr (cycinib k i) AND TA_STA \<noteq> 0}"
  have n: "?n \<le> ?m" using s by (simp add: static_cyc_def nat_mono)
  have "registered (tm k) {}" using quiet_settled [OF q] a by simp
  from init_static_cyc_loop [OF this, of ?n] obtain mm where
      f: "fold init_static_cyc [0..<?n] k = k\<lparr>tm := mm,
        cyccb := (\<lambda>i. if i < ?n then \<lparr>cycsta = cycatr (cycinib k i) AND TA_STA \<noteq> 0\<rparr> else cyccb k i)\<rparr>"
    and reg: "registered mm ?A" and cb: "\<forall>i<?n. calls_back mm (CycTM i) Call_cyclic i" by blast
  have k: "?k = k\<lparr>tm := callbacks CycTM Call_cyclic [?n..<?m] mm,
      cyccb := (\<lambda>i. if i < ?n then \<lparr>cycsta = cycatr (cycinib k i) AND TA_STA \<noteq> 0\<rparr> else cyccb k i),
      cycinib := (\<lambda>j. if ?n \<le> j \<and> j < ?m then (cycinib k j)\<lparr>cycatr := TA_NOEXS\<rparr> else cycinib k j), free_cyccb := [?n..<?m]\<rparr>"
    unfolding initialize_cyclic_def Let_def f by (simp add: init_free_cyc_loop [OF n] cong: if_cong)
  have inj: "inj CycTM" by (simp add: inj_def)
  show t: "ts ?k = ts k" "tmax_cycid ?k = tmax_cycid k" "alm_on ?k = alm_on k" "excpt_ctx ?k = excpt_ctx k"
    by (simp_all add: k alm_on_def fun_eq_iff)
  show "K \<noteq> KCyc \<Longrightarrow> same_objects K k ?k" by (cases K) (simp_all add: k same_objects_def)
  show "calls_back (tm ?k) (CycTM i) Call_cyclic i" if "int i < tmax_cycid k"
    using that cb callbacks_sel(2) [OF inj, of Call_cyclic "[?n..<?m]" mm i] by (cases "i < ?n") (auto simp: k)
  have on: "cyc_on ?k i \<longleftrightarrow> i < ?n \<and> cycatr (cycinib k i) AND TA_STA \<noteq> 0" for i
    using s n by (auto simp: cyc_on_def k static_cyc_def cyc_exists_def)
  have "\<not> timed k t" "\<not> alm_on k i" for t i using a in_active by blast+
  then have "active ?k = ?A" by (intro active_eqI) (simp_all add: on t timed_def)
  then have "registered (tm ?k) (active ?k)" using reg by (simp add: k callbacks_sel(1) [OF inj])
  then show "quiet ?k" by (intro quiet_tables [OF q t(1) _ t(4)]) (simp add: k)
  have ex: "cyc_exists ?k i \<longleftrightarrow> i < ?n \<or> ?m \<le> i \<and> cyc_exists k i" for i
    using s n by (auto simp: cyc_exists_def k static_cyc_def)
  show "cyc_inv ?k" unfolding cyc_inv_def ex using s n by (auto simp: k static_cyc_def)
qed

lemma init_alarm_ok:
  assumes q: "quiet k" and s: "static_alm k" and a: "\<And>i. \<not> alm_on k i"
  shows "quiet (initialize_alarm k)" "alm_inv (initialize_alarm k)" "K \<noteq> KAlm \<Longrightarrow> same_objects K k (initialize_alarm k)"
    "int i < tmax_almid k \<Longrightarrow> calls_back (tm (initialize_alarm k)) (AlmTM i) Call_alarm i"
    "calls_back (tm (initialize_alarm k)) (CycTM i) cb j = calls_back (tm k) (CycTM i) cb j" "tmax_almid (initialize_alarm k) = tmax_almid k"
    "excpt_ctx (initialize_alarm k) = excpt_ctx k"
proof -
  let ?n = "nat (tmax_salmid k)" and ?m = "nat (tmax_almid k)" and ?k = "initialize_alarm k"
  have n: "?n \<le> ?m" using s by (simp add: static_alm_def nat_mono)
  have k: "?k = k\<lparr>tm := callbacks AlmTM Call_alarm [?n..<?m] (callbacks AlmTM Call_alarm [0..<?n] (tm k)),
      almcb := (\<lambda>j. if j < ?n then \<lparr>almsta = False\<rparr> else almcb k j),
      alminib := (\<lambda>j. if ?n \<le> j \<and> j < ?m then (alminib k j)\<lparr>almatr := TA_NOEXS\<rparr> else alminib k j), free_almcb := [?n..<?m]\<rparr>"
    unfolding initialize_alarm_def Let_def init_static_alm_loop by (simp add: init_free_alm_loop [OF n] cong: if_cong)
  have inj: "inj AlmTM" by (simp add: inj_def)
  show t: "tmax_almid ?k = tmax_almid k" "excpt_ctx ?k = excpt_ctx k" by (simp_all add: k)
  show "K \<noteq> KAlm \<Longrightarrow> same_objects K k ?k" by (cases K) (simp_all add: k same_objects_def)
  show "calls_back (tm ?k) (AlmTM i) Call_alarm i" if "int i < tmax_almid k"
    using that by (simp add: k callbacks_sel(2) [OF inj]) linarith
  show "calls_back (tm ?k) (CycTM i) cb j = calls_back (tm k) (CycTM i) cb j"
    by (simp add: k callbacks_sel(3) [OF inj])
  have "\<not> alm_on ?k i" for i using a [of i] by (auto simp: alm_on_def k)
  then have "active ?k = active k" using a by (intro active_eqI) (simp_all add: k timed_def cyc_on_def)
  then have "registered (tm ?k) (active ?k)" using quiet_settled [OF q] by (simp add: k callbacks_sel(1) [OF inj])
  then show "quiet ?k" by (intro quiet_tables [OF q]) (simp_all add: k)
  have ex: "alm_exists ?k i \<Longrightarrow> i < ?n \<or> ?m \<le> i" for i by (auto simp: alm_exists_def k split: if_splits)
  have "\<not> alm_exists ?k i" if "i \<in> set (free_almcb ?k)" for i using that by (simp add: k alm_exists_def)
  moreover have "alm_nfyhdr (alminib ?k i) = NotifyHandler \<longrightarrow> (\<exists>j. alm_exinf (alminib ?k i) = AlmNfy j)"
    if "int i < tmax_almid k" "alm_exists ?k i" for i
    using ex [OF that(2)] that(1) s by (auto simp: k static_alm_def)
  moreover have "\<forall>i\<in>set (free_almcb ?k). ?n \<le> i \<and> int i < tmax_almid k" by (auto simp: k)
  moreover have "tmax_salmid ?k = tmax_salmid k" "distinct (free_almcb ?k)" by (simp_all add: k)
  ultimately show "alm_inv ?k" unfolding alm_inv_def t(1) by simp
qed


section \<open>The first state is good\<close>

lemma static_same:
  "same_objects KSem k k' \<Longrightarrow> static_sem k' = static_sem k" "same_objects KFlg k k' \<Longrightarrow> static_flg k' = static_flg k"
  "same_objects KDtq k k' \<Longrightarrow> static_dtq k' = static_dtq k" "same_objects KPdq k k' \<Longrightarrow> static_pdq k' = static_pdq k"
  "same_objects KMtx k k' \<Longrightarrow> static_mtx k' = static_mtx k" "same_objects KMpf k k' \<Longrightarrow> static_mpf k' = static_mpf k"
  "same_objects KCyc k k' \<Longrightarrow> static_cyc k' = static_cyc k" "same_objects KAlm k k' \<Longrightarrow> static_alm k' = static_alm k"
  by (simp_all add: same_objects_def static_sem_def static_flg_def static_dtq_def static_pdq_def static_mtx_def static_mpf_def
      static_cyc_def static_alm_def sem_exists_def flg_exists_def dtq_exists_def pdq_exists_def mtx_exists_def mpf_exists_def
      cyc_exists_def MTX_CEILING_def MTXPROTO_def)

lemma same_tables_alm: "same_tables k k' \<Longrightarrow> almcb k' = almcb k \<and> alminib k' = alminib k"
  by (auto simp: same_tables_def)

lemma quiet_inv_step:
  assumes "quiet k" "quiet k'" "same_objects K k k'" "kind_inv K k"
  shows "kind_inv K k'"
proof (cases "K = KMtx")
  case True
  have "p_lastmtx (task k' t) = None" "exists_task k' t \<longrightarrow> priority (task k' t) = bpriority (task k' t)" "queue_of k' w = []" for t w
    using assms(2) by (simp_all add: quiet_def)
  moreover have "owned k' t = {}" for t
  proof -
    have "holds k t [] \<or> (\<exists>x xs. holds k t (x # xs))" using assms(4) True by (metis kind_inv.simps(5) mtx_okD(2) list.exhaust)
    moreover have "p_lastmtx (task k t) = None" using assms(1) by (simp add: quiet_def)
    ultimately have "owned k t = {}" by (auto simp: holds_def)
    then show ?thesis using assms(3) True by (simp add: owned_def same_objects_def mtx_exists_def)
  qed
  moreover have "mtx_tables k'"
    using assms(3,4) True by (simp add: mtx_ok_def mtx_tables_def same_objects_def mtx_exists_def MTX_CEILING_def MTXPROTO_def)
  ultimately have "mtx_inv k'" unfolding mtx_ok_def by (auto simp: holds_def protocol_priority_def intro!: exI [of _ "[]"])
  then show ?thesis using True by simp
qed (use assms kind_inv_keeps keeps_quiet in blast)

lemma initialize_object_good:
  assumes b: "booted torder k" and c: "sense_context k" and p: "p_last (tm k) = 0"
  shows "quiet (initialize_object torder k) \<and> good (initialize_object torder k)"
proof -
  define k1 where "k1 = initialize_task torder k"
  define k2 where "k2 = initialize_semaphore k1"
  define k3 where "k3 = initialize_eventflag k2"
  define k4 where "k4 = initialize_dataqueue k3"
  define k5 where "k5 = initialize_pridataq k4"
  define k6 where "k6 = initialize_mutex k5"
  define k7 where "k7 = initialize_mempfix k6"
  define k8 where "k8 = initialize_cyclic k7"
  define k9 where "k9 = initialize_alarm k8"
  note b' = b [unfolded booted_def]
  have z: "zeroed k" using b' by simp
  from initialize_task_quiet [OF _ z c p, of torder] b'
  have t1: "quiet k1" "same_tables k k1" by (simp_all add: k1_def)
  have o1: "same_objects K k k1" for K by (rule same_tables_objects [OF t1(2)])
  have q2: "quiet k2" and q3: "quiet k3" and q4: "quiet k4" and q5: "quiet k5" and q6: "quiet k6" and q7: "quiet k7"
    using init_tables_quiet(1-6) t1(1) unfolding k2_def k3_def k4_def k5_def k6_def k7_def by simp_all
  have o2: "K \<noteq> KSem \<Longrightarrow> same_objects K k1 k2" and o3: "K \<noteq> KFlg \<Longrightarrow> same_objects K k2 k3" and o4: "K \<noteq> KDtq \<Longrightarrow> same_objects K k3 k4"
    and o5: "K \<noteq> KPdq \<Longrightarrow> same_objects K k4 k5" and o6: "K \<noteq> KMtx \<Longrightarrow> same_objects K k5 k6" and o7: "K \<noteq> KMpf \<Longrightarrow> same_objects K k6 k7" for K
    using init_tables_quiet(7-12) [of _ K] t1(1) q2 q3 q4 q5 q6 unfolding k2_def k3_def k4_def k5_def k6_def k7_def by blast+
  note tr = same_objects_trans
  have to7: "same_objects K k k7" if "K \<in> {KCyc, KAlm}" for K
    using tr [OF tr [OF tr [OF tr [OF tr [OF tr [OF o1 o2] o3] o4] o5] o6] o7, of K] that by auto
  have "\<not> timed k7 t" for t using q7 by (simp add: quiet_def)
  moreover have "\<not> cyc_on k7 i" "\<not> alm_on k7 i" for i
    using z to7 [of KCyc] to7 [of KAlm] by (simp_all add: zeroed_def cyc_on_def alm_on_def same_objects_def)
  ultimately have a7: "active k7 = {}" by (intro active_eqI) simp_all
  have st: "static_sem k1" "static_flg k2" "static_dtq k3" "static_pdq k4" "static_mtx k5" "static_mpf k6" "static_cyc k7"
    using b' static_same(1) [OF o1] static_same(2) [OF tr [OF o1 o2]] static_same(3) [OF tr [OF tr [OF o1 o2] o3]]
      static_same(4) [OF tr [OF tr [OF tr [OF o1 o2] o3] o4]] static_same(5) [OF tr [OF tr [OF tr [OF tr [OF o1 o2] o3] o4] o5]]
      static_same(6) [OF tr [OF tr [OF tr [OF tr [OF tr [OF o1 o2] o3] o4] o5] o6]] static_same(7) [OF to7 [of KCyc]] by simp_all
  note c8 = init_cyclic_ok [OF q7 st(7) a7, folded k8_def]
  have st8: "static_alm k8" using b' static_same(8) [OF to7 [of KAlm]] static_same(8) [OF c8(3)] by simp
  have "\<not> alm_on k8 i" for i using c8(7) a7 by (metis empty_iff in_active(3))
  note c9 = init_alarm_ok [OF c8(1) st8 this, folded k9_def]
  have i: "kind_inv KSem k2" "kind_inv KFlg k3" "kind_inv KDtq k4" "kind_inv KPdq k5" "kind_inv KMtx k6" "kind_inv KMpf k7"
    "kind_inv KCyc k8" "kind_inv KAlm k9"
    using init_sem_inv [OF t1(1) st(1)] init_flg_inv [OF q2 st(2)] init_dtq_inv [OF q3 st(3)] init_pdq_inv [OF q4 st(4)]
      init_mtx_inv [OF q5 st(5)] init_mpf_inv [OF q6 st(6)] c8(2) c9(2)
    by (simp_all add: k2_def k3_def k4_def k5_def k6_def k7_def)
  note n = quiet_inv_step
  note s9 = n [OF c8(1) c9(1) c9(3)] and s8 = n [OF q7 c8(1) c8(3)] and s7 = n [OF q6 q7 o7] and s6 = n [OF q5 q6 o6] and s5 = n [OF q4 q5 o5]
    and s4 = n [OF q3 q4 o4] and s3 = n [OF q2 q3 o3]
  have "kind_inv K k9" for K
    by (cases K; simp only:; (intro i s9 s8 s7 s6 s5 s4 s3; simp)?)
  moreover have "cb_ok True k9"
  proof -
    have "excpt_ctx k9" "\<not> timed k9 t" for t using c9(1) by (simp_all add: quiet_def sense_context_def)
    moreover have "tmax_cycid k9 = tmax_cycid k7" using c8(6) c9(3) [of KCyc] by (simp add: same_objects_def)
    ultimately show ?thesis using c8(4) c9(4,5,6) by (simp add: cb_ok_def sense_context_def)
  qed
  moreover have "initialize_object torder k = k9"
    by (simp add: initialize_object_def Let_def k9_def k8_def k7_def k6_def k5_def k4_def k3_def k2_def k1_def)
  moreover have "settled k9" "sense_context k9" using c9(1) by (simp_all add: quiet_def)
  ultimately show ?thesis using c9(1) by (simp add: good_def)
qed


lemma booted_same:
  assumes "booted torder k" "ts k' = ts k" "tmax_tskid k' = tmax_tskid k" "tmax_stskid k' = tmax_stskid k" "\<And>K. same_objects K k k'"
  shows "booted torder k'"
proof -
  have "zeroed k' = zeroed k" "static_tsk torder k' = static_tsk torder k"
    using assms(2-4) assms(5) [of KCyc] assms(5) [of KAlm] by (simp_all add: zeroed_def static_tsk_def same_objects_def)
  then show ?thesis using assms(1) static_same [OF assms(5)] by (simp add: booted_def)
qed

text \<open>A change outside tasks, objects and timers.\<close>

lemma good_outside:
  assumes g: "good k" and "ts k' = ts k" "tm k' = tm k" "tmax_tskid k' = tmax_tskid k" "excpt_ctx k' = excpt_ctx k"
    and o: "\<And>K. same_objects K k k'"
  shows "good k'"
proof (rule good_plain [OF g])
  have a: "active k' = active k" using assms by (intro active_tables) simp_all
  show "settled k'"
    using consistentD(2) [OF settledD [OF goodD(1) [OF g]]] assms a by (intro settled_active [OF goodD(1) [OF g]]) simp_all
  show "cb_ok (sense_context k) k'"
    using assms(2-5) o [of KCyc] o [of KAlm] by (intro cb_same [OF goodD(2) [OF g]]) (simp_all add: same_objects_def)
  show "keeps K k k'" for K using assms by (simp add: keeps_def)
  show "prio_frame {} k k'" using assms by (intro prio_frame_same [OF prio_frame_refl]) simp_all
qed

lemma inirtns_write: "inirtns_ok rs \<Longrightarrow> \<exists>u. fold (\<lambda>r. r) rs k = k\<lparr>uvar := u\<rparr>"
proof (induction rs arbitrary: k)
  case Nil
  show ?case by (intro exI [of _ "uvar k"]) simp
next
  case (Cons r rs)
  have "\<exists>u. r k = k\<lparr>uvar := u\<rparr>" using Cons.prems by (simp add: inirtns_ok_def)
  then obtain u where "r k = k\<lparr>uvar := u\<rparr>" ..
  moreover have "inirtns_ok rs" using Cons.prems by (simp add: inirtns_ok_def)
  ultimately show ?case using Cons.IH [of "r k"] by auto
qed

lemma sta_ker_ok:
  assumes b: "booted torder k" and i: "inirtns_ok inirtns"
  shows "good (sta_ker torder inirtns k)" "\<not> sense_context (sta_ker torder inirtns k)" "kerflg (sta_ker torder inirtns k)"
    "\<not> sense_lock (sta_ker torder inirtns k)"
proof -
  define k1 where "k1 = map_tm initialize_tmevt (core_initialize k)"
  define k2 where "k2 = initialize_object torder k1"
  define k3 where "k3 = fold (\<lambda>r. r) inirtns k2"
  define k4 where "k4 = map_tm (\<lambda>m. let (hrtcnt, m) = target_hrt_get_current m in m\<lparr>current_hrtcnt := hrtcnt\<rparr>) k3"
  define k5 where "k5 = (map_tm set_hrt_event k4)\<lparr>kerflg := True\<rparr>"
  have so: "same_objects K k k1" for K by (cases K) (simp_all add: k1_def core_initialize_def same_objects_def map_tm_def)
  have "booted torder k1" by (rule booted_same [OF b]) (simp_all add: so, simp_all add: k1_def core_initialize_def map_tm_def)
  then have g2: "quiet k2 \<and> good k2" unfolding k2_def
    by (rule initialize_object_good) (simp_all add: k1_def core_initialize_def sense_context_def initialize_tmevt_def Let_def map_tm_def)
  obtain u where u: "k3 = k2\<lparr>uvar := u\<rparr>" using inirtns_write [OF i, of k2] by (auto simp: k3_def)
  have "same_objects K k2 k3" for K by (cases K) (simp_all add: u same_objects_def)
  then have g3: "good k3" by (intro good_outside [of k2 k3]) (simp_all add: g2, simp_all add: u)
  then have r3: "registered (tm k3) (active k3)" by (rule consistentD(2) [OF settledD [OF goodD(1)]])
  define m where "m = (snd (target_hrt_get_current (tm k3)))\<lparr>current_hrtcnt := fst (target_hrt_get_current (tm k3))\<rparr>"
  have m: "tmevtb_tab m = tmevtb_tab (tm k3)" "tmevt_heap m = tmevt_heap (tm k3)" "p_last m = p_last (tm k3)"
      "boundary_evttim m = boundary_evttim (tm k3)" "window_left m = window_left (tm k3)"
    by (simp_all add: m_def target_hrt_get_current_def)
  have "k4 = map_tm (\<lambda>_. m) k3" by (simp add: k4_def m_def map_tm_def case_prod_unfold Let_def)
  then have "good k4" using good_timer [OF g3] r3 registered_same [OF m] same_cb_tab [OF m(1)] by simp
  moreover from this have "registered (tm k4) (active k4)" by (rule consistentD(2) [OF settledD [OF goodD(1)]])
  ultimately have g5': "good (map_tm set_hrt_event k4)"
    using good_timer [of k4 "set_hrt_event (tm k4)"] by (simp add: map_tm_def)
  have "same_objects K (map_tm set_hrt_event k4) k5" for K by (cases K) (simp_all add: k5_def same_objects_def)
  then have g5: "good k5" using g5' by (intro good_outside [OF g5']) (simp_all add: k5_def)
  have "p_runtsk (ts k5) = None" using g2 by (simp add: k5_def k4_def u quiet_def)
  then have e: "sta_ker torder inirtns k = irq_exit k5"
    by (simp add: sta_ker_def Let_def start_dispatch_def irq_exit_def k5_def k4_def k3_def k2_def k1_def)
  then show "good (sta_ker torder inirtns k)" "\<not> sense_context (sta_ker torder inirtns k)" using irq_exit_good [OF g5] by simp_all
  show "kerflg (sta_ker torder inirtns k)" "\<not> sense_lock (sta_ker torder inirtns k)"
    by (simp_all add: sta_ker_def Let_def start_dispatch_def dispatch_def sense_lock_def unlock_cpu_def lock_cpu_def map_ts_def)
qed

end
