(* ===== verification/Gic.thy ===== *)
theory Gic
  imports Kernel
begin

unbundle bit_operations_syntax

text \<open>
  The interrupt controller: asp3\_dcre/arch/arm\_gcc/common/gic\_kernel\_impl.h and gic\_kernel\_impl.c, and \<open>config_int\<close> of
  arch/arm\_gcc/rza1/chip\_kernel\_impl.c. The registers pack the settings of many interrupts into one word. The theory
  shows that each operation changes the setting of one interrupt, and nothing else.
\<close>

section \<open>Registers\<close>

type_synonym INTNO = uint

text \<open>
  The memory-mapped registers that the kernel reads back. Writing to the pairs \<open>ISENABLER\<close>, \<open>ICENABLER\<close> and
  \<open>ISPENDR\<close>, \<open>ICPENDR\<close> sets and clears the bits that are 1 in the word written; \<open>GICD_SGIR\<close> is write-only, \<open>gicd_sgir\<close> lists
  what was written to it.
\<close>

record gic =
  gicd_enable :: "nat \<Rightarrow> uint"
  gicd_pend :: "nat \<Rightarrow> uint"
  gicd_ipriority :: "nat \<Rightarrow> uint"
  gicd_itargets :: "nat \<Rightarrow> uint"
  gicd_icfg :: "nat \<Rightarrow> uint"
  gicd_sgir :: "uint list"
  gicd_ctlr :: uint
  gicc_ctlr :: uint
  gicc_pmr :: uint
  gicc_bpr :: uint
  rza1_icr1 :: "16 word"

definition TNUM_INTNO :: uint where "TNUM_INTNO = 587"
definition GIC_INTNO_PPI0 :: uint where "GIC_INTNO_PPI0 = 16"
definition INTNO_IRQ0 :: uint where "INTNO_IRQ0 = 32"
definition INTNO_IRQ7 :: uint where "INTNO_IRQ7 = 39"
abbreviation TA_ENAINT :: ATR where "TA_ENAINT \<equiv> 1"
abbreviation TA_EDGE :: ATR where "TA_EDGE \<equiv> 2"

text \<open>Interrupt priorities: \<open>TMIN_INTPRI\<close> to \<open>TMAX_INTPRI\<close> outside, 32 levels of which 0 is the highest inside.\<close>

definition TMIN_INTPRI :: int where "TMIN_INTPRI = - 31"
definition TMAX_INTPRI :: int where "TMAX_INTPRI = - 1"
definition GIC_PRI_LEVEL :: int where "GIC_PRI_LEVEL = TMAX_INTPRI - TMIN_INTPRI + 2"

definition EXT_IPM :: "uint \<Rightarrow> int" where
  "EXT_IPM pri = sint (drop_bit 3 pri) - (GIC_PRI_LEVEL - 1)"

definition INT_IPM :: "int \<Rightarrow> uint" where
  "INT_IPM p = push_bit 3 (word_of_int (p + (GIC_PRI_LEVEL - 1)))"

section \<open>Operations\<close>

definition write_set :: "(nat \<Rightarrow> uint) \<Rightarrow> nat \<Rightarrow> uint \<Rightarrow> nat \<Rightarrow> uint" where
  "write_set r n v = r(n := r n OR v)"

definition write_clear :: "(nat \<Rightarrow> uint) \<Rightarrow> nat \<Rightarrow> uint \<Rightarrow> nat \<Rightarrow> uint" where
  "write_clear r n v = r(n := r n AND NOT v)"

text \<open>\<open>reg &= ~(msk << shift); reg |= (v << shift);\<close>\<close>

definition modify :: "uint \<Rightarrow> nat \<Rightarrow> uint \<Rightarrow> uint \<Rightarrow> uint" where
  "modify msk shift v reg = (reg AND NOT (push_bit shift msk)) OR push_bit shift v"

text \<open>\<open>1U << (intno % 32)\<close>\<close>

definition int_bit :: "INTNO \<Rightarrow> uint" where
  "int_bit intno = push_bit (unat (intno mod 32)) 1"

definition gicc_set_priority :: "uint \<Rightarrow> gic \<Rightarrow> gic" where
  "gicc_set_priority pri g = g\<lparr>gicc_pmr := pri\<rparr>"

definition gicc_get_priority :: "gic \<Rightarrow> uint" where
  "gicc_get_priority g = gicc_pmr g"

definition gicd_disable_int :: "INTNO \<Rightarrow> gic \<Rightarrow> gic" where
  "gicd_disable_int intno g =
     g\<lparr>gicd_enable := write_clear (gicd_enable g) (unat (intno div 32)) (int_bit intno)\<rparr>"

definition gicd_enable_int :: "INTNO \<Rightarrow> gic \<Rightarrow> gic" where
  "gicd_enable_int intno g =
     g\<lparr>gicd_enable := write_set (gicd_enable g) (unat (intno div 32)) (int_bit intno)\<rparr>"

definition gicd_clear_pending :: "INTNO \<Rightarrow> gic \<Rightarrow> gic" where
  "gicd_clear_pending intno g =
     g\<lparr>gicd_pend := write_clear (gicd_pend g) (unat (intno div 32)) (int_bit intno)\<rparr>"

definition gicd_set_pending :: "INTNO \<Rightarrow> gic \<Rightarrow> gic" where
  "gicd_set_pending intno g =
     g\<lparr>gicd_pend := write_set (gicd_pend g) (unat (intno div 32)) (int_bit intno)\<rparr>"

definition gicd_probe_pending :: "INTNO \<Rightarrow> gic \<Rightarrow> bool" where
  "gicd_probe_pending intno g \<longleftrightarrow> gicd_pend g (unat (intno div 32)) AND int_bit intno \<noteq> 0"

definition gicd_raise_sgi :: "INTNO \<Rightarrow> gic \<Rightarrow> gic" where
  "gicd_raise_sgi intno g = g\<lparr>gicd_sgir := gicd_sgir g @ [0x02000000 OR intno]\<rparr>"

definition gicd_config :: "INTNO \<Rightarrow> uint \<Rightarrow> gic \<Rightarrow> gic" where
  "gicd_config intno config g =
     (let shift = unat (intno mod 16) * 2; n = unat (intno div 16)
      in if intno \<ge> GIC_INTNO_PPI0 then g\<lparr>gicd_icfg := (gicd_icfg g)(n := modify 0x03 shift config (gicd_icfg g n))\<rparr> else g)"

definition gicd_set_priority :: "INTNO \<Rightarrow> uint \<Rightarrow> gic \<Rightarrow> gic" where
  "gicd_set_priority intno pri g =
     (let shift = unat (intno mod 4) * 8; n = unat (intno div 4)
      in g\<lparr>gicd_ipriority := (gicd_ipriority g)(n := modify 0xff shift pri (gicd_ipriority g n))\<rparr>)"

definition gicd_set_target :: "INTNO \<Rightarrow> uint \<Rightarrow> gic \<Rightarrow> gic" where
  "gicd_set_target intno affinity g =
     (let shift = unat (intno mod 4) * 8; n = unat (intno div 4)
      in g\<lparr>gicd_itargets := (gicd_itargets g)(n := modify 0xff shift affinity (gicd_itargets g n))\<rparr>)"

text \<open>What the initialisation writes; \<open>eoi\<close> of an active interrupt has no effect on the registers of the model.\<close>

definition gicc_initialize :: "gic \<Rightarrow> gic" where
  "gicc_initialize g =
     (let g1 = g\<lparr>gicc_ctlr := 0\<rparr>;
          g2 = gicc_set_priority (push_bit 3 (word_of_int (GIC_PRI_LEVEL - 1))) g1;
          g3 = g2\<lparr>gicc_bpr := 0\<rparr>
      in g3\<lparr>gicc_ctlr := 1\<rparr>)"

definition gicc_terminate :: "gic \<Rightarrow> gic" where "gicc_terminate g = g\<lparr>gicc_ctlr := 0\<rparr>"

definition gicd_initialize :: "gic \<Rightarrow> gic" where
  "gicd_initialize g =
     (let n32 = unat ((TNUM_INTNO + 31) div 32); n4 = unat ((TNUM_INTNO + 3) div 4); n16 = unat ((TNUM_INTNO + 15) div 16);
          g1 = g\<lparr>gicd_ctlr := 0\<rparr>;
          g2 = fold (\<lambda>i g. g\<lparr>gicd_enable := write_clear (gicd_enable g) i 0xffffffff\<rparr>) [0..<n32] g1;
          g3 = fold (\<lambda>i g. g\<lparr>gicd_pend := write_clear (gicd_pend g) i 0xffffffff\<rparr>) [0..<n32] g2;
          g4 = fold (\<lambda>i g. g\<lparr>gicd_ipriority := (gicd_ipriority g)(i := 0xffffffff)\<rparr>) [0..<n4] g3;
          g5 = fold (\<lambda>i g. g\<lparr>gicd_itargets := (gicd_itargets g)(i := 0x01010101)\<rparr>) [8..<n4] g4;
          g6 = fold (\<lambda>i g. g\<lparr>gicd_icfg := (gicd_icfg g)(i := 0x55555555)\<rparr>) [1..<n16] g5
      in g6\<lparr>gicd_ctlr := 1\<rparr>)"

definition gicd_terminate :: "gic \<Rightarrow> gic" where "gicd_terminate g = g\<lparr>gicd_ctlr := 0\<rparr>"

text \<open>The functions that the kernel calls.\<close>

definition VALID_INTNO :: "INTNO \<Rightarrow> bool" where "VALID_INTNO intno \<longleftrightarrow> 0 \<le> intno \<and> intno \<le> TNUM_INTNO - 1"
definition VALID_INTNO_DISINT :: "INTNO \<Rightarrow> bool" where
  "VALID_INTNO_DISINT intno \<longleftrightarrow> GIC_INTNO_PPI0 \<le> intno \<and> intno \<le> TNUM_INTNO - 1"
definition VALID_INTNO_CLRINT :: "INTNO \<Rightarrow> bool" where
  "VALID_INTNO_CLRINT intno \<longleftrightarrow> GIC_INTNO_PPI0 \<le> intno \<and> intno \<le> TNUM_INTNO - 1"

definition disable_int :: "INTNO \<Rightarrow> gic \<Rightarrow> gic" where "disable_int intno g = gicd_disable_int intno g"
definition enable_int :: "INTNO \<Rightarrow> gic \<Rightarrow> gic" where "enable_int intno g = gicd_enable_int intno g"
definition clear_int :: "INTNO \<Rightarrow> gic \<Rightarrow> gic" where "clear_int intno g = gicd_clear_pending intno g"
definition check_intno_clear :: "INTNO \<Rightarrow> bool" where "check_intno_clear intno \<longleftrightarrow> True"
definition check_intno_raise :: "INTNO \<Rightarrow> bool" where "check_intno_raise intno \<longleftrightarrow> True"
definition raise_int :: "INTNO \<Rightarrow> gic \<Rightarrow> gic" where
  "raise_int intno g = (if intno < GIC_INTNO_PPI0 then gicd_raise_sgi intno g else gicd_set_pending intno g)"
definition probe_int :: "INTNO \<Rightarrow> gic \<Rightarrow> bool" where "probe_int intno g = gicd_probe_pending intno g"

text \<open>The RZ/A1 defines \<open>GIC_ARM11MPCORE\<close>, so that the lower bit of a configuration field is always 1; its processor has the index 0.\<close>

definition config_int :: "INTNO \<Rightarrow> ATR \<Rightarrow> int \<Rightarrow> gic \<Rightarrow> gic" where
  "config_int intno intatr intpri g =
     (let g1 = disable_int intno g;
          g2 = (if INTNO_IRQ0 \<le> intno \<and> intno \<le> INTNO_IRQ7 then
                  let sh = unat ((intno - INTNO_IRQ0) * 2); reg = rza1_icr1 g1;
                      reg1 = reg AND ucast (NOT (push_bit sh 0x03 :: uint));
                      reg2 = reg1 OR ucast (push_bit sh (drop_bit 2 intatr))
                  in g1\<lparr>rza1_icr1 := reg2\<rparr>
                else g1);
          g3 = (if intatr AND TA_EDGE \<noteq> 0 then clear_int intno (gicd_config intno 3 g2) else gicd_config intno 1 g2);
          g4 = gicd_set_priority intno (INT_IPM intpri) g3;
          g5 = gicd_set_target intno 1 g4
      in if intatr AND TA_ENAINT \<noteq> 0 then enable_int intno g5 else g5)"

text \<open>An entry of \<open>intinib_table\<close> is an interrupt number, its attribute and its priority.\<close>

definition initialize_interrupt :: "(INTNO \<times> ATR \<times> int) list \<Rightarrow> gic \<Rightarrow> gic" where
  "initialize_interrupt intinib_table g = fold (\<lambda>(intno, intatr, intpri). config_int intno intatr intpri) intinib_table g"


section \<open>One interrupt among many\<close>

text \<open>What the registers say of one interrupt.\<close>

record int_setting =
  s_enabled :: bool
  s_pending :: bool
  s_priority :: uint
  s_target :: uint
  s_config :: uint

definition field :: "nat \<Rightarrow> (nat \<Rightarrow> uint) \<Rightarrow> INTNO \<Rightarrow> uint" where
  "field w r intno = take_bit w (drop_bit (unat intno mod (32 div w) * w) (r (unat intno div (32 div w))))"

definition flag :: "(nat \<Rightarrow> uint) \<Rightarrow> INTNO \<Rightarrow> bool" where
  "flag r intno \<longleftrightarrow> bit (r (unat intno div 32)) (unat intno mod 32)"

definition setting :: "gic \<Rightarrow> INTNO \<Rightarrow> int_setting" where
  "setting g intno =
     \<lparr>s_enabled = flag (gicd_enable g) intno, s_pending = flag (gicd_pend g) intno,
      s_priority = field 8 (gicd_ipriority g) intno, s_target = field 8 (gicd_itargets g) intno, s_config = field 2 (gicd_icfg g) intno\<rparr>"

lemma bit_modify:
  "bit (modify msk sh v r) n \<longleftrightarrow> n < 32 \<and> (bit r n \<and> \<not> (sh \<le> n \<and> bit msk (n - sh)) \<or> sh \<le> n \<and> bit v (n - sh))"
  by (auto simp: modify_def bit_simps)

lemma field_modify:
  assumes v: "take_bit w v = v" and w: "0 < w" "w dvd 32"
    and r': "r' = r(unat i div (32 div w) := modify (mask w) (unat i mod (32 div w) * w) v (r (unat i div (32 div w))))"
  shows "field w r' j = (if j = i then v else field w r j)"
proof (cases "unat j div (32 div w) = unat i div (32 div w)")
  case True
  let ?m = "32 div w" and ?n = "unat i div (32 div w)"
  let ?a = "unat i mod ?m" and ?b = "unat j mod ?m"
  have m: "?m * w = 32" using w by simp
  then have m0: "0 < ?m" by (metis gr0I mult_0 zero_neq_numeral)
  have "?b < ?m" using m0 by simp
  then have "?b * w + w \<le> ?m * w" by (metis Suc_leI add.commute mult_Suc mult_le_mono1)
  then have b: "?b * w + w \<le> 32" by (simp add: m)
  have ij: "?a = ?b \<longleftrightarrow> i = j" using True by (metis div_mult_mod_eq word_unat_eq_iff)
  have out: "n < ?a * w \<or> ?a * w + w \<le> n" if "?a \<noteq> ?b" "?b * w \<le> n" "n < ?b * w + w" for n
  proof (cases "?a < ?b")
    case True
    then have "?a * w + w \<le> ?b * w" by (metis Suc_leI add.commute mult_Suc mult_le_mono1)
    then show ?thesis using that by simp
  next
    case False
    then have "?b * w + w \<le> ?a * w" using that(1) by (metis Suc_leI add.commute linorder_neqE_nat mult_Suc mult_le_mono1)
    then show ?thesis using that by simp
  qed
  have v': "bit v x \<longrightarrow> x < w" for x using v by (metis bit_take_bit_iff)
  have "bit (field w r' j) n = bit (if j = i then v else field w r j) n" if "n < 32" for n
  proof (cases "n < w")
    case n: True
    have *: "bit (field w r' j) n \<longleftrightarrow> bit (r ?n) (?b * w + n) \<and> \<not> (?a * w \<le> ?b * w + n \<and> ?b * w + n < ?a * w + w) \<or>
        ?a * w \<le> ?b * w + n \<and> bit v (?b * w + n - ?a * w)"
      using n b by (auto simp: field_def r' True bit_modify bit_simps)
    show ?thesis
    proof (cases "i = j")
      case True
      then show ?thesis using * n ij by auto
    next
      case False
      have o: "?b * w + n < ?a * w \<or> ?a * w + w \<le> ?b * w + n" using out [of "?b * w + n"] n False ij by auto
      then have "\<not> bit v (?b * w + n - ?a * w) \<or> ?b * w + n < ?a * w" using v' [of "?b * w + n - ?a * w"] by auto
      then have "bit (field w r' j) n \<longleftrightarrow> bit (r ?n) (?b * w + n)" using * o by auto
      moreover have "bit (field w r j) n \<longleftrightarrow> bit (r ?n) (?b * w + n)" using n True by (simp add: field_def bit_simps)
      ultimately show ?thesis using False by simp
    qed
  qed (auto simp: field_def bit_simps dest: v' [rule_format])
  then show ?thesis by (intro bit_word_eqI) simp
next
  case False
  then show ?thesis by (auto simp: field_def r')
qed


text \<open>The registers with one bit for each interrupt.\<close>

lemma bit_int_bit: "bit (int_bit i) n \<longleftrightarrow> n = unat i mod 32"
proof -
  have m: "unat (i mod 32) = unat i mod 32" by (simp add: unat_mod)
  have "unat i mod 32 < 32" by simp
  then show ?thesis unfolding int_bit_def m bit_push_bit_iff bit_1_iff by auto
qed

lemma flag_write:
  "flag (write_set r (unat (i div 32)) (int_bit i)) j \<longleftrightarrow> j = i \<or> flag r j"
  "flag (write_clear r (unat (i div 32)) (int_bit i)) j \<longleftrightarrow> j \<noteq> i \<and> flag r j"
proof -
  have "unat j div 32 = unat i div 32 \<and> unat j mod 32 = unat i mod 32 \<longleftrightarrow> j = i" by (metis div_mult_mod_eq word_unat_eq_iff)
  then show "flag (write_set r (unat (i div 32)) (int_bit i)) j \<longleftrightarrow> j = i \<or> flag r j"
    "flag (write_clear r (unat (i div 32)) (int_bit i)) j \<longleftrightarrow> j \<noteq> i \<and> flag r j"
    by (auto simp: flag_def write_set_def write_clear_def unat_div bit_or_iff bit_and_iff bit_not_iff bit_int_bit)
qed

lemma setting_enable:
  "setting (gicd_enable_int i g) j = (setting g j)\<lparr>s_enabled := j = i \<or> s_enabled (setting g j)\<rparr>"
  "setting (gicd_disable_int i g) j = (setting g j)\<lparr>s_enabled := j \<noteq> i \<and> s_enabled (setting g j)\<rparr>"
  "setting (gicd_set_pending i g) j = (setting g j)\<lparr>s_pending := j = i \<or> s_pending (setting g j)\<rparr>"
  "setting (gicd_clear_pending i g) j = (setting g j)\<lparr>s_pending := j \<noteq> i \<and> s_pending (setting g j)\<rparr>"
  by (simp_all add: setting_def gicd_enable_int_def gicd_disable_int_def gicd_set_pending_def gicd_clear_pending_def flag_write)

lemma probe_setting: "gicd_probe_pending i g = s_pending (setting g i)"
proof -
  let ?r = "gicd_pend g (unat i div 32)"
  have "bit (?r AND int_bit i) n \<longleftrightarrow> n = unat i mod 32 \<and> bit ?r (unat i mod 32)" for n
    by (auto simp: bit_and_iff bit_int_bit)
  then have "?r AND int_bit i \<noteq> 0 \<longleftrightarrow> bit ?r (unat i mod 32)" by (metis bit_0_eq bit_eqI bot_apply bot_bool_def bit_word_eqI)
  then show ?thesis by (simp add: gicd_probe_pending_def setting_def flag_def unat_div)
qed

lemma setting_priority:
  assumes "take_bit 8 v = v"
  shows "setting (gicd_set_priority i v g) j = (if j = i then (setting g j)\<lparr>s_priority := v\<rparr> else setting g j)"
    "setting (gicd_set_target i v g) j = (if j = i then (setting g j)\<lparr>s_target := v\<rparr> else setting g j)"
  using field_modify [of 8 v _ "gicd_ipriority g" i j, OF assms _ _ refl] field_modify [of 8 v _ "gicd_itargets g" i j, OF assms _ _ refl]
  by (simp_all add: setting_def gicd_set_priority_def gicd_set_target_def Let_def unat_div unat_mod mask_eq_exp_minus_1)

lemma setting_config:
  assumes "take_bit 2 v = v"
  shows "setting (gicd_config i v g) j = (if j = i \<and> GIC_INTNO_PPI0 \<le> i then (setting g j)\<lparr>s_config := v\<rparr> else setting g j)"
  using field_modify [of 2 v _ "gicd_icfg g" i j, OF assms _ _ refl]
  by (cases "j = i") (simp_all add: setting_def gicd_config_def Let_def unat_div unat_mod mask_eq_exp_minus_1)


section \<open>The configuration of an interrupt line\<close>

lemma INT_IPM_bound:
  assumes "TMIN_INTPRI \<le> p" "p \<le> 0"
  shows "unat (INT_IPM p) = 8 * nat (p + 31)" "take_bit 8 (INT_IPM p) = INT_IPM p" "EXT_IPM (INT_IPM p) = p"
proof -
  have b: "nat (p + 31) < 32" "0 \<le> p + 31" using assms by (auto simp: TMIN_INTPRI_def)
  have e: "INT_IPM p = of_nat (8 * nat (p + 31))"
    using b by (simp add: INT_IPM_def GIC_PRI_LEVEL_def TMIN_INTPRI_def TMAX_INTPRI_def push_bit_eq_mult)
  then show u: "unat (INT_IPM p) = 8 * nat (p + 31)" unfolding e unat_of_nat using b by simp
  have "INT_IPM p < 2 ^ 8" using b by (simp add: word_less_nat_alt u)
  then have "INT_IPM p AND mask 8 = INT_IPM p" by (rule less_mask_eq)
  then show "take_bit 8 (INT_IPM p) = INT_IPM p" by (simp add: take_bit_eq_mask)
  have d: "unat (drop_bit 3 (INT_IPM p)) = nat (p + 31)" by (simp add: drop_bit_eq_div unat_div u)
  have ud: "uint (drop_bit 3 (INT_IPM p)) = int (unat (drop_bit 3 (INT_IPM p)))" by simp
  then have "uint (drop_bit 3 (INT_IPM p)) < 32" using b unfolding d by linarith
  then have "sint (drop_bit 3 (INT_IPM p)) = uint (drop_bit 3 (INT_IPM p))"
    by (simp add: sint_uint signed_take_bit_int_eq_self_iff) (rule order_trans [OF _ uint_ge_0], simp)
  then have "sint (drop_bit 3 (INT_IPM p)) = int (nat (p + 31))" by (simp only: ud d)
  then show "EXT_IPM (INT_IPM p) = p" using b by (simp add: EXT_IPM_def GIC_PRI_LEVEL_def TMIN_INTPRI_def TMAX_INTPRI_def)
qed

lemma setting_icr1 [simp]: "setting (g\<lparr>rza1_icr1 := x\<rparr>) j = setting g j"
  by (simp add: setting_def)

lemma config_int_setting:
  assumes p: "TMIN_INTPRI \<le> p" "p \<le> TMAX_INTPRI"
  shows "j \<noteq> i \<Longrightarrow> setting (config_int i atr p g) j = setting g j"
    "setting (config_int i atr p g) i =
       \<lparr>s_enabled = atr AND TA_ENAINT \<noteq> 0, s_pending = s_pending (setting g i) \<and> atr AND TA_EDGE = 0,
        s_priority = INT_IPM p, s_target = 1,
        s_config = (if GIC_INTNO_PPI0 \<le> i then if atr AND TA_EDGE \<noteq> 0 then 3 else 1 else s_config (setting g i))\<rparr>"
proof -
  have t: "take_bit 8 (INT_IPM p) = INT_IPM p" using INT_IPM_bound(2) p by (simp add: TMAX_INTPRI_def)
  note s = setting_enable setting_priority(1) [OF t] setting_priority(2) [of 1] setting_config [of 1] setting_config [of 3]
    disable_int_def enable_int_def clear_int_def
  show "j \<noteq> i \<Longrightarrow> setting (config_int i atr p g) j = setting g j"
    by (simp add: config_int_def Let_def s)
  show "setting (config_int i atr p g) i =
       \<lparr>s_enabled = atr AND TA_ENAINT \<noteq> 0, s_pending = s_pending (setting g i) \<and> atr AND TA_EDGE = 0,
        s_priority = INT_IPM p, s_target = 1,
        s_config = (if GIC_INTNO_PPI0 \<le> i then if atr AND TA_EDGE \<noteq> 0 then 3 else 1 else s_config (setting g i))\<rparr>"
    by (simp add: config_int_def Let_def s)
qed


text \<open>After the initialisation every line of the table is set as its last entry says, and the others are not touched.\<close>

lemma initialize_interrupt_others:
  "j \<notin> fst ` set L \<Longrightarrow> \<forall>(i, atr, p)\<in>set L. TMIN_INTPRI \<le> p \<and> p \<le> TMAX_INTPRI \<Longrightarrow>
   setting (initialize_interrupt L g) j = setting g j"
proof (induction L arbitrary: g)
  case (Cons x L)
  then show ?case using config_int_setting(1) by (cases x) (auto simp: initialize_interrupt_def)
qed (simp add: initialize_interrupt_def)

lemma initialize_interrupt_setting:
  "\<forall>(i, atr, p)\<in>set L. TMIN_INTPRI \<le> p \<and> p \<le> TMAX_INTPRI \<Longrightarrow> distinct (map fst L) \<Longrightarrow> (i, atr, p) \<in> set L \<Longrightarrow>
   setting (initialize_interrupt L g) i = setting (config_int i atr p g) i"
proof (induction L arbitrary: g)
  case (Cons x L)
  obtain i' atr' p' where x: "x = (i', atr', p')" by (cases x)
  have r: "TMIN_INTPRI \<le> p" "p \<le> TMAX_INTPRI" "TMIN_INTPRI \<le> p'" "p' \<le> TMAX_INTPRI" using Cons.prems(1,3) by (auto simp: x)
  have s: "initialize_interrupt (x # L) g = initialize_interrupt L (config_int i' atr' p' g)"
    by (simp add: initialize_interrupt_def x)
  show ?case
  proof (cases "(i, atr, p) = x")
    case True
    then have "i = i'" "atr = atr'" "p = p'" "i \<notin> fst ` set L" using Cons.prems(2) by (auto simp: x)
    then show ?thesis using initialize_interrupt_others [of i L] Cons.prems(1) by (simp add: s)
  next
    case False
    then have m: "(i, atr, p) \<in> set L" using Cons.prems(3) by auto
    then have "i \<noteq> i'" using Cons.prems(2) by (force simp: x)
    then have "setting (config_int i' atr' p' g) i = setting g i" by (rule config_int_setting(1) [OF r(3,4)])
    then have "setting (config_int i atr p (config_int i' atr' p' g)) i = setting (config_int i atr p g) i"
      by (simp add: config_int_setting(2) [OF r(1,2)])
    then show ?thesis using Cons.IH [OF _ _ m] Cons.prems(1,2) by (simp add: s)
  qed
qed simp


text \<open>The distributor starts with every line disabled, not pending, of lowest priority.\<close>

lemma fold_clear:
  "fold (\<lambda>i g. g\<lparr>gicd_enable := write_clear (gicd_enable g) i 0xffffffff\<rparr>) [0..<n] g =
     g\<lparr>gicd_enable := (\<lambda>i. if i < n then 0 else gicd_enable g i)\<rparr>"
  "fold (\<lambda>i g. g\<lparr>gicd_pend := write_clear (gicd_pend g) i 0xffffffff\<rparr>) [0..<n] g =
     g\<lparr>gicd_pend := (\<lambda>i. if i < n then 0 else gicd_pend g i)\<rparr>"
  "fold (\<lambda>i g. g\<lparr>gicd_ipriority := (gicd_ipriority g)(i := 0xffffffff)\<rparr>) [0..<n] g =
     g\<lparr>gicd_ipriority := (\<lambda>i. if i < n then 0xffffffff else gicd_ipriority g i)\<rparr>"
proof -
  have "(0xffffffff :: uint) = - 1" by simp
  then have "NOT (0xffffffff :: uint) = 0" by (simp only:) simp
  then have z: "(w :: uint) AND NOT 0xffffffff = 0" for w by (simp only: and_zero_eq)
  have z: "write_clear r i 0xffffffff = r(i := 0)" for r i by (simp only: write_clear_def z)
  show "fold (\<lambda>i g. g\<lparr>gicd_enable := write_clear (gicd_enable g) i 0xffffffff\<rparr>) [0..<n] g =
      g\<lparr>gicd_enable := (\<lambda>i. if i < n then 0 else gicd_enable g i)\<rparr>"
    "fold (\<lambda>i g. g\<lparr>gicd_pend := write_clear (gicd_pend g) i 0xffffffff\<rparr>) [0..<n] g =
      g\<lparr>gicd_pend := (\<lambda>i. if i < n then 0 else gicd_pend g i)\<rparr>"
    "fold (\<lambda>i g. g\<lparr>gicd_ipriority := (gicd_ipriority g)(i := 0xffffffff)\<rparr>) [0..<n] g =
      g\<lparr>gicd_ipriority := (\<lambda>i. if i < n then 0xffffffff else gicd_ipriority g i)\<rparr>"
    by (induction n) (auto simp: z less_Suc_eq fun_eq_iff)
qed

lemma fold_frame:
  "(\<And>i g. P (f i g) = P g) \<Longrightarrow> P (fold f xs g) = P g"
  by (induction xs arbitrary: g) simp_all

lemma gicd_initialize_setting:
  assumes "i < TNUM_INTNO"
  shows "\<not> s_enabled (setting (gicd_initialize g) i)" "\<not> s_pending (setting (gicd_initialize g) i)"
    "s_priority (setting (gicd_initialize g) i) = 0xff"
proof -
  have i: "unat i div 32 < 19" "unat i div 4 < 147" using assms by (simp_all add: TNUM_INTNO_def word_less_nat_alt)
  let ?t = "\<lambda>i g. g\<lparr>gicd_itargets := (gicd_itargets g)(i := 0x01010101)\<rparr>" and ?c = "\<lambda>i g. g\<lparr>gicd_icfg := (gicd_icfg g)(i := 0x55555555)\<rparr>"
  have fr: "gicd_enable (fold ?t xs g) = gicd_enable g" "gicd_pend (fold ?t xs g) = gicd_pend g" "gicd_ipriority (fold ?t xs g) = gicd_ipriority g"
      "gicd_enable (fold ?c xs g) = gicd_enable g" "gicd_pend (fold ?c xs g) = gicd_pend g" "gicd_ipriority (fold ?c xs g) = gicd_ipriority g" for xs g
    by (rule fold_frame; simp)+
  have sel: "gicd_enable (g\<lparr>gicd_ctlr := x\<rparr>) = gicd_enable g" "gicd_pend (g\<lparr>gicd_ctlr := x\<rparr>) = gicd_pend g"
      "gicd_ipriority (g\<lparr>gicd_ctlr := x\<rparr>) = gicd_ipriority g" "gicd_enable (g\<lparr>gicd_enable := e\<rparr>) = e"
      "gicd_enable (g\<lparr>gicd_pend := e\<rparr>) = gicd_enable g" "gicd_enable (g\<lparr>gicd_ipriority := e\<rparr>) = gicd_enable g"
      "gicd_pend (g\<lparr>gicd_pend := e\<rparr>) = e" "gicd_pend (g\<lparr>gicd_ipriority := e\<rparr>) = gicd_pend g"
      "gicd_ipriority (g\<lparr>gicd_ipriority := e\<rparr>) = e" for g x e
    by simp_all
  have n: "unat ((TNUM_INTNO + 31) div 32) = 19" "unat ((TNUM_INTNO + 3) div 4) = 147" by (simp_all add: TNUM_INTNO_def unat_div)
  have r: "gicd_enable (gicd_initialize g) (unat i div 32) = 0" "gicd_pend (gicd_initialize g) (unat i div 32) = 0"
    "gicd_ipriority (gicd_initialize g) (unat i div 4) = 0xffffffff"
    using i by (simp_all only: gicd_initialize_def Let_def fold_clear fr n sel if_True)
  show "\<not> s_enabled (setting (gicd_initialize g) i)" "\<not> s_pending (setting (gicd_initialize g) i)"
    by (simp_all add: setting_def flag_def r)
  have "unat i mod 4 < 4" by simp
  then have "unat i mod 4 \<in> {0, 1, 2, 3}" by auto
  then have "take_bit 8 (drop_bit (unat i mod 4 * 8) (0xffffffff :: uint)) = 0xff" by auto
  then show "s_priority (setting (gicd_initialize g) i) = 0xff" by (simp add: setting_def field_def r)
qed

end
