(* ===== verification/Interrupt.thy ===== *)
theory Interrupt
  imports Startup Gic
begin

unbundle bit_operations_syntax

text \<open>
  Interrupt management, asp3\_dcre/kernel/interrupt.c: interrupt service routines (ISR) in the queues of their
  interrupt lines, and the service calls that mask, request and probe a line. The state is the kernel together with
  the interrupt controller and the tables of ISRs. \<open>chg_ipm\<close> and \<open>get_ipm\<close> are in \<open>SysManage\<close>.
\<close>

section \<open>State\<close>

text \<open>A queue of ISRs is its index in \<open>isr_queue_table\<close>; \<open>isr_queue_list\<close> gives the queue of an interrupt number.\<close>

record isrinib =
  isratr :: ATR
  isr_exinf :: intptr_t
  isr_queue_no :: nat
  isr :: addr
  isrpri :: int

record intsys =
  ker :: kernel
  intc :: gic
  intcfg_table :: "INTNO \<Rightarrow> bool"
  isr_queue_list :: "(INTNO \<times> nat) list"
  tmax_isrid :: int
  tmax_sisrid :: int
  isrinib :: "nat \<Rightarrow> isrinib"
  isr_queue :: "nat \<Rightarrow> nat list"
  free_isrcb :: "nat list"

definition map_ker :: "(kernel \<Rightarrow> kernel) \<Rightarrow> intsys \<Rightarrow> intsys" where
  "map_ker f s = s\<lparr>ker := f (ker s)\<rparr>"

definition isr_exists :: "intsys \<Rightarrow> nat \<Rightarrow> bool" where
  "isr_exists s i \<longleftrightarrow> isratr (isrinib s i) \<noteq> TA_NOEXS"

section \<open>Queues of service routines\<close>

definition enqueue_isr :: "nat \<Rightarrow> nat \<Rightarrow> intsys \<Rightarrow> intsys" where
  "enqueue_isr q i s =
     (let pri = isrpri (isrinib s i)
      in s\<lparr>isr_queue := (isr_queue s)(q := lq_insert_before (\<lambda>j. pri < isrpri (isrinib s j)) i (isr_queue s q))\<rparr>)"

definition initialize_isr :: "(nat \<Rightarrow> int) \<Rightarrow> intsys \<Rightarrow> intsys" where
  "initialize_isr isrorder_table s =
     (let n = nat (tmax_sisrid s); m = nat (tmax_isrid s);
          s1 = s\<lparr>isr_queue := (\<lambda>q. if q < length (isr_queue_list s) then [] else isr_queue s q)\<rparr>;
          s2 = fold (\<lambda>i s. let j = INDEX (isrorder_table i) in enqueue_isr (isr_queue_no (isrinib s j)) j s) [0..<n] s1
      in s2\<lparr>isrinib := (\<lambda>i. if n \<le> i \<and> i < m then (isrinib s2 i)\<lparr>isratr := TA_NOEXS\<rparr> else isrinib s2 i),
            free_isrcb := [n..<m]\<rparr>)"

text \<open>
  \<open>ui\<close> are the routines of the application: address, argument, and what they do to the kernel. Only a task can create
  or delete an ISR, so the queue does not change on the way.
\<close>

primrec call_isr_loop :: "(addr \<Rightarrow> intptr_t \<Rightarrow> kernel \<Rightarrow> kernel) \<Rightarrow> (nat \<Rightarrow> isrinib) \<Rightarrow> nat list \<Rightarrow> kernel \<Rightarrow> kernel" where
  "call_isr_loop ui ini [] k = k"
| "call_isr_loop ui ini (i # is) k =
     (let k1 = ui (isr (ini i)) (isr_exinf (ini i)) k
      in call_isr_loop ui ini is (if is \<noteq> [] then if sense_lock k1 then unlock_cpu k1 else k1 else k1))"

definition call_isr :: "(addr \<Rightarrow> intptr_t \<Rightarrow> kernel \<Rightarrow> kernel) \<Rightarrow> nat \<Rightarrow> intsys \<Rightarrow> intsys" where
  "call_isr ui q s = map_ker (call_isr_loop ui (isrinib s) (isr_queue s q)) s"

text \<open>The binary search for the queue of an interrupt number. The indexes are of type \<open>int_t\<close>.\<close>

function search_loop :: "(INTNO \<times> nat) list \<Rightarrow> INTNO \<Rightarrow> int \<Rightarrow> int \<Rightarrow> int" where
  "search_loop L intno left right =
     (if left < right then
        let i = (left + right + 1) div 2
        in if intno < fst (L ! nat i) then search_loop L intno left (i - 1) else search_loop L intno i right
      else left)"
  by pat_completeness auto
termination by (relation "measure (\<lambda>(L, intno, left, right). nat (right - left))") auto

declare search_loop.simps [simp del]

definition search_isr_queue :: "(INTNO \<times> nat) list \<Rightarrow> INTNO \<Rightarrow> nat option" where
  "search_isr_queue L intno =
     (if length L = 0 then None
      else let left = search_loop L intno 0 (int (length L) - 1)
           in if fst (L ! nat left) = intno then Some (snd (L ! nat left)) else None)"

section \<open>Service calls\<close>

definition VALID_ISRPRI :: "int \<Rightarrow> bool" where "VALID_ISRPRI p \<longleftrightarrow> 1 \<le> p \<and> p \<le> 16"

definition acre_isr :: "bool \<Rightarrow> ATR \<Rightarrow> INTNO \<Rightarrow> addr \<Rightarrow> int \<Rightarrow> intptr_t \<Rightarrow> intsys \<Rightarrow> svc \<times> intsys" where
  "acre_isr thumb atr intno routine pri exi s =
     (if ctx_error (ker s) then (Ret E_CTX, s)
      else if atr AND NOT 0 \<noteq> 0 then (Ret E_RSATR, s)
      else if \<not> VALID_INTNO intno then (Ret E_PAR, s)
      else if \<not> (thumb \<or> ALIGNED routine 4) then (Ret E_PAR, s)
      else if routine = 0 then (Ret E_PAR, s)
      else if \<not> VALID_ISRPRI pri then (Ret E_PAR, s)
      else case search_isr_queue (isr_queue_list s) intno of
             None \<Rightarrow> (Ret E_OBJ, s)
           | Some q \<Rightarrow>
               let s1 = map_ker lock_cpu s
               in if tmax_isrid s1 = 0 \<or> free_isrcb s1 = [] then (Ret E_NOID, map_ker unlock_cpu s1)
                  else let i = hd (free_isrcb s1);
                           s2 = s1\<lparr>free_isrcb := tl (free_isrcb s1),
                                   isrinib := (isrinib s1)(i := \<lparr>isratr = atr, isr_exinf = exi, isr_queue_no = q, isr = routine, isrpri = pri\<rparr>)\<rparr>;
                           s3 = enqueue_isr q i s2
                       in (RetUint (OBJID i), map_ker unlock_cpu s3))"

definition del_isr :: "int \<Rightarrow> intsys \<Rightarrow> svc \<times> intsys" where
  "del_isr isrid s =
     (if ctx_error (ker s) then (Ret E_CTX, s)
      else if \<not> VALID_ID (tmax_isrid s) isrid then (Ret E_ID, s)
      else let i = INDEX isrid; s1 = map_ker lock_cpu s
           in if \<not> isr_exists s1 i then (Ret E_NOEXS, map_ker unlock_cpu s1)
              else if isrid \<le> tmax_sisrid s1 then (Ret E_OBJ, map_ker unlock_cpu s1)
              else let s2 = s1\<lparr>isr_queue := lq_delete i (isr_queue s1)\<rparr>;
                       s3 = s2\<lparr>isrinib := (isrinib s2)(i := (isrinib s2 i)\<lparr>isratr := TA_NOEXS\<rparr>),
                               free_isrcb := free_isrcb s2 @ [i]\<rparr>
                   in (Ret E_OK, map_ker unlock_cpu s3))"

text \<open>
  The calls on a line take the CPU lock unless the caller holds it, and give it back as it was.
\<close>

definition with_lock :: "(intsys \<Rightarrow> svc \<times> intsys) \<Rightarrow> intsys \<Rightarrow> svc \<times> intsys" where
  "with_lock f s =
     (let locked = sense_lock (ker s);
          s1 = (if \<not> locked then map_ker lock_cpu s else s);
          (r, s2) = f s1
      in (r, if \<not> locked then map_ker unlock_cpu s2 else s2))"

definition check_intno_cfg :: "INTNO \<Rightarrow> intsys \<Rightarrow> bool" where
  "check_intno_cfg intno s \<longleftrightarrow> intcfg_table s intno"

definition dis_int :: "INTNO \<Rightarrow> intsys \<Rightarrow> svc \<times> intsys" where
  "dis_int intno s =
     (if \<not> VALID_INTNO_DISINT intno then (Ret E_PAR, s)
      else with_lock (\<lambda>s. if check_intno_cfg intno s then (Ret E_OK, s\<lparr>intc := disable_int intno (intc s)\<rparr>) else (Ret E_OBJ, s)) s)"

definition ena_int :: "INTNO \<Rightarrow> intsys \<Rightarrow> svc \<times> intsys" where
  "ena_int intno s =
     (if \<not> VALID_INTNO_DISINT intno then (Ret E_PAR, s)
      else with_lock (\<lambda>s. if check_intno_cfg intno s then (Ret E_OK, s\<lparr>intc := enable_int intno (intc s)\<rparr>) else (Ret E_OBJ, s)) s)"

definition clr_int :: "INTNO \<Rightarrow> intsys \<Rightarrow> svc \<times> intsys" where
  "clr_int intno s =
     (if \<not> VALID_INTNO_CLRINT intno then (Ret E_PAR, s)
      else with_lock (\<lambda>s. if check_intno_cfg intno s \<and> check_intno_clear intno then (Ret E_OK, s\<lparr>intc := clear_int intno (intc s)\<rparr>)
                          else (Ret E_OBJ, s)) s)"

definition ras_int :: "INTNO \<Rightarrow> intsys \<Rightarrow> svc \<times> intsys" where
  "ras_int intno s =
     (if \<not> VALID_INTNO intno then (Ret E_PAR, s)
      else with_lock (\<lambda>s. if check_intno_cfg intno s \<and> check_intno_raise intno then (Ret E_OK, s\<lparr>intc := raise_int intno (intc s)\<rparr>)
                          else (Ret E_OBJ, s)) s)"

definition prb_int :: "INTNO \<Rightarrow> intsys \<Rightarrow> svc \<times> intsys" where
  "prb_int intno s =
     (if \<not> VALID_INTNO intno then (Ret E_PAR, s)
      else with_lock (\<lambda>s. if check_intno_cfg intno s then (RetUint (of_bool (probe_int intno (intc s))), s) else (Ret E_OBJ, s)) s)"


section \<open>The binary search\<close>

lemma search_loop_range:
  assumes st: "sorted_wrt (<) (map fst L)"
  shows "0 \<le> left \<Longrightarrow> left \<le> right \<Longrightarrow> right < int (length L) \<Longrightarrow>
    (j < length L \<Longrightarrow> fst (L ! j) = intno \<Longrightarrow> left \<le> int j \<and> int j \<le> right) \<Longrightarrow>
    left \<le> search_loop L intno left right \<and> search_loop L intno left right \<le> right \<and>
    (j < length L \<longrightarrow> fst (L ! j) = intno \<longrightarrow> int j = search_loop L intno left right)"
  using st
proof (induction L intno left right rule: search_loop.induct)
  case (1 L intno left right)
  show ?case
  proof (cases "left < right")
    case True
    define i where "i = (left + right + 1) div 2"
    have i: "left < i" "i \<le> right" "i - 1 \<ge> left" using True by (simp_all add: i_def)
    have mono: "a < b \<Longrightarrow> b < length L \<Longrightarrow> fst (L ! a) < fst (L ! b)" for a b
      using "1.prems"(5) by (auto simp: sorted_wrt_iff_nth_less)
    show ?thesis
    proof (cases "intno < fst (L ! nat i)")
      case less: True
      have "int j \<le> i - 1" if "j < length L" "fst (L ! j) = intno"
      proof (rule ccontr)
        assume "\<not> int j \<le> i - 1"
        then have "nat i = j \<or> nat i < j" by linarith
        then show False using mono [of "nat i" j] less that by auto
      qed
      then have "left \<le> search_loop L intno left (i - 1) \<and> search_loop L intno left (i - 1) \<le> i - 1 \<and>
          (j < length L \<longrightarrow> fst (L ! j) = intno \<longrightarrow> int j = search_loop L intno left (i - 1))"
        using "1.prems" i by (intro "1.IH"(1) [OF True i_def less]) auto
      then show ?thesis using True less i by (simp add: search_loop.simps [of L intno left right] Let_def i_def [symmetric])
    next
      case False
      have "i \<le> int j" if "j < length L" "fst (L ! j) = intno"
      proof (rule ccontr)
        assume "\<not> i \<le> int j"
        then have "j < nat i" "nat i < length L" using i "1.prems" by linarith+
        then show False using mono [of j "nat i"] False that by simp
      qed
      then have "i \<le> search_loop L intno i right \<and> search_loop L intno i right \<le> right \<and>
          (j < length L \<longrightarrow> fst (L ! j) = intno \<longrightarrow> int j = search_loop L intno i right)"
        using "1.prems" i by (intro "1.IH"(2) [OF True i_def False]) auto
      then show ?thesis using True False i by (simp add: search_loop.simps [of L intno left right] Let_def i_def [symmetric])
    qed
  next
    case False
    then have "search_loop L intno left right = left" by (subst search_loop.simps) simp
    then show ?thesis using "1.prems" False by auto
  qed
qed

lemma search_isr_queue_map_of:
  assumes "sorted_wrt (<) (map fst L)" shows "search_isr_queue L intno = map_of L intno"
proof (cases "L = []")
  case False
  let ?l = "search_loop L intno 0 (int (length L) - 1)"
  note r = search_loop_range [OF assms, of 0 "int (length L) - 1" _ intno, simplified]
  have l: "nat ?l < length L" using r [of 0] False by (cases L) auto
  have d: "distinct (map fst L)" using assms strict_sorted_iff by blast
  have p: "L ! nat ?l = (fst (L ! nat ?l), snd (L ! nat ?l))" by simp
  show ?thesis
  proof (cases "fst (L ! nat ?l) = intno")
    case True
    then have "(intno, snd (L ! nat ?l)) \<in> set L" using nth_mem [OF l] p by simp
    then show ?thesis using True False d by (simp add: search_isr_queue_def Let_def)
  next
    case ne: False
    have "intno \<notin> fst ` set L"
    proof
      assume "intno \<in> fst ` set L"
      then obtain j where j: "j < length L" "fst (L ! j) = intno" by (auto simp: in_set_conv_nth)
      then have "int j = ?l" using r [of j] False by (cases L) auto
      then show False using ne j by (metis nat_int)
    qed
    then have "map_of L intno = None" by (simp add: map_of_eq_None_iff)
    then show ?thesis using ne False by (simp add: search_isr_queue_def Let_def)
  qed
qed (simp add: search_isr_queue_def)


section \<open>The queues\<close>

text \<open>
  Every service routine is in the queue it was created for and in no other; the queues are ordered by priority, and
  the unused blocks are those in the free list.
\<close>

definition isr_inv :: "intsys \<Rightarrow> bool" where
  "isr_inv s \<longleftrightarrow> (\<forall>q. distinct (isr_queue s q) \<and> sorted (map (\<lambda>i. isrpri (isrinib s i)) (isr_queue s q))) \<and>
     (\<forall>q i. i \<in> set (isr_queue s q) \<longleftrightarrow> isr_exists s i \<and> isr_queue_no (isrinib s i) = q) \<and>
     distinct (free_isrcb s) \<and> (\<forall>i\<in>set (free_isrcb s). \<not> isr_exists s i)"

lemma isr_inv_ker [simp]: "isr_inv (map_ker f s) = isr_inv s"
  by (simp add: isr_inv_def map_ker_def isr_exists_def)

lemma map_ker_sel [simp]:
  "isrinib (map_ker f s) = isrinib s" "free_isrcb (map_ker f s) = free_isrcb s" "isr_queue (map_ker f s) = isr_queue s"
  "tmax_isrid (map_ker f s) = tmax_isrid s" "tmax_sisrid (map_ker f s) = tmax_sisrid s" "isr_exists (map_ker f s) = isr_exists s"
  "ker (map_ker f s) = f (ker s)" "isr_queue_list (map_ker f s) = isr_queue_list s" "intc (map_ker f s) = intc s"
  "intcfg_table (map_ker f s) = intcfg_table s"
  by (simp_all add: map_ker_def isr_exists_def fun_eq_iff)

lemma sorted_insert_pri:
  fixes f :: "nat \<Rightarrow> int"
  assumes "sorted (map f xs)" shows "sorted (map f (lq_insert_before (\<lambda>j. f i < f j) i xs))"
  using assms by (induction xs) (auto simp: not_less)

lemma new_isr_inv:
  assumes v: "isr_inv s" and f: "free_isrcb s = i # fs" and a: "atr \<noteq> TA_NOEXS"
  shows "isr_inv (enqueue_isr q i (s\<lparr>free_isrcb := fs,
    isrinib := (isrinib s)(i := \<lparr>isratr = atr, isr_exinf = exi, isr_queue_no = q, isr = routine, isrpri = pri\<rparr>)\<rparr>))"
    (is "isr_inv ?s")
proof -
  let ?ini = "(isrinib s)(i := \<lparr>isratr = atr, isr_exinf = exi, isr_queue_no = q, isr = routine, isrpri = pri\<rparr>)"
  have ni: "\<not> isr_exists s i" "i \<notin> set fs" "distinct fs" using v f by (auto simp: isr_inv_def)
  have q: "i \<notin> set (isr_queue s p)" for p using v ni(1) by (auto simp: isr_inv_def)
  have srt: "sorted (map (\<lambda>j. isrpri (?ini j)) (isr_queue s p))" for p
  proof -
    have "map (\<lambda>j. isrpri (?ini j)) (isr_queue s p) = map (\<lambda>j. isrpri (isrinib s j)) (isr_queue s p)" using q [of p] by auto
    moreover have "sorted (map (\<lambda>j. isrpri (isrinib s j)) (isr_queue s p))" using v by (simp add: isr_inv_def)
    ultimately show ?thesis by (simp only:)
  qed
  have sel: "isrinib ?s = ?ini" "free_isrcb ?s = fs"
    "isr_queue ?s = (isr_queue s)(q := lq_insert_before (\<lambda>j. isrpri (?ini i) < isrpri (?ini j)) i (isr_queue s q))"
    by (simp_all add: enqueue_isr_def Let_def)
  have e: "isr_exists ?s j \<longleftrightarrow> j = i \<or> isr_exists s j" for j using a by (simp add: isr_exists_def sel(1))
  have "sorted (map (\<lambda>j. isrpri (?ini j)) (isr_queue ?s p))" for p
    using srt [of p] sorted_insert_pri [OF srt [of q], of i] by (simp only: sel(3)) simp
  moreover have "distinct (isr_queue ?s p)" for p using v q by (simp add: sel(3) isr_inv_def)
  moreover have "j \<in> set (isr_queue ?s p) \<longleftrightarrow> isr_exists ?s j \<and> isr_queue_no (isrinib ?s j) = p" for j p
    using v q [of p] by (cases "j = i") (auto simp: e sel isr_inv_def)
  moreover have "\<forall>j\<in>set fs. \<not> isr_exists ?s j" using v f ni(2) by (auto simp: e isr_inv_def)
  ultimately show ?thesis using ni(3) unfolding isr_inv_def sel(1,2) by blast
qed

lemma acre_isr_inv: "isr_inv s \<Longrightarrow> isr_inv (snd (acre_isr thumb atr intno routine pri exi s))"
proof -
  assume v: "isr_inv s"
  have "isr_inv (enqueue_isr q (hd (free_isrcb s)) (s'\<lparr>free_isrcb := tl (free_isrcb s),
      isrinib := (isrinib s)(hd (free_isrcb s) := \<lparr>isratr = atr, isr_exinf = exi, isr_queue_no = q, isr = routine, isrpri = pri\<rparr>)\<rparr>))"
    if "free_isrcb s \<noteq> []" "atr = 0" "s' = map_ker lock_cpu s" for q s'
    using new_isr_inv [of s' "hd (free_isrcb s)" "tl (free_isrcb s)"] that v by simp
  then show ?thesis using v by (auto simp: acre_isr_def Let_def split: option.split)
qed

lemma del_isr_inv: "isr_inv s \<Longrightarrow> isr_inv (snd (del_isr isrid s))"
proof -
  assume v: "isr_inv s"
  have "isr_inv (s'\<lparr>isr_queue := lq_delete i (isr_queue s'), isrinib := (isrinib s')(i := (isrinib s' i)\<lparr>isratr := TA_NOEXS\<rparr>),
      free_isrcb := free_isrcb s' @ [i]\<rparr>)" (is "isr_inv ?s") if "isr_inv s'" "isr_exists s' i" for s' i
  proof -
    have sel: "isr_queue ?s q = remove1 i (isr_queue s' q)" "free_isrcb ?s = free_isrcb s' @ [i]"
      "isrinib ?s j = (if j = i then (isrinib s' i)\<lparr>isratr := TA_NOEXS\<rparr> else isrinib s' j)" for q j
      by (simp_all add: lq_delete_def)
    have d: "distinct (isr_queue s' q)" "sorted (map (\<lambda>i. isrpri (isrinib s' i)) (isr_queue s' q))" for q
      using that(1) by (simp_all add: isr_inv_def)
    have "map (\<lambda>j. isrpri (isrinib ?s j)) xs = map (\<lambda>j. isrpri (isrinib s' j)) xs" for xs by simp
    then have "sorted (map (\<lambda>j. isrpri (isrinib ?s j)) (isr_queue ?s q))" for q
      using d(2) [of q] by (simp only: sel(1)) (simp add: sorted_map_remove1)
    moreover have "j \<in> set (isr_queue ?s q) \<longleftrightarrow> isr_exists ?s j \<and> isr_queue_no (isrinib ?s j) = q" for j q
      using that(1) d(1) [of q] by (auto simp: isr_exists_def isr_inv_def lq_delete_def)
    moreover have "distinct (free_isrcb ?s) \<and> (\<forall>j\<in>set (free_isrcb ?s). \<not> isr_exists ?s j)"
      using that by (auto simp: isr_inv_def isr_exists_def)
    ultimately show ?thesis using d(1) unfolding isr_inv_def by (simp only: sel(1) distinct_remove1) blast
  qed
  from this [of "map_ker lock_cpu s" "INDEX isrid"] show ?thesis using v by (auto simp: del_isr_def Let_def)
qed


text \<open>The initialisation: the static routines are created in the order of \<open>isrorder_table\<close>.\<close>

definition static_isr :: "(nat \<Rightarrow> int) \<Rightarrow> intsys \<Rightarrow> bool" where
  "static_isr isrorder_table s \<longleftrightarrow> (\<forall>i<nat (tmax_sisrid s). isr_exists s i \<and> isr_queue_no (isrinib s i) < length (isr_queue_list s)) \<and>
     (INDEX \<circ> isrorder_table) ` {0..<nat (tmax_sisrid s)} = {0..<nat (tmax_sisrid s)} \<and>
     inj_on (INDEX \<circ> isrorder_table) {0..<nat (tmax_sisrid s)} \<and>
     (\<forall>i. nat (tmax_sisrid s) \<le> i \<and> nat (tmax_isrid s) \<le> i \<longrightarrow> \<not> isr_exists s i) \<and>
     (\<forall>q. length (isr_queue_list s) \<le> q \<longrightarrow> isr_queue s q = [])"

lemma enqueue_isr_sel:
  "isr_queue (enqueue_isr q i s) p = (if p = q then lq_insert_before (\<lambda>j. isrpri (isrinib s i) < isrpri (isrinib s j)) i (isr_queue s p)
    else isr_queue s p)"
  "isrinib (enqueue_isr q i s) = isrinib s"
  by (simp_all add: enqueue_isr_def Let_def)

lemma enqueue_loop:
  assumes "inj_on (INDEX \<circ> ord) {0..<n}" "\<And>q. isr_queue s q = []"
  shows "let s' = fold (\<lambda>i s. let j = INDEX (ord i) in enqueue_isr (isr_queue_no (isrinib s j)) j s) [0..<n] s
    in isrinib s' = isrinib s \<and> (\<forall>q. distinct (isr_queue s' q) \<and> sorted (map (\<lambda>i. isrpri (isrinib s i)) (isr_queue s' q)) \<and>
       set (isr_queue s' q) = {j \<in> (INDEX \<circ> ord) ` {0..<n}. isr_queue_no (isrinib s j) = q})"
  using assms(1)
proof (induction n)
  case 0
  then show ?case by (simp add: assms(2))
next
  case (Suc n)
  let ?f = "\<lambda>n. fold (\<lambda>i s. let j = INDEX (ord i) in enqueue_isr (isr_queue_no (isrinib s j)) j s) [0..<n] s"
  let ?D = "\<lambda>n. (INDEX \<circ> ord) ` {0..<n}" and ?j = "INDEX (ord n)"
  have inj: "inj_on (INDEX \<circ> ord) {0..<n}" using Suc.prems by (rule inj_on_subset) auto
  have ih: "isrinib (?f n) = isrinib s" "distinct (isr_queue (?f n) q)" "sorted (map (\<lambda>i. isrpri (isrinib s i)) (isr_queue (?f n) q))"
      "set (isr_queue (?f n) q) = {j \<in> ?D n. isr_queue_no (isrinib s j) = q}" for q
    using Suc.IH [OF inj] by (simp_all add: Let_def)
  have nj: "?j \<notin> ?D n"
  proof
    assume "?j \<in> ?D n"
    then obtain i where "i < n" "(INDEX \<circ> ord) n = (INDEX \<circ> ord) i" by auto
    moreover from this have "i \<in> {0..<Suc n}" "n \<in> {0..<Suc n}" by simp_all
    ultimately show False using inj_onD [OF Suc.prems] by fastforce
  qed
  have f: "?f (Suc n) = enqueue_isr (isr_queue_no (isrinib s ?j)) ?j (?f n)" using ih(1) by (simp add: Let_def)
  have D: "?D (Suc n) = insert ?j (?D n)" by (auto simp: less_Suc_eq)
  have q: "isr_queue (?f (Suc n)) q = (if q = isr_queue_no (isrinib s ?j)
      then lq_insert_before (\<lambda>i. isrpri (isrinib s ?j) < isrpri (isrinib s i)) ?j (isr_queue (?f n) q) else isr_queue (?f n) q)" for q
    unfolding f enqueue_isr_sel ih(1) by (rule refl)
  have "isrinib (?f (Suc n)) = isrinib s" unfolding f enqueue_isr_sel ih(1) by (rule refl)
  moreover have "distinct (isr_queue (?f (Suc n)) q)" "sorted (map (\<lambda>i. isrpri (isrinib s i)) (isr_queue (?f (Suc n)) q))"
    "set (isr_queue (?f (Suc n)) q) = {j \<in> ?D (Suc n). isr_queue_no (isrinib s j) = q}" for q
    using ih(2-4) [of q] nj sorted_insert_pri [OF ih(3) [of q], of ?j] unfolding q D by auto
  ultimately show ?case unfolding Let_def by blast
qed

lemma initialize_isr_inv:
  assumes "static_isr ord s" shows "isr_inv (initialize_isr ord s)"
proof -
  let ?n = "nat (tmax_sisrid s)" and ?m = "nat (tmax_isrid s)"
  define s1 where "s1 = s\<lparr>isr_queue := (\<lambda>q. if q < length (isr_queue_list s) then [] else isr_queue s q)\<rparr>"
  define s2 where "s2 = fold (\<lambda>i s. let j = INDEX (ord i) in enqueue_isr (isr_queue_no (isrinib s j)) j s) [0..<?n] s1"
  have "isr_queue s1 q = []" for q using assms by (simp add: s1_def static_isr_def)
  then have l: "isrinib s2 = isrinib s1" "distinct (isr_queue s2 q)" "sorted (map (\<lambda>i. isrpri (isrinib s1 i)) (isr_queue s2 q))"
      "set (isr_queue s2 q) = {j \<in> (INDEX \<circ> ord) ` {0..<?n}. isr_queue_no (isrinib s1 j) = q}" for q
    using enqueue_loop [of ord ?n s1] assms by (simp_all add: s2_def Let_def static_isr_def)
  have s: "initialize_isr ord s = s2\<lparr>isrinib := (\<lambda>i. if ?n \<le> i \<and> i < ?m then (isrinib s2 i)\<lparr>isratr := TA_NOEXS\<rparr> else isrinib s2 i),
      free_isrcb := [?n..<?m]\<rparr>"
    unfolding initialize_isr_def Let_def s2_def s1_def by (simp add: Let_def)
  have i1: "isrinib s1 = isrinib s" by (simp add: s1_def)
  have e: "isr_exists (initialize_isr ord s) i \<longleftrightarrow> i < ?n" for i
    using assms by (auto simp: s isr_exists_def l(1) i1 static_isr_def)
  have D: "(INDEX \<circ> ord) ` {0..<?n} = {0..<?n}" using assms by (simp add: static_isr_def)
  have p: "isrpri (isrinib (initialize_isr ord s) i) = isrpri (isrinib s i)" "isr_queue_no (isrinib (initialize_isr ord s) i) = isr_queue_no (isrinib s i)" for i
    by (simp_all add: s l(1) i1)
  have q: "isr_queue (initialize_isr ord s) = isr_queue s2" "free_isrcb (initialize_isr ord s) = [?n..<?m]" by (simp_all add: s)
  show ?thesis unfolding isr_inv_def e p q using l(2-4) unfolding i1 D by auto
qed

section \<open>The kernel under interrupts\<close>

text \<open>What is asked of a routine: started in the context of the interrupt and with the CPU unlocked, it leaves the kernel good.\<close>

definition isrs_good :: "(addr \<Rightarrow> intptr_t \<Rightarrow> kernel \<Rightarrow> kernel) \<Rightarrow> bool" where
  "isrs_good ui \<longleftrightarrow> (\<forall>a e k. good k \<and> sense_context k \<and> \<not> sense_lock k \<longrightarrow> good (ui a e k) \<and> sense_context (ui a e k))"

lemma call_isr_loop_good:
  "isrs_good ui \<Longrightarrow> good k \<Longrightarrow> sense_context k \<Longrightarrow> \<not> sense_lock k \<Longrightarrow>
   good (call_isr_loop ui ini is k) \<and> sense_context (call_isr_loop ui ini is k)"
proof (induction "is" arbitrary: k)
  case (Cons i "is")
  let ?k = "ui (isr (ini i)) (isr_exinf (ini i)) k"
  have g: "good ?k" "sense_context ?k" using Cons.prems by (simp_all add: isrs_good_def)
  define k1 where "k1 = (if is \<noteq> [] then if sense_lock ?k then unlock_cpu ?k else ?k else ?k)"
  have k1: "good k1" "sense_context k1" using g good_lock(2) [OF g(1)] by (simp_all add: k1_def)
  have r: "call_isr_loop ui ini (i # is) k = call_isr_loop ui ini is k1" by (simp add: k1_def Let_def)
  show ?case
  proof (cases "is = []")
    case False
    then have "\<not> sense_lock k1" by (simp add: k1_def sense_lock_def unlock_cpu_def)
    then show ?thesis unfolding r by (rule Cons.IH [OF Cons.prems(1) k1])
  qed (use g in simp)
qed simp

text \<open>An interrupt of the queue \<open>q\<close>: entry, the service routines, exit.\<close>

definition interrupt :: "(addr \<Rightarrow> intptr_t \<Rightarrow> kernel \<Rightarrow> kernel) \<Rightarrow> nat \<Rightarrow> intsys \<Rightarrow> intsys" where
  "interrupt ui q s = map_ker irq_exit (call_isr ui q (map_ker irq_enter s))"

lemma interrupt_good:
  assumes "isrs_good ui" "good (ker s)" "\<not> sense_lock (ker s)"
  shows "good (ker (interrupt ui q s))" "\<not> sense_context (ker (interrupt ui q s))"
proof -
  have "\<not> sense_lock (irq_enter (ker s))" using assms(3) by (simp add: irq_enter_def sense_lock_def)
  from call_isr_loop_good [OF assms(1) irq_enter_good [OF assms(2)] this, of "isrinib s" "isr_queue s q"]
  show "good (ker (interrupt ui q s))" "\<not> sense_context (ker (interrupt ui q s))"
    using irq_exit_good by (simp_all add: interrupt_def call_isr_def)
qed

text \<open>The calls on interrupt lines leave the kernel as it was, and give the lock back.\<close>

lemma lock_unlock: "\<not> sense_lock k \<Longrightarrow> unlock_cpu (lock_cpu k) = k"
  by (simp add: sense_lock_def lock_cpu_def unlock_cpu_def)

lemma with_lock_ker:
  assumes "\<And>s. ker (snd (f s)) = ker s" shows "ker (snd (with_lock f s)) = ker s"
  using assms by (simp add: with_lock_def Let_def case_prod_unfold lock_unlock)

lemma int_calls_ker:
  "ker (snd (dis_int intno s)) = ker s" "ker (snd (ena_int intno s)) = ker s" "ker (snd (clr_int intno s)) = ker s"
  "ker (snd (ras_int intno s)) = ker s" "ker (snd (prb_int intno s)) = ker s"
  by (auto simp: dis_int_def ena_int_def clr_int_def ras_int_def prb_int_def intro!: with_lock_ker)

lemma isr_calls_good:
  assumes "good (ker s)"
  shows "good (ker (snd (acre_isr thumb atr intno routine pri exi s)))" "good (ker (snd (del_isr isrid s)))"
  using assms by (auto simp: acre_isr_def del_isr_def enqueue_isr_def Let_def good_lock split: option.split)

end
