(* ===== verification/Mempool.thy ===== *)
theory Mempool
  imports Kernel
begin

text \<open>
  The memory pool of the kernel as it is compiled by default, at the end of asp3\_dcre/kernel/startup.c: it hands out the
  memory from the start to the end of the pool, and takes it back when every area has been freed. In the other
  theories the addresses it returns are the sequence \<open>mpk_in\<close>.
\<close>

section \<open>The pool\<close>

text \<open>The control block at the start of the pool; \<open>mpk\<close> is the address of the pool, and \<open>MEMPOOLCB\<close> takes 12 bytes.\<close>

record mempoolcb =
  mp_brk :: addr
  mp_limit :: addr
  mp_count :: uint

abbreviation sizeof_MEMPOOLCB :: uint where "sizeof_MEMPOOLCB \<equiv> 12"

definition initialize_mempool :: "addr \<Rightarrow> uint \<Rightarrow> mempoolcb \<Rightarrow> bool \<times> mempoolcb" where
  "initialize_mempool mempool sz c =
     (if sz \<ge> sizeof_MEMPOOLCB then
        (True, c\<lparr>mp_brk := mempool + sizeof_MEMPOOLCB, mp_limit := mempool + sz, mp_count := 0\<rparr>)
      else (False, c))"

definition malloc_mempool :: "uint \<Rightarrow> mempoolcb \<Rightarrow> addr \<times> mempoolcb" where
  "malloc_mempool sz c =
     (let p = mp_brk c
      in if mp_limit c - p \<ge> sz then (p, c\<lparr>mp_brk := p + sz, mp_count := mp_count c + 1\<rparr>) else (0, c))"

definition free_mempool :: "addr \<Rightarrow> addr \<Rightarrow> mempoolcb \<Rightarrow> mempoolcb" where
  "free_mempool mempool ptr c =
     (let c1 = c\<lparr>mp_count := mp_count c - 1\<rparr>
      in if mp_count c1 = 0 then c1\<lparr>mp_brk := mempool + sizeof_MEMPOOLCB\<rparr> else c1)"

section \<open>The contract of an allocator\<close>

text \<open>
  \<open>ok c A\<close>: \<open>A\<close> are the areas handed out, address and size. They are apart from each other and within the pool
  from \<open>lo\<close> to \<open>hi\<close>.
\<close>

definition apart :: "addr \<times> uint \<Rightarrow> addr \<times> uint \<Rightarrow> bool" where
  "apart x y \<longleftrightarrow> unat (fst x) + unat (snd x) \<le> unat (fst y) \<or> unat (fst y) + unat (snd y) \<le> unat (fst x)"

definition separate :: "nat \<Rightarrow> nat \<Rightarrow> (addr \<times> uint) list \<Rightarrow> bool" where
  "separate lo hi A \<longleftrightarrow> distinct A \<and> (\<forall>x\<in>set A. \<forall>y\<in>set A. x \<noteq> y \<longrightarrow> apart x y) \<and>
     (\<forall>x\<in>set A. lo \<le> unat (fst x) \<and> unat (fst x) + unat (snd x) \<le> hi)"

text \<open>Requests and returns; \<open>None\<close> is a return of what was not handed out, or a request of no bytes.\<close>

datatype pool_op = Malloc uint | Free addr uint

locale allocator =
  fixes alloc :: "uint \<Rightarrow> 'c \<Rightarrow> addr \<times> 'c" and dealloc :: "addr \<Rightarrow> 'c \<Rightarrow> 'c"
    and ok :: "'c \<Rightarrow> (addr \<times> uint) list \<Rightarrow> bool" and lo :: nat and hi :: nat
  assumes ok_separate: "ok c A \<Longrightarrow> separate lo hi A"
    and alloc_ok: "ok c A \<Longrightarrow> 0 < n \<Longrightarrow> alloc n c = (p, c') \<Longrightarrow> p \<noteq> 0 \<Longrightarrow> ok c' ((p, n) # A)"
    and alloc_fail: "ok c A \<Longrightarrow> alloc n c = (0, c') \<Longrightarrow> c' = c"
    and dealloc_ok: "ok c A \<Longrightarrow> (p, n) \<in> set A \<Longrightarrow> ok (dealloc p c) (remove1 (p, n) A)"
begin

fun pool_run :: "pool_op list \<Rightarrow> 'c \<Rightarrow> (addr \<times> uint) list \<Rightarrow> ('c \<times> (addr \<times> uint) list) option" where
  "pool_run [] c A = Some (c, A)"
| "pool_run (Malloc n # ops) c A =
     (if n = 0 then None else let (p, c') = alloc n c in pool_run ops c' (if p = 0 then A else (p, n) # A))"
| "pool_run (Free p n # ops) c A = (if (p, n) \<in> set A then pool_run ops (dealloc p c) (remove1 (p, n) A) else None)"

lemma pool_run_ok: "ok c A \<Longrightarrow> pool_run ops c A = Some (c', A') \<Longrightarrow> ok c' A'"
proof (induction ops c A rule: pool_run.induct)
  case (2 n ops c A)
  obtain p d where a: "alloc n c = (p, d)" by fastforce
  have n: "n \<noteq> 0" using "2.prems"(2) by (auto split: if_splits)
  have "ok d (if p = 0 then A else (p, n) # A)"
    using alloc_ok [OF "2.prems"(1) _ a] alloc_fail [OF "2.prems"(1), of n d] a n "2.prems"(1) by (auto simp: word_neq_0_conv)
  then show ?case using "2.IH" [OF n a [symmetric]] "2.prems"(2) a n by simp
next
  case (3 p n ops c A)
  then show ?case using dealloc_ok by (auto split: if_splits)
qed simp

lemma pool_run_separate: "ok c A \<Longrightarrow> pool_run ops c A = Some (c', A') \<Longrightarrow> separate lo hi A'"
  using pool_run_ok ok_separate by blast

end

section \<open>The default pool is an allocator\<close>

text \<open>The areas in the order in which they were handed out, last first; \<open>mpk\<close> and \<open>mpksz\<close> are the address and the size of the pool.\<close>

definition pool_ok :: "addr \<Rightarrow> uint \<Rightarrow> mempoolcb \<Rightarrow> (addr \<times> uint) list \<Rightarrow> bool" where
  "pool_ok mpk mpksz c A \<longleftrightarrow> unat mpk + unat mpksz < 2 ^ 32 \<and> sizeof_MEMPOOLCB \<le> mpksz \<and> mp_limit c = mpk + mpksz \<and>
     unat mpk + 12 + length A \<le> unat (mp_brk c) \<and> unat (mp_brk c) \<le> unat mpk + unat mpksz \<and> unat (mp_count c) = length A \<and>
     sorted_wrt (\<lambda>x y. unat (fst y) + unat (snd y) \<le> unat (fst x)) A \<and>
     (\<forall>x\<in>set A. 0 < snd x \<and> unat mpk + 12 \<le> unat (fst x) \<and> unat (fst x) + unat (snd x) \<le> unat (mp_brk c))"

lemma sorted_separate:
  assumes "sorted_wrt (\<lambda>x y. unat (fst y) + unat (snd y) \<le> unat (fst x)) A" "\<forall>x\<in>set A. 0 < snd x"
  shows "distinct A" "\<forall>x\<in>set A. \<forall>y\<in>set A. x \<noteq> y \<longrightarrow> apart x y"
proof -
  have "0 < unat (snd x)" if "x \<in> set A" for x using assms(2) that by (simp add: word_less_nat_alt)
  with assms(1) show "distinct A" "\<forall>x\<in>set A. \<forall>y\<in>set A. x \<noteq> y \<longrightarrow> apart x y"
    by (induction A) (fastforce simp: apart_def)+
qed

lemma sorted_wrt_remove1: "sorted_wrt P xs \<Longrightarrow> sorted_wrt P (remove1 x xs)"
  by (induction xs) (auto dest: notin_set_remove1)

lemma initialize_mempool_ok:
  assumes "unat mpk + unat mpksz < 2 ^ 32"
  shows "fst (initialize_mempool mpk mpksz c) \<Longrightarrow> pool_ok mpk mpksz (snd (initialize_mempool mpk mpksz c)) []"
proof -
  assume "fst (initialize_mempool mpk mpksz c)"
  then have z: "sizeof_MEMPOOLCB \<le> mpksz" by (simp add: initialize_mempool_def split: if_splits)
  then have "12 \<le> unat mpksz" by (simp add: word_le_nat_alt)
  then have "unat (mpk + 12) = unat mpk + 12" using assms by (subst unat_add_lem [THEN iffD1]) simp_all
  then show ?thesis using z assms \<open>12 \<le> unat mpksz\<close> by (simp add: initialize_mempool_def pool_ok_def)
qed

lemma malloc_mempool_ok:
  assumes ok: "pool_ok mpk mpksz c A" and n: "0 < n" and m: "malloc_mempool n c = (p, c')" "p \<noteq> 0"
  shows "pool_ok mpk mpksz c' ((p, n) # A)"
proof -
  note o = ok [unfolded pool_ok_def]
  have r: "n \<le> mp_limit c - mp_brk c" "p = mp_brk c" "c' = c\<lparr>mp_brk := mp_brk c + n, mp_count := mp_count c + 1\<rparr>"
    using m by (auto simp: malloc_mempool_def Let_def split: if_splits)
  have lim: "unat (mp_limit c) = unat mpk + unat mpksz" using o by (simp add: unat_add_lem [THEN iffD1])
  then have "mp_brk c \<le> mp_limit c" using o by (simp add: word_le_nat_alt)
  then have "unat (mp_limit c - mp_brk c) = unat mpk + unat mpksz - unat (mp_brk c)" by (simp add: unat_sub lim)
  then have "unat n \<le> unat mpk + unat mpksz - unat (mp_brk c)" using r(1) by (simp add: word_le_nat_alt)
  then have le: "unat (mp_brk c) + unat n \<le> unat mpk + unat mpksz" using o by linarith
  then have b: "unat (mp_brk c + n) = unat (mp_brk c) + unat n" using o by (subst unat_add_lem [THEN iffD1]) simp_all
  have n1: "1 \<le> unat n" using n by (simp add: word_less_nat_alt)
  have "length A + 1 < 2 ^ 32" using o by linarith
  then have c: "unat (mp_count c + 1) = length A + 1" using o by (subst unat_add_lem [THEN iffD1]) simp_all
  show ?thesis unfolding pool_ok_def r(2,3) using o b le n1 c n by auto
qed

lemma free_mempool_ok:
  assumes ok: "pool_ok mpk mpksz c A" and m: "(p, n) \<in> set A"
  shows "pool_ok mpk mpksz (free_mempool mpk p c) (remove1 (p, n) A)"
proof -
  note o = ok [unfolded pool_ok_def]
  have l: "length (remove1 (p, n) A) = length A - 1" "0 < length A" using m by (auto simp: length_remove1)
  then have "mp_count c \<noteq> 0" using o by (auto simp: unat_eq_zero)
  then have c: "unat (mp_count c - 1) = length A - 1" using o by (simp add: unat_minus_one)
  have "12 \<le> unat mpksz" using o by (simp add: word_le_nat_alt)
  then have b: "unat (mpk + 12) = unat mpk + 12" using o by (subst unat_add_lem [THEN iffD1]) simp_all
  have s: "sorted_wrt (\<lambda>x y. unat (fst y) + unat (snd y) \<le> unat (fst x)) (remove1 (p, n) A)"
    "set (remove1 (p, n) A) \<subseteq> set A" using o by (simp_all add: sorted_wrt_remove1 set_remove1_subset)
  show ?thesis
  proof (cases "mp_count c - 1 = 0")
    case True
    then have "remove1 (p, n) A = []" using c l by simp
    then show ?thesis using o True b \<open>12 \<le> unat mpksz\<close> by (simp add: pool_ok_def free_mempool_def)
  next
    case False
    then show ?thesis using o c l s unfolding pool_ok_def free_mempool_def Let_def by auto
  qed
qed

text \<open>The default pool is an allocator for its memory behind the control block.\<close>

interpretation mempool: allocator malloc_mempool "free_mempool mpk" "pool_ok mpk mpksz" "unat mpk + 12" "unat mpk + unat mpksz"
  for mpk mpksz
proof unfold_locales
  show "separate (unat mpk + 12) (unat mpk + unat mpksz) A" if "pool_ok mpk mpksz c A" for c A
    using that sorted_separate [of A] by (force simp: pool_ok_def separate_def)
  show "pool_ok mpk mpksz c' ((p, n) # A)"
    if "pool_ok mpk mpksz c A" "0 < n" "malloc_mempool n c = (p, c')" "p \<noteq> 0" for c A n p c'
    by (rule malloc_mempool_ok [OF that])
  show "c' = c" if "pool_ok mpk mpksz c A" "malloc_mempool n c = (0, c')" for c A n c'
    using that by (auto simp: malloc_mempool_def Let_def pool_ok_def split: if_splits)
  show "pool_ok mpk mpksz (free_mempool mpk p c) (remove1 (p, n) A)" if "pool_ok mpk mpksz c A" "(p, n) \<in> set A" for c A p n
    by (rule free_mempool_ok [OF that])
qed

text \<open>When everything has been freed, the whole pool is there again.\<close>

lemma all_freed:
  assumes "pool_ok mpk mpksz c [(p, n)]"
  shows "mp_brk (free_mempool mpk p c) = mpk + sizeof_MEMPOOLCB"
    "fst (malloc_mempool (mpksz - sizeof_MEMPOOLCB) (free_mempool mpk p c)) = mpk + sizeof_MEMPOOLCB"
proof -
  have "unat (mp_count c) = unat (1 :: uint)" using assms by (simp add: pool_ok_def)
  then have "mp_count c = 1" by (rule word_unat_eq_iff [THEN iffD2])
  then show b: "mp_brk (free_mempool mpk p c) = mpk + sizeof_MEMPOOLCB" by (simp add: free_mempool_def)
  have "mp_limit (free_mempool mpk p c) = mpk + mpksz" using assms by (simp add: free_mempool_def pool_ok_def Let_def)
  then show "fst (malloc_mempool (mpksz - sizeof_MEMPOOLCB) (free_mempool mpk p c)) = mpk + sizeof_MEMPOOLCB"
    by (simp add: malloc_mempool_def Let_def b)
qed

end
