(* ===== verification/Example.thy ===== *)
theory Example
  imports Semaphore Eventflag Dataqueue Pridataq Mempfix
begin

unbundle bit_operations_syntax

text \<open>
  A small concrete kernel, at which the general theorems are instantiated. Task 1 (index 0) runs
  with priority 5; task 2 (index 1), of the higher priority 3, waits without timeout in the queue of the
  object \<open>w\<close>; there is one object of each kind with a wait queue: a semaphore with no resource,
  an event flag without bits, a data queue of two entries. \<open>hrt\<close> is what the counter of the high
  resolution timer shows.
\<close>

definition demo_tcb :: "wobj \<Rightarrow> nat \<Rightarrow> tmevtb_ref tcb" where
  "demo_tcb w t =
     \<lparr>tstat = (if t = 0 then TS_RUNNABLE else if t = 1 then wait_code w else TS_DORMANT),
      bpriority = (if t = 0 then 5 else 3), priority = (if t = 0 then 5 else 3), actque = False,
      wupque = False, raster = False, enater = True,
      p_winfo = fresh_winfo\<lparr>p_wobjcb := Some w, w_waiptn := 1, w_wfmode := TWF_ORW, w_data := 77\<rparr>,
      p_lastmtx = None\<rparr>"

definition demo_ts :: "wobj \<Rightarrow> tmevtb_ref tskst" where
  "demo_ts w =
     \<lparr>tcb = demo_tcb w,
      tinib = (\<lambda>t. \<lparr>tskatr = (if t < 2 then 0 else TA_NOEXS), exinf = 0, task_entry = 0x100, ipriority = (if t = 0 then 5 else 3), stksz = 64, stk = 0x8000\<rparr>),
      queues = (\<lambda>h. if h = ReadyQ 5 then [0] else if h = WaitQ w then [1] else []),
      ready_primap = 0x20, p_runtsk = Some 0, p_schedtsk = Some 0, enadsp = True, dspflg = True\<rparr>"

definition demo_tm :: "(nat \<Rightarrow> HRTCNT) \<Rightarrow> tme" where
  "demo_tm hrt =
     \<lparr>tmevtb_tab = (\<lambda>r. \<lparr>evttim = 0, p_tmevtn = 0, callback = Wait_tmout, arg = 0\<rparr>),
      tmevt_heap = (\<lambda>n. TskTM 0), p_last = 0, boundary_evttim = - BOUNDARY_MARGIN,
      current_evttim = 0, current_hrtcnt = 0, monotonic_evttim = 0, systim_offset = 0,
      in_signal_time = False, hrt_in = hrt, hrt_n = 0, hrt_req = HrtNone, window_left = False\<rparr>"

definition demo_nfy :: nfyinfo where
  "demo_nfy =
     \<lparr>nfymode = 0, nfy_exinf = 0, nfy_tmehdr = 0, nfy_var = 0, nfy_value = 0, nfy_tskid = 0, nfy_semid = 0,
      nfy_flgid = 0, nfy_flgptn = 0, nfy_dtqid = 0, nfy_data = 0, enfy_var = 0, enfy_tskid = 0, enfy_semid = 0,
      enfy_flgid = 0, enfy_flgptn = 0, enfy_dtqid = 0\<rparr>"

definition demo :: "(nat \<Rightarrow> HRTCNT) \<Rightarrow> wobj \<Rightarrow> kernel" where
  "demo hrt w =
     \<lparr>ts = demo_ts w, tm = demo_tm hrt, cpulock = False, excpt_ctx = False, ipm = 0, kerflg = True,
      tmax_tskid = 2, tmax_stskid = 2, tmax_semid = 1, tmax_ssemid = 1, tmax_flgid = 1, tmax_sflgid = 1,
      tmax_dtqid = 1, tmax_sdtqid = 1, tmax_pdqid = 1, tmax_spdqid = 1, tmax_mtxid = 1, tmax_smtxid = 1,
      tmax_mpfid = 1, tmax_smpfid = 1, tmax_cycid = 0, tmax_scycid = 0, tmax_almid = 0, tmax_salmid = 0,
      seminib = (\<lambda>i. \<lparr>sematr = (if i = 0 then TA_TPRI else TA_NOEXS), isemcnt = 0, maxsem = 1\<rparr>),
      semcb = (\<lambda>i. \<lparr>semcnt = 0\<rparr>), free_semcb = [],
      flginib = (\<lambda>i. \<lparr>flgatr = (if i = 0 then TA_CLR else TA_NOEXS), iflgptn = 0\<rparr>),
      flgcb = (\<lambda>i. \<lparr>flgptn = 0\<rparr>), free_flgcb = [],
      dtqinib = (\<lambda>i. \<lparr>dtqatr = (if i = 0 then 0 else TA_NOEXS), dtqcnt = 2, p_dtqmb = 0\<rparr>),
      dtqcb = (\<lambda>i. \<lparr>dtq_count = 0, dtq_head = 0, dtq_tail = 0, dtqmb = (\<lambda>j. 0)\<rparr>), free_dtqcb = [],
      pdqinib = (\<lambda>i. \<lparr>pdqatr = (if i = 0 then 0 else TA_NOEXS), pdqcnt = 2, maxdpri = 4, p_pdqmb = 0\<rparr>),
      pdqcb = (\<lambda>i. \<lparr>pdq_count = 0, pdq_head = None, pdq_unused = 0, pdq_freelist = None,
        pdq_mb = (\<lambda>j. \<lparr>pdq_next = None, pdq_data = 0, pdq_datapri = 0\<rparr>)\<rparr>), free_pdqcb = [],
      mtxinib = (\<lambda>i. \<lparr>mtxatr = (if i = 0 then TA_CEILING else TA_NOEXS), ceilpri = 2\<rparr>),
      mtxcb = (\<lambda>i. \<lparr>p_loctsk = None, p_prevmtx = None\<rparr>), free_mtxcb = [],
      mpfinib = (\<lambda>i. \<lparr>mpfatr = (if i = 0 then 0 else TA_NOEXS), blkcnt = 2, blksz = 16, mpf = 0x1000, p_mpfmb = 0\<rparr>),
      mpfcb = (\<lambda>i. \<lparr>fblkcnt = 2, mpf_unused = 0, mpf_freelist = - 1, mpfmb = (\<lambda>j. 0)\<rparr>), free_mpfcb = [],
      cycinib = (\<lambda>i. \<lparr>cycatr = TA_NOEXS, cyc_exinf = ExInf 0, cyc_nfyhdr = UserHandler 0, cyctim = 1, cycphs = 0\<rparr>),
      cyccb = (\<lambda>i. \<lparr>cycsta = False\<rparr>), free_cyccb = [], acyc_nfyinfo_table = (\<lambda>i. demo_nfy),
      alminib = (\<lambda>i. \<lparr>almatr = TA_NOEXS, alm_exinf = ExInf 0, alm_nfyhdr = UserHandler 0\<rparr>),
      almcb = (\<lambda>i. \<lparr>almsta = False\<rparr>), free_almcb = [], aalm_nfyinfo_table = (\<lambda>i. demo_nfy), uvar = (\<lambda>a. 0),
      mpk_in = (\<lambda>i. 0), mpk_n = 0, mpk_live = []\<rparr>"

lemmas demo_defs = demo_def demo_ts_def demo_tm_def demo_tcb_def

lemma demo_plain [simp]:
  "sense_context (demo hrt w) = False" "sense_lock (demo hrt w) = False" "ctx_error (demo hrt w) = False"
  "dispatch_error (demo hrt w) = False"
  "p_runtsk (ts (demo hrt w)) = Some 0" "p_schedtsk (ts (demo hrt w)) = Some 0" "runtsk (demo hrt w) = 0"
  by (simp_all add: demo_defs sense_context_def sense_lock_def ctx_error_def dispatch_error_def runtsk_def)

lemma demo_sel [simp]:
  "task (demo hrt w) t = demo_tcb w t" "tsk_atr (demo hrt w) t = (if t < 2 then 0 else TA_NOEXS)"
  "ipriority (tinib (ts (demo hrt w)) t) = (if t = 0 then 5 else 3)"
  "tmax_tskid (demo hrt w) = 2" "tmax_cycid (demo hrt w) = 0" "tmax_almid (demo hrt w) = 0"
  "queues (ts (demo hrt w)) h = (if h = ReadyQ 5 then [0] else if h = WaitQ w then [1] else [])"
  "ready_primap (ts (demo hrt w)) = 0x20" "dspflg (ts (demo hrt w))"
  "p_last (tm (demo hrt w)) = 0"
  by (simp_all add: demo_defs)

lemma demo_code: "wait_code w \<in> set wait_codes" "TSTAT_WAIT_WOBJ (wait_code w)"
  by (cases w; simp add: wait_codes_def TSTAT_WAIT_WOBJ_def)+

lemma demo_loc: "loc (demo hrt w) = (\<lambda>t. if t = 0 then Some (ReadyQ 5) else if t = 1 then Some (WaitQ w) else None)"
  using code_status(3) [OF demo_code(1) [of w]] demo_code(2) [of w]
  by (auto simp: fun_eq_iff loc_def demo_tcb_def)

lemma demo_core: "core (loc (demo hrt w)) (ts (demo hrt w))"
proof -
  have b: "bit (0x20 :: 16 word) p \<longleftrightarrow> p = 5" if "p < TNUM_TPRI" for p
    using that bit_PRIMAP_BIT [of 5 p] by (simp add: PRIMAP_BIT_def push_bit_eq_mult)
  have "queues_at (loc (demo hrt w)) (ts (demo hrt w))" by (auto simp: queues_at_def demo_loc)
  moreover have "ready_ok (loc (demo hrt w)) (ts (demo hrt w))"
    by (simp add: ready_ok_def demo_loc demo_tcb_def)
  moreover have "primap_ok (ts (demo hrt w))" using b by (simp add: primap_ok_def)
  moreover have "is_top (ts (demo hrt w)) (Some 0)" by (auto simp: is_top_def intro!: exI [of _ 5])
  ultimately show ?thesis by (simp add: core_def)
qed

lemma demo_settled: "settled (demo hrt w)"
proof -
  let ?k = "demo hrt w"
  have act: "active ?k = {}"
    by (auto simp: active_def timed_def cyc_on_def alm_on_def demo_tcb_def fresh_winfo_def)
  have "registered (tm ?k) {}" by (simp add: registered_none)
  moreover have "task_ok ?k t" for t
    using code_status(1,2,5) [OF demo_code(1) [of w]]
    by (simp add: task_ok_def wait_ok_def exists_task_def demo_tcb_def fresh_winfo_def)
  moreover have "prio_ok ?k t" for t by (simp add: prio_ok_def exists_task_def demo_tcb_def)
  ultimately have "consistent ?k" using demo_core by (simp add: consistent_def act)
  then show ?thesis by (simp add: settled_def running_def demo_tcb_def)
qed

lemma demo_in_task: "in_task (demo hrt w)"
  using demo_settled [of hrt w] by (simp add: in_task_def)

end
