(* ===== verification/Boot.thy ===== *)
theory Boot
  imports Startup Example
begin

unbundle bit_operations_syntax

text \<open>
  The states that the kernel can reach from its start, and a concrete kernel to start: two static tasks, of
  which the first is activated by the initialisation, and one static object of each kind.
\<close>

section \<open>Reachable states\<close>

text \<open>\<open>uh\<close> are the handlers of the application, \<open>inirtns\<close> its initialisation routines, \<open>k0\<close> is the memory before the start.\<close>

definition reachable :: "config \<Rightarrow> (addr \<Rightarrow> exinf_t \<Rightarrow> kernel \<Rightarrow> kernel) \<Rightarrow> (nat \<Rightarrow> int) \<Rightarrow> (kernel \<Rightarrow> kernel) list \<Rightarrow> kernel \<Rightarrow> kernel \<Rightarrow> bool" where
  "reachable cf uh torder inirtns k0 k \<longleftrightarrow>
     app_handlers cf uh \<and> booted torder k0 \<and> inirtns_ok inirtns \<and> run cf uh (sta_ker torder inirtns k0) k"

lemma reachable_good:
  assumes "reachable cf uh torder inirtns k0 k" shows "good k"
  using assms run_good sta_ker_ok(1) by (auto simp: reachable_def)

lemma reachable_step:
  assumes "reachable cf uh torder inirtns k0 k" "step cf uh k k'" shows "reachable cf uh torder inirtns k0 k'"
  using assms by (auto simp: reachable_def intro: rtranclp.rtrancl_into_rtrancl)

text \<open>What the invariant says of the processor outside interrupts.\<close>

lemma good_runs_top:
  assumes g: "good k" and c: "\<not> sense_context k" "dspflg (ts k)" and t: "int t < tmax_tskid k" "exists_task k t" "TSTAT_RUNNABLE (tstat (task k t))"
  shows "\<exists>r. p_runtsk (ts k) = Some r \<and> priority (task k r) \<le> priority (task k t) \<and> exists_task k r"
proof -
  have s: "consistent k" "p_schedtsk (ts k) = p_runtsk (ts k)" using goodD(1) [OF g] c by (simp_all add: settled_def)
  note core = consistentD(1) [OF s(1)]
  have "loc k t = Some (ReadyQ (priority (task k t)))" using t by (simp add: loc_def exists_task_def)
  then have q: "t \<in> set (queues (ts k) (ReadyQ (priority (task k t))))" "priority (task k t) < TNUM_TPRI"
    using coreD(1) [OF core] coreD(2) [OF core] unfolding queues_at_def ready_ok_def by blast+
  have top: "is_top (ts k) (p_runtsk (ts k))" using coreD(4) [OF core c(2)] s(2) by simp
  have "p_runtsk (ts k) \<noteq> None"
  proof
    assume "p_runtsk (ts k) = None"
    then have "queues (ts k) (ReadyQ (priority (task k t))) = []" using top q(2) by (simp add: is_top_def)
    then show False using q(1) by simp
  qed
  then obtain r where r: "p_runtsk (ts k) = Some r" by blast
  have tr: "is_top (ts k) (Some r)" using top r by simp
  note p = is_top_Some_prio [OF core tr]
  have "priority (task k r) \<le> priority (task k t)" using p(4) [of "priority (task k t)"] q(1) by (metis empty_iff list.set(1) not_le)
  moreover have "exists_task k r" using p(1) by (auto simp: loc_def exists_task_def split: if_splits)
  ultimately show ?thesis using r by blast
qed

section \<open>A kernel to start\<close>

definition boot_tcb :: "tmevtb_ref tcb" where
  "boot_tcb =
     \<lparr>tstat = TS_DORMANT, bpriority = 0, priority = 0, actque = False, wupque = False, raster = False, enater = False,
      p_winfo = fresh_winfo, p_lastmtx = None\<rparr>"

definition boot_ts :: "tmevtb_ref tskst" where
  "boot_ts =
     \<lparr>tcb = (\<lambda>t. boot_tcb),
      tinib = (\<lambda>t. \<lparr>tskatr = (if t = 0 then TA_ACT else 0), exinf = 0, task_entry = 0x100, ipriority = (if t = 0 then 5 else 3), stksz = 64, stk = 0x8000\<rparr>),
      queues = (\<lambda>h. []), ready_primap = 0, p_runtsk = None, p_schedtsk = None, enadsp = False, dspflg = False\<rparr>"

definition boot :: "(nat \<Rightarrow> HRTCNT) \<Rightarrow> kernel" where
  "boot hrt = (demo hrt (SemW 0))\<lparr>ts := boot_ts, kerflg := False\<rparr>"

lemmas boot_defs = boot_def boot_ts_def boot_tcb_def

lemma boot_sel [simp]:
  "task (boot hrt) t = boot_tcb" "queues (ts (boot hrt)) h = []" "tsk_atr (boot hrt) t = (if t = 0 then TA_ACT else 0)"
  "ipriority (tinib (ts (boot hrt)) t) = (if t = 0 then 5 else 3)" "tmax_tskid (boot hrt) = 2" "tmax_stskid (boot hrt) = 2"
  "tmax_cycid (boot hrt) = 0" "tmax_scycid (boot hrt) = 0" "tmax_almid (boot hrt) = 0" "tmax_salmid (boot hrt) = 0"
  by (simp_all add: boot_defs demo_def)

lemma boot_booted: "booted (\<lambda>i. int i + 1) (boot hrt)"
proof -
  have "(\<lambda>i. int i + 1) ` {0..<2} = {1..2}"
    by (auto simp: image_iff numeral_2_eq_2 atLeastLessThanSuc)
  then have "static_tsk (\<lambda>i. int i + 1) (boot hrt)" by (simp add: static_tsk_def inj_on_def)
  moreover have "zeroed (boot hrt)" by (simp add: zeroed_def boot_tcb_def) (simp add: boot_def demo_def)
  ultimately show ?thesis
    by (simp add: booted_def static_sem_def static_flg_def static_dtq_def static_pdq_def static_mtx_def static_mpf_def static_cyc_def
        static_alm_def sem_exists_def flg_exists_def dtq_exists_def pdq_exists_def mtx_exists_def mpf_exists_def)
      (simp add: boot_def demo_def)
qed

lemma init_objects_ts:
  "tcb (ts (initialize_semaphore k)) = tcb (ts k)" "tcb (ts (initialize_eventflag k)) = tcb (ts k)"
  "tcb (ts (initialize_dataqueue k)) = tcb (ts k)" "tcb (ts (initialize_pridataq k)) = tcb (ts k)"
  "tcb (ts (initialize_mutex k)) = tcb (ts k)" "tcb (ts (initialize_mempfix k)) = tcb (ts k)"
  "tinib (ts (initialize_semaphore k)) = tinib (ts k)" "tinib (ts (initialize_eventflag k)) = tinib (ts k)"
  "tinib (ts (initialize_dataqueue k)) = tinib (ts k)" "tinib (ts (initialize_pridataq k)) = tinib (ts k)"
  "tinib (ts (initialize_mutex k)) = tinib (ts k)" "tinib (ts (initialize_mempfix k)) = tinib (ts k)"
  "dspflg (ts (initialize_semaphore k)) = dspflg (ts k)" "dspflg (ts (initialize_eventflag k)) = dspflg (ts k)"
  "dspflg (ts (initialize_dataqueue k)) = dspflg (ts k)" "dspflg (ts (initialize_pridataq k)) = dspflg (ts k)"
  "dspflg (ts (initialize_mutex k)) = dspflg (ts k)" "dspflg (ts (initialize_mempfix k)) = dspflg (ts k)"
  by (simp_all add: initialize_semaphore_def initialize_eventflag_def initialize_dataqueue_def initialize_pridataq_def
      initialize_mutex_def initialize_mempfix_def Let_def)

lemma init_objects_max:
  "f \<in> {initialize_semaphore, initialize_eventflag, initialize_dataqueue, initialize_pridataq, initialize_mutex, initialize_mempfix} \<Longrightarrow>
   tmax_tskid (f k) = tmax_tskid k \<and> tmax_cycid (f k) = tmax_cycid k \<and> tmax_scycid (f k) = tmax_scycid k \<and>
   tmax_almid (f k) = tmax_almid k \<and> tmax_salmid (f k) = tmax_salmid k"
  by (auto simp: initialize_semaphore_def initialize_eventflag_def initialize_dataqueue_def initialize_pridataq_def
      initialize_mutex_def initialize_mempfix_def map_ts_def Let_def)

text \<open>The state of the first task after the start.\<close>

lemma started_task:
  "let k = initialize_task (\<lambda>i. int i + 1) (map_tm initialize_tmevt (core_initialize (boot hrt))) in
    tstat (task k 0) = TS_RUNNABLE \<and> dspflg (ts k) \<and> tsk_atr k 0 = TA_ACT \<and> tmax_tskid k = 2 \<and> tmax_cycid k = 0 \<and> tmax_almid k = 0 \<and>
    tmax_scycid k = 0 \<and> tmax_salmid k = 0"
proof -
  have u: "[0..<nat 2] = [0, 1]" by (simp add: numeral_2_eq_2)
  have m: "tmax_stskid (map_tm initialize_tmevt (core_initialize (boot hrt))) = 2" "tmax_tskid (map_tm initialize_tmevt (core_initialize (boot hrt))) = 2"
    by (simp_all add: core_initialize_def map_tm_def)
  show ?thesis unfolding initialize_task_def Let_def m u
    by (simp add: init_static_tsk_def INDEX_def Let_def upd_task_def map_ts_def map_tm_def core_initialize_def)
      (simp add: initialize_ready_def make_dormant_def make_active_def Let_def boot_tcb_def)
qed

text \<open>It has been started, and then an interrupt has come. Its application has no handlers of its own.\<close>

abbreviation no_handlers :: "addr \<Rightarrow> exinf_t \<Rightarrow> kernel \<Rightarrow> kernel" where "no_handlers \<equiv> (\<lambda>a e k. k)"

definition started :: "(nat \<Rightarrow> HRTCNT) \<Rightarrow> kernel" where
  "started hrt = sta_ker (\<lambda>i. int i + 1) [] (boot hrt)"

lemma started_ok: "good (started hrt)" "\<not> sense_context (started hrt)" "kerflg (started hrt)" "\<not> sense_lock (started hrt)"
  unfolding started_def by (rule sta_ker_ok [OF boot_booted]; simp add: inirtns_ok_def)+

lemma no_handlers_ok: "app_handlers cf no_handlers" "handlers_good no_handlers"
  by (simp_all add: app_handlers_def handlers_good_def)

lemma started_facts:
  "dspflg (ts (started hrt))" "tmax_tskid (started hrt) = 2" "exists_task (started hrt) 0" "TSTAT_RUNNABLE (tstat (task (started hrt) 0))"
  "tmax_cycid (started hrt) = 0" "tmax_almid (started hrt) = 0"
  using started_task [of hrt]
  by (simp_all add: started_def sta_ker_def start_dispatch_def initialize_object_def Let_def case_prod_unfold init_objects_ts init_objects_max
      initialize_cyclic_def initialize_alarm_def dispatch_def exists_task_def unlock_cpu_def lock_cpu_def map_ts_def map_tm_def)

lemma init_objects_tm:
  "f \<in> {initialize_semaphore, initialize_eventflag, initialize_dataqueue, initialize_pridataq, initialize_mutex, initialize_mempfix} \<Longrightarrow>
   tm (f k) = tm k"
  by (auto simp: initialize_semaphore_def initialize_eventflag_def initialize_dataqueue_def initialize_pridataq_def
      initialize_mutex_def initialize_mempfix_def map_ts_def Let_def)

lemma started_timer: "\<not> window_left (tm (started hrt))" "p_last (tm (started hrt)) = 0"
proof -
  let ?k = "map_tm initialize_tmevt (core_initialize (boot hrt))"
  have st: "booted (\<lambda>i. int i + 1) ?k"
  proof (rule booted_same [OF boot_booted])
    show "same_objects K (boot hrt) ?k" for K by (cases K) (simp_all add: core_initialize_def map_tm_def same_objects_def)
  qed (simp_all add: core_initialize_def map_tm_def)
  have t: "tm (initialize_task (\<lambda>i. int i + 1) ?k) = tm ?k"
    by (rule initialize_task_quiet(3)) (use st in \<open>simp_all add: booted_def sense_context_def core_initialize_def map_tm_def initialize_tmevt_def Let_def\<close>)
  have "tmax_cycid (initialize_task (\<lambda>i. int i + 1) ?k) = 0" "tmax_scycid (initialize_task (\<lambda>i. int i + 1) ?k) = 0"
    "tmax_almid (initialize_task (\<lambda>i. int i + 1) ?k) = 0" "tmax_salmid (initialize_task (\<lambda>i. int i + 1) ?k) = 0"
    using started_task [of hrt] by (simp_all add: Let_def)
  then have "tm (initialize_object (\<lambda>i. int i + 1) ?k) = tm ?k"
    using t by (simp add: initialize_object_def Let_def init_objects_tm init_objects_max initialize_cyclic_def initialize_alarm_def)
  then show "\<not> window_left (tm (started hrt))" "p_last (tm (started hrt)) = 0"
    by (simp_all add: started_def sta_ker_def start_dispatch_def dispatch_def lock_cpu_def unlock_cpu_def map_tm_def map_ts_def case_prod_unfold
      set_hrt_event_def initialize_tmevt_def Let_def target_hrt_get_current_def)
qed

lemma started_reachable: "reachable cf no_handlers (\<lambda>i. int i + 1) [] (boot hrt) (started hrt)"
  by (simp add: reachable_def no_handlers_ok boot_booted inirtns_ok_def started_def)

lemma interrupted_reachable: "reachable cf no_handlers (\<lambda>i. int i + 1) [] (boot hrt) (irq_enter (started hrt))"
  by (rule reachable_step [OF started_reachable step.interrupt]) (simp_all add: started_ok)

end
