(* ===== verification/LogOutput.thy ===== *)
theory LogOutput
  imports Kernel
begin

unbundle bit_operations_syntax

text \<open>
  The text of the system log: asp3\_dcre/library/log\_output.c, which formats a log record, vasyslog.c, which collects the
  arguments of a message into a record, strerror.c and t\_perror.c. A C string is the list of its characters before
  the terminating null; \<open>str\<close> gives the string at an address, and \<open>putc\<close> appends to the output. The parameters of
  a record are an array, of which \<open>p_args\<close> is an index.
\<close>

section \<open>Log records\<close>

type_synonym LOGPAR = intptr_t

record syslog =
  logtype :: uint
  logtim :: HRTCNT
  logpar :: "nat \<Rightarrow> LOGPAR"

abbreviation LOG_TYPE_COMMENT :: uint where "LOG_TYPE_COMMENT \<equiv> 1"
abbreviation LOG_TYPE_ASSERT :: uint where "LOG_TYPE_ASSERT \<equiv> 2"
abbreviation TNUM_LOGPAR :: nat where "TNUM_LOGPAR \<equiv> 6"
abbreviation NUL :: char where "NUL \<equiv> CHR 0x00"

section \<open>Numbers\<close>

definition CONVERT_BUFLEN :: nat where "CONVERT_BUFLEN = (4 * 8 + 2) div 3"

definition raddec :: string where "raddec = ''0123456789''"
definition radhex :: string where "radhex = ''0123456789abcdef''"
definition radHEX :: string where "radHEX = ''0123456789ABCDEF''"

text \<open>The loop that fills the buffer \<open>buf\<close>, least significant digit first.\<close>

function convert_loop :: "uint \<Rightarrow> string \<Rightarrow> uint \<Rightarrow> string \<Rightarrow> string" where
  "convert_loop radix radchar val buf =
     (let buf = buf @ [radchar ! unat (val mod radix)]; val = val div radix
      in if length buf < CONVERT_BUFLEN \<and> val \<noteq> 0 then convert_loop radix radchar val buf else buf)"
  by pat_completeness auto
termination by (relation "measure (\<lambda>(radix, radchar, val, buf). CONVERT_BUFLEN - length buf)") auto

declare convert_loop.simps [simp del]

definition convert :: "uint \<Rightarrow> uint \<Rightarrow> string \<Rightarrow> uint \<Rightarrow> bool \<Rightarrow> bool \<Rightarrow> string" where
  "convert val radix radchar width neg padzero =
     (let buf = convert_loop radix radchar val [];
          width = (if neg \<and> width > 0 then width - 1 else width)
      in (if neg \<and> padzero then ''-'' else []) @
         replicate (unat width - length buf) (if padzero then CHR ''0'' else CHR '' '') @
         (if neg \<and> \<not> padzero then ''-'' else []) @ rev buf)"

text \<open>The case of \<open>%d\<close>.\<close>

definition print_d :: "LOGPAR \<Rightarrow> uint \<Rightarrow> bool \<Rightarrow> string" where
  "print_d val width padzero =
     (if sint val \<ge> 0 then convert val 10 raddec width False padzero else convert (- val) 10 raddec width True padzero)"

section \<open>Formats\<close>

definition is_digit :: "char \<Rightarrow> bool" where
  "is_digit c \<longleftrightarrow> (of_char CHR ''0'' :: nat) \<le> of_char c \<and> (of_char c :: nat) \<le> of_char CHR ''9''"

text \<open>\<open>c = *format++\<close>; at the end of the string the null is read, and \<open>format\<close> is not moved past it.\<close>

fun fetch :: "string \<Rightarrow> char \<times> string" where
  "fetch [] = (NUL, [])"
| "fetch (c # fs) = (c, fs)"

fun scan_width :: "uint \<Rightarrow> char \<Rightarrow> string \<Rightarrow> uint \<times> char \<times> string" where
  "scan_width width c fs =
     (if is_digit c then
        let width = width * 10 + of_char c - of_char CHR ''0''
        in case fs of [] \<Rightarrow> (width, NUL, []) | d # ds \<Rightarrow> scan_width width d ds
      else (width, c, fs))"

declare scan_width.simps [simp del]

text \<open>What stands between \<open>%\<close> and the conversion character: \<open>padzero\<close>, \<open>width\<close>, the character, and the rest of the format.\<close>

definition conversion_head :: "string \<Rightarrow> bool \<times> uint \<times> char \<times> string" where
  "conversion_head fs =
     (let (c, fs) = fetch fs;
          (padzero, c, fs) = (if c = CHR ''0'' then (True, fetch fs) else (False, c, fs));
          (width, c, fs) = scan_width 0 c fs;
          (c, fs) = (if c = CHR ''l'' \<or> c = CHR ''t'' \<or> c = CHR ''T'' then fetch fs else (c, fs))
      in (padzero, width, c, fs))"

lemma fetch_length: "length (snd (fetch fs)) \<le> length fs"
  by (cases fs) simp_all

lemma scan_width_length: "length (snd (snd (scan_width w c fs))) \<le> length fs"
proof (induction fs arbitrary: w c)
  case (Cons d ds)
  then show ?case by (subst scan_width.simps) (auto simp: Let_def intro: le_SucI)
qed (simp add: scan_width.simps Let_def)

lemma conversion_head_length: "length (snd (snd (snd (conversion_head fs)))) \<le> length fs"
proof -
  define a where "a = fetch fs"
  define b where "b = (if fst a = CHR ''0'' then (True, fetch (snd a)) else (False, a))"
  define w where "w = scan_width 0 (fst (snd b)) (snd (snd b))"
  have "conversion_head fs = (fst b, fst w, if fst (snd w) = CHR ''l'' \<or> fst (snd w) = CHR ''t'' \<or> fst (snd w) = CHR ''T''
      then fetch (snd (snd w)) else snd w)"
    by (simp add: conversion_head_def Let_def case_prod_unfold a_def b_def w_def)
  moreover have "length (snd (snd b)) \<le> length fs"
    using fetch_length [of fs] fetch_length [of "snd a"] by (auto simp: b_def a_def)
  moreover have "length (snd (snd w)) \<le> length (snd (snd b))" by (simp add: w_def scan_width_length)
  ultimately show ?thesis using fetch_length [of "snd (snd w)"] by auto
qed

lemma conversion_head_less: "(padzero, width, c, gs) = conversion_head fs \<Longrightarrow> length gs < Suc (length fs)"
  using conversion_head_length [of fs] by (metis le_imp_less_Suc snd_conv)

function syslog_printf :: "(addr \<Rightarrow> string) \<Rightarrow> string \<Rightarrow> (nat \<Rightarrow> LOGPAR) \<Rightarrow> nat \<Rightarrow> string" where
  "syslog_printf str [] args n = []"
| "syslog_printf str (c # fs) args n =
     (if c \<noteq> CHR ''%'' then c # syslog_printf str fs args n
      else let (padzero, width, c, fs) = conversion_head fs
        in if c = CHR ''d'' then print_d (args n) width padzero @ syslog_printf str fs args (n + 1)
           else if c = CHR ''u'' then convert (args n) 10 raddec width False padzero @ syslog_printf str fs args (n + 1)
           else if c = CHR ''x'' \<or> c = CHR ''p'' then convert (args n) 16 radhex width False padzero @ syslog_printf str fs args (n + 1)
           else if c = CHR ''X'' then convert (args n) 16 radHEX width False padzero @ syslog_printf str fs args (n + 1)
           else if c = CHR ''c'' then char_of (unat (args n)) # syslog_printf str fs args (n + 1)
           else if c = CHR ''s'' then str (args n) @ syslog_printf str fs args (n + 1)
           else if c = CHR ''%'' then CHR ''%'' # syslog_printf str fs args n
           else syslog_printf str fs args n)"
  by pat_completeness auto
termination by (relation "measure (\<lambda>(str, fs, args, n). length fs)") (auto dest: conversion_head_less)

declare syslog_printf.simps(2) [simp del]

section \<open>Records\<close>

definition syslog_print :: "(addr \<Rightarrow> string) \<Rightarrow> syslog \<Rightarrow> string" where
  "syslog_print str r =
     (if logtype r = LOG_TYPE_COMMENT then syslog_printf str (str (logpar r 0)) (logpar r) 1 @ [CHR 0x0A]
      else if logtype r = LOG_TYPE_ASSERT then
        syslog_printf str (''%s:%u: Assertion `%s'' @ [CHR 0x27] @ '' failed.'') (logpar r) 0 @ [CHR 0x0A]
      else [])"

definition syslog_lostmsg :: "(addr \<Rightarrow> string) \<Rightarrow> uint \<Rightarrow> string" where
  "syslog_lostmsg str lostlog = syslog_printf str ''%d messages are lost.'' (\<lambda>i. lostlog) 0 @ [CHR 0x0A]"

section \<open>The arguments of a message\<close>

text \<open>
  \<open>ap j\<close> is the argument that the \<open>j\<close>-th \<open>va_arg\<close> reads; a type of 32 bits reads the lower half. The only type of 64
  bits is \<open>SYSTIM\<close>, which the conversion to \<open>LOGPAR\<close> truncates.
\<close>

definition int_arg :: "char \<Rightarrow> 64 word \<Rightarrow> LOGPAR" where
  "int_arg sz a = (if sz = CHR ''T'' then ucast a else ucast (ucast a :: 32 word))"

fun skip_digits :: "char \<Rightarrow> string \<Rightarrow> char \<times> string" where
  "skip_digits c fs = (if is_digit c then (case fs of [] \<Rightarrow> (NUL, []) | d # ds \<Rightarrow> skip_digits d ds) else (c, fs))"

declare skip_digits.simps [simp del]

definition arg_head :: "string \<Rightarrow> char \<times> char \<times> string" where
  "arg_head fs =
     (let (c, fs) = fetch fs;
          (c, fs) = skip_digits c fs
      in if c = CHR ''l'' \<or> c = CHR ''t'' \<or> c = CHR ''T'' then (c, fetch fs) else (NUL, c, fs))"

text \<open>The two parsers of formats agree: the conversion character and what follows it are the same.\<close>

lemma skip_digits_scan: "skip_digits c fs = snd (scan_width w c fs)"
proof (induction fs arbitrary: w c)
  case Nil
  then show ?case by (simp add: skip_digits.simps scan_width.simps Let_def)
next
  case (Cons d ds)
  show ?case
    by (subst skip_digits.simps, subst scan_width.simps) (simp add: Let_def Cons.IH [symmetric])
qed

lemma arg_head_conversion: "snd (arg_head fs) = snd (snd (conversion_head fs))"
proof -
  obtain c gs where f: "fetch fs = (c, gs)" by fastforce
  have z: "skip_digits (CHR ''0'') gs = skip_digits (fst (fetch gs)) (snd (fetch gs))"
    by (cases gs) (simp_all add: skip_digits.simps [of "CHR ''0''"] skip_digits.simps [of NUL] is_digit_def)
  have z: "snd (scan_width 0 (CHR ''0'') gs) = snd (scan_width 0 (fst (fetch gs)) (snd (fetch gs)))"
    using z unfolding skip_digits_scan [of _ _ 0] .
  show ?thesis
    unfolding arg_head_def conversion_head_def f skip_digits_scan [of _ _ 0]
    by (cases "c = CHR ''0''") (simp_all add: z Let_def case_prod_unfold)
qed

lemma arg_head_less: "(sz, c, gs) = arg_head fs \<Longrightarrow> length gs < Suc (length fs)"
  using conversion_head_length [of fs] arg_head_conversion [of fs] by (metis le_imp_less_Suc snd_conv)

function tt_syslog_loop :: "string \<Rightarrow> nat \<Rightarrow> (nat \<Rightarrow> 64 word) \<Rightarrow> nat \<Rightarrow> (nat \<Rightarrow> LOGPAR) \<Rightarrow> nat \<Rightarrow> LOGPAR" where
  "tt_syslog_loop [] i ap j p = p"
| "tt_syslog_loop (c # fs) i ap j p =
     (if \<not> i < TNUM_LOGPAR then p
      else if c \<noteq> CHR ''%'' then tt_syslog_loop fs i ap j p
      else let (sz, c, fs) = arg_head fs
        in if c = CHR ''d'' then tt_syslog_loop fs (i + 1) ap (j + 1) (p(i := int_arg sz (ap j)))
           else if c = CHR ''u'' \<or> c = CHR ''x'' \<or> c = CHR ''X'' then tt_syslog_loop fs (i + 1) ap (j + 1) (p(i := int_arg sz (ap j)))
           else if c = CHR ''p'' then tt_syslog_loop fs (i + 1) ap (j + 1) (p(i := ucast (ap j)))
           else if c = CHR ''c'' then tt_syslog_loop fs (i + 1) ap (j + 1) (p(i := ucast (ap j)))
           else if c = CHR ''s'' then tt_syslog_loop fs (i + 1) ap (j + 1) (p(i := ucast (ap j)))
           else tt_syslog_loop fs i ap j p)"
  by pat_completeness auto
termination by (relation "measure (\<lambda>(fs, i, ap, j, p). length fs)") (auto dest: arg_head_less)

declare tt_syslog_loop.simps(2) [simp del]

definition tt_syslog :: "(addr \<Rightarrow> string) \<Rightarrow> addr \<Rightarrow> (nat \<Rightarrow> 64 word) \<Rightarrow> syslog \<Rightarrow> syslog" where
  "tt_syslog str format ap buf =
     buf\<lparr>logtype := LOG_TYPE_COMMENT, logpar := tt_syslog_loop (str format) 1 ap 0 ((logpar buf)(0 := format))\<rparr>"

section \<open>Error messages\<close>

text \<open>An \<open>ER\<close> has the main error code in its low byte, and the sub error code above.\<close>

definition MERCD :: "32 word \<Rightarrow> int" where "MERCD ercd = sint (ucast ercd :: 8 word)"
definition SERCD :: "32 word \<Rightarrow> 32 word" where "SERCD ercd = signed_drop_bit 8 ercd"
definition ERCD :: "int \<Rightarrow> int \<Rightarrow> 32 word" where
  "ERCD mercd sercd = push_bit 8 (word_of_int sercd) OR (word_of_int mercd AND 0xff)"

definition error_names :: "(int \<times> string) list" where
  "error_names =
     [(0, ''E_OK''), (- 5, ''E_SYS''), (- 9, ''E_NOSPT''), (- 10, ''E_RSFN''), (- 11, ''E_RSATR''),
      (- 17, ''E_PAR''), (- 18, ''E_ID''), (- 25, ''E_CTX''), (- 26, ''E_MACV''), (- 27, ''E_OACV''),
      (- 28, ''E_ILUSE''), (- 33, ''E_NOMEM''), (- 34, ''E_NOID''), (- 35, ''E_NORES''), (- 41, ''E_OBJ''),
      (- 42, ''E_NOEXS''), (- 43, ''E_QOVR''), (- 49, ''E_RLWAI''), (- 50, ''E_TMOUT''), (- 51, ''E_DLT''),
      (- 52, ''E_CLS''), (- 53, ''E_RASTER''), (- 57, ''E_WBLK''), (- 58, ''E_BOVR''), (- 65, ''E_COMM'')]"

definition itron_strerror :: "32 word \<Rightarrow> string" where
  "itron_strerror ercd = (case map_of error_names (MERCD ercd) of Some m \<Rightarrow> m | None \<Rightarrow> ''unknown error'')"

text \<open>\<open>lit\<close> gives the addresses of string literals.\<close>

definition perror_message :: string where
  "perror_message = ''%s (%d) reported by `%s'' @ [CHR 0x27] @ '' in line %d of `%s'' @ [CHR 0x27] @ ''.''"

definition tt_perror :: "(string \<Rightarrow> addr) \<Rightarrow> addr \<Rightarrow> 32 word \<Rightarrow> addr \<Rightarrow> 32 word \<Rightarrow> syslog \<Rightarrow> syslog" where
  "tt_perror lit file line expr ercd buf =
     buf\<lparr>logtype := LOG_TYPE_COMMENT,
         logpar := (logpar buf)(0 := lit perror_message, 1 := lit (itron_strerror ercd), 2 := SERCD ercd, 3 := expr, 4 := line, 5 := file)\<rparr>"

section \<open>What is logged is what is printed\<close>

text \<open>How many arguments a format uses.\<close>

definition takes_arg :: "char \<Rightarrow> bool" where
  "takes_arg c \<longleftrightarrow> c \<in> {CHR ''d'', CHR ''u'', CHR ''x'', CHR ''X'', CHR ''p'', CHR ''c'', CHR ''s''}"

function arg_count :: "string \<Rightarrow> nat" where
  "arg_count [] = 0"
| "arg_count (c # fs) =
     (if c \<noteq> CHR ''%'' then arg_count fs
      else let (sz, c, fs) = arg_head fs in if takes_arg c then Suc (arg_count fs) else arg_count fs)"
  by pat_completeness auto
termination by (relation "measure length") (auto dest: arg_head_less)

declare arg_count.simps(2) [simp del]

lemma arg_count_simps:
  "c \<noteq> CHR ''%'' \<Longrightarrow> arg_count (c # fs) = arg_count fs"
  "conversion_head fs = (z, w, c, gs) \<Longrightarrow> arg_count (CHR ''%'' # fs) = (if takes_arg c then Suc (arg_count gs) else arg_count gs)"
  using arg_head_conversion [of fs] by (auto simp: arg_count.simps(2) case_prod_unfold)

text \<open>The output depends on the arguments that the format uses, and on no others.\<close>

lemma syslog_printf_args:
  "(\<And>k. k < arg_count fmt \<Longrightarrow> args (n + k) = args' (m + k)) \<Longrightarrow> syslog_printf str fmt args n = syslog_printf str fmt args' m"
proof (induction fmt arbitrary: n m rule: length_induct)
  case (1 fmt)
  show ?case
  proof (cases fmt)
    case (Cons c fs)
    show ?thesis
    proof (cases "c = CHR ''%''")
      case False
      then have "syslog_printf str fs args n = syslog_printf str fs args' m"
        using "1.IH" [rule_format, of fs n m] "1.prems" by (simp add: Cons arg_count_simps)
      then show ?thesis using False by (simp add: Cons syslog_printf.simps(2))
    next
      case True
      obtain z w d gs where h: "conversion_head fs = (z, w, d, gs)" by (metis prod_cases4)
      have l: "length gs < length fmt" using conversion_head_less [OF h [symmetric]] by (simp add: Cons)
      have f: "arg_count fmt = (if takes_arg d then Suc (arg_count gs) else arg_count gs)"
        using arg_count_simps(2) [OF h] by (simp add: Cons True)
      show ?thesis
      proof (cases "takes_arg d")
        case t: True
        have "args n = args' m" using "1.prems" [of 0] f t by simp
        moreover have "syslog_printf str gs args (n + 1) = syslog_printf str gs args' (m + 1)"
          using "1.prems" [of "Suc _"] f t by (intro "1.IH" [rule_format, OF l]) simp
        ultimately show ?thesis using t by (auto simp: Cons True syslog_printf.simps(2) h takes_arg_def)
      next
        case t: False
        have "syslog_printf str gs args n = syslog_printf str gs args' m"
          using "1.prems" f t by (intro "1.IH" [rule_format, OF l]) simp
        then show ?thesis using t by (simp add: Cons True syslog_printf.simps(2) h takes_arg_def)
      qed
    qed
  qed simp
qed

text \<open>\<open>tt_syslog\<close> stores as many of the arguments as the format uses, up to the end of the array.\<close>

lemma int_arg_ucast [simp]: "int_arg sz a = ucast a"
  by (simp add: int_arg_def)

lemma tt_syslog_loop_args:
  "tt_syslog_loop fmt i ap j p k = (if i \<le> k \<and> k < i + arg_count fmt \<and> k < TNUM_LOGPAR then ucast (ap (j + (k - i))) else p k)"
proof (induction fmt arbitrary: i j p rule: length_induct)
  case (1 fmt)
  show ?case
  proof (cases fmt)
    case (Cons c fs)
    show ?thesis
    proof (cases "c = CHR ''%'' \<and> i < TNUM_LOGPAR")
      case False
      have "tt_syslog_loop fs i ap j p k = (if i \<le> k \<and> k < i + arg_count fs \<and> k < TNUM_LOGPAR then ucast (ap (j + (k - i))) else p k)"
        using "1.IH" [rule_format, of fs i j p] by (simp add: Cons)
      then show ?thesis using False by (cases "c = CHR ''%''") (auto simp: Cons tt_syslog_loop.simps(2) arg_count_simps)
    next
      case True
      obtain z d gs where h: "arg_head fs = (z, d, gs)" by (metis prod_cases3)
      have l: "length gs < length fmt" using arg_head_less [OF h [symmetric]] by (simp add: Cons)
      have f: "arg_count fmt = (if takes_arg d then Suc (arg_count gs) else arg_count gs)"
        using True h by (simp add: Cons arg_count.simps(2))
      show ?thesis
      proof (cases "takes_arg d")
        case t: True
        then have "tt_syslog_loop fmt i ap j p = tt_syslog_loop gs (i + 1) ap (j + 1) (p(i := ucast (ap j)))"
          using True by (auto simp: Cons tt_syslog_loop.simps(2) h takes_arg_def)
        moreover have "Suc (j + (k - Suc i)) = j + (k - i)" if "Suc i \<le> k" using that by simp
        ultimately show ?thesis using "1.IH" [rule_format, OF l, of "i + 1" "j + 1" "p(i := ucast (ap j))"] True f t
          by (auto simp: Suc_le_eq)
      next
        case t: False
        then have "tt_syslog_loop fmt i ap j p = tt_syslog_loop gs i ap j p"
          using True by (auto simp: Cons tt_syslog_loop.simps(2) h takes_arg_def)
        then show ?thesis using "1.IH" [rule_format, OF l, of i j p] f t by simp
      qed
    qed
  qed auto
qed

lemma log_then_print:
  assumes "arg_count (str format) < TNUM_LOGPAR"
  shows "syslog_print str (tt_syslog str format ap buf) = syslog_printf str (str format) (\<lambda>k. ucast (ap k)) 0 @ [CHR 0x0A]"
proof -
  have "logpar (tt_syslog str format ap buf) 0 = format" by (simp add: tt_syslog_def tt_syslog_loop_args)
  moreover have "syslog_printf str (str format) (logpar (tt_syslog str format ap buf)) 1 = syslog_printf str (str format) (\<lambda>k. ucast (ap k)) 0"
    using assms by (intro syslog_printf_args) (simp add: tt_syslog_def tt_syslog_loop_args)
  ultimately show ?thesis by (simp add: syslog_print_def tt_syslog_def)
qed

section \<open>Numbers are printed as they are\<close>

text \<open>The digits of a number, least significant first, and the number that digits denote.\<close>

fun digits :: "nat \<Rightarrow> nat \<Rightarrow> nat list" where
  "digits r v = (if v < r \<or> r < 2 then [v] else (v mod r) # digits r (v div r))"

declare digits.simps [simp del]

lemma digits_value: "foldr (\<lambda>d a. d + r * a) (digits r v) 0 = v"
  by (induction r v rule: digits.induct) (subst digits.simps, simp)

lemma digits_less: "2 \<le> r \<Longrightarrow> d \<in> set (digits r v) \<Longrightarrow> d < r"
proof (induction r v rule: digits.induct)
  case (1 r v)
  then show ?case by (cases "v < r") (auto simp: digits.simps [of r v])
qed

lemma digits_not_Nil [simp]: "digits r v \<noteq> []"
  by (simp add: digits.simps)

text \<open>The buffer is large enough for every number in every radix of at least 8.\<close>

lemma convert_loop_digits:
  "2 \<le> unat radix \<Longrightarrow> length buf < CONVERT_BUFLEN \<Longrightarrow> unat val < unat radix ^ (CONVERT_BUFLEN - length buf) \<Longrightarrow>
    convert_loop radix radchar val buf = buf @ map (\<lambda>d. radchar ! d) (digits (unat radix) (unat val))"
proof (induction radix radchar val buf rule: convert_loop.induct)
  case (1 radix radchar val buf)
  let ?r = "unat radix" and ?v = "unat val"
  define n where "n = CONVERT_BUFLEN - length buf"
  define buf' where "buf' = buf @ [radchar ! unat (val mod radix)]"
  have d: "unat (val div radix) = ?v div ?r" "unat (val mod radix) = ?v mod ?r" by (simp_all add: unat_div unat_mod)
  have "val div radix = 0 \<longleftrightarrow> ?v div ?r = 0" unfolding d(1) [symmetric] by (simp add: unat_eq_zero)
  then have z: "val div radix = 0 \<longleftrightarrow> ?v < ?r" using "1.prems"(1) by (auto simp: div_eq_0_iff)
  have n: "0 < n" "?v < ?r ^ n" using "1.prems" by (simp_all add: n_def)
  show ?case
  proof (cases "?v < ?r")
    case True
    then have "convert_loop radix radchar val buf = buf'"
      using z by (subst convert_loop.simps) (simp add: Let_def buf'_def)
    then show ?thesis using True d(2) by (simp add: buf'_def digits.simps)
  next
    case False
    have "n \<noteq> 1" using n(2) False by auto
    then have l: "length buf' < CONVERT_BUFLEN" "CONVERT_BUFLEN - length buf' = n - 1" using n(1) by (simp_all add: buf'_def n_def)
    have "?r ^ n = ?r ^ (n - 1) * ?r" using n(1) by (metis power_minus_mult)
    then have v: "unat (val div radix) < ?r ^ (CONVERT_BUFLEN - length buf')"
      using n(2) unfolding d(1) l(2) by (simp add: less_mult_imp_div_less)
    have "convert_loop radix radchar val buf = convert_loop radix radchar (val div radix) buf'"
      using False z l(1) by (subst convert_loop.simps) (simp add: Let_def buf'_def)
    also have "\<dots> = buf' @ map (\<lambda>d. radchar ! d) (digits ?r (unat (val div radix)))"
      using "1.IH" [OF buf'_def refl _ "1.prems"(1) l(1) v] l(1) z False by simp
    finally show ?thesis using False "1.prems"(1) d by (simp add: buf'_def digits.simps [of ?r ?v])
  qed
qed

text \<open>Reading a decimal number: blanks, a sign, digits.\<close>

definition read_nat :: "string \<Rightarrow> nat" where
  "read_nat s = foldl (\<lambda>a c. a * 10 + (of_char c - of_char CHR ''0'')) 0 s"

definition read_int :: "string \<Rightarrow> int" where
  "read_int s =
     (case dropWhile (\<lambda>c. c = CHR '' '') s of
        [] \<Rightarrow> 0
      | c # t \<Rightarrow> if c = CHR ''-'' then - int (read_nat t) else int (read_nat (c # t)))"

lemma raddec_digit:
  assumes "d < 10"
  shows "of_char (raddec ! d) - of_char CHR ''0'' = d" "raddec ! d \<noteq> CHR '' ''" "raddec ! d \<noteq> CHR ''-''"
proof -
  have "d \<in> {0, 1, 2, 3, 4, 5, 6, 7, 8, 9}" using assms by auto
  then show "of_char (raddec ! d) - of_char CHR ''0'' = d" "raddec ! d \<noteq> CHR '' ''" "raddec ! d \<noteq> CHR ''-''"
    by (auto simp: raddec_def)
qed

lemma read_nat_digits: "read_nat (rev (map (\<lambda>d. raddec ! d) (digits 10 v))) = v"
proof -
  have "foldr (\<lambda>c a. a * 10 + (of_char c - of_char CHR ''0'')) (map (\<lambda>d. raddec ! d) ds) 0 = foldr (\<lambda>d a. d + 10 * a) ds 0"
    if "\<forall>d\<in>set ds. d < 10" for ds :: "nat list"
    using that raddec_digit(1) by (induction ds) simp_all
  from this [of "digits 10 v"] have "foldr (\<lambda>c a. a * 10 + (of_char c - of_char CHR ''0'')) (map (\<lambda>d. raddec ! d) (digits 10 v)) 0 = v"
    using digits_less [of 10 _ v] digits_value [of 10 v] by auto
  then show ?thesis by (simp add: read_nat_def foldl_conv_foldr rev_map)
qed

lemma read_nat_zeros: "read_nat (replicate k (CHR ''0'') @ s) = read_nat s"
  by (induction k) (simp_all add: read_nat_def)

lemma convert_dec: "convert_loop 10 raddec val [] = map (\<lambda>d. raddec ! d) (digits 10 (unat val))"
proof -
  have "unat val < 10 ^ (CONVERT_BUFLEN - length [])"
    using unsigned_less [of val, where ?'a = nat] by (simp add: CONVERT_BUFLEN_def)
  then show ?thesis using convert_loop_digits [of 10 "[]" val raddec] by (simp add: CONVERT_BUFLEN_def)
qed

text \<open>A digit comes first, so no blank and no sign is taken away from it.\<close>

lemma first_digit:
  obtains c t where "rev (map (\<lambda>d. raddec ! d) (digits 10 v)) = c # t" "c \<noteq> CHR '' ''" "c \<noteq> CHR ''-''"
proof -
  obtain d where d: "rev (digits 10 v) = d # tl (rev (digits 10 v))" by (metis digits_not_Nil list.collapse rev_is_Nil_conv)
  then have "d \<in> set (digits 10 v)" by (metis list.set_intros(1) set_rev)
  then have "d < 10" using digits_less [of 10 d v] by simp
  then show ?thesis using that [of "raddec ! d" "map (\<lambda>d. raddec ! d) (tl (rev (digits 10 v)))"] d raddec_digit(2,3)
    by (metis list.simps(9) rev_map)
qed

lemma sint_unat:
  fixes val :: "32 word"
  shows "sint val \<ge> 0 \<Longrightarrow> int (unat val) = sint val" "sint val < 0 \<Longrightarrow> int (unat (- val)) = - sint val"
proof -
  have b: "- (2 ^ 31) \<le> sint val" "sint val < 2 ^ 31" using sint_greater_eq [of val] sint_less [of val] by simp_all
  have w: "word_of_int (sint val) = val" by simp
  have u: "uint val = sint val mod 2 ^ 32" using uint_word_of_int [of "sint val", where ?'a = 32] unfolding w by simp
  have m: "- val = word_of_int (- sint val)" by (simp add: w)
  have n: "uint (- val) = (- sint val) mod 2 ^ 32" unfolding m by (subst uint_word_of_int) simp
  show "int (unat val) = sint val" if "sint val \<ge> 0"
  proof -
    have "sint val mod 2 ^ 32 = sint val" by (rule mod_pos_pos_trivial) (use that b in auto)
    then show ?thesis unfolding uint_nat [symmetric] u .
  qed
  show "int (unat (- val)) = - sint val" if "sint val < 0"
  proof -
    have "(- sint val) mod 2 ^ 32 = - sint val" by (rule mod_pos_pos_trivial) (use that b in auto)
    then show ?thesis unfolding uint_nat [symmetric] n .
  qed
qed

lemma print_d_round_trip: "read_int (print_d val width padzero) = sint val"
proof (cases "sint val \<ge> 0")
  case True
  define ds where "ds = rev (map (\<lambda>d. raddec ! d) (digits 10 (unat val)))"
  obtain c t where c: "ds = c # t" "c \<noteq> CHR '' ''" "c \<noteq> CHR ''-''" unfolding ds_def by (rule first_digit)
  define k where "k = unat width - length ds"
  have p: "print_d val width padzero = replicate k (if padzero then CHR ''0'' else CHR '' '') @ ds"
    using True by (simp add: print_d_def convert_def Let_def convert_dec ds_def k_def)
  have v: "int (read_nat ds) = sint val" unfolding ds_def read_nat_digits by (rule sint_unat(1) [OF True])
  show ?thesis
  proof (cases "padzero \<and> 0 < k")
    case z: True
    then have "replicate k (CHR ''0'') = CHR ''0'' # replicate (k - 1) (CHR ''0'')" by (cases k) simp_all
    then have "read_int (print_d val width padzero) = int (read_nat (replicate k (CHR ''0'') @ ds))"
      using z unfolding p by (simp add: read_int_def)
    then show ?thesis using v by (simp add: read_nat_zeros)
  next
    case False
    then have "dropWhile (\<lambda>c. c = CHR '' '') (print_d val width padzero) = ds" using c by (auto simp: p dropWhile_append)
    then show ?thesis using c v by (simp add: read_int_def)
  qed
next
  case False
  define ds where "ds = rev (map (\<lambda>d. raddec ! d) (digits 10 (unat (- val))))"
  define k where "k = unat (if width > 0 then width - 1 else width) - length ds"
  have p: "print_d val width padzero = (if padzero then CHR ''-'' # replicate k (CHR ''0'') @ ds else replicate k (CHR '' '') @ CHR ''-'' # ds)"
    using False by (simp add: print_d_def convert_def Let_def convert_dec ds_def k_def)
  have v: "- int (read_nat ds) = sint val" unfolding ds_def read_nat_digits using False sint_unat(2) [of val] by linarith
  have "dropWhile (\<lambda>c. c = CHR '' '') (print_d val width padzero) =
      CHR ''-'' # (if padzero then replicate k (CHR ''0'') @ ds else ds)" by (auto simp: p dropWhile_append)
  then show ?thesis using v by (auto simp: read_int_def read_nat_zeros)
qed

text \<open>At least as many characters as asked for are printed.\<close>

lemma convert_length: "unat width \<le> length (convert val radix radchar width neg padzero)"
proof -
  have "unat (width - 1) = unat width - 1" if "0 < width" using that by (intro unat_minus_one) (simp add: word_greater_zero_iff)
  then show ?thesis by (auto simp: convert_def Let_def)
qed

text \<open>Formats without conversions, and error codes.\<close>

lemma print_plain: "CHR ''%'' \<notin> set s \<Longrightarrow> syslog_printf str s args n = s"
  by (induction s) (auto simp: syslog_printf.simps(2))

lemma strerror_code: "\<exists>m. itron_strerror (word_of_int (ER_code e)) = m \<and> map_of error_names (ER_code e) = Some m"
  by (cases e; simp add: itron_strerror_def MERCD_def; code_simp)

end
