(* ===== verification/Syslog.thy ===== *)
theory Syslog
  imports LogOutput Ring
begin

unbundle bit_operations_syntax

text \<open>
  The system log, asp3\_dcre/syssvc/tSysLog.c: a ring buffer of log records, in which a new record takes the place of the
  oldest when it is full, and low-level output of records of high priority. \<open>log_at sz s L\<close>: the buffer of \<open>sz\<close> records
  holds \<open>L\<close>, oldest first. \<open>lg_low\<close> is what has been put out through \<open>cPutLog\<close>.
\<close>

section \<open>State and operations\<close>

record logcb =
  lg_buffer :: "nat \<Rightarrow> syslog"
  lg_count :: uint
  lg_head :: uint
  lg_tail :: uint
  lg_lost :: uint
  lg_logmask :: uint
  lg_lowmask :: uint
  lg_low :: string

definition LOG_MASK :: "uint \<Rightarrow> uint" where "LOG_MASK prio = push_bit (unat prio) 1"

text \<open>\<open>now\<close> is what \<open>SYSLOG_GET_LOGTIM\<close> gives; the record of the caller gets it too.\<close>

definition eSysLog_write :: "(addr \<Rightarrow> string) \<Rightarrow> uint \<Rightarrow> HRTCNT \<Rightarrow> uint \<Rightarrow> syslog \<Rightarrow> logcb \<Rightarrow> er \<times> syslog \<times> logcb" where
  "eSysLog_write str sz now prio r s =
     (let r = r\<lparr>logtim := now\<rparr>;
          s = (if lg_logmask s AND LOG_MASK prio \<noteq> 0 then
                 let s = s\<lparr>lg_buffer := (lg_buffer s)(unat (lg_tail s) := r)\<rparr>;
                     s = s\<lparr>lg_tail := lg_tail s + 1\<rparr>;
                     s = (if lg_tail s \<ge> sz then s\<lparr>lg_tail := 0\<rparr> else s)
                 in if lg_count s < sz then s\<lparr>lg_count := lg_count s + 1\<rparr>
                    else s\<lparr>lg_head := lg_tail s, lg_lost := lg_lost s + 1\<rparr>
               else s);
          s = (if lg_lowmask s AND LOG_MASK prio \<noteq> 0 then s\<lparr>lg_low := lg_low s @ syslog_print str r\<rparr> else s)
      in (E_OK, r, s))"

text \<open>The count of lost records is returned as an \<open>ER_UINT\<close>, a signed number.\<close>

definition eSysLog_read :: "uint \<Rightarrow> logcb \<Rightarrow> svc \<times> syslog option \<times> logcb" where
  "eSysLog_read sz s =
     (if lg_count s > 0 then
        let r = lg_buffer s (unat (lg_head s));
            s = s\<lparr>lg_count := lg_count s - 1\<rparr>;
            s = s\<lparr>lg_head := lg_head s + 1\<rparr>;
            s = (if lg_head s \<ge> sz then s\<lparr>lg_head := 0\<rparr> else s);
            ercd = RetUint (sint (lg_lost s))
        in (ercd, Some r, s\<lparr>lg_lost := 0\<rparr>)
      else (Ret E_OBJ, None, s))"

definition eSysLog_mask :: "uint \<Rightarrow> uint \<Rightarrow> logcb \<Rightarrow> er \<times> logcb" where
  "eSysLog_mask logMask lowMask s = (E_OK, s\<lparr>lg_logmask := logMask, lg_lowmask := lowMask\<rparr>)"

record syslog_rlog =
  rl_count :: uint
  rl_lost :: uint
  rl_logmask :: uint
  rl_lowmask :: uint

definition eSysLog_refer :: "logcb \<Rightarrow> er \<times> syslog_rlog" where
  "eSysLog_refer s =
     (E_OK, \<lparr>rl_count = lg_count s, rl_lost = lg_lost s, rl_logmask = lg_logmask s, rl_lowmask = lg_lowmask s\<rparr>)"

text \<open>
  The loop of \<open>eSysLog_flush\<close>: \<open>putc\<close> appends to \<open>out\<close>. It ends at the first negative result.
\<close>

lemma read_count:
  assumes "eSysLog_read sz s = (c, Some r, s')" shows "unat (lg_count s') < unat (lg_count s)"
proof -
  have c: "lg_count s > 0" "lg_count s' = lg_count s - 1" using assms by (auto simp: eSysLog_read_def Let_def split: if_splits)
  then show ?thesis by (simp add: unat_minus_one word_greater_zero_iff unat_gt_0)
qed

function flush_loop :: "(addr \<Rightarrow> string) \<Rightarrow> uint \<Rightarrow> string \<Rightarrow> logcb \<Rightarrow> string \<times> logcb" where
  "flush_loop str sz out s =
     (case eSysLog_read sz s of
        (RetUint rercd, Some r, s1) \<Rightarrow>
          if rercd < 0 then (out, s1)
          else let out = (if rercd > 0 then out @ syslog_lostmsg str (word_of_int rercd) else out)
               in flush_loop str sz (out @ syslog_print str r) s1
      | (_, _, s1) \<Rightarrow> (out, s1))"
  by pat_completeness auto
termination by (relation "measure (\<lambda>(str, sz, out, s). unat (lg_count s))") (auto dest: read_count [OF sym])

declare flush_loop.simps [simp del]

definition eSysLog_flush :: "(addr \<Rightarrow> string) \<Rightarrow> uint \<Rightarrow> logcb \<Rightarrow> er \<times> logcb" where
  "eSysLog_flush str sz s = (let (out, s) = flush_loop str sz [] s in (E_OK, s\<lparr>lg_low := lg_low s @ out\<rparr>))"

section \<open>The log keeps the newest records\<close>

definition log_at :: "uint \<Rightarrow> logcb \<Rightarrow> syslog list \<Rightarrow> bool" where
  "log_at sz s L \<longleftrightarrow> 0 < sz \<and> ring_at sz (lg_buffer s) (lg_head s) (lg_tail s) (lg_count s) L"

lemma log_at_low [simp]: "log_at sz (s\<lparr>lg_low := x\<rparr>) L = log_at sz s L" "log_at sz (s\<lparr>lg_lost := n\<rparr>) L = log_at sz s L"
  by (simp_all add: log_at_def)

text \<open>A record of a priority that is not logged is not stored, and counts as one that is not there.\<close>

definition logged :: "logcb \<Rightarrow> uint \<Rightarrow> bool" where
  "logged s prio \<longleftrightarrow> lg_logmask s AND LOG_MASK prio \<noteq> 0"

lemma write_log_at:
  assumes l: "log_at sz s L" and w: "eSysLog_write str sz now prio r s = (e, r', s')"
  shows "\<not> logged s prio \<Longrightarrow> log_at sz s' L \<and> lg_lost s' = lg_lost s"
    "logged s prio \<Longrightarrow> length L < unat sz \<Longrightarrow> log_at sz s' (L @ [r']) \<and> lg_lost s' = lg_lost s"
    "logged s prio \<Longrightarrow> length L = unat sz \<Longrightarrow> log_at sz s' (tl L @ [r']) \<and> lg_lost s' = lg_lost s + 1"
    "lg_logmask s' = lg_logmask s" "r' = r\<lparr>logtim := now\<rparr>"
proof -
  have a: "ring_at sz (lg_buffer s) (lg_head s) (lg_tail s) (lg_count s) L" "0 < sz" using l by (simp_all add: log_at_def)
  note d = w [symmetric, unfolded eSysLog_write_def Let_def]
  show "r' = r\<lparr>logtim := now\<rparr>" "lg_logmask s' = lg_logmask s" using d by (auto split: if_splits)
  show "log_at sz s' L \<and> lg_lost s' = lg_lost s" if "\<not> logged s prio"
    using d that l by (auto simp: logged_def split: if_splits)
  have c: "lg_count s < sz \<longleftrightarrow> length L < unat sz" using a by (simp add: ring_at_def word_less_nat_alt)
  show "log_at sz s' (L @ [r']) \<and> lg_lost s' = lg_lost s" if "logged s prio" "length L < unat sz"
    using d that c ring_put [OF a(1) that(2), of r'] a(2) by (auto simp: logged_def log_at_def ring_next_def split: if_splits)
  show "log_at sz s' (tl L @ [r']) \<and> lg_lost s' = lg_lost s + 1" if "logged s prio" "length L = unat sz"
    using d that c ring_force [OF a that(2), of r'] a(2) by (auto simp: logged_def log_at_def ring_next_def split: if_splits)
qed

lemma read_log_at:
  assumes "log_at sz s (r # L)"
  shows "\<exists>s'. eSysLog_read sz s = (RetUint (sint (lg_lost s)), Some r, s') \<and> log_at sz s' L \<and> lg_lost s' = 0 \<and> lg_low s' = lg_low s"
proof -
  have a: "ring_at sz (lg_buffer s) (lg_head s) (lg_tail s) (lg_count s) (r # L)" "0 < sz" using assms by (simp_all add: log_at_def)
  have "0 < lg_count s" using a(1) by (auto simp: ring_at_def word_greater_zero_iff)
  then show ?thesis using ring_get [OF a(1)] a(2) by (auto simp: eSysLog_read_def Let_def log_at_def ring_next_def split: if_splits)
qed

lemma read_log_empty: "log_at sz s [] \<Longrightarrow> eSysLog_read sz s = (Ret E_OBJ, None, s)"
  by (auto simp: log_at_def ring_at_def eSysLog_read_def unat_eq_zero)

text \<open>Many records written one after the other.\<close>

definition write_all :: "(addr \<Rightarrow> string) \<Rightarrow> uint \<Rightarrow> (HRTCNT \<times> uint \<times> syslog) list \<Rightarrow> logcb \<Rightarrow> logcb" where
  "write_all str sz ws s = fold (\<lambda>(now, prio, r) s. snd (snd (eSysLog_write str sz now prio r s))) ws s"

definition records :: "logcb \<Rightarrow> (HRTCNT \<times> uint \<times> syslog) list \<Rightarrow> syslog list" where
  "records s ws = [r\<lparr>logtim := now\<rparr>. (now, prio, r) \<leftarrow> ws, logged s prio]"

lemma write_all_keeps_newest:
  "log_at sz s L \<Longrightarrow>
   log_at sz (write_all str sz ws s) (drop (length (L @ records s ws) - unat sz) (L @ records s ws)) \<and>
   lg_lost (write_all str sz ws s) = lg_lost s + of_nat (length (L @ records s ws) - unat sz)"
proof (induction ws arbitrary: s L)
  case Nil
  then have "length L \<le> unat sz" using ring_bound(1) by (auto simp: log_at_def)
  then show ?case using Nil by (simp add: write_all_def records_def)
next
  case (Cons w ws)
  obtain now prio r where w: "w = (now, prio, r)" by (metis prod_cases3)
  obtain e r' s' where s': "eSysLog_write str sz now prio r s = (e, r', s')" by (metis prod_cases3)
  note wr = write_log_at [OF Cons.prems s']
  have f: "write_all str sz (w # ws) s = write_all str sz ws s'" by (simp add: write_all_def w s')
  have m: "logged s' = logged s" using wr(4) by (simp add: logged_def fun_eq_iff)
  have rec: "records s (w # ws) = (if logged s prio then r' # records s ws else records s ws)" "records s' ws = records s ws"
    using wr(5) m by (simp_all add: records_def w)
  have le: "length L \<le> unat sz" using Cons.prems ring_bound(1) by (auto simp: log_at_def)
  have pos: "0 < unat sz" using Cons.prems by (simp add: log_at_def word_less_nat_alt)
  show ?case
  proof (cases "logged s prio")
    case False
    then show ?thesis using Cons.IH [of s' L] wr(1) by (simp add: f rec)
  next
    case True
    show ?thesis
    proof (cases "length L < unat sz")
      case less: True
      then show ?thesis using Cons.IH [of s' "L @ [r']"] wr(2,5) True by (simp add: f rec)
    next
      case full: False
      then have eq: "length L = unat sz" using le by simp
      then have ne: "L \<noteq> []" using pos by auto
      let ?R = "records s ws"
      have IH: "log_at sz (write_all str sz ws s') (drop (length (tl L @ r' # ?R) - unat sz) (tl L @ r' # ?R)) \<and>
          lg_lost (write_all str sz ws s') = lg_lost s + 1 + of_nat (length (tl L @ r' # ?R) - unat sz)"
        using Cons.IH [of s' "tl L @ [r']"] wr(3) [OF True eq] by (simp add: rec(2))
      have n: "length (tl L @ r' # ?R) - unat sz = length ?R" "length (L @ r' # ?R) - unat sz = Suc (length ?R)" using eq ne pos by auto
      have "drop (Suc (length ?R)) (L @ r' # ?R) = drop (length ?R) (tl L @ r' # ?R)" using ne by (cases L) simp_all
      then show ?thesis using IH True unfolding f rec by (simp only: n if_True) simp
    qed
  qed
qed

text \<open>A flush puts out every record, in the order in which they came, and first how many were lost.\<close>

lemma flush_loop_prints:
  assumes "log_at sz s L" "sint (lg_lost s) \<ge> 0"
  shows "\<exists>s'. flush_loop str sz out s =
      (out @ (if L \<noteq> [] \<and> lg_lost s \<noteq> 0 then syslog_lostmsg str (lg_lost s) else []) @ concat (map (syslog_print str) L), s') \<and>
    log_at sz s' [] \<and> lg_low s' = lg_low s"
  using assms
proof (induction L arbitrary: s out)
  case Nil
  then show ?case by (simp add: flush_loop.simps read_log_empty)
next
  case (Cons r L)
  obtain s1 where s1: "eSysLog_read sz s = (RetUint (sint (lg_lost s)), Some r, s1)" "log_at sz s1 L" "lg_lost s1 = 0" "lg_low s1 = lg_low s"
    using read_log_at [OF Cons.prems(1)] by blast
  have p: "0 < sint (lg_lost s) \<longleftrightarrow> lg_lost s \<noteq> 0" using Cons.prems(2) by (metis linorder_not_le order_antisym signed_eq_0_iff less_le)
  define out' where "out' = (if lg_lost s \<noteq> 0 then out @ syslog_lostmsg str (lg_lost s) else out)"
  have "flush_loop str sz out s = flush_loop str sz (out' @ syslog_print str r) s1"
    using s1(1) Cons.prems(2) by (subst flush_loop.simps) (simp add: p out'_def Let_def)
  then show ?case using Cons.IH [of s1 "out' @ syslog_print str r"] s1 by (auto simp: out'_def)
qed

text \<open>A record, and an empty log of which all priorities are logged.\<close>

definition demo_rec :: syslog where "demo_rec = \<lparr>logtype = 0, logtim = 0, logpar = (\<lambda>_. 0)\<rparr>"

definition demo_log :: "uint \<Rightarrow> logcb" where
  "demo_log sz =
     \<lparr>lg_buffer = (\<lambda>_. demo_rec), lg_count = 0, lg_head = 0, lg_tail = 0, lg_lost = 0, lg_logmask = 0xFF, lg_lowmask = 0, lg_low = []\<rparr>"

lemma demo_log_at: "0 < sz \<Longrightarrow> log_at sz (demo_log sz) []"
  by (simp add: log_at_def demo_log_def ring_empty)

end
