(* ===== verification/SerialPort.thy ===== *)
theory SerialPort
  imports Kernel Ring
begin

unbundle bit_operations_syntax

text \<open>
  The serial port, asp3\_dcre/syssvc/tSerialPortMain.c: a ring buffer in each direction between a task and the interrupts of the
  simple I/O device, a semaphore of at most one resource for each, and flow control by START and STOP characters.
  \<open>sp_evs\<close> is the schedule: what happens while interrupts are enabled.
\<close>

section \<open>State\<close>

type_synonym word32 = "32 word"

text \<open>
  The attributes and variables of the cell, the two semaphores (at most one resource each), and the device: whether its
  callbacks are enabled, and how many characters its transmit register or FIFO has room for. \<open>tx_out\<close> and \<open>rx_log\<close>
  are the history: the characters the device took, and those that came into the receive buffer.

  The schedule: the device has sent \<open>n\<close> characters (a repeated interrupt is \<open>Sent 0\<close>), it has got a character; a task
  that does not wait goes on; a wait is broken off with an error.
\<close>

datatype sio_event = Sent nat | Got char | Go | Broken er

record sport =
  rcv_size :: word32
  snd_size :: word32
  sp_open :: bool
  sp_error :: bool
  sp_ioctl :: word32
  rcv_buf :: "nat \<Rightarrow> char"
  rcv_rp :: word32
  rcv_wp :: word32
  rcv_cnt :: word32
  rcv_fc :: char
  rcv_stopped :: bool
  snd_buf :: "nat \<Rightarrow> char"
  snd_rp :: word32
  snd_wp :: word32
  snd_cnt :: word32
  snd_stopped :: bool
  snd_sem :: nat
  rcv_sem :: nat
  cbr_snd :: bool
  cbr_rcv :: bool
  tx_room :: nat
  tx_out :: string
  rx_log :: string
  sp_evs :: "sio_event list"

abbreviation FC_NONE :: char where "FC_NONE \<equiv> CHR 0x00"
abbreviation FC_STOP :: char where "FC_STOP \<equiv> CHR 0x13"
abbreviation FC_START :: char where "FC_START \<equiv> CHR 0x11"
abbreviation CR :: char where "CR \<equiv> CHR 0x0D"
abbreviation LF :: char where "LF \<equiv> CHR 0x0A"

abbreviation IOCTL_ECHO :: word32 where "IOCTL_ECHO \<equiv> 0x0001"
abbreviation IOCTL_CRLF :: word32 where "IOCTL_CRLF \<equiv> 0x0010"
abbreviation IOCTL_FCSND :: word32 where "IOCTL_FCSND \<equiv> 0x0100"
abbreviation IOCTL_FCANY :: word32 where "IOCTL_FCANY \<equiv> 0x0200"
abbreviation IOCTL_FCRCV :: word32 where "IOCTL_FCRCV \<equiv> 0x0400"

definition BUFCNT_STOP :: "word32 \<Rightarrow> word32" where "BUFCNT_STOP bufsz = bufsz * 3 div 4"
definition BUFCNT_START :: "word32 \<Rightarrow> word32" where "BUFCNT_START bufsz = bufsz div 2"
definition INC_PTR :: "word32 \<Rightarrow> word32 \<Rightarrow> word32" where
  "INC_PTR ptr bufsz = (let ptr = ptr + 1 in if ptr = bufsz then 0 else ptr)"

section \<open>Interrupts\<close>

text \<open>A signal to a semaphore whose resource is there is an error.\<close>

definition signal_snd :: "sport \<Rightarrow> er \<times> sport" where
  "signal_snd s = (if snd_sem s = 0 then (E_OK, s\<lparr>snd_sem := 1\<rparr>) else (E_QOVR, s))"

definition signal_rcv :: "sport \<Rightarrow> er \<times> sport" where
  "signal_rcv s = (if rcv_sem s = 0 then (E_OK, s\<lparr>rcv_sem := 1\<rparr>) else (E_QOVR, s))"

text \<open>\<open>cSIOPort_putChar\<close>, as arch/arm\_gcc/rza1/tSCIF.c has it: the flag \<open>TDFE\<close> tells that there is room.\<close>

definition putChar :: "char \<Rightarrow> sport \<Rightarrow> bool \<times> sport" where
  "putChar c s = (if tx_room s > 0 then (True, s\<lparr>tx_room := tx_room s - 1, tx_out := tx_out s @ [c]\<rparr>) else (False, s))"

definition serialPort_sendChar :: "char \<Rightarrow> sport \<Rightarrow> bool \<times> sport" where
  "serialPort_sendChar c s = (let (sent, s) = putChar c s in if sent then (True, s) else (False, s\<lparr>cbr_snd := True\<rparr>))"

text \<open>A character leaves the send buffer; the semaphore is signalled if the buffer was full.\<close>

definition take_sent :: "sport \<Rightarrow> sport" where
  "take_sent s =
     (let s = s\<lparr>snd_rp := INC_PTR (snd_rp s) (snd_size s)\<rparr>;
          s = (if snd_cnt s = snd_size s then (let (e, s) = signal_snd s in if e \<noteq> E_OK then s\<lparr>sp_error := True\<rparr> else s) else s)
      in s\<lparr>snd_cnt := snd_cnt s - 1\<rparr>)"

definition eiSIOCBR_readySend :: "sport \<Rightarrow> sport" where
  "eiSIOCBR_readySend s =
     (if rcv_fc s \<noteq> FC_NONE then (snd (putChar (rcv_fc s) s))\<lparr>rcv_fc := FC_NONE\<rparr>
      else if \<not> snd_stopped s \<and> snd_cnt s > 0 then take_sent (snd (putChar (snd_buf s (unat (snd_rp s))) s))
      else s\<lparr>cbr_snd := False\<rparr>)"

text \<open>The loop that goes on sending after a START.\<close>

lemma take_sent_cnt: "snd_cnt (take_sent s) = snd_cnt s - 1"
  by (simp add: take_sent_def signal_snd_def Let_def)

lemma send_cnt: "serialPort_sendChar c s = (b, s') \<Longrightarrow> snd_cnt s' = snd_cnt s"
  by (auto simp: serialPort_sendChar_def putChar_def Let_def split: if_splits)

function resume_loop :: "sport \<Rightarrow> sport" where
  "resume_loop s =
     (if snd_cnt s > 0 then
        let c = snd_buf s (unat (snd_rp s)); (sent, s1) = serialPort_sendChar c s
        in if sent then resume_loop (take_sent s1) else s1
      else s)"
  by pat_completeness auto
termination
proof (relation "measure (\<lambda>s. unat (snd_cnt s))", goal_cases)
  case (2 s c x sent s1)
  then have "snd_cnt (take_sent s1) = snd_cnt s - 1" using send_cnt [of c s sent s1] by (simp add: take_sent_cnt)
  then show ?case using 2(1) by (simp add: unat_minus_one word_greater_zero_iff unat_gt_0)
qed simp

declare resume_loop.simps [simp del]

definition eiSIOCBR_readyReceive :: "char \<Rightarrow> sport \<Rightarrow> sport" where
  "eiSIOCBR_readyReceive c s =
     (if sp_ioctl s AND IOCTL_FCSND \<noteq> 0 \<and> c = FC_STOP then s\<lparr>snd_stopped := True\<rparr>
      else if snd_stopped s \<and> (c = FC_START \<or> sp_ioctl s AND IOCTL_FCANY \<noteq> 0) then resume_loop (s\<lparr>snd_stopped := False\<rparr>)
      else if sp_ioctl s AND IOCTL_FCSND \<noteq> 0 \<and> c = FC_START then s
      else if rcv_cnt s = rcv_size s then s
      else
        let s = s\<lparr>rcv_buf := (rcv_buf s)(unat (rcv_wp s) := c), rx_log := rx_log s @ [c]\<rparr>;
            s = s\<lparr>rcv_wp := INC_PTR (rcv_wp s) (rcv_size s)\<rparr>;
            s = (if rcv_cnt s = 0 then (let (e, s) = signal_rcv s in if e \<noteq> E_OK then s\<lparr>sp_error := True\<rparr> else s) else s);
            s = s\<lparr>rcv_cnt := rcv_cnt s + 1\<rparr>
        in if sp_ioctl s AND IOCTL_FCRCV \<noteq> 0 \<and> \<not> rcv_stopped s \<and> rcv_cnt s \<ge> BUFCNT_STOP (rcv_size s) then
             let (sent, s) = serialPort_sendChar FC_STOP s;
                 s = (if \<not> sent then s\<lparr>rcv_fc := FC_STOP\<rparr> else s)
             in s\<lparr>rcv_stopped := True\<rparr>
           else s)"

text \<open>The interrupts of the device, as tSCIF.c hands them on: while the callback is enabled.\<close>

definition eiTxISR_main :: "sport \<Rightarrow> sport" where
  "eiTxISR_main s = (if tx_room s > 0 then eiSIOCBR_readySend s else s)"

definition device_event :: "sio_event \<Rightarrow> sport \<Rightarrow> sport" where
  "device_event ev s =
     (case ev of
        Sent n \<Rightarrow> let s = s\<lparr>tx_room := tx_room s + n\<rparr> in if cbr_snd s then eiTxISR_main s else s
      | Got c \<Rightarrow> if cbr_rcv s then eiSIOCBR_readyReceive c s else s
      | _ \<Rightarrow> s)"

text \<open>What happens before the task goes on, and before a task that waits for a semaphore gets it. \<open>None\<close>: it still waits.\<close>

fun run_gap :: "sio_event list \<Rightarrow> sport \<Rightarrow> sport" where
  "run_gap [] s = s\<lparr>sp_evs := []\<rparr>"
| "run_gap (ev # es) s = (if ev = Go then s\<lparr>sp_evs := es\<rparr> else run_gap es (device_event ev s))"

definition gap :: "sport \<Rightarrow> sport" where "gap s = run_gap (sp_evs s) s"

fun wait_sem :: "(sport \<Rightarrow> nat) \<Rightarrow> (sport \<Rightarrow> sport) \<Rightarrow> sio_event list \<Rightarrow> sport \<Rightarrow> (er \<times> sport) option" where
  "wait_sem sem get [] s = (if sem s > 0 then Some (E_OK, (get s)\<lparr>sp_evs := []\<rparr>) else None)"
| "wait_sem sem get (ev # es) s =
     (if sem s > 0 then Some (E_OK, (get s)\<lparr>sp_evs := ev # es\<rparr>)
      else case ev of
        Broken e \<Rightarrow> if e \<noteq> E_OK then Some (e, s\<lparr>sp_evs := es\<rparr>) else wait_sem sem get es s
      | _ \<Rightarrow> wait_sem sem get es (device_event ev s))"

definition take_snd :: "sport \<Rightarrow> sport" where "take_snd s = s\<lparr>snd_sem := snd_sem s - 1\<rparr>"
definition take_rcv :: "sport \<Rightarrow> sport" where "take_rcv s = s\<lparr>rcv_sem := rcv_sem s - 1\<rparr>"

definition wait_snd :: "sport \<Rightarrow> (er \<times> sport) option" where
  "wait_snd s = (let s = gap s in wait_sem snd_sem take_snd (sp_evs s) s)"

definition wait_rcv :: "TMO \<Rightarrow> sport \<Rightarrow> (er \<times> sport) option" where
  "wait_rcv tmout s =
     (let s = gap s
      in if \<not> VALID_TMOUT tmout then Some (E_PAR, s)
         else if rcv_sem s = 0 \<and> tmout = TMO_POL then Some (E_TMOUT, s)
         else wait_sem rcv_sem take_rcv (sp_evs s) s)"

section \<open>Service calls\<close>

definition gen_ercd_sys :: "sport \<Rightarrow> er \<times> sport" where "gen_ercd_sys s = (E_SYS, s\<lparr>sp_error := True\<rparr>)"

definition gen_ercd_wait :: "er \<Rightarrow> sport \<Rightarrow> er \<times> sport" where
  "gen_ercd_wait rercd s = (if rercd \<in> {E_RLWAI, E_DLT, E_RASTER} then (rercd, s) else (E_SYS, s\<lparr>sp_error := True\<rparr>))"

text \<open>\<open>SVC\<close> on the operations of the semaphores.\<close>

definition svc_wait_snd :: "sport \<Rightarrow> (er \<times> sport) option" where
  "svc_wait_snd s =
     (case wait_snd s of None \<Rightarrow> None | Some (e, s) \<Rightarrow> Some (if e \<noteq> E_OK then gen_ercd_wait e s else (E_OK, s)))"

definition svc_signal_snd :: "sport \<Rightarrow> er \<times> sport" where
  "svc_signal_snd s = (let (e, s) = signal_snd (gap s) in if e \<noteq> E_OK then gen_ercd_sys s else (E_OK, s))"

definition svc_signal_rcv :: "sport \<Rightarrow> er \<times> sport" where
  "svc_signal_rcv s = (let (e, s) = signal_rcv (gap s) in if e \<noteq> E_OK then gen_ercd_sys s else (E_OK, s))"

text \<open>
  \<open>serialPort_writeChar\<close>: the part with the CPU locked, and the whole, which calls itself for the CR before a LF.
  The result is an error or whether the buffer is full. \<open>loc_cpu\<close> and \<open>unl_cpu\<close> return no error.
\<close>

definition write_section :: "char \<Rightarrow> sport \<Rightarrow> bool \<times> sport" where
  "write_section c s =
     (let s = gap s;
          (sent, s) = (if snd_cnt s = 0 \<and> \<not> snd_stopped s then serialPort_sendChar c s else (False, s))
      in if sent then (False, s)
         else
           let s = s\<lparr>snd_buf := (snd_buf s)(unat (snd_wp s) := c)\<rparr>;
               s = s\<lparr>snd_wp := INC_PTR (snd_wp s) (snd_size s)\<rparr>;
               s = s\<lparr>snd_cnt := snd_cnt s + 1\<rparr>
           in (snd_cnt s = snd_size s, s))"

function serialPort_writeChar :: "char \<Rightarrow> sport \<Rightarrow> ((er + bool) \<times> sport) option" where
  "serialPort_writeChar c s =
     (case (if c = LF \<and> sp_ioctl s AND IOCTL_CRLF \<noteq> 0 then
              case serialPort_writeChar CR s of
                None \<Rightarrow> None
              | Some (Inl e, s) \<Rightarrow> Some (e, s)
              | Some (Inr full, s) \<Rightarrow> if full then svc_wait_snd s else Some (E_OK, s)
            else Some (E_OK, s)) of
        None \<Rightarrow> None
      | Some (e, s) \<Rightarrow>
          if e \<noteq> E_OK then Some (Inl e, s)
          else let (full, s) = write_section c s in Some (Inr full, s))"
  by pat_completeness auto
termination by (relation "measure (\<lambda>(c, s). if c = LF then 1 else 0)") auto

declare serialPort_writeChar.simps [simp del]

text \<open>The loop of \<open>eSerialPort_write\<close>: what is left to write, the count, and whether the buffer is full.\<close>

fun write_loop :: "string \<Rightarrow> nat \<Rightarrow> bool \<Rightarrow> sport \<Rightarrow> ((er + bool) \<times> nat \<times> sport) option" where
  "write_loop [] wricnt full s = Some (Inr full, wricnt, s)"
| "write_loop (c # cs) wricnt full s =
     (case (if full then svc_wait_snd s else Some (E_OK, s)) of
        None \<Rightarrow> None
      | Some (e, s) \<Rightarrow>
          if e \<noteq> E_OK then Some (Inl e, wricnt, s)
          else case serialPort_writeChar c s of
            None \<Rightarrow> None
          | Some (Inl e, s) \<Rightarrow> Some (Inl e, wricnt, s)
          | Some (Inr full, s) \<Rightarrow> write_loop cs (wricnt + 1) full s)"

definition count_or :: "nat \<Rightarrow> er \<Rightarrow> svc" where
  "count_or cnt ercd = (if (of_nat cnt :: word32) > 0 then RetUint (sint (of_nat cnt :: word32)) else Ret ercd)"

definition port_check :: "bool \<Rightarrow> bool \<Rightarrow> sport \<Rightarrow> er" where
  "port_check dpn valid s =
     (if dpn then E_CTX else if \<not> valid then E_ID else if \<not> sp_open s then E_OBJ else if sp_error s then E_SYS else E_OK)"

definition eSerialPort_write :: "bool \<Rightarrow> bool \<Rightarrow> string \<Rightarrow> sport \<Rightarrow> (svc \<times> sport) option" where
  "eSerialPort_write dpn valid buffer s =
     (if port_check dpn valid s \<noteq> E_OK then Some (Ret (port_check dpn valid s), s)
      else case write_loop buffer 0 True s of
        None \<Rightarrow> None
      | Some (Inl e, wricnt, s) \<Rightarrow> Some (count_or wricnt e, s)
      | Some (Inr full, wricnt, s) \<Rightarrow>
          if \<not> full then let (e, s) = svc_signal_snd s in Some (count_or wricnt e, s)
          else Some (count_or wricnt E_OK, s))"

text \<open>\<open>serialPort_readChar\<close> with the CPU locked: the character, and whether the buffer is empty now.\<close>

definition serialPort_readChar :: "sport \<Rightarrow> char \<times> bool \<times> sport" where
  "serialPort_readChar s =
     (let s = gap s;
          c = rcv_buf s (unat (rcv_rp s));
          s = s\<lparr>rcv_rp := INC_PTR (rcv_rp s) (rcv_size s)\<rparr>;
          s = s\<lparr>rcv_cnt := rcv_cnt s - 1\<rparr>;
          emp = (rcv_cnt s = 0);
          s = (if rcv_stopped s \<and> rcv_cnt s \<le> BUFCNT_START (rcv_size s) then
                 let (sent, s) = serialPort_sendChar FC_START s;
                     s = (if \<not> sent then s\<lparr>rcv_fc := FC_START\<rparr> else s)
                 in s\<lparr>rcv_stopped := False\<rparr>
               else s)
      in (c, emp, s))"

text \<open>The echo in \<open>eSerialPort_read\<close>.\<close>

definition echo_back :: "char \<Rightarrow> sport \<Rightarrow> (er \<times> sport) option" where
  "echo_back c s =
     (if sp_ioctl s AND IOCTL_ECHO \<noteq> 0 then
        case svc_wait_snd s of
          None \<Rightarrow> None
        | Some (e, s) \<Rightarrow>
            if e \<noteq> E_OK then Some (e, s)
            else case serialPort_writeChar c s of
              None \<Rightarrow> None
            | Some (Inl e, s) \<Rightarrow> Some (e, s)
            | Some (Inr full, s) \<Rightarrow> Some (if \<not> full then svc_signal_snd s else (E_OK, s))
      else Some (E_OK, s))"

text \<open>
  The loop of \<open>eSerialPort_read\<close>: how many characters are still wanted, whether the buffer is empty, and those read. It
  ends with all read, with \<open>return E_TMOUT\<close>, or at \<open>error_exit\<close>.
\<close>

datatype read_end = All_read bool | Timed_out | Failed er

fun read_loop :: "TMO \<Rightarrow> nat \<Rightarrow> bool \<Rightarrow> string \<Rightarrow> sport \<Rightarrow> (read_end \<times> string \<times> sport) option" where
  "read_loop tmout 0 emp buf s = Some (All_read emp, buf, s)"
| "read_loop tmout (Suc n) emp buf s =
     (case (if emp then wait_rcv tmout s else Some (E_OK, s)) of
        None \<Rightarrow> None
      | Some (e, s) \<Rightarrow>
          if e = E_TMOUT then Some (Timed_out, buf, s)
          else if e \<noteq> E_OK then Some (Failed e, buf, snd (gen_ercd_wait e s))
          else
            let (c, emp, s) = serialPort_readChar s
            in case echo_back c s of
                 None \<Rightarrow> None
               | Some (e, s) \<Rightarrow> if e \<noteq> E_OK then Some (Failed e, buf @ [c], s) else read_loop tmout n emp (buf @ [c]) s)"

definition eSerialPort_read :: "bool \<Rightarrow> bool \<Rightarrow> nat \<Rightarrow> TMO \<Rightarrow> sport \<Rightarrow> (svc \<times> string \<times> sport) option" where
  "eSerialPort_read dpn valid len tmout s =
     (if port_check dpn valid s \<noteq> E_OK then Some (Ret (port_check dpn valid s), [], s)
      else case read_loop tmout len True [] s of
        None \<Rightarrow> None
      | Some (Timed_out, buf, s) \<Rightarrow> Some (Ret E_TMOUT, buf, s)
      | Some (Failed e, buf, s) \<Rightarrow> Some (count_or (length buf) e, buf, s)
      | Some (All_read emp, buf, s) \<Rightarrow>
          if \<not> emp then let (e, s) = svc_signal_rcv s in Some (count_or (length buf) e, buf, s)
          else Some (count_or (length buf) E_OK, buf, s))"

text \<open>Open and close. No interrupt comes between, for dispatching is off and the CPU locked where it matters.\<close>

definition eSerialPort_open :: "bool \<Rightarrow> bool \<Rightarrow> sport \<Rightarrow> er \<times> sport" where
  "eSerialPort_open dpn valid s =
     (if dpn then (E_CTX, s)
      else if \<not> valid then (E_ID, s)
      else if sp_open s then (E_OBJ, s)
      else
        let s = s\<lparr>sp_ioctl := IOCTL_ECHO OR IOCTL_CRLF OR IOCTL_FCSND OR IOCTL_FCRCV\<rparr>;
            s = s\<lparr>rcv_rp := 0, rcv_wp := 0, rcv_cnt := 0, rcv_fc := FC_NONE, rcv_stopped := False\<rparr>;
            s = s\<lparr>snd_rp := 0, snd_wp := 0, snd_cnt := 0, snd_stopped := False\<rparr>;
            s = s\<lparr>cbr_rcv := True, sp_open := True, sp_error := False\<rparr>
        in (E_OK, s))"

definition eSerialPort_close :: "bool \<Rightarrow> bool \<Rightarrow> sport \<Rightarrow> er \<times> sport" where
  "eSerialPort_close dpn valid s =
     (if dpn then (E_CTX, s)
      else if \<not> valid then (E_ID, s)
      else if \<not> sp_open s then (E_OBJ, s)
      else (E_OK, s\<lparr>cbr_snd := False, cbr_rcv := False, sp_open := False, snd_sem := 1, rcv_sem := 0\<rparr>))"

definition eSerialPort_control :: "bool \<Rightarrow> bool \<Rightarrow> word32 \<Rightarrow> sport \<Rightarrow> er \<times> sport" where
  "eSerialPort_control dpn valid ioctl s =
     (if port_check dpn valid s \<noteq> E_OK then (port_check dpn valid s, s) else (E_OK, s\<lparr>sp_ioctl := ioctl\<rparr>))"

record serial_rpor =
  rp_reacnt :: word32
  rp_wricnt :: word32

definition eSerialPort_refer :: "bool \<Rightarrow> bool \<Rightarrow> sport \<Rightarrow> er \<times> serial_rpor option" where
  "eSerialPort_refer dpn valid s =
     (if port_check dpn valid s \<noteq> E_OK then (port_check dpn valid s, None)
      else (E_OK, Some \<lparr>rp_reacnt = rcv_cnt s, rp_wricnt = snd_cnt s\<rparr>))"

definition enSerialPortManage_getChar :: "bool \<Rightarrow> sport \<Rightarrow> char option \<times> sport" where
  "enSerialPortManage_getChar valid s =
     (if valid \<and> sp_open s \<and> snd_cnt s > 0 then
        (Some (snd_buf s (unat (snd_rp s))), s\<lparr>snd_rp := INC_PTR (snd_rp s) (snd_size s), snd_cnt := snd_cnt s - 1\<rparr>)
      else (None, s))"

end
