(* ===== verification/SerialFifo.thy ===== *)
theory SerialFifo
  imports SerialPort
begin

text \<open>
  What the serial port promises: no character is lost or overtaken between the tasks and the device, whatever interrupts come.
  \<open>port_ok hs hr s\<close>: the buffers are ring buffers, and the semaphores say who may go on, where \<open>hs\<close> and \<open>hr\<close> tell
  whether a task has the send and the receive semaphore. \<open>does\<close> describes a run: what it has written and read.
\<close>

section \<open>The invariant\<close>

definition snd_list :: "sport \<Rightarrow> string" where
  "snd_list s = ring_list (snd_size s) (snd_buf s) (snd_rp s) (snd_cnt s)"

definition rcv_list :: "sport \<Rightarrow> string" where
  "rcv_list s = ring_list (rcv_size s) (rcv_buf s) (rcv_rp s) (rcv_cnt s)"

definition snd_ok :: "bool \<Rightarrow> sport \<Rightarrow> bool" where
  "snd_ok h s \<longleftrightarrow>
     0 < snd_size s \<and> ring_at (snd_size s) (snd_buf s) (snd_rp s) (snd_wp s) (snd_cnt s) (snd_list s) \<and>
     (if snd_cnt s = snd_size s then snd_sem s = 0 \<and> \<not> h else snd_sem s = (if h then 0 else 1))"

definition rcv_ok :: "bool \<Rightarrow> sport \<Rightarrow> bool" where
  "rcv_ok h s \<longleftrightarrow>
     0 < rcv_size s \<and> ring_at (rcv_size s) (rcv_buf s) (rcv_rp s) (rcv_wp s) (rcv_cnt s) (rcv_list s) \<and>
     (if rcv_cnt s = 0 then rcv_sem s = 0 \<and> \<not> h else rcv_sem s = (if h then 0 else 1))"

definition port_ok :: "bool \<Rightarrow> bool \<Rightarrow> sport \<Rightarrow> bool" where
  "port_ok hs hr s \<longleftrightarrow> snd_ok hs s \<and> rcv_ok hr s \<and> rcv_fc s \<in> {FC_NONE, FC_START, FC_STOP}"

text \<open>
  The characters on their way out, without those of the flow control; and a run of the port, in which tasks write \<open>w\<close> and read
  \<open>r\<close>.
\<close>

definition is_data :: "char \<Rightarrow> bool" where "is_data c \<longleftrightarrow> c \<noteq> FC_START \<and> c \<noteq> FC_STOP"

definition stream :: "sport \<Rightarrow> string" where "stream s = filter is_data (tx_out s @ snd_list s)"

definition did :: "bool \<Rightarrow> string \<Rightarrow> string \<Rightarrow> sport \<Rightarrow> sport \<Rightarrow> bool" where
  "did ok w r s s' \<longleftrightarrow>
     snd_size s' = snd_size s \<and> rcv_size s' = rcv_size s \<and> sp_open s' = sp_open s \<and> sp_ioctl s' = sp_ioctl s \<and>
     (ok \<longrightarrow> sp_error s' = sp_error s) \<and> stream s' = stream s @ filter is_data w \<and>
     (\<exists>new. rx_log s' = rx_log s @ new \<and> rcv_list s @ new = r @ rcv_list s')"

definition does :: "bool \<Rightarrow> bool \<Rightarrow> bool \<Rightarrow> string \<Rightarrow> string \<Rightarrow> sport \<Rightarrow> sport \<Rightarrow> bool" where
  "does ok hs hr w r s s' \<longleftrightarrow> port_ok hs hr s' \<and> did ok w r s s'"

lemma does_refl: "port_ok hs hr s \<Longrightarrow> does True hs hr [] [] s s"
  by (simp add: does_def did_def)

lemma does_trans:
  assumes "does True hs hr w r s s1" "does ok hs' hr' w' r' s1 s2"
  shows "does ok hs' hr' (w @ w') (r @ r') s s2"
proof -
  obtain a where a: "rx_log s1 = rx_log s @ a" "rcv_list s @ a = r @ rcv_list s1" using assms(1) by (auto simp: does_def did_def)
  obtain b where b: "rx_log s2 = rx_log s1 @ b" "rcv_list s1 @ b = r' @ rcv_list s2" using assms(2) by (auto simp: does_def did_def)
  have "rcv_list s @ (a @ b) = r @ (rcv_list s1 @ b)" using a(2) by (simp flip: append_assoc)
  then have "rcv_list s @ (a @ b) = (r @ r') @ rcv_list s2" using b(2) by simp
  then show ?thesis using assms a(1) b(1) unfolding does_def did_def by fastforce
qed

lemma does_ok: "does ok hs hr w r s s' \<Longrightarrow> port_ok hs hr s'"
  by (simp add: does_def)

lemma does_weaken: "does True hs hr w r s s' \<Longrightarrow> does ok hs hr w r s s'"
  by (auto simp: does_def did_def)

lemmas does_step = does_trans [where w = "[]" and r = "[]", simplified]
lemmas does_after = does_trans [where w' = "[]" and r' = "[]", simplified]

section \<open>The buffers\<close>

lemma inc_ptr: "p < sz \<Longrightarrow> INC_PTR p sz = ring_next sz p"
  by (simp add: INC_PTR_def ring_next_mod(3) Let_def)

lemma ring_lt: "ring_at cap mem h t c L \<Longrightarrow> 0 < cap \<Longrightarrow> h < cap \<and> t < cap"
  by (simp add: ring_at_def word_less_nat_alt)

lemma ring_pop:
  assumes r: "ring_at cap mem h t c L" and n: "0 < c"
  shows "\<exists>L'. L = mem (unat h) # L' \<and> ring_at cap mem (INC_PTR h cap) t (c - 1) L'"
proof -
  have l: "length L = unat c" "c \<le> cap" using r by (simp_all add: ring_at_def)
  then obtain d L' where L: "L = d # L'" using n by (cases L) (auto simp: word_less_nat_alt)
  have "0 < cap" using n l(2) by simp
  then show ?thesis using ring_get [OF r [unfolded L]] L inc_ptr ring_lt [OF r] by auto
qed

lemma ring_push:
  assumes r: "ring_at cap mem h t c L" and n: "c \<noteq> cap"
  shows "ring_at cap (mem(unat t := d)) h (INC_PTR t cap) (c + 1) (L @ [d])"
proof -
  have l: "c < cap" using r n by (simp add: ring_at_def order.strict_iff_order)
  then have c: "0 < cap" by (rule le_less_trans [OF word_zero_le])
  have "length L < unat cap" using l ring_bound(2) [OF r] by (simp add: word_less_nat_alt)
  then show ?thesis using ring_put [OF r, of d] ring_lt [OF r c] by (simp add: inc_ptr)
qed

text \<open>A ring buffer after a step: it is one, and holds the list.\<close>

lemma ring_at_list: "ring_at cap mem h t c L \<Longrightarrow> ring_at cap mem h t c (ring_list cap mem h c) \<and> ring_list cap mem h c = L"
  using ring_list_eq by metis

lemma take_sent_fields [simp]:
  "snd_size (take_sent s) = snd_size s" "snd_buf (take_sent s) = snd_buf s" "snd_wp (take_sent s) = snd_wp s"
  "snd_rp (take_sent s) = INC_PTR (snd_rp s) (snd_size s)" "snd_cnt (take_sent s) = snd_cnt s - 1"
  "rcv_size (take_sent s) = rcv_size s" "rcv_buf (take_sent s) = rcv_buf s" "rcv_rp (take_sent s) = rcv_rp s"
  "rcv_wp (take_sent s) = rcv_wp s" "rcv_cnt (take_sent s) = rcv_cnt s" "rcv_sem (take_sent s) = rcv_sem s"
  "rcv_fc (take_sent s) = rcv_fc s" "sp_open (take_sent s) = sp_open s" "sp_ioctl (take_sent s) = sp_ioctl s"
  "tx_out (take_sent s) = tx_out s" "rx_log (take_sent s) = rx_log s" "tx_room (take_sent s) = tx_room s"
  by (simp_all add: take_sent_def signal_snd_def Let_def)

lemma take_sent_ok:
  assumes "snd_ok h s" "0 < snd_cnt s"
  shows "snd_ok h (take_sent s)" "snd_list s = snd_buf s (unat (snd_rp s)) # snd_list (take_sent s)"
    "sp_error (take_sent s) = sp_error s"
proof -
  have r: "ring_at (snd_size s) (snd_buf s) (snd_rp s) (snd_wp s) (snd_cnt s) (snd_list s)" using assms by (simp add: snd_ok_def)
  obtain L where L: "snd_list s = snd_buf s (unat (snd_rp s)) # L"
    "ring_at (snd_size s) (snd_buf s) (INC_PTR (snd_rp s) (snd_size s)) (snd_wp s) (snd_cnt s - 1) L"
    using ring_pop [OF r assms(2)] by blast
  have n: "snd_cnt s - 1 \<noteq> snd_size s" using L(2) r assms(2) unfolding ring_at_def by unat_arith
  show e: "sp_error (take_sent s) = sp_error s" using assms by (simp add: take_sent_def signal_snd_def snd_ok_def Let_def)
  have l: "snd_list (take_sent s) = L" using ring_list_eq [OF L(2)] by (simp add: snd_list_def)
  show "snd_list s = snd_buf s (unat (snd_rp s)) # snd_list (take_sent s)" using L(1) l by simp
  show "snd_ok h (take_sent s)" using assms(1) L(2) n unfolding snd_ok_def l
    by (simp add: take_sent_def signal_snd_def Let_def split: if_splits)
qed

lemma snd_list_nil: "snd_cnt s = 0 \<Longrightarrow> snd_list s = []"
  by (simp add: snd_list_def ring_list_def)

text \<open>What concerns the receive buffer only, or the send buffer only.\<close>

lemma rcv_ok_cong:
  assumes "rcv_size s' = rcv_size s" "rcv_buf s' = rcv_buf s" "rcv_rp s' = rcv_rp s" "rcv_wp s' = rcv_wp s"
    "rcv_cnt s' = rcv_cnt s" "rcv_sem s' = rcv_sem s"
  shows "rcv_ok h s' = rcv_ok h s" "rcv_list s' = rcv_list s"
  using assms by (simp_all add: rcv_ok_def rcv_list_def)

lemma snd_ok_cong:
  assumes "snd_size s' = snd_size s" "snd_buf s' = snd_buf s" "snd_rp s' = snd_rp s" "snd_wp s' = snd_wp s"
    "snd_cnt s' = snd_cnt s" "snd_sem s' = snd_sem s"
  shows "snd_ok h s' = snd_ok h s" "snd_list s' = snd_list s"
  using assms by (simp_all add: snd_ok_def snd_list_def)

text \<open>The device takes the characters \<open>out\<close>.\<close>

definition took :: "string \<Rightarrow> sport \<Rightarrow> sport \<Rightarrow> bool" where
  "took out s s' \<longleftrightarrow> (\<exists>n b. s' = s\<lparr>tx_room := n, tx_out := tx_out s @ out, cbr_snd := b\<rparr>)"

lemma send_char: "serialPort_sendChar c s = (b, s') \<Longrightarrow> took (if b then [c] else []) s s'"
  by (cases s) (auto simp: serialPort_sendChar_def putChar_def took_def split: if_splits)

lemma put_char: "0 < tx_room s \<Longrightarrow> took [c] s (snd (putChar c s))"
  by (cases s) (simp add: putChar_def took_def)

lemma took_fields:
  assumes "took out s s'"
  shows "snd_ok h s' = snd_ok h s" "snd_list s' = snd_list s" "rcv_ok h s' = rcv_ok h s" "rcv_list s' = rcv_list s"
    "port_ok hs hr s' = port_ok hs hr s" "stream s' = filter is_data (tx_out s @ out @ snd_list s)"
    "tx_out s' = tx_out s @ out" "rx_log s' = rx_log s" "sp_error s' = sp_error s" "snd_size s' = snd_size s"
    "rcv_size s' = rcv_size s" "sp_open s' = sp_open s" "sp_ioctl s' = sp_ioctl s" "rcv_fc s' = rcv_fc s" "snd_cnt s' = snd_cnt s"
    "snd_rp s' = snd_rp s" "snd_wp s' = snd_wp s" "snd_buf s' = snd_buf s" "rcv_cnt s' = rcv_cnt s" "rcv_stopped s' = rcv_stopped s"
proof -
  obtain n b where s': "s' = s\<lparr>tx_room := n, tx_out := tx_out s @ out, cbr_snd := b\<rparr>" using assms unfolding took_def by blast
  show l: "snd_list s' = snd_list s" "rcv_list s' = rcv_list s" by (simp_all add: s' snd_list_def rcv_list_def)
  show o: "snd_ok h s' = snd_ok h s" "rcv_ok h s' = rcv_ok h s" for h by (simp_all only: snd_ok_def rcv_ok_def l) (simp_all add: s')
  show "port_ok hs hr s' = port_ok hs hr s" by (simp only: port_ok_def o) (simp add: s')
  show "stream s' = filter is_data (tx_out s @ out @ snd_list s)" by (simp only: stream_def l) (simp add: s')
qed (use assms in \<open>auto simp: took_def\<close>)

lemma did_write:
  assumes "snd_size s' = snd_size s" "rcv_size s' = rcv_size s" "sp_open s' = sp_open s" "sp_ioctl s' = sp_ioctl s"
    "sp_error s' = sp_error s" "rx_log s' = rx_log s" "rcv_list s' = rcv_list s" "stream s' = stream s @ filter is_data w"
  shows "did True w [] s s'"
  using assms by (simp add: did_def)

text \<open>The oldest character of the send buffer goes to the device; a character of the flow control does.\<close>

lemma next_sent:
  assumes p: "port_ok hs hr s" and n: "0 < snd_cnt s" and t: "took [snd_buf s (unat (snd_rp s))] s s'"
  shows "does True hs hr [] [] s (take_sent s')"
proof -
  note f = took_fields [OF t]
  have o: "snd_ok hs s'" "0 < snd_cnt s'" using p n by (simp_all add: port_ok_def f)
  note g = take_sent_ok [OF o]
  have "port_ok hs hr (take_sent s')"
    using p g(1) rcv_ok_cong(1) [of "take_sent s'" s' hr] by (simp add: port_ok_def f)
  moreover have "stream (take_sent s') = stream s" using g(2) by (simp add: stream_def f)
  ultimately show ?thesis using g(3) rcv_ok_cong(2) [of "take_sent s'" s'] by (simp add: does_def did_def f)
qed

lemma flow_sent: "took out s s' \<Longrightarrow> set out \<subseteq> {FC_START, FC_STOP} \<Longrightarrow> port_ok hs hr s \<Longrightarrow> does True hs hr [] [] s s'"
proof -
  assume t: "took out s s'" "set out \<subseteq> {FC_START, FC_STOP}" "port_ok hs hr s"
  have "filter is_data out = []" using t(2) by (auto simp: is_data_def filter_empty_conv)
  then have "stream s' = stream s" by (simp add: took_fields [OF t(1)] stream_def)
  then show ?thesis using t(3) by (simp add: does_def did_def took_fields [OF t(1)])
qed

lemma fc_irrelevant:
  "port_ok hs hr s \<Longrightarrow> c \<in> {FC_NONE, FC_START, FC_STOP} \<Longrightarrow> does True hs hr [] [] s (s\<lparr>rcv_fc := c\<rparr>)"
  "port_ok hs hr s \<Longrightarrow> does True hs hr [] [] s (s\<lparr>snd_stopped := b\<rparr>)"
  "port_ok hs hr s \<Longrightarrow> does True hs hr [] [] s (s\<lparr>rcv_stopped := b\<rparr>)"
  "port_ok hs hr s \<Longrightarrow> does True hs hr [] [] s (s\<lparr>cbr_snd := b\<rparr>)"
  "port_ok hs hr s \<Longrightarrow> does True hs hr [] [] s (s\<lparr>tx_room := n\<rparr>)"
  "port_ok hs hr s \<Longrightarrow> does True hs hr [] [] s (s\<lparr>sp_evs := es\<rparr>)"
  by (auto simp: does_def did_def port_ok_def snd_ok_def rcv_ok_def snd_list_def rcv_list_def stream_def)

section \<open>Interrupts\<close>

lemma readySend_does: "port_ok hs hr s \<Longrightarrow> 0 < tx_room s \<Longrightarrow> does True hs hr [] [] s (eiSIOCBR_readySend s)"
proof -
  assume a: "port_ok hs hr s" "0 < tx_room s"
  note t = put_char [OF a(2)]
  consider (fc) "rcv_fc s \<noteq> FC_NONE" | (snd) "rcv_fc s = FC_NONE" "0 < snd_cnt s" "\<not> snd_stopped s"
    | (off) "rcv_fc s = FC_NONE" "\<not> (0 < snd_cnt s \<and> \<not> snd_stopped s)" by blast
  then show ?thesis
  proof cases
    case fc
    have c: "set [rcv_fc s] \<subseteq> {FC_START, FC_STOP}" using fc a(1) by (auto simp: port_ok_def)
    note d = flow_sent [OF t c a(1)]
    have e: "eiSIOCBR_readySend s = (snd (putChar (rcv_fc s) s))\<lparr>rcv_fc := FC_NONE\<rparr>" using fc by (simp add: eiSIOCBR_readySend_def)
    show ?thesis unfolding e by (rule does_step [OF d fc_irrelevant(1) [OF does_ok [OF d]]]) simp
  next
    case snd then show ?thesis using next_sent [OF a(1) _ t] by (simp add: eiSIOCBR_readySend_def)
  next
    case off then show ?thesis using fc_irrelevant(4) [OF a(1)] by (auto simp: eiSIOCBR_readySend_def)
  qed
qed

lemma resume_does: "port_ok hs hr s \<Longrightarrow> does True hs hr [] [] s (resume_loop s)"
proof (induction s rule: resume_loop.induct)
  case (1 s)
  obtain b s1 where t: "serialPort_sendChar (snd_buf s (unat (snd_rp s))) s = (b, s1)" by fastforce
  show ?case
  proof (cases "0 < snd_cnt s")
    case False then show ?thesis using 1(2) by (simp add: resume_loop.simps [of s] does_refl)
  next
    case True
    note s = resume_loop.simps [of s, unfolded Let_def t]
    show ?thesis
    proof (cases b)
      case True2: True
      have d: "does True hs hr [] [] s (take_sent s1)" using next_sent [OF 1(2) True] send_char [OF t] True2 by simp
      show ?thesis using does_step [OF d 1(1) [OF True refl t [symmetric] refl True2 does_ok [OF d]]] True True2 by (simp add: s)
    next
      case False
      have "took [] s s1" using send_char [OF t] False by simp
      then show ?thesis using flow_sent [of "[]" s s1 hs hr] 1(2) True False by (simp add: s)
    qed
  qed
qed

text \<open>A character comes into the receive buffer, and one leaves it.\<close>

definition stored :: "char \<Rightarrow> sport \<Rightarrow> sport" where
  "stored c s =
     s\<lparr>rcv_buf := (rcv_buf s)(unat (rcv_wp s) := c), rx_log := rx_log s @ [c], rcv_wp := INC_PTR (rcv_wp s) (rcv_size s),
       rcv_sem := (if rcv_cnt s = 0 then 1 else rcv_sem s), rcv_cnt := rcv_cnt s + 1\<rparr>"

lemma snd_frame: "snd_ok h (stored c s) = snd_ok h s" "snd_list (stored c s) = snd_list s" "stream (stored c s) = stream s"
  by (simp_all add: stored_def snd_ok_def snd_list_def stream_def)

lemma stored_does:
  assumes p: "port_ok hs hr s" and n: "rcv_cnt s \<noteq> rcv_size s"
  shows "does True hs hr [] [] s (stored c s)"
proof -
  have r: "ring_at (rcv_size s) (rcv_buf s) (rcv_rp s) (rcv_wp s) (rcv_cnt s) (rcv_list s)" using p by (simp add: port_ok_def rcv_ok_def)
  note q = ring_push [OF r n, of c]
  have l: "rcv_list (stored c s) = rcv_list s @ [c]" using ring_list_eq [OF q] by (simp add: rcv_list_def stored_def)
  have "rcv_cnt s + 1 \<noteq> 0" using ring_bound(2) [OF q] by auto
  then have "rcv_ok hr (stored c s)" using p q unfolding rcv_ok_def l by (auto simp: stored_def port_ok_def rcv_ok_def split: if_splits)
  then have "port_ok hs hr (stored c s)" using p by (simp add: port_ok_def snd_frame) (simp add: stored_def)
  then show ?thesis by (simp add: does_def did_def l snd_frame) (simp add: stored_def)
qed

lemma readyReceive_stored:
  assumes "rcv_ok hr s" "rcv_cnt s \<noteq> rcv_size s"
    "\<not> (sp_ioctl s AND IOCTL_FCSND \<noteq> 0 \<and> c = FC_STOP)"
    "\<not> (snd_stopped s \<and> (c = FC_START \<or> sp_ioctl s AND IOCTL_FCANY \<noteq> 0))"
    "\<not> (sp_ioctl s AND IOCTL_FCSND \<noteq> 0 \<and> c = FC_START)"
  shows "eiSIOCBR_readyReceive c s =
    (let s = stored c s
     in if sp_ioctl s AND IOCTL_FCRCV \<noteq> 0 \<and> \<not> rcv_stopped s \<and> rcv_cnt s \<ge> BUFCNT_STOP (rcv_size s) then
          let (sent, s) = serialPort_sendChar FC_STOP s;
              s = (if \<not> sent then s\<lparr>rcv_fc := FC_STOP\<rparr> else s)
          in s\<lparr>rcv_stopped := True\<rparr>
        else s)"
proof -
  have z: "rcv_cnt s = 0 \<Longrightarrow> rcv_sem s = 0" using assms(1) by (simp add: rcv_ok_def)
  let ?a = "s\<lparr>rcv_buf := (rcv_buf s)(unat (rcv_wp s) := c), rx_log := rx_log s @ [c]\<rparr>"
  let ?b = "?a\<lparr>rcv_wp := INC_PTR (rcv_wp ?a) (rcv_size ?a)\<rparr>"
  let ?c = "if rcv_cnt ?b = 0 then (let (e, s) = signal_rcv ?b in if e \<noteq> E_OK then s\<lparr>sp_error := True\<rparr> else s) else ?b"
  have "?c\<lparr>rcv_cnt := rcv_cnt ?c + 1\<rparr> = stored c s" using z by (cases s) (simp add: stored_def signal_rcv_def)
  then show ?thesis using assms(2-) unfolding eiSIOCBR_readyReceive_def Let_def by (simp only: if_False if_True simp_thms) 
qed

lemma flow_char:
  assumes p: "port_ok hs hr s" and c: "c \<in> {FC_START, FC_STOP}" and e: "serialPort_sendChar c s = (b, s1)"
  shows "does True hs hr [] [] s ((if \<not> b then s1\<lparr>rcv_fc := c\<rparr> else s1)\<lparr>rcv_stopped := x\<rparr>)"
proof -
  have d: "does True hs hr [] [] s s1" using flow_sent [OF send_char [OF e] _ p] c by auto
  have "does True hs hr [] [] s (if \<not> b then s1\<lparr>rcv_fc := c\<rparr> else s1)"
    using d does_step [OF d fc_irrelevant(1) [OF does_ok [OF d], of c]] c by auto
  then show ?thesis by (rule does_step [OF _ fc_irrelevant(3) [OF does_ok]]) fact
qed

lemma readyReceive_does:
  assumes p: "port_ok hs hr s" shows "does True hs hr [] [] s (eiSIOCBR_readyReceive c s)"
proof -
  let ?stop = "sp_ioctl s AND IOCTL_FCSND \<noteq> 0 \<and> c = FC_STOP"
  let ?go = "snd_stopped s \<and> (c = FC_START \<or> sp_ioctl s AND IOCTL_FCANY \<noteq> 0)"
  let ?drop = "sp_ioctl s AND IOCTL_FCSND \<noteq> 0 \<and> c = FC_START"
  consider (stop) ?stop | (go) "\<not> ?stop" ?go | (drop) "\<not> ?stop" "\<not> ?go" ?drop
    | (full) "\<not> ?stop" "\<not> ?go" "\<not> ?drop" "rcv_cnt s = rcv_size s"
    | (store) "\<not> ?stop" "\<not> ?go" "\<not> ?drop" "rcv_cnt s \<noteq> rcv_size s" by blast
  then show ?thesis
  proof cases
    case stop then show ?thesis using fc_irrelevant(2) [OF p] by (simp add: eiSIOCBR_readyReceive_def)
  next
    case go
    note d = fc_irrelevant(2) [OF p, of False]
    show ?thesis using go does_step [OF d resume_does [OF does_ok [OF d]]] by (auto simp: eiSIOCBR_readyReceive_def)
  next
    case drop then show ?thesis using does_refl [OF p] by (auto simp: eiSIOCBR_readyReceive_def)
  next
    case full then show ?thesis using does_refl [OF p] by (auto simp: eiSIOCBR_readyReceive_def)
  next
    case store
    have o: "rcv_ok hr s" using p by (simp add: port_ok_def)
    note e = readyReceive_stored [OF o store(4) store(1-3)]
    have d: "does True hs hr [] [] s (stored c s)" by (rule stored_does [OF p store(4)])
    obtain b s1 where f: "serialPort_sendChar FC_STOP (stored c s) = (b, s1)" by fastforce
    have "does True hs hr [] [] (stored c s) ((if \<not> b then s1\<lparr>rcv_fc := FC_STOP\<rparr> else s1)\<lparr>rcv_stopped := True\<rparr>)"
      by (rule flow_char [OF does_ok [OF d] _ f]) simp
    then show ?thesis unfolding e Let_def f using d does_step [OF d] by simp
  qed
qed

lemma device_event_does:
  assumes p: "port_ok hs hr s" shows "does True hs hr [] [] s (device_event ev s)"
proof (cases ev)
  case (Sent n)
  note d = fc_irrelevant(5) [OF p, of "tx_room s + n"]
  define t where "t = s\<lparr>tx_room := tx_room s + n\<rparr>"
  have d: "does True hs hr [] [] s t" using d by (simp add: t_def)
  have "does True hs hr [] [] s (eiTxISR_main t)"
    using d does_step [OF d readySend_does [OF does_ok [OF d]]] by (cases "0 < tx_room t") (simp_all add: eiTxISR_main_def)
  then have "does True hs hr [] [] s (eiTxISR_main (s\<lparr>tx_room := tx_room s + n\<rparr>))" "does True hs hr [] [] s (s\<lparr>tx_room := tx_room s + n\<rparr>)"
    using d by (simp_all only: t_def)
  then show ?thesis using Sent by (simp add: device_event_def Let_def)
next
  case (Got c) then show ?thesis using readyReceive_does [OF p] does_refl [OF p] by (simp add: device_event_def)
qed (use does_refl [OF p] in \<open>simp_all add: device_event_def\<close>)

lemma run_gap_does: "port_ok hs hr s \<Longrightarrow> does True hs hr [] [] s (run_gap es s)"
proof (induction es s rule: run_gap.induct)
  case (1 s) then show ?case using fc_irrelevant(6) by simp
next
  case (2 ev es s)
  note d = device_event_does [OF 2(2), of ev]
  show ?case using fc_irrelevant(6) [OF 2(2)] does_step [OF d 2(1) [OF _ does_ok [OF d]]] by simp
qed

lemma gap_does: "port_ok hs hr s \<Longrightarrow> does True hs hr [] [] s (gap s)"
  by (simp add: gap_def run_gap_does)

section \<open>The semaphores\<close>

lemma take_does:
  "port_ok False hr s \<Longrightarrow> 0 < snd_sem s \<Longrightarrow> does True True hr [] [] s ((take_snd s)\<lparr>sp_evs := es\<rparr>)"
  "port_ok hs False s \<Longrightarrow> 0 < rcv_sem s \<Longrightarrow> does True hs True [] [] s ((take_rcv s)\<lparr>sp_evs := es\<rparr>)"
  by (auto simp: does_def did_def port_ok_def snd_ok_def rcv_ok_def snd_list_def rcv_list_def stream_def take_snd_def take_rcv_def
      split: if_splits)

text \<open>A wait: \<open>P ok\<close> is what holds after it, with the semaphore or without.\<close>

lemma wait_sem_does:
  assumes "wait_sem sem get es s = Some (e, s')" "port_ok hs hr s"
    "\<And>s es. port_ok hs hr s \<Longrightarrow> 0 < sem s \<Longrightarrow> does True hs' hr' [] [] s ((get s)\<lparr>sp_evs := es\<rparr>)"
  shows "if e = E_OK then does True hs' hr' [] [] s s' else does True hs hr [] [] s s'"
  using assms(1,2)
proof (induction es arbitrary: s)
  case Nil then show ?case using assms(3) by (auto split: if_splits)
next
  case (Cons ev es)
  show ?case
  proof (cases "0 < sem s \<or> (\<exists>e. ev = Broken e \<and> e \<noteq> E_OK)")
    case True then show ?thesis using Cons(2,3) assms(3) fc_irrelevant(6) by (auto split: if_splits)
  next
    case False
    note d = device_event_does [OF Cons(3), of ev]
    have "wait_sem sem get es (device_event ev s) = Some (e, s')"
      using Cons(2) False by (auto simp: device_event_def split: sio_event.splits if_splits)
    from Cons(1) [OF this does_ok [OF d]] show ?thesis using does_step [OF d] by (auto split: if_splits)
  qed
qed

lemma wait_snd_does:
  assumes w: "wait_snd s = Some (e, s')" and p: "port_ok False hr s" shows "does True (e = E_OK) hr [] [] s s'"
proof -
  note d = gap_does [OF p]
  have "wait_sem snd_sem take_snd (sp_evs (gap s)) (gap s) = Some (e, s')" using w by (simp add: wait_snd_def Let_def)
  from wait_sem_does [OF this does_ok [OF d] take_does(1)] show ?thesis using does_step [OF d] by (cases "e = E_OK") auto
qed

lemma wait_rcv_does:
  assumes w: "wait_rcv tmout s = Some (e, s')" and p: "port_ok hs False s" shows "does True hs (e = E_OK) [] [] s s'"
proof -
  note d = gap_does [OF p]
  show ?thesis
  proof (cases "VALID_TMOUT tmout \<and> \<not> (rcv_sem (gap s) = 0 \<and> tmout = TMO_POL)")
    case True
    then have "wait_sem rcv_sem take_rcv (sp_evs (gap s)) (gap s) = Some (e, s')" using w by (auto simp: wait_rcv_def Let_def)
    from wait_sem_does [OF this does_ok [OF d] take_does(2)] show ?thesis using does_step [OF d] by (cases "e = E_OK") auto
  next
    case False then show ?thesis using w d by (auto simp: wait_rcv_def Let_def split: if_splits)
  qed
qed

lemma gen_ercd_wait_does:
  "port_ok hs hr s \<Longrightarrow> e \<noteq> E_OK \<Longrightarrow> does False hs hr [] [] s (snd (gen_ercd_wait e s)) \<and> fst (gen_ercd_wait e s) \<noteq> E_OK"
  by (auto simp: gen_ercd_wait_def does_def did_def port_ok_def snd_ok_def rcv_ok_def snd_list_def rcv_list_def stream_def)

lemma svc_wait_snd_does:
  assumes w: "svc_wait_snd s = Some (e, s')" and p: "port_ok False hr s" shows "does (e = E_OK) (e = E_OK) hr [] [] s s'"
proof -
  obtain e1 s1 where w1: "wait_snd s = Some (e1, s1)" using w by (auto simp: svc_wait_snd_def split: option.splits)
  note d = wait_snd_does [OF w1 p]
  show ?thesis
  proof (cases "e1 = E_OK")
    case True then show ?thesis using w w1 d by (simp add: svc_wait_snd_def)
  next
    case False
    then have g: "gen_ercd_wait e1 s1 = (e, s')" using w w1 by (simp add: svc_wait_snd_def)
    have q: "port_ok False hr s1" using does_ok [OF d] False by simp
    have f: "does False False hr [] [] s1 s'" "e \<noteq> E_OK" using gen_ercd_wait_does [OF q False] by (simp_all add: g)
    have "does True False hr [] [] s s1" using d False by simp
    from does_step [OF this f(1)] show ?thesis using f(2) by simp
  qed
qed

lemma give_does:
  "port_ok True hr s \<Longrightarrow> snd_sem s = 0 \<and> does True False hr [] [] s (s\<lparr>snd_sem := 1\<rparr>)"
  "port_ok hs True s \<Longrightarrow> rcv_sem s = 0 \<and> does True hs False [] [] s (s\<lparr>rcv_sem := 1\<rparr>)"
  by (auto simp: does_def did_def port_ok_def snd_ok_def rcv_ok_def snd_list_def rcv_list_def stream_def split: if_splits)

lemma svc_signal_does:
  "port_ok True hr s \<Longrightarrow> svc_signal_snd s = (e, s') \<Longrightarrow> e = E_OK \<and> does True False hr [] [] s s'"
  "port_ok hs True s \<Longrightarrow> svc_signal_rcv s = (e, s') \<Longrightarrow> e = E_OK \<and> does True hs False [] [] s s'"
proof -
  assume p: "port_ok True hr s" and w: "svc_signal_snd s = (e, s')"
  note d = gap_does [OF p]
  note g = give_does(1) [OF does_ok [OF d]]
  show "e = E_OK \<and> does True False hr [] [] s s'" using w g does_step [OF d] by (auto simp: svc_signal_snd_def signal_snd_def)
next
  assume p: "port_ok hs True s" and w: "svc_signal_rcv s = (e, s')"
  note d = gap_does [OF p]
  note g = give_does(2) [OF does_ok [OF d]]
  show "e = E_OK \<and> does True hs False [] [] s s'" using w g does_step [OF d] by (auto simp: svc_signal_rcv_def signal_rcv_def)
qed

section \<open>Writing\<close>

text \<open>A character goes into the send buffer.\<close>

definition queued :: "char \<Rightarrow> sport \<Rightarrow> sport" where
  "queued c s = s\<lparr>snd_buf := (snd_buf s)(unat (snd_wp s) := c), snd_wp := INC_PTR (snd_wp s) (snd_size s), snd_cnt := snd_cnt s + 1\<rparr>"

lemma queued_does:
  assumes p: "port_ok True hr s"
  shows "does True (snd_cnt s + 1 \<noteq> snd_size s) hr [c] [] s (queued c s)"
proof -
  have r: "ring_at (snd_size s) (snd_buf s) (snd_rp s) (snd_wp s) (snd_cnt s) (snd_list s)" and n: "snd_cnt s \<noteq> snd_size s"
    using p by (auto simp: port_ok_def snd_ok_def split: if_splits)
  note q = ring_push [OF r n, of c]
  have l: "snd_list (queued c s) = snd_list s @ [c]" using ring_list_eq [OF q] by (simp add: snd_list_def queued_def)
  have f: "rcv_ok hr (queued c s) = rcv_ok hr s" "rcv_list (queued c s) = rcv_list s" by (simp_all add: queued_def rcv_ok_def rcv_list_def)
  have "snd_ok (snd_cnt s + 1 \<noteq> snd_size s) (queued c s)" using p q n unfolding snd_ok_def l
    by (auto simp: queued_def port_ok_def snd_ok_def)
  then have "port_ok (snd_cnt s + 1 \<noteq> snd_size s) hr (queued c s)" using p by (simp add: port_ok_def f) (simp add: queued_def)
  moreover have "stream (queued c s) = stream s @ filter is_data [c]" by (simp add: stream_def l) (simp add: queued_def)
  ultimately show ?thesis by (simp add: does_def did_def f) (simp add: queued_def)
qed

lemma write_section_does:
  assumes w: "write_section c s = (full, s')" and p: "port_ok True hr s"
  shows "does True (\<not> full) hr [c] [] s s'"
proof -
  note d = gap_does [OF p]
  define g where "g = gap s"
  have dg: "does True True hr [] [] s g" using d by (simp add: g_def)
  obtain sent s1 where e: "(if snd_cnt g = 0 \<and> \<not> snd_stopped g then serialPort_sendChar c g else (False, g)) = (sent, s1)" by fastforce
  have s': "(full, s') = (if sent then (False, s1) else (snd_cnt s1 + 1 = snd_size s1, queued c s1))"
    using w by (cases sent) (simp_all add: write_section_def Let_def e queued_def flip: g_def)
  show ?thesis
  proof (cases sent)
    case True
    then have c: "snd_cnt g = 0" "serialPort_sendChar c g = (True, s1)" using e by (auto split: if_splits)
    have t: "took [c] g s1" using send_char [OF c(2)] by simp
    have "port_ok True hr s1" using does_ok [OF dg] took_fields(5) [OF t] by simp
    moreover have "stream s1 = stream g @ filter is_data [c]" by (simp add: stream_def took_fields [OF t] snd_list_nil [OF c(1)])
    ultimately have "does True True hr [c] [] g s1" by (simp add: does_def did_def took_fields [OF t])
    then show ?thesis using does_step [OF dg] True s' by simp
  next
    case False
    have "does True True hr [] [] g s1"
      using e False send_char [of c g False s1] flow_sent [of "[]" g s1] does_ok [OF dg] does_refl [OF does_ok [OF dg]] by (auto split: if_splits)
    then have d1: "does True True hr [] [] s s1" by (rule does_step [OF dg])
    show ?thesis using does_step [OF d1 queued_does [OF does_ok [OF d1], of c]] False s' by simp
  qed
qed

text \<open>What a character becomes on its way out.\<close>

definition cook :: "word32 \<Rightarrow> char \<Rightarrow> string" where
  "cook ioctl c = (if c = LF \<and> ioctl AND IOCTL_CRLF \<noteq> 0 then [CR, LF] else [c])"

lemma writeChar_plain:
  "\<not> (c = LF \<and> sp_ioctl s AND IOCTL_CRLF \<noteq> 0) \<Longrightarrow>
   serialPort_writeChar c s = Some (Inr (fst (write_section c s)), snd (write_section c s))"
  by (subst serialPort_writeChar.simps) (simp add: case_prod_unfold Let_def del: de_Morgan_conj)

lemma writeChar_does:
  assumes w: "serialPort_writeChar c s = Some (x, s')" and p: "port_ok True hr s"
  shows "case x of Inr full \<Rightarrow> does True (\<not> full) hr (cook (sp_ioctl s) c) [] s s'
         | Inl e \<Rightarrow> e \<noteq> E_OK \<and> cook (sp_ioctl s) c = [CR, LF] \<and> does False False hr [CR] [] s s'"
proof (cases "c = LF \<and> sp_ioctl s AND IOCTL_CRLF \<noteq> 0")
  case False
  then show ?thesis using w write_section_does [OF _ p, of c "fst (write_section c s)" "snd (write_section c s)"]
    by (auto simp: writeChar_plain cook_def)
next
  case True
  obtain full s1 where e: "write_section CR s = (full, s1)" by fastforce
  note d = write_section_does [OF e p]
  have cr: "serialPort_writeChar CR s = Some (Inr full, s1)" using writeChar_plain [of CR s] e by simp
  obtain e2 s2 where t: "(if full then svc_wait_snd s1 else Some (E_OK, s1)) = Some (e2, s2)"
    and x: "(x, s') = (if e2 \<noteq> E_OK then (Inl e2, s2) else (Inr (fst (write_section c s2)), snd (write_section c s2)))"
    using w True by (subst (asm) serialPort_writeChar.simps) (auto simp: cr case_prod_unfold Let_def split: option.splits if_splits)
  have d2: "does (e2 = E_OK) (e2 = E_OK) hr [CR] [] s s2"
    using t does_after [OF d svc_wait_snd_does [of s1 e2 s2 hr]] d does_ok [OF d] by (cases full) auto
  show ?thesis
  proof (cases "e2 = E_OK")
    case False then show ?thesis using x d2 True by (simp add: cook_def)
  next
    case ok: True
    then have d3: "does True True hr [CR] [] s s2" using d2 by simp
    have "does True (\<not> fst (write_section c s2)) hr [c] [] s2 (snd (write_section c s2))"
      by (rule write_section_does [OF _ does_ok [OF d3]]) simp
    from does_trans [OF d3 this] show ?thesis using x ok True by (simp add: cook_def)
  qed
qed

lemma write_loop_does:
  assumes "write_loop cs n full s = Some (x, m, s')" "port_ok (\<not> full) hr s"
  shows "\<exists>k. m = n + k \<and> k \<le> length cs \<and>
    (case x of Inr full' \<Rightarrow> k = length cs \<and> does True (\<not> full') hr (concat (map (cook (sp_ioctl s)) cs)) [] s s'
     | Inl e \<Rightarrow> e \<noteq> E_OK \<and> k < length cs \<and>
         (does False False hr (concat (map (cook (sp_ioctl s)) (take k cs))) [] s s' \<or>
          cook (sp_ioctl s) (cs ! k) = [CR, LF] \<and> does False False hr (concat (map (cook (sp_ioctl s)) (take k cs)) @ [CR]) [] s s'))"
  using assms
proof (induction cs arbitrary: n full s)
  case Nil then show ?case using does_refl by auto
next
  case (Cons c cs)
  obtain e1 s1 where t: "(if full then svc_wait_snd s else Some (E_OK, s)) = Some (e1, s1)"
    using Cons(2) by (auto split: option.splits if_splits)
  have d1: "does (e1 = E_OK) (e1 = E_OK) hr [] [] s s1"
    using t svc_wait_snd_does [of s e1 s1 hr] does_refl Cons(3) by (cases full) auto
  show ?case
  proof (cases "e1 = E_OK")
    case False
    then have "x = Inl e1" "m = n" "s' = s1" using Cons(2) t by auto
    then show ?thesis using d1 False by (intro exI [of _ 0]) simp
  next
    case ok: True
    have d1: "does True True hr [] [] s s1" using d1 ok by simp
    have io: "sp_ioctl s1 = sp_ioctl s" using d1 by (simp add: does_def did_def)
    obtain y s2 where w: "serialPort_writeChar c s1 = Some (y, s2)" using Cons(2) t ok by (auto split: option.splits)
    note d2 = writeChar_does [OF w does_ok [OF d1], unfolded io]
    show ?thesis
    proof (cases y)
      case (Inl e)
      then have "x = Inl e" "m = n" "s' = s2" using Cons(2) t ok w by auto
      then show ?thesis using Inl d2 does_step [OF d1] by (intro exI [of _ 0]) simp
    next
      case (Inr full2)
      have d3: "does True (\<not> full2) hr (cook (sp_ioctl s) c) [] s s2" using d2 does_step [OF d1] Inr by simp
      have io2: "sp_ioctl s2 = sp_ioctl s" using d3 by (simp add: does_def did_def)
      have "write_loop cs (n + 1) full2 s2 = Some (x, m, s')" using Cons(2) t ok w Inr by simp
      from Cons(1) [OF this does_ok [OF d3], unfolded io2] obtain k where k: "m = n + 1 + k" "k \<le> length cs"
        and r: "case x of Inr full' \<Rightarrow> k = length cs \<and> does True (\<not> full') hr (concat (map (cook (sp_ioctl s)) cs)) [] s2 s'
          | Inl e \<Rightarrow> e \<noteq> E_OK \<and> k < length cs \<and>
             (does False False hr (concat (map (cook (sp_ioctl s)) (take k cs))) [] s2 s' \<or>
              cook (sp_ioctl s) (cs ! k) = [CR, LF] \<and> does False False hr (concat (map (cook (sp_ioctl s)) (take k cs)) @ [CR]) [] s2 s')"
        by blast
      note j = does_trans [OF d3]
      show ?thesis
      proof (intro exI [of _ "Suc k"] conjI)
        show "m = n + Suc k" "Suc k \<le> length (c # cs)" using k by simp_all
        show "case x of Inr full' \<Rightarrow> Suc k = length (c # cs) \<and> does True (\<not> full') hr (concat (map (cook (sp_ioctl s)) (c # cs))) [] s s'
          | Inl e \<Rightarrow> e \<noteq> E_OK \<and> Suc k < length (c # cs) \<and>
             (does False False hr (concat (map (cook (sp_ioctl s)) (take (Suc k) (c # cs)))) [] s s' \<or>
              cook (sp_ioctl s) ((c # cs) ! Suc k) = [CR, LF] \<and>
              does False False hr (concat (map (cook (sp_ioctl s)) (take (Suc k) (c # cs))) @ [CR]) [] s s')"
          using r j by (cases x) auto
      qed
    qed
  qed
qed

definition cooked :: "word32 \<Rightarrow> string \<Rightarrow> string" where "cooked ioctl cs = concat (map (cook ioctl) cs)"

text \<open>
  \<open>eSerialPort_write\<close>: the characters are sent in order, after those before them. If it is broken off, the first \<open>k\<close> are,
  and perhaps the CR of the next.
\<close>

lemma write_does:
  assumes w: "eSerialPort_write False True buffer s = Some (r, s')" and p: "port_ok False hr s" "sp_open s" "\<not> sp_error s"
  shows "\<exists>k e cr. k \<le> length buffer \<and> cr \<in> {[], [CR]} \<and> r = count_or k e \<and> (k = length buffer \<longleftrightarrow> e = E_OK) \<and> (e = E_OK \<longrightarrow> cr = []) \<and>
    does (e = E_OK) False hr (cooked (sp_ioctl s) (take k buffer) @ cr) [] s s'"
proof -
  have c: "port_check False True s = E_OK" using p by (simp add: port_check_def)
  obtain x k s1 where l: "write_loop buffer 0 True s = Some (x, k, s1)" using w c by (auto simp: eSerialPort_write_def split: option.splits)
  note d = write_loop_does [OF l, of hr]
  show ?thesis
  proof (cases x)
    case (Inl e)
    have r: "r = count_or k e" "s' = s1" using w c l Inl by (simp_all add: eSerialPort_write_def)
    have "k < length buffer \<and> e \<noteq> E_OK \<and> (\<exists>cr. cr \<in> {[], [CR]} \<and> does False False hr (cooked (sp_ioctl s) (take k buffer) @ cr) [] s s')"
      using d p(1) Inl r(2) unfolding cooked_def by auto
    then obtain cr where "k < length buffer" "e \<noteq> E_OK" "cr \<in> {[], [CR]}" "does False False hr (cooked (sp_ioctl s) (take k buffer) @ cr) [] s s'"
      by blast
    then show ?thesis using r by (intro exI [of _ k] exI [of _ e] exI [of _ cr]) auto
  next
    case (Inr full)
    then have k: "k = length buffer" "does True (\<not> full) hr (cooked (sp_ioctl s) buffer) [] s s1"
      using d p(1) by (simp_all add: cooked_def)
    have "r = count_or k E_OK \<and> does True False hr (cooked (sp_ioctl s) buffer) [] s s'"
    proof (cases full)
      case True then show ?thesis using w c l Inr k(2) by (simp add: eSerialPort_write_def)
    next
      case False
      then have q: "port_ok True hr s1" using does_ok [OF k(2)] by simp
      obtain e s2 where g: "svc_signal_snd s1 = (e, s2)" by fastforce
      note h = svc_signal_does(1) [OF q g]
      have "does True True hr (cooked (sp_ioctl s) buffer) [] s s1" using k(2) False by simp
      from does_after [OF this] h have "does True False hr (cooked (sp_ioctl s) buffer) [] s s2" by blast
      then show ?thesis using w c l Inr False g h by (simp add: eSerialPort_write_def)
    qed
    then show ?thesis using k(1) by (intro exI [of _ k] exI [of _ E_OK] exI [of _ "[]"]) simp
  qed
qed

section \<open>Open and close\<close>

text \<open>The two semaphores are in their initial state while the port is closed.\<close>

definition closed :: "sport \<Rightarrow> bool" where
  "closed s \<longleftrightarrow> \<not> sp_open s \<and> 0 < snd_size s \<and> 0 < rcv_size s \<and> snd_sem s = 1 \<and> rcv_sem s = 0"

lemma open_ok:
  assumes "closed s" "eSerialPort_open False True s = (e, s')"
  shows "e = E_OK \<and> sp_open s' \<and> \<not> sp_error s' \<and> port_ok False False s' \<and> snd_list s' = [] \<and> rcv_list s' = []"
  using assms
  by (auto simp: closed_def eSerialPort_open_def port_ok_def snd_ok_def rcv_ok_def snd_list_def rcv_list_def ring_empty ring_list_def Let_def)

lemma close_ok:
  "0 < snd_size s \<Longrightarrow> 0 < rcv_size s \<Longrightarrow> sp_open s \<Longrightarrow> eSerialPort_close False True s = (e, s') \<Longrightarrow> e = E_OK \<and> closed s'"
  by (auto simp: closed_def eSerialPort_close_def)

text \<open>The counts returned are those of buffers of less than $2^{31}$ characters.\<close>

lemma count_or_small: "k < 2 ^ 31 \<Longrightarrow> count_or k e = (if k = 0 then Ret e else RetUint (int k))"
proof -
  assume k: "k < 2 ^ 31"
  have u: "unat (of_nat k :: word32) = k" using k by (simp add: unat_of_nat)
  have "uint (of_nat k :: word32) = int k" using k by (simp add: uint_nat unat_of_nat)
  then have "sint (of_nat k :: word32) = int k" using k by (simp add: sint_uint signed_take_bit_int_eq_self)
  then show ?thesis using u by (auto simp: count_or_def word_greater_zero_iff)
qed

end
