(* ===== verification/SerialRead.thy ===== *)
theory SerialRead
  imports SerialFifo
begin

unbundle bit_operations_syntax

text \<open>
  Reading from the serial port (\<open>eSerialPort_read\<close> of tSerialPortMain.c): the characters come out in the order in which they came in, and
  each is echoed. \<open>unbroken\<close>: no wait is broken off, so that nothing fails.
\<close>

section \<open>No wait is broken off\<close>

definition unbroken :: "sport \<Rightarrow> bool" where
  "unbroken s \<longleftrightarrow> (\<forall>e. Broken e \<in> set (sp_evs s) \<longrightarrow> e = E_OK)"

lemma unbroken_mono: "unbroken s \<Longrightarrow> set (sp_evs s') \<subseteq> set (sp_evs s) \<Longrightarrow> unbroken s'"
  by (auto simp: unbroken_def)

lemma evs_steps [simp]:
  "sp_evs (snd (putChar c s)) = sp_evs s" "sp_evs (snd (serialPort_sendChar c s)) = sp_evs s" "sp_evs (take_sent s) = sp_evs s"
  "sp_evs (eiSIOCBR_readySend s) = sp_evs s"
proof -
  show p: "sp_evs (snd (putChar c s)) = sp_evs s" for c s by (simp add: putChar_def)
  show "sp_evs (snd (serialPort_sendChar c s)) = sp_evs s" by (simp add: serialPort_sendChar_def putChar_def)
  show t: "sp_evs (take_sent s) = sp_evs s" for s by (simp add: take_sent_def signal_snd_def Let_def)
  show "sp_evs (eiSIOCBR_readySend s) = sp_evs s" by (simp add: eiSIOCBR_readySend_def p t)
qed

lemma evs_send: "serialPort_sendChar c s = (b, s') \<Longrightarrow> sp_evs s' = sp_evs s"
  using evs_steps(2) [of c s] by simp

lemma evs_resume [simp]: "sp_evs (resume_loop s) = sp_evs s"
proof (induction s rule: resume_loop.induct)
  case (1 s)
  obtain b s1 where t: "serialPort_sendChar (snd_buf s (unat (snd_rp s))) s = (b, s1)" by fastforce
  show ?case
  proof (cases "0 < snd_cnt s \<and> b")
    case True
    then have "sp_evs (resume_loop (take_sent s1)) = sp_evs (take_sent s1)" using 1 [OF _ refl t [symmetric] refl] by simp
    then show ?thesis using True evs_send [OF t] by (simp add: resume_loop.simps [of s] t)
  next
    case False then show ?thesis using evs_send [OF t] by (auto simp: resume_loop.simps [of s] t)
  qed
qed

lemma evs_device [simp]: "sp_evs (device_event ev s) = sp_evs s"
proof -
  have "sp_evs (eiSIOCBR_readyReceive c s) = sp_evs s" for c
    by (simp add: eiSIOCBR_readyReceive_def Let_def case_prod_unfold signal_rcv_def)
  then show ?thesis by (simp add: device_event_def eiTxISR_main_def Let_def split: sio_event.split)
qed

lemma evs_gap: "set (sp_evs (gap s)) \<subseteq> set (sp_evs s)"
proof -
  have "set (sp_evs (run_gap es s)) \<subseteq> set es" for es by (induction es s rule: run_gap.induct) auto
  then show ?thesis by (simp add: gap_def)
qed

lemma evs_wait:
  "wait_sem sem get es s = Some (e, s') \<Longrightarrow> set (sp_evs s') \<subseteq> set es \<and> (e \<noteq> E_OK \<longrightarrow> Broken e \<in> set es)"
proof (induction es arbitrary: s)
  case (Cons ev es)
  show ?case
  proof (cases "0 < sem s")
    case True then show ?thesis using Cons(2) by auto
  next
    case False
    show ?thesis
    proof (cases "\<exists>e. ev = Broken e \<and> e \<noteq> E_OK")
      case True then show ?thesis using Cons(2) False by auto
    next
      case b: False
      then have "\<exists>s2. wait_sem sem get es s2 = Some (e, s')" using Cons(2) False by (cases ev) auto
      then show ?thesis using Cons(1) by auto
    qed
  qed
qed (auto split: if_splits)

lemma wait_rcv_unbroken:
  assumes "wait_rcv tmout s = Some (e, s')" "unbroken s"
  shows "unbroken s' \<and> (VALID_TMOUT tmout \<longrightarrow> e = E_OK \<or> e = E_TMOUT)"
proof -
  note g = unbroken_mono [OF assms(2) evs_gap]
  show ?thesis
  proof (cases "VALID_TMOUT tmout \<and> \<not> (rcv_sem (gap s) = 0 \<and> tmout = TMO_POL)")
    case True
    then have "wait_sem rcv_sem take_rcv (sp_evs (gap s)) (gap s) = Some (e, s')" using assms(1) by (auto simp: wait_rcv_def Let_def)
    from evs_wait [OF this] show ?thesis using g unbroken_mono [OF g] by (auto simp: unbroken_def)
  next
    case False then show ?thesis using assms(1) g by (auto simp: wait_rcv_def Let_def split: if_splits)
  qed
qed

lemma svc_wait_snd_unbroken:
  assumes "svc_wait_snd s = Some (e, s')" "unbroken s" shows "e = E_OK \<and> unbroken s'"
proof -
  note g = unbroken_mono [OF assms(2) evs_gap]
  obtain e1 s1 where w: "wait_snd s = Some (e1, s1)" using assms(1) by (auto simp: svc_wait_snd_def split: option.splits)
  then have "wait_sem snd_sem take_snd (sp_evs (gap s)) (gap s) = Some (e1, s1)" by (simp add: wait_snd_def Let_def)
  from evs_wait [OF this] have "e1 = E_OK" "unbroken s1" using g unbroken_mono [OF g] by (auto simp: unbroken_def)
  then show ?thesis using assms(1) w by (simp add: svc_wait_snd_def)
qed

lemma svc_signal_unbroken: "unbroken s \<Longrightarrow> unbroken (snd (svc_signal_snd s))"
  by (rule unbroken_mono [of s]) (use evs_gap in \<open>auto simp: svc_signal_snd_def signal_snd_def gen_ercd_sys_def\<close>)

lemma write_section_unbroken: "write_section c s = (full, s') \<Longrightarrow> unbroken s \<Longrightarrow> unbroken s'"
proof (rule unbroken_mono)
  assume w: "write_section c s = (full, s')"
  obtain sent s1 where e: "(if snd_cnt (gap s) = 0 \<and> \<not> snd_stopped (gap s) then serialPort_sendChar c (gap s) else (False, gap s)) = (sent, s1)" by fastforce
  then have "sp_evs s1 = sp_evs (gap s)" using evs_send by (auto split: if_splits)
  moreover have "sp_evs s' = sp_evs s1" using w by (cases sent) (auto simp: write_section_def Let_def e)
  ultimately show "set (sp_evs s') \<subseteq> set (sp_evs s)" using evs_gap by simp
qed

lemma writeChar_unbroken:
  assumes w: "serialPort_writeChar c s = Some (x, s')" and u: "unbroken s" shows "\<exists>full. x = Inr full \<and> unbroken s'"
proof (cases "c = LF \<and> sp_ioctl s AND IOCTL_CRLF \<noteq> 0")
  case False
  then show ?thesis using w u write_section_unbroken [of c s "fst (write_section c s)" "snd (write_section c s)"] by (auto simp: writeChar_plain)
next
  case True
  obtain full s1 where e: "write_section CR s = (full, s1)" by fastforce
  note u1 = write_section_unbroken [OF e u]
  have cr: "serialPort_writeChar CR s = Some (Inr full, s1)" using writeChar_plain [of CR s] e by simp
  obtain e2 s2 where t: "(if full then svc_wait_snd s1 else Some (E_OK, s1)) = Some (e2, s2)"
    and x: "(x, s') = (if e2 \<noteq> E_OK then (Inl e2, s2) else (Inr (fst (write_section c s2)), snd (write_section c s2)))"
    using w True by (subst (asm) serialPort_writeChar.simps) (auto simp: cr case_prod_unfold Let_def split: option.splits if_splits)
  have "e2 = E_OK \<and> unbroken s2" using t svc_wait_snd_unbroken [OF _ u1] u1 by (cases full) auto
  then show ?thesis using x write_section_unbroken [of c s2 "fst (write_section c s2)" "snd (write_section c s2)"] by auto
qed

lemma readChar_unbroken: "serialPort_readChar s = (c, emp, s') \<Longrightarrow> unbroken s \<Longrightarrow> unbroken s'"
proof (rule unbroken_mono)
  assume "serialPort_readChar s = (c, emp, s')"
  then have "s' = snd (snd (serialPort_readChar s))" by simp
  then have "sp_evs s' = sp_evs (gap s)" by (simp add: serialPort_readChar_def Let_def case_prod_unfold)
  then show "set (sp_evs s') \<subseteq> set (sp_evs s)" using evs_gap by simp
qed

section \<open>Reading\<close>

text \<open>A character leaves the receive buffer.\<close>

definition fetched :: "sport \<Rightarrow> sport" where
  "fetched s = s\<lparr>rcv_rp := INC_PTR (rcv_rp s) (rcv_size s), rcv_cnt := rcv_cnt s - 1\<rparr>"

lemma fetched_does:
  assumes p: "port_ok hs True s"
  shows "does True hs (rcv_cnt s - 1 \<noteq> 0) [] [rcv_buf s (unat (rcv_rp s))] s (fetched s)"
proof -
  have r: "ring_at (rcv_size s) (rcv_buf s) (rcv_rp s) (rcv_wp s) (rcv_cnt s) (rcv_list s)" and n: "0 < rcv_cnt s"
    using p by (auto simp: port_ok_def rcv_ok_def word_greater_zero_iff split: if_splits)
  obtain L where L: "rcv_list s = rcv_buf s (unat (rcv_rp s)) # L"
    and q: "ring_at (rcv_size s) (rcv_buf s) (INC_PTR (rcv_rp s) (rcv_size s)) (rcv_wp s) (rcv_cnt s - 1) L"
    using ring_pop [OF r n] by blast
  have l: "rcv_list (fetched s) = L" using ring_list_eq [OF q] by (simp add: rcv_list_def fetched_def)
  have f: "snd_ok hs (fetched s) = snd_ok hs s" "stream (fetched s) = stream s"
    by (simp_all add: fetched_def snd_ok_def snd_list_def stream_def)
  have "rcv_ok (rcv_cnt s - 1 \<noteq> 0) (fetched s)" using p q n unfolding rcv_ok_def l by (auto simp: fetched_def port_ok_def rcv_ok_def)
  then have "port_ok hs (rcv_cnt s - 1 \<noteq> 0) (fetched s)" using p by (simp add: port_ok_def f) (simp add: fetched_def)
  then show ?thesis by (simp add: does_def did_def f L l) (simp add: fetched_def)
qed

lemma readChar_does:
  assumes w: "serialPort_readChar s = (c, emp, s')" and p: "port_ok hs True s"
  shows "does True hs (\<not> emp) [] [c] s s'"
proof -
  define g where "g = gap s"
  have dg: "does True hs True [] [] s g" using gap_does [OF p] by (simp add: g_def)
  have d: "does True hs (rcv_cnt g - 1 \<noteq> 0) [] [rcv_buf g (unat (rcv_rp g))] s (fetched g)"
    by (rule does_step [OF dg fetched_does [OF does_ok [OF dg]]])
  obtain b s1 where e: "serialPort_sendChar FC_START (fetched g) = (b, s1)" by fastforce
  have r: "(c, emp, s') = (rcv_buf g (unat (rcv_rp g)), rcv_cnt g - 1 = 0,
      if rcv_stopped (fetched g) \<and> rcv_cnt (fetched g) \<le> BUFCNT_START (rcv_size (fetched g)) then
        (if \<not> b then s1\<lparr>rcv_fc := FC_START\<rparr> else s1)\<lparr>rcv_stopped := False\<rparr>
      else fetched g)"
    using w [unfolded serialPort_readChar_def, folded g_def] e [unfolded fetched_def] unfolding Let_def fetched_def
    by (cases "rcv_stopped g \<and> rcv_cnt g - 1 \<le> BUFCNT_START (rcv_size g)"; cases b) auto
  have "does True hs (rcv_cnt g - 1 \<noteq> 0) [] [] (fetched g) ((if \<not> b then s1\<lparr>rcv_fc := FC_START\<rparr> else s1)\<lparr>rcv_stopped := False\<rparr>)"
    by (rule flow_char [OF does_ok [OF d] _ e]) simp
  then show ?thesis using r d does_after [OF d] by (simp split: if_splits)
qed

definition echoed :: "word32 \<Rightarrow> string \<Rightarrow> string" where
  "echoed ioctl cs = (if ioctl AND IOCTL_ECHO \<noteq> 0 then cooked ioctl cs else [])"

lemma echo_back_does:
  assumes w: "echo_back c s = Some (e, s')" and p: "port_ok False hr s"
  shows "if e = E_OK then does True False hr (echoed (sp_ioctl s) [c]) [] s s'
    else sp_ioctl s AND IOCTL_ECHO \<noteq> 0 \<and> (\<exists>w. w \<in> {[], [CR]} \<and> does False False hr w [] s s')"
proof (cases "sp_ioctl s AND IOCTL_ECHO \<noteq> 0")
  case False then show ?thesis using w does_refl [OF p] by (simp add: echo_back_def echoed_def)
next
  case echo: True
  obtain e1 s1 where t: "svc_wait_snd s = Some (e1, s1)" using w echo by (auto simp: echo_back_def split: option.splits)
  note d = svc_wait_snd_does [OF t p]
  show ?thesis
  proof (cases "e1 = E_OK")
    case False then show ?thesis using w echo t d by (auto simp: echo_back_def)
  next
    case ok: True
    then have d: "does True True hr [] [] s s1" using d by simp
    have io: "sp_ioctl s1 = sp_ioctl s" using d by (simp add: does_def did_def)
    obtain y s2 where v: "serialPort_writeChar c s1 = Some (y, s2)" using w echo t ok by (auto simp: echo_back_def split: option.splits)
    note d2 = writeChar_does [OF v does_ok [OF d], unfolded io]
    show ?thesis
    proof (cases y)
      case (Inl e2)
      then have "e = e2" "s' = s2" "e2 \<noteq> E_OK" "does False False hr [CR] [] s1 s2" using w echo t ok v d2 by (auto simp: echo_back_def)
      then show ?thesis using echo does_step [OF d, of False False hr "[CR]" "[]" s2] by auto
    next
      case (Inr full)
      have d3: "does True (\<not> full) hr (cook (sp_ioctl s) c) [] s s2" using d2 Inr does_step [OF d] by simp
      obtain e3 s3 where g: "svc_signal_snd s2 = (e3, s3)" by fastforce
      have r: "(e, s') = (if full then (E_OK, s2) else (e3, s3))" using w echo t ok v Inr g by (simp add: echo_back_def split: if_splits)
      have "\<not> full \<Longrightarrow> e3 = E_OK \<and> does True False hr [] [] s2 s3" using svc_signal_does(1) [OF _ g, of hr] does_ok [OF d3] by simp
      then have "e = E_OK \<and> does True False hr (cook (sp_ioctl s) c) [] s s'" using r d3 does_after [of True hr "cook (sp_ioctl s) c" "[]" s s2] by (cases full) auto
      then show ?thesis using echo by (simp add: echoed_def cooked_def)
    qed
  qed
qed

lemma echoed_append: "echoed ioctl (a @ b) = echoed ioctl a @ echoed ioctl b"
  by (simp add: echoed_def cooked_def)

lemma echo_back_unbroken:
  assumes w: "echo_back c s = Some (e, s')" and p: "port_ok False hr s" and u: "unbroken s"
  shows "e = E_OK \<and> unbroken s'"
proof (cases "sp_ioctl s AND IOCTL_ECHO \<noteq> 0")
  case False then show ?thesis using w u by (simp add: echo_back_def)
next
  case echo: True
  obtain e1 s1 where t: "svc_wait_snd s = Some (e1, s1)" using w echo by (auto simp: echo_back_def split: option.splits)
  have u1: "e1 = E_OK" "unbroken s1" using svc_wait_snd_unbroken [OF t u] by simp_all
  then have d: "does True True hr [] [] s s1" using svc_wait_snd_does [OF t p] by simp
  obtain y s2 where v: "serialPort_writeChar c s1 = Some (y, s2)" using w echo t u1(1) by (auto simp: echo_back_def split: option.splits)
  obtain full where y: "y = Inr full" and u2: "unbroken s2" using writeChar_unbroken [OF v u1(2)] by blast
  have d2: "does True (\<not> full) hr (cook (sp_ioctl s1) c) [] s1 s2" using writeChar_does [OF v does_ok [OF d]] y by simp
  obtain e3 s3 where g: "svc_signal_snd s2 = (e3, s3)" by fastforce
  have "e3 = E_OK" if "\<not> full" using svc_signal_does(1) [OF _ g, of hr] does_ok [OF d2] that by simp
  moreover have "unbroken s3" using svc_signal_unbroken [OF u2] g by (metis snd_conv)
  ultimately show ?thesis using w echo t u1 v y g u2 by (auto simp: echo_back_def split: if_splits)
qed

text \<open>
  \<open>echo_of\<close>: what a read has echoed. Where a wait for the send buffer is broken off, the character before has been
  read but not (or only as the CR of it) echoed, and the receive semaphore is kept (\<open>h\<close>), though there may be
  characters in the buffer.
\<close>

definition echo_of :: "word32 \<Rightarrow> string \<Rightarrow> bool \<Rightarrow> string \<Rightarrow> bool" where
  "echo_of ioctl r h w \<longleftrightarrow> w = echoed ioctl r \<and> \<not> h \<or>
     ioctl AND IOCTL_ECHO \<noteq> 0 \<and> r \<noteq> [] \<and> w \<in> {echoed ioctl (butlast r), echoed ioctl (butlast r) @ [CR]}"

lemma echo_of_cons: "echo_of ioctl r h w \<Longrightarrow> echo_of ioctl (c # r) h (echoed ioctl [c] @ w)"
  using echoed_append [of ioctl "[c]" r] echoed_append [of ioctl "[c]" "butlast r"] by (auto simp: echo_of_def)

lemma read_loop_does:
  assumes "read_loop tmout n emp buf s = Some (x, buf', s')" "port_ok False (\<not> emp) s"
  shows "\<exists>r. buf' = buf @ r \<and> length r \<le> n \<and>
    (case x of
       All_read emp' \<Rightarrow> length r = n \<and> does True False (\<not> emp') (echoed (sp_ioctl s) r) r s s'
     | Timed_out \<Rightarrow> does True False False (echoed (sp_ioctl s) r) r s s'
     | Failed e \<Rightarrow> e \<noteq> E_OK \<and> (r = [] \<longrightarrow> e \<noteq> E_TMOUT) \<and> \<not> (unbroken s \<and> VALID_TMOUT tmout) \<and>
         (\<exists>h w. echo_of (sp_ioctl s) r h w \<and> (h \<longrightarrow> \<not> unbroken s) \<and> (w \<noteq> echoed (sp_ioctl s) r \<longrightarrow> \<not> unbroken s) \<and> does False False h w r s s'))"
  using assms
proof (induction n arbitrary: emp buf s)
  case 0 then show ?case using does_refl by (auto simp: echoed_def cooked_def)
next
  case (Suc n)
  obtain e1 s1 where t: "(if emp then wait_rcv tmout s else Some (E_OK, s)) = Some (e1, s1)"
    using Suc(2) by (auto split: option.splits if_splits)
  have d1: "does True False (e1 = E_OK) [] [] s s1" using t wait_rcv_does [of tmout s e1 s1 False] does_refl Suc(3) by (cases emp) auto
  have u1: "unbroken s \<Longrightarrow> unbroken s1 \<and> (VALID_TMOUT tmout \<longrightarrow> e1 = E_OK \<or> e1 = E_TMOUT)"
    using t wait_rcv_unbroken [of tmout s e1 s1] by (cases emp) auto
  consider (tmout) "e1 = E_TMOUT" | (err) "e1 \<noteq> E_TMOUT" "e1 \<noteq> E_OK" | (ok) "e1 = E_OK" by blast
  then show ?case
  proof cases
    case tmout
    then have "x = Timed_out" "buf' = buf" "s' = s1" using Suc(2) t by auto
    then show ?thesis using d1 tmout by (simp add: echoed_def cooked_def)
  next
    case err
    then have x: "x = Failed e1" "buf' = buf" "s' = snd (gen_ercd_wait e1 s1)" using Suc(2) t by auto
    have d: "does True False False [] [] s s1" using d1 err by simp
    have "does False False False [] [] s s'"
      using does_step [OF d conjunct1 [OF gen_ercd_wait_does [OF does_ok [OF d] err(2)]]] x(3) by simp
    moreover have "echoed i [] = []" for i by (simp add: echoed_def cooked_def)
    ultimately show ?thesis using x err u1 by (intro exI [of _ "[]"]) (auto simp: echo_of_def)
  next
    case ok
    obtain c emp2 s2 where rc: "serialPort_readChar s1 = (c, emp2, s2)" by (metis prod_cases3)
    have d: "does True False True [] [] s s1" using d1 ok by simp
    have d2: "does True False (\<not> emp2) [] [c] s s2" by (rule does_step [OF d readChar_does [OF rc does_ok [OF d]]])
    have io: "sp_ioctl s2 = sp_ioctl s" using d2 by (simp add: does_def did_def)
    have u2: "unbroken s \<Longrightarrow> unbroken s2" using u1 readChar_unbroken [OF rc] by blast
    obtain e3 s3 where eb: "echo_back c s2 = Some (e3, s3)" using Suc(2) t ok rc by (auto split: option.splits)
    note d3 = echo_back_does [OF eb does_ok [OF d2], unfolded io]
    have u3: "unbroken s \<Longrightarrow> e3 = E_OK \<and> unbroken s3" using echo_back_unbroken [OF eb does_ok [OF d2] u2] by blast
    show ?thesis
    proof (cases "e3 = E_OK")
      case False
      then have x: "x = Failed e3" "buf' = buf @ [c]" "s' = s3" using Suc(2) t ok rc eb by auto
      obtain w where w: "does False False (\<not> emp2) w [] s2 s3" "sp_ioctl s AND IOCTL_ECHO \<noteq> 0" "w \<in> {[], [CR]}" using d3 False by auto
      have "does False False (\<not> emp2) w [c] s s3" using does_trans [OF d2 w(1)] by simp
      moreover have "echo_of (sp_ioctl s) [c] h w" for h using w(2,3) by (auto simp: echo_of_def echoed_def cooked_def)
      moreover have "\<not> unbroken s" using u3 False by blast
      ultimately show ?thesis using x False by (intro exI [of _ "[c]"]) auto
    next
      case True
      then have d4: "does True False (\<not> emp2) (echoed (sp_ioctl s) [c]) [c] s s3" using d3 does_trans [OF d2] by fastforce
      have io3: "sp_ioctl s3 = sp_ioctl s" using d4 by (simp add: does_def did_def)
      have "read_loop tmout n emp2 (buf @ [c]) s3 = Some (x, buf', s')" using Suc(2) t ok rc eb True by simp
      from Suc(1) [OF this does_ok [OF d4], unfolded io3] obtain r where r: "buf' = buf @ (c # r)" "length r \<le> n"
        and k: "case x of
           All_read emp' \<Rightarrow> length r = n \<and> does True False (\<not> emp') (echoed (sp_ioctl s) r) r s3 s'
         | Timed_out \<Rightarrow> does True False False (echoed (sp_ioctl s) r) r s3 s'
         | Failed e \<Rightarrow> e \<noteq> E_OK \<and> (r = [] \<longrightarrow> e \<noteq> E_TMOUT) \<and> \<not> (unbroken s3 \<and> VALID_TMOUT tmout) \<and>
             (\<exists>h w. echo_of (sp_ioctl s) r h w \<and> (h \<longrightarrow> \<not> unbroken s3) \<and> (w \<noteq> echoed (sp_ioctl s) r \<longrightarrow> \<not> unbroken s3) \<and>
               does False False h w r s3 s')" by auto
      note j = does_trans [OF d4]
      have a: "echoed (sp_ioctl s) (c # r) = echoed (sp_ioctl s) [c] @ echoed (sp_ioctl s) r"
        using echoed_append [of "sp_ioctl s" "[c]" r] by simp
      show ?thesis
      proof (intro exI [of _ "c # r"] conjI)
        show "buf' = buf @ c # r" "length (c # r) \<le> Suc n" using r by simp_all
        show "case x of
           All_read emp' \<Rightarrow> length (c # r) = Suc n \<and> does True False (\<not> emp') (echoed (sp_ioctl s) (c # r)) (c # r) s s'
         | Timed_out \<Rightarrow> does True False False (echoed (sp_ioctl s) (c # r)) (c # r) s s'
         | Failed e \<Rightarrow> e \<noteq> E_OK \<and> (c # r = [] \<longrightarrow> e \<noteq> E_TMOUT) \<and> \<not> (unbroken s \<and> VALID_TMOUT tmout) \<and>
             (\<exists>h w. echo_of (sp_ioctl s) (c # r) h w \<and> (h \<longrightarrow> \<not> unbroken s) \<and>
               (w \<noteq> echoed (sp_ioctl s) (c # r) \<longrightarrow> \<not> unbroken s) \<and> does False False h w (c # r) s s')"
        proof (cases x)
          case (Failed e)
          then obtain h w where hw: "e \<noteq> E_OK" "\<not> (unbroken s3 \<and> VALID_TMOUT tmout)" "echo_of (sp_ioctl s) r h w" "h \<longrightarrow> \<not> unbroken s3"
            "w \<noteq> echoed (sp_ioctl s) r \<longrightarrow> \<not> unbroken s3" "does False False h w r s3 s'" using k by auto
          have "does False False h (echoed (sp_ioctl s) [c] @ w) (c # r) s s'" using j [OF hw(6)] by simp
          then show ?thesis unfolding a Failed using hw u3 echo_of_cons [OF hw(3), of c] by auto
        qed (use k j a in auto)
      qed
    qed
  qed
qed

text \<open>
  \<open>eSerialPort_read\<close>: the characters read are the oldest of those received, and each is echoed. Either all are read,
  or the time is over; or, where a wait was broken off (or \<open>tmout\<close> makes no sense), an error ends it.
\<close>

lemma read_does:
  assumes w: "eSerialPort_read False True len tmout s = Some (r, buf, s')" and p: "port_ok False False s" "sp_open s" "\<not> sp_error s"
  shows "length buf \<le> len \<and>
    ((length buf = len \<and> r = count_or len E_OK \<or> r = Ret E_TMOUT) \<and> does True False False (echoed (sp_ioctl s) buf) buf s s' \<or>
     (\<exists>e h w. e \<noteq> E_OK \<and> (buf = [] \<longrightarrow> e \<noteq> E_TMOUT) \<and> r = count_or (length buf) e \<and> \<not> (unbroken s \<and> VALID_TMOUT tmout) \<and> echo_of (sp_ioctl s) buf h w \<and>
       (h \<longrightarrow> \<not> unbroken s) \<and> (w \<noteq> echoed (sp_ioctl s) buf \<longrightarrow> \<not> unbroken s) \<and> does False False h w buf s s'))"
proof -
  have c: "port_check False True s = E_OK" using p by (simp add: port_check_def)
  obtain x s1 where l: "read_loop tmout len True [] s = Some (x, buf, s1)"
    using w c by (auto simp: eSerialPort_read_def case_prod_unfold Let_def split: option.splits read_end.splits if_splits)
  note d = read_loop_does [OF l]
  show ?thesis
  proof (cases x)
    case (All_read emp)
    have d1: "length buf = len" "does True False (\<not> emp) (echoed (sp_ioctl s) buf) buf s s1" using d p(1) All_read by auto
    have "r = count_or (length buf) E_OK \<and> does True False False (echoed (sp_ioctl s) buf) buf s s'"
    proof (cases emp)
      case True then show ?thesis using w c l All_read d1(2) by (simp add: eSerialPort_read_def)
    next
      case False
      obtain e s2 where g: "svc_signal_rcv s1 = (e, s2)" by fastforce
      have d2: "does True False True (echoed (sp_ioctl s) buf) buf s s1" using d1(2) False by simp
      have "e = E_OK \<and> does True False False [] [] s1 s2" by (rule svc_signal_does(2) [OF does_ok [OF d2] g])
      then show ?thesis using does_after [OF d2] w c l All_read False g by (simp add: eSerialPort_read_def)
    qed
    then show ?thesis using d1(1) by simp
  next
    case Timed_out
    then have "r = Ret E_TMOUT" "s' = s1" using w c l by (simp_all add: eSerialPort_read_def)
    then show ?thesis using d p(1) Timed_out by auto
  next
    case (Failed e)
    then have r: "r = count_or (length buf) e" "s' = s1" using w c l by (simp_all add: eSerialPort_read_def)
    then show ?thesis using d p(1) Failed by auto
  qed
qed

end
