(* ===== verification/SerialRoom.thy ===== *)
theory SerialRoom
  imports SerialFifo
begin

text \<open>
  A write for which there is room in the send buffer returns, whatever interrupts come; it does not even wait. (Interrupts take
  characters out of the send buffer only.)
\<close>

definition fill :: "sport \<Rightarrow> nat" where "fill s = unat (snd_cnt s)"

lemma fill_minus: "0 < snd_cnt s \<Longrightarrow> snd_cnt s' = snd_cnt s - 1 \<Longrightarrow> fill s' \<le> fill s"
  by (simp add: fill_def) unat_arith

lemma readySend_fill: "fill (eiSIOCBR_readySend s) \<le> fill s"
proof -
  have p: "fill (snd (putChar c s)) = fill s" "snd_cnt (snd (putChar c s)) = snd_cnt s" for c by (simp_all add: putChar_def fill_def)
  show ?thesis using fill_minus [of s "take_sent (snd (putChar (snd_buf s (unat (snd_rp s))) s))"]
    by (auto simp: eiSIOCBR_readySend_def p) (simp_all add: fill_def p)
qed

lemma resume_fill: "fill (resume_loop s) \<le> fill s"
proof (induction s rule: resume_loop.induct)
  case (1 s)
  obtain b s1 where t: "serialPort_sendChar (snd_buf s (unat (snd_rp s))) s = (b, s1)" by fastforce
  have c: "snd_cnt s1 = snd_cnt s" by (rule send_cnt [OF t])
  show ?case
  proof (cases "0 < snd_cnt s \<and> b")
    case True
    have "fill (resume_loop (take_sent s1)) \<le> fill (take_sent s1)" using 1 [OF _ refl t [symmetric] refl] True by simp
    also have "\<dots> \<le> fill s" using fill_minus [of s "take_sent s1"] True c by simp
    finally show ?thesis using True by (simp add: resume_loop.simps [of s] t)
  next
    case False then show ?thesis using c by (auto simp: resume_loop.simps [of s] t fill_def)
  qed
qed

lemma readyReceive_fill: "fill (eiSIOCBR_readyReceive c s) \<le> fill s"
proof -
  have [simp]: "fill (s\<lparr>snd_stopped := b\<rparr>) = fill s" for b by (simp add: fill_def)
  have "fill (snd (serialPort_sendChar c s)) = fill s" for c s by (simp add: serialPort_sendChar_def putChar_def fill_def)
  then show ?thesis using order_trans [OF resume_fill [of "s\<lparr>snd_stopped := False\<rparr>"]]
    by (simp add: eiSIOCBR_readyReceive_def Let_def case_prod_unfold signal_rcv_def) (simp add: fill_def)
qed

lemma device_event_fill: "fill (device_event ev s) \<le> fill s"
proof (cases ev)
  case (Sent n)
  have "fill (eiSIOCBR_readySend (s\<lparr>tx_room := m\<rparr>)) \<le> fill s" for m
    using readySend_fill [of "s\<lparr>tx_room := m\<rparr>"] by (simp add: fill_def)
  then show ?thesis using Sent by (simp add: device_event_def eiTxISR_main_def Let_def) (simp add: fill_def)
qed (simp_all add: device_event_def readyReceive_fill)

lemma gap_fill: "fill (gap s) \<le> fill s"
proof -
  have "fill (run_gap es s) \<le> fill s" for es
  proof (induction es s rule: run_gap.induct)
    case (1 s) then show ?case by (simp add: fill_def)
  next
    case (2 ev es s)
    have "fill (s\<lparr>sp_evs := es\<rparr>) = fill s" by (simp add: fill_def)
    then show ?case using 2 device_event_fill [of ev s] by (cases "ev = Go") simp_all
  qed
  then show ?thesis by (simp add: gap_def)
qed

lemma svc_wait_snd_room:
  assumes p: "port_ok False hr s" and r: "fill s < unat (snd_size s)"
  shows "\<exists>s'. svc_wait_snd s = Some (E_OK, s') \<and> fill s' \<le> fill s"
proof -
  have g: "port_ok False hr (gap s)" "snd_size (gap s) = snd_size s" using gap_does [OF p] by (simp_all add: does_def did_def)
  have "fill (gap s) < unat (snd_size s)" using gap_fill [of s] r by simp
  then have "snd_sem (gap s) = 1" using g by (auto simp: fill_def port_ok_def snd_ok_def split: if_splits)
  then have "svc_wait_snd s = Some (E_OK, (take_snd (gap s))\<lparr>sp_evs := sp_evs (gap s)\<rparr>)"
    by (cases "sp_evs (gap s)") (simp_all add: svc_wait_snd_def wait_snd_def Let_def)
  then show ?thesis using gap_fill [of s] by (simp add: fill_def take_snd_def)
qed

lemma write_section_room:
  assumes p: "port_ok True hr s" and w: "write_section c s = (full, s')"
  shows "fill s' \<le> fill s + 1"
proof -
  have g: "fill (gap s) \<le> fill s" by (rule gap_fill)
  have c: "fill (snd (serialPort_sendChar c x)) = fill x" for x by (simp add: serialPort_sendChar_def putChar_def fill_def)
  have q: "fill (queued c x) \<le> fill x + 1" for x by (simp add: queued_def fill_def) unat_arith
  have "s' \<in> {snd (serialPort_sendChar c (gap s)), queued c (gap s), queued c (snd (serialPort_sendChar c (gap s)))}"
    using w by (auto simp: write_section_def Let_def case_prod_unfold queued_def split: if_splits)
  then show ?thesis using g c [of "gap s"] q [of "gap s"] q [of "snd (serialPort_sendChar c (gap s))"] by auto
qed

lemma section_full:
  assumes p: "port_ok True hr s" and w: "write_section c s = (True, s')"
  shows "unat (snd_size s) \<le> fill s + 1"
proof -
  have "snd_cnt s' = snd_size s'" using w by (auto simp: write_section_def Let_def case_prod_unfold split: if_splits)
  moreover have "snd_size s' = snd_size s" using write_section_does [OF w p] by (simp add: does_def did_def)
  ultimately show ?thesis using write_section_room [OF p w] by (simp add: fill_def)
qed

lemma writeChar_room:
  assumes p: "port_ok True hr s" and r: "fill s + length (cook (sp_ioctl s) c) \<le> unat (snd_size s)"
  shows "\<exists>full s'. serialPort_writeChar c s = Some (Inr full, s') \<and> fill s' \<le> fill s + length (cook (sp_ioctl s) c)"
proof (cases "c = LF \<and> sp_ioctl s AND IOCTL_CRLF \<noteq> 0")
  case False
  have l: "length (cook (sp_ioctl s) c) = 1" using False by (simp add: cook_def)
  have "fill (snd (write_section c s)) \<le> fill s + 1" by (rule write_section_room [OF p prod.collapse [symmetric]])
  then show ?thesis using l by (simp add: writeChar_plain [OF False])
next
  case True
  have r2: "fill s + 2 \<le> unat (snd_size s)" using r True by (simp add: cook_def)
  obtain full s1 where e: "write_section CR s = (full, s1)" by fastforce
  have nf: "full = False" using section_full [OF p, of CR s1] e r2 by (cases full) auto
  have d: "does True True hr [CR] [] s s1" using write_section_does [OF e p] nf by simp
  have f: "fill s1 \<le> fill s + 1" by (rule write_section_room [OF p e])
  have "fill (snd (write_section c s1)) \<le> fill s1 + 1" by (rule write_section_room [OF does_ok [OF d] prod.collapse [symmetric]])
  moreover have "serialPort_writeChar CR s = Some (Inr full, s1)" using writeChar_plain [of CR s] e by simp
  then have "serialPort_writeChar c s = Some (Inr (fst (write_section c s1)), snd (write_section c s1))"
    using True nf by (subst serialPort_writeChar.simps) (simp add: case_prod_unfold Let_def)
  ultimately show ?thesis using f True by (simp add: cook_def)
qed

lemma write_loop_room:
  assumes "port_ok (\<not> full) hr s" "fill s + length (cooked (sp_ioctl s) cs) \<le> unat (snd_size s)"
  shows "\<exists>full' s'. write_loop cs n full s = Some (Inr full', n + length cs, s')"
  using assms
proof (induction cs arbitrary: n full s)
  case (Cons c cs)
  have lc: "0 < length (cook (sp_ioctl s) c)" by (simp add: cook_def)
  have r: "fill s + length (cook (sp_ioctl s) c) + length (cooked (sp_ioctl s) cs) \<le> unat (snd_size s)" using Cons(3) by (simp add: cooked_def)
  obtain s1 where t: "(if full then svc_wait_snd s else Some (E_OK, s)) = Some (E_OK, s1)" and f1: "fill s1 \<le> fill s"
    using svc_wait_snd_room [of hr s] Cons(2) lc r by (cases full) auto
  have d1: "does True True hr [] [] s s1"
    using t svc_wait_snd_does [of s E_OK s1 hr] does_refl Cons(2) by (cases full) auto
  have e1: "sp_ioctl s1 = sp_ioctl s" "snd_size s1 = snd_size s" using d1 by (simp_all add: does_def did_def)
  obtain full2 s2 where w: "serialPort_writeChar c s1 = Some (Inr full2, s2)" and f2: "fill s2 \<le> fill s1 + length (cook (sp_ioctl s) c)"
    using writeChar_room [OF does_ok [OF d1], of c] r f1 e1 by auto
  have d2: "does True (\<not> full2) hr (cook (sp_ioctl s) c) [] s1 s2" using writeChar_does [OF w does_ok [OF d1]] e1 by simp
  have e2: "sp_ioctl s2 = sp_ioctl s" "snd_size s2 = snd_size s" using d2 e1 by (simp_all add: does_def did_def)
  obtain full' s' where "write_loop cs (n + 1) full2 s2 = Some (Inr full', n + 1 + length cs, s')"
    using Cons(1) [OF does_ok [OF d2], of "n + 1"] r f1 f2 e2 by auto
  then show ?case using t w by simp
qed simp

lemma write_room:
  assumes p: "port_ok False hr s" "sp_open s" "\<not> sp_error s" and r: "fill s + length (cooked (sp_ioctl s) buffer) \<le> unat (snd_size s)"
  shows "\<exists>s'. eSerialPort_write False True buffer s = Some (count_or (length buffer) E_OK, s')"
proof -
  have c: "port_check False True s = E_OK" using p by (simp add: port_check_def)
  obtain full s1 where l: "write_loop buffer 0 True s = Some (Inr full, length buffer, s1)"
    using write_loop_room [of True hr s buffer 0] p(1) r by auto
  have d: "\<not> full \<Longrightarrow> port_ok True hr s1" using write_loop_does [OF l, of hr] p(1) does_ok by auto
  have "\<not> full \<Longrightarrow> fst (svc_signal_snd s1) = E_OK" using svc_signal_does(1) [OF d] by (metis prod.collapse)
  then show ?thesis using c l by (simp add: eSerialPort_write_def case_prod_unfold)
qed

section \<open>A concrete port\<close>

text \<open>A port with buffers of four characters that has been opened, its device with room for one character.\<close>

definition demo_closed :: "sio_event list \<Rightarrow> sport" where
  "demo_closed es =
     \<lparr>rcv_size = 4, snd_size = 4, sp_open = False, sp_error = False, sp_ioctl = 0, rcv_buf = (\<lambda>_. FC_NONE), rcv_rp = 0, rcv_wp = 0,
      rcv_cnt = 0, rcv_fc = FC_NONE, rcv_stopped = False, snd_buf = (\<lambda>_. FC_NONE), snd_rp = 0, snd_wp = 0, snd_cnt = 0,
      snd_stopped = False, snd_sem = 1, rcv_sem = 0, cbr_snd = False, cbr_rcv = False, tx_room = 1, tx_out = [], rx_log = [],
      sp_evs = es\<rparr>"

definition demo_port :: "sio_event list \<Rightarrow> sport" where "demo_port es = snd (eSerialPort_open False True (demo_closed es))"

lemma demo_port_ok: "port_ok False False (demo_port es)" "sp_open (demo_port es)" "\<not> sp_error (demo_port es)"
proof -
  have "closed (demo_closed es)" by (simp add: closed_def demo_closed_def)
  note o = open_ok [OF this prod.collapse [symmetric]]
  show "port_ok False False (demo_port es)" "sp_open (demo_port es)" "\<not> sp_error (demo_port es)" using o unfolding demo_port_def by blast+
qed

text \<open>
  A read that times out reports a timeout though it has taken a character out of the buffer, which no later read gives; and
  after an echo that is broken off the characters in the buffer cannot be read, for the semaphore of the readers is lost.
\<close>

lemma timeout_discards_characters:
  "map_option (\<lambda>(r, buf, s). (r, buf, rcv_list s)) (eSerialPort_read False True 2 100 (demo_port [Got CHR ''A'', Go, Go, Go, Go, Go, Go, Broken E_TMOUT]))
   = Some (Ret E_TMOUT, ''A'', [])"
  by code_simp

lemma echo_failure_blocks_readers:
  "(case eSerialPort_write False True ''abcde'' (demo_port ([Go, Go, Go, Go, Go, Go, Got CHR ''x'', Got CHR ''y'', Go, Go, Go, Broken E_RLWAI])) of
      Some (r, s) \<Rightarrow>
        (case eSerialPort_read False True 1 TMO_FEVR s of
           Some (r', buf, s') \<Rightarrow> Some (r, r', buf, rcv_list s', Option.is_none (eSerialPort_read False True 1 TMO_FEVR s'))
         | None \<Rightarrow> None)
    | None \<Rightarrow> None)
   = Some (RetUint 5, RetUint 1, ''x'', ''y'', True)"
  by code_simp

end
