(* ===== verification/LogTask.thy ===== *)
theory LogTask
  imports Syslog SerialRoom
begin

text \<open>
  The task that carries the system log to the serial port, asp3\_dcre/syssvc/tLogTaskMain.c: waiting until the log has been put out,
  one round of the task, and the routine at termination, which puts out what is left through \<open>cPutLog\<close> (\<open>lg_low\<close>).
\<close>

section \<open>Operations\<close>

text \<open>
  \<open>eLogTask_flush\<close>: each \<open>dly_tsk\<close> returns a code, and the log and the port as they are then; these are the elements of \<open>ws\<close>.
  \<open>None\<close>: it waits at the end of \<open>ws\<close>.
\<close>

fun flush_wait :: "bool \<Rightarrow> uint \<Rightarrow> (er \<times> logcb \<times> sport) list \<Rightarrow> logcb \<Rightarrow> sport \<Rightarrow> (er \<times> logcb \<times> sport) option" where
  "flush_wait valid cnt ws lg sp =
     (let (e, rlog) = eSysLog_refer lg
      in if e \<noteq> E_OK then Some (E_SYS, lg, sp)
         else
           case (if rl_count rlog \<le> cnt then
                   if cnt = 0 then
                     (case eSerialPort_refer False valid sp of
                        (_, None) \<Rightarrow> Some E_SYS
                      | (_, Some rpor) \<Rightarrow> if rp_wricnt rpor = 0 then Some E_OK else None)
                   else Some E_OK
                 else None) of
             Some e \<Rightarrow> Some (e, lg, sp)
           | None \<Rightarrow>
               (case ws of
                  [] \<Rightarrow> None
                | (rercd, lg, sp) # ws \<Rightarrow>
                    if rercd \<noteq> E_OK then Some (if rercd = E_RLWAI then rercd else E_SYS, lg, sp) else flush_wait valid cnt ws lg sp))"

declare flush_wait.simps [simp del]

definition eLogTask_flush :: "bool \<Rightarrow> bool \<Rightarrow> uint \<Rightarrow> (er \<times> logcb \<times> sport) list \<Rightarrow> logcb \<Rightarrow> sport \<Rightarrow> (er \<times> logcb \<times> sport) option" where
  "eLogTask_flush dpn valid cnt ws lg sp = (if dpn then Some (E_CTX, lg, sp) else flush_wait valid cnt ws lg sp)"

text \<open>One round of \<open>eLogTaskBody_main\<close>, which then sleeps for an interval. The result of a write is dropped.\<close>

fun logtask_puts :: "bool \<Rightarrow> bool \<Rightarrow> string \<Rightarrow> sport \<Rightarrow> sport option" where
  "logtask_puts dpn valid [] sp = Some sp"
| "logtask_puts dpn valid (c # cs) sp =
     (case eSerialPort_write dpn valid [c] sp of None \<Rightarrow> None | Some (_, sp) \<Rightarrow> logtask_puts dpn valid cs sp)"

function log_round :: "(addr \<Rightarrow> string) \<Rightarrow> uint \<Rightarrow> bool \<Rightarrow> bool \<Rightarrow> logcb \<Rightarrow> sport \<Rightarrow> (logcb \<times> sport) option" where
  "log_round str sz dpn valid lg sp =
     (case eSysLog_read sz lg of
        (RetUint rercd, Some r, lg1) \<Rightarrow>
          if rercd < 0 then Some (lg1, sp)
          else
            (case logtask_puts dpn valid ((if rercd > 0 then syslog_lostmsg str (word_of_int rercd) else []) @ syslog_print str r) sp of
               None \<Rightarrow> None
             | Some sp \<Rightarrow> log_round str sz dpn valid lg1 sp)
      | (_, _, lg1) \<Rightarrow> Some (lg1, sp))"
  by pat_completeness auto
termination by (relation "measure (\<lambda>(str, sz, dpn, valid, lg, sp). unat (lg_count lg))") (auto dest: read_count [OF sym])

declare log_round.simps [simp del]

text \<open>\<open>eLogTaskTerminate_main\<close>: what is left in the port, and what is left in the log.\<close>

lemma getChar_count:
  "enSerialPortManage_getChar valid sp = (Some c, sp') \<Longrightarrow> unat (snd_cnt sp') < unat (snd_cnt sp)"
  by (auto simp: enSerialPortManage_getChar_def unat_minus_one word_greater_zero_iff unat_gt_0 split: if_splits)

function rest_of_port :: "bool \<Rightarrow> string \<Rightarrow> sport \<Rightarrow> string \<times> sport" where
  "rest_of_port valid out sp =
     (case enSerialPortManage_getChar valid sp of
        (Some c, sp1) \<Rightarrow> rest_of_port valid (out @ [c]) sp1
      | (None, sp1) \<Rightarrow> (out, sp1))"
  by pat_completeness auto
termination by (relation "measure (\<lambda>(valid, out, sp). unat (snd_cnt sp))") (auto dest: getChar_count [OF sym])

declare rest_of_port.simps [simp del]

definition buffered_msg :: string where "buffered_msg = ''-- buffered messages --'' @ [LF]"

function rest_of_log :: "(addr \<Rightarrow> string) \<Rightarrow> uint \<Rightarrow> bool \<Rightarrow> string \<Rightarrow> logcb \<Rightarrow> string \<times> logcb" where
  "rest_of_log str sz msgflg out lg =
     (case eSysLog_read sz lg of
        (RetUint rercd, Some r, lg1) \<Rightarrow>
          if rercd < 0 then (out, lg1)
          else
            let (out, msgflg) = (if \<not> msgflg then (out @ syslog_printf str buffered_msg (\<lambda>_. 0) 0, True) else (out, msgflg));
                out = (if rercd > 0 then out @ syslog_lostmsg str (word_of_int rercd) else out)
            in rest_of_log str sz msgflg (out @ syslog_print str r) lg1
      | (_, _, lg1) \<Rightarrow> (out, lg1))"
  by pat_completeness auto
termination by (relation "measure (\<lambda>(str, sz, msgflg, out, lg). unat (lg_count lg))") (auto dest: read_count [OF sym])

declare rest_of_log.simps [simp del]

definition eLogTaskTerminate_main :: "(addr \<Rightarrow> string) \<Rightarrow> uint \<Rightarrow> bool \<Rightarrow> logcb \<Rightarrow> sport \<Rightarrow> logcb \<times> sport" where
  "eLogTaskTerminate_main str sz valid lg sp =
     (let (out1, sp) = rest_of_port valid [] sp;
          (out2, lg) = rest_of_log str sz False [] lg
      in (lg\<lparr>lg_low := lg_low lg @ out1 @ out2\<rparr>, sp))"

section \<open>What they promise\<close>

text \<open>When a flush succeeds, the log has at most \<open>cnt\<close> records, and for 0 nothing waits to be sent.\<close>

lemma flush_wait_done:
  assumes "flush_wait valid cnt ws lg sp = Some (E_OK, lg', sp')"
  shows "lg_count lg' \<le> cnt \<and> (cnt = 0 \<longrightarrow> snd_cnt sp' = 0)"
  using assms
proof (induction ws arbitrary: lg sp)
  case Nil
  then show ?case by (subst (asm) flush_wait.simps) (auto simp: eSysLog_refer_def eSerialPort_refer_def split: if_splits)
next
  case (Cons w ws)
  obtain rercd lg1 sp1 where w: "w = (rercd, lg1, sp1)" by (metis prod_cases3)
  show ?case using Cons.prems Cons.IH [of lg1 sp1] unfolding w
    by (subst (asm) (1) flush_wait.simps) (auto simp: eSysLog_refer_def eSerialPort_refer_def split: if_splits)
qed

lemma eLogTask_flush_done:
  "eLogTask_flush dpn valid cnt ws lg sp = Some (E_OK, lg', sp') \<Longrightarrow> lg_count lg' \<le> cnt \<and> (cnt = 0 \<longrightarrow> snd_cnt sp' = 0)"
  using flush_wait_done by (auto simp: eLogTask_flush_def split: if_splits)

text \<open>A round that returns leaves the log empty (it was not written to meanwhile).\<close>

lemma log_round_empties:
  "log_at sz lg L \<Longrightarrow> 0 \<le> sint (lg_lost lg) \<Longrightarrow> log_round str sz dpn valid lg sp = Some (lg', sp') \<Longrightarrow> log_at sz lg' []"
proof (induction L arbitrary: lg sp)
  case Nil then show ?case by (simp add: log_round.simps read_log_empty)
next
  case (Cons r L)
  obtain lg1 where l: "eSysLog_read sz lg = (RetUint (sint (lg_lost lg)), Some r, lg1)" "log_at sz lg1 L" "lg_lost lg1 = 0"
    using read_log_at [OF Cons.prems(1)] by blast
  obtain sp1 where "log_round str sz dpn valid lg1 sp1 = Some (lg', sp')"
    using Cons.prems(2,3) l(1) by (subst (asm) log_round.simps) (auto split: option.splits)
  then show ?case using Cons.IH [of lg1 sp1] l by simp
qed

text \<open>Termination loses nothing: the characters still to be sent, then the records still in the log.\<close>

lemma rest_of_port_all:
  assumes "ring_at (snd_size sp) (snd_buf sp) (snd_rp sp) (snd_wp sp) (snd_cnt sp) L" "sp_open sp"
  shows "\<exists>sp'. rest_of_port True out sp = (out @ L, sp') \<and> snd_cnt sp' = 0"
  using assms
proof (induction L arbitrary: out sp)
  case Nil
  then have "snd_cnt sp = 0" by (simp add: ring_at_def unat_eq_zero)
  then show ?case by (simp add: rest_of_port.simps enSerialPortManage_getChar_def)
next
  case (Cons c L)
  have n: "0 < snd_cnt sp" using Cons.prems(1) by (auto simp: ring_at_def word_greater_zero_iff)
  define sp1 where "sp1 = sp\<lparr>snd_rp := INC_PTR (snd_rp sp) (snd_size sp), snd_cnt := snd_cnt sp - 1\<rparr>"
  have r: "snd_buf sp (unat (snd_rp sp)) = c" "ring_at (snd_size sp) (snd_buf sp) (INC_PTR (snd_rp sp) (snd_size sp)) (snd_wp sp) (snd_cnt sp - 1) L"
    using ring_pop [OF Cons.prems(1) n] by auto
  have "rest_of_port True out sp = rest_of_port True (out @ [c]) sp1"
    using n r(1) Cons.prems(2) by (subst rest_of_port.simps) (simp add: enSerialPortManage_getChar_def sp1_def)
  then show ?case using Cons.IH [of sp1 "out @ [c]"] r(2) Cons.prems(2) by (simp add: sp1_def)
qed

lemma rest_of_log_all:
  assumes "log_at sz lg L" "0 \<le> sint (lg_lost lg)"
  shows "\<exists>lg'. rest_of_log str sz msgflg out lg =
      (out @ (if L = [] then [] else (if msgflg then [] else buffered_msg) @ (if lg_lost lg \<noteq> 0 then syslog_lostmsg str (lg_lost lg) else []) @
         concat (map (syslog_print str) L)), lg') \<and> log_at sz lg' [] \<and> lg_low lg' = lg_low lg"
  using assms
proof (induction L arbitrary: out msgflg lg)
  case Nil then show ?case by (simp add: rest_of_log.simps read_log_empty)
next
  case (Cons r L)
  obtain lg1 where l: "eSysLog_read sz lg = (RetUint (sint (lg_lost lg)), Some r, lg1)" "log_at sz lg1 L" "lg_lost lg1 = 0" "lg_low lg1 = lg_low lg"
    using read_log_at [OF Cons.prems(1)] by blast
  have p: "0 < sint (lg_lost lg) \<longleftrightarrow> lg_lost lg \<noteq> 0" using Cons.prems(2) by (metis linorder_not_le order_antisym signed_eq_0_iff less_le)
  have b: "syslog_printf str buffered_msg (\<lambda>_. 0) 0 = buffered_msg" by (rule print_plain) (simp add: buffered_msg_def)
  define o1 where "o1 = out @ (if msgflg then [] else buffered_msg) @ (if lg_lost lg \<noteq> 0 then syslog_lostmsg str (lg_lost lg) else []) @ syslog_print str r"
  have "rest_of_log str sz msgflg out lg = rest_of_log str sz True o1 lg1"
    using l(1) Cons.prems(2) by (subst rest_of_log.simps) (simp add: p b o1_def Let_def split: if_split)
  then show ?case using Cons.IH [of lg1 True o1] l by (auto simp: o1_def)
qed

lemma terminate_loses_nothing:
  assumes "log_at sz lg L" "0 \<le> sint (lg_lost lg)" "snd_ok h sp" "sp_open sp"
  shows "\<exists>lg' sp'. eLogTaskTerminate_main str sz True lg sp = (lg', sp') \<and> log_at sz lg' [] \<and> snd_cnt sp' = 0 \<and>
    lg_low lg' = lg_low lg @ snd_list sp @ (if L = [] then [] else buffered_msg @
      (if lg_lost lg \<noteq> 0 then syslog_lostmsg str (lg_lost lg) else []) @ concat (map (syslog_print str) L))"
proof -
  have "ring_at (snd_size sp) (snd_buf sp) (snd_rp sp) (snd_wp sp) (snd_cnt sp) (snd_list sp)" using assms(3) by (simp add: snd_ok_def)
  from rest_of_port_all [OF this assms(4), of "[]"] rest_of_log_all [OF assms(1,2), of str False "[]"]
  show ?thesis by (auto simp: eLogTaskTerminate_main_def)
qed

end
