(* ===== verification/Histogram.thy ===== *)
theory Histogram
  imports Kernel
begin

text \<open>
  The distribution of execution times, asp3\_dcre/syssvc/tHistogram.c: how often a time of 0 to \<open>maxTime\<close> was measured, a longer
  one, and one that seems to be negative. \<open>cyc\<close> is the cycle of the counter, if it is less than $2^{32}$ (\<open>HISTTIM_CYCLE\<close>), \<open>conv\<close> the conversion to a
  time (\<open>HIST_CONV_TIM\<close>).
\<close>

record histcb =
  histarea :: "nat \<Rightarrow> uint"
  begin_time :: HRTCNT
  hist_over :: uint
  hist_under :: uint

text \<open>The loops count up to \<open>maxTime\<close> (which is 1000 unless configured; at $2^{32} - 1$ they would not end).\<close>

primrec clear_hist :: "nat \<Rightarrow> histcb \<Rightarrow> histcb" where
  "clear_hist 0 h = h"
| "clear_hist (Suc n) h = (let h = clear_hist n h in h\<lparr>histarea := (histarea h)(n := 0)\<rparr>)"

definition eHistogram_initialize :: "uint \<Rightarrow> histcb \<Rightarrow> er \<times> histcb" where
  "eHistogram_initialize maxTime h = (E_OK, (clear_hist (unat maxTime + 1) h)\<lparr>hist_over := 0, hist_under := 0\<rparr>)"

definition eHistogram_beginMeasure :: "HRTCNT \<Rightarrow> histcb \<Rightarrow> er \<times> histcb" where
  "eHistogram_beginMeasure now h = (E_OK, h\<lparr>begin_time := now\<rparr>)"

definition eHistogram_endMeasure :: "HRTCNT option \<Rightarrow> (HRTCNT \<Rightarrow> uint) \<Rightarrow> uint \<Rightarrow> HRTCNT \<Rightarrow> histcb \<Rightarrow> er \<times> histcb" where
  "eHistogram_endMeasure cyc conv maxTime end_time h =
     (let timediff = end_time - begin_time h;
          timediff = (case cyc of None \<Rightarrow> timediff | Some c \<Rightarrow> if end_time < begin_time h then timediff + c else timediff);
          val = conv timediff
      in (E_OK,
          if val \<le> maxTime then h\<lparr>histarea := (histarea h)(unat val := histarea h (unat val) + 1)\<rparr>
          else if val \<le> 0x7FFFFFFF then h\<lparr>hist_over := hist_over h + 1\<rparr>
          else h\<lparr>hist_under := hist_under h + 1\<rparr>))"

text \<open>The lines printed: a format and its arguments.\<close>

definition eHistogram_print :: "uint \<Rightarrow> histcb \<Rightarrow> (string \<times> uint list) list" where
  "eHistogram_print maxTime h =
     map (\<lambda>i. (''%d : %d'', [of_nat i, histarea h i])) (filter (\<lambda>i. histarea h i > 0) [0..<unat maxTime + 1]) @
     (if hist_over h > 0 then [(''> %d : %d'', [maxTime, hist_over h])] else []) @
     (if hist_under h > 0 then [(''> INT_MAX : %d'', [hist_under h])] else [])"

section \<open>Every measurement is counted once\<close>

text \<open>The number of all that has been counted, which wraps like the counts.\<close>

definition hist_total :: "uint \<Rightarrow> histcb \<Rightarrow> uint" where
  "hist_total maxTime h = (\<Sum>i \<le> unat maxTime. histarea h i) + hist_over h + hist_under h"

lemma clear_hist_area: "histarea (clear_hist n h) i = (if i < n then 0 else histarea h i)"
  by (induction n) (auto simp: Let_def less_Suc_eq)

lemma initialize_total: "hist_total maxTime (snd (eHistogram_initialize maxTime h)) = 0"
  by (simp add: hist_total_def eHistogram_initialize_def clear_hist_area del: clear_hist.simps)

lemma begin_total: "hist_total maxTime (snd (eHistogram_beginMeasure now h)) = hist_total maxTime h"
  by (simp add: hist_total_def eHistogram_beginMeasure_def)

lemma sum_count:
  assumes "finite A" "a \<in> A"
  shows "sum (f(a := f a + 1)) A = sum f A + (1 :: uint)"
proof -
  have "sum (f(a := f a + 1)) (A - {a}) = sum f (A - {a})" by (rule sum.cong) auto
  then show ?thesis using sum.remove [OF assms, of f] sum.remove [OF assms, of "f(a := f a + 1)"] by simp
qed

lemma end_total: "hist_total maxTime (snd (eHistogram_endMeasure cyc conv maxTime now h)) = hist_total maxTime h + 1"
proof -
  define v where "v = conv (case cyc of None \<Rightarrow> now - begin_time h | Some c \<Rightarrow> if now < begin_time h then now - begin_time h + c else now - begin_time h)"
  have "(\<Sum>i \<le> unat maxTime. ((histarea h)(unat v := histarea h (unat v) + 1)) i) = (\<Sum>i \<le> unat maxTime. histarea h i) + 1" if "v \<le> maxTime"
    using that by (intro sum_count) (simp_all add: word_le_nat_alt)
  then show ?thesis by (simp add: hist_total_def eHistogram_endMeasure_def Let_def flip: v_def)
qed

text \<open>Between two readings of a counter with the cycle \<open>c\<close>, the difference is right also when it has wrapped.\<close>

lemma measure_wraps:
  assumes "begin_time h < c" "now < c" "c' = (unat (begin_time h) + d) mod unat c" "unat now = c'" "d < unat c" "d \<le> unat maxTime"
  shows "snd (eHistogram_endMeasure (Some c) id maxTime now h) = h\<lparr>histarea := (histarea h)(d := histarea h d + 1)\<rparr>"
proof -
  have b: "unat (begin_time h) < unat c" using assms(1) by (simp add: word_less_nat_alt)
  have "(if now < begin_time h then now - begin_time h + c else now - begin_time h) = of_nat d"
  proof (cases "unat (begin_time h) + d < unat c")
    case True
    then have n: "unat now = unat (begin_time h) + d" using assms(3,4) by simp
    have "now = of_nat (unat now)" by simp
    also have "\<dots> = begin_time h + of_nat d" unfolding n by simp
    finally have "now = begin_time h + of_nat d" .
    then show ?thesis using n by (simp add: word_less_nat_alt)
  next
    case False
    have l: "unat (begin_time h) + d - unat c < unat c" using b assms(5) by linarith
    have n: "unat now + unat c = unat (begin_time h) + d" using assms(3,4) False l by (simp add: mod_if)
    have "now + c = of_nat (unat now + unat c)" by simp
    also have "\<dots> = begin_time h + of_nat d" unfolding n by simp
    finally have "now + c = begin_time h + of_nat d" .
    moreover have "now < begin_time h" using n assms(5) by (simp add: word_less_nat_alt)
    ultimately show ?thesis by (simp add: algebra_simps)
  qed
  moreover have "d < 2 ^ 32" using assms(5) unsigned_less [of c, where ?'a = nat] by simp
  then have "unat (of_nat d :: uint) = d" by (simp add: unat_of_nat)
  ultimately show ?thesis using assms(6) by (simp add: eHistogram_endMeasure_def Let_def word_le_nat_alt)
qed

end
