(* ===== verification/HrtTimer.thy ===== *)
theory HrtTimer
  imports TimeEvent
begin

text \<open>
  The high resolution timer, asp3\_dcre/arch/arm\_gcc/rza1/chip\_timer.h and chip\_timer.c: a counter of 33.33 MHz that wraps at $2^{32}$ is
  read in microseconds, which wrap at \<open>TCYC_HRTCNT\<close>, and a compare register requests the interrupt. \<open>cnt_in\<close> are the readings of the
  counter.
\<close>

section \<open>The driver\<close>

record ostm =
  ostm_ctl :: "8 word"
  ostm_cmp :: "32 word"
  ostm_running :: bool
  ostm_pending :: bool
  cnt_in :: "nat \<Rightarrow> 32 word"
  cnt_n :: nat

definition read_cnt :: "ostm \<Rightarrow> 32 word \<times> ostm" where "read_cnt s = (cnt_in s (cnt_n s), s\<lparr>cnt_n := cnt_n s + 1\<rparr>)"

definition target_hrt_initialize :: "ostm \<Rightarrow> ostm" where
  "target_hrt_initialize s =
     (let s = s\<lparr>ostm_ctl := 0x02\<rparr>; s = s\<lparr>ostm_cmp := 0xffffffff\<rparr>; s = s\<lparr>ostm_running := True\<rparr> in s\<lparr>ostm_pending := False\<rparr>)"

definition target_hrt_terminate :: "ostm \<Rightarrow> ostm" where
  "target_hrt_terminate s = s\<lparr>ostm_running := False, ostm_pending := False\<rparr>"

text \<open>The conversion of \<open>target_hrt_get_current\<close>, and the function.\<close>

definition hrt_of_cnt :: "32 word \<Rightarrow> HRTCNT" where
  "hrt_of_cnt cnt = (let cnt1 = cnt div 1000000000 in (cnt - cnt1 * 999999999) * 3 div 100 + cnt1 * 30000000)"

definition chip_hrt_get_current :: "ostm \<Rightarrow> HRTCNT \<times> ostm" where
  "chip_hrt_get_current s = (let (cnt, s) = read_cnt s in (hrt_of_cnt cnt, s))"

definition cnt_of_hrt :: "HRTCNT \<Rightarrow> 32 word" where "cnt_of_hrt hrtcnt = hrtcnt * 33 + hrtcnt div 3 + 1"

definition target_hrt_raise_event :: "ostm \<Rightarrow> ostm" where "target_hrt_raise_event s = s\<lparr>ostm_pending := True\<rparr>"

definition target_hrt_set_event :: "HRTCNT \<Rightarrow> ostm \<Rightarrow> ostm" where
  "target_hrt_set_event hrtcnt s =
     (let cnt = cnt_of_hrt hrtcnt;
          (current, s) = read_cnt s;
          s = s\<lparr>ostm_cmp := current + cnt\<rparr>;
          (now, s) = read_cnt s
      in if now - current \<ge> cnt then s\<lparr>ostm_pending := True\<rparr> else s)"

section \<open>The conversion is exact\<close>

text \<open>
  No step overflows, and the result is $0.03 (c + \lfloor c / 10^9 \rfloor)$, rounded down. The second term makes up for the cycle:
  $2^{32}$ counts are just less than \<open>TCYC_HRTCNT\<close> microseconds.
\<close>

lemma hrt_of_cnt_value: "unat (hrt_of_cnt c) = (unat c + unat c div 1000000000) * 3 div 100"
proof -
  define k where "k = unat c div 1000000000"
  define r where "r = unat c mod 1000000000"
  have lt: "unat c < 4294967296" using unsigned_less [of c, where ?'a = nat] by simp
  have c: "unat c = k * 1000000000 + r" unfolding k_def r_def by simp
  have k4: "k \<le> 4" using lt unfolding k_def by simp
  have r: "r < 1000000000" by (simp add: r_def)
  have k1: "unat (c div 1000000000) = k" by (simp add: k_def unat_div)
  have a: "unat (c div 1000000000 * 999999999) = k * 999999999" using k1 k4 by (subst unat_mult_lem [THEN iffD1]) simp_all
  have le: "c div 1000000000 * 999999999 \<le> c" unfolding word_le_nat_alt a using c by linarith
  have d: "unat (c - c div 1000000000 * 999999999) = r + k" unfolding unat_sub [OF le] a using c by simp
  have e: "unat ((c - c div 1000000000 * 999999999) * 3) = (r + k) * 3" using d r k4 by (subst unat_mult_lem [THEN iffD1]) simp_all
  have f: "unat ((c - c div 1000000000 * 999999999) * 3 div 100) = (r + k) * 3 div 100" by (simp only: unat_div e) simp
  have g: "unat (c div 1000000000 * 30000000) = k * 30000000" using k1 k4 by (subst unat_mult_lem [THEN iffD1]) simp_all
  have "unat (hrt_of_cnt c) = (r + k) * 3 div 100 + k * 30000000"
    unfolding hrt_of_cnt_def Let_def using f g r k4 by (subst unat_add_lem [THEN iffD1]) simp_all
  also have "\<dots> = ((r + k) * 3 + k * 30000000 * 100) div 100" by simp
  also have "(r + k) * 3 + k * 30000000 * 100 = (unat c + k) * 3" using c by simp
  finally show ?thesis by (simp add: k_def)
qed

lemma hrt_of_cnt_bound: "hrt_of_cnt c < TCYC_HRTCNT"
proof -
  have lt: "unat c < 4294967296" using unsigned_less [of c, where ?'a = nat] by simp
  then have "unat c div 1000000000 \<le> 4" by simp
  then have "unat c + unat c div 1000000000 \<le> 4294967299" using lt by linarith
  then have "(unat c + unat c div 1000000000) * 3 div 100 < 128849019" by (intro less_mult_imp_div_less) simp
  then show ?thesis by (simp add: word_less_nat_alt hrt_of_cnt_value)
qed

section \<open>The time that has passed\<close>

lemma div_super:
  fixes a b d :: nat
  assumes "0 < d" shows "a div d + b div d \<le> (a + b) div d" "(a + b) div d \<le> a div d + b div d + 1"
proof -
  have "a mod d + b mod d < 2 * d" using assms by (simp add: add_less_mono mult_2)
  then have "(a mod d + b mod d) div d \<le> 1" using less_mult_imp_div_less [of "a mod d + b mod d" 2 d] by simp
  then show "a div d + b div d \<le> (a + b) div d" "(a + b) div d \<le> a div d + b div d + 1" unfolding div_add1_eq [of a b d] by simp_all
qed

text \<open>
  The difference of two readings, with \<open>TCYC_HRTCNT\<close> when the second is less, as the kernel computes it, when the counter has gone
  on by \<open>n\<close> between.
\<close>

definition hrt_diff :: "HRTCNT \<Rightarrow> HRTCNT \<Rightarrow> HRTCNT" where
  "hrt_diff h h' = (if h' < h then h' - h + TCYC_HRTCNT else h' - h)"

lemma hrt_diff_bounds:
  assumes n: "n \<le> 4294967196" and c': "c' = c + of_nat n"
  shows "n * 3 div 100 \<le> unat (hrt_diff (hrt_of_cnt c) (hrt_of_cnt c'))"
    "unat (hrt_diff (hrt_of_cnt c) (hrt_of_cnt c')) \<le> (n + 8) * 3 div 100 + 1"
proof -
  define k where "k = unat c div 1000000000"
  define k' where "k' = unat c' div 1000000000"
  have lt: "unat c < 4294967296" "unat c' < 4294967296"
    using unsigned_less [of c, where ?'a = nat] unsigned_less [of c', where ?'a = nat] by simp_all
  have k4: "k \<le> 4" "k' \<le> 4" using lt unfolding k_def k'_def by simp_all
  have h: "unat (hrt_of_cnt c) = (unat c + k) * 3 div 100" "unat (hrt_of_cnt c') = (unat c' + k') * 3 div 100"
    by (simp_all add: hrt_of_cnt_value k_def k'_def)
  have sum: "unat c' = (unat c + n) mod 4294967296" using n unfolding c' by (simp add: unat_word_ariths unat_of_nat)
  obtain K where K: "k \<le> K" "K \<le> k + 8"
    "unat (hrt_diff (hrt_of_cnt c) (hrt_of_cnt c')) = (unat c + n + K) * 3 div 100 - (unat c + k) * 3 div 100"
  proof (cases "unat c + n < 4294967296")
    case True
    then have s: "unat c' = unat c + n" using sum by simp
    then have "k \<le> k'" unfolding k_def k'_def by (simp add: div_le_mono)
    moreover have "(unat c + k) * 3 div 100 \<le> (unat c' + k') * 3 div 100" using s calculation by (intro div_le_mono) simp
    then have "hrt_of_cnt c \<le> hrt_of_cnt c'" using h by (simp add: word_le_nat_alt)
    then have "unat (hrt_diff (hrt_of_cnt c) (hrt_of_cnt c')) = unat (hrt_of_cnt c') - unat (hrt_of_cnt c)"
      by (simp add: hrt_diff_def unat_sub leD)
    ultimately show thesis using that [of k'] h s k4 by simp
  next
    case False
    then have lt2: "unat c + n - 4294967296 < 4294967296" using lt(1) n by linarith
    have s: "unat c' + 4294967296 = unat c + n" using sum False lt2 by (simp add: mod_if)
    then have l: "unat c' + 100 \<le> unat c" using n by linarith
    then have kk: "k' \<le> k" unfolding k_def k'_def by (intro div_le_mono) simp
    have "(unat c' + k') * 3 + 300 \<le> (unat c + k) * 3" using l kk by simp
    then have "((unat c' + k') * 3 + 300) div 100 \<le> (unat c + k) * 3 div 100" by (rule div_le_mono)
    then have lth: "unat (hrt_of_cnt c') + 3 \<le> unat (hrt_of_cnt c)" using h by simp
    then have "hrt_of_cnt c' < hrt_of_cnt c" by (simp add: word_less_nat_alt)
    moreover have "unat (hrt_of_cnt c) < 128849019" using hrt_of_cnt_bound [of c] by (simp add: word_less_nat_alt)
    moreover have "hrt_of_cnt c' - hrt_of_cnt c + TCYC_HRTCNT = hrt_of_cnt c' + (TCYC_HRTCNT - hrt_of_cnt c)" by simp
    ultimately have "unat (hrt_diff (hrt_of_cnt c) (hrt_of_cnt c')) = unat (hrt_of_cnt c') + (128849019 - unat (hrt_of_cnt c))"
      using lth unfolding hrt_diff_def
      by (simp only: if_True) (subst unat_add_lem [THEN iffD1]; simp add: unat_sub word_le_nat_alt)
    also have "\<dots> = ((unat c' + k') * 3 div 100 + 128849019) - (unat c + k) * 3 div 100" using h \<open>unat (hrt_of_cnt c) < 128849019\<close> by simp
    also have "(unat c' + k') * 3 div 100 + 128849019 = ((unat c' + k') * 3 + 128849019 * 100) div 100" by simp
    also have "(unat c' + k') * 3 + 128849019 * 100 = (unat c + n + (k' + 4)) * 3" using s by simp
    finally show thesis using that [of "k' + 4"] k4 by simp
  qed
  have "(unat c + n + K) * 3 = (unat c + k) * 3 + (n + (K - k)) * 3" using K(1) by simp
  note d = div_super [of 100 "(unat c + k) * 3" "(n + (K - k)) * 3", folded this]
  have "n * 3 div 100 \<le> (n + (K - k)) * 3 div 100" "(n + (K - k)) * 3 div 100 \<le> (n + 8) * 3 div 100"
    using K(2) by (auto intro!: div_le_mono)
  then show "n * 3 div 100 \<le> unat (hrt_diff (hrt_of_cnt c) (hrt_of_cnt c'))"
    "unat (hrt_diff (hrt_of_cnt c) (hrt_of_cnt c')) \<le> (n + 8) * 3 div 100 + 1" using d unfolding K(3) by arith+
qed

text \<open>A timer set for \<open>hrtcnt\<close> microseconds does not come early.\<close>

lemma cnt_of_hrt_value: "unat hrtcnt \<le> 100000002 \<Longrightarrow> unat (cnt_of_hrt hrtcnt) = unat hrtcnt * 33 + unat hrtcnt div 3 + 1"
proof -
  assume b: "unat hrtcnt \<le> 100000002"
  have m: "unat (hrtcnt * 33) = unat hrtcnt * 33" using b by (subst unat_mult_lem [THEN iffD1]) simp_all
  have d: "unat (hrtcnt div 3) = unat hrtcnt div 3" by (simp add: unat_div)
  have d2: "unat hrtcnt div 3 \<le> 33333334" using b by simp
  have a: "unat (hrtcnt * 33 + hrtcnt div 3) = unat hrtcnt * 33 + unat hrtcnt div 3" using m d d2 b by (subst unat_add_lem [THEN iffD1]) simp_all
  show ?thesis unfolding cnt_of_hrt_def using a d2 b by (subst unat_add_lem [THEN iffD1]) simp_all
qed

lemma timer_not_early:
  assumes h: "unat hrtcnt \<le> 100000002" and n: "unat (cnt_of_hrt hrtcnt) \<le> n" "n \<le> 4294967196"
  shows "hrtcnt \<le> hrt_diff (hrt_of_cnt c) (hrt_of_cnt (c + of_nat n))"
proof -
  have "u * 100 \<le> (u * 33 + u div 3 + 1) * 3" for u :: nat by presburger
  then have "unat hrtcnt * 100 \<le> (unat hrtcnt * 33 + unat hrtcnt div 3 + 1) * 3" .
  also have "\<dots> \<le> n * 3" using n(1) cnt_of_hrt_value [OF h] by simp
  finally have "unat hrtcnt \<le> n * 3 div 100" by (simp add: less_eq_div_iff_mult_less_eq)
  then show ?thesis using hrt_diff_bounds(1) [OF n(2) refl, of c] by (simp add: word_le_nat_alt)
qed

text \<open>The interrupt is requested, or the counter has not yet come to the compare value when it is read again.\<close>

lemma set_event_not_lost:
  assumes "target_hrt_set_event hrtcnt s = s'"
  shows "ostm_cmp s' = cnt_in s (cnt_n s) + cnt_of_hrt hrtcnt"
    "ostm_pending s' \<or> cnt_in s (cnt_n s + 1) - cnt_in s (cnt_n s) < cnt_of_hrt hrtcnt"
    "cnt_in s' = cnt_in s" "cnt_n s' = cnt_n s + 2"
  using assms by (auto simp: target_hrt_set_event_def read_cnt_def Let_def not_le split: if_splits)

text \<open>The advance that \<open>update_current_evttim\<close> of the kernel computes is this difference.\<close>

lemma hrt_advance_diff: "hrt_advance s = hrt_diff (current_hrtcnt s) (hrt_in s (hrt_n s))"
  by (simp add: hrt_advance_def hrt_diff_def Let_def)

end
