(* ===== verification/Proxy.thy ===== *)
theory Proxy
  imports Prelude "HOL-Library.Char_ord"
begin

text \<open>
  The commands of the shell that set the connection string and the HTTP proxy, app\_iothub\_client/src/envcmd.c. The proxy is given as
  \<open>http://[<user>:<password>@]<address>:<port>\<close>; a state machine goes over it and keeps pointers into it, here indices. The four
  parts are then copied into one block of memory. What is read or written out of range is \<open>None\<close>.
\<close>

section \<open>State\<close>

datatype proxy_parse_state = S_schema | S_colonslash | S_colonslashslash | S_username | S_password | S_address | S_port | S_error

record parse =
  pst :: proxy_parse_state
  schema :: "nat option"
  schema_len :: int
  address :: "nat option"
  address_len :: int
  port :: "nat option"
  port_len :: int
  username :: "nat option"
  username_len :: int
  password :: "nat option"
  password_len :: int

text \<open>
  \<open>g_proxy_options\<close>: the three pointers point into the block \<open>opt_buf\<close>, the port is an \<open>int\<close> of 32 bits;
  \<open>connectionString\<close>, and \<open>g_use_proxy\<close>.
\<close>

record env =
  connectionString :: "string option"
  opt_buf :: string
  host_address :: "nat option"
  opt_port :: "32 word"
  opt_username :: "nat option"
  opt_password :: "nat option"
  g_use_proxy :: bool

definition cstr :: "string \<Rightarrow> nat \<Rightarrow> string" where "cstr buf p = takeWhile (\<lambda>c. c \<noteq> CHR 0x00) (drop p buf)"

section \<open>The connection string\<close>

text \<open>\<open>ok\<close> tells whether \<open>malloc\<close> succeeds.\<close>

definition set_cs_main :: "bool \<Rightarrow> string list \<Rightarrow> env \<Rightarrow> int \<times> env" where
  "set_cs_main ok argv e =
     (if length argv < 2 then (0, e)
      else if length (argv ! 1) < 70 then (0, e)
      else if \<not> ok then (1, e)
      else (0, e\<lparr>connectionString := Some (argv ! 1)\<rparr>))"

section \<open>Parsing\<close>

text \<open>One round of the loop; \<open>pos\<close> is the index of the character \<open>c\<close>. The case of the password is also the target of a jump.\<close>

definition password_step :: "nat \<Rightarrow> char \<Rightarrow> parse \<Rightarrow> parse" where
  "password_step pos c p =
     (if c = CHR ''@'' then
        p\<lparr>password_len := int pos - int (the (password p)), address := Some (pos + 1), pst := S_address\<rparr>
      else p)"

definition proxy_step :: "nat \<Rightarrow> char \<Rightarrow> parse \<Rightarrow> parse" where
  "proxy_step pos c p =
     (case pst p of
        S_schema \<Rightarrow>
          if c = CHR '':'' then
            p\<lparr>schema_len := int pos - int (the (schema p)), username := Some (pos + 3), pst := S_colonslash\<rparr>
          else p
      | S_colonslash \<Rightarrow>
          if c = CHR ''/'' then p\<lparr>pst := S_colonslashslash\<rparr>
          else
            let p = p\<lparr>username := schema p, username_len := schema_len p\<rparr>;
                p = p\<lparr>schema := None, schema_len := 0, password := Some pos, pst := S_password\<rparr>
            in password_step pos c p
      | S_colonslashslash \<Rightarrow> if c = CHR ''/'' then p\<lparr>pst := S_username\<rparr> else p\<lparr>pst := S_error\<rparr>
      | S_username \<Rightarrow>
          if c = CHR '':'' then
            p\<lparr>username_len := int pos - int (the (username p)), password := Some (pos + 1), pst := S_password\<rparr>
          else if c = CHR ''@'' then
            p\<lparr>username_len := int pos - int (the (username p)), address := Some (pos + 1), pst := S_address\<rparr>
          else p
      | S_password \<Rightarrow> password_step pos c p
      | S_address \<Rightarrow>
          if c = CHR '':'' then
            p\<lparr>address_len := int pos - int (the (address p)), port := Some (pos + 1), pst := S_port\<rparr>
          else p
      | S_port \<Rightarrow> if c < CHR ''0'' \<and> c > CHR ''9'' then p\<lparr>pst := S_error\<rparr> else p
      | S_error \<Rightarrow> p)"

fun proxy_loop :: "string \<Rightarrow> nat \<Rightarrow> parse \<Rightarrow> nat \<times> parse" where
  "proxy_loop [] pos p = (pos, p)"
| "proxy_loop (c # cs) pos p = (let p = proxy_step pos c p in if pst p = S_error then (pos, p) else proxy_loop cs (pos + 1) p)"

text \<open>The second \<open>switch\<close>, at the end of the string. \<open>None\<close> is \<open>goto error\<close>.\<close>

definition proxy_end :: "nat \<Rightarrow> parse \<Rightarrow> parse option" where
  "proxy_end pos p =
     (case pst p of
        S_username \<Rightarrow>
          let p = p\<lparr>username_len := int pos - int (the (username p))\<rparr>;
              p = p\<lparr>address := username p, address_len := username_len p\<rparr>
          in Some (p\<lparr>username := None, username_len := 0\<rparr>)
      | S_password \<Rightarrow>
          let p = p\<lparr>password_len := int pos - int (the (password p))\<rparr>;
              p = p\<lparr>address := username p, address_len := username_len p\<rparr>;
              p = p\<lparr>username := None, username_len := 0\<rparr>;
              p = p\<lparr>port := password p, port_len := password_len p\<rparr>
          in Some (p\<lparr>password := None, password_len := 0\<rparr>)
      | S_address \<Rightarrow> Some (p\<lparr>address_len := int pos - int (the (address p))\<rparr>)
      | S_port \<Rightarrow> Some (p\<lparr>port_len := int pos - int (the (port p))\<rparr>)
      | _ \<Rightarrow> None)"

definition parse_start :: parse where
  "parse_start =
     \<lparr>pst = S_schema, schema = Some 0, schema_len = 0, address = None, address_len = 0, port = None, port_len = 0,
      username = None, username_len = 0, password = None, password_len = 0\<rparr>"

section \<open>Storing\<close>

text \<open>The characters that \<open>memcpy\<close> reads, and a write into a block.\<close>

definition part :: "string \<Rightarrow> nat option \<Rightarrow> int \<Rightarrow> string option" where
  "part arg ptr len =
     (if len = 0 then Some []
      else case ptr of
        None \<Rightarrow> None
      | Some a \<Rightarrow> if 0 \<le> len \<and> a + nat len \<le> length arg then Some (take (nat len) (drop a arg)) else None)"

definition put :: "string \<Rightarrow> nat \<Rightarrow> string \<Rightarrow> string option" where
  "put xs i buf = (if i + length xs \<le> length buf then Some (take i buf @ xs @ drop (i + length xs) buf) else None)"

text \<open>
  The library: \<open>strncmp\<close> of strings without NUL, and \<open>atoi\<close> of musl-1.1.18/src/stdlib/atoi.c, which counts down in an \<open>int\<close>
  of 32 bits (C leaves an overflow undefined; here it wraps, and what is proved of it is about numbers that fit).
\<close>

definition strncmp_eq :: "string \<Rightarrow> string \<Rightarrow> nat \<Rightarrow> bool" where "strncmp_eq a b n \<longleftrightarrow> take n a = take n b"

definition digit :: "char \<Rightarrow> bool" where "digit c \<longleftrightarrow> c \<in> set ''0123456789''"

definition space :: "char \<Rightarrow> bool" where "space c \<longleftrightarrow> c = CHR '' '' \<or> c \<in> {CHR 0x09, CHR 0x0A, CHR 0x0B, CHR 0x0C, CHR 0x0D}"

primrec atoi_loop :: "string \<Rightarrow> 32 word \<Rightarrow> 32 word" where
  "atoi_loop [] n = n"
| "atoi_loop (c # s) n = (if digit c then atoi_loop s (10 * n - (of_char c - of_char CHR ''0'')) else n)"

definition atoi :: "string \<Rightarrow> 32 word" where
  "atoi s =
     (let s = dropWhile space s;
          (neg, s) = (case s of [] \<Rightarrow> (False, s) | c # cs \<Rightarrow> if c = CHR ''-'' then (True, cs) else if c = CHR ''+'' then (False, cs) else (False, s));
          n = atoi_loop s 0
      in if neg then n else - n)"

text \<open>The number that digits stand for.\<close>

definition decimal :: "string \<Rightarrow> nat" where
  "decimal ds = foldl (\<lambda>v c. 10 * v + (of_char c - of_char CHR ''0'')) 0 ds"

lemma digit_cases: "digit c \<Longrightarrow> c = CHR ''0'' \<or> c = CHR ''1'' \<or> c = CHR ''2'' \<or> c = CHR ''3'' \<or> c = CHR ''4'' \<or> c = CHR ''5'' \<or>
    c = CHR ''6'' \<or> c = CHR ''7'' \<or> c = CHR ''8'' \<or> c = CHR ''9''"
  by (simp add: digit_def)

lemma digit_word: "digit c \<Longrightarrow> (of_nat (of_char c - of_char CHR ''0'') :: 32 word) = of_char c - of_char CHR ''0''"
  by (drule digit_cases, elim disjE) simp_all

lemma atoi_loop_decimal:
  "\<forall>c\<in>set ds. digit c \<Longrightarrow> atoi_loop ds (- of_nat v) = - of_nat (foldl (\<lambda>v c. 10 * v + (of_char c - of_char CHR ''0'')) v ds)"
proof (induction ds arbitrary: v)
  case (Cons c ds)
  have e: "10 * (- of_nat v) - (of_char c - of_char CHR ''0'') = - (of_nat (10 * v + (of_char c - of_char CHR ''0'')) :: 32 word)"
    using digit_word [of c] Cons.prems by (simp only: of_nat_add of_nat_mult) simp
  have "atoi_loop (c # ds) (- of_nat v) = atoi_loop ds (10 * (- of_nat v) - (of_char c - of_char CHR ''0''))"
    using Cons.prems by simp
  also have "\<dots> = - of_nat (foldl (\<lambda>v c. 10 * v + (of_char c - of_char CHR ''0'')) (10 * v + (of_char c - of_char CHR ''0'')) ds)"
    unfolding e by (rule Cons.IH) (use Cons.prems in simp)
  finally show ?case by simp
qed simp

lemma atoi_decimal:
  assumes "\<forall>c\<in>set ds. digit c" shows "atoi ds = of_nat (decimal ds)"
proof (cases ds)
  case (Cons c cs)
  have "\<not> space c" "c \<noteq> CHR ''-''" "c \<noteq> CHR ''+''" using digit_cases [of c] assms Cons by (auto simp: space_def)
  then have "atoi ds = - atoi_loop ds 0" by (simp add: atoi_def Cons)
  then show ?thesis using atoi_loop_decimal [OF assms, of 0] by (simp add: decimal_def)
qed (simp add: atoi_def decimal_def)

lemma atoi_port: "\<forall>c\<in>set ds. digit c \<Longrightarrow> decimal ds < 2 ^ 31 \<Longrightarrow> sint (atoi ds) = int (decimal ds)"
  by (simp add: atoi_decimal signed_of_nat signed_take_bit_int_eq_self)

text \<open>A part and its NUL go to \<open>pos\<close>; the next part comes after it.\<close>

definition put_part :: "string \<Rightarrow> nat option \<Rightarrow> int \<Rightarrow> nat \<Rightarrow> string \<Rightarrow> (nat \<times> string) option" where
  "put_part arg ptr len pos buf =
     (case part arg ptr len of
        None \<Rightarrow> None
      | Some xs \<Rightarrow> (case put (xs @ [CHR 0x00]) pos buf of None \<Rightarrow> None | Some buf \<Rightarrow> Some (pos + nat len + 1, buf)))"

text \<open>From \<open>malloc\<close> on; \<open>junk\<close> is what new memory holds.\<close>

definition store_proxy :: "(nat \<Rightarrow> string) \<Rightarrow> string \<Rightarrow> parse \<Rightarrow> env \<Rightarrow> (int \<times> env) option" where
  "store_proxy junk arg p e =
     (let buf = junk (nat (address_len p + port_len p + username_len p + password_len p + 4))
      in case put_part arg (address p) (address_len p) 0 buf of
           None \<Rightarrow> None
         | Some (pos1, buf) \<Rightarrow>
         case put_part arg (port p) (port_len p) pos1 buf of
           None \<Rightarrow> None
         | Some (pos2, buf) \<Rightarrow>
         let po = (if port_len p = 0 then 8080 else atoi (cstr buf pos1))
         in case put_part arg (username p) (username_len p) pos2 buf of
           None \<Rightarrow> None
         | Some (pos3, buf) \<Rightarrow>
         case put_part arg (password p) (password_len p) pos3 buf of
           None \<Rightarrow> None
         | Some (pos4, buf) \<Rightarrow>
         let anon = (username_len p = 0 \<and> password_len p = 0)
         in Some (0, e\<lparr>opt_buf := buf, host_address := Some 0, opt_port := po, opt_username := (if anon then None else Some pos2),
                      opt_password := (if anon then None else Some pos3), g_use_proxy := True\<rparr>))"

definition set_proxy_main :: "(nat \<Rightarrow> string) \<Rightarrow> bool \<Rightarrow> string list \<Rightarrow> env \<Rightarrow> (int \<times> env) option" where
  "set_proxy_main junk ok argv e =
     (if length argv < 2 then Some (0, e)
      else
        let arg = argv ! 1; (pos, p) = proxy_loop arg 0 parse_start
        in case proxy_end pos p of
             None \<Rightarrow> Some (-1, e)
           | Some p \<Rightarrow>
               if schema_len p > 0 \<and> \<not> strncmp_eq (drop (the (schema p)) arg) ''http'' (nat (schema_len p)) then Some (-1, e)
               else if address_len p = 0 then Some (-1, e)
               else if \<not> ok then Some (-1, e)
               else store_proxy junk arg p e)"

definition clear_proxy_main :: "env \<Rightarrow> int \<times> env" where
  "clear_proxy_main e = (0, e\<lparr>host_address := None, opt_port := 0, opt_username := None, opt_password := None, g_use_proxy := False\<rparr>)"

section \<open>Nothing is read or written out of range\<close>

text \<open>A part of the first \<open>n\<close> characters; and what the state machine knows when it has read \<open>n\<close> characters.\<close>

definition rng :: "nat \<Rightarrow> nat option \<Rightarrow> int \<Rightarrow> bool" where
  "rng n ptr len \<longleftrightarrow> len = 0 \<or> (\<exists>a. ptr = Some a \<and> 0 < len \<and> int a + len \<le> int n)"

definition pinv :: "nat \<Rightarrow> parse \<Rightarrow> bool" where
  "pinv n p \<longleftrightarrow>
     rng n (address p) (address_len p) \<and> rng n (port p) (port_len p) \<and> rng n (username p) (username_len p) \<and>
     rng n (password p) (password_len p) \<and> rng n (schema p) (schema_len p) \<and>
     (case pst p of
        S_schema \<Rightarrow> schema p = Some 0 \<and> address_len p = 0 \<and> port_len p = 0 \<and> username_len p = 0 \<and> password_len p = 0
      | S_colonslash \<Rightarrow> username p = Some (n + 2) \<and> address_len p = 0 \<and> port_len p = 0 \<and> username_len p = 0 \<and> password_len p = 0
      | S_colonslashslash \<Rightarrow> username p = Some (n + 1) \<and> address_len p = 0 \<and> port_len p = 0 \<and> username_len p = 0 \<and> password_len p = 0
      | S_username \<Rightarrow> (\<exists>u \<le> n. username p = Some u) \<and> address_len p = 0 \<and> port_len p = 0 \<and> username_len p = 0 \<and> password_len p = 0
      | S_password \<Rightarrow> (\<exists>w \<le> n. password p = Some w) \<and> address_len p = 0 \<and> port_len p = 0 \<and> password_len p = 0
      | S_address \<Rightarrow> (\<exists>a \<le> n. address p = Some a) \<and> address_len p = 0 \<and> port_len p = 0
      | S_port \<Rightarrow> (\<exists>q \<le> n. port p = Some q) \<and> port_len p = 0
      | S_error \<Rightarrow> False)"

lemma rng_simps [simp]: "rng n ptr 0" "p \<le> n \<Longrightarrow> rng n (Some p) (int n - int p)"
  by (auto simp: rng_def)

lemma rng_mono: "rng n ptr len \<Longrightarrow> rng (Suc n) ptr len"
  by (auto simp: rng_def)

lemma rng_between: "p \<le> n \<Longrightarrow> rng (Suc n) (Some p) (int n - int p)" "rng (Suc n) (Some 0) (int n)"
  by (auto simp: rng_def)

lemma pinv_start: "pinv 0 parse_start"
  by (simp add: pinv_def parse_start_def)

lemma pinv_step: "pinv pos p \<Longrightarrow> pst (proxy_step pos c p) \<noteq> S_error \<Longrightarrow> pinv (Suc pos) (proxy_step pos c p)"
  by (cases "pst p") (auto simp: pinv_def proxy_step_def password_step_def Let_def split: if_splits intro: rng_mono rng_between le_SucI)

lemma pinv_loop:
  "pinv pos p \<Longrightarrow> proxy_loop cs pos p = (pos', p') \<Longrightarrow> pst p' = S_error \<or> pos' = pos + length cs \<and> pinv pos' p'"
proof (induction cs arbitrary: pos p)
  case (Cons c cs)
  then show ?case using pinv_step [OF Cons.prems(1), of c] by (fastforce simp: Let_def split: if_splits)
qed simp

lemma pinv_end:
  assumes "pinv n p" "proxy_end n p = Some p'"
  shows "rng n (address p') (address_len p') \<and> rng n (port p') (port_len p') \<and> rng n (username p') (username_len p') \<and>
    rng n (password p') (password_len p') \<and> schema p' = schema p \<and> schema_len p' = schema_len p"
  using assms by (cases "pst p") (auto simp: pinv_def proxy_end_def Let_def)

lemma part_rng: "rng (length arg) ptr len \<Longrightarrow> \<exists>xs. part arg ptr len = Some xs \<and> len = int (length xs) \<and> set xs \<subseteq> set arg"
proof (cases "len = 0")
  case False
  assume "rng (length arg) ptr len"
  then obtain a where a: "ptr = Some a" "0 < len" "int a + len \<le> int (length arg)" using False by (auto simp: rng_def)
  obtain k where k: "len = int k" using a(2) by (metis less_imp_le nonneg_int_cases)
  have "set (take k (drop a arg)) \<subseteq> set arg" by (rule order_trans [OF set_take_subset set_drop_subset])
  then show ?thesis using a k False by (simp add: part_def)
qed (simp add: part_def)

lemma put_at: "length xs \<le> length rest \<Longrightarrow> put xs (length pre) (pre @ rest) = Some ((pre @ xs) @ drop (length xs) rest)"
  by (simp add: put_def)

lemma put_part_at:
  assumes "part arg ptr len = Some xs" "len = int (length xs)" "length xs < length rest"
  shows "put_part arg ptr len (length pre) (pre @ rest) =
    Some (length (pre @ xs @ [CHR 0x00]), (pre @ xs @ [CHR 0x00]) @ drop (Suc (length xs)) rest)"
  using assms put_at [of "xs @ [CHR 0x00]" rest pre] by (simp add: put_part_def)

text \<open>The block has just the size of the four parts, each with its NUL.\<close>

lemma store_proxy_value:
  assumes "part arg (address p) (address_len p) = Some A" "address_len p = int (length A)"
    "part arg (port p) (port_len p) = Some P" "port_len p = int (length P)"
    "part arg (username p) (username_len p) = Some U" "username_len p = int (length U)"
    "part arg (password p) (password_len p) = Some W" "password_len p = int (length W)" "\<And>n. length (junk n) = n" "CHR 0x00 \<notin> set P"
  shows "store_proxy junk arg p e = Some (0,
    e\<lparr>opt_buf := A @ [CHR 0x00] @ P @ [CHR 0x00] @ U @ [CHR 0x00] @ W @ [CHR 0x00], host_address := Some 0,
      opt_port := (if P = [] then 8080 else atoi P),
      opt_username := (if U = [] \<and> W = [] then None else Some (length A + length P + 2)),
      opt_password := (if U = [] \<and> W = [] then None else Some (length A + length P + length U + 3)), g_use_proxy := True\<rparr>)"
proof -
  define n where "n = nat (address_len p + port_len p + username_len p + password_len p + 4)"
  have n: "n = length A + length P + length U + length W + 4" unfolding n_def by (simp add: assms(2,4,6,8))
  let ?b1 = "A @ [CHR 0x00]" let ?b2 = "?b1 @ P @ [CHR 0x00]" let ?b3 = "?b2 @ U @ [CHR 0x00]" let ?b4 = "?b3 @ W @ [CHR 0x00]"
  let ?j = "junk n"
  have 1: "put_part arg (address p) (address_len p) 0 ?j = Some (length ?b1, ?b1 @ drop (length ?b1) ?j)"
    using put_part_at [OF assms(1,2), of ?j "[]"] n assms(9) by simp
  have 2: "put_part arg (port p) (port_len p) (length ?b1) (?b1 @ drop (length ?b1) ?j) = Some (length ?b2, ?b2 @ drop (length ?b2) ?j)"
    using put_part_at [OF assms(3,4), of "drop (length ?b1) ?j" ?b1] n assms(9) by (simp add: ac_simps)
  have 3: "put_part arg (username p) (username_len p) (length ?b2) (?b2 @ drop (length ?b2) ?j) = Some (length ?b3, ?b3 @ drop (length ?b3) ?j)"
    using put_part_at [OF assms(5,6), of "drop (length ?b2) ?j" ?b2] n assms(9) by (simp add: ac_simps)
  have 4: "put_part arg (password p) (password_len p) (length ?b3) (?b3 @ drop (length ?b3) ?j) = Some (length ?b4, ?b4)"
    using put_part_at [OF assms(7,8), of "drop (length ?b3) ?j" ?b3] n assms(9) by (simp add: ac_simps)
  have "cstr (?b2 @ drop (length ?b2) ?j) (length ?b1) = P"
    using assms(10) by (simp add: cstr_def takeWhile_append takeWhile_eq_all_conv [THEN iffD2])
  then show ?thesis unfolding store_proxy_def Let_def n_def [symmetric] 1 option.case prod.case 2 3 4
    by (simp add: assms(4,6,8))
qed

lemma set_proxy_safe:
  assumes j: "\<And>n. length (junk n) = n" and z: "CHR 0x00 \<notin> set (argv ! 1)"
  shows "set_proxy_main junk ok argv e \<noteq> None"
proof (cases "length argv < 2")
  case True then show ?thesis by (simp add: set_proxy_main_def)
next
  case False
  define arg where "arg = argv ! 1"
  obtain pos p where l: "proxy_loop arg 0 parse_start = (pos, p)" by fastforce
  show ?thesis
  proof (cases "proxy_end pos p")
    case None then show ?thesis using False l by (simp add: set_proxy_main_def Let_def arg_def)
  next
    case (Some p')
    have "pst p \<noteq> S_error" using Some by (auto simp: proxy_end_def)
    then have "pos = length arg" "pinv (length arg) p" using pinv_loop [OF pinv_start l] by auto
    note r = pinv_end [OF this(2) Some [unfolded this(1)]]
    obtain A where A: "part arg (address p') (address_len p') = Some A" "address_len p' = int (length A)" using part_rng r by blast
    obtain P where P: "part arg (port p') (port_len p') = Some P" "port_len p' = int (length P)" "set P \<subseteq> set arg" using part_rng r by blast
    obtain U where U: "part arg (username p') (username_len p') = Some U" "username_len p' = int (length U)" using part_rng r by blast
    obtain W where W: "part arg (password p') (password_len p') = Some W" "password_len p' = int (length W)" using part_rng r by blast
    have "CHR 0x00 \<notin> set P" using P(3) z by (auto simp: arg_def)
    from store_proxy_value [OF A P(1,2) U W j this] show ?thesis
      using False l Some by (simp add: set_proxy_main_def Let_def arg_def)
  qed
qed

section \<open>What a proxy string means\<close>

text \<open>Characters that mean nothing in a state are passed over.\<close>

lemma loop_user: "pst p = S_username \<Longrightarrow> set u \<inter> {CHR '':'', CHR ''@''} = {} \<Longrightarrow> proxy_loop (u @ cs) pos p = proxy_loop cs (pos + length u) p"
  by (induction u arbitrary: pos) (auto simp: proxy_step_def Let_def)

lemma loop_password: "pst p = S_password \<Longrightarrow> CHR ''@'' \<notin> set w \<Longrightarrow> proxy_loop (w @ cs) pos p = proxy_loop cs (pos + length w) p"
  by (induction w arbitrary: pos) (auto simp: proxy_step_def password_step_def Let_def)

lemma loop_address: "pst p = S_address \<Longrightarrow> CHR '':'' \<notin> set a \<Longrightarrow> proxy_loop (a @ cs) pos p = proxy_loop cs (pos + length a) p"
  by (induction a arbitrary: pos) (auto simp: proxy_step_def Let_def)

lemma loop_port: "pst p = S_port \<Longrightarrow> proxy_loop ds pos p = (pos + length ds, p)"
proof (induction ds arbitrary: pos)
  case (Cons d ds)
  have "\<not> (d < CHR ''0'' \<and> d > CHR ''9'')"
  proof
    assume "d < CHR ''0'' \<and> d > CHR ''9''"
    then have "CHR ''9'' < CHR ''0''" by (metis less_trans)
    then show False by code_simp
  qed
  then show ?case using Cons by (simp add: proxy_step_def)
qed simp

lemma loop_http:
  "proxy_loop (''http://'' @ cs) 0 parse_start =
    proxy_loop cs 7 (parse_start\<lparr>schema_len := 4, username := Some 7, pst := S_username\<rparr>)"
  by (simp add: parse_start_def proxy_step_def Let_def eval_nat_numeral)

lemma part_mid: "arg = a @ b @ c \<Longrightarrow> n = length a \<Longrightarrow> k = int (length b) \<Longrightarrow> part arg (Some n) k = Some b"
  by (auto simp: part_def)

text \<open>The settings that the strings of the four parts give.\<close>

definition proxy_set :: "string \<Rightarrow> string \<Rightarrow> string \<Rightarrow> string \<Rightarrow> env \<Rightarrow> bool" where
  "proxy_set u w a ds e \<longleftrightarrow>
     map_option (cstr (opt_buf e)) (host_address e) = Some a \<and> opt_port e = (if ds = [] then 8080 else atoi ds) \<and>
     map_option (cstr (opt_buf e)) (opt_username e) = (if u = [] \<and> w = [] then None else Some u) \<and>
     map_option (cstr (opt_buf e)) (opt_password e) = (if u = [] \<and> w = [] then None else Some w) \<and> g_use_proxy e"

lemma cstr_part: "CHR 0x00 \<notin> set xs \<Longrightarrow> n = length pre \<Longrightarrow> cstr (pre @ xs @ CHR 0x00 # rest) n = xs"
  by (simp add: cstr_def takeWhile_eq_all_conv [THEN iffD2] takeWhile_append)

lemma stored_set:
  assumes "CHR 0x00 \<notin> set (A @ P @ U @ W)"
  shows "proxy_set U W A P
    (e\<lparr>opt_buf := A @ [CHR 0x00] @ P @ [CHR 0x00] @ U @ [CHR 0x00] @ W @ [CHR 0x00], host_address := Some 0,
      opt_port := (if P = [] then 8080 else atoi P),
      opt_username := (if U = [] \<and> W = [] then None else Some (length A + length P + 2)),
      opt_password := (if U = [] \<and> W = [] then None else Some (length A + length P + length U + 3)), g_use_proxy := True\<rparr>)"
proof -
  have "cstr ([] @ A @ CHR 0x00 # P @ CHR 0x00 # U @ CHR 0x00 # W @ [CHR 0x00]) 0 = A" using assms by (intro cstr_part) simp_all
  moreover have "cstr ((A @ CHR 0x00 # P @ [CHR 0x00]) @ U @ CHR 0x00 # W @ [CHR 0x00]) (length A + length P + 2) = U"
    using assms by (intro cstr_part) simp_all
  moreover have "cstr ((A @ CHR 0x00 # P @ CHR 0x00 # U @ [CHR 0x00]) @ W @ CHR 0x00 # []) (length A + length P + length U + 3) = W"
    using assms by (intro cstr_part) simp_all
  ultimately show ?thesis by (simp add: proxy_set_def)
qed

text \<open>What is parsed is set.\<close>

lemma set_proxy_parsed:
  assumes l: "proxy_loop arg 0 parse_start = (pos, p)" and q: "proxy_end pos p = Some q"
    and A: "part arg (address q) (address_len q) = Some A" "address_len q = int (length A)"
    and P: "part arg (port q) (port_len q) = Some P" "port_len q = int (length P)"
    and U: "part arg (username q) (username_len q) = Some U" "username_len q = int (length U)"
    and W: "part arg (password q) (password_len q) = Some W" "password_len q = int (length W)"
    and o: "schema_len q > 0 \<longrightarrow> strncmp_eq (drop (the (schema q)) arg) ''http'' (nat (schema_len q))" "A \<noteq> []"
    and z: "CHR 0x00 \<notin> set (A @ P @ U @ W)" and j: "\<And>n. length (junk n) = n"
  shows "\<exists>e'. set_proxy_main junk True [cmd, arg] e = Some (0, e') \<and> proxy_set U W A P e'"
proof -
  have "CHR 0x00 \<notin> set P" using z by simp
  note v = store_proxy_value [OF A P U W j this, of e]
  show ?thesis using l q o A(2) v stored_set [OF z, of e] by (simp add: set_proxy_main_def Let_def)
qed

lemma set_proxy_full:
  assumes "CHR 0x00 \<notin> set (u @ w @ a @ ds)" "set u \<inter> {CHR '':'', CHR ''@''} = {}" "CHR ''@'' \<notin> set w" "CHR '':'' \<notin> set a"
    "a \<noteq> []" "\<And>n. length (junk n) = n"
  shows "\<exists>e'. set_proxy_main junk True [cmd, ''http://'' @ u @ '':'' @ w @ ''@'' @ a @ '':'' @ ds] e = Some (0, e') \<and> proxy_set u w a ds e'"
proof -
  define arg where "arg = ''http://'' @ u @ '':'' @ w @ ''@'' @ a @ '':'' @ ds"
  define lu where "lu = length u" define lw where "lw = length w" define la where "la = length a"
  define p where "p = parse_start\<lparr>schema_len := 4, username := Some 7, username_len := int lu, password := Some (8 + lu), password_len := int lw,
    address := Some (9 + lu + lw), address_len := int la, port := Some (10 + lu + lw + la), pst := S_port\<rparr>"
  have "proxy_loop arg 0 parse_start = (10 + lu + lw + la + length ds, p)"
    using assms(2-4) unfolding arg_def loop_http
    by (simp add: loop_user loop_password loop_address loop_port proxy_step_def password_step_def Let_def p_def lu_def lw_def la_def
        parse_start_def algebra_simps)
  moreover have p1: "part arg (Some (9 + lu + lw)) (int la) = Some a" unfolding arg_def lu_def lw_def la_def
    by (rule part_mid [where a = "''http://'' @ u @ '':'' @ w @ ''@''" and c = "'':'' @ ds"]) simp_all
  moreover have p2: "part arg (Some (10 + lu + lw + la)) (int (length ds)) = Some ds" unfolding arg_def lu_def lw_def la_def
    by (rule part_mid [where a = "''http://'' @ u @ '':'' @ w @ ''@'' @ a @ '':''" and c = "[]"]) simp_all
  moreover have p3: "part arg (Some 7) (int lu) = Some u" unfolding arg_def lu_def
    by (rule part_mid [where a = "''http://''" and c = "'':'' @ w @ ''@'' @ a @ '':'' @ ds"]) simp_all
  moreover have p4: "part arg (Some (8 + lu)) (int lw) = Some w" unfolding arg_def lu_def lw_def
    by (rule part_mid [where a = "''http://'' @ u @ '':''" and c = "''@'' @ a @ '':'' @ ds"]) simp_all
  moreover define q where "q = p\<lparr>port_len := int (length ds)\<rparr>"
  have "proxy_end (10 + lu + lw + la + length ds) p = Some q" by (simp add: proxy_end_def p_def q_def parse_start_def)
  moreover have "strncmp_eq (drop (the (schema q)) arg) ''http'' (nat (schema_len q))"
    by (simp add: q_def p_def parse_start_def arg_def strncmp_eq_def)
  moreover have "CHR 0x00 \<notin> set (a @ ds @ u @ w)" using assms(1) by auto
  ultimately show ?thesis
    unfolding arg_def [symmetric] using assms(5)
    by (intro set_proxy_parsed [where q = q] assms(6)) (simp_all add: q_def p_def parse_start_def lu_def lw_def la_def)
qed

text \<open>Without user and password, and without port.\<close>

lemma set_proxy_address_port:
  assumes "CHR 0x00 \<notin> set (a @ ds)" "set a \<inter> {CHR '':'', CHR ''@''} = {}" "CHR ''@'' \<notin> set ds" "a \<noteq> []" "\<And>n. length (junk n) = n"
  shows "\<exists>e'. set_proxy_main junk True [cmd, ''http://'' @ a @ '':'' @ ds] e = Some (0, e') \<and> proxy_set [] [] a ds e'"
proof -
  define arg where "arg = ''http://'' @ a @ '':'' @ ds"
  define la where "la = length a"
  define p where "p = parse_start\<lparr>schema_len := 4, username := Some 7, username_len := int la, password := Some (8 + la), pst := S_password\<rparr>"
  define q where "q = p\<lparr>address := Some 7, address_len := int la, username := None, username_len := 0, port := Some (8 + la),
    port_len := int (length ds), password := None, password_len := 0\<rparr>"
  have "proxy_loop arg 0 parse_start = (8 + la + length ds, p)"
    using assms(2,3) loop_password [of p ds "[]" "8 + la"] unfolding arg_def loop_http
    by (simp add: loop_user proxy_step_def Let_def p_def la_def parse_start_def)
  moreover have "proxy_end (8 + la + length ds) p = Some q" by (simp add: proxy_end_def p_def q_def parse_start_def Let_def)
  moreover have "part arg (Some 7) (int la) = Some a" unfolding arg_def la_def
    by (rule part_mid [where a = "''http://''" and c = "'':'' @ ds"]) simp_all
  moreover have "part arg (Some (8 + la)) (int (length ds)) = Some ds" unfolding arg_def la_def
    by (rule part_mid [where a = "''http://'' @ a @ '':''" and c = "[]"]) simp_all
  moreover have "part arg None 0 = Some []" by (simp add: part_def)
  moreover have "strncmp_eq (drop (the (schema q)) arg) ''http'' (nat (schema_len q))"
    by (simp add: q_def p_def parse_start_def arg_def strncmp_eq_def)
  ultimately show ?thesis
    unfolding arg_def [symmetric] using assms(1,4)
    by (intro set_proxy_parsed [where q = q] assms(5)) (simp_all add: q_def p_def parse_start_def la_def)
qed

lemma set_proxy_address:
  assumes "CHR 0x00 \<notin> set a" "set a \<inter> {CHR '':'', CHR ''@''} = {}" "a \<noteq> []" "\<And>n. length (junk n) = n"
  shows "\<exists>e'. set_proxy_main junk True [cmd, ''http://'' @ a] e = Some (0, e') \<and> proxy_set [] [] a [] e'"
proof -
  define arg where "arg = ''http://'' @ a"
  define p where "p = parse_start\<lparr>schema_len := 4, username := Some 7, pst := S_username\<rparr>"
  define q where "q = p\<lparr>address := Some 7, address_len := int (length a), username := None\<rparr>"
  have "proxy_loop arg 0 parse_start = (7 + length a, p)"
    using assms(2) loop_user [of p a "[]" 7] unfolding arg_def loop_http by (simp add: p_def parse_start_def)
  moreover have "proxy_end (7 + length a) p = Some q" by (simp add: proxy_end_def p_def q_def parse_start_def Let_def)
  moreover have "part arg (Some 7) (int (length a)) = Some a" unfolding arg_def by (rule part_mid [where a = "''http://''" and c = "[]"]) simp_all
  moreover have "part arg None 0 = Some []" by (simp add: part_def)
  moreover have "strncmp_eq (drop (the (schema q)) arg) ''http'' (nat (schema_len q))"
    by (simp add: q_def p_def parse_start_def arg_def strncmp_eq_def)
  ultimately show ?thesis
    unfolding arg_def [symmetric] using assms(1,3)
    by (intro set_proxy_parsed [where q = q] assms(4)) (simp_all add: q_def p_def parse_start_def)
qed

text \<open>The test of the digits of a port is never true, so that any text is taken as a port.\<close>

lemma any_port: "\<exists>e'. set_proxy_main (\<lambda>n. replicate n CHR ''x'') True [''set_proxy'', ''http://host:none''] e = Some (0, e') \<and> opt_port e' = 0"
  using set_proxy_address_port [of "''host''" "''none''" "\<lambda>n. replicate n CHR ''x''" "''set_proxy''" e]
  by (auto simp: proxy_set_def atoi_def space_def digit_def)

end
