(* ===== verification/Client.thy ===== *)
theory Client
  imports Prelude "HOL-Library.Signed_Division" "HOL-Library.Multiset"
begin

text \<open>
  The IoT Hub client, app\_iothub\_client/src/client.c: the loop that sends telemetry and handles what comes from the hub. The functions
  of the Azure SDK are not part of it: whether they succeed, and what \<open>IoTHubClient_LL_DoWork\<close> brings, are given for each
  round of the loop.
\<close>

section \<open>State\<close>

text \<open>
  What a call of \<open>DoWork\<close> brings: the confirmation of the \<open>n\<close>-th of the messages on their way (the SDK calls back with the context
  it was given for the message, once for each, in any order: an acknowledgement names its message, and one that cannot be sent is
  confirmed as failed at once), a message (\<open>None\<close> if its content cannot be retrieved), a call of a method, and a new desired threshold.
\<close>

datatype 'v cl_event = Confirmed nat | Message "string option" | Method string | Desired 'v

text \<open>
  \<open>slot_handle\<close>, \<open>slot_id\<close> are the array \<open>messages\<close> (its index is an \<open>int\<close>); handles are numbers, given out by \<open>IoTHubMessage_CreateFromByteArray\<close> in
  order. \<open>sending\<close> is what the SDK has on its way: the slot given as context, and the message. Counters of type \<open>int\<close> are words; \<open>iterator\<close> never
  exceeds 5000. \<open>accepted\<close> and \<open>destroyed\<close> are the
  messages that the SDK has accepted, and the arguments of \<open>IoTHubMessage_Destroy\<close>, so far.
\<close>

record 'v client =
  iterator :: int
  msg_id :: "32 word"
  slot_handle :: "int \<Rightarrow> nat option"
  slot_id :: "int \<Rightarrow> 32 word"
  continueRunning :: bool
  twinReport :: bool
  ledOn :: bool
  callbackCounter :: "32 word"
  receiveContext :: "32 word"
  desired :: "'v option"
  reported :: "'v option list"
  handles :: nat
  sending :: "(int \<times> nat) list"
  accepted :: "nat list"
  destroyed :: "nat option list"

abbreviation MESSAGE_COUNT :: int where "MESSAGE_COUNT \<equiv> 5"
abbreviation DOWORK_LOOP_NUM :: nat where "DOWORK_LOOP_NUM \<equiv> 3"

section \<open>Call backs\<close>

definition SendConfirmationCallback :: "int \<Rightarrow> 'v client \<Rightarrow> 'v client" where
  "SendConfirmationCallback slot c =
     c\<lparr>callbackCounter := callbackCounter c + 1, destroyed := destroyed c @ [slot_handle c slot]\<rparr>"

definition ReceiveMessageCallback :: "string option \<Rightarrow> 'v client \<Rightarrow> 'v client" where
  "ReceiveMessageCallback buffer c =
     (let c = (if buffer = Some ''quit'' then c\<lparr>continueRunning := False\<rparr> else c) in c\<lparr>receiveContext := receiveContext c + 1\<rparr>)"

text \<open>The methods of the model: the status and the answer (\<open>None\<close>: there is no such method).\<close>

definition execute_method :: "string \<Rightarrow> 'v client \<Rightarrow> (int \<times> string option) option \<times> 'v client" where
  "execute_method m c =
     (if m = ''quit'' then (Some (0, Some ''{\"Message\":\"quit with Method\"}''), c\<lparr>continueRunning := False\<rparr>)
      else if m = ''turnLedOn'' then (Some (1, Some ''{\"Message\":\"Turning fan on with Method\"}''), c\<lparr>ledOn := True\<rparr>)
      else if m = ''turnLedOff'' then (Some (0, Some ''{\"Message\":\"Turning fan off with Method\"}''), c\<lparr>ledOn := False\<rparr>)
      else (None, c))"

text \<open>\<open>ok\<close>: the copy of the payload could be allocated. The result is the status and the response.\<close>

definition ReceiveDeviceMethodCallback :: "bool \<Rightarrow> string \<Rightarrow> 'v client \<Rightarrow> int \<times> string option \<times> 'v client" where
  "ReceiveDeviceMethodCallback ok m c =
     (if \<not> ok then (-1, None, c)
      else case execute_method m c of (None, c) \<Rightarrow> (-1, None, c) | (Some (status, json), c) \<Rightarrow> (status, Some (case json of None \<Rightarrow> ''{}'' | Some j \<Rightarrow> j), c))"

definition onDesiredThreshold :: "'v \<Rightarrow> 'v client \<Rightarrow> 'v client" where
  "onDesiredThreshold v c = c\<lparr>desired := Some v, twinReport := True\<rparr>"

definition handle_event :: "'v cl_event \<Rightarrow> 'v client \<Rightarrow> 'v client" where
  "handle_event ev c =
     (case ev of
        Confirmed n \<Rightarrow>
          if n < length (sending c) then
            SendConfirmationCallback (fst (sending c ! n)) (c\<lparr>sending := take n (sending c) @ drop (Suc n) (sending c)\<rparr>)
          else c
      | Message m \<Rightarrow> ReceiveMessageCallback m c
      | Method m \<Rightarrow> snd (snd (ReceiveDeviceMethodCallback True m c))
      | Desired v \<Rightarrow> onDesiredThreshold v c)"

section \<open>The loop\<close>

text \<open>One round: whether \<open>SERIALIZE\<close>, the creation of the message and \<open>SendEventAsync\<close> succeed, and what \<open>DoWork\<close> brings.\<close>

record 'v round =
  serialized :: bool
  created :: bool
  sent :: bool
  work :: "'v cl_event list"

definition send_message :: "'v round \<Rightarrow> 'v client \<Rightarrow> 'v client" where
  "send_message r c =
     (let msgPos = sint (msg_id c) smod MESSAGE_COUNT
      in if \<not> serialized r then c
         else if \<not> created r then c\<lparr>slot_handle := (slot_handle c)(msgPos := None)\<rparr>
         else
           let h = handles c;
               c = c\<lparr>handles := h + 1, slot_handle := (slot_handle c)(msgPos := Some h)\<rparr>;
               c = c\<lparr>slot_id := (slot_id c)(msgPos := msg_id c)\<rparr>;
               c = (if sent r then c\<lparr>sending := sending c @ [(msgPos, h)], accepted := accepted c @ [h]\<rparr> else c)
           in c\<lparr>msg_id := msg_id c + 1\<rparr>)"

definition do_round :: "'v round \<Rightarrow> 'v client \<Rightarrow> 'v client" where
  "do_round r c =
     (let c = (if iterator c \<ge> 5000 then send_message r (c\<lparr>iterator := 0\<rparr>)
               else if twinReport c then let c = c\<lparr>twinReport := False\<rparr> in c\<lparr>reported := reported c @ [desired c]\<rparr>
               else c);
          c = c\<lparr>iterator := iterator c + 1\<rparr>
      in fold handle_event (work r) c)"

text \<open>At the end \<open>IoTHubClient_LL_Destroy\<close> confirms what is still on its way, in the order \<open>ord\<close>, and then what that leaves.\<close>

definition destroy_client :: "nat list \<Rightarrow> 'v client \<Rightarrow> 'v client" where
  "destroy_client ord c = fold handle_event (map Confirmed ord @ replicate (length (sending c)) (Confirmed 0)) c"

text \<open>
  \<open>do ... while (g_continueRunning)\<close>, then \<open>DoWork\<close> some more times. The flag: the loop has ended (else the rounds given have).
\<close>

fun client_loop :: "nat list \<Rightarrow> 'v round list \<Rightarrow> 'v client \<Rightarrow> bool \<times> 'v client" where
  "client_loop ord [] c = (False, c)"
| "client_loop ord (r # rs) c =
     (let c = do_round r c
      in if continueRunning c then client_loop ord rs c
         else (True, destroy_client ord (fold handle_event (concat (map work (take DOWORK_LOOP_NUM rs))) c)))"

text \<open>\<open>iothub_client_run\<close> up to the loop: the variables it starts with.\<close>

definition client_start :: "bool \<Rightarrow> 'v client" where
  "client_start led =
     \<lparr>iterator = 4000, msg_id = 0, slot_handle = (\<lambda>_. None), slot_id = (\<lambda>_. 0), continueRunning = True, twinReport = False, ledOn = led,
      callbackCounter = 0, receiveContext = 0, desired = None, reported = [], handles = 0, sending = [], accepted = [], destroyed = []\<rparr>"

text \<open>\<open>iothub_client_main\<close>: the protocol that is run, if any.\<close>

definition iothub_client_main :: "string option \<Rightarrow> string list \<Rightarrow> int \<times> nat option" where
  "iothub_client_main cs argv =
     (if cs = None then (0, None)
      else if length argv < 2 then (0, Some 1)
      else if argv ! 1 = ''http'' then (0, Some 0)
      else if argv ! 1 = ''mqtt'' then (0, Some 1)
      else if argv ! 1 = ''mqttows'' then (0, Some 2)
      else (0, None))"

section \<open>Every message is destroyed once\<close>

text \<open>
  While no slot is used again before its message is confirmed, the messages destroyed and those on their way are together the ones
  accepted, and every slot of a message on its way still holds it.
\<close>

definition slots_ok :: "'v client \<Rightarrow> bool" where
  "slots_ok c \<longleftrightarrow>
     distinct (map fst (sending c)) \<and> (\<forall>(slot, h) \<in> set (sending c). slot_handle c slot = Some h) \<and>
     mset (destroyed c) + mset (map (Some \<circ> snd) (sending c)) = mset (map Some (accepted c)) \<and> sorted_wrt (<) (accepted c) \<and>
     (\<forall>h \<in> set (accepted c). h < handles c)"

text \<open>In every round that sends, the slot is one of the array (the number of the message has not overflowed) and free.\<close>

definition slot_free :: "'v client \<Rightarrow> bool" where
  "slot_free c \<longleftrightarrow>
     (iterator c \<ge> 5000 \<longrightarrow> 0 \<le> sint (msg_id c) \<and> sint (msg_id c) smod MESSAGE_COUNT \<notin> fst ` set (sending c))"

fun on_time :: "'v round list \<Rightarrow> 'v client \<Rightarrow> bool" where
  "on_time [] c = True"
| "on_time (r # rs) c \<longleftrightarrow> slot_free c \<and> (let c = do_round r c in continueRunning c \<longrightarrow> on_time rs c)"

text \<open>A confirmation takes the message out, wherever it is.\<close>

lemma confirmed_slots:
  assumes s: "slots_ok c" and n: "n < length (sending c)" shows "slots_ok (handle_event (Confirmed n) c)"
proof -
  obtain slot h where x: "sending c ! n = (slot, h)" by fastforce
  have e: "sending c = take n (sending c) @ (slot, h) # drop (Suc n) (sending c)" using id_take_nth_drop [OF n] x by simp
  obtain a b where ab: "sending c = a @ (slot, h) # b" "take n (sending c) = a" "drop (Suc n) (sending c) = b" using e by blast
  have h: "slot_handle c slot = Some h" using s ab(1) by (auto simp: slots_ok_def)
  have c: "handle_event (Confirmed n) c = c\<lparr>sending := a @ b, callbackCounter := callbackCounter c + 1, destroyed := destroyed c @ [Some h]\<rparr>"
    using n by (simp add: handle_event_def SendConfirmationCallback_def x ab(2,3) h)
  show ?thesis unfolding c using s ab(1) by (auto simp: slots_ok_def)
qed

lemma event_slots: "slots_ok c \<Longrightarrow> slots_ok (handle_event ev c)"
proof (cases ev)
  case (Confirmed n)
  assume "slots_ok c"
  then show ?thesis using confirmed_slots [of c n] Confirmed by (cases "n < length (sending c)") (simp_all add: handle_event_def)
qed (auto simp: handle_event_def ReceiveMessageCallback_def ReceiveDeviceMethodCallback_def execute_method_def onDesiredThreshold_def
      slots_ok_def Let_def split: if_splits)

lemma events_slots: "slots_ok c \<Longrightarrow> slots_ok (fold handle_event evs c)"
  by (induction evs arbitrary: c) (simp_all add: event_slots)

lemma send_slots:
  assumes "slots_ok c" "sint (msg_id c) smod MESSAGE_COUNT \<notin> fst ` set (sending c)"
  shows "slots_ok (send_message r c)"
proof -
  define p where "p = sint (msg_id c) smod MESSAGE_COUNT"
  have n: "slot \<noteq> p" if "(slot, h) \<in> set (sending c)" for slot h using assms(2) that unfolding p_def by force
  have k: "\<forall>(slot, h) \<in> set (sending c). ((slot_handle c)(p := v)) slot = Some h" for v
    using assms(1) n by (auto simp: slots_ok_def)
  show ?thesis using assms k unfolding slots_ok_def send_message_def p_def [symmetric] Let_def
    by (auto simp: sorted_wrt_append less_Suc_eq)
qed

lemma round_slots: "slots_ok c \<Longrightarrow> slot_free c \<Longrightarrow> slots_ok (do_round r c)"
proof -
  assume s: "slots_ok c" "slot_free c"
  have a: "slots_ok (c\<lparr>iterator := i\<rparr>)" "slots_ok c' \<Longrightarrow> slots_ok (c'\<lparr>iterator := i\<rparr>)"
    "slots_ok (c\<lparr>twinReport := b, reported := l\<rparr>)" for i b l c' using s(1) by (simp_all add: slots_ok_def)
  have "iterator c \<ge> 5000 \<Longrightarrow> slots_ok (send_message r (c\<lparr>iterator := 0\<rparr>))"
    using s(2) by (intro send_slots a) (simp add: slot_free_def)
  then show ?thesis unfolding do_round_def Let_def by (intro events_slots a(2)) (simp add: a s(1))
qed

lemma destroy_slots: "slots_ok c \<Longrightarrow> slots_ok (destroy_client ord c)"
  unfolding destroy_client_def by (rule events_slots)

lemma loop_slots: "slots_ok c \<Longrightarrow> on_time rs c \<Longrightarrow> slots_ok (snd (client_loop ord rs c))"
proof (induction rs arbitrary: c)
  case (Cons r rs)
  then show ?case using round_slots [of c r] by (simp add: Let_def events_slots destroy_slots)
qed simp

lemma start_slots: "slots_ok (client_start led)"
  by (simp add: slots_ok_def client_start_def)

lemma confirmed_length: "length (sending (handle_event (Confirmed n) c)) \<le> length (sending c)"
  by (simp add: handle_event_def SendConfirmationCallback_def)

lemma destroy_sending: "sending (destroy_client ord c) = []"
proof -
  have a: "length (sending (fold handle_event (map Confirmed ns) c)) \<le> length (sending c)" for ns and c :: "'a client"
  proof (induction ns arbitrary: c)
    case (Cons n ns)
    then show ?case using order_trans [OF Cons [of "handle_event (Confirmed n) c"] confirmed_length] by simp
  qed simp
  have b: "sending (fold handle_event (replicate n (Confirmed 0)) c) = drop n (sending c)" for n and c :: "'a client"
  proof (induction n arbitrary: c)
    case (Suc n)
    have "sending (handle_event (Confirmed 0) c) = drop 1 (sending c)"
      by (simp add: handle_event_def SendConfirmationCallback_def)
    then show ?case using Suc by simp
  qed simp
  show ?thesis using a [of ord c] unfolding destroy_client_def fold_append comp_apply b by simp
qed

lemma loop_end_sending: "client_loop ord rs c = (True, c') \<Longrightarrow> sending c' = []"
  by (induction rs arbitrary: c) (auto simp: Let_def destroy_sending split: if_splits)

text \<open>
  Otherwise a message is destroyed twice, and another never: with five on their way, the sixth takes the slot of the first, and the first
  confirmation destroys it.
\<close>

definition five_sent :: "unit client" where
  "five_sent = (client_start False)\<lparr>msg_id := 5, handles := 5, slot_handle := (\<lambda>i. if i < 5 then Some (nat i) else None),
     sending := [(0, 0), (1, 1), (2, 2), (3, 3), (4, 4)], accepted := [0, 1, 2, 3, 4]\<rparr>"

lemma five_sent_ok: "slots_ok five_sent"
  by (simp add: slots_ok_def five_sent_def client_start_def)

lemma slot_used_again:
  "destroyed (destroy_client [] (send_message \<lparr>serialized = True, created = True, sent = True, work = []\<rparr> five_sent))
   = [Some 5, Some 1, Some 2, Some 3, Some 4, Some 5]"
proof -
  let ?c = "send_message \<lparr>serialized = True, created = True, sent = True, work = []\<rparr> five_sent"
  have p: "sint (5 :: 32 word) smod 5 = 0" by (simp add: signed_modulo_int_def signed_divide_int_def)
  have s: "sending ?c = [(0, 0), (1, 1), (2, 2), (3, 3), (4, 4), (0, 5)]" "destroyed ?c = []"
    "slot_handle ?c 0 = Some 5" "slot_handle ?c 1 = Some 1" "slot_handle ?c 2 = Some 2" "slot_handle ?c 3 = Some 3" "slot_handle ?c 4 = Some 4"
    using p by (simp_all add: send_message_def five_sent_def client_start_def Let_def)
  have d: "destroyed (fold handle_event (replicate n (Confirmed 0)) c) = destroyed c @ map (\<lambda>(slot, h). slot_handle c slot) (take n (sending c))"
    for n and c :: "unit client"
  proof (induction n arbitrary: c)
    case (Suc n)
    show ?case
    proof (cases "sending c")
      case Nil then show ?thesis using Suc [of c] by (simp add: handle_event_def)
    next
      case (Cons x rest)
      then show ?thesis using Suc [of "handle_event (Confirmed 0) c"]
        by (simp add: handle_event_def SendConfirmationCallback_def case_prod_unfold)
    qed
  qed simp
  show ?thesis unfolding destroy_client_def list.map append_Nil d s by (simp add: s [simplified])
qed

section \<open>The client stops when it is told to\<close>

definition quits :: "'v round \<Rightarrow> bool" where
  "quits r \<longleftrightarrow> (\<exists>ev \<in> set (work r). case ev of Message m \<Rightarrow> m = Some ''quit'' | Method m \<Rightarrow> m = ''quit'' | _ \<Rightarrow> False)"

lemma event_continue:
  "continueRunning (handle_event ev c) \<longleftrightarrow>
    continueRunning c \<and> \<not> (case ev of Message m \<Rightarrow> m = Some ''quit'' | Method m \<Rightarrow> m = ''quit'' | _ \<Rightarrow> False)"
  by (auto simp: handle_event_def SendConfirmationCallback_def ReceiveMessageCallback_def ReceiveDeviceMethodCallback_def
      execute_method_def onDesiredThreshold_def Let_def split: cl_event.splits list.splits)

lemma events_continue:
  "continueRunning (fold handle_event evs c) \<longleftrightarrow>
    continueRunning c \<and> \<not> (\<exists>ev \<in> set evs. case ev of Message m \<Rightarrow> m = Some ''quit'' | Method m \<Rightarrow> m = ''quit'' | _ \<Rightarrow> False)"
  by (induction evs arbitrary: c) (auto simp: event_continue)

lemma round_continue: "continueRunning (do_round r c) \<longleftrightarrow> continueRunning c \<and> \<not> quits r"
  by (simp add: do_round_def events_continue quits_def send_message_def Let_def)

lemma loop_ends: "continueRunning c \<Longrightarrow> fst (client_loop ord rs c) \<longleftrightarrow> (\<exists>r \<in> set rs. quits r)"
  by (induction rs arbitrary: c) (auto simp: Let_def round_continue)

end
