(* ===== verification/Sensor.thy ===== *)
theory Sensor
  imports Prelude
begin

unbundle bit_operations_syntax

text \<open>
  The acceleration sensor of the board, app\_iothub\_client/pinkit/accelerometer.c, and the task that reads it, pinkit.c. The I2C bus is
  not part of it: \<open>bus_write data stop\<close> and \<open>bus_read len stop\<close> say what a transfer to the sensor returns, what has been read, and the
  state of the bus after it. Measurements are kept as the sensor gives them (the code divides them by 127).
\<close>

section \<open>Registers\<close>

type_synonym byte = "8 word"

record 'd bus =
  bus_write :: "byte list \<Rightarrow> bool \<Rightarrow> 'd \<Rightarrow> int \<times> 'd"
  bus_read :: "nat \<Rightarrow> bool \<Rightarrow> 'd \<Rightarrow> int \<times> byte list \<times> 'd"

text \<open>The bus, the chip select (high when no transfer is going on), and \<open>rdata[0]\<close>.\<close>

record 'd sensor =
  sdev :: 'd
  i2c_cs :: bool
  rdata :: byte

definition RegRead :: "'d bus \<Rightarrow> byte \<Rightarrow> 'd sensor \<Rightarrow> int \<times> 'd sensor" where
  "RegRead b reg s =
     (let s = s\<lparr>i2c_cs := False\<rparr>;
          (ret, d) = bus_write b [reg] False (sdev s);
          s = s\<lparr>sdev := d\<rparr>
      in if ret \<noteq> 1 then (-1, s)
         else
           let (result, data, d) = bus_read b 1 True (sdev s);
               s = s\<lparr>sdev := d, rdata := (if data = [] then rdata s else hd data)\<rparr>
           in if result \<noteq> 1 then (result, s)
              else let s = s\<lparr>i2c_cs := True\<rparr> in (uint (rdata s), s))"

definition RegReads :: "'d bus \<Rightarrow> byte \<Rightarrow> byte list \<Rightarrow> 'd sensor \<Rightarrow> int \<times> byte list \<times> 'd sensor" where
  "RegReads b reg buf s =
     (let s = s\<lparr>i2c_cs := False\<rparr>;
          (ret, d) = bus_write b [reg] False (sdev s);
          s = s\<lparr>sdev := d\<rparr>
      in if ret \<noteq> 1 then (-1, buf, s\<lparr>i2c_cs := True\<rparr>)
         else
           let (ret, data, d) = bus_read b (length buf) True (sdev s);
               s = s\<lparr>sdev := d\<rparr>;
               buf = take (length buf) data @ drop (length data) buf
           in if ret \<noteq> int (length buf) then (-1, buf, s\<lparr>i2c_cs := True\<rparr>)
              else (0, buf, s\<lparr>i2c_cs := True\<rparr>))"

definition RegWrite :: "'d bus \<Rightarrow> byte \<Rightarrow> byte \<Rightarrow> 'd sensor \<Rightarrow> int \<times> 'd sensor" where
  "RegWrite b reg val s =
     (let s = s\<lparr>i2c_cs := False\<rparr>;
          (ret, d) = bus_write b [reg, val] True (sdev s);
          s = s\<lparr>sdev := d\<rparr>
      in if ret \<noteq> 2 then (-1, s) else (0, s\<lparr>i2c_cs := True\<rparr>))"

definition RegWriteMask :: "'d bus \<Rightarrow> byte \<Rightarrow> byte \<Rightarrow> byte \<Rightarrow> 'd sensor \<Rightarrow> int \<times> 'd sensor" where
  "RegWriteMask b reg val msk s =
     (let (r, s) = RegRead b reg s;
          tmp = word_of_int r;
          v = (tmp AND NOT msk) OR (val AND msk);
          s = s\<lparr>i2c_cs := False\<rparr>;
          (ret, d) = bus_write b [reg, v] True (sdev s);
          s = s\<lparr>sdev := d\<rparr>
      in if ret \<noteq> 2 then (-1, s) else (0, s\<lparr>i2c_cs := True\<rparr>))"

abbreviation R_BW_RATE :: byte where "R_BW_RATE \<equiv> 0x2C"
abbreviation R_POWER_CTL :: byte where "R_POWER_CTL \<equiv> 0x2D"
abbreviation R_DATA_FORMAT :: byte where "R_DATA_FORMAT \<equiv> 0x31"
abbreviation R_DATAX0 :: byte where "R_DATAX0 \<equiv> 0x32"

definition ToWakeup :: "'d bus \<Rightarrow> 'd sensor \<Rightarrow> 'd sensor" where "ToWakeup b s = snd (RegWriteMask b R_POWER_CTL 0x00 0x04 s)"
definition ToSleep :: "'d bus \<Rightarrow> 'd sensor \<Rightarrow> 'd sensor" where "ToSleep b s = snd (RegWriteMask b R_POWER_CTL 0x04 0x04 s)"
definition SetBW_RATE :: "'d bus \<Rightarrow> byte \<Rightarrow> 'd sensor \<Rightarrow> 'd sensor" where "SetBW_RATE b n s = snd (RegWrite b R_BW_RATE n s)"
definition SetDataFormat :: "'d bus \<Rightarrow> byte \<Rightarrow> 'd sensor \<Rightarrow> 'd sensor" where "SetDataFormat b n s = snd (RegWrite b R_DATA_FORMAT n s)"
definition SetFullResolution :: "'d bus \<Rightarrow> 'd sensor \<Rightarrow> 'd sensor" where
  "SetFullResolution b s = snd (RegWriteMask b R_DATA_FORMAT 0x08 0x08 s)"
definition Measure :: "'d bus \<Rightarrow> 'd sensor \<Rightarrow> 'd sensor" where "Measure b s = snd (RegWriteMask b R_POWER_CTL 0x08 0x08 s)"

text \<open>Two bytes, low byte first, as a signed number (\<open>char\<close> is unsigned on this processor).\<close>

definition int16_at :: "byte \<Rightarrow> byte \<Rightarrow> 16 word" where "int16_at lo hi = push_bit 8 (ucast hi) + ucast lo"

definition ReadXYZ :: "'d bus \<Rightarrow> byte list \<Rightarrow> 'd sensor \<Rightarrow> int \<times> (16 word \<times> 16 word \<times> 16 word) \<times> 'd sensor" where
  "ReadXYZ b xyz s =
     (let (result, xyz, s) = RegReads b R_DATAX0 xyz s
      in (result, (int16_at (xyz ! 0) (xyz ! 1), int16_at (xyz ! 2) (xyz ! 3), int16_at (xyz ! 4) (xyz ! 5)), s))"

text \<open>
  \<open>measuring\<close> is never set, and the pointer to the result is not null. The initialisation of the bus and of the pin, and the wait of
  \<open>Accelerometer_Init\<close>, are left out.
\<close>

definition Accelerometer_TakeMeasurements :: "'d bus \<Rightarrow> byte list \<Rightarrow> 'd sensor \<Rightarrow> bool \<times> (int \<times> int \<times> int) \<times> 'd sensor" where
  "Accelerometer_TakeMeasurements b xyz s =
     (let s = Measure b s;
          (ret, (x, y, z), s) = ReadXYZ b xyz s
      in (ret = 0, (sint x, sint y, sint z), s))"

definition Accelerometer_Init :: "'d bus \<Rightarrow> 'd sensor \<Rightarrow> 'd sensor" where
  "Accelerometer_Init b s = SetBW_RATE b 0x19 (SetDataFormat b 0x01 (ToWakeup b s))"

section \<open>The task\<close>

text \<open>
  The handling of errors in a round of \<open>pinkit_task\<close>: \<open>ok\<close> is the result of the measurement, if one is taken. The results: the
  counter, whether a measurement is taken, and whether the error is logged.
\<close>

definition error_round :: "bool \<Rightarrow> int \<Rightarrow> int \<times> bool \<times> bool" where
  "error_round ok i2c_error =
     (if i2c_error < 3 then (if ok then 0 else i2c_error + 1, True, False)
      else
        let i2c_error = i2c_error + 1
        in if i2c_error = 4 then (i2c_error, False, True)
           else if i2c_error \<ge> 10000 then (0, False, False) else (i2c_error, False, False))"

definition BoardFullColorLED_SetColor :: "byte \<Rightarrow> bool \<times> bool \<times> bool" where
  "BoardFullColorLED_SetColor color = (color AND 1 \<noteq> 0, color AND 2 \<noteq> 0, color AND 4 \<noteq> 0)"

section \<open>Lemmas\<close>

text \<open>Reading several registers always ends the transfer.\<close>

lemma RegReads_releases: "RegReads b reg buf s = (r, buf', s') \<Longrightarrow> i2c_cs s' \<and> (r = 0 \<or> r = -1)"
  by (auto simp: RegReads_def Let_def split: prod.splits if_splits)

text \<open>Reading or writing one does when it succeeds; after an error the sensor stays selected.\<close>

lemma RegWrite_selected: "RegWrite b reg val s = (r, s') \<Longrightarrow> i2c_cs s' \<longleftrightarrow> r = 0"
  by (auto simp: RegWrite_def Let_def split: prod.splits if_splits)

lemma RegRead_selected:
  "RegRead b reg s = (r, s') \<Longrightarrow> fst (bus_write b [reg] False (sdev s)) \<noteq> 1 \<Longrightarrow> r = -1 \<and> \<not> i2c_cs s'"
  by (auto simp: RegRead_def Let_def split: prod.splits if_splits)

text \<open>What is read is what the bus gave.\<close>

lemma RegRead_value:
  assumes "bus_write b [reg] False (sdev s) = (1, d)" "bus_read b 1 True d = (1, [v], d')"
  shows "RegRead b reg s = (uint v, s\<lparr>sdev := d', rdata := v, i2c_cs := True\<rparr>)"
  using assms by (simp add: RegRead_def Let_def)

text \<open>A masked write changes the bits of the mask only.\<close>

lemma RegWriteMask_value:
  assumes "RegRead b reg s = (uint v, s1)" "bus_write b [reg, (v AND NOT msk) OR (val AND msk)] True (sdev s1) = (2, d)"
  shows "RegWriteMask b reg val msk s = (0, s1\<lparr>sdev := d, i2c_cs := True\<rparr>)"
  using assms by (simp add: RegWriteMask_def Let_def)

lemma masked_bits:
  "bit ((v AND NOT msk) OR (val AND msk) :: byte) i = (if bit msk i then bit val i else bit v i)"
  by (cases "i < 8") (auto simp: bit_simps dest: bit_imp_le_length)

text \<open>A number split into bytes is read as itself.\<close>

lemma int16_round_trip: "int16_at (ucast v) (ucast (drop_bit 8 v)) = v"
proof -
  have "push_bit 8 (ucast (ucast (drop_bit 8 v) :: byte)) AND (ucast (ucast v :: byte) :: 16 word) = 0"
    by (rule bit_eqI) (auto simp: bit_simps)
  then have "int16_at (ucast v) (ucast (drop_bit 8 v)) = push_bit 8 (ucast (ucast (drop_bit 8 v) :: byte)) OR ucast (ucast v :: byte)"
    by (simp add: int16_at_def disjunctive_add_eq_or)
  also have "\<dots> = v" by (rule bit_eqI) (auto simp: bit_simps)
  finally show ?thesis .
qed

text \<open>The counter of errors stays in its range; after the third error no measurement is taken until it has come to 10000.\<close>

lemma error_counter: "0 \<le> n \<Longrightarrow> n < 10000 \<Longrightarrow> error_round ok n = (n', m, l) \<Longrightarrow> 0 \<le> n' \<and> n' < 10000 \<and> (m \<longleftrightarrow> n < 3) \<and> (l \<longleftrightarrow> n = 3)"
  by (auto simp: error_round_def Let_def split: if_splits)

primrec error_rounds :: "nat \<Rightarrow> int \<Rightarrow> int" where
  "error_rounds 0 n = n"
| "error_rounds (Suc k) n = error_rounds k (fst (error_round True n))"

lemma error_recovers: "3 \<le> n \<Longrightarrow> n < 10000 \<Longrightarrow> error_rounds (nat (10000 - n)) n = 0"
proof (induction "nat (10000 - n)" arbitrary: n)
  case (Suc k)
  show ?case
  proof (cases "n = 9999")
    case True then show ?thesis by (simp add: error_round_def)
  next
    case False
    then have "fst (error_round True n) = n + 1" using Suc(3,4) by (auto simp: error_round_def Let_def)
    moreover have "nat (10000 - n) = Suc (nat (10000 - (n + 1)))" using Suc(4) by simp
    ultimately show ?thesis using Suc(1) [of "n + 1"] Suc(2-4) False by simp
  qed
qed simp

end
