(* ===== verification/Spec2Isabelle.thy ===== *)
theory Spec2Isabelle
  imports Queue TimeEvent Task Kernel Wait Prio Semaphore Eventflag Buffer Mailbox Dataqueue Pridataq Mempfix Mutex TaskSvc
    SysManage TimeManage Cyclic Alarm Callback Frames FlagInv Invariant SignalTime System Errors Startup Gic Interrupt Mempool Boot
    LogOutput Syslog SerialPort SerialFifo SerialRead SerialRoom LogTask Histogram HrtTimer
    Proxy Client Sensor
begin

unbundle bit_operations_syntax

text \<open>
  A model of the real-time kernel of this repository, TOPPERS/ASP3 with dynamic creation of objects
  (asp3\_dcre/kernel), of its system log, serial port and timer, and of the IoT Hub client that runs on it, and the
  proof that they work. All paths below are under src/.

  \<^bold>\<open>The program.\<close> The kernel is one state and a set of service calls. A call checks its context
  and arguments, takes the CPU lock, works on control blocks and queues, switches to another task when
  the highest priority task has changed, and releases the lock. A call that waits puts the running
  task into the wait queue of an object, registers a timeout if there is one, and dispatches; the
  call that satisfies the wait takes the task out of the queue, writes the result into its
  \<open>WINFO\<close>, cancels the timeout and makes the task runnable.

  \<^bold>\<open>The theories\<close>, in the order in which they build on each other:

  \<^item> \<open>Prelude\<close>: error codes (include/t\_stddef.h), attributes and mode bits (include/kernel.h), the
    result \<open>svc\<close> of a service call, lemmas on lists and bit operations.
  \<^item> \<open>Queue\<close>: include/queue.h on a memory of \<open>p_next\<close> and \<open>p_prev\<close> fields; \<open>rings m Q\<close> says that
    the memory holds the lists \<open>Q\<close>, and every operation on pointers is proved to be the operation on
    lists (locale \<open>queue_impl\<close>, interpreted as \<open>ptr\<close> and \<open>lq\<close>). The theories after it use the lists.
  \<^item> \<open>TimeEvent\<close>: kernel/time\_event.c. Event times are 32-bit words compared relative to
    \<open>boundary_evttim\<close>; the heap is an array of references with back indexes; \<open>timers s A\<close> says that
    it is a heap of exactly the events \<open>A\<close> (locale \<open>timer_queue\<close>, interpreted as \<open>heap\<close>). The one field of the state that the code
    does not have is \<open>window_left\<close>: it records that an event was once left more than 200 s overdue, after which the comparison of times
    does not order the heap any more; \<open>registered s A\<close> is \<open>timers s A\<close> but for that case.
  \<^item> \<open>Task\<close>: kernel/task.h and task.c: task control blocks, the bitmap of priorities, the ready
    queues, \<open>p_runtsk\<close> and \<open>p_schedtsk\<close>. \<open>core L s\<close> is their invariant, \<open>L\<close> the queue each task is in.
  \<^item> \<open>Kernel\<close>: the record of the whole state, the argument checks of kernel/check.h, the CPU lock and
    \<open>dispatch\<close> of arch/arm\_gcc/common. A control block is identified by its index.
  \<^item> \<open>Wait\<close>: kernel/wait.h and wait.c. \<open>consistent\<close> is the invariant of tasks, queues and timeouts;
    \<open>midway\<close> is what holds inside a call, \<open>settled\<close> between calls (in addition the running task is the
    one to schedule, and the lock is free); \<open>keeps\<close> is what an operation leaves alone.
  \<^item> \<open>Prio\<close>: \<open>prio_frame\<close>, what an operation leaves of the priorities and the locks of tasks.
  \<^item> \<open>Semaphore\<close>, \<open>Eventflag\<close>: kernel/semaphore.c, kernel/eventflag.c.
  \<^item> \<open>Buffer\<close>, \<open>Mailbox\<close>: the interfaces the two message queues share: a bounded buffer (locale
    \<open>bounded_buffer\<close>), and an object with a buffer, waiting senders and waiting receivers (locales
    \<open>mailbox\<close>, \<open>mailboxes\<close>).
  \<^item> \<open>Ring\<close>: ring buffers (\<open>ring_at\<close>), which data queues, the system log and the serial port use.
  \<^item> \<open>Dataqueue\<close>, \<open>Pridataq\<close>: kernel/dataqueue.c, a ring buffer (\<open>ring\<close>, \<open>dtq\<close>), and
    kernel/pridataq.c, a chain of blocks ordered by priority (\<open>chain\<close>, \<open>pdq\<close>).
  \<^item> \<open>Mempfix\<close>: kernel/mempfix.c.
  \<^item> \<open>Mutex\<close>: kernel/mutex.c. \<open>mtx_ok Q X k\<close> is the invariant of the priority ceiling protocol, in which
    the mutexes \<open>Q\<close> may be between two owners and the tasks \<open>X\<close> between two priorities; between calls
    it is \<open>mtx_inv\<close>, without exceptions.
  \<^item> \<open>TaskSvc\<close>: the service calls on tasks: kernel/task\_manage.c, task\_term.c, task\_sync.c, task\_refer.c, and
    \<open>task_terminate\<close> of task.c; \<open>heirs\<close> are the tasks that get the mutexes of a task that ends.
  \<^item> \<open>SysManage\<close>, \<open>TimeManage\<close>: kernel/sys\_manage.c (with \<open>chg_ipm\<close>, \<open>get_ipm\<close> of interrupt.c and
    \<open>xsns_dpn\<close> of exception.c), kernel/time\_manage.c with the notification of events.
  \<^item> \<open>Cyclic\<close>, \<open>Alarm\<close>: kernel/cyclic.c, kernel/alarm.c; the handlers of the application are a function \<open>uh\<close>.
  \<^item> \<open>Callback\<close>, \<open>Frames\<close>, \<open>FlagInv\<close>: what the call backs of the time events are (\<open>cb_ok\<close>), what the service
    calls of one kind leave of the others, the invariant of event flags.
  \<^item> \<open>Invariant\<close>: \<open>good\<close>, the conjunction of all invariants, and that every service call keeps it.
  \<^item> \<open>SignalTime\<close>: the handler of the timer interrupt, \<open>signal_time\<close> of kernel/time\_event.c.
  \<^item> \<open>System\<close>: the kernel as a transition system: \<open>step\<close> is a service call of the running task, an interrupt
    that comes or ends (arch/arm\_gcc/common/core\_support.S), a call of an interrupt handler or a timer interrupt; \<open>run\<close> is
    any number of steps, and \<open>run_good\<close> that they keep \<open>good\<close>.
  \<^item> \<open>Errors\<close>: a call that fails leaves the kernel as it was.
  \<^item> \<open>Startup\<close>: kernel/startup.c and \<open>initialize_task\<close> of task.c; \<open>booted\<close> is the memory before the start.
  \<^item> \<open>Gic\<close>: the registers of the interrupt controller (arch/arm\_gcc/common/gic\_kernel\_impl.h, gic\_kernel\_impl.c,
    arch/arm\_gcc/rza1/chip\_kernel\_impl.c); \<open>setting\<close> is what they say of one interrupt.
  \<^item> \<open>Interrupt\<close>: kernel/interrupt.c: service routines, their queues, and the calls on interrupt lines.
  \<^item> \<open>Mempool\<close>: the default memory pool of the kernel, at the end of startup.c (locale \<open>allocator\<close>).
  \<^item> \<open>LogOutput\<close>: library/log\_output.c, vasyslog.c, strerror.c, t\_perror.c: how the arguments of a message are collected
    and how they are printed; \<open>print_d_round_trip\<close>: a number printed reads as itself.
  \<^item> \<open>Syslog\<close>: syssvc/tSysLog.c; \<open>log_at sz s L\<close> says that the log of \<open>sz\<close> records holds \<open>L\<close>.
  \<^item> \<open>SerialPort\<close>, \<open>SerialFifo\<close>, \<open>SerialRead\<close>, \<open>SerialRoom\<close>: syssvc/tSerialPortMain.c, its invariant \<open>port_ok\<close> under any interrupts
    and what it promises (\<open>does\<close>) of writes and of reads with their echo (\<open>echoed\<close>), and that a write for which there is room returns; \<open>SerialRoom\<close> has a concrete port.
  \<^item> \<open>LogTask\<close>: syssvc/tLogTaskMain.c; \<open>terminate_loses_nothing\<close>: at termination all that is left is put out, in order.
  \<^item> \<open>Histogram\<close>: syssvc/tHistogram.c; every measurement is counted once, also when the counter has wrapped.
  \<^item> \<open>HrtTimer\<close>: arch/arm\_gcc/rza1/chip\_timer.h and chip\_timer.c, the conversion between counts and microseconds.
  \<^item> \<open>Proxy\<close>, \<open>Client\<close>, \<open>Sensor\<close>: the application, app\_iothub\_client: the parser of the proxy setting (src/envcmd.c, with
    \<open>atoi\<close> of musl-1.1.18/src/stdlib/atoi.c), the loop
    that sends to the hub and its call backs (src/client.c; the functions of the SDK are what each round is given; it confirms messages in any order), the acceleration
    sensor (pinkit/accelerometer.c, pinkit.c; the I2C bus is a parameter).
  \<^item> \<open>Boot\<close>: the states \<open>reachable\<close> from the start, and a concrete kernel that is started.
  \<^item> \<open>Example\<close>: a concrete kernel on which the general theorems are instantiated.
  \<^item> this theory: the properties.

  \<^bold>\<open>State and operations.\<close> A service call is a function from its arguments and the kernel to its
  result and the new kernel: \<open>Ret e\<close> with an error code, \<open>RetUint n\<close> for a result of type
  \<open>ER_UINT\<close> that is not an error, \<open>Blocked\<close> when the caller waits; the caller's result then is \<open>wercd\<close>
  of its \<open>WINFO\<close> (and the data there) when it runs again. Unsigned integers are words of their width,
  so they wrap; \<open>ID\<close>, \<open>PRI\<close> and the like, which the code only compares and
  offsets after checking their range, are integers. A union of the code (\<open>WINFO\<close>) is one record with
  the fields of all cases. Null pointers of tasks and blocks are \<open>None\<close>, null addresses 0.

  \<^bold>\<open>Loops.\<close> The loops over a wait queue are recursions over the list or bounded by its length
  (\<open>init_wait_queue\<close>); those of the heap are functions with a measure. The search in the chain
  of a priority data queue and the insertion in a ring of pointers follow pointers, so they take fuel;
  the chain is searched with one step more than the count of blocks, and \<open>enqueue_pridata_repr\<close>,
  \<open>queue_insert_before_refines\<close> prove that this is enough. The loops over the mutexes of a task have the
  number of mutexes plus one as fuel (\<open>mtx_fuel\<close>); they do not need it all, since a list of locks has
  no mutex twice (\<open>holds_fuel\<close>), which \<open>mutex_loops_compute\<close> and \<open>mutex_release_all_ends\<close> use. The loops of \<open>signal_time\<close> may run for ever, when
  the handlers register new events; they are partial functions, and \<open>timer_interrupt_ends\<close> is the case in which they end.

  The waits of the serial port follow a schedule of interrupts (\<open>sp_evs\<close>), and are \<open>None\<close> when it ends before they do.

  \<^bold>\<open>Parameters.\<close> The readings of the hardware timer are a function of the read index (\<open>hrt_in\<close> in
  \<open>tme\<close>, \<open>cnt_in\<close> in \<open>ostm\<close>), the addresses returned by the kernel memory pool a sequence (\<open>mpk_in\<close>), the alignment tests of the
  target arguments of the creating calls (\<open>config\<close> in \<open>System\<close>). The strings in memory that a message
  refers to are a function of the address (\<open>str\<close>). The semaphores of the serial port are its own, of at most one resource, and one
  task writes and one reads at a time; whether its calls come in the right context and with a valid index are arguments of them. The handlers and routines of the application are functions on
  the kernel; where a property needs it, they are assumed to do nothing but call services (\<open>app_handlers\<close>), to keep the
  invariant (\<open>isrs_good\<close>), or to write variables (\<open>inirtns_ok\<close>).

  \<^bold>\<open>Not modelled.\<close> Exception entry and the vector tables of the processor, caches, MMU and registers of tasks (assembly), of which
  the model has the lock, the dispatcher, and the entry and exit of interrupts; the Ruby configurator, whose checks are the
  assumption \<open>booted\<close>; the registers of the devices other than the interrupt controller, and the banner and test services; task hooks, which are null pointers
  unless a debugger sets them; the parts of the application that only call the Azure SDK, and its floating point; the third-party code (Azure SDK, TLS libraries, TINET, TLSF, mbed, musl, zlib), but for \<open>atoi\<close>; interrupts of a
  higher priority that come while a handler of the kernel has given the CPU lock back for a moment (\<open>interrupt_window\<close> of \<open>Wait\<close>).
\<close>

section \<open>The kernel as a system\<close>

text \<open>C1: the start. From the memory the configurator and the start-up routine provide, \<open>sta_ker\<close>
  brings the kernel to a state in which every invariant holds, outside interrupts, with the CPU unlocked.\<close>

theorem kernel_starts_in_order:
  assumes "booted torder k" "inirtns_ok inirtns"
  shows "good (sta_ker torder inirtns k) \<and> kerflg (sta_ker torder inirtns k) \<and>
    \<not> sense_context (sta_ker torder inirtns k) \<and> \<not> sense_lock (sta_ker torder inirtns k)"
  using sta_ker_ok [OF assms] by blast

lemma kernel_starts_in_order_witness:
  "good (sta_ker (\<lambda>i. int i + 1) [\<lambda>k. k\<lparr>uvar := (\<lambda>a. 7)\<rparr>] (boot (\<lambda>_. 0)))"
proof -
  have "inirtns_ok [\<lambda>k. k\<lparr>uvar := (\<lambda>a. 7)\<rparr>]" unfolding inirtns_ok_def by auto
  from kernel_starts_in_order [OF boot_booted this, of "\<lambda>_. 0"] show ?thesis by blast
qed

text \<open>C2: the invariant of the system. Whatever sequence of service calls of tasks and of interrupt handlers, of
  interrupts and timer interrupts follows the start, the tasks, the queues, the timeouts and all
  objects stay in order.\<close>

theorem reachable_states_good:
  assumes "reachable cf uh torder inirtns k0 k" shows "good k"
  using assms by (rule reachable_good)

lemma reachable_states_good_witness: "good (irq_enter (started (\<lambda>_. 0)))"
  by (rule reachable_states_good [OF interrupted_reachable])

text \<open>C3: the scheduler. Outside interrupts, while dispatching is enabled, no task that could run has a higher
  priority (a smaller number) than the task that runs, and the processor is idle only if no task can run.\<close>

theorem highest_priority_runs:
  assumes "reachable cf uh torder inirtns k0 k" "\<not> sense_context k" "dspflg (ts k)"
    and "int t < tmax_tskid k" "exists_task k t" "TSTAT_RUNNABLE (tstat (task k t))"
  shows "\<exists>r. p_runtsk (ts k) = Some r \<and> exists_task k r \<and> priority (task k r) \<le> priority (task k t)"
  using good_runs_top [OF reachable_good [OF assms(1)] assms(2-6)] by blast

lemma highest_priority_runs_witness:
  "\<exists>r. p_runtsk (ts (started (\<lambda>_. 0))) = Some r \<and> exists_task (started (\<lambda>_. 0)) r \<and>
    priority (task (started (\<lambda>_. 0)) r) \<le> priority (task (started (\<lambda>_. 0)) 0)"
  by (rule highest_priority_runs [OF started_reachable]) (simp_all add: started_ok started_facts)

text \<open>C4: the states of tasks. The state of a task is one of the combinations the header defines, its priorities are
  valid, a task that waits for an object names an object of the kind its state says, and it is in the wait queue of
  exactly this object, once.\<close>

theorem task_states_valid:
  assumes "reachable cf uh torder inirtns k0 k"
  shows "valid_tstat (tstat (task k t)) \<and>
    (exists_task k t \<longrightarrow> priority (task k t) < TNUM_TPRI \<and> bpriority (task k t) < TNUM_TPRI) \<and>
    (TSTAT_WAIT_WOBJ (tstat (task k t)) \<longrightarrow>
      (\<exists>w. p_wobjcb (p_winfo (task k t)) = Some w \<and> wait_code w = tstat (task k t) AND NOT TS_SUSPENDED)) \<and>
    distinct (queue_of k w) \<and>
    (t \<in> set (queue_of k w) \<longleftrightarrow> int t < tmax_tskid k \<and> TSTAT_WAIT_WOBJ (tstat (task k t)) \<and> p_wobjcb (p_winfo (task k t)) = Some w)"
proof -
  have c: "consistent k" by (rule settledD [OF goodD(1) [OF reachable_good [OF assms]]])
  have t: "task_ok k t" "prio_ok k t" using consistentD(3,4) [OF c] by blast+
  have q: "queues_at (loc k) (ts k)" by (rule coreD(1) [OF consistentD(1) [OF c]])
  have e: "\<not> exists_task k t \<Longrightarrow> \<not> TSTAT_WAIT_WOBJ (tstat (task k t))" using t(1) by (auto simp: task_ok_def tstat_defs)
  have r: "TSTAT_WAIT_WOBJ (tstat (task k t)) \<Longrightarrow> \<not> TSTAT_RUNNABLE (tstat (task k t))"
    using valid_tstat_cases(1,3) t(1) valid_tstat_cases(2) by (auto simp: task_ok_def)
  have m: "t \<in> set (queue_of k w) \<longleftrightarrow> loc k t = Some (WaitQ w)" using q by (simp add: queues_at_def)
  have l: "loc k t = Some (WaitQ w) \<longleftrightarrow>
      int t < tmax_tskid k \<and> TSTAT_WAIT_WOBJ (tstat (task k t)) \<and> p_wobjcb (p_winfo (task k t)) = Some w"
    using e r by (auto simp: loc_def exists_task_def)
  show ?thesis unfolding m l using t q valid_tstat_cases(3) by (auto simp: task_ok_def prio_ok_def wait_ok_def queues_at_def)
qed

lemma task_states_valid_witness: "valid_tstat (tstat (task (irq_enter (started (\<lambda>_. 0))) 1))"
  using task_states_valid [OF interrupted_reachable] by blast

text \<open>C5: the priority ceiling protocol. In every reachable state a task has the highest of its base priority and the
  ceilings of the mutexes it has locked, the list it keeps of them is exactly what it has locked, without repetition,
  and tasks wait only for mutexes that are locked.\<close>

theorem ceiling_protocol_holds:
  assumes "reachable cf uh torder inirtns k0 k"
  shows "(exists_task k t \<longrightarrow> priority (task k t) = protocol_priority k t) \<and>
    (\<exists>xs. holds k t xs) \<and> (m \<in> owned k t \<longrightarrow> tstat (task k t) \<noteq> TS_DORMANT) \<and>
    (queue_of k (MtxW m) \<noteq> [] \<longrightarrow> mtx_exists k m \<and> p_loctsk (mtxcb k m) \<noteq> None)"
  using mtx_okD [OF goodD(7) [OF reachable_good [OF assms]]] by auto

lemma ceiling_protocol_holds_witness:
  "priority (task (started (\<lambda>_. 0)) 0) = protocol_priority (started (\<lambda>_. 0)) 0"
  using ceiling_protocol_holds [OF started_reachable] started_facts(3) by blast

text \<open>C6: the timer interrupt. When \<open>signal_time\<close> returns, no registered time event is due any more, whatever the handlers
  it has called have done: the time of every one is after the current time. This is said of all events, not only of the one the
  loop looks at, and holds as long as no event was ever left more than 200 s overdue, which is where the code's comparison of times
  ends (\<open>window_left\<close> records it). In any case the event at the top is not due, the CPU is unlocked again and the kernel is in order.\<close>

theorem timer_interrupt_serves_all:
  assumes "reachable cf uh torder inirtns k0 k" "sense_context k" "signal_time uh k = Some k'"
  shows "(\<not> window_left (tm k') \<longrightarrow> (\<forall>r\<in>active k'. EVTTIM_LT (tm k') (current_evttim (tm k')) (evttim (tmevtb_tab (tm k') r)))) \<and>
    \<not> event_due k' \<and> \<not> sense_lock k' \<and> \<not> in_signal_time (tm k') \<and> good k'"
proof -
  have "app_handlers cf uh" using assms(1) by (simp add: reachable_def)
  note g = signal_time_good [OF app_handlers_good [OF this] assms(3) reachable_good [OF assms(1)] assms(2)]
  then have "good k'" "\<not> event_due k'" by simp_all
  then show ?thesis using g none_due by blast
qed

text \<open>C7: the timer interrupt ends. While neither cyclic nor alarm notifications operate, its loops come to their end:
  every turn removes a timeout and registers none.\<close>

theorem timer_interrupt_ends:
  assumes "reachable cf uh torder inirtns k0 k" "sense_context k" "tasks_only k"
  shows "\<exists>k'. signal_time uh k = Some k'"
proof -
  have "app_handlers cf uh" using assms(1) by (simp add: reachable_def)
  from signal_time_ends [OF app_handlers_good [OF this] reachable_good [OF assms(1)] assms(2,3)] show ?thesis .
qed

lemma interrupted_facts: "sense_context (irq_enter (started hrt))" "tasks_only (irq_enter (started hrt))"
proof -
  have "cyc_on (irq_enter (started hrt)) = cyc_on (started hrt)" "alm_on (irq_enter (started hrt)) = alm_on (started hrt)"
    by (simp_all add: irq_enter_def cyc_on_def alm_on_def fun_eq_iff)
  then show "tasks_only (irq_enter (started hrt))" by (simp add: tasks_only_def cyc_on_def alm_on_def started_facts)
qed (simp add: irq_enter_def sense_context_def)

lemma interrupted_serves:
  "\<exists>k'. signal_time no_handlers (irq_enter (started hrt)) = Some k' \<and> \<not> window_left (tm k')"
proof -
  let ?k = "map_tm update_current_evttim (set_in_signal True (lock_cpu (irq_enter (started hrt))))"
  have p: "p_last (tm ?k) = 0" "\<not> window_left (tm ?k)"
    using started_timer [of hrt] by (simp_all add: irq_enter_def lock_cpu_def set_in_signal_def map_tm_def update_window passes_event_def)
  then have "\<not> event_due ?k" by (simp add: event_due_def)
  then have "expire_loop no_handlers False ?k = Some (False, ?k)" by (simp add: expire_loop.simps [of _ _ ?k])
  then have "signal_loop no_handlers (set_in_signal True (lock_cpu (irq_enter (started hrt)))) = Some ?k" by (simp add: signal_loop.simps)
  then show ?thesis using p by (simp add: signal_time_def) (simp add: unlock_cpu_def set_in_signal_def map_tm_def)
qed

lemma timer_interrupt_serves_all_witness:
  "\<exists>k'. signal_time no_handlers (irq_enter (started (\<lambda>_. 0))) = Some k' \<and> \<not> event_due k' \<and>
    (\<forall>r\<in>active k'. EVTTIM_LT (tm k') (current_evttim (tm k')) (evttim (tmevtb_tab (tm k') r)))"
proof -
  obtain k' where k': "signal_time no_handlers (irq_enter (started (\<lambda>_. 0))) = Some k'" "\<not> window_left (tm k')"
    using interrupted_serves [of "\<lambda>_. 0"] by blast
  with timer_interrupt_serves_all [OF interrupted_reachable interrupted_facts(1) k'(1)] show ?thesis by blast
qed

lemma timer_interrupt_ends_witness: "\<exists>k'. signal_time no_handlers (irq_enter (started (\<lambda>_. 0))) = Some k'"
  by (rule timer_interrupt_ends [OF interrupted_reachable interrupted_facts])

text \<open>C8: service calls that fail. Every service call but \<open>adj_tim\<close> that returns an error code leaves the kernel exactly as it
  found it, but for the memory pool, which may have been asked for an area in vain. (\<open>adj_tim\<close> reads the
  clock before it checks its argument.)\<close>

theorem failed_calls_change_nothing:
  assumes "\<forall>a. c \<noteq> TimC (Adj_tim a)" "fst (service cf c k) = Ret e" "e \<noteq> E_OK"
  shows "unchanged k (snd (service cf c k))"
  using assms by (rule service_error)

definition demo_config :: config where
  "demo_config = \<lparr>thumb_code = False, mb_aligned = (\<lambda>a. a AND 3 = 0), mpf_aligned = (\<lambda>a. a AND 3 = 0), min_intpri = - 31\<rparr>"

lemma failed_calls_change_nothing_witness:
  "unchanged (demo (\<lambda>_. 0) (SemW 0)) (snd (service demo_config (SemC (Sig_sem 7)) (demo (\<lambda>_. 0) (SemW 0))))"
proof -
  have "fst (service demo_config (SemC (Sig_sem 7)) (demo (\<lambda>_. 0) (SemW 0))) = Ret E_ID"
    by (simp add: sig_sem_def VALID_ID_def) (simp add: demo_def)
  from failed_calls_change_nothing [OF _ this] show ?thesis by simp
qed

section \<open>Semaphores and event flags\<close>

text \<open>C9: the invariant of semaphores. No semaphore ever holds more than its maximum, a task waits
  for a semaphore only while it is empty, and an unused control block has no waiting task; every
  service call on semaphores keeps this and leaves the scheduler in order: after a call that cannot wait the state is settled again
  (the running task is the one to schedule, the lock is free, tasks, queues and timeouts agree), and also after one that can, when it is
  called by a task or a handler.\<close>

theorem semaphore_invariant:
  assumes "settled k" "sem_inv k"
  shows "(\<forall>k'\<in>{snd (acre_sem atr icnt mx k), snd (del_sem semid k), snd (sig_sem semid k), snd (pol_sem semid k), snd (ini_sem semid k),
      snd (fst (ref_sem semid k))}. sem_inv k' \<and> settled k') \<and>
    (\<forall>k'\<in>{snd (wai_sem semid k), snd (twai_sem semid tmout k)}. sem_inv k' \<and> (called k \<longrightarrow> settled k'))"
proof -
  have "settled (snd (wai_sem semid k)) \<and> settled (snd (twai_sem semid tmout k))" if "called k"
    using that
  proof (cases rule: called_cases)
    case 1 then show ?thesis using assms(1) by (simp add: wai_sem_def twai_sem_def dispatch_error_def)
  next
    case 2 then show ?thesis by (simp add: semaphore_settled)
  qed
  then show ?thesis using assms by (simp add: acre_sem_inv ini_del_sem_inv sig_sem_inv wai_sem_inv semaphore_settled)
qed

lemma demo_sem_inv: "sem_inv (demo hrt (SemW 0))"
  by (auto simp: sem_inv_def sem_exists_def) (auto simp: demo_defs)

lemma semaphore_invariant_witness:
  "sem_inv (snd (sig_sem 1 (demo (\<lambda>_. 0) (SemW 0)))) \<and> settled (snd (sig_sem 1 (demo (\<lambda>_. 0) (SemW 0)))) \<and>
    sem_inv (snd (wai_sem 1 (demo (\<lambda>_. 0) (SemW 0)))) \<and> settled (snd (wai_sem 1 (demo (\<lambda>_. 0) (SemW 0))))"
proof -
  have "called (demo (\<lambda>_. 0) (SemW 0))" using demo_in_task by (simp add: called_def in_task_def)
  then show ?thesis using semaphore_invariant [OF demo_settled demo_sem_inv, where semid = 1] by blast
qed

text \<open>C10: a signal hands the resource over. When tasks wait, \<open>sig_sem\<close> releases the first one with
  \<open>E_OK\<close>, the count stays as it is, and no other task changes.\<close>

theorem sig_sem_hands_over:
  assumes s: "settled k" "\<not> sense_lock k" "VALID_ID (tmax_semid k) semid" "sem_exists k i"
    and i: "i = INDEX semid" and q: "queue_of k (SemW i) = t # us"
  shows "fst (sig_sem semid k) = Ret E_OK \<and> queue_of (snd (sig_sem semid k)) (SemW i) = us \<and>
    semcb (snd (sig_sem semid k)) = semcb k \<and> woken (\<lambda>i. i) t k (snd (sig_sem semid k))"
proof -
  let ?k = "wait_complete t (map_ts (queue_delete_task t) (lock_cpu k))"
  have c: "consistent (lock_cpu k)" using lock_entry [OF s(1)] midwayD by blast
  have q1: "queue_of (lock_cpu k) (SemW i) = t # us" using q by simp
  have eq: "sig_sem semid k = leave E_OK (dispatch_or_request ?k)"
    using s i q1 take_first(1) [OF c q1] by (simp add: sig_sem_def Let_def sem_exists_lock)
  have "same_tables k (dispatch_or_request ?k)"
    by (intro same_tables_trans [OF _ switch_tables(1)] same_tables_complete) auto
  then have "semcb (dispatch_or_request ?k) = semcb k" by (rule same_tables_sel)
  moreover have "queue_of ?k (SemW i) = us" using take_first(2) [OF c q1] by simp
  ultimately show ?thesis
    using woken_complete(2) [of t k] by (simp add: eq leave_def woken_def wait_complete_task unlock_cpu_def)
qed

lemma sig_sem_hands_over_witness:
  "fst (sig_sem 1 (demo (\<lambda>_. 0) (SemW 0))) = Ret E_OK \<and> queue_of (snd (sig_sem 1 (demo (\<lambda>_. 0) (SemW 0)))) (SemW 0) = []"
proof -
  have "VALID_ID (tmax_semid (demo (\<lambda>_. 0) (SemW 0))) 1" "sem_exists (demo (\<lambda>_. 0) (SemW 0)) 0"
    by (simp_all add: demo_defs VALID_ID_def sem_exists_def)
  from sig_sem_hands_over [OF demo_settled _ this, of 1 "[]"] show ?thesis by (simp add: INDEX_def)
qed

text \<open>C11: \<open>set_flg\<close> serves the tasks it should. With the new pattern, the tasks whose condition holds
  leave the queue, in its order, each with the pattern it met and \<open>E_OK\<close>; on a self-clearing flag
  only the first of them does, and the pattern is cleared; no other task changes.\<close>

theorem set_flg_serves:
  assumes s: "settled k" and "VALID_ID (tmax_flgid k) flgid" "flg_exists k i" and i: "i = INDEX flgid"
  shows "fst (set_flg flgid setptn k) = Ret E_OK \<and>
    (let k1 = set_flgptn i (flgptn (flgcb k i) OR setptn) k; clr = flgatr (flginib k i) AND TA_CLR \<noteq> 0
     in flg_result i (flg_served clr (flg_waits_for k1 (flgptn (flgcb k1 i))) (queue_of k (FlgW i))) k1
          (snd (set_flg flgid setptn k)))"
proof -
  define k0 where "k0 = (if \<not> sense_lock k then lock_cpu k else k)"
  have k0: "midway k0" using s lock_entry [OF s] by (simp add: k0_def settled_midway)
  have k0: "midway k0" "ts k0 = ts k" "flgcb k0 = flgcb k" "flginib k0 = flginib k"
    using k0 by (simp_all add: k0_def lock_cpu_def)
  define k1 where "k1 = set_flgptn i (flgptn (flgcb k i) OR setptn) k0"
  define k2 where "k2 = set_flg_loop i (queue_of k0 (FlgW i)) k1"
  let ?clr = "flgatr (flginib k i) AND TA_CLR \<noteq> 0"
  let ?served = "flg_served ?clr (flg_waits_for k1 (flgptn (flgcb k1 i))) (queue_of k (FlgW i))"
  have m1: "midway k1" "ts k1 = ts k" using k0 by (simp_all add: k1_def)
  have d: "distinct (queue_of k1 (FlgW i))" by (rule core_distinct [OF consistentD(1) [OF midwayD [OF m1(1)]]])
  have r: "flg_result i ?served k1 k2"
    using set_flg_loop_spec [OF m1(1), of "queue_of k (FlgW i)" i] d k0 by (simp add: k2_def k1_def)
  have eq: "set_flg flgid setptn k = (Ret E_OK, if \<not> sense_lock k then unlock_cpu (dispatch_or_request k2) else dispatch_or_request k2)"
    using assms k0 by (simp add: set_flg_def Let_def k0_def [symmetric] k1_def k2_def flg_exists_def)
  let ?j = "set_flgptn i (flgptn (flgcb k i) OR setptn) k" and ?k = "snd (set_flg flgid setptn k)"
  have f: "flgcb (dispatch_or_request k2) = flgcb k2" by (rule same_tables_sel [OF switch_tables(1)])
  have "ts k1 = ts ?j" "flgcb k1 = flgcb ?j" "flginib k1 = flginib ?j" using k0 by (simp_all add: k1_def set_flgptn_def)
  moreover have "flgcb ?k = flgcb k2" "tcb (ts ?k) = tcb (ts k2)" "queues (ts ?k) = queues (ts k2)"
    by (simp_all add: eq f) (simp_all add: unlock_cpu_def f)
  moreover define S where "S = ?served"
  ultimately have "flg_result i S ?j ?k" "flg_waits_for k1 = flg_waits_for ?j" "flgcb k1 = flgcb ?j"
    using r unfolding S_def [symmetric] by (simp_all add: flg_result_def flg_waits_for_def fun_eq_iff)
  then show ?thesis by (simp add: eq Let_def S_def)
qed

lemma set_flg_serves_witness:
  "task (snd (set_flg 1 1 (demo (\<lambda>_. 0) (FlgW 0)))) 1 \<noteq> task (demo (\<lambda>_. 0) (FlgW 0)) 1 \<and>
   flgptn (flgcb (snd (set_flg 1 1 (demo (\<lambda>_. 0) (FlgW 0)))) 0) = 0"
proof -
  let ?k = "demo (\<lambda>_. 0) (FlgW 0)"
  have f: "flgcb ?k = (\<lambda>i. \<lparr>flgptn = 0\<rparr>)" "flginib ?k = (\<lambda>i. \<lparr>flgatr = (if i = 0 then TA_CLR else TA_NOEXS), iflgptn = 0\<rparr>)"
    by (simp_all add: demo_defs)
  have "VALID_ID (tmax_flgid ?k) 1" "flg_exists ?k 0" by (simp_all add: demo_defs VALID_ID_def flg_exists_def)
  from set_flg_serves [OF demo_settled this, of 1] show ?thesis
    by (simp add: INDEX_def Let_def flg_result_def flg_served_def flg_waits_for_def flg_cond_def f demo_tcb_def fresh_winfo_def)
      (auto simp: tstat_defs)
qed

section \<open>Data queues and memory pools\<close>

text \<open>C12: the invariant of data queues. The ring buffer is well formed, senders wait only while it is
  full, receivers only while it is empty and nobody sends, and unused control blocks have no
  waiting task; every service call on data queues keeps this.\<close>

theorem dataqueue_invariant:
  assumes "settled k" "dtq_inv k"
  shows "dtq_inv (snd (acre_dtq mb_align atr n mb k)) \<and> dtq_inv (snd (del_dtq dtqid k)) \<and>
    dtq_inv (snd (snd_dtq dtqid data k)) \<and> dtq_inv (snd (psnd_dtq dtqid data k)) \<and>
    dtq_inv (snd (tsnd_dtq dtqid data tmout k)) \<and> dtq_inv (snd (fsnd_dtq dtqid data k)) \<and>
    dtq_inv (snd (fst (rcv_dtq dtqid k))) \<and> dtq_inv (snd (fst (prcv_dtq dtqid k))) \<and>
    dtq_inv (snd (fst (trcv_dtq dtqid tmout k))) \<and> dtq_inv (snd (ini_dtq dtqid k)) \<and>
    dtq_inv (snd (fst (ref_dtq dtqid k)))"
  using assms by (simp add: acre_dtq_inv ini_del_dtq_inv dataqueue_inv)

lemma demo_dtq_inv: "dtq_inv (demo hrt (RDtqW 0))"
proof -
  have "dtq.box.ok 0 (demo hrt (RDtqW 0)) []"
    by (simp add: dtq.box.ok_def) (simp add: demo_defs ring_repr_def)
  then show ?thesis by (auto simp: dtq.inv_def dtq_exists_def) (auto simp: demo_defs split: if_splits)
qed

lemma dataqueue_invariant_witness: "dtq_inv (snd (psnd_dtq 1 5 (demo (\<lambda>_. 0) (RDtqW 0))))"
  using dataqueue_invariant [OF demo_settled demo_dtq_inv] by blast

text \<open>C13: a data queue is a FIFO. What is to be received is, in order, the content of the ring buffer
  followed by the data of the waiting senders; receiving takes exactly the first datum away, also
  when a sender moves up into the buffer, and fails only when there is none.\<close>

theorem data_queue_is_fifo:
  assumes "midway k" "dtq.box.ok i k L" "receive_data i k = (r, k')"
  shows "(dtq_stream k i L = [] \<longrightarrow> r = None \<and> k' = k) \<and>
    (\<forall>d S. dtq_stream k i L = d # S \<longrightarrow> r = Some d \<and> (\<exists>L'. dtq.box.ok i k' L' \<and> dtq_stream k' i L' = S))"
  using receive_data_stream [OF assms] by blast

lemma data_queue_is_fifo_witness:
  "\<exists>r k'. receive_data 0 (demo (\<lambda>_. 0) (RDtqW 0)) = (r, k') \<and> r = None"
proof -
  let ?k = "demo (\<lambda>_. 0) (RDtqW 0)"
  have ok: "dtq.box.ok 0 ?k []" by (simp add: dtq.box.ok_def) (simp add: demo_defs ring_repr_def)
  obtain r k' where r: "receive_data 0 ?k = (r, k')" by (cases "receive_data 0 ?k")
  have "dtq_stream ?k 0 [] = []" by (simp add: dtq_stream_def)
  then show ?thesis using data_queue_is_fifo [OF settled_midway [OF demo_settled] ok r] r by simp
qed

text \<open>C14: the system log keeps the newest records. After any number of writes to a log of \<open>sz\<close> records that held \<open>L\<close> it
  holds the last \<open>sz\<close> of \<open>L\<close> and the records of a priority that is logged, each with the time of its write, the others are counted
  as lost, and while that 32-bit count is not negative as an \<open>int\<close> (less than \<open>2 ^ 31\<close>) \<open>eSysLog_flush\<close> puts out the count and the
  records in order.\<close>

theorem system_log_keeps_newest:
  assumes "log_at sz s L"
  shows "let A = L @ records s ws; n = length A - unat sz; s' = write_all str sz ws s
    in log_at sz s' (drop n A) \<and> lg_lost s' = lg_lost s + of_nat n \<and>
      (0 \<le> sint (lg_lost s') \<longrightarrow> lg_low (snd (eSysLog_flush str sz s')) = lg_low s' @
         (if drop n A \<noteq> [] \<and> lg_lost s' \<noteq> 0 then syslog_lostmsg str (lg_lost s') else []) @ concat (map (syslog_print str) (drop n A)))"
proof -
  define A where "A = L @ records s ws"
  define s' where "s' = write_all str sz ws s"
  have w: "log_at sz s' (drop (length A - unat sz) A)" "lg_lost s' = lg_lost s + of_nat (length A - unat sz)"
    using write_all_keeps_newest [OF assms, of str ws] by (simp_all add: A_def s'_def)
  have "lg_low (snd (eSysLog_flush str sz s')) = lg_low s' @ fst (flush_loop str sz [] s')" if "0 \<le> sint (lg_lost s')"
    using flush_loop_prints [OF w(1) that, of str "[]"] by (auto simp: eSysLog_flush_def)
  then show ?thesis using w flush_loop_prints [OF w(1), of str "[]"] unfolding Let_def A_def [symmetric] s'_def [symmetric] by auto
qed

lemma system_log_keeps_newest_witness:
  "let A = [] @ records (demo_log 2) [(7, 3, demo_rec), (8, 3, demo_rec), (9, 3, demo_rec)]; n = length A - unat (2 :: uint);
      s' = write_all (\<lambda>_. []) 2 [(7, 3, demo_rec), (8, 3, demo_rec), (9, 3, demo_rec)] (demo_log 2)
    in log_at 2 s' (drop n A) \<and> lg_lost s' = lg_lost (demo_log 2) + of_nat n \<and>
      (0 \<le> sint (lg_lost s') \<longrightarrow> lg_low (snd (eSysLog_flush (\<lambda>_. []) 2 s')) = lg_low s' @
         (if drop n A \<noteq> [] \<and> lg_lost s' \<noteq> 0 then syslog_lostmsg (\<lambda>_. []) (lg_lost s') else []) @
         concat (map (syslog_print (\<lambda>_. [])) (drop n A)))"
  by (rule system_log_keeps_newest [OF demo_log_at]) simp

text \<open>C15: a message comes out as it was meant. What \<open>tt_syslog\<close> stores of a format with at most five arguments in an empty log
  is put out by \<open>eSysLog_flush\<close> as \<open>syslog_printf\<close> formats the arguments of the caller, with a line feed.\<close>

theorem logged_message_prints_as_given:
  assumes "log_at sz s []" "lg_lost s = 0" "logged s prio" "arg_count (str format) < TNUM_LOGPAR"
  shows "let s' = snd (snd (eSysLog_write str sz now prio (tt_syslog str format ap buf) s))
    in lg_low (snd (eSysLog_flush str sz s')) = lg_low s' @ syslog_printf str (str format) (\<lambda>k. ucast (ap k)) 0 @ [LF]"
proof -
  define r where "r = tt_syslog str format ap buf"
  obtain e r' s' where w: "eSysLog_write str sz now prio r s = (e, r', s')" by (metis prod_cases3)
  note wl = write_log_at [OF assms(1) w]
  have "0 < unat sz" using assms(1) by (simp add: log_at_def word_less_nat_alt)
  then have l: "log_at sz s' [r']" "lg_lost s' = 0" using wl(2) assms(2,3) by simp_all
  have "syslog_print str r' = syslog_print str r" using wl(5) by (simp add: syslog_print_def)
  then have "syslog_print str r' = syslog_printf str (str format) (\<lambda>k. ucast (ap k)) 0 @ [LF]" using log_then_print [of str format ap buf] assms(4) by (simp add: r_def)
  then show ?thesis using flush_loop_prints [OF l(1), of str "[]"] l(2) w by (auto simp: eSysLog_flush_def r_def)
qed

lemma logged_message_prints_as_given_witness:
  "let s' = snd (snd (eSysLog_write (\<lambda>_. ''n=%d'') 2 7 3 (tt_syslog (\<lambda>_. ''n=%d'') 0 (\<lambda>_. 42) demo_rec) (demo_log 2)))
    in lg_low (snd (eSysLog_flush (\<lambda>_. ''n=%d'') 2 s')) = lg_low s' @ syslog_printf (\<lambda>_. ''n=%d'') ''n=%d'' (\<lambda>k. 42) 0 @ [LF]"
proof -
  have "arg_count ''n=%d'' < TNUM_LOGPAR" by code_simp
  moreover have "lg_lost (demo_log 2) = 0" "logged (demo_log 2) 3" by (simp_all add: demo_log_def logged_def LOG_MASK_def)
  ultimately show ?thesis
    using logged_message_prints_as_given [OF demo_log_at, of 2 3 "\<lambda>_. ''n=%d''" 0 7 "\<lambda>_. 42" demo_rec] by simp
qed

lemma fold_place_pri: "fold place_pri ds [] = sort_key snd ds"
proof -
  have ins: "filter (\<lambda>x. snd x = c) (place_pri d L) = filter (\<lambda>x. snd x = c) L @ (if snd d = c then [d] else [])"
    if "sorted (map snd L)" for d L and c :: int
    using that
  proof (induction L)
    case (Cons e L)
    show ?case
    proof (cases "snd d < snd e")
      case True
      then have "\<forall>x \<in> set (e # L). snd d < snd x" using Cons.prems by auto
      then have "snd d = c \<Longrightarrow> filter (\<lambda>x. snd x = c) (e # L) = []" by (intro filter_False) fastforce
      then show ?thesis using True by (simp add: place_pri_def)
    next
      case False
      then show ?thesis using Cons by (simp add: place_pri_def)
    qed
  qed (simp add: place_pri_def)
  have srt: "sorted (map snd (fold place_pri ds L))" if "sorted (map snd L)" for ds L
    using that by (induction ds arbitrary: L) (simp_all add: place_pri_def sorted_insert_before)
  have f: "filter (\<lambda>x. snd x = c) (fold place_pri ds L) = filter (\<lambda>x. snd x = c) L @ filter (\<lambda>x. snd x = c) ds"
    if "sorted (map snd L)" for ds L and c :: int
    using that
  proof (induction ds arbitrary: L)
    case (Cons d ds)
    have "sorted (map snd (place_pri d L))" using Cons.prems by (simp add: place_pri_def sorted_insert_before)
    then show ?case using Cons ins [of L c d] by simp
  qed simp
  have m: "mset (fold place_pri ds L) = mset ds + mset L" for L
    by (induction ds arbitrary: L) (simp_all add: place_pri_def mset_insert_before)
  show ?thesis
    by (rule properties_for_sort_key [symmetric]) (use m [of "[]"] f [of "[]" _ ds] srt [of "[]"] in \<open>simp_all add: eq_commute\<close>)
qed

text \<open>C16: a priority data queue sorts. Data put into an empty chain of blocks that has room for them
  come out stably sorted by priority: the chain equals the library's \<open>sort_key\<close>.\<close>

theorem priority_queue_sorts:
  assumes "pdq_repr cnt b []" "length ds \<le> unat cnt"
  shows "\<exists>b'. chain.get_all (length ds) (chain.put_all ds b) = (sort_key snd ds, b') \<and> pdq_repr cnt b' []"
  using chain.put_get_all [OF assms] by (simp add: fold_place_pri)

lemma priority_queue_sorts_witness:
  "\<exists>b'. chain.get_all 3 (chain.put_all [(10, 2), (11, 1), (12, 2)] 
      (clear_pdqcb \<lparr>pdq_count = 1, pdq_head = None, pdq_unused = 2, pdq_freelist = None, pdq_mb = (\<lambda>_. \<lparr>pdq_next = None, pdq_data = 0, pdq_datapri = 1\<rparr>)\<rparr>)) =
     ([(11, 1), (10, 2), (12, 2)], b') \<and>
    pdq_repr 3 b' []"
proof -
  let ?ds = "[(10, 2), (11, 1), (12, 2)] :: (intptr_t \<times> int) list"
  have "length ?ds = 3" "length ?ds \<le> unat (3 :: uint)" by simp_all
  moreover have "sort_key snd ?ds = [(11, 1), (10, 2), (12, 2)]" by simp
  ultimately show ?thesis using priority_queue_sorts [OF pdq_repr_clear, of ?ds 3] by metis
qed

text \<open>C17: the invariant of memory pools. The free list of a pool holds every free block once, a block
  is marked as allocated exactly if it has been given out, the count of free blocks is right, and
  tasks wait only while there is none; every service call on memory pools keeps this, the creation
  for pools of less than \<open>INDEX_ALLOC\<close> blocks.\<close>

theorem mempfix_invariant:
  assumes "settled k" "mpf_inv k" "cnt < INDEX_ALLOC"
  shows "mpf_inv (snd (acre_mpf mpf_align mb_align atr cnt sz mp mb k)) \<and> mpf_inv (snd (del_mpf mpfid k)) \<and>
    mpf_inv (snd (fst (get_mpf mpfid k))) \<and> mpf_inv (snd (fst (pget_mpf mpfid k))) \<and>
    mpf_inv (snd (fst (tget_mpf mpfid tmout k))) \<and> mpf_inv (snd (rel_mpf mpfid blk k)) \<and>
    mpf_inv (snd (ini_mpf mpfid k)) \<and> mpf_inv (snd (fst (ref_mpf mpfid k)))"
  using assms by (simp add: acre_mpf_inv ini_del_mpf_inv mempfix_inv rel_mpf_inv)

lemma demo_mpf_inv: "mpf_inv (demo hrt (SemW 0))"
proof -
  have "mpf_ok (mpfinib (demo hrt (SemW 0)) 0) (mpfcb (demo hrt (SemW 0)) 0) []" by (simp add: demo_defs mpf_ok_def)
  then show ?thesis by (auto simp: mpf_inv_def mpf_good_def mpf_exists_def) (auto simp: demo_defs split: if_splits)
qed

lemma mempfix_invariant_witness: "mpf_inv (snd (fst (get_mpf 1 (demo (\<lambda>_. 0) (SemW 0)))))"
proof -
  have "(2 :: uint) < INDEX_ALLOC" by simp
  from mempfix_invariant [OF demo_settled demo_mpf_inv this] show ?thesis by blast
qed

text \<open>C18: a block is never given out twice. \<open>get_mpf_block\<close> returns the address of a block of the pool
  that was not allocated, and marks it.\<close>

theorem block_given_out_once:
  assumes "mpf_ok ini b fs" "fblkcnt b > 0" "get_mpf_block ini b = (blk, b')"
  shows "\<exists>x fs'. blk = mpf ini + blksz ini * x \<and> x \<notin> allocated b \<and> x < blkcnt ini \<and>
    allocated b' = insert x (allocated b) \<and> mpf_ok ini b' fs' \<and> fblkcnt b' = fblkcnt b - 1"
  using assms by (rule get_mpf_block_ok)

definition demo_pool :: mpfinib where
  "demo_pool = \<lparr>mpfatr = 0, blkcnt = 2, blksz = 16, mpf = 0x1000, p_mpfmb = 0x2000\<rparr>"

definition demo_mpfcb :: mpfcb where
  "demo_mpfcb = \<lparr>fblkcnt = 1, mpf_unused = 1, mpf_freelist = INDEX_NULL, mpfmb = (\<lambda>_. INDEX_ALLOC)\<rparr>"

lemma demo_pool_ok: "mpf_ok demo_pool demo_mpfcb []" "fits demo_pool" "allocated demo_mpfcb = {0}"
proof -
  show "mpf_ok demo_pool demo_mpfcb []" by (simp add: mpf_ok_def demo_pool_def demo_mpfcb_def)
  show "fits demo_pool" by (simp add: fits_def demo_pool_def)
  have "x < 1 \<longleftrightarrow> x = 0" for x :: uint by unat_arith
  then show "allocated demo_mpfcb = {0}" by (auto simp: allocated_def demo_mpfcb_def)
qed

lemma block_given_out_once_witness:
  "\<exists>x. fst (get_mpf_block demo_pool demo_mpfcb) = mpf demo_pool + blksz demo_pool * x \<and> x \<noteq> 0"
proof -
  have "fblkcnt demo_mpfcb > 0" by (simp add: demo_mpfcb_def)
  from block_given_out_once [OF demo_pool_ok(1) this prod.collapse [symmetric]] show ?thesis
    unfolding demo_pool_ok(3) by blast
qed

section \<open>Mutexes and tasks\<close>

lemma demo_mtx_inv:
  assumes "\<And>m. w \<noteq> MtxW m" shows "mtx_inv (demo hrt w)"
proof -
  have o: "owned (demo hrt w) t = {}" for t by (simp add: owned_def) (simp add: demo_defs)
  have "mtx_tables (demo hrt w)"
    by (auto simp: mtx_tables_def mtx_exists_def MTX_CEILING_def MTXPROTO_def) (auto simp: demo_defs split: if_splits)
  moreover have "holds (demo hrt w) t []" for t by (simp add: holds_def o demo_tcb_def)
  ultimately show ?thesis
    using assms by (auto simp: mtx_ok_def o protocol_priority_def demo_tcb_def)
qed

text \<open>C19: the invariant of mutexes. The mutexes a task holds form the list that starts at its
  \<open>p_lastmtx\<close>; tasks wait only for a locked mutex; no ceiling is below the base priority of a task that
  holds or wants the mutex; and the current priority of every task is the highest of its base
  priority and the ceilings of the mutexes it holds, the priority ceiling protocol. Every service
  call on mutexes keeps this and leaves the scheduler in order.\<close>

theorem mutex_invariant:
  assumes "mtx_inv k" "in_task k"
  shows "\<forall>k' \<in> {snd (acre_mtx atr cpri k), snd (del_mtx mtxid k), snd (loc_mtx mtxid k), snd (ploc_mtx mtxid k),
      snd (tloc_mtx mtxid tmout k), snd (unl_mtx mtxid k), snd (ini_mtx mtxid k), snd (fst (ref_mtx mtxid k))}.
    mtx_inv k' \<and> settled k'"
  using assms in_task_settled [OF assms(2)]
  by (simp add: acre_mtx_inv del_mtx_inv loc_mtx_inv unl_mtx_inv ini_mtx_inv ref_mtx_inv)

lemma mutex_invariant_witness:
  "mtx_inv (snd (loc_mtx 1 (demo (\<lambda>_. 0) (SemW 0)))) \<and> settled (snd (loc_mtx 1 (demo (\<lambda>_. 0) (SemW 0))))"
proof -
  have "mtx_inv (demo (\<lambda>_. 0) (SemW 0))" by (rule demo_mtx_inv) simp
  from mutex_invariant [OF this demo_in_task, where mtxid = 1] show ?thesis by simp
qed

text \<open>C20: the service calls on tasks. Every one of them, creation and deletion included, keeps the
  invariant of the mutexes and leaves the scheduler in order; so the running task is always the
  first of the highest priority that is ready, and every task has the priority the ceiling protocol gives it.\<close>

theorem task_calls_in_order:
  assumes ok: "mtx_inv k" and i: "in_task k"
  shows "\<forall>k' \<in> {snd (acre_tsk thumb atr exi ent ipri sz stack k), snd (del_tsk tskid k), snd (act_tsk tskid k),
      snd (can_act tskid k), snd (fst (get_tst tskid k)), snd (chg_pri tskid tskpri k), snd (fst (get_pri tskid k)),
      snd (fst (get_inf k)), snd (ext_tsk k), snd (ras_ter tskid k), snd (dis_ter k), snd (ena_ter k), snd (ter_tsk tskid k),
      snd (slp_tsk k), snd (tslp_tsk tmout k), snd (wup_tsk tskid k), snd (can_wup tskid k), snd (rel_wai tskid k),
      snd (sus_tsk tskid k), snd (rsm_tsk tskid k), snd (dly_tsk dlytim k), snd (fst (ref_tsk tskid k))}.
    mtx_inv k' \<and> settled k'"
  using in_task_settled [OF i] in_task_called [OF i]
    acre_tsk_inv [OF ok] del_tsk_inv [OF ok] chg_pri_inv [OF ok] ext_tsk_inv [OF ok i] ras_ter_inv [OF ok] ena_ter_inv [OF ok i]
    ter_tsk_inv [OF ok] sus_tsk_inv [OF ok] rsm_tsk_inv [OF ok] ref_tsk_inv [OF ok]
  by (simp add: task_calls_inv [OF ok] task_calls_settled i)

lemma task_calls_in_order_witness:
  "settled (snd (ext_tsk (demo (\<lambda>_. 0) (SemW 0)))) \<and> settled (snd (chg_pri 2 1 (demo (\<lambda>_. 0) (SemW 0))))"
proof -
  have "mtx_inv (demo (\<lambda>_. 0) (SemW 0))" by (rule demo_mtx_inv) simp
  from task_calls_in_order [OF this demo_in_task, where tskid = 2 and tskpri = 1] show ?thesis by simp
qed

text \<open>A kernel in which task 1 holds the mutex that task 2 waits for.\<close>

definition demo_locked :: "(nat \<Rightarrow> HRTCNT) \<Rightarrow> kernel" where
  "demo_locked hrt = set_lastmtx 0 (Some 0) ((demo hrt (MtxW 0))
     \<lparr>mtxinib := (\<lambda>i. \<lparr>mtxatr = (if i = 0 then TA_TPRI else TA_NOEXS), ceilpri = 0\<rparr>),
      mtxcb := (\<lambda>i. \<lparr>p_loctsk = Some 0, p_prevmtx = None\<rparr>)\<rparr>)"

lemma demo_locked_sel [simp]:
  "mtxcb (demo_locked hrt) = (\<lambda>i. \<lparr>p_loctsk = Some 0, p_prevmtx = None\<rparr>)"
  "mtxinib (demo_locked hrt) = (\<lambda>i. \<lparr>mtxatr = (if i = 0 then TA_TPRI else TA_NOEXS), ceilpri = 0\<rparr>)"
  "free_mtxcb (demo_locked hrt) = []" "tmax_mtxid (demo_locked hrt) = 1" "tmax_tskid (demo_locked hrt) = 2"
  "queue_of (demo_locked hrt) w = (if w = MtxW 0 then [1] else [])" "sense_lock (demo_locked hrt) = False"
  "p_lastmtx (task (demo_locked hrt) t) = (if t = 0 then Some 0 else None)"
  "bpriority (task (demo_locked hrt) t) = bpriority (demo_tcb (MtxW 0) t)" "priority (task (demo_locked hrt) t) = priority (demo_tcb (MtxW 0) t)"
  "tstat (task (demo_locked hrt) t) = tstat (demo_tcb (MtxW 0) t)"
  "tsk_atr (demo_locked hrt) t = (if t < 2 then 0 else TA_NOEXS)" "runtsk (demo_locked hrt) = 0"
  by (simp_all add: demo_locked_def set_lastmtx_def) (simp_all add: demo_defs upd_task_def upd_tcb_def map_ts_def sense_lock_def runtsk_def)

lemma demo_locked_in_task: "in_task (demo_locked hrt)"
proof -
  have s: "settled ((demo hrt (MtxW 0))\<lparr>mtxinib := a, mtxcb := b\<rparr>)" for a b by (simp add: demo_settled)
  have "settled (demo_locked hrt)"
    unfolding demo_locked_def set_lastmtx_def
    by (rule settled_upd_task [OF s upd_task_consistent [OF settledD [OF s]]])
      (simp_all add: demo_tcb_def)
  then show ?thesis by (simp add: in_task_def) (simp add: demo_locked_def set_lastmtx_def sense_context_def demo_defs upd_task_def map_ts_def upd_tcb_def)
qed

lemma demo_locked_own:
  "mtx_exists (demo_locked hrt) m = (m = 0)" "exists_task (demo_locked hrt) t = (t < 2)"
  "owned (demo_locked hrt) t = (if t = 0 then {0} else {})"
  "protocol_priority (demo_locked hrt) t = bpriority (demo_tcb (MtxW 0) t)"
  "m \<in> owned (demo_locked hrt) t \<or> t \<in> set (queue_of (demo_locked hrt) (MtxW m)) \<Longrightarrow> \<not> MTX_CEILING (demo_locked hrt) m"
proof -
  have c: "\<not> MTX_CEILING (demo_locked hrt) 0" by (simp add: MTX_CEILING_def MTXPROTO_def)
  show "mtx_exists (demo_locked hrt) m = (m = 0)" for m by (simp add: mtx_exists_def)
  then show o: "owned (demo_locked hrt) t = (if t = 0 then {0} else {})" for t by (auto simp: owned_def)
  then have "{m \<in> owned (demo_locked hrt) t. MTX_CEILING (demo_locked hrt) m} = {}" using c by auto
  then show "protocol_priority (demo_locked hrt) t = bpriority (demo_tcb (MtxW 0) t)"
    by (simp only: protocol_priority_def) simp
  show "exists_task (demo_locked hrt) t = (t < 2)" by (simp add: exists_task_def)
  show "m \<in> owned (demo_locked hrt) t \<or> t \<in> set (queue_of (demo_locked hrt) (MtxW m)) \<Longrightarrow> \<not> MTX_CEILING (demo_locked hrt) m"
    using c by (auto simp: o split: if_splits)
qed

lemma demo_locked_mtx_inv: "mtx_inv (demo_locked hrt)"
proof -
  have "mtx_tables (demo_locked hrt)"
    using demo_locked_own(5) [of 0 hrt 0] by (auto simp: mtx_tables_def demo_locked_own(1-3))
  moreover have "\<exists>xs. holds (demo_locked hrt) t xs" for t
    by (rule exI [of _ "if t = 0 then [0] else []"]) (simp add: holds_def demo_locked_own)
  ultimately show ?thesis
    using demo_locked_own(5) [of _ hrt] by (simp add: mtx_ok_def demo_locked_own(1-4) demo_tcb_def)
qed

text \<open>C21: unlocking hands the mutex over. When tasks wait, \<open>unl_mtx\<close> makes the first one in the queue the
  owner: it is the new head of that task's list of mutexes, the task leaves the queue and no
  longer waits, its wait ends with \<open>E_OK\<close>, and no task other than the two changes.\<close>

theorem unl_mtx_hands_over:
  assumes ok: "mtx_inv k" and i: "in_task k" and "\<not> sense_lock k" "VALID_ID (tmax_mtxid k) mtxid" "mtx_exists k m"
    and m: "m = INDEX mtxid" and l: "p_lastmtx (task k (runtsk k)) = Some m" and q: "queue_of k (MtxW m) = u # us"
  shows "fst (unl_mtx mtxid k) = Ret E_OK \<and> (\<exists>k'. snd (unl_mtx mtxid k) = k' \<and> p_loctsk (mtxcb k' m) = Some u \<and>
    p_lastmtx (task k' u) = Some m \<and> queue_of k' (MtxW m) = us \<and> \<not> TSTAT_WAITING (tstat (task k' u)) \<and>
    w_u (p_winfo (task k' u)) = Wercd E_OK \<and> priority (task k' u) = protocol_priority k' u \<and>
    (\<forall>v. v \<noteq> u \<longrightarrow> v \<noteq> runtsk k \<longrightarrow> task k' v = task k v))"
proof -
  let ?t = "runtsk k" and ?k = "lock_cpu k"
  define k4 where "k4 = mutex_release m (mutex_drop_priority ?t m (set_lastmtx ?t (p_prevmtx (mtxcb ?k m)) ?k))"
  have eq: "unl_mtx mtxid k = leave E_OK (dispatch_if_needed k4)"
    using assms in_task_not_ctx [OF i] by (simp add: unl_mtx_def Let_def k4_def ctx_error_def)
  have l': "p_lastmtx (task ?k ?t) = Some m" and q': "queue_of ?k (MtxW m) = u # us" using l q by simp_all
  have r: "tstat (task ?k ?t) = TS_RUNNABLE" using in_task_running [OF i] by (simp add: running_def)
  have "mtx_inv ?k" "midway ?k" using ok lock_entry_task [OF i] by simp_all
  note st = unl_mtx_hands_over_step [OF this, of ?t m, folded k4_def]
  have s: "same_tables k4 (dispatch_if_needed k4)" by (rule switch_tables)
  have c: "mtxcb (dispatch_if_needed k4) = mtxcb k4" by (rule same_tables_sel [OF s])
  have ok': "mtx_inv (snd (unl_mtx mtxid k))" by (rule unl_mtx_inv [OF ok in_task_settled [OF i]])
  have mi: "mtxinib (snd (unl_mtx mtxid k)) = mtxinib k" and mc: "mtxcb (snd (unl_mtx mtxid k)) = mtxcb k4"
    using st(7) [OF l' r q'] same_tables_sel(22) [OF s] c by (simp_all add: eq leave_def) (simp_all add: unlock_cpu_def lock_cpu_def)
  have "m \<in> owned (snd (unl_mtx mtxid k)) u" using st(1) [OF l' r q'] assms(5) by (simp add: owned_def mtx_exists_def mi mc)
  then have "exists_task (snd (unl_mtx mtxid k)) u" using mtx_okD(3) [OF ok'] by blast
  then have "priority (task (snd (unl_mtx mtxid k)) u) = protocol_priority (snd (unl_mtx mtxid k)) u"
    using mtx_okD(8) [OF ok'] by simp
  moreover have "task (snd (unl_mtx mtxid k)) = task k4" "queues (ts (snd (unl_mtx mtxid k))) = queues (ts k4)"
    by (simp_all add: eq leave_def)
  ultimately show ?thesis using st [OF l' r q'] mc by (simp add: eq leave_def)
qed

lemma unl_mtx_hands_over_witness:
  "fst (unl_mtx 1 (demo_locked (\<lambda>_. 0))) = Ret E_OK \<and> queue_of (snd (unl_mtx 1 (demo_locked (\<lambda>_. 0)))) (MtxW 0) = []"
proof -
  have "VALID_ID (tmax_mtxid (demo_locked (\<lambda>_. 0))) 1" "mtx_exists (demo_locked (\<lambda>_. 0)) 0"
    by (simp_all add: VALID_ID_def mtx_exists_def)
  from unl_mtx_hands_over [OF demo_locked_mtx_inv demo_locked_in_task _ this, of 1 "[]"]
  show ?thesis by (auto simp: INDEX_def)
qed

text \<open>C22: the code finds the priority of the protocol. The three loops over the mutexes of a task
  compute what they should: the priority by the ceiling protocol, whether a ceiling mutex is among
  them, and whether a base priority is within all ceilings.\<close>

theorem mutex_loops_compute:
  assumes "mtx_inv k" "consistent k"
  shows "mutex_calc_priority t k = protocol_priority k t \<and>
    (mutex_scan_ceilmtx t k \<longleftrightarrow> (\<exists>m \<in> owned k t. MTX_CEILING k m)) \<and>
    (mutex_check_ceilpri t p k \<longleftrightarrow>
      (\<forall>m. (m \<in> owned k t \<or> t \<in> set (queue_of k (MtxW m))) \<and> MTX_CEILING k m \<longrightarrow> ceilpri (mtxinib k m) \<le> p))"
  using mutex_calc_priority_eq [OF assms(1)] mutex_scan_ceilmtx_eq [OF assms(1)] mutex_check_ceilpri_eq [OF assms] by simp

lemma mutex_loops_compute_witness: "mutex_calc_priority 0 (demo_locked (\<lambda>_. 0)) = 5"
  using mutex_loops_compute [OF demo_locked_mtx_inv settledD [OF in_task_settled [OF demo_locked_in_task]], where t = 0]
  by (simp add: demo_locked_own(4) demo_tcb_def)

text \<open>C23: releasing all mutexes of a task comes to its end: after at most as many rounds as there are
  mutexes the task holds none, its list is empty, and nothing else about it has changed.\<close>

theorem mutex_release_all_ends:
  assumes "mtx_ok {} {t} k" "midway k" "\<And>m. t \<notin> set (queue_of k (MtxW m))"
  shows "owned (mutex_release_all t k) t = {} \<and> task (mutex_release_all t k) t = (task k t)\<lparr>p_lastmtx := None\<rparr> \<and>
    (\<forall>w. set (queue_of (mutex_release_all t k) w) \<subseteq> set (queue_of k w))"
  using mutex_release_all_ok [OF assms] by simp

lemma mutex_release_all_ends_witness: "owned (mutex_release_all 0 (demo_locked (\<lambda>_. 0))) 0 = {}"
proof -
  have "mtx_ok {} {0} (demo_locked (\<lambda>_. 0))" by (rule mtx_ok_mono [OF demo_locked_mtx_inv]) simp_all
  from mutex_release_all_ends [OF this settled_midway [OF in_task_settled [OF demo_locked_in_task]]] show ?thesis by simp
qed

text \<open>C24: the end of a task. \<open>task_terminate\<close> leaves the task with no mutex and in no wait queue,
  dormant, or ready at its initial priority when an activation was queued. Each of its mutexes goes to the first of the other tasks that
  wait for it, which leaves the queue and the wait and gets \<open>E_OK\<close>, or is free when there is none; the tasks that get no mutex are as before,
  and the invariants hold again.\<close>

theorem task_terminate_cleans_up:
  assumes "mtx_inv k" "midway k" "exists_task k t" "running t k \<Longrightarrow> dspflg (ts k) \<and> \<not> sense_context k"
  shows "\<exists>k'. task_terminate t k = k' \<and> mtx_inv k' \<and> midway k' \<and> owned k' t = {} \<and> p_lastmtx (task k' t) = None \<and>
    tstat (task k' t) = (if actque (task k t) then TS_RUNNABLE else TS_DORMANT) \<and>
    priority (task k' t) = ipriority (tinib (ts k) t) \<and> (\<forall>w. t \<notin> set (queue_of k' w)) \<and>
    (\<forall>i\<in>owned k t. case remove1 t (queue_of k (MtxW i)) of
        [] \<Rightarrow> p_loctsk (mtxcb k' i) = None
      | u # us \<Rightarrow> p_loctsk (mtxcb k' i) = Some u \<and> queue_of k' (MtxW i) = us \<and> \<not> TSTAT_WAITING (tstat (task k' u)) \<and>
          w_u (p_winfo (task k' u)) = Wercd E_OK) \<and>
    (\<forall>v. v \<noteq> t \<and> (\<forall>i\<in>owned k t. \<forall>us. remove1 t (queue_of k (MtxW i)) \<noteq> v # us) \<longrightarrow> task k' v = task k v)"
proof -
  note tt = task_terminate_ok [OF assms] and ho = task_terminate_hands_over [OF assms, unfolded heirs_def]
  have "t \<notin> set (queue_of (task_terminate t k) w)" for w
    using queue_member_waiting(1) [OF midwayD [OF tt(2)], of t w] tt(6) by (auto simp: tstat_defs split: if_splits)
  moreover have "case remove1 t (queue_of k (MtxW i)) of
        [] \<Rightarrow> p_loctsk (mtxcb (task_terminate t k) i) = None
      | u # us \<Rightarrow> p_loctsk (mtxcb (task_terminate t k) i) = Some u \<and> queue_of (task_terminate t k) (MtxW i) = us \<and>
          \<not> TSTAT_WAITING (tstat (task (task_terminate t k) u)) \<and> w_u (p_winfo (task (task_terminate t k) u)) = Wercd E_OK"
    if "i \<in> owned k t" for i
    using ho(1,2) [OF _ that] by (simp split: list.split)
  moreover have "task (task_terminate t k) v = task k v"
    if "v \<noteq> t" "\<forall>i\<in>owned k t. \<forall>us. remove1 t (queue_of k (MtxW i)) \<noteq> v # us" for v
    by (rule task_terminate_others [OF assms, unfolded heirs_def]) (use that in simp_all)
  ultimately show ?thesis using tt(1-7) by simp
qed

lemma task_terminate_cleans_up_witness:
  "owned (task_terminate 0 (demo_locked (\<lambda>_. 0))) 0 = {} \<and> tstat (task (task_terminate 0 (demo_locked (\<lambda>_. 0))) 0) = TS_DORMANT \<and>
    p_loctsk (mtxcb (task_terminate 0 (demo_locked (\<lambda>_. 0))) 0) = Some 1 \<and>
    w_u (p_winfo (task (task_terminate 0 (demo_locked (\<lambda>_. 0))) 1)) = Wercd E_OK"
proof -
  let ?k = "demo_locked (\<lambda>_. 0)"
  have "exists_task ?k 0" "dspflg (ts ?k)" "\<not> sense_context ?k" "\<not> actque (task ?k 0)"
    using in_task_not_ctx [OF demo_locked_in_task] by (simp_all add: exists_task_def)
      (simp_all add: demo_locked_def set_lastmtx_def upd_task_def upd_tcb_def map_ts_def demo_defs)
  then show ?thesis
    using task_terminate_cleans_up [OF demo_locked_mtx_inv settled_midway [OF in_task_settled [OF demo_locked_in_task]], of "\<lambda>_. 0" 0]
    by (auto simp: demo_locked_own)
qed

section \<open>The ready queues\<close>

text \<open>C25: the hardware timer. The clock of the kernel follows the counter: when the counter has gone on by \<open>n\<close>, possibly over its
  wrap, \<open>update_current_evttim\<close> advances the event time by $0.03 n$ microseconds, within two; when \<open>n\<close> is at least what
  \<open>target_hrt_set_event\<close> waits for, by at least \<open>hrtcnt\<close>, so no time event is found too early. And a request for an interrupt is not
  lost: the compare value lies ahead of the counter, or the interrupt has been raised.\<close>

theorem timer_never_early:
  assumes "unat hrtcnt \<le> 100000002" "n \<le> 4294967196"
    "current_hrtcnt t = hrt_of_cnt c" "hrt_in t (hrt_n t) = hrt_of_cnt (c + of_nat n)"
  shows "let adv = current_evttim (update_current_evttim t) - current_evttim t; s' = target_hrt_set_event hrtcnt s
    in n * 3 div 100 \<le> unat adv \<and> unat adv \<le> (n + 8) * 3 div 100 + 1 \<and>
      (unat (cnt_of_hrt hrtcnt) \<le> n \<longrightarrow> hrtcnt \<le> adv) \<and>
      ostm_cmp s' = cnt_in s (cnt_n s) + cnt_of_hrt hrtcnt \<and>
      (ostm_pending s' \<or> cnt_in s (cnt_n s + 1) - cnt_in s (cnt_n s) < cnt_of_hrt hrtcnt)"
proof -
  have a: "current_evttim (update_current_evttim t) - current_evttim t = hrt_diff (hrt_of_cnt c) (hrt_of_cnt (c + of_nat n))"
    by (simp add: update_current_evttim_sel hrt_advance_diff assms(3,4))
  show ?thesis
    unfolding Let_def a using hrt_diff_bounds [OF assms(2) refl, of c] timer_not_early [OF assms(1) _ assms(2)] set_event_not_lost(1,2) [OF refl]
    by blast
qed

lemma timer_never_early_witness:
  "let adv = current_evttim (update_current_evttim (demo_tm (\<lambda>_. 3))) - current_evttim (demo_tm (\<lambda>_. 3));
      s' = target_hrt_set_event 3 \<lparr>ostm_ctl = 2, ostm_cmp = 0, ostm_running = True, ostm_pending = False, cnt_in = (\<lambda>_. 0), cnt_n = 0\<rparr>
    in (101 :: nat) * 3 div 100 \<le> unat adv \<and> ostm_cmp s' = 101"
proof -
  have v: "hrt_of_cnt 0 = 0" "hrt_of_cnt (0 + of_nat 101) = 3" "cnt_of_hrt 3 = 101" by (code_simp, code_simp, code_simp)
  have "unat (3 :: HRTCNT) \<le> 100000002" "(101 :: nat) \<le> 4294967196" by simp_all
  moreover have "current_hrtcnt (demo_tm (\<lambda>_. 3)) = hrt_of_cnt 0" "hrt_in (demo_tm (\<lambda>_. 3)) (hrt_n (demo_tm (\<lambda>_. 3))) = hrt_of_cnt (0 + of_nat 101)"
    unfolding v by (simp_all add: demo_tm_def)
  ultimately show ?thesis
    using timer_never_early [of 3 101 "demo_tm (\<lambda>_. 3)" 0
      "\<lparr>ostm_ctl = 2, ostm_cmp = 0, ostm_running = True, ostm_pending = False, cnt_in = (\<lambda>_. 0), cnt_n = 0\<rparr>"]
    unfolding Let_def v by (metis add_0 ostm.select_convs(5))
qed

text \<open>C26: the scheduler picks the right task. Every operation on the ready queues keeps them in order,
  each task in the queue of its priority, and keeps \<open>p_schedtsk\<close>, while dispatching is enabled, the
  first task of the highest priority.\<close>

theorem ready_queue_operations:
  assumes "core L s"
  shows "(L t = None \<and> priority (tcb s t) < TNUM_TPRI \<longrightarrow>
      core (L(t \<mapsto> ReadyQ (priority (tcb s t)))) (make_runnable t s)) \<and>
    (L t = Some (ReadyQ (priority (tcb s t))) \<longrightarrow> core (L(t := None)) (make_non_runnable t s)) \<and>
    (pri < TNUM_TPRI \<longrightarrow> core L (rotate_ready_queue pri s)) \<and>
    (L t = Some (ReadyQ old) \<and> pri < TNUM_TPRI \<longrightarrow>
      core (L(t \<mapsto> ReadyQ pri)) (change_priority_ready t old pri m (upd_tcb t (\<lambda>b. b\<lparr>priority := pri\<rparr>) s))) \<and>
    (L t = Some (ReadyQ old) \<longrightarrow> core L (set_dspflg s))"
  using make_runnable_core [OF assms] make_non_runnable_core [OF assms] rotate_ready_queue_core [OF assms]
    change_priority_ready_core [OF assms _ _ refl] set_dspflg_core [OF assms] by blast

lemma ready_queue_operations_witness: "core ((loc (demo (\<lambda>_. 0) (SemW 0)))(0 := None)) (make_non_runnable 0 (demo_ts (SemW 0)))"
proof -
  have "core (loc (demo (\<lambda>_. 0) (SemW 0))) (demo_ts (SemW 0))" using demo_core by (simp add: demo_def)
  from ready_queue_operations [OF this, of 0] show ?thesis by (simp add: demo_loc demo_ts_def demo_tcb_def)
qed

section \<open>Time events\<close>

text \<open>C27: the heap is a timer queue. Taking the first event again and again yields every registered
  event once, in the order of their times relative to the boundary.\<close>

theorem time_events_in_order:
  assumes "timers s A" "card A = n"
  shows "\<exists>rs s'. heap.drain n s = (rs, s') \<and> set rs = A \<and> distinct rs \<and> sorted (map (event_key s) rs) \<and> timers s' {}"
  using assms by (rule heap.drain_sorted)

lemma no_timers: "timers (demo_tm hrt) {}"
  by (simp add: timers_def in_heap_def linked_def bij_betw_def heap_ordered_def ordered_def demo_tm_def)

lemma time_events_in_order_witness:
  "\<exists>rs s'. heap.drain 2 (tmevtb_insert (TskTM 4) (tmevtb_insert (TskTM 3) (demo_tm (\<lambda>_. 0)))) = (rs, s') \<and> set rs = {TskTM 3, TskTM 4}"
proof -
  have "timers (tmevtb_insert (TskTM 4) (tmevtb_insert (TskTM 3) (demo_tm (\<lambda>_. 0)))) {TskTM 4, TskTM 3}"
    by (intro heap.reg no_timers) simp_all
  from time_events_in_order [OF this, of 2] show ?thesis by auto
qed

text \<open>C28: the system time never runs backwards. A time update advances the 64-bit system time by what
  the event time moves past the monotonic time, with the carry out of the 32-bit event time.\<close>

theorem system_time_advances:
  "systim (update_current_evttim s) =
     systim s + (let lag = monotonic_evttim s - current_evttim s
                 in if lag < hrt_advance s then ucast (hrt_advance s - lag) else 0)"
  by (rule systim_update)

section \<open>Interrupts and the memory of the kernel\<close>

text \<open>C29: the search for the queue of an interrupt number. The binary search over the table of the configurator, which is
  ordered by interrupt number, finds what a linear search finds.\<close>

theorem isr_search_is_lookup:
  assumes "sorted_wrt (<) (map fst L)" shows "search_isr_queue L intno = map_of L intno"
  using assms by (rule search_isr_queue_map_of)

lemma isr_search_is_lookup_witness: "search_isr_queue [(35, 0), (40, 1), (41, 2)] 40 = Some 1"
  using isr_search_is_lookup [of "[(35, 0), (40, 1), (41, 2)]" 40] by simp

text \<open>C30: interrupt service routines. Creation and deletion keep every queue of routines in the order of their priorities, each
  routine in its queue once, and leave the kernel in order; so does an interrupt that runs the routines of
  a queue: whether or not they lock the CPU, each of them starts with the CPU unlocked, and at the end the processor is out of the
  interrupt.\<close>

theorem interrupts_in_order:
  assumes "isr_inv s" "good (ker s)"
  shows "isr_inv (snd (acre_isr thumb atr intno routine pri exi s)) \<and> good (ker (snd (acre_isr thumb atr intno routine pri exi s))) \<and>
    isr_inv (snd (del_isr isrid s)) \<and> good (ker (snd (del_isr isrid s))) \<and>
    (isrs_good ui \<and> \<not> sense_lock (ker s) \<longrightarrow>
      isr_inv (interrupt ui q s) \<and> good (ker (interrupt ui q s)) \<and> \<not> sense_context (ker (interrupt ui q s)))"
  using assms acre_isr_inv del_isr_inv isr_calls_good interrupt_good by (simp add: interrupt_def call_isr_def)

definition demo_gic :: gic where
  "demo_gic =
     \<lparr>gicd_enable = (\<lambda>n. 0), gicd_pend = (\<lambda>n. 0), gicd_ipriority = (\<lambda>n. 0), gicd_itargets = (\<lambda>n. 0), gicd_icfg = (\<lambda>n. 0),
      gicd_sgir = [], gicd_ctlr = 0, gicc_ctlr = 0, gicc_pmr = 0, gicc_bpr = 0, rza1_icr1 = 0\<rparr>"

definition demo_int :: "kernel \<Rightarrow> intsys" where
  "demo_int k =
     \<lparr>ker = k, intc = demo_gic, intcfg_table = (\<lambda>i. True), isr_queue_list = [(35, 0)], tmax_isrid = 2, tmax_sisrid = 1,
      isrinib = (\<lambda>i. \<lparr>isratr = (if i = 0 then 0 else TA_NOEXS), isr_exinf = 0, isr_queue_no = 0, isr = 0x100, isrpri = 1\<rparr>),
      isr_queue = (\<lambda>q. if q = 0 then [0] else []), free_isrcb = [1]\<rparr>"

lemma demo_isr_inv: "isr_inv (demo_int k)"
  by (auto simp: isr_inv_def demo_int_def isr_exists_def)

lemma interrupts_in_order_witness:
  "isr_inv (snd (acre_isr True 0 35 0x200 1 7 (demo_int (started (\<lambda>_. 0))))) \<and> good (ker (interrupt (\<lambda>a e k. lock_cpu k) 0 (demo_int (started (\<lambda>_. 0)))))"
proof -
  have "isrs_good (\<lambda>a e k. lock_cpu k)" by (simp add: isrs_good_def good_lock)
  moreover have "good (ker (demo_int (started (\<lambda>_. 0))))" "\<not> sense_lock (ker (demo_int (started (\<lambda>_. 0))))"
    by (simp_all add: demo_int_def started_ok)
  ultimately show ?thesis using interrupts_in_order [OF demo_isr_inv, of "started (\<lambda>_. 0)"] by blast
qed

text \<open>C31: the interrupt controller. The registers pack the settings of 32, 16 or 4 interrupts into a word; \<open>config_int\<close> gives
  its interrupt the priority, the trigger and the enable bit it is asked for, and changes the setting of no other.\<close>

theorem config_int_configures_one:
  assumes "TMIN_INTPRI \<le> p" "p \<le> TMAX_INTPRI"
  shows "setting (config_int i atr p g) =
    (setting g)(i := \<lparr>s_enabled = atr AND TA_ENAINT \<noteq> 0, s_pending = s_pending (setting g i) \<and> atr AND TA_EDGE = 0,
      s_priority = INT_IPM p, s_target = 1,
      s_config = (if GIC_INTNO_PPI0 \<le> i then if atr AND TA_EDGE \<noteq> 0 then 3 else 1 else s_config (setting g i))\<rparr>)"
  using config_int_setting [OF assms] by (auto simp: fun_eq_iff)

lemma config_int_configures_one_witness: "s_priority (setting (config_int 35 3 (- 5) demo_gic) 35) = 208"
  using config_int_configures_one [of "- 5" 35 3 demo_gic] by (simp add: TMIN_INTPRI_def TMAX_INTPRI_def INT_IPM_def GIC_PRI_LEVEL_def)

text \<open>C32: the memory pool of the kernel. After any sequence of requests and returns, the areas that are handed out do not overlap,
  and lie within the pool behind its control block.\<close>

theorem pool_areas_apart:
  assumes "unat mpk + unat mpksz < 2 ^ 32" "fst (initialize_mempool mpk mpksz c)"
    and "mempool.pool_run mpk ops (snd (initialize_mempool mpk mpksz c)) [] = Some (c', A)"
  shows "separate (unat mpk + 12) (unat mpk + unat mpksz) A"
  using mempool.pool_run_separate [OF initialize_mempool_ok [OF assms(1,2)] assms(3)] .

lemma pool_areas_apart_witness:
  "separate 4108 5120 [(4132, 8), (4108, 24)]"
proof -
  let ?c = "\<lparr>mp_brk = 0, mp_limit = 0, mp_count = 0\<rparr>"
  have r: "mempool.pool_run 0x1000 [Malloc 24, Malloc 8] (snd (initialize_mempool 0x1000 0x400 ?c)) [] =
      Some (\<lparr>mp_brk = 4140, mp_limit = 5120, mp_count = 2\<rparr>, [(4132, 8), (4108, 24)])"
    by (simp add: initialize_mempool_def malloc_mempool_def)
  from pool_areas_apart [OF _ _ r] show ?thesis by (simp add: initialize_mempool_def)
qed

section \<open>Queues of pointers\<close>

text \<open>C33: the pointer code of queue.h is a queue. Two entries appended to an empty ring are taken
  out in the same order, and the ring is left as it was.\<close>

theorem pointer_queue_is_fifo:
  assumes "rings m Q" "Q h = []" "unlinked a Q" "unlinked b Q" "a \<noteq> b"
  shows "\<exists>m' m''.
    ptr_take_next h (queue_insert_prev (Inl h) (Inr b) (queue_insert_prev (Inl h) (Inr a) m)) = (Some a, m') \<and>
    ptr_take_next h m' = (Some b, m'') \<and> rings m'' Q"
  using assms by (rule ptr.fifo)

definition self_rings :: "(nat + nat) qmem" where
  "self_rings = \<lparr>p_next = (\<lambda>x. x), p_prev = (\<lambda>x. x)\<rparr>"

lemma self_rings: "rings self_rings (\<lambda>_. [])"
  by (simp add: rings_def family_def ring_def self_rings_def)

lemma pointer_queue_is_fifo_witness:
  "\<exists>m' m''. ptr_take_next 3 (queue_insert_prev (Inl 3) (Inr 8) (queue_insert_prev (Inl 3) (Inr 7) self_rings)) = (Some 7, m') \<and>
    ptr_take_next 3 m' = (Some (8 :: nat), m'') \<and> rings m'' (\<lambda>_. [])"
  by (rule pointer_queue_is_fifo [OF self_rings]) (simp_all add: unlinked_def)

text \<open>C34: the loop of \<open>queue_insert_tpri\<close> over pointers terminates and inserts the entry in front of
  the first entry it should precede, as the model of the wait queues does on lists.\<close>

theorem ordered_insert_refines:
  assumes "rings m Q" "unlinked n Q" "length (Q h) < fuel"
  shows "\<exists>m'. queue_insert_before fuel stop h n m = Some m' \<and> rings m' (Q(h := lq_insert_before stop n (Q h)))"
  using assms by (rule queue_insert_before_refines)

lemma ordered_insert_refines_witness:
  "\<exists>m'. queue_insert_before 1 (\<lambda>_. False) 3 7 self_rings = Some m' \<and> rings m' ((\<lambda>_. [])(3 := [7 :: nat]))"
  using ordered_insert_refines [OF self_rings, where n = 7 and h = 3 and fuel = 1 and stop = "\<lambda>_. False"]
  by (simp add: unlinked_def)

text \<open>C35: the serial port sends what is written to it, in order. Whatever interrupts come, a write of \<open>buffer\<close> that returns \<open>k\<close> has put
  the first \<open>k\<close> characters (with a CR before a LF, if the port does that) after those that were there before, in the send buffer or in the
  device, and no other; a write that is broken off may have sent the CR of the next one. The buffers and semaphores are in order again.
  (\<open>stream\<close>, what is compared, leaves the START and STOP characters out, also those in \<open>buffer\<close>: the driver puts its own between the
  characters.)\<close>

theorem serial_write_in_order:
  assumes "port_ok False hr s" "sp_open s" "\<not> sp_error s" "length buffer < 2 ^ 31" "eSerialPort_write False True buffer s = Some (r, s')"
  shows "port_ok False hr s' \<and>
    (\<exists>k cr e. k \<le> length buffer \<and> r = (if k = 0 then Ret e else RetUint (int k)) \<and> (k = length buffer \<longleftrightarrow> e = E_OK) \<and>
       cr \<in> {[], [CR]} \<and> (e = E_OK \<longrightarrow> cr = [] \<and> \<not> sp_error s') \<and>
       stream s' = stream s @ filter is_data (cooked (sp_ioctl s) (take k buffer) @ cr))"
proof -
  obtain k e cr where d: "k \<le> length buffer" "cr \<in> {[], [CR]}" "r = count_or k e" "k = length buffer \<longleftrightarrow> e = E_OK" "e = E_OK \<longrightarrow> cr = []"
    "does (e = E_OK) False hr (cooked (sp_ioctl s) (take k buffer) @ cr) [] s s'"
    using write_does [OF assms(5,1-3)] by blast
  have "k < 2 ^ 31" using d(1) assms(4) by simp
  then show ?thesis using d assms(3) unfolding does_def did_def by (auto simp: count_or_small)
qed

lemma serial_write_in_order_witness:
  "\<exists>r s'. eSerialPort_write False True [CHR ''a'', LF] (demo_port []) = Some (r, s') \<and> port_ok False False s'"
proof -
  have "eSerialPort_write False True [CHR ''a'', LF] (demo_port []) \<noteq> None" by code_simp
  then obtain r s' where "eSerialPort_write False True [CHR ''a'', LF] (demo_port []) = Some (r, s')" by auto
  then show ?thesis using serial_write_in_order [OF demo_port_ok, of "[CHR ''a'', LF]"] by auto
qed

text \<open>C36: the serial port gives out what it has received, in order, and echoes it. Whatever interrupts come, the characters read are the oldest
  of those that were in the receive buffer or came into it. With the echo, just these characters are sent, with a CR before a LF if the
  port does that; without it no data is sent. Only a read whose wait is broken off while it echoes may not have sent the last character
  it has read, or only the CR before it. When no wait is broken off the read returns all that it was asked for or a timeout, and the
  buffers and semaphores are in order again. (As in C35 \<open>stream\<close> leaves START and STOP characters out: a read may also send START.)\<close>

theorem serial_read_in_order:
  assumes "port_ok False False s" "sp_open s" "\<not> sp_error s" "len < 2 ^ 31" "eSerialPort_read False True len tmout s = Some (r, buf, s')"
  shows "length buf \<le> len \<and> (\<exists>new. rx_log s' = rx_log s @ new \<and> rcv_list s @ new = buf @ rcv_list s') \<and>
    (\<exists>w h. port_ok False h s' \<and> stream s' = stream s @ filter is_data w \<and>
       (w = echoed (sp_ioctl s) buf \<and> \<not> h \<or>
        \<not> unbroken s \<and> sp_ioctl s AND IOCTL_ECHO \<noteq> 0 \<and> buf \<noteq> [] \<and> r = RetUint (int (length buf)) \<and>
          w \<in> {echoed (sp_ioctl s) (butlast buf), echoed (sp_ioctl s) (butlast buf) @ [CR]})) \<and>
    (r = Ret E_TMOUT \<or> (if buf = [] then \<exists>e. r = Ret e \<and> (e = E_OK \<longrightarrow> len = 0) else r = RetUint (int (length buf)))) \<and>
    (unbroken s \<and> VALID_TMOUT tmout \<longrightarrow> \<not> sp_error s' \<and> (r = Ret E_TMOUT \<or> length buf = len \<and> r = (if len = 0 then Ret E_OK else RetUint (int len))))"
proof -
  note d = read_does [OF assms(5,1-3)]
  have l: "length buf < 2 ^ 31" using d assms(4) by simp
  show ?thesis
  proof (cases "(length buf = len \<and> r = count_or len E_OK \<or> r = Ret E_TMOUT) \<and> does True False False (echoed (sp_ioctl s) buf) buf s s'")
    case True
    then show ?thesis using d assms(3) count_or_small [OF assms(4), of E_OK] unfolding does_def did_def by auto
  next
    case False
    then obtain e h w where e: "e \<noteq> E_OK" "r = count_or (length buf) e" "\<not> (unbroken s \<and> VALID_TMOUT tmout)" "echo_of (sp_ioctl s) buf h w"
      "h \<longrightarrow> \<not> unbroken s" "w \<noteq> echoed (sp_ioctl s) buf \<longrightarrow> \<not> unbroken s" "does False False h w buf s s'" using d by blast
    have r: "r = (if buf = [] then Ret e else RetUint (int (length buf)))" using e(2) count_or_small [OF l, of e] by simp
    have w: "w = echoed (sp_ioctl s) buf \<and> \<not> h \<or> \<not> unbroken s \<and> sp_ioctl s AND IOCTL_ECHO \<noteq> 0 \<and> buf \<noteq> [] \<and> r = RetUint (int (length buf)) \<and>
        w \<in> {echoed (sp_ioctl s) (butlast buf), echoed (sp_ioctl s) (butlast buf) @ [CR]}"
      using e(4-6) r unfolding echo_of_def by auto
    have "port_ok False h s'" "stream s' = stream s @ filter is_data w"
      "\<exists>new. rx_log s' = rx_log s @ new \<and> rcv_list s @ new = buf @ rcv_list s'" using e(7) by (simp_all add: does_def did_def)
    then show ?thesis using d w r e(1,3) by (intro conjI) auto
  qed
qed

lemma serial_read_in_order_witness:
  "\<exists>r buf s'. eSerialPort_read False True 1 TMO_FEVR (demo_port [Got CHR ''A'', Go, Go, Go, Go, Go]) = Some (r, buf, s') \<and>
    (r = Ret E_TMOUT \<or> length buf = 1 \<and> r = RetUint 1)"
proof -
  let ?s = "demo_port [Got CHR ''A'', Go, Go, Go, Go, Go]"
  have "eSerialPort_read False True 1 TMO_FEVR ?s \<noteq> None" by code_simp
  then obtain r buf s' where "eSerialPort_read False True 1 TMO_FEVR ?s = Some (r, buf, s')" by auto
  moreover have "sp_evs ?s = [Got CHR ''A'', Go, Go, Go, Go, Go]" by code_simp
  then have "unbroken ?s" by (simp add: unbroken_def)
  moreover have "VALID_TMOUT TMO_FEVR" by code_simp
  ultimately show ?thesis using serial_read_in_order [OF demo_port_ok, of 1 TMO_FEVR] by fastforce
qed

text \<open>C37: a write for which there is room returns. Whatever interrupts come, and whoever tries to break off a wait, a write whose
  characters find room in the send buffer does not wait and returns their number.\<close>

theorem serial_write_returns:
  assumes "port_ok False hr s" "sp_open s" "\<not> sp_error s" "length buffer < 2 ^ 31"
    "fill s + length (cooked (sp_ioctl s) buffer) \<le> unat (snd_size s)"
  shows "\<exists>s'. eSerialPort_write False True buffer s = Some (if buffer = [] then Ret E_OK else RetUint (int (length buffer)), s')"
  using write_room [OF assms(1-3,5)] count_or_small [OF assms(4), of E_OK] by (cases "buffer = []") auto

lemma serial_write_returns_witness:
  "\<exists>s'. eSerialPort_write False True [CHR ''a'', LF] (demo_port [Broken E_RLWAI, Sent 3, Got FC_STOP]) = Some (RetUint 2, s')"
proof -
  have "fill (demo_port [Broken E_RLWAI, Sent 3, Got FC_STOP]) +
      length (cooked (sp_ioctl (demo_port [Broken E_RLWAI, Sent 3, Got FC_STOP])) [CHR ''a'', LF])
      \<le> unat (snd_size (demo_port [Broken E_RLWAI, Sent 3, Got FC_STOP]))" by code_simp
  then show ?thesis using serial_write_returns [OF demo_port_ok, of "[CHR ''a'', LF]"] by simp
qed

text \<open>C38: a proxy string means what it says. The two forms of the usage text, with and without user and password, set address, port,
  user and password, and so does an address alone; the port is the number that its digits say, if an \<open>int\<close> holds it, and 8080 if none
  is given.\<close>

theorem proxy_string_is_set:
  assumes "CHR 0x00 \<notin> set (u @ w @ a)" "set u \<inter> {CHR '':'', CHR ''@''} = {}" "CHR ''@'' \<notin> set w"
    "set a \<inter> {CHR '':'', CHR ''@''} = {}" "\<forall>c\<in>set ds. digit c" "decimal ds < 2 ^ 31" "a \<noteq> []" "\<And>n. length (junk n) = n"
  shows "(\<exists>e'. set_proxy_main junk True [cmd, ''http://'' @ u @ '':'' @ w @ ''@'' @ a @ '':'' @ ds] e = Some (0, e') \<and> proxy_set u w a ds e' \<and>
      sint (opt_port e') = (if ds = [] then 8080 else int (decimal ds))) \<and>
    (\<exists>e'. set_proxy_main junk True [cmd, ''http://'' @ a @ '':'' @ ds] e = Some (0, e') \<and> proxy_set [] [] a ds e' \<and>
      sint (opt_port e') = (if ds = [] then 8080 else int (decimal ds))) \<and>
    (\<exists>e'. set_proxy_main junk True [cmd, ''http://'' @ a] e = Some (0, e') \<and> proxy_set [] [] a [] e' \<and> sint (opt_port e') = 8080)"
proof -
  have "\<not> digit CHR 0x00" "\<not> digit CHR ''@''" by (simp_all add: digit_def)
  then have ds: "CHR 0x00 \<notin> set ds" "CHR ''@'' \<notin> set ds" using assms(5) by blast+
  have c: "CHR '':'' \<notin> set a" and z: "CHR 0x00 \<notin> set (u @ w @ a @ ds)" "CHR 0x00 \<notin> set (a @ ds)" "CHR 0x00 \<notin> set a" using assms(1,4) ds by auto
  have p: "sint (opt_port e') = (if ds = [] then 8080 else int (decimal ds))" if "proxy_set u' w' a ds e'" for u' w' e'
    using that atoi_port [OF assms(5,6)] by (simp add: proxy_set_def)
  have p0: "sint (opt_port e') = 8080" if "proxy_set [] [] a [] e'" for e' using that by (simp add: proxy_set_def)
  show ?thesis
    using set_proxy_full [OF z(1) assms(2,3) c assms(7,8)] set_proxy_address_port [OF z(2) assms(4) ds(2) assms(7,8)]
      set_proxy_address [OF z(3) assms(4,7,8)] p p0 by blast
qed

lemma proxy_string_is_set_witness:
  "\<exists>e'. set_proxy_main (\<lambda>n. replicate n CHR ''x'') True [''set_proxy'', ''http://me:pw@host:3128'']
      \<lparr>connectionString = None, opt_buf = [], host_address = None, opt_port = 0, opt_username = None, opt_password = None, g_use_proxy = False\<rparr>
    = Some (0, e') \<and> sint (opt_port e') = 3128"
proof -
  have "decimal ''3128'' = 3128" by code_simp
  then show ?thesis
    using proxy_string_is_set [of "''me''" "''pw''" "''host''" "''3128''" "\<lambda>n. replicate n CHR ''x''" "''set_proxy''"] by (auto simp: digit_def)
qed

text \<open>C39: the proxy command is safe. Whatever its argument is, it reads no character outside the argument and writes none
  outside the block that it has allocated.\<close>

theorem proxy_parser_safe:
  assumes "\<And>n. length (junk n) = n" "CHR 0x00 \<notin> set (argv ! 1)"
  shows "\<exists>r e'. set_proxy_main junk ok argv e = Some (r, e') \<and> (r = 0 \<or> r = -1 \<and> e' = e)"
proof -
  obtain r e' where s: "set_proxy_main junk ok argv e = Some (r, e')" using set_proxy_safe [OF assms, of ok e] by auto
  then have "r = 0 \<or> r = -1 \<and> e' = e"
    by (auto simp: set_proxy_main_def store_proxy_def Let_def split: if_splits option.splits prod.splits)
  then show ?thesis using s by blast
qed

lemma proxy_parser_safe_witness:
  "\<exists>r e'. set_proxy_main (\<lambda>n. replicate n CHR ''x'') True [''set_proxy'', ''http:/'']
      \<lparr>connectionString = None, opt_buf = [], host_address = None, opt_port = 0, opt_username = None, opt_password = None, g_use_proxy = False\<rparr>
    = Some (r, e') \<and> (r = 0 \<or> r = -1)"
  using proxy_parser_safe [of "\<lambda>n. replicate n CHR ''x''" "[''set_proxy'', ''http:/'']" True
    "\<lparr>connectionString = None, opt_buf = [], host_address = None, opt_port = 0, opt_username = None, opt_password = None, g_use_proxy = False\<rparr>"]
  by auto

text \<open>C40: every message is destroyed once. In whatever order the SDK confirms the messages, if no slot of the array of messages is used
  again before the message in it is confirmed, then when the client ends each message that the SDK accepted has been destroyed just once,
  and no other.\<close>

theorem messages_destroyed_once:
  assumes "slots_ok c" "on_time rs c" "client_loop ord rs c = (True, c')"
  shows "mset (destroyed c') = mset (map Some (accepted c')) \<and> distinct (accepted c')"
proof -
  have s: "slots_ok c'" using loop_slots [OF assms(1,2), of ord] assms(3) by simp
  then show ?thesis using loop_end_sending [OF assms(3)] by (simp add: slots_ok_def strict_sorted_iff)
qed

text \<open>Two messages are on their way, and a third is sent; the second is confirmed first, and the client ends.\<close>

definition two_sent :: "unit client" where
  "two_sent = (client_start False)\<lparr>iterator := 5000, msg_id := 2, handles := 2, slot_handle := (\<lambda>i. if i = 0 then Some 0 else if i = 1 then Some 1 else None),
     sending := [(0, 0), (1, 1)], accepted := [0, 1]\<rparr>"

lemma messages_destroyed_once_witness:
  "mset (destroyed (snd (client_loop [1] [\<lparr>serialized = True, created = True, sent = True, work = [Confirmed 1, Message (Some ''quit'')]\<rparr>] two_sent)))
    = {#Some 0, Some 1, Some 2#}"
proof -
  let ?r = "\<lparr>serialized = True, created = True, sent = True, work = [Confirmed 1, Message (Some ''quit'')]\<rparr>"
  note defs = two_sent_def client_start_def do_round_def send_message_def Let_def handle_event_def ReceiveMessageCallback_def destroy_client_def
    SendConfirmationCallback_def signed_modulo_int_def signed_divide_int_def
  have l: "client_loop [1] [?r] two_sent = (True, snd (client_loop [1] [?r] two_sent))" "accepted (snd (client_loop [1] [?r] two_sent)) = [0, 1, 2]"
    by (simp_all add: defs)
  have "slots_ok two_sent" "on_time [?r] two_sent" by (simp_all add: slots_ok_def slot_free_def defs)
  from messages_destroyed_once [OF this l(1)] show ?thesis using l(2) by simp
qed

end
